(* ===== verification/Havoq_Prelude.thy ===== *)
theory Havoq_Prelude
  imports Main "HOL-Library.Word" "HOL-Library.Multiset"
begin

section \<open>Prelude: shared types, automation and lemmas\<close>

text \<open>
  Names for the machine integers of the C++ code, the collections the component proofs use, and
  the facts about words and lists that several components share.
\<close>

unbundle bit_operations_syntax

type_synonym u16 = "16 word"
type_synonym u32 = "32 word"
type_synonym u64 = "64 word"

named_theorems model_defs \<open>definitions a component proof unfolds\<close>

subsection \<open>Injective word functions\<close>

text \<open>
  A function on words is strictly triangular when the low \<open>n\<close> bits of its argument decide the
  low \<open>n + 1\<close> bits of its result; left shifts are, and sums and exclusive-ors of such functions.
\<close>

definition tri :: "('a::len word \<Rightarrow> 'a word) \<Rightarrow> bool" where
  "tri g \<longleftrightarrow> (\<forall>n a b. take_bit n a = take_bit n b \<longrightarrow> take_bit (Suc n) (g a) = take_bit (Suc n) (g b))"

lemma triD: "tri g \<Longrightarrow> take_bit n a = take_bit n b \<Longrightarrow> take_bit (Suc n) (g a) = take_bit (Suc n) (g b)"
  unfolding tri_def by blast

lemma tri_const [intro]: "tri (\<lambda>_. c)"
  by (simp only: tri_def) blast

lemma tri_push_bit [intro]:
  assumes "0 < k" shows "tri (push_bit k)"
  unfolding tri_def
proof (intro allI impI)
  fix n and a b :: "'a word"
  assume eq: "take_bit n a = take_bit n b"
  have bits: "bit a j = bit b j" if "j < n" for j
    using arg_cong [OF eq, of "\<lambda>w. bit w j"] that by (simp add: bit_take_bit_iff)
  show "take_bit (Suc n) (push_bit k a) = take_bit (Suc n) (push_bit k b)"
  proof (rule bit_eqI)
    fix j
    show "bit (take_bit (Suc n) (push_bit k a)) j = bit (take_bit (Suc n) (push_bit k b)) j"
      using bits [of "j - k"] assms by (cases "k \<le> j") (auto simp: bit_take_bit_iff bit_push_bit_iff)
  qed
qed

lemma int_take_bit_add_cong:
  "take_bit m (x::int) = take_bit m x' \<Longrightarrow> take_bit m y = take_bit m y' \<Longrightarrow>
     take_bit m (x + y) = take_bit m (x' + y')"
  by (metis take_bit_add)

lemma int_take_bit_diff_cong:
  "take_bit m (x::int) = take_bit m x' \<Longrightarrow> take_bit m y = take_bit m y' \<Longrightarrow>
     take_bit m (x - y) = take_bit m (x' - y')"
  by (metis take_bit_diff)

lemma take_bit_add_cong:
  fixes a b :: "'a::len word"
  assumes "take_bit n a = take_bit n a'" "take_bit n b = take_bit n b'"
  shows "take_bit n (a + b) = take_bit n (a' + b')"
  using assms by transfer (simp add: take_bit_take_bit, rule int_take_bit_add_cong)

lemma take_bit_diff_cong:
  fixes a b :: "'a::len word"
  assumes "take_bit n a = take_bit n a'" "take_bit n b = take_bit n b'"
  shows "take_bit n (a - b) = take_bit n (a' - b')"
  using assms by transfer (simp add: take_bit_take_bit, rule int_take_bit_diff_cong)

lemma tri_add [intro]: "tri f \<Longrightarrow> tri g \<Longrightarrow> tri (\<lambda>a. f a + g a)"
  by (simp only: tri_def) (blast intro: take_bit_add_cong)

lemma low_bits_inj:
  assumes step: "\<And>n. take_bit n a = take_bit n b \<Longrightarrow> take_bit (Suc n) a = take_bit (Suc n) b"
  shows "a = (b :: 'a::len word)"
proof -
  have "take_bit n a = take_bit n b" for n
    by (induction n) (auto intro: step)
  from this [of "LENGTH('a)"] show ?thesis
    by (simp add: take_bit_word_eq_self)
qed

lemma inj_add_tri:
  fixes g :: "'a::len word \<Rightarrow> 'a word"
  assumes "tri g" shows "inj (\<lambda>a. a + g a)"
proof (rule injI, rule low_bits_inj)
  fix a b n assume eq: "a + g a = b + g b" and low: "take_bit n a = take_bit n b"
  have "take_bit (Suc n) ((a + g a) - g a) = take_bit (Suc n) ((b + g b) - g b)"
    by (rule take_bit_diff_cong [OF _ triD [OF assms low]]) (simp only: eq)
  then show "take_bit (Suc n) a = take_bit (Suc n) b" by simp
qed

lemma inj_diff_tri:
  fixes g :: "'a::len word \<Rightarrow> 'a word"
  assumes "tri g" shows "inj (\<lambda>a. g a - a)"
proof (rule injI, rule low_bits_inj)
  fix a b n assume eq: "g a - a = g b - b" and low: "take_bit n a = take_bit n b"
  have "take_bit (Suc n) (g a - (g a - a)) = take_bit (Suc n) (g b - (g b - b))"
    by (rule take_bit_diff_cong [OF triD [OF assms low]]) (simp only: eq)
  then show "take_bit (Suc n) a = take_bit (Suc n) b" by simp
qed

lemma inj_xor_tri:
  fixes g :: "'a::len word \<Rightarrow> 'a word"
  assumes "tri g" shows "inj (\<lambda>a. (a + c) XOR g a)"
proof (rule injI, rule low_bits_inj)
  fix a b n assume eq: "(a + c) XOR g a = (b + c) XOR g b" and low: "take_bit n a = take_bit n b"
  have "take_bit (Suc n) (((a + c) XOR g a) XOR g a) = take_bit (Suc n) (((b + c) XOR g b) XOR g b)"
    using triD [OF assms low] by (simp only: eq take_bit_xor)
  then have "take_bit (Suc n) (a + c) = take_bit (Suc n) (b + c)"
    by (simp add: xor.assoc)
  then have "take_bit (Suc n) ((a + c) - c) = take_bit (Suc n) ((b + c) - c)"
    by (rule take_bit_diff_cong) simp
  then show "take_bit (Suc n) a = take_bit (Suc n) b" by simp
qed

text \<open>The right-shift mixing step: decided from the top bit down.\<close>

lemma inj_xor_shift_right:
  fixes c :: "'a::len word"
  assumes "0 < k" shows "inj (\<lambda>a. (a XOR c) XOR drop_bit k a)"
proof (rule injI)
  fix a b :: "'a word" assume eq: "(a XOR c) XOR drop_bit k a = (b XOR c) XOR drop_bit k b"
  have step: "bit a n = bit b n" if "bit a (k + n) = bit b (k + n)" "n < LENGTH('a)" for n
    using arg_cong [OF eq, of "\<lambda>w. bit w n"] that by (auto simp: bit_simps)
  have top: "bit a n = bit b n" if "n + d = LENGTH('a)" for d n
    using that
  proof (induction d arbitrary: n rule: less_induct)
    case (less d)
    show ?case
    proof (cases "d = 0")
      case True with less.prems show ?thesis by (simp add: impossible_bit)
    next
      case False
      have "bit a (k + n) = bit b (k + n)"
      proof (cases "k \<le> d")
        case True
        then have "d - k < d" "k + n + (d - k) = LENGTH('a)" using assms less.prems False by auto
        then show ?thesis using less.IH by blast
      next
        case False with less.prems show ?thesis by (simp add: impossible_bit)
      qed
      moreover have "n < LENGTH('a)" using False less.prems by simp
      ultimately show ?thesis by (rule step)
    qed
  qed
  show "a = b"
  proof (rule bit_word_eqI)
    fix n assume "n < LENGTH('a)"
    then have "n + (LENGTH('a) - n) = LENGTH('a)" by simp
    then show "bit a n = bit b n" by (rule top)
  qed
qed

lemma finite_word_inj_bij:
  fixes f :: "'a::len word \<Rightarrow> 'a word"
  assumes "inj f" shows "bij f"
  by (intro bijI assms finite_UNIV_inj_surj) simp

lemma those_map_Some: "(\<And>x. x \<in> set xs \<Longrightarrow> f x = Some (g x)) \<Longrightarrow> those (map f xs) = Some (map g xs)"
  by (induction xs) simp_all

end
