(* ===== verification/Hashing.thy ===== *)
theory Hashing
  imports Havoq_Prelude
begin

section \<open>Integer hash functions (detail/hash.hpp)\<close>

text \<open>
  The mixing functions the edge generators use to scramble vertex labels.  All arithmetic is on
  words of the width of the C++ type; \<open>hash16\<close> computes in \<open>int\<close> and truncates on every
  assignment, which is arithmetic modulo \<open>2 ^ 16\<close>.
\<close>

definition hash32 :: "u32 \<Rightarrow> u32" where
  "hash32 a0 =
     (let a1 = (a0 + 0x7ed55d16) + push_bit 12 a0;
          a2 = (a1 XOR 0xc761c23c) XOR drop_bit 19 a1;
          a3 = (a2 + 0x165667b1) + push_bit 5 a2;
          a4 = (a3 + 0xd3a2646c) XOR push_bit 9 a3;
          a5 = (a4 + 0xfd7046c5) + push_bit 3 a4
      in (a5 XOR 0xb55a4f09) XOR drop_bit 16 a5)"

definition hash16 :: "u16 \<Rightarrow> u16" where
  "hash16 a0 =
     (let a1 = (a0 + 0x5d16) + push_bit 6 a0;
          a2 = (a1 XOR 0xc23c) XOR drop_bit 9 a1;
          a3 = (a2 + 0x67b1) + push_bit 5 a2;
          a4 = (a3 + 0x646c) XOR push_bit 7 a3;
          a5 = (a4 + 0x46c5) + push_bit 3 a4
      in (a5 XOR 0x4f09) XOR drop_bit 8 a5)"

text \<open>Hash the 32 (16) bits of \<open>input\<close> from bit \<open>n\<close> on, leaving the others.\<close>

definition shifted_n_hash32 :: "u64 \<Rightarrow> nat \<Rightarrow> u64" where
  "shifted_n_hash32 input n =
     (let mask = 0xFFFFFFFF :: u64;
          to_hash = drop_bit n input AND mask;
          hashed = push_bit n (ucast (hash32 (ucast to_hash)) :: u64);
          mask' = push_bit n mask
      in (input AND NOT mask') OR hashed)"

definition shifted_n_hash16 :: "u64 \<Rightarrow> nat \<Rightarrow> u64" where
  "shifted_n_hash16 input n =
     (let mask = 0xFFFF :: u64;
          to_hash = drop_bit n input AND mask;
          hashed = push_bit n (ucast (hash16 (ucast to_hash)) :: u64);
          mask' = push_bit n mask
      in (input AND NOT mask') OR hashed)"

text \<open>
  \<open>hash_nbits\<close> returns \<open>None\<close> where the code has no defined result: \<open>n \<le> 16\<close> fails its
  assertion, and from \<open>n = 96\<close> on a shift count reaches the width of the type.
\<close>

definition hash_nbits :: "u64 \<Rightarrow> int \<Rightarrow> u64 option" where
  "hash_nbits input n =
     (if n = 32 then Some (ucast (hash32 (ucast input)))
      else if n > 32 then
        (if n - 32 \<ge> 64 then None
         else let is = [0..<Suc (nat (n - 32))]
              in Some (foldl shifted_n_hash32 (foldl shifted_n_hash32 input is) (rev is)))
      else
        (if n \<le> 16 then None
         else let is = [0..<Suc (nat (n - 16))]
              in Some (foldl shifted_n_hash16 (foldl shifted_n_hash16 input is) (rev is))))"

subsection \<open>The mixing functions are permutations\<close>

lemma inj_step_add: "0 < k \<Longrightarrow> inj (\<lambda>a::'a::len word. (a + c) + push_bit k a)"
  using inj_add_tri [OF tri_add [OF tri_const [of c] tri_push_bit]] by (simp add: add.assoc)

lemma inj_step_xor: "0 < k \<Longrightarrow> inj (\<lambda>a::'a::len word. (a + c) XOR push_bit k a)"
  by (rule inj_xor_tri) (rule tri_push_bit)

lemmas inj_steps = inj_step_add inj_step_xor inj_xor_shift_right

lemma hash32_compose:
  "hash32 = (\<lambda>a. (a XOR 0xb55a4f09) XOR drop_bit 16 a) \<circ> (\<lambda>a. (a + 0xfd7046c5) + push_bit 3 a)
     \<circ> (\<lambda>a. (a + 0xd3a2646c) XOR push_bit 9 a) \<circ> (\<lambda>a. (a + 0x165667b1) + push_bit 5 a)
     \<circ> (\<lambda>a. (a XOR 0xc761c23c) XOR drop_bit 19 a) \<circ> (\<lambda>a. (a + 0x7ed55d16) + push_bit 12 a)"
  by (simp only: fun_eq_iff o_apply hash32_def Let_def simp_thms)

lemma hash16_compose:
  "hash16 = (\<lambda>a. (a XOR 0x4f09) XOR drop_bit 8 a) \<circ> (\<lambda>a. (a + 0x46c5) + push_bit 3 a)
     \<circ> (\<lambda>a. (a + 0x646c) XOR push_bit 7 a) \<circ> (\<lambda>a. (a + 0x67b1) + push_bit 5 a)
     \<circ> (\<lambda>a. (a XOR 0xc23c) XOR drop_bit 9 a) \<circ> (\<lambda>a. (a + 0x5d16) + push_bit 6 a)"
  by (simp only: fun_eq_iff o_apply hash16_def Let_def simp_thms)

lemma inj_hash32: "inj hash32"
  unfolding hash32_compose by (intro inj_compose inj_steps) simp_all

lemma inj_hash16: "inj hash16"
  unfolding hash16_compose by (intro inj_compose inj_steps) simp_all

subsection \<open>Hashing a bit field\<close>

text \<open>
  Both field functions replace a field of \<open>w\<close> bits (32 or 16) at bit \<open>n\<close> by the value a mixing
  function \<open>h\<close> gives for it.  The locale states what they share.
\<close>

locale field_hash =
  fixes f :: "u64 \<Rightarrow> nat \<Rightarrow> u64" and w :: nat and h :: "u64 \<Rightarrow> u64"
  assumes bit_f: "n + w \<le> 64 \<Longrightarrow> j < 64 \<Longrightarrow>
      bit (f x n) j = (if n \<le> j \<and> j < n + w then bit (h (take_bit w (drop_bit n x))) (j - n) else bit x j)"
    and h_field: "take_bit w (h (take_bit w y)) = h (take_bit w y)"
    and h_inj: "h (take_bit w y) = h (take_bit w z) \<Longrightarrow> take_bit w y = take_bit w z"
begin

lemma field_inj:
  assumes "n + w \<le> 64" "f x n = f y n" shows "x = y"
proof -
  have other: "bit x j = bit y j" if "j < 64" "\<not> (n \<le> j \<and> j < n + w)" for j
    using bit_f [OF assms(1) that(1), of x] bit_f [OF assms(1) that(1), of y] that(2) assms(2) by simp
  have hbit: "bit (h (take_bit w (drop_bit n x))) i = bit (h (take_bit w (drop_bit n y))) i" if "i < w" for i
    using bit_f [OF assms(1), of "n + i" x] bit_f [OF assms(1), of "n + i" y] that assms by simp
  have "h (take_bit w (drop_bit n x)) = h (take_bit w (drop_bit n y))"
  proof (rule bit_eqI)
    fix i show "bit (h (take_bit w (drop_bit n x))) i = bit (h (take_bit w (drop_bit n y))) i"
      using hbit [of i] arg_cong [OF h_field [of "drop_bit n x"], of "\<lambda>v. bit v i"]
        arg_cong [OF h_field [of "drop_bit n y"], of "\<lambda>v. bit v i"]
      by (auto simp: bit_take_bit_iff)
  qed
  then have field: "take_bit w (drop_bit n x) = take_bit w (drop_bit n y)" by (rule h_inj)
  show ?thesis
  proof (rule bit_word_eqI)
    fix j assume j: "j < LENGTH(64)"
    show "bit x j = bit y j"
    proof (cases "n \<le> j \<and> j < n + w")
      case True
      then show ?thesis using arg_cong [OF field, of "\<lambda>v. bit v (j - n)"]
        by (auto simp: bit_take_bit_iff bit_drop_bit_eq)
    next
      case False with j show ?thesis by (intro other) auto
    qed
  qed
qed

lemma field_range:
  assumes "n + w \<le> m" "m \<le> 64" "take_bit m x = x" shows "take_bit m (f x n) = f x n"
proof (rule bit_word_eqI)
  fix j assume "j < LENGTH(64)"
  moreover have "bit x j \<Longrightarrow> j < m"
    using arg_cong [OF assms(3), of "\<lambda>v. bit v j"] by (simp add: bit_take_bit_iff)
  ultimately show "bit (take_bit m (f x n)) j = bit (f x n) j"
    using assms(1,2) bit_f [of n j x] by (auto simp: bit_take_bit_iff)
qed

lemma foldl_range:
  "(\<And>i. i \<in> set is \<Longrightarrow> i + w \<le> m) \<Longrightarrow> m \<le> 64 \<Longrightarrow> take_bit m x = x \<Longrightarrow>
     take_bit m (foldl f x is) = foldl f x is"
  by (induction "is" arbitrary: x) (auto intro: field_range)

lemma foldl_inj:
  "(\<And>i. i \<in> set is \<Longrightarrow> i + w \<le> 64) \<Longrightarrow> foldl f x is = foldl f y is \<Longrightarrow> x = y"
proof (induction "is" arbitrary: x y)
  case (Cons i "is")
  from Cons.prems(2) have "foldl f (f x i) is = foldl f (f y i) is" by simp
  then have "f x i = f y i" by (rule Cons.IH [rotated]) (simp add: Cons.prems(1))
  then show ?case by (rule field_inj [rotated]) (simp add: Cons.prems(1))
qed simp

lemma sweep_bij:
  assumes "m = d + w" "m \<le> 64"
  shows "bij_betw (\<lambda>x. foldl f (foldl f x [0..<Suc d]) (rev [0..<Suc d]))
           {x. take_bit m x = x} {x. take_bit m x = x}"
proof (rule bij_betw_imageI)
  let ?g = "\<lambda>x. foldl f (foldl f x [0..<Suc d]) (rev [0..<Suc d])" and ?S = "{x :: u64. take_bit m x = x}"
  show inj: "inj_on ?g ?S"
  proof (rule inj_onI)
    fix x y assume "?g x = ?g y"
    then have "foldl f x [0..<Suc d] = foldl f y [0..<Suc d]"
      by (rule foldl_inj [rotated]) (use assms in auto)
    then show "x = y" by (rule foldl_inj [rotated]) (use assms in auto)
  qed
  have "?g ` ?S \<subseteq> ?S"
  proof
    fix z assume "z \<in> ?g ` ?S"
    then obtain x where x: "take_bit m x = x" and z: "z = ?g x" by auto
    have up: "i + w \<le> m" if "i \<in> set [0..<Suc d]" for i using that assms by auto
    then have down: "i + w \<le> m" if "i \<in> set (rev [0..<Suc d])" for i using that by simp
    show "z \<in> ?S" unfolding z mem_Collect_eq
      by (rule foldl_range [OF down assms(2) foldl_range [OF up assms(2) x]])
  qed
  then show "?g ` ?S = ?S" using inj by (intro endo_inj_surj) auto
qed

end

lemma bit_shifted_n_hash32:
  assumes "n + 32 \<le> 64" "j < 64"
  shows "bit (shifted_n_hash32 x n) j =
    (if n \<le> j \<and> j < n + 32 then bit (ucast (hash32 (ucast (take_bit 32 (drop_bit n x)))) :: u64) (j - n)
     else bit x j)"
proof -
  have mask: "(0xFFFFFFFF :: u64) = mask 32" by (simp add: mask_eq_exp_minus_1)
  show ?thesis using assms
    unfolding shifted_n_hash32_def Let_def mask by (auto simp: bit_simps dest: bit_imp_le_length simp flip: take_bit_eq_mask)
qed

lemma bit_shifted_n_hash16:
  assumes "n + 16 \<le> 64" "j < 64"
  shows "bit (shifted_n_hash16 x n) j =
    (if n \<le> j \<and> j < n + 16 then bit (ucast (hash16 (ucast (take_bit 16 (drop_bit n x)))) :: u64) (j - n)
     else bit x j)"
proof -
  have mask: "(0xFFFF :: u64) = mask 16" by (simp add: mask_eq_exp_minus_1)
  show ?thesis using assms
    unfolding shifted_n_hash16_def Let_def mask by (auto simp: bit_simps dest: bit_imp_le_length simp flip: take_bit_eq_mask)
qed

lemma ucast_up_take_bit32: "take_bit 32 (ucast (v :: u32) :: u64) = ucast v"
  by (rule bit_eqI) (auto simp: bit_simps dest: bit_imp_le_length)

lemma ucast_up_take_bit16: "take_bit 16 (ucast (v :: u16) :: u64) = ucast v"
  by (rule bit_eqI) (auto simp: bit_simps dest: bit_imp_le_length)

lemma ucast_field32_inj: "(ucast (take_bit 32 (y::u64)) :: u32) = ucast (take_bit 32 z) \<Longrightarrow> take_bit 32 y = take_bit 32 z"
proof (rule bit_eqI)
  fix i assume eq: "(ucast (take_bit 32 y) :: u32) = ucast (take_bit 32 z)"
  show "bit (take_bit 32 y) i = bit (take_bit 32 z) i"
    using arg_cong [OF eq, of "\<lambda>v. bit v i"] by (auto simp: bit_simps)
qed

lemma ucast_field16_inj: "(ucast (take_bit 16 (y::u64)) :: u16) = ucast (take_bit 16 z) \<Longrightarrow> take_bit 16 y = take_bit 16 z"
proof (rule bit_eqI)
  fix i assume eq: "(ucast (take_bit 16 y) :: u16) = ucast (take_bit 16 z)"
  show "bit (take_bit 16 y) i = bit (take_bit 16 z) i"
    using arg_cong [OF eq, of "\<lambda>v. bit v i"] by (auto simp: bit_simps)
qed

lemma ucast_up32_inj: "(ucast (u::u32) :: u64) = ucast v \<Longrightarrow> u = v"
  by (rule bit_word_eqI, drule arg_cong [of _ _ "\<lambda>w. bit w n" for n]) (auto simp: bit_simps)

lemma ucast_up16_inj: "(ucast (u::u16) :: u64) = ucast v \<Longrightarrow> u = v"
  by (rule bit_word_eqI, drule arg_cong [of _ _ "\<lambda>w. bit w n" for n]) (auto simp: bit_simps)

interpretation field32: field_hash shifted_n_hash32 32 "\<lambda>v. ucast (hash32 (ucast v))"
proof unfold_locales
  fix y z :: u64
  assume "(ucast (hash32 (ucast (take_bit 32 y))) :: u64) = ucast (hash32 (ucast (take_bit 32 z)))"
  then show "take_bit 32 y = take_bit 32 z"
    by (rule ucast_field32_inj [OF injD [OF inj_hash32 ucast_up32_inj]])
qed (simp_all add: bit_shifted_n_hash32 ucast_up_take_bit32)

interpretation field16: field_hash shifted_n_hash16 16 "\<lambda>v. ucast (hash16 (ucast v))"
proof unfold_locales
  fix y z :: u64
  assume "(ucast (hash16 (ucast (take_bit 16 y))) :: u64) = ucast (hash16 (ucast (take_bit 16 z)))"
  then show "take_bit 16 y = take_bit 16 z"
    by (rule ucast_field16_inj [OF injD [OF inj_hash16 ucast_up16_inj]])
qed (simp_all add: bit_shifted_n_hash16 ucast_up_take_bit16)

subsection \<open>Properties of the scrambling functions\<close>

text \<open>The labels that fit in \<open>n\<close> bits, which are the vertex labels of a graph of scale \<open>n\<close>.\<close>

definition nbit_labels :: "nat \<Rightarrow> u64 set" where
  "nbit_labels n = {x. take_bit n x = x}"

lemma nbit_labels_iff: "n < 64 \<Longrightarrow> x \<in> nbit_labels n \<longleftrightarrow> unat x < 2 ^ n"
  by (simp add: nbit_labels_def word_unat_eq_iff unsigned_take_bit_eq take_bit_nat_eq_self_iff)

lemma bij_hash32_labels: "bij_betw (\<lambda>x. ucast (hash32 (ucast x)) :: u64) (nbit_labels 32) (nbit_labels 32)"
proof (rule bij_betw_imageI)
  show inj: "inj_on (\<lambda>x. ucast (hash32 (ucast x)) :: u64) (nbit_labels 32)"
  proof (rule inj_onI)
    fix x y assume xy: "x \<in> nbit_labels 32" "y \<in> nbit_labels 32"
      and eq: "(ucast (hash32 (ucast x)) :: u64) = ucast (hash32 (ucast y))"
    from eq have "(ucast x :: u32) = ucast y" by (rule injD [OF inj_hash32 ucast_up32_inj])
    then have "take_bit 32 x = take_bit 32 y"
      using xy ucast_field32_inj [of x y] by (simp add: nbit_labels_def)
    then show "x = y" using xy by (simp add: nbit_labels_def)
  qed
  show "(\<lambda>x. ucast (hash32 (ucast x)) :: u64) ` nbit_labels 32 = nbit_labels 32"
    using inj by (intro endo_inj_surj) (auto simp: nbit_labels_def ucast_up_take_bit32)
qed

lemma hash_nbits_bij:
  assumes "16 < n" "n \<le> 64"
  shows "(\<forall>x. hash_nbits x n \<noteq> None) \<and>
    bij_betw (\<lambda>x. the (hash_nbits x n)) (nbit_labels (nat n)) (nbit_labels (nat n))"
proof -
  consider "n = 32" | "n > 32" | "n < 32" by linarith
  then show ?thesis
  proof cases
    case 1
    then show ?thesis using bij_hash32_labels by (simp add: hash_nbits_def)
  next
    case 2
    have m: "nat n = nat (n - 32) + 32" "nat n \<le> 64" using 2 assms by auto
    show ?thesis using field32.sweep_bij [OF m] 2 assms
      unfolding hash_nbits_def nbit_labels_def Let_def by simp
  next
    case 3
    have m: "nat n = nat (n - 16) + 16" "nat n \<le> 64" using 3 assms by auto
    show ?thesis using field16.sweep_bij [OF m] 3 assms
      unfolding hash_nbits_def nbit_labels_def Let_def by simp
  qed
qed

text \<open>
  C28. Scrambling the vertex labels of a graph of scale \<open>n\<close> (17 to 64 bits) with \<open>hash_nbits\<close> always
  returns and permutes them: no label leaves the range and no two labels collide, so a scrambled
  graph is isomorphic to the generated one.
\<close>

theorem hash_nbits_permutes_labels:
  assumes "16 < n" "n \<le> 64"
  shows "(\<forall>x. hash_nbits x n \<noteq> None) \<and>
    bij_betw (\<lambda>x. the (hash_nbits x n)) (nbit_labels (nat n)) (nbit_labels (nat n))"
  by (rule hash_nbits_bij [OF assms])

theorem hash_nbits_permutes_labels_witness:
  "(\<forall>x. hash_nbits x 40 \<noteq> None) \<and>
    bij_betw (\<lambda>x. the (hash_nbits x 40)) (nbit_labels (nat 40)) (nbit_labels (nat 40))"
  by (rule hash_nbits_permutes_labels) simp_all

text \<open>
  The 32-bit and 16-bit mixing functions themselves are bijections of their words.
\<close>

theorem hash_mixers_bijective: "bij hash32 \<and> bij hash16"
  using finite_word_inj_bij [OF inj_hash32] finite_word_inj_bij [OF inj_hash16] by simp

end
