(* ===== verification/Vertex_Locator.thy ===== *)
theory Vertex_Locator
  imports Havoq_Prelude
begin

section \<open>Vertex locators (impl/vertex_locator.hpp, impl/edge_node_identifier.hpp)\<close>

text \<open>
  A locator names a vertex by the rank that holds it and its index there, packed in bit fields:
  one field of a record per bit field, a word of the width the struct gives it.  Labels and ids
  of type \<open>uint64_t\<close> that the code only divides, compares and stores are natural numbers; the
  constructor checks what the bit fields keep of them.  A failed \<open>assert\<close> or an \<open>exit\<close> is \<open>None\<close>.
\<close>

record vertex_locator =
  m_is_delegate :: "1 word"
  m_is_bcast :: "1 word"
  m_is_intercept :: "1 word"
  m_owner_dest :: "21 word"
  m_local_id :: "40 word"

subsection \<open>Construction and access\<close>

text \<open>The default constructor stores all-ones in the owner and the id.\<close>

definition default_locator :: vertex_locator where
  "default_locator = \<lparr>m_is_delegate = 0, m_is_bcast = 0, m_is_intercept = 0,
     m_owner_dest = - 1, m_local_id = - 1\<rparr>"

definition is_valid :: "vertex_locator \<Rightarrow> bool" where
  "is_valid l \<longleftrightarrow> m_local_id l \<noteq> - 1 \<or> m_owner_dest l \<noteq> - 1"

text \<open>The checked constructor: the values must survive the truncation to their bit fields.\<close>

definition make_locator :: "bool \<Rightarrow> nat \<Rightarrow> nat \<Rightarrow> vertex_locator option" where
  "make_locator is_del local_id owner_dest =
     (let l = \<lparr>m_is_delegate = (if is_del then 1 else 0), m_is_bcast = 0, m_is_intercept = 0,
               m_owner_dest = of_nat owner_dest, m_local_id = of_nat local_id\<rparr>
      in if is_del then
           (if m_is_delegate l = 1 \<and> unat (m_local_id l) = local_id \<and> unat (m_owner_dest l) = owner_dest
            then Some l else None)
         else
           (if m_is_delegate l = 0 \<and> unat (m_owner_dest l) = owner_dest \<and> unat (m_local_id l) = local_id
            then Some l else None))"

definition is_delegate :: "vertex_locator \<Rightarrow> bool" where
  "is_delegate l \<longleftrightarrow> m_is_delegate l = 1"

definition owner :: "vertex_locator \<Rightarrow> nat" where
  "owner l = unat (m_owner_dest l)"

definition local_id :: "vertex_locator \<Rightarrow> nat" where
  "local_id l = unat (m_local_id l)"

text \<open>The master of a delegate among \<open>world_size\<close> ranks.\<close>

definition is_delegate_master :: "nat \<Rightarrow> nat \<Rightarrow> vertex_locator \<Rightarrow> bool" where
  "is_delegate_master world_size rank l \<longleftrightarrow> is_delegate l \<and> unat (m_local_id l) mod world_size = rank"

definition set_dest :: "vertex_locator \<Rightarrow> nat \<Rightarrow> vertex_locator option" where
  "set_dest l dest =
     (let l' = l\<lparr>m_owner_dest := of_nat dest\<rparr>
      in if unat (m_owner_dest l') = dest then Some l' else None)"

definition get_bcast :: "vertex_locator \<Rightarrow> 1 word" where
  "get_bcast l = m_is_bcast l"

definition set_bcast :: "vertex_locator \<Rightarrow> bool \<Rightarrow> vertex_locator" where
  "set_bcast l b = l\<lparr>m_is_bcast := (if b then 1 else 0)\<rparr>"

definition is_intercept :: "vertex_locator \<Rightarrow> bool" where
  "is_intercept l \<longleftrightarrow> m_is_intercept l = 1"

definition set_intercept :: "vertex_locator \<Rightarrow> bool \<Rightarrow> vertex_locator" where
  "set_intercept l b = l\<lparr>m_is_intercept := (if b then 1 else 0)\<rparr>"

subsection \<open>Comparison and hashing\<close>

definition is_equal :: "vertex_locator \<Rightarrow> vertex_locator \<Rightarrow> bool" where
  "is_equal x y \<longleftrightarrow> m_is_delegate x = m_is_delegate y \<and> m_owner_dest x = m_owner_dest y
     \<and> m_local_id x = m_local_id y"

definition loc_less :: "vertex_locator \<Rightarrow> vertex_locator \<Rightarrow> bool" where
  "loc_less x y =
     (if m_is_delegate x \<noteq> 0 \<and> m_is_delegate y \<noteq> 0 then m_local_id x < m_local_id y
      else if m_is_delegate x = 0 \<and> m_is_delegate y = 0 then
        (if m_owner_dest x < m_owner_dest y then True
         else if m_owner_dest x > m_owner_dest y then False
         else m_local_id x < m_local_id y)
      else m_is_delegate x < m_is_delegate y)"

definition hash64shift :: "u64 \<Rightarrow> u64" where
  "hash64shift k0 =
     (let k1 = NOT k0 + push_bit 21 k0;
          k2 = k1 XOR drop_bit 24 k1;
          k3 = (k2 + push_bit 3 k2) + push_bit 8 k2;
          k4 = k3 XOR drop_bit 14 k3;
          k5 = (k4 + push_bit 2 k4) + push_bit 4 k4;
          k6 = k5 XOR drop_bit 28 k5
      in k6 + push_bit 31 k6)"

definition hash_key :: "vertex_locator \<Rightarrow> u64" where
  "hash_key l =
     (if m_is_delegate l \<noteq> 0 then push_bit 62 1 OR ucast (m_local_id l)
      else push_bit 40 (ucast (m_owner_dest l)) OR ucast (m_local_id l))"

definition locator_hash :: "vertex_locator \<Rightarrow> u64" where
  "locator_hash l = hash64shift (hash_key l)"

subsection \<open>Owner and local id of a label (impl/edge_node_identifier.hpp)\<close>

definition local_source_id :: "nat \<Rightarrow> nat \<times> nat \<Rightarrow> nat" where
  "local_source_id mpi_size i = fst i div mpi_size"

definition local_dest_id :: "nat \<Rightarrow> nat \<times> nat \<Rightarrow> nat" where
  "local_dest_id mpi_size i = snd i div mpi_size"

definition get_local_id :: "nat \<Rightarrow> nat \<Rightarrow> nat" where
  "get_local_id mpi_size i = i div mpi_size"

definition owner_source_id :: "nat \<Rightarrow> nat \<times> nat \<Rightarrow> nat" where
  "owner_source_id mpi_size i = fst i mod mpi_size"

definition owner_dest_id :: "nat \<Rightarrow> nat \<times> nat \<Rightarrow> nat" where
  "owner_dest_id mpi_size i = snd i mod mpi_size"

definition get_owner_id :: "nat \<Rightarrow> nat \<Rightarrow> nat" where
  "get_owner_id mpi_size i = i mod mpi_size"

subsection \<open>Lemmas\<close>

lemma word1_cases: "(x :: 1 word) = 0 \<or> x = 1"
proof -
  have "unat x < 2" using unsigned_less [of x] by simp
  then have "unat x = 0 \<or> unat x = 1" by auto
  then show ?thesis by (metis unat_eq_zero unat_1 word_unat_eq_iff len_of_numeral_defs(1))
qed

lemma is_delegate_nonzero: "m_is_delegate l \<noteq> 0 \<longleftrightarrow> is_delegate l"
  using word1_cases [of "m_is_delegate l"] by (auto simp: is_delegate_def)

lemma local_id_eq_iff: "local_id x = local_id y \<longleftrightarrow> m_local_id x = m_local_id y"
  by (metis local_id_def word_unat_eq_iff)

lemma owner_eq_iff: "owner x = owner y \<longleftrightarrow> m_owner_dest x = m_owner_dest y"
  by (metis owner_def word_unat_eq_iff)

lemma make_locator_Some_iff:
  "make_locator d i w = Some l \<longleftrightarrow>
     i < 2 ^ 40 \<and> w < 2 ^ 21 \<and> is_delegate l = d \<and> local_id l = i \<and> owner l = w
     \<and> m_is_bcast l = 0 \<and> m_is_intercept l = 0"
proof -
  have i: "unat (of_nat i :: 40 word) = i \<longleftrightarrow> i < 2 ^ 40"
    by (simp add: unat_of_nat) (metis mod_less mod_less_divisor zero_less_numeral)
  have w: "unat (of_nat w :: 21 word) = w \<longleftrightarrow> w < 2 ^ 21"
    by (simp add: unat_of_nat) (metis mod_less mod_less_divisor zero_less_numeral)
  have i': "(of_nat i :: 40 word) = x \<longleftrightarrow> unat x = i" if "i < 2 ^ 40" for x
    using that i by auto
  have w': "(of_nat w :: 21 word) = x \<longleftrightarrow> unat x = w" if "w < 2 ^ 21" for x
    using that w by auto
  show ?thesis
    using word1_cases [of "m_is_delegate l"]
    by (cases l) (auto simp: make_locator_def Let_def is_delegate_def local_id_def owner_def i w i' w')
qed

lemma make_locator_None_iff: "make_locator d i w = None \<longleftrightarrow> \<not> (i < 2 ^ 40 \<and> w < 2 ^ 21)"
proof -
  have i: "unat (of_nat i :: 40 word) = i \<longleftrightarrow> i < 2 ^ 40"
    by (simp add: unat_of_nat) (metis mod_less mod_less_divisor zero_less_numeral)
  have w: "unat (of_nat w :: 21 word) = w \<longleftrightarrow> w < 2 ^ 21"
    by (simp add: unat_of_nat) (metis mod_less mod_less_divisor zero_less_numeral)
  show ?thesis by (auto simp: make_locator_def Let_def i w)
qed

lemma inj_hash64shift: "inj hash64shift"
proof -
  have neg: "inj (\<lambda>k :: u64. NOT k + push_bit 21 k)"
  proof -
    have "(\<lambda>k :: u64. NOT k + push_bit 21 k) = (\<lambda>k. (push_bit 21 k + (- 1)) - k)"
      by (simp add: fun_eq_iff not_eq_complement)
    then show ?thesis using inj_diff_tri [OF tri_add [OF tri_push_bit tri_const], of 21 "- 1"] by simp
  qed
  have xor: "inj (\<lambda>k :: u64. k XOR drop_bit s k)" if "0 < s" for s
    using inj_xor_shift_right [OF that, of 0] by simp
  have add2: "inj (\<lambda>k :: u64. (k + push_bit s k) + push_bit t k)" if "0 < s" "0 < t" for s t
    using inj_add_tri [OF tri_add [OF tri_push_bit [OF that(1)] tri_push_bit [OF that(2)]]]
    by (simp add: add.assoc)
  have add1: "inj (\<lambda>k :: u64. k + push_bit s k)" if "0 < s" for s
    by (rule inj_add_tri [OF tri_push_bit [OF that]])
  have eq: "hash64shift = (\<lambda>k. k + push_bit 31 k) \<circ> (\<lambda>k. k XOR drop_bit 28 k)
     \<circ> (\<lambda>k. (k + push_bit 2 k) + push_bit 4 k) \<circ> (\<lambda>k. k XOR drop_bit 14 k)
     \<circ> (\<lambda>k. (k + push_bit 3 k) + push_bit 8 k) \<circ> (\<lambda>k. k XOR drop_bit 24 k)
     \<circ> (\<lambda>k. NOT k + push_bit 21 k)"
    by (simp only: fun_eq_iff o_apply hash64shift_def Let_def simp_thms)
  show ?thesis
    unfolding eq by (intro inj_compose neg xor add1 add2) simp_all
qed

lemma bit_hash_key:
  "bit (hash_key l) j \<longleftrightarrow>
     (if j < 40 then bit (m_local_id l) j
      else if is_delegate l then j = 62 else j < 61 \<and> bit (m_owner_dest l) (j - 40))"
proof -
  have id: "bit (m_local_id l) j \<Longrightarrow> j < 40" and ow: "bit (m_owner_dest l) (j - 40) \<Longrightarrow> j - 40 < 21"
    using bit_imp_le_length [of "m_local_id l" j] bit_imp_le_length [of "m_owner_dest l" "j - 40"] by auto
  have one: "bit (push_bit 62 (1 :: u64)) j \<longleftrightarrow> j = 62"
    unfolding bit_push_bit_iff bit_1_iff by auto
  show ?thesis
    using id ow unfolding hash_key_def is_delegate_nonzero
    by (auto simp only: bit_or_iff one bit_unsigned_iff bit_push_bit_iff split: if_splits) (auto simp: bit_1_iff)
qed

lemma hash_key_eq_iff:
  "hash_key x = hash_key y \<longleftrightarrow>
     is_delegate x = is_delegate y \<and> m_local_id x = m_local_id y
     \<and> (is_delegate x \<or> m_owner_dest x = m_owner_dest y)"
proof
  assume eq: "hash_key x = hash_key y"
  have bits: "bit (hash_key x) j = bit (hash_key y) j" for j by (simp add: eq)
  have d: "is_delegate x = is_delegate y" using bits [of 62] by (simp add: bit_hash_key split: if_splits)
  have i: "m_local_id x = m_local_id y"
  proof (rule bit_word_eqI)
    fix j assume "j < LENGTH(40)"
    then show "bit (m_local_id x) j = bit (m_local_id y) j" using bits [of j] by (simp add: bit_hash_key)
  qed
  have "m_owner_dest x = m_owner_dest y" if "\<not> is_delegate x"
  proof (rule bit_word_eqI)
    fix j assume "j < LENGTH(21)"
    then show "bit (m_owner_dest x) j = bit (m_owner_dest y) j"
      using bits [of "j + 40"] that d by (simp add: bit_hash_key)
  qed
  with d i show "is_delegate x = is_delegate y \<and> m_local_id x = m_local_id y
     \<and> (is_delegate x \<or> m_owner_dest x = m_owner_dest y)" by blast
next
  assume "is_delegate x = is_delegate y \<and> m_local_id x = m_local_id y
     \<and> (is_delegate x \<or> m_owner_dest x = m_owner_dest y)"
  then show "hash_key x = hash_key y" by (auto simp: hash_key_def is_delegate_nonzero)
qed

text \<open>
  The two comparisons agree on locators of one graph, in which the owner of a delegate is a
  function of its id.
\<close>

lemma loc_less_irrefl: "\<not> loc_less x x"
  by (auto simp: loc_less_def)

lemma loc_less_trans: "loc_less x y \<Longrightarrow> loc_less y z \<Longrightarrow> loc_less x z"
  using word1_cases [of "m_is_delegate x"] word1_cases [of "m_is_delegate y"] word1_cases [of "m_is_delegate z"]
  by (auto simp: loc_less_def split: if_splits)

lemma loc_incomparable_iff:
  "\<not> loc_less x y \<and> \<not> loc_less y x \<longleftrightarrow>
     is_delegate x = is_delegate y \<and> m_local_id x = m_local_id y
     \<and> (is_delegate x \<or> m_owner_dest x = m_owner_dest y)"
  using word1_cases [of "m_is_delegate x"] word1_cases [of "m_is_delegate y"]
  by (auto simp: loc_less_def is_delegate_def split: if_splits)

lemma is_equal_iff:
  "is_equal x y \<longleftrightarrow> is_delegate x = is_delegate y \<and> m_local_id x = m_local_id y
     \<and> m_owner_dest x = m_owner_dest y"
  using word1_cases [of "m_is_delegate x"] word1_cases [of "m_is_delegate y"]
  by (auto simp: is_equal_def is_delegate_def)

subsection \<open>The comparator contract\<close>

text \<open>
  What \<open>std::map\<close>, \<open>std::sort\<close> and \<open>std::priority_queue\<close> require of the ordering they are given:
  a strict weak order.  Two elements it does not separate are one key.
\<close>

locale comparator =
  fixes lt :: "'a \<Rightarrow> 'a \<Rightarrow> bool"
  assumes lt_irrefl: "\<not> lt x x"
    and lt_trans: "lt x y \<Longrightarrow> lt y z \<Longrightarrow> lt x z"
    and incomp_trans: "\<not> lt x y \<Longrightarrow> \<not> lt y x \<Longrightarrow> \<not> lt y z \<Longrightarrow> \<not> lt z y \<Longrightarrow> \<not> lt x z"
begin

lemma lt_asym: "lt x y \<Longrightarrow> \<not> lt y x"
  using lt_irrefl lt_trans by blast

lemma lt_negtrans: "lt x z \<Longrightarrow> lt x y \<or> lt y z"
  using incomp_trans lt_trans lt_irrefl by meson

lemma same_key_lt: "\<not> lt x x' \<Longrightarrow> \<not> lt x' x \<Longrightarrow> lt x y \<longleftrightarrow> lt x' y"
  using lt_negtrans by blast

end

interpretation loc: comparator loc_less
proof unfold_locales
  fix x y z
  show "\<not> loc_less x x" by (rule loc_less_irrefl)
  show "loc_less x y \<Longrightarrow> loc_less y z \<Longrightarrow> loc_less x z" by (rule loc_less_trans)
  assume "\<not> loc_less x y" "\<not> loc_less y x" "\<not> loc_less y z" "\<not> loc_less z y"
  then have "\<not> loc_less x z \<and> \<not> loc_less z x"
    using loc_incomparable_iff [of x y] loc_incomparable_iff [of y z] loc_incomparable_iff [of x z] by auto
  then show "\<not> loc_less x z" by blast
qed

subsection \<open>Properties\<close>

text \<open>
  C29. The checked constructor returns a locator exactly when the id fits in 40 bits and the owner in
  21, and the locator then gives back the very values it was built from; otherwise the program exits.
\<close>

theorem make_locator_exact:
  "(case make_locator d i w of
      None \<Rightarrow> \<not> (i < 2 ^ 40 \<and> w < 2 ^ 21)
    | Some l \<Rightarrow> i < 2 ^ 40 \<and> w < 2 ^ 21 \<and> is_delegate l = d \<and> local_id l = i \<and> owner l = w)"
proof (cases "make_locator d i w")
  case None then show ?thesis using make_locator_None_iff [of d i w] by simp
next
  case (Some l) then show ?thesis using make_locator_Some_iff [of d i w l] by simp
qed

text \<open>
  C30. \<open>operator<\<close> of locators is a strict weak order (so the ordered containers keyed by locators are
  well defined), and it separates any two locators that differ in the fields \<open>operator==\<close> looks at,
  except two locators of one delegate that carry different owners.
\<close>

theorem locator_order_total:
  "\<not> loc_less x x \<and> (loc_less x y \<longrightarrow> loc_less y z \<longrightarrow> loc_less x z) \<and> (loc_less x z \<longrightarrow> loc_less x y \<or> loc_less y z)
   \<and> (is_equal x y \<longrightarrow> \<not> loc_less x y \<and> \<not> loc_less y x)
   \<and> (\<not> loc_less x y \<and> \<not> loc_less y x \<longrightarrow>
        is_equal x y \<or> (is_delegate x \<and> is_delegate y \<and> local_id x = local_id y \<and> owner x \<noteq> owner y))"
  using loc.lt_irrefl loc.lt_trans loc.lt_negtrans loc_incomparable_iff [of x y]
  by (auto simp: is_equal_iff local_id_eq_iff owner_eq_iff)

theorem locator_order_total_witness:
  "let a = default_locator\<lparr>m_local_id := 1, m_owner_dest := 1\<rparr>; b = a\<lparr>m_local_id := 2\<rparr>; c = a\<lparr>m_owner_dest := 2\<rparr>
   in loc_less a b \<and> loc_less b c \<and> loc_less a c"
  using locator_order_total
    [of "default_locator\<lparr>m_local_id := 1, m_owner_dest := 1\<rparr>" "default_locator\<lparr>m_local_id := 2, m_owner_dest := 1\<rparr>"
        "default_locator\<lparr>m_local_id := 1, m_owner_dest := 2\<rparr>"]
  by (simp add: loc_less_def default_locator_def Let_def)

text \<open>
  The 64-bit hash of a locator never collides: two locators hash alike exactly when both are
  delegates with one id, or both are not and agree in owner and id.
\<close>

theorem locator_hash_injective:
  "locator_hash x = locator_hash y \<longleftrightarrow>
     is_delegate x = is_delegate y \<and> local_id x = local_id y \<and> (is_delegate x \<or> owner x = owner y)"
proof -
  have "locator_hash x = locator_hash y \<longleftrightarrow> hash_key x = hash_key y"
    unfolding locator_hash_def using inj_hash64shift by (rule inj_eq)
  then show ?thesis by (simp add: hash_key_eq_iff local_id_eq_iff owner_eq_iff)
qed

text \<open>
  \<open>operator==\<close> and \<open>operator<\<close> disagree on delegates: the two locators of delegate 1 that a run on
  four ranks builds for label 6 - its target locator (owner \<open>6 mod 4\<close>) and its iterator locator
  (owner \<open>1 mod 4\<close>) - are different for \<open>operator==\<close>, although neither precedes the other and they
  hash alike.
\<close>

theorem delegate_equality_mismatch:
  "\<exists>x y. make_locator True 1 (get_owner_id 4 6) = Some x \<and> make_locator True 1 (get_owner_id 4 1) = Some y
     \<and> \<not> is_equal x y \<and> \<not> loc_less x y \<and> \<not> loc_less y x \<and> locator_hash x = locator_hash y"
proof -
  obtain x y where xy: "make_locator True 1 2 = Some x" "make_locator True 1 1 = Some y"
    using make_locator_None_iff [of True 1 2] make_locator_None_iff [of True 1 1] by fastforce
  then have f: "is_delegate x" "is_delegate y" "local_id x = local_id y" "owner x \<noteq> owner y"
    by (simp_all add: make_locator_Some_iff)
  then have "\<not> is_equal x y" "\<not> loc_less x y \<and> \<not> loc_less y x" "hash_key x = hash_key y"
    unfolding loc_incomparable_iff by (simp_all add: is_equal_iff hash_key_eq_iff local_id_eq_iff owner_eq_iff)
  then show ?thesis
    using xy unfolding get_owner_id_def locator_hash_def
    by (intro exI [of _ x] exI [of _ y]) simp
qed

end
