(* ===== verification/Ygm_Comm.thy ===== *)
theory Ygm_Comm
  imports Havoq_Prelude
begin

section \<open>Communicators (ygm/mpi.hpp, ygm/impl/mpi.ipp)\<close>

text \<open>
  A communicator is the list of the world ranks of its members, in the order of their ranks in
  it.  \<open>MPI_Comm_split\<close> is a parameter: \<open>split color r\<close> is the communicator rank \<open>r\<close> obtains when
  every rank \<open>q\<close> calls it with colour \<open>color q\<close> and its world rank as key.  Which ranks share a node
  (and so a shared-memory segment) is the parameter \<open>node_of\<close>.
\<close>

type_synonym comm = "nat list"

definition comm_size :: "comm \<Rightarrow> nat" where
  "comm_size c = length c"

definition comm_rank :: "comm \<Rightarrow> nat \<Rightarrow> nat" where
  "comm_rank c r = length (takeWhile (\<lambda>q. q \<noteq> r) c)"

text \<open>
  \<open>init_nl_comm\<close>: the ranks run one after the other; the first one on a node creates the segment
  and stores its rank and the count 1, every later one takes the minimum and adds one.
\<close>

definition shm_register :: "nat \<Rightarrow> (nat \<times> nat) option \<Rightarrow> (nat \<times> nat) option" where
  "shm_register world_rank seg =
     (case seg of
        None \<Rightarrow> Some (world_rank, 1)
      | Some (min_rank, n) \<Rightarrow> Some (min min_rank world_rank, n + 1))"

definition min_shm_rank :: "(nat \<Rightarrow> nat) \<Rightarrow> nat \<Rightarrow> nat \<Rightarrow> nat" where
  "min_shm_rank node_of world_size world_rank =
     (case fold shm_register (filter (\<lambda>q. node_of q = node_of world_rank) [0..<world_size]) None of
        None \<Rightarrow> world_rank
      | Some (min_rank, n) \<Rightarrow> min_rank)"

definition init_nl_comm :: "((nat \<Rightarrow> nat) \<Rightarrow> nat \<Rightarrow> comm) \<Rightarrow> (nat \<Rightarrow> nat) \<Rightarrow> nat \<Rightarrow> nat \<Rightarrow> comm" where
  "init_nl_comm split node_of world_size = split (min_shm_rank node_of world_size)"

definition init_nr_comm :: "((nat \<Rightarrow> nat) \<Rightarrow> nat \<Rightarrow> comm) \<Rightarrow> (nat \<Rightarrow> comm) \<Rightarrow> nat \<Rightarrow> comm" where
  "init_nr_comm split nl = split (\<lambda>q. comm_rank (nl q) q)"

definition nlnr_color :: "nat \<Rightarrow> nat \<Rightarrow> nat \<Rightarrow> nat" where
  "nlnr_color local_offset local_size world_rank =
     (let node_offset = (world_rank div local_size) mod local_size
      in max local_offset node_offset * local_size + min local_offset node_offset)"

definition init_nlnr_comm :: "((nat \<Rightarrow> nat) \<Rightarrow> nat \<Rightarrow> comm) \<Rightarrow> (nat \<Rightarrow> comm) \<Rightarrow> nat \<Rightarrow> comm" where
  "init_nlnr_comm split nl = split (\<lambda>q. nlnr_color (comm_rank (nl q) q) (comm_size (nl q)) q)"

text \<open>The communicators of the library, for each world rank.\<close>

record comms =
  world_size :: nat
  comm_nl :: "nat \<Rightarrow> comm"
  comm_nr :: "nat \<Rightarrow> comm"
  comm_nlnr :: "nat \<Rightarrow> comm"

text \<open>\<open>init\<close> aborts unless the ranks of the first node are numbered from 0.\<close>

definition ygm_init :: "((nat \<Rightarrow> nat) \<Rightarrow> nat \<Rightarrow> comm) \<Rightarrow> (nat \<Rightarrow> nat) \<Rightarrow> nat \<Rightarrow> comms option" where
  "ygm_init split node_of P =
     (let nl = init_nl_comm split node_of P
      in if \<forall>rank \<in> set [0..<P]. rank < comm_size (nl rank) \<longrightarrow> rank = comm_rank (nl rank) rank
         then Some \<lparr>world_size = P, comm_nl = nl, comm_nr = init_nr_comm split nl,
                    comm_nlnr = init_nlnr_comm split nl\<rparr>
         else None)"

subsection \<open>The layout of a run\<close>

text \<open>
  Documented behaviour of \<open>MPI_Comm_split\<close>: the members are the ranks of equal colour, ordered by
  key (here the world rank).
\<close>

definition split_ok :: "nat \<Rightarrow> ((nat \<Rightarrow> nat) \<Rightarrow> nat \<Rightarrow> comm) \<Rightarrow> bool" where
  "split_ok P split \<longleftrightarrow> (\<forall>color. \<forall>r < P.
     sorted (split color r) \<and> distinct (split color r) \<and> set (split color r) = {q. q < P \<and> color q = color r})"

text \<open>Blocked mapping: \<open>N\<close> nodes of \<open>L\<close> consecutive ranks each.\<close>

definition blocked :: "nat \<Rightarrow> nat \<Rightarrow> (nat \<Rightarrow> nat) \<Rightarrow> bool" where
  "blocked L P node_of \<longleftrightarrow> (\<forall>q < P. \<forall>r < P. node_of q = node_of r \<longleftrightarrow> q div L = r div L)"

lemma split_ok_filter:
  assumes "split_ok P split" "r < P"
  shows "split color r = filter (\<lambda>q. color q = color r) [0..<P]"
  using assms by (intro sorted_distinct_set_unique) (auto simp: split_ok_def sorted_filter [where f = id, simplified])

lemma comm_rank_nth: "distinct c \<Longrightarrow> j < length c \<Longrightarrow> comm_rank c (c ! j) = j"
  unfolding comm_rank_def
proof (induction c arbitrary: j)
  case (Cons x c)
  then show ?case by (cases j) auto
qed simp

lemma comm_rank_less: "r \<in> set c \<Longrightarrow> comm_rank c r < length c"
  unfolding comm_rank_def by (induction c) auto

lemma nth_comm_rank: "r \<in> set c \<Longrightarrow> c ! comm_rank c r = r"
  unfolding comm_rank_def by (induction c) auto

lemma comm_rank_unique: "distinct c \<Longrightarrow> r \<in> set c \<Longrightarrow> c ! j = r \<Longrightarrow> j < length c \<Longrightarrow> comm_rank c r = j"
  using comm_rank_nth by blast

text \<open>A sorted, duplicate-free list is fixed by an increasing enumeration of its elements.\<close>

lemma filter_upt_enum:
  assumes "\<And>i. i < n \<Longrightarrow> f i < P \<and> Q (f i)" "\<And>i j. i < j \<Longrightarrow> j < n \<Longrightarrow> f i < f j"
    "\<And>q. q < P \<Longrightarrow> Q q \<Longrightarrow> \<exists>i < n. q = f i"
  shows "filter Q [0..<P] = map f [0..<n]"
proof (rule sorted_distinct_set_unique)
  show "sorted (filter Q [0..<P])" by (rule sorted_filter [where f = id, simplified]) simp
  show "sorted (map f [0..<n])"
    unfolding sorted_iff_nth_mono_less using assms(2) by (auto intro: less_imp_le)
  show "distinct (map f [0..<n])"
    unfolding distinct_map using assms(2)
    by (auto simp: inj_on_def) (metis linorder_neq_iff)
  show "set (filter Q [0..<P]) = set (map f [0..<n])" using assms(1,3) by fastforce
qed simp

subsection \<open>The communicators of a blocked layout\<close>

definition blocked_comms :: "nat \<Rightarrow> nat \<Rightarrow> comms \<Rightarrow> bool" where
  "blocked_comms N L c \<longleftrightarrow> 0 < N \<and> 0 < L \<and>
     (\<exists>split node_of. split_ok (N * L) split \<and> blocked L (N * L) node_of \<and> ygm_init split node_of (N * L) = Some c)"

lemma fold_shm_register_Some:
  "fold shm_register xs (Some (a, n)) = Some (Min (insert a (set xs)), n + length xs)"
proof (induction xs arbitrary: a n)
  case (Cons x xs)
  have "Min (insert (min a x) (set xs)) = Min (insert a (insert x (set xs)))"
    by (cases "xs = []") (simp_all add: min.assoc)
  moreover have "shm_register x (Some (a, n)) = Some (min a x, n + 1)" by (simp add: shm_register_def)
  ultimately show ?case by (simp only: fold_simps comp_apply Cons) simp
qed simp

lemma fold_shm_register:
  "fold shm_register (x # xs) None = Some (Min (set (x # xs)), length (x # xs))"
  using fold_shm_register_Some [of xs x 1] by (simp add: shm_register_def)

lemma min_shm_rank_eq:
  assumes "blocked L P node_of" "r < P" "0 < L"
  shows "min_shm_rank node_of P r = (r div L) * L"
proof -
  let ?xs = "filter (\<lambda>q. node_of q = node_of r) [0..<P]"
  have set: "set ?xs = {q. q < P \<and> q div L = r div L}" using assms by (auto simp: blocked_def)
  have mem: "(r div L) * L \<in> set ?xs" unfolding set using assms
    by (auto intro: le_less_trans [OF _ assms(2)])
  then obtain y ys where xs: "?xs = y # ys" by (cases ?xs) auto
  have "Min (set ?xs) = (r div L) * L"
  proof (rule Min_eqI)
    fix q assume "q \<in> set ?xs"
    then have "q div L = r div L" unfolding set by simp
    then show "r div L * L \<le> q" by (metis div_times_less_eq_dividend)
  qed (use mem in auto)
  then show ?thesis unfolding min_shm_rank_def xs fold_shm_register by simp
qed

lemma init_nl_comm_eq:
  assumes "split_ok (N * L) split" "blocked L (N * L) node_of" "r < N * L" "0 < L"
  shows "init_nl_comm split node_of (N * L) r = map (\<lambda>i. (r div L) * L + i) [0..<L]"
proof -
  have "init_nl_comm split node_of (N * L) r =
      filter (\<lambda>q. min_shm_rank node_of (N * L) q = min_shm_rank node_of (N * L) r) [0..<N * L]"
    using split_ok_filter assms by (simp add: init_nl_comm_def)
  also have "\<dots> = filter (\<lambda>q. q div L = r div L) [0..<N * L]"
    by (rule filter_cong) (use assms in \<open>auto simp: min_shm_rank_eq\<close>)
  also have "\<dots> = map (\<lambda>i. (r div L) * L + i) [0..<L]"
  proof (rule filter_upt_enum)
    fix i assume i: "i < L"
    have "r div L < N" using assms by (simp add: less_mult_imp_div_less)
    then have "Suc (r div L) * L \<le> N * L" by (intro mult_le_mono1) simp
    with i show "r div L * L + i < N * L \<and> (r div L * L + i) div L = r div L" by auto
  next
    fix q assume "q < N * L" "q div L = r div L"
    then show "\<exists>i < L. q = r div L * L + i"
      using assms(4) by (intro exI [of _ "q mod L"]) (metis div_mult_mod_eq mod_less_divisor)
  qed simp
  finally show ?thesis .
qed

lemma comm_rank_map:
  assumes "inj_on f {0..<n}" "i < n"
  shows "comm_rank (map f [0..<n]) (f i) = i"
  using comm_rank_nth [of "map f [0..<n]" i] assms by (simp add: distinct_map)

lemma nl_comm_rank:
  "0 < L \<Longrightarrow> comm_rank (map (\<lambda>i. (r div L) * L + i) [0..<L]) r = r mod L"
  using comm_rank_map [of "\<lambda>i. (r div L) * L + i" L "r mod L"] by (simp add: inj_on_def)

lemma blocked_comms_pos: "blocked_comms N L c \<Longrightarrow> 0 < N \<and> 0 < L"
  by (simp add: blocked_comms_def)

lemma ygm_init_Some:
  assumes "ygm_init split node_of P = Some c"
  shows "c = \<lparr>world_size = P, comm_nl = init_nl_comm split node_of P,
      comm_nr = init_nr_comm split (init_nl_comm split node_of P),
      comm_nlnr = init_nlnr_comm split (init_nl_comm split node_of P)\<rparr>"
  using assms by (simp add: ygm_init_def Let_def split: if_splits)

lemma comms_world: "blocked_comms N L c \<Longrightarrow> world_size c = N * L"
  using ygm_init_Some by (force simp: blocked_comms_def)

lemma comms_nl:
  assumes "blocked_comms N L c" "r < N * L"
  shows "comm_nl c r = map (\<lambda>i. (r div L) * L + i) [0..<L]"
  using assms init_nl_comm_eq unfolding blocked_comms_def by (fastforce dest!: ygm_init_Some)

lemma comms_nl_rank:
  assumes "blocked_comms N L c" "r < N * L" "q < N * L" "q div L = r div L"
  shows "comm_rank (comm_nl c r) q = q mod L"
  using comms_nl [OF assms(1,2)] nl_comm_rank [of L q] blocked_comms_pos [OF assms(1)] assms(4) by simp

lemma comms_nl_size: "blocked_comms N L c \<Longrightarrow> r < N * L \<Longrightarrow> comm_size (comm_nl c r) = L"
  by (simp add: comms_nl comm_size_def)

lemma comms_nr:
  assumes "blocked_comms N L c" "r < N * L"
  shows "comm_nr c r = map (\<lambda>i. i * L + r mod L) [0..<N]"
proof -
  obtain split node_of where s: "split_ok (N * L) split" "blocked L (N * L) node_of"
    "ygm_init split node_of (N * L) = Some c" and L: "0 < L"
    using assms(1) by (auto simp: blocked_comms_def)
  let ?nl = "init_nl_comm split node_of (N * L)"
  have nl: "comm_rank (?nl q) q = q mod L" if "q < N * L" for q
    using init_nl_comm_eq [OF s(1,2) that L] nl_comm_rank [OF L] by simp
  have "comm_nr c r = filter (\<lambda>q. comm_rank (?nl q) q = comm_rank (?nl r) r) [0..<N * L]"
    using ygm_init_Some [OF s(3)] split_ok_filter [OF s(1) assms(2)] by (simp add: init_nr_comm_def)
  also have "\<dots> = filter (\<lambda>q. q mod L = r mod L) [0..<N * L]"
    by (rule filter_cong) (use nl assms(2) in auto)
  also have "\<dots> = map (\<lambda>i. i * L + r mod L) [0..<N]"
  proof (rule filter_upt_enum)
    fix i assume i: "i < N"
    then have "Suc i * L \<le> N * L" by (intro mult_le_mono1) simp
    moreover have "r mod L < L" using L by simp
    ultimately show "i * L + r mod L < N * L \<and> (i * L + r mod L) mod L = r mod L" by simp
  next
    fix i j :: nat assume "i < j"
    then show "i * L + r mod L < j * L + r mod L" using L by simp
  next
    fix q assume "q < N * L" "q mod L = r mod L"
    then show "\<exists>i < N. q = i * L + r mod L"
      by (intro exI [of _ "q div L"]) (metis div_mult_mod_eq less_mult_imp_div_less)
  qed
  finally show ?thesis .
qed

lemma comms_nr_size: "blocked_comms N L c \<Longrightarrow> r < N * L \<Longrightarrow> comm_size (comm_nr c r) = N"
  by (simp add: comms_nr comm_size_def)

lemma comms_nr_rank:
  assumes "blocked_comms N L c" "r < N * L" "q < N * L" "q mod L = r mod L"
  shows "comm_rank (comm_nr c r) q = q div L"
proof -
  have "q div L < N" using assms(3) by (simp add: less_mult_imp_div_less)
  moreover have "inj_on (\<lambda>i. i * L + r mod L) {0..<N}"
    using blocked_comms_pos [OF assms(1)] by (auto simp: inj_on_def)
  ultimately show ?thesis
    using comms_nr [OF assms(1,2)] comm_rank_map [of "\<lambda>i. i * L + r mod L" N "q div L"] assms(4)
    by (metis div_mult_mod_eq)
qed

subsection \<open>The layered communicator\<close>

lemma nlnr_color_eq_iff:
  fixes a b a' b' L :: nat
  assumes "a < L" "b < L" "a' < L" "b' < L"
  shows "max a b * L + min a b = max a' b' * L + min a' b' \<longleftrightarrow> {a, b} = {a', b'}"
proof -
  have "max a b * L + min a b = max a' b' * L + min a' b' \<longleftrightarrow> max a b = max a' b' \<and> min a b = min a' b'"
  proof
    assume eq: "max a b * L + min a b = max a' b' * L + min a' b'"
    have "min a b < L" "min a' b' < L" using assms by (simp_all add: min_less_iff_disj)
    then show "max a b = max a' b' \<and> min a b = min a' b'"
      using arg_cong [OF eq, of "\<lambda>x. x div L"] arg_cong [OF eq, of "\<lambda>x. x mod L"] by simp
  qed simp
  also have "\<dots> \<longleftrightarrow> {a, b} = {a', b'}" by (auto simp: doubleton_eq_iff max_def min_def split: if_splits)
  finally show ?thesis .
qed

text \<open>The node and the rank of member \<open>i\<close> of the layered communicator of the offsets \<open>a \<le> b\<close>.\<close>

definition nlnr_node :: "nat \<Rightarrow> nat \<Rightarrow> nat \<Rightarrow> nat \<Rightarrow> nat" where
  "nlnr_node L a b i = (if a = b then i * L + a else (i div 2) * L + (if even i then a else b))"

definition nlnr_member :: "nat \<Rightarrow> nat \<Rightarrow> nat \<Rightarrow> nat \<Rightarrow> nat" where
  "nlnr_member L a b i = nlnr_node L a b i * L + (if even i then b else a)"

lemma nlnr_node_mono:
  assumes "a \<le> b" "b < L" "i < j"
  shows "nlnr_node L a b i < nlnr_node L a b j"
proof -
  have "nlnr_node L a b n < nlnr_node L a b (Suc n)" for n
  proof (cases "a = b")
    case True
    then show ?thesis using assms by (simp add: nlnr_node_def)
  next
    case False
    then show ?thesis using assms by (cases "even n") (auto simp: nlnr_node_def)
  qed
  then show ?thesis using assms(3) lift_Suc_mono_less by blast
qed

lemma nlnr_node_mod: "a \<le> b \<Longrightarrow> b < L \<Longrightarrow> nlnr_node L a b i mod L = (if even i then a else b)"
  by (auto simp: nlnr_node_def)

lemma nlnr_member_div_mod:
  assumes "a \<le> b" "b < L"
  shows "nlnr_member L a b i div L = nlnr_node L a b i" "nlnr_member L a b i mod L = (if even i then b else a)"
  using assms by (auto simp: nlnr_member_def)

lemma nlnr_member_mono:
  assumes "a \<le> b" "b < L" "i < j"
  shows "nlnr_member L a b i < nlnr_member L a b j"
proof -
  have "nlnr_member L a b i div L < nlnr_member L a b j div L"
    using nlnr_node_mono nlnr_member_div_mod assms by simp
  then show ?thesis by (metis div_le_mono leD not_less)
qed

lemma nlnr_member_cover:
  assumes "a \<le> b" "b < L" "{q mod L, (q div L) mod L} = {a, b}"
  shows "q = nlnr_member L a b (if a = b then q div L div L else 2 * (q div L div L) + (if (q div L) mod L = b then 1 else 0))"
  (is "q = nlnr_member L a b ?i")
proof -
  have n: "q div L = (q div L div L) * L + (q div L) mod L" by simp
  have q: "q = (q div L) * L + q mod L" by simp
  have cases: "q mod L = a \<and> (q div L) mod L = b \<or> q mod L = b \<and> (q div L) mod L = a"
    using assms(3) by (auto simp: doubleton_eq_iff)
  have "nlnr_node L a b ?i = q div L"
  proof (cases "a = b")
    case True
    then have "(q div L) mod L = a" using cases by auto
    then show ?thesis using True n by (simp add: nlnr_node_def)
  next
    case False
    have "(q div L) mod L = a \<or> (q div L) mod L = b" using cases by blast
    then show ?thesis using False n by (auto simp: nlnr_node_def)
  qed
  moreover have "(if even ?i then b else a) = q mod L" using cases by auto
  ultimately have "nlnr_member L a b ?i = (q div L) * L + q mod L" by (simp only: nlnr_member_def)
  then show ?thesis using q by simp
qed

lemma nlnr_member_less:
  assumes "a \<le> b" "b < L"
  shows "nlnr_member L a b i < N * L \<longleftrightarrow> nlnr_node L a b i < N"
  using assms by (metis nlnr_member_div_mod(1) div_less_iff_less_mult gr_zeroI not_less_zero)

lemma strict_mono_bound:
  fixes f :: "nat \<Rightarrow> nat"
  assumes "\<And>i j. i < j \<Longrightarrow> f i < f j"
  shows "\<exists>n. \<forall>i. i < n \<longleftrightarrow> f i < P"
proof (intro exI allI)
  fix i
  have sm: "strict_mono f" using assms by (simp add: strict_mono_def)
  have ex: "P \<le> f P" using strict_mono_imp_increasing [OF sm] .
  show "i < (LEAST k. P \<le> f k) \<longleftrightarrow> f i < P"
  proof
    assume "i < (LEAST k. P \<le> f k)"
    then show "f i < P" using not_less_Least by fastforce
  next
    assume "f i < P"
    moreover have "P \<le> f (LEAST k. P \<le> f k)" using ex by (rule LeastI)
    ultimately show "i < (LEAST k. P \<le> f k)"
      using strict_mono_less [OF sm] by (meson less_le_trans)
  qed
qed

lemma comms_nlnr:
  assumes "blocked_comms N L c" "r < N * L"
  defines "a \<equiv> min (r mod L) ((r div L) mod L)" and "b \<equiv> max (r mod L) ((r div L) mod L)"
  shows "\<exists>n. comm_nlnr c r = map (nlnr_member L a b) [0..<n] \<and> (\<forall>i. i < n \<longleftrightarrow> nlnr_node L a b i < N)"
proof -
  obtain split node_of where s: "split_ok (N * L) split" "blocked L (N * L) node_of"
    "ygm_init split node_of (N * L) = Some c" and L: "0 < L"
    using assms(1) by (auto simp: blocked_comms_def)
  let ?nl = "init_nl_comm split node_of (N * L)"
  have nl: "comm_rank (?nl q) q = q mod L" "comm_size (?nl q) = L" if "q < N * L" for q
    using init_nl_comm_eq [OF s(1,2) that L] nl_comm_rank [OF L] by (simp_all add: comm_size_def)
  let ?col = "\<lambda>q. max (q mod L) ((q div L) mod L) * L + min (q mod L) ((q div L) mod L)"
  have ab: "a \<le> b" "b < L" using L by (auto simp: a_def b_def)
  have set_ab: "{r mod L, (r div L) mod L} = {a, b}" by (auto simp: a_def b_def min_def max_def)
  have "comm_nlnr c r = filter (\<lambda>q. ?col q = ?col r) [0..<N * L]"
    using ygm_init_Some [OF s(3)] split_ok_filter [OF s(1) assms(2)] nl assms(2)
    by (auto simp: init_nlnr_comm_def nlnr_color_def Let_def intro!: filter_cong)
  also have "\<dots> = filter (\<lambda>q. {q mod L, (q div L) mod L} = {a, b}) [0..<N * L]"
    unfolding set_ab [symmetric] using L by (intro filter_cong refl nlnr_color_eq_iff) auto
  finally have eq: "comm_nlnr c r = filter (\<lambda>q. {q mod L, (q div L) mod L} = {a, b}) [0..<N * L]" .
  obtain n where n: "\<And>i. i < n \<longleftrightarrow> nlnr_member L a b i < N * L"
    using strict_mono_bound [of "nlnr_member L a b"] nlnr_member_mono [OF ab] by blast
  have "filter (\<lambda>q. {q mod L, (q div L) mod L} = {a, b}) [0..<N * L] = map (nlnr_member L a b) [0..<n]"
  proof (rule filter_upt_enum)
    fix i assume "i < n"
    then show "nlnr_member L a b i < N * L \<and> {nlnr_member L a b i mod L, (nlnr_member L a b i div L) mod L} = {a, b}"
      using n nlnr_member_div_mod [OF ab] nlnr_node_mod [OF ab] by auto
  next
    fix q assume "q < N * L" "{q mod L, (q div L) mod L} = {a, b}"
    then show "\<exists>i < n. q = nlnr_member L a b i"
      using n nlnr_member_cover [OF ab] by metis
  qed (use nlnr_member_mono [OF ab] in blast)
  then show ?thesis using eq n nlnr_member_less [OF ab] by metis
qed

text \<open>The position of a rank in its layered communicator, as the mailbox computes it.\<close>

definition nlnr_index :: "nat \<Rightarrow> nat \<Rightarrow> nat" where
  "nlnr_index L q =
     (if q mod L = (q div L) mod L then q div L div L
      else 2 * (q div L div L) + (if q mod L < (q div L) mod L then 1 else 0))"

lemma nlnr_index_member:
  assumes "0 < L" "{q mod L, (q div L) mod L} = {r mod L, (r div L) mod L}"
  shows "q = nlnr_member L (min (r mod L) ((r div L) mod L)) (max (r mod L) ((r div L) mod L)) (nlnr_index L q)"
proof -
  let ?a = "min (r mod L) ((r div L) mod L)" and ?b = "max (r mod L) ((r div L) mod L)"
  have ab: "?a \<le> ?b" "?b < L" "{q mod L, (q div L) mod L} = {?a, ?b}"
    using assms by (auto simp: min_def max_def)
  have "(if ?a = ?b then q div L div L else 2 * (q div L div L) + (if (q div L) mod L = ?b then 1 else 0)) = nlnr_index L q"
  proof -
    consider "q mod L = r mod L" "(q div L) mod L = (r div L) mod L" | "q mod L = (r div L) mod L" "(q div L) mod L = r mod L"
      using assms(2) by (auto simp: doubleton_eq_iff)
    then show ?thesis by cases (simp_all add: nlnr_index_def min_def max_def)
  qed
  then show ?thesis using nlnr_member_cover [OF ab] by simp
qed

lemma comms_nlnr_nth:
  assumes "blocked_comms N L c" "r < N * L" "q < N * L" "{q mod L, (q div L) mod L} = {r mod L, (r div L) mod L}"
  shows "nlnr_index L q < length (comm_nlnr c r)" "comm_nlnr c r ! nlnr_index L q = q"
    "comm_rank (comm_nlnr c r) q = nlnr_index L q"
proof -
  let ?a = "min (r mod L) ((r div L) mod L)" and ?b = "max (r mod L) ((r div L) mod L)"
  obtain n where n: "comm_nlnr c r = map (nlnr_member L ?a ?b) [0..<n]" "\<forall>i. i < n \<longleftrightarrow> nlnr_node L ?a ?b i < N"
    using comms_nlnr [OF assms(1,2)] by blast
  have L: "0 < L" using blocked_comms_pos [OF assms(1)] by simp
  then have ab: "?a \<le> ?b" "?b < L" by auto
  note q = nlnr_index_member [OF L assms(4)]
  have "nlnr_index L q < n" using n(2) nlnr_member_less [OF ab] q assms(3) by metis
  then show *: "nlnr_index L q < length (comm_nlnr c r)" "comm_nlnr c r ! nlnr_index L q = q"
    using n(1) q by simp_all
  have "distinct (comm_nlnr c r)"
    unfolding n(1) distinct_map using nlnr_member_mono [OF ab]
    by (auto simp: inj_on_def) (metis linorder_neq_iff)
  from comm_rank_nth [OF this *(1)] *(2) show "comm_rank (comm_nlnr c r) q = nlnr_index L q" by simp
qed

lemma comms_nlnr_set:
  assumes "blocked_comms N L c" "r < N * L"
  shows "set (comm_nlnr c r) = {q. q < N * L \<and> {q mod L, (q div L) mod L} = {r mod L, (r div L) mod L}}"
    "distinct (comm_nlnr c r)"
proof -
  let ?a = "min (r mod L) ((r div L) mod L)" and ?b = "max (r mod L) ((r div L) mod L)"
  obtain n where n: "comm_nlnr c r = map (nlnr_member L ?a ?b) [0..<n]" "\<forall>i. i < n \<longleftrightarrow> nlnr_node L ?a ?b i < N"
    using comms_nlnr [OF assms] by blast
  have L: "0 < L" using blocked_comms_pos [OF assms(1)] by simp
  then have ab: "?a \<le> ?b" "?b < L" by auto
  show "distinct (comm_nlnr c r)"
    unfolding n(1) distinct_map using nlnr_member_mono [OF ab]
    by (auto simp: inj_on_def) (metis linorder_neq_iff)
  have set_ab: "{r mod L, (r div L) mod L} = {?a, ?b}" by (auto simp: min_def max_def)
  show "set (comm_nlnr c r) = {q. q < N * L \<and> {q mod L, (q div L) mod L} = {r mod L, (r div L) mod L}}"
  proof (intro equalityI subsetI)
    fix q assume "q \<in> set (comm_nlnr c r)"
    then obtain i where i: "q = nlnr_member L ?a ?b i" "nlnr_node L ?a ?b i < N" using n by auto
    then show "q \<in> {q. q < N * L \<and> {q mod L, (q div L) mod L} = {r mod L, (r div L) mod L}}"
      unfolding set_ab using nlnr_member_less [OF ab] nlnr_member_div_mod [OF ab] nlnr_node_mod [OF ab] by auto
  next
    fix q assume "q \<in> {q. q < N * L \<and> {q mod L, (q div L) mod L} = {r mod L, (r div L) mod L}}"
    then have "nlnr_index L q < length (comm_nlnr c r)" "comm_nlnr c r ! nlnr_index L q = q"
      using comms_nlnr_nth [OF assms, of q] by auto
    then show "q \<in> set (comm_nlnr c r)" by (metis nth_mem)
  qed
qed

subsection \<open>A blocked layout exists\<close>

definition split_by :: "nat \<Rightarrow> (nat \<Rightarrow> nat) \<Rightarrow> nat \<Rightarrow> comm" where
  "split_by P color r = filter (\<lambda>q. color q = color r) [0..<P]"

definition layout :: "nat \<Rightarrow> nat \<Rightarrow> comms" where
  "layout N L = \<lparr>world_size = N * L, comm_nl = init_nl_comm (split_by (N * L)) (\<lambda>q. q div L) (N * L),
     comm_nr = init_nr_comm (split_by (N * L)) (init_nl_comm (split_by (N * L)) (\<lambda>q. q div L) (N * L)),
     comm_nlnr = init_nlnr_comm (split_by (N * L)) (init_nl_comm (split_by (N * L)) (\<lambda>q. q div L) (N * L))\<rparr>"

lemma split_by_ok: "split_ok P (split_by P)"
  by (auto simp: split_ok_def split_by_def sorted_filter [where f = id, simplified])

lemma layout_blocked:
  assumes "0 < N" "0 < L"
  shows "blocked_comms N L (layout N L)"
proof -
  have b: "blocked L (N * L) (\<lambda>q. q div L)" by (simp add: blocked_def)
  let ?nl = "init_nl_comm (split_by (N * L)) (\<lambda>q. q div L) (N * L)"
  have "rank = comm_rank (?nl rank) rank" if "rank < N * L" "rank < comm_size (?nl rank)" for rank
    using that init_nl_comm_eq [OF split_by_ok b that(1) assms(2)] nl_comm_rank [OF assms(2), of rank]
    by (simp add: comm_size_def)
  then have "ygm_init (split_by (N * L)) (\<lambda>q. q div L) (N * L) = Some (layout N L)"
    by (auto simp: ygm_init_def layout_def Let_def)
  then show ?thesis using assms b split_by_ok unfolding blocked_comms_def by blast
qed

end
