(* ===== verification/Ygm_Mailbox.thy ===== *)
theory Ygm_Mailbox
  imports Ygm_Comm
begin

section \<open>Exchangers and mailboxes (ygm/comm_exchanger.hpp, ygm/mailbox_p2p_*.hpp)\<close>

text \<open>
  The part the four point-to-point mailboxes share: the state of one rank, queueing into an
  exchanger, the collective exchange of one communicator and \<open>do_exchange\<close>, which runs the exchangers
  one after the other and then pushes out what the handler sent meanwhile.  A routing scheme is a
  \<open>router\<close>: the communicator of each exchanger and what \<open>do_send\<close>, \<open>do_send_bcast\<close> and the
  receive lambdas do, as lists of actions.  \<open>exchange\<close> blocks until every member of the communicator
  has sent its counts and messages, so a collective \<open>do_exchange\<close> is modelled stage by stage over all
  ranks; the order in which the members' vectors arrive at a rank is the parameter \<open>ord\<close>.  Slots are
  indices into the communicator; a message queued at a slot outside it is read by nobody.  Counters
  are unbounded.
\<close>

datatype ('m, 'd) act = Queue nat nat 'm | Recv bool 'd

datatype 'd req = Unicast nat 'd | Bcast 'd

record ('m, 'd) mbox =
  vec_send :: "nat \<Rightarrow> nat \<Rightarrow> 'm list"
  local_count :: "nat \<Rightarrow> nat"
  received :: "(bool \<times> 'd) list"
  send_count :: nat
  send_queue :: "(nat \<times> 'd) list"
  bcast_queue :: "'d list"
  in_exchange :: bool
  count_exchanges :: nat

record ('m, 'd) router =
  stages :: nat
  stage_comm :: "nat \<Rightarrow> nat \<Rightarrow> comm"
  do_send :: "nat \<Rightarrow> nat \<Rightarrow> 'd \<Rightarrow> ('m, 'd) act list"
  do_send_bcast :: "nat \<Rightarrow> 'd \<Rightarrow> ('m, 'd) act list"
  on_receive :: "nat \<Rightarrow> nat \<Rightarrow> 'm \<Rightarrow> ('m, 'd) act list"
  extra_counts :: bool

text \<open>
  The application's handler: which sends to other ranks rank \<open>r\<close> issues on its latest receipt, given
  everything it has received so far.
\<close>

type_synonym 'd handler = "nat \<Rightarrow> (bool \<times> 'd) list \<Rightarrow> 'd req list"

definition new_mbox :: "('m, 'd) mbox" where
  "new_mbox = \<lparr>vec_send = (\<lambda>k slot. []), local_count = (\<lambda>k. 0), received = [], send_count = 0,
     send_queue = [], bcast_queue = [], in_exchange = False, count_exchanges = 0\<rparr>"

subsection \<open>comm\_exchanger\<close>

definition queue :: "nat \<Rightarrow> nat \<Rightarrow> 'm \<Rightarrow> ('m, 'd) mbox \<Rightarrow> ('m, 'd) mbox" where
  "queue k slot m mb =
     mb\<lparr>vec_send := (vec_send mb)(k := (vec_send mb k)(slot := vec_send mb k slot @ [m])),
        local_count := (local_count mb)(k := local_count mb k + 1)\<rparr>"

text \<open>\<open>queue_bytes\<close> is \<open>queue\<close> with the amount to count, which is 1.\<close>

definition queue_bytes :: "nat \<Rightarrow> nat \<Rightarrow> 'm \<Rightarrow> ('m, 'd) mbox \<Rightarrow> ('m, 'd) mbox \<times> nat" where
  "queue_bytes k slot m mb = (queue k slot m mb, 1)"

definition clear_sends :: "nat \<Rightarrow> ('m, 'd) mbox \<Rightarrow> ('m, 'd) mbox" where
  "clear_sends k mb = mb\<lparr>vec_send := (vec_send mb)(k := (\<lambda>slot. [])),
                         local_count := (local_count mb)(k := 0)\<rparr>"

fun unicasts :: "'d req list \<Rightarrow> (nat \<times> 'd) list" where
  "unicasts [] = []"
| "unicasts (Unicast dest d # reqs) = (dest, d) # unicasts reqs"
| "unicasts (Bcast d # reqs) = unicasts reqs"

fun bcasts :: "'d req list \<Rightarrow> 'd list" where
  "bcasts [] = []"
| "bcasts (Unicast dest d # reqs) = bcasts reqs"
| "bcasts (Bcast d # reqs) = d # bcasts reqs"

text \<open>
  One action of a receive lambda: queue into a later exchanger, or call the handler, whose sends are
  postponed because an exchange is running.
\<close>

fun run_act :: "'d handler \<Rightarrow> nat \<Rightarrow> ('m, 'd) act \<Rightarrow> ('m, 'd) mbox \<Rightarrow> ('m, 'd) mbox" where
  "run_act h r (Queue k slot m) mb = queue k slot m mb"
| "run_act h r (Recv b d) mb =
     (let log = received mb @ [(b, d)]; reqs = h r log
      in mb\<lparr>received := log, send_queue := send_queue mb @ unicasts reqs,
            bcast_queue := bcast_queue mb @ bcasts reqs\<rparr>)"

definition inbox :: "('m, 'd) router \<Rightarrow> (nat \<Rightarrow> nat \<Rightarrow> nat list) \<Rightarrow> nat \<Rightarrow> (nat \<Rightarrow> ('m, 'd) mbox) \<Rightarrow> nat \<Rightarrow> 'm list" where
  "inbox R ord k s r = concat (map (\<lambda>q. vec_send (s q) k (comm_rank (stage_comm R k q) r)) (ord k r))"

definition exchange ::
    "('m, 'd) router \<Rightarrow> 'd handler \<Rightarrow> (nat \<Rightarrow> nat \<Rightarrow> nat list) \<Rightarrow> nat \<Rightarrow> (nat \<Rightarrow> nat) \<Rightarrow>
     (nat \<Rightarrow> ('m, 'd) mbox) \<Rightarrow> nat \<Rightarrow> ('m, 'd) mbox \<times> nat" where
  "exchange R h ord k extracount s r =
     (clear_sends k (fold (\<lambda>m. fold (run_act h r) (on_receive R k r m)) (inbox R ord k s r) (s r)),
      sum_list (map (\<lambda>q. local_count (s q) k + extracount q) (stage_comm R k r)))"

subsection \<open>The mailbox\<close>

text \<open>\<open>do_send\<close> and \<open>do_send_bcast\<close> only queue, and count what they queue.\<close>

fun run_send :: "('m, 'd) act \<Rightarrow> ('m, 'd) mbox \<Rightarrow> ('m, 'd) mbox" where
  "run_send (Queue k slot m) mb =
     (let (mb', n) = queue_bytes k slot m mb in mb'\<lparr>send_count := send_count mb' + n\<rparr>)"
| "run_send (Recv b d) mb = mb"

definition run_do_send :: "('m, 'd) router \<Rightarrow> nat \<Rightarrow> nat \<times> 'd \<Rightarrow> ('m, 'd) mbox \<Rightarrow> ('m, 'd) mbox" where
  "run_do_send R r p mb = fold run_send (do_send R r (fst p) (snd p)) mb"

definition run_do_send_bcast :: "('m, 'd) router \<Rightarrow> nat \<Rightarrow> 'd \<Rightarrow> ('m, 'd) mbox \<Rightarrow> ('m, 'd) mbox" where
  "run_do_send_bcast R r d mb = fold run_send (do_send_bcast R r d) mb"

fun run_req :: "('m, 'd) router \<Rightarrow> nat \<Rightarrow> 'd req \<Rightarrow> ('m, 'd) mbox \<Rightarrow> ('m, 'd) mbox" where
  "run_req R r (Unicast dest d) mb = run_do_send R r (dest, d) mb"
| "run_req R r (Bcast d) mb = run_do_send_bcast R r d mb"

text \<open>
  \<open>send\<close> and \<open>send_bcast\<close> return the state, the requests the handler issues at once (a message to
  oneself is handled in place) and whether the caller enters \<open>do_exchange\<close>.
\<close>

definition send ::
    "('m, 'd) router \<Rightarrow> 'd handler \<Rightarrow> nat \<Rightarrow> nat \<Rightarrow> nat \<Rightarrow> 'd \<Rightarrow> ('m, 'd) mbox \<Rightarrow> ('m, 'd) mbox \<times> 'd req list \<times> bool" where
  "send R h batch_size r dest d mb =
     (if dest = r then
        (let log = received mb @ [(False, d)] in (mb\<lparr>received := log\<rparr>, h r log, False))
      else if in_exchange mb then (mb\<lparr>send_queue := send_queue mb @ [(dest, d)]\<rparr>, [], False)
      else (let mb' = run_do_send R r (dest, d) mb in (mb', [], send_count mb' \<ge> batch_size)))"

definition send_bcast ::
    "('m, 'd) router \<Rightarrow> nat \<Rightarrow> nat \<Rightarrow> 'd \<Rightarrow> ('m, 'd) mbox \<Rightarrow> ('m, 'd) mbox \<times> bool" where
  "send_bcast R batch_size r d mb =
     (if in_exchange mb then (mb\<lparr>bcast_queue := bcast_queue mb @ [d]\<rparr>, False)
      else (let mb' = run_do_send_bcast R r d mb in (mb', send_count mb' \<ge> batch_size)))"

definition begin_exchange :: "('m, 'd) mbox \<Rightarrow> ('m, 'd) mbox" where
  "begin_exchange mb = mb\<lparr>in_exchange := True, count_exchanges := count_exchanges mb + 1\<rparr>"

definition run_stage ::
    "('m, 'd) router \<Rightarrow> 'd handler \<Rightarrow> (nat \<Rightarrow> nat \<Rightarrow> nat list) \<Rightarrow> nat \<Rightarrow>
     (nat \<Rightarrow> ('m, 'd) mbox) \<times> (nat \<Rightarrow> nat) \<Rightarrow> (nat \<Rightarrow> ('m, 'd) mbox) \<times> (nat \<Rightarrow> nat)" where
  "run_stage R h ord k st =
     (let (s, tot) = st;
          extra = (\<lambda>q. if extra_counts R then if k = 0 then send_count (s q) else tot q else 0)
      in (\<lambda>r. fst (exchange R h ord k extra s r), \<lambda>r. tot r + snd (exchange R h ord k extra s r)))"

definition end_exchange :: "('m, 'd) router \<Rightarrow> nat \<Rightarrow> ('m, 'd) mbox \<Rightarrow> ('m, 'd) mbox" where
  "end_exchange R r mb =
     (let mb1 = fold (run_do_send R r) (send_queue mb) (mb\<lparr>send_count := 0\<rparr>);
          mb2 = fold (run_do_send_bcast R r) (bcast_queue mb) mb1
      in mb2\<lparr>send_queue := [], bcast_queue := [], in_exchange := False\<rparr>)"

definition do_exchange ::
    "('m, 'd) router \<Rightarrow> 'd handler \<Rightarrow> (nat \<Rightarrow> nat \<Rightarrow> nat list) \<Rightarrow>
     (nat \<Rightarrow> ('m, 'd) mbox) \<Rightarrow> (nat \<Rightarrow> ('m, 'd) mbox) \<times> (nat \<Rightarrow> nat)" where
  "do_exchange R h ord s =
     (let (s', tot) = fold (run_stage R h ord) [0..<stages R] (\<lambda>r. begin_exchange (s r), \<lambda>r. 0)
      in (\<lambda>r. end_exchange R r (s' r), tot))"

definition global_empty :: "(nat \<Rightarrow> nat) \<Rightarrow> nat \<Rightarrow> bool" where
  "global_empty tot r \<longleftrightarrow> tot r = 0"

text \<open>
  \<open>wait_empty\<close> on all ranks: exchanges until rank 0 sees a total of 0; one arrival order per
  exchange, and at most as many exchanges as orders.
\<close>

fun wait_empty ::
    "('m, 'd) router \<Rightarrow> 'd handler \<Rightarrow> (nat \<Rightarrow> nat \<Rightarrow> nat list) list \<Rightarrow>
     (nat \<Rightarrow> ('m, 'd) mbox) \<Rightarrow> (nat \<Rightarrow> ('m, 'd) mbox) option" where
  "wait_empty R h [] s = None"
| "wait_empty R h (ord # ords) s =
     (let (s', tot) = do_exchange R h ord s
      in if global_empty tot 0 then Some s' else wait_empty R h ords s')"

subsection \<open>What an action delivers\<close>

text \<open>
  The deliveries (rank, broadcast flag, payload) an action of rank \<open>r\<close> leads to, following the
  receive lambdas for at most \<open>n\<close> hops.
\<close>

fun flow :: "('m, 'd) router \<Rightarrow> nat \<Rightarrow> nat \<Rightarrow> ('m, 'd) act \<Rightarrow> (nat \<times> bool \<times> 'd) multiset" where
  "flow R n r (Recv b d) = {#(r, b, d)#}"
| "flow R 0 r (Queue k slot m) = {#}"
| "flow R (Suc n) r (Queue k slot m) =
     (let x = stage_comm R k r ! slot
      in sum_list (map (flow R n x) (on_receive R k x m)))"

declare flow.simps(3) [simp del]

definition delivers :: "('m, 'd) router \<Rightarrow> nat \<Rightarrow> ('m, 'd) act \<Rightarrow> (nat \<times> bool \<times> 'd) multiset" where
  "delivers R = flow R (stages R)"

text \<open>
  An action is legal at rank \<open>r\<close> from exchanger \<open>lo\<close> on: it queues into that exchanger or a later one,
  at a slot of its communicator, a message its receive lambda understands there.
\<close>

definition legal_act ::
    "('m, 'd) router \<Rightarrow> (nat \<Rightarrow> nat \<Rightarrow> 'm \<Rightarrow> bool) \<Rightarrow> nat \<Rightarrow> nat \<Rightarrow> ('m, 'd) act \<Rightarrow> bool" where
  "legal_act R valid lo r a \<longleftrightarrow>
     (case a of
        Queue k slot m \<Rightarrow> lo \<le> k \<and> k < stages R \<and> slot < length (stage_comm R k r)
                         \<and> valid k (stage_comm R k r ! slot) m
      | Recv b d \<Rightarrow> True)"

fun is_queue :: "('m, 'd) act \<Rightarrow> bool" where
  "is_queue (Queue k slot m) = True"
| "is_queue (Recv b d) = False"

lemma legal_act_simps [simp]:
  "legal_act R valid lo r (Recv b d)"
  "legal_act R valid lo r (Queue k slot m) \<longleftrightarrow>
     lo \<le> k \<and> k < stages R \<and> slot < length (stage_comm R k r) \<and> valid k (stage_comm R k r ! slot) m"
  by (auto simp: legal_act_def)

text \<open>What a request promises, and what one rank was promised.\<close>

fun promised :: "nat \<Rightarrow> nat \<Rightarrow> 'd req \<Rightarrow> (nat \<times> bool \<times> 'd) multiset" where
  "promised P r (Unicast dest d) = {#(dest, False, d)#}"
| "promised P r (Bcast d) = mset (map (\<lambda>x. (x, True, d)) (filter (\<lambda>x. x \<noteq> r) [0..<P]))"

fun legal_req :: "nat \<Rightarrow> nat \<Rightarrow> 'd req \<Rightarrow> bool" where
  "legal_req P r (Unicast dest d) \<longleftrightarrow> dest < P \<and> dest \<noteq> r"
| "legal_req P r (Bcast d) \<longleftrightarrow> True"

definition legal_handler :: "nat \<Rightarrow> 'd handler \<Rightarrow> bool" where
  "legal_handler P h \<longleftrightarrow> (\<forall>r < P. \<forall>log. list_all (legal_req P r) (h r log))"

definition arrivals_ok :: "('m, 'd) router \<Rightarrow> nat \<Rightarrow> (nat \<Rightarrow> nat \<Rightarrow> nat list) \<Rightarrow> bool" where
  "arrivals_ok R P ord \<longleftrightarrow> (\<forall>k < stages R. \<forall>r < P. mset (ord k r) = mset (stage_comm R k r))"

text \<open>The postponed requests of one rank and the deliveries recorded at it.\<close>

definition postponed :: "('m, 'd) mbox \<Rightarrow> 'd req list" where
  "postponed mb = map (\<lambda>(dest, d). Unicast dest d) (send_queue mb) @ map Bcast (bcast_queue mb)"

definition logged :: "nat \<Rightarrow> ('m, 'd) mbox \<Rightarrow> (nat \<times> bool \<times> 'd) multiset" where
  "logged r mb = image_mset (Pair r) (mset (received mb))"

text \<open>The deliveries the messages in exchanger \<open>k\<close> of rank \<open>r\<close> stand for.\<close>

definition buffered :: "('m, 'd) router \<Rightarrow> nat \<Rightarrow> nat \<Rightarrow> ('m, 'd) mbox \<Rightarrow> (nat \<times> bool \<times> 'd) multiset" where
  "buffered R k r mb =
     (\<Sum>slot < length (stage_comm R k r). sum_list (map (\<lambda>m. delivers R r (Queue k slot m)) (vec_send mb k slot)))"

definition in_flight :: "('m, 'd) router \<Rightarrow> nat \<Rightarrow> ('m, 'd) mbox \<Rightarrow> (nat \<times> bool \<times> 'd) multiset" where
  "in_flight R r mb = (\<Sum>k < stages R. buffered R k r mb)"

text \<open>What rank \<open>r\<close> has received together with what its buffers stand for, and the sum over the ranks.\<close>

definition account :: "('m, 'd) router \<Rightarrow> nat \<Rightarrow> ('m, 'd) mbox \<Rightarrow> (nat \<times> bool \<times> 'd) multiset" where
  "account R r mb = logged r mb + in_flight R r mb"

definition total_account :: "('m, 'd) router \<Rightarrow> nat \<Rightarrow> (nat \<Rightarrow> ('m, 'd) mbox) \<Rightarrow> (nat \<times> bool \<times> 'd) multiset" where
  "total_account R P s = (\<Sum>r < P. account R r (s r))"

text \<open>What the handler asked for while the log of rank \<open>r\<close> grew from \<open>old\<close> to \<open>new\<close>.\<close>

definition reactions :: "'d handler \<Rightarrow> nat \<Rightarrow> (bool \<times> 'd) list \<Rightarrow> (bool \<times> 'd) list \<Rightarrow> 'd req list" where
  "reactions h r old new = concat (map (\<lambda>i. h r (take i new)) [Suc (length old)..<Suc (length new)])"

text \<open>
  A rank outside \<open>do_exchange\<close>: its buffers hold valid messages, its counters are right and nothing
  is postponed.
\<close>

definition buffers_ok :: "('m, 'd) router \<Rightarrow> (nat \<Rightarrow> nat \<Rightarrow> 'm \<Rightarrow> bool) \<Rightarrow> nat \<Rightarrow> ('m, 'd) mbox \<Rightarrow> bool" where
  "buffers_ok R valid r mb \<longleftrightarrow>
     (\<forall>k < stages R. \<forall>slot < length (stage_comm R k r). \<forall>m \<in> set (vec_send mb k slot).
        valid k (stage_comm R k r ! slot) m)"

text \<open>The counters agree with the vectors.\<close>

definition counted :: "('m, 'd) router \<Rightarrow> ('m, 'd) mbox \<Rightarrow> bool" where
  "counted R mb \<longleftrightarrow> send_count mb = (\<Sum>k < stages R. local_count mb k)
     \<and> (\<forall>k < stages R. local_count mb k = 0 \<longrightarrow> vec_send mb k = (\<lambda>slot. []))"

text \<open>The ranks whose counts the total at rank \<open>r\<close> includes after \<open>k\<close> exchanges.\<close>

fun reach :: "('m, 'd) router \<Rightarrow> nat \<Rightarrow> nat \<Rightarrow> nat list" where
  "reach R 0 r = []"
| "reach R (Suc k) r = reach R k r @ concat (map (\<lambda>q. if k = 0 then [q] else reach R k q) (stage_comm R k r))"

definition idle :: "('m, 'd) router \<Rightarrow> (nat \<Rightarrow> nat \<Rightarrow> 'm \<Rightarrow> bool) \<Rightarrow> nat \<Rightarrow> ('m, 'd) mbox \<Rightarrow> bool" where
  "idle R valid r mb \<longleftrightarrow> buffers_ok R valid r mb \<and> counted R mb \<and> send_queue mb = [] \<and> bcast_queue mb = [] \<and> \<not> in_exchange mb"

end
