(* ===== verification/Ygm_Delivery.thy ===== *)
theory Ygm_Delivery
  imports Ygm_Mailbox
begin

section \<open>Delivery of a routing scheme\<close>

text \<open>
  The laws of a routing scheme and what they give for every scheme: an exchange of all ranks turns
  what was in flight into receipts, and \<open>do_exchange\<close> returns 0 at a rank exactly when no rank had
  anything to send.  The four mailboxes interpret the locales in their own theories.
\<close>

text \<open>Facts about the log and the postponed requests, for any router.\<close>

lemma mset_reqs: "mset (map (\<lambda>(dest, d). Unicast dest d) (unicasts reqs)) + mset (map Bcast (bcasts reqs)) = mset reqs"
  by (induction reqs rule: unicasts.induct) auto

lemma reactions_Nil [simp]: "reactions h r old old = []"
  by (simp add: reactions_def)

lemma reactions_snoc:
  assumes "length old \<le> length log"
  shows "reactions h r old (log @ [x]) = reactions h r old log @ h r (log @ [x])"
proof -
  have "map (\<lambda>i. h r (take i (log @ [x]))) [Suc (length old)..<Suc (length log)] =
      map (\<lambda>i. h r (take i log)) [Suc (length old)..<Suc (length log)]"
    by (rule map_cong) auto
  moreover have "[Suc (length old)..<Suc (length (log @ [x]))] = [Suc (length old)..<Suc (length log)] @ [Suc (length log)]"
    using assms by simp
  ultimately show ?thesis unfolding reactions_def by (simp only: map_append concat_append) simp
qed

definition log_ok :: "'d handler \<Rightarrow> nat \<Rightarrow> (bool \<times> 'd) list \<Rightarrow> ('m, 'd) mbox \<Rightarrow> bool" where
  "log_ok h r old mb \<longleftrightarrow> length old \<le> length (received mb) \<and> take (length old) (received mb) = old
     \<and> mset (postponed mb) = mset (reactions h r old (received mb))"

lemma run_act_log_ok:
  assumes "log_ok h r old mb"
  shows "log_ok h r old (run_act h r a mb)"
proof (cases a)
  case (Queue k slot m)
  with assms show ?thesis by (simp add: log_ok_def queue_def postponed_def)
next
  case (Recv b d)
  let ?log = "received mb @ [(b, d)]"
  have "mset (postponed (run_act h r a mb)) = mset (postponed mb) + mset (h r ?log)"
    unfolding mset_reqs [of "h r ?log", symmetric] by (simp add: Recv Let_def postponed_def)
  with assms show ?thesis by (auto simp: log_ok_def Recv Let_def reactions_snoc)
qed

lemma run_acts_log_ok: "log_ok h r old mb \<Longrightarrow> log_ok h r old (fold (run_act h r) acts mb)"
  by (induction acts arbitrary: mb) (simp_all add: run_act_log_ok)

lemma log_ok_legal:
  assumes "log_ok h r old mb" "legal_handler P h" "r < P"
  shows "list_all (legal_req P r) (postponed mb)"
proof -
  have "set (postponed mb) = set (reactions h r old (received mb))"
    using assms(1) unfolding log_ok_def by (metis mset_eq_setD)
  with assms(2,3) show ?thesis by (auto simp: reactions_def legal_handler_def list_all_iff)
qed

locale routing =
  fixes R :: "('m, 'd) router" and P :: nat and valid :: "nat \<Rightarrow> nat \<Rightarrow> 'm \<Rightarrow> bool"
  assumes comm_distinct: "k < stages R \<Longrightarrow> r < P \<Longrightarrow> distinct (stage_comm R k r)"
    and comm_self: "k < stages R \<Longrightarrow> r < P \<Longrightarrow> r \<in> set (stage_comm R k r)"
    and comm_bound: "k < stages R \<Longrightarrow> r < P \<Longrightarrow> q \<in> set (stage_comm R k r) \<Longrightarrow> q < P"
    and comm_same: "k < stages R \<Longrightarrow> r < P \<Longrightarrow> q \<in> set (stage_comm R k r) \<Longrightarrow> stage_comm R k q = stage_comm R k r"
    and receive_legal: "k < stages R \<Longrightarrow> r < P \<Longrightarrow> valid k r m \<Longrightarrow> a \<in> set (on_receive R k r m) \<Longrightarrow>
      legal_act R valid (Suc k) r a"
    and send_legal: "r < P \<Longrightarrow> dest < P \<Longrightarrow> dest \<noteq> r \<Longrightarrow> a \<in> set (do_send R r dest d) \<Longrightarrow>
      is_queue a \<and> legal_act R valid 0 r a"
    and bcast_legal: "r < P \<Longrightarrow> a \<in> set (do_send_bcast R r d) \<Longrightarrow> is_queue a \<and> legal_act R valid 0 r a"
    and send_delivers: "r < P \<Longrightarrow> dest < P \<Longrightarrow> dest \<noteq> r \<Longrightarrow>
      sum_list (map (delivers R r) (do_send R r dest d)) = promised P r (Unicast dest d)"
    and bcast_delivers: "r < P \<Longrightarrow>
      sum_list (map (delivers R r) (do_send_bcast R r d)) = promised P r (Bcast d)"
begin

lemma legal_act_mono: "legal_act R valid lo r a \<Longrightarrow> lo' \<le> lo \<Longrightarrow> legal_act R valid lo' r a"
  by (cases a) auto

lemma flow_fuel:
  assumes "legal_act R valid lo r a" "r < P" "stages R - lo \<le> n" "stages R - lo \<le> n'"
  shows "flow R n r a = flow R n' r a"
  using assms
proof (induction n arbitrary: n' r a lo)
  case 0
  then show ?case by (cases a) auto
next
  case (Suc n)
  show ?case
  proof (cases a)
    case (Queue k slot m)
    let ?x = "stage_comm R k r ! slot"
    from Suc.prems Queue have k: "lo \<le> k" "k < stages R" "slot < length (stage_comm R k r)" "valid k ?x m"
      by auto
    then obtain n'' where n': "n' = Suc n''" using Suc.prems(4) by (cases n') auto
    have x: "?x < P" using k Suc.prems(2) comm_bound nth_mem by blast
    have "map (flow R n ?x) (on_receive R k ?x m) = map (flow R n'' ?x) (on_receive R k ?x m)"
    proof (rule map_cong [OF refl])
      fix b assume "b \<in> set (on_receive R k ?x m)"
      with receive_legal x k have "legal_act R valid (Suc k) ?x b" by blast
      moreover have "stages R - Suc k \<le> n" "stages R - Suc k \<le> n''"
        using Suc.prems(3,4) n' k(1) by linarith+
      ultimately show "flow R n ?x b = flow R n'' ?x b" using Suc.IH x by blast
    qed
    then show ?thesis unfolding Queue n' flow.simps(3) Let_def by (rule arg_cong)
  qed simp
qed

lemma delivers_Recv [simp]: "delivers R r (Recv b d) = {#(r, b, d)#}"
  by (simp add: delivers_def)

lemma delivers_Queue:
  assumes "legal_act R valid 0 r (Queue k slot m)" "r < P"
  shows "delivers R r (Queue k slot m) =
    sum_list (map (delivers R (stage_comm R k r ! slot)) (on_receive R k (stage_comm R k r ! slot) m))"
proof -
  let ?x = "stage_comm R k r ! slot"
  from assms have k: "k < stages R" "slot < length (stage_comm R k r)" "valid k ?x m" by auto
  then obtain n where n: "stages R = Suc n" by (cases "stages R") auto
  have x: "?x < P" using k assms(2) comm_bound nth_mem by blast
  have "map (flow R n ?x) (on_receive R k ?x m) = map (flow R (stages R) ?x) (on_receive R k ?x m)"
    using receive_legal [OF k(1) x k(3)] flow_fuel [of "Suc k" ?x _ n "stages R"] x n
    by (intro map_cong [OF refl]) auto
  then show ?thesis unfolding delivers_def n flow.simps(3) Let_def by (rule arg_cong)
qed

lemma buffered_queue:
  "buffered R k' r (queue k slot m mb) =
     buffered R k' r mb + (if k' = k \<and> slot < length (stage_comm R k r) then delivers R r (Queue k slot m) else {#})"
proof -
  have "sum_list (map (\<lambda>m. delivers R r (Queue k' i m)) (vec_send (queue k slot m mb) k' i)) =
      sum_list (map (\<lambda>m. delivers R r (Queue k' i m)) (vec_send mb k' i)) +
      (if i = slot then if k' = k then delivers R r (Queue k slot m) else {#} else {#})" for i
    by (auto simp: queue_def)
  then show ?thesis by (simp add: buffered_def sum.distrib sum.delta)
qed

lemma in_flight_queue:
  assumes "legal_act R valid 0 r (Queue k slot m)"
  shows "in_flight R r (queue k slot m mb) = in_flight R r mb + delivers R r (Queue k slot m)"
proof -
  have "buffered R k' r (queue k slot m mb) =
      buffered R k' r mb + (if k' = k then delivers R r (Queue k slot m) else {#})" for k'
    using assms by (simp add: buffered_queue)
  then show ?thesis using assms by (simp add: in_flight_def sum.distrib sum.delta)
qed

lemma logged_queue [simp]: "logged r (queue k slot m mb) = logged r mb"
  by (simp add: logged_def queue_def)

lemma buffered_cong: "vec_send mb = vec_send mb' \<Longrightarrow> buffered R k r mb = buffered R k r mb'"
  by (simp add: buffered_def)

lemma in_flight_cong: "vec_send mb = vec_send mb' \<Longrightarrow> in_flight R r mb = in_flight R r mb'"
  by (simp add: in_flight_def buffered_def)

lemma run_act_account:
  assumes "legal_act R valid 0 r a"
  shows "account R r (run_act h r a mb) = account R r mb + delivers R r a"
proof (cases a)
  case (Queue k slot m)
  with assms show ?thesis by (simp add: account_def in_flight_queue add.assoc)
next
  case (Recv b d)
  have "in_flight R r (run_act h r (Recv b d) mb) = in_flight R r mb"
    by (intro in_flight_cong) (simp add: Let_def)
  then show ?thesis by (simp add: account_def Recv Let_def logged_def)
qed

lemma run_acts_account:
  assumes "\<And>a. a \<in> set acts \<Longrightarrow> legal_act R valid 0 r a"
  shows "account R r (fold (run_act h r) acts mb) = account R r mb + sum_list (map (delivers R r) acts)"
  using assms by (induction acts arbitrary: mb) (simp_all add: run_act_account add.assoc)

subsection \<open>One exchange\<close>

lemma run_act_frame:
  assumes "legal_act R valid (Suc k) r a" "j \<le> k"
  shows "vec_send (run_act h r a mb) j = vec_send mb j" "local_count (run_act h r a mb) j = local_count mb j"
    "send_count (run_act h r a mb) = send_count mb" "in_exchange (run_act h r a mb) = in_exchange mb"
  using assms by (cases a; auto simp: queue_def Let_def)+

lemma run_acts_frame:
  assumes "\<And>a. a \<in> set acts \<Longrightarrow> legal_act R valid (Suc k) r a" "j \<le> k"
  shows "vec_send (fold (run_act h r) acts mb) j = vec_send mb j
    \<and> local_count (fold (run_act h r) acts mb) j = local_count mb j
    \<and> send_count (fold (run_act h r) acts mb) = send_count mb
    \<and> in_exchange (fold (run_act h r) acts mb) = in_exchange mb"
  using assms by (induction acts arbitrary: mb) (simp_all add: run_act_frame [of k])

lemma run_act_buffers_ok:
  assumes "legal_act R valid 0 r a" "buffers_ok R valid r mb"
  shows "buffers_ok R valid r (run_act h r a mb)"
  using assms by (cases a) (auto simp: buffers_ok_def queue_def Let_def)

lemma run_acts_buffers_ok:
  assumes "\<And>a. a \<in> set acts \<Longrightarrow> legal_act R valid 0 r a" "buffers_ok R valid r mb"
  shows "buffers_ok R valid r (fold (run_act h r) acts mb)"
  using assms by (induction acts arbitrary: mb) (simp_all add: run_act_buffers_ok)

text \<open>The lambda run over a whole inbox.\<close>

definition handle :: "'d handler \<Rightarrow> nat \<Rightarrow> nat \<Rightarrow> 'm list \<Rightarrow> ('m, 'd) mbox \<Rightarrow> ('m, 'd) mbox" where
  "handle h k r msgs mb = fold (run_act h r) (concat (map (on_receive R k r) msgs)) mb"

lemma fold_handle: "fold (\<lambda>m. fold (run_act h r) (on_receive R k r m)) msgs mb = handle h k r msgs mb"
  unfolding handle_def by (induction msgs arbitrary: mb) simp_all

lemma handle_legal:
  assumes "k < stages R" "r < P" "\<And>m. m \<in> set msgs \<Longrightarrow> valid k r m" "a \<in> set (concat (map (on_receive R k r) msgs))"
  shows "legal_act R valid (Suc k) r a"
proof -
  obtain m where "m \<in> set msgs" "a \<in> set (on_receive R k r m)" using assms(4) by auto
  with assms(3) receive_legal [OF assms(1,2)] show ?thesis by blast
qed

definition inbox_value :: "nat \<Rightarrow> nat \<Rightarrow> 'm list \<Rightarrow> (nat \<times> bool \<times> 'd) multiset" where
  "inbox_value k r msgs = sum_list (map (\<lambda>m. sum_list (map (delivers R r) (on_receive R k r m))) msgs)"

lemma sum_list_concat_map:
  "sum_list (map f (concat (map g xs))) = sum_list (map (\<lambda>x. sum_list (map f (g x))) xs)" for f :: "_ \<Rightarrow> _ multiset"
  by (induction xs) simp_all

lemma clear_account:
  assumes "k < stages R"
  shows "account R r (clear_sends k mb) + buffered R k r mb = account R r mb"
proof -
  have "buffered R k' r (clear_sends k mb) + (if k' = k then buffered R k r mb else {#}) = buffered R k' r mb" for k'
    by (auto simp: buffered_def clear_sends_def)
  then have "in_flight R r mb =
      (\<Sum>k' < stages R. buffered R k' r (clear_sends k mb) + (if k' = k then buffered R k r mb else {#}))"
    by (simp add: in_flight_def)
  also have "\<dots> = in_flight R r (clear_sends k mb) + buffered R k r mb"
    using assms by (simp add: sum.distrib sum.delta in_flight_def)
  finally show ?thesis by (simp add: account_def logged_def clear_sends_def)
qed

lemma exchange_account:
  assumes "k < stages R" "r < P" "\<And>m. m \<in> set (inbox R ord k s r) \<Longrightarrow> valid k r m"
  shows "account R r (fst (exchange R h ord k extra s r)) + buffered R k r (s r) =
    account R r (s r) + inbox_value k r (inbox R ord k s r)"
proof -
  let ?mb = "handle h k r (inbox R ord k s r) (s r)"
  have legal: "legal_act R valid (Suc k) r a" if "a \<in> set (concat (map (on_receive R k r) (inbox R ord k s r)))" for a
    using handle_legal [OF assms that] .
  have 1: "account R r ?mb = account R r (s r) + inbox_value k r (inbox R ord k s r)"
    unfolding handle_def inbox_value_def sum_list_concat_map [symmetric]
    by (rule run_acts_account) (use legal legal_act_mono in blast)
  have "vec_send ?mb k = vec_send (s r) k"
    unfolding handle_def using run_acts_frame [OF legal] by blast
  then have "buffered R k r ?mb = buffered R k r (s r)" by (simp add: buffered_def)
  with clear_account [OF assms(1), of r ?mb] 1 show ?thesis
    by (simp add: exchange_def fold_handle)
qed

lemma comm_sym: "k < stages R \<Longrightarrow> r < P \<Longrightarrow> q \<in> set (stage_comm R k r) \<Longrightarrow> r \<in> set (stage_comm R k q)"
  using comm_same comm_self by metis

lemma arrivals_set: "arrivals_ok R P ord \<Longrightarrow> k < stages R \<Longrightarrow> r < P \<Longrightarrow> set (ord k r) = set (stage_comm R k r)"
  unfolding arrivals_ok_def by (metis mset_eq_setD)

lemma inbox_valid:
  assumes "k < stages R" "r < P" "arrivals_ok R P ord" "\<And>q. q < P \<Longrightarrow> buffers_ok R valid q (s q)"
    "m \<in> set (inbox R ord k s r)"
  shows "valid k r m"
proof -
  obtain q where q: "q \<in> set (stage_comm R k r)" "m \<in> set (vec_send (s q) k (comm_rank (stage_comm R k q) r))"
    using assms(5) arrivals_set [OF assms(3,1,2)] by (auto simp: inbox_def)
  have rq: "r \<in> set (stage_comm R k q)" using comm_sym assms(1,2) q(1) by blast
  with q assms(4) [of q] comm_bound [OF assms(1,2) q(1)] assms(1) show ?thesis
    unfolding buffers_ok_def by (metis comm_rank_less nth_comm_rank)
qed

text \<open>What one vector of an exchanger stands for, seen from its sender and from its receiver.\<close>

definition vector_value :: "nat \<Rightarrow> (nat \<Rightarrow> ('m, 'd) mbox) \<Rightarrow> nat \<Rightarrow> nat \<Rightarrow> (nat \<times> bool \<times> 'd) multiset" where
  "vector_value k s q r =
     sum_list (map (\<lambda>m. sum_list (map (delivers R r) (on_receive R k r m)))
       (vec_send (s q) k (comm_rank (stage_comm R k q) r)))"

lemma inbox_vectors:
  assumes "k < stages R" "r < P" "arrivals_ok R P ord"
  shows "inbox_value k r (inbox R ord k s r) = (\<Sum>q \<in> set (stage_comm R k r). vector_value k s q r)"
proof -
  have "inbox_value k r (inbox R ord k s r) = sum_list (map (\<lambda>q. vector_value k s q r) (ord k r))"
    unfolding inbox_value_def inbox_def sum_list_concat_map vector_value_def by simp
  also have "\<dots> = sum_mset (image_mset (\<lambda>q. vector_value k s q r) (mset (stage_comm R k r)))"
    using assms by (simp add: arrivals_ok_def flip: sum_mset_sum_list)
  also have "\<dots> = (\<Sum>q \<in> set (stage_comm R k r). vector_value k s q r)"
    using comm_distinct [OF assms(1,2)] by (simp add: sum_unfold_sum_mset mset_set_set)
  finally show ?thesis .
qed

lemma buffered_vectors:
  assumes "k < stages R" "q < P" "buffers_ok R valid q (s q)"
  shows "buffered R k q (s q) = (\<Sum>r \<in> set (stage_comm R k q). vector_value k s q r)"
proof -
  let ?c = "stage_comm R k q"
  have d: "distinct ?c" using comm_distinct assms by blast
  have "buffered R k q (s q) = (\<Sum>slot < length ?c. vector_value k s q (?c ! slot))"
    unfolding buffered_def
  proof (rule sum.cong [OF refl])
    fix slot assume slot: "slot \<in> {..<length ?c}"
    have "map (\<lambda>m. delivers R q (Queue k slot m)) (vec_send (s q) k slot) =
        map (\<lambda>m. sum_list (map (delivers R (?c ! slot)) (on_receive R k (?c ! slot) m))) (vec_send (s q) k slot)"
      using assms slot by (intro map_cong [OF refl] delivers_Queue) (auto simp: buffers_ok_def)
    then have "sum_list (map (\<lambda>m. delivers R q (Queue k slot m)) (vec_send (s q) k slot)) =
        sum_list (map (\<lambda>m. sum_list (map (delivers R (?c ! slot)) (on_receive R k (?c ! slot) m))) (vec_send (s q) k slot))"
      by (rule arg_cong)
    also have "\<dots> = vector_value k s q (?c ! slot)"
      using d slot by (simp add: vector_value_def comm_rank_nth)
    finally show "sum_list (map (\<lambda>m. delivers R q (Queue k slot m)) (vec_send (s q) k slot)) = vector_value k s q (?c ! slot)" .
  qed
  also have "\<dots> = (\<Sum>r \<in> set ?c. vector_value k s q r)"
    by (rule sum.reindex_bij_witness [where i = "\<lambda>r. comm_rank ?c r" and j = "\<lambda>i. ?c ! i"])
       (use d in \<open>auto simp: comm_rank_nth nth_comm_rank comm_rank_less\<close>)
  finally show ?thesis .
qed

lemma vectors_swap:
  assumes "k < stages R"
  shows "(\<Sum>r < P. \<Sum>q \<in> set (stage_comm R k r). vector_value k s q r) =
    (\<Sum>q < P. \<Sum>r \<in> set (stage_comm R k q). vector_value k s q r)"
proof -
  have "(\<Sum>r < P. \<Sum>q \<in> set (stage_comm R k r). vector_value k s q r) =
      (\<Sum>r < P. \<Sum>q | q \<in> {..<P} \<and> q \<in> set (stage_comm R k r). vector_value k s q r)"
    by (intro sum.cong refl) (use comm_bound [OF assms] in auto)
  also have "\<dots> = (\<Sum>q < P. \<Sum>r | r \<in> {..<P} \<and> q \<in> set (stage_comm R k r). vector_value k s q r)"
    by (rule sum.swap_restrict) auto
  also have "\<dots> = (\<Sum>q < P. \<Sum>r \<in> set (stage_comm R k q). vector_value k s q r)"
  proof (rule sum.cong [OF refl])
    fix q assume "q \<in> {..<P}"
    then have "{r. r \<in> {..<P} \<and> q \<in> set (stage_comm R k r)} = set (stage_comm R k q)"
      using comm_bound [OF assms] comm_sym [OF assms] by blast
    then show "(\<Sum>r | r \<in> {..<P} \<and> q \<in> set (stage_comm R k r). vector_value k s q r) =
        (\<Sum>r \<in> set (stage_comm R k q). vector_value k s q r)" by simp
  qed
  finally show ?thesis .
qed

lemma exchange_total_account:
  assumes "k < stages R" "arrivals_ok R P ord" "\<And>q. q < P \<Longrightarrow> buffers_ok R valid q (s q)"
  shows "total_account R P (\<lambda>r. fst (exchange R h ord k extra s r)) = total_account R P s"
proof -
  have "(\<Sum>r < P. account R r (fst (exchange R h ord k extra s r))) + (\<Sum>r < P. buffered R k r (s r)) =
      (\<Sum>r < P. account R r (s r)) + (\<Sum>r < P. inbox_value k r (inbox R ord k s r))"
    unfolding sum.distrib [symmetric]
    by (intro sum.cong refl exchange_account assms(1)) (use inbox_valid [OF assms(1) _ assms(2,3)] in simp_all)
  moreover have "(\<Sum>r < P. inbox_value k r (inbox R ord k s r)) = (\<Sum>r < P. buffered R k r (s r))"
    using vectors_swap [OF assms(1), of s] by (simp add: inbox_vectors buffered_vectors assms)
  ultimately show ?thesis by (simp add: total_account_def)
qed

subsection \<open>Sending\<close>

lemma run_send_Queue:
  "run_send (Queue k slot m) mb = (queue k slot m mb)\<lparr>send_count := send_count (queue k slot m mb) + 1\<rparr>"
  by (simp add: queue_bytes_def Let_def)

lemma run_send_counted:
  assumes "counted R mb" "k < stages R"
  shows "counted R (run_send (Queue k slot m) mb)"
proof -
  have "(\<Sum>j < stages R. local_count (queue k slot m mb) j) =
      (\<Sum>j < stages R. local_count mb j + (if j = k then 1 else 0))"
    by (intro sum.cong) (auto simp: queue_def)
  then have "(\<Sum>j < stages R. local_count (queue k slot m mb) j) = (\<Sum>j < stages R. local_count mb j) + 1"
    using assms(2) by (simp add: sum.distrib sum.delta)
  with assms(1) show ?thesis
    unfolding run_send_Queue counted_def by (simp add: queue_def)
qed

lemma run_sends_effect:
  assumes "\<And>a. a \<in> set acts \<Longrightarrow> is_queue a \<and> legal_act R valid 0 r a" "buffers_ok R valid r mb"
  shows "account R r (fold run_send acts mb) = account R r mb + sum_list (map (delivers R r) acts)
    \<and> buffers_ok R valid r (fold run_send acts mb) \<and> received (fold run_send acts mb) = received mb
    \<and> send_queue (fold run_send acts mb) = send_queue mb \<and> bcast_queue (fold run_send acts mb) = bcast_queue mb
    \<and> in_exchange (fold run_send acts mb) = in_exchange mb
    \<and> (counted R mb \<longrightarrow> counted R (fold run_send acts mb))"
  using assms
proof (induction acts arbitrary: mb)
  case (Cons a acts)
  from Cons.prems(1) [of a] obtain k slot m where a: "a = Queue k slot m" by (cases a) auto
  let ?mb = "run_send a mb"
  have "account R r ?mb = account R r (run_act (\<lambda>_ _. []) r a mb)"
    unfolding a run_send_Queue by (simp add: account_def logged_def in_flight_def buffered_def)
  then have 1: "account R r ?mb = account R r mb + delivers R r a"
    using run_act_account Cons.prems(1) [of a] by simp
  have "buffers_ok R valid r (run_act (\<lambda>_ _. []) r a mb)"
    using run_act_buffers_ok Cons.prems by simp
  then have 2: "buffers_ok R valid r ?mb" unfolding a run_send_Queue by (simp add: buffers_ok_def)
  have "received ?mb = received mb \<and> send_queue ?mb = send_queue mb \<and> bcast_queue ?mb = bcast_queue mb
      \<and> in_exchange ?mb = in_exchange mb"
    unfolding a run_send_Queue by (simp add: queue_def)
  moreover have "counted R mb \<longrightarrow> counted R ?mb"
    using run_send_counted Cons.prems(1) [of a] a by simp
  ultimately show ?case using Cons.IH [of ?mb] Cons.prems(1) 1 2 by (simp add: add.assoc)
qed simp

lemma run_req_effect:
  assumes "r < P" "legal_req P r req" "buffers_ok R valid r mb"
  shows "account R r (run_req R r req mb) = account R r mb + promised P r req
    \<and> buffers_ok R valid r (run_req R r req mb) \<and> received (run_req R r req mb) = received mb
    \<and> send_queue (run_req R r req mb) = send_queue mb \<and> bcast_queue (run_req R r req mb) = bcast_queue mb
    \<and> in_exchange (run_req R r req mb) = in_exchange mb
    \<and> (counted R mb \<longrightarrow> counted R (run_req R r req mb))"
proof (cases req)
  case (Unicast dest d)
  with assms have "dest < P" "dest \<noteq> r" by auto
  with assms send_legal [of r dest _ d] send_delivers [of r dest d] run_sends_effect [of "do_send R r dest d" r mb]
  show ?thesis by (simp add: Unicast run_do_send_def)
next
  case (Bcast d)
  with assms bcast_legal [of r _ d] bcast_delivers [of r d] run_sends_effect [of "do_send_bcast R r d" r mb]
  show ?thesis by (simp add: run_do_send_bcast_def)
qed

lemma run_reqs_effect:
  assumes "r < P" "list_all (legal_req P r) reqs" "buffers_ok R valid r mb"
  shows "account R r (fold (run_req R r) reqs mb) = account R r mb + sum_list (map (promised P r) reqs)
    \<and> buffers_ok R valid r (fold (run_req R r) reqs mb) \<and> received (fold (run_req R r) reqs mb) = received mb
    \<and> send_queue (fold (run_req R r) reqs mb) = send_queue mb \<and> bcast_queue (fold (run_req R r) reqs mb) = bcast_queue mb
    \<and> in_exchange (fold (run_req R r) reqs mb) = in_exchange mb
    \<and> (counted R mb \<longrightarrow> counted R (fold (run_req R r) reqs mb))"
  using assms(2,3)
proof (induction reqs arbitrary: mb)
  case (Cons req reqs)
  with run_req_effect [OF assms(1), of req mb] Cons.IH [of "run_req R r req mb"] show ?case by (simp add: add.assoc)
qed simp

lemma end_exchange_reqs:
  "end_exchange R r mb = (fold (run_req R r) (postponed mb) (mb\<lparr>send_count := 0\<rparr>))
     \<lparr>send_queue := [], bcast_queue := [], in_exchange := False\<rparr>"
proof -
  have 1: "fold (run_req R r) (map (\<lambda>(dest, d). Unicast dest d) ps) = fold (run_do_send R r) ps" for ps
    by (induction ps) (auto simp: fun_eq_iff)
  have 2: "fold (run_req R r) (map Bcast ds) = fold (run_do_send_bcast R r) ds" for ds
    by (induction ds) (auto simp: fun_eq_iff)
  show ?thesis by (simp add: end_exchange_def postponed_def 1 2 Let_def)
qed

lemma end_exchange_effect:
  assumes "r < P" "list_all (legal_req P r) (postponed mb)" "buffers_ok R valid r mb"
    "\<And>k. k < stages R \<Longrightarrow> vec_send mb k = (\<lambda>slot. []) \<and> local_count mb k = 0"
  shows "account R r (end_exchange R r mb) = account R r mb + sum_list (map (promised P r) (postponed mb))
    \<and> idle R valid r (end_exchange R r mb) \<and> received (end_exchange R r mb) = received mb"
proof -
  let ?mb = "mb\<lparr>send_count := 0\<rparr>" and ?f = "fold (run_req R r) (postponed mb) (mb\<lparr>send_count := 0\<rparr>)"
  have "account R r ?mb = account R r mb" "buffers_ok R valid r ?mb" "counted R ?mb"
    using assms(3,4) by (simp_all add: account_def logged_def in_flight_def buffered_def buffers_ok_def counted_def)
  moreover have "account R r (end_exchange R r mb) = account R r ?f"
    unfolding end_exchange_reqs by (simp add: account_def logged_def in_flight_def buffered_def)
  moreover have "idle R valid r (end_exchange R r mb) = (buffers_ok R valid r ?f \<and> counted R ?f)"
    unfolding end_exchange_reqs by (simp add: idle_def buffers_ok_def counted_def)
  moreover have "received (end_exchange R r mb) = received ?f" unfolding end_exchange_reqs by simp
  ultimately show ?thesis using run_reqs_effect [OF assms(1,2), of ?mb] by simp
qed

subsection \<open>All exchangers in turn\<close>

definition stage_inv :: "'d handler \<Rightarrow> (nat \<Rightarrow> ('m, 'd) mbox) \<Rightarrow> nat \<Rightarrow> (nat \<Rightarrow> ('m, 'd) mbox) \<Rightarrow> bool" where
  "stage_inv h s n s' \<longleftrightarrow> total_account R P s' = total_account R P s \<and>
     (\<forall>r < P. buffers_ok R valid r (s' r) \<and> send_count (s' r) = send_count (s r)
       \<and> log_ok h r (received (s r)) (s' r)
       \<and> (\<forall>j < n. vec_send (s' r) j = (\<lambda>slot. []) \<and> local_count (s' r) j = 0))"

lemma exchange_stage_inv:
  assumes "stage_inv h s k s'" "k < stages R" "arrivals_ok R P ord"
  shows "stage_inv h s (Suc k) (\<lambda>r. fst (exchange R h ord k extra s' r))"
proof -
  have ok: "buffers_ok R valid r (s' r)" if "r < P" for r using assms(1) that by (simp add: stage_inv_def)
  have total: "total_account R P (\<lambda>r. fst (exchange R h ord k extra s' r)) = total_account R P s"
    using exchange_total_account [of k ord s'] assms ok by (simp add: stage_inv_def)
  have key: "buffers_ok R valid r mb \<and> send_count mb = send_count (s r) \<and> log_ok h r (received (s r)) mb
      \<and> (\<forall>j < Suc k. vec_send mb j = (\<lambda>slot. []) \<and> local_count mb j = 0)"
    if r: "r < P" and mb: "mb = fst (exchange R h ord k extra s' r)" for r mb
  proof -
    let ?acts = "concat (map (on_receive R k r) (inbox R ord k s' r))"
    have legal: "legal_act R valid (Suc k) r a" if "a \<in> set ?acts" for a
      using handle_legal [OF assms(2) r _ that] inbox_valid [OF assms(2) r assms(3)] ok by blast
    let ?f = "fold (run_act h r) ?acts (s' r)"
    have eq: "mb = clear_sends k ?f" by (simp add: mb exchange_def fold_handle handle_def)
    have "log_ok h r (received (s r)) (s' r)" using assms(1) r by (simp add: stage_inv_def)
    then have "log_ok h r (received (s r)) ?f" by (rule run_acts_log_ok)
    then have log: "log_ok h r (received (s r)) mb"
      by (simp add: eq clear_sends_def log_ok_def postponed_def)
    have "buffers_ok R valid r ?f"
      by (rule run_acts_buffers_ok) (use legal legal_act_mono ok r in blast)+
    then have buf: "buffers_ok R valid r mb" by (simp add: eq clear_sends_def buffers_ok_def)
    have "send_count ?f = send_count (s' r)" "\<And>j. j \<le> k \<Longrightarrow> vec_send ?f j = vec_send (s' r) j"
      "\<And>j. j \<le> k \<Longrightarrow> local_count ?f j = local_count (s' r) j"
      using run_acts_frame [OF legal] by blast+
    with buf log assms(1) r show ?thesis by (auto simp: eq clear_sends_def stage_inv_def less_Suc_eq)
  qed
  show ?thesis unfolding stage_inv_def
  proof (intro conjI allI impI)
    show "total_account R P (\<lambda>r. fst (exchange R h ord k extra s' r)) = total_account R P s" by (rule total)
  qed (use key [OF _ refl] in blast)+
qed

lemma run_stages_inv:
  assumes "arrivals_ok R P ord" "\<And>r. r < P \<Longrightarrow> idle R valid r (s r)" "n \<le> stages R"
  shows "stage_inv h s n (fst (fold (run_stage R h ord) [0..<n] (\<lambda>r. begin_exchange (s r), \<lambda>r. 0)))"
  using assms(3)
proof (induction n)
  case 0
  have "account R r (begin_exchange (s r)) = account R r (s r)" for r
    by (simp add: begin_exchange_def account_def logged_def in_flight_def buffered_def)
  with assms(2) show ?case
    by (auto simp: stage_inv_def total_account_def begin_exchange_def idle_def buffers_ok_def log_ok_def postponed_def)
next
  case (Suc n)
  then show ?case using exchange_stage_inv [OF _ _ assms(1)] by (simp add: run_stage_def split_beta Let_def)
qed

lemma do_exchange_effect:
  assumes "arrivals_ok R P ord" "\<And>r. r < P \<Longrightarrow> idle R valid r (s r)" "legal_handler P h" "r < P"
  defines "s' \<equiv> fst (do_exchange R h ord s)"
  shows "idle R valid r (s' r)" "take (length (received (s r))) (received (s' r)) = received (s r)"
    "account R r (s' r) =
       logged r (s' r) + sum_list (map (promised P r) (reactions h r (received (s r)) (received (s' r))))"
proof -
  define m where "m = fst (fold (run_stage R h ord) [0..<stages R] (\<lambda>r. begin_exchange (s r), \<lambda>r. 0))"
  have inv: "stage_inv h s (stages R) m" unfolding m_def by (rule run_stages_inv) (use assms in auto)
  have s': "s' r = end_exchange R r (m r)" by (simp add: s'_def m_def do_exchange_def split_beta)
  have m: "buffers_ok R valid r (m r)" "log_ok h r (received (s r)) (m r)"
    "\<And>k. k < stages R \<Longrightarrow> vec_send (m r) k = (\<lambda>slot. []) \<and> local_count (m r) k = 0"
    using inv assms(4) by (auto simp: stage_inv_def)
  note legal = log_ok_legal [OF m(2) assms(3,4)]
  note effect = end_exchange_effect [OF assms(4) legal m(1) m(3)]
  show "idle R valid r (s' r)" using effect s' by simp
  show "take (length (received (s r))) (received (s' r)) = received (s r)"
    using effect s' m(2) by (simp add: log_ok_def)
  have "in_flight R r (m r) = {#}" using m(3) by (simp add: in_flight_def buffered_def)
  then have "account R r (m r) = logged r (s' r)" using effect s' by (simp add: account_def logged_def)
  moreover have "sum_list (map (promised P r) (postponed (m r))) =
      sum_list (map (promised P r) (reactions h r (received (s r)) (received (s' r))))"
    unfolding sum_mset_sum_list [symmetric] mset_map using m(2) effect s' by (simp add: log_ok_def)
  ultimately show "account R r (s' r) =
      logged r (s' r) + sum_list (map (promised P r) (reactions h r (received (s r)) (received (s' r))))"
    using effect s' by simp
qed

theorem do_exchange_delivers_all:
  assumes "arrivals_ok R P ord" "\<And>r. r < P \<Longrightarrow> idle R valid r (s r)" "legal_handler P h"
  shows "(\<Sum>r < P. logged r (fst (do_exchange R h ord s) r)) = total_account R P s"
proof -
  define m where "m = fst (fold (run_stage R h ord) [0..<stages R] (\<lambda>r. begin_exchange (s r), \<lambda>r. 0))"
  have inv: "stage_inv h s (stages R) m" unfolding m_def by (rule run_stages_inv) (use assms in auto)
  have "logged r (fst (do_exchange R h ord s) r) = account R r (m r)" if r: "r < P" for r
  proof -
    have m: "buffers_ok R valid r (m r)" "log_ok h r (received (s r)) (m r)"
      "\<And>k. k < stages R \<Longrightarrow> vec_send (m r) k = (\<lambda>slot. []) \<and> local_count (m r) k = 0"
      using inv r by (auto simp: stage_inv_def)
    have "in_flight R r (m r) = {#}" using m(3) by (simp add: in_flight_def buffered_def)
    moreover have "received (end_exchange R r (m r)) = received (m r)"
      using end_exchange_effect [OF r log_ok_legal [OF m(2) assms(3) r] m(1) m(3)] by simp
    ultimately show ?thesis by (simp add: m_def do_exchange_def split_beta account_def logged_def)
  qed
  then have "(\<Sum>r < P. logged r (fst (do_exchange R h ord s) r)) = total_account R P m"
    unfolding total_account_def by (intro sum.cong) auto
  then show ?thesis using inv by (simp add: stage_inv_def)
qed

lemma filter_logged: "filter_mset (\<lambda>y. fst y = x) (logged r mb) = (if r = x then logged r mb else {#})"
  by (auto simp: logged_def filter_mset_image_mset filter_mset_False)

theorem do_exchange_delivers:
  assumes "arrivals_ok R P ord" "\<And>r. r < P \<Longrightarrow> idle R valid r (s r)" "legal_handler P h" "x < P"
  shows "logged x (fst (do_exchange R h ord s) x) = filter_mset (\<lambda>y. fst y = x) (total_account R P s)"
proof -
  let ?f = "\<lambda>r. logged r (fst (do_exchange R h ord s) r)"
  have "filter_mset (\<lambda>y. fst y = x) (\<Sum>r < n. ?f r) = (\<Sum>r < n. if r = x then ?f r else {#})" for n
    by (induction n) (auto simp: filter_logged)
  from this [of P] have "filter_mset (\<lambda>y. fst y = x) (\<Sum>r < P. ?f r) = ?f x" using assms(4) by (simp add: sum.delta)
  moreover have "(\<Sum>r < P. ?f r) = total_account R P s" by (rule do_exchange_delivers_all) (use assms in auto)
  ultimately show ?thesis by metis
qed

subsection \<open>The total of an exchange\<close>

definition quiet :: "(nat \<Rightarrow> ('m, 'd) mbox) \<Rightarrow> bool" where
  "quiet s \<longleftrightarrow> (\<forall>r < P. send_count (s r) = 0)"

lemma quiet_buffers:
  assumes "counted R mb" "send_count mb = 0" "k < stages R"
  shows "vec_send mb k = (\<lambda>slot. []) \<and> local_count mb k = 0"
proof -
  have "(\<Sum>k < stages R. local_count mb k) = 0" using assms(1,2) by (simp add: counted_def)
  then have "local_count mb k = 0" using assms(3) by simp
  then show ?thesis using assms by (simp add: counted_def)
qed

lemma quiet_in_flight:
  assumes "counted R mb" "send_count mb = 0"
  shows "in_flight R r mb = {#}"
  using quiet_buffers [OF assms] by (simp add: in_flight_def buffered_def)

text \<open>With nothing to send, the exchangers run empty.\<close>

lemma quiet_stages:
  fixes h :: "'d handler"
  assumes "arrivals_ok R P ord" "\<And>r. r < P \<Longrightarrow> idle R valid r (s r)" "quiet s" "n \<le> stages R" "r < P"
  defines "st \<equiv> \<lambda>n. fold (run_stage R h ord) [0..<n] (\<lambda>r. begin_exchange (s r), \<lambda>r. 0)"
  shows "snd (st n) r = 0 \<and> received (fst (st n) r) = received (s r) \<and> postponed (fst (st n) r) = []
    \<and> send_count (fst (st n) r) = 0
    \<and> (\<forall>k < stages R. vec_send (fst (st n) r) k = (\<lambda>slot. []) \<and> local_count (fst (st n) r) k = 0)"
  using assms(4,5)
proof (induction n arbitrary: r)
  case 0
  have "counted R (s r)" "send_count (s r) = 0" using 0 assms(2,3) by (auto simp: idle_def quiet_def)
  then show ?case using 0 assms(2) quiet_buffers
    by (simp add: st_def begin_exchange_def idle_def postponed_def)
next
  case (Suc n)
  then have n: "n < stages R" by simp
  obtain s' tot where st: "st n = (s', tot)" by (cases "st n")
  have IH: "tot q = 0 \<and> received (s' q) = received (s q) \<and> postponed (s' q) = [] \<and> send_count (s' q) = 0
    \<and> (\<forall>k < stages R. vec_send (s' q) k = (\<lambda>slot. []) \<and> local_count (s' q) k = 0)" if "q < P" for q
    using Suc.IH [OF _ that] n st by simp
  have mem: "q < P" if "q \<in> set (ord n r) \<or> q \<in> set (stage_comm R n r)" for q
    using that comm_bound [OF n Suc.prems(2)] arrivals_set [OF assms(1) n Suc.prems(2)] by blast
  have "inbox R ord n s' r = []" using IH mem n by (simp add: inbox_def)
  then have ex: "exchange R h ord n extra s' r = (clear_sends n (s' r), sum_list (map extra (stage_comm R n r)))" for extra
    using IH mem n by (simp add: exchange_def cong: map_cong)
  define extra where "extra = (\<lambda>q. if extra_counts R then if n = 0 then send_count (s' q) else tot q else 0)"
  have "st (Suc n) = run_stage R h ord n (s', tot)" using st by (simp add: st_def)
  then have run: "st (Suc n) = (\<lambda>r. fst (exchange R h ord n extra s' r), \<lambda>r. tot r + snd (exchange R h ord n extra s' r))"
    by (simp only: run_stage_def Let_def prod.case extra_def)
  have "\<forall>q \<in> set (stage_comm R n r). extra q = 0" using IH mem by (simp add: extra_def)
  then have "sum_list (map extra (stage_comm R n r)) = 0" by (simp cong: map_cong)
  then have "snd (st (Suc n)) r = 0" "fst (st (Suc n)) r = clear_sends n (s' r)"
    using IH [OF Suc.prems(2)] by (simp_all only: run ex fst_conv snd_conv)
  with IH [OF Suc.prems(2)] show ?case by (simp add: clear_sends_def postponed_def)
qed

text \<open>From fresh mailboxes: what the ranks requested is what arrives.\<close>

lemma fresh_idle: "idle R valid r new_mbox" "account R r new_mbox = {#}"
  by (simp_all add: idle_def new_mbox_def buffers_ok_def counted_def account_def logged_def in_flight_def buffered_def)

lemma fresh_run:
  assumes "r < P" "list_all (legal_req P r) reqs"
  shows "idle R valid r (fold (run_req R r) reqs new_mbox)"
    "account R r (fold (run_req R r) reqs new_mbox) = sum_list (map (promised P r) reqs)"
proof -
  have "buffers_ok R valid r new_mbox" "counted R new_mbox" using fresh_idle(1) by (simp_all add: idle_def)
  with run_reqs_effect [OF assms, of new_mbox] fresh_idle(2)
  show "idle R valid r (fold (run_req R r) reqs new_mbox)"
    "account R r (fold (run_req R r) reqs new_mbox) = sum_list (map (promised P r) reqs)"
    by (simp_all add: idle_def new_mbox_def)
qed

theorem fresh_delivers:
  assumes "arrivals_ok R P ord" "legal_handler P h" "\<forall>r < P. list_all (legal_req P r) (reqs r)" "x < P"
  shows "mset (received (fst (do_exchange R h ord (\<lambda>r. fold (run_req R r) (reqs r) new_mbox)) x)) =
    image_mset snd (filter_mset (\<lambda>y. fst y = x) (\<Sum>r < P. sum_list (map (promised P r) (reqs r))))"
proof -
  let ?s = "\<lambda>r. fold (run_req R r) (reqs r) new_mbox"
  have idle: "idle R valid r (?s r)" if "r < P" for r using fresh_run(1) assms(3) that by blast
  have "total_account R P ?s = (\<Sum>r < P. sum_list (map (promised P r) (reqs r)))"
    unfolding total_account_def using fresh_run(2) assms(3) by (intro sum.cong refl) auto
  moreover have "mset (received mb) = image_mset snd (logged x mb)" for mb :: "('m, 'd) mbox"
    by (simp add: logged_def multiset.map_comp comp_def)
  ultimately show ?thesis using do_exchange_delivers [OF assms(1) idle assms(2,4)] by simp
qed

end

text \<open>Every rank's counts reach every rank, in the way the counts are handed on.\<close>

locale routing_counts = routing R P valid
  for R :: "('m, 'd) router" and P :: nat and valid :: "nat \<Rightarrow> nat \<Rightarrow> 'm \<Rightarrow> bool" +
  assumes counting: "extra_counts R \<or> stages R = 1"
    and reaches: "r < P \<Longrightarrow> q < P \<Longrightarrow> q \<in> set (reach R (stages R) r)"
begin

lemma total_zero_reach:
  fixes h :: "'d handler"
  assumes "arrivals_ok R P ord" "\<And>r. r < P \<Longrightarrow> idle R valid r (s r)" "n \<le> stages R" "r < P"
  defines "st \<equiv> \<lambda>n. fold (run_stage R h ord) [0..<n] (\<lambda>r. begin_exchange (s r), \<lambda>r. 0)"
  shows "snd (st n) r = 0 \<Longrightarrow> q \<in> set (reach R n r) \<Longrightarrow> send_count (s q) = 0"
  using assms(3,4)
proof (induction n arbitrary: r q)
  case (Suc n)
  then have n: "n < stages R" by simp
  obtain s' tot where st: "st n = (s', tot)" by (cases "st n")
  let ?extra = "\<lambda>q. if extra_counts R then if n = 0 then send_count (s' q) else tot q else 0"
  have inv: "stage_inv h s n s'" using run_stages_inv [OF assms(1,2), of n h] n st by (simp add: st_def)
  have zero: "tot r = 0" "\<And>q. q \<in> set (stage_comm R n r) \<Longrightarrow> local_count (s' q) n = 0 \<and> ?extra q = 0"
    using Suc.prems(1) st by (auto simp: st_def run_stage_def exchange_def Let_def)
  have bound: "q < P" if "q \<in> set (stage_comm R n r)" for q using comm_bound [OF n Suc.prems(4)] that .
  consider "q \<in> set (reach R n r)" | x where "x \<in> set (stage_comm R n r)" "n \<noteq> 0" "q \<in> set (reach R n x)"
    | "q \<in> set (stage_comm R n r)" "n = 0"
    using Suc.prems(2) by (auto split: if_splits)
  then show ?case
  proof cases
    case 1
    then show ?thesis using Suc.IH [of r q] zero(1) n Suc.prems(4) st by simp
  next
    case (2 x)
    then have "extra_counts R" using counting n by auto
    then have "tot x = 0" using zero(2) [OF 2(1)] 2(2) by simp
    then show ?thesis using Suc.IH [of x q] 2 n bound st by simp
  next
    case 3
    then have q: "send_count (s' q) = send_count (s q)" using inv bound by (simp add: stage_inv_def)
    show ?thesis
    proof (cases "extra_counts R")
      case True
      then show ?thesis using zero(2) [OF 3(1)] 3(2) q by simp
    next
      case False
      then have "stages R = 1" using counting by simp
      then have "send_count (s q) = local_count (s q) 0"
        using assms(2) [OF bound [OF 3(1)]] by (simp add: idle_def counted_def)
      moreover have "s' q = begin_exchange (s q)" using st 3(2) unfolding st_def by (auto dest: fun_cong)
      ultimately show ?thesis using zero(2) [OF 3(1)] 3(2) by (simp add: begin_exchange_def)
    qed
  qed
qed simp

theorem total_zero_iff:
  assumes "arrivals_ok R P ord" "\<And>r. r < P \<Longrightarrow> idle R valid r (s r)" "r < P"
  shows "snd (do_exchange R h ord s) r = 0 \<longleftrightarrow> (\<forall>q < P. send_count (s q) = 0)"
proof
  assume "snd (do_exchange R h ord s) r = 0"
  then show "\<forall>q < P. send_count (s q) = 0"
    using total_zero_reach [OF assms(1,2) le_refl assms(3), where h = h] reaches [OF assms(3)]
    by (simp add: do_exchange_def split_beta)
next
  assume "\<forall>q < P. send_count (s q) = 0"
  then show "snd (do_exchange R h ord s) r = 0"
    using quiet_stages [OF assms(1,2) _ le_refl assms(3), where h = h] by (simp add: do_exchange_def split_beta quiet_def)
qed

lemma quiet_exchange:
  assumes "arrivals_ok R P ord" "\<And>r. r < P \<Longrightarrow> idle R valid r (s r)" "quiet s" "r < P"
  shows "send_count (fst (do_exchange R h ord s) r) = 0" "received (fst (do_exchange R h ord s) r) = received (s r)"
  using quiet_stages [OF assms(1-3) le_refl assms(4), where h = h]
  by (simp_all add: do_exchange_def split_beta end_exchange_reqs)

theorem wait_empty_quiet:
  assumes "wait_empty R h ords s = Some s'" "0 < P" "\<forall>ord \<in> set ords. arrivals_ok R P ord"
    "\<And>r. r < P \<Longrightarrow> idle R valid r (s r)" "legal_handler P h" "r < P"
  shows "idle R valid r (s' r) \<and> send_count (s' r) = 0 \<and> in_flight R r (s' r) = {#}"
  using assms(1,3,4)
proof (induction ords arbitrary: s)
  case (Cons ord ords)
  obtain t tot where ex: "do_exchange R h ord s = (t, tot)" by (cases "do_exchange R h ord s")
  have ord: "arrivals_ok R P ord" using Cons.prems(2) by simp
  have idle: "idle R valid r (t r)" if "r < P" for r
    using do_exchange_effect(1) [OF ord Cons.prems(3) assms(5) that] ex by simp
  show ?case
  proof (cases "tot 0 = 0")
    case True
    then have "quiet s" using total_zero_iff [OF ord Cons.prems(3) assms(2), of h] ex by (simp add: quiet_def)
    then have "send_count (t r) = 0" using quiet_exchange(1) [OF ord Cons.prems(3) _ assms(6), of h] ex by simp
    moreover have "s' = t" using True Cons.prems(1) ex by (simp add: global_empty_def)
    ultimately show ?thesis using idle [OF assms(6)] quiet_in_flight by (simp add: idle_def)
  next
    case False
    then have "wait_empty R h ords t = Some s'" using Cons.prems(1) ex by (simp add: global_empty_def)
    then show ?thesis using Cons.IH idle Cons.prems(2) by simp
  qed
qed simp

text \<open>If no receipt is answered, two exchanges are enough.\<close>

theorem wait_empty_returns:
  assumes "0 < P" "arrivals_ok R P ord" "arrivals_ok R P ord'" "\<And>r. r < P \<Longrightarrow> idle R valid r (s r)"
    "h = (\<lambda>_ _. [])"
  shows "\<exists>s'. wait_empty R h (ord # ord' # ords) s = Some s'"
proof -
  have leg: "legal_handler P h" using assms(5) by (simp add: legal_handler_def)
  obtain t tot where ex: "do_exchange R h ord s = (t, tot)" by (cases "do_exchange R h ord s")
  have idle: "idle R valid r (t r)" if "r < P" for r
    using do_exchange_effect(1) [OF assms(2,4) leg that] ex by simp
  have "send_count (t r) = 0" if "r < P" for r
  proof -
    define m where "m = fst (fold (run_stage R h ord) [0..<stages R] (\<lambda>r. begin_exchange (s r), \<lambda>r. 0))"
    have inv: "stage_inv h s (stages R) m" unfolding m_def by (rule run_stages_inv) (use assms in auto)
    have "mset (postponed (m r)) = {#}" using inv that assms(5)
      by (auto simp: stage_inv_def log_ok_def reactions_def)
    moreover have "t r = end_exchange R r (m r)" using ex by (auto simp: m_def do_exchange_def split_beta)
    ultimately show ?thesis by (simp add: end_exchange_reqs)
  qed
  then have "snd (do_exchange R h ord' t) 0 = 0"
    using total_zero_iff [OF assms(3) idle assms(1), of h] by simp
  then show ?thesis using ex by (cases "do_exchange R h ord' t") (auto simp: global_empty_def)
qed

end

end
