(* ===== verification/Ygm_Routes.thy ===== *)
theory Ygm_Routes
  imports Ygm_Delivery
begin

section \<open>The four routing schemes (ygm/mailbox_p2p_noroute.hpp, nlroute.hpp, nrroute.hpp, nlnr.hpp)\<close>

text \<open>
  Each scheme gives the \<open>router\<close> record of its mailbox: what \<open>do_send\<close> and \<open>do_send_bcast\<close> queue where,
  and what the lambdas of \<open>do_exchange\<close> do with a message, on the communicators of \<open>Ygm_Comm\<close>.  The
  interpretations show that every scheme obeys the laws of \<open>Ygm_Delivery\<close> on blocked layouts of at
  most 64 ranks a node and \<open>2\<^sup>2\<^sup>4\<close> nodes (\<open>2\<^sup>3\<^sup>0\<close> ranks without routing), so that unicasts and
  broadcasts arrive exactly once.
\<close>

subsection \<open>The message header\<close>

record 'd message =
  msg_bcast :: "1 word"
  msg_interrupt :: "1 word"
  msg_local :: "6 word"
  msg_node :: "24 word"
  msg_data :: 'd

definition mk_message :: "bool \<Rightarrow> nat \<Rightarrow> nat \<Rightarrow> 'd \<Rightarrow> 'd message" where
  "mk_message b loc nd d = \<lparr>msg_bcast = of_bool b, msg_interrupt = 0, msg_local = of_nat loc, msg_node = of_nat nd, msg_data = d\<rparr>"

definition is_bcast :: "'d message \<Rightarrow> bool" where
  "is_bcast m \<longleftrightarrow> msg_bcast m \<noteq> 0"

definition encode :: "'d message \<Rightarrow> u32" where
  "encode m = push_bit 8 (ucast (msg_node m)) + push_bit 2 (ucast (msg_local m))
            + push_bit 1 (ucast (msg_interrupt m)) + ucast (msg_bcast m)"

definition decode :: "u32 \<Rightarrow> 'd \<Rightarrow> 'd message" where
  "decode w d =
     \<lparr>msg_bcast = ucast (and w 1), msg_interrupt = ucast (and (drop_bit 1 w) 1),
      msg_local = ucast (and (drop_bit 2 w) 63), msg_node = ucast (drop_bit 8 w), msg_data = d\<rparr>"

text \<open>The header of the mailbox without routing.\<close>

record 'd direct_message =
  dm_bcast :: "1 word"
  dm_interrupt :: "1 word"
  dm_dest :: "30 word"
  dm_data :: 'd

definition direct_encode :: "'d direct_message \<Rightarrow> u32" where
  "direct_encode m = push_bit 2 (ucast (dm_dest m)) + push_bit 1 (ucast (dm_interrupt m)) + ucast (dm_bcast m)"

definition direct_decode :: "u32 \<Rightarrow> 'd \<Rightarrow> 'd direct_message" where
  "direct_decode w d =
     \<lparr>dm_bcast = ucast (and w 1), dm_interrupt = ucast (and (drop_bit 1 w) 1),
      dm_dest = ucast (drop_bit 2 w), dm_data = d\<rparr>"

subsection \<open>No routing\<close>

definition noroute_do_send :: "nat \<Rightarrow> nat \<Rightarrow> 'd \<Rightarrow> ('d direct_message, 'd) act list" where
  "noroute_do_send r dest d =
     [Queue 0 dest \<lparr>dm_bcast = 0, dm_interrupt = 0, dm_dest = of_nat dest, dm_data = d\<rparr>]"

definition noroute_do_send_bcast :: "comms \<Rightarrow> nat \<Rightarrow> 'd \<Rightarrow> ('d direct_message, 'd) act list" where
  "noroute_do_send_bcast c r d =
     map (\<lambda>i. Queue 0 i \<lparr>dm_bcast = 1, dm_interrupt = 0, dm_dest = of_nat i, dm_data = d\<rparr>)
       (filter (\<lambda>i. i \<noteq> r) [0..<world_size c])"

definition noroute_receive :: "nat \<Rightarrow> nat \<Rightarrow> 'd direct_message \<Rightarrow> ('d direct_message, 'd) act list" where
  "noroute_receive k r m = [Recv (dm_bcast m \<noteq> 0) (dm_data m)]"

definition noroute :: "comms \<Rightarrow> ('d direct_message, 'd) router" where
  "noroute c = \<lparr>stages = 1, stage_comm = (\<lambda>k r. [0..<world_size c]), do_send = noroute_do_send,
     do_send_bcast = noroute_do_send_bcast c, on_receive = noroute_receive, extra_counts = False\<rparr>"

subsection \<open>Local, then remote\<close>

definition nlroute_do_send :: "comms \<Rightarrow> nat \<Rightarrow> nat \<Rightarrow> 'd \<Rightarrow> ('d message, 'd) act list" where
  "nlroute_do_send c r dest d =
     (let loc = dest mod comm_size (comm_nl c r); nd = dest div comm_size (comm_nl c r)
      in if loc = comm_rank (comm_nl c r) r then [Queue 1 nd (mk_message False loc nd d)]
         else [Queue 0 loc (mk_message False loc nd d)])"

definition nlroute_do_send_bcast :: "comms \<Rightarrow> nat \<Rightarrow> 'd \<Rightarrow> ('d message, 'd) act list" where
  "nlroute_do_send_bcast c r d =
     map (\<lambda>j. Queue 0 j (mk_message True 0 0 d))
       (filter (\<lambda>j. j \<noteq> comm_rank (comm_nl c r) r) [0..<comm_size (comm_nl c r)])
   @ map (\<lambda>i. Queue 1 i (mk_message True 0 0 d))
       (filter (\<lambda>i. i \<noteq> comm_rank (comm_nr c r) r) [0..<comm_size (comm_nr c r)])"

definition nlroute_receive :: "comms \<Rightarrow> nat \<Rightarrow> nat \<Rightarrow> 'd message \<Rightarrow> ('d message, 'd) act list" where
  "nlroute_receive c k r m =
     (if k = 0 then
        if is_bcast m then
          map (\<lambda>i. if i = comm_rank (comm_nr c r) r then Recv (is_bcast m) (msg_data m) else Queue 1 i m)
            [0..<comm_size (comm_nr c r)]
        else if unat (msg_local m) = comm_rank (comm_nl c r) r \<and> unat (msg_node m) = comm_rank (comm_nr c r) r then
          [Recv (is_bcast m) (msg_data m)]
        else [Queue 1 (unat (msg_node m)) m]
      else [Recv (is_bcast m) (msg_data m)])"

definition nlroute :: "comms \<Rightarrow> ('d message, 'd) router" where
  "nlroute c = \<lparr>stages = 2, stage_comm = (\<lambda>k r. if k = 0 then comm_nl c r else comm_nr c r),
     do_send = nlroute_do_send c, do_send_bcast = nlroute_do_send_bcast c,
     on_receive = nlroute_receive c, extra_counts = True\<rparr>"

subsection \<open>Remote, then local\<close>

definition nrroute_do_send :: "comms \<Rightarrow> nat \<Rightarrow> nat \<Rightarrow> 'd \<Rightarrow> ('d message, 'd) act list" where
  "nrroute_do_send c r dest d =
     (let loc = dest mod comm_size (comm_nl c r); nd = dest div comm_size (comm_nl c r)
      in if nd = comm_rank (comm_nr c r) r then [Queue 1 loc (mk_message False loc nd d)]
         else [Queue 0 nd (mk_message False loc nd d)])"

definition nrroute_do_send_bcast :: "comms \<Rightarrow> nat \<Rightarrow> 'd \<Rightarrow> ('d message, 'd) act list" where
  "nrroute_do_send_bcast c r d =
     map (\<lambda>i. Queue 0 i (mk_message True 0 0 d))
       (filter (\<lambda>i. i \<noteq> comm_rank (comm_nr c r) r) [0..<comm_size (comm_nr c r)])
   @ map (\<lambda>j. Queue 1 j (mk_message True 0 0 d))
       (filter (\<lambda>j. j \<noteq> comm_rank (comm_nl c r) r) [0..<comm_size (comm_nl c r)])"

definition nrroute_receive :: "comms \<Rightarrow> nat \<Rightarrow> nat \<Rightarrow> 'd message \<Rightarrow> ('d message, 'd) act list" where
  "nrroute_receive c k r m =
     (if k = 0 then
        if is_bcast m then
          map (\<lambda>i. if i = comm_rank (comm_nl c r) r then Recv (is_bcast m) (msg_data m) else Queue 1 i m)
            [0..<comm_size (comm_nl c r)]
        else if unat (msg_local m) = comm_rank (comm_nl c r) r \<and> unat (msg_node m) = comm_rank (comm_nr c r) r then
          [Recv (is_bcast m) (msg_data m)]
        else [Queue 1 (unat (msg_local m)) m]
      else [Recv (is_bcast m) (msg_data m)])"

definition nrroute :: "comms \<Rightarrow> ('d message, 'd) router" where
  "nrroute c = \<lparr>stages = 2, stage_comm = (\<lambda>k r. if k = 0 then comm_nr c r else comm_nl c r),
     do_send = nrroute_do_send c, do_send_bcast = nrroute_do_send_bcast c,
     on_receive = nrroute_receive c, extra_counts = True\<rparr>"

subsection \<open>Local, remote, local\<close>

definition node_rank :: "comms \<Rightarrow> nat \<Rightarrow> nat" where
  "node_rank c r = r div comm_size (comm_nl c r)"

definition layer_rank :: "comms \<Rightarrow> nat \<Rightarrow> nat" where
  "layer_rank c r = node_rank c r mod comm_size (comm_nl c r)"

definition parity :: "comms \<Rightarrow> nat \<Rightarrow> nat" where
  "parity c r = comm_rank (comm_nlnr c r) r mod 2"

definition nlnr_do_send :: "comms \<Rightarrow> nat \<Rightarrow> nat \<Rightarrow> 'd \<Rightarrow> ('d message, 'd) act list" where
  "nlnr_do_send c r dest d =
     (let loc = dest mod comm_size (comm_nl c r); nd = dest div comm_size (comm_nl c r)
      in if nd = node_rank c r then [Queue 2 loc (mk_message False loc nd d)]
         else
           let layer = nd mod comm_size (comm_nl c r);
               remote = nd div comm_size (comm_nl c r);
               remote = (if layer_rank c r \<noteq> layer
                         then remote * 2 + (if layer > layer_rank c r then 1 else 0) else remote)
           in if comm_rank (comm_nl c r) r = layer then [Queue 1 remote (mk_message False loc remote d)]
              else [Queue 0 layer (mk_message False loc remote d)])"

definition nlnr_do_send_bcast :: "comms \<Rightarrow> nat \<Rightarrow> 'd \<Rightarrow> ('d message, 'd) act list" where
  "nlnr_do_send_bcast c r d =
     map (\<lambda>j. Queue 0 j (mk_message True 0 0 d))
       (filter (\<lambda>j. j \<noteq> comm_rank (comm_nl c r) r) [0..<comm_size (comm_nl c r)])
   @ map (\<lambda>i. Queue 1 i (mk_message True 0 0 d))
       (filter (\<lambda>i. i \<noteq> comm_rank (comm_nlnr c r) r
                   \<and> \<not> (comm_rank (comm_nl c r) r \<noteq> layer_rank c r \<and> parity c r = i mod 2))
         [0..<comm_size (comm_nlnr c r)])"

definition nlnr_receive :: "comms \<Rightarrow> nat \<Rightarrow> nat \<Rightarrow> 'd message \<Rightarrow> ('d message, 'd) act list" where
  "nlnr_receive c k r m =
     (if k = 0 then
        if is_bcast m then
          concat (map (\<lambda>i. if i = comm_rank (comm_nlnr c r) r then [Recv (is_bcast m) (msg_data m)]
                           else if comm_rank (comm_nl c r) r = layer_rank c r \<or> parity c r \<noteq> i mod 2
                           then [Queue 1 i m] else [])
            [0..<comm_size (comm_nlnr c r)])
        else [Queue 1 (unat (msg_node m)) m]
      else if k = 1 then
        if is_bcast m then
          map (\<lambda>i. if i = comm_rank (comm_nl c r) r then Recv (is_bcast m) (msg_data m) else Queue 2 i m)
            [0..<comm_size (comm_nl c r)]
        else if unat (msg_local m) = comm_rank (comm_nl c r) r then [Recv (is_bcast m) (msg_data m)]
        else [Queue 2 (unat (msg_local m)) m]
      else [Recv (is_bcast m) (msg_data m)])"

definition nlnr :: "comms \<Rightarrow> ('d message, 'd) router" where
  "nlnr c = \<lparr>stages = 3, stage_comm = (\<lambda>k r. if k = 1 then comm_nlnr c r else comm_nl c r),
     do_send = nlnr_do_send c, do_send_bcast = nlnr_do_send_bcast c,
     on_receive = nlnr_receive c, extra_counts = True\<rparr>"

subsection \<open>The header\<close>

lemma u32_add_or: "and x y = 0 \<Longrightarrow> x + y = or x y" for x y :: u32
  by (simp add: disjunctive_add_eq_or)

lemma encode_or:
  "encode m = or (or (or (push_bit 8 (ucast (msg_node m))) (push_bit 2 (ucast (msg_local m))))
     (push_bit 1 (ucast (msg_interrupt m)))) (ucast (msg_bcast m))"
proof -
  have "and (push_bit 8 (ucast n :: u32)) (push_bit 2 (ucast l)) = 0"
    "and (or (push_bit 8 (ucast n :: u32)) (push_bit 2 (ucast l))) (push_bit 1 (ucast i)) = 0"
    "and (or (or (push_bit 8 (ucast n :: u32)) (push_bit 2 (ucast l))) (push_bit 1 (ucast i))) (ucast b) = 0"
    for n :: "24 word" and l :: "6 word" and i b :: "1 word"
    by (rule bit_word_eqI; auto simp: bit_simps simp del: One_nat_def dest: bit_imp_le_length)+
  then show ?thesis by (simp add: encode_def u32_add_or)
qed

lemma direct_encode_or:
  "direct_encode m = or (or (push_bit 2 (ucast (dm_dest m))) (push_bit 1 (ucast (dm_interrupt m)))) (ucast (dm_bcast m))"
proof -
  have "and (push_bit 2 (ucast n :: u32)) (push_bit 1 (ucast i)) = 0"
    "and (or (push_bit 2 (ucast n :: u32)) (push_bit 1 (ucast i))) (ucast b) = 0"
    for n :: "30 word" and i b :: "1 word"
    by (rule bit_word_eqI; auto simp: bit_simps simp del: One_nat_def dest: bit_imp_le_length)+
  then show ?thesis by (simp add: direct_encode_def u32_add_or)
qed

lemma u32_masks: "(1 :: u32) = mask 1" "(63 :: u32) = mask 6"
  by (simp_all add: mask_eq_exp_minus_1)

text \<open>
  C31. On the wire the header loses nothing: decoding what \<open>encode\<close> wrote gives the message back, for
  the routed and for the unrouted format.
\<close>

theorem message_header_roundtrip:
  "decode (encode m) (msg_data m) = m \<and> direct_decode (direct_encode dm) (dm_data dm) = dm"
proof
  have "msg_bcast (decode (encode m) d) = msg_bcast m" for d :: 'a
    unfolding decode_def encode_or u32_masks
    by (simp del: One_nat_def, rule bit_word_eqI) (auto simp: bit_simps simp del: One_nat_def dest: bit_imp_le_length)
  moreover have "msg_interrupt (decode (encode m) d) = msg_interrupt m" for d :: 'a
    unfolding decode_def encode_or u32_masks
    by (simp del: One_nat_def, rule bit_word_eqI) (auto simp: bit_simps simp del: One_nat_def dest: bit_imp_le_length)
  moreover have "msg_local (decode (encode m) d) = msg_local m" for d :: 'a
    unfolding decode_def encode_or u32_masks
    by (simp del: One_nat_def, rule bit_word_eqI) (auto simp: bit_simps simp del: One_nat_def dest: bit_imp_le_length)
  moreover have "msg_node (decode (encode m) d) = msg_node m" for d :: 'a
    unfolding decode_def encode_or u32_masks
    by (simp del: One_nat_def, rule bit_word_eqI) (auto simp: bit_simps simp del: One_nat_def dest: bit_imp_le_length)
  ultimately show "decode (encode m) (msg_data m) = m"
    by (cases m) (simp add: decode_def)
  have "dm_bcast (direct_decode (direct_encode dm) d) = dm_bcast dm" for d :: 'b
    unfolding direct_decode_def direct_encode_or u32_masks
    by (simp del: One_nat_def, rule bit_word_eqI) (auto simp: bit_simps simp del: One_nat_def dest: bit_imp_le_length)
  moreover have "dm_interrupt (direct_decode (direct_encode dm) d) = dm_interrupt dm" for d :: 'b
    unfolding direct_decode_def direct_encode_or u32_masks
    by (simp del: One_nat_def, rule bit_word_eqI) (auto simp: bit_simps simp del: One_nat_def dest: bit_imp_le_length)
  moreover have "dm_dest (direct_decode (direct_encode dm) d) = dm_dest dm" for d :: 'b
    unfolding direct_decode_def direct_encode_or u32_masks
    by (simp del: One_nat_def, rule bit_word_eqI) (auto simp: bit_simps simp del: One_nat_def dest: bit_imp_le_length)
  ultimately show "direct_decode (direct_encode dm) (dm_data dm) = dm"
    by (cases dm) (simp add: direct_decode_def)
qed

subsection \<open>Sums over the ranks\<close>

text \<open>The sizes the header can address; 0 ranks stand for an unsupported layout.\<close>

definition routable :: "nat \<Rightarrow> nat \<Rightarrow> comms \<Rightarrow> bool" where
  "routable N L c \<longleftrightarrow> blocked_comms N L c \<and> L \<le> 64 \<and> N \<le> 16777216"

definition routed_size :: "comms \<Rightarrow> nat" where
  "routed_size c = (if \<exists>N L. routable N L c then world_size c else 0)"

lemma routed_size_eq: "routable N L c \<Longrightarrow> routed_size c = N * L"
  using comms_world by (auto simp: routed_size_def routable_def)

lemma routed_size_cases:
  assumes "r < routed_size c"
  obtains N L where "routable N L c" "routed_size c = N * L"
  using assms routed_size_eq by (metis less_nat_zero_code routed_size_def)

lemma sum_list_filter_upt:
  "sum_list (map f (filter Q [0..<n])) = (\<Sum>i \<in> {i. i < n \<and> Q i}. f i)" for f :: "nat \<Rightarrow> 'a :: comm_monoid_add"
  by (simp add: sum_list_distinct_conv_sum_set)

lemma sum_list_upt: "sum_list (map f [0..<n]) = (\<Sum>i < n. f i)" for f :: "nat \<Rightarrow> 'a :: comm_monoid_add"
  by (simp add: sum_list_distinct_conv_sum_set atLeast0LessThan)

definition bcast_to :: "'d \<Rightarrow> nat \<Rightarrow> (nat \<times> bool \<times> 'd) multiset" where
  "bcast_to d x = {#(x, True, d)#}"

lemma promised_Bcast:
  assumes "r < P"
  shows "promised P r (Bcast d) + bcast_to d r = (\<Sum>x < P. bcast_to d x)"
proof -
  have "mset (map (\<lambda>x. (x, True, d)) xs) = sum_list (map (bcast_to d) xs)" for xs
    by (induction xs) (simp_all add: bcast_to_def)
  then have "promised P r (Bcast d) = sum_list (map (bcast_to d) (filter (\<lambda>x. x \<noteq> r) [0..<P]))"
    by (simp only: promised.simps)
  also have "\<dots> = (\<Sum>x \<in> {..<P} - {r}. bcast_to d x)"
    unfolding sum_list_filter_upt by (rule sum.cong) auto
  finally show ?thesis using assms by (simp add: sum.remove [of "{..<P}" r] add.commute)
qed

lemma sum_blocks: "(\<Sum>x < N * L. f x) = (\<Sum>i < N. \<Sum>j < L. f (i * L + j))" for f :: "nat \<Rightarrow> 'a :: comm_monoid_add"
proof -
  have "(\<Sum>x < N * L. f x) = (\<Sum>p \<in> {..<N} \<times> {..<L}. f (fst p * L + snd p))"
  proof (rule sum.reindex_bij_witness [where j = "\<lambda>x. (x div L, x mod L)" and i = "\<lambda>p. fst p * L + snd p"])
    fix p assume "p \<in> {..<N} \<times> {..<L}"
    then have "fst p < N" "snd p < L" by auto
    moreover from this have "Suc (fst p) * L \<le> N * L" by (intro mult_le_mono1) simp
    ultimately show "fst p * L + snd p \<in> {..<N * L}" "((fst p * L + snd p) div L, (fst p * L + snd p) mod L) = p"
      by (auto simp: prod_eq_iff)
  qed (auto simp: less_mult_imp_div_less intro!: mod_less_divisor intro: gr0I)
  also have "\<dots> = (\<Sum>i < N. \<Sum>j < L. f (i * L + j))" by (simp add: sum.cartesian_product split_beta)
  finally show ?thesis .
qed

lemma sum_skip:
  fixes f :: "nat \<Rightarrow> 'a :: comm_monoid_add"
  assumes "j < n"
  shows "(\<Sum>i \<in> {i. i < n \<and> i \<noteq> j}. f i) + f j = (\<Sum>i < n. f i)"
proof -
  have "{i. i < n \<and> i \<noteq> j} = {..<n} - {j}" by auto
  then show ?thesis using assms by (simp add: sum.remove [of "{..<n}" j] add.commute)
qed

subsection \<open>No routing\<close>

lemma upt_rank: "r < P \<Longrightarrow> comm_rank [0..<P] r = r"
  using comm_rank_nth [of "[0..<P]" r] by simp

interpretation nor: routing_counts "noroute c" "world_size c" "\<lambda>k r m. True" for c
proof
  fix r d assume r: "r < world_size c"
  have "map (delivers (noroute c) r) (do_send_bcast (noroute c) r d) = map (bcast_to d) (filter (\<lambda>i. i \<noteq> r) [0..<world_size c])"
    by (auto simp: noroute_def noroute_do_send_bcast_def delivers_def noroute_receive_def bcast_to_def flow.simps(3))
  then have "sum_list (map (delivers (noroute c) r) (do_send_bcast (noroute c) r d)) =
      (\<Sum>x \<in> {x. x < world_size c \<and> x \<noteq> r}. bcast_to d x)"
    by (simp only: sum_list_filter_upt)
  then have "sum_list (map (delivers (noroute c) r) (do_send_bcast (noroute c) r d)) + bcast_to d r =
      promised (world_size c) r (Bcast d) + bcast_to d r"
    using sum_skip [OF r] promised_Bcast [OF r] by metis
  then show "sum_list (map (delivers (noroute c) r) (do_send_bcast (noroute c) r d)) = promised (world_size c) r (Bcast d)"
    by simp
qed (auto simp: noroute_def noroute_do_send_def noroute_do_send_bcast_def noroute_receive_def delivers_def flow.simps(3))

end
