(* ===== verification/Ygm_Nlroute.thy ===== *)
theory Ygm_Nlroute
  imports Ygm_Routes
begin

section \<open>The two-exchange schemes obey the laws\<close>

text \<open>
  The interpretations of the routing locales on the schemes of \<open>mailbox_p2p_nlroute.hpp\<close> and
  \<open>mailbox_p2p_nrroute.hpp\<close>.
\<close>

lemma mk_message_simps [simp]:
  "is_bcast (mk_message b loc nd d) \<longleftrightarrow> b"
  "msg_data (mk_message b loc nd d) = d"
  "loc < 64 \<Longrightarrow> unat (msg_local (mk_message b loc nd d)) = loc"
  "nd < 16777216 \<Longrightarrow> unat (msg_node (mk_message b loc nd d)) = nd"
  by (simp_all add: mk_message_def is_bcast_def unat_of_nat take_bit_nat_eq_self)

definition nlroute_valid :: "comms \<Rightarrow> nat \<Rightarrow> nat \<Rightarrow> 'd message \<Rightarrow> bool" where
  "nlroute_valid c k r m \<longleftrightarrow> (k = 0 \<and> \<not> is_bcast m \<longrightarrow> unat (msg_node m) < comm_size (comm_nr c r))"

definition nrroute_valid :: "comms \<Rightarrow> nat \<Rightarrow> nat \<Rightarrow> 'd message \<Rightarrow> bool" where
  "nrroute_valid c k r m \<longleftrightarrow> (k = 0 \<and> \<not> is_bcast m \<longrightarrow> unat (msg_local m) < comm_size (comm_nl c r))"

text \<open>The communicators of one rank of a routable layout.\<close>

lemma routable_rank:
  assumes "routable N L c" "r < N * L"
  shows "0 < L" "L \<le> 64" "N \<le> 16777216" "r div L < N" "r mod L < L"
    "comm_nl c r = map (\<lambda>i. (r div L) * L + i) [0..<L]" "comm_size (comm_nl c r) = L"
    "comm_rank (comm_nl c r) r = r mod L"
    "comm_nr c r = map (\<lambda>i. i * L + r mod L) [0..<N]" "comm_size (comm_nr c r) = N"
    "comm_rank (comm_nr c r) r = r div L"
  using assms comms_nl comms_nl_rank comms_nr comms_nr_rank comms_nl_size comms_nr_size blocked_comms_pos
  by (auto simp: routable_def less_mult_imp_div_less)

lemma block_less: "i < N \<Longrightarrow> j < L \<Longrightarrow> i * L + j < N * L" for N L :: nat
proof -
  assume "i < N" "j < L"
  moreover from this have "Suc i * L \<le> N * L" by (intro mult_le_mono1) simp
  ultimately show ?thesis by simp
qed

lemma block_div_mod [simp]: "j < L \<Longrightarrow> (i * L + j) div L = i" "j < L \<Longrightarrow> (i * L + j) mod L = j" for L :: nat
  by auto

lemma nl_laws:
  assumes "routable N L c" "r < N * L"
  shows "distinct (comm_nl c r)" "r \<in> set (comm_nl c r)" "q \<in> set (comm_nl c r) \<Longrightarrow> q < N * L"
    "q \<in> set (comm_nl c r) \<Longrightarrow> comm_nl c q = comm_nl c r"
proof -
  note R = routable_rank [OF assms]
  show "distinct (comm_nl c r)" using R by (simp add: distinct_map inj_on_def)
  show "r \<in> set (comm_nl c r)" unfolding R(6) set_map using R(5) by (intro image_eqI [of _ _ "r mod L"]) simp_all
  show *: "q < N * L" if mem: "q \<in> set (comm_nl c r)"
  proof -
    obtain j where "j \<in> set [0..<L]" "q = (r div L) * L + j" using mem unfolding R(6) set_map by blast
    then show ?thesis using R(4) block_less by simp
  qed
  show "comm_nl c q = comm_nl c r" if mem: "q \<in> set (comm_nl c r)"
  proof -
    obtain j where "j \<in> set [0..<L]" "q = (r div L) * L + j" using mem unfolding R(6) set_map by blast
    then have "q div L = r div L" by simp
    then show ?thesis using routable_rank(6) [OF assms(1) * [OF mem]] R(6) by simp
  qed
qed

lemma nr_laws:
  assumes "routable N L c" "r < N * L"
  shows "distinct (comm_nr c r)" "r \<in> set (comm_nr c r)" "q \<in> set (comm_nr c r) \<Longrightarrow> q < N * L"
    "q \<in> set (comm_nr c r) \<Longrightarrow> comm_nr c q = comm_nr c r"
proof -
  note R = routable_rank [OF assms]
  show "distinct (comm_nr c r)" using R by (auto simp: distinct_map inj_on_def)
  show "r \<in> set (comm_nr c r)" unfolding R(9) set_map using R(4) by (intro image_eqI [of _ _ "r div L"]) simp_all
  show *: "q < N * L" if "q \<in> set (comm_nr c r)" using that R block_less by auto
  show "comm_nr c q = comm_nr c r" if "q \<in> set (comm_nr c r)"
    using that R routable_rank(9) [OF assms(1) *] by auto
qed

subsection \<open>Local, then remote\<close>

lemma nlroute_sel [simp]:
  "stages (nlroute c) = 2" "stage_comm (nlroute c) k r = (if k = 0 then comm_nl c r else comm_nr c r)"
  "do_send (nlroute c) = nlroute_do_send c" "do_send_bcast (nlroute c) = nlroute_do_send_bcast c"
  "on_receive (nlroute c) = nlroute_receive c" "extra_counts (nlroute c)"
  by (simp_all add: nlroute_def)

lemma nlroute_hop1:
  assumes "routable N L c" "r < N * L" "i < N"
  shows "flow (nlroute c) (Suc n) r (Queue (Suc 0) i m) = {#(i * L + r mod L, is_bcast m, msg_data m)#}"
  using routable_rank [OF assms(1,2)] assms(3) by (simp add: nlroute_receive_def Let_def flow.simps(3))

lemma nlroute_hop0_bcast:
  assumes "routable N L c" "r < N * L" "j < L" "is_bcast m"
  shows "flow (nlroute c) 2 r (Queue 0 j m) = (\<Sum>i < N. bcast_to (msg_data m) (i * L + j))"
proof -
  let ?x = "(r div L) * L + j"
  note R = routable_rank [OF assms(1,2)]
  have x: "?x < N * L" using R assms(3) block_less by simp
  note X = routable_rank [OF assms(1) x]
  have "flow (nlroute c) (Suc 0) ?x (if i = r div L then Recv (is_bcast m) (msg_data m) else Queue (Suc 0) i m) =
      bcast_to (msg_data m) (i * L + j)" if "i < N" for i
    using assms(3,4) by (simp add: bcast_to_def nlroute_hop1 [OF assms(1) x that])
  then have "sum_list (map (\<lambda>i. flow (nlroute c) (Suc 0) ?x (if i = r div L then Recv (is_bcast m) (msg_data m) else Queue (Suc 0) i m)) [0..<N]) =
      (\<Sum>i < N. bcast_to (msg_data m) (i * L + j))"
    unfolding sum_list_upt by (intro sum.cong) auto
  then show ?thesis
    using R X assms(3,4) by (simp add: numeral_2_eq_2 nlroute_receive_def Let_def comp_def flow.simps(3) cong: if_cong)
qed

lemma nlroute_send_delivers:
  assumes "routable N L c" "r < N * L" "dest < N * L"
  shows "sum_list (map (delivers (nlroute c) r) (nlroute_do_send c r dest d)) = {#(dest, False, d)#}"
proof -
  note R = routable_rank [OF assms(1,2)] and D = routable_rank [OF assms(1,3)]
  show ?thesis
  proof (cases "dest mod L = r mod L")
    case True
    then have "dest div L * L + r mod L = dest" by (metis div_mult_mod_eq)
    then show ?thesis using True R D
      by (simp add: nlroute_do_send_def delivers_def Let_def numeral_2_eq_2 nlroute_hop1 [OF assms(1,2) D(4)])
  next
    case False
    let ?x = "(r div L) * L + dest mod L" and ?m = "mk_message False (dest mod L) (dest div L) d"
    have x: "?x < N * L" using R D block_less by simp
    note X = routable_rank [OF assms(1) x]
    have m: "unat (msg_local ?m) = dest mod L" "unat (msg_node ?m) = dest div L"
      using D by simp_all
    have same: "dest div L = r div L \<longrightarrow> r div L * L + dest mod L = dest" by (metis div_mult_mod_eq)
    have "flow (nlroute c) 2 r (Queue 0 (dest mod L) ?m) = {#(dest, False, d)#}"
      using R D X m same
      by (simp add: nlroute_hop1 [OF assms(1) x D(4)] numeral_2_eq_2 nlroute_receive_def Let_def flow.simps(3) [of _ 1, simplified])
    then show ?thesis using False R D by (simp add: nlroute_do_send_def delivers_def Let_def)
  qed
qed

lemma nlroute_bcast_delivers:
  assumes "routable N L c" "r < N * L"
  shows "sum_list (map (delivers (nlroute c) r) (nlroute_do_send_bcast c r d)) = promised (N * L) r (Bcast d)"
proof -
  note R = routable_rank [OF assms]
  let ?m = "mk_message True 0 0 d" and ?g = "bcast_to d"
  have 0: "map (delivers (nlroute c) r) (map (\<lambda>j. Queue 0 j ?m) (filter (\<lambda>j. j \<noteq> r mod L) [0..<L])) =
      map (\<lambda>j. \<Sum>i < N. ?g (i * L + j)) (filter (\<lambda>j. j \<noteq> r mod L) [0..<L])"
    by (auto simp: delivers_def nlroute_hop0_bcast [OF assms])
  have 1: "map (delivers (nlroute c) r) (map (\<lambda>i. Queue 1 i ?m) (filter (\<lambda>i. i \<noteq> r div L) [0..<N])) =
      map (\<lambda>i. ?g (i * L + r mod L)) (filter (\<lambda>i. i \<noteq> r div L) [0..<N])"
    by (auto simp: delivers_def bcast_to_def numeral_2_eq_2 nlroute_hop1 [OF assms])
  have "sum_list (map (delivers (nlroute c) r) (nlroute_do_send_bcast c r d)) =
      (\<Sum>j | j < L \<and> j \<noteq> r mod L. \<Sum>i < N. ?g (i * L + j)) + (\<Sum>i | i < N \<and> i \<noteq> r div L. ?g (i * L + r mod L))"
    using R unfolding nlroute_do_send_bcast_def map_append 
    by (simp only: 0 1 sum_list.append sum_list_filter_upt)
  then have "sum_list (map (delivers (nlroute c) r) (nlroute_do_send_bcast c r d)) + ?g r =
      (\<Sum>j | j < L \<and> j \<noteq> r mod L. \<Sum>i < N. ?g (i * L + j)) +
      ((\<Sum>i | i < N \<and> i \<noteq> r div L. ?g (i * L + r mod L)) + ?g (r div L * L + r mod L))"
    by (simp add: add.assoc)
  also have "\<dots> = (\<Sum>j < L. \<Sum>i < N. ?g (i * L + j))"
    using sum_skip [OF R(4), of "\<lambda>i. ?g (i * L + r mod L)"] sum_skip [OF R(5), of "\<lambda>j. \<Sum>i < N. ?g (i * L + j)"] by simp
  also have "\<dots> = (\<Sum>x < N * L. ?g x)" unfolding sum_blocks by (rule sum.swap)
  finally show ?thesis using promised_Bcast [OF assms(2), of d] by (metis add_right_cancel)
qed

lemma nlroute_receive_legal:
  assumes "routable N L c" "r < N * L" "nlroute_valid c k r m" "k < 2" "a \<in> set (nlroute_receive c k r m)"
  shows "legal_act (nlroute c) (nlroute_valid c) (Suc k) r a"
  using assms(3-5) routable_rank [OF assms(1,2)]
  by (cases "k = 0") (auto simp: nlroute_receive_def nlroute_valid_def Let_def split: if_splits)

lemma nlroute_send_legal:
  assumes "routable N L c" "r < N * L" "dest < N * L" "a \<in> set (nlroute_do_send c r dest d)"
  shows "is_queue a \<and> legal_act (nlroute c) (nlroute_valid c) 0 r a"
proof -
  note R = routable_rank [OF assms(1,2)] and D = routable_rank [OF assms(1,3)]
  let ?m = "mk_message False (dest mod L) (dest div L) d"
  have m: "unat (msg_local ?m) = dest mod L" "unat (msg_node ?m) = dest div L" using D by simp_all
  have x: "(r div L) * L + dest mod L < N * L" using R D block_less by simp
  have "nlroute_valid c 0 (comm_nl c r ! (dest mod L)) ?m"
    using R D m routable_rank(10) [OF assms(1) x] by (simp add: nlroute_valid_def)
  moreover have "nlroute_valid c (Suc 0) y ?m" for y by (simp add: nlroute_valid_def)
  moreover have "a = Queue (Suc 0) (dest div L) ?m \<or> a = Queue 0 (dest mod L) ?m"
    using assms(4) R D by (auto simp: nlroute_do_send_def Let_def split: if_splits)
  ultimately show ?thesis using R D by (auto simp: comm_size_def)
qed

lemma nlroute_bcast_legal:
  assumes "routable N L c" "r < N * L" "a \<in> set (nlroute_do_send_bcast c r d)"
  shows "is_queue a \<and> legal_act (nlroute c) (nlroute_valid c) 0 r a"
  using assms(3) routable_rank [OF assms(1,2)]
  by (auto simp: nlroute_do_send_bcast_def nlroute_valid_def comm_size_def)

interpretation nl: routing_counts "nlroute c" "routed_size c" "nlroute_valid c" for c
proof
  fix k r q assume k: "k < stages (nlroute c)" and r: "r < routed_size c"
  obtain N L where l: "routable N L c" "routed_size c = N * L" using routed_size_cases [OF r] .
  note nl = nl_laws [OF l(1) r [unfolded l(2)]] and nr = nr_laws [OF l(1) r [unfolded l(2)]]
  show "distinct (stage_comm (nlroute c) k r)" "r \<in> set (stage_comm (nlroute c) k r)" using nl(1,2) nr(1,2) by simp_all
  assume "q \<in> set (stage_comm (nlroute c) k r)"
  then show "q < routed_size c" "stage_comm (nlroute c) k q = stage_comm (nlroute c) k r"
    unfolding nlroute_sel l(2) using nl(3,4) [of q] nr(3,4) [of q] by (simp_all split: if_splits)
next
  fix k r m a assume "k < stages (nlroute c)" and r: "r < routed_size c" and "nlroute_valid c k r m"
    "a \<in> set (on_receive (nlroute c) k r m)"
  then show "legal_act (nlroute c) (nlroute_valid c) (Suc k) r a"
    using routed_size_cases [OF r] nlroute_receive_legal by (metis nlroute_sel(1,5))
next
  fix r dest a d assume r: "r < routed_size c" and "dest < routed_size c" "a \<in> set (do_send (nlroute c) r dest d)"
  then show "is_queue a \<and> legal_act (nlroute c) (nlroute_valid c) 0 r a"
    using routed_size_cases [OF r] nlroute_send_legal by (metis nlroute_sel(3))
next
  fix r a d assume r: "r < routed_size c" and "a \<in> set (do_send_bcast (nlroute c) r d)"
  then show "is_queue a \<and> legal_act (nlroute c) (nlroute_valid c) 0 r a"
    using routed_size_cases [OF r] nlroute_bcast_legal by (metis nlroute_sel(4))
next
  fix r dest d assume r: "r < routed_size c" and "dest < routed_size c"
  then show "sum_list (map (delivers (nlroute c) r) (do_send (nlroute c) r dest d)) = promised (routed_size c) r (Unicast dest d)"
    using routed_size_cases [OF r] nlroute_send_delivers by (metis nlroute_sel(3) promised.simps(1))
next
  fix r d assume r: "r < routed_size c"
  then show "sum_list (map (delivers (nlroute c) r) (do_send_bcast (nlroute c) r d)) = promised (routed_size c) r (Bcast d)"
    using routed_size_cases [OF r] nlroute_bcast_delivers by (metis nlroute_sel(4))
next
  fix r q assume r: "r < routed_size c" and q: "q < routed_size c"
  obtain N L where l: "routable N L c" "routed_size c = N * L" using routed_size_cases [OF r] .
  note R = routable_rank [OF l(1) r [unfolded l(2)]] and Q = routable_rank [OF l(1) q [unfolded l(2)]]
  let ?x = "(q div L) * L + r mod L"
  have x: "?x < N * L" using R Q block_less by simp
  have "?x \<in> set (comm_nr c r)" using R(9) Q(4) by auto
  moreover have "q \<in> set (comm_nl c ?x)"
    unfolding routable_rank(6) [OF l(1) x] set_map using R Q by (intro image_eqI [of _ _ "q mod L"]) simp_all
  ultimately show "q \<in> set (reach (nlroute c) (stages (nlroute c)) r)"
    by (auto simp: numeral_2_eq_2)
qed auto

subsection \<open>Remote, then local\<close>

lemma nrroute_sel [simp]:
  "stages (nrroute c) = 2" "stage_comm (nrroute c) k r = (if k = 0 then comm_nr c r else comm_nl c r)"
  "do_send (nrroute c) = nrroute_do_send c" "do_send_bcast (nrroute c) = nrroute_do_send_bcast c"
  "on_receive (nrroute c) = nrroute_receive c" "extra_counts (nrroute c)"
  by (simp_all add: nrroute_def)

lemma nrroute_hop1:
  assumes "routable N L c" "r < N * L" "j < L"
  shows "flow (nrroute c) (Suc n) r (Queue (Suc 0) j m) = {#(r div L * L + j, is_bcast m, msg_data m)#}"
  using routable_rank [OF assms(1,2)] assms(3) by (simp add: nrroute_receive_def Let_def flow.simps(3))

lemma nrroute_hop0_bcast:
  assumes "routable N L c" "r < N * L" "i < N" "is_bcast m"
  shows "flow (nrroute c) 2 r (Queue 0 i m) = (\<Sum>j < L. bcast_to (msg_data m) (i * L + j))"
proof -
  let ?x = "i * L + r mod L"
  note R = routable_rank [OF assms(1,2)]
  have x: "?x < N * L" using R assms(3) block_less by simp
  note X = routable_rank [OF assms(1) x]
  have "flow (nrroute c) (Suc 0) ?x (if j = r mod L then Recv (is_bcast m) (msg_data m) else Queue (Suc 0) j m) =
      bcast_to (msg_data m) (i * L + j)" if "j < L" for j
    using assms(3,4) R by (simp add: bcast_to_def nrroute_hop1 [OF assms(1) x that])
  then have "sum_list (map (\<lambda>j. flow (nrroute c) (Suc 0) ?x (if j = r mod L then Recv (is_bcast m) (msg_data m) else Queue (Suc 0) j m)) [0..<L]) =
      (\<Sum>j < L. bcast_to (msg_data m) (i * L + j))"
    unfolding sum_list_upt by (intro sum.cong) auto
  then show ?thesis
    using R X assms(3,4) by (simp add: numeral_2_eq_2 nrroute_receive_def Let_def comp_def flow.simps(3) cong: if_cong)
qed

lemma nrroute_send_delivers:
  assumes "routable N L c" "r < N * L" "dest < N * L"
  shows "sum_list (map (delivers (nrroute c) r) (nrroute_do_send c r dest d)) = {#(dest, False, d)#}"
proof -
  note R = routable_rank [OF assms(1,2)] and D = routable_rank [OF assms(1,3)]
  show ?thesis
  proof (cases "dest div L = r div L")
    case True
    then have "r div L * L + dest mod L = dest" by (metis div_mult_mod_eq)
    then show ?thesis using True R D
      by (simp add: nrroute_do_send_def delivers_def Let_def numeral_2_eq_2 nrroute_hop1 [OF assms(1,2) D(5)])
  next
    case False
    let ?x = "(dest div L) * L + r mod L" and ?m = "mk_message False (dest mod L) (dest div L) d"
    have x: "?x < N * L" using R D block_less by simp
    note X = routable_rank [OF assms(1) x]
    have m: "unat (msg_local ?m) = dest mod L" "unat (msg_node ?m) = dest div L"
      using D by simp_all
    have same: "dest mod L = r mod L \<longrightarrow> dest div L * L + r mod L = dest" by (metis div_mult_mod_eq)
    have "flow (nrroute c) 2 r (Queue 0 (dest div L) ?m) = {#(dest, False, d)#}"
      using R D X m same
      by (simp add: nrroute_hop1 [OF assms(1) x D(5)] numeral_2_eq_2 nrroute_receive_def Let_def flow.simps(3) [of _ 1, simplified])
    then show ?thesis using False R D by (simp add: nrroute_do_send_def delivers_def Let_def)
  qed
qed

lemma nrroute_bcast_delivers:
  assumes "routable N L c" "r < N * L"
  shows "sum_list (map (delivers (nrroute c) r) (nrroute_do_send_bcast c r d)) = promised (N * L) r (Bcast d)"
proof -
  note R = routable_rank [OF assms]
  let ?m = "mk_message True 0 0 d" and ?g = "bcast_to d"
  have 0: "map (delivers (nrroute c) r) (map (\<lambda>i. Queue 0 i ?m) (filter (\<lambda>i. i \<noteq> r div L) [0..<N])) =
      map (\<lambda>i. \<Sum>j < L. ?g (i * L + j)) (filter (\<lambda>i. i \<noteq> r div L) [0..<N])"
    by (auto simp: delivers_def nrroute_hop0_bcast [OF assms])
  have 1: "map (delivers (nrroute c) r) (map (\<lambda>j. Queue 1 j ?m) (filter (\<lambda>j. j \<noteq> r mod L) [0..<L])) =
      map (\<lambda>j. ?g (r div L * L + j)) (filter (\<lambda>j. j \<noteq> r mod L) [0..<L])"
    by (auto simp: delivers_def bcast_to_def numeral_2_eq_2 nrroute_hop1 [OF assms])
  have "sum_list (map (delivers (nrroute c) r) (nrroute_do_send_bcast c r d)) =
      (\<Sum>i | i < N \<and> i \<noteq> r div L. \<Sum>j < L. ?g (i * L + j)) + (\<Sum>j | j < L \<and> j \<noteq> r mod L. ?g (r div L * L + j))"
    using R unfolding nrroute_do_send_bcast_def map_append
    by (simp only: 0 1 sum_list.append sum_list_filter_upt)
  then have "sum_list (map (delivers (nrroute c) r) (nrroute_do_send_bcast c r d)) + ?g r =
      (\<Sum>i | i < N \<and> i \<noteq> r div L. \<Sum>j < L. ?g (i * L + j)) +
      ((\<Sum>j | j < L \<and> j \<noteq> r mod L. ?g (r div L * L + j)) + ?g (r div L * L + r mod L))"
    by (simp add: add.assoc)
  also have "\<dots> = (\<Sum>i < N. \<Sum>j < L. ?g (i * L + j))"
    using sum_skip [OF R(5), of "\<lambda>j. ?g (r div L * L + j)"] sum_skip [OF R(4), of "\<lambda>i. \<Sum>j < L. ?g (i * L + j)"] by simp
  also have "\<dots> = (\<Sum>x < N * L. ?g x)" unfolding sum_blocks ..
  finally show ?thesis using promised_Bcast [OF assms(2), of d] by (metis add_right_cancel)
qed

lemma nrroute_receive_legal:
  assumes "routable N L c" "r < N * L" "nrroute_valid c k r m" "k < 2" "a \<in> set (nrroute_receive c k r m)"
  shows "legal_act (nrroute c) (nrroute_valid c) (Suc k) r a"
  using assms(3-5) routable_rank [OF assms(1,2)]
  by (cases "k = 0") (auto simp: nrroute_receive_def nrroute_valid_def Let_def split: if_splits)

lemma nrroute_send_legal:
  assumes "routable N L c" "r < N * L" "dest < N * L" "a \<in> set (nrroute_do_send c r dest d)"
  shows "is_queue a \<and> legal_act (nrroute c) (nrroute_valid c) 0 r a"
proof -
  note R = routable_rank [OF assms(1,2)] and D = routable_rank [OF assms(1,3)]
  let ?m = "mk_message False (dest mod L) (dest div L) d"
  have m: "unat (msg_local ?m) = dest mod L" "unat (msg_node ?m) = dest div L" using D by simp_all
  have x: "(dest div L) * L + r mod L < N * L" using R D block_less by simp
  have "nrroute_valid c 0 (comm_nr c r ! (dest div L)) ?m"
    using R D m routable_rank(7) [OF assms(1) x] by (simp add: nrroute_valid_def)
  moreover have "nrroute_valid c (Suc 0) y ?m" for y by (simp add: nrroute_valid_def)
  moreover have "a = Queue (Suc 0) (dest mod L) ?m \<or> a = Queue 0 (dest div L) ?m"
    using assms(4) R D by (auto simp: nrroute_do_send_def Let_def split: if_splits)
  ultimately show ?thesis using R D by (auto simp: comm_size_def)
qed

lemma nrroute_bcast_legal:
  assumes "routable N L c" "r < N * L" "a \<in> set (nrroute_do_send_bcast c r d)"
  shows "is_queue a \<and> legal_act (nrroute c) (nrroute_valid c) 0 r a"
  using assms(3) routable_rank [OF assms(1,2)]
  by (auto simp: nrroute_do_send_bcast_def nrroute_valid_def comm_size_def)

interpretation nr: routing_counts "nrroute c" "routed_size c" "nrroute_valid c" for c
proof
  fix k r q assume k: "k < stages (nrroute c)" and r: "r < routed_size c"
  obtain N L where l: "routable N L c" "routed_size c = N * L" using routed_size_cases [OF r] .
  note nl = nl_laws [OF l(1) r [unfolded l(2)]] and nr = nr_laws [OF l(1) r [unfolded l(2)]]
  show "distinct (stage_comm (nrroute c) k r)" "r \<in> set (stage_comm (nrroute c) k r)" using nl(1,2) nr(1,2) by simp_all
  assume "q \<in> set (stage_comm (nrroute c) k r)"
  then show "q < routed_size c" "stage_comm (nrroute c) k q = stage_comm (nrroute c) k r"
    unfolding nrroute_sel l(2) using nl(3,4) [of q] nr(3,4) [of q] by (simp_all split: if_splits)
next
  fix k r m a assume "k < stages (nrroute c)" and r: "r < routed_size c" and "nrroute_valid c k r m"
    "a \<in> set (on_receive (nrroute c) k r m)"
  then show "legal_act (nrroute c) (nrroute_valid c) (Suc k) r a"
    using routed_size_cases [OF r] nrroute_receive_legal by (metis nrroute_sel(1,5))
next
  fix r dest a d assume r: "r < routed_size c" and "dest < routed_size c" "a \<in> set (do_send (nrroute c) r dest d)"
  then show "is_queue a \<and> legal_act (nrroute c) (nrroute_valid c) 0 r a"
    using routed_size_cases [OF r] nrroute_send_legal by (metis nrroute_sel(3))
next
  fix r a d assume r: "r < routed_size c" and "a \<in> set (do_send_bcast (nrroute c) r d)"
  then show "is_queue a \<and> legal_act (nrroute c) (nrroute_valid c) 0 r a"
    using routed_size_cases [OF r] nrroute_bcast_legal by (metis nrroute_sel(4))
next
  fix r dest d assume r: "r < routed_size c" and "dest < routed_size c"
  then show "sum_list (map (delivers (nrroute c) r) (do_send (nrroute c) r dest d)) = promised (routed_size c) r (Unicast dest d)"
    using routed_size_cases [OF r] nrroute_send_delivers by (metis nrroute_sel(3) promised.simps(1))
next
  fix r d assume r: "r < routed_size c"
  then show "sum_list (map (delivers (nrroute c) r) (do_send_bcast (nrroute c) r d)) = promised (routed_size c) r (Bcast d)"
    using routed_size_cases [OF r] nrroute_bcast_delivers by (metis nrroute_sel(4))
next
  fix r q assume r: "r < routed_size c" and q: "q < routed_size c"
  obtain N L where l: "routable N L c" "routed_size c = N * L" using routed_size_cases [OF r] .
  note R = routable_rank [OF l(1) r [unfolded l(2)]] and Q = routable_rank [OF l(1) q [unfolded l(2)]]
  let ?x = "(r div L) * L + q mod L"
  have x: "?x < N * L" using R Q block_less by simp
  have "?x \<in> set (comm_nl c r)" unfolding R(6) set_map using Q(5) by (intro image_eqI [of _ _ "q mod L"]) simp_all
  moreover have "q \<in> set (comm_nr c ?x)"
    unfolding routable_rank(9) [OF l(1) x] set_map using R Q by (intro image_eqI [of _ _ "q div L"]) simp_all
  ultimately show "q \<in> set (reach (nrroute c) (stages (nrroute c)) r)"
    by (auto simp: numeral_2_eq_2)
qed auto

end
