(* ===== verification/Ygm_Nlnr.thy ===== *)
theory Ygm_Nlnr
  imports Ygm_Nlroute
begin

section \<open>The layered scheme obeys the laws\<close>

text \<open>
  The interpretation of the routing locales on the scheme of \<open>mailbox_p2p_nlnr.hpp\<close>: a message goes to
  the rank of its node whose offset is the layer of the destination node, from there to the node, and
  there to its rank; a broadcast of one rank is spread by every rank of its node over the nodes of one
  layer.
\<close>

definition nlnr_valid :: "comms \<Rightarrow> nat \<Rightarrow> nat \<Rightarrow> 'd message \<Rightarrow> bool" where
  "nlnr_valid c k r m \<longleftrightarrow> is_bcast m \<or>
     (k < 2 \<longrightarrow> unat (msg_local m) < comm_size (comm_nl c r))
   \<and> (k = 0 \<longrightarrow> unat (msg_node m) < comm_size (comm_nlnr c r))"

lemma nlnr_sel [simp]:
  "stages (nlnr c) = 3" "stage_comm (nlnr c) k r = (if k = 1 then comm_nlnr c r else comm_nl c r)"
  "do_send (nlnr c) = nlnr_do_send c" "do_send_bcast (nlnr c) = nlnr_do_send_bcast c"
  "on_receive (nlnr c) = nlnr_receive c" "extra_counts (nlnr c)"
  by (simp_all add: nlnr_def)

lemma nlnr_rank:
  assumes "routable N L c" "r < N * L"
  shows "node_rank c r = r div L" "layer_rank c r = r div L mod L" "comm_rank (comm_nlnr c r) r = nlnr_index L r"
    "parity c r = nlnr_index L r mod 2" "nlnr_index L r < length (comm_nlnr c r)" "r div L mod L < L"
  using routable_rank [OF assms] assms comms_nlnr_nth [of N L c r r]
  by (simp_all add: node_rank_def layer_rank_def parity_def routable_def)

lemma nlnr_laws:
  assumes "routable N L c" "r < N * L"
  shows "distinct (comm_nlnr c r)" "r \<in> set (comm_nlnr c r)" "q \<in> set (comm_nlnr c r) \<Longrightarrow> q < N * L"
    "q \<in> set (comm_nlnr c r) \<Longrightarrow> comm_nlnr c q = comm_nlnr c r"
proof -
  have b: "blocked_comms N L c" using assms by (simp add: routable_def)
  note S = comms_nlnr_set [OF b assms(2)]
  show "distinct (comm_nlnr c r)" "r \<in> set (comm_nlnr c r)" using S assms by simp_all
  show *: "q < N * L" if "q \<in> set (comm_nlnr c r)" using that S by simp
  show "comm_nlnr c q = comm_nlnr c r" if "q \<in> set (comm_nlnr c r)"
  proof -
    have "{q mod L, q div L mod L} = {r mod L, r div L mod L}" using that S by simp
    then have "set (comm_nlnr c q) = set (comm_nlnr c r)"
      using S comms_nlnr_set(1) [OF b * [OF that]] by simp
    moreover have "sorted (comm_nlnr c x)" if x: "x < N * L" for x
    proof -
      obtain split node_of where s: "split_ok (N * L) split" "ygm_init split node_of (N * L) = Some c"
        using b by (auto simp: blocked_comms_def)
      show ?thesis using s x ygm_init_Some [OF s(2)] by (simp add: split_ok_def init_nlnr_comm_def)
    qed
    ultimately show ?thesis
      using sorted_distinct_set_unique * [OF that] assms(2) S(2) comms_nlnr_set(2) [OF b * [OF that]] by blast
  qed
qed

text \<open>The members by position.\<close>

lemma nlnr_nth:
  assumes "routable N L c" "r < N * L" "i < length (comm_nlnr c r)"
  shows "comm_nlnr c r ! i < N * L" "nlnr_index L (comm_nlnr c r ! i) = i"
    "{comm_nlnr c r ! i mod L, comm_nlnr c r ! i div L mod L} = {r mod L, r div L mod L}"
proof -
  have b: "blocked_comms N L c" using assms by (simp add: routable_def)
  note S = comms_nlnr_set [OF b assms(2)]
  let ?q = "comm_nlnr c r ! i"
  have q: "?q \<in> set (comm_nlnr c r)" using assms(3) by simp
  then show lt: "?q < N * L" and pair: "{?q mod L, ?q div L mod L} = {r mod L, r div L mod L}"
    using S by auto
  show "nlnr_index L ?q = i"
    using comms_nlnr_nth(3) [OF b assms(2) lt pair] comm_rank_nth [OF S(2) assms(3)] by simp
qed

lemma nlnr_at:
  assumes "routable N L c" "r < N * L" "q < N * L" "{q mod L, q div L mod L} = {r mod L, r div L mod L}"
  shows "nlnr_index L q < length (comm_nlnr c r)" "comm_nlnr c r ! nlnr_index L q = q"
  using comms_nlnr_nth assms by (auto simp: routable_def)

subsection \<open>The hops\<close>

lemma nlnr_hop2:
  assumes "routable N L c" "r < N * L" "j < L"
  shows "flow (nlnr c) (Suc n) r (Queue 2 j m) = {#(r div L * L + j, is_bcast m, msg_data m)#}"
  using routable_rank [OF assms(1,2)] assms(3) by (simp add: nlnr_receive_def Let_def flow.simps(3))

definition node_bcast :: "nat \<Rightarrow> 'd \<Rightarrow> nat \<Rightarrow> (nat \<times> bool \<times> 'd) multiset" where
  "node_bcast L d nd = (\<Sum>j < L. bcast_to d (nd * L + j))"

lemma nlnr_hop1_bcast:
  assumes "routable N L c" "r < N * L" "i < length (comm_nlnr c r)" "is_bcast m"
  shows "flow (nlnr c) (Suc (Suc n)) r (Queue (Suc 0) i m) = node_bcast L (msg_data m) (comm_nlnr c r ! i div L)"
proof -
  let ?y = "comm_nlnr c r ! i"
  note y = nlnr_nth(1) [OF assms(1-3)]
  note Y = routable_rank [OF assms(1) y]
  have "flow (nlnr c) (Suc n) ?y (if j = ?y mod L then Recv (is_bcast m) (msg_data m) else Queue 2 j m) =
      bcast_to (msg_data m) (?y div L * L + j)" if "j < L" for j
    using assms(4) by (simp add: bcast_to_def nlnr_hop2 [OF assms(1) y that])
  then have "sum_list (map (\<lambda>j. flow (nlnr c) (Suc n) ?y (if j = ?y mod L then Recv (is_bcast m) (msg_data m) else Queue 2 j m)) [0..<L]) =
      node_bcast L (msg_data m) (?y div L)"
    unfolding sum_list_upt node_bcast_def by (intro sum.cong) auto
  then show ?thesis
    using Y assms(4) by (simp add: nlnr_receive_def Let_def comp_def flow.simps(3) [of _ "Suc n"] cong: if_cong)
qed

lemma nlnr_hop1_unicast:
  assumes "routable N L c" "r < N * L" "i < length (comm_nlnr c r)" "\<not> is_bcast m" "unat (msg_local m) < L"
  shows "flow (nlnr c) (Suc (Suc n)) r (Queue (Suc 0) i m) =
    {#(comm_nlnr c r ! i div L * L + unat (msg_local m), False, msg_data m)#}"
proof -
  let ?y = "comm_nlnr c r ! i"
  note y = nlnr_nth(1) [OF assms(1-3)]
  note Y = routable_rank [OF assms(1) y]
  have same: "unat (msg_local m) = ?y mod L \<longrightarrow> ?y div L * L + unat (msg_local m) = ?y" by simp
  show ?thesis
    using Y assms(4,5) same
    by (auto simp: nlnr_receive_def Let_def nlnr_hop2 [OF assms(1) y] flow.simps(3) [of _ "Suc n"])
qed

text \<open>The nodes one rank's part of a broadcast reaches: those of its own offset as layer.\<close>

lemma nlnr_relay_sum:
  fixes W :: "nat \<Rightarrow> 'x multiset"
  assumes "routable N L c" "x < N * L"
  shows "(\<Sum>i | i < length (comm_nlnr c x) \<and> i \<noteq> nlnr_index L x
            \<and> (x mod L = x div L mod L \<or> nlnr_index L x mod 2 \<noteq> i mod 2). W (comm_nlnr c x ! i div L)) =
    (\<Sum>nd | nd < N \<and> nd mod L = x mod L \<and> nd \<noteq> x div L. W nd)"
proof (rule sum.reindex_bij_witness [where j = "\<lambda>i. comm_nlnr c x ! i div L"
      and i = "\<lambda>nd. nlnr_index L (nd * L + x div L mod L)"])
  note R = routable_rank [OF assms] and X = nlnr_rank [OF assms]
  have odd: "nlnr_index L q mod 2 = (if q mod L < q div L mod L then 1 else 0)" if "q mod L \<noteq> q div L mod L" for q
    using that by (simp add: nlnr_index_def)
  fix i assume i: "i \<in> {i. i < length (comm_nlnr c x) \<and> i \<noteq> nlnr_index L x
      \<and> (x mod L = x div L mod L \<or> nlnr_index L x mod 2 \<noteq> i mod 2)}"
  let ?q = "comm_nlnr c x ! i"
  from i have "i < length (comm_nlnr c x)" by simp
  note Q = nlnr_nth [OF assms this]
  have q: "?q mod L = x div L mod L \<and> ?q div L mod L = x mod L"
  proof (cases "x mod L = x div L mod L")
    case True
    then show ?thesis using Q(3) by auto
  next
    case False
    then have "nlnr_index L x mod 2 \<noteq> nlnr_index L ?q mod 2" using i Q(2) by simp
    then show ?thesis using False Q(3) odd [of x] odd [of ?q] by (auto simp: doubleton_eq_iff split: if_splits)
  qed
  have eq: "?q div L * L + x div L mod L = ?q" using q by (metis div_mult_mod_eq)
  then show "nlnr_index L (comm_nlnr c x ! i div L * L + x div L mod L) = i" using Q(2) by simp
  have "?q div L \<noteq> x div L"
  proof
    assume "?q div L = x div L"
    then have "?q = x" using q by (metis div_mult_mod_eq)
    then show False using i Q(2) by simp
  qed
  then show "comm_nlnr c x ! i div L \<in> {nd. nd < N \<and> nd mod L = x mod L \<and> nd \<noteq> x div L}"
    using q Q(1) by (simp add: less_mult_imp_div_less)
next
  note R = routable_rank [OF assms] and X = nlnr_rank [OF assms]
  have odd: "nlnr_index L q mod 2 = (if q mod L < q div L mod L then 1 else 0)" if "q mod L \<noteq> q div L mod L" for q
    using that by (simp add: nlnr_index_def)
  fix nd assume nd: "nd \<in> {nd. nd < N \<and> nd mod L = x mod L \<and> nd \<noteq> x div L}"
  let ?q = "nd * L + x div L mod L"
  have q: "?q div L = nd" "?q mod L = x div L mod L" using X(6) by simp_all
  have lt: "?q < N * L" using nd block_less X(6) by simp
  have pair: "{?q mod L, ?q div L mod L} = {x mod L, x div L mod L}" using q nd by auto
  note Q = nlnr_at [OF assms lt pair]
  show "comm_nlnr c x ! nlnr_index L ?q div L = nd" using Q q by simp
  have "nlnr_index L ?q \<noteq> nlnr_index L x"
  proof
    assume "nlnr_index L ?q = nlnr_index L x"
    then have "?q = x" using Q(2) nlnr_at(2) [OF assms assms(2)] by simp
    then show False using q nd by auto
  qed
  moreover have "x mod L = x div L mod L \<or> nlnr_index L x mod 2 \<noteq> nlnr_index L ?q mod 2"
    using odd [of x] odd [of ?q] q nd by (auto split: if_splits)
  ultimately show "nlnr_index L ?q \<in> {i. i < length (comm_nlnr c x) \<and> i \<noteq> nlnr_index L x
      \<and> (x mod L = x div L mod L \<or> nlnr_index L x mod 2 \<noteq> i mod 2)}"
    using Q by simp
qed (use assms in auto)

definition others_of_layer :: "nat \<Rightarrow> nat \<Rightarrow> 'd \<Rightarrow> nat \<Rightarrow> nat \<Rightarrow> (nat \<times> bool \<times> 'd) multiset" where
  "others_of_layer N L d nd j = (\<Sum>nd' | nd' < N \<and> nd' mod L = j \<and> nd' \<noteq> nd. node_bcast L d nd')"

lemma others_of_layer_sum:
  assumes "nd < N" "0 < L"
  shows "(\<Sum>j < L. others_of_layer N L d nd j) + node_bcast L d nd = (\<Sum>x < N * L. bcast_to d x)"
proof -
  have "(\<Sum>j < L. others_of_layer N L d nd j) = (\<Sum>j < L. sum (node_bcast L d) {n \<in> {n. n < N \<and> n \<noteq> nd}. n mod L = j})"
    unfolding others_of_layer_def by (intro sum.cong refl) auto
  also have "\<dots> = sum (node_bcast L d) {n. n < N \<and> n \<noteq> nd}"
    by (rule sum.group) (use assms(2) in auto)
  finally show ?thesis using sum_skip [OF assms(1), of "node_bcast L d"] by (simp add: sum_blocks node_bcast_def)
qed

text \<open>What one rank relays on the remote exchanger, as a list of actions.\<close>

lemma nlnr_relay_delivers:
  assumes "routable N L c" "x < N * L" "is_bcast m"
  shows "sum_list (map (flow (nlnr c) (Suc (Suc n)) x) (map (\<lambda>i. Queue (Suc 0) i m)
      (filter (\<lambda>i. i \<noteq> nlnr_index L x \<and> (x mod L = x div L mod L \<or> nlnr_index L x mod 2 \<noteq> i mod 2))
        [0..<length (comm_nlnr c x)]))) = others_of_layer N L (msg_data m) (x div L) (x mod L)"
proof -
  let ?Q = "\<lambda>i. i \<noteq> nlnr_index L x \<and> (x mod L = x div L mod L \<or> nlnr_index L x mod 2 \<noteq> i mod 2)"
  have "map (flow (nlnr c) (Suc (Suc n)) x) (map (\<lambda>i. Queue (Suc 0) i m) (filter ?Q [0..<length (comm_nlnr c x)])) =
      map (\<lambda>i. node_bcast L (msg_data m) (comm_nlnr c x ! i div L)) (filter ?Q [0..<length (comm_nlnr c x)])"
    by (auto simp: nlnr_hop1_bcast [OF assms(1,2) _ assms(3)])
  then show ?thesis
    using nlnr_relay_sum [OF assms(1,2), of "node_bcast L (msg_data m)"]
    by (simp only: sum_list_filter_upt others_of_layer_def)
qed

lemma sum_list_concat_if:
  fixes f :: "_ \<Rightarrow> 'x multiset"
  assumes "i0 < n" "\<And>i. P i \<Longrightarrow> i \<noteq> i0"
  shows "sum_list (map f (concat (map (\<lambda>i. if i = i0 then [a] else if P i then [g i] else []) [0..<n]))) =
    f a + sum_list (map f (map g (filter P [0..<n])))"
    (is "_ = f a + ?rhs n")
proof -
  have "sum_list (map f (concat (map (\<lambda>i. if i = i0 then [a] else if P i then [g i] else []) [0..<n]))) =
      (if i0 < n then f a else {#}) + ?rhs n" for n
  proof (induction n)
    case (Suc n)
    have "\<not> P i0" using assms(2) by blast
    with Suc show ?case by (auto simp: less_Suc_eq)
  qed simp
  then show ?thesis using assms(1) by simp
qed

lemma nlnr_hop0_bcast:
  assumes "routable N L c" "r < N * L" "j < L" "is_bcast m"
  shows "flow (nlnr c) 3 r (Queue 0 j m) =
    bcast_to (msg_data m) (r div L * L + j) + others_of_layer N L (msg_data m) (r div L) j"
proof -
  let ?x = "r div L * L + j"
  note R = routable_rank [OF assms(1,2)]
  have x: "?x < N * L" using R assms(3) block_less by simp
  note X = routable_rank [OF assms(1) x] and XN = nlnr_rank [OF assms(1) x]
  have xs: "?x div L = r div L" "?x mod L = j" using assms(3) by simp_all
  let ?P = "\<lambda>i. i \<noteq> nlnr_index L ?x \<and> (?x mod L = ?x div L mod L \<or> nlnr_index L ?x mod 2 \<noteq> i mod 2)"
  have "nlnr_receive c 0 ?x m = concat (map (\<lambda>i. if i = nlnr_index L ?x then [Recv True (msg_data m)]
      else if ?P i then [Queue (Suc 0) i m] else []) [0..<length (comm_nlnr c ?x)])"
    using X XN assms(4) unfolding nlnr_receive_def
    by (auto simp: comm_size_def intro!: arg_cong [where f = concat])
  then have "sum_list (map (flow (nlnr c) (Suc (Suc 0)) ?x) (nlnr_receive c 0 ?x m)) =
      bcast_to (msg_data m) ?x + sum_list (map (flow (nlnr c) (Suc (Suc 0)) ?x) (map (\<lambda>i. Queue (Suc 0) i m)
        (filter ?P [0..<length (comm_nlnr c ?x)])))"
    by (simp only:) (subst sum_list_concat_if [OF XN(5)], auto simp: bcast_to_def)
  also have "\<dots> = bcast_to (msg_data m) ?x + others_of_layer N L (msg_data m) (r div L) j"
    by (subst nlnr_relay_delivers [OF assms(1) x assms(4)]) (simp only: xs)
  finally show ?thesis using R assms(3) by (simp add: numeral_3_eq_3 flow.simps(3) [of _ "Suc (Suc 0)"] Let_def)
qed

lemma nlnr_bcast_delivers:
  assumes "routable N L c" "r < N * L"
  shows "sum_list (map (delivers (nlnr c) r) (nlnr_do_send_bcast c r d)) = promised (N * L) r (Bcast d)"
proof -
  note R = routable_rank [OF assms] and RN = nlnr_rank [OF assms]
  let ?m = "mk_message True 0 0 d" and ?g = "bcast_to d" and ?O = "others_of_layer N L d (r div L)"
  have 0: "map (delivers (nlnr c) r) (map (\<lambda>j. Queue 0 j ?m) (filter (\<lambda>j. j \<noteq> r mod L) [0..<L])) =
      map (\<lambda>j. ?g (r div L * L + j) + ?O j) (filter (\<lambda>j. j \<noteq> r mod L) [0..<L])"
    by (auto simp: delivers_def nlnr_hop0_bcast [OF assms])
  let ?Q = "\<lambda>i. i \<noteq> nlnr_index L r \<and> (r mod L = r div L mod L \<or> nlnr_index L r mod 2 \<noteq> i mod 2)"
  have 1: "sum_list (map (delivers (nlnr c) r) (map (\<lambda>i. Queue (Suc 0) i ?m) (filter ?Q [0..<length (comm_nlnr c r)]))) = ?O (r mod L)"
    using nlnr_relay_delivers [OF assms, of ?m "Suc 0"] by (simp only: delivers_def nlnr_sel mk_message_simps numeral_3_eq_3)
  have eq: "nlnr_do_send_bcast c r d = map (\<lambda>j. Queue 0 j ?m) (filter (\<lambda>j. j \<noteq> r mod L) [0..<L])
      @ map (\<lambda>i. Queue (Suc 0) i ?m) (filter ?Q [0..<length (comm_nlnr c r)])"
    using R RN by (auto simp: nlnr_do_send_bcast_def comm_size_def intro!: filter_cong)
  have "sum_list (map (delivers (nlnr c) r) (nlnr_do_send_bcast c r d)) =
      (\<Sum>j | j < L \<and> j \<noteq> r mod L. ?g (r div L * L + j) + ?O j) + ?O (r mod L)"
    unfolding eq map_append by (simp only: 0 1 sum_list.append sum_list_filter_upt)
  then have "sum_list (map (delivers (nlnr c) r) (nlnr_do_send_bcast c r d)) + ?g r =
      (\<Sum>j | j < L \<and> j \<noteq> r mod L. ?g (r div L * L + j) + ?O j) + (?g (r div L * L + r mod L) + ?O (r mod L))"
    by (simp add: add.assoc add.commute)
  also have "\<dots> = (\<Sum>j < L. ?g (r div L * L + j) + ?O j)" by (rule sum_skip [OF R(5)])
  also have "\<dots> = (\<Sum>j < L. ?O j) + node_bcast L d (r div L)" by (simp add: sum.distrib node_bcast_def add.commute)
  also have "\<dots> = (\<Sum>x < N * L. ?g x)" by (rule others_of_layer_sum [OF R(4,1)])
  finally show ?thesis using promised_Bcast [OF assms(2), of d] by (metis add_right_cancel)
qed

subsection \<open>Unicasts\<close>

text \<open>The remote slot \<open>do_send\<close> computes is the position of the relay on the destination node.\<close>

definition relay :: "nat \<Rightarrow> nat \<Rightarrow> nat \<Rightarrow> nat" where
  "relay L r dest = (dest div L) * L + r div L mod L"

lemma nlnr_remote_slot:
  assumes "routable N L c" "r < N * L" "dest < N * L"
  defines "layer \<equiv> dest div L mod L"
  defines "x \<equiv> r div L * L + layer"
  defines "remote \<equiv> (if r div L mod L \<noteq> layer then dest div L div L * 2 + (if r div L mod L < layer then 1 else 0) else dest div L div L)"
  shows "x < N * L" "remote < length (comm_nlnr c x)" "comm_nlnr c x ! remote div L = dest div L" "remote < 16777216"
proof -
  note R = routable_rank [OF assms(1,2)] and D = routable_rank [OF assms(1,3)]
    and RN = nlnr_rank [OF assms(1,2)] and DN = nlnr_rank [OF assms(1,3)]
  show x: "x < N * L" using R DN block_less unfolding x_def layer_def by simp
  let ?y = "relay L r dest"
  have y: "?y < N * L" "?y div L = dest div L" "?y mod L = r div L mod L"
    using D RN block_less by (simp_all add: relay_def)
  have xs: "x div L = r div L" "x mod L = layer" using DN(6) by (simp_all add: x_def layer_def)
  have pair: "{?y mod L, ?y div L mod L} = {x mod L, x div L mod L}" using y xs by (auto simp: layer_def)
  have "nlnr_index L ?y = remote" using y by (auto simp: nlnr_index_def remote_def layer_def)
  then show "remote < length (comm_nlnr c x)" "comm_nlnr c x ! remote div L = dest div L"
    using nlnr_at [OF assms(1) x y(1) pair] y(2) by simp_all
  have N: "dest div L < N" "N \<le> 16777216" using D by auto
  show "remote < 16777216"
  proof (cases "L = 1")
    case True
    then show ?thesis using N by (simp add: remote_def layer_def)
  next
    case False
    then have "2 \<le> L" using R(1) by simp
    then have "dest div L div L \<le> dest div L div 2" by (rule div_le_mono2 [rotated]) simp
    moreover have "dest div L div 2 * 2 \<le> dest div L" by simp
    ultimately have "remote \<le> dest div L div 2 * 2 + 1" by (simp add: remote_def)
    moreover have "dest div L < 16777216" using N by linarith
    then have "dest div L div 2 < 8388608" by (simp add: div_less_iff_less_mult)
    then have "dest div L div 2 * 2 + 1 < 16777216" by linarith
    ultimately show ?thesis by linarith
  qed
qed

lemma nlnr_send_cases:
  assumes "routable N L c" "r < N * L" "dest < N * L" 
  defines "layer \<equiv> dest div L mod L"
  defines "remote \<equiv> (if r div L mod L \<noteq> layer then dest div L div L * 2 + (if r div L mod L < layer then 1 else 0) else dest div L div L)"
  shows "nlnr_do_send c r dest d =
    [if dest div L = r div L then Queue 2 (dest mod L) (mk_message False (dest mod L) (dest div L) d)
     else if r mod L = layer then Queue (Suc 0) remote (mk_message False (dest mod L) remote d)
     else Queue 0 layer (mk_message False (dest mod L) remote d)]"
  using routable_rank [OF assms(1,2)] nlnr_rank [OF assms(1,2)]
  by (auto simp: nlnr_do_send_def Let_def remote_def layer_def)

lemma nlnr_send_delivers:
  assumes "routable N L c" "r < N * L" "dest < N * L"
  shows "sum_list (map (delivers (nlnr c) r) (nlnr_do_send c r dest d)) = {#(dest, False, d)#}"
proof -
  note R = routable_rank [OF assms(1,2)] and D = routable_rank [OF assms(1,3)]
    and RN = nlnr_rank [OF assms(1,2)] and DN = nlnr_rank [OF assms(1,3)]
  define layer where "layer = dest div L mod L"
  define x where "x = r div L * L + layer"
  define remote where "remote = (if r div L mod L \<noteq> layer then dest div L div L * 2 + (if r div L mod L < layer then 1 else 0) else dest div L div L)"
  note S = nlnr_remote_slot [OF assms, folded layer_def, folded x_def remote_def]
  let ?m = "mk_message False (dest mod L) remote d"
  have m: "unat (msg_local ?m) = dest mod L" "unat (msg_node ?m) = remote" using D S(4) by simp_all
  have eq: "nlnr_do_send c r dest d =
    [if dest div L = r div L then Queue 2 (dest mod L) (mk_message False (dest mod L) (dest div L) d)
     else if r mod L = layer then Queue (Suc 0) remote ?m else Queue 0 layer ?m]"
    unfolding nlnr_send_cases [OF assms] layer_def remote_def ..
  have whole: "dest div L * L + dest mod L = dest" by simp
  have hop1: "flow (nlnr c) (Suc (Suc n)) x (Queue (Suc 0) remote ?m) = {#(dest, False, d)#}" for n
    using nlnr_hop1_unicast [OF assms(1) S(1,2), of ?m] D(5) S(3) m whole by simp
  show ?thesis
  proof (cases "dest div L = r div L")
    case True
    then have "r div L * L + dest mod L = dest" by (metis whole)
    then show ?thesis
      using True unfolding eq
      by (simp add: delivers_def numeral_3_eq_3 nlnr_hop2 [OF assms(1,2) D(5)])
  next
    case False
    show ?thesis
    proof (cases "r mod L = layer")
      case True
      then have "x = r" by (metis x_def div_mult_mod_eq)
      then show ?thesis
        using False True hop1 [of "Suc 0"] unfolding eq
        by (simp add: delivers_def numeral_3_eq_3)
    next
      case other: False
      have layer: "layer < L" using DN(6) by (simp add: layer_def)
      have "flow (nlnr c) 3 r (Queue 0 layer ?m) = {#(dest, False, d)#}"
        using R layer hop1 [of 0] m(2)
        by (simp add: numeral_3_eq_3 flow.simps(3) [of _ "Suc (Suc 0)"] nlnr_receive_def x_def [symmetric] Let_def)
      then show ?thesis
        using False other unfolding eq
        by (simp add: delivers_def)
    qed
  qed
qed

lemma nlnr_send_legal:
  assumes "routable N L c" "r < N * L" "dest < N * L" "a \<in> set (nlnr_do_send c r dest d)"
  shows "is_queue a \<and> legal_act (nlnr c) (nlnr_valid c) 0 r a"
proof -
  note R = routable_rank [OF assms(1,2)] and D = routable_rank [OF assms(1,3)]
    and RN = nlnr_rank [OF assms(1,2)] and DN = nlnr_rank [OF assms(1,3)]
  define layer where "layer = dest div L mod L"
  define x where "x = r div L * L + layer"
  define remote where "remote = (if r div L mod L \<noteq> layer then dest div L div L * 2 + (if r div L mod L < layer then 1 else 0) else dest div L div L)"
  note S = nlnr_remote_slot [OF assms(1-3), folded layer_def, folded x_def remote_def]
  let ?m = "mk_message False (dest mod L) remote d"
  have m: "unat (msg_local ?m) = dest mod L" "unat (msg_node ?m) = remote" using D S(4) by simp_all
  have layer: "layer < L" using DN(6) by (simp add: layer_def)
  have v0: "nlnr_valid c 0 x ?m"
    using m D(5) routable_rank(7) [OF assms(1) S(1)] S(2) by (simp add: nlnr_valid_def comm_size_def)
  have v1: "nlnr_valid c (Suc 0) y ?m" if "y < N * L" for y
    using m D(5) routable_rank(7) [OF assms(1) that] by (simp add: nlnr_valid_def)
  have v2: "nlnr_valid c 2 y m'" for y and m' :: "'a message" by (simp add: nlnr_valid_def)
  consider "a = Queue 2 (dest mod L) (mk_message False (dest mod L) (dest div L) d)"
    | "a = Queue (Suc 0) remote ?m" "r mod L = layer" | "a = Queue 0 layer ?m"
    using assms(4) unfolding nlnr_send_cases [OF assms(1-3)] layer_def [symmetric] remote_def [symmetric]
    by (auto split: if_splits)
  then show ?thesis
  proof cases
    case 1
    then show ?thesis using R D v2 by simp
  next
    case 2
    then have "x = r" by (metis x_def div_mult_mod_eq)
    then show ?thesis using 2 S(2) v1 nlnr_nth(1) [OF assms(1,2)] by simp
  next
    case 3
    then show ?thesis using R layer v0 by (simp add: x_def)
  qed
qed

lemma nlnr_bcast_legal:
  assumes "routable N L c" "r < N * L" "a \<in> set (nlnr_do_send_bcast c r d)"
  shows "is_queue a \<and> legal_act (nlnr c) (nlnr_valid c) 0 r a"
  using assms(3) routable_rank [OF assms(1,2)]
  by (auto simp: nlnr_do_send_bcast_def nlnr_valid_def comm_size_def)

lemma nlnr_receive_legal:
  assumes "routable N L c" "r < N * L" "nlnr_valid c k r m" "k < 3" "a \<in> set (nlnr_receive c k r m)"
  shows "legal_act (nlnr c) (nlnr_valid c) (Suc k) r a"
proof -
  note R = routable_rank [OF assms(1,2)]
  have v1: "nlnr_valid c (Suc 0) y m" if "y < N * L" "k = 0" for y
    using assms(3) that R(7) routable_rank(7) [OF assms(1)] by (auto simp: nlnr_valid_def)
  have v2: "nlnr_valid c 2 y m" for y by (simp add: nlnr_valid_def)
  consider "k = 0" | "k = 1" | "k = 2" using assms(4) by linarith
  then show ?thesis
  proof cases
    case 1
    have "(\<exists>b d. a = Recv b d) \<or> (\<exists>i < length (comm_nlnr c r). a = Queue (Suc 0) i m)"
      using assms(3,5) 1 by (auto simp: nlnr_receive_def nlnr_valid_def comm_size_def split: if_splits)
    then show ?thesis using 1 v1 nlnr_nth(1) [OF assms(1,2)] by auto
  next
    case 2
    have "(\<exists>b d. a = Recv b d) \<or> (\<exists>i < L. a = Queue 2 i m)"
      using assms(3,5) 2 R by (auto simp: nlnr_receive_def nlnr_valid_def split: if_splits)
    then show ?thesis using 2 v2 R by auto
  next
    case 3
    then show ?thesis using assms(5) by (auto simp: nlnr_receive_def)
  qed
qed

interpretation ln: routing_counts "nlnr c" "routed_size c" "nlnr_valid c" for c
proof
  fix k r q assume k: "k < stages (nlnr c)" and r: "r < routed_size c"
  obtain N L where l: "routable N L c" "routed_size c = N * L" using routed_size_cases [OF r] .
  note nl = nl_laws [OF l(1) r [unfolded l(2)]] and nr = nlnr_laws [OF l(1) r [unfolded l(2)]]
  show "distinct (stage_comm (nlnr c) k r)" "r \<in> set (stage_comm (nlnr c) k r)" using nl(1,2) nr(1,2) by simp_all
  assume "q \<in> set (stage_comm (nlnr c) k r)"
  then show "q < routed_size c" "stage_comm (nlnr c) k q = stage_comm (nlnr c) k r"
    unfolding nlnr_sel l(2) using nl(3,4) [of q] nr(3,4) [of q] by (simp_all split: if_splits)
next
  fix k r m a assume "k < stages (nlnr c)" and r: "r < routed_size c" and "nlnr_valid c k r m"
    "a \<in> set (on_receive (nlnr c) k r m)"
  then show "legal_act (nlnr c) (nlnr_valid c) (Suc k) r a"
    using routed_size_cases [OF r] nlnr_receive_legal by (metis nlnr_sel(1,5))
next
  fix r dest a d assume r: "r < routed_size c" and "dest < routed_size c" "a \<in> set (do_send (nlnr c) r dest d)"
  then show "is_queue a \<and> legal_act (nlnr c) (nlnr_valid c) 0 r a"
    using routed_size_cases [OF r] nlnr_send_legal by (metis nlnr_sel(3))
next
  fix r a d assume r: "r < routed_size c" and "a \<in> set (do_send_bcast (nlnr c) r d)"
  then show "is_queue a \<and> legal_act (nlnr c) (nlnr_valid c) 0 r a"
    using routed_size_cases [OF r] nlnr_bcast_legal by (metis nlnr_sel(4))
next
  fix r dest d assume r: "r < routed_size c" and "dest < routed_size c"
  then show "sum_list (map (delivers (nlnr c) r) (do_send (nlnr c) r dest d)) = promised (routed_size c) r (Unicast dest d)"
    using routed_size_cases [OF r] nlnr_send_delivers by (metis nlnr_sel(3) promised.simps(1))
next
  fix r d assume r: "r < routed_size c"
  then show "sum_list (map (delivers (nlnr c) r) (do_send_bcast (nlnr c) r d)) = promised (routed_size c) r (Bcast d)"
    using routed_size_cases [OF r] nlnr_bcast_delivers by (metis nlnr_sel(4))
next
  fix r q assume r: "r < routed_size c" and q: "q < routed_size c"
  obtain N L where l: "routable N L c" "routed_size c = N * L" using routed_size_cases [OF r] .
  note r' = r [unfolded l(2)] and q' = q [unfolded l(2)]
  note R = routable_rank [OF l(1) r'] and Q = routable_rank [OF l(1) q']
    and S = nlnr_remote_slot [OF l(1) r' q'] and QN = nlnr_rank [OF l(1) q']
  let ?x = "r div L * L + q div L mod L"
  let ?y = "comm_nlnr c ?x ! (if r div L mod L \<noteq> q div L mod L
      then q div L div L * 2 + (if r div L mod L < q div L mod L then 1 else 0) else q div L div L)"
  have 1: "?y \<in> set (comm_nlnr c ?x)" using S(2) by simp
  have 2: "?x \<in> set (comm_nl c r)" unfolding R(6) set_map using QN(6) by (intro image_eqI [of _ _ "q div L mod L"]) simp_all
  have y: "?y < N * L" using nlnr_nth(1) [OF l(1) S(1,2)] .
  have "q \<in> set (comm_nl c ?y)"
    unfolding routable_rank(6) [OF l(1) y] set_map using Q S(3) by (intro image_eqI [of _ _ "q mod L"]) simp_all
  then have "q \<in> set (reach (nlnr c) 2 ?x)" using 1 by (auto simp: numeral_2_eq_2)
  then show "q \<in> set (reach (nlnr c) (stages (nlnr c)) r)" using 2 by (auto simp: numeral_3_eq_3 numeral_2_eq_2)
qed auto

end
