(* ===== verification/Ygm_Properties.thy ===== *)
theory Ygm_Properties
  imports Ygm_Nlnr
begin

section \<open>What the mailboxes promise\<close>

text \<open>
  The laws of \<open>Ygm_Delivery\<close>, read off for the four mailboxes: every unicast arrives exactly once at
  its destination and every broadcast exactly once at every other rank; \<open>do_exchange\<close> returns 0 at one
  rank exactly when no rank had anything to send; \<open>wait_empty\<close> ends with nothing in flight.
\<close>

text \<open>
  C7. Layered routing (\<open>mailbox_p2p_nlnr\<close>) delivers exactly: when every rank issues any requests and all
  ranks then exchange, what a rank has received is, as a multiset, the unicasts addressed to it and one
  copy of each broadcast of another rank, for every number of nodes and of ranks a node, and whatever
  the order in which the vectors arrive.
\<close>

theorem nlnr_delivers:
  fixes reqs :: "nat \<Rightarrow> 'd req list"
  assumes "routable N L c" "arrivals_ok (nlnr c :: ('d message, 'd) router) (N * L) ord" "legal_handler (N * L) h"
    "\<forall>r < N * L. list_all (legal_req (N * L) r) (reqs r)" "x < N * L"
  shows "mset (received (fst (do_exchange (nlnr c) h ord (\<lambda>r. fold (run_req (nlnr c) r) (reqs r) new_mbox)) x)) =
    image_mset snd (filter_mset (\<lambda>y. fst y = x) (\<Sum>r < N * L. sum_list (map (promised (N * L) r) (reqs r))))"
  using ln.fresh_delivers [of c ord h reqs x] assms by (simp add: routed_size_eq [OF assms(1)])

lemma layout_routable: "0 < N \<Longrightarrow> 0 < L \<Longrightarrow> L \<le> 64 \<Longrightarrow> N \<le> 16777216 \<Longrightarrow> routable N L (layout N L)"
  by (simp add: routable_def layout_blocked)

lemma arrivals_in_order: "arrivals_ok R P (stage_comm R)"
  by (simp add: arrivals_ok_def)

lemma silent_handler: "legal_handler P (\<lambda>r log. [])"
  by (simp add: legal_handler_def)

definition demo_reqs :: "nat \<Rightarrow> nat req list" where
  "demo_reqs r = (if r = 0 then [Unicast 3 10, Bcast 20] else if r = 1 then [Bcast 30] else [])"

lemma demo_legal: "\<forall>r < 4. list_all (legal_req 4 r) (demo_reqs r)"
  by (simp add: demo_reqs_def)

lemma demo_promised: "(\<Sum>r < 4. sum_list (map (promised 4 r) (demo_reqs r))) =
  {#(3, False, 10), (1, True, 20), (2, True, 20), (3, True, 20), (0, True, 30), (2, True, 30), (3, True, 30)#}"
  by (simp add: demo_reqs_def lessThan_nat_numeral lessThan_Suc upt_rec numeral_3_eq_3 numeral_2_eq_2)

lemma nlnr_delivers_witness:
  "mset (received (fst (do_exchange (nlnr (layout 2 2)) (\<lambda>r log. []) (stage_comm (nlnr (layout 2 2) :: (nat message, nat) router))
     (\<lambda>r. fold (run_req (nlnr (layout 2 2)) r) (demo_reqs r) new_mbox)) 3)) =
   {#(False, 10), (True, 20), (True, 30)#}"
proof -
  have "mset (received (fst (do_exchange (nlnr (layout 2 2)) (\<lambda>r log. []) (stage_comm (nlnr (layout 2 2) :: (nat message, nat) router))
     (\<lambda>r. fold (run_req (nlnr (layout 2 2)) r) (demo_reqs r) new_mbox)) 3)) =
    image_mset snd (filter_mset (\<lambda>y. fst y = 3) (\<Sum>r < 2 * 2. sum_list (map (promised (2 * 2) r) (demo_reqs r))))"
    by (rule nlnr_delivers) (use arrivals_in_order silent_handler demo_legal in \<open>simp_all add: layout_routable\<close>)
  then show ?thesis by (simp add: demo_promised)
qed

text \<open>
  C26. The other three mailboxes deliver exactly as well: without routing on any world, and with
  local-remote or remote-local routing on every routable layout, a rank receives the unicasts addressed
  to it and one copy of each broadcast of another rank.
\<close>

theorem unlayered_mailboxes_deliver:
  fixes reqs :: "nat \<Rightarrow> 'd req list"
  assumes "routable N L c" "legal_handler (N * L) h" "\<forall>r < N * L. list_all (legal_req (N * L) r) (reqs r)" "x < N * L"
  defines "expected \<equiv> image_mset snd (filter_mset (\<lambda>y. fst y = x) (\<Sum>r < N * L. sum_list (map (promised (N * L) r) (reqs r))))"
  shows "(arrivals_ok (noroute c :: ('d direct_message, 'd) router) (N * L) ord0 \<longrightarrow>
      mset (received (fst (do_exchange (noroute c) h ord0 (\<lambda>r. fold (run_req (noroute c) r) (reqs r) new_mbox)) x)) = expected) \<and>
    (arrivals_ok (nlroute c :: ('d message, 'd) router) (N * L) ord1 \<longrightarrow>
      mset (received (fst (do_exchange (nlroute c) h ord1 (\<lambda>r. fold (run_req (nlroute c) r) (reqs r) new_mbox)) x)) = expected) \<and>
    (arrivals_ok (nrroute c :: ('d message, 'd) router) (N * L) ord2 \<longrightarrow>
      mset (received (fst (do_exchange (nrroute c) h ord2 (\<lambda>r. fold (run_req (nrroute c) r) (reqs r) new_mbox)) x)) = expected)"
proof -
  have w: "world_size c = N * L" using assms(1) comms_world by (simp add: routable_def)
  show ?thesis
    using nor.fresh_delivers [of c ord0 h reqs x] nl.fresh_delivers [of c ord1 h reqs x]
      nr.fresh_delivers [of c ord2 h reqs x] assms by (simp add: w routed_size_eq [OF assms(1)])
qed

lemma unlayered_mailboxes_deliver_witness:
  "mset (received (fst (do_exchange (noroute (layout 2 2)) (\<lambda>r log. []) (stage_comm (noroute (layout 2 2) :: (nat direct_message, nat) router))
     (\<lambda>r. fold (run_req (noroute (layout 2 2)) r) (demo_reqs r) new_mbox)) 3)) = {#(False, 10), (True, 20), (True, 30)#}
   \<and> mset (received (fst (do_exchange (nlroute (layout 2 2)) (\<lambda>r log. []) (stage_comm (nlroute (layout 2 2) :: (nat message, nat) router))
     (\<lambda>r. fold (run_req (nlroute (layout 2 2)) r) (demo_reqs r) new_mbox)) 3)) = {#(False, 10), (True, 20), (True, 30)#}
   \<and> mset (received (fst (do_exchange (nrroute (layout 2 2)) (\<lambda>r log. []) (stage_comm (nrroute (layout 2 2) :: (nat message, nat) router))
     (\<lambda>r. fold (run_req (nrroute (layout 2 2)) r) (demo_reqs r) new_mbox)) 3)) = {#(False, 10), (True, 20), (True, 30)#}"
proof -
  have l: "routable 2 2 (layout 2 2)" by (simp add: layout_routable)
  have e: "image_mset snd (filter_mset (\<lambda>y. fst y = 3) (\<Sum>r < 2 * 2. sum_list (map (promised (2 * 2) r) (demo_reqs r)))) =
      {#(False, 10), (True, 20), (True, 30)#}" by (simp add: demo_promised)
  have d: "\<forall>r < 2 * 2. list_all (legal_req (2 * 2) r) (demo_reqs r)" "(3 :: nat) < 2 * 2" using demo_legal by simp_all
  show ?thesis
    unfolding e [symmetric]
    using unlayered_mailboxes_deliver [OF l silent_handler d, where ?ord0.0 = "stage_comm (noroute (layout 2 2) :: (nat direct_message, nat) router)"
        and ?ord1.0 = "stage_comm (nlroute (layout 2 2) :: (nat message, nat) router)"
        and ?ord2.0 = "stage_comm (nrroute (layout 2 2) :: (nat message, nat) router)"]
    by (simp only: arrivals_in_order simp_thms)
qed

text \<open>
  C23. One layered exchange is an exact account, from any idle state and for any handler: every rank is
  idle again, it has received exactly what was in flight to it, and what is now in flight is exactly
  what the handler asked for on those receipts.
\<close>

theorem nlnr_exchange_accounts:
  fixes s :: "nat \<Rightarrow> ('d message, 'd) mbox"
  assumes "routable N L c" "arrivals_ok (nlnr c :: ('d message, 'd) router) (N * L) ord" "legal_handler (N * L) h"
    "\<forall>r < N * L. idle (nlnr c) (nlnr_valid c) r (s r)" "x < N * L"
  defines "s' \<equiv> fst (do_exchange (nlnr c) h ord s)"
  shows "idle (nlnr c) (nlnr_valid c) x (s' x) \<and>
    logged x (s' x) = filter_mset (\<lambda>y. fst y = x) (total_account (nlnr c) (N * L) s) \<and>
    in_flight (nlnr c) x (s' x) = sum_list (map (promised (N * L) x) (reactions h x (received (s x)) (received (s' x))))"
proof -
  have size: "routed_size c = N * L" by (rule routed_size_eq [OF assms(1)])
  have ord: "arrivals_ok (nlnr c :: ('d message, 'd) router) (routed_size c) ord" and h: "legal_handler (routed_size c) h"
    and x: "x < routed_size c" using assms(2,3,5) size by simp_all
  have idle: "idle (nlnr c) (nlnr_valid c) r (s r)" if "r < routed_size c" for r using assms(4) that size by simp
  note E = ln.do_exchange_effect [OF ord idle h x]
  have "idle (nlnr c) (nlnr_valid c) x (s' x)" unfolding s'_def by (rule E(1))
  moreover have "logged x (s' x) = filter_mset (\<lambda>y. fst y = x) (total_account (nlnr c) (N * L) s)"
    unfolding s'_def using ln.do_exchange_delivers [OF ord idle h x] size by simp
  moreover have "in_flight (nlnr c) x (s' x) = sum_list (map (promised (N * L) x) (reactions h x (received (s x)) (received (s' x))))"
    using E(3) size by (simp add: s'_def account_def)
  ultimately show ?thesis by blast
qed

lemma nlnr_exchange_accounts_witness:
  "logged 3 (fst (do_exchange (nlnr (layout 2 2)) (\<lambda>r log. []) (stage_comm (nlnr (layout 2 2) :: (nat message, nat) router)) (\<lambda>r. new_mbox :: (nat message, nat) mbox)) 3) = {#}"
proof -
  have l: "routable 2 2 (layout 2 2)" by (simp add: layout_routable)
  have "logged 3 (fst (do_exchange (nlnr (layout 2 2)) (\<lambda>r log. []) (stage_comm (nlnr (layout 2 2) :: (nat message, nat) router)) (\<lambda>r. new_mbox :: (nat message, nat) mbox)) 3) =
      filter_mset (\<lambda>y. fst y = 3) (total_account (nlnr (layout 2 2)) (2 * 2) (\<lambda>r. new_mbox :: (nat message, nat) mbox))"
    by (rule nlnr_exchange_accounts [OF l arrivals_in_order silent_handler, THEN conjunct2, THEN conjunct1])
       (simp_all add: ln.fresh_idle)
  then show ?thesis by (simp add: ln.fresh_idle total_account_def)
qed

text \<open>
  C24. The value of \<open>do_exchange\<close> is a global quiescence test, for all four mailboxes: from idle ranks it
  is 0 at any one rank if and only if no rank had queued anything, so all ranks leave \<open>wait_empty\<close> after
  the same exchange.
\<close>

theorem exchange_total_zero_iff_quiet:
  fixes s0 :: "nat \<Rightarrow> ('d direct_message, 'd) mbox" and s1 s2 s3 :: "nat \<Rightarrow> ('d message, 'd) mbox"
  assumes "routable N L c" "x < N * L"
  shows "(arrivals_ok (noroute c :: ('d direct_message, 'd) router) (N * L) ord0 \<longrightarrow> (\<forall>r < N * L. idle (noroute c) (\<lambda>k r m. True) r (s0 r)) \<longrightarrow>
      (global_empty (snd (do_exchange (noroute c) h ord0 s0)) x \<longleftrightarrow> (\<forall>r < N * L. send_count (s0 r) = 0))) \<and>
    (arrivals_ok (nlroute c :: ('d message, 'd) router) (N * L) ord1 \<longrightarrow> (\<forall>r < N * L. idle (nlroute c) (nlroute_valid c) r (s1 r)) \<longrightarrow>
      (global_empty (snd (do_exchange (nlroute c) h ord1 s1)) x \<longleftrightarrow> (\<forall>r < N * L. send_count (s1 r) = 0))) \<and>
    (arrivals_ok (nrroute c :: ('d message, 'd) router) (N * L) ord2 \<longrightarrow> (\<forall>r < N * L. idle (nrroute c) (nrroute_valid c) r (s2 r)) \<longrightarrow>
      (global_empty (snd (do_exchange (nrroute c) h ord2 s2)) x \<longleftrightarrow> (\<forall>r < N * L. send_count (s2 r) = 0))) \<and>
    (arrivals_ok (nlnr c :: ('d message, 'd) router) (N * L) ord3 \<longrightarrow> (\<forall>r < N * L. idle (nlnr c) (nlnr_valid c) r (s3 r)) \<longrightarrow>
      (global_empty (snd (do_exchange (nlnr c) h ord3 s3)) x \<longleftrightarrow> (\<forall>r < N * L. send_count (s3 r) = 0)))"
  using assms comms_world [of N L c] nor.total_zero_iff [of c ord0 s0 x h] nl.total_zero_iff [of c ord1 s1 x h]
    nr.total_zero_iff [of c ord2 s2 x h] ln.total_zero_iff [of c ord3 s3 x h]
  by (simp_all add: routed_size_eq [OF assms(1)] global_empty_def routable_def)

lemma exchange_total_zero_iff_quiet_witness:
  "global_empty (snd (do_exchange (nlnr (layout 2 2)) (\<lambda>r log. []) (stage_comm (nlnr (layout 2 2) :: (nat message, nat) router)) (\<lambda>r. new_mbox :: (nat message, nat) mbox))) 1"
proof -
  have l: "routable 2 2 (layout 2 2)" by (simp add: layout_routable)
  have x: "(1 :: nat) < 2 * 2" by simp
  show ?thesis
    by (subst exchange_total_zero_iff_quiet [OF l x, THEN conjunct2, THEN conjunct2, THEN conjunct2, rule_format, OF arrivals_in_order])
       (simp_all add: ln.fresh_idle, simp add: new_mbox_def)
qed

text \<open>
  C25. \<open>wait_empty\<close> of the layered mailbox does its job: whenever it returns, every rank is idle with
  nothing queued and nothing in flight, and when receipts are not answered it returns after at most two
  exchanges.
\<close>

theorem nlnr_wait_empty_drains:
  fixes s :: "nat \<Rightarrow> ('d message, 'd) mbox"
  assumes "routable N L c" "\<forall>ord \<in> set ords. arrivals_ok (nlnr c :: ('d message, 'd) router) (N * L) ord"
    "\<forall>r < N * L. idle (nlnr c) (nlnr_valid c) r (s r)" "legal_handler (N * L) h"
  shows "(\<forall>s' r. wait_empty (nlnr c) h ords s = Some s' \<and> r < N * L \<longrightarrow>
      idle (nlnr c) (nlnr_valid c) r (s' r) \<and> send_count (s' r) = 0 \<and> in_flight (nlnr c) r (s' r) = {#}) \<and>
    (h = (\<lambda>r log. []) \<and> 2 \<le> length ords \<longrightarrow> (\<exists>s'. wait_empty (nlnr c) h ords s = Some s'))"
proof (intro conjI impI allI; (elim conjE)?)
  have pos: "0 < N * L" using assms(1) blocked_comms_pos by (auto simp: routable_def)
  have size: "routed_size c = N * L" by (rule routed_size_eq [OF assms(1)])
  {
    fix s' r assume "wait_empty (nlnr c) h ords s = Some s'" "r < N * L"
    then show "idle (nlnr c) (nlnr_valid c) r (s' r)" "send_count (s' r) = 0" "in_flight (nlnr c) r (s' r) = {#}"
      using ln.wait_empty_quiet [of c h ords s s' r] assms pos size by simp_all
  next
    assume h: "h = (\<lambda>r log. [])" and "2 \<le> length ords"
    then obtain o1 o2 os where o: "ords = o1 # o2 # os"
      by (metis Suc_le_length_iff numeral_2_eq_2)
    show "\<exists>s'. wait_empty (nlnr c) h ords s = Some s'" unfolding o
      by (rule ln.wait_empty_returns) (use assms pos size h o in simp_all)
  }
qed

lemma nlnr_wait_empty_drains_witness:
  "\<exists>s'. wait_empty (nlnr (layout 2 2)) (\<lambda>r log. []) (replicate 2 (stage_comm (nlnr (layout 2 2) :: (nat message, nat) router)))
     (\<lambda>r. fold (run_req (nlnr (layout 2 2)) r) (demo_reqs r) new_mbox) = Some s' \<and> send_count (s' 0) = 0"
proof -
  let ?o = "stage_comm (nlnr (layout 2 2) :: (nat message, nat) router)"
    and ?s = "\<lambda>r. fold (run_req (nlnr (layout 2 2)) r) (demo_reqs r) new_mbox"
  have l: "routable 2 2 (layout 2 2)" by (simp add: layout_routable)
  have o: "\<forall>ord \<in> set (replicate 2 ?o). arrivals_ok (nlnr (layout 2 2) :: (nat message, nat) router) (2 * 2) ord"
    using arrivals_in_order by auto
  have s: "\<forall>r < 2 * 2. idle (nlnr (layout 2 2)) (nlnr_valid (layout 2 2)) r (?s r)"
  proof (intro allI impI)
    fix r :: nat assume r: "r < 2 * 2"
    show "idle (nlnr (layout 2 2)) (nlnr_valid (layout 2 2)) r (?s r)"
      by (rule ln.fresh_run(1)) (use r demo_legal in \<open>simp_all add: routed_size_eq [OF l]\<close>)
  qed
  note D = nlnr_wait_empty_drains [OF l o s silent_handler]
  obtain s' where "wait_empty (nlnr (layout 2 2)) (\<lambda>r log. []) (replicate 2 ?o) ?s = Some s'"
    using D by auto
  then show ?thesis using D by fastforce
qed

end
