(* ===== verification/Visitor_Queue.thy ===== *)
theory Visitor_Queue
  imports Havoq_Prelude
begin

section \<open>The visitor queue (visitor\_queue.hpp)\<close>

text \<open>
  The distributed loop that runs every visitor algorithm.  Each rank keeps the algorithm's data, the
  queue of owned visitors, the queue of controllers (visitors broadcast by the master of a delegate)
  and the visit it is in the middle of.  A rank advances by \<open>rank_step\<close>; messages on their way to a
  rank wait in \<open>net\<close> until all ranks are inside the mailbox, when \<open>exchange_step\<close> hands every rank all
  of its messages in some order: this is what the mailbox is shown to do in \<open>Ygm_Properties\<close>.  Which of
  its visitors a rank takes next is left open (the container decides), so the results hold for every
  container.
\<close>

text \<open>
  A traversal: the graph as the queue sees it (\<open>t_home\<close> is \<open>owner()\<close> of an ordinary vertex and
  \<open>master()\<close> of a delegate) and the algorithm's visitor class: \<open>pre_visit\<close>, and \<open>visit\<close> and
  \<open>init_visit\<close> as the new data, the visitors they hand to \<open>queue_visitor\<close> in order, and their result.
\<close>

record ('n, 'v, 'd) traversal =
  t_size :: nat
  t_vertex :: "'v \<Rightarrow> 'n"
  t_delegate :: "'n \<Rightarrow> bool"
  t_home :: "'n \<Rightarrow> nat"
  t_pre_visit :: "nat \<Rightarrow> 'v \<Rightarrow> 'd \<Rightarrow> 'd \<times> bool"
  t_visit :: "nat \<Rightarrow> 'v \<Rightarrow> 'd \<Rightarrow> 'd \<times> 'v list \<times> bool"
  t_init_visit :: "nat \<Rightarrow> 'v \<Rightarrow> 'd \<Rightarrow> 'd \<times> 'v list \<times> bool"

datatype pc = Start_Controller | Start_Vertex | Drain_Outer | Test_Inner | Drain_Inner | Pop_Top | Test_Outer | Finished

record ('v, 'd) vq =
  alg_data :: 'd
  owned :: "'v list"
  controllers :: "'v list"
  running :: "('v list \<times> 'v option) option"
  start_controllers :: "'v list"
  start_vertices :: "'v list"
  at_pc :: pc

text \<open>A message: the visitor and the broadcast bit of its vertex locator.\<close>

type_synonym 'v net = "nat \<Rightarrow> ('v \<times> bool) list"

subsection \<open>Queueing a visitor\<close>

definition push :: "'v \<Rightarrow> ('v, 'd) vq \<Rightarrow> ('v, 'd) vq" where
  "push v st = st\<lparr>owned := owned st @ [v]\<rparr>"

definition mailbox_send :: "nat \<Rightarrow> 'v \<Rightarrow> 'v net \<Rightarrow> 'v net" where
  "mailbox_send dest v net = net(dest := net dest @ [(v, False)])"

definition mailbox_bcast :: "nat \<Rightarrow> nat \<Rightarrow> 'v \<Rightarrow> 'v net \<Rightarrow> 'v net" where
  "mailbox_bcast P r v net = (\<lambda>q. if q < P \<and> q \<noteq> r then net q @ [(v, True)] else net q)"

definition local_delegate_visit ::
    "('n, 'v, 'd) traversal \<Rightarrow> nat \<Rightarrow> 'v \<Rightarrow> ('v, 'd) vq \<times> 'v net \<Rightarrow> ('v, 'd) vq \<times> 'v net" where
  "local_delegate_visit T r v g =
     (let (st, net) = g; (d, do_visit) = t_pre_visit T r v (alg_data st); st' = st\<lparr>alg_data := d\<rparr>
      in if do_visit then
           if t_home T (t_vertex T v) = r then (push v st', net)
           else (st', mailbox_send (t_home T (t_vertex T v)) v net)
         else (st', net))"

definition queue_visitor ::
    "('n, 'v, 'd) traversal \<Rightarrow> nat \<Rightarrow> 'v \<Rightarrow> ('v, 'd) vq \<times> 'v net \<Rightarrow> ('v, 'd) vq \<times> 'v net" where
  "queue_visitor T r v g =
     (if t_delegate T (t_vertex T v) then local_delegate_visit T r v g
      else let (st, net) = g in
        if t_home T (t_vertex T v) = r then
          let (d, do_visit) = t_pre_visit T r v (alg_data st); st' = st\<lparr>alg_data := d\<rparr>
          in (if do_visit then push v st' else st', net)
        else (st, mailbox_send (t_home T (t_vertex T v)) v net))"

text \<open>\<open>handle_mailbox_receive\<close>; \<open>None\<close> is a failed assertion.\<close>

definition handle_mailbox_receive ::
    "('n, 'v, 'd) traversal \<Rightarrow> nat \<Rightarrow> 'v \<times> bool \<Rightarrow> ('v, 'd) vq \<Rightarrow> ('v, 'd) vq option" where
  "handle_mailbox_receive T r m st =
     (let (v, bcast) = m in
      if t_delegate T (t_vertex T v) then
        if bcast then
          if t_home T (t_vertex T v) = r then Some st
          else Some (st\<lparr>controllers := controllers st @ [v]\<rparr>)
        else if t_home T (t_vertex T v) = r then
          let (d, do_visit) = t_pre_visit T r v (alg_data st); st' = st\<lparr>alg_data := d\<rparr>
          in Some (if do_visit then push v st' else st')
        else None
      else if t_home T (t_vertex T v) = r then
        let (d, do_visit) = t_pre_visit T r v (alg_data st); st' = st\<lparr>alg_data := d\<rparr>
        in Some (if do_visit then push v st' else st')
      else None)"

fun receive_all ::
    "('n, 'v, 'd) traversal \<Rightarrow> nat \<Rightarrow> ('v \<times> bool) list \<Rightarrow> ('v, 'd) vq \<Rightarrow> ('v, 'd) vq option" where
  "receive_all T r [] st = Some st"
| "receive_all T r (m # ms) st = Option.bind (handle_mailbox_receive T r m st) (receive_all T r ms)"

subsection \<open>The main loop\<close>

definition is_empty :: "('v, 'd) vq \<Rightarrow> bool" where
  "is_empty st \<longleftrightarrow> owned st = [] \<and> controllers st = []"

text \<open>\<open>pop_top\<close> when the container picks position \<open>k\<close>; \<open>None\<close> on an empty queue (the assertion).\<close>

definition pop_top :: "nat \<Rightarrow> ('v, 'd) vq \<Rightarrow> ('v \<times> ('v, 'd) vq) option" where
  "pop_top k st =
     (if k < length (owned st)
      then Some (owned st ! k, st\<lparr>owned := take k (owned st) @ drop (Suc k) (owned st)\<rparr>) else None)"

text \<open>
  The head of \<open>do_visit\<close> and \<open>do_init_visit\<close>: the call of \<open>visit\<close>, after which the new visitors wait to be
  queued one by one; on success the master of a delegate broadcasts the visitor at the end.
\<close>

definition begin_visit ::
    "('n, 'v, 'd) traversal \<Rightarrow> nat \<Rightarrow> (nat \<Rightarrow> 'v \<Rightarrow> 'd \<Rightarrow> 'd \<times> 'v list \<times> bool) \<Rightarrow> 'v \<Rightarrow> ('v, 'd) vq \<Rightarrow> ('v, 'd) vq" where
  "begin_visit T r visit v st =
     (let (d, new, ret) = visit r v (alg_data st)
      in st\<lparr>alg_data := d,
            running := Some (new, if ret \<and> t_delegate T (t_vertex T v) \<and> t_home T (t_vertex T v) = r then Some v else None)\<rparr>)"

text \<open>\<open>process_pending_controllers\<close> visits without broadcasting.\<close>

definition begin_controller ::
    "('n, 'v, 'd) traversal \<Rightarrow> nat \<Rightarrow> 'v \<Rightarrow> ('v, 'd) vq \<Rightarrow> ('v, 'd) vq" where
  "begin_controller T r v st =
     (let (d, new, ret) = t_visit T r v (alg_data st) in st\<lparr>alg_data := d, running := Some (new, None)\<rparr>)"

definition drain_controllers ::
    "('n, 'v, 'd) traversal \<Rightarrow> nat \<Rightarrow> pc \<Rightarrow> ('v, 'd) vq \<Rightarrow> ('v, 'd) vq" where
  "drain_controllers T r after st =
     (case controllers st of
        [] \<Rightarrow> st\<lparr>at_pc := after\<rparr>
      | v # vs \<Rightarrow> begin_controller T r v (st\<lparr>controllers := vs\<rparr>))"

fun rank_step ::
    "('n, 'v, 'd) traversal \<Rightarrow> nat \<Rightarrow> nat \<Rightarrow> ('v, 'd) vq \<times> 'v net \<Rightarrow> (('v, 'd) vq \<times> 'v net) option" where
  "rank_step T r k (st, net) =
     (case running st of
        Some (v # vs, bc) \<Rightarrow> Some (queue_visitor T r v (st\<lparr>running := Some (vs, bc)\<rparr>, net))
      | Some ([], Some v) \<Rightarrow> Some (st\<lparr>running := Some ([], None)\<rparr>, mailbox_bcast (t_size T) r v net)
      | Some ([], None) \<Rightarrow> Some (st\<lparr>running := None\<rparr>, net)
      | None \<Rightarrow>
          (case at_pc st of
             Start_Controller \<Rightarrow>
               (case start_controllers st of
                  [] \<Rightarrow> Some (st\<lparr>at_pc := Start_Vertex\<rparr>, net)
                | v # vs \<Rightarrow> Some (begin_visit T r (t_init_visit T) v (st\<lparr>start_controllers := vs, at_pc := Start_Vertex\<rparr>), net))
           | Start_Vertex \<Rightarrow>
               (case start_vertices st of
                  [] \<Rightarrow> Some (st\<lparr>at_pc := Drain_Outer\<rparr>, net)
                | v # vs \<Rightarrow> Some (begin_visit T r (t_init_visit T) v (st\<lparr>start_vertices := vs, at_pc := Drain_Outer\<rparr>), net))
           | Drain_Outer \<Rightarrow> Some (drain_controllers T r Test_Inner st, net)
           | Test_Inner \<Rightarrow> Some (st\<lparr>at_pc := if is_empty st then Test_Outer else Drain_Inner\<rparr>, net)
           | Drain_Inner \<Rightarrow> Some (drain_controllers T r Pop_Top st, net)
           | Pop_Top \<Rightarrow>
               map_option (\<lambda>(v, st'). (begin_visit T r (t_visit T) v (st'\<lparr>at_pc := Test_Inner\<rparr>), net)) (pop_top k st)
           | Test_Outer \<Rightarrow>
               if start_controllers st \<noteq> [] \<or> start_vertices st \<noteq> [] \<or> \<not> is_empty st
               then Some (st\<lparr>at_pc := Start_Controller\<rparr>, net) else None
           | Finished \<Rightarrow> None))"

text \<open>
  A rank is inside the mailbox either in \<open>global_empty\<close> at the end of the outer loop, or in a send of a
  running visit that filled the batch.
\<close>

definition in_global_empty :: "('v, 'd) vq \<Rightarrow> bool" where
  "in_global_empty st \<longleftrightarrow> running st = None \<and> at_pc st = Test_Outer
     \<and> start_controllers st = [] \<and> start_vertices st = [] \<and> is_empty st"

definition net_empty :: "nat \<Rightarrow> 'v net \<Rightarrow> bool" where
  "net_empty P net \<longleftrightarrow> (\<forall>r < P. net r = [])"

definition can_exchange :: "nat \<Rightarrow> (nat \<Rightarrow> ('v, 'd) vq) \<times> 'v net \<Rightarrow> bool" where
  "can_exchange P g \<longleftrightarrow>
     (\<forall>r < P. in_global_empty (fst g r) \<or> running (fst g r) \<noteq> None \<and> \<not> net_empty P (snd g))"

text \<open>Leaving the mailbox: \<open>global_empty\<close> is true when nothing was on its way.\<close>

definition leave_exchange :: "bool \<Rightarrow> ('v, 'd) vq \<Rightarrow> ('v, 'd) vq" where
  "leave_exchange quiet st =
     (if running st = None then st\<lparr>at_pc := if quiet then Finished else Start_Controller\<rparr> else st)"

inductive vq_step ::
    "('n, 'v, 'd) traversal \<Rightarrow> (nat \<Rightarrow> ('v, 'd) vq) \<times> 'v net \<Rightarrow> (nat \<Rightarrow> ('v, 'd) vq) \<times> 'v net \<Rightarrow> bool"
  for T where
  local_step: "r < t_size T \<Longrightarrow> rank_step T r k (ranks r, net) = Some (st, net') \<Longrightarrow>
     vq_step T (ranks, net) (ranks(r := st), net')"
| exchange_step: "can_exchange (t_size T) (ranks, net) \<Longrightarrow> (\<And>r. r < t_size T \<Longrightarrow> mset (arrival r) = mset (net r)) \<Longrightarrow>
     (\<And>r. r < t_size T \<Longrightarrow> receive_all T r (arrival r) (ranks r) = Some (ranks' r)) \<Longrightarrow>
     vq_step T (ranks, net)
       (\<lambda>r. if r < t_size T then leave_exchange (net_empty (t_size T) net) (ranks' r) else ranks r,
        \<lambda>r. if r < t_size T then [] else net r)"

inductive_cases vq_stepE: "vq_step T g g'"

inductive vq_reach ::
    "('n, 'v, 'd) traversal \<Rightarrow> (nat \<Rightarrow> ('v, 'd) vq) \<times> 'v net \<Rightarrow> (nat \<Rightarrow> ('v, 'd) vq) \<times> 'v net \<Rightarrow> bool"
  for T g0 where
  reach_refl: "vq_reach T g0 g0"
| reach_step: "vq_reach T g0 g \<Longrightarrow> vq_step T g g' \<Longrightarrow> vq_reach T g0 g'"

definition all_finished :: "nat \<Rightarrow> (nat \<Rightarrow> ('v, 'd) vq) \<times> 'v net \<Rightarrow> bool" where
  "all_finished P g \<longleftrightarrow> (\<forall>r < P. running (fst g r) = None \<and> at_pc (fst g r) = Finished)"

text \<open>A rank that is about to fail the assertion of \<open>pop_top\<close>.\<close>

definition pops_empty :: "('v, 'd) vq \<Rightarrow> bool" where
  "pops_empty st \<longleftrightarrow> running st = None \<and> at_pc st = Pop_Top \<and> owned st = []"

subsection \<open>The entry points\<close>

text \<open>
  \<open>init_visitor_traversal(source)\<close>: rank 0 queues the source visitor, then every rank enters the loop;
  with neither controllers nor vertices to start from, \<open>Start_Controller\<close> leads straight to the loop.
\<close>

definition new_vq :: "'d \<Rightarrow> ('v, 'd) vq" where
  "new_vq d = \<lparr>alg_data = d, owned = [], controllers = [], running = None, start_controllers = [],
     start_vertices = [], at_pc = Start_Controller\<rparr>"

definition start_source :: "'v \<Rightarrow> (nat \<Rightarrow> 'd) \<Rightarrow> (nat \<Rightarrow> ('v, 'd) vq) \<times> 'v net" where
  "start_source v d =
     (\<lambda>r. if r = 0 then (new_vq (d r))\<lparr>running := Some ([v], None)\<rparr> else new_vq (d r), \<lambda>r. [])"

text \<open>\<open>init_visitor_traversal()\<close>: every rank starts from its controllers and its vertices in turn.\<close>

definition start_all :: "(nat \<Rightarrow> 'v list) \<Rightarrow> (nat \<Rightarrow> 'v list) \<Rightarrow> (nat \<Rightarrow> 'd) \<Rightarrow> (nat \<Rightarrow> ('v, 'd) vq) \<times> 'v net" where
  "start_all cs vs d = (\<lambda>r. (new_vq (d r))\<lparr>start_controllers := cs r, start_vertices := vs r\<rparr>, \<lambda>r. [])"

text \<open>\<open>init_visitor_traversal(local_sources)\<close>: every rank starts from the listed vertices.\<close>

definition start_sources :: "(nat \<Rightarrow> 'v list) \<Rightarrow> (nat \<Rightarrow> 'd) \<Rightarrow> (nat \<Rightarrow> ('v, 'd) vq) \<times> 'v net" where
  "start_sources vs d = start_all (\<lambda>r. []) vs d"

end
