(* ===== verification/Visitor_Weights.thy ===== *)
theory Visitor_Weights
  imports Visitor_Queue
begin

section \<open>How runs of the visitor queue end\<close>

text \<open>
  Facts about the loop that do not depend on the algorithm: a rank leaves the loop only together with all others and with
  nothing left, and a state in which no step is possible is finished, unless a rank is about to take a visitor from an
  empty queue.  The locale states what makes every run end: a weight of the data that no step raises and that pays
  for every visitor that is put into a queue.  The weight of a state falls with every step, or stays and the number of
  control steps before the next piece of work falls.
\<close>

subsection \<open>Looking into a rank\<close>

definition todo_of :: "('v, 'd) vq \<Rightarrow> 'v list" where
  "todo_of st = (case running st of None \<Rightarrow> [] | Some (vs, bc) \<Rightarrow> vs)"

definition bcast_of :: "('v, 'd) vq \<Rightarrow> 'v list" where
  "bcast_of st = (case running st of Some (vs, Some v) \<Rightarrow> [v] | _ \<Rightarrow> [])"

subsection \<open>Leaving the loop\<close>

definition finish_inv :: "('n, 'v, 'd) traversal \<Rightarrow> (nat \<Rightarrow> ('v, 'd) vq) \<times> 'v net \<Rightarrow> bool" where
  "finish_inv T g \<longleftrightarrow> (\<exists>r < t_size T. at_pc (fst g r) = Finished) \<longrightarrow>
     (\<forall>r < t_size T. at_pc (fst g r) = Finished \<and> running (fst g r) = None \<and> owned (fst g r) = [] \<and> controllers (fst g r) = []
        \<and> start_controllers (fst g r) = [] \<and> start_vertices (fst g r) = [] \<and> snd g r = [])"

lemma queue_visitor_pc: "queue_visitor T r v (st, net) = (st', net') \<Longrightarrow> at_pc st' = at_pc st"
  by (auto simp: queue_visitor_def local_delegate_visit_def push_def Let_def split: if_splits prod.splits)

lemma begin_pc [simp]:
  "at_pc (begin_visit T r vis v st) = at_pc st"
  "at_pc (drain_controllers T r after st) = (if controllers st = [] then after else at_pc st)"
  by (simp_all add: begin_visit_def drain_controllers_def begin_controller_def split: prod.splits list.splits)

lemma rank_step_pc:
  assumes "rank_step T r k (st, net) = Some (st', net')" "at_pc st' = Finished"
  shows "at_pc st = Finished"
proof (cases "running st")
  case None
  then show ?thesis using assms
    by (cases "at_pc st") (auto split: list.splits if_splits)
next
  case (Some p)
  then obtain vs bc where run: "running st = Some (vs, bc)" by (cases p) auto
  show ?thesis
  proof (cases vs)
    case Nil
    then show ?thesis using assms run by (cases bc) auto
  next
    case (Cons v ws)
    then show ?thesis using assms run queue_visitor_pc by fastforce
  qed
qed

lemma rank_step_finished: "at_pc st = Finished \<Longrightarrow> running st = None \<Longrightarrow> rank_step T r k (st, net) = None"
  by simp

lemma finish_inv_step:
  assumes "vq_step T g g'" "finish_inv T g"
  shows "finish_inv T g'"
  using assms(1)
proof cases
  case (local_step r k ranks net st net')
  have none: "at_pc (ranks q) \<noteq> Finished" if "q < t_size T" for q
  proof
    assume "at_pc (ranks q) = Finished"
    then have "at_pc (ranks r) = Finished" "running (ranks r) = None"
      using assms(2) that local_step unfolding finish_inv_def by auto
    then show False using rank_step_finished [of "ranks r" T r k net] local_step by simp
  qed
  then have "at_pc st \<noteq> Finished" using rank_step_pc [OF local_step(4)] local_step(3) by blast
  then show ?thesis unfolding finish_inv_def using none local_step by auto
next
  case (exchange_step ranks net arrival ranks')
  show ?thesis
  proof (cases "net_empty (t_size T) net")
    case True
    have g: "in_global_empty (ranks r)" if "r < t_size T" for r
      using exchange_step(3) True that by (auto simp: can_exchange_def)
    have "ranks' r = ranks r" if "r < t_size T" for r
    proof -
      have "arrival r = []" using exchange_step(4) [OF that] True that by (simp add: net_empty_def)
      then show ?thesis using exchange_step(5) [OF that] by simp
    qed
    then show ?thesis using g exchange_step(2)
      by (auto simp: finish_inv_def leave_exchange_def in_global_empty_def is_empty_def)
  next
    case False
    have "at_pc (ranks q) \<noteq> Finished" if "q < t_size T" for q
    proof
      assume "at_pc (ranks q) = Finished"
      then have "\<forall>r < t_size T. net r = []" using assms(2) that exchange_step(1) unfolding finish_inv_def by auto
      then show False using False by (simp add: net_empty_def)
    qed
    moreover have "at_pc (ranks' q) = at_pc (ranks q)" if "q < t_size T" for q
    proof -
      have "receive_all T r ms st = Some st' \<Longrightarrow> at_pc st' = at_pc st" for r ms st st'
      proof (induction ms arbitrary: st)
        case (Cons m ms)
        then obtain st1 where "handle_mailbox_receive T r m st = Some st1" "receive_all T r ms st1 = Some st'"
          by (auto simp: bind_eq_Some_conv)
        moreover from this(1) have "at_pc st1 = at_pc st"
          by (auto simp: handle_mailbox_receive_def push_def Let_def split: if_splits prod.splits)
        ultimately show ?case using Cons.IH by simp
      qed simp
      then show ?thesis using exchange_step(5) [OF that] by blast
    qed
    ultimately show ?thesis using False exchange_step(2)
      by (auto simp: finish_inv_def leave_exchange_def)
  qed
qed

lemma finish_inv_reach: "vq_reach T g0 g \<Longrightarrow> finish_inv T g0 \<Longrightarrow> finish_inv T g"
  by (induction rule: vq_reach.induct) (auto intro: finish_inv_step)

lemma finish_inv_start [simp]: "finish_inv T (start_source v d)" "finish_inv T (start_all cs vs d)"
  by (simp_all add: finish_inv_def start_source_def start_all_def new_vq_def)

lemma rank_step_stuck:
  assumes "rank_step T r 0 (st, net) = None"
  shows "pops_empty st \<or> in_global_empty st \<or> running st = None \<and> at_pc st = Finished"
proof (cases "running st")
  case None
  then show ?thesis using assms
    by (cases "at_pc st") (auto simp: pops_empty_def in_global_empty_def pop_top_def split: list.splits if_splits)
next
  case (Some p)
  then show ?thesis using assms by (cases p; cases "fst p"; cases "snd p") auto
qed

lemma stuck_finished:
  assumes fin: "finish_inv T g" and P: "0 < t_size T" and stuck: "\<And>g'. \<not> vq_step T g g'"
    and recv: "\<And>r. r < t_size T \<Longrightarrow> receive_all T r (snd g r) (fst g r) \<noteq> None"
  shows "all_finished (t_size T) g \<or> (\<exists>r < t_size T. pops_empty (fst g r))"
proof (rule disjCI)
  assume no_pop: "\<not> (\<exists>r < t_size T. pops_empty (fst g r))"
  obtain ranks net where g: "g = (ranks, net)" by (cases g)
  have none: "rank_step T r 0 (ranks r, net) = None" if "r < t_size T" for r
  proof (rule ccontr)
    assume "rank_step T r 0 (ranks r, net) \<noteq> None"
    then obtain st net' where "rank_step T r 0 (ranks r, net) = Some (st, net')" by fastforce
    then show False using stuck vq_step.local_step [OF that] g by blast
  qed
  then have cases: "in_global_empty (ranks r) \<or> running (ranks r) = None \<and> at_pc (ranks r) = Finished" if "r < t_size T" for r
    using rank_step_stuck [OF none [OF that]] no_pop that g by auto
  show "all_finished (t_size T) g"
  proof (cases "\<exists>r < t_size T. at_pc (ranks r) = Finished")
    case True
    then show ?thesis using fin unfolding finish_inv_def all_finished_def g by auto
  next
    case False
    then have "can_exchange (t_size T) (ranks, net)" using cases by (auto simp: can_exchange_def)
    moreover define ranks' where "ranks' r = the (receive_all T r (net r) (ranks r))" for r
    have "receive_all T r (net r) (ranks r) = Some (ranks' r)" if "r < t_size T" for r
      using recv [OF that] by (auto simp: g ranks'_def)
    ultimately show ?thesis using vq_step.exchange_step [of T ranks net net ranks'] stuck g by blast
  qed
qed

subsection \<open>Weights\<close>

text \<open>How many control steps a rank can take before it has to work.\<close>

definition control :: "('v, 'd) vq \<Rightarrow> nat" where
  "control st = (if running st \<noteq> None then 0 else if at_pc st = Finished then 0
     else if \<not> is_empty st then
       (case at_pc st of Test_Outer \<Rightarrow> 8 | Start_Controller \<Rightarrow> 7 | Start_Vertex \<Rightarrow> 6 | Drain_Outer \<Rightarrow> 5 | Test_Inner \<Rightarrow> 4
        | Drain_Inner \<Rightarrow> 3 | _ \<Rightarrow> 2)
     else if start_controllers st \<noteq> [] \<or> start_vertices st \<noteq> [] then
       (case at_pc st of Start_Vertex \<Rightarrow> (if start_vertices st = [] then 7 else 2) | Drain_Outer \<Rightarrow> 6 | Test_Inner \<Rightarrow> 5
        | Test_Outer \<Rightarrow> 4 | Start_Controller \<Rightarrow> 3 | Drain_Inner \<Rightarrow> 2 | _ \<Rightarrow> 1)
     else
       (case at_pc st of Start_Controller \<Rightarrow> 6 | Start_Vertex \<Rightarrow> 5 | Drain_Outer \<Rightarrow> 4 | Test_Inner \<Rightarrow> 3 | Drain_Inner \<Rightarrow> 2 | _ \<Rightarrow> 1))"

lemma sum_upd:
  fixes f :: "'x \<Rightarrow> nat" and n r :: nat
  assumes "r < n"
  shows "(\<Sum>q < n. f ((g(r := x)) q)) + f (g r) = (\<Sum>q < n. f (g q)) + f x"
proof -
  have "(\<Sum>q \<in> {..<n} - {r}. f ((g(r := x)) q)) = (\<Sum>q \<in> {..<n} - {r}. f (g q))" by (intro sum.cong) auto
  then show ?thesis
    using assms sum.remove [of "{..<n}" r "\<lambda>q. f ((g(r := x)) q)"] sum.remove [of "{..<n}" r "\<lambda>q. f (g q)"] by simp
qed

definition ctrl_cost :: "nat \<Rightarrow> nat" where "ctrl_cost D = 2 * D + 2"
definition bcast_msg_cost :: "nat \<Rightarrow> nat" where "bcast_msg_cost D = ctrl_cost D + 1"
definition bcast_cost :: "nat \<Rightarrow> nat \<Rightarrow> nat" where "bcast_cost P D = P * bcast_msg_cost D + 1"
definition owned_cost :: "nat \<Rightarrow> nat \<Rightarrow> nat" where "owned_cost P D = 2 * D + bcast_cost P D + 2"
definition push_cost :: "nat \<Rightarrow> nat \<Rightarrow> nat" where "push_cost P D = owned_cost P D + 1"

locale weighted =
  fixes T :: "('n, 'v, 'd) traversal" and phi :: "'d \<Rightarrow> nat" and good :: "'v \<Rightarrow> bool" and D :: nat
  assumes home_exists: "t_home T n < t_size T"
    and visit_weight: "t_visit T r v d = (d', new, ret) \<Longrightarrow> phi d' \<le> phi d \<and> length new \<le> D"
    and init_visit_weight: "t_init_visit T r v d = (d', new, ret) \<Longrightarrow> phi d' \<le> phi d \<and> length new \<le> D"
    and pre_visit_weight: "t_pre_visit T r v d = (d', b) \<Longrightarrow> good v \<Longrightarrow>
      phi d' \<le> phi d \<and> (b \<and> t_home T (t_vertex T v) = r \<longrightarrow> phi d' + push_cost (t_size T) D \<le> phi d)"
begin

definition rank_work :: "('v, 'd) vq \<Rightarrow> nat" where
  "rank_work st = phi (alg_data st)
     + owned_cost (t_size T) D * (length (owned st) + length (start_controllers st) + length (start_vertices st))
     + ctrl_cost D * length (controllers st) + 2 * length (todo_of st) + bcast_cost (t_size T) D * length (bcast_of st)
     + (if running st = None then 0 else 1)"

definition net_work :: "('v \<times> bool) list \<Rightarrow> nat" where
  "net_work ms = sum_list (map (\<lambda>m. if snd m then bcast_msg_cost D else 1) ms)"

definition work :: "(nat \<Rightarrow> ('v, 'd) vq) \<times> 'v net \<Rightarrow> nat" where
  "work g = (\<Sum>r < t_size T. rank_work (fst g r) + net_work (snd g r))"

definition controls :: "(nat \<Rightarrow> ('v, 'd) vq) \<times> 'v net \<Rightarrow> nat" where
  "controls g = (\<Sum>r < t_size T. control (fst g r))"

subsection \<open>Local steps\<close>

lemma begin_visit_work:
  assumes "running st = None" "vis = t_visit T \<or> vis = t_init_visit T"
  shows "rank_work (begin_visit T r vis v st) < rank_work st + owned_cost (t_size T) D"
proof -
  obtain d' new ret where eq: "vis r v (alg_data st) = (d', new, ret)" by (metis prod_cases3)
  have b: "phi d' \<le> phi (alg_data st)" "length new \<le> D"
    using eq assms(2) visit_weight [of r v "alg_data st"] init_visit_weight [of r v "alg_data st"] by auto
  show ?thesis
    using eq assms(1) b by (simp add: begin_visit_def rank_work_def todo_of_def bcast_of_def owned_cost_def)
qed

lemma controller_work:
  assumes "running st = None" "controllers st = v # vs"
  shows "rank_work (begin_controller T r v (st\<lparr>controllers := vs\<rparr>)) < rank_work st"
proof -
  obtain d' new ret where eq: "t_visit T r v (alg_data st) = (d', new, ret)" by (metis prod_cases3)
  show ?thesis
    using eq assms visit_weight [OF eq] by (simp add: begin_controller_def rank_work_def todo_of_def bcast_of_def ctrl_cost_def)
qed

lemma queue_work:
  assumes run: "running st = Some (v # vs, bc)" and v: "good v"
    and qv: "queue_visitor T r v (st\<lparr>running := Some (vs, bc)\<rparr>, net) = (st', net')"
  shows "\<exists>q. (net' = net \<or> net' = net(q := net q @ [(v, False)])) \<and>
    rank_work st' + (if net' = net then 0 else 1) < rank_work st"
proof -
  obtain d b where pre: "t_pre_visit T r v (alg_data st) = (d, b)" by fastforce
  note W = pre_visit_weight [OF pre v]
  let ?s0 = "st\<lparr>running := Some (vs, bc)\<rparr>" and ?s1 = "st\<lparr>running := Some (vs, bc), alg_data := d\<rparr>"
  have w0: "rank_work ?s0 + 2 \<le> rank_work st" "rank_work ?s1 + 2 \<le> rank_work st"
    using run W by (simp_all add: rank_work_def todo_of_def bcast_of_def split: option.splits)
  have w1: "rank_work (push v ?s1) < rank_work st" if "b" "t_home T (t_vertex T v) = r"
    using run W that by (simp add: rank_work_def todo_of_def bcast_of_def push_def push_cost_def split: option.splits)
  have "(st' = push v ?s1 \<and> net' = net \<and> b \<and> t_home T (t_vertex T v) = r)
      \<or> (st' \<in> {?s0, ?s1} \<and> (net' = net \<or> net' = mailbox_send (t_home T (t_vertex T v)) v net))"
    using qv pre by (auto simp: queue_visitor_def local_delegate_visit_def Let_def split: if_splits)
  then show ?thesis
  proof
    assume "st' = push v ?s1 \<and> net' = net \<and> b \<and> t_home T (t_vertex T v) = r"
    then show ?thesis using w1 by simp
  next
    assume a: "st' \<in> {?s0, ?s1} \<and> (net' = net \<or> net' = mailbox_send (t_home T (t_vertex T v)) v net)"
    then have "rank_work st' + 2 \<le> rank_work st" using w0 by auto
    then show ?thesis using a unfolding mailbox_send_def by (intro exI [of _ "t_home T (t_vertex T v)"]) auto
  qed
qed

lemma work_cong:
  "alg_data st' = alg_data st \<Longrightarrow> owned st' = owned st \<Longrightarrow> controllers st' = controllers st \<Longrightarrow>
   start_controllers st' = start_controllers st \<Longrightarrow> start_vertices st' = start_vertices st \<Longrightarrow>
   running st' = running st \<Longrightarrow> rank_work st' = rank_work st"
  by (simp add: rank_work_def todo_of_def bcast_of_def)

lemma drain_work:
  assumes "running st = None" "at_pc st = Drain_Outer \<and> after = Test_Inner \<or> at_pc st = Drain_Inner \<and> after = Pop_Top"
  shows "rank_work (drain_controllers T r after st) < rank_work st
    \<or> rank_work (drain_controllers T r after st) = rank_work st \<and> control (drain_controllers T r after st) < control st"
proof (cases "controllers st")
  case Nil
  then have eq: "drain_controllers T r after st = st\<lparr>at_pc := after\<rparr>" by (simp add: drain_controllers_def)
  have "rank_work (st\<lparr>at_pc := after\<rparr>) = rank_work st" by (rule work_cong) simp_all
  moreover have "control (st\<lparr>at_pc := after\<rparr>) < control st" using assms by (auto simp: control_def is_empty_def)
  ultimately show ?thesis unfolding eq by blast
next
  case (Cons v vs)
  then show ?thesis using controller_work [OF assms(1) Cons, of r] by (simp add: drain_controllers_def)
qed

lemma rank_step_work:
  assumes "rank_step T r k (st, net) = Some (st', net')" "\<And>v. v \<in> set (todo_of st) \<Longrightarrow> good v"
  shows "net' = net \<and> (rank_work st' < rank_work st \<or> rank_work st' = rank_work st \<and> control st' < control st)
    \<or> (\<exists>q v. net' = net(q := net q @ [(v, False)]) \<and> rank_work st' + 1 < rank_work st)
    \<or> (\<exists>v. net' = mailbox_bcast (t_size T) r v net \<and> rank_work st' + bcast_cost (t_size T) D \<le> rank_work st)"
proof (cases "running st")
  case None
  have "net' = net \<and> (rank_work st' < rank_work st \<or> rank_work st' = rank_work st \<and> control st' < control st)"
  proof (cases "at_pc st")
    case Start_Controller
    show ?thesis
    proof (cases "start_controllers st")
      case Nil
      then have eq: "net' = net" "st' = st\<lparr>at_pc := Start_Vertex\<rparr>" using assms(1) None Start_Controller by auto
      have "rank_work st' = rank_work st" unfolding eq by (rule work_cong) simp_all
      moreover have "control st' < control st" unfolding eq using None Start_Controller Nil by (simp add: control_def is_empty_def)
      ultimately show ?thesis using eq by blast
    next
      case (Cons v vs)
      let ?s = "st\<lparr>start_controllers := vs, at_pc := Start_Vertex\<rparr>"
      have eq: "net' = net" "st' = begin_visit T r (t_init_visit T) v ?s" using assms(1) None Start_Controller Cons by auto
      have "rank_work ?s + owned_cost (t_size T) D = rank_work st" using Cons by (simp add: rank_work_def todo_of_def bcast_of_def algebra_simps)
      then show ?thesis using begin_visit_work [of ?s "t_init_visit T" r v] None by (simp add: eq)
    qed
  next
    case Start_Vertex
    show ?thesis
    proof (cases "start_vertices st")
      case Nil
      then have eq: "net' = net" "st' = st\<lparr>at_pc := Drain_Outer\<rparr>" using assms(1) None Start_Vertex by auto
      have "rank_work st' = rank_work st" unfolding eq by (rule work_cong) simp_all
      moreover have "control st' < control st" unfolding eq using None Start_Vertex Nil by (simp add: control_def is_empty_def)
      ultimately show ?thesis using eq by blast
    next
      case (Cons v vs)
      let ?s = "st\<lparr>start_vertices := vs, at_pc := Drain_Outer\<rparr>"
      have eq: "net' = net" "st' = begin_visit T r (t_init_visit T) v ?s" using assms(1) None Start_Vertex Cons by auto
      have "rank_work ?s + owned_cost (t_size T) D = rank_work st" using Cons by (simp add: rank_work_def todo_of_def bcast_of_def algebra_simps)
      then show ?thesis using begin_visit_work [of ?s "t_init_visit T" r v] None by (simp add: eq)
    qed
  next
    case Drain_Outer
    then show ?thesis using assms(1) None drain_work [of st Test_Inner r] by auto
  next
    case Drain_Inner
    then show ?thesis using assms(1) None drain_work [of st Pop_Top r] by auto
  next
    case Test_Inner
    then have eq: "net' = net" "st' = st\<lparr>at_pc := if is_empty st then Test_Outer else Drain_Inner\<rparr>" using assms(1) None by auto
    have "rank_work st' = rank_work st" unfolding eq by (rule work_cong) simp_all
    moreover have "control st' < control st" unfolding eq using None Test_Inner by (simp add: control_def is_empty_def)
    ultimately show ?thesis using eq by blast
  next
    case Test_Outer
    then have eq: "net' = net" "st' = st\<lparr>at_pc := Start_Controller\<rparr>"
      "start_controllers st \<noteq> [] \<or> start_vertices st \<noteq> [] \<or> \<not> is_empty st" using assms(1) None by (auto split: if_splits)
    have "rank_work st' = rank_work st" unfolding eq by (rule work_cong) simp_all
    moreover have "control st' < control st" unfolding eq(2) using None Test_Outer eq(3) by (simp add: control_def is_empty_def)
    ultimately show ?thesis using eq by blast
  next
    case Pop_Top
    then have k: "k < length (owned st)" using assms(1) None by (auto simp: pop_top_def split: if_splits)
    let ?s = "st\<lparr>owned := take k (owned st) @ drop (Suc k) (owned st), at_pc := Test_Inner\<rparr>"
    have eq: "net' = net" "st' = begin_visit T r (t_visit T) (owned st ! k) ?s"
      using assms(1) None Pop_Top k by (auto simp: pop_top_def)
    obtain xs l where xs: "take k (owned st) @ drop (Suc k) (owned st) = xs" and l: "length xs = l" by simp
    have "length (owned st) = Suc l" using k unfolding l [symmetric] xs [symmetric] by simp
    then have "rank_work ?s + owned_cost (t_size T) D = rank_work st"
      by (simp add: rank_work_def todo_of_def bcast_of_def algebra_simps xs l)
    then show ?thesis using begin_visit_work [of ?s "t_visit T" r "owned st ! k"] None by (simp add: eq)
  next
    case Finished
    then show ?thesis using assms(1) None by simp
  qed
  then show ?thesis ..
next
  case (Some p)
  obtain vs bc where run: "running st = Some (vs, bc)" using Some by (cases p) auto
  show ?thesis
  proof (cases vs)
    case (Cons v ws)
    have "good v" using assms(2) [of v] run Cons by (simp add: todo_of_def)
    moreover have "queue_visitor T r v (st\<lparr>running := Some (ws, bc)\<rparr>, net) = (st', net')" using assms(1) run Cons by auto
    ultimately obtain q where q: "net' = net \<or> net' = net(q := net q @ [(v, False)])"
      "rank_work st' + (if net' = net then 0 else 1) < rank_work st"
      using queue_work run Cons by blast
    then show ?thesis by (cases "net' = net") auto
  next
    case Nil
    show ?thesis
    proof (cases bc)
      case None
      then have "net' = net" "st' = st\<lparr>running := None\<rparr>" using assms(1) run Nil by auto
      then show ?thesis using run Nil None by (simp add: rank_work_def todo_of_def bcast_of_def)
    next
      case (Some v)
      then have "net' = mailbox_bcast (t_size T) r v net" "st' = st\<lparr>running := Some ([], None)\<rparr>" using assms(1) run Nil by auto
      moreover from this(2) have "rank_work st' + bcast_cost (t_size T) D \<le> rank_work st"
        using run Nil Some by (simp add: rank_work_def todo_of_def bcast_of_def)
      ultimately show ?thesis by blast
    qed
  qed
qed

subsection \<open>All steps\<close>

lemma net_send_work: "(\<Sum>q < t_size T. net_work ((net(x := net x @ [(v, False)])) q)) \<le> (\<Sum>q < t_size T. net_work (net q)) + 1"
proof (cases "x < t_size T")
  case True
  then show ?thesis using sum_upd [OF True, of net_work net "net x @ [(v, False)]"] by (simp add: net_work_def)
next
  case False
  then have "(\<Sum>q < t_size T. net_work ((net(x := net x @ [(v, False)])) q)) = (\<Sum>q < t_size T. net_work (net q))"
    by (intro sum.cong) auto
  then show ?thesis by simp
qed

lemma net_bcast_work: "(\<Sum>q < t_size T. net_work (mailbox_bcast (t_size T) r v net q)) < (\<Sum>q < t_size T. net_work (net q)) + bcast_cost (t_size T) D"
proof -
  have "(\<Sum>q < t_size T. net_work (mailbox_bcast (t_size T) r v net q)) \<le> (\<Sum>q < t_size T. net_work (net q) + bcast_msg_cost D)"
    by (intro sum_mono) (simp add: mailbox_bcast_def net_work_def)
  also have "\<dots> = (\<Sum>q < t_size T. net_work (net q)) + t_size T * bcast_msg_cost D" by (simp add: sum.distrib)
  finally show ?thesis by (simp add: bcast_cost_def)
qed

lemma local_step_decreases:
  assumes r: "r < t_size T" and step: "rank_step T r k (ranks r, net) = Some (st, net')"
    and v: "\<And>v. v \<in> set (todo_of (ranks r)) \<Longrightarrow> good v"
  shows "work (ranks(r := st), net') < work (ranks, net)
    \<or> work (ranks(r := st), net') = work (ranks, net) \<and> controls (ranks(r := st), net') < controls (ranks, net)"
proof -
  have W: "work (ranks(r := st), net') + rank_work (ranks r) + (\<Sum>q < t_size T. net_work (net q)) =
      work (ranks, net) + rank_work st + (\<Sum>q < t_size T. net_work (net' q))"
    using sum_upd [OF r, of rank_work ranks st] by (simp add: work_def sum.distrib)
  have C: "controls (ranks(r := st), net') + control (ranks r) = controls (ranks, net) + control st"
    using sum_upd [OF r, of control ranks st] by (simp add: controls_def)
  from rank_step_work [OF step v] consider
      "net' = net" "rank_work st < rank_work (ranks r)"
    | "net' = net" "rank_work st = rank_work (ranks r)" "control st < control (ranks r)"
    | q v where "net' = net(q := net q @ [(v, False)])" "rank_work st + 1 < rank_work (ranks r)"
    | v where "net' = mailbox_bcast (t_size T) r v net" "rank_work st + bcast_cost (t_size T) D \<le> rank_work (ranks r)"
    by blast
  then show ?thesis
  proof cases
    case 1
    then show ?thesis using W by simp
  next
    case 2
    then show ?thesis using W C by simp
  next
    case (3 q v)
    then show ?thesis using W net_send_work [of net q v] by simp
  next
    case (4 v)
    then show ?thesis using W net_bcast_work [of r v net] by simp
  qed
qed

subsection \<open>Exchanges\<close>

definition sound_message :: "'v \<times> bool \<Rightarrow> bool" where
  "sound_message m \<longleftrightarrow> (if snd m then t_delegate T (t_vertex T (fst m)) else good (fst m))"

lemma handle_work:
  assumes "sound_message m" "handle_mailbox_receive T r m st = Some st'"
  shows "rank_work st' < rank_work st + (if snd m then bcast_msg_cost D else 1)"
proof (cases m)
  case (Pair v b)
  show ?thesis
  proof (cases b)
    case True
    then have "st' = st\<lparr>controllers := controllers st @ [v]\<rparr> \<or> st' = st"
      using assms Pair by (auto simp: sound_message_def handle_mailbox_receive_def split: if_splits)
    then show ?thesis using True Pair by (auto simp: rank_work_def todo_of_def bcast_of_def bcast_msg_cost_def)
  next
    case False
    obtain d c where pre: "t_pre_visit T r v (alg_data st) = (d, c)" by fastforce
    have st': "st' = (if c then push v (st\<lparr>alg_data := d\<rparr>) else st\<lparr>alg_data := d\<rparr>)" "t_home T (t_vertex T v) = r"
      using assms(2) pre Pair False by (auto simp: handle_mailbox_receive_def Let_def split: if_splits)
    have "good v" using assms(1) Pair False by (simp add: sound_message_def)
    then show ?thesis using pre_visit_weight [OF pre] st' False Pair
      by (auto simp: rank_work_def todo_of_def bcast_of_def push_def push_cost_def)
  qed
qed

lemma receive_all_work:
  assumes "\<And>m. m \<in> set ms \<Longrightarrow> sound_message m" "receive_all T r ms st = Some st'"
  shows "rank_work st' \<le> rank_work st + net_work ms" "ms \<noteq> [] \<Longrightarrow> rank_work st' < rank_work st + net_work ms"
proof -
  have "rank_work st' + (if ms = [] then 0 else 1) \<le> rank_work st + net_work ms"
    using assms
  proof (induction ms arbitrary: st)
    case (Cons m ms)
    then obtain st1 where 1: "handle_mailbox_receive T r m st = Some st1" "receive_all T r ms st1 = Some st'"
      by (auto simp: bind_eq_Some_conv)
    have "rank_work st1 < rank_work st + (if snd m then bcast_msg_cost D else 1)"
      using handle_work [OF _ 1(1)] Cons.prems(1) [of m] by simp
    moreover have "rank_work st' \<le> rank_work st1 + net_work ms"
      using Cons.IH [OF _ 1(2)] Cons.prems(1) by (auto split: if_splits)
    ultimately show ?case by (simp add: net_work_def)
  qed (simp add: net_work_def)
  then show "rank_work st' \<le> rank_work st + net_work ms" "ms \<noteq> [] \<Longrightarrow> rank_work st' < rank_work st + net_work ms"
    by (auto split: if_splits)
qed

lemma net_work_mset: "mset ms = mset ns \<Longrightarrow> net_work ms = net_work ns"
  unfolding net_work_def sum_mset_sum_list [symmetric] mset_map by simp

lemma step_decreases:
  assumes step: "vq_step T g g'"
    and sound: "\<And>r v. r < t_size T \<Longrightarrow> v \<in> set (todo_of (fst g r)) \<Longrightarrow> good v"
      "\<And>r m. r < t_size T \<Longrightarrow> m \<in> set (snd g r) \<Longrightarrow> sound_message m"
  shows "work g' < work g \<or> work g' = work g \<and> controls g' < controls g"
  using step
proof cases
  case (local_step r k ranks net st net')
  then show ?thesis using local_step_decreases [of r k ranks net st net'] sound(1) by simp
next
  case (exchange_step ranks net arrival ranks')
  let ?q = "net_empty (t_size T) net"
  have setarr: "set (arrival r) = set (net r)" if "r < t_size T" for r using exchange_step(4) [OF that] by (metis mset_eq_setD)
  have nw: "net_work (arrival r) = net_work (net r)" if "r < t_size T" for r
    using exchange_step(4) [OF that] by (rule net_work_mset)
  have addr: "sound_message m" if "r < t_size T" "m \<in> set (arrival r)" for r m
    using sound(2) [of r m] that setarr exchange_step(1) by simp
  have leave: "rank_work (leave_exchange ?q st) = rank_work st" for st
    by (cases "running st") (auto simp: leave_exchange_def intro: work_cong)
  have W: "work g' = (\<Sum>r < t_size T. rank_work (ranks' r))"
    unfolding work_def exchange_step(2) by (intro sum.cong) (auto simp: leave net_work_def)
  have le: "rank_work (ranks' r) \<le> rank_work (ranks r) + net_work (net r)" if "r < t_size T" for r
    using receive_all_work(1) [OF addr exchange_step(5)] that nw by fastforce
  show ?thesis
  proof (cases ?q)
    case False
    then obtain x where x: "x < t_size T" "net x \<noteq> []" by (auto simp: net_empty_def)
    have "arrival x \<noteq> []" using setarr [OF x(1)] x(2) by auto
    then have "rank_work (ranks' x) < rank_work (ranks x) + net_work (net x)"
      using receive_all_work(2) [OF addr exchange_step(5)] x nw by fastforce
    then have "(\<Sum>r < t_size T. rank_work (ranks' r)) < (\<Sum>r < t_size T. rank_work (ranks r) + net_work (net r))"
      by (intro sum_strict_mono_ex1) (use le x in auto)
    then show ?thesis unfolding W by (simp add: work_def exchange_step(1))
  next
    case True
    have g: "in_global_empty (ranks r)" if "r < t_size T" for r
      using exchange_step(3) True that by (auto simp: can_exchange_def)
    have same: "ranks' r = ranks r" if "r < t_size T" for r
    proof -
      have "arrival r = []" using exchange_step(4) [OF that] True that by (simp add: net_empty_def)
      then show ?thesis using exchange_step(5) [OF that] by simp
    qed
    have "work g' = work g" unfolding W
      unfolding work_def exchange_step(1) using True same by (intro sum.cong) (auto simp: net_work_def net_empty_def)
    moreover have "controls g' < controls g"
    proof -
      have P: "0 < t_size T" using home_exists by (metis not_gr_zero not_less_zero)
      have "control (fst g' r) = 0 \<and> control (ranks r) = 1" if "r < t_size T" for r
        using g [OF that] that True same [OF that]
        by (simp add: exchange_step(2) control_def leave_exchange_def in_global_empty_def is_empty_def)
      then have "controls g' = 0" "controls g = t_size T" by (simp_all add: controls_def exchange_step(1))
      then show ?thesis using P by simp
    qed
    ultimately show ?thesis by simp
  qed
qed

end

end
