(* ===== verification/Traversal.thy ===== *)
theory Traversal
  imports Visitor_Weights
begin

section \<open>Relaxing traversals\<close>

text \<open>
  Breadth-first search, shortest paths and connected components share one shape: every vertex has a
  value, \<open>pre_visit\<close> accepts a visitor exactly when its key lowers the value, and \<open>visit\<close> offers new
  keys along the edges stored at the rank.  The locale states this contract; its theorems hold for all
  reachable states, so for every schedule, every container and every distribution of the edges of the
  delegates.  At the end the values are closed under the edges (nothing was lost) and every value is one
  the algorithm can justify (nothing was invented).
\<close>

subsection \<open>Looking into a state\<close>

definition unicast_to :: "'v net \<Rightarrow> nat \<Rightarrow> 'v set" where
  "unicast_to net r = {v. (v, False) \<in> set (net r)}"

definition bcast_to_rank :: "'v net \<Rightarrow> nat \<Rightarrow> 'v set" where
  "bcast_to_rank net r = {v. (v, True) \<in> set (net r)}"

definition start_of :: "('v, 'd) vq \<Rightarrow> 'v set" where
  "start_of st = set (start_controllers st) \<union> set (start_vertices st)"

locale relaxing =
  fixes T :: "('n, 'v, 'd) traversal" and key :: "'v \<Rightarrow> 'k :: linorder" and val :: "'d \<Rightarrow> 'n \<Rightarrow> 'k"
    and ok :: "'n \<Rightarrow> bool" and out :: "nat \<Rightarrow> 'v \<Rightarrow> 'v list" and offers :: "nat \<Rightarrow> 'n \<Rightarrow> 'k \<Rightarrow> ('n \<times> 'k) set"
  assumes home_less: "t_home T n < t_size T"
    and pre_visit: "t_pre_visit T r v d = (d', b) \<Longrightarrow>
      b = (ok (t_vertex T v) \<and> key v < val d (t_vertex T v)) \<and>
      val d' n = (if b \<and> n = t_vertex T v then key v else val d n)"
    and visit: "t_visit T r v d = (d', new, ret) \<Longrightarrow>
      ret = (ok (t_vertex T v) \<and> key v \<le> val d (t_vertex T v)) \<and> new = (if ret then out r v else []) \<and>
      (val d' n = val d n \<or> ret \<and> n = t_vertex T v \<and> val d' n = key v)"
    and init_visit: "t_init_visit T r v d = (d', new, ret) \<Longrightarrow>
      ret = (ok (t_vertex T v) \<and> key v \<le> val d (t_vertex T v)) \<and> new = (if ret then out r v else []) \<and>
      (val d' n = val d n \<or> ret \<and> n = t_vertex T v \<and> val d' n = key v)"
    and out: "(\<lambda>v. (t_vertex T v, key v)) ` set (out r v) = offers r (t_vertex T v) (key v)"
begin

abbreviation "vx \<equiv> t_vertex T"
abbreviation "home \<equiv> t_home T"
abbreviation "P \<equiv> t_size T"

definition pair :: "'v \<Rightarrow> 'n \<times> 'k" where
  "pair v = (vx v, key v)"

text \<open>The value of a vertex is the one its home rank keeps.\<close>

definition value_of :: "(nat \<Rightarrow> ('v, 'd) vq) \<Rightarrow> 'n \<Rightarrow> 'k" where
  "value_of ranks n = val (alg_data (ranks (home n))) n"

text \<open>The value is at most \<open>k\<close>, or a message that will make it so is on its way.\<close>

definition lowered :: "(nat \<Rightarrow> ('v, 'd) vq) \<Rightarrow> 'v net \<Rightarrow> 'n \<Rightarrow> 'k \<Rightarrow> bool" where
  "lowered ranks net n k \<longleftrightarrow> value_of ranks n \<le> k \<or> (\<exists>v \<in> unicast_to net (home n). vx v = n \<and> key v \<le> k)"

text \<open>Why an offer \<open>(w, k)\<close> of vertex \<open>u\<close> at rank \<open>r\<close> is not lost.\<close>

definition pending :: "(nat \<Rightarrow> ('v, 'd) vq) \<Rightarrow> 'v net \<Rightarrow> nat \<Rightarrow> 'n \<Rightarrow> bool" where
  "pending ranks net r u \<longleftrightarrow>
     (let l = value_of ranks u; st = ranks (home u) in
      (u, l) \<in> pair ` set (owned st) \<or> (u, l) \<in> pair ` start_of st
      \<or> r \<noteq> home u \<and> ((u, l) \<in> pair ` set (bcast_of st) \<or> (u, l) \<in> pair ` bcast_to_rank net r
                       \<or> (u, l) \<in> pair ` set (controllers (ranks r)))
      \<or> (\<exists>v \<in> unicast_to net (home u). vx v = u \<and> key v < l))"

definition settled :: "(nat \<Rightarrow> ('v, 'd) vq) \<Rightarrow> 'v net \<Rightarrow> nat \<Rightarrow> 'n \<times> 'k \<Rightarrow> bool" where
  "settled ranks net r wk \<longleftrightarrow> wk \<in> pair ` set (todo_of (ranks r)) \<or> lowered ranks net (fst wk) (snd wk)"

text \<open>A rank that stores edges of \<open>u\<close>.\<close>

definition stores :: "nat \<Rightarrow> 'n \<Rightarrow> bool" where
  "stores r u \<longleftrightarrow> r < P \<and> (r = home u \<or> t_delegate T u)"

text \<open>Everything is where it may be.\<close>

definition placed :: "(nat \<Rightarrow> ('v, 'd) vq) \<times> 'v net \<Rightarrow> bool" where
  "placed g \<longleftrightarrow> (let (ranks, net) = g in \<forall>r < P.
     (\<forall>v \<in> set (owned (ranks r)) \<union> start_of (ranks r). home (vx v) = r \<and> value_of ranks (vx v) \<le> key v) \<and>
     (\<forall>v \<in> set (controllers (ranks r)). t_delegate T (vx v) \<and> home (vx v) \<noteq> r \<and> ok (vx v) \<and> value_of ranks (vx v) \<le> key v) \<and>
     (\<forall>v \<in> set (bcast_of (ranks r)). t_delegate T (vx v) \<and> home (vx v) = r \<and> ok (vx v) \<and> value_of ranks (vx v) \<le> key v) \<and>
     (\<forall>v \<in> bcast_to_rank net r. t_delegate T (vx v) \<and> home (vx v) \<noteq> r \<and> ok (vx v) \<and> value_of ranks (vx v) \<le> key v) \<and>
     (\<forall>v \<in> unicast_to net r. home (vx v) = r))"

text \<open>The copy of a delegate's value that another rank keeps is never ahead of its home.\<close>

definition copies_ok :: "(nat \<Rightarrow> ('v, 'd) vq) \<times> 'v net \<Rightarrow> bool" where
  "copies_ok g \<longleftrightarrow> (let (ranks, net) = g in \<forall>r < P. \<forall>n. ok n \<and> t_delegate T n \<longrightarrow>
     lowered ranks net n (val (alg_data (ranks r)) n))"

text \<open>
  No offer of a vertex is lost once its value has moved from the initial one, or if it is among the
  vertices \<open>fst S\<close> the traversal starts from; nor are the offers \<open>snd S\<close> made by the start itself.
\<close>

definition complete :: "('n \<Rightarrow> 'k) \<Rightarrow> 'n set \<times> (nat \<times> 'n \<times> 'k) set \<Rightarrow> (nat \<Rightarrow> ('v, 'd) vq) \<times> 'v net \<Rightarrow> bool" where
  "complete init S g \<longleftrightarrow> (let (ranks, net) = g in
     (\<forall>u r. ok u \<and> stores r u \<and> (value_of ranks u < init u \<or> u \<in> fst S) \<longrightarrow>
       pending ranks net r u \<or> (\<forall>wk \<in> offers r u (value_of ranks u). ok (fst wk) \<longrightarrow> settled ranks net r wk))
     \<and> (\<forall>r wk. (r, wk) \<in> snd S \<and> r < P \<and> ok (fst wk) \<longrightarrow> settled ranks net r wk))"

definition trav_inv :: "('n \<Rightarrow> 'k) \<Rightarrow> 'n set \<times> (nat \<times> 'n \<times> 'k) set \<Rightarrow> (nat \<Rightarrow> ('v, 'd) vq) \<times> 'v net \<Rightarrow> bool" where
  "trav_inv init S g \<longleftrightarrow> placed g \<and> copies_ok g \<and> complete init S g \<and> (\<forall>n. value_of (fst g) n \<le> init n)"

subsection \<open>Small facts\<close>

lemma value_of_upd: "value_of (ranks(r := st)) n = (if home n = r then val (alg_data st) n else value_of ranks n)"
  by (simp add: value_of_def)

lemma lowered_mono: "lowered ranks net n k \<Longrightarrow> k \<le> k' \<Longrightarrow> lowered ranks net n k'"
  by (auto simp: lowered_def intro: order_trans)

lemma lowered_ext:
  assumes "lowered ranks net n k" "value_of ranks' n \<le> value_of ranks n"
    "unicast_to net (home n) \<subseteq> unicast_to net' (home n)"
  shows "lowered ranks' net' n k"
  using assms by (auto simp: lowered_def intro: order_trans)

lemma pair_image_mono: "x \<in> pair ` A \<Longrightarrow> A \<subseteq> B \<Longrightarrow> x \<in> pair ` B"
  by blast

text \<open>Only these parts of the state matter.\<close>

lemma trav_inv_cong:
  assumes "\<And>q. alg_data (ranks' q) = alg_data (ranks q)" "\<And>q. owned (ranks' q) = owned (ranks q)"
    "\<And>q. controllers (ranks' q) = controllers (ranks q)" "\<And>q. todo_of (ranks' q) = todo_of (ranks q)"
    "\<And>q. bcast_of (ranks' q) = bcast_of (ranks q)" "\<And>q. start_of (ranks' q) = start_of (ranks q)"
  shows "trav_inv init S (ranks', net) = trav_inv init S (ranks, net)"
  using assms
  by (simp add: trav_inv_def placed_def copies_ok_def complete_def pending_def settled_def lowered_def value_of_def Let_def)

lemma placedI:
  assumes "\<And>r v. r < P \<Longrightarrow> v \<in> set (owned (ranks r)) \<union> start_of (ranks r) \<Longrightarrow> home (vx v) = r \<and> value_of ranks (vx v) \<le> key v"
    "\<And>r v. r < P \<Longrightarrow> v \<in> set (controllers (ranks r)) \<Longrightarrow> t_delegate T (vx v) \<and> home (vx v) \<noteq> r \<and> ok (vx v) \<and> value_of ranks (vx v) \<le> key v"
    "\<And>r v. r < P \<Longrightarrow> v \<in> set (bcast_of (ranks r)) \<Longrightarrow> t_delegate T (vx v) \<and> home (vx v) = r \<and> ok (vx v) \<and> value_of ranks (vx v) \<le> key v"
    "\<And>r v. r < P \<Longrightarrow> v \<in> bcast_to_rank net r \<Longrightarrow> t_delegate T (vx v) \<and> home (vx v) \<noteq> r \<and> ok (vx v) \<and> value_of ranks (vx v) \<le> key v"
    "\<And>r v. r < P \<Longrightarrow> v \<in> unicast_to net r \<Longrightarrow> home (vx v) = r"
  shows "placed (ranks, net)"
  unfolding placed_def using assms by fastforce

lemma placedD:
  assumes "placed (ranks, net)" "r < P"
  shows "\<And>v. v \<in> set (owned (ranks r)) \<Longrightarrow> home (vx v) = r \<and> value_of ranks (vx v) \<le> key v"
    "\<And>v. v \<in> start_of (ranks r) \<Longrightarrow> home (vx v) = r \<and> value_of ranks (vx v) \<le> key v"
    "\<And>v. v \<in> set (controllers (ranks r)) \<Longrightarrow> t_delegate T (vx v) \<and> home (vx v) \<noteq> r \<and> ok (vx v) \<and> value_of ranks (vx v) \<le> key v"
    "\<And>v. v \<in> set (bcast_of (ranks r)) \<Longrightarrow> t_delegate T (vx v) \<and> home (vx v) = r \<and> ok (vx v) \<and> value_of ranks (vx v) \<le> key v"
    "\<And>v. v \<in> bcast_to_rank net r \<Longrightarrow> t_delegate T (vx v) \<and> home (vx v) \<noteq> r \<and> ok (vx v) \<and> value_of ranks (vx v) \<le> key v"
    "\<And>v. v \<in> unicast_to net r \<Longrightarrow> home (vx v) = r"
  using assms unfolding placed_def by auto

text \<open>What a step has to show for \<open>complete\<close>.\<close>

lemma complete_ext:
  assumes "complete init S (ranks, net)"
    "\<And>u r. ok u \<Longrightarrow> stores r u \<Longrightarrow> value_of ranks' u = value_of ranks u \<Longrightarrow> pending ranks net r u \<Longrightarrow>
      pending ranks' net' r u \<or> (\<forall>wk \<in> offers r u (value_of ranks u). ok (fst wk) \<longrightarrow> settled ranks' net' r wk)"
    "\<And>r wk. r < P \<Longrightarrow> ok (fst wk) \<Longrightarrow> settled ranks net r wk \<Longrightarrow> settled ranks' net' r wk"
    "\<And>u r. ok u \<Longrightarrow> stores r u \<Longrightarrow> value_of ranks' u \<noteq> value_of ranks u \<Longrightarrow> pending ranks' net' r u"
  shows "complete init S (ranks', net')"
  unfolding complete_def Let_def prod.case
proof (intro conjI allI impI)
  fix u r assume u: "ok u \<and> stores r u \<and> (value_of ranks' u < init u \<or> u \<in> fst S)"
  show "pending ranks' net' r u \<or> (\<forall>wk \<in> offers r u (value_of ranks' u). ok (fst wk) \<longrightarrow> settled ranks' net' r wk)"
  proof (cases "value_of ranks' u = value_of ranks u")
    case True
    then have "pending ranks net r u \<or> (\<forall>wk \<in> offers r u (value_of ranks u). ok (fst wk) \<longrightarrow> settled ranks net r wk)"
      using assms(1) u unfolding complete_def by auto
    moreover have "r < P" using u by (simp add: stores_def)
    ultimately show ?thesis using assms(2) [of u r] assms(3) [of r] True u by metis
  next
    case False
    then show ?thesis using assms(4) u by blast
  qed
next
  fix r wk assume "(r, wk) \<in> snd S \<and> r < P \<and> ok (fst wk)"
  then show "settled ranks' net' r wk" using assms(1) assms(3) [of r wk] by (cases wk) (auto simp: complete_def)
qed

subsection \<open>Sending the broadcast at the end of a visit\<close>

lemma bcast_step_inv:
  assumes "trav_inv init S (ranks, net)" "r < P" "running (ranks r) = Some ([], Some v)"
  shows "trav_inv init S (ranks(r := (ranks r)\<lparr>running := Some ([], None)\<rparr>), mailbox_bcast P r v net)"
proof -
  let ?ranks = "ranks(r := (ranks r)\<lparr>running := Some ([], None)\<rparr>)" and ?net = "mailbox_bcast P r v net"
  have parts: "alg_data (?ranks q) = alg_data (ranks q)" "owned (?ranks q) = owned (ranks q)"
    "controllers (?ranks q) = controllers (ranks q)" "start_of (?ranks q) = start_of (ranks q)"
    "todo_of (?ranks q) = todo_of (ranks q)" for q
    using assms(3) by (simp_all add: start_of_def todo_of_def)
  have L: "value_of ?ranks = value_of ranks" by (simp add: value_of_def fun_eq_iff)
  have bc: "bcast_of (ranks r) = [v]" "bcast_of (?ranks r) = []" "q \<noteq> r \<Longrightarrow> bcast_of (?ranks q) = bcast_of (ranks q)" for q
    using assms(3) by (simp_all add: bcast_of_def)
  have uni: "unicast_to ?net = unicast_to net" by (auto simp: unicast_to_def mailbox_bcast_def fun_eq_iff)
  have bnet: "bcast_to_rank ?net q = (if q < P \<and> q \<noteq> r then insert v (bcast_to_rank net q) else bcast_to_rank net q)" for q
    by (auto simp: bcast_to_rank_def mailbox_bcast_def)
  have placed: "placed (ranks, net)" using assms(1) by (simp add: trav_inv_def)
  have v: "t_delegate T (vx v)" "home (vx v) = r" "ok (vx v)" "value_of ranks (vx v) \<le> key v"
    using placedD(4) [OF placed assms(2)] bc by auto
  have low: "lowered ?ranks ?net = lowered ranks net" by (simp add: lowered_def L uni fun_eq_iff)
  have "placed (?ranks, ?net)"
  proof (rule placedI)
    fix q w assume q: "q < P"
    note D = placedD [OF placed q]
    show "w \<in> set (owned (?ranks q)) \<union> start_of (?ranks q) \<Longrightarrow> home (vx w) = q \<and> value_of ?ranks (vx w) \<le> key w"
      using D(1,2) unfolding parts L by blast
    show "w \<in> set (controllers (?ranks q)) \<Longrightarrow> t_delegate T (vx w) \<and> home (vx w) \<noteq> q \<and> ok (vx w) \<and> value_of ?ranks (vx w) \<le> key w"
      using D(3) unfolding parts L by blast
    show "w \<in> set (bcast_of (?ranks q)) \<Longrightarrow> t_delegate T (vx w) \<and> home (vx w) = q \<and> ok (vx w) \<and> value_of ?ranks (vx w) \<le> key w"
      using D(4) bc(2) bc(3) [of q] unfolding L by (cases "q = r") simp_all
    show "w \<in> bcast_to_rank ?net q \<Longrightarrow> t_delegate T (vx w) \<and> home (vx w) \<noteq> q \<and> ok (vx w) \<and> value_of ?ranks (vx w) \<le> key w"
      using D(5) v unfolding L bnet by (auto split: if_splits)
    show "w \<in> unicast_to ?net q \<Longrightarrow> home (vx w) = q" using D(6) unfolding uni by blast
  qed
  moreover have "copies_ok (?ranks, ?net)"
    using assms(1) unfolding trav_inv_def copies_ok_def by (simp add: low parts(1) del: fun_upd_apply)
  moreover have "complete init S (?ranks, ?net)"
  proof (rule complete_ext)
    show "complete init S (ranks, net)" using assms(1) by (simp add: trav_inv_def)
    fix u q assume "stores q u" "pending ranks net q u"
    then have "pending ?ranks ?net q u"
      using v(2) unfolding pending_def L uni parts bnet Let_def
      by (cases "home u = r") (auto simp: bc stores_def simp del: fun_upd_apply)
    then show "pending ?ranks ?net q u \<or> (\<forall>wk \<in> offers q u (value_of ranks u). ok (fst wk) \<longrightarrow> settled ?ranks ?net q wk)" ..
  next
    show "\<And>q wk. settled ranks net q wk \<Longrightarrow> settled ?ranks ?net q wk"
      by (simp add: settled_def low parts del: fun_upd_apply)
  qed (simp add: L)
  ultimately show ?thesis using assms(1) by (simp add: trav_inv_def L del: fun_upd_apply)
qed

subsection \<open>Beginning a visit at the home rank\<close>

lemma visit_step_inv:
  assumes inv: "trav_inv init S (ranks, net)" and r: "r < P" and idle: "running (ranks r) = None"
    and v: "home (vx v) = r" "value_of ranks (vx v) \<le> key v"
    and law: "ret = (ok (vx v) \<and> key v \<le> val (alg_data (ranks r)) (vx v))" "new = (if ret then out r v else [])"
      "\<And>n. val d' n = val (alg_data (ranks r)) n \<or> ret \<and> n = vx v \<and> val d' n = key v"
    and st: "alg_data st = d'" "controllers st = controllers (ranks r)"
      "running st = Some (new, if ret \<and> t_delegate T (vx v) \<and> home (vx v) = r then Some v else None)"
      "set (owned st) \<subseteq> set (owned (ranks r))" "set (owned (ranks r)) \<subseteq> insert v (set (owned st))"
      "start_of st \<subseteq> start_of (ranks r)" "start_of (ranks r) \<subseteq> insert v (start_of st)"
  shows "trav_inv init S (ranks(r := st), net)"
proof -
  let ?ranks = "ranks(r := st)"
  have same: "val d' n = val (alg_data (ranks r)) n" for n
    using law(1) law(3) [of n] v unfolding value_of_def by fastforce
  have val: "val (alg_data (?ranks q)) n = val (alg_data (ranks q)) n" for q n using same st(1) by simp
  have L: "value_of ?ranks = value_of ranks" by (simp add: value_of_def val fun_eq_iff del: fun_upd_apply)
  have low: "lowered ?ranks net = lowered ranks net" by (simp add: lowered_def L fun_eq_iff)
  have todo: "todo_of (?ranks q) = (if q = r then new else todo_of (ranks q))" "todo_of (ranks r) = []" for q
    using idle st(3) by (simp_all add: todo_of_def)
  have bc: "bcast_of (?ranks q) = (if q = r then if ret \<and> t_delegate T (vx v) then [v] else [] else bcast_of (ranks q))"
    "bcast_of (ranks r) = []" for q
    using idle st(3) v(1) by (simp_all add: bcast_of_def)
  have ctrl: "controllers (?ranks q) = controllers (ranks q)" for q using st(2) by simp
  have placed: "placed (ranks, net)" using inv by (simp add: trav_inv_def)
  have "placed (?ranks, net)"
  proof (rule placedI)
    fix q w assume q: "q < P"
    note D = placedD [OF placed q]
    show "w \<in> set (owned (?ranks q)) \<union> start_of (?ranks q) \<Longrightarrow> home (vx w) = q \<and> value_of ?ranks (vx w) \<le> key w"
      using D(1,2) st(4,6) unfolding L by (cases "q = r") auto
    show "w \<in> set (controllers (?ranks q)) \<Longrightarrow> t_delegate T (vx w) \<and> home (vx w) \<noteq> q \<and> ok (vx w) \<and> value_of ?ranks (vx w) \<le> key w"
      using D(3) unfolding ctrl L by blast
    show "w \<in> set (bcast_of (?ranks q)) \<Longrightarrow> t_delegate T (vx w) \<and> home (vx w) = q \<and> ok (vx w) \<and> value_of ?ranks (vx w) \<le> key w"
      using D(4) v law(1) unfolding L bc(1) by (auto split: if_splits)
    show "w \<in> bcast_to_rank net q \<Longrightarrow> t_delegate T (vx w) \<and> home (vx w) \<noteq> q \<and> ok (vx w) \<and> value_of ?ranks (vx w) \<le> key w"
      using D(5) unfolding L by blast
    show "w \<in> unicast_to net q \<Longrightarrow> home (vx w) = q" using D(6) by blast
  qed
  moreover have "copies_ok (?ranks, net)"
    using inv unfolding trav_inv_def copies_ok_def by (simp add: low val del: fun_upd_apply)
  moreover have "complete init S (?ranks, net)"
  proof (rule complete_ext)
    show "complete init S (ranks, net)" using inv by (simp add: trav_inv_def)
    fix u q assume u: "ok u" "stores q u" "pending ranks net q u"
    show "pending ?ranks net q u \<or> (\<forall>wk \<in> offers q u (value_of ranks u). ok (fst wk) \<longrightarrow> settled ?ranks net q wk)"
    proof (cases "home u = r \<and> pair v = (u, value_of ranks u)")
      case True
      then have vu: "vx v = u" "key v = value_of ranks u" by (auto simp: pair_def)
      then have ret using law(1) u(1) True by (simp add: value_of_def)
      show ?thesis
      proof (cases "q = r")
        case True
        have "pair ` set new = offers r u (value_of ranks u)"
          using out [of r v] \<open>ret\<close> law(2) vu by (simp add: pair_def)
        then show ?thesis using True by (simp add: settled_def todo(1) del: fun_upd_apply)
      next
        case False
        then have "t_delegate T (vx v)" using u(2) True vu by (simp add: stores_def)
        then have "(u, value_of ranks u) \<in> pair ` set (bcast_of (?ranks (home u)))"
          using \<open>ret\<close> True bc(1) [of r] by (auto simp: pair_def)
        then show ?thesis using False True unfolding pending_def L Let_def by blast
      qed
    next
      case False
      have "pending ?ranks net q u"
      proof (cases "home u = r")
        case True
        then have "pair v \<noteq> (u, value_of ranks u)" using False by blast
        moreover have "(u, value_of ranks u) \<in> pair ` set (owned (ranks r)) \<Longrightarrow> pair v \<noteq> (u, value_of ranks u) \<Longrightarrow>
            (u, value_of ranks u) \<in> pair ` set (owned st)" using st(5) by auto
        moreover have "(u, value_of ranks u) \<in> pair ` start_of (ranks r) \<Longrightarrow> pair v \<noteq> (u, value_of ranks u) \<Longrightarrow>
            (u, value_of ranks u) \<in> pair ` start_of st" using st(7) by auto
        ultimately show ?thesis
          using u(3) True unfolding pending_def L Let_def ctrl by (simp add: bc(2)) blast
      next
        case other: False
        then show ?thesis using u(3) unfolding pending_def L Let_def ctrl by simp
      qed
      then show ?thesis ..
    qed
  next
    show "\<And>q wk. settled ranks net q wk \<Longrightarrow> settled ?ranks net q wk"
      by (auto simp: settled_def low todo simp del: fun_upd_apply)
  qed (simp add: L)
  ultimately show ?thesis using inv by (simp add: trav_inv_def L del: fun_upd_apply)
qed

subsection \<open>Beginning the visit of a controller\<close>

lemma controller_step_inv:
  assumes inv: "trav_inv init S (ranks, net)" and r: "r < P" and idle: "running (ranks r) = None"
    and cs: "controllers (ranks r) = v # vs"
    and law: "ret = (ok (vx v) \<and> key v \<le> val (alg_data (ranks r)) (vx v))" "new = (if ret then out r v else [])"
      "\<And>n. val d' n = val (alg_data (ranks r)) n \<or> ret \<and> n = vx v \<and> val d' n = key v"
    and st: "alg_data st = d'" "controllers st = vs" "running st = Some (new, None)"
      "owned st = owned (ranks r)" "start_of st = start_of (ranks r)"
  shows "trav_inv init S (ranks(r := st), net)"
proof -
  let ?ranks = "ranks(r := st)"
  have placed: "placed (ranks, net)" using inv by (simp add: trav_inv_def)
  have v: "t_delegate T (vx v)" "home (vx v) \<noteq> r" "ok (vx v)" "value_of ranks (vx v) \<le> key v"
    using placedD(3) [OF placed r] cs by auto
  have L: "value_of ?ranks = value_of ranks"
    using law(3) v(2) st(1) by (fastforce simp: value_of_def fun_eq_iff)
  have low: "lowered ?ranks net = lowered ranks net" by (simp add: lowered_def L fun_eq_iff)
  have todo: "todo_of (?ranks q) = (if q = r then new else todo_of (ranks q))" "todo_of (ranks r) = []" for q
    using idle st(3) by (simp_all add: todo_of_def)
  have bc: "bcast_of (?ranks q) = bcast_of (ranks q)" for q
    using idle st(3) by (simp add: bcast_of_def)
  have own: "owned (?ranks q) = owned (ranks q)" "start_of (?ranks q) = start_of (ranks q)" for q using st by simp_all
  have ctrl: "set (controllers (?ranks q)) \<subseteq> set (controllers (ranks q))" for q using st cs by auto
  have "placed (?ranks, net)"
  proof (rule placedI)
    fix q w assume q: "q < P"
    note D = placedD [OF placed q]
    show "w \<in> set (owned (?ranks q)) \<union> start_of (?ranks q) \<Longrightarrow> home (vx w) = q \<and> value_of ?ranks (vx w) \<le> key w"
      using D(1,2) unfolding L own by blast
    show "w \<in> set (controllers (?ranks q)) \<Longrightarrow> t_delegate T (vx w) \<and> home (vx w) \<noteq> q \<and> ok (vx w) \<and> value_of ?ranks (vx w) \<le> key w"
      using D(3) ctrl unfolding L by blast
    show "w \<in> set (bcast_of (?ranks q)) \<Longrightarrow> t_delegate T (vx w) \<and> home (vx w) = q \<and> ok (vx w) \<and> value_of ?ranks (vx w) \<le> key w"
      using D(4) unfolding L bc by blast
    show "w \<in> bcast_to_rank net q \<Longrightarrow> t_delegate T (vx w) \<and> home (vx w) \<noteq> q \<and> ok (vx w) \<and> value_of ?ranks (vx w) \<le> key w"
      using D(5) unfolding L by blast
    show "w \<in> unicast_to net q \<Longrightarrow> home (vx w) = q" using D(6) by blast
  qed
  moreover have "copies_ok (?ranks, net)"
    unfolding copies_ok_def Let_def prod.case low
  proof (intro allI impI)
    fix q n assume "q < P" "ok n \<and> t_delegate T n"
    then have old: "lowered ranks net n (val (alg_data (ranks q)) n)"
      using inv by (simp add: trav_inv_def copies_ok_def)
    show "lowered ranks net n (val (alg_data (?ranks q)) n)"
    proof (cases "q = r \<and> n = vx v \<and> val d' n = key v")
      case True
      then show ?thesis using v(4) st(1) by (auto simp: lowered_def)
    next
      case False
      then show ?thesis using old law(3) [of n] st(1) by auto
    qed
  qed
  moreover have "complete init S (?ranks, net)"
  proof (rule complete_ext)
    show "complete init S (ranks, net)" using inv by (simp add: trav_inv_def)
    fix u q assume u: "ok u" "stores q u" "pending ranks net q u"
    show "pending ?ranks net q u \<or> (\<forall>wk \<in> offers q u (value_of ranks u). ok (fst wk) \<longrightarrow> settled ?ranks net q wk)"
    proof (cases "q = r \<and> pair v = (u, value_of ranks u)")
      case True
      then have vu: "vx v = u" "key v = value_of ranks u" by (auto simp: pair_def)
      show ?thesis
      proof (cases ret)
        case ret: True
        have "pair ` set new = offers r u (value_of ranks u)"
          using out [of r v] ret law(2) vu by (simp add: pair_def)
        then show ?thesis using True by (simp add: settled_def todo(1) del: fun_upd_apply)
      next
        case False
        then have lt: "val (alg_data (ranks r)) u < value_of ranks u" using law(1) v(3) vu by auto
        have "lowered ranks net u (val (alg_data (ranks r)) u)"
          using inv r v(1,3) vu by (simp add: trav_inv_def copies_ok_def)
        then have "\<exists>w \<in> unicast_to net (home u). vx w = u \<and> key w < value_of ranks u"
          using lt by (auto simp: lowered_def)
        then show ?thesis unfolding pending_def L Let_def by blast
      qed
    next
      case False
      then have "(u, value_of ranks u) \<in> pair ` set (controllers (ranks q)) \<Longrightarrow>
          (u, value_of ranks u) \<in> pair ` set (controllers (?ranks q))" using cs st(2) by auto
      then show ?thesis using u(3) unfolding pending_def L Let_def own bc by blast
    qed
  next
    show "\<And>q wk. settled ranks net q wk \<Longrightarrow> settled ?ranks net q wk"
      by (auto simp: settled_def low todo simp del: fun_upd_apply)
  qed (simp add: L)
  ultimately show ?thesis using inv by (simp add: trav_inv_def L del: fun_upd_apply)
qed

subsection \<open>Queueing a visitor\<close>

text \<open>The visitor is dropped because the value is low enough, or because its vertex takes no part.\<close>

lemma drop_step_inv:
  assumes inv: "trav_inv init S (ranks, net)" and r: "r < P"
    and run: "running (ranks r) = Some (v # vs, bc)"
    and dropped: "ok (vx v) \<Longrightarrow> lowered ranks net (vx v) (key v)"
    and st: "val (alg_data st) = val (alg_data (ranks r))" "controllers st = controllers (ranks r)"
      "running st = Some (vs, bc)" "owned st = owned (ranks r)" "start_of st = start_of (ranks r)"
  shows "trav_inv init S (ranks(r := st), net)"
proof -
  let ?ranks = "ranks(r := st)"
  have parts: "val (alg_data (?ranks q)) = val (alg_data (ranks q))" "owned (?ranks q) = owned (ranks q)"
    "controllers (?ranks q) = controllers (ranks q)" "start_of (?ranks q) = start_of (ranks q)"
    "bcast_of (?ranks q) = bcast_of (ranks q)" for q
    using st run by (simp_all add: bcast_of_def split: option.splits)
  have L: "value_of ?ranks = value_of ranks" by (simp add: value_of_def parts(1) fun_eq_iff del: fun_upd_apply)
  have low: "lowered ?ranks net = lowered ranks net" by (simp add: lowered_def L fun_eq_iff)
  have pend: "pending ?ranks net = pending ranks net" unfolding pending_def L parts Let_def by (simp add: fun_eq_iff)
  have "placed (?ranks, net)" using inv unfolding trav_inv_def placed_def by (simp add: L parts del: fun_upd_apply)
  moreover have "copies_ok (?ranks, net)"
    using inv unfolding trav_inv_def copies_ok_def by (simp add: low parts(1) del: fun_upd_apply)
  moreover have "complete init S (?ranks, net)"
  proof (rule complete_ext)
    show "complete init S (ranks, net)" using inv by (simp add: trav_inv_def)
    fix q wk assume wk: "ok (fst wk)" "settled ranks net q wk"
    show "settled ?ranks net q wk"
    proof (cases "wk \<in> pair ` set (todo_of (ranks q))")
      case True
      show ?thesis
      proof (cases "wk = pair v")
        case True
        then show ?thesis using dropped wk(1) by (simp add: settled_def low pair_def)
      next
        case False
        then show ?thesis using True run st(3) by (auto simp: settled_def todo_of_def)
      qed
    next
      case False
      then show ?thesis using wk(2) by (simp add: settled_def low)
    qed
  qed (simp_all add: L pend)
  ultimately show ?thesis using inv by (simp add: trav_inv_def L del: fun_upd_apply)
qed

text \<open>The visitor lowers the value at its home and is pushed.\<close>

lemma push_step_inv:
  assumes inv: "trav_inv init S (ranks, net)" and r: "r < P"
    and run: "running (ranks r) = Some (v # vs, bc)" and v: "home (vx v) = r" "ok (vx v)" "key v < value_of ranks (vx v)"
    and st: "\<And>n. val (alg_data st) n = (if n = vx v then key v else val (alg_data (ranks r)) n)"
      "controllers st = controllers (ranks r)" "running st = Some (vs, bc)" "owned st = owned (ranks r) @ [v]"
      "start_of st = start_of (ranks r)"
  shows "trav_inv init S (ranks(r := st), net)"
proof -
  let ?ranks = "ranks(r := st)"
  have parts: "controllers (?ranks q) = controllers (ranks q)" "start_of (?ranks q) = start_of (ranks q)"
    "bcast_of (?ranks q) = bcast_of (ranks q)" for q
    using st run by (simp_all add: bcast_of_def split: option.splits)
  have own: "owned (?ranks q) = (if q = r then owned (ranks r) @ [v] else owned (ranks q))" for q using st by simp
  have L: "value_of ?ranks n = (if n = vx v then key v else value_of ranks n)" for n
    using st(1) v(1) by (simp add: value_of_def)
  then have Lle: "value_of ?ranks n \<le> value_of ranks n" for n using v(3) by (simp add: less_imp_le)
  have low: "lowered ranks net n k \<Longrightarrow> lowered ?ranks net n k" for n k by (erule lowered_ext) (simp_all add: Lle)
  have placed: "placed (ranks, net)" using inv by (simp add: trav_inv_def)
  have "placed (?ranks, net)"
  proof (rule placedI)
    fix q w assume q: "q < P"
    note D = placedD [OF placed q]
    show "w \<in> set (owned (?ranks q)) \<union> start_of (?ranks q) \<Longrightarrow> home (vx w) = q \<and> value_of ?ranks (vx w) \<le> key w"
    proof -
      assume "w \<in> set (owned (?ranks q)) \<union> start_of (?ranks q)"
      then consider "w = v" "q = r" | "w \<in> set (owned (ranks q)) \<union> start_of (ranks q)"
        unfolding own parts by (auto split: if_splits)
      then show ?thesis
      proof cases
        case 1
        then show ?thesis using v(1) L [of "vx v"] by simp
      next
        case 2
        then have "home (vx w) = q" "value_of ranks (vx w) \<le> key w" using D(1,2) by blast+
        then show ?thesis using Lle [of "vx w"] by (meson order_trans)
      qed
    qed
    show "w \<in> set (controllers (?ranks q)) \<Longrightarrow> t_delegate T (vx w) \<and> home (vx w) \<noteq> q \<and> ok (vx w) \<and> value_of ?ranks (vx w) \<le> key w"
      using D(3) [of w] Lle [of "vx w"] unfolding parts by (blast intro: order_trans)
    show "w \<in> set (bcast_of (?ranks q)) \<Longrightarrow> t_delegate T (vx w) \<and> home (vx w) = q \<and> ok (vx w) \<and> value_of ?ranks (vx w) \<le> key w"
      using D(4) [of w] Lle [of "vx w"] unfolding parts by (blast intro: order_trans)
    show "w \<in> bcast_to_rank net q \<Longrightarrow> t_delegate T (vx w) \<and> home (vx w) \<noteq> q \<and> ok (vx w) \<and> value_of ?ranks (vx w) \<le> key w"
      using D(5) [of w] Lle [of "vx w"] by (blast intro: order_trans)
    show "w \<in> unicast_to net q \<Longrightarrow> home (vx w) = q" using D(6) by blast
  qed
  moreover have "copies_ok (?ranks, net)"
    unfolding copies_ok_def Let_def prod.case
  proof (intro allI impI)
    fix q n assume "q < P" "ok n \<and> t_delegate T n"
    then have old: "lowered ranks net n (val (alg_data (ranks q)) n)"
      using inv by (simp add: trav_inv_def copies_ok_def)
    show "lowered ?ranks net n (val (alg_data (?ranks q)) n)"
    proof (cases "q = r \<and> n = vx v")
      case True
      then show ?thesis using L [of n] st(1) by (simp add: lowered_def)
    next
      case False
      then show ?thesis using low [OF old] st(1) by auto
    qed
  qed
  moreover have "complete init S (?ranks, net)"
  proof (rule complete_ext)
    show "complete init S (ranks, net)" using inv by (simp add: trav_inv_def)
    fix u q assume u: "value_of ?ranks u = value_of ranks u" "pending ranks net q u"
    have "pending ?ranks net q u"
      using u(2) unfolding pending_def u(1) Let_def parts own by (cases "home u = r") auto
    then show "pending ?ranks net q u \<or> (\<forall>wk \<in> offers q u (value_of ranks u). ok (fst wk) \<longrightarrow> settled ?ranks net q wk)" ..
  next
    fix q wk assume wk: "ok (fst wk)" "settled ranks net q wk"
    show "settled ?ranks net q wk"
    proof (cases "wk = pair v")
      case True
      then show ?thesis using L [of "vx v"] by (simp add: settled_def lowered_def pair_def)
    next
      case False
      then show ?thesis using wk(2) run st(3) low by (auto simp: settled_def todo_of_def)
    qed
  next
    fix u q assume "value_of ?ranks u \<noteq> value_of ranks u"
    then have "u = vx v" using L [of u] by (auto split: if_splits)
    then have "(u, value_of ?ranks u) \<in> pair ` set (owned (?ranks (home u)))"
      using L [of u] v(1) own [of r] by (simp add: pair_def)
    then show "pending ?ranks net q u" unfolding pending_def Let_def by blast
  qed
  moreover have "value_of ?ranks n \<le> init n" for n
    using inv Lle by (auto simp: trav_inv_def intro: order_trans)
  ultimately show ?thesis by (simp add: trav_inv_def del: fun_upd_apply)
qed

text \<open>The visitor is sent to its home; a delegate's local copy may have been lowered to its key.\<close>

lemma send_step_inv:
  assumes inv: "trav_inv init S (ranks, net)" and r: "r < P"
    and run: "running (ranks r) = Some (v # vs, bc)" and v: "home (vx v) \<noteq> r"
    and st: "\<And>n. val (alg_data st) n = val (alg_data (ranks r)) n \<or> n = vx v \<and> val (alg_data st) n = key v"
      "controllers st = controllers (ranks r)" "running st = Some (vs, bc)" "owned st = owned (ranks r)"
      "start_of st = start_of (ranks r)"
  shows "trav_inv init S (ranks(r := st), mailbox_send (home (vx v)) v net)"
proof -
  let ?ranks = "ranks(r := st)" and ?net = "mailbox_send (home (vx v)) v net"
  have parts: "owned (?ranks q) = owned (ranks q)" "controllers (?ranks q) = controllers (ranks q)"
    "start_of (?ranks q) = start_of (ranks q)" "bcast_of (?ranks q) = bcast_of (ranks q)" for q
    using st run by (simp_all add: bcast_of_def split: option.splits)
  have L: "value_of ?ranks = value_of ranks"
    using st(1) v by (fastforce simp: value_of_def fun_eq_iff)
  have uni: "unicast_to ?net q = (if q = home (vx v) then insert v (unicast_to net q) else unicast_to net q)" for q
    by (auto simp: unicast_to_def mailbox_send_def)
  have bnet: "bcast_to_rank ?net = bcast_to_rank net" by (auto simp: bcast_to_rank_def mailbox_send_def fun_eq_iff)
  have low: "lowered ranks net n k \<Longrightarrow> lowered ?ranks ?net n k" for n k
    by (erule lowered_ext) (auto simp add: L uni)
  have here: "lowered ?ranks ?net (vx v) (key v)" by (auto simp: lowered_def uni)
  have placed: "placed (ranks, net)" using inv by (simp add: trav_inv_def)
  have "placed (?ranks, ?net)"
  proof (rule placedI)
    fix q w assume q: "q < P"
    note D = placedD [OF placed q]
    show "w \<in> set (owned (?ranks q)) \<union> start_of (?ranks q) \<Longrightarrow> home (vx w) = q \<and> value_of ?ranks (vx w) \<le> key w"
      using D(1,2) unfolding parts L by blast
    show "w \<in> set (controllers (?ranks q)) \<Longrightarrow> t_delegate T (vx w) \<and> home (vx w) \<noteq> q \<and> ok (vx w) \<and> value_of ?ranks (vx w) \<le> key w"
      using D(3) unfolding parts L by blast
    show "w \<in> set (bcast_of (?ranks q)) \<Longrightarrow> t_delegate T (vx w) \<and> home (vx w) = q \<and> ok (vx w) \<and> value_of ?ranks (vx w) \<le> key w"
      using D(4) unfolding parts L by blast
    show "w \<in> bcast_to_rank ?net q \<Longrightarrow> t_delegate T (vx w) \<and> home (vx w) \<noteq> q \<and> ok (vx w) \<and> value_of ?ranks (vx w) \<le> key w"
      using D(5) unfolding L bnet by blast
    show "w \<in> unicast_to ?net q \<Longrightarrow> home (vx w) = q" using D(6) uni by (auto split: if_splits)
  qed
  moreover have "copies_ok (?ranks, ?net)"
    unfolding copies_ok_def Let_def prod.case
  proof (intro allI impI)
    fix q n assume "q < P" "ok n \<and> t_delegate T n"
    then have old: "lowered ranks net n (val (alg_data (ranks q)) n)"
      using inv by (simp add: trav_inv_def copies_ok_def)
    show "lowered ?ranks ?net n (val (alg_data (?ranks q)) n)"
      using low [OF old] here st(1) [of n] by (cases "q = r") auto
  qed
  moreover have "complete init S (?ranks, ?net)"
  proof (rule complete_ext)
    show "complete init S (ranks, net)" using inv by (simp add: trav_inv_def)
    fix u q assume "pending ranks net q u"
    then have "pending ?ranks ?net q u" unfolding pending_def L Let_def parts bnet uni by auto
    then show "pending ?ranks ?net q u \<or> (\<forall>wk \<in> offers q u (value_of ranks u). ok (fst wk) \<longrightarrow> settled ?ranks ?net q wk)" ..
  next
    fix q wk assume wk: "ok (fst wk)" "settled ranks net q wk"
    show "settled ?ranks ?net q wk"
    proof (cases "wk = pair v")
      case True
      then show ?thesis using here by (simp add: settled_def pair_def)
    next
      case False
      then show ?thesis using wk(2) run st(3) low by (auto simp: settled_def todo_of_def)
    qed
  qed (simp add: L)
  ultimately show ?thesis using inv by (simp add: trav_inv_def L del: fun_upd_apply)
qed

lemma queue_visitor_inv:
  assumes inv: "trav_inv init S (ranks, net)" and r: "r < P"
    and run: "running (ranks r) = Some (v # vs, bc)"
    and qv: "queue_visitor T r v ((ranks r)\<lparr>running := Some (vs, bc)\<rparr>, net) = (st, net')"
  shows "trav_inv init S (ranks(r := st), net')"
proof -
  obtain d b where pre: "t_pre_visit T r v (alg_data (ranks r)) = (d, b)" by fastforce
  note P = pre_visit [OF pre]
  have start: "start_of (x\<lparr>running := y\<rparr>) = start_of x" "start_of (x\<lparr>alg_data := e\<rparr>) = start_of x"
    "start_of (x\<lparr>owned := o'\<rparr>) = start_of x" for x :: "('v, 'd) vq" and y e o'
    by (simp_all add: start_of_def push_def)
  consider (home) "home (vx v) = r" | (deleg) "home (vx v) \<noteq> r" "t_delegate T (vx v)" | (far) "home (vx v) \<noteq> r" "\<not> t_delegate T (vx v)"
    by blast
  then show ?thesis
  proof cases
    case home
    then have st: "st = (if b then push v ((ranks r)\<lparr>running := Some (vs, bc), alg_data := d\<rparr>)
        else (ranks r)\<lparr>running := Some (vs, bc), alg_data := d\<rparr>)" "net' = net"
      using qv pre by (auto simp: queue_visitor_def local_delegate_visit_def Let_def split: if_splits)
    show ?thesis
    proof (cases b)
      case True
      then show ?thesis unfolding st(2)
        by (intro push_step_inv [OF inv r run home]) (use P st home in \<open>auto simp: value_of_def push_def start\<close>)
    next
      case False
      have "val d = val (alg_data (ranks r))" using P False by (auto simp: fun_eq_iff)
      moreover have "ok (vx v) \<Longrightarrow> lowered ranks net (vx v) (key v)"
        using P [of "vx v"] False home by (auto simp: lowered_def value_of_def)
      ultimately show ?thesis unfolding st(2)
        by (intro drop_step_inv [OF inv r run]) (use st False in \<open>auto simp: start\<close>)
    qed
  next
    case deleg
    then have st: "st = (ranks r)\<lparr>running := Some (vs, bc), alg_data := d\<rparr>"
        "net' = (if b then mailbox_send (home (vx v)) v net else net)"
      using qv pre by (auto simp: queue_visitor_def local_delegate_visit_def Let_def split: if_splits)
    show ?thesis
    proof (cases b)
      case True
      then have n: "net' = mailbox_send (home (vx v)) v net" using st by simp
      show ?thesis unfolding n
        by (intro send_step_inv [OF inv r run deleg(1)]) (use P st in \<open>auto simp: start\<close>)
    next
      case False
      have "val d = val (alg_data (ranks r))" using P False by (auto simp: fun_eq_iff)
      moreover have "lowered ranks net (vx v) (key v)" if "ok (vx v)"
      proof -
        have "lowered ranks net (vx v) (val (alg_data (ranks r)) (vx v))"
          using inv r deleg that by (simp add: trav_inv_def copies_ok_def)
        moreover have "val (alg_data (ranks r)) (vx v) \<le> key v" using P [of "vx v"] False that by auto
        ultimately show ?thesis by (rule lowered_mono)
      qed
      moreover have n: "net' = net" using st False by simp
      ultimately show ?thesis unfolding n
        by (intro drop_step_inv [OF inv r run]) (use st False in \<open>auto simp: start\<close>)
    qed
  next
    case far
    then have st: "st = (ranks r)\<lparr>running := Some (vs, bc)\<rparr>" "net' = mailbox_send (home (vx v)) v net"
      using qv by (auto simp: queue_visitor_def)
    show ?thesis unfolding st(2)
      by (intro send_step_inv [OF inv r run far(1)]) (use st in \<open>auto simp: start\<close>)
  qed
qed

subsection \<open>Receiving\<close>

text \<open>What a batch of messages does to one rank.\<close>

definition received_ok :: "nat \<Rightarrow> ('v \<times> bool) list \<Rightarrow> ('v, 'd) vq \<Rightarrow> ('v, 'd) vq \<Rightarrow> bool" where
  "received_ok r ms st st' \<longleftrightarrow>
     running st' = running st \<and> start_controllers st' = start_controllers st \<and> start_vertices st' = start_vertices st
     \<and> at_pc st' = at_pc st \<and> controllers st' = controllers st @ map fst (filter snd ms)
     \<and> (\<forall>n. val (alg_data st') n \<le> val (alg_data st) n \<and> (home n \<noteq> r \<longrightarrow> val (alg_data st') n = val (alg_data st) n))
     \<and> (\<forall>v. (v, False) \<in> set ms \<and> ok (vx v) \<longrightarrow> val (alg_data st') (vx v) \<le> key v)
     \<and> set (owned st) \<subseteq> set (owned st')
     \<and> (\<forall>v \<in> set (owned st'). v \<in> set (owned st) \<or>
           (v, False) \<in> set ms \<and> ok (vx v) \<and> home (vx v) = r \<and> val (alg_data st') (vx v) \<le> key v
             \<and> key v < val (alg_data st) (vx v))
     \<and> (\<forall>n. val (alg_data st') n < val (alg_data st) n \<longrightarrow> (n, val (alg_data st') n) \<in> pair ` set (owned st'))"

definition addressed_to :: "nat \<Rightarrow> 'v \<times> bool \<Rightarrow> bool" where
  "addressed_to r m \<longleftrightarrow> (if snd m then t_delegate T (vx (fst m)) \<and> home (vx (fst m)) \<noteq> r else home (vx (fst m)) = r)"

lemma handle_received:
  assumes "addressed_to r m"
  shows "\<exists>st'. handle_mailbox_receive T r m st = Some st' \<and> received_ok r [m] st st'"
proof (cases m)
  case (Pair v b)
  show ?thesis
  proof (cases b)
    case True
    then show ?thesis using assms Pair
      by (auto simp: addressed_to_def handle_mailbox_receive_def received_ok_def)
  next
    case False
    then have home: "home (vx v) = r" using assms Pair by (simp add: addressed_to_def)
    obtain d c where pre: "t_pre_visit T r v (alg_data st) = (d, c)" by fastforce
    note P = pre_visit [OF pre]
    let ?st = "if c then push v (st\<lparr>alg_data := d\<rparr>) else st\<lparr>alg_data := d\<rparr>"
    have "handle_mailbox_receive T r m st = Some ?st"
      using False home pre Pair by (auto simp: handle_mailbox_receive_def Let_def)
    moreover have "received_ok r [m] st ?st"
    proof (cases c)
      case True
      then have lt: "ok (vx v)" "key v < val (alg_data st) (vx v)" using P [of "vx v"] by simp_all
      have d: "val d n = (if n = vx v then key v else val (alg_data st) n)" for n using P [of n] True by simp
      show ?thesis using True False home lt Pair
        by (auto simp: received_ok_def push_def d pair_def less_imp_le)
    next
      case c: False
      have d: "val d n = val (alg_data st) n" for n using P [of n] c by simp
      have "ok (vx v) \<Longrightarrow> val (alg_data st) (vx v) \<le> key v" using P [of "vx v"] c by auto
      then show ?thesis using c False Pair by (auto simp: received_ok_def d)
    qed
    ultimately show ?thesis by blast
  qed
qed

lemma received_ok_trans:
  assumes "received_ok r [m] st st1" "received_ok r ms st1 st'"
  shows "received_ok r (m # ms) st st'"
proof -
  have mono: "val (alg_data st') n \<le> val (alg_data st1) n" "val (alg_data st1) n \<le> val (alg_data st) n" for n
    using assms by (simp_all add: received_ok_def)
  have 1: "val (alg_data st') n \<le> val (alg_data st) n" for n using mono [of n] by (rule order_trans)
  have 2: "val (alg_data st') (vx v) \<le> key v" if "(v, False) \<in> set (m # ms)" "ok (vx v)" for v
  proof (cases "(v, False) \<in> set ms")
    case True
    then show ?thesis using assms(2) that(2) by (simp add: received_ok_def)
  next
    case False
    then have "val (alg_data st1) (vx v) \<le> key v" using assms(1) that by (simp add: received_ok_def)
    then show ?thesis using mono(1) [of "vx v"] by (rule order_trans [rotated])
  qed
  have 3: "v \<in> set (owned st) \<or> (v, False) \<in> set (m # ms) \<and> ok (vx v) \<and> home (vx v) = r
      \<and> val (alg_data st') (vx v) \<le> key v \<and> key v < val (alg_data st) (vx v)" if "v \<in> set (owned st')" for v
  proof (cases "v \<in> set (owned st1)")
    case False
    then have "(v, False) \<in> set ms \<and> ok (vx v) \<and> home (vx v) = r \<and> val (alg_data st') (vx v) \<le> key v
        \<and> key v < val (alg_data st1) (vx v)" using assms(2) that unfolding received_ok_def by blast
    then show ?thesis using mono(2) [of "vx v"] by auto
  next
    case True
    then have "v \<in> set (owned st) \<or> (v, False) \<in> set [m] \<and> ok (vx v) \<and> home (vx v) = r
        \<and> val (alg_data st1) (vx v) \<le> key v \<and> key v < val (alg_data st) (vx v)"
      using assms(1) unfolding received_ok_def by blast
    then show ?thesis using mono(1) [of "vx v"] by auto
  qed
  have 4: "(n, val (alg_data st') n) \<in> pair ` set (owned st')" if "val (alg_data st') n < val (alg_data st) n" for n
  proof (cases "val (alg_data st') n < val (alg_data st1) n")
    case True
    then show ?thesis using assms(2) by (simp add: received_ok_def)
  next
    case False
    then have eq: "val (alg_data st') n = val (alg_data st1) n" using mono(1) [of n] by simp
    then have "(n, val (alg_data st1) n) \<in> pair ` set (owned st1)" using assms(1) that by (simp add: received_ok_def)
    then show ?thesis using assms(2) eq unfolding received_ok_def by auto
  qed
  show ?thesis
    unfolding received_ok_def using 1 2 3 4 assms unfolding received_ok_def by auto
qed

lemma receive_all_ok:
  assumes "\<And>m. m \<in> set ms \<Longrightarrow> addressed_to r m"
  shows "\<exists>st'. receive_all T r ms st = Some st' \<and> received_ok r ms st st'"
  using assms
proof (induction ms arbitrary: st)
  case Nil
  then show ?case by (auto simp: received_ok_def)
next
  case (Cons m ms)
  obtain st1 where 1: "handle_mailbox_receive T r m st = Some st1" "received_ok r [m] st st1"
    using handle_received Cons.prems [of m] by fastforce
  obtain st' where "receive_all T r ms st1 = Some st'" "received_ok r ms st1 st'"
    using Cons by fastforce
  with 1 show ?case using received_ok_trans by auto
qed

lemma addressed:
  assumes "placed (ranks, net)" "r < P" "m \<in> set (net r)"
  shows "addressed_to r m"
proof -
  obtain v b where m: "m = (v, b)" by (cases m)
  show ?thesis
    using assms(3) placedD(5) [OF assms(1,2), of v] placedD(6) [OF assms(1,2), of v]
    by (cases b) (simp_all add: m addressed_to_def bcast_to_rank_def unicast_to_def)
qed

subsection \<open>The exchange\<close>

lemma exchange_step_inv:
  assumes inv: "trav_inv init S (ranks, net)"
    and arr: "\<And>r. r < P \<Longrightarrow> mset (arrival r) = mset (net r)"
    and rec: "\<And>r. r < P \<Longrightarrow> receive_all T r (arrival r) (ranks r) = Some (ranks' r)"
  shows "trav_inv init S (\<lambda>r. if r < P then leave_exchange quiet (ranks' r) else ranks r, \<lambda>r. if r < P then [] else net r)"
proof -
  let ?ranks = "\<lambda>r. if r < P then leave_exchange quiet (ranks' r) else ranks r" and ?net = "\<lambda>r. if r < P then [] else net r"
  have placed: "placed (ranks, net)" using inv by (simp add: trav_inv_def)
  have setarr: "set (arrival r) = set (net r)" if "r < P" for r using arr [OF that] by (metis mset_eq_setD)
  have R: "received_ok r (arrival r) (ranks r) (ranks' r)" if "r < P" for r
    using receive_all_ok [of "arrival r" r "ranks r"] addressed [OF placed that] rec [OF that] setarr [OF that] by auto
  have leave: "alg_data (leave_exchange quiet st) = alg_data st" "owned (leave_exchange quiet st) = owned st"
    "controllers (leave_exchange quiet st) = controllers st" "start_of (leave_exchange quiet st) = start_of st"
    "todo_of (leave_exchange quiet st) = todo_of st" "bcast_of (leave_exchange quiet st) = bcast_of st" for st
    by (simp_all add: leave_exchange_def start_of_def todo_of_def bcast_of_def)
  have same: "start_of (?ranks r) = start_of (ranks r)" "todo_of (?ranks r) = todo_of (ranks r)"
    "bcast_of (?ranks r) = bcast_of (ranks r)" for r
  proof -
    have "r < P \<Longrightarrow> start_of (ranks' r) = start_of (ranks r) \<and> todo_of (ranks' r) = todo_of (ranks r)
        \<and> bcast_of (ranks' r) = bcast_of (ranks r)"
      using R [of r] by (simp add: received_ok_def start_of_def todo_of_def bcast_of_def)
    then show "start_of (?ranks r) = start_of (ranks r)" "todo_of (?ranks r) = todo_of (ranks r)"
      "bcast_of (?ranks r) = bcast_of (ranks r)" by (simp_all add: leave)
  qed
  have ctrl: "set (controllers (?ranks r)) = set (controllers (ranks r)) \<union> bcast_to_rank net r" if "r < P" for r
  proof -
    have "controllers (ranks' r) = controllers (ranks r) @ map fst (filter snd (arrival r))"
      using R [OF that] by (simp add: received_ok_def)
    moreover have "fst ` {m \<in> set (net r). snd m} = bcast_to_rank net r" by (force simp: bcast_to_rank_def)
    ultimately show ?thesis using that setarr [OF that] by (simp add: leave)
  qed
  have own: "set (owned (ranks r)) \<subseteq> set (owned (?ranks r))" if "r < P" for r
    using R [OF that] that by (simp add: leave received_ok_def)
  have valle: "val (alg_data (?ranks r)) n \<le> val (alg_data (ranks r)) n" for r n
    using R [of r] by (simp add: leave received_ok_def)
  have valeq: "home n \<noteq> r \<Longrightarrow> val (alg_data (?ranks r)) n = val (alg_data (ranks r)) n" for r n
    using R [of r] by (simp add: leave received_ok_def)
  have Lle: "value_of ?ranks n \<le> value_of ranks n" for n unfolding value_of_def by (rule valle)
  have Luni: "value_of ?ranks (vx v) \<le> key v" if "v \<in> unicast_to net (home n)" "ok (vx v)" "vx v = n" for v n
    using R [OF home_less] that setarr [OF home_less] home_less
    by (auto simp: value_of_def leave received_ok_def unicast_to_def)
  have Lpush: "(n, value_of ?ranks n) \<in> pair ` set (owned (?ranks (home n)))" if "value_of ?ranks n \<noteq> value_of ranks n" for n
  proof -
    have "value_of ?ranks n < value_of ranks n" using that Lle [of n] by simp
    then show ?thesis using R [OF home_less] home_less by (simp add: value_of_def leave received_ok_def)
  qed
  have nonet: "unicast_to ?net (home n) = {}" "r < P \<Longrightarrow> bcast_to_rank ?net r = {}" "r < P \<Longrightarrow> unicast_to ?net r = {}" for n r
    using home_less by (simp_all add: unicast_to_def bcast_to_rank_def)
  have low: "lowered ?ranks ?net n k" if lw: "lowered ranks net n k" and okn: "ok n" for n k
  proof (cases "value_of ranks n \<le> k")
    case True
    then show ?thesis using Lle [of n] unfolding lowered_def by (meson order_trans)
  next
    case False
    then obtain v where "v \<in> unicast_to net (home n)" "vx v = n" "key v \<le> k" using lw by (auto simp: lowered_def)
    then have "value_of ?ranks n \<le> k" using Luni [of v n] okn by (auto intro: order_trans)
    then show ?thesis by (simp add: lowered_def)
  qed
  have "placed (?ranks, ?net)"
  proof (rule placedI)
    fix q w assume q: "q < P"
    note D = placedD [OF placed q]
    have up: "value_of ranks (vx w) \<le> key w \<Longrightarrow> value_of ?ranks (vx w) \<le> key w" using Lle [of "vx w"] by (rule order_trans)
    show "w \<in> set (owned (?ranks q)) \<union> start_of (?ranks q) \<Longrightarrow> home (vx w) = q \<and> value_of ?ranks (vx w) \<le> key w"
    proof -
      assume "w \<in> set (owned (?ranks q)) \<union> start_of (?ranks q)"
      then consider "w \<in> set (owned (ranks q)) \<union> start_of (ranks q)"
        | "home (vx w) = q" "val (alg_data (ranks' q)) (vx w) \<le> key w"
        using R [OF q] q unfolding same by (auto simp: leave received_ok_def)
      then show ?thesis
      proof cases
        case 1
        then show ?thesis using D(1,2) up by blast
      next
        case 2
        then show ?thesis using q by (simp add: value_of_def leave)
      qed
    qed
    show "w \<in> set (controllers (?ranks q)) \<Longrightarrow> t_delegate T (vx w) \<and> home (vx w) \<noteq> q \<and> ok (vx w) \<and> value_of ?ranks (vx w) \<le> key w"
      using D(3,5) up unfolding ctrl [OF q] by blast
    show "w \<in> set (bcast_of (?ranks q)) \<Longrightarrow> t_delegate T (vx w) \<and> home (vx w) = q \<and> ok (vx w) \<and> value_of ?ranks (vx w) \<le> key w"
      using D(4) up unfolding same by blast
  qed (simp_all add: nonet)
  moreover have "copies_ok (?ranks, ?net)"
    unfolding copies_ok_def Let_def prod.case
  proof (intro allI impI)
    fix q n assume q: "q < P" "ok n \<and> t_delegate T n"
    then have old: "lowered ranks net n (val (alg_data (ranks q)) n)"
      using inv by (simp add: trav_inv_def copies_ok_def)
    show "lowered ?ranks ?net n (val (alg_data (?ranks q)) n)"
    proof (cases "q = home n")
      case True
      then show ?thesis unfolding lowered_def value_of_def by simp
    next
      case False
      then show ?thesis using low [OF old] q valeq [of n q] by simp
    qed
  qed
  moreover have "complete init S (?ranks, ?net)"
  proof (rule complete_ext)
    show "complete init S (ranks, net)" using inv by (simp add: trav_inv_def)
    fix u q assume u: "ok u" "stores q u" "value_of ?ranks u = value_of ranks u" "pending ranks net q u"
    have q: "q < P" using u(2) by (simp add: stores_def)
    have "\<not> key v < value_of ranks u" if "v \<in> unicast_to net (home u)" "vx v = u" for v
      using Luni [of v u] that u(1,3) by simp
    then have "pending ?ranks ?net q u"
      using u(4) own [OF home_less, of u] ctrl [OF q] unfolding pending_def u(3) Let_def same by blast
    then show "pending ?ranks ?net q u \<or> (\<forall>wk \<in> offers q u (value_of ranks u). ok (fst wk) \<longrightarrow> settled ?ranks ?net q wk)" ..
  next
    fix q wk assume "ok (fst wk)" "settled ranks net q wk"
    then show "settled ?ranks ?net q wk" using low unfolding settled_def same by blast
  next
    fix u q assume "value_of ?ranks u \<noteq> value_of ranks u"
    then show "pending ?ranks ?net q u" using Lpush unfolding pending_def Let_def by blast
  qed
  moreover have "value_of ?ranks n \<le> init n" for n
    using inv Lle [of n] by (auto simp: trav_inv_def intro: order_trans)
  ultimately show ?thesis by (simp add: trav_inv_def)
qed

subsection \<open>Every step\<close>

lemma control_step_inv:
  assumes "trav_inv init S (ranks, net)" "alg_data st = alg_data (ranks r)" "owned st = owned (ranks r)"
    "controllers st = controllers (ranks r)" "todo_of st = todo_of (ranks r)" "bcast_of st = bcast_of (ranks r)"
    "start_of st = start_of (ranks r)"
  shows "trav_inv init S (ranks(r := st), net)"
  using trav_inv_cong [of "ranks(r := st)" ranks init S net] assms by simp

lemma begin_visit_inv:
  assumes inv: "trav_inv init S (ranks, net)" and r: "r < P" and idle: "running (ranks r) = None"
    and v: "home (vx v) = r" "value_of ranks (vx v) \<le> key v"
    and st1: "alg_data st1 = alg_data (ranks r)" "controllers st1 = controllers (ranks r)"
      "set (owned st1) \<subseteq> set (owned (ranks r))" "set (owned (ranks r)) \<subseteq> insert v (set (owned st1))"
      "start_of st1 \<subseteq> start_of (ranks r)" "start_of (ranks r) \<subseteq> insert v (start_of st1)"
    and vis: "vis = t_visit T \<or> vis = t_init_visit T"
  shows "trav_inv init S (ranks(r := begin_visit T r vis v st1), net)"
proof -
  obtain d' new ret where eq: "vis r v (alg_data (ranks r)) = (d', new, ret)" by (metis prod_cases3)
  have law: "ret = (ok (vx v) \<and> key v \<le> val (alg_data (ranks r)) (vx v)) \<and> new = (if ret then out r v else []) \<and>
      (val d' n = val (alg_data (ranks r)) n \<or> ret \<and> n = vx v \<and> val d' n = key v)" for n
  proof (cases "vis = t_visit T")
    case True
    then show ?thesis using visit eq by simp
  next
    case False
    then show ?thesis using init_visit eq vis by simp
  qed
  then have l1: "ret = (ok (vx v) \<and> key v \<le> val (alg_data (ranks r)) (vx v))" and l2: "new = (if ret then out r v else [])"
    and l3: "\<And>n. val d' n = val (alg_data (ranks r)) n \<or> ret \<and> n = vx v \<and> val d' n = key v" by blast+
  have st: "begin_visit T r vis v st1 = st1\<lparr>alg_data := d',
      running := Some (new, if ret \<and> t_delegate T (vx v) \<and> home (vx v) = r then Some v else None)\<rparr>"
    using eq st1(1) by (simp add: begin_visit_def)
  show ?thesis
    unfolding st by (rule visit_step_inv [OF inv r idle v, where ret = ret and new = new and d' = d'])
      (use l1 l2 l3 st1 in \<open>simp_all add: start_of_def\<close>)
qed

lemma drain_inv:
  assumes inv: "trav_inv init S (ranks, net)" and r: "r < P" and idle: "running (ranks r) = None"
  shows "trav_inv init S (ranks(r := drain_controllers T r after (ranks r)), net)"
proof (cases "controllers (ranks r)")
  case Nil
  then show ?thesis
    by (intro control_step_inv [OF inv]) (simp_all add: drain_controllers_def todo_of_def bcast_of_def start_of_def)
next
  case (Cons v vs)
  obtain d' new ret where eq: "t_visit T r v (alg_data (ranks r)) = (d', new, ret)" by (metis prod_cases3)
  have l1: "ret = (ok (vx v) \<and> key v \<le> val (alg_data (ranks r)) (vx v))" and l2: "new = (if ret then out r v else [])"
    and l3: "\<And>n. val d' n = val (alg_data (ranks r)) n \<or> ret \<and> n = vx v \<and> val d' n = key v" using visit [OF eq] by blast+
  have st: "drain_controllers T r after (ranks r) = (ranks r)\<lparr>controllers := vs, alg_data := d', running := Some (new, None)\<rparr>"
    using Cons eq by (simp add: drain_controllers_def begin_controller_def)
  show ?thesis
    unfolding st by (rule controller_step_inv [OF inv r idle Cons, where ret = ret and new = new and d' = d'])
      (use l1 l2 l3 in \<open>simp_all add: start_of_def\<close>)
qed

lemma rank_step_inv:
  assumes inv: "trav_inv init S (ranks, net)" and r: "r < P"
    and step: "rank_step T r k (ranks r, net) = Some (st, net')"
  shows "trav_inv init S (ranks(r := st), net')"
proof (cases "running (ranks r)")
  case None
  have placed: "placed (ranks, net)" using inv by (simp add: trav_inv_def)
  note D = placedD [OF placed r]
  note parts = todo_of_def bcast_of_def start_of_def
  show ?thesis
  proof (cases "at_pc (ranks r)")
    case Start_Controller
    show ?thesis
    proof (cases "start_controllers (ranks r)")
      case Nil
      then have eq: "net' = net" "st = (ranks r)\<lparr>at_pc := Start_Vertex\<rparr>" using step None Start_Controller by auto
      show ?thesis unfolding eq by (intro control_step_inv [OF inv]) (simp_all add: parts)
    next
      case (Cons v vs)
      then have eq: "net' = net" "st = begin_visit T r (t_init_visit T) v ((ranks r)\<lparr>start_controllers := vs, at_pc := Start_Vertex\<rparr>)"
        using step None Start_Controller by auto
      have "v \<in> start_of (ranks r)" using Cons by (simp add: start_of_def)
      then show ?thesis using D(2) [of v] Cons unfolding eq
        by (intro begin_visit_inv [OF inv r None]) (auto simp: start_of_def)
    qed
  next
    case Start_Vertex
    show ?thesis
    proof (cases "start_vertices (ranks r)")
      case Nil
      then have eq: "net' = net" "st = (ranks r)\<lparr>at_pc := Drain_Outer\<rparr>" using step None Start_Vertex by auto
      show ?thesis unfolding eq by (intro control_step_inv [OF inv]) (simp_all add: parts)
    next
      case (Cons v vs)
      then have eq: "net' = net" "st = begin_visit T r (t_init_visit T) v ((ranks r)\<lparr>start_vertices := vs, at_pc := Drain_Outer\<rparr>)"
        using step None Start_Vertex by auto
      have "v \<in> start_of (ranks r)" using Cons by (simp add: start_of_def)
      then show ?thesis using D(2) [of v] Cons unfolding eq
        by (intro begin_visit_inv [OF inv r None]) (auto simp: start_of_def)
    qed
  next
    case Pop_Top
    then have k: "k < length (owned (ranks r))"
      using step None by (auto simp: pop_top_def split: if_splits)
    let ?v = "owned (ranks r) ! k" and ?st = "(ranks r)\<lparr>owned := take k (owned (ranks r)) @ drop (Suc k) (owned (ranks r)), at_pc := Test_Inner\<rparr>"
    have eq: "net' = net" "st = begin_visit T r (t_visit T) ?v ?st"
      using step None Pop_Top k by (auto simp: pop_top_def)
    have split: "set (owned (ranks r)) = insert ?v (set (take k (owned (ranks r)) @ drop (Suc k) (owned (ranks r))))"
      using arg_cong [OF id_take_nth_drop [OF k], of set] by auto
    have "?v \<in> set (owned (ranks r))" using k by simp
    then show ?thesis using D(1) [of ?v] split unfolding eq
      by (intro begin_visit_inv [OF inv r None]) (auto simp: start_of_def)
  next
    case Drain_Outer
    then show ?thesis using step None drain_inv [OF inv r None] by auto
  next
    case Drain_Inner
    then show ?thesis using step None drain_inv [OF inv r None] by auto
  next
    case Test_Inner
    then have eq: "net' = net" "st = (ranks r)\<lparr>at_pc := if is_empty (ranks r) then Test_Outer else Drain_Inner\<rparr>"
      using step None by auto
    show ?thesis unfolding eq by (intro control_step_inv [OF inv]) (simp_all add: parts)
  next
    case Test_Outer
    then have eq: "net' = net" "st = (ranks r)\<lparr>at_pc := Start_Controller\<rparr>"
      using step None by (auto split: if_splits)
    show ?thesis unfolding eq by (intro control_step_inv [OF inv]) (simp_all add: parts)
  next
    case Finished
    then show ?thesis using step None by auto
  qed
next
  case (Some p)
  obtain vs bc where run: "running (ranks r) = Some (vs, bc)" using Some by (cases p) auto
  show ?thesis
  proof (cases vs)
    case (Cons v ws)
    then have "queue_visitor T r v ((ranks r)\<lparr>running := Some (ws, bc)\<rparr>, net) = (st, net')"
      using step run by auto
    then show ?thesis using queue_visitor_inv [OF inv r] run Cons by blast
  next
    case Nil
    show ?thesis
    proof (cases bc)
      case None
      then have eq: "net' = net" "st = (ranks r)\<lparr>running := None\<rparr>" using step run Nil by auto
      show ?thesis unfolding eq
        by (intro control_step_inv [OF inv]) (simp_all add: todo_of_def bcast_of_def start_of_def run Nil None)
    next
      case (Some v)
      then show ?thesis using step run Nil bcast_step_inv [OF inv r] by auto
    qed
  qed
qed

lemma vq_step_inv:
  assumes "vq_step T g g'" "trav_inv init S g"
  shows "trav_inv init S g'"
  using assms(1)
proof cases
  case (local_step r k ranks net st net')
  then show ?thesis using rank_step_inv assms(2) by auto
next
  case (exchange_step ranks net arrival ranks')
  then show ?thesis using exchange_step_inv [OF _ exchange_step(4,5)] assms(2) by auto
qed

lemma vq_reach_inv: "vq_reach T g0 g \<Longrightarrow> trav_inv init S g0 \<Longrightarrow> trav_inv init S g"
  by (induction rule: vq_reach.induct) (auto intro: vq_step_inv)

end

end
