(* ===== verification/Traversal_Result.thy ===== *)
theory Traversal_Result
  imports Traversal
begin

section \<open>What a finished traversal leaves behind\<close>

text \<open>
  When every rank has left the loop, nothing is pending any more: the values are closed under the
  edges.  With a predicate that the start visitors satisfy and the offers keep, every value is also
  justified.
\<close>

context relaxing
begin

text \<open>At the end every offer has been taken into account, and no copy is ahead of its home.\<close>

theorem finished_closed:
  assumes reach: "vq_reach T g0 g" and inv: "trav_inv init S g0" and fin0: "finish_inv T g0" and fin: "all_finished P g"
    and u: "ok u" "stores r u" "value_of (fst g) u < init u \<or> u \<in> fst S" and wk: "(w, k) \<in> offers r u (value_of (fst g) u)" "ok w"
  shows "value_of (fst g) w \<le> k"
proof -
  obtain ranks net where g: "g = (ranks, net)" by (cases g)
  have inv': "trav_inv init S (ranks, net)" using vq_reach_inv [OF reach inv] g by simp
  have "finish_inv T g" using finish_inv_reach [OF reach fin0] .
  moreover have P: "0 < P" using home_less by (metis not_gr_zero not_less_zero)
  ultimately have all: "running (ranks q) = None \<and> owned (ranks q) = [] \<and> controllers (ranks q) = []
      \<and> start_of (ranks q) = {} \<and> net q = []" if "q < P" for q
    using fin that unfolding finish_inv_def all_finished_def g by (auto simp: start_of_def)
  have empty: "unicast_to net q = {}" "bcast_to_rank net q = {}" "todo_of (ranks q) = []" "bcast_of (ranks q) = []" if "q < P" for q
    using all [OF that] by (simp_all add: unicast_to_def bcast_to_rank_def todo_of_def bcast_of_def)
  have r: "r < P" using u(2) by (simp add: stores_def)
  have "\<not> pending ranks net r u"
    using all [OF home_less] all [OF r] empty [OF home_less] empty [OF r] by (simp add: pending_def)
  then have "settled ranks net r (w, k)"
    using inv' u wk unfolding trav_inv_def complete_def g by fastforce
  then show ?thesis
    using empty [OF r] empty(1) [OF home_less] by (simp add: settled_def lowered_def g)
qed

theorem finished_start:
  assumes reach: "vq_reach T g0 g" and inv: "trav_inv init S g0" and fin0: "finish_inv T g0" and fin: "all_finished P g"
    and w: "(r, w, k) \<in> snd S" "r < P" "ok w"
  shows "value_of (fst g) w \<le> k"
proof -
  obtain ranks net where g: "g = (ranks, net)" by (cases g)
  have inv': "trav_inv init S (ranks, net)" using vq_reach_inv [OF reach inv] g by simp
  have "finish_inv T g" using finish_inv_reach [OF reach fin0] .
  then have "running (ranks r) = None" "net (home w) = []"
    using fin w(2) home_less unfolding finish_inv_def all_finished_def g by auto
  then have empty: "todo_of (ranks r) = []" "unicast_to net (home w) = {}" by (simp_all add: todo_of_def unicast_to_def)
  have "settled ranks net r (w, k)" using inv' w unfolding trav_inv_def complete_def by auto
  then show ?thesis using empty by (simp add: settled_def lowered_def g)
qed

theorem finished_copies:
  assumes reach: "vq_reach T g0 g" and inv: "trav_inv init S g0" and fin0: "finish_inv T g0" and fin: "all_finished P g"
    and n: "ok n" "t_delegate T n" and r: "r < P"
  shows "value_of (fst g) n \<le> val (alg_data (fst g r)) n"
proof -
  obtain ranks net where g: "g = (ranks, net)" by (cases g)
  have inv': "trav_inv init S (ranks, net)" using vq_reach_inv [OF reach inv] g by simp
  have "finish_inv T g" using finish_inv_reach [OF reach fin0] .
  moreover have "home n < P" by (rule home_less)
  ultimately have "net (home n) = []" using fin unfolding finish_inv_def all_finished_def g by auto
  then have "unicast_to net (home n) = {}" by (simp add: unicast_to_def)
  then show ?thesis using inv' n r by (auto simp: trav_inv_def copies_ok_def lowered_def g)
qed

theorem values_decrease:
  assumes "vq_reach T g0 g" "trav_inv init S g0"
  shows "value_of (fst g) n \<le> init n"
  using vq_reach_inv [OF assms] by (simp add: trav_inv_def)

end

subsection \<open>Every value is justified\<close>

text \<open>
  \<open>J L n k\<close>: a visitor of \<open>n\<close> with key \<open>k\<close> may be on its way when the values are \<open>L\<close>; \<open>V L n k\<close>: it may
  have been accepted.
\<close>

locale justified = relaxing T key val ok out offers
  for T :: "('n, 'v, 'd) traversal" and key :: "'v \<Rightarrow> 'k :: linorder" and val :: "'d \<Rightarrow> 'n \<Rightarrow> 'k"
    and ok :: "'n \<Rightarrow> bool" and out :: "nat \<Rightarrow> 'v \<Rightarrow> 'v list" and offers :: "nat \<Rightarrow> 'n \<Rightarrow> 'k \<Rightarrow> ('n \<times> 'k) set" +
  fixes J V :: "('n \<Rightarrow> 'k) \<Rightarrow> 'n \<Rightarrow> 'k \<Rightarrow> bool"
  assumes J_mono: "J L n k \<Longrightarrow> (\<And>m. L' m \<le> L m) \<Longrightarrow> J L' n k"
    and V_mono: "V L n k \<Longrightarrow> (\<And>m. L' m \<le> L m) \<Longrightarrow> V L' n k"
    and accept: "J L n k \<Longrightarrow> ok n \<Longrightarrow> k < L n \<Longrightarrow> V (L(n := k)) n k"
    and offer: "V L n k \<Longrightarrow> (w, k') \<in> offers r n k \<Longrightarrow> J L w k'"
begin

definition accepted_of :: "(nat \<Rightarrow> ('v, 'd) vq) \<Rightarrow> 'v net \<Rightarrow> nat \<Rightarrow> 'v set" where
  "accepted_of ranks net r = set (owned (ranks r)) \<union> start_of (ranks r) \<union> set (controllers (ranks r))
     \<union> set (bcast_of (ranks r)) \<union> bcast_to_rank net r"

definition moving_of :: "(nat \<Rightarrow> ('v, 'd) vq) \<Rightarrow> 'v net \<Rightarrow> nat \<Rightarrow> 'v set" where
  "moving_of ranks net r = set (todo_of (ranks r)) \<union> unicast_to net r"

definition just_inv :: "('n \<Rightarrow> 'k) \<Rightarrow> (nat \<Rightarrow> ('v, 'd) vq) \<times> 'v net \<Rightarrow> bool" where
  "just_inv init g \<longleftrightarrow> (let (ranks, net) = g; L = value_of ranks in
     (\<forall>r < P. (\<forall>v \<in> accepted_of ranks net r. V L (vx v) (key v)) \<and> (\<forall>v \<in> moving_of ranks net r. J L (vx v) (key v)))
     \<and> (\<forall>n. L n = init n \<or> V L n (L n)))"

text \<open>A step in which no value changes.\<close>

lemma just_keep:
  assumes "just_inv init (ranks, net)" "value_of ranks' = value_of ranks"
    "\<And>r v. r < P \<Longrightarrow> v \<in> accepted_of ranks' net' r \<Longrightarrow> \<exists>q < P. v \<in> accepted_of ranks net q"
    "\<And>r v. r < P \<Longrightarrow> v \<in> moving_of ranks' net' r \<Longrightarrow> (\<exists>q < P. v \<in> moving_of ranks net q)
       \<or> (\<exists>q < P. \<exists>u \<in> accepted_of ranks net q. v \<in> set (out r u))"
  shows "just_inv init (ranks', net')"
proof -
  have J: "J (value_of ranks) (vx v) (key v)" if "r < P" "v \<in> moving_of ranks' net' r" for r v
  proof -
    from assms(4) [OF that] consider q where "q < P" "v \<in> moving_of ranks net q"
      | q u where "q < P" "u \<in> accepted_of ranks net q" "v \<in> set (out r u)" by blast
    then show ?thesis
    proof cases
      case 1
      then show ?thesis using assms(1) by (auto simp: just_inv_def Let_def)
    next
      case 2
      then have "V (value_of ranks) (vx u) (key u)" using assms(1) by (auto simp: just_inv_def Let_def)
      moreover have "(vx v, key v) \<in> offers r (vx u) (key u)" using 2(3) out [of r u] by blast
      ultimately show ?thesis using offer by blast
    qed
  qed
  have V: "V (value_of ranks) (vx v) (key v)" if "r < P" "v \<in> accepted_of ranks' net' r" for r v
    using assms(1) assms(3) [OF that] unfolding just_inv_def Let_def prod.case by blast
  show ?thesis
    using assms(1) J V unfolding just_inv_def Let_def prod.case assms(2) by blast
qed

text \<open>A step in which values go down to the keys of moving visitors.\<close>

lemma just_lower:
  assumes "just_inv init (ranks, net)" "\<And>n. value_of ranks' n \<le> value_of ranks n"
    "\<And>r v. r < P \<Longrightarrow> v \<in> accepted_of ranks' net' r \<Longrightarrow> (\<exists>q < P. v \<in> accepted_of ranks net q)
       \<or> (\<exists>q < P. v \<in> moving_of ranks net q) \<and> ok (vx v) \<and> key v < value_of ranks (vx v) \<and> value_of ranks' (vx v) \<le> key v"
    "\<And>r v. r < P \<Longrightarrow> v \<in> moving_of ranks' net' r \<Longrightarrow> \<exists>q < P. v \<in> moving_of ranks net q"
    "\<And>n. value_of ranks' n \<noteq> value_of ranks n \<Longrightarrow> \<exists>r < P. (n, value_of ranks' n) \<in> pair ` accepted_of ranks' net' r"
  shows "just_inv init (ranks', net')"
proof -
  let ?L = "value_of ranks" and ?L' = "value_of ranks'"
  have J: "J ?L (vx v) (key v)" if "q < P" "v \<in> moving_of ranks net q" for q v
    using assms(1) that by (auto simp: just_inv_def Let_def)
  have V: "V ?L' (vx v) (key v)" if "r < P" "v \<in> accepted_of ranks' net' r" for r v
  proof -
    from assms(3) [OF that] consider q where "q < P" "v \<in> accepted_of ranks net q"
      | q where "q < P" "v \<in> moving_of ranks net q" "ok (vx v)" "key v < ?L (vx v)" "?L' (vx v) \<le> key v" by blast
    then show ?thesis
    proof cases
      case 1
      then have "V ?L (vx v) (key v)" using assms(1) by (auto simp: just_inv_def Let_def)
      then show ?thesis using V_mono assms(2) by blast
    next
      case 2
      then have "V (?L(vx v := key v)) (vx v) (key v)" using accept J by blast
      moreover have "?L' m \<le> (?L(vx v := key v)) m" for m using assms(2) 2(5) by simp
      ultimately show ?thesis using V_mono by blast
    qed
  qed
  have "?L' n = init n \<or> V ?L' n (?L' n)" for n
  proof (cases "?L' n = ?L n")
    case True
    then show ?thesis using assms(1,2) V_mono unfolding just_inv_def Let_def prod.case by metis
  next
    case False
    then obtain r v where "r < P" "v \<in> accepted_of ranks' net' r" "pair v = (n, ?L' n)" using assms(5) by fastforce
    then show ?thesis using V [of r v] by (simp add: pair_def)
  qed
  moreover have "J ?L' (vx v) (key v)" if "r < P" "v \<in> moving_of ranks' net' r" for r v
    using assms(4) [OF that] J J_mono assms(2) by blast
  ultimately show ?thesis using V unfolding just_inv_def Let_def prod.case by blast
qed

lemma visit_value:
  assumes "home (vx v) = r \<longrightarrow> value_of ranks (vx v) \<le> key v"
    "vis r v (alg_data (ranks r)) = (d', new, ret)" "vis = t_visit T \<or> vis = t_init_visit T"
  shows "val d' n = val (alg_data (ranks r)) n \<or> home n \<noteq> r" "set new \<subseteq> set (out r v)"
proof -
  have l: "ret = (ok (vx v) \<and> key v \<le> val (alg_data (ranks r)) (vx v)) \<and> new = (if ret then out r v else []) \<and>
      (val d' n = val (alg_data (ranks r)) n \<or> ret \<and> n = vx v \<and> val d' n = key v)" for n
    using assms(2,3) visit [of r v "alg_data (ranks r)" d' new ret n] init_visit [of r v "alg_data (ranks r)" d' new ret n] by blast
  show "set new \<subseteq> set (out r v)" using l by auto
  show "val d' n = val (alg_data (ranks r)) n \<or> home n \<noteq> r"
    using l [of n] assms(1) by (auto simp: value_of_def)
qed

lemma begin_keeps:
  assumes just: "just_inv init (ranks, net)" and r: "r < P" and idle: "running (ranks r) = None"
    and v: "v \<in> accepted_of ranks net r" "home (vx v) = r \<longrightarrow> value_of ranks (vx v) \<le> key v"
    and eq: "vis r v (alg_data (ranks r)) = (d', new, ret)" and vis: "vis = t_visit T \<or> vis = t_init_visit T"
    and st: "alg_data st = d'" "running st = Some (new, bc)" "bc = None \<or> bc = Some v"
      "set (owned st) \<subseteq> set (owned (ranks r))" "start_of st \<subseteq> start_of (ranks r)"
      "set (controllers st) \<subseteq> set (controllers (ranks r))"
  shows "just_inv init (ranks(r := st), net)"
proof (rule just_keep [OF just])
  show "value_of (ranks(r := st)) = value_of ranks"
    using visit_value(1) [OF v(2) eq vis] st(1) by (fastforce simp: value_of_def fun_eq_iff)
next
  fix q w assume "q < P" "w \<in> accepted_of (ranks(r := st)) net q"
  then have "w \<in> accepted_of ranks net q \<or> w = v"
    using st by (cases "q = r") (auto simp: accepted_of_def bcast_of_def split: option.splits)
  then show "\<exists>q < P. w \<in> accepted_of ranks net q" using v(1) r \<open>q < P\<close> by blast
next
  fix q w assume q: "q < P" "w \<in> moving_of (ranks(r := st)) net q"
  have "w \<in> moving_of ranks net q \<or> q = r \<and> w \<in> set new"
    using q(2) st(2) by (cases "q = r") (auto simp: moving_of_def todo_of_def)
  then show "(\<exists>q < P. w \<in> moving_of ranks net q) \<or> (\<exists>x < P. \<exists>u \<in> accepted_of ranks net x. w \<in> set (out q u))"
    using visit_value(2) [OF v(2) eq vis] v(1) q(1) by blast
qed

lemma same_keeps:
  assumes just: "just_inv init (ranks, net)" and r: "r < P"
    and st: "val (alg_data st) = val (alg_data (ranks r)) \<or> (\<forall>n. home n = r \<longrightarrow> val (alg_data st) n = val (alg_data (ranks r)) n)"
      "owned st = owned (ranks r)" "controllers st = controllers (ranks r)" "start_of st = start_of (ranks r)"
      "set (todo_of st) \<subseteq> set (todo_of (ranks r))" "set (bcast_of st) \<subseteq> set (bcast_of (ranks r))"
    and net: "\<And>q. bcast_to_rank net' q \<subseteq> bcast_to_rank net q \<union> set (bcast_of (ranks r))"
      "\<And>q. unicast_to net' q \<subseteq> unicast_to net q \<union> set (todo_of (ranks r))"
  shows "just_inv init (ranks(r := st), net')"
proof (rule just_keep [OF just])
  show "value_of (ranks(r := st)) = value_of ranks" using st(1) by (auto simp: value_of_def fun_eq_iff)
next
  fix q w assume "q < P" "w \<in> accepted_of (ranks(r := st)) net' q"
  then have "w \<in> accepted_of ranks net q \<or> w \<in> accepted_of ranks net r"
    using st net(1) [of q] by (cases "q = r") (auto simp: accepted_of_def)
  then show "\<exists>q < P. w \<in> accepted_of ranks net q" using r \<open>q < P\<close> by blast
next
  fix q w assume "q < P" "w \<in> moving_of (ranks(r := st)) net' q"
  then have "w \<in> moving_of ranks net q \<or> w \<in> moving_of ranks net r"
    using st(5) net(2) [of q] by (cases "q = r") (auto simp: moving_of_def)
  then show "(\<exists>q < P. w \<in> moving_of ranks net q) \<or> (\<exists>x < P. \<exists>u \<in> accepted_of ranks net x. w \<in> set (out q u))"
    using r \<open>q < P\<close> by blast
qed

lemma queue_visitor_just:
  assumes just: "just_inv init (ranks, net)" and r: "r < P" and run: "running (ranks r) = Some (v # vs, bc)"
    and qv: "queue_visitor T r v ((ranks r)\<lparr>running := Some (vs, bc)\<rparr>, net) = (st, net')"
  shows "just_inv init (ranks(r := st), net')"
proof -
  obtain d b where pre: "t_pre_visit T r v (alg_data (ranks r)) = (d, b)" by fastforce
  note Q = pre_visit [OF pre]
  have v: "v \<in> set (todo_of (ranks r))" using run by (simp add: todo_of_def)
  note parts = todo_of_def bcast_of_def start_of_def
  show ?thesis
  proof (cases "home (vx v) = r \<and> b")
    case True
    then have st: "st = push v ((ranks r)\<lparr>running := Some (vs, bc), alg_data := d\<rparr>)" "net' = net"
      using qv pre by (auto simp: queue_visitor_def local_delegate_visit_def Let_def split: if_splits)
    have L: "value_of (ranks(r := st)) n = (if n = vx v then key v else value_of ranks n)" for n
      using Q [of n] True by (auto simp: value_of_def st push_def)
    have lt: "ok (vx v)" "key v < value_of ranks (vx v)" using Q [of "vx v"] True by (auto simp: value_of_def)
    show ?thesis
    proof (rule just_lower [OF just])
      show "value_of (ranks(r := st)) n \<le> value_of ranks n" for n using L [of n] lt by auto
      fix q w assume q: "q < P"
      show "w \<in> accepted_of (ranks(r := st)) net' q \<Longrightarrow> (\<exists>x < P. w \<in> accepted_of ranks net x)
          \<or> (\<exists>x < P. w \<in> moving_of ranks net x) \<and> ok (vx w) \<and> key w < value_of ranks (vx w) \<and> value_of (ranks(r := st)) (vx w) \<le> key w"
      proof -
        assume "w \<in> accepted_of (ranks(r := st)) net' q"
        then have "w \<in> accepted_of ranks net q \<or> w = v"
          using run by (cases "q = r") (auto simp: accepted_of_def st push_def parts split: option.splits)
        then show ?thesis using q r v lt L [of "vx v"] by (auto simp: moving_of_def)
      qed
      show "w \<in> moving_of (ranks(r := st)) net' q \<Longrightarrow> \<exists>x < P. w \<in> moving_of ranks net x"
        using q run by (cases "q = r") (auto simp: moving_of_def st push_def todo_of_def)
    next
      fix n assume "value_of (ranks(r := st)) n \<noteq> value_of ranks n"
      then have "n = vx v" using L by metis
      then have "(n, value_of (ranks(r := st)) n) = pair v" using L [of n] by (simp add: pair_def)
      moreover have "v \<in> accepted_of (ranks(r := st)) net' r" by (simp add: accepted_of_def st push_def)
      ultimately show "\<exists>q < P. (n, value_of (ranks(r := st)) n) \<in> pair ` accepted_of (ranks(r := st)) net' q"
        using r by blast
    qed
  next
    case False
    have d: "home (vx v) \<noteq> r \<or> \<not> b" using False by blast
    then have dv: "home n = r \<Longrightarrow> val d n = val (alg_data (ranks r)) n" for n using Q [of n] by auto
    have net: "net' = net \<or> net' = mailbox_send (home (vx v)) v net"
      and st: "st = (ranks r)\<lparr>running := Some (vs, bc), alg_data := d\<rparr> \<or> st = (ranks r)\<lparr>running := Some (vs, bc)\<rparr>"
      using qv pre d by (auto simp: queue_visitor_def local_delegate_visit_def Let_def split: if_splits)
    have "unicast_to net' q \<subseteq> unicast_to net q \<union> set (todo_of (ranks r))"
      "bcast_to_rank net' q \<subseteq> bcast_to_rank net q" for q
      using net v by (auto simp: unicast_to_def bcast_to_rank_def mailbox_send_def split: if_splits)
    then show ?thesis
      by (intro same_keeps [OF just r]) (use st dv run in \<open>auto simp: parts split: option.splits\<close>)
  qed
qed

lemma drain_keeps:
  assumes just: "just_inv init (ranks, net)" and placed: "placed (ranks, net)" and r: "r < P" and idle: "running (ranks r) = None"
  shows "just_inv init (ranks(r := drain_controllers T r after (ranks r)), net)"
proof (cases "controllers (ranks r)")
  case Nil
  then show ?thesis
    by (intro same_keeps [OF just r]) (auto simp: drain_controllers_def todo_of_def bcast_of_def start_of_def)
next
  case (Cons v vs)
  obtain d' new ret where eq: "t_visit T r v (alg_data (ranks r)) = (d', new, ret)" by (metis prod_cases3)
  have st: "drain_controllers T r after (ranks r) = (ranks r)\<lparr>controllers := vs, alg_data := d', running := Some (new, None)\<rparr>"
    using Cons eq by (simp add: drain_controllers_def begin_controller_def)
  have "v \<in> accepted_of ranks net r" "home (vx v) = r \<longrightarrow> value_of ranks (vx v) \<le> key v"
    using Cons placedD(3) [OF placed r, of v] by (auto simp: accepted_of_def)
  then show ?thesis unfolding st
    by (intro begin_keeps [where vis = "t_visit T" and v = v and d' = d' and new = new and ret = ret and bc = None] just r idle eq) (use Cons in \<open>auto simp: start_of_def\<close>)
qed

lemma begin_visit_keeps:
  assumes just: "just_inv init (ranks, net)" and placed: "placed (ranks, net)" and r: "r < P" and idle: "running (ranks r) = None"
    and v: "v \<in> set (owned (ranks r)) \<union> start_of (ranks r)"
    and st: "alg_data st = alg_data (ranks r)" "controllers st = controllers (ranks r)"
      "set (owned st) \<subseteq> set (owned (ranks r))" "start_of st \<subseteq> start_of (ranks r)"
    and vis: "vis = t_visit T \<or> vis = t_init_visit T"
  shows "just_inv init (ranks(r := begin_visit T r vis v st), net)"
proof -
  obtain d' new ret where eq: "vis r v (alg_data (ranks r)) = (d', new, ret)" by (metis prod_cases3)
  let ?bc = "if ret \<and> t_delegate T (vx v) \<and> home (vx v) = r then Some v else None"
  have b: "begin_visit T r vis v st = st\<lparr>alg_data := d', running := Some (new, ?bc)\<rparr>"
    using eq st(1) by (simp add: begin_visit_def)
  have "v \<in> accepted_of ranks net r" "home (vx v) = r \<longrightarrow> value_of ranks (vx v) \<le> key v"
    using v placedD(1,2) [OF placed r, of v] by (auto simp: accepted_of_def)
  then show ?thesis unfolding b
    by (intro begin_keeps [where vis = vis and v = v and d' = d' and new = new and ret = ret and bc = ?bc] just r idle eq vis) (use st in \<open>auto simp: start_of_def\<close>)
qed

lemma rank_step_just:
  assumes just: "just_inv init (ranks, net)" and placed: "placed (ranks, net)" and r: "r < P"
    and step: "rank_step T r k (ranks r, net) = Some (st, net')"
  shows "just_inv init (ranks(r := st), net')"
proof (cases "running (ranks r)")
  case None
  note parts = todo_of_def bcast_of_def start_of_def
  note same = same_keeps [OF just r] and beg = begin_visit_keeps [OF just placed r None]
  show ?thesis
  proof (cases "at_pc (ranks r)")
    case Start_Controller
    show ?thesis
    proof (cases "start_controllers (ranks r)")
      case Nil
      then have eq: "net' = net" "st = (ranks r)\<lparr>at_pc := Start_Vertex\<rparr>" using step None Start_Controller by auto
      show ?thesis unfolding eq by (intro same) (auto simp: parts)
    next
      case (Cons v vs)
      then have eq: "net' = net" "st = begin_visit T r (t_init_visit T) v ((ranks r)\<lparr>start_controllers := vs, at_pc := Start_Vertex\<rparr>)"
        using step None Start_Controller by auto
      show ?thesis unfolding eq by (intro beg) (use Cons in \<open>auto simp: start_of_def\<close>)
    qed
  next
    case Start_Vertex
    show ?thesis
    proof (cases "start_vertices (ranks r)")
      case Nil
      then have eq: "net' = net" "st = (ranks r)\<lparr>at_pc := Drain_Outer\<rparr>" using step None Start_Vertex by auto
      show ?thesis unfolding eq by (intro same) (auto simp: parts)
    next
      case (Cons v vs)
      then have eq: "net' = net" "st = begin_visit T r (t_init_visit T) v ((ranks r)\<lparr>start_vertices := vs, at_pc := Drain_Outer\<rparr>)"
        using step None Start_Vertex by auto
      show ?thesis unfolding eq by (intro beg) (use Cons in \<open>auto simp: start_of_def\<close>)
    qed
  next
    case Pop_Top
    then have k: "k < length (owned (ranks r))"
      using step None by (auto simp: pop_top_def split: if_splits)
    let ?v = "owned (ranks r) ! k" and ?st = "(ranks r)\<lparr>owned := take k (owned (ranks r)) @ drop (Suc k) (owned (ranks r)), at_pc := Test_Inner\<rparr>"
    have eq: "net' = net" "st = begin_visit T r (t_visit T) ?v ?st"
      using step None Pop_Top k by (auto simp: pop_top_def)
    show ?thesis unfolding eq
      by (intro beg) (use k in \<open>auto simp: start_of_def dest: in_set_takeD in_set_dropD\<close>)
  next
    case Drain_Outer
    then show ?thesis using step None drain_keeps [OF just placed r None] by auto
  next
    case Drain_Inner
    then show ?thesis using step None drain_keeps [OF just placed r None] by auto
  next
    case Test_Inner
    then have eq: "net' = net" "st = (ranks r)\<lparr>at_pc := if is_empty (ranks r) then Test_Outer else Drain_Inner\<rparr>"
      using step None by auto
    show ?thesis unfolding eq by (intro same) (auto simp: parts)
  next
    case Test_Outer
    then have eq: "net' = net" "st = (ranks r)\<lparr>at_pc := Start_Controller\<rparr>"
      using step None by (auto split: if_splits)
    show ?thesis unfolding eq by (intro same) (auto simp: parts)
  next
    case Finished
    then show ?thesis using step None by auto
  qed
next
  case (Some p)
  obtain vs bc where run: "running (ranks r) = Some (vs, bc)" using Some by (cases p) auto
  show ?thesis
  proof (cases vs)
    case (Cons v ws)
    then have "queue_visitor T r v ((ranks r)\<lparr>running := Some (ws, bc)\<rparr>, net) = (st, net')"
      using step run by auto
    then show ?thesis using queue_visitor_just [OF just r] run Cons by blast
  next
    case Nil
    show ?thesis
    proof (cases bc)
      case None
      then have eq: "net' = net" "st = (ranks r)\<lparr>running := None\<rparr>" using step run Nil by auto
      show ?thesis unfolding eq by (intro same_keeps [OF just r]) (auto simp: todo_of_def bcast_of_def start_of_def)
    next
      case (Some v)
      then have eq: "net' = mailbox_bcast P r v net" "st = (ranks r)\<lparr>running := Some ([], None)\<rparr>" using step run Nil by auto
      have "v \<in> set (bcast_of (ranks r))" using run Nil Some by (simp add: bcast_of_def)
      then show ?thesis unfolding eq
        by (intro same_keeps [OF just r])
           (auto simp: todo_of_def start_of_def bcast_of_def bcast_to_rank_def unicast_to_def mailbox_bcast_def)
    qed
  qed
qed

lemma exchange_just:
  assumes just: "just_inv init (ranks, net)" and placed: "placed (ranks, net)"
    and arr: "\<And>r. r < P \<Longrightarrow> mset (arrival r) = mset (net r)"
    and rec: "\<And>r. r < P \<Longrightarrow> receive_all T r (arrival r) (ranks r) = Some (ranks' r)"
  shows "just_inv init (\<lambda>r. if r < P then leave_exchange quiet (ranks' r) else ranks r, \<lambda>r. if r < P then [] else net r)"
proof -
  let ?ranks = "\<lambda>r. if r < P then leave_exchange quiet (ranks' r) else ranks r" and ?net = "\<lambda>r. if r < P then [] else net r"
  have setarr: "set (arrival r) = set (net r)" if "r < P" for r using arr [OF that] by (metis mset_eq_setD)
  have R: "received_ok r (arrival r) (ranks r) (ranks' r)" if "r < P" for r
    using receive_all_ok [of "arrival r" r "ranks r"] addressed [OF placed that] rec [OF that] setarr [OF that] by auto
  have leave: "alg_data (leave_exchange quiet st) = alg_data st" "owned (leave_exchange quiet st) = owned st"
    "controllers (leave_exchange quiet st) = controllers st" "start_of (leave_exchange quiet st) = start_of st"
    "todo_of (leave_exchange quiet st) = todo_of st" "bcast_of (leave_exchange quiet st) = bcast_of st" for st
    by (simp_all add: leave_exchange_def start_of_def todo_of_def bcast_of_def)
  have same: "start_of (ranks' r) = start_of (ranks r)" "todo_of (ranks' r) = todo_of (ranks r)"
    "bcast_of (ranks' r) = bcast_of (ranks r)" if "r < P" for r
    using R [OF that] by (simp_all add: received_ok_def start_of_def todo_of_def bcast_of_def)
  have ctrl: "set (controllers (ranks' r)) = set (controllers (ranks r)) \<union> bcast_to_rank net r" if "r < P" for r
  proof -
    have "controllers (ranks' r) = controllers (ranks r) @ map fst (filter snd (arrival r))"
      using R [OF that] by (simp add: received_ok_def)
    moreover have "fst ` {m \<in> set (net r). snd m} = bcast_to_rank net r" by (force simp: bcast_to_rank_def)
    ultimately show ?thesis using setarr [OF that] by simp
  qed
  have Lle: "value_of ?ranks n \<le> value_of ranks n" for n
    using R [OF home_less, of n] home_less by (simp add: value_of_def leave received_ok_def)
  show ?thesis
  proof (rule just_lower [OF just Lle])
    fix q w assume q: "q < P" "w \<in> accepted_of ?ranks ?net q"
    then consider "w \<in> accepted_of ranks net q" | "w \<in> set (owned (ranks' q))" "w \<notin> set (owned (ranks q))"
      using same [OF q(1)] ctrl [OF q(1)] by (auto simp: accepted_of_def leave bcast_to_rank_def)
    then show "(\<exists>x < P. w \<in> accepted_of ranks net x) \<or> (\<exists>x < P. w \<in> moving_of ranks net x) \<and> ok (vx w)
        \<and> key w < value_of ranks (vx w) \<and> value_of ?ranks (vx w) \<le> key w"
    proof cases
      case 1
      then show ?thesis using q(1) by blast
    next
      case 2
      then have w: "(w, False) \<in> set (arrival q)" "ok (vx w)" "home (vx w) = q"
          "val (alg_data (ranks' q)) (vx w) \<le> key w" "key w < val (alg_data (ranks q)) (vx w)"
        using R [OF q(1)] unfolding received_ok_def by blast+
      have "w \<in> moving_of ranks net q" using w(1) setarr [OF q(1)] by (simp add: moving_of_def unicast_to_def)
      then show ?thesis using w q(1) by (auto simp: value_of_def leave)
    qed
  next
    fix q w assume "q < P" "w \<in> moving_of ?ranks ?net q"
    then show "\<exists>x < P. w \<in> moving_of ranks net x"
      using same [of q] by (auto simp: moving_of_def leave unicast_to_def)
  next
    fix n assume ne: "value_of ?ranks n \<noteq> value_of ranks n"
    have "value_of ?ranks n < value_of ranks n" using ne Lle [of n] by simp
    then have "(n, value_of ?ranks n) \<in> pair ` set (owned (?ranks (home n)))"
      using R [OF home_less, of n] home_less by (simp add: value_of_def leave received_ok_def)
    moreover have "set (owned (?ranks (home n))) \<subseteq> accepted_of ?ranks ?net (home n)" by (auto simp: accepted_of_def)
    ultimately show "\<exists>r < P. (n, value_of ?ranks n) \<in> pair ` accepted_of ?ranks ?net r"
      using home_less pair_image_mono by blast
  qed
qed

lemma just_reach:
  assumes "vq_reach T g0 g" "trav_inv init S g0" "just_inv init g0"
  shows "just_inv init g"
  using assms
proof (induction rule: vq_reach.induct)
  case (reach_step g g')
  then have inv: "trav_inv init S g" and just: "just_inv init g" using vq_reach_inv by blast+
  from reach_step.hyps(2) show ?case
  proof cases
    case (local_step r k ranks net st net')
    then show ?thesis using rank_step_just inv just by (auto simp: trav_inv_def)
  next
    case (exchange_step ranks net arrival ranks')
    then show ?thesis using exchange_just [OF _ _ exchange_step(4,5)] inv just by (auto simp: trav_inv_def)
  qed
qed

theorem values_justified:
  assumes "vq_reach T g0 g" "trav_inv init S g0" "just_inv init g0"
  shows "value_of (fst g) n = init n \<or> V (value_of (fst g)) n (value_of (fst g) n)"
  using just_reach [OF assms] by (auto simp: just_inv_def Let_def split: prod.splits)

end

end
