(* ===== verification/Traversal_Termination.thy ===== *)
theory Traversal_Termination
  imports Traversal_Result
begin

section \<open>Traversals end\<close>

text \<open>
  A visitor is accepted only if it lowers a value, so on finitely many vertices with keys that cannot
  fall forever only finitely many visits happen.  The measure weighs the values, the queues, the
  messages and the visitors still to be queued; the second component counts the control steps a rank can
  take in between.  Every maximal run therefore ends, either with all ranks out of the loop or with a
  rank about to take a visitor from an empty queue.
\<close>

locale bounded = justified T key val ok out offers J V
  for T :: "('n, 'v, 'd) traversal" and key :: "'v \<Rightarrow> 'k :: linorder" and val :: "'d \<Rightarrow> 'n \<Rightarrow> 'k"
    and ok :: "'n \<Rightarrow> bool" and out :: "nat \<Rightarrow> 'v \<Rightarrow> 'v list" and offers :: "nat \<Rightarrow> 'n \<Rightarrow> 'k \<Rightarrow> ('n \<times> 'k) set"
    and J V :: "('n \<Rightarrow> 'k) \<Rightarrow> 'n \<Rightarrow> 'k \<Rightarrow> bool" +
  fixes verts :: "'n set" and mu :: "'k \<Rightarrow> nat" and D :: nat
  assumes finite_verts: "finite verts"
    and J_verts: "J L n k \<Longrightarrow> n \<in> verts"
    and mu: "k < k' \<Longrightarrow> mu k < mu k'"
    and out_length: "length (out r v) \<le> D"
begin

definition value_sum :: "'d \<Rightarrow> nat" where
  "value_sum d = (\<Sum>n \<in> verts. mu (val d n))"

lemma mu_mono: "k \<le> k' \<Longrightarrow> mu k \<le> mu k'"
  using mu by (metis le_less less_imp_le)

lemma value_sum_mono: "(\<And>n. val d' n \<le> val d n) \<Longrightarrow> value_sum d' \<le> value_sum d"
  unfolding value_sum_def by (intro sum_mono mu_mono) auto

lemma value_sum_less:
  assumes "\<And>n. val d' n \<le> val d n" "n \<in> verts" "val d' n < val d n"
  shows "value_sum d' < value_sum d"
  unfolding value_sum_def
  by (rule sum_strict_mono_ex1) (use assms finite_verts mu mu_mono in auto)

text \<open>A visitor is put into a queue only if it lowers a value; that pays for its visit.\<close>

lemma begin_value:
  assumes "vis r v d = (d', new, ret)" "vis = t_visit T \<or> vis = t_init_visit T"
  shows "value_sum d' \<le> value_sum d" "length new \<le> D"
proof -
  have l: "ret = (ok (vx v) \<and> key v \<le> val d (vx v)) \<and> new = (if ret then out r v else []) \<and>
      (val d' n = val d n \<or> ret \<and> n = vx v \<and> val d' n = key v)" for n
    using assms visit [of r v d d' new ret n] init_visit [of r v d d' new ret n] by blast
  have "val d' n \<le> val d n" for n using l [of n] by auto
  then show "value_sum d' \<le> value_sum d" by (rule value_sum_mono)
  show "length new \<le> D" using l out_length by auto
qed

lemma pre_visit_value:
  assumes "t_pre_visit T r v d = (d', b)" "vx v \<in> verts"
  shows "value_sum d' \<le> value_sum d" "b \<Longrightarrow> value_sum d' < value_sum d"
proof -
  have Q: "b = (ok (vx v) \<and> key v < val d (vx v))" "val d' n = (if b \<and> n = vx v then key v else val d n)" for n
    using pre_visit [OF assms(1), of n] by blast+
  have le: "val d' n \<le> val d n" for n using Q by (auto simp: less_imp_le)
  then show "value_sum d' \<le> value_sum d" by (rule value_sum_mono)
  show "value_sum d' < value_sum d" if b using value_sum_less [OF le assms(2)] Q that by simp
qed

sublocale weighted T "\<lambda>d. push_cost P D * value_sum d" "\<lambda>v. vx v \<in> verts" D
proof
  fix r v d d' new ret
  show "t_home T n < P" for n by (rule home_less)
  show "push_cost P D * value_sum d' \<le> push_cost P D * value_sum d \<and> length new \<le> D" if "t_visit T r v d = (d', new, ret)"
    using begin_value [where vis = "t_visit T", OF that] by simp
  show "push_cost P D * value_sum d' \<le> push_cost P D * value_sum d \<and> length new \<le> D" if "t_init_visit T r v d = (d', new, ret)"
    using begin_value [where vis = "t_init_visit T", OF that] by simp
  fix b
  assume p: "t_pre_visit T r v d = (d', b)" "vx v \<in> verts"
  have "push_cost P D * Suc (value_sum d') \<le> push_cost P D * value_sum d" if b
    using pre_visit_value(2) [OF p that] by (intro mult_le_mono2) simp
  then show "push_cost P D * value_sum d' \<le> push_cost P D * value_sum d \<and> (b \<and> home (vx v) = r \<longrightarrow> push_cost P D * value_sum d' + push_cost P D \<le> push_cost P D * value_sum d)"
    using pre_visit_value(1) [OF p] by auto
qed

lemma moving_verts:
  assumes "just_inv init (ranks, net)" "r < P" "v \<in> moving_of ranks net r"
  shows "vx v \<in> verts"
  using assms J_verts unfolding just_inv_def Let_def by blast

lemma run_decreases:
  assumes step: "vq_step T g g'" and inv: "trav_inv init S g" and just: "just_inv init g"
  shows "work g' < work g \<or> work g' = work g \<and> controls g' < controls g"
proof -
  obtain ranks net where g: "g = (ranks, net)" by (cases g)
  have placed: "placed (ranks, net)" using inv g by (simp add: trav_inv_def)
  have moving: "vx v \<in> verts" if "r < P" "v \<in> moving_of ranks net r" for r v
    using moving_verts that just g by blast
  have "sound_message m" if "r < P" "m \<in> set (net r)" for r m
    using addressed [OF placed that] moving [OF that(1), of "fst m"] that(2)
    by (cases m) (auto simp: sound_message_def addressed_to_def moving_of_def unicast_to_def)
  moreover have "vx v \<in> verts" if "r < P" "v \<in> set (todo_of (ranks r))" for r v
    using moving [OF that(1)] that(2) by (simp add: moving_of_def)
  ultimately show ?thesis using step_decreases [OF step] unfolding g by simp
qed

subsection \<open>No infinite run, and no rank is left waiting\<close>

theorem no_infinite_run:
  assumes "trav_inv init S (f 0)" "just_inv init (f 0)"
  shows "\<not> (\<forall>i. vq_step T (f i) (f (Suc i)))"
proof
  assume run: "\<forall>i. vq_step T (f i) (f (Suc i))"
  have reach: "vq_reach T (f 0) (f i)" for i
    by (induction i) (use run in \<open>auto intro: vq_reach.intros\<close>)
  have "(f (Suc i), f i) \<in> measures [work, controls]" for i
    using run_decreases [of "f i" "f (Suc i)" init S] run vq_reach_inv [OF reach assms(1)] just_reach [OF reach assms]
    by auto
  then show False using wf_measures [of "[work, controls]"] unfolding wf_iff_no_infinite_down_chain by blast
qed

lemma progress:
  assumes inv: "trav_inv init S g" and fin: "finish_inv T g" and stuck: "\<And>g'. \<not> vq_step T g g'"
  shows "all_finished P g \<or> (\<exists>r < P. pops_empty (fst g r))"
proof (rule stuck_finished [OF fin _ stuck])
  show "0 < P" using home_less by (metis not_gr_zero not_less_zero)
  have placed: "placed (fst g, snd g)" using inv by (simp add: trav_inv_def)
  show "receive_all T r (snd g r) (fst g r) \<noteq> None" if "r < P" for r
    using receive_all_ok [of "snd g r" r "fst g r"] addressed [OF placed that] by fastforce
qed

text \<open>Some run ends, and it ends in one of the two ways.\<close>

theorem run_ends:
  assumes "trav_inv init S g0" "just_inv init g0" "finish_inv T g0"
  shows "\<exists>g. vq_reach T g0 g \<and> (all_finished P g \<or> (\<exists>r < P. pops_empty (fst g r)))"
proof -
  let ?R = "measures [work, controls]"
  have "\<exists>g. vq_reach T g0 g \<and> (\<forall>g'. \<not> vq_step T g g')" if "vq_reach T g0 h" for h
    using that
  proof (induction h rule: wf_induct_rule [OF wf_measures [of "[work, controls]"]])
    case (1 h)
    show ?case
    proof (cases "\<exists>h'. vq_step T h h'")
      case True
      then obtain h' where h': "vq_step T h h'" by blast
      have "(h', h) \<in> ?R"
        using run_decreases [OF h' vq_reach_inv [OF 1(2) assms(1)] just_reach [OF 1(2) assms(1,2)]] by auto
      then show ?thesis using 1 h' vq_reach.reach_step by blast
    next
      case False
      then show ?thesis using 1(2) by blast
    qed
  qed
  then obtain g where g: "vq_reach T g0 g" "\<And>g'. \<not> vq_step T g g'" using vq_reach.reach_refl by blast
  then show ?thesis
    using progress [OF vq_reach_inv [OF g(1) assms(1)] finish_inv_reach [OF g(1) assms(3)]] by blast
qed

text \<open>Without delegates there are no controllers, so a queue found non-empty holds an owned visitor.\<close>

definition popping :: "(nat \<Rightarrow> ('v, 'd) vq) \<times> 'v net \<Rightarrow> bool" where
  "popping g \<longleftrightarrow> (\<forall>r < P. at_pc (fst g r) \<in> {Drain_Inner, Pop_Top} \<longrightarrow> running (fst g r) = None \<and> owned (fst g r) \<noteq> [])"

lemma popping_step:
  assumes step: "vq_step T g g'" and inv: "trav_inv init S g" and pop: "popping g" and nodel: "\<And>n. \<not> t_delegate T n"
  shows "popping g'"
  using step
proof cases
  case (local_step r k ranks net st net')
  have placed: "placed (ranks, net)" using inv local_step by (simp add: trav_inv_def)
  have ctrl: "controllers (ranks r) = []" using placedD(3) [OF placed local_step(3)] nodel by (cases "controllers (ranks r)") auto
  have "at_pc st \<in> {Drain_Inner, Pop_Top} \<longrightarrow> running st = None \<and> owned st \<noteq> []"
  proof (cases "running (ranks r)")
    case None
    then show ?thesis using local_step(4) ctrl pop local_step(1,3)
      by (cases "at_pc (ranks r)")
         (auto simp: popping_def is_empty_def drain_controllers_def split: list.splits if_splits)
  next
    case (Some p)
    have "at_pc (ranks r) \<notin> {Drain_Inner, Pop_Top}" using pop Some local_step(1,3) by (auto simp: popping_def)
    moreover have "at_pc st = at_pc (ranks r)"
      using local_step(4) Some queue_visitor_pc by (cases p; cases "fst p"; cases "snd p") fastforce+
    ultimately show ?thesis by simp
  qed
  then show ?thesis using pop local_step(1,2) by (auto simp: popping_def)
next
  case (exchange_step ranks net arrival ranks')
  show ?thesis
    unfolding popping_def
  proof (intro allI impI)
    fix r assume r: "r < P" and pc: "at_pc (fst g' r) \<in> {Drain_Inner, Pop_Top}"
    have placed: "placed (ranks, net)" using inv exchange_step(1) by (simp add: trav_inv_def)
    have "set (arrival r) = set (net r)" using exchange_step(4) [OF r] by (metis mset_eq_setD)
    then have R: "received_ok r (arrival r) (ranks r) (ranks' r)"
      using receive_all_ok [of "arrival r" r "ranks r"] addressed [OF placed r] exchange_step(5) [OF r] by auto
    then have pcs: "at_pc (ranks' r) = at_pc (ranks r)" "running (ranks' r) = running (ranks r)" by (simp_all add: received_ok_def)
    have "at_pc (ranks r) \<in> {Drain_Inner, Pop_Top}"
      using pc r pcs by (auto simp: exchange_step(2) leave_exchange_def split: if_splits)
    then have "running (ranks r) = None" using pop r exchange_step(1) by (auto simp: popping_def)
    moreover have "in_global_empty (ranks r) \<or> running (ranks r) \<noteq> None" using exchange_step(3) r by (auto simp: can_exchange_def)
    ultimately have "at_pc (ranks r) = Test_Outer" by (simp add: in_global_empty_def)
    then show "running (fst g' r) = None \<and> owned (fst g' r) \<noteq> []" using \<open>at_pc (ranks r) \<in> _\<close> by simp
  qed
qed

theorem run_finishes_without_delegates:
  assumes "trav_inv init S g0" "just_inv init g0" "finish_inv T g0" "popping g0" "\<And>n. \<not> t_delegate T n"
  shows "\<exists>g. vq_reach T g0 g \<and> all_finished P g"
    and "vq_reach T g0 g \<Longrightarrow> r < P \<Longrightarrow> \<not> pops_empty (fst g r)"
proof -
  have pop: "popping g" if "vq_reach T g0 g" for g
    using that
  proof (induction rule: vq_reach.induct)
    case (reach_step g g')
    then show ?case using popping_step vq_reach_inv assms by blast
  qed (rule assms(4))
  show no: "vq_reach T g0 g \<Longrightarrow> r < P \<Longrightarrow> \<not> pops_empty (fst g r)" for g r
    using pop [of g] by (auto simp: popping_def pops_empty_def)
  show "\<exists>g. vq_reach T g0 g \<and> all_finished P g" using run_ends [OF assms(1-3)] no by blast
qed

text \<open>The three together, for a traversal that starts in \<open>g0\<close>.\<close>

definition ends :: "(nat \<Rightarrow> ('v, 'd) vq) \<times> 'v net \<Rightarrow> bool" where
  "ends g0 \<longleftrightarrow> (\<nexists>f. f 0 = g0 \<and> (\<forall>i. vq_step T (f i) (f (Suc i)))) \<and>
     (\<exists>g. vq_reach T g0 g \<and> (all_finished P g \<or> (\<exists>r < P. pops_empty (fst g r)))) \<and>
     (\<forall>g. vq_reach T g0 g \<and> (\<forall>g'. \<not> vq_step T g g') \<longrightarrow>
        all_finished P g \<or> (\<exists>n. t_delegate T n) \<and> (\<exists>r < P. pops_empty (fst g r)))"

theorem always_ends:
  assumes "trav_inv init S g0" "just_inv init g0" "finish_inv T g0" "popping g0"
  shows "ends g0"
proof -
  have "\<nexists>f. f 0 = g0 \<and> (\<forall>i. vq_step T (f i) (f (Suc i)))" using no_infinite_run assms(1,2) by metis
  moreover have "\<exists>g. vq_reach T g0 g \<and> (all_finished P g \<or> (\<exists>r < P. pops_empty (fst g r)))" by (rule run_ends [OF assms(1-3)])
  moreover have "all_finished P g \<or> (\<exists>n. t_delegate T n) \<and> (\<exists>r < P. pops_empty (fst g r))"
    if g: "vq_reach T g0 g" and stuck: "\<And>g'. \<not> vq_step T g g'" for g
    using progress [OF vq_reach_inv [OF g assms(1)] finish_inv_reach [OF g assms(3)] stuck]
      run_finishes_without_delegates(2) [OF assms _ g] by blast
  ultimately show ?thesis unfolding ends_def by blast
qed

end

end
