(* ===== verification/Traversal_Start.thy ===== *)
theory Traversal_Start
  imports Traversal_Termination
begin

section \<open>The entry points establish the invariants\<close>

text \<open>
  \<open>init_visitor_traversal\<close> in its three forms: every invariant of the loop holds when the loop is
  entered, so the results of \<open>Traversal_Result\<close> and \<open>Traversal_Termination\<close> apply to whole traversals.
\<close>

lemma start_source_fields [simp]:
  "alg_data (fst (start_source v d) r) = d r" "owned (fst (start_source v d) r) = []"
  "controllers (fst (start_source v d) r) = []" "start_of (fst (start_source v d) r) = {}"
  "todo_of (fst (start_source v d) r) = (if r = 0 then [v] else [])" "bcast_of (fst (start_source v d) r) = []"
  "at_pc (fst (start_source v d) r) = Start_Controller" "snd (start_source v d) = (\<lambda>r. [])"
  by (simp_all add: start_source_def new_vq_def start_of_def todo_of_def bcast_of_def)

lemma start_all_fields [simp]:
  "alg_data (fst (start_all cs vs d) r) = d r" "owned (fst (start_all cs vs d) r) = []"
  "controllers (fst (start_all cs vs d) r) = []" "start_of (fst (start_all cs vs d) r) = set (cs r) \<union> set (vs r)"
  "todo_of (fst (start_all cs vs d) r) = []" "bcast_of (fst (start_all cs vs d) r) = []"
  "at_pc (fst (start_all cs vs d) r) = Start_Controller" "snd (start_all cs vs d) = (\<lambda>r. [])"
  by (simp_all add: start_all_def new_vq_def start_of_def todo_of_def bcast_of_def)

lemma no_messages [simp]: "unicast_to (\<lambda>r. []) = (\<lambda>r. {})" "bcast_to_rank (\<lambda>r. []) = (\<lambda>r. {})"
  by (auto simp: unicast_to_def bcast_to_rank_def)

context relaxing
begin

lemma value_of_start:
  "value_of (fst (start_source v d)) n = val (d (home n)) n" "value_of (fst (start_all cs vs d)) n = val (d (home n)) n"
  by (simp_all add: value_of_def)

lemma start_source_inv:
  assumes "\<And>n. val (d (home n)) n = init n" "\<And>r n. r < P \<Longrightarrow> t_delegate T n \<Longrightarrow> init n \<le> val (d r) n"
  shows "trav_inv init ({}, {(0, pair v)}) (start_source v d)"
proof -
  obtain ranks net where g: "start_source v d = (ranks, net)" by fastforce
  have f: "fst (start_source v d) = ranks" "snd (start_source v d) = net" by (simp_all add: g)
  note fields = start_source_fields [where v = v and d = d, unfolded f] value_of_start(1) [of v d, unfolded f] assms(1)
  have "placed (ranks, net)" by (simp add: placed_def fields)
  moreover have "copies_ok (ranks, net)" using assms(2) by (simp add: copies_ok_def lowered_def fields)
  moreover have "complete init ({}, {(0, pair v)}) (ranks, net)"
    by (auto simp: complete_def settled_def fields)
  ultimately show ?thesis by (simp add: trav_inv_def fields g)
qed

lemma start_all_inv:
  assumes "\<And>n. val (d (home n)) n = init n" "\<And>r n. r < P \<Longrightarrow> t_delegate T n \<Longrightarrow> init n \<le> val (d r) n"
    and placed: "\<And>r v. r < P \<Longrightarrow> v \<in> set (cs r) \<union> set (vs r) \<Longrightarrow> home (vx v) = r \<and> init (vx v) \<le> key v"
    and starts: "\<And>u. u \<in> U \<Longrightarrow> ok u \<Longrightarrow> (u, init u) \<in> pair ` (set (cs (home u)) \<union> set (vs (home u)))"
  shows "trav_inv init (U, {}) (start_all cs vs d)"
proof -
  obtain ranks net where g: "start_all cs vs d = (ranks, net)" by fastforce
  have f: "fst (start_all cs vs d) = ranks" "snd (start_all cs vs d) = net" by (simp_all add: g)
  note fields = start_all_fields [where cs = cs and vs = vs and d = d, unfolded f]
    value_of_start(2) [of cs vs d, unfolded f] assms(1)
  have "value_of ranks = init" by (simp add: fields fun_eq_iff)
  then have "placed (ranks, net)" using placed by (intro placedI) (auto simp: fields)
  moreover have "copies_ok (ranks, net)" using assms(2) by (simp add: copies_ok_def lowered_def fields)
  moreover have "complete init (U, {}) (ranks, net)"
    unfolding complete_def pending_def using starts by (simp add: fields)
  ultimately show ?thesis by (simp add: trav_inv_def fields g)
qed

end

context justified
begin

lemma start_source_just:
  assumes "\<And>n. val (d (home n)) n = init n" "J init (vx v) (key v)"
  shows "just_inv init (start_source v d)"
proof -
  obtain ranks net where g: "start_source v d = (ranks, net)" by fastforce
  have f: "fst (start_source v d) = ranks" "snd (start_source v d) = net" by (simp_all add: g)
  note fields = start_source_fields [where v = v and d = d, unfolded f]
  have "value_of ranks = init" using value_of_start(1) [of v d, unfolded f] assms(1) by (simp add: fun_eq_iff)
  then show ?thesis using assms(2)
    by (simp add: just_inv_def accepted_of_def moving_of_def fields g)
qed

lemma start_all_just:
  assumes "\<And>n. val (d (home n)) n = init n"
    and "\<And>r v. r < P \<Longrightarrow> v \<in> set (cs r) \<union> set (vs r) \<Longrightarrow> V init (vx v) (key v)"
  shows "just_inv init (start_all cs vs d)"
proof -
  obtain ranks net where g: "start_all cs vs d = (ranks, net)" by fastforce
  have f: "fst (start_all cs vs d) = ranks" "snd (start_all cs vs d) = net" by (simp_all add: g)
  note fields = start_all_fields [where cs = cs and vs = vs and d = d, unfolded f]
  have "value_of ranks = init" using value_of_start(2) [of cs vs d, unfolded f] assms(1) by (simp add: fun_eq_iff)
  then show ?thesis using assms(2)
    unfolding just_inv_def accepted_of_def moving_of_def g by (simp add: fields)
qed

end

context bounded
begin

lemma popping_start: "popping (start_source v d)" "popping (start_all cs vs d)"
  by (simp_all add: popping_def)

end

end
