(* ===== verification/Visitor_Runs.thy ===== *)
theory Visitor_Runs
  imports Visitor_Queue
begin

section \<open>Running a schedule\<close>

text \<open>
  An executable run of the visitor queue: \<open>Some (r, k)\<close> lets rank \<open>r\<close> take one step (taking the visitor at
  position \<open>k\<close> if it pops one), \<open>None\<close> is an exchange that delivers in the order of sending.  Concrete
  runs are evaluated with it.
\<close>

type_synonym schedule = "(nat \<times> nat) option list"

definition deliver_all ::
    "('n, 'v, 'd) traversal \<Rightarrow> (nat \<Rightarrow> ('v, 'd) vq) \<times> 'v net \<Rightarrow> (nat \<Rightarrow> ('v, 'd) vq) option" where
  "deliver_all T g =
     (if can_exchange (t_size T) g \<and> (\<forall>r < t_size T. receive_all T r (snd g r) (fst g r) \<noteq> None)
      then Some (\<lambda>r. if r < t_size T then leave_exchange (net_empty (t_size T) (snd g)) (the (receive_all T r (snd g r) (fst g r)))
                 else fst g r)
      else None)"

definition schedule_step ::
    "('n, 'v, 'd) traversal \<Rightarrow> (nat \<times> nat) option \<Rightarrow> (nat \<Rightarrow> ('v, 'd) vq) \<times> 'v net \<Rightarrow> ((nat \<Rightarrow> ('v, 'd) vq) \<times> 'v net) option" where
  "schedule_step T x g =
     (case x of
        Some (r, k) \<Rightarrow>
          if r < t_size T then map_option (\<lambda>(st, net'). ((fst g)(r := st), net')) (rank_step T r k (fst g r, snd g)) else None
      | None \<Rightarrow> map_option (\<lambda>ranks'. (ranks', \<lambda>r. if r < t_size T then [] else snd g r)) (deliver_all T g))"

fun run_schedule ::
    "('n, 'v, 'd) traversal \<Rightarrow> schedule \<Rightarrow> (nat \<Rightarrow> ('v, 'd) vq) \<times> 'v net \<Rightarrow> ((nat \<Rightarrow> ('v, 'd) vq) \<times> 'v net) option" where
  "run_schedule T [] g = Some g"
| "run_schedule T (x # s) g = Option.bind (schedule_step T x g) (run_schedule T s)"

lemma deliver_all_step:
  assumes "deliver_all T (ranks, net) = Some ranks'"
  shows "vq_step T (ranks, net) (ranks', \<lambda>r. if r < t_size T then [] else net r)"
proof -
  have c: "can_exchange (t_size T) (ranks, net)" "\<forall>r < t_size T. receive_all T r (net r) (ranks r) \<noteq> None"
    and eq: "ranks' = (\<lambda>r. if r < t_size T then leave_exchange (net_empty (t_size T) net) (the (receive_all T r (net r) (ranks r)))
        else ranks r)"
    using assms by (auto simp: deliver_all_def split: if_splits)
  show ?thesis unfolding eq
    by (rule exchange_step [where arrival = net]) (use c in auto)
qed

lemma schedule_step_step:
  assumes "schedule_step T x g = Some g'"
  shows "vq_step T g g'"
proof (cases x)
  case None
  then obtain ranks' where "deliver_all T (fst g, snd g) = Some ranks'" "g' = (ranks', \<lambda>r. if r < t_size T then [] else snd g r)"
    using assms by (auto simp: schedule_step_def)
  then show ?thesis using deliver_all_step [of T "fst g" "snd g" ranks'] by simp
next
  case (Some p)
  then obtain r k st net' where "r < t_size T" "rank_step T r k (fst g r, snd g) = Some (st, net')" "g' = ((fst g)(r := st), net')"
    using assms by (cases p) (auto simp: schedule_step_def split: if_splits)
  then show ?thesis using local_step [of r T k "fst g" "snd g" st net'] by simp
qed

lemma run_schedule_reach: "run_schedule T s g = Some g' \<Longrightarrow> vq_reach T g0 g \<Longrightarrow> vq_reach T g0 g'"
proof (induction s arbitrary: g)
  case (Cons x s)
  then obtain h where h: "schedule_step T x g = Some h" "run_schedule T s h = Some g'" by (auto simp: bind_eq_Some_conv)
  show ?case using Cons.IH [OF h(2) reach_step [OF Cons.prems(2) schedule_step_step [OF h(1)]]] .
qed simp

lemmas schedule_reach = run_schedule_reach [OF _ vq_reach.reach_refl]


text \<open>What the simplifier needs to evaluate a schedule step by step.\<close>

lemmas run_eval = schedule_step_def start_source_def start_all_def new_vq_def queue_visitor_def local_delegate_visit_def
  push_def mailbox_send_def mailbox_bcast_def drain_controllers_def begin_controller_def begin_visit_def is_empty_def
  pop_top_def deliver_all_def can_exchange_def in_global_empty_def net_empty_def leave_exchange_def
  handle_mailbox_receive_def pops_empty_def all_finished_def All_less_Suc Let_def

end
