(* ===== verification/Visitor_Graph.thy ===== *)
theory Visitor_Graph
  imports Traversal_Start Visitor_Runs
begin

section \<open>The graph an algorithm sees\<close>

text \<open>
  The interface of \<open>delegate_partitioned_graph\<close> that visitors use: which rank is home to a vertex, which
  vertices are delegates, and the edges stored at each rank; walks along the edges; well-formedness.
\<close>

subsection \<open>The graph\<close>

text \<open>
  \<open>g_home\<close> is the owner of an ordinary vertex and the master of a delegate; \<open>g_edges r n\<close> lists what
  \<open>edges_begin(n) .. edges_end(n)\<close> yields at rank \<open>r\<close>: all edges of an ordinary vertex at its owner, and
  the part of a delegate's edges that the partitioning gave to \<open>r\<close>.
\<close>

record 'n dgraph =
  g_size :: nat
  g_delegate :: "'n \<Rightarrow> bool"
  g_home :: "'n \<Rightarrow> nat"
  g_edges :: "nat \<Rightarrow> 'n \<Rightarrow> 'n list"

definition has_edge :: "'n dgraph \<Rightarrow> 'n \<Rightarrow> 'n \<Rightarrow> bool" where
  "has_edge G u w \<longleftrightarrow> (\<exists>r < g_size G. (r = g_home G u \<or> g_delegate G u) \<and> w \<in> set (g_edges G r u))"

inductive walk :: "'n dgraph \<Rightarrow> 'n \<Rightarrow> 'n \<Rightarrow> nat \<Rightarrow> bool" for G s where
  walk_start: "walk G s s 0"
| walk_edge: "walk G s u k \<Longrightarrow> has_edge G u w \<Longrightarrow> walk G s w (Suc k)"

text \<open>A graph whose ranks exist, with finitely many vertices and no edges stored at ranks that do not hold them.\<close>

definition wf_graph :: "'n dgraph \<Rightarrow> 'n set \<Rightarrow> nat \<Rightarrow> bool" where
  "wf_graph G verts D \<longleftrightarrow> finite verts \<and> (\<forall>n. g_home G n < g_size G) \<and>
     (\<forall>r u. set (g_edges G r u) \<subseteq> verts \<and> length (g_edges G r u) \<le> D) \<and>
     (\<forall>r u. g_edges G r u \<noteq> [] \<longrightarrow> r < g_size G \<and> (r = g_home G u \<or> g_delegate G u))"

lemma has_edge_at: "wf_graph G verts D \<Longrightarrow> w \<in> set (g_edges G r u) \<Longrightarrow> has_edge G u w"
  unfolding wf_graph_def has_edge_def by (metis list.set_cases list.distinct(1))

lemma walk_verts: "walk G s w k \<Longrightarrow> wf_graph G verts D \<Longrightarrow> s \<in> verts \<Longrightarrow> w \<in> verts"
  by (induction rule: walk.induct) (auto simp: has_edge_def wf_graph_def)

text \<open>The interpretation speaks about every graph; one that is not well formed is replaced by an empty one.\<close>

definition checked :: "'n dgraph \<Rightarrow> 'n set \<Rightarrow> nat \<Rightarrow> 'n dgraph" where
  "checked G verts D = (if wf_graph G verts D then G
     else \<lparr>g_size = 1, g_delegate = (\<lambda>n. False), g_home = (\<lambda>n. 0), g_edges = (\<lambda>r n. [])\<rparr>)"

definition checked_verts :: "'n dgraph \<Rightarrow> 'n set \<Rightarrow> nat \<Rightarrow> 'n set" where
  "checked_verts G verts D = (if wf_graph G verts D then verts else {})"

lemma checked_eq [simp]:
  "wf_graph G verts D \<Longrightarrow> checked G verts D = G" "wf_graph G verts D \<Longrightarrow> checked_verts G verts D = verts"
  by (simp_all add: checked_def checked_verts_def)

lemma wf_checked: "wf_graph (checked G verts D) (checked_verts G verts D) D"
  by (simp add: checked_def checked_verts_def) (simp add: wf_graph_def)

text \<open>
  The vertices that a traversal of all vertices starts from: at every rank the delegates it is master of (its controllers) and the
  ordinary vertices it owns, each once.  Work done for a vertex at its home, and at all other ranks for a delegate, is then
  done exactly once at every rank that stores edges of it.
\<close>

definition starts_placed :: "'n dgraph \<Rightarrow> 'n set \<Rightarrow> (nat \<Rightarrow> 'n list) \<Rightarrow> (nat \<Rightarrow> 'n list) \<Rightarrow> bool" where
  "starts_placed G verts cs vs \<longleftrightarrow> (\<forall>r < g_size G. distinct (cs r @ vs r)
     \<and> set (cs r) = {n \<in> verts. g_home G n = r \<and> g_delegate G n} \<and> set (vs r) = {n \<in> verts. g_home G n = r \<and> \<not> g_delegate G n})"

definition holders :: "'n dgraph \<Rightarrow> 'n \<Rightarrow> nat set" where
  "holders G n = {r. r < g_size G \<and> (r = g_home G n \<or> g_delegate G n)}"

lemma holders_sum:
  fixes F :: "nat \<Rightarrow> 'n \<Rightarrow> 'a :: comm_monoid_add"
  assumes "g_home G u < g_size G"
  shows "F (g_home G u) u + (if g_delegate G u then \<Sum>q \<in> {..<g_size G} - {g_home G u}. F q u else 0) = (\<Sum>r \<in> holders G u. F r u)"
proof (cases "g_delegate G u")
  case True
  then have "holders G u = {..<g_size G}" by (auto simp: holders_def)
  then show ?thesis using True assms sum.remove [of "{..<g_size G}" "g_home G u" "\<lambda>q. F q u"] by simp
next
  case False
  then have "holders G u = {g_home G u}" using assms by (auto simp: holders_def)
  then show ?thesis using False by simp
qed

lemma placed_sum:
  fixes F :: "nat \<Rightarrow> 'n \<Rightarrow> 'a :: comm_monoid_add"
  assumes placed: "starts_placed G verts cs vs" and fin: "finite verts" and home: "\<And>n. g_home G n < g_size G"
  shows "(\<Sum>r < g_size G. \<Sum>u \<leftarrow> cs r @ vs r. F r u + (if g_delegate G u \<and> g_home G u = r then \<Sum>q \<in> {..<g_size G} - {r}. F q u else 0))
    = (\<Sum>u \<in> verts. \<Sum>r \<in> holders G u. F r u)"
proof -
  let ?H = "\<lambda>u. \<Sum>r \<in> holders G u. F r u"
  have "(\<Sum>u \<leftarrow> cs r @ vs r. F r u + (if g_delegate G u \<and> g_home G u = r then \<Sum>q \<in> {..<g_size G} - {r}. F q u else 0)) = (\<Sum>u \<in> {n \<in> verts. g_home G n = r}. ?H u)"
    if r: "r < g_size G" for r
  proof -
    have p: "distinct (cs r @ vs r)" "set (cs r @ vs r) = {n \<in> verts. g_home G n = r}" using placed r by (auto simp: starts_placed_def)
    have "(\<Sum>u \<leftarrow> cs r @ vs r. F r u + (if g_delegate G u \<and> g_home G u = r then \<Sum>q \<in> {..<g_size G} - {r}. F q u else 0))
        = (\<Sum>u \<in> set (cs r @ vs r). F r u + (if g_delegate G u \<and> g_home G u = r then \<Sum>q \<in> {..<g_size G} - {r}. F q u else 0))"
      by (rule sum_list_distinct_conv_sum_set [OF p(1)])
    also have "\<dots> = (\<Sum>u \<in> {n \<in> verts. g_home G n = r}. ?H u)"
      unfolding p(2)
    proof (rule sum.cong [OF refl])
      fix u assume "u \<in> {n \<in> verts. g_home G n = r}"
      then show "F r u + (if g_delegate G u \<and> g_home G u = r then \<Sum>q \<in> {..<g_size G} - {r}. F q u else 0) = ?H u"
        using holders_sum [OF home, of F u] by auto
    qed
    finally show ?thesis .
  qed
  then have "(\<Sum>r < g_size G. \<Sum>u \<leftarrow> cs r @ vs r. F r u + (if g_delegate G u \<and> g_home G u = r then \<Sum>q \<in> {..<g_size G} - {r}. F q u else 0))
      = (\<Sum>r < g_size G. \<Sum>u \<in> {n \<in> verts. g_home G n = r}. ?H u)"
    by (intro sum.cong) auto
  also have "\<dots> = (\<Sum>u \<in> verts. ?H u)"
    using fin home by (subst sum.group) auto
  finally show ?thesis .
qed

text \<open>A graph over two ranks with a hub, for concrete runs.\<close>

definition hub_graph :: "nat dgraph" where
  "hub_graph = \<lparr>g_size = 2, g_delegate = (\<lambda>n. n = 0), g_home = (\<lambda>n. n mod 2),
     g_edges = (\<lambda>r n. if r = 0 \<and> n = 0 then [1] else if r = 1 \<and> n = 1 then [2] else [])\<rparr>"

lemma hub_sel [simp]:
  "g_size hub_graph = 2" "g_delegate hub_graph n \<longleftrightarrow> n = 0" "g_home hub_graph n = n mod 2"
  "g_edges hub_graph r n = (if r = 0 \<and> n = 0 then [1] else if r = 1 \<and> n = 1 then [2] else [])"
  by (simp_all add: hub_graph_def)

lemma wf_hub: "wf_graph hub_graph {0, 1, 2} 1"
  by (auto simp: wf_graph_def split: if_splits)

lemma all_less_2: "(\<forall>r < 2. P r) \<longleftrightarrow> P (0 :: nat) \<and> P 1"
  by (auto simp: less_2_cases_iff)

lemma replicate_run: "replicate (numeral n) x = x # replicate (pred_numeral n) x"
  by (simp add: numeral_eq_Suc)

end
