(* ===== verification/Bfs.thy ===== *)
theory Bfs
  imports Visitor_Graph
begin

section \<open>Breadth-first search (breadth\_first\_search.hpp)\<close>

text \<open>
  The visitor of the breadth-first search, and what the search leaves behind: the level of every vertex at its home rank is its distance from the source, as far as 16 bits
  reach, on every schedule and for every distribution of the edges of the delegates.
\<close>

subsection \<open>The visitor\<close>

record 'n bfs_visitor =
  vertex :: 'n
  m_parent :: 'n
  m_level :: "16 word"

text \<open>The algorithm's data: the tuple of \<open>level_data\<close> and \<open>parent_data\<close>.\<close>

type_synonym 'n bfs_data = "('n \<Rightarrow> 16 word) \<times> ('n \<Rightarrow> 'n)"

definition bfs_new_visitor :: "'n \<Rightarrow> 64 word \<Rightarrow> 'n \<Rightarrow> 'n bfs_visitor" where
  "bfs_new_visitor v l p = \<lparr>vertex = v, m_parent = p, m_level = ucast l\<rparr>"

definition bfs_source_visitor :: "'n \<Rightarrow> 'n bfs_visitor" where
  "bfs_source_visitor v = \<lparr>vertex = v, m_parent = v, m_level = 0\<rparr>"

definition level :: "'n bfs_visitor \<Rightarrow> 64 word" where
  "level v = ucast (m_level v)"

definition bfs_pre_visit :: "nat \<Rightarrow> 'n bfs_visitor \<Rightarrow> 'n bfs_data \<Rightarrow> 'n bfs_data \<times> bool" where
  "bfs_pre_visit r v d =
     (let (levels, parents) = d; do_visit = ucast (levels (vertex v)) > level v
      in if do_visit then ((levels(vertex v := ucast (level v)), parents), do_visit) else (d, do_visit))"

definition bfs_visit ::
    "'n dgraph \<Rightarrow> nat \<Rightarrow> 'n bfs_visitor \<Rightarrow> 'n bfs_data \<Rightarrow> 'n bfs_data \<times> 'n bfs_visitor list \<times> bool" where
  "bfs_visit G r v d =
     (let (levels, parents) = d
      in if level v \<le> ucast (levels (vertex v))
         then ((levels(vertex v := ucast (level v)), parents(vertex v := m_parent v)),
               map (\<lambda>neighbor. bfs_new_visitor neighbor (level v + 1) (vertex v)) (g_edges G r (vertex v)), True)
         else (d, [], False))"

definition bfs_traversal :: "'n dgraph \<Rightarrow> ('n, 'n bfs_visitor, 'n bfs_data) traversal" where
  "bfs_traversal G = \<lparr>t_size = g_size G, t_vertex = vertex, t_delegate = g_delegate G, t_home = g_home G,
     t_pre_visit = bfs_pre_visit, t_visit = bfs_visit G, t_init_visit = bfs_visit G\<rparr>"

text \<open>
  \<open>breadth_first_search(g, level_data, parent_data, s)\<close> as its callers run it: the levels have been reset
  to the largest 16-bit value; the parents are whatever they were.
\<close>

definition breadth_first_search ::
    "(nat \<Rightarrow> 'n \<Rightarrow> 'n) \<Rightarrow> 'n \<Rightarrow> (nat \<Rightarrow> ('n bfs_visitor, 'n bfs_data) vq) \<times> 'n bfs_visitor net" where
  "breadth_first_search parents s = start_source (bfs_source_visitor s) (\<lambda>r. (\<lambda>n. 65535, parents r))"

definition level_of :: "'n dgraph \<Rightarrow> (nat \<Rightarrow> ('n bfs_visitor, 'n bfs_data) vq) \<Rightarrow> 'n \<Rightarrow> 16 word" where
  "level_of G ranks n = fst (alg_data (ranks (g_home G n))) n"

subsection \<open>The search relaxes\<close>

definition bfs_out :: "'n dgraph \<Rightarrow> nat \<Rightarrow> 'n bfs_visitor \<Rightarrow> 'n bfs_visitor list" where
  "bfs_out G r v = map (\<lambda>neighbor. bfs_new_visitor neighbor (level v + 1) (vertex v)) (g_edges G r (vertex v))"

definition bfs_offers :: "'n dgraph \<Rightarrow> nat \<Rightarrow> 'n \<Rightarrow> 16 word \<Rightarrow> ('n \<times> 16 word) set" where
  "bfs_offers G r n k = (\<lambda>w. (w, k + 1)) ` set (g_edges G r n)"

lemma unat_widen [simp]: "unat (ucast (k :: 16 word) :: 64 word) = unat k"
  by transfer (simp add: min_def)

lemma ucast_widen [simp]: "ucast (ucast (k :: 16 word) :: 64 word) = k"
  by transfer (simp add: min_def)

lemma ucast_widen_plus [simp]: "ucast (ucast (k :: 16 word) + 1 :: 64 word) = k + 1"
  by transfer (simp add: take_bit_eq_mod mod_mod_cancel mod_add_left_eq)

lemma level_less [simp]: "level v < ucast (k :: 16 word) \<longleftrightarrow> m_level v < k"
  by (simp add: level_def word_less_nat_alt)

lemma level_le [simp]: "level v \<le> ucast (k :: 16 word) \<longleftrightarrow> m_level v \<le> k"
  by (simp add: level_def word_le_nat_alt)

lemma ucast_level [simp]: "ucast (level v) = m_level v" "ucast (level v + 1) = m_level v + 1"
  by (simp_all add: level_def)


definition bfs_moving :: "'n dgraph \<Rightarrow> 'n set \<Rightarrow> 'n \<Rightarrow> ('n \<Rightarrow> 16 word) \<Rightarrow> 'n \<Rightarrow> 16 word \<Rightarrow> bool" where
  "bfs_moving G verts s L n k \<longleftrightarrow> n \<in> verts \<and> walk G s n (unat k)"

definition bfs_accepted :: "'n dgraph \<Rightarrow> 'n set \<Rightarrow> 'n \<Rightarrow> ('n \<Rightarrow> 16 word) \<Rightarrow> 'n \<Rightarrow> 16 word \<Rightarrow> bool" where
  "bfs_accepted G verts s L n k \<longleftrightarrow> n \<in> verts \<and> walk G s n (unat k) \<and> k \<noteq> - 1"

lemma next_level: "k \<noteq> - 1 \<Longrightarrow> unat (k + 1 :: 16 word) = Suc (unat k)"
  using unatSuc [of k] eq_neg_iff_add_eq_0 [of k 1] by (simp add: add.commute)

lemma below_top: "k < (l :: 16 word) \<Longrightarrow> k \<noteq> - 1"
  by (metis linorder_not_less word_order.extremum)

lemma bfs_laws:
  assumes wf: "wf_graph G verts D"
  shows "bounded (bfs_traversal G) m_level fst (\<lambda>n. True) (bfs_out G) (bfs_offers G)
    (bfs_moving G verts s) (bfs_accepted G verts s) verts unat D"
proof unfold_locales
  show "t_home (bfs_traversal G) n < t_size (bfs_traversal G)" for n
    using wf by (simp add: bfs_traversal_def wf_graph_def)
  show "t_pre_visit (bfs_traversal G) r v d = (d', b) \<Longrightarrow>
      b = (True \<and> m_level v < fst d (t_vertex (bfs_traversal G) v)) \<and>
      fst d' n = (if b \<and> n = t_vertex (bfs_traversal G) v then m_level v else fst d n)" for r v d d' b n
    by (auto simp: bfs_traversal_def bfs_pre_visit_def Let_def split: prod.splits if_splits)
  show "t_visit (bfs_traversal G) r v d = (d', new, ret) \<Longrightarrow>
      ret = (True \<and> m_level v \<le> fst d (t_vertex (bfs_traversal G) v)) \<and> new = (if ret then bfs_out G r v else []) \<and>
      (fst d' n = fst d n \<or> ret \<and> n = t_vertex (bfs_traversal G) v \<and> fst d' n = m_level v)" for r v d d' new ret n
    by (auto simp: bfs_traversal_def bfs_visit_def bfs_out_def split: prod.splits if_splits)
  show "t_init_visit (bfs_traversal G) r v d = (d', new, ret) \<Longrightarrow>
      ret = (True \<and> m_level v \<le> fst d (t_vertex (bfs_traversal G) v)) \<and> new = (if ret then bfs_out G r v else []) \<and>
      (fst d' n = fst d n \<or> ret \<and> n = t_vertex (bfs_traversal G) v \<and> fst d' n = m_level v)" for r v d d' new ret n
    by (auto simp: bfs_traversal_def bfs_visit_def bfs_out_def split: prod.splits if_splits)
  show "(\<lambda>v. (t_vertex (bfs_traversal G) v, m_level v)) ` set (bfs_out G r v) =
      bfs_offers G r (t_vertex (bfs_traversal G) v) (m_level v)" for r v
    by (auto simp: bfs_traversal_def bfs_out_def bfs_offers_def bfs_new_visitor_def image_image)
  show "bfs_accepted G verts s L n k \<Longrightarrow> (w, k') \<in> bfs_offers G r n k \<Longrightarrow> bfs_moving G verts s L w k'" for L n k w k' r
  proof -
    assume k: "bfs_accepted G verts s L n k" and "(w, k') \<in> bfs_offers G r n k"
    then have w: "w \<in> set (g_edges G r n)" "k' = k + 1" by (auto simp: bfs_offers_def)
    then have "walk G s w (unat k')"
      using k next_level [of k] has_edge_at [OF wf w(1)] by (auto simp: bfs_accepted_def intro: walk_edge)
    then show ?thesis using w(1) wf by (auto simp: bfs_moving_def wf_graph_def)
  qed
qed (use wf below_top in \<open>auto simp: bfs_moving_def bfs_accepted_def bfs_out_def wf_graph_def word_less_nat_alt\<close>)

interpretation bfs: bounded "bfs_traversal (checked G verts D)" m_level fst "\<lambda>n. True" "bfs_out (checked G verts D)"
    "bfs_offers (checked G verts D)" "bfs_moving (checked G verts D) (checked_verts G verts D) s"
    "bfs_accepted (checked G verts D) (checked_verts G verts D) s" "checked_verts G verts D" unat D
  for G :: "'n dgraph" and verts D s
  by (rule bfs_laws [OF wf_checked])

lemma bfs_traversal_sel [simp]:
  "t_size (bfs_traversal G) = g_size G" "t_delegate (bfs_traversal G) = g_delegate G" "t_home (bfs_traversal G) = g_home G"
  "t_vertex (bfs_traversal G) = vertex" "t_pre_visit (bfs_traversal G) = bfs_pre_visit" "t_visit (bfs_traversal G) = bfs_visit G"
  "t_init_visit (bfs_traversal G) = bfs_visit G"
  by (simp_all add: bfs_traversal_def)

lemma top_level: "(65535 :: 16 word) = - 1"
  by simp

subsection \<open>The result\<close>

lemma bfs_start:
  "bfs.trav_inv G verts D (\<lambda>n. - 1) ({}, {(0, s, 0)}) (breadth_first_search parents s)"
  "s \<in> checked_verts G verts D \<Longrightarrow> bfs.just_inv G verts D s (\<lambda>n. - 1) (breadth_first_search parents s)"
  using bfs.start_source_inv [of "\<lambda>r. (\<lambda>n. - 1, parents r)" G verts D "\<lambda>n. - 1" "bfs_source_visitor s"]
    bfs.start_source_just [of "\<lambda>r. (\<lambda>n. - 1, parents r)" G verts D "\<lambda>n. - 1" s "bfs_source_visitor s"]
  by (simp_all add: breadth_first_search_def top_level bfs.pair_def bfs_source_visitor_def bfs_moving_def walk_start)

lemma level_of_value: "bfs.value_of G verts D ranks = level_of (checked G verts D) ranks"
  by (simp add: bfs.value_of_def level_of_def fun_eq_iff)

text \<open>Along a walk the levels grow by at most one an edge, unless they reach the top.\<close>

lemma levels_bound_walk:
  assumes "walk G s n k" "L s = (0 :: 16 word)"
    and edge: "\<And>u w. has_edge G u w \<Longrightarrow> L u \<noteq> - 1 \<Longrightarrow> L w \<le> L u + 1" and "k < 65535"
  shows "unat (L n) \<le> k"
  using assms(1,4)
proof (induction rule: walk.induct)
  case walk_start
  then show ?case using assms(2) by simp
next
  case (walk_edge u k w)
  then have u: "unat (L u) \<le> k" "k < 65534" by simp_all
  then have "L u \<noteq> - 1" by (auto simp flip: top_level)
  then show ?case using edge [OF walk_edge.hyps(2)] next_level [of "L u"] u(1) by (simp add: word_le_nat_alt)
qed

lemma bfs_levels_checked:
  assumes "s \<in> checked_verts G verts D" "vq_reach (bfs_traversal (checked G verts D)) (breadth_first_search parents s) g"
    "all_finished (g_size (checked G verts D)) g"
  shows "unat (level_of (checked G verts D) (fst g) n) =
    (if \<exists>k < 65535. walk (checked G verts D) s n k then LEAST k. walk (checked G verts D) s n k else 65535)"
proof -
  let ?G = "checked G verts D"
  let ?L = "level_of ?G (fst g)"
  note start = bfs_start(1) [of G verts D s parents] bfs_start(2) [OF assms(1), of parents]
  have fin: "finish_inv (bfs_traversal (checked G verts D)) (breadth_first_search parents s)"
    by (simp add: breadth_first_search_def)
  have "0 < g_size ?G" using wf_checked [of G verts D] unfolding wf_graph_def by (metis gr0I not_less_zero)
  then have "?L s \<le> 0"
    using bfs.finished_start [OF assms(2) start(1) fin, of 0 s 0] assms(3)
    by (simp add: level_of_value)
  then have s: "?L s = 0" by simp
  have edge: "?L w \<le> ?L u + 1" if e: "has_edge ?G u w" and u: "?L u \<noteq> - 1" for u w
  proof -
    obtain r where r: "r < g_size ?G" "r = g_home ?G u \<or> g_delegate ?G u" "w \<in> set (g_edges ?G r u)"
      using e by (auto simp: has_edge_def)
    show ?thesis
      using bfs.finished_closed [OF assms(2) start(1) fin, where u = u and r = r and w = w and k = "?L u + 1"] assms(3) r u
      by (simp add: level_of_value bfs.stores_def bfs_offers_def word_order.not_eq_extremum)
  qed
  have just: "?L n = - 1 \<or> walk ?G s n (unat (?L n))"
    using bfs.values_justified [OF assms(2) start, of n] by (auto simp: level_of_value bfs_accepted_def)
  show ?thesis
  proof (cases "\<exists>k < 65535. walk ?G s n k")
    case True
    then obtain k where k: "k < 65535" "walk ?G s n k" by blast
    have least: "unat (?L n) \<le> m" if "walk ?G s n m" for m
    proof (cases "m < 65535")
      case True
      then show ?thesis using levels_bound_walk [OF that, of ?L] s edge by blast
    next
      case False
      then show ?thesis using levels_bound_walk [OF k(2), of ?L] s edge k(1) by fastforce
    qed
    have "?L n \<noteq> - 1" using least [OF k(2)] k(1) by (auto simp flip: top_level)
    then have "walk ?G s n (unat (?L n))" using just by blast
    then have "(LEAST m. walk ?G s n m) = unat (?L n)" using least by (intro Least_equality)
    then show ?thesis using True by simp
  next
    case False
    have "unat (?L n) < 2 ^ LENGTH(16)" by (rule unsigned_less)
    then have "unat (?L n) \<le> 65535" by simp
    then have "?L n = - 1 \<or> unat (?L n) = unat (65535 :: 16 word)" using just False by auto
    then have "?L n = - 1" unfolding top_level word_unat_eq_iff [symmetric] by blast
    then show ?thesis unfolding if_not_P [OF False] top_level [symmetric] by simp
  qed
qed

text \<open>
  C3. When the search has ended, the level of every vertex at its home rank is its distance from the
  source: the length of a shortest walk if one shorter than 65535 exists, and otherwise the initial
  65535.  This holds for every graph and distribution of delegate edges, whatever the initial parents,
  for every order in which visitors are taken and messages arrive.
\<close>

theorem bfs_levels_are_distances:
  assumes "wf_graph G verts D" "s \<in> verts"
    "vq_reach (bfs_traversal G) (breadth_first_search parents s) g" "all_finished (g_size G) g"
  shows "unat (level_of G (fst g) n) = (if \<exists>k < 65535. walk G s n k then LEAST k. walk G s n k else 65535)"
  by (rule bfs_levels_checked [of s G verts D parents g n, unfolded checked_eq [OF assms(1)], OF assms(2-4)])

text \<open>A search over two ranks with a hub, and a schedule that runs it to the end.\<close>

lemma bfs_eval:
  "bfs_pre_visit r v (l, p) = (if m_level v < l (vertex v) then ((l(vertex v := m_level v), p), True) else ((l, p), False))"
  "bfs_visit G r v (l, p) = (if m_level v \<le> l (vertex v)
     then ((l(vertex v := m_level v), p(vertex v := m_parent v)), bfs_out G r v, True) else ((l, p), [], False))"
  by (simp_all add: bfs_pre_visit_def bfs_visit_def bfs_out_def)

lemma bfs_new_visitor_eval: "bfs_new_visitor w (level v + 1) u = \<lparr>vertex = w, m_parent = u, m_level = m_level v + 1\<rparr>"
  by (simp add: bfs_new_visitor_def)

lemmas bfs_run = run_eval bfs_eval bfs_out_def bfs_new_visitor_eval breadth_first_search_def bfs_source_visitor_def all_less_2

definition hub_run :: schedule where
  "hub_run = replicate 12 (Some (0, 0)) @ replicate 4 (Some (1, 0)) @ [None] @ replicate 4 (Some (0, 0)) @ replicate 11 (Some (1, 0))
     @ [None] @ replicate 8 (Some (0, 0)) @ replicate 4 (Some (1, 0)) @ [None]"

lemma hub_run_ends:
  "case run_schedule (bfs_traversal hub_graph) hub_run (breadth_first_search (\<lambda>r n. n) 0) of
     None \<Rightarrow> False | Some g \<Rightarrow> all_finished 2 g"
  by (simp add: hub_run_def replicate_run bfs_run)

lemma bfs_ends_checked: "s \<in> checked_verts G verts D \<Longrightarrow> bfs.ends G verts D (breadth_first_search parents s)"
  using bfs.always_ends [OF bfs_start(1) bfs_start(2)]
  by (simp add: breadth_first_search_def bfs.popping_start)

text \<open>
  C22. The search always ends: there is no infinite run; some run ends with every rank out of the loop or
  with a rank about to take a visitor from an empty queue; and whenever no step is possible it is one of
  the two, the second only if there are delegates.
\<close>

theorem bfs_ends:
  assumes "wf_graph G verts D" "s \<in> verts"
  shows "(\<nexists>f. f 0 = breadth_first_search parents s \<and> (\<forall>i. vq_step (bfs_traversal G) (f i) (f (Suc i)))) \<and>
    (\<exists>g. vq_reach (bfs_traversal G) (breadth_first_search parents s) g
       \<and> (all_finished (g_size G) g \<or> (\<exists>r < g_size G. pops_empty (fst g r)))) \<and>
    (\<forall>g. vq_reach (bfs_traversal G) (breadth_first_search parents s) g \<and> (\<forall>g'. \<not> vq_step (bfs_traversal G) g g') \<longrightarrow>
       all_finished (g_size G) g \<or> (\<exists>n. g_delegate G n) \<and> (\<exists>r < g_size G. pops_empty (fst g r)))"
  using bfs_ends_checked [of s G verts D parents] assms unfolding bfs.ends_def by simp

lemma bfs_ends_witness:
  "\<exists>g. vq_reach (bfs_traversal hub_graph) (breadth_first_search (\<lambda>r n. n) 0) g
     \<and> (all_finished 2 g \<or> (\<exists>r < 2. pops_empty (fst g r)))"
  using bfs_ends [OF wf_hub, of 0 "\<lambda>r n. n"] by simp

text \<open>A schedule with a batch of one message that fails the assertion.\<close>

definition crash_run :: schedule where
  "crash_run = replicate 9 (Some (0, 0)) @ replicate 4 (Some (1, 0)) @ [None] @ replicate 7 (Some (1, 0)) @ replicate 3 (Some (0, 0))
     @ [None] @ replicate 5 (Some (1, 0))"

lemma crash_run_pops_empty:
  "case run_schedule (bfs_traversal hub_graph) crash_run (breadth_first_search (\<lambda>r n. n) 0) of
     None \<Rightarrow> False | Some g \<Rightarrow> pops_empty (fst g 1)"
  by (simp add: crash_run_def replicate_run bfs_run)

text \<open>
  C27. The assertion of \<open>pop_top\<close> can fail: a controller may arrive while a visit is sending its last
  messages; the rank then finds its queue non-empty, drains the controller, and takes a visitor although
  it owns none.
\<close>

theorem pop_top_asserts:
  "\<exists>g. vq_reach (bfs_traversal hub_graph) (breadth_first_search (\<lambda>r n. n) 0) g \<and> pops_empty (fst g 1)"
  using crash_run_pops_empty schedule_reach by (fastforce split: option.splits)

lemma bfs_levels_are_distances_witness:
  "\<exists>g. vq_reach (bfs_traversal hub_graph) (breadth_first_search (\<lambda>r n. n) 0) g \<and> all_finished 2 g
     \<and> unat (level_of hub_graph (fst g) 2) = (if \<exists>k < 65535. walk hub_graph 0 2 k then LEAST k. walk hub_graph 0 2 k else 65535)"
proof -
  obtain g where g: "run_schedule (bfs_traversal hub_graph) hub_run (breadth_first_search (\<lambda>r n. n) 0) = Some g" "all_finished 2 g"
    using hub_run_ends by (auto split: option.splits)
  have "unat (level_of hub_graph (fst g) 2) = (if \<exists>k < 65535. walk hub_graph 0 2 k then LEAST k. walk hub_graph 0 2 k else 65535)"
    by (rule bfs_levels_are_distances [OF wf_hub _ schedule_reach [OF g(1)]]) (use g(2) in simp_all)
  then show ?thesis using schedule_reach [OF g(1)] g(2) by blast
qed

end
