(* ===== verification/Sssp.thy ===== *)
theory Sssp
  imports Visitor_Graph
begin

section \<open>Single-source shortest paths (single\_source\_shortest\_path.hpp)\<close>

text \<open>
  The visitor with 64-bit unsigned path lengths.  \<open>weight + m_path\<close> wraps around like the program's
  addition; when no path through distinct vertices is so long that it would, the value of a vertex at the
  end is the length of a shortest path.  Unlike the other visitors, \<open>visit\<close> leaves the data alone.
\<close>

record 'n sssp_visitor =
  sp_vertex :: 'n
  m_path :: u64

text \<open>\<open>edge_data r u i\<close>: the weight of the \<open>i\<close>-th edge of \<open>u\<close> stored at rank \<open>r\<close>.\<close>

type_synonym 'n edge_weights = "nat \<Rightarrow> 'n \<Rightarrow> nat \<Rightarrow> u64"

definition sssp_source_visitor :: "'n \<Rightarrow> 'n sssp_visitor" where
  "sssp_source_visitor v = \<lparr>sp_vertex = v, m_path = 0\<rparr>"

definition sssp_pre_visit :: "nat \<Rightarrow> 'n sssp_visitor \<Rightarrow> ('n \<Rightarrow> u64) \<Rightarrow> ('n \<Rightarrow> u64) \<times> bool" where
  "sssp_pre_visit r v d =
     (let do_visit = d (sp_vertex v) > m_path v
      in if do_visit then (d(sp_vertex v := m_path v), do_visit) else (d, do_visit))"

definition sssp_new_visitors :: "'n dgraph \<Rightarrow> 'n edge_weights \<Rightarrow> nat \<Rightarrow> 'n sssp_visitor \<Rightarrow> 'n sssp_visitor list" where
  "sssp_new_visitors G wt r v =
     (let es = g_edges G r (sp_vertex v)
      in map (\<lambda>i. \<lparr>sp_vertex = es ! i, m_path = wt r (sp_vertex v) i + m_path v\<rparr>) [0..<length es])"

definition sssp_visit ::
    "'n dgraph \<Rightarrow> 'n edge_weights \<Rightarrow> nat \<Rightarrow> 'n sssp_visitor \<Rightarrow> ('n \<Rightarrow> u64) \<Rightarrow> ('n \<Rightarrow> u64) \<times> 'n sssp_visitor list \<times> bool" where
  "sssp_visit G wt r v d =
     (if m_path v \<le> d (sp_vertex v) then (d, sssp_new_visitors G wt r v, True) else (d, [], False))"

definition sssp_traversal :: "'n dgraph \<Rightarrow> 'n edge_weights \<Rightarrow> ('n, 'n sssp_visitor, 'n \<Rightarrow> u64) traversal" where
  "sssp_traversal G wt = \<lparr>t_size = g_size G, t_vertex = sp_vertex, t_delegate = g_delegate G, t_home = g_home G,
     t_pre_visit = sssp_pre_visit, t_visit = sssp_visit G wt, t_init_visit = sssp_visit G wt\<rparr>"

text \<open>Called with the path data reset to the largest value.\<close>

definition single_source_shortest_path :: "'n \<Rightarrow> (nat \<Rightarrow> ('n sssp_visitor, 'n \<Rightarrow> u64) vq) \<times> 'n sssp_visitor net" where
  "single_source_shortest_path s = start_source (sssp_source_visitor s) (\<lambda>r n. - 1)"

definition path_of :: "'n dgraph \<Rightarrow> (nat \<Rightarrow> ('n sssp_visitor, 'n \<Rightarrow> u64) vq) \<Rightarrow> 'n \<Rightarrow> u64" where
  "path_of G ranks n = alg_data (ranks (g_home G n)) n"

subsection \<open>Paths and their lengths\<close>

definition weighted_edge :: "'n dgraph \<Rightarrow> 'n edge_weights \<Rightarrow> 'n \<Rightarrow> 'n \<Rightarrow> nat \<Rightarrow> bool" where
  "weighted_edge G wt u w c \<longleftrightarrow> (\<exists>r < g_size G. (r = g_home G u \<or> g_delegate G u) \<and>
     (\<exists>i < length (g_edges G r u). g_edges G r u ! i = w \<and> unat (wt r u i) = c))"

text \<open>A path with the vertices before its end, and its length.\<close>

inductive wpath :: "'n dgraph \<Rightarrow> 'n edge_weights \<Rightarrow> 'n \<Rightarrow> 'n list \<Rightarrow> 'n \<Rightarrow> nat \<Rightarrow> bool" for G wt s where
  wpath_start: "wpath G wt s [] s 0"
| wpath_edge: "wpath G wt s p u c \<Longrightarrow> weighted_edge G wt u w d \<Longrightarrow> wpath G wt s (u # p) w (c + d)"

text \<open>All weights are at most \<open>M\<close>, and a path through every vertex still fits.\<close>

definition weights_fit :: "'n dgraph \<Rightarrow> 'n edge_weights \<Rightarrow> 'n set \<Rightarrow> nat \<Rightarrow> bool" where
  "weights_fit G wt verts M \<longleftrightarrow> (\<forall>r u i. i < length (g_edges G r u) \<longrightarrow> unat (wt r u i) \<le> M) \<and> card verts * M < 2 ^ 64"

lemma wpath_verts:
  assumes "wpath G wt s p u c" "wf_graph G verts D" "s \<in> verts"
  shows "u \<in> verts \<and> set p \<subseteq> verts"
  using assms
proof (induction rule: wpath.induct)
  case (wpath_edge p u c w d)
  then have "\<exists>r. w \<in> set (g_edges G r u)" by (auto simp: weighted_edge_def intro: nth_mem)
  then have "w \<in> verts" using wpath_edge.prems(1) unfolding wf_graph_def by blast
  then show ?case using wpath_edge by simp
qed simp

lemma wpath_length:
  assumes "wpath G wt s p u c" "weights_fit G wt verts M"
  shows "c \<le> length p * M"
  using assms
proof (induction rule: wpath.induct)
  case (wpath_edge p u c w d)
  then have "d \<le> M" by (auto simp: weighted_edge_def weights_fit_def)
  then show ?case using wpath_edge by simp
qed simp

lemma simple_path_fits:
  assumes "wpath G wt s p u c" "distinct p" "wf_graph G verts D" "s \<in> verts" "weights_fit G wt verts M"
  shows "c < 2 ^ 64"
proof -
  have "length p \<le> card verts"
    using wpath_verts [OF assms(1,3,4)] assms(2,3) by (metis card_mono distinct_card wf_graph_def)
  then have "c \<le> card verts * M" using wpath_length [OF assms(1,5)] by (meson mult_le_mono1 order_trans)
  then show ?thesis using assms(5) by (simp add: weights_fit_def)
qed

subsection \<open>The search relaxes\<close>

definition sssp_offers :: "'n dgraph \<Rightarrow> 'n edge_weights \<Rightarrow> nat \<Rightarrow> 'n \<Rightarrow> u64 \<Rightarrow> ('n \<times> u64) set" where
  "sssp_offers G wt r n k = {(g_edges G r n ! i, wt r n i + k) | i. i < length (g_edges G r n)}"

text \<open>A visitor on its way follows a path whose earlier vertices all have values it could not lower.\<close>

definition sssp_moving :: "'n dgraph \<Rightarrow> 'n edge_weights \<Rightarrow> 'n set \<Rightarrow> 'n \<Rightarrow> ('n \<Rightarrow> u64) \<Rightarrow> 'n \<Rightarrow> u64 \<Rightarrow> bool" where
  "sssp_moving G wt verts s L n k \<longleftrightarrow>
     n \<in> verts \<and> s \<in> verts \<and> (\<exists>p. wpath G wt s p n (unat k) \<and> distinct p \<and> (\<forall>m \<in> set p. L m \<le> k))"

definition sssp_accepted :: "'n dgraph \<Rightarrow> 'n edge_weights \<Rightarrow> 'n set \<Rightarrow> 'n \<Rightarrow> ('n \<Rightarrow> u64) \<Rightarrow> 'n \<Rightarrow> u64 \<Rightarrow> bool" where
  "sssp_accepted G wt verts s L n k \<longleftrightarrow> n \<in> verts \<and> s \<in> verts \<and> L n \<le> k
     \<and> (\<exists>p. wpath G wt s p n (unat k) \<and> distinct (n # p) \<and> (\<forall>m \<in> set p. L m \<le> k))"

lemma sssp_traversal_sel [simp]:
  "t_size (sssp_traversal G wt) = g_size G" "t_delegate (sssp_traversal G wt) = g_delegate G" "t_home (sssp_traversal G wt) = g_home G"
  "t_vertex (sssp_traversal G wt) = sp_vertex" "t_pre_visit (sssp_traversal G wt) = sssp_pre_visit"
  "t_visit (sssp_traversal G wt) = sssp_visit G wt" "t_init_visit (sssp_traversal G wt) = sssp_visit G wt"
  by (simp_all add: sssp_traversal_def)

lemma unat_top_path: "unat (- 1 :: u64) = 2 ^ 64 - 1"
proof -
  have "(- 1 :: u64) = 18446744073709551615" by simp
  then have "unat (- 1 :: u64) = unat (18446744073709551615 :: u64)" by (rule arg_cong)
  then show ?thesis by simp
qed

lemma unat_add_fits: "unat a + unat b < 2 ^ 64 \<Longrightarrow> unat (a + b :: u64) = unat a + unat b"
  by (simp add: unat_word_ariths)

lemma offer_edge:
  assumes "wf_graph G verts D" "i < length (g_edges G r n)"
  shows "weighted_edge G wt n (g_edges G r n ! i) (unat (wt r n i))"
proof -
  have "g_edges G r n \<noteq> []" using assms(2) by auto
  then have "r < g_size G \<and> (r = g_home G n \<or> g_delegate G n)" using assms(1) by (simp add: wf_graph_def)
  then show ?thesis using assms(2) unfolding weighted_edge_def by blast
qed

lemma sssp_offer:
  assumes wf: "wf_graph G verts D" and fit: "weights_fit G wt verts M"
    and n: "sssp_accepted G wt verts s L n k" and o: "(w, k') \<in> sssp_offers G wt r n k"
  shows "sssp_moving G wt verts s L w k'"
proof -
  obtain i where i: "i < length (g_edges G r n)" "w = g_edges G r n ! i" "k' = wt r n i + k"
    using o by (auto simp: sssp_offers_def)
  obtain p where p: "wpath G wt s p n (unat k)" "distinct (n # p)" "\<forall>m \<in> set p. L m \<le> k" "L n \<le> k" "s \<in> verts"
    using n by (auto simp: sssp_accepted_def)
  have path: "wpath G wt s (n # p) w (unat k + unat (wt r n i))"
    using wpath_edge [OF p(1) offer_edge [OF wf i(1)]] i(2) by simp
  have "unat k + unat (wt r n i) < 2 ^ 64" by (rule simple_path_fits [OF path p(2) wf p(5) fit])
  then have k': "unat k' = unat k + unat (wt r n i)" using unat_add_fits [of k "wt r n i"] i(3) by (simp add: add.commute)
  then have "k \<le> k'" by (simp add: word_le_nat_alt)
  moreover have "w \<in> verts" using wpath_verts [OF path wf p(5)] by simp
  ultimately show ?thesis
    using path p k' unfolding sssp_moving_def by (auto intro!: exI [of _ "n # p"] intro: order_trans)
qed

lemma sssp_laws:
  assumes wf: "wf_graph G verts D" and fit: "weights_fit G wt verts M"
  shows "bounded (sssp_traversal G wt) m_path (\<lambda>d. d) (\<lambda>n. True) (sssp_new_visitors G wt) (sssp_offers G wt)
    (sssp_moving G wt verts s) (sssp_accepted G wt verts s) verts unat D"
proof unfold_locales
  show "(\<lambda>v. (t_vertex (sssp_traversal G wt) v, m_path v)) ` set (sssp_new_visitors G wt r v) =
      sssp_offers G wt r (t_vertex (sssp_traversal G wt) v) (m_path v)" for r v
    by (auto simp: sssp_new_visitors_def sssp_offers_def Let_def image_image)
  show "sssp_moving G wt verts s L n k \<Longrightarrow> (\<And>m. L' m \<le> L m) \<Longrightarrow> sssp_moving G wt verts s L' n k" for L L' n k
    unfolding sssp_moving_def by (meson order_trans)
  show "sssp_accepted G wt verts s L n k \<Longrightarrow> (\<And>m. L' m \<le> L m) \<Longrightarrow> sssp_accepted G wt verts s L' n k" for L L' n k
    unfolding sssp_accepted_def by (meson order_trans)
  show "sssp_moving G wt verts s L n k \<Longrightarrow> True \<Longrightarrow> k < L n \<Longrightarrow> sssp_accepted G wt verts s (L(n := k)) n k" for L n k
    unfolding sssp_moving_def sssp_accepted_def by (auto simp: leD)
  show "sssp_accepted G wt verts s L n k \<Longrightarrow> (w, k') \<in> sssp_offers G wt r n k \<Longrightarrow> sssp_moving G wt verts s L w k'" for L n k w k' r
    by (rule sssp_offer [OF wf fit])
qed (use wf in \<open>auto simp: sssp_pre_visit_def sssp_visit_def sssp_moving_def sssp_new_visitors_def wf_graph_def
  word_less_nat_alt Let_def split: if_splits\<close>)

definition fitting :: "'n dgraph \<Rightarrow> 'n edge_weights \<Rightarrow> 'n set \<Rightarrow> nat \<Rightarrow> nat \<Rightarrow> 'n set" where
  "fitting G wt verts D M = (if wf_graph G verts D \<and> weights_fit G wt verts M then verts else {})"

text \<open>The interpretation falls back to an empty graph when a bound is not kept.\<close>

definition fitted :: "'n dgraph \<Rightarrow> 'n edge_weights \<Rightarrow> 'n set \<Rightarrow> nat \<Rightarrow> nat \<Rightarrow> 'n dgraph" where
  "fitted G wt verts D M = (if wf_graph G verts D \<and> weights_fit G wt verts M then G
     else \<lparr>g_size = 1, g_delegate = (\<lambda>n. False), g_home = (\<lambda>n. 0), g_edges = (\<lambda>r n. [])\<rparr>)"

lemma fitted_wf: "wf_graph (fitted G wt verts D M) (fitting G wt verts D M) D"
  by (simp add: fitted_def fitting_def) (simp add: wf_graph_def)

lemma fitted_fit: "weights_fit (fitted G wt verts D M) wt (fitting G wt verts D M) M"
  by (simp add: fitted_def fitting_def) (simp add: weights_fit_def)

lemma fitted_eq:
  "wf_graph G verts D \<Longrightarrow> weights_fit G wt verts M \<Longrightarrow> fitted G wt verts D M = G"
  "wf_graph G verts D \<Longrightarrow> weights_fit G wt verts M \<Longrightarrow> fitting G wt verts D M = verts"
  by (simp_all add: fitted_def fitting_def)

interpretation sp: bounded "sssp_traversal (fitted G wt verts D M) wt" m_path "\<lambda>d. d" "\<lambda>n. True"
    "sssp_new_visitors (fitted G wt verts D M) wt" "sssp_offers (fitted G wt verts D M) wt"
    "sssp_moving (fitted G wt verts D M) wt (fitting G wt verts D M) s"
    "sssp_accepted (fitted G wt verts D M) wt (fitting G wt verts D M) s" "fitting G wt verts D M" unat D
  for G :: "'n dgraph" and wt verts D M s
  by (rule sssp_laws [OF fitted_wf fitted_fit])

subsection \<open>The result\<close>

lemma sssp_start:
  "sp.trav_inv G wt verts D M (\<lambda>n. - 1) ({}, {(0, s, 0)}) (single_source_shortest_path s)"
  "s \<in> fitting G wt verts D M \<Longrightarrow> sp.just_inv G wt verts D M s (\<lambda>n. - 1) (single_source_shortest_path s)"
  "finish_inv (sssp_traversal (fitted G wt verts D M) wt) (single_source_shortest_path s)"
  "sp.popping G wt verts D M (single_source_shortest_path s)"
  using sp.start_source_inv [of "\<lambda>r n. - 1" G wt verts D M "\<lambda>n. - 1" "sssp_source_visitor s"]
    sp.start_source_just [of "\<lambda>r n. - 1" G wt verts D M "\<lambda>n. - 1" s "sssp_source_visitor s"]
  by (simp_all add: single_source_shortest_path_def sp.pair_def sssp_source_visitor_def sssp_moving_def wpath_start
      sp.popping_start)

lemma path_of_value: "sp.value_of G wt verts D M ranks = path_of (fitted G wt verts D M) ranks"
  by (simp add: sp.value_of_def path_of_def fun_eq_iff)

lemma sssp_result_checked:
  fixes G :: "'n dgraph" and wt verts D M
  assumes s: "s \<in> fitting G wt verts D M"
    and reach: "vq_reach (sssp_traversal (fitted G wt verts D M) wt) (single_source_shortest_path s) g"
    and fin: "all_finished (g_size (fitted G wt verts D M)) g"
  shows "path_of (fitted G wt verts D M) (fst g) n = - 1
      \<or> (\<exists>p. wpath (fitted G wt verts D M) wt s p n (unat (path_of (fitted G wt verts D M) (fst g) n)))"
    "wpath (fitted G wt verts D M) wt s p n c \<Longrightarrow> c < 2 ^ 64 - 1 \<Longrightarrow> unat (path_of (fitted G wt verts D M) (fst g) n) \<le> c"
proof -
  let ?G = "fitted G wt verts D M" and ?V = "fitting G wt verts D M"
  let ?L = "path_of ?G (fst g)"
  note start = sssp_start(1) [of G wt verts D M s] sssp_start(2) [OF s]
  have just: "?L u = - 1 \<or> sssp_accepted ?G wt ?V s ?L u (?L u)" for u
    using sp.values_justified [OF reach start, of u] by (simp add: path_of_value)
  then show "?L n = - 1 \<or> (\<exists>p. wpath ?G wt s p n (unat (?L n)))" by (auto simp: sssp_accepted_def)
  have size: "g_home ?G u < g_size ?G" for u using fitted_wf [of G wt verts D M] by (simp add: wf_graph_def)
  have top: "unat (x :: u64) < 2 ^ 64 - 1 \<Longrightarrow> x \<noteq> - 1" for x using unat_top_path by auto
  have pos: "0 < g_size ?G" using size by (metis gr0I not_less_zero)
  show "unat (?L n) \<le> c" if "wpath ?G wt s p n c" "c < 2 ^ 64 - 1"
    using that
  proof (induction rule: wpath.induct)
    case wpath_start
    show ?case
      using sp.finished_start [OF reach start(1) sssp_start(3), of 0 s 0] fin pos by (simp add: path_of_value)
  next
    case (wpath_edge p u c w d)
    then have u: "unat (?L u) \<le> c" "unat (?L u) < 2 ^ 64 - 1" by simp_all
    then obtain q where q: "wpath ?G wt s q u (unat (?L u))" "distinct (u # q)"
      using just [of u] top by (auto simp: sssp_accepted_def)
    obtain r i where r: "r < g_size ?G" "r = g_home ?G u \<or> g_delegate ?G u" "i < length (g_edges ?G r u)"
      "g_edges ?G r u ! i = w" "unat (wt r u i) = d" using wpath_edge.hyps(2) by (auto simp: weighted_edge_def)
    have "unat (?L u) + d < 2 ^ 64"
      using simple_path_fits [OF wpath.wpath_edge [OF q(1) wpath_edge.hyps(2)] q(2) fitted_wf s fitted_fit] .
    then have sum: "unat (wt r u i + ?L u) = unat (?L u) + d" using unat_add_fits [of "wt r u i" "?L u"] r(5) by simp
    have "(w, wt r u i + ?L u) \<in> sssp_offers ?G wt r u (?L u)" using r by (auto simp: sssp_offers_def)
    then have "?L w \<le> wt r u i + ?L u"
      using sp.finished_closed [OF reach start(1) sssp_start(3), where u = u and r = r and w = w and k = "wt r u i + ?L u"]
        fin r top [OF u(2)] by (simp add: path_of_value sp.stores_def word_order.not_eq_extremum)
    then show ?case using sum u(1) by (simp add: word_le_nat_alt)
  qed
qed

text \<open>
  C9. When the search has ended, the value of every vertex at its home rank is the length of a shortest
  path from the source if that is below 2^64 - 1, and otherwise the initial 2^64 - 1, provided the weights
  are small enough that a path through every vertex fits into 64 bits.
\<close>

theorem sssp_shortest:
  assumes "wf_graph G verts D" "weights_fit G wt verts M" "s \<in> verts"
    "vq_reach (sssp_traversal G wt) (single_source_shortest_path s) g" "all_finished (g_size G) g"
  shows "unat (path_of G (fst g) n) =
    (if \<exists>p c. wpath G wt s p n c \<and> c < 2 ^ 64 - 1 then LEAST c. \<exists>p. wpath G wt s p n c else 2 ^ 64 - 1)"
proof -
  let ?L = "path_of G (fst g)"
  note result = sssp_result_checked [of s G wt verts D M g, unfolded fitted_eq [OF assms(1,2)], OF assms(3-5)]
  note top = unat_top_path
  show ?thesis
  proof (cases "\<exists>p c. wpath G wt s p n c \<and> c < 2 ^ 64 - 1")
    case True
    then obtain p c where c: "wpath G wt s p n c" "c < 2 ^ 64 - 1" by blast
    have "unat (?L n) < 2 ^ 64 - 1" using result(2) [OF c] c(2) by simp
    then have "\<exists>p. wpath G wt s p n (unat (?L n))" using result(1) [of n] top by auto
    moreover have "unat (?L n) \<le> c'" if "\<exists>p. wpath G wt s p n c'" for c'
    proof (cases "c' < 2 ^ 64 - 1")
      case True
      then show ?thesis using result(2) that by blast
    next
      case False
      then show ?thesis using \<open>unat (?L n) < 2 ^ 64 - 1\<close> by simp
    qed
    ultimately have "(LEAST c. \<exists>p. wpath G wt s p n c) = unat (?L n)" by (intro Least_equality)
    then show ?thesis using True by simp
  next
    case False
    have "unat (?L n) < 2 ^ LENGTH(64)" by (rule unsigned_less)
    then have "?L n = - 1 \<or> unat (?L n) = 2 ^ 64 - 1" using result(1) [of n] False by fastforce
    then have "unat (?L n) = 2 ^ 64 - 1" using top by auto
    then show ?thesis unfolding if_not_P [OF False] .
  qed
qed

text \<open>
  C33. The search always ends, under the same bound: no infinite run; some run ends with every rank out of
  the loop or with a rank about to take a visitor from an empty queue, the second only with delegates.
\<close>

theorem sssp_ends:
  assumes "wf_graph G verts D" "weights_fit G wt verts M" "s \<in> verts"
  shows "(\<nexists>f. f 0 = single_source_shortest_path s \<and> (\<forall>i. vq_step (sssp_traversal G wt) (f i) (f (Suc i)))) \<and>
    (\<exists>g. vq_reach (sssp_traversal G wt) (single_source_shortest_path s) g
       \<and> (all_finished (g_size G) g \<or> (\<exists>r < g_size G. pops_empty (fst g r)))) \<and>
    (\<forall>g. vq_reach (sssp_traversal G wt) (single_source_shortest_path s) g \<and> (\<forall>g'. \<not> vq_step (sssp_traversal G wt) g g') \<longrightarrow>
       all_finished (g_size G) g \<or> (\<exists>n. g_delegate G n) \<and> (\<exists>r < g_size G. pops_empty (fst g r)))"
  using sp.always_ends [OF sssp_start(1) sssp_start(2-4), of s G wt verts D M] assms
  unfolding sp.ends_def by (simp add: fitted_eq)

text \<open>The hub graph with weights 5 and 7.\<close>

definition hub_weights :: "nat edge_weights" where
  "hub_weights r u i = (if u = 0 then 5 else 7)"

lemma hub_fit: "weights_fit hub_graph hub_weights {0, 1, 2} 7"
  by (simp add: weights_fit_def hub_weights_def)

definition sssp_hub_run :: schedule where
  "sssp_hub_run = replicate 12 (Some (0, 0)) @ replicate 4 (Some (1, 0)) @ [None] @ replicate 4 (Some (0, 0)) @ replicate 11 (Some (1, 0))
     @ [None] @ replicate 8 (Some (0, 0)) @ replicate 4 (Some (1, 0)) @ [None]"

lemmas sssp_run = run_eval single_source_shortest_path_def sssp_source_visitor_def sssp_pre_visit_def sssp_visit_def
  sssp_new_visitors_def hub_weights_def all_less_2

lemma minus_one_path: "(- 1 :: u64) = 18446744073709551615"
  by simp

lemma sssp_hub_run_ends:
  "case run_schedule (sssp_traversal hub_graph hub_weights) sssp_hub_run (single_source_shortest_path 0) of
     None \<Rightarrow> False | Some g \<Rightarrow> all_finished 2 g"
  by (simp add: sssp_hub_run_def replicate_run sssp_run minus_one_path)

lemma sssp_shortest_witness:
  "\<exists>g. vq_reach (sssp_traversal hub_graph hub_weights) (single_source_shortest_path 0) g \<and> all_finished 2 g \<and>
     unat (path_of hub_graph (fst g) 2) =
       (if \<exists>p c. wpath hub_graph hub_weights 0 p 2 c \<and> c < 2 ^ 64 - 1 then LEAST c. \<exists>p. wpath hub_graph hub_weights 0 p 2 c else 2 ^ 64 - 1)"
proof -
  obtain g where g: "vq_reach (sssp_traversal hub_graph hub_weights) (single_source_shortest_path 0) g" "all_finished 2 g"
    using sssp_hub_run_ends schedule_reach by (fastforce split: option.splits)
  have "unat (path_of hub_graph (fst g) 2) =
      (if \<exists>p c. wpath hub_graph hub_weights 0 p 2 c \<and> c < 2 ^ 64 - 1 then LEAST c. \<exists>p. wpath hub_graph hub_weights 0 p 2 c else 2 ^ 64 - 1)"
    by (rule sssp_shortest [OF wf_hub hub_fit _ g(1)]) (use g(2) in simp_all)
  then show ?thesis using g by blast
qed

lemma sssp_ends_witness:
  "\<exists>g. vq_reach (sssp_traversal hub_graph hub_weights) (single_source_shortest_path 0) g
     \<and> (all_finished 2 g \<or> (\<exists>r < 2. pops_empty (fst g r)))"
  using sssp_ends [OF wf_hub hub_fit, of 0] by simp

end
