(* ===== verification/Connected_Components.thy ===== *)
theory Connected_Components
  imports Visitor_Graph
begin

section \<open>Connected components (connected\_components.hpp)\<close>

text \<open>
  Label propagation with predicates on vertices and edges.  \<open>label\<close> is \<open>locator_to_label\<close>.  At the end the
  component of a vertex is the one of the least label that reaches it, on every schedule; on an undirected
  graph two vertices have the same component exactly when they are connected.
\<close>

record 'n cc_visitor =
  cc_vertex :: 'n
  m_cc :: 'n

text \<open>The tuple of graph, component data and predicates; an edge is the rank, the source and the position.\<close>

record 'n cc_env =
  cc_graph :: "'n dgraph"
  cc_label :: "'n \<Rightarrow> u64"
  v_predicate :: "'n \<Rightarrow> bool"
  e_predicate :: "nat \<Rightarrow> 'n \<Rightarrow> nat \<Rightarrow> bool"

definition cc_start_visitor :: "'n \<Rightarrow> 'n cc_visitor" where
  "cc_start_visitor v = \<lparr>cc_vertex = v, m_cc = v\<rparr>"

definition cc_pre_visit :: "'n cc_env \<Rightarrow> nat \<Rightarrow> 'n cc_visitor \<Rightarrow> ('n \<Rightarrow> 'n) \<Rightarrow> ('n \<Rightarrow> 'n) \<times> bool" where
  "cc_pre_visit E r v cc_data =
     (if \<not> v_predicate E (cc_vertex v) then (cc_data, False)
      else if cc_label E (m_cc v) < cc_label E (cc_data (cc_vertex v))
      then (cc_data(cc_vertex v := m_cc v), True) else (cc_data, False))"

definition cc_new_visitors :: "'n cc_env \<Rightarrow> nat \<Rightarrow> 'n cc_visitor \<Rightarrow> 'n cc_visitor list" where
  "cc_new_visitors E r v =
     (let es = g_edges (cc_graph E) r (cc_vertex v)
      in map (\<lambda>i. \<lparr>cc_vertex = es ! i, m_cc = m_cc v\<rparr>)
           (filter (\<lambda>i. e_predicate E r (cc_vertex v) i \<and> cc_label E (m_cc v) < cc_label E (es ! i)) [0..<length es]))"

definition cc_visit ::
    "'n cc_env \<Rightarrow> nat \<Rightarrow> 'n cc_visitor \<Rightarrow> ('n \<Rightarrow> 'n) \<Rightarrow> ('n \<Rightarrow> 'n) \<times> 'n cc_visitor list \<times> bool" where
  "cc_visit E r v cc_data =
     (if \<not> v_predicate E (cc_vertex v) then (cc_data, [], False)
      else if cc_label E (cc_data (cc_vertex v)) \<ge> cc_label E (m_cc v)
      then (cc_data(cc_vertex v := m_cc v), cc_new_visitors E r v, True) else (cc_data, [], False))"

definition cc_init_visit ::
    "'n cc_env \<Rightarrow> nat \<Rightarrow> 'n cc_visitor \<Rightarrow> ('n \<Rightarrow> 'n) \<Rightarrow> ('n \<Rightarrow> 'n) \<times> 'n cc_visitor list \<times> bool" where
  "cc_init_visit E r v cc_data = cc_visit E r v cc_data"

definition cc_traversal :: "'n cc_env \<Rightarrow> ('n, 'n cc_visitor, 'n \<Rightarrow> 'n) traversal" where
  "cc_traversal E = \<lparr>t_size = g_size (cc_graph E), t_vertex = cc_vertex, t_delegate = g_delegate (cc_graph E),
     t_home = g_home (cc_graph E), t_pre_visit = cc_pre_visit E, t_visit = cc_visit E, t_init_visit = cc_init_visit E\<rparr>"

text \<open>
  \<open>connected_components\<close>: every rank sets the component of its vertices and of its controllers to
  themselves, and starts from both; the copies of other delegates keep the values \<open>cc_data\<close> had.
\<close>

definition connected_components ::
    "(nat \<Rightarrow> 'n list) \<Rightarrow> (nat \<Rightarrow> 'n list) \<Rightarrow> (nat \<Rightarrow> 'n \<Rightarrow> 'n) \<Rightarrow> (nat \<Rightarrow> ('n cc_visitor, 'n \<Rightarrow> 'n) vq) \<times> 'n cc_visitor net" where
  "connected_components cs vs cc_data =
     start_all (\<lambda>r. map cc_start_visitor (cs r)) (\<lambda>r. map cc_start_visitor (vs r))
       (\<lambda>r n. if n \<in> set (vs r) \<or> n \<in> set (cs r) then n else cc_data r n)"

definition cc_of :: "'n cc_env \<Rightarrow> (nat \<Rightarrow> ('n cc_visitor, 'n \<Rightarrow> 'n) vq) \<Rightarrow> 'n \<Rightarrow> 'n" where
  "cc_of E ranks n = alg_data (ranks (g_home (cc_graph E) n)) n"

subsection \<open>What a component is\<close>

definition cc_edge :: "'n cc_env \<Rightarrow> 'n \<Rightarrow> 'n \<Rightarrow> bool" where
  "cc_edge E u w \<longleftrightarrow> v_predicate E u \<and> v_predicate E w \<and>
     (\<exists>r < g_size (cc_graph E). (r = g_home (cc_graph E) u \<or> g_delegate (cc_graph E) u) \<and>
        (\<exists>i < length (g_edges (cc_graph E) r u). e_predicate E r u i \<and> g_edges (cc_graph E) r u ! i = w))"

inductive cc_reach :: "'n cc_env \<Rightarrow> 'n \<Rightarrow> 'n \<Rightarrow> bool" for E m where
  cc_here: "cc_reach E m m"
| cc_next: "cc_reach E m u \<Longrightarrow> cc_edge E u w \<Longrightarrow> cc_reach E m w"

text \<open>Every vertex is started from at its home, and the copies of delegates elsewhere are not ahead of it.\<close>

definition cc_placed :: "'n cc_env \<Rightarrow> 'n set \<Rightarrow> (nat \<Rightarrow> 'n list) \<Rightarrow> (nat \<Rightarrow> 'n list) \<Rightarrow> (nat \<Rightarrow> 'n \<Rightarrow> 'n) \<Rightarrow> bool" where
  "cc_placed E verts cs vs d \<longleftrightarrow>
     (\<forall>r < g_size (cc_graph E). set (cs r) \<union> set (vs r) = {n \<in> verts. g_home (cc_graph E) n = r}) \<and>
     (\<forall>r < g_size (cc_graph E). \<forall>n. g_delegate (cc_graph E) n \<longrightarrow> n \<in> verts \<and> cc_label E n \<le> cc_label E (d r n))"

subsection \<open>Label propagation relaxes\<close>

definition cc_out :: "'n cc_env \<Rightarrow> nat \<Rightarrow> 'n cc_visitor \<Rightarrow> 'n cc_visitor list" where
  "cc_out E r v = (if v_predicate E (cc_vertex v) then cc_new_visitors E r v else [])"

definition cc_offers :: "'n cc_env \<Rightarrow> nat \<Rightarrow> 'n \<Rightarrow> u64 \<Rightarrow> ('n \<times> u64) set" where
  "cc_offers E r n k = {(w, k) | w. v_predicate E n \<and> (\<exists>i < length (g_edges (cc_graph E) r n).
     w = g_edges (cc_graph E) r n ! i \<and> e_predicate E r n i \<and> k < cc_label E w)}"

definition cc_just :: "'n cc_env \<Rightarrow> 'n set \<Rightarrow> ('n \<Rightarrow> u64) \<Rightarrow> 'n \<Rightarrow> u64 \<Rightarrow> bool" where
  "cc_just E verts L n k \<longleftrightarrow> n \<in> verts \<and> (\<exists>m \<in> verts. cc_label E m = k \<and> (v_predicate E n \<longrightarrow> cc_reach E m n))"

lemma cc_traversal_sel [simp]:
  "t_size (cc_traversal E) = g_size (cc_graph E)" "t_delegate (cc_traversal E) = g_delegate (cc_graph E)"
  "t_home (cc_traversal E) = g_home (cc_graph E)" "t_vertex (cc_traversal E) = cc_vertex"
  "t_pre_visit (cc_traversal E) = cc_pre_visit E" "t_visit (cc_traversal E) = cc_visit E"
  "t_init_visit (cc_traversal E) = cc_visit E"
  by (simp_all add: cc_traversal_def cc_init_visit_def fun_eq_iff)

lemma cc_offer_edge:
  assumes "wf_graph (cc_graph E) verts D" "(w, k') \<in> cc_offers E r n k" "v_predicate E n" "v_predicate E w"
  shows "cc_edge E n w"
proof -
  obtain i where i: "i < length (g_edges (cc_graph E) r n)" "w = g_edges (cc_graph E) r n ! i" "e_predicate E r n i"
    using assms(2) by (auto simp: cc_offers_def)
  then have "g_edges (cc_graph E) r n \<noteq> []" by auto
  then have "r < g_size (cc_graph E) \<and> (r = g_home (cc_graph E) n \<or> g_delegate (cc_graph E) n)"
    using assms(1) by (auto simp: wf_graph_def)
  then show ?thesis using i assms(3,4) by (auto simp: cc_edge_def)
qed

lemma cc_laws:
  assumes wf: "wf_graph (cc_graph E) verts D"
  shows "bounded (cc_traversal E) (\<lambda>v. cc_label E (m_cc v)) (\<lambda>d n. cc_label E (d n)) (v_predicate E) (cc_out E)
    (cc_offers E) (cc_just E verts) (cc_just E verts) verts unat D"
proof unfold_locales
  show "(\<lambda>v. (t_vertex (cc_traversal E) v, cc_label E (m_cc v))) ` set (cc_out E r v) =
      cc_offers E r (t_vertex (cc_traversal E) v) (cc_label E (m_cc v))" for r v
    by (auto simp: cc_out_def cc_new_visitors_def cc_offers_def Let_def image_image)
  show "length (cc_out E r v) \<le> D" for r v
  proof -
    have "length (g_edges (cc_graph E) r (cc_vertex v)) \<le> D" using wf by (simp add: wf_graph_def)
    moreover have "length (filter Q [0..<n]) \<le> n" for Q :: "nat \<Rightarrow> bool" and n
      using length_filter_le [of Q "[0..<n]"] by simp
    ultimately have "length (cc_new_visitors E r v) \<le> D"
      unfolding cc_new_visitors_def Let_def length_map by (rule order_trans [rotated])
    then show ?thesis by (simp add: cc_out_def)
  qed
  show "cc_just E verts L n k \<Longrightarrow> (w, k') \<in> cc_offers E r n k \<Longrightarrow> cc_just E verts L w k'" for L n k w k' r
  proof -
    assume n: "cc_just E verts L n k" and o: "(w, k') \<in> cc_offers E r n k"
    then have "k' = k" "w \<in> set (g_edges (cc_graph E) r n)" "v_predicate E n" by (auto simp: cc_offers_def)
    then show ?thesis
      using n cc_next cc_offer_edge [OF wf o] wf by (fastforce simp: cc_just_def wf_graph_def)
  qed
qed (use wf in \<open>auto simp: cc_pre_visit_def cc_visit_def cc_just_def cc_out_def wf_graph_def word_less_nat_alt split: if_splits\<close>)

definition cc_checked :: "'n cc_env \<Rightarrow> 'n set \<Rightarrow> nat \<Rightarrow> 'n cc_env" where
  "cc_checked E verts D = E\<lparr>cc_graph := checked (cc_graph E) verts D\<rparr>"

lemma cc_checked_eq: "wf_graph (cc_graph E) verts D \<Longrightarrow> cc_checked E verts D = E"
  by (simp add: cc_checked_def)

lemma wf_cc_checked: "wf_graph (cc_graph (cc_checked E verts D)) (checked_verts (cc_graph E) verts D) D"
  using wf_checked [of "cc_graph E" verts D] by (simp add: cc_checked_def)

interpretation cc: bounded "cc_traversal (cc_checked E verts D)" "\<lambda>v. cc_label (cc_checked E verts D) (m_cc v)"
    "\<lambda>d n. cc_label (cc_checked E verts D) (d n)" "v_predicate (cc_checked E verts D)" "cc_out (cc_checked E verts D)"
    "cc_offers (cc_checked E verts D)" "cc_just (cc_checked E verts D) (checked_verts (cc_graph E) verts D)"
    "cc_just (cc_checked E verts D) (checked_verts (cc_graph E) verts D)"
    "checked_verts (cc_graph E) verts D" unat D
  for E :: "'n cc_env" and verts D
  by (rule cc_laws [OF wf_cc_checked])

lemma cc_value_of:
  "cc.value_of E verts D ranks n = cc_label (cc_checked E verts D) (cc_of (cc_checked E verts D) ranks n)"
  by (simp add: cc.value_of_def cc_of_def)

subsection \<open>The result\<close>

text \<open>The value a traversal starts with.\<close>

definition cc_init :: "'n cc_env \<Rightarrow> 'n set \<Rightarrow> (nat \<Rightarrow> 'n \<Rightarrow> 'n) \<Rightarrow> 'n \<Rightarrow> u64" where
  "cc_init E verts d n = cc_label E (if n \<in> verts then n else d (g_home (cc_graph E) n) n)"

lemma cc_start:
  fixes E :: "'n cc_env" and verts D
  defines "Ec \<equiv> cc_checked E verts D" and "V \<equiv> checked_verts (cc_graph E) verts D"
  assumes placed: "cc_placed Ec V cs vs d"
  shows "cc.trav_inv E verts D (cc_init Ec V d) (V, {}) (connected_components cs vs d)"
    "cc.just_inv E verts D (cc_init Ec V d) (connected_components cs vs d)"
    "finish_inv (cc_traversal Ec) (connected_components cs vs d)"
proof -
  let ?P = "g_size (cc_graph Ec)" and ?home = "g_home (cc_graph Ec)"
  let ?d = "\<lambda>r n. if n \<in> set (vs r) \<or> n \<in> set (cs r) then n else d r n"
  have size: "?home n < ?P" for n using wf_cc_checked [of E verts D] by (simp add: Ec_def wf_graph_def)
  have lists: "set (cs r) \<union> set (vs r) = {n \<in> V. ?home n = r}" if "r < ?P" for r
    using placed that by (simp add: cc_placed_def)
  have mine: "(n \<in> set (vs (?home n)) \<or> n \<in> set (cs (?home n))) \<longleftrightarrow> n \<in> V" for n
    using lists [OF size [of n]] by (auto simp: set_eq_iff)
  have home: "cc_label Ec (?d (?home n) n) = cc_init Ec V d n" for n
    using mine [of n] by (simp add: cc_init_def)
  show "finish_inv (cc_traversal Ec) (connected_components cs vs d)"
    by (simp add: connected_components_def)
  have mem: "n \<in> set (cs r) \<union> set (vs r) \<longleftrightarrow> n \<in> V \<and> ?home n = r" if "r < ?P" for r n
    using lists [OF that] by blast
  have copy: "cc_init Ec V d n \<le> cc_label Ec (?d r n)" if "r < ?P" "g_delegate (cc_graph Ec) n" for r n
    using placed that by (auto simp: cc_placed_def cc_init_def)
  have started: "?home n = r \<and> n \<in> V \<and> cc_vertex v = n \<and> m_cc v = n"
    if "r < ?P" "v \<in> set (map cc_start_visitor (cs r)) \<union> set (map cc_start_visitor (vs r))" "n = cc_vertex v" for r v n
    using mem [OF that(1), of n] that(2,3) by (auto simp: cc_start_visitor_def)
  show "cc.trav_inv E verts D (cc_init Ec V d) (V, {}) (connected_components cs vs d)"
    unfolding connected_components_def
  proof (rule cc.start_all_inv)
    show "cc_label (cc_checked E verts D) (?d (t_home (cc_traversal (cc_checked E verts D)) n) n) = cc_init Ec V d n" for n
      using home [of n] unfolding Ec_def cc_traversal_sel .
    show "cc_init Ec V d n \<le> cc_label (cc_checked E verts D) (?d r n)"
      if "r < t_size (cc_traversal (cc_checked E verts D))" "t_delegate (cc_traversal (cc_checked E verts D)) n" for r n
      using copy [of r n] that unfolding Ec_def cc_traversal_sel .
    show "t_home (cc_traversal (cc_checked E verts D)) (t_vertex (cc_traversal (cc_checked E verts D)) v) = r \<and>
        cc_init Ec V d (t_vertex (cc_traversal (cc_checked E verts D)) v) \<le> cc_label (cc_checked E verts D) (m_cc v)"
      if "r < t_size (cc_traversal (cc_checked E verts D))" "v \<in> set (map cc_start_visitor (cs r)) \<union> set (map cc_start_visitor (vs r))" for r v
      using started [of r v "cc_vertex v"] that by (simp add: Ec_def cc_init_def)
    show "(u, cc_init Ec V d u) \<in> cc.pair E verts D ` (set (map cc_start_visitor (cs (t_home (cc_traversal (cc_checked E verts D)) u)))
        \<union> set (map cc_start_visitor (vs (t_home (cc_traversal (cc_checked E verts D)) u))))" if "u \<in> V" for u
    proof -
      have "u \<in> set (cs (?home u)) \<union> set (vs (?home u))" using mem [OF size] that by blast
      then have "cc_start_visitor u \<in> set (map cc_start_visitor (cs (?home u))) \<union> set (map cc_start_visitor (vs (?home u)))" by auto
      moreover have "(u, cc_init Ec V d u) = cc.pair E verts D (cc_start_visitor u)"
        using that by (simp add: cc.pair_def cc_start_visitor_def cc_init_def Ec_def)
      ultimately show ?thesis unfolding Ec_def cc_traversal_sel by (intro image_eqI)
    qed
  qed
  show "cc.just_inv E verts D (cc_init Ec V d) (connected_components cs vs d)"
    unfolding connected_components_def
  proof (rule cc.start_all_just)
    show "cc_label (cc_checked E verts D) (?d (t_home (cc_traversal (cc_checked E verts D)) n) n) = cc_init Ec V d n" for n
      using home [of n] unfolding Ec_def cc_traversal_sel .
    show "cc_just (cc_checked E verts D) (checked_verts (cc_graph E) verts D) (cc_init Ec V d)
        (t_vertex (cc_traversal (cc_checked E verts D)) v) (cc_label (cc_checked E verts D) (m_cc v))"
      if "r < t_size (cc_traversal (cc_checked E verts D))" "v \<in> set (map cc_start_visitor (cs r)) \<union> set (map cc_start_visitor (vs r))" for r v
    proof -
      have v: "cc_vertex v \<in> V" "m_cc v = cc_vertex v" using started [of r v "cc_vertex v"] that by (simp_all add: Ec_def)
      show ?thesis unfolding cc_just_def cc_traversal_sel v(2)
        using v(1) cc_here [of "cc_checked E verts D" "cc_vertex v"] unfolding V_def by blast
    qed
  qed
qed

lemma cc_reach_verts: "cc_reach E m n \<Longrightarrow> wf_graph (cc_graph E) verts D \<Longrightarrow> m \<in> verts \<Longrightarrow> n \<in> verts"
proof (induction rule: cc_reach.induct)
  case (cc_next u w)
  then obtain r i where "i < length (g_edges (cc_graph E) r u)" "g_edges (cc_graph E) r u ! i = w" by (auto simp: cc_edge_def)
  then have "w \<in> set (g_edges (cc_graph E) r u)" by auto
  then show ?case using cc_next.prems(1) by (auto simp: wf_graph_def)
qed

lemma cc_result_checked:
  assumes placed: "cc_placed (cc_checked E verts D) (checked_verts (cc_graph E) verts D) cs vs d"
    and reach: "vq_reach (cc_traversal (cc_checked E verts D)) (connected_components cs vs d) g"
    and fin: "all_finished (g_size (cc_graph (cc_checked E verts D))) g"
    and n: "n \<in> checked_verts (cc_graph E) verts D" "v_predicate (cc_checked E verts D) n"
  shows "\<exists>m \<in> checked_verts (cc_graph E) verts D. cc_reach (cc_checked E verts D) m n
      \<and> cc_label (cc_checked E verts D) (cc_of (cc_checked E verts D) (fst g) n) = cc_label (cc_checked E verts D) m"
    "cc_reach (cc_checked E verts D) m n \<Longrightarrow> m \<in> checked_verts (cc_graph E) verts D \<Longrightarrow>
      cc_label (cc_checked E verts D) (cc_of (cc_checked E verts D) (fst g) n) \<le> cc_label (cc_checked E verts D) m"
proof -
  let ?E = "cc_checked E verts D" and ?V = "checked_verts (cc_graph E) verts D"
  let ?L = "\<lambda>n. cc_label ?E (cc_of ?E (fst g) n)"
  note start = cc_start [OF placed]
  have L: "cc.value_of E verts D (fst g) = ?L" by (simp add: cc_value_of fun_eq_iff)
  have le: "?L w \<le> cc_init ?E ?V d w" for w
    using cc.values_decrease [OF reach start(1), of w] by (simp add: cc_value_of)
  have just: "?L n = cc_init ?E ?V d n \<or> cc_just ?E ?V ?L n (?L n)"
    using cc.values_justified [OF reach start(1,2), of n] unfolding L .
  show "\<exists>m \<in> ?V. cc_reach ?E m n \<and> ?L n = cc_label ?E m"
  proof (cases "?L n = cc_init ?E ?V d n")
    case True
    then show ?thesis using n(1) cc_here [of ?E n] by (auto simp: cc_init_def)
  next
    case False
    then have "cc_just ?E ?V ?L n (?L n)" using just by blast
    then show ?thesis using n(2) unfolding cc_just_def by metis
  qed
  show "?L n \<le> cc_label ?E m" if "cc_reach ?E m n" "m \<in> ?V"
    using that(1)
  proof (induction rule: cc_reach.induct)
    case cc_here
    then show ?case using le [of m] that(2) by (simp add: cc_init_def)
  next
    case (cc_next u w)
    obtain r i where e: "r < g_size (cc_graph ?E)" "r = g_home (cc_graph ?E) u \<or> g_delegate (cc_graph ?E) u"
      "i < length (g_edges (cc_graph ?E) r u)" "e_predicate ?E r u i" "g_edges (cc_graph ?E) r u ! i = w"
      "v_predicate ?E u" "v_predicate ?E w" using cc_next(2) by (auto simp: cc_edge_def)
    have u: "u \<in> ?V" and w: "w \<in> ?V"
      using cc_reach_verts [OF _ wf_cc_checked that(2)] cc_next(1) cc_reach.cc_next [OF cc_next(1,2)] by blast+
    have "?L w \<le> ?L u"
    proof (cases "?L u < cc_label ?E w")
      case True
      then have "(w, ?L u) \<in> cc_offers ?E r u (?L u)" using e by (auto simp: cc_offers_def)
      then show ?thesis
        using cc.finished_closed [OF reach start(1,3), where u = u and r = r and w = w and k = "?L u"] fin e u
        by (simp add: cc_value_of cc.stores_def)
    next
      case False
      then show ?thesis using le [of w] w by (simp add: cc_init_def)
    qed
    then show ?case using cc_next.IH by simp
  qed
qed

text \<open>
  C8. When label propagation has ended, the component recorded for a participating vertex is the one
  with the least label among the vertices that reach it over participating vertices and edges; this
  holds for every schedule, every distribution of delegate edges, and copies of delegates that start
  with any label not below the delegate's own.
\<close>

theorem cc_is_least_label:
  assumes "wf_graph (cc_graph E) verts D" "cc_placed E verts cs vs d"
    "vq_reach (cc_traversal E) (connected_components cs vs d) g" "all_finished (g_size (cc_graph E)) g"
    "n \<in> verts" "v_predicate E n"
  shows "(\<exists>m \<in> verts. cc_reach E m n \<and> cc_label E (cc_of E (fst g) n) = cc_label E m) \<and>
    (\<forall>m. m \<in> verts \<and> cc_reach E m n \<longrightarrow> cc_label E (cc_of E (fst g) n) \<le> cc_label E m)"
proof -
  note result = cc_result_checked [of E verts D cs vs d g n, unfolded cc_checked_eq [OF assms(1)] checked_eq [OF assms(1)], OF assms(2-)]
  show ?thesis using result(1) result(2) by blast
qed

lemma cc_reach_trans: "cc_reach E u w \<Longrightarrow> cc_reach E m u \<Longrightarrow> cc_reach E m w"
  by (induction rule: cc_reach.induct) (auto intro: cc_next)

lemma cc_reach_sym:
  assumes "\<And>u w. cc_edge E u w \<Longrightarrow> cc_edge E w u"
  shows "cc_reach E m n \<Longrightarrow> cc_reach E n m"
proof (induction rule: cc_reach.induct)
  case (cc_next u w)
  have "cc_reach E w u" using cc_reach.cc_next [OF cc_here assms [OF cc_next(2)]] .
  then show ?case using cc_next.IH cc_reach_trans by metis
qed (rule cc_here)

text \<open>
  C32. On an undirected graph with distinct labels the recorded components are the connected components:
  two participating vertices have the same one exactly when they are connected.
\<close>

theorem cc_separates_components:
  assumes "wf_graph (cc_graph E) verts D" "cc_placed E verts cs vs d"
    "vq_reach (cc_traversal E) (connected_components cs vs d) g" "all_finished (g_size (cc_graph E)) g"
    "inj_on (cc_label E) verts" "\<forall>u w. cc_edge E u w \<longrightarrow> cc_edge E w u"
    "u \<in> verts" "w \<in> verts" "v_predicate E u" "v_predicate E w"
  shows "cc_label E (cc_of E (fst g) u) = cc_label E (cc_of E (fst g) w) \<longleftrightarrow> cc_reach E u w"
proof -
  note result = cc_result_checked [of E verts D cs vs d g, unfolded cc_checked_eq [OF assms(1)] checked_eq [OF assms(1)], OF assms(2-4)]
  have sym: "cc_reach E a b \<Longrightarrow> cc_reach E b a" for a b using cc_reach_sym assms(6) by metis
  obtain a where a: "a \<in> verts" "cc_reach E a u" "cc_label E (cc_of E (fst g) u) = cc_label E a" using result(1) [OF assms(7,9)] by blast
  obtain b where b: "b \<in> verts" "cc_reach E b w" "cc_label E (cc_of E (fst g) w) = cc_label E b" using result(1) [OF assms(8,10)] by blast
  show ?thesis
  proof
    assume "cc_label E (cc_of E (fst g) u) = cc_label E (cc_of E (fst g) w)"
    then have "a = b" using assms(5) a b by (auto dest: inj_onD)
    then show "cc_reach E u w" using cc_reach_trans [of E a w u] sym [OF a(2)] b(2) by simp
  next
    assume r: "cc_reach E u w"
    have "cc_reach E b u" "cc_reach E a w" using cc_reach_trans [OF sym [OF r] b(2)] cc_reach_trans [OF r a(2)] .
    then show "cc_label E (cc_of E (fst g) u) = cc_label E (cc_of E (fst g) w)"
      using result(2) [OF assms(7,9), of b] result(2) [OF assms(8,10), of a] a b by simp
  qed
qed

text \<open>Two components over two ranks; a hub and a vertex on the other rank form one of them.\<close>

definition cc_demo :: "nat cc_env" where
  "cc_demo = \<lparr>cc_graph = \<lparr>g_size = 2, g_delegate = (\<lambda>n. n = 0), g_home = (\<lambda>n. n mod 2),
       g_edges = (\<lambda>r n. if n = 0 \<and> r = 0 then [1] else if n = 1 \<and> r = 1 then [0] else [])\<rparr>,
     cc_label = of_nat, v_predicate = (\<lambda>n. True), e_predicate = (\<lambda>r n i. True)\<rparr>"

lemma cc_demo_sel [simp]:
  "g_size (cc_graph cc_demo) = 2" "g_delegate (cc_graph cc_demo) n \<longleftrightarrow> n = 0" "g_home (cc_graph cc_demo) n = n mod 2"
  "g_edges (cc_graph cc_demo) r n = (if n = 0 \<and> r = 0 then [1] else if n = 1 \<and> r = 1 then [0] else [])"
  "cc_label cc_demo n = of_nat n" "v_predicate cc_demo n" "e_predicate cc_demo r n i"
  by (simp_all add: cc_demo_def)

definition cc_demo_vertices :: "nat \<Rightarrow> nat list" where
  "cc_demo_vertices r = (if r = 0 then [2] else if r = 1 then [1] else [])"

definition cc_demo_controllers :: "nat \<Rightarrow> nat list" where
  "cc_demo_controllers r = (if r = 0 then [0] else [])"

lemma wf_cc_demo: "wf_graph (cc_graph cc_demo) {0, 1, 2} 1"
  by (auto simp: wf_graph_def split: if_splits)

lemma cc_demo_placed: "cc_placed cc_demo {0, 1, 2} cc_demo_controllers cc_demo_vertices (\<lambda>r n. n)"
  by (auto simp: cc_placed_def cc_demo_controllers_def cc_demo_vertices_def less_2_cases_iff)

definition cc_demo_run :: schedule where
  "cc_demo_run = replicate 8 (Some (0, 0)) @ replicate 5 (Some (1, 0)) @ [None] @ replicate 4 (Some (0, 0)) @ replicate 10 (Some (1, 0)) @ [None]"

lemmas cc_run = run_eval connected_components_def cc_start_visitor_def cc_pre_visit_def cc_visit_def cc_new_visitors_def all_less_2

lemma cc_demo_run_ends:
  "case run_schedule (cc_traversal cc_demo) cc_demo_run (connected_components cc_demo_controllers cc_demo_vertices (\<lambda>r n. n)) of
     None \<Rightarrow> False | Some g \<Rightarrow> all_finished 2 g \<and> cc_of cc_demo (fst g) 1 = 0 \<and> cc_of cc_demo (fst g) 2 = 2"
  by (simp add: cc_demo_run_def replicate_run cc_run cc_demo_controllers_def cc_demo_vertices_def cc_of_def)

lemma cc_demo_reach:
  obtains g where "vq_reach (cc_traversal cc_demo) (connected_components cc_demo_controllers cc_demo_vertices (\<lambda>r n. n)) g"
    "all_finished 2 g" "cc_of cc_demo (fst g) 1 = 0" "cc_of cc_demo (fst g) 2 = 2"
  using cc_demo_run_ends schedule_reach by (fastforce split: option.splits)

lemma cc_demo_inj: "inj_on (cc_label cc_demo) {0, 1, 2}"
  by (simp add: inj_on_def)

lemma cc_demo_sym: "\<forall>u w. cc_edge cc_demo u w \<longrightarrow> cc_edge cc_demo w u"
  by (auto simp: cc_edge_def less_2_cases_iff split: if_splits)

lemma cc_is_least_label_witness:
  "\<exists>g. vq_reach (cc_traversal cc_demo) (connected_components cc_demo_controllers cc_demo_vertices (\<lambda>r n. n)) g
     \<and> (\<exists>m \<in> {0, 1, 2}. cc_reach cc_demo m 1 \<and> cc_label cc_demo (cc_of cc_demo (fst g) 1) = cc_label cc_demo m)"
proof -
  obtain g where g: "vq_reach (cc_traversal cc_demo) (connected_components cc_demo_controllers cc_demo_vertices (\<lambda>r n. n)) g"
    "all_finished 2 g" by (rule cc_demo_reach)
  have "\<exists>m \<in> {0, 1, 2}. cc_reach cc_demo m 1 \<and> cc_label cc_demo (cc_of cc_demo (fst g) 1) = cc_label cc_demo m"
    using cc_is_least_label [OF wf_cc_demo cc_demo_placed g(1), of 1] g(2) by simp
  then show ?thesis using g(1) by blast
qed

lemma cc_separates_components_witness: "\<not> cc_reach cc_demo 1 2"
proof -
  obtain g where g: "vq_reach (cc_traversal cc_demo) (connected_components cc_demo_controllers cc_demo_vertices (\<lambda>r n. n)) g"
    "all_finished 2 g" "cc_of cc_demo (fst g) 1 = 0" "cc_of cc_demo (fst g) 2 = 2" by (rule cc_demo_reach)
  show ?thesis
    using cc_separates_components [OF wf_cc_demo cc_demo_placed g(1) _ cc_demo_inj cc_demo_sym, of 1 2] g(2-4) by simp
qed

text \<open>
  C34. Label propagation always ends: no infinite run; some run ends with every rank out of the loop or
  with a rank about to take a visitor from an empty queue, the second only with delegates.
\<close>

theorem cc_ends:
  assumes "wf_graph (cc_graph E) verts D" "cc_placed E verts cs vs d"
  shows "(\<nexists>f. f 0 = connected_components cs vs d \<and> (\<forall>i. vq_step (cc_traversal E) (f i) (f (Suc i)))) \<and>
    (\<exists>g. vq_reach (cc_traversal E) (connected_components cs vs d) g
       \<and> (all_finished (g_size (cc_graph E)) g \<or> (\<exists>r < g_size (cc_graph E). pops_empty (fst g r)))) \<and>
    (\<forall>g. vq_reach (cc_traversal E) (connected_components cs vs d) g \<and> (\<forall>g'. \<not> vq_step (cc_traversal E) g g') \<longrightarrow>
       all_finished (g_size (cc_graph E)) g \<or> (\<exists>n. g_delegate (cc_graph E) n) \<and> (\<exists>r < g_size (cc_graph E). pops_empty (fst g r)))"
proof -
  have "cc.popping E verts D (connected_components cs vs d)" by (simp add: connected_components_def cc.popping_start)
  then have "cc.ends E verts D (connected_components cs vs d)"
    using cc.always_ends [OF cc_start, of E verts D cs vs d] assms by (simp add: cc_checked_eq)
  then show ?thesis unfolding cc.ends_def using assms(1) by (simp add: cc_checked_eq)
qed

lemma cc_ends_witness:
  "\<exists>g. vq_reach (cc_traversal cc_demo) (connected_components cc_demo_controllers cc_demo_vertices (\<lambda>r n. n)) g
     \<and> (all_finished 2 g \<or> (\<exists>r < 2. pops_empty (fst g r)))"
  using cc_ends [OF wf_cc_demo cc_demo_placed] by simp

end
