(* ===== verification/Visitor_Containers.thy ===== *)
theory Visitor_Containers
  imports Bfs Sssp Connected_Components "HOL-Library.Multiset"
begin

section \<open>Containers of owned visitors\<close>

text \<open>
  The containers a visitor queue can be built on: the priority queue all algorithms use
  (detail/visitor\_priority\_queue.hpp), the vector of page\_rank.hpp and the bucket queue of
  breadth\_first\_search.hpp.  The contract is that of a bag: \<open>top\<close> is an element and \<open>pop\<close> removes it.
  \<open>None\<close> is undefined behaviour (an access to an empty deque).
\<close>

locale visitor_container =
  fixes fresh :: "'q" and push :: "'v \<Rightarrow> 'q \<Rightarrow> 'q" and top :: "'q \<Rightarrow> 'v option" and pop :: "'q \<Rightarrow> 'q option"
    and empty :: "'q \<Rightarrow> bool" and bag :: "'q \<Rightarrow> 'v multiset" and inv :: "'q \<Rightarrow> bool" and may_push :: "'v \<Rightarrow> 'q \<Rightarrow> bool"
  assumes fresh: "inv fresh" "bag fresh = {#}"
    and push: "inv q \<Longrightarrow> may_push v q \<Longrightarrow> inv (push v q) \<and> bag (push v q) = add_mset v (bag q)"
    and empty: "inv q \<Longrightarrow> empty q \<longleftrightarrow> bag q = {#}"
    and top: "inv q \<Longrightarrow> bag q \<noteq> {#} \<Longrightarrow>
      \<exists>v q'. top q = Some v \<and> v \<in># bag q \<and> pop q = Some q' \<and> inv q' \<and> bag q' = bag q - {#v#}"
begin

text \<open>Taking visitors until the container is empty.\<close>

fun drain :: "nat \<Rightarrow> 'q \<Rightarrow> 'v list option" where
  "drain 0 q = (if empty q then Some [] else None)"
| "drain (Suc n) q = (if empty q then Some [] else
     Option.bind (top q) (\<lambda>v. Option.bind (pop q) (\<lambda>q'. map_option (Cons v) (drain n q'))))"

lemma drain_all:
  assumes "inv q" "size (bag q) \<le> n"
  shows "\<exists>vs. drain n q = Some vs \<and> mset vs = bag q"
  using assms
proof (induction n arbitrary: q)
  case 0
  then show ?case by (simp add: empty)
next
  case (Suc n)
  show ?case
  proof (cases "bag q = {#}")
    case True
    then show ?thesis using Suc.prems by (simp add: empty)
  next
    case False
    then obtain v q' where v: "top q = Some v" "v \<in># bag q" "pop q = Some q'" "inv q'" "bag q' = bag q - {#v#}"
      using top Suc.prems(1) by blast
    moreover have "size (bag q') \<le> n" using v(2,5) Suc.prems(2) by (simp add: size_Diff_singleton)
    ultimately obtain vs where "drain n q' = Some vs" "mset vs = bag q'" using Suc.IH by blast
    then show ?thesis using v False Suc.prems(1) by (simp add: empty)
  qed
qed

text \<open>The visitor queue's \<open>pop_top\<close> follows the container: some position of the owned list holds its top.\<close>

lemma pop_top_follows:
  assumes "inv q" "bag q = mset (owned st)" "owned st \<noteq> []"
  shows "\<exists>v q' k st'. top q = Some v \<and> pop q = Some q' \<and> pop_top k st = Some (v, st') \<and> inv q' \<and> bag q' = mset (owned st')"
proof -
  have "bag q \<noteq> {#}" using assms(2,3) by simp
  then obtain v q' where v: "top q = Some v" "v \<in># bag q" "pop q = Some q'" "inv q'" "bag q' = bag q - {#v#}"
    using top assms(1) by blast
  then have "v \<in> set (owned st)" using assms(2) by simp
  then obtain k where k: "k < length (owned st)" "owned st ! k = v" by (auto simp: in_set_conv_nth)
  have "mset (owned st) = add_mset v (mset (take k (owned st) @ drop (Suc k) (owned st)))"
    using arg_cong [OF id_take_nth_drop [OF k(1)], of mset] k(2) by simp
  then show ?thesis using v k assms(2) by (auto simp: pop_top_def)
qed

end

subsection \<open>The vector (page\_rank.hpp)\<close>

definition pr_push :: "'v \<Rightarrow> 'v list \<Rightarrow> 'v list" where
  "pr_push task m_data = m_data @ [task]"

definition pr_pop :: "'v list \<Rightarrow> 'v list option" where
  "pr_pop m_data = (if m_data = [] then None else Some (butlast m_data))"

definition pr_top :: "'v list \<Rightarrow> 'v option" where
  "pr_top m_data = (if m_data = [] then None else Some (last m_data))"

definition pr_size :: "'v list \<Rightarrow> nat" where
  "pr_size m_data = length m_data"

definition pr_empty :: "'v list \<Rightarrow> bool" where
  "pr_empty m_data \<longleftrightarrow> m_data = []"

definition pr_clear :: "'v list \<Rightarrow> 'v list" where
  "pr_clear m_data = []"

interpretation prq: visitor_container "[]" pr_push pr_top pr_pop pr_empty mset "\<lambda>q. True" "\<lambda>v q. True"
proof unfold_locales
  show "\<exists>v q'. pr_top q = Some v \<and> v \<in># mset q \<and> pr_pop q = Some q' \<and> True \<and> mset q' = mset q - {#v#}"
    if "mset q \<noteq> {#}" for q :: "'v list"
  proof -
    obtain xs x where "q = xs @ [x]" using \<open>mset q \<noteq> {#}\<close> by (cases q rule: rev_cases) simp_all
    then show ?thesis by (simp add: pr_top_def pr_pop_def)
  qed
qed (simp_all add: pr_push_def pr_empty_def)

subsection \<open>The stack (triangle\_count\_global.hpp)\<close>

text \<open>A deque, used at its back: \<open>top\<close> and \<open>pop\<close> of an empty one are undefined.\<close>

definition lifo_push :: "'v \<Rightarrow> 'v list \<Rightarrow> 'v list" where
  "lifo_push task m_data = m_data @ [task]"

definition lifo_pop :: "'v list \<Rightarrow> 'v list option" where
  "lifo_pop m_data = (if m_data = [] then None else Some (butlast m_data))"

definition lifo_top :: "'v list \<Rightarrow> 'v option" where
  "lifo_top m_data = (if m_data = [] then None else Some (last m_data))"

definition lifo_size :: "'v list \<Rightarrow> nat" where
  "lifo_size m_data = length m_data"

definition lifo_empty :: "'v list \<Rightarrow> bool" where
  "lifo_empty m_data \<longleftrightarrow> m_data = []"

definition lifo_clear :: "'v list \<Rightarrow> 'v list" where
  "lifo_clear m_data = []"

interpretation lifo: visitor_container "[]" lifo_push lifo_top lifo_pop lifo_empty mset "\<lambda>q. True" "\<lambda>v q. True"
  using prq.visitor_container_axioms
  unfolding pr_push_def [abs_def] pr_pop_def [abs_def] pr_top_def [abs_def] pr_empty_def [abs_def]
    lifo_push_def [abs_def] lifo_pop_def [abs_def] lifo_top_def [abs_def] lifo_empty_def [abs_def] .

subsection \<open>The priority queue (detail/visitor\_priority\_queue.hpp, and sssp\_queue)\<close>

text \<open>
  \<open>std::priority_queue\<close> with \<open>std::greater\<close>: its top is an element that is not greater than any other.
  Which of several it is, the standard leaves open; here it is the first inserted.
\<close>

definition vpq_push :: "'v \<Rightarrow> 'v list \<Rightarrow> 'v list" where
  "vpq_push task m_data = m_data @ [task]"

definition vpq_top :: "('v \<Rightarrow> 'v \<Rightarrow> bool) \<Rightarrow> 'v list \<Rightarrow> 'v option" where
  "vpq_top gt m_data = find (\<lambda>v. \<forall>w \<in> set m_data. \<not> gt v w) m_data"

definition vpq_pop :: "('v \<Rightarrow> 'v \<Rightarrow> bool) \<Rightarrow> 'v list \<Rightarrow> 'v list option" where
  "vpq_pop gt m_data = map_option (\<lambda>v. remove1 v m_data) (vpq_top gt m_data)"

definition vpq_size :: "'v list \<Rightarrow> nat" where
  "vpq_size m_data = length m_data"

definition vpq_empty :: "'v list \<Rightarrow> bool" where
  "vpq_empty m_data \<longleftrightarrow> m_data = []"

text \<open>What \<open>std::greater\<close> has to be: irreflexive, transitive.\<close>

definition strict_order :: "('v \<Rightarrow> 'v \<Rightarrow> bool) \<Rightarrow> bool" where
  "strict_order gt \<longleftrightarrow> (\<forall>v. \<not> gt v v) \<and> (\<forall>u v w. gt u v \<and> gt v w \<longrightarrow> gt u w)"

lemma least_exists:
  assumes "strict_order gt" "xs \<noteq> []"
  shows "\<exists>v \<in> set xs. \<forall>w \<in> set xs. \<not> gt v w"
  using assms(2)
proof (induction xs rule: list_nonempty_induct)
  case (single x)
  then show ?case using assms(1) by (simp add: strict_order_def)
next
  case (cons x xs)
  then obtain v where v: "v \<in> set xs" "\<forall>w \<in> set xs. \<not> gt v w" by blast
  show ?case
  proof (cases "gt v x")
    case True
    have "\<not> gt x w" if "w \<in> set (x # xs)" for w
      using that True v(2) assms(1) unfolding strict_order_def by (metis set_ConsD)
    then show ?thesis by auto
  next
    case False
    then show ?thesis using v by auto
  qed
qed

definition ordered_by :: "('v \<Rightarrow> 'v \<Rightarrow> bool) \<Rightarrow> ('v \<Rightarrow> 'v \<Rightarrow> bool)" where
  "ordered_by gt = (if strict_order gt then gt else (\<lambda>v w. False))"

lemma ordered_by: "strict_order (ordered_by gt)"
  by (simp add: ordered_by_def) (simp add: strict_order_def)

interpretation vpq: visitor_container "[]" vpq_push "vpq_top (ordered_by gt)" "vpq_pop (ordered_by gt)" vpq_empty mset "\<lambda>q. True" "\<lambda>v q. True"
  for gt :: "'v \<Rightarrow> 'v \<Rightarrow> bool"
proof unfold_locales
  show "\<exists>v q'. vpq_top (ordered_by gt) q = Some v \<and> v \<in># mset q \<and> vpq_pop (ordered_by gt) q = Some q' \<and> True \<and> mset q' = mset q - {#v#}"
    if "mset q \<noteq> {#}" for q
  proof -
    have "\<exists>v \<in> set q. \<forall>w \<in> set q. \<not> ordered_by gt v w" using least_exists [OF ordered_by] that by simp
    then have "vpq_top (ordered_by gt) q \<noteq> None" unfolding vpq_top_def find_None_iff by blast
    then obtain v where v: "vpq_top (ordered_by gt) q = Some v" by blast
    then have "v \<in> set q" unfolding vpq_top_def by (auto simp: find_Some_iff)
    then show ?thesis using v by (auto simp: vpq_pop_def)
  qed
qed (simp_all add: vpq_push_def vpq_empty_def)

subsection \<open>The orders of the visitors\<close>

definition bfs_greater :: "('n \<Rightarrow> 'n \<Rightarrow> bool) \<Rightarrow> 'n bfs_visitor \<Rightarrow> 'n bfs_visitor \<Rightarrow> bool" where
  "bfs_greater lt v1 v2 =
     (if level v1 > level v2 then True else if level v1 < level v2 then False else \<not> lt (vertex v1) (vertex v2))"

definition sssp_greater :: "'n sssp_visitor \<Rightarrow> 'n sssp_visitor \<Rightarrow> bool" where
  "sssp_greater v1 v2 \<longleftrightarrow> m_path v1 > m_path v2"

definition cc_greater :: "('n \<Rightarrow> 'n \<Rightarrow> bool) \<Rightarrow> 'n cc_visitor \<Rightarrow> 'n cc_visitor \<Rightarrow> bool" where
  "cc_greater lt v1 v2 =
     (if lt (m_cc v2) (m_cc v1) then True else if lt (m_cc v1) (m_cc v2) then False
      else if cc_vertex v1 = cc_vertex v2 then False else \<not> lt (cc_vertex v1) (cc_vertex v2))"

text \<open>
  The visitors of shortest paths and connected components are ordered strictly (for a total order
  of the locators), so a priority queue of them is a bag whose top cannot be beaten; the order of the
  breadth-first visitors is not: every visitor is greater than itself, for any order of the locators
  that is irreflexive.
\<close>

theorem visitor_orders:
  fixes lt :: "'n \<Rightarrow> 'n \<Rightarrow> bool"
  shows "strict_order (sssp_greater :: 'n sssp_visitor \<Rightarrow> 'n sssp_visitor \<Rightarrow> bool) \<and>
    ((\<forall>a. \<not> lt a a) \<and> (\<forall>a b c. lt a b \<and> lt b c \<longrightarrow> lt a c) \<and> (\<forall>a b. a \<noteq> b \<longrightarrow> lt a b \<or> lt b a) \<longrightarrow>
       strict_order (cc_greater lt)) \<and>
    ((\<forall>a. \<not> lt a a) \<longrightarrow> (\<forall>v. bfs_greater lt v v) \<and> (\<forall>v. vpq_top (bfs_greater lt) [v] = None))"
proof -
  have "strict_order (sssp_greater :: 'n sssp_visitor \<Rightarrow> 'n sssp_visitor \<Rightarrow> bool)"
    by (auto simp: strict_order_def sssp_greater_def)
  moreover have "strict_order (cc_greater lt)"
    if o: "\<forall>a. \<not> lt a a" "\<forall>a b c. lt a b \<and> lt b c \<longrightarrow> lt a c" "\<forall>a b. a \<noteq> b \<longrightarrow> lt a b \<or> lt b a"
  proof -
    have asym: "lt a b \<Longrightarrow> lt b a \<Longrightarrow> False" for a b using o(1,2) by blast
    have connex: "lt a b \<or> a = b \<or> lt b a" for a b using o(3) by blast
    have "(if lt b a then True else if lt a b then False else if c = d then False else \<not> lt c d) \<longleftrightarrow> lt b a \<or> b = a \<and> lt d c" for a b c d
      using connex [of a b] connex [of c d] asym [of a b] asym [of c d] o(1) by (cases "a = b"; cases "c = d") auto
    then have eq: "cc_greater lt v w \<longleftrightarrow> lt (m_cc w) (m_cc v) \<or> m_cc w = m_cc v \<and> lt (cc_vertex w) (cc_vertex v)" for v w
      unfolding cc_greater_def .
    have "cc_greater lt u w" if "cc_greater lt u v" "cc_greater lt v w" for u v w
      using that o(2) [rule_format, of "m_cc w" "m_cc v" "m_cc u"] o(2) [rule_format, of "cc_vertex w" "cc_vertex v" "cc_vertex u"]
      unfolding eq by (elim disjE conjE) simp_all
    moreover have "\<not> cc_greater lt v v" for v using o(1) unfolding eq by simp
    ultimately show ?thesis unfolding strict_order_def by blast
  qed
  moreover have "bfs_greater lt v v \<and> vpq_top (bfs_greater lt) [v] = None" if "\<forall>a. \<not> lt a a" for v
    using that by (simp add: bfs_greater_def vpq_top_def)
  ultimately show ?thesis by blast
qed

theorem visitor_orders_witness:
  "strict_order (cc_greater ((<) :: nat \<Rightarrow> nat \<Rightarrow> bool)) \<and>
   (\<forall>v. vpq_top (bfs_greater ((<) :: nat \<Rightarrow> nat \<Rightarrow> bool)) [v] = None)"
  using visitor_orders [of "(<) :: nat \<Rightarrow> nat \<Rightarrow> bool"] by (simp add: neq_iff)

subsection \<open>The bucket queue (breadth\_first\_search.hpp)\<close>

record 'n bfs_queue =
  m_vec_bfs_level_stack :: "'n bfs_visitor list list"
  m_cur_min_level :: nat
  m_size :: nat

definition bfs_queue_new :: "'n bfs_queue" where
  "bfs_queue_new = \<lparr>m_vec_bfs_level_stack = replicate 20 [], m_cur_min_level = 2 ^ 32 - 1, m_size = 0\<rparr>"

definition bfs_queue_push :: "'n bfs_visitor \<Rightarrow> 'n bfs_queue \<Rightarrow> 'n bfs_queue" where
  "bfs_queue_push task q =
     (let l = unat (level task); vec = m_vec_bfs_level_stack q;
          vec = vec @ replicate (Suc l - length vec) []
      in q\<lparr>m_vec_bfs_level_stack := vec[l := vec ! l @ [task]], m_size := m_size q + 1,
           m_cur_min_level := min (m_cur_min_level q) l\<rparr>)"

text \<open>The search for the next non-empty bucket.\<close>

fun next_level_from :: "'a list list \<Rightarrow> nat \<Rightarrow> nat" where
  "next_level_from [] l = l"
| "next_level_from (b # bs) l = (if b = [] then next_level_from bs (Suc l) else l)"

definition bfs_queue_top :: "'n bfs_queue \<Rightarrow> 'n bfs_visitor option" where
  "bfs_queue_top q =
     (let vec = m_vec_bfs_level_stack q; l = m_cur_min_level q
      in if l < length vec \<and> vec ! l \<noteq> [] then Some (last (vec ! l)) else None)"

definition bfs_queue_pop :: "'n bfs_queue \<Rightarrow> 'n bfs_queue option" where
  "bfs_queue_pop q =
     (let vec = m_vec_bfs_level_stack q; l = m_cur_min_level q
      in if l < length vec \<and> vec ! l \<noteq> []
         then let vec' = vec[l := butlast (vec ! l)]
              in Some (q\<lparr>m_vec_bfs_level_stack := vec', m_size := m_size q - 1,
                        m_cur_min_level := if vec' ! l = [] then next_level_from (drop l vec') l else l\<rparr>)
         else None)"

definition bfs_queue_size :: "'n bfs_queue \<Rightarrow> nat" where
  "bfs_queue_size q = m_size q"

definition bfs_queue_empty :: "'n bfs_queue \<Rightarrow> bool" where
  "bfs_queue_empty q \<longleftrightarrow> m_size q = 0"

definition bfs_queue_clear :: "'n bfs_queue \<Rightarrow> 'n bfs_queue" where
  "bfs_queue_clear q = q\<lparr>m_vec_bfs_level_stack := map (\<lambda>b. []) (m_vec_bfs_level_stack q), m_size := 0, m_cur_min_level := 2 ^ 32 - 1\<rparr>"

definition bfs_bag :: "'n bfs_queue \<Rightarrow> 'n bfs_visitor multiset" where
  "bfs_bag q = mset (concat (m_vec_bfs_level_stack q))"

text \<open>The current level is the first non-empty bucket; with no visitors it lies beyond the buckets.\<close>

definition bfs_queue_ok :: "'n bfs_queue \<Rightarrow> bool" where
  "bfs_queue_ok q \<longleftrightarrow> m_size q = size (bfs_bag q) \<and>
     (\<forall>l < m_cur_min_level q. l < length (m_vec_bfs_level_stack q) \<longrightarrow> m_vec_bfs_level_stack q ! l = []) \<and>
     (m_cur_min_level q < length (m_vec_bfs_level_stack q) \<longrightarrow> m_vec_bfs_level_stack q ! m_cur_min_level q \<noteq> [])"

definition bfs_may_push :: "'n bfs_visitor \<Rightarrow> 'n bfs_queue \<Rightarrow> bool" where
  "bfs_may_push task q \<longleftrightarrow> m_size q \<noteq> 0 \<or> unat (level task) \<le> m_cur_min_level q"

lemma next_level_from:
  "l \<le> next_level_from bs l \<and> next_level_from bs l \<le> l + length bs
   \<and> (\<forall>k < next_level_from bs l - l. bs ! k = [])
   \<and> (next_level_from bs l < l + length bs \<longrightarrow> bs ! (next_level_from bs l - l) \<noteq> [])"
proof (induction bs arbitrary: l)
  case (Cons b bs)
  let ?n = "next_level_from bs (Suc l)"
  have IH: "Suc l \<le> ?n" "?n \<le> Suc l + length bs" "\<forall>k < ?n - Suc l. bs ! k = []" "?n < Suc l + length bs \<longrightarrow> bs ! (?n - Suc l) \<noteq> []"
    using Cons.IH [of "Suc l"] by blast+
  have "?n - l = Suc (?n - Suc l)" using IH(1) by simp
  then show ?case using IH by (auto simp: nth_Cons less_Suc_eq_0_disj split: nat.split)
qed simp

lemma bag_append: "l < length vec \<Longrightarrow> mset (concat (vec[l := vec ! l @ [t]])) = add_mset t (mset (concat vec))"
  by (subst (3) id_take_nth_drop [of l vec]) (simp_all add: upd_conv_take_nth_drop)

lemma bag_butlast:
  assumes "l < length vec" "vec ! l \<noteq> []"
  shows "add_mset (last (vec ! l)) (mset (concat (vec[l := butlast (vec ! l)]))) = mset (concat vec)"
proof -
  have "mset (vec ! l) = add_mset (last (vec ! l)) (mset (butlast (vec ! l)))"
    using assms(2) by (cases "vec ! l" rule: rev_cases) simp_all
  then show ?thesis
    by (subst (3) id_take_nth_drop [of l vec]) (use assms in \<open>simp_all add: upd_conv_take_nth_drop\<close>)
qed

lemma concat_empty: "(\<forall>l < length vec. vec ! l = []) \<longleftrightarrow> concat vec = []"
  by (auto simp: in_set_conv_nth) (metis nth_mem)

lemma bfs_queue_nonempty:
  assumes "bfs_queue_ok q" "bfs_bag q \<noteq> {#}"
  shows "m_cur_min_level q < length (m_vec_bfs_level_stack q)"
proof (rule ccontr)
  assume "\<not> ?thesis"
  then have "\<forall>l < length (m_vec_bfs_level_stack q). m_vec_bfs_level_stack q ! l = []"
    using assms(1) by (simp add: bfs_queue_ok_def)
  then show False using assms(2) concat_empty [of "m_vec_bfs_level_stack q"] by (simp add: bfs_bag_def)
qed

lemma bfs_push_ok:
  assumes "bfs_queue_ok q" "bfs_may_push v q"
  shows "bfs_queue_ok (bfs_queue_push v q) \<and> bfs_bag (bfs_queue_push v q) = add_mset v (bfs_bag q)"
proof -
  define l where "l = unat (level v)"
  define vec where "vec = m_vec_bfs_level_stack q @ replicate (Suc l - length (m_vec_bfs_level_stack q)) []"
  have q': "bfs_queue_push v q = q\<lparr>m_vec_bfs_level_stack := vec[l := vec ! l @ [v]], m_size := m_size q + 1,
      m_cur_min_level := min (m_cur_min_level q) l\<rparr>"
    by (simp add: bfs_queue_push_def Let_def l_def vec_def)
  have l: "l < length vec" by (auto simp: vec_def)
  have "mset (concat vec) = bfs_bag q" by (simp add: vec_def bfs_bag_def)
  then have bag: "bfs_bag (bfs_queue_push v q) = add_mset v (bfs_bag q)"
    using bag_append [OF l, of v] by (simp add: q' bfs_bag_def)
  have low: "vec ! k = []" if "k < m_cur_min_level q" "k < length vec" for k
    using that assms(1) by (auto simp: vec_def bfs_queue_ok_def nth_append)
  have cur: "vec ! m_cur_min_level q \<noteq> []" if "m_cur_min_level q < l"
  proof -
    have "m_size q \<noteq> 0" using assms(2) that by (auto simp: bfs_may_push_def l_def)
    then have "bfs_bag q \<noteq> {#}" using assms(1) by (auto simp: bfs_queue_ok_def)
    then have "m_cur_min_level q < length (m_vec_bfs_level_stack q)" by (rule bfs_queue_nonempty [OF assms(1)])
    then show ?thesis using assms(1) by (simp add: vec_def bfs_queue_ok_def nth_append)
  qed
  have "bfs_queue_ok (bfs_queue_push v q)"
    unfolding bfs_queue_ok_def bag
    using assms(1) low cur l by (auto simp: q' bfs_queue_ok_def nth_list_update min_def)
  then show ?thesis using bag ..
qed

lemma bfs_pop_ok:
  assumes ok: "bfs_queue_ok q" and ne: "bfs_bag q \<noteq> {#}"
  shows "\<exists>v q'. bfs_queue_top q = Some v \<and> v \<in># bfs_bag q \<and> bfs_queue_pop q = Some q' \<and> bfs_queue_ok q'
    \<and> bfs_bag q' = bfs_bag q - {#v#}"
proof -
  let ?vec = "m_vec_bfs_level_stack q" and ?l = "m_cur_min_level q"
  let ?v = "last (?vec ! ?l)" and ?vec' = "?vec[?l := butlast (?vec ! ?l)]"
  have l: "?l < length ?vec" "?vec ! ?l \<noteq> []" using bfs_queue_nonempty [OF ok ne] ok by (simp_all add: bfs_queue_ok_def)
  let ?n = "if ?vec' ! ?l = [] then next_level_from (drop ?l ?vec') ?l else ?l"
  let ?q = "q\<lparr>m_vec_bfs_level_stack := ?vec', m_size := m_size q - 1, m_cur_min_level := ?n\<rparr>"
  have top: "bfs_queue_top q = Some ?v" and pop: "bfs_queue_pop q = Some ?q"
    using l by (simp_all add: bfs_queue_top_def bfs_queue_pop_def Let_def)
  have bag: "add_mset ?v (bfs_bag ?q) = bfs_bag q" using bag_butlast [OF l] by (simp add: bfs_bag_def)
  then have rest: "?v \<in># bfs_bag q" "bfs_bag ?q = bfs_bag q - {#?v#}"
    by (simp_all flip: bag)
  have low: "?vec' ! k = []" if "k < ?l" "k < length ?vec" for k
    using that ok by (simp add: bfs_queue_ok_def)
  define N where "N = next_level_from (drop ?l ?vec') ?l"
  have N: "?l \<le> N" "\<And>k. k < N - ?l \<Longrightarrow> drop ?l ?vec' ! k = []" "N < length ?vec \<Longrightarrow> drop ?l ?vec' ! (N - ?l) \<noteq> []"
    using next_level_from [of ?l "drop ?l ?vec'"] l(1) unfolding N_def by auto
  have n: "?n = (if ?vec' ! ?l = [] then N else ?l)" by (simp add: N_def)
  have A: "?vec' ! k = []" if "k < ?n" "k < length ?vec" for k
  proof (cases "k < ?l")
    case False
    then have "k < N" using that(1) unfolding n by (auto split: if_splits)
    then have "drop ?l ?vec' ! (k - ?l) = []" using N(2) False by simp
    then show ?thesis using False that(2) by simp
  qed (use low that in blast)
  have B: "?vec' ! ?n \<noteq> []" if "?n < length ?vec"
  proof (cases "?vec' ! ?l = []")
    case True
    then have "drop ?l ?vec' ! (N - ?l) \<noteq> []" using N(3) that unfolding n by simp
    then show ?thesis using N(1) that True l(1) unfolding n by simp
  qed simp
  define q' m where "q' = ?q" and "m = ?n"
  have q': "m_size q' = m_size q - 1" "m_vec_bfs_level_stack q' = ?vec'" "m_cur_min_level q' = m" by (simp_all add: q'_def m_def)
  have "bfs_queue_ok q'"
    unfolding bfs_queue_ok_def q' length_list_update
  proof (intro conjI allI impI)
    show "m_size q - 1 = size (bfs_bag q')"
      using ok rest(1) unfolding q'_def rest(2) by (simp add: bfs_queue_ok_def size_Diff_singleton)
    show "?vec' ! k = []" if "k < m" "k < length ?vec" for k using A that unfolding m_def by blast
    show "?vec' ! m \<noteq> []" if "m < length ?vec" using B that unfolding m_def by blast
  qed
  then show ?thesis using top pop rest unfolding q'_def by blast
qed

interpretation bfsq: visitor_container bfs_queue_new bfs_queue_push bfs_queue_top bfs_queue_pop bfs_queue_empty bfs_bag bfs_queue_ok bfs_may_push
proof unfold_locales
  show "bfs_queue_ok bfs_queue_new" "bfs_bag bfs_queue_new = {#}"
    by (simp_all add: bfs_queue_ok_def bfs_queue_new_def bfs_bag_def)
  show "bfs_queue_empty q = (bfs_bag q = {#})" if "bfs_queue_ok q" for q :: "'n bfs_queue"
    using that by (auto simp: bfs_queue_ok_def bfs_queue_empty_def)
qed (rule bfs_push_ok bfs_pop_ok; assumption)+

text \<open>The precondition of a push is needed: emptied once, the bucket queue may be pushed a visitor it then has no top for.\<close>

lemma bfs_queue_loses_visitor:
  assumes "bfs_queue_pop q = Some q'" "length (m_vec_bfs_level_stack q) < unat (level v)"
    "m_cur_min_level q' = length (m_vec_bfs_level_stack q)"
  shows "\<not> bfs_queue_empty (bfs_queue_push v q') \<and> bfs_queue_top (bfs_queue_push v q') = None"
proof -
  have q': "length (m_vec_bfs_level_stack q') = length (m_vec_bfs_level_stack q)"
    using assms(1) by (auto simp: bfs_queue_pop_def Let_def split: if_splits)
  show ?thesis
    using assms(2, 3) q' by (simp add: bfs_queue_push_def bfs_queue_top_def bfs_queue_empty_def Let_def nth_append)
qed

text \<open>
  Used from its first push, and whenever it is not empty or the level is not beyond the one it last
  searched up to, the bucket queue is a bag: from every state kept so, taking visitors until it is empty
  yields exactly what it held.
\<close>

theorem bfs_queue_drains:
  assumes "bfs_queue_ok q" "size (bfs_bag q) \<le> n" "bfs_may_push v q"
  shows "\<exists>vs. bfsq.drain (Suc n) (bfs_queue_push v q) = Some vs \<and> mset vs = add_mset v (bfs_bag q)"
  using bfsq.drain_all [of "bfs_queue_push v q" "Suc n"] bfs_push_ok [OF assms(1,3)] assms(2) by simp

lemma bfs_queue_drains_witness:
  "\<exists>vs. bfsq.drain (Suc 0) (bfs_queue_push (bfs_source_visitor (0 :: nat)) bfs_queue_new) = Some vs
     \<and> mset vs = add_mset (bfs_source_visitor 0) (bfs_bag bfs_queue_new)"
proof (rule bfs_queue_drains)
  show "bfs_may_push (bfs_source_visitor (0 :: nat)) bfs_queue_new"
    by (simp add: bfs_may_push_def level_def bfs_source_visitor_def bfs_queue_new_def)
qed (simp_all add: bfsq.fresh)

end
