(* ===== verification/Collectives.thy ===== *)
theory Collectives
  imports Havoq_Prelude "HOL-Library.Monad_Syntax"
begin

section \<open>Collective exchanges (mpi.hpp)\<close>

text \<open>
  A collective is modelled over all ranks at once: list index \<open>r\<close> of an argument is what rank \<open>r\<close>
  passes in, list index \<open>r\<close> of the result is what it gets.  The MPI library itself is a parameter, the
  record \<open>mpi_ops\<close>; \<open>mpi_ok\<close> states what the MPI standard documents of the five calls used here.  What
  mpi.hpp adds is modelled: the counts, the displacements, the rearrangement by owner and the sizes of
  the receive buffers.  Counts and displacements are of type \<open>int\<close> in the code; a sum that does not fit
  (undefined behaviour) is \<open>None\<close>, and so is an index outside a vector.
\<close>

subsection \<open>The MPI library\<close>

definition segment :: "nat \<Rightarrow> nat \<Rightarrow> 'a list \<Rightarrow> 'a list" where
  "segment i n xs = take n (drop i xs)"

text \<open>
  \<open>alltoallv\<close> takes the send buffers, send counts and displacements, and the sizes of the receive
  buffers, receive counts and displacements, all counted in elements.
\<close>

record 'a mpi_ops =
  alltoall :: "nat list list \<Rightarrow> nat list list"
  alltoallv :: "'a list list \<Rightarrow> nat list list \<Rightarrow> nat list list \<Rightarrow> nat list \<Rightarrow> nat list list \<Rightarrow> nat list list \<Rightarrow> 'a list list"
  allgather :: "nat list \<Rightarrow> nat list list"
  allgatherv :: "'a list list \<Rightarrow> nat list \<Rightarrow> nat list list \<Rightarrow> nat list list \<Rightarrow> 'a list list"
  allreduce :: "('a \<Rightarrow> 'a \<Rightarrow> 'a) \<Rightarrow> 'a list list \<Rightarrow> 'a list list"

definition transpose_counts :: "nat list list \<Rightarrow> nat list list" where
  "transpose_counts ins = map (\<lambda>r. map (\<lambda>s. ins ! s ! r) [0..<length ins]) [0..<length ins]"

text \<open>
  The calls of \<open>MPI_Alltoallv\<close> and \<open>MPI_Allgatherv\<close> the laws speak about: the counts of sender and
  receiver agree, the segments lie in the buffers, and the receive buffer is packed.
\<close>

definition packed :: "nat \<Rightarrow> nat list \<Rightarrow> nat list \<Rightarrow> bool" where
  "packed sz cnts ds \<longleftrightarrow> sz = sum_list cnts \<and> length ds = length cnts \<and> (\<forall>s < length cnts. ds ! s = sum_list (take s cnts))"

definition alltoallv_args :: "'a list list \<Rightarrow> nat list list \<Rightarrow> nat list list \<Rightarrow> nat list \<Rightarrow> nat list list \<Rightarrow> nat list list \<Rightarrow> bool" where
  "alltoallv_args bufs sc sd sz rc rd \<longleftrightarrow>
     (let p = length bufs in length sz = p \<and> length sc = p \<and> length sd = p \<and> length rc = p \<and> length rd = p
      \<and> (\<forall>r < p. length (sc ! r) = p \<and> length (sd ! r) = p \<and> length (rc ! r) = p)
      \<and> (\<forall>r < p. \<forall>s < p. rc ! r ! s = sc ! s ! r \<and> sd ! s ! r + sc ! s ! r \<le> length (bufs ! s))
      \<and> (\<forall>r < p. packed (sz ! r) (rc ! r) (rd ! r)))"

definition alltoallv_result :: "'a list list \<Rightarrow> nat list list \<Rightarrow> nat list list \<Rightarrow> nat list \<Rightarrow> nat list list \<Rightarrow> nat list list \<Rightarrow> 'a list list \<Rightarrow> bool" where
  "alltoallv_result bufs sc sd sz rc rd out \<longleftrightarrow>
     (let p = length bufs in length out = p \<and> (\<forall>r < p. length (out ! r) = sz ! r
        \<and> (\<forall>s < p. segment (rd ! r ! s) (rc ! r ! s) (out ! r) = segment (sd ! s ! r) (sc ! s ! r) (bufs ! s))))"

definition allgatherv_args :: "'a list list \<Rightarrow> nat list \<Rightarrow> nat list list \<Rightarrow> nat list list \<Rightarrow> bool" where
  "allgatherv_args bufs sz rc rd \<longleftrightarrow>
     (let p = length bufs in length sz = p \<and> length rc = p \<and> length rd = p
      \<and> (\<forall>r < p. rc ! r = map length bufs \<and> packed (sz ! r) (rc ! r) (rd ! r)))"

definition allgatherv_result :: "'a list list \<Rightarrow> nat list \<Rightarrow> nat list list \<Rightarrow> nat list list \<Rightarrow> 'a list list \<Rightarrow> bool" where
  "allgatherv_result bufs sz rc rd out \<longleftrightarrow>
     (let p = length bufs in length out = p \<and> (\<forall>r < p. length (out ! r) = sz ! r
        \<and> (\<forall>s < p. segment (rd ! r ! s) (rc ! r ! s) (out ! r) = bufs ! s)))"

text \<open>A reduction combines the ranks' vectors element by element; the operations used are associative and commutative.\<close>

fun reduce1 :: "('a \<Rightarrow> 'a \<Rightarrow> 'a) \<Rightarrow> 'a list list \<Rightarrow> 'a list" where
  "reduce1 f [] = []"
| "reduce1 f (v # vs) = fold (\<lambda>w acc. map2 f acc w) vs v"

definition mpi_ok :: "'a mpi_ops \<Rightarrow> bool" where
  "mpi_ok M \<longleftrightarrow>
     (\<forall>ins. (\<forall>v \<in> set ins. length v = length ins) \<longrightarrow> alltoall M ins = transpose_counts ins)
   \<and> (\<forall>bufs sc sd sz rc rd. alltoallv_args bufs sc sd sz rc rd \<longrightarrow>
        alltoallv_result bufs sc sd sz rc rd (alltoallv M bufs sc sd sz rc rd))
   \<and> (\<forall>ins. allgather M ins = replicate (length ins) ins)
   \<and> (\<forall>bufs sz rc rd. allgatherv_args bufs sz rc rd \<longrightarrow>
        allgatherv_result bufs sz rc rd (allgatherv M bufs sz rc rd))
   \<and> (\<forall>f ins. (\<forall>x y z. f (f x y) z = f x (f y z)) \<and> (\<forall>x y. f x y = f y x) \<and> (\<forall>v \<in> set ins. length v = length (hd ins)) \<longrightarrow>
        allreduce M f ins = replicate (length ins) (reduce1 f ins))"

text \<open>A library that does what is documented, for concrete runs.\<close>

definition plain_mpi :: "'a mpi_ops" where
  "plain_mpi = \<lparr>alltoall = transpose_counts,
     alltoallv = (\<lambda>bufs sc sd sz rc rd. map (\<lambda>r. concat (map (\<lambda>s. segment (sd ! s ! r) (sc ! s ! r) (bufs ! s)) [0..<length bufs])) [0..<length bufs]),
     allgather = (\<lambda>ins. replicate (length ins) ins),
     allgatherv = (\<lambda>bufs sz rc rd. replicate (length bufs) (concat bufs)),
     allreduce = (\<lambda>f ins. replicate (length ins) (reduce1 f ins))\<rparr>"

subsection \<open>Displacements and segments\<close>

text \<open>\<open>std::partial_sum\<close>, then each entry set back by its own count.\<close>

fun partial_sum :: "nat \<Rightarrow> nat list \<Rightarrow> nat list" where
  "partial_sum acc [] = []"
| "partial_sum acc (x # xs) = (acc + x) # partial_sum (acc + x) xs"

definition displacements :: "nat list \<Rightarrow> nat list" where
  "displacements cnts = map2 (-) (partial_sum 0 cnts) cnts"

lemma length_partial_sum [simp]: "length (partial_sum a xs) = length xs"
  by (induction xs arbitrary: a) simp_all

lemma length_displacements [simp]: "length (displacements cnts) = length cnts"
  by (simp add: displacements_def)

lemma partial_sum_nth: "i < length xs \<Longrightarrow> partial_sum a xs ! i = a + sum_list (take i xs) + xs ! i"
  by (induction xs arbitrary: a i) (auto simp: nth_Cons split: nat.splits)

lemma displacements_nth [simp]: "i < length cnts \<Longrightarrow> displacements cnts ! i = sum_list (take i cnts)"
  by (simp add: displacements_def partial_sum_nth)

lemma packed_displacements [simp]: "packed sz cnts (displacements cnts) \<longleftrightarrow> sz = sum_list cnts"
  by (auto simp: packed_def)

lemma sum_take_nth_le: "i < length cs \<Longrightarrow> sum_list (take i cs) + cs ! i \<le> sum_list (cs :: nat list)"
  by (induction cs arbitrary: i) (auto simp: nth_Cons split: nat.splits)

lemma sum_take_mono: "i \<le> j \<Longrightarrow> sum_list (take i cs) \<le> sum_list (take j (cs :: nat list))"
  by (metis le_Suc_ex sum_list.append take_add le_add1)

lemma sum_take_Suc_le: "i < j \<Longrightarrow> i < length cs \<Longrightarrow> sum_list (take i cs) + cs ! i \<le> sum_list (take j (cs :: nat list))"
  using sum_take_mono [of "Suc i" j cs] by (simp add: take_Suc_conv_app_nth)

text \<open>A list all of whose packed segments are known is the concatenation of the segments.\<close>

lemma segment_concat:
  "s < length bs \<Longrightarrow> segment (sum_list (take s (map length bs))) (length (bs ! s)) (concat bs) = bs ! s"
proof (induction bs arbitrary: s)
  case Nil then show ?case by simp
next
  case (Cons b bs) then show ?case by (cases s) (auto simp: segment_def)
qed

lemma concat_segments:
  assumes "length xs = sum_list cs" "length cs = p" "\<And>s. s < p \<Longrightarrow> segment (sum_list (take s cs)) (cs ! s) xs = B s"
  shows "xs = concat (map B [0..<p])"
proof -
  have "take (sum_list (take n cs)) xs = concat (map B [0..<n])" if "n \<le> p" for n
    using that
  proof (induction n)
    case 0 then show ?case by simp
  next
    case (Suc n)
    then have n: "n < p" by simp
    have "sum_list (take (Suc n) cs) = sum_list (take n cs) + cs ! n"
      using n assms(2) by (simp add: take_Suc_conv_app_nth)
    then have "take (sum_list (take (Suc n) cs)) xs = take (sum_list (take n cs)) xs @ segment (sum_list (take n cs)) (cs ! n) xs"
      by (simp add: take_add segment_def)
    then show ?case using Suc assms(3) [OF n] by simp
  qed
  from this [of p] show ?thesis using assms(1,2) by simp
qed

lemma length_segment: "i + n \<le> length xs \<Longrightarrow> length (segment i n xs) = n"
  by (simp add: segment_def)

lemma mpi_ok_plain: "mpi_ok plain_mpi"
proof -
  have v: "alltoallv_result bufs sc sd sz rc rd (alltoallv plain_mpi bufs sc sd sz rc rd)"
    if a: "alltoallv_args bufs sc sd sz rc rd" for bufs :: "'a list list" and sc sd sz rc rd
  proof -
    have seg: "length (concat bs) = sz ! r" "segment (rd ! r ! s) (rc ! r ! s) (concat bs) = segment (sd ! s ! r) (sc ! s ! r) (bufs ! s)"
      if "r < length bufs" "s < length bufs" "bs = map (\<lambda>s. segment (sd ! s ! r) (sc ! s ! r) (bufs ! s)) [0..<length bufs]" for r s bs
    proof -
      have f: "length (rc ! r) = length bufs" "packed (sz ! r) (rc ! r) (rd ! r)" "\<And>s. s < length bufs \<Longrightarrow> rc ! r ! s = sc ! s ! r"
          "\<And>s. s < length bufs \<Longrightarrow> sd ! s ! r + sc ! s ! r \<le> length (bufs ! s)"
        using a \<open>r < length bufs\<close> by (simp_all add: alltoallv_args_def Let_def)
      have l: "map length bs = rc ! r"
        by (rule nth_equalityI) (simp_all add: that(3) f length_segment)
      then show "length (concat bs) = sz ! r" using f(2) by (simp add: length_concat packed_def)
      show "segment (rd ! r ! s) (rc ! r ! s) (concat bs) = segment (sd ! s ! r) (sc ! s ! r) (bufs ! s)"
      proof -
        have b: "length bs = length bufs" "bs ! s = segment (sd ! s ! r) (sc ! s ! r) (bufs ! s)" "length (bs ! s) = rc ! r ! s"
          using that(2) f(3,4) by (simp_all add: that(3) length_segment)
        have "segment (sum_list (take s (rc ! r))) (rc ! r ! s) (concat bs) = bs ! s"
          using segment_concat [of s bs] that(2) b(1) unfolding l b(3) by simp
        then show ?thesis using f(1,2) that(2) b(2) by (simp add: packed_def)
      qed
    qed
    show ?thesis
      unfolding alltoallv_result_def Let_def using seg by (simp add: plain_mpi_def)
  qed
  have g: "allgatherv_result bufs sz rc rd (allgatherv plain_mpi bufs sz rc rd)"
    if a: "allgatherv_args bufs sz rc rd" for bufs :: "'a list list" and sz rc rd
    using a segment_concat [of _ bufs]
    by (simp add: allgatherv_args_def allgatherv_result_def Let_def plain_mpi_def packed_def length_concat)
  show ?thesis unfolding mpi_ok_def using v g by (auto simp: plain_mpi_def)
qed

subsection \<open>Vector exchanges\<close>

definition fits_int :: "nat \<Rightarrow> bool" where
  "fits_int n \<longleftrightarrow> n < 2 ^ 31"

text \<open>
  \<open>mpi_all_to_all\<close> with given counts: every rank's vector already lies sorted by receiver, \<open>in_sendcnts\<close>
  says how much each receiver gets.
\<close>

definition mpi_all_to_all :: "'a mpi_ops \<Rightarrow> ('a list \<times> nat list) list \<Rightarrow> ('a list \<times> nat list) list option" where
  "mpi_all_to_all M ins =
     (let in_vec = map fst ins; in_sendcnts = map snd ins;
          out_recvcnts = alltoall M in_sendcnts;
          sdispls = map displacements in_sendcnts;
          rdispls = map displacements out_recvcnts;
          sizes = map sum_list out_recvcnts
      in if list_all (\<lambda>c. fits_int (sum_list c)) in_sendcnts \<and> list_all fits_int sizes
         then Some (zip (alltoallv M in_vec in_sendcnts sdispls sizes out_recvcnts rdispls) out_recvcnts)
         else None)"

text \<open>
  The send counts of \<open>mpi_all_to_all_better\<close>, in bytes; the partitioner may keep a state, and is told
  that it is counting.
\<close>

type_synonym ('a, 's) partitioner_fun = "'a \<Rightarrow> bool \<Rightarrow> 's \<Rightarrow> (nat \<times> 's) option"

fun count_sends :: "('a, 's) partitioner_fun \<Rightarrow> nat \<Rightarrow> 'a list \<Rightarrow> nat list \<Rightarrow> 's \<Rightarrow> (nat list \<times> 's) option" where
  "count_sends owner sz [] send_counts s = Some (send_counts, s)"
| "count_sends owner sz (x # xs) send_counts s = do {
     (d, s) \<leftarrow> owner x True s;
     if d < length send_counts then count_sends owner sz xs (send_counts[d := send_counts ! d + sz]) s else None }"

text \<open>The rearrangement: each element goes to the next free place of its receiver's part.\<close>

fun arrange :: "('a, 's) partitioner_fun \<Rightarrow> nat \<Rightarrow> nat list \<Rightarrow> 'a list \<Rightarrow> nat list \<Rightarrow> 'a list \<Rightarrow> 's \<Rightarrow> ('a list \<times> 's) option" where
  "arrange owner sz send_disps [] temp_arrange order_vec s = Some (order_vec, s)"
| "arrange owner sz send_disps (x # xs) temp_arrange order_vec s = do {
     (d, s) \<leftarrow> owner x False s;
     if d < length send_disps then
       (let dest_offset = (send_disps ! d + temp_arrange ! d) div sz
        in if dest_offset < length order_vec
           then arrange owner sz send_disps xs (temp_arrange[d := temp_arrange ! d + sz]) (order_vec[dest_offset := x]) s
           else None)
     else None }"

text \<open>What one rank prepares: the ordered vector, the counts and displacements, and the partitioner's state.\<close>

definition pack_sends :: "('a, 's) partitioner_fun \<Rightarrow> nat \<Rightarrow> 'a \<Rightarrow> nat \<Rightarrow> 'a list \<Rightarrow> 's \<Rightarrow> ('a list \<times> nat list \<times> nat list \<times> 's) option" where
  "pack_sends owner sz T0 mpi_size in_vec s = do {
     (send_counts, s) \<leftarrow> count_sends owner sz in_vec (replicate mpi_size 0) s;
     if fits_int (sum_list send_counts) then do {
       let send_disps = displacements send_counts;
       (order_vec, s) \<leftarrow> arrange owner sz send_disps in_vec (replicate mpi_size 0) (replicate (length in_vec) T0) s;
       Some (order_vec, send_counts, send_disps, s) }
     else None }"

definition mpi_all_to_all_better ::
  "'a mpi_ops \<Rightarrow> ('a, 's) partitioner_fun list \<Rightarrow> nat \<Rightarrow> 'a \<Rightarrow> 'a list list \<Rightarrow> 's list \<Rightarrow> ('a list list \<times> 's list) option" where
  "mpi_all_to_all_better M owners sz T0 ins ss = do {
     packs \<leftarrow> those (map (\<lambda>r. pack_sends (owners ! r) sz T0 (length ins) (ins ! r) (ss ! r)) [0..<length ins]);
     let send_counts = map (fst \<circ> snd) packs;
     let recv_counts = alltoall M send_counts;
     let elems = map (map (\<lambda>b. b div sz));
     if list_all (\<lambda>c. fits_int (sum_list c)) recv_counts then
       Some (alltoallv M (map fst packs) (elems send_counts) (elems (map (fst \<circ> snd \<circ> snd) packs))
               (map (\<lambda>c. sum_list c div sz) recv_counts) (elems recv_counts) (elems (map displacements recv_counts)),
             map (snd \<circ> snd \<circ> snd) packs)
     else None }"

text \<open>\<open>mpi_all_gather\<close> of vectors; the result vector is left as it was, empty, when nothing is sent.\<close>

definition mpi_all_gather :: "'a mpi_ops \<Rightarrow> 'a list list \<Rightarrow> 'a list list option" where
  "mpi_all_gather M ins =
     (let recv_counts = allgather M (map length ins); sizes = map sum_list recv_counts
      in if list_all fits_int sizes
         then Some (let out = allgatherv M ins sizes recv_counts (map displacements recv_counts)
                    in map (\<lambda>r. if 0 < sizes ! r then out ! r else []) [0..<length ins])
         else None)"

subsection \<open>What the exchanges deliver\<close>

lemma mpi_alltoall: "mpi_ok M \<Longrightarrow> (\<And>v. v \<in> set ins \<Longrightarrow> length v = length ins) \<Longrightarrow> alltoall M ins = transpose_counts ins"
  by (simp add: mpi_ok_def)

lemma mpi_alltoallv: "mpi_ok M \<Longrightarrow> alltoallv_args bufs sc sd sz rc rd \<Longrightarrow>
    alltoallv_result bufs sc sd sz rc rd (alltoallv M bufs sc sd sz rc rd)"
  by (simp add: mpi_ok_def)

lemma mpi_allgather: "mpi_ok M \<Longrightarrow> allgather M ins = replicate (length ins) ins"
  by (simp add: mpi_ok_def)

lemma mpi_allgatherv: "mpi_ok M \<Longrightarrow> allgatherv_args bufs sz rc rd \<Longrightarrow>
    allgatherv_result bufs sz rc rd (allgatherv M bufs sz rc rd)"
  by (simp add: mpi_ok_def)

text \<open>With blocks \<open>bs s r\<close> from \<open>s\<close> to \<open>r\<close>, \<open>MPI_Alltoallv\<close> gives \<open>r\<close> its blocks in the order of the senders.\<close>

lemma alltoallv_blocks:
  assumes "mpi_ok M"
    and sc: "sc = map (\<lambda>s. map (\<lambda>r. length (bs s r)) [0..<p]) [0..<p]"
    and rc: "rc = map (\<lambda>r. map (\<lambda>s. length (bs s r)) [0..<p]) [0..<p]"
  shows "alltoallv M (map (\<lambda>s. concat (map (bs s) [0..<p])) [0..<p]) sc (map displacements sc)
           (map sum_list rc) rc (map displacements rc)
         = map (\<lambda>r. concat (map (\<lambda>s. bs s r) [0..<p])) [0..<p]"
proof -
  define bufs where "bufs = map (\<lambda>s. concat (map (bs s) [0..<p])) [0..<p]"
  have l: "length bufs = p" by (simp add: bufs_def)
  have seg: "segment (sum_list (take r (map (\<lambda>r. length (bs s r)) [0..<p]))) (length (bs s r)) (bufs ! s) = bs s r"
    if "s < p" "r < p" for s r
    using segment_concat [of r "map (bs s) [0..<p]"] that by (simp add: bufs_def o_def)
  have le: "sum_list (take r (map (\<lambda>r. length (bs s r)) [0..<p])) + length (bs s r) \<le> length (bufs ! s)" if "s < p" "r < p" for s r
    using sum_take_nth_le [of r "map (\<lambda>r. length (bs s r)) [0..<p]"] that by (simp add: bufs_def length_concat o_def)
  have "alltoallv_args bufs sc (map displacements sc) (map sum_list rc) rc (map displacements rc)"
    unfolding alltoallv_args_def Let_def l using le by (auto simp: sc rc)
  from mpi_alltoallv [OF assms(1) this]
  have res: "length (alltoallv M bufs sc (map displacements sc) (map sum_list rc) rc (map displacements rc)) = p"
    "\<And>r. r < p \<Longrightarrow> length (alltoallv M bufs sc (map displacements sc) (map sum_list rc) rc (map displacements rc) ! r) = sum_list (rc ! r)"
    "\<And>r s. r < p \<Longrightarrow> s < p \<Longrightarrow>
       segment (sum_list (take s (rc ! r))) (rc ! r ! s) (alltoallv M bufs sc (map displacements sc) (map sum_list rc) rc (map displacements rc) ! r) = bs s r"
    using seg by (simp_all add: alltoallv_result_def l sc rc)
  show ?thesis
    unfolding bufs_def [symmetric]
  proof (rule nth_equalityI)
    fix r assume "r < length (alltoallv M bufs sc (map displacements sc) (map sum_list rc) rc (map displacements rc))"
    then have r: "r < p" using res(1) by simp
    show "alltoallv M bufs sc (map displacements sc) (map sum_list rc) rc (map displacements rc) ! r
            = map (\<lambda>r. concat (map (\<lambda>s. bs s r) [0..<p])) [0..<p] ! r"
      using concat_segments [of _ "rc ! r" p "\<lambda>s. bs s r", OF res(2) [OF r] _ res(3) [OF r]] r by (simp add: rc)
  qed (simp add: res(1))
qed

lemma transpose_counts_blocks:
  "transpose_counts (map (\<lambda>s. map (f s) [0..<p]) [0..<p]) = map (\<lambda>r. map (\<lambda>s. f s r) [0..<p]) [0..<p]"
  by (simp add: transpose_counts_def)

lemma mpi_all_to_all_blocks:
  assumes "mpi_ok M" "\<And>s. s < p \<Longrightarrow> fits_int (\<Sum>r\<leftarrow>[0..<p]. length (bs s r))" "\<And>r. r < p \<Longrightarrow> fits_int (\<Sum>s\<leftarrow>[0..<p]. length (bs s r))"
  shows "mpi_all_to_all M (map (\<lambda>s. (concat (map (bs s) [0..<p]), map (\<lambda>r. length (bs s r)) [0..<p])) [0..<p])
    = Some (map (\<lambda>r. (concat (map (\<lambda>s. bs s r) [0..<p]), map (\<lambda>s. length (bs s r)) [0..<p])) [0..<p])"
proof -
  define sc where "sc = map (\<lambda>s. map (\<lambda>r. length (bs s r)) [0..<p]) [0..<p]"
  have rc: "alltoall M sc = map (\<lambda>r. map (\<lambda>s. length (bs s r)) [0..<p]) [0..<p]"
  proof -
    have "alltoall M sc = transpose_counts sc" by (rule mpi_alltoall [OF assms(1)]) (auto simp: sc_def)
    then show ?thesis unfolding sc_def transpose_counts_blocks .
  qed
  have fst: "map fst (map (\<lambda>s. (concat (map (bs s) [0..<p]), map (\<lambda>r. length (bs s r)) [0..<p])) [0..<p])
      = map (\<lambda>s. concat (map (bs s) [0..<p])) [0..<p]"
    and snd: "map snd (map (\<lambda>s. (concat (map (bs s) [0..<p]), map (\<lambda>r. length (bs s r)) [0..<p])) [0..<p]) = sc"
    by (simp_all add: sc_def)
  have fits: "list_all (\<lambda>c. fits_int (sum_list c)) sc" "list_all fits_int (map sum_list (alltoall M sc))"
    using assms(2,3) unfolding rc by (auto simp: sc_def list_all_iff)
  show ?thesis
    unfolding mpi_all_to_all_def Let_def fst snd using fits alltoallv_blocks [OF assms(1) sc_def rc]
    by (simp add: rc zip_map_map zip_same_conv_map)
qed

lemma mpi_all_gather_concat:
  assumes "mpi_ok M" "fits_int (length (concat ins))"
  shows "mpi_all_gather M ins = Some (replicate (length ins) (concat ins))"
proof -
  define rc sz where "rc = replicate (length ins) (map length ins)" and "sz = map sum_list rc"
  have ag: "allgather M (map length ins) = rc" using mpi_allgather [OF assms(1), of "map length ins"] by (simp add: rc_def)
  have "allgatherv_args ins sz rc (map displacements rc)"
    by (auto simp: allgatherv_args_def rc_def sz_def Let_def)
  from mpi_allgatherv [OF assms(1) this] have out: "allgatherv_result ins sz rc (map displacements rc) (allgatherv M ins sz rc (map displacements rc))" .
  have nth: "(if 0 < sz ! r then allgatherv M ins sz rc (map displacements rc) ! r else []) = concat ins" if r: "r < length ins" for r
  proof (cases "0 < sz ! r")
    case True
    have "allgatherv M ins sz rc (map displacements rc) ! r = concat (map ((!) ins) [0..<length ins])"
      by (rule concat_segments [where cs = "map length ins"])
        (use out r in \<open>simp_all add: allgatherv_result_def Let_def rc_def sz_def\<close>)
    then show ?thesis using True by (simp add: map_nth)
  next
    case False
    then have "length (concat ins) = 0" using r by (simp add: sz_def rc_def length_concat)
    then show ?thesis using False by simp
  qed
  have gathered: "map (\<lambda>r. if 0 < sz ! r then allgatherv M ins sz rc (map displacements rc) ! r else []) [0..<length ins]
      = map (\<lambda>r. concat ins) [0..<length ins]"
    by (rule map_cong [OF refl], rule nth) simp
  have "list_all fits_int sz" using assms(2) by (simp add: list_all_iff sz_def rc_def length_concat)
  then show ?thesis
    unfolding mpi_all_gather_def Let_def ag sz_def [symmetric] by (simp add: gathered map_replicate_const)
qed

subsection \<open>The contract of a partitioner\<close>

text \<open>The elements for receiver \<open>r\<close>.\<close>

definition part_of :: "('a \<Rightarrow> nat) \<Rightarrow> nat \<Rightarrow> 'a list \<Rightarrow> 'a list" where
  "part_of dest r xs = filter (\<lambda>x. dest x = r) xs"

lemma part_of_simps [simp]:
  "part_of dest r [] = []" "part_of dest r (x # xs) = (if dest x = r then x # part_of dest r xs else part_of dest r xs)"
  "part_of dest r (xs @ ys) = part_of dest r xs @ part_of dest r ys"
  by (simp_all add: part_of_def)

text \<open>
  \<open>mpi_all_to_all_better\<close> calls the partitioner once to count and once to place; it needs the same
  answer both times, a rank of the communicator.  A partitioner with a state has to leave it alone.
\<close>

locale partitioner =
  fixes owner :: "('a, 's) partitioner_fun" and dest :: "'a \<Rightarrow> nat" and s0 :: 's and p :: nat
  assumes owner_eq: "owner x c s0 = Some (dest x, s0)" and dest_less: "0 < p \<Longrightarrow> dest x < p"
begin

lemma length_parts: "0 < p \<Longrightarrow> (\<Sum>r\<leftarrow>[0..<p]. length (part_of dest r xs)) = length xs"
proof (induction xs)
  case Nil then show ?case by (simp add: sum_list_0)
next
  case (Cons x xs)
  have "(\<Sum>r\<leftarrow>[0..<p]. length (part_of dest r (x # xs))) = (\<Sum>r\<leftarrow>[0..<p]. (if r = dest x then 1 else 0) + length (part_of dest r xs))"
    by (rule arg_cong [where f = sum_list]) auto
  also have "\<dots> = (\<Sum>r\<leftarrow>[0..<p]. if r = dest x then 1 else 0) + length xs"
    using Cons by (simp add: sum_list_addf)
  also have "(\<Sum>r\<leftarrow>[0..<p]. if r = dest x then 1 else 0) = (1 :: nat)"
    using dest_less [OF Cons.prems] by (simp add: interv_sum_list_conv_sum_set_nat)
  finally show ?case by simp
qed

lemma count_sends_eq:
  "0 < p \<Longrightarrow> length cs = p \<Longrightarrow>
   count_sends owner sz xs cs s0 = Some (map (\<lambda>r. cs ! r + sz * length (part_of dest r xs)) [0..<p], s0)"
proof (induction xs arbitrary: cs)
  case Nil then show ?case using map_nth [of cs] by simp
next
  case (Cons x xs)
  have "map (\<lambda>r. (cs[dest x := cs ! dest x + sz]) ! r + sz * length (part_of dest r xs)) [0..<p]
      = map (\<lambda>r. cs ! r + sz * length (part_of dest r (x # xs))) [0..<p]"
    using Cons.prems by (auto simp: nth_list_update)
  then show ?case using Cons dest_less [of x] by (simp add: owner_eq)
qed

lemma arrange_parts:
  fixes xs ys ov :: "'a list"
  assumes "0 < p" "0 < sz" "length ta = p" "length ov = length (xs @ ys)"
    and ta: "\<And>r. r < p \<Longrightarrow> ta ! r = sz * length (part_of dest r xs)"
    and sd: "length sd = p" "\<And>r. r < p \<Longrightarrow> sd ! r = sz * (\<Sum>t\<leftarrow>[0..<r]. length (part_of dest t (xs @ ys)))"
    and seg: "\<And>r. r < p \<Longrightarrow> segment (\<Sum>t\<leftarrow>[0..<r]. length (part_of dest t (xs @ ys))) (length (part_of dest r xs)) ov = part_of dest r xs"
  shows "\<exists>ov'. arrange owner sz sd ys ta ov s0 = Some (ov', s0) \<and> length ov' = length (xs @ ys) \<and>
    (\<forall>r < p. segment (\<Sum>t\<leftarrow>[0..<r]. length (part_of dest t (xs @ ys))) (length (part_of dest r (xs @ ys))) ov' = part_of dest r (xs @ ys))"
  using assms
proof (induction ys arbitrary: xs ta ov)
  case Nil then show ?case by simp
next
  case (Cons y ys)
  define all where "all = xs @ y # ys"
  define D where "D r = (\<Sum>t\<leftarrow>[0..<r]. length (part_of dest t all))" for r
  define off where "off = D (dest y) + length (part_of dest (dest y) xs)"
  have d: "dest y < p" using Cons.prems(1) by (rule dest_less)
  have mono: "D r + length (part_of dest r all) \<le> D t" if "r < t" for r t
  proof -
    have "[0..<t] = [0..<Suc r] @ [Suc r..<t]" using that upt_add_eq_append [of 0 "Suc r" "t - Suc r"] by simp
    then show ?thesis by (simp add: D_def)
  qed
  have parts: "length (part_of dest r xs) + (if r = dest y then 1 else 0) \<le> length (part_of dest r all)" for r by (simp add: all_def)
  have top: "D p = length all" using length_parts [OF Cons.prems(1)] by (simp add: D_def)
  have "off < D (dest y) + length (part_of dest (dest y) all)" using parts [of "dest y"] by (simp add: off_def)
  also have "\<dots> \<le> D p" using d by (rule mono)
  finally have off: "off < length ov" using Cons.prems(4) top by (simp add: all_def)
  have at: "(sd ! dest y + ta ! dest y) div sz = off"
    using d Cons.prems(2,5,7) by (simp add: off_def D_def all_def flip: distrib_left)
  have "\<exists>ov'. arrange owner sz sd ys (ta[dest y := ta ! dest y + sz]) (ov[off := y]) s0 = Some (ov', s0) \<and> length ov' = length ((xs @ [y]) @ ys) \<and>
    (\<forall>r < p. segment (\<Sum>t\<leftarrow>[0..<r]. length (part_of dest t ((xs @ [y]) @ ys))) (length (part_of dest r ((xs @ [y]) @ ys))) ov' = part_of dest r ((xs @ [y]) @ ys))"
  proof (rule Cons.IH)
    fix r assume r: "r < p"
    show "ta[dest y := ta ! dest y + sz] ! r = sz * length (part_of dest r (xs @ [y]))"
      using r d Cons.prems(3,5) by (simp add: nth_list_update)
    show "sd ! r = sz * (\<Sum>t\<leftarrow>[0..<r]. length (part_of dest t ((xs @ [y]) @ ys)))" using Cons.prems(7) [OF r] by simp
    have old: "segment (D r) (length (part_of dest r xs)) ov = part_of dest r xs" using Cons.prems(8) [OF r] by (simp add: D_def all_def)
    show "segment (\<Sum>t\<leftarrow>[0..<r]. length (part_of dest t ((xs @ [y]) @ ys))) (length (part_of dest r (xs @ [y]))) (ov[off := y]) = part_of dest r (xs @ [y])"
    proof (cases "r = dest y")
      case True
      have "drop (D r) (ov[off := y]) = (drop (D r) ov)[length (part_of dest r xs) := y]"
        using True by (simp add: off_def drop_update_swap)
      moreover have "length (part_of dest r xs) < length (drop (D r) ov)" using off True by (simp add: off_def)
      ultimately have "segment (D r) (Suc (length (part_of dest r xs))) (ov[off := y]) = segment (D r) (length (part_of dest r xs)) ov @ [y]"
        by (simp add: segment_def take_Suc_conv_app_nth)
      then show ?thesis using True old by (simp add: D_def all_def)
    next
      case False
      have "off < D r \<or> D r + length (part_of dest r xs) \<le> off"
      proof (cases "r < dest y")
        case True
        then show ?thesis using mono [of r "dest y"] parts [of r] by (simp add: off_def)
      next
        case False
        with \<open>r \<noteq> dest y\<close> show ?thesis using mono [of "dest y" r] parts [of "dest y"] by (simp add: off_def)
      qed
      then have "segment (D r) (length (part_of dest r xs)) (ov[off := y]) = segment (D r) (length (part_of dest r xs)) ov"
        by (auto simp: segment_def drop_update_swap)
      then show ?thesis using False old by (simp add: D_def all_def)
    qed
  qed (use Cons.prems off in simp_all)
  then show ?case using d off at Cons.prems(6) by (simp add: owner_eq Let_def)
qed

lemma pack_sends_eq:
  assumes "0 < p" "0 < sz" "fits_int (sz * length xs)"
  shows "pack_sends owner sz T0 p xs s0 =
    Some (concat (map (\<lambda>r. part_of dest r xs) [0..<p]), map (\<lambda>r. sz * length (part_of dest r xs)) [0..<p],
          displacements (map (\<lambda>r. sz * length (part_of dest r xs)) [0..<p]), s0)"
proof -
  define cs where "cs = map (\<lambda>r. sz * length (part_of dest r xs)) [0..<p]"
  have count: "count_sends owner sz xs (replicate p 0) s0 = Some (cs, s0)"
    using count_sends_eq [OF assms(1), of "replicate p 0" sz xs] by (simp add: cs_def cong: map_cong)
  have sum: "sum_list cs = sz * length xs"
    using length_parts [OF assms(1), of xs] by (simp add: cs_def sum_list_const_mult)
  have disp: "displacements cs ! r = sz * (\<Sum>t\<leftarrow>[0..<r]. length (part_of dest t xs))" if "r < p" for r
    using that by (simp add: cs_def take_map sum_list_const_mult)
  obtain ov where ov: "arrange owner sz (displacements cs) xs (replicate p 0) (replicate (length xs) T0) s0 = Some (ov, s0)"
    "length ov = length xs" "\<And>r. r < p \<Longrightarrow> segment (\<Sum>t\<leftarrow>[0..<r]. length (part_of dest t xs)) (length (part_of dest r xs)) ov = part_of dest r xs"
    using arrange_parts [of sz "replicate p 0" "replicate (length xs) T0" "[]" xs "displacements cs"] assms(1,2) disp
    by (auto simp: cs_def segment_def)
  have "ov = concat (map (\<lambda>r. part_of dest r xs) [0..<p])"
    by (rule concat_segments [where cs = "map (\<lambda>r. length (part_of dest r xs)) [0..<p]"])
      (use ov length_parts [OF assms(1), of xs] in \<open>simp_all add: take_map\<close>)
  then show ?thesis
    unfolding pack_sends_def cs_def [symmetric] using count ov(1) assms(3) sum by (simp add: Let_def)
qed

end

lemma fits_int_mult_mono: "fits_int (k * m) \<Longrightarrow> n \<le> m \<Longrightarrow> fits_int (k * n)"
  unfolding fits_int_def using mult_le_mono2 le_less_trans by blast

lemma displacements_div:
  "0 < sz \<Longrightarrow> map (\<lambda>b. b div sz) (displacements (map (\<lambda>x. sz * c x) xs)) = displacements (map c xs)"
  by (rule nth_equalityI) (simp_all add: take_map sum_list_const_mult)

text \<open>Every rank gets the elements meant for it, in the order of the senders and of their vectors.\<close>

lemma mpi_all_to_all_better_parts:
  assumes M: "mpi_ok M" and p: "p = length ins" "0 < p" "0 < sz"
    and part: "\<And>r. r < p \<Longrightarrow> partitioner (owners ! r) dest s0 p"
    and fits: "fits_int (sz * length (concat ins))"
  shows "mpi_all_to_all_better M owners sz T0 ins (replicate p s0) =
    Some (map (\<lambda>r. part_of dest r (concat ins)) [0..<p], replicate p s0)"
proof -
  define bs where "bs = (\<lambda>s r. part_of dest r (ins ! s))"
  define c where "c = (\<lambda>s. map (\<lambda>r. sz * length (bs s r)) [0..<p])"
  have le: "length (ins ! s) \<le> length (concat ins)" if "s < p" for s
    using that p(1) member_le_sum_list [of "length (ins ! s)" "map length ins"] by (simp add: length_concat)
  have packs: "those (map (\<lambda>r. pack_sends (owners ! r) sz T0 (length ins) (ins ! r) (replicate p s0 ! r)) [0..<length ins])
    = Some (map (\<lambda>s. (concat (map (bs s) [0..<p]), c s, displacements (c s), s0)) [0..<p])"
    unfolding p(1) [symmetric]
  proof (rule those_map_Some)
    fix s assume "s \<in> set [0..<p]"
    then have s: "s < p" by simp
    have "fits_int (sz * length (ins ! s))"
      using fits le [OF s] by (rule fits_int_mult_mono)
    from partitioner.pack_sends_eq [OF part [OF s] p(2,3) this]
    show "pack_sends (owners ! s) sz T0 p (ins ! s) (replicate p s0 ! s) = Some (concat (map (bs s) [0..<p]), c s, displacements (c s), s0)"
      using s by (simp add: bs_def c_def)
  qed
  have rc: "alltoall M (map c [0..<p]) = map (\<lambda>r. map (\<lambda>s. sz * length (bs s r)) [0..<p]) [0..<p]"
  proof -
    have "alltoall M (map c [0..<p]) = transpose_counts (map c [0..<p])" by (rule mpi_alltoall [OF M]) (auto simp: c_def)
    then show ?thesis unfolding c_def transpose_counts_blocks .
  qed
  have recv: "concat (map (\<lambda>s. bs s r) [0..<p]) = part_of dest r (concat ins)" for r
  proof -
    have "concat (map (\<lambda>s. bs s r) [0..<p]) = concat (map (part_of dest r) ins)"
      by (rule arg_cong [where f = concat], rule nth_equalityI) (simp_all add: bs_def p(1))
    also have "\<dots> = part_of dest r (concat ins)" by (induction ins) simp_all
    finally show ?thesis .
  qed
  have sum: "(\<Sum>s\<leftarrow>[0..<p]. sz * length (bs s r)) = sz * length (part_of dest r (concat ins))" for r
    by (simp add: sum_list_const_mult flip: recv length_concat) (simp add: length_concat o_def)
  have fit: "fits_int (\<Sum>s\<leftarrow>[0..<p]. sz * length (bs s r))" for r
    unfolding sum part_of_def using fits length_filter_le by (rule fits_int_mult_mono)
  define sc where "sc = map (\<lambda>s. map (\<lambda>r. length (bs s r)) [0..<p]) [0..<p]"
  define rcs where "rcs = map (\<lambda>r. map (\<lambda>s. length (bs s r)) [0..<p]) [0..<p]"
  have elems: "map (map (\<lambda>b. b div sz)) (map c [0..<p]) = sc"
    "map (map (\<lambda>b. b div sz)) (map (\<lambda>s. displacements (c s)) [0..<p]) = map displacements sc"
    "map (map (\<lambda>b. b div sz)) (alltoall M (map c [0..<p])) = rcs"
    "map (map (\<lambda>b. b div sz)) (map displacements (alltoall M (map c [0..<p]))) = map displacements rcs"
    "map (\<lambda>c. sum_list c div sz) (alltoall M (map c [0..<p])) = map sum_list rcs"
    using p(3) unfolding rc by (simp_all add: c_def sc_def rcs_def sum_list_const_mult displacements_div)
  have fits_all: "list_all (\<lambda>c. fits_int (sum_list c)) (alltoall M (map c [0..<p]))"
    using fit unfolding rc by (simp add: list_all_iff)
  have pk: "map fst (map (\<lambda>s. (concat (map (bs s) [0..<p]), c s, displacements (c s), s0)) [0..<p]) = map (\<lambda>s. concat (map (bs s) [0..<p])) [0..<p]"
    "map (fst \<circ> snd) (map (\<lambda>s. (concat (map (bs s) [0..<p]), c s, displacements (c s), s0)) [0..<p]) = map c [0..<p]"
    "map (fst \<circ> snd \<circ> snd) (map (\<lambda>s. (concat (map (bs s) [0..<p]), c s, displacements (c s), s0)) [0..<p]) = map (\<lambda>s. displacements (c s)) [0..<p]"
    "map (snd \<circ> snd \<circ> snd) (map (\<lambda>s. (concat (map (bs s) [0..<p]), c s, displacements (c s), s0)) [0..<p]) = replicate p s0"
    by (simp_all add: map_replicate_const o_def)
  show ?thesis
    unfolding mpi_all_to_all_better_def packs bind.simps Let_def pk elems if_P [OF fits_all]
    using alltoallv_blocks [OF M sc_def rcs_def] by (simp add: recv)
qed

subsection \<open>The pairwise exchange\<close>

text \<open>
  \<open>mpi_all_to_all\<close> of one vector per receiver: in step \<open>i\<close> rank \<open>r\<close> sends to \<open>(r + i) mod p\<close>, receives
  from \<open>(r - i + p) mod p\<close> and waits for both.  A receive that no send of the step answers never
  completes (\<open>None\<close>).
\<close>

definition sent_in_step :: "nat \<Rightarrow> 'a list list list \<Rightarrow> nat \<Rightarrow> nat \<Rightarrow> nat \<times> 'a list" where
  "sent_in_step p ins i r = (let send_to_rank = (r + i) mod p in (send_to_rank, ins ! r ! send_to_rank))"

definition recv_in_step :: "nat \<Rightarrow> 'a list list list \<Rightarrow> nat \<Rightarrow> nat \<Rightarrow> 'a list list \<Rightarrow> 'a list list option" where
  "recv_in_step p ins i r out =
     (let recv_from_rank = (r + p - i) mod p; (d, v) = sent_in_step p ins i recv_from_rank
      in if d = r then Some (out[recv_from_rank := v]) else None)"

fun exchange_steps :: "nat \<Rightarrow> 'a list list list \<Rightarrow> nat list \<Rightarrow> 'a list list list \<Rightarrow> 'a list list list option" where
  "exchange_steps p ins [] outs = Some outs"
| "exchange_steps p ins (i # is) outs = do {
     outs \<leftarrow> those (map (\<lambda>r. recv_in_step p ins i r (outs ! r)) [0..<p]);
     exchange_steps p ins is outs }"

definition mpi_all_to_all_vectors :: "'a list list list \<Rightarrow> 'a list list list option" where
  "mpi_all_to_all_vectors ins =
     (let p = length ins in
      if list_all (\<lambda>v. length v = p) ins then exchange_steps p ins [0..<p] (replicate p (replicate p [])) else None)"

lemma partner_sends_back:
  fixes r p i :: nat
  assumes "r < p" "i < p"
  shows "((r + p - i) mod p + i) mod p = r"
proof -
  have "((r + p - i) mod p + i) mod p = (r + p - i + i) mod p" by (rule mod_add_left_eq)
  also have "\<dots> = r" using assms by simp
  finally show ?thesis .
qed

lemma wrap_sub: "s \<le> r \<Longrightarrow> r < p \<Longrightarrow> (r + p - s) mod p = r - (s :: nat)"
  by (metis add.commute add_diff_assoc less_imp_diff_less mod_add_self1 mod_less)

lemma partner_unique:
  fixes r p s :: nat
  assumes "r < p" "s < p"
  shows "\<exists>!i. i < p \<and> (r + p - i) mod p = s"
proof (rule ex1I [of _ "(r + p - s) mod p"])
  show "(r + p - s) mod p < p \<and> (r + p - (r + p - s) mod p) mod p = s"
  proof (cases "s \<le> r")
    case True
    then show ?thesis using assms wrap_sub [OF True assms(1)] wrap_sub [of "r - s" r p] by simp
  next
    case False
    then have "(r + p - s) mod p = r + p - s" using assms by simp
    then show ?thesis using False assms by simp
  qed
  fix i assume "i < p \<and> (r + p - i) mod p = s"
  then have i: "i < p" "(r + p - i) mod p = s" by simp_all
  show "i = (r + p - s) mod p"
  proof (cases "i \<le> r")
    case True
    then have "s = r - i" using i wrap_sub [OF True assms(1)] by simp
    then show ?thesis using True assms i wrap_sub [of s r p] by simp
  next
    case False
    then have "r + p - i < p" using i by simp
    then have "s = r + p - i" using i by (simp only: mod_less)
    then show ?thesis using False assms i by simp
  qed
qed


lemma recv_in_step_Some:
  assumes "r < p" "i < p"
  shows "recv_in_step p ins i r out = Some (out[(r + p - i) mod p := ins ! ((r + p - i) mod p) ! r])"
  using partner_sends_back [OF assms] by (simp add: recv_in_step_def sent_in_step_def Let_def)

text \<open>After the first \<open>k\<close> steps rank \<open>r\<close> has heard from the \<open>k\<close> ranks before it.\<close>

definition heard :: "nat \<Rightarrow> 'a list list list \<Rightarrow> nat list \<Rightarrow> nat \<Rightarrow> 'a list list" where
  "heard p ins done r = map (\<lambda>s. if \<exists>i \<in> set done. (r + p - i) mod p = s then ins ! s ! r else []) [0..<p]"

lemma heard_step:
  assumes "r < p"
  shows "(heard p ins done r)[(r + p - i) mod p := ins ! ((r + p - i) mod p) ! r] = heard p ins (done @ [i]) r"
  using assms by (intro nth_equalityI) (auto simp: heard_def nth_list_update)

lemma exchange_steps_heard:
  "set is \<subseteq> {..<p} \<Longrightarrow> exchange_steps p ins is (map (heard p ins done) [0..<p]) = Some (map (heard p ins (done @ is)) [0..<p])"
proof (induction "is" arbitrary: "done")
  case Nil then show ?case by simp
next
  case (Cons i "is")
  have "those (map (\<lambda>r. recv_in_step p ins i r (map (heard p ins done) [0..<p] ! r)) [0..<p]) = Some (map (heard p ins (done @ [i])) [0..<p])"
    by (rule those_map_Some) (use Cons.prems in \<open>simp add: recv_in_step_Some heard_step\<close>)
  then show ?case using Cons.IH [of "done @ [i]"] Cons.prems by simp
qed

lemma mpi_all_to_all_vectors_eq:
  assumes "\<And>v. v \<in> set ins \<Longrightarrow> length v = length ins"
  shows "mpi_all_to_all_vectors ins = Some (map (\<lambda>r. map (\<lambda>s. ins ! s ! r) [0..<length ins]) [0..<length ins])"
proof -
  define p where "p = length ins"
  have start: "replicate p (replicate p []) = map (heard p ins []) [0..<p]"
    by (simp add: heard_def [abs_def] map_replicate_const)
  have all: "heard p ins [0..<p] r = map (\<lambda>s. ins ! s ! r) [0..<p]" if "r < p" for r
  proof -
    have "\<exists>i \<in> set [0..<p]. (r + p - i) mod p = s" if "s < p" for s
      using ex1_implies_ex [OF partner_unique [OF \<open>r < p\<close> that]] by auto
    then show ?thesis unfolding heard_def by (intro map_cong refl) auto
  qed
  show ?thesis
    unfolding mpi_all_to_all_vectors_def Let_def p_def [symmetric] start using exchange_steps_heard [of "[0..<p]" p ins "[]"] all assms
    by (simp add: list_all_iff p_def lessThan_atLeast0 cong: map_cong)
qed

subsection \<open>Reductions\<close>

lemma mpi_allreduce:
  assumes "mpi_ok M" "\<And>x y z. f (f x y) z = f x (f y z)" "\<And>x y. f x y = f y x" "\<And>v. v \<in> set ins \<Longrightarrow> length v = n"
  shows "allreduce M f ins = replicate (length ins) (reduce1 f ins)"
proof -
  have "\<forall>v \<in> set ins. length v = length (hd ins)" using assms(4) by (cases ins) auto
  then show ?thesis using assms(1-3) unfolding mpi_ok_def by blast
qed

lemma fold_map2_length:
  "(\<And>v. v \<in> set vs \<Longrightarrow> length v = n) \<Longrightarrow> length acc = n \<Longrightarrow> length (fold (\<lambda>w acc. map2 f acc w) vs acc) = n"
  by (induction vs arbitrary: acc) simp_all

lemma fold_map2_nth:
  "(\<And>v. v \<in> set vs \<Longrightarrow> length v = n) \<Longrightarrow> length acc = n \<Longrightarrow> i < n \<Longrightarrow>
   fold (\<lambda>w acc. map2 f acc w) vs acc ! i = fold (\<lambda>w x. f x (w ! i)) vs (acc ! i)"
  by (induction vs arbitrary: acc) simp_all

lemma length_reduce1: "vs \<noteq> [] \<Longrightarrow> (\<And>v. v \<in> set vs \<Longrightarrow> length v = n) \<Longrightarrow> length (reduce1 f vs) = n"
  by (cases vs) (simp_all add: fold_map2_length)

lemma fold_plus_nth: "fold (\<lambda>w x. x + w ! i) vs (a :: nat) = a + (\<Sum>v\<leftarrow>vs. v ! i)"
  by (induction vs arbitrary: a) simp_all

lemma reduce1_plus_nth:
  assumes "\<And>v. v \<in> set vs \<Longrightarrow> length v = n" "i < n" "vs \<noteq> []"
  shows "reduce1 (+) vs ! i = (\<Sum>v\<leftarrow>vs. (v :: nat list) ! i)"
  using assms by (cases vs) (simp_all add: fold_map2_nth fold_plus_nth)

lemma Min_insert_min: "finite S \<Longrightarrow> Min (insert (min a x) S) = Min (insert a (insert x (S :: 'a :: linorder set)))"
  by (cases "S = {}") (simp_all add: min.assoc)

lemma fold_min_nth: "fold (\<lambda>w x. min x (w ! i)) vs (a :: 'a :: linorder) = Min (insert a ((\<lambda>v. v ! i) ` set vs))"
proof (induction vs arbitrary: a)
  case Nil then show ?case by simp
next
  case (Cons v vs)
  have "fold (\<lambda>w x. min x (w ! i)) (v # vs) a = Min (insert (min a (v ! i)) ((\<lambda>v. v ! i) ` set vs))" by (simp only: fold_simps Cons)
  then show ?case by (simp only: Min_insert_min finite_imageI finite_set image_insert list.simps)
qed

lemma reduce1_min_nth:
  assumes "\<And>v. v \<in> set vs \<Longrightarrow> length v = n" "i < n" "vs \<noteq> []"
  shows "reduce1 min vs ! i = Min ((\<lambda>v. v ! i :: 'a :: linorder) ` set vs)"
proof (cases vs)
  case Nil then show ?thesis using assms(3) by simp
next
  case (Cons v ws)
  have "reduce1 min vs ! i = fold (\<lambda>w x. min x (w ! i)) ws (v ! i)"
    using assms(1,2) unfolding Cons reduce1.simps by (intro fold_map2_nth) simp_all
  then show ?thesis unfolding fold_min_nth Cons by simp
qed

subsection \<open>Properties\<close>

text \<open>
  The pairwise exchange completes on every number of ranks - each receive is answered by the send
  of the same step - and afterwards rank \<open>r\<close> holds from every rank \<open>s\<close> exactly the vector \<open>s\<close> had for it.
\<close>

theorem all_to_all_vectors_transposes:
  assumes "\<forall>v \<in> set ins. length v = length ins"
  shows "mpi_all_to_all_vectors ins = Some (map (\<lambda>r. map (\<lambda>s. ins ! s ! r) [0..<length ins]) [0..<length ins])"
  using assms by (intro mpi_all_to_all_vectors_eq) blast

theorem all_to_all_vectors_transposes_witness:
  "mpi_all_to_all_vectors [[[1 :: nat], [2, 3]], [[], [4]]] = Some [[[1], []], [[2, 3], [4]]]"
proof -
  have "[0..<length [[[1 :: nat], [2, 3]], [[], [4]]]] = [0, 1]" by (simp add: upt_rec)
  then show ?thesis using all_to_all_vectors_transposes [of "[[[1 :: nat], [2, 3]], [[], [4]]]"] by auto
qed

text \<open>
  \<open>mpi_all_gather\<close> of vectors gives every rank the concatenation of all ranks' vectors in rank
  order, whatever their lengths, as long as the total number of elements fits an \<open>int\<close>.
\<close>

theorem all_gather_concatenates:
  assumes "mpi_ok M" "length (concat ins) < 2 ^ 31"
  shows "mpi_all_gather M ins = Some (replicate (length ins) (concat ins))"
  using assms by (intro mpi_all_gather_concat) (simp_all add: fits_int_def)

theorem all_gather_concatenates_witness:
  "mpi_all_gather plain_mpi [[5 :: nat], [], [7, 8]] = Some [[5, 7, 8], [5, 7, 8], [5, 7, 8]]"
  using all_gather_concatenates [OF mpi_ok_plain, of "[[5 :: nat], [], [7, 8]]"] by simp

end
