(* ===== verification/Delegate_Graph.thy ===== *)
theory Delegate_Graph
  imports Vertex_Locator Collectives
begin

section \<open>The delegate-partitioned graph (delegate_partitioned_graph.hpp, impl/*.hpp)\<close>

text \<open>
  The part of the graph one rank stores and the operations on it: conversions between labels and
  locators, the edges and degrees of a vertex, the vertex and edge iterators, vertex and edge data.
  Sizes, labels and offsets of type \<open>uint64_t\<close> are natural numbers, with the wrap-around written out
  where a product can exceed them; the counters of 32 bits and the bit fields are words.  A failed
  assertion, an \<open>exit\<close> and a read outside an array or of memory never written are \<open>None\<close>; the two
  target arrays are raw storage, so their entries are optional.
\<close>

subsection \<open>Data\<close>

record vert_info =
  vi_is_delegate :: "1 word"
  vi_delegate_id :: "24 word"
  vi_low_csr_idx :: "39 word"

definition make_vert_info :: "bool \<Rightarrow> nat \<Rightarrow> nat \<Rightarrow> vert_info option" where
  "make_vert_info in_is_delegate in_delegate_id in_low_csr_idx =
     (let v = \<lparr>vi_is_delegate = (if in_is_delegate then 1 else 0), vi_delegate_id = of_nat in_delegate_id,
               vi_low_csr_idx = of_nat in_low_csr_idx\<rparr>
      in if unat (vi_delegate_id v) = in_delegate_id \<and> unat (vi_low_csr_idx v) = in_low_csr_idx then Some v else None)"

definition low_csr_idx :: "vert_info \<Rightarrow> nat" where
  "low_csr_idx v = unat (vi_low_csr_idx v)"

datatype construction_state = New | MetaDataGenerated | EdgeStorageAllocated | LowEdgesPartitioned | HighEdgesPartitioned | GraphReady

record delegate_graph =
  edge_chunk_size :: nat
  processes_per_node :: nat
  node_partitions :: nat
  m_mpi_size :: nat
  m_mpi_rank :: nat
  m_graph_state :: construction_state
  m_max_vertex :: nat
  m_global_max_vertex :: nat
  m_edges_high_count :: nat
  m_edges_low_count :: nat
  m_local_outgoing_count :: "u32 list"
  m_local_incoming_count :: "u32 list"
  m_owned_info :: "vert_info list"
  m_owned_info_tracker :: "u32 list"
  m_owned_targets :: "vertex_locator option list"
  m_owned_targets_size :: nat
  m_delegate_degree_threshold :: nat
  m_delegate_info :: "nat list"
  m_delegate_degree :: "nat list"
  m_delegate_label :: "nat list"
  m_delegate_targets :: "vertex_locator option list"
  m_delegate_targets_size :: nat
  m_map_delegate_locator :: "(nat \<times> vertex_locator) list"
  m_controller_locators :: "vertex_locator list"
  m_has_edge_data :: bool

text \<open>An access that has to be inside the array.\<close>

definition at :: "'a list \<Rightarrow> nat \<Rightarrow> 'a option" where
  "at xs i = (if i < length xs then Some (xs ! i) else None)"

subsection \<open>Labels and locators\<close>

definition locator_to_label :: "delegate_graph \<Rightarrow> vertex_locator \<Rightarrow> nat option" where
  "locator_to_label g locator =
     (if is_delegate locator then at (m_delegate_label g) (local_id locator)
      else Some ((local_id locator * m_mpi_size g + owner locator) mod 2 ^ 64))"

definition label_to_locator :: "delegate_graph \<Rightarrow> nat \<Rightarrow> vertex_locator option" where
  "label_to_locator g label =
     (case map_of (m_map_delegate_locator g) label of
        None \<Rightarrow> (let owner = label mod m_mpi_size g; local_id = label div m_mpi_size g
                 in make_locator False local_id owner)
      | Some l \<Rightarrow> Some l)"

definition is_label_delegate :: "delegate_graph \<Rightarrow> nat \<Rightarrow> bool" where
  "is_label_delegate g label \<longleftrightarrow> map_of (m_map_delegate_locator g) label \<noteq> None"

definition num_local_vertices :: "delegate_graph \<Rightarrow> nat" where
  "num_local_vertices g = length (m_owned_info g)"

definition max_global_vertex_id :: "delegate_graph \<Rightarrow> nat" where
  "max_global_vertex_id g = m_global_max_vertex g"

definition max_local_vertex_id :: "delegate_graph \<Rightarrow> nat" where
  "max_local_vertex_id g = m_max_vertex g"

definition num_delegates :: "delegate_graph \<Rightarrow> nat" where
  "num_delegates g = length (m_delegate_degree g)"

definition master :: "delegate_graph \<Rightarrow> vertex_locator \<Rightarrow> nat" where
  "master g locator = local_id locator mod m_mpi_size g"

subsection \<open>Edges of a vertex\<close>

record edge_iterator =
  ei_source :: vertex_locator
  ei_edge_offset :: nat

definition edges_begin :: "delegate_graph \<Rightarrow> vertex_locator \<Rightarrow> edge_iterator option" where
  "edges_begin g locator =
     (if is_delegate locator then
        (if local_id locator < length (m_delegate_info g) - 1
         then Some \<lparr>ei_source = locator, ei_edge_offset = m_delegate_info g ! local_id locator\<rparr> else None)
      else if owner locator = m_mpi_rank g \<and> local_id locator < length (m_owned_info g)
      then Some \<lparr>ei_source = locator, ei_edge_offset = low_csr_idx (m_owned_info g ! local_id locator)\<rparr>
      else None)"

definition edges_end :: "delegate_graph \<Rightarrow> vertex_locator \<Rightarrow> edge_iterator option" where
  "edges_end g locator =
     (if is_delegate locator then
        (if local_id locator + 1 < length (m_delegate_info g)
         then Some \<lparr>ei_source = locator, ei_edge_offset = m_delegate_info g ! (local_id locator + 1)\<rparr> else None)
      else if owner locator = m_mpi_rank g \<and> local_id locator + 1 < length (m_owned_info g)
      then Some \<lparr>ei_source = locator, ei_edge_offset = low_csr_idx (m_owned_info g ! (local_id locator + 1))\<rparr>
      else None)"

text \<open>The differences of offsets are taken in \<open>uint64_t\<close>.\<close>

definition sub64 :: "nat \<Rightarrow> nat \<Rightarrow> nat" where
  "sub64 a b = nat ((int a - int b) mod 2 ^ 64)"

definition degree :: "delegate_graph \<Rightarrow> vertex_locator \<Rightarrow> nat option" where
  "degree g locator =
     (let i = local_id locator in
      if is_delegate locator then at (m_delegate_degree g) i
      else if i + 1 < length (m_owned_info g)
      then Some (sub64 (low_csr_idx (m_owned_info g ! (i + 1))) (low_csr_idx (m_owned_info g ! i))) else None)"

definition local_degree :: "delegate_graph \<Rightarrow> vertex_locator \<Rightarrow> nat option" where
  "local_degree g locator =
     (let i = local_id locator in
      if is_delegate locator then
        (if i + 1 < length (m_delegate_info g) then Some (sub64 (m_delegate_info g ! (i + 1)) (m_delegate_info g ! i)) else None)
      else if i + 1 < length (m_owned_info g)
      then Some (sub64 (low_csr_idx (m_owned_info g ! (i + 1))) (low_csr_idx (m_owned_info g ! i))) else None)"

definition edge_next :: "edge_iterator \<Rightarrow> edge_iterator" where
  "edge_next it = it\<lparr>ei_edge_offset := ei_edge_offset it + 1\<rparr>"

definition edge_next_post :: "edge_iterator \<Rightarrow> edge_iterator \<times> edge_iterator" where
  "edge_next_post it = (it, it\<lparr>ei_edge_offset := ei_edge_offset it + 1\<rparr>)"

definition edge_advance :: "edge_iterator \<Rightarrow> nat \<Rightarrow> edge_iterator" where
  "edge_advance it offset = it\<lparr>ei_edge_offset := ei_edge_offset it + offset\<rparr>"

definition edge_plus :: "edge_iterator \<Rightarrow> nat \<Rightarrow> edge_iterator" where
  "edge_plus it offset = (let to_return = it in edge_advance to_return offset)"

definition edge_is_equal :: "edge_iterator \<Rightarrow> edge_iterator \<Rightarrow> bool option" where
  "edge_is_equal x y = (if is_equal (ei_source x) (ei_source y) then Some (ei_edge_offset x = ei_edge_offset y) else None)"

definition target :: "delegate_graph \<Rightarrow> edge_iterator \<Rightarrow> vertex_locator option" where
  "target g it =
     (let check = (\<lambda>t. case t of None \<Rightarrow> None | Some l \<Rightarrow> if owner l < m_mpi_size g then Some l else None)
      in if is_delegate (ei_source it) then
           (if ei_edge_offset it < m_delegate_targets_size g \<and> ei_edge_offset it < length (m_delegate_targets g)
            then check (m_delegate_targets g ! ei_edge_offset it) else None)
         else if ei_edge_offset it < m_owned_targets_size g \<and> ei_edge_offset it < length (m_owned_targets g)
         then check (m_owned_targets g ! ei_edge_offset it) else None)"

text \<open>The loop \<open>for (eitr = edges_begin(v); eitr != edges_end(v); ++eitr)\<close>, collecting the targets.\<close>

function targets_from :: "delegate_graph \<Rightarrow> edge_iterator \<Rightarrow> edge_iterator \<Rightarrow> vertex_locator list option" where
  "targets_from g it e =
     (case edge_is_equal it e of None \<Rightarrow> None | Some True \<Rightarrow> Some []
      | Some False \<Rightarrow> (case target g it of None \<Rightarrow> None
          | Some t \<Rightarrow> map_option ((#) t) (targets_from g (edge_next it) e)))"
  by pat_completeness auto
termination
  by (relation "measure (\<lambda>(g, it, e). m_delegate_targets_size g + m_owned_targets_size g - ei_edge_offset it)")
    (auto simp: target_def edge_next_def Let_def split: if_splits)

definition edge_targets :: "delegate_graph \<Rightarrow> vertex_locator \<Rightarrow> vertex_locator list option" where
  "edge_targets g locator = do { b \<leftarrow> edges_begin g locator; e \<leftarrow> edges_end g locator; targets_from g b e }"

declare targets_from.simps [simp del]

subsection \<open>The vertices of a rank\<close>

record vertex_iterator =
  m_owned_vert_index :: nat
  m_locator :: vertex_locator
  vi_over_delegates :: bool

text \<open>The loop of \<open>update_locator\<close> that steps over the owned vertices that became delegates.\<close>

function skip_delegates :: "vert_info list \<Rightarrow> nat \<Rightarrow> nat" where
  "skip_delegates infos i =
     (if i < length infos \<and> vi_is_delegate (infos ! i) = 1 then skip_delegates infos (Suc i) else i)"
  by pat_completeness auto
termination by (relation "measure (\<lambda>(infos, i). length infos - i)") auto

declare skip_delegates.simps [simp del]

definition update_locator :: "delegate_graph \<Rightarrow> vertex_iterator \<Rightarrow> vertex_iterator option" where
  "update_locator g it =
     (if vi_over_delegates it then
        (if m_owned_vert_index it < length (m_delegate_info g) then do {
           l \<leftarrow> make_locator True (m_owned_vert_index it) (m_owned_vert_index it mod m_mpi_size g);
           Some (it\<lparr>m_locator := l\<rparr>) }
         else Some it)
      else
        (let i = skip_delegates (m_owned_info g) (m_owned_vert_index it); it = it\<lparr>m_owned_vert_index := i\<rparr>
         in if i < length (m_owned_info g) then do {
              l \<leftarrow> make_locator False i (m_mpi_rank g);
              Some (it\<lparr>m_locator := l\<rparr>) }
            else Some it))"

definition vertex_iterator_new :: "delegate_graph \<Rightarrow> nat \<Rightarrow> vertex_iterator option" where
  "vertex_iterator_new g index =
     update_locator g \<lparr>m_owned_vert_index = index, m_locator = default_locator, vi_over_delegates = False\<rparr>"

definition delegate_iterator_new :: "delegate_graph \<Rightarrow> nat \<Rightarrow> bool \<Rightarrow> vertex_iterator option" where
  "delegate_iterator_new g index is_del =
     update_locator g \<lparr>m_owned_vert_index = index, m_locator = default_locator, vi_over_delegates = is_del\<rparr>"

definition vertex_next :: "delegate_graph \<Rightarrow> vertex_iterator \<Rightarrow> vertex_iterator option" where
  "vertex_next g it = update_locator g (it\<lparr>m_owned_vert_index := m_owned_vert_index it + 1\<rparr>)"

definition vertex_next_post :: "delegate_graph \<Rightarrow> vertex_iterator \<Rightarrow> (vertex_iterator \<times> vertex_iterator) option" where
  "vertex_next_post g it =
     (let to_return = it
      in map_option (\<lambda>it'. (to_return, it')) (update_locator g (it\<lparr>m_owned_vert_index := m_owned_vert_index it + 1\<rparr>)))"

definition vertex_prev :: "delegate_graph \<Rightarrow> vertex_iterator \<Rightarrow> vertex_iterator option" where
  "vertex_prev g it =
     (if 0 < m_owned_vert_index it then update_locator g (it\<lparr>m_owned_vert_index := m_owned_vert_index it - 1\<rparr>) else None)"

definition vertex_prev_post :: "delegate_graph \<Rightarrow> vertex_iterator \<Rightarrow> (vertex_iterator \<times> vertex_iterator) option" where
  "vertex_prev_post g it =
     (if 0 < m_owned_vert_index it then
        (let to_return = it
         in map_option (\<lambda>it'. (to_return, it')) (update_locator g (it\<lparr>m_owned_vert_index := m_owned_vert_index it - 1\<rparr>)))
      else None)"

definition vertex_is_equal :: "vertex_iterator \<Rightarrow> vertex_iterator \<Rightarrow> bool" where
  "vertex_is_equal x y \<longleftrightarrow> m_owned_vert_index x = m_owned_vert_index y"

definition vertices_begin :: "delegate_graph \<Rightarrow> vertex_iterator option" where
  "vertices_begin g = vertex_iterator_new g 0"

text \<open>
  The loop of \<open>vertices_end\<close>: step back while the label is past the last vertex.  A loop that does not
  end and a failed assertion are both \<open>None\<close>.
\<close>

partial_function (option) back_to_last_vertex :: "delegate_graph \<Rightarrow> vertex_iterator \<Rightarrow> vertex_iterator option" where
  [code]: "back_to_last_vertex g it =
     (case locator_to_label g (m_locator it) of None \<Rightarrow> None
      | Some l \<Rightarrow> if m_global_max_vertex g < l
          then (case vertex_prev g it of None \<Rightarrow> None | Some it \<Rightarrow> back_to_last_vertex g it)
          else Some it)"

definition vertices_end :: "delegate_graph \<Rightarrow> vertex_iterator option" where
  "vertices_end g = do {
     let last_index = (if m_owned_info g = [] then 0 else length (m_owned_info g) - 1);
     itr_to_return \<leftarrow> vertex_iterator_new g last_index;
     itr_to_return \<leftarrow> back_to_last_vertex g itr_to_return;
     vertex_next g itr_to_return }"

definition delegate_vertices_begin :: "delegate_graph \<Rightarrow> vertex_iterator option" where
  "delegate_vertices_begin g = delegate_iterator_new g 0 True"

definition delegate_vertices_end :: "delegate_graph \<Rightarrow> vertex_iterator option" where
  "delegate_vertices_end g = delegate_iterator_new g (length (m_delegate_info g) - 1) True"

text \<open>
  The loop \<open>for (vitr = begin; vitr != end; ++vitr)\<close>, collecting the locators; running past every
  vertex without meeting the end is \<open>None\<close>.
\<close>

fun locators_from :: "nat \<Rightarrow> delegate_graph \<Rightarrow> vertex_iterator \<Rightarrow> vertex_iterator \<Rightarrow> vertex_locator list option" where
  "locators_from fuel g it e =
     (if vertex_is_equal it e then Some []
      else case fuel of 0 \<Rightarrow> None
        | Suc fuel \<Rightarrow> (case vertex_next g it of None \<Rightarrow> None
            | Some it' \<Rightarrow> map_option ((#) (m_locator it)) (locators_from fuel g it' e)))"

declare locators_from.simps [simp del]

definition vertices :: "delegate_graph \<Rightarrow> vertex_locator list option" where
  "vertices g = do { b \<leftarrow> vertices_begin g; e \<leftarrow> vertices_end g; locators_from (length (m_owned_info g)) g b e }"

definition delegate_vertices :: "delegate_graph \<Rightarrow> vertex_locator list option" where
  "delegate_vertices g = do {
     b \<leftarrow> delegate_vertices_begin g; e \<leftarrow> delegate_vertices_end g; locators_from (length (m_delegate_info g)) g b e }"

subsection \<open>Controllers and comparison\<close>

definition controllers :: "delegate_graph \<Rightarrow> vertex_locator list" where
  "controllers g = m_controller_locators g"

text \<open>\<open>operator==\<close> of two graphs, which leaves the two target arrays out.\<close>

definition graph_equal :: "delegate_graph \<Rightarrow> delegate_graph \<Rightarrow> bool" where
  "graph_equal g h \<longleftrightarrow>
     (if m_mpi_size g \<noteq> m_mpi_size h then False
      else if m_mpi_rank g \<noteq> m_mpi_rank h then False
      else if m_owned_info g \<noteq> m_owned_info h then False
      else if m_delegate_info g \<noteq> m_delegate_info h then False
      else if m_delegate_degree g \<noteq> m_delegate_degree h then False
      else if m_delegate_label g \<noteq> m_delegate_label h then False
      else if \<not> list_all2 (\<lambda>(k, l) (k', l'). k = k' \<and> is_equal l l') (m_map_delegate_locator g) (m_map_delegate_locator h) then False
      else if m_delegate_degree_threshold g \<noteq> m_delegate_degree_threshold h then False
      else if \<not> list_all2 is_equal (m_controller_locators g) (m_controller_locators h) then False
      else if m_local_outgoing_count g \<noteq> m_local_outgoing_count h then False
      else if m_local_incoming_count g \<noteq> m_local_incoming_count h then False
      else True)"

subsection \<open>Vertex and edge data (impl/vertex_data.hpp, impl/edge_data.hpp)\<close>

record 'a vertex_data =
  m_owned_vert_data :: "'a list"
  m_delegate_data :: "'a list"

definition vertex_data_new :: "delegate_graph \<Rightarrow> 'a \<Rightarrow> 'a vertex_data" where
  "vertex_data_new dpg zero = \<lparr>m_owned_vert_data = replicate (length (m_owned_info dpg)) zero,
     m_delegate_data = replicate (length (m_delegate_info dpg)) zero\<rparr>"

definition vd_get :: "'a vertex_data \<Rightarrow> vertex_locator \<Rightarrow> 'a option" where
  "vd_get d locator =
     (if is_delegate locator then at (m_delegate_data d) (local_id locator) else at (m_owned_vert_data d) (local_id locator))"

text \<open>An assignment through the reference the subscript returns.\<close>

definition vd_set :: "'a vertex_data \<Rightarrow> vertex_locator \<Rightarrow> 'a \<Rightarrow> 'a vertex_data option" where
  "vd_set d locator x =
     (if is_delegate locator then
        (if local_id locator < length (m_delegate_data d) then Some (d\<lparr>m_delegate_data := (m_delegate_data d)[local_id locator := x]\<rparr>) else None)
      else if local_id locator < length (m_owned_vert_data d)
      then Some (d\<lparr>m_owned_vert_data := (m_owned_vert_data d)[local_id locator := x]\<rparr>) else None)"

definition vd_reset :: "'a vertex_data \<Rightarrow> 'a \<Rightarrow> 'a vertex_data" where
  "vd_reset d r = d\<lparr>m_owned_vert_data := map (\<lambda>_. r) (m_owned_vert_data d), m_delegate_data := map (\<lambda>_. r) (m_delegate_data d)\<rparr>"

definition vd_clear :: "('a \<Rightarrow> 'a) \<Rightarrow> 'a vertex_data \<Rightarrow> 'a vertex_data" where
  "vd_clear clr d = d\<lparr>m_owned_vert_data := map clr (m_owned_vert_data d), m_delegate_data := map clr (m_delegate_data d)\<rparr>"

text \<open>The reductions combine the delegates' data of all ranks; every rank gets the result.\<close>

definition vd_reduce :: "'a mpi_ops \<Rightarrow> ('a \<Rightarrow> 'a \<Rightarrow> 'a) \<Rightarrow> 'a vertex_data list \<Rightarrow> 'a vertex_data list" where
  "vd_reduce M f ds = map2 (\<lambda>d out. d\<lparr>m_delegate_data := out\<rparr>) ds (allreduce M f (map m_delegate_data ds))"

text \<open>\<open>std_plus\<close> is \<open>std::plus<T>\<close> of the type of the data, \<open>zero\<close> its \<open>T()\<close>: words that wrap, or doubles that round.\<close>

definition all_reduce :: "'a mpi_ops \<Rightarrow> ('a \<Rightarrow> 'a \<Rightarrow> 'a) \<Rightarrow> 'a vertex_data list \<Rightarrow> 'a vertex_data list" where
  "all_reduce M std_plus ds = vd_reduce M std_plus ds"

definition all_max_reduce :: "('a :: linorder) mpi_ops \<Rightarrow> 'a vertex_data list \<Rightarrow> 'a vertex_data list" where
  "all_max_reduce M ds = vd_reduce M max ds"

definition all_min_reduce :: "('a :: linorder) mpi_ops \<Rightarrow> 'a vertex_data list \<Rightarrow> 'a vertex_data list" where
  "all_min_reduce M ds = vd_reduce M min ds"

definition local_accumulate :: "('a \<Rightarrow> 'a \<Rightarrow> 'a) \<Rightarrow> 'a \<Rightarrow> 'a vertex_data \<Rightarrow> 'a" where
  "local_accumulate std_plus zero d = (let to_return = foldl std_plus zero (m_owned_vert_data d) in foldl std_plus to_return (m_delegate_data d))"

definition global_accumulate :: "'a mpi_ops \<Rightarrow> ('a \<Rightarrow> 'a \<Rightarrow> 'a) \<Rightarrow> 'a \<Rightarrow> 'a vertex_data list \<Rightarrow> 'a list" where
  "global_accumulate M std_plus zero ds = map hd (allreduce M std_plus (map (\<lambda>d. [local_accumulate std_plus zero d]) ds))"

record 'd edge_data =
  m_owned_edge_data :: "'d list"
  m_delegate_edge_data :: "'d list"

definition ed_get :: "'d edge_data \<Rightarrow> edge_iterator \<Rightarrow> 'd option" where
  "ed_get d itr =
     (if is_delegate (ei_source itr) then at (m_delegate_edge_data d) (ei_edge_offset itr)
      else at (m_owned_edge_data d) (ei_edge_offset itr))"

definition ed_reset :: "'d edge_data \<Rightarrow> 'd \<Rightarrow> 'd edge_data" where
  "ed_reset d r = \<lparr>m_owned_edge_data = map (\<lambda>_. r) (m_owned_edge_data d), m_delegate_edge_data = map (\<lambda>_. r) (m_delegate_edge_data d)\<rparr>"

text \<open>\<open>resize\<close> of a vector: cut off, or filled up with value-initialised elements.\<close>

definition resize_list :: "'a \<Rightarrow> nat \<Rightarrow> 'a list \<Rightarrow> 'a list" where
  "resize_list zero n xs = take n xs @ replicate (n - length xs) zero"

definition ed_resize :: "'d \<Rightarrow> delegate_graph \<Rightarrow> 'd edge_data \<Rightarrow> 'd edge_data" where
  "ed_resize zero dpg d = \<lparr>m_owned_edge_data = resize_list zero (m_owned_targets_size dpg) (m_owned_edge_data d),
     m_delegate_edge_data = resize_list zero (m_delegate_targets_size dpg) (m_delegate_edge_data d)\<rparr>"

definition edge_data_new :: "'d \<Rightarrow> delegate_graph \<Rightarrow> 'd edge_data" where
  "edge_data_new zero dpg = ed_resize zero dpg \<lparr>m_owned_edge_data = [], m_delegate_edge_data = []\<rparr>"

subsection \<open>Labels and locators: lemmas\<close>

text \<open>
  What the construction establishes of the delegate tables: each entry is a delegate locator whose id
  indexes the label it belongs to.
\<close>

definition labels_wf :: "delegate_graph \<Rightarrow> bool" where
  "labels_wf g \<longleftrightarrow> 0 < m_mpi_size g \<and> m_mpi_size g < 2 ^ 21 \<and>
     (\<forall>(k, l) \<in> set (m_map_delegate_locator g). is_delegate l \<and> local_id l < length (m_delegate_label g)
        \<and> m_delegate_label g ! local_id l = k \<and> owner l < m_mpi_size g)"

lemma label_to_locator_Some:
  assumes "labels_wf g" "label < 2 ^ 40 * m_mpi_size g"
  shows "\<exists>l. label_to_locator g label = Some l \<and> locator_to_label g l = Some label
    \<and> is_delegate l = is_label_delegate g label \<and> owner l < m_mpi_size g
    \<and> (\<not> is_delegate l \<longrightarrow> owner l = get_owner_id (m_mpi_size g) label \<and> local_id l = get_local_id (m_mpi_size g) label)"
proof (cases "map_of (m_map_delegate_locator g) label")
  case None
  let ?p = "m_mpi_size g"
  have p: "0 < ?p" "?p < 2 ^ 21" using assms(1) by (simp_all add: labels_wf_def)
  have "label div ?p < 2 ^ 40" using assms(2) p(1) by (simp add: less_mult_imp_div_less)
  moreover have "label mod ?p < 2 ^ 21" using p mod_less_divisor [OF p(1)] less_trans by blast
  ultimately obtain l where l: "make_locator False (label div ?p) (label mod ?p) = Some l"
    using make_locator_None_iff [of False "label div ?p" "label mod ?p"] by (cases "make_locator False (label div ?p) (label mod ?p)") auto
  have "label < 2 ^ 64"
  proof -
    have "(2 :: nat) ^ 40 * ?p < 2 ^ 40 * 2 ^ 21" using p(2) by (intro mult_strict_left_mono) simp_all
    then show ?thesis using assms(2) by simp
  qed
  moreover have f: "\<not> is_delegate l" "local_id l = label div ?p" "owner l = label mod ?p"
    using l by (simp_all add: make_locator_Some_iff)
  ultimately have "locator_to_label g l = Some label" by (simp add: locator_to_label_def)
  moreover have "label_to_locator g label = Some l" using l None by (simp add: label_to_locator_def Let_def)
  ultimately show ?thesis
    using f None p by (simp add: is_label_delegate_def get_owner_id_def get_local_id_def)
next
  case (Some l)
  then have "(label, l) \<in> set (m_map_delegate_locator g)" by (rule map_of_SomeD)
  then have "is_delegate l" "local_id l < length (m_delegate_label g)" "m_delegate_label g ! local_id l = label" "owner l < m_mpi_size g"
    using assms(1) by (auto simp: labels_wf_def)
  then show ?thesis
    using Some by (simp add: label_to_locator_def locator_to_label_def at_def is_label_delegate_def)
qed

subsection \<open>Vertex iteration: lemmas\<close>

definition owned_delegate :: "delegate_graph \<Rightarrow> nat \<Rightarrow> bool" where
  "owned_delegate g i \<longleftrightarrow> vi_is_delegate (m_owned_info g ! i) = 1"

definition owned_label :: "delegate_graph \<Rightarrow> nat \<Rightarrow> nat" where
  "owned_label g i = i * m_mpi_size g + m_mpi_rank g"

text \<open>The iterator at a vertex that is not a delegate.\<close>

definition iterator_at :: "delegate_graph \<Rightarrow> nat \<Rightarrow> vertex_iterator" where
  "iterator_at g i = \<lparr>m_owned_vert_index = i, m_locator = the (make_locator False i (m_mpi_rank g)), vi_over_delegates = False\<rparr>"

definition rank_wf :: "delegate_graph \<Rightarrow> bool" where
  "rank_wf g \<longleftrightarrow> m_mpi_rank g < m_mpi_size g \<and> m_mpi_size g < 2 ^ 21 \<and> length (m_owned_info g) < 2 ^ 40"

lemma skip_delegates_Suc:
  "i < length (m_owned_info g) \<Longrightarrow> owned_delegate g i \<Longrightarrow>
   skip_delegates (m_owned_info g) i = skip_delegates (m_owned_info g) (Suc i)"
  by (subst skip_delegates.simps) (simp add: owned_delegate_def)

lemma skip_delegates_stop:
  "i \<ge> length (m_owned_info g) \<or> \<not> owned_delegate g i \<Longrightarrow> skip_delegates (m_owned_info g) i = i"
  by (subst skip_delegates.simps) (auto simp: owned_delegate_def)

lemma iterator_locator:
  assumes "rank_wf g" "i < length (m_owned_info g)"
  shows "make_locator False i (m_mpi_rank g) = Some (m_locator (iterator_at g i))"
    "locator_to_label g (m_locator (iterator_at g i)) = Some (owned_label g i)"
    "\<not> is_delegate (m_locator (iterator_at g i))" "local_id (m_locator (iterator_at g i)) = i" "owner (m_locator (iterator_at g i)) = m_mpi_rank g"
proof -
  have b: "i < 2 ^ 40" "m_mpi_rank g < 2 ^ 21" using assms by (simp_all add: rank_wf_def)
  then obtain l where l: "make_locator False i (m_mpi_rank g) = Some l"
    using make_locator_None_iff [of False i "m_mpi_rank g"] by (cases "make_locator False i (m_mpi_rank g)") auto
  have "owned_label g i < 2 ^ 64"
  proof -
    have "i * m_mpi_size g \<le> 2 ^ 40 * 2 ^ 21" using assms by (intro mult_le_mono) (simp_all add: rank_wf_def)
    then show ?thesis using b by (simp add: owned_label_def)
  qed
  moreover have "m_locator (iterator_at g i) = l" using l by (simp add: iterator_at_def)
  moreover have "\<not> is_delegate l" "local_id l = i" "owner l = m_mpi_rank g" using l by (simp_all add: make_locator_Some_iff)
  ultimately show "make_locator False i (m_mpi_rank g) = Some (m_locator (iterator_at g i))"
    "locator_to_label g (m_locator (iterator_at g i)) = Some (owned_label g i)"
    "\<not> is_delegate (m_locator (iterator_at g i))" "local_id (m_locator (iterator_at g i)) = i" "owner (m_locator (iterator_at g i)) = m_mpi_rank g"
    using l by (simp_all add: locator_to_label_def owned_label_def)
qed

lemma update_locator_at:
  assumes "rank_wf g" "\<not> vi_over_delegates it" "skip_delegates (m_owned_info g) (m_owned_vert_index it) < length (m_owned_info g)"
  shows "update_locator g it = Some (iterator_at g (skip_delegates (m_owned_info g) (m_owned_vert_index it)))"
proof -
  define i where "i = skip_delegates (m_owned_info g) (m_owned_vert_index it)"
  obtain l where l: "make_locator False i (m_mpi_rank g) = Some l"
    using iterator_locator(1) [OF assms(1,3)] by (auto simp: i_def)
  have "it\<lparr>m_owned_vert_index := i, m_locator := l\<rparr> = iterator_at g i"
    using assms(2) l by (cases it) (simp add: iterator_at_def)
  then show ?thesis using assms(2,3) l by (simp add: update_locator_def Let_def flip: i_def)
qed

lemma iterator_at_sel [simp]: "m_owned_vert_index (iterator_at g i) = i" "\<not> vi_over_delegates (iterator_at g i)"
  by (simp_all add: iterator_at_def)

lemma vertex_iterator_new_at:
  "rank_wf g \<Longrightarrow> i < length (m_owned_info g) \<Longrightarrow> \<not> owned_delegate g i \<Longrightarrow> vertex_iterator_new g i = Some (iterator_at g i)"
  unfolding vertex_iterator_new_def by (subst update_locator_at) (simp_all add: skip_delegates_stop)

lemma vertex_prev_at:
  assumes "rank_wf g" "i < length (m_owned_info g)" "0 < i" "\<not> owned_delegate g i"
  shows "vertex_prev g (iterator_at g i) = Some (iterator_at g (if owned_delegate g (i - 1) then i else i - 1))"
proof -
  have "skip_delegates (m_owned_info g) (i - 1) = (if owned_delegate g (i - 1) then i else i - 1)"
    using assms skip_delegates_Suc [of "i - 1" g] by (simp add: skip_delegates_stop)
  then show ?thesis using assms unfolding vertex_prev_def by (simp add: update_locator_at)
qed

lemma skip_delegates_upto:
  assumes "k \<le> e" "e < length (m_owned_info g)" "\<not> owned_delegate g e"
  shows "k \<le> skip_delegates (m_owned_info g) k \<and> skip_delegates (m_owned_info g) k \<le> e
    \<and> \<not> owned_delegate g (skip_delegates (m_owned_info g) k)
    \<and> filter (\<lambda>i. \<not> owned_delegate g i) [k..<e] = filter (\<lambda>i. \<not> owned_delegate g i) [skip_delegates (m_owned_info g) k..<e]"
  using assms(1)
proof (induction "e - k" arbitrary: k)
  case 0 then show ?case using assms skip_delegates_stop [of g k] by simp
next
  case (Suc n)
  show ?case
  proof (cases "owned_delegate g k")
    case True
    have "skip_delegates (m_owned_info g) k = skip_delegates (m_owned_info g) (Suc k)"
      using True Suc.hyps(2) assms(2) by (intro skip_delegates_Suc) simp_all
    moreover have "[k..<e] = k # [Suc k..<e]" using Suc.hyps(2) by (simp add: upt_conv_Cons)
    moreover have "n = e - Suc k" "Suc k \<le> e" using Suc.hyps(2) by simp_all
    note Suc.hyps(1) [OF this]
    ultimately show ?thesis using True by simp
  next
    case False
    then show ?thesis using Suc.hyps(2) skip_delegates_stop [of g k] by simp
  qed
qed

lemma vertex_next_at:
  assumes "rank_wf g" "i < e" "e < length (m_owned_info g)" "\<not> owned_delegate g e"
  shows "vertex_next g (iterator_at g i) = Some (iterator_at g (skip_delegates (m_owned_info g) (Suc i)))"
  unfolding vertex_next_def using skip_delegates_upto [OF _ assms(3,4), of "Suc i"] assms by (subst update_locator_at) simp_all

lemma locators_from_at:
  assumes "rank_wf g" "e < length (m_owned_info g)" "\<not> owned_delegate g e" "i \<le> e" "\<not> owned_delegate g i" "e - i \<le> fuel"
  shows "locators_from fuel g (iterator_at g i) (iterator_at g e)
    = Some (map (\<lambda>j. m_locator (iterator_at g j)) (filter (\<lambda>j. \<not> owned_delegate g j) [i..<e]))"
  using assms(4-6)
proof (induction fuel arbitrary: i)
  case 0 then show ?case by (simp add: vertex_is_equal_def locators_from.simps)
next
  case (Suc fuel)
  show ?case
  proof (cases "i = e")
    case True then show ?thesis by (simp add: vertex_is_equal_def locators_from.simps)
  next
    case False
    define i' where "i' = skip_delegates (m_owned_info g) (Suc i)"
    have i: "i < e" using False Suc.prems by simp
    have i': "Suc i \<le> i'" "i' \<le> e" "\<not> owned_delegate g i'"
      "filter (\<lambda>j. \<not> owned_delegate g j) [Suc i..<e] = filter (\<lambda>j. \<not> owned_delegate g j) [i'..<e]"
      using skip_delegates_upto [OF _ assms(2,3), of "Suc i"] i by (simp_all add: i'_def)
    have "locators_from fuel g (iterator_at g i') (iterator_at g e)
      = Some (map (\<lambda>j. m_locator (iterator_at g j)) (filter (\<lambda>j. \<not> owned_delegate g j) [i'..<e]))"
      using i' Suc.prems by (intro Suc.IH) simp_all
    moreover have "vertex_next g (iterator_at g i) = Some (iterator_at g i')"
      using vertex_next_at [OF assms(1) i assms(2,3)] by (simp add: i'_def)
    moreover have "[i..<e] = i # [Suc i..<e]" using i by (simp add: upt_conv_Cons)
    ultimately show ?thesis
      using False Suc.prems(2) i'(4) by (subst locators_from.simps) (simp add: vertex_is_equal_def)
  qed
qed

lemma back_to_last_vertex_at:
  assumes "rank_wf g" "i0 \<le> i" "i < length (m_owned_info g)" "owned_label g i0 \<le> m_global_max_vertex g" "\<not> owned_delegate g i0"
    "\<And>j. i0 < j \<Longrightarrow> j \<le> i \<Longrightarrow> \<not> owned_delegate g j \<and> m_global_max_vertex g < owned_label g j"
  shows "back_to_last_vertex g (iterator_at g i) = Some (iterator_at g i0)"
  using assms(2,3,6)
proof (induction i)
  case 0 then show ?case using assms(1,4) by (subst back_to_last_vertex.simps) (simp add: iterator_locator(2))
next
  case (Suc i)
  show ?case
  proof (cases "i0 = Suc i")
    case True then show ?thesis using assms(1,4) Suc.prems by (subst back_to_last_vertex.simps) (simp add: iterator_locator(2))
  next
    case False
    have "\<not> owned_delegate g i" using Suc.prems assms(5) False by (cases "i = i0") auto
    then have "vertex_prev g (iterator_at g (Suc i)) = Some (iterator_at g i)"
      using vertex_prev_at [OF assms(1) Suc.prems(2)] Suc.prems False by auto
    moreover have "back_to_last_vertex g (iterator_at g i) = Some (iterator_at g i0)"
      using Suc.prems False by (intro Suc.IH) auto
    moreover have "m_global_max_vertex g < owned_label g (Suc i)" using Suc.prems False by auto
    ultimately show ?thesis
      using iterator_locator(2) [OF assms(1) Suc.prems(2)] by (subst back_to_last_vertex.simps) simp
  qed
qed

text \<open>A loop that comes back to where it was never returns.\<close>

lemma back_to_last_vertex_stuck:
  assumes "locator_to_label g (m_locator it) = Some l" "m_global_max_vertex g < l" "vertex_prev g it = Some it"
  shows "back_to_last_vertex g it = None"
proof -
  have "\<not> (g' = g \<and> it' = it)" if "back_to_last_vertex g' it' = Some y" for g' it' y
    by (rule back_to_last_vertex.raw_induct [OF _ that]) (use assms in \<open>auto split: option.splits if_splits\<close>)
  then show ?thesis by (cases "back_to_last_vertex g it") auto
qed

definition covers_vertices :: "delegate_graph \<Rightarrow> bool" where
  "covers_vertices g \<longleftrightarrow> m_owned_info g \<noteq> [] \<and> m_global_max_vertex g < owned_label g (length (m_owned_info g) - 1)
     \<and> (\<forall>i < length (m_owned_info g). m_global_max_vertex g < owned_label g i \<longrightarrow> \<not> owned_delegate g i)"

text \<open>The index of the last vertex of a rank.\<close>

definition last_owned :: "delegate_graph \<Rightarrow> nat" where
  "last_owned g = (m_global_max_vertex g - m_mpi_rank g) div m_mpi_size g"

lemma owned_label_le_iff:
  assumes "m_mpi_rank g < m_mpi_size g" "m_mpi_rank g \<le> m_global_max_vertex g"
  shows "owned_label g i \<le> m_global_max_vertex g \<longleftrightarrow> i \<le> last_owned g"
proof -
  have "owned_label g i \<le> m_global_max_vertex g \<longleftrightarrow> i * m_mpi_size g \<le> m_global_max_vertex g - m_mpi_rank g"
    using assms by (auto simp: owned_label_def)
  also have "\<dots> \<longleftrightarrow> i \<le> last_owned g" using assms(1) by (simp add: last_owned_def less_eq_div_iff_mult_less_eq)
  finally show ?thesis .
qed

lemma last_owned_less:
  assumes "rank_wf g" "covers_vertices g" "m_mpi_rank g \<le> m_global_max_vertex g"
  shows "last_owned g < length (m_owned_info g) - 1"
  using owned_label_le_iff [of g "length (m_owned_info g) - 1"] assms by (auto simp: covers_vertices_def rank_wf_def)

lemma after_last_owned:
  assumes "rank_wf g" "covers_vertices g" "m_mpi_rank g \<le> m_global_max_vertex g" "last_owned g < j" "j < length (m_owned_info g)"
  shows "m_global_max_vertex g < owned_label g j \<and> \<not> owned_delegate g j"
  using owned_label_le_iff [of g j] assms by (auto simp: covers_vertices_def rank_wf_def)

lemma vertices_eq:
  assumes "rank_wf g" "covers_vertices g" "m_mpi_rank g \<le> m_global_max_vertex g" "\<not> owned_delegate g (last_owned g)"
  shows "vertices g = Some (map (\<lambda>j. m_locator (iterator_at g j)) (filter (\<lambda>j. \<not> owned_delegate g j) [0..<Suc (last_owned g)]))"
proof -
  define i0 where "i0 = last_owned g"
  define n where "n = length (m_owned_info g)"
  have i0: "Suc i0 < n" using last_owned_less [OF assms(1-3)] by (simp add: i0_def n_def)
  have tail: "m_global_max_vertex g < owned_label g j \<and> \<not> owned_delegate g j" if "i0 < j" "j < n" for j
    using after_last_owned [OF assms(1-3)] that by (simp add: i0_def n_def)
  have le: "owned_label g i0 \<le> m_global_max_vertex g"
    using owned_label_le_iff [of g i0] assms(1,3) by (simp add: rank_wf_def i0_def)
  have "vertex_iterator_new g (n - 1) = Some (iterator_at g (n - 1))"
    using tail [of "n - 1"] i0 by (intro vertex_iterator_new_at assms(1)) (auto simp: n_def)
  moreover have "back_to_last_vertex g (iterator_at g (n - 1)) = Some (iterator_at g i0)"
    using i0 tail by (intro back_to_last_vertex_at assms(1) le) (auto simp: n_def assms(4) i0_def)
  moreover have "vertex_next g (iterator_at g i0) = Some (iterator_at g (Suc i0))"
    using vertex_next_at [OF assms(1), of i0 "Suc i0"] i0 tail [of "Suc i0"] skip_delegates_stop [of g "Suc i0"] by (simp add: n_def)
  moreover have "m_owned_info g \<noteq> []" using i0 by (auto simp: n_def)
  ultimately have e: "vertices_end g = Some (iterator_at g (Suc i0))"
    by (simp add: vertices_end_def n_def Let_def)
  define b where "b = skip_delegates (m_owned_info g) 0"
  have b: "b \<le> Suc i0" "\<not> owned_delegate g b"
    "filter (\<lambda>j. \<not> owned_delegate g j) [0..<Suc i0] = filter (\<lambda>j. \<not> owned_delegate g j) [b..<Suc i0]"
    using skip_delegates_upto [of 0 "Suc i0" g] i0 tail [of "Suc i0"] by (simp_all add: b_def n_def)
  have "vertices_begin g = Some (iterator_at g b)"
    unfolding vertices_begin_def vertex_iterator_new_def using b(1) i0 assms(1)
    by (subst update_locator_at) (simp_all add: b_def n_def)
  then show ?thesis
    using locators_from_at [OF assms(1), of "Suc i0" b n] b i0 tail [of "Suc i0"] e
    by (simp add: vertices_def n_def i0_def)
qed

lemma owned_labels_upto:
  assumes "m_mpi_rank g < m_mpi_size g" "m_mpi_rank g \<le> m_global_max_vertex g"
  shows "map (owned_label g) (filter P [0..<Suc (last_owned g)])
    = filter (\<lambda>v. v mod m_mpi_size g = m_mpi_rank g \<and> P (v div m_mpi_size g)) [0..<Suc (m_global_max_vertex g)]"
proof (rule sorted_distinct_set_unique)
  have inj: "inj (owned_label g)" and mono: "mono (owned_label g)"
    using assms(1) by (auto simp: inj_def mono_def owned_label_def)
  show "sorted (map (owned_label g) (filter P [0..<Suc (last_owned g)]))"
    by (rule sorted_map_mono [OF _ mono_imp_mono_on [OF mono]]) (intro sorted_wrt_filter sorted_upt)
  show "distinct (map (owned_label g) (filter P [0..<Suc (last_owned g)]))"
    by (simp add: distinct_map inj_on_subset [OF inj] del: upt_Suc)
  have mod: "owned_label g i mod m_mpi_size g = m_mpi_rank g" and div: "owned_label g i div m_mpi_size g = i" for i
    using assms(1) by (simp_all add: owned_label_def)
  have label_of: "v = owned_label g (v div m_mpi_size g)" if "v mod m_mpi_size g = m_mpi_rank g" for v
    using that div_mult_mod_eq [of v "m_mpi_size g"] by (simp add: owned_label_def)
  show "set (map (owned_label g) (filter P [0..<Suc (last_owned g)]))
      = set (filter (\<lambda>v. v mod m_mpi_size g = m_mpi_rank g \<and> P (v div m_mpi_size g)) [0..<Suc (m_global_max_vertex g)])" (is "?A = ?B")
  proof
    show "?A \<subseteq> ?B" using owned_label_le_iff [OF assms] by (auto simp: mod div less_Suc_eq_le simp del: upt_Suc)
    show "?B \<subseteq> ?A"
    proof
      fix v assume "v \<in> ?B"
      then have v: "v mod m_mpi_size g = m_mpi_rank g" "P (v div m_mpi_size g)" "v \<le> m_global_max_vertex g"
        by (auto simp: less_Suc_eq_le simp del: upt_Suc)
      then have "v div m_mpi_size g \<le> last_owned g"
        using owned_label_le_iff [OF assms, of "v div m_mpi_size g"] label_of [of v] by simp
      then show "v \<in> ?A" using v label_of [of v] by (auto simp: less_Suc_eq_le simp del: upt_Suc)
    qed
  qed
qed (intro sorted_wrt_filter sorted_upt distinct_filter distinct_upt)+

subsection \<open>Edges: lemmas\<close>

text \<open>Offsets that index into the target arrays, all of whose entries were written with existing owners.\<close>

definition owned_csr_wf :: "delegate_graph \<Rightarrow> bool" where
  "owned_csr_wf g \<longleftrightarrow> length (m_owned_targets g) = m_owned_targets_size g
     \<and> (\<forall>i. Suc i < length (m_owned_info g) \<longrightarrow> low_csr_idx (m_owned_info g ! i) \<le> low_csr_idx (m_owned_info g ! Suc i)
          \<and> low_csr_idx (m_owned_info g ! Suc i) \<le> m_owned_targets_size g)
     \<and> (\<forall>t \<in> set (m_owned_targets g). case t of None \<Rightarrow> False | Some l \<Rightarrow> owner l < m_mpi_size g)"

definition delegate_csr_wf :: "delegate_graph \<Rightarrow> bool" where
  "delegate_csr_wf g \<longleftrightarrow> length (m_delegate_targets g) = m_delegate_targets_size g
     \<and> m_delegate_targets_size g < 2 ^ 64
     \<and> (\<forall>i. Suc i < length (m_delegate_info g) \<longrightarrow> m_delegate_info g ! i \<le> m_delegate_info g ! Suc i
          \<and> m_delegate_info g ! Suc i \<le> m_delegate_targets_size g)
     \<and> (\<forall>t \<in> set (m_delegate_targets g). case t of None \<Rightarrow> False | Some l \<Rightarrow> owner l < m_mpi_size g)"

text \<open>The stored targets of a vertex.\<close>

definition stored_targets :: "delegate_graph \<Rightarrow> vertex_locator \<Rightarrow> vertex_locator option list" where
  "stored_targets g l =
     (let i = local_id l in
      if is_delegate l then segment (m_delegate_info g ! i) (m_delegate_info g ! Suc i - m_delegate_info g ! i) (m_delegate_targets g)
      else segment (low_csr_idx (m_owned_info g ! i)) (low_csr_idx (m_owned_info g ! Suc i) - low_csr_idx (m_owned_info g ! i)) (m_owned_targets g))"

lemma is_equal_refl [simp]: "is_equal x x"
  by (simp add: is_equal_def)

lemma targets_from_segment:
  assumes "b \<le> e" "e \<le> length ts"
    and ts: "ts = (if is_delegate l then m_delegate_targets g else m_owned_targets g)"
      "length ts = (if is_delegate l then m_delegate_targets_size g else m_owned_targets_size g)"
    and ok: "\<And>t. t \<in> set ts \<Longrightarrow> case t of None \<Rightarrow> False | Some l \<Rightarrow> owner l < m_mpi_size g"
  shows "targets_from g \<lparr>ei_source = l, ei_edge_offset = b\<rparr> \<lparr>ei_source = l, ei_edge_offset = e\<rparr> = Some (map the (segment b (e - b) ts))"
  using assms(1)
proof (induction "e - b" arbitrary: b)
  case 0 then show ?case by (subst targets_from.simps) (simp add: edge_is_equal_def segment_def)
next
  case (Suc n)
  then have b: "b < length ts" "b < e" using assms(2) by simp_all
  then obtain t where t: "ts ! b = Some t" "owner t < m_mpi_size g"
    using ok [OF nth_mem [OF b(1)]] by (cases "ts ! b") auto
  have "target g \<lparr>ei_source = l, ei_edge_offset = b\<rparr> = Some t"
    using b(1) t ts by (cases "is_delegate l") (simp_all add: target_def Let_def)
  moreover have "segment b (e - b) ts = Some t # segment (Suc b) (e - Suc b) ts"
    using b t(1) Suc.hyps(2) by (simp add: segment_def Cons_nth_drop_Suc [symmetric] take_Cons' flip: Suc_diff_Suc)
  moreover have "n = e - Suc b" "Suc b \<le> e" using Suc.hyps(2) b by simp_all
  note Suc.hyps(1) [OF this]
  ultimately show ?case using b(2) by (subst targets_from.simps) (simp add: edge_is_equal_def edge_next_def)
qed

lemma sub64_eq: "b \<le> a \<Longrightarrow> a < 2 ^ 64 \<Longrightarrow> sub64 a b = a - b"
  unfolding sub64_def by (simp add: nat_mod_as_int flip: of_nat_diff)

lemma low_csr_idx_less: "low_csr_idx v < 2 ^ 64"
proof -
  have "unat (vi_low_csr_idx v) < 2 ^ LENGTH(39)" by (rule unsigned_less)
  then show ?thesis by (simp add: low_csr_idx_def)
qed

lemma edge_targets_eq:
  assumes "owned_csr_wf g" "delegate_csr_wf g"
    and "if is_delegate l then Suc (local_id l) < length (m_delegate_info g)
         else owner l = m_mpi_rank g \<and> Suc (local_id l) < length (m_owned_info g)"
  shows "edge_targets g l = Some (map the (stored_targets g l)) \<and> local_degree g l = Some (length (stored_targets g l))"
proof (cases "is_delegate l")
  case True
  define b e where "b = m_delegate_info g ! local_id l" and "e = m_delegate_info g ! Suc (local_id l)"
  have be: "b \<le> e" "e \<le> length (m_delegate_targets g)" "e < 2 ^ 64"
    using assms(2,3) True by (auto simp: delegate_csr_wf_def b_def e_def)
  have "targets_from g \<lparr>ei_source = l, ei_edge_offset = b\<rparr> \<lparr>ei_source = l, ei_edge_offset = e\<rparr> = Some (map the (segment b (e - b) (m_delegate_targets g)))"
    by (rule targets_from_segment [OF be(1,2)]) (use True assms(2) in \<open>simp_all add: delegate_csr_wf_def\<close>)
  then show ?thesis
    using True assms(3) be sub64_eq [OF be(1,3)]
    by (simp add: edge_targets_def edges_begin_def edges_end_def local_degree_def stored_targets_def Let_def length_segment flip: b_def e_def)
next
  case False
  define b e where "b = low_csr_idx (m_owned_info g ! local_id l)" and "e = low_csr_idx (m_owned_info g ! Suc (local_id l))"
  have be: "b \<le> e" "e \<le> length (m_owned_targets g)" "e < 2 ^ 64"
    using assms(1,3) False low_csr_idx_less by (auto simp: owned_csr_wf_def b_def e_def)
  have "targets_from g \<lparr>ei_source = l, ei_edge_offset = b\<rparr> \<lparr>ei_source = l, ei_edge_offset = e\<rparr> = Some (map the (segment b (e - b) (m_owned_targets g)))"
    by (rule targets_from_segment [OF be(1,2)]) (use False assms(1) in \<open>simp_all add: owned_csr_wf_def\<close>)
  then show ?thesis
    using False assms(3) be sub64_eq [OF be(1,3)]
    by (simp add: edge_targets_def edges_begin_def edges_end_def local_degree_def stored_targets_def Let_def length_segment flip: b_def e_def)
qed

text \<open>A graph of one rank with the vertices 0 to 2, for concrete runs; the vertices in \<open>ds\<close> are delegates.\<close>

definition small_graph :: "nat list \<Rightarrow> delegate_graph" where
  "small_graph ds = \<lparr>edge_chunk_size = 1, processes_per_node = 1, node_partitions = 1, m_mpi_size = 1, m_mpi_rank = 0,
     m_graph_state = GraphReady, m_max_vertex = 2, m_global_max_vertex = 2, m_edges_high_count = 0, m_edges_low_count = 0,
     m_local_outgoing_count = [], m_local_incoming_count = [],
     m_owned_info = map (\<lambda>i. \<lparr>vi_is_delegate = (if i \<in> set ds then 1 else 0), vi_delegate_id = 0, vi_low_csr_idx = 0\<rparr>) [0, 1, 2, 3],
     m_owned_info_tracker = [], m_owned_targets = [], m_owned_targets_size = 0, m_delegate_degree_threshold = 1,
     m_delegate_info = replicate (Suc (length ds)) 0, m_delegate_degree = replicate (length ds) 0, m_delegate_label = ds,
     m_delegate_targets = [], m_delegate_targets_size = 0,
     m_map_delegate_locator = map (\<lambda>i. (ds ! i, the (make_locator True i 0))) [0..<length ds],
     m_controller_locators = [], m_has_edge_data = False\<rparr>"

lemma small_graph_sel [simp]:
  "m_mpi_size (small_graph ds) = 1" "m_mpi_rank (small_graph ds) = 0" "m_global_max_vertex (small_graph ds) = 2"
  "length (m_owned_info (small_graph ds)) = 4" "owned_label (small_graph ds) i = i" "last_owned (small_graph ds) = 2"
  "m_delegate_label (small_graph ds) = ds" "m_owned_info (small_graph ds) \<noteq> []"
  by (simp_all add: small_graph_def owned_label_def last_owned_def)

lemma small_graph_delegate: "i < 4 \<Longrightarrow> owned_delegate (small_graph ds) i \<longleftrightarrow> i \<in> set ds"
  by (auto simp: owned_delegate_def small_graph_def less_Suc_eq nth_Cons numeral_eq_Suc split: nat.splits)

lemma small_graph_wf: "set ds \<subseteq> {0, 1, 2} \<Longrightarrow> rank_wf (small_graph ds) \<and> covers_vertices (small_graph ds)"
  by (auto simp: rank_wf_def covers_vertices_def small_graph_delegate)

subsection \<open>Properties\<close>

text \<open>
  C35. Going from \<open>vertices_begin\<close> to \<open>vertices_end\<close> lists exactly the rank's vertices that did not
  become delegates, each once and in increasing order of label, when the rank has a vertex and its last
  one is not a delegate.
\<close>

theorem vertices_enumerate:
  assumes "rank_wf g" "covers_vertices g" "m_mpi_rank g \<le> m_global_max_vertex g" "\<not> owned_delegate g (last_owned g)"
  shows "\<exists>ls. vertices g = Some ls \<and> map (locator_to_label g) ls =
    map Some (filter (\<lambda>v. v mod m_mpi_size g = m_mpi_rank g \<and> \<not> owned_delegate g (v div m_mpi_size g)) [0..<Suc (m_global_max_vertex g)])"
proof -
  define js where "js = filter (\<lambda>j. \<not> owned_delegate g j) [0..<Suc (last_owned g)]"
  have "map (locator_to_label g) (map (\<lambda>j. m_locator (iterator_at g j)) js) = map Some (map (owned_label g) js)"
    using last_owned_less [OF assms(1-3)] iterator_locator(2) [OF assms(1)] by (auto simp: js_def less_Suc_eq_le simp del: upt_Suc)
  also have "map (owned_label g) js = filter (\<lambda>v. v mod m_mpi_size g = m_mpi_rank g \<and> \<not> owned_delegate g (v div m_mpi_size g)) [0..<Suc (m_global_max_vertex g)]"
    unfolding js_def using assms(1,3) by (intro owned_labels_upto) (simp_all add: rank_wf_def)
  finally show ?thesis using vertices_eq [OF assms] unfolding js_def by blast
qed

theorem vertices_enumerate_witness:
  "\<exists>ls. vertices (small_graph [1]) = Some ls \<and> map (locator_to_label (small_graph [1])) ls = [Some 0, Some 2]"
  using vertices_enumerate [of "small_graph [1]"] small_graph_wf [of "[1]"] small_graph_delegate
  by (simp add: upt_rec numeral_2_eq_2)

text \<open>
  C36. When the last vertex of a rank is a delegate, \<open>vertices_end\<close> never returns: stepping back from
  the entry behind it, \<open>operator--\<close> decrements the index and \<open>update_locator\<close> moves it forward over the
  delegate again, so the loop is at the same place after every round.
\<close>

theorem vertices_end_hangs:
  assumes "rank_wf g" "covers_vertices g" "m_mpi_rank g \<le> m_global_max_vertex g" "owned_delegate g (last_owned g)"
  shows "vertex_prev g (iterator_at g (Suc (last_owned g))) = Some (iterator_at g (Suc (last_owned g)))
    \<and> vertices_end g = None"
proof -
  define i where "i = Suc (last_owned g)"
  define n where "n = length (m_owned_info g)"
  have i: "0 < i" "i < n" using last_owned_less [OF assms(1-3)] by (simp_all add: i_def n_def)
  have tail: "m_global_max_vertex g < owned_label g j \<and> \<not> owned_delegate g j" if "i \<le> j" "j < n" for j
    using after_last_owned [OF assms(1-3), of j] that by (simp add: i_def n_def)
  have prev: "vertex_prev g (iterator_at g i) = Some (iterator_at g i)"
    using vertex_prev_at [OF assms(1), of i] i tail [of i] assms(4) by (simp add: i_def n_def)
  have "back_to_last_vertex g (iterator_at g j) = None" if "i \<le> j" "j < n" for j
    using that
  proof (induction j)
    case 0 then show ?case using i by simp
  next
    case (Suc j)
    show ?case
    proof (cases "i = Suc j")
      case True
      then show ?thesis using back_to_last_vertex_stuck [of g "iterator_at g i"] prev tail [of i] i
          iterator_locator(2) [OF assms(1), of i] by (simp add: n_def)
    next
      case False
      then have "vertex_prev g (iterator_at g (Suc j)) = Some (iterator_at g j)"
        using vertex_prev_at [OF assms(1), of "Suc j"] Suc.prems tail [of j] tail [of "Suc j"] by (simp add: n_def)
      then show ?thesis
        using Suc False tail [of "Suc j"] iterator_locator(2) [OF assms(1), of "Suc j"]
        by (subst back_to_last_vertex.simps) (simp add: n_def)
    qed
  qed
  moreover have "vertex_iterator_new g (n - 1) = Some (iterator_at g (n - 1))"
    using tail [of "n - 1"] i by (intro vertex_iterator_new_at assms(1)) (auto simp: n_def)
  moreover have "m_owned_info g \<noteq> []" using i by (auto simp: n_def)
  ultimately show ?thesis
    using prev i by (simp add: i_def vertices_end_def Let_def n_def)
qed

theorem vertices_end_hangs_witness:
  "vertices_end (small_graph [2]) = None"
  using vertices_end_hangs [of "small_graph [2]"] small_graph_wf [of "[2]"] small_graph_delegate [of 2 "[2]"] by simp

text \<open>
  C37. Converting a label to a locator and back gives the label, for every label whose local id fits 40
  bits; the locator is a delegate exactly when the label is one, and otherwise it names the owner and
  the local id of the label.
\<close>

theorem label_locator_roundtrip:
  assumes "labels_wf g" "label < 2 ^ 40 * m_mpi_size g"
  shows "\<exists>l. label_to_locator g label = Some l \<and> locator_to_label g l = Some label
    \<and> is_delegate l = is_label_delegate g label
    \<and> (\<not> is_delegate l \<longrightarrow> owner l = get_owner_id (m_mpi_size g) label \<and> local_id l = get_local_id (m_mpi_size g) label)"
  using label_to_locator_Some [OF assms] by blast

theorem label_locator_roundtrip_witness:
  "\<exists>l l'. label_to_locator (small_graph [2]) 2 = Some l \<and> locator_to_label (small_graph [2]) l = Some 2 \<and> is_delegate l
    \<and> label_to_locator (small_graph [2]) 1 = Some l' \<and> locator_to_label (small_graph [2]) l' = Some 1 \<and> local_id l' = 1"
proof -
  obtain d where d: "make_locator True 0 0 = Some d" using make_locator_None_iff [of True 0 0] by fastforce
  then have f: "is_delegate d" "local_id d = 0" "owner d = 0" by (simp_all add: make_locator_Some_iff)
  have "labels_wf (small_graph [2])"
    by (simp add: labels_wf_def) (simp add: small_graph_def d f)
  moreover have "is_label_delegate (small_graph [2]) 2" "\<not> is_label_delegate (small_graph [2]) 1"
    by (simp_all add: is_label_delegate_def) (simp_all add: small_graph_def)
  ultimately show ?thesis
    using label_locator_roundtrip [of "small_graph [2]" 2] label_locator_roundtrip [of "small_graph [2]" 1]
    by (fastforce simp: get_local_id_def)
qed

end
