(* ===== verification/Double_Arithmetic.thy ===== *)
theory Double_Arithmetic
  imports Complex_Main Havoq_Prelude "HOL-Library.Log_Nat" "HOL-Library.Multiset"
begin

section \<open>Doubles\<close>

text \<open>
  The arithmetic of \<open>double\<close> that the algorithms use, in the binary64 format of IEEE 754 with rounding to the nearest, ties to even: a
  finite double is the rational number it stands for.  The sign of a zero is not kept; it matters only when something is divided by it,
  and the divisors here are converted from unsigned integers.  Then sums whose order is left open, and how far such a sum is from the exact one.
\<close>

subsection \<open>Rounding\<close>

datatype double = Finite rat | Infinite bool | NaN

definition binary_exponent :: "rat \<Rightarrow> int" where
  "binary_exponent x =
     (let (a, b) = quotient_of x; e = bitlen a - bitlen b in if 2 powi e \<le> x then e else e - 1)"

definition round_even :: "rat \<Rightarrow> int" where
  "round_even y = (let n = \<lfloor>y\<rfloor>; f = y - of_int n in if f < 1 / 2 \<or> f = 1 / 2 \<and> even n then n else n + 1)"

text \<open>The unit in the last place: 52 binary digits behind the leading one, but nothing below \<open>2 ^ -1074\<close>.\<close>

definition least_place :: int where
  "least_place = - 1074"

definition last_place :: "rat \<Rightarrow> int" where
  "last_place x = max (binary_exponent \<bar>x\<bar> - 52) least_place"

definition round_double :: "rat \<Rightarrow> double" where
  "round_double x =
     (if x = 0 then Finite 0
      else let y = of_int (round_even (x / 2 powi last_place x)) * 2 powi last_place x
           in if \<bar>y\<bar> < 2 powi 1024 then Finite y else Infinite (0 < x))"

definition double_of_nat :: "nat \<Rightarrow> double" where
  "double_of_nat n = round_double (of_nat n)"

fun double_add :: "double \<Rightarrow> double \<Rightarrow> double" where
  "double_add (Finite x) (Finite y) = round_double (x + y)"
| "double_add (Infinite s) (Infinite t) = (if s = t then Infinite s else NaN)"
| "double_add (Infinite s) (Finite y) = Infinite s"
| "double_add (Finite x) (Infinite t) = Infinite t"
| "double_add NaN y = NaN"
| "double_add x NaN = NaN"

fun double_div :: "double \<Rightarrow> double \<Rightarrow> double" where
  "double_div (Finite x) (Finite y) = (if y = 0 then if x = 0 then NaN else Infinite (0 < x) else round_double (x / y))"
| "double_div (Infinite s) (Finite y) = Infinite (s \<longleftrightarrow> 0 \<le> y)"
| "double_div (Finite x) (Infinite t) = Finite 0"
| "double_div (Infinite s) (Infinite t) = NaN"
| "double_div NaN y = NaN"
| "double_div x NaN = NaN"

text \<open>\<open>numeric_limits<double>::min()\<close>, the smallest positive normal number.\<close>

definition double_min :: double where
  "double_min = Finite (2 powi (- 1022))"

subsection \<open>How far rounding goes\<close>

lemma binary_exponent:
  assumes "0 < x"
  shows "2 powi binary_exponent x \<le> x" "x < 2 powi (binary_exponent x + 1)"
proof -
  obtain a b where q: "quotient_of x = (a, b)" by (cases "quotient_of x")
  then have x: "x = of_int a / of_int b" and b: "0 < b" using quotient_of_div quotient_of_denom_pos by simp_all
  then have a: "0 < a" using assms by (simp add: zero_less_divide_iff)
  let ?e = "bitlen a - bitlen b"
  have bound: "(2 :: rat) powi (bitlen c - 1) \<le> of_int c \<and> of_int c < (2 :: rat) powi bitlen c" if "0 < c" for c
  proof -
    have pos: "0 < bitlen c" using that bitlen_nonneg [of c] bitlen_eq_zero_iff [of c] by linarith
    have "2 ^ nat (bitlen c - 1) \<le> c" "c < 2 ^ nat (bitlen c)" using bitlen_bounds [OF that] by simp_all
    then have "(of_int (2 ^ nat (bitlen c - 1)) :: rat) \<le> of_int c" "(of_int c :: rat) < of_int (2 ^ nat (bitlen c))"
      unfolding of_int_le_iff of_int_less_iff by simp_all
    then show ?thesis using pos by (simp add: power_int_def)
  qed
  have pos: "(0 :: rat) < of_int a" "(0 :: rat) < of_int b" using a b by simp_all
  have "x < 2 powi bitlen a / 2 powi (bitlen b - 1)"
    unfolding x by (rule frac_less) (use bound [OF a] bound [OF b] pos in auto)
  then have up: "x < 2 powi (?e + 1)" by (simp add: power_int_diff power_int_add field_simps)
  have "2 powi (bitlen a - 1) / 2 powi bitlen b \<le> x"
    unfolding x by (rule frac_le) (use bound [OF a] bound [OF b] pos in auto)
  then have low: "2 powi (?e - 1) \<le> x" by (simp add: power_int_diff power_int_add field_simps)
  show "2 powi binary_exponent x \<le> x" "x < 2 powi (binary_exponent x + 1)"
    using up low by (simp_all add: binary_exponent_def q Let_def)
qed

lemma round_even_near: "\<bar>of_int (round_even y) - y\<bar> \<le> 1 / 2"
proof -
  have "of_int \<lfloor>y\<rfloor> \<le> y" "y < of_int \<lfloor>y\<rfloor> + 1" by linarith+
  then show ?thesis unfolding round_even_def Let_def by (auto split: if_splits)
qed

lemma round_even_int [simp]: "round_even (of_int k) = k"
  by (simp add: round_even_def)

lemma power_2_pos [simp]: "(0 :: rat) < 2 powi e"
  by simp

text \<open>Numbers on the grid of the smallest doubles; all finite results are.\<close>

definition on_grid :: "rat \<Rightarrow> bool" where
  "on_grid x \<longleftrightarrow> (\<exists>k. x = of_int k * 2 powi least_place)"

lemma on_grid_add: "on_grid x \<Longrightarrow> on_grid y \<Longrightarrow> on_grid (x + y)"
  by (auto simp: on_grid_def simp flip: distrib_right of_int_add)

lemma on_grid_0 [simp]: "on_grid 0"
  by (auto simp: on_grid_def intro: exI [of _ 0])

lemma on_grid_scale:
  assumes "least_place \<le> e"
  shows "on_grid (of_int k * 2 powi e)"
proof -
  have "(2 :: rat) powi e = 2 powi (e - least_place) * 2 powi least_place" by (simp add: power_int_diff)
  also have "(2 :: rat) powi (e - least_place) = of_int (2 ^ nat (e - least_place))" using assms by (simp add: power_int_def)
  finally have "of_int k * 2 powi e = of_int (k * 2 ^ nat (e - least_place)) * (2 :: rat) powi least_place" by simp
  then show ?thesis unfolding on_grid_def by blast
qed

lemma round_grid: "round_double x = Finite y \<Longrightarrow> on_grid y"
  by (auto simp: round_double_def Let_def last_place_def split: if_splits intro: on_grid_scale)

text \<open>A number on the grid is rounded by at most one part in \<open>2 ^ 53\<close>.\<close>

lemma round_near:
  assumes "on_grid x" "round_double x = Finite y"
  shows "\<bar>y - x\<bar> \<le> \<bar>x\<bar> / 2 ^ 53"
proof (cases "x = 0")
  case True
  then show ?thesis using assms(2) by (simp add: round_double_def)
next
  case False
  let ?e = "last_place x" and ?E = "binary_exponent \<bar>x\<bar>"
  have y: "y = of_int (round_even (x / 2 powi ?e)) * 2 powi ?e"
    using assms(2) False by (simp add: round_double_def Let_def split: if_splits)
  show ?thesis
  proof (cases "?E - 52 \<le> least_place")
    case True
    then have e: "?e = least_place" by (simp add: last_place_def)
    obtain k where k: "x = of_int k * 2 powi least_place" using assms(1) by (auto simp: on_grid_def)
    then have "x / 2 powi least_place = of_int k" by simp
    then have "y = x" unfolding y e by (simp only: round_even_int k)
    then show ?thesis by simp
  next
    case nsub: False
    then have e: "?e = ?E - 52" by (simp add: last_place_def)
    let ?u = "2 powi ?e :: rat"
    have "y - x = (of_int (round_even (x / ?u)) - x / ?u) * ?u" unfolding y by (simp add: left_diff_distrib)
    then have "\<bar>y - x\<bar> = \<bar>of_int (round_even (x / ?u)) - x / ?u\<bar> * ?u" by (simp add: abs_mult)
    also have "\<dots> \<le> 1 / 2 * ?u" by (rule mult_right_mono [OF round_even_near]) simp
    also have "1 / 2 * ?u = 2 powi ?E / 2 ^ 53" unfolding e by (simp add: power_int_diff)
    also have "\<dots> \<le> \<bar>x\<bar> / 2 ^ 53" using binary_exponent(1) [of "\<bar>x\<bar>"] False by (intro divide_right_mono) simp_all
    finally show ?thesis .
  qed
qed

text \<open>Numbers of at most 53 digits are not rounded.\<close>

lemma round_exact:
  assumes "x = of_int m * 2 powi e" "\<bar>m\<bar> < 2 ^ 53" "least_place \<le> e" "e \<le> 971"
  shows "round_double x = Finite x"
proof (cases "x = 0")
  case False
  let ?e = "last_place x"
  have m: "\<bar>of_int m\<bar> < (2 :: rat) ^ 53" using assms(2) by (metis of_int_abs of_int_less_iff of_int_numeral of_int_power)
  have "\<bar>x\<bar> < 2 ^ 53 * 2 powi e" unfolding assms(1) abs_mult using m by (simp add: mult_strict_right_mono)
  also have "\<dots> = (2 :: rat) powi (e + 53)" by (simp add: power_int_add mult.commute)
  finally have up: "\<bar>x\<bar> < 2 powi (e + 53)" .
  have "(2 :: rat) powi binary_exponent \<bar>x\<bar> < 2 powi (e + 53)"
    using binary_exponent(1) [of "\<bar>x\<bar>"] False up by linarith
  then have "binary_exponent \<bar>x\<bar> < e + 53" by (metis power_int_increasing not_le one_le_numeral)
  then have le: "?e \<le> e" using assms(3) by (simp add: last_place_def)
  have "x / 2 powi ?e = of_int m * 2 powi (e - ?e)" unfolding assms(1) by (simp add: power_int_diff)
  also have "(2 :: rat) powi (e - ?e) = of_int (2 ^ nat (e - ?e))" using le by (simp add: power_int_def)
  finally have "x / 2 powi ?e = of_int (m * 2 ^ nat (e - ?e))" by simp
  then have y: "of_int (round_even (x / 2 powi ?e)) * 2 powi ?e = x" by (metis nonzero_eq_divide_eq power_int_not_zero round_even_int zero_neq_numeral)
  have "(2 :: rat) powi (e + 53) \<le> 2 powi 1024" using assms(4) by (intro power_int_increasing) simp_all
  then have "\<bar>x\<bar> < 2 powi 1024" using up by linarith
  then show ?thesis using False y by (simp add: round_double_def Let_def)
qed (simp add: round_double_def)

subsection \<open>Sums in an order that is left open\<close>

text \<open>
  \<open>combined f M y\<close>: \<open>y\<close> results from combining the elements of \<open>M\<close> with \<open>f\<close> in some order and some bracketing.  That is what can be said of
  sums that grow as messages arrive, and of reductions by MPI.
\<close>

inductive combined :: "('a \<Rightarrow> 'a \<Rightarrow> 'a) \<Rightarrow> 'a multiset \<Rightarrow> 'a \<Rightarrow> bool" for f where
  combined_one: "combined f {#x#} x"
| combined_two: "combined f A x \<Longrightarrow> combined f B y \<Longrightarrow> combined f (A + B) (f x y)"

lemma combined_fold: "combined f A x \<Longrightarrow> combined f (A + mset ys) (foldl f x ys)"
proof (induction ys arbitrary: A x)
  case (Cons y ys)
  have "combined f (A + {#y#}) (f x y)" using Cons.prems combined_one by (rule combined_two)
  from Cons.IH [OF this] show ?case by simp
qed simp

text \<open>What is combined may be combined of parts itself.\<close>

lemma combined_parts:
  assumes "combined f (image_mset val I) y" "\<And>i. i \<in># I \<Longrightarrow> combined f (parts i) (val i)"
  shows "combined f (\<Sum>i \<in># I. parts i) y"
  using assms
proof (induction "image_mset val I" y arbitrary: I rule: combined.induct)
  case (combined_one x)
  then have "size I = 1" by (metis size_image_mset size_single)
  then obtain i where i: "I = {#i#}" using size_1_singleton_mset by blast
  then have "x = val i" using combined_one(1) by simp
  then show ?case using combined_one(2) i by simp
next
  case (combined_two A x B y)
  obtain J K where "I = J + K" "image_mset val J = A" "image_mset val K = B"
    using image_mset_eq_plusD [of val I A B] combined_two(5) by metis
  then show ?case using combined_two(2, 4, 6) combined.combined_two by fastforce
qed

lemma combined_nonempty: "combined f M y \<Longrightarrow> M \<noteq> {#}"
  by (induction rule: combined.induct) auto

lemma combined_of_one: "combined f {#x#} y \<Longrightarrow> y = x"
proof (induction "{#x#}" y rule: combined.induct)
  case (combined_two A a B b)
  then show ?case using combined_nonempty [OF combined_two(1)] combined_nonempty [OF combined_two(3)] by (simp add: union_is_single)
qed simp

lemma combined_of_two:
  assumes "combined f {#x, y#} z"
  shows "z = f x y \<or> z = f y x"
  using assms
proof cases
  case (combined_two A a B b)
  have "size A + size B = 2" using combined_two(1) by (metis size_union size_add_mset size_single one_add_one Suc_1 add.commute plus_1_eq_Suc)
  then have "size A = 1" "size B = 1"
    using combined_nonempty [OF combined_two(3)] combined_nonempty [OF combined_two(4)] by (simp_all add: nonempty_has_size)
  then obtain p q where pq: "A = {#p#}" "B = {#q#}" by (metis size_1_singleton_mset)
  then have "a = p" "b = q" using combined_two(3, 4) combined_of_one by auto
  moreover have "p = x \<and> q = y \<or> p = y \<and> q = x" using combined_two(1) pq by (auto simp: add_eq_conv_ex)
  ultimately show ?thesis using combined_two(2) by blast
qed auto

subsection \<open>The error of a sum\<close>

definition rat_of :: "double \<Rightarrow> rat" where
  "rat_of d = (case d of Finite x \<Rightarrow> x | _ \<Rightarrow> 0)"

definition nonneg_double :: "double \<Rightarrow> bool" where
  "nonneg_double d \<longleftrightarrow> (\<exists>x. d = Finite x \<and> 0 \<le> x \<and> on_grid x)"

lemma round_double_nonneg: "0 \<le> x \<Longrightarrow> round_double x = Finite y \<Longrightarrow> nonneg_double (Finite y)"
proof -
  assume x: "0 \<le> x" and y: "round_double x = Finite y"
  have "0 \<le> x / 2 powi last_place x" using x by simp
  then have "0 \<le> round_even (x / 2 powi last_place x)" by (simp add: round_even_def Let_def)
  then have "0 \<le> y" using y by (auto simp: round_double_def Let_def split: if_splits)
  then show ?thesis using round_grid [OF y] by (simp add: nonneg_double_def)
qed

text \<open>Adding \<open>n\<close> numbers of one sign loses at most \<open>n - 1\<close> times one part in \<open>2 ^ 53\<close>, whatever the order.\<close>

definition rounding_bound :: "nat \<Rightarrow> rat" where
  "rounding_bound n = (1 + 1 / 2 ^ 53) ^ (n - 1) - 1"

lemma combined_near:
  assumes "combined double_add M (Finite v)" "\<And>d. d \<in># M \<Longrightarrow> nonneg_double d"
  shows "nonneg_double (Finite v) \<and> \<bar>v - (\<Sum>d \<in># M. rat_of d)\<bar> \<le> rounding_bound (size M) * (\<Sum>d \<in># M. rat_of d)"
  using assms
proof (induction M "Finite v" arbitrary: v rule: combined.induct)
  case combined_one
  then show ?case by (auto simp: rounding_bound_def rat_of_def nonneg_double_def)
next
  case (combined_two A x B y)
  obtain a b where ab: "x = Finite a" "y = Finite b" "round_double (a + b) = Finite v"
    using combined_two(5) by (cases x; cases y) (auto split: if_splits)
  let ?S = "\<lambda>M. \<Sum>d \<in># M. rat_of d" and ?q = "1 + 1 / 2 ^ 53 :: rat"
  have near: "nonneg_double (Finite a)" "\<bar>a - ?S A\<bar> \<le> rounding_bound (size A) * ?S A"
    "nonneg_double (Finite b)" "\<bar>b - ?S B\<bar> \<le> rounding_bound (size B) * ?S B"
    using combined_two(2) [OF ab(1)] combined_two(4) [OF ab(2)] combined_two(6) by simp_all
  have ge: "0 \<le> a" "0 \<le> b" and grid: "on_grid (a + b)" using near(1, 3) by (auto simp: nonneg_double_def intro: on_grid_add)
  have S: "0 \<le> ?S M" if "\<And>d. d \<in># M \<Longrightarrow> nonneg_double d" for M
    using that
  proof (induction M)
    case (add d M)
    have "nonneg_double d" using add.prems by simp
    then have "0 \<le> rat_of d" by (auto simp: rat_of_def nonneg_double_def)
    then show ?case using add by simp
  qed simp
  have pos: "0 < size A" "0 < size B" using combined_nonempty [OF combined_two(1)] combined_nonempty [OF combined_two(3)] by (simp_all add: nonempty_has_size)
  define n where "n = size A + size B - 2"
  have bound: "rounding_bound (size A) \<le> ?q ^ n - 1" "rounding_bound (size B) \<le> ?q ^ n - 1"
    unfolding rounding_bound_def n_def using pos by (intro diff_mono power_increasing; simp)+
  have sums: "0 \<le> ?S A" "0 \<le> ?S B" using S combined_two(6) by simp_all
  have "\<bar>a - ?S A\<bar> \<le> (?q ^ n - 1) * ?S A" "\<bar>b - ?S B\<bar> \<le> (?q ^ n - 1) * ?S B"
    using near(2, 4) mult_right_mono [OF bound(1) sums(1)] mult_right_mono [OF bound(2) sums(2)] by linarith+
  then have ab_near: "\<bar>a + b - (?S A + ?S B)\<bar> \<le> (?q ^ n - 1) * (?S A + ?S B)" unfolding distrib_left by linarith
  then have le: "a + b \<le> ?q ^ n * (?S A + ?S B)" unfolding left_diff_distrib by simp
  have "\<bar>v - (a + b)\<bar> \<le> (a + b) / 2 ^ 53" using round_near [OF grid ab(3)] ge by simp
  also have "\<dots> \<le> ?q ^ n * (?S A + ?S B) / 2 ^ 53" by (rule divide_right_mono [OF le]) simp
  finally have "\<bar>v - (?S A + ?S B)\<bar> \<le> (?q ^ n - 1) * (?S A + ?S B) + ?q ^ n * (?S A + ?S B) / 2 ^ 53" using ab_near by linarith
  also have "\<dots> = (?q ^ Suc n - 1) * (?S A + ?S B)" by (simp add: algebra_simps)
  also have "Suc n = size (A + B) - 1" using pos by (simp add: n_def)
  finally have "\<bar>v - ?S (A + B)\<bar> \<le> rounding_bound (size (A + B)) * ?S (A + B)" by (simp add: rounding_bound_def)
  moreover have "nonneg_double (Finite v)" by (rule round_double_nonneg [OF _ ab(3)]) (use ge in simp)
  ultimately show ?case by blast
qed

end
