(* ===== verification/Traversal_Delivery.thy ===== *)
theory Traversal_Delivery
  imports Visitor_Weights
begin

section \<open>Delivering traversals\<close>

text \<open>
  Page rank and triangle counting share another shape: every rank starts from its vertices once, the visitors that are sent
  along the edges change the data where they arrive and are never queued, and the master of a delegate asks the other ranks to
  do the same for the edges they store.  What another rank does not take for a delegate it passes on to the master, or drops: \<open>live\<close> tells.  The locale states this contract.  Its theorem: when the loop ends, the data of every rank
  is the result of a fixed multiset of deliveries in some order, on every schedule; and every run ends.
\<close>

text \<open>No infinite run; some run finishes; and a run that cannot go on has finished.\<close>

definition always_finishes :: "('n, 'v, 'd) traversal \<Rightarrow> (nat \<Rightarrow> ('v, 'd) vq) \<times> 'v net \<Rightarrow> bool" where
  "always_finishes T g0 \<longleftrightarrow> (\<nexists>f. f 0 = g0 \<and> (\<forall>i. vq_step T (f i) (f (Suc i)))) \<and> (\<exists>g. vq_reach T g0 g \<and> all_finished (t_size T) g)
     \<and> (\<forall>g. vq_reach T g0 g \<and> (\<forall>g'. \<not> vq_step T g g') \<longrightarrow> all_finished (t_size T) g)"

locale delivering =
  fixes T :: "('n, 'v, 'd) traversal" and takes :: "nat \<Rightarrow> 'v \<Rightarrow> bool" and deliver :: "nat \<Rightarrow> 'v \<Rightarrow> 'd \<Rightarrow> 'd"
    and first more :: "nat \<Rightarrow> 'v \<Rightarrow> 'v list" and spreads :: "nat \<Rightarrow> 'v \<Rightarrow> bool" and start :: "'v \<Rightarrow> bool"
    and fits :: "nat \<Rightarrow> 'd \<Rightarrow> bool" and D :: nat and live :: "nat \<Rightarrow> 'v \<Rightarrow> bool"
  assumes home_less: "t_home T n < t_size T"
    and pre_visit: "t_pre_visit T r v d = (if takes r v then (deliver r v d, False) else (d, live r v))"
    and home_takes: "takes (t_home T (t_vertex T v)) v"
    and deliver_fits: "fits r d \<Longrightarrow> fits r (deliver r v d)"
    and init_visit: "start v \<Longrightarrow> fits r d \<Longrightarrow> t_init_visit T r v d = (d, first r v, spreads r v)"
    and visit: "start v \<Longrightarrow> fits r d \<Longrightarrow> spreads (t_home T (t_vertex T v)) v \<Longrightarrow> \<exists>ret. t_visit T r v d = (d, more r v, ret)"
    and init_visit_length: "t_init_visit T r v d = (d', new, ret) \<Longrightarrow> length new \<le> D"
    and visit_length: "t_visit T r v d = (d', new, ret) \<Longrightarrow> length new \<le> D"
begin

abbreviation "vx \<equiv> t_vertex T"
abbreviation "home \<equiv> t_home T"
abbreviation "P \<equiv> t_size T"

subsection \<open>What is still to be delivered\<close>

text \<open>Where a visitor that rank \<open>r\<close> hands to \<open>queue_visitor\<close> takes effect.\<close>

definition dest :: "nat \<Rightarrow> 'v \<Rightarrow> nat" where
  "dest r v = (if t_delegate T (vx v) \<and> takes r v then r else home (vx v))"

definition goes :: "nat \<Rightarrow> 'v \<Rightarrow> bool" where
  "goes r v \<longleftrightarrow> (t_delegate T (vx v) \<longrightarrow> \<not> takes r v \<longrightarrow> live r v)"

definition emit :: "nat \<Rightarrow> 'v list \<Rightarrow> (nat \<times> 'v) multiset" where
  "emit r vs = mset (map (\<lambda>v. (dest r v, v)) (filter (goes r) vs))"

definition spread :: "nat \<Rightarrow> 'v \<Rightarrow> (nat \<times> 'v) multiset" where
  "spread r v = (\<Sum>q \<in> {..<P} - {r}. emit q (more q v))"

definition broadcasts :: "nat \<Rightarrow> 'v \<Rightarrow> bool" where
  "broadcasts r v \<longleftrightarrow> t_delegate T (vx v) \<and> home (vx v) = r \<and> spreads r v"

definition job :: "nat \<Rightarrow> 'v \<Rightarrow> (nat \<times> 'v) multiset" where
  "job r v = emit r (first r v) + (if broadcasts r v then spread r v else {#})"

definition msg_jobs :: "nat \<Rightarrow> 'v \<times> bool \<Rightarrow> (nat \<times> 'v) multiset" where
  "msg_jobs r m = (if snd m then emit r (more r (fst m)) else {#(r, fst m)#})"

definition rank_jobs :: "nat \<Rightarrow> ('v, 'd) vq \<Rightarrow> (nat \<times> 'v) multiset" where
  "rank_jobs r st = sum_list (map (job r) (start_controllers st)) + sum_list (map (job r) (start_vertices st))
     + emit r (todo_of st) + sum_list (map (spread r) (bcast_of st)) + sum_list (map (\<lambda>v. emit r (more r v)) (controllers st))"

definition net_jobs :: "'v net \<Rightarrow> (nat \<times> 'v) multiset" where
  "net_jobs net = (\<Sum>r < P. sum_list (map (msg_jobs r) (net r)))"

definition at_rank :: "nat \<Rightarrow> 'v list \<Rightarrow> (nat \<times> 'v) multiset" where
  "at_rank r vs = mset (map (Pair r) vs)"

lemma emit_simps [simp]: "emit r [] = {#}" "emit r (v # vs) = (if goes r v then {#(dest r v, v)#} else {#}) + emit r vs"
  by (simp_all add: emit_def)

lemma at_rank_simps [simp]: "at_rank r [] = {#}" "at_rank r (vs @ ws) = at_rank r vs + at_rank r ws" "at_rank r [v] = {#(r, v)#}"
  by (simp_all add: at_rank_def)

subsection \<open>The shape of a state\<close>

definition rank_shape :: "nat \<Rightarrow> ('v, 'd) vq \<Rightarrow> bool" where
  "rank_shape r st \<longleftrightarrow> owned st = [] \<and> fits r (alg_data st) \<and> (\<forall>v \<in> set (start_controllers st) \<union> set (start_vertices st). start v)
     \<and> (\<forall>v \<in> set (bcast_of st). start v \<and> broadcasts r v)
     \<and> (\<forall>v \<in> set (controllers st). start v \<and> t_delegate T (vx v) \<and> spreads (home (vx v)) v)
     \<and> at_pc st \<notin> {Drain_Inner, Pop_Top} \<and> (at_pc st = Test_Inner \<longrightarrow> controllers st = [] \<and> running st = None)"

definition msg_shape :: "nat \<Rightarrow> 'v \<times> bool \<Rightarrow> bool" where
  "msg_shape r m \<longleftrightarrow> (if snd m then start (fst m) \<and> t_delegate T (vx (fst m)) \<and> spreads (home (vx (fst m))) (fst m) \<and> home (vx (fst m)) \<noteq> r
     else home (vx (fst m)) = r)"

definition shape :: "(nat \<Rightarrow> ('v, 'd) vq) \<times> 'v net \<Rightarrow> bool" where
  "shape g \<longleftrightarrow> (\<forall>r < P. rank_shape r (fst g r) \<and> (\<forall>m \<in> set (snd g r). msg_shape r m))"

subsection \<open>Local steps\<close>

lemma sum_one:
  fixes f g :: "nat \<Rightarrow> 'x multiset"
  assumes "q < P" "\<And>r. r \<noteq> q \<Longrightarrow> f r = g r" "f q = g q + X"
  shows "(\<Sum>r < P. f r) = (\<Sum>r < P. g r) + X"
proof -
  have "(\<Sum>r \<in> {..<P} - {q}. f r) = (\<Sum>r \<in> {..<P} - {q}. g r)" using assms(2) by (intro sum.cong) auto
  then show ?thesis using assms(1,3) sum.remove [of "{..<P}" q f] sum.remove [of "{..<P}" q g] by simp
qed

lemma net_send: "q < P \<Longrightarrow> net_jobs (mailbox_send q v net) = net_jobs net + {#(q, v)#}"
  unfolding net_jobs_def by (rule sum_one [of q]) (simp_all add: mailbox_send_def msg_jobs_def)

lemma net_bcast:
  "net_jobs (mailbox_bcast P r v net) = net_jobs net + spread r v"
proof -
  have "net_jobs (mailbox_bcast P r v net) = (\<Sum>q < P. sum_list (map (msg_jobs q) (net q)) + (if q = r then {#} else emit q (more q v)))"
    unfolding net_jobs_def by (rule sum.cong) (auto simp: mailbox_bcast_def msg_jobs_def)
  also have "\<dots> = net_jobs net + (\<Sum>q < P. if q = r then {#} else emit q (more q v))" by (simp add: sum.distrib net_jobs_def)
  also have "(\<Sum>q < P. if q = r then {#} else emit q (more q v)) = spread r v"
    unfolding spread_def by (rule sum.mono_neutral_cong_right) auto
  finally show ?thesis .
qed

text \<open>A step at rank \<open>r\<close> from \<open>(st, net)\<close> delivers \<open>ds\<close> and keeps everything else.\<close>

definition conserves :: "nat \<Rightarrow> ('v, 'd) vq \<times> 'v net \<Rightarrow> ('v, 'd) vq \<times> 'v net \<Rightarrow> bool" where
  "conserves r a b \<longleftrightarrow> (\<exists>ds. alg_data (fst b) = fold (deliver r) ds (alg_data (fst a))
     \<and> rank_jobs r (fst a) + net_jobs (snd a) = at_rank r ds + (rank_jobs r (fst b) + net_jobs (snd b)))
     \<and> rank_shape r (fst b) \<and> (\<forall>q < P. \<forall>m \<in> set (snd b q). m \<in> set (snd a q) \<or> msg_shape q m)"

lemma conserves_still:
  assumes "alg_data st' = alg_data st" "rank_jobs r st' = rank_jobs r st" "rank_shape r st'"
  shows "conserves r (st, net) (st', net)"
  unfolding conserves_def using assms by (intro conjI exI [of _ "[]"]) auto

lemma queue_visitor_conserves:
  assumes run: "running st = Some (v # vs, bc)" and sh: "rank_shape r st"
  shows "conserves r (st, net) (queue_visitor T r v (st\<lparr>running := Some (vs, bc)\<rparr>, net))"
proof -
  let ?s = "st\<lparr>running := Some (vs, bc)\<rparr>"
  have jobs: "rank_jobs r st = (if goes r v then {#(dest r v, v)#} else {#}) + rank_jobs r ?s"
    using run by (simp add: rank_jobs_def todo_of_def bcast_of_def split: option.splits)
  have shs: "rank_shape r (?s\<lparr>alg_data := deliver r v (alg_data st)\<rparr>)"
    using sh run deliver_fits by (auto simp: rank_shape_def bcast_of_def split: option.splits)
  have same: "rank_jobs r (?s\<lparr>alg_data := d\<rparr>) = rank_jobs r ?s" for d by (simp add: rank_jobs_def todo_of_def bcast_of_def)
  have h: "home (vx v) < P" by (rule home_less)
  have fwd: "takes r v \<or> home (vx v) \<noteq> r" using home_takes by metis
  have taken: "conserves r (st, net) (?s\<lparr>alg_data := deliver r v (alg_data st)\<rparr>, net)" if "dest r v = r" "goes r v"
    unfolding conserves_def using that jobs same shs by (intro conjI exI [of _ "[v]"]) auto
  have sh': "rank_shape r ?s" using sh run by (auto simp: rank_shape_def bcast_of_def split: option.splits)
  then have sent: "conserves r (st, net) (?s, mailbox_send (home (vx v)) v net)" if "dest r v = home (vx v)" "goes r v"
    unfolding conserves_def using that jobs net_send [OF h]
    by (intro conjI exI [of _ "[]"]) (auto simp: mailbox_send_def msg_shape_def)
  show ?thesis
  proof (cases "t_delegate T (vx v)")
    case True
    show ?thesis
    proof (cases "takes r v")
      case t: True
      then show ?thesis using True taken by (simp add: queue_visitor_def local_delegate_visit_def pre_visit dest_def goes_def Let_def)
    next
      case nt: False
      show ?thesis
      proof (cases "live r v")
        case l: True
        then show ?thesis using True nt fwd sent by (auto simp: queue_visitor_def local_delegate_visit_def pre_visit dest_def goes_def Let_def)
      next
        case False
        then have "rank_jobs r ?s = rank_jobs r st" using jobs True nt by (simp add: goes_def)
        then have "conserves r (st, net) (?s, net)" using sh' by (intro conserves_still) simp_all
        then show ?thesis using True nt False by (simp add: queue_visitor_def local_delegate_visit_def pre_visit Let_def)
      qed
    qed
  next
    case False
    show ?thesis
    proof (cases "home (vx v) = r")
      case h: True
      then have "takes r v" using fwd by simp
      then show ?thesis using False h taken by (simp add: queue_visitor_def pre_visit dest_def goes_def Let_def)
    next
      case h: False
      then show ?thesis using False sent by (simp add: queue_visitor_def dest_def goes_def)
    qed
  qed
qed

lemma begin_visit_conserves:
  assumes v: "start v" and run: "running st = None" and sh: "rank_shape r st" and pc: "at_pc st \<noteq> Test_Inner"
    and jobs: "rank_jobs r st' = job r v + rank_jobs r st"
    and st': "alg_data st' = alg_data st"
  shows "conserves r (st', net) (begin_visit T r (t_init_visit T) v st, net)"
proof -
  let ?bc = "if broadcasts r v then Some v else None"
  have eq: "begin_visit T r (t_init_visit T) v st = st\<lparr>alg_data := alg_data st, running := Some (first r v, ?bc)\<rparr>"
    using init_visit [OF v, of r "alg_data st"] sh by (simp add: rank_shape_def begin_visit_def broadcasts_def conj_ac)
  have "rank_jobs r (st\<lparr>running := Some (first r v, ?bc)\<rparr>) = job r v + rank_jobs r st"
    using run by (simp add: rank_jobs_def todo_of_def bcast_of_def job_def)
  moreover have "rank_shape r (st\<lparr>running := Some (first r v, ?bc)\<rparr>)"
    using sh run pc v by (auto simp: rank_shape_def bcast_of_def)
  ultimately show ?thesis unfolding eq using jobs st' by (intro conserves_still) simp_all
qed

lemma drain_conserves:
  assumes run: "running st = None" and sh: "rank_shape r st" and pc: "at_pc st = Drain_Outer"
  shows "conserves r (st, net) (drain_controllers T r Test_Inner st, net)"
proof (cases "controllers st")
  case Nil
  then show ?thesis using sh run
    by (intro conserves_still) (auto simp: drain_controllers_def rank_jobs_def rank_shape_def todo_of_def bcast_of_def)
next
  case (Cons v vs)
  then have v: "start v" "fits r (alg_data st)" "spreads (home (vx v)) v" using sh by (auto simp: rank_shape_def)
  obtain ret where "t_visit T r v (alg_data st) = (alg_data st, more r v, ret)" using visit [OF v] by blast
  then have eq: "drain_controllers T r Test_Inner st = st\<lparr>controllers := vs, alg_data := alg_data st, running := Some (more r v, None)\<rparr>"
    using Cons by (simp add: drain_controllers_def begin_controller_def)
  show ?thesis unfolding eq using sh run pc Cons
    by (intro conserves_still) (auto simp: rank_jobs_def rank_shape_def todo_of_def bcast_of_def)
qed

lemma rank_step_conserves:
  assumes step: "rank_step T r k (st, net) = Some (st', net')" and sh: "rank_shape r st"
  shows "conserves r (st, net) (st', net')"
proof (cases "running st")
  case (Some p)
  obtain vs bc where p: "running st = Some (vs, bc)" using Some by (cases p) auto
  show ?thesis
  proof (cases vs)
    case (Cons v ws)
    then show ?thesis using queue_visitor_conserves [of st v ws bc r net] p step sh by simp
  next
    case Nil
    have pc: "at_pc st \<noteq> Test_Inner" using sh p by (auto simp: rank_shape_def)
    show ?thesis
    proof (cases bc)
      case None
      then show ?thesis using Nil p step sh pc
        by (auto intro!: conserves_still simp: rank_jobs_def rank_shape_def todo_of_def bcast_of_def)
    next
      case (Some v)
      then have eq: "st' = st\<lparr>running := Some ([], None)\<rparr>" "net' = mailbox_bcast P r v net" using Nil p step by auto
      have v: "start v" "broadcasts r v" using sh p Some by (auto simp: rank_shape_def bcast_of_def Nil)
      have "rank_jobs r st = spread r v + rank_jobs r st'" using p Nil Some by (simp add: eq rank_jobs_def todo_of_def bcast_of_def)
      moreover have "rank_shape r st'" using sh pc by (auto simp: eq rank_shape_def bcast_of_def)
      ultimately show ?thesis unfolding conserves_def using net_bcast v
        by (intro conjI exI [of _ "[]"]) (auto simp: eq mailbox_bcast_def msg_shape_def broadcasts_def)
    qed
  qed
next
  case None
  show ?thesis
  proof (cases "at_pc st")
    case Start_Controller
    show ?thesis
    proof (cases "start_controllers st")
      case Nil
      then show ?thesis using None Start_Controller step sh
        by (auto intro!: conserves_still simp: rank_jobs_def rank_shape_def todo_of_def bcast_of_def)
    next
      case (Cons v vs)
      let ?s = "st\<lparr>start_controllers := vs, at_pc := Start_Vertex\<rparr>"
      have "conserves r (st, net) (begin_visit T r (t_init_visit T) v ?s, net)"
        using sh Cons None by (intro begin_visit_conserves) (auto simp: rank_shape_def rank_jobs_def todo_of_def bcast_of_def)
      then show ?thesis using None Start_Controller step Cons by auto
    qed
  next
    case Start_Vertex
    show ?thesis
    proof (cases "start_vertices st")
      case Nil
      then show ?thesis using None Start_Vertex step sh
        by (auto intro!: conserves_still simp: rank_jobs_def rank_shape_def todo_of_def bcast_of_def)
    next
      case (Cons v vs)
      let ?s = "st\<lparr>start_vertices := vs, at_pc := Drain_Outer\<rparr>"
      have "conserves r (st, net) (begin_visit T r (t_init_visit T) v ?s, net)"
        using sh Cons None by (intro begin_visit_conserves) (auto simp: rank_shape_def rank_jobs_def todo_of_def bcast_of_def)
      then show ?thesis using None Start_Vertex step Cons by auto
    qed
  next
    case Drain_Outer
    then show ?thesis using drain_conserves [OF None sh] None step by auto
  next
    case Test_Inner
    then have "is_empty st" using sh by (auto simp: rank_shape_def is_empty_def)
    then show ?thesis using None Test_Inner step sh
      by (auto intro!: conserves_still simp: rank_jobs_def rank_shape_def todo_of_def bcast_of_def)
  next
    case Test_Outer
    then show ?thesis using None step sh
      by (auto intro!: conserves_still simp: rank_jobs_def rank_shape_def todo_of_def bcast_of_def split: if_splits)
  qed (use None step sh in \<open>auto simp: rank_shape_def\<close>)
qed

subsection \<open>Exchanges\<close>

lemma handle_conserves:
  assumes m: "msg_shape r m" and sh: "rank_shape r st" and pc: "at_pc st \<noteq> Test_Inner"
  shows "\<exists>st' ds. handle_mailbox_receive T r m st = Some st' \<and> alg_data st' = fold (deliver r) ds (alg_data st)
    \<and> rank_jobs r st + msg_jobs r m = at_rank r ds + rank_jobs r st' \<and> rank_shape r st' \<and> at_pc st' = at_pc st \<and> running st' = running st"
proof (cases m)
  case (Pair v b)
  show ?thesis
  proof (cases b)
    case True
    let ?s = "st\<lparr>controllers := controllers st @ [v]\<rparr>"
    have v: "start v" "t_delegate T (vx v)" "spreads (home (vx v)) v" "home (vx v) \<noteq> r" using m Pair True by (simp_all add: msg_shape_def)
    then have "handle_mailbox_receive T r m st = Some ?s" using Pair True by (simp add: handle_mailbox_receive_def)
    moreover have "rank_jobs r ?s = rank_jobs r st + msg_jobs r m"
      using Pair True by (simp add: rank_jobs_def msg_jobs_def todo_of_def bcast_of_def)
    moreover have "rank_shape r ?s" using sh v pc by (auto simp: rank_shape_def bcast_of_def)
    ultimately show ?thesis by (intro exI [of _ ?s] exI [of _ "[]"]) simp
  next
    case False
    let ?s = "st\<lparr>alg_data := deliver r v (alg_data st)\<rparr>"
    have h: "home (vx v) = r" using m Pair False by (simp add: msg_shape_def)
    then have "takes r v" using home_takes by blast
    then have "handle_mailbox_receive T r m st = Some ?s" using h Pair False by (simp add: handle_mailbox_receive_def pre_visit Let_def)
    moreover have "rank_jobs r ?s = rank_jobs r st" by (simp add: rank_jobs_def todo_of_def bcast_of_def)
    moreover have "rank_shape r ?s" using sh deliver_fits by (auto simp: rank_shape_def bcast_of_def)
    ultimately show ?thesis using Pair False by (intro exI [of _ ?s] exI [of _ "[v]"]) (simp add: msg_jobs_def)
  qed
qed

lemma receive_conserves:
  assumes "\<And>m. m \<in> set ms \<Longrightarrow> msg_shape r m" "rank_shape r st" "at_pc st \<noteq> Test_Inner"
  shows "\<exists>st' ds. receive_all T r ms st = Some st' \<and> alg_data st' = fold (deliver r) ds (alg_data st)
    \<and> rank_jobs r st + sum_list (map (msg_jobs r) ms) = at_rank r ds + rank_jobs r st' \<and> rank_shape r st' \<and> at_pc st' = at_pc st \<and> running st' = running st"
  using assms
proof (induction ms arbitrary: st)
  case Nil
  then show ?case by (intro exI [of _ st] exI [of _ "[]"]) simp
next
  case (Cons m ms)
  obtain s1 d1 where 1: "handle_mailbox_receive T r m st = Some s1" "alg_data s1 = fold (deliver r) d1 (alg_data st)"
    "rank_jobs r st + msg_jobs r m = at_rank r d1 + rank_jobs r s1" "rank_shape r s1" "at_pc s1 = at_pc st" "running s1 = running st"
    using handle_conserves [of r m st] Cons.prems by auto
  obtain s2 d2 where 2: "receive_all T r ms s1 = Some s2" "alg_data s2 = fold (deliver r) d2 (alg_data s1)"
    "rank_jobs r s1 + sum_list (map (msg_jobs r) ms) = at_rank r d2 + rank_jobs r s2" "rank_shape r s2" "at_pc s2 = at_pc s1" "running s2 = running s1"
    using Cons.IH [of s1] Cons.prems 1(4,5) by auto
  have "rank_jobs r st + sum_list (map (msg_jobs r) (m # ms)) = at_rank r (d1 @ d2) + rank_jobs r s2"
    using 1(3) 2(3) by (metis (no_types, lifting) add.assoc at_rank_simps(2) list.simps(9) sum_list.Cons)
  then show ?case using 1 2 by (intro exI [of _ s2] exI [of _ "d1 @ d2"]) simp
qed

subsection \<open>Runs\<close>

definition pending :: "(nat \<Rightarrow> ('v, 'd) vq) \<times> 'v net \<Rightarrow> (nat \<times> 'v) multiset" where
  "pending g = (\<Sum>r < P. rank_jobs r (fst g r)) + net_jobs (snd g)"

definition delivered :: "(nat \<Rightarrow> 'd) \<Rightarrow> (nat \<times> 'v) multiset \<Rightarrow> (nat \<Rightarrow> ('v, 'd) vq) \<times> 'v net \<Rightarrow> bool" where
  "delivered d0 whole g \<longleftrightarrow> shape g \<and> (\<exists>del. (\<forall>r < P. alg_data (fst g r) = fold (deliver r) (del r) (d0 r))
     \<and> (\<Sum>r < P. at_rank r (del r)) + pending g = whole)"

lemma local_delivered:
  assumes inv: "delivered d0 whole (ranks, net)" and r: "r < P" and step: "rank_step T r k (ranks r, net) = Some (st, net')"
  shows "delivered d0 whole (ranks(r := st), net')"
proof -
  have sh: "rank_shape q (ranks q)" "\<forall>m \<in> set (net q). msg_shape q m" if "q < P" for q
    using inv that by (simp_all add: delivered_def shape_def)
  obtain del where del: "\<And>q. q < P \<Longrightarrow> alg_data (ranks q) = fold (deliver q) (del q) (d0 q)"
    "(\<Sum>q < P. at_rank q (del q)) + pending (ranks, net) = whole" using inv by (auto simp: delivered_def)
  obtain ds where c: "alg_data st = fold (deliver r) ds (alg_data (ranks r))"
    "rank_jobs r (ranks r) + net_jobs net = at_rank r ds + (rank_jobs r st + net_jobs net')" "rank_shape r st"
    "\<forall>q < P. \<forall>m \<in> set (net' q). m \<in> set (net q) \<or> msg_shape q m"
    using rank_step_conserves [OF step sh(1) [OF r]] unfolding conserves_def by auto
  let ?del = "del(r := del r @ ds)"
  have "(\<Sum>q < P. at_rank q (?del q)) = (\<Sum>q < P. at_rank q (del q)) + at_rank r ds" by (rule sum_one [OF r]) simp_all
  moreover have "(\<Sum>q < P. rank_jobs q ((ranks(r := st)) q)) + rank_jobs r (ranks r) = (\<Sum>q < P. rank_jobs q (ranks q)) + rank_jobs r st"
  proof -
    have "(\<Sum>q \<in> {..<P} - {r}. rank_jobs q ((ranks(r := st)) q)) = (\<Sum>q \<in> {..<P} - {r}. rank_jobs q (ranks q))" by (intro sum.cong) auto
    then show ?thesis using r sum.remove [of "{..<P}" r "\<lambda>q. rank_jobs q ((ranks(r := st)) q)"] sum.remove [of "{..<P}" r "\<lambda>q. rank_jobs q (ranks q)"] by simp
  qed
  ultimately have "(\<Sum>q < P. at_rank q (?del q)) + pending (ranks(r := st), net') + rank_jobs r (ranks r)
      = (\<Sum>q < P. at_rank q (del q)) + (at_rank r ds + (rank_jobs r st + net_jobs net')) + (\<Sum>q < P. rank_jobs q (ranks q))"
    by (simp add: pending_def add_ac)
  also have "\<dots> = (\<Sum>q < P. at_rank q (del q)) + pending (ranks, net) + rank_jobs r (ranks r)"
    unfolding c(2) [symmetric] by (simp add: pending_def add_ac)
  finally have "(\<Sum>q < P. at_rank q (?del q)) + pending (ranks(r := st), net') = whole" using del(2) by simp
  moreover have "alg_data ((ranks(r := st)) q) = fold (deliver q) (?del q) (d0 q)" if "q < P" for q
    using del(1) [OF that] c(1) by (cases "q = r") simp_all
  moreover have "msg_shape q m" if "q < P" "m \<in> set (net' q)" for q m
    using that sh(2) [OF that(1)] c(4) by blast
  then have "shape (ranks(r := st), net')" using sh(1) c(3) by (simp add: shape_def)
  ultimately show ?thesis unfolding delivered_def by (intro conjI exI [of _ ?del]) auto
qed

lemma leave_jobs: "rank_jobs r (leave_exchange q st) = rank_jobs r st" "alg_data (leave_exchange q st) = alg_data st"
  by (simp_all add: leave_exchange_def rank_jobs_def todo_of_def bcast_of_def)

lemma leave_shape: "rank_shape r st \<Longrightarrow> rank_shape r (leave_exchange q st)"
  by (auto simp: leave_exchange_def rank_shape_def bcast_of_def)

lemma exchange_delivered:
  assumes inv: "delivered d0 whole (ranks, net)" and can: "can_exchange P (ranks, net)"
    and arr: "\<And>r. r < P \<Longrightarrow> mset (arrival r) = mset (net r)" and recv: "\<And>r. r < P \<Longrightarrow> receive_all T r (arrival r) (ranks r) = Some (ranks' r)"
  shows "delivered d0 whole (\<lambda>r. if r < P then leave_exchange q (ranks' r) else ranks r, \<lambda>r. if r < P then [] else net r)"
proof -
  have sh: "rank_shape r (ranks r)" "\<forall>m \<in> set (net r). msg_shape r m" if "r < P" for r
    using inv that by (simp_all add: delivered_def shape_def)
  obtain del where del: "\<And>r. r < P \<Longrightarrow> alg_data (ranks r) = fold (deliver r) (del r) (d0 r)"
    "(\<Sum>r < P. at_rank r (del r)) + pending (ranks, net) = whole" using inv by (auto simp: delivered_def)
  have "\<exists>ds. alg_data (ranks' r) = fold (deliver r) ds (alg_data (ranks r))
      \<and> rank_jobs r (ranks r) + sum_list (map (msg_jobs r) (net r)) = at_rank r ds + rank_jobs r (ranks' r) \<and> rank_shape r (ranks' r)" if r: "r < P" for r
  proof -
    have "set (arrival r) = set (net r)" using arr [OF r] by (metis mset_eq_setD)
    then have ms: "\<And>m. m \<in> set (arrival r) \<Longrightarrow> msg_shape r m" using sh(2) [OF r] by simp
    have pc: "at_pc (ranks r) \<noteq> Test_Inner" using can sh(1) [OF r] r by (auto simp: can_exchange_def in_global_empty_def rank_shape_def)
    have "sum_list (map (msg_jobs r) (net r)) = sum_list (map (msg_jobs r) (arrival r))"
      using arr [OF r] by (metis mset_map sum_mset_sum_list)
    moreover obtain st' ds where "receive_all T r (arrival r) (ranks r) = Some st'" "alg_data st' = fold (deliver r) ds (alg_data (ranks r))"
      "rank_jobs r (ranks r) + sum_list (map (msg_jobs r) (arrival r)) = at_rank r ds + rank_jobs r st'" "rank_shape r st'"
      using receive_conserves [of "arrival r" r "ranks r"] ms sh(1) [OF r] pc by blast
    ultimately show ?thesis using recv [OF r] by auto
  qed
  then obtain ds where ds: "\<And>r. r < P \<Longrightarrow> alg_data (ranks' r) = fold (deliver r) (ds r) (alg_data (ranks r))"
    "\<And>r. r < P \<Longrightarrow> rank_jobs r (ranks r) + sum_list (map (msg_jobs r) (net r)) = at_rank r (ds r) + rank_jobs r (ranks' r)"
    "\<And>r. r < P \<Longrightarrow> rank_shape r (ranks' r)" by metis
  let ?g = "(\<lambda>r. if r < P then leave_exchange q (ranks' r) else ranks r, \<lambda>r. if r < P then [] else net r)"
  have "pending (ranks, net) = (\<Sum>r < P. at_rank r (ds r)) + (\<Sum>r < P. rank_jobs r (ranks' r))"
    unfolding pending_def net_jobs_def fst_conv snd_conv sum.distrib [symmetric] by (rule sum.cong) (use ds(2) in auto)
  moreover have "pending ?g = (\<Sum>r < P. rank_jobs r (ranks' r))" by (simp add: pending_def net_jobs_def leave_jobs)
  ultimately have "(\<Sum>r < P. at_rank r (del r @ ds r)) + pending ?g = whole" using del(2) by (simp add: sum.distrib add_ac)
  moreover have "alg_data (fst ?g r) = fold (deliver r) (del r @ ds r) (d0 r)" if "r < P" for r
    using del(1) [OF that] ds(1) [OF that] that by (simp add: leave_jobs)
  moreover have "shape ?g" using ds(3) leave_shape by (auto simp: shape_def)
  ultimately show ?thesis unfolding delivered_def by (intro conjI exI [of _ "\<lambda>r. del r @ ds r"]) auto
qed

lemma reach_delivered:
  assumes "vq_reach T g0 g" "delivered d0 whole g0"
  shows "delivered d0 whole g"
  using assms
proof (induction rule: vq_reach.induct)
  case (reach_step g g')
  from reach_step(2) show ?case
  proof cases
    case (local_step r k ranks net st net')
    then show ?thesis using local_delivered reach_step by simp
  next
    case (exchange_step ranks net arrival ranks')
    have "delivered d0 whole (ranks, net)" using reach_step exchange_step(1) by simp
    from exchange_delivered [OF this exchange_step(3-5)] show ?thesis unfolding exchange_step(2) .
  qed
qed

subsection \<open>The result\<close>

definition all_jobs :: "(nat \<Rightarrow> 'v list) \<Rightarrow> (nat \<Rightarrow> 'v list) \<Rightarrow> (nat \<times> 'v) multiset" where
  "all_jobs cs vs = (\<Sum>r < P. sum_list (map (job r) (cs r)) + sum_list (map (job r) (vs r)))"

definition arrivals :: "(nat \<Rightarrow> 'v list) \<Rightarrow> (nat \<Rightarrow> 'v list) \<Rightarrow> nat \<Rightarrow> 'v multiset" where
  "arrivals cs vs r = image_mset snd (filter_mset (\<lambda>x. fst x = r) (all_jobs cs vs))"

definition startable :: "(nat \<Rightarrow> 'v list) \<Rightarrow> (nat \<Rightarrow> 'v list) \<Rightarrow> (nat \<Rightarrow> 'd) \<Rightarrow> bool" where
  "startable cs vs d0 \<longleftrightarrow> (\<forall>r < P. fits r (d0 r) \<and> (\<forall>v \<in> set (cs r) \<union> set (vs r). start v))"

lemma start_delivered:
  assumes "startable cs vs d0"
  shows "delivered d0 (all_jobs cs vs) (start_all cs vs d0)"
proof -
  have "shape (start_all cs vs d0)"
    using assms by (simp add: shape_def rank_shape_def start_all_def new_vq_def bcast_of_def startable_def)
  moreover have "pending (start_all cs vs d0) = all_jobs cs vs"
    by (simp add: pending_def all_jobs_def net_jobs_def start_all_def new_vq_def rank_jobs_def todo_of_def bcast_of_def)
  moreover have "alg_data (fst (start_all cs vs d0) r) = fold (deliver r) [] (d0 r)" for r by (simp add: start_all_def new_vq_def)
  ultimately show ?thesis unfolding delivered_def by (intro conjI exI [of _ "\<lambda>_. []"]) auto
qed

lemma inbox_at_rank: "image_mset snd (filter_mset (\<lambda>x. fst x = r) (at_rank q vs)) = (if q = r then mset vs else {#})"
  by (induction vs) (auto simp: at_rank_def)

lemma inbox_sum:
  assumes "r < P"
  shows "image_mset snd (filter_mset (\<lambda>x. fst x = r) (\<Sum>q < P. at_rank q (del q))) = mset (del r)"
proof -
  have "image_mset snd (filter_mset (\<lambda>x. fst x = r) (\<Sum>q \<in> A. at_rank q (del q))) = (\<Sum>q \<in> A. if q = r then mset (del q) else {#})" if "finite A" for A
    using that by (induction A rule: finite_induct) (auto simp: inbox_at_rank)
  then show ?thesis using assms by simp
qed

theorem finished_deliveries:
  assumes reach: "vq_reach T (start_all cs vs d0) g" and fin: "all_finished P g" and starts: "startable cs vs d0" and r: "r < P"
  shows "\<exists>xs. mset xs = arrivals cs vs r \<and> alg_data (fst g r) = fold (deliver r) xs (d0 r)"
proof -
  have "delivered d0 (all_jobs cs vs) g" using reach_delivered [OF reach start_delivered [OF starts]] .
  then obtain del where del: "\<And>r. r < P \<Longrightarrow> alg_data (fst g r) = fold (deliver r) (del r) (d0 r)"
    "(\<Sum>r < P. at_rank r (del r)) + pending g = all_jobs cs vs" by (auto simp: delivered_def)
  have P: "0 < P" using r by simp
  have "finish_inv T g" using finish_inv_reach [OF reach] by simp
  then have all: "running (fst g q) = None \<and> controllers (fst g q) = [] \<and> start_controllers (fst g q) = [] \<and> start_vertices (fst g q) = [] \<and> snd g q = []" if "q < P" for q
    using fin that P unfolding finish_inv_def all_finished_def by blast
  have "rank_jobs q (fst g q) = {#}" if "q < P" for q using all [OF that] by (simp add: rank_jobs_def todo_of_def bcast_of_def)
  then have "pending g = {#}" using all by (simp add: pending_def net_jobs_def)
  then have "arrivals cs vs r = mset (del r)" using del(2) inbox_sum [OF r, of del] by (simp add: arrivals_def)
  then show ?thesis using del(1) [OF r] by metis
qed

text \<open>Sums over everything that is delivered.\<close>

lemma in_sum_list_mset: "x \<in># sum_list Ms \<longleftrightarrow> (\<exists>M \<in> set Ms. x \<in># M)"
  by (induction Ms) auto

lemma all_jobs_dest:
  assumes "x \<in># all_jobs cs vs"
  shows "\<exists>q < P. fst x = dest q (snd x)"
proof -
  obtain r v where r: "r < P" "x \<in># job r v" using assms by (auto simp: all_jobs_def set_mset_sum in_sum_list_mset)
  then consider "x \<in># emit r (first r v)" | q where "q < P" "x \<in># emit q (more q v)"
    by (auto simp: job_def spread_def set_mset_sum split: if_splits)
  then show ?thesis using r(1) by cases (auto simp: emit_def)
qed

lemma all_jobs_less: "x \<in># all_jobs cs vs \<Longrightarrow> fst x < P"
  using home_less by (auto dest!: all_jobs_dest simp: dest_def)

lemma all_jobs_all:
  assumes "x \<in># all_jobs cs vs" "\<And>q r u v. q < P \<Longrightarrow> r < P \<Longrightarrow> u \<in> set (cs r) \<union> set (vs r) \<Longrightarrow> v \<in> set (first r u) \<and> q = r \<or> v \<in> set (more q u) \<and> t_delegate T (vx u) \<Longrightarrow> Q v"
  shows "Q (snd x)"
proof -
  obtain r u where r: "r < P" "u \<in> set (cs r) \<union> set (vs r)" "x \<in># job r u" using assms(1) by (auto simp: all_jobs_def set_mset_sum in_sum_list_mset)
  then have "snd x \<in> set (first r u) \<or> (\<exists>q < P. snd x \<in> set (more q u) \<and> t_delegate T (vx u))"
    by (fastforce simp: job_def spread_def emit_def broadcasts_def set_mset_sum split: if_splits)
  then consider "snd x \<in> set (first r u)" | q where "q < P" "snd x \<in> set (more q u)" "t_delegate T (vx u)" by blast
  then show ?thesis using assms(2) [OF _ r(1,2)] r(1) by cases blast+
qed

lemma sum_mset_sum: "(\<Sum>x \<in># (\<Sum>a \<in> A. M a). f x) = (\<Sum>a \<in> A. \<Sum>x \<in># M a. f x)" for f :: "'x \<Rightarrow> 'a :: comm_monoid_add"
  by (induction A rule: infinite_finite_induct) simp_all

lemma sum_mset_list: "(\<Sum>x \<in># sum_list Ms. f x) = sum_list (map (\<lambda>M. \<Sum>x \<in># M. f x) Ms)" for f :: "'x \<Rightarrow> 'a :: comm_monoid_add"
  by (induction Ms) simp_all

lemma arrivals_sum: "(\<Sum>v \<in># arrivals cs vs r. f v) = (\<Sum>x \<in># all_jobs cs vs. if fst x = r then f (snd x) else 0)" for f :: "'v \<Rightarrow> 'a :: comm_monoid_add"
proof -
  have "(\<Sum>v \<in># image_mset snd (filter_mset (\<lambda>x. fst x = r) M). f v) = (\<Sum>x \<in># M. if fst x = r then f (snd x) else 0)" for M
    by (induction M) simp_all
  then show ?thesis by (simp add: arrivals_def)
qed

lemma arrivals_sum_all:
  fixes f :: "nat \<Rightarrow> 'v \<Rightarrow> 'a :: comm_monoid_add"
  shows "(\<Sum>r < P. \<Sum>v \<in># arrivals cs vs r. f r v) = (\<Sum>x \<in># all_jobs cs vs. f (fst x) (snd x))"
proof -
  have "(\<Sum>r < P. \<Sum>x \<in># M. if fst x = r then f r (snd x) else 0) = (\<Sum>x \<in># M. f (fst x) (snd x))" if "\<And>x. x \<in># M \<Longrightarrow> fst x < P" for M
    using that by (induction M) (simp_all add: sum.distrib)
  then show ?thesis using all_jobs_less unfolding arrivals_sum by blast
qed

text \<open>What concerns a vertex arrives at its home: all of it for an ordinary vertex, and for a delegate what only its master takes.\<close>

lemma arrivals_sum_home:
  fixes f :: "'v \<Rightarrow> 'a :: comm_monoid_add"
  assumes "\<And>r v. r < P \<Longrightarrow> f v \<noteq> 0 \<Longrightarrow> vx v = n \<and> (t_delegate T n \<longrightarrow> takes r v \<longrightarrow> r = home n)"
  shows "(\<Sum>v \<in># arrivals cs vs (home n). f v) = (\<Sum>x \<in># all_jobs cs vs. f (snd x))"
proof -
  have "(if fst x = home n then f (snd x) else 0) = f (snd x)" if "x \<in># all_jobs cs vs" for x
    using all_jobs_dest [OF that] assms by (auto simp: dest_def split: if_splits)
  then show ?thesis unfolding arrivals_sum by (intro arg_cong [where f = sum_mset] image_mset_cong) blast
qed

lemma all_jobs_home:
  assumes "\<And>r v. r < P \<Longrightarrow> t_delegate T (vx v) \<Longrightarrow> takes r v \<Longrightarrow> r = home (vx v)" "x \<in># all_jobs cs vs"
  shows "fst x = home (vx (snd x))"
  using all_jobs_dest [OF assms(2)] assms(1) by (auto simp: dest_def split: if_splits)

subsection \<open>Every run ends\<close>

sublocale weighted T "\<lambda>_. 0" "\<lambda>_. True" D
proof
  fix r v d d' new ret b
  show "t_home T n < P" for n by (rule home_less)
  show "(0::nat) \<le> 0 \<and> length new \<le> D" if "t_visit T r v d = (d', new, ret)" using visit_length [OF that] by simp
  show "(0::nat) \<le> 0 \<and> length new \<le> D" if "t_init_visit T r v d = (d', new, ret)" using init_visit_length [OF that] by simp
  show "(0::nat) \<le> 0 \<and> (b \<and> home (vx v) = r \<longrightarrow> 0 + push_cost P D \<le> 0)" if "t_pre_visit T r v d = (d', b)"
    using that home_takes [of v] by (auto simp: pre_visit split: if_splits)
qed

lemma sound_shape: "msg_shape r m \<Longrightarrow> sound_message m"
  by (simp add: msg_shape_def sound_message_def split: if_splits)

lemma delivery_decreases:
  assumes "vq_step T g g'" "delivered d0 whole g"
  shows "work g' < work g \<or> work g' = work g \<and> controls g' < controls g"
proof (rule step_decreases [OF assms(1)])
  fix r and m :: "'v \<times> bool"
  assume "r < P" "m \<in> set (snd g r)"
  then have "msg_shape r m" using assms(2) unfolding delivered_def shape_def by blast
  then show "sound_message m" by (rule sound_shape)
qed simp

theorem always_ends:
  assumes "startable cs vs d0"
  shows "always_finishes T (start_all cs vs d0)"
proof -
  let ?g0 = "start_all cs vs d0" and ?R = "measures [work, controls]"
  have inv: "delivered d0 (all_jobs cs vs) g" if "vq_reach T ?g0 g" for g using reach_delivered [OF that start_delivered [OF assms]] .
  have dec: "(g', g) \<in> ?R" if "vq_reach T ?g0 g" "vq_step T g g'" for g g' using delivery_decreases [OF that(2) inv [OF that(1)]] by auto
  have stuck: "all_finished P g" if g: "vq_reach T ?g0 g" and none: "\<forall>g'. \<not> vq_step T g g'" for g
  proof -
    have sh: "rank_shape r (fst g r)" "\<And>m. m \<in> set (snd g r) \<Longrightarrow> msg_shape r m" if "r < P" for r
      using inv [OF g] that by (auto simp: delivered_def shape_def)
    have P: "0 < P" using home_less by (metis not_gr_zero not_less_zero)
    have "\<not> pops_empty (fst g r)" if "r < P" for r using sh(1) [OF that] by (auto simp: pops_empty_def rank_shape_def)
    moreover have "all_finished P g \<or> (\<exists>r < P. pops_empty (fst g r))"
    proof (cases "\<exists>r < P. at_pc (fst g r) = Test_Inner")
      case True
      then obtain r where r: "r < P" "at_pc (fst g r) = Test_Inner" by blast
      then have "running (fst g r) = None" using sh(1) [OF r(1)] by (simp add: rank_shape_def)
      then have "rank_step T r 0 (fst g r, snd g) \<noteq> None" using r(2) by simp
      then obtain st net' where "rank_step T r 0 (fst g r, snd g) = Some (st, net')" by fastforce
      then have "vq_step T (fst g, snd g) ((fst g)(r := st), net')" by (rule vq_step.local_step [OF r(1)])
      then show ?thesis using none by simp
    next
      case False
      show ?thesis
      proof (rule stuck_finished [OF _ P])
        show "finish_inv T g" using finish_inv_reach [OF g] by simp
        show "\<not> vq_step T g g'" for g' using none by blast
        show "receive_all T r (snd g r) (fst g r) \<noteq> None" if "r < P" for r
          using receive_conserves [of "snd g r" r "fst g r"] sh [OF that] False that by fastforce
      qed
    qed
    ultimately show ?thesis by blast
  qed
  have "\<exists>g. vq_reach T ?g0 g \<and> (\<forall>g'. \<not> vq_step T g g')" if "vq_reach T ?g0 h" for h
    using that
  proof (induction h rule: wf_induct_rule [OF wf_measures [of "[work, controls]"]])
    case (1 h)
    then show ?case using dec vq_reach.reach_step by blast
  qed
  then have ex: "\<exists>g. vq_reach T ?g0 g \<and> all_finished P g" using stuck vq_reach.reach_refl by blast
  have "\<not> (\<forall>i. vq_step T (f i) (f (Suc i)))" if "f 0 = ?g0" for f
  proof
    assume run: "\<forall>i. vq_step T (f i) (f (Suc i))"
    have reach: "vq_reach T ?g0 (f i)" for i
      by (induction i) (use run that in \<open>auto intro: vq_reach.intros\<close>)
    have "(f (Suc i), f i) \<in> ?R" for i using dec [OF reach] run by blast
    then show False using wf_measures [of "[work, controls]"] unfolding wf_iff_no_infinite_down_chain by blast
  qed
  then show ?thesis using stuck ex unfolding always_finishes_def by blast
qed

end

subsection \<open>When nothing is dropped\<close>

locale delivering_all = delivering T takes deliver first more spreads start fits D "\<lambda>_ _. True"
  for T :: "('n, 'v, 'd) traversal" and takes :: "nat \<Rightarrow> 'v \<Rightarrow> bool" and deliver :: "nat \<Rightarrow> 'v \<Rightarrow> 'd \<Rightarrow> 'd"
    and first more :: "nat \<Rightarrow> 'v \<Rightarrow> 'v list" and spreads :: "nat \<Rightarrow> 'v \<Rightarrow> bool" and start :: "'v \<Rightarrow> bool"
    and fits :: "nat \<Rightarrow> 'd \<Rightarrow> bool" and D :: nat
begin

lemma emit_sum: "(\<Sum>x \<in># emit r vs. f (snd x)) = sum_list (map f vs)" for f :: "'v \<Rightarrow> 'a :: comm_monoid_add"
  by (induction vs) (simp_all add: goes_def)

lemma job_sum:
  fixes f :: "'v \<Rightarrow> 'a :: comm_monoid_add"
  shows "(\<Sum>x \<in># job r v. f (snd x)) = sum_list (map f (first r v)) + (if broadcasts r v then \<Sum>q \<in> {..<P} - {r}. sum_list (map f (more q v)) else 0)"
  by (simp add: job_def emit_sum spread_def sum_mset_sum)

lemma all_jobs_sum:
  fixes f :: "'v \<Rightarrow> 'a :: comm_monoid_add"
  shows "(\<Sum>x \<in># all_jobs cs vs. f (snd x)) = (\<Sum>r < P. \<Sum>v \<leftarrow> cs r @ vs r. sum_list (map f (first r v)) + (if broadcasts r v then \<Sum>q \<in> {..<P} - {r}. sum_list (map f (more q v)) else 0))"
  unfolding all_jobs_def sum_mset_sum by (simp add: sum_mset_list job_sum o_def)

end

end
