(* ===== verification/Page_Rank.thy ===== *)
theory Page_Rank
  imports Double_Arithmetic Traversal_Delivery Visitor_Graph
begin

section \<open>Page rank (page\_rank.hpp)\<close>

text \<open>
  One step of page rank: every vertex sends its rank divided by its degree along its edges, and what arrives is added up, in the order in
  which it arrives.  Ranks are doubles.  \<open>numeric_limits<double>::min()\<close> marks a visitor without a rank; one that arrives with it makes
  \<open>pre_visit\<close> throw.
\<close>

record 'n pr_visitor =
  pr_vertex :: 'n
  pr_rank :: double

text \<open>The graph, its degrees, and the current ranks, which a step only reads; the next ranks, and whether the rank has thrown.\<close>

record 'n pr_env =
  pr_graph :: "'n dgraph"
  pr_degree :: "'n \<Rightarrow> nat"
  pr_max_vertex :: nat

record 'n pr_data =
  cur_rank :: "'n \<Rightarrow> double"
  next_rank :: "'n \<Rightarrow> double"
  pr_threw :: bool

definition no_rank :: double where
  "no_rank = double_min"

definition pr_start_visitor :: "'n \<Rightarrow> 'n pr_visitor" where
  "pr_start_visitor v = \<lparr>pr_vertex = v, pr_rank = no_rank\<rparr>"

definition pr_pre_visit :: "nat \<Rightarrow> 'n pr_visitor \<Rightarrow> 'n pr_data \<Rightarrow> 'n pr_data \<times> bool" where
  "pr_pre_visit r v d =
     (if pr_rank v = no_rank then (d\<lparr>pr_threw := True\<rparr>, False)
      else (d\<lparr>next_rank := (next_rank d)(pr_vertex v := double_add (next_rank d (pr_vertex v)) (pr_rank v))\<rparr>, False))"

definition pr_visit :: "'n pr_env \<Rightarrow> nat \<Rightarrow> 'n pr_visitor \<Rightarrow> 'n pr_data \<Rightarrow> 'n pr_data \<times> 'n pr_visitor list \<times> bool" where
  "pr_visit E r v d =
     (let old_rank = cur_rank d (pr_vertex v); send_rank = double_div old_rank (double_of_nat (pr_degree E (pr_vertex v)))
      in (d, map (\<lambda>neighbor. \<lparr>pr_vertex = neighbor, pr_rank = send_rank\<rparr>) (g_edges (pr_graph E) r (pr_vertex v)), True))"

definition pr_init_visit :: "'n pr_env \<Rightarrow> nat \<Rightarrow> 'n pr_visitor \<Rightarrow> 'n pr_data \<Rightarrow> 'n pr_data \<times> 'n pr_visitor list \<times> bool" where
  "pr_init_visit E r v d = pr_visit E r v d"

definition pr_traversal :: "'n pr_env \<Rightarrow> ('n, 'n pr_visitor, 'n pr_data) traversal" where
  "pr_traversal E = \<lparr>t_size = g_size (pr_graph E), t_vertex = pr_vertex, t_delegate = g_delegate (pr_graph E),
     t_home = g_home (pr_graph E), t_pre_visit = pr_pre_visit, t_visit = pr_visit E, t_init_visit = pr_init_visit E\<rparr>"

text \<open>
  \<open>page_rank\<close>: the first call sets all current ranks; then the traversal of all vertices.  The next ranks start with what the caller left in
  them.
\<close>

definition initial_rank :: "'n pr_env \<Rightarrow> double" where
  "initial_rank E = double_div (double_of_nat 1) (double_of_nat (pr_max_vertex E))"

definition page_rank ::
    "'n pr_env \<Rightarrow> bool \<Rightarrow> (nat \<Rightarrow> 'n list) \<Rightarrow> (nat \<Rightarrow> 'n list) \<Rightarrow> (nat \<Rightarrow> 'n pr_data) \<Rightarrow> (nat \<Rightarrow> ('n pr_visitor, 'n pr_data) vq) \<times> 'n pr_visitor net" where
  "page_rank E initial cs vs d =
     start_all (\<lambda>r. map pr_start_visitor (cs r)) (\<lambda>r. map pr_start_visitor (vs r))
       (\<lambda>r. if initial then (d r)\<lparr>cur_rank := (\<lambda>_. initial_rank E)\<rparr> else d r)"

text \<open>
  \<open>next_rank.all_reduce()\<close>: the copies of a delegate get the result of \<open>MPI_Allreduce\<close> on the ranks' values, the parameter \<open>allred\<close>.  Its sums
  are sums of the ranks' values in an order and bracketing the library chooses, for every element anew.
\<close>

definition mpi_sums :: "('n \<Rightarrow> double list \<Rightarrow> double) \<Rightarrow> bool" where
  "mpi_sums allred \<longleftrightarrow> (\<forall>n xs. xs \<noteq> [] \<longrightarrow> combined double_add (mset xs) (allred n xs))"

definition next_rank_reduced :: "('n \<Rightarrow> double list \<Rightarrow> double) \<Rightarrow> 'n pr_env \<Rightarrow> (nat \<Rightarrow> 'n pr_data) \<Rightarrow> 'n \<Rightarrow> double" where
  "next_rank_reduced allred E d n =
     (if g_delegate (pr_graph E) n then allred n (map (\<lambda>r. next_rank (d r) n) [0..<g_size (pr_graph E)]) else next_rank (d (g_home (pr_graph E) n)) n)"

subsection \<open>A delivering traversal\<close>

text \<open>What vertex \<open>u\<close> sends along each of its edges, from the rank that stores the edge.\<close>

definition pr_share :: "'n pr_env \<Rightarrow> (nat \<Rightarrow> 'n \<Rightarrow> double) \<Rightarrow> nat \<Rightarrow> 'n \<Rightarrow> double" where
  "pr_share E c r u = double_div (c r u) (double_of_nat (pr_degree E u))"

definition pr_out :: "'n pr_env \<Rightarrow> (nat \<Rightarrow> 'n \<Rightarrow> double) \<Rightarrow> nat \<Rightarrow> 'n pr_visitor \<Rightarrow> 'n pr_visitor list" where
  "pr_out E c r v = map (\<lambda>neighbor. \<lparr>pr_vertex = neighbor, pr_rank = pr_share E c r (pr_vertex v)\<rparr>) (g_edges (pr_graph E) r (pr_vertex v))"

definition pr_deliver :: "nat \<Rightarrow> 'n pr_visitor \<Rightarrow> 'n pr_data \<Rightarrow> 'n pr_data" where
  "pr_deliver r v d = fst (pr_pre_visit r v d)"

definition pr_fits :: "(nat \<Rightarrow> 'n \<Rightarrow> double) \<Rightarrow> nat \<Rightarrow> 'n pr_data \<Rightarrow> bool" where
  "pr_fits c r d \<longleftrightarrow> cur_rank d = c r"

definition pr_checked :: "'n pr_env \<Rightarrow> 'n set \<Rightarrow> nat \<Rightarrow> 'n pr_env" where
  "pr_checked E verts D = E\<lparr>pr_graph := checked (pr_graph E) verts D\<rparr>"

lemma pr_checked_eq: "wf_graph (pr_graph E) verts D \<Longrightarrow> pr_checked E verts D = E"
  by (simp add: pr_checked_def)

lemma pr_traversal_sel [simp]:
  "t_size (pr_traversal E) = g_size (pr_graph E)" "t_delegate (pr_traversal E) = g_delegate (pr_graph E)"
  "t_home (pr_traversal E) = g_home (pr_graph E)" "t_vertex (pr_traversal E) = pr_vertex"
  "t_pre_visit (pr_traversal E) = pr_pre_visit" "t_visit (pr_traversal E) = pr_visit E" "t_init_visit (pr_traversal E) = pr_visit E"
  by (simp_all add: pr_traversal_def pr_init_visit_def fun_eq_iff)

lemma pr_laws:
  assumes "wf_graph (pr_graph E) verts D"
  shows "delivering_all (pr_traversal E) (\<lambda>_ _. True) pr_deliver (pr_out E c) (pr_out E c) (\<lambda>_ _. True) (\<lambda>_. True) (pr_fits c) D"
  by unfold_locales
    (use assms in \<open>auto simp: pr_deliver_def pr_pre_visit_def pr_visit_def pr_out_def pr_share_def pr_fits_def Let_def wf_graph_def\<close>)

interpretation pr: delivering_all "pr_traversal (pr_checked E verts D)" "\<lambda>_ _. True" pr_deliver "pr_out (pr_checked E verts D) c" "pr_out (pr_checked E verts D) c"
    "\<lambda>_ _. True" "\<lambda>_. True" "pr_fits c" D
  for E verts D c
  by (rule pr_laws [where verts = "checked_verts (pr_graph E) verts D"]) (simp add: pr_checked_def wf_checked)

subsection \<open>What arrives\<close>

text \<open>What is added for vertex \<open>n\<close>: what its copies start with, and along every stored edge the share of its source.\<close>

definition pr_inflow :: "'n pr_env \<Rightarrow> 'n set \<Rightarrow> (nat \<Rightarrow> 'n \<Rightarrow> double) \<Rightarrow> 'n \<Rightarrow> double multiset" where
  "pr_inflow E verts c n = (\<Sum>u \<in> verts. \<Sum>r \<in> holders (pr_graph E) u. replicate_mset (count_list (g_edges (pr_graph E) r u) n) (pr_share E c r u))"

definition pr_copies :: "'n pr_env \<Rightarrow> (nat \<Rightarrow> 'n pr_data) \<Rightarrow> 'n \<Rightarrow> double multiset" where
  "pr_copies E d n = (if g_delegate (pr_graph E) n then mset (map (\<lambda>r. next_rank (d r) n) [0..<g_size (pr_graph E)]) else {#next_rank (d (g_home (pr_graph E) n)) n#})"

definition pr_no_sentinel :: "'n pr_env \<Rightarrow> 'n set \<Rightarrow> (nat \<Rightarrow> 'n \<Rightarrow> double) \<Rightarrow> bool" where
  "pr_no_sentinel E verts c \<longleftrightarrow> (\<forall>u \<in> verts. \<forall>r \<in> holders (pr_graph E) u. g_edges (pr_graph E) r u \<noteq> [] \<longrightarrow> pr_share E c r u \<noteq> no_rank)"

definition sent_to :: "'n \<Rightarrow> 'n pr_visitor \<Rightarrow> double multiset" where
  "sent_to n v = (if pr_vertex v = n then {#pr_rank v#} else {#})"

lemma fold_deliver:
  assumes "\<And>v. v \<in> set xs \<Longrightarrow> pr_rank v \<noteq> no_rank"
  shows "next_rank (fold (pr_deliver r) xs d) n = foldl double_add (next_rank d n) (map pr_rank (filter (\<lambda>v. pr_vertex v = n) xs))"
    "pr_threw (fold (pr_deliver r) xs d) = pr_threw d"
proof -
  have "next_rank (fold (pr_deliver r) xs d) n = foldl double_add (next_rank d n) (map pr_rank (filter (\<lambda>v. pr_vertex v = n) xs))
      \<and> pr_threw (fold (pr_deliver r) xs d) = pr_threw d"
    using assms by (induction xs arbitrary: d) (auto simp: pr_deliver_def pr_pre_visit_def)
  then show "next_rank (fold (pr_deliver r) xs d) n = foldl double_add (next_rank d n) (map pr_rank (filter (\<lambda>v. pr_vertex v = n) xs))"
    "pr_threw (fold (pr_deliver r) xs d) = pr_threw d" by simp_all
qed

lemma sent_filter: "mset (map pr_rank (filter (\<lambda>v. pr_vertex v = n) xs)) = sum_list (map (sent_to n) xs)"
  by (induction xs) (simp_all add: sent_to_def)

lemma out_sum: "sum_list (map (sent_to n) (pr_out E c r v)) = replicate_mset (count_list (g_edges (pr_graph E) r (pr_vertex v)) n) (pr_share E c r (pr_vertex v))"
proof -
  have "sum_list (map (sent_to n) (map (\<lambda>w. \<lparr>pr_vertex = w, pr_rank = x\<rparr>) ws)) = replicate_mset (count_list ws n) x" for ws and x :: double
    by (induction ws) (auto simp: sent_to_def)
  then show ?thesis by (simp add: pr_out_def)
qed

lemma arrival_rank:
  assumes wf: "wf_graph (pr_graph E) verts D" and placed: "starts_placed (pr_graph E) verts cs vs" and ok: "pr_no_sentinel E verts c"
    and v: "v \<in># pr.arrivals E verts D c (\<lambda>r. map pr_start_visitor (cs r)) (\<lambda>r. map pr_start_visitor (vs r)) q"
  shows "pr_rank v \<noteq> no_rank"
proof -
  note eq = pr_checked_eq [OF wf]
  let ?start = "\<lambda>vs r. map pr_start_visitor (vs r)"
  obtain x where x: "x \<in># pr.all_jobs E verts D c (?start cs) (?start vs)" "v = snd x" using v by (auto simp: pr.arrivals_def)
  show ?thesis
    unfolding x(2)
  proof (rule pr.all_jobs_all [OF x(1)])
    fix q r u v
    assume "q < t_size (pr_traversal (pr_checked E verts D))" "r < t_size (pr_traversal (pr_checked E verts D))" "u \<in> set (?start cs r) \<union> set (?start vs r)"
      "v \<in> set (pr_out (pr_checked E verts D) c r u) \<and> q = r \<or> v \<in> set (pr_out (pr_checked E verts D) c q u) \<and> t_delegate (pr_traversal (pr_checked E verts D)) (t_vertex (pr_traversal (pr_checked E verts D)) u)"
    then have "pr_vertex u \<in> verts" "q \<in> holders (pr_graph E) (pr_vertex u)" "v \<in> set (pr_out E c q u)"
      using placed unfolding eq by (auto simp: starts_placed_def holders_def pr_start_visitor_def)
    then show "pr_rank v \<noteq> no_rank" using ok by (fastforce simp: pr_out_def pr_no_sentinel_def)
  qed
qed

lemma all_sent:
  assumes wf: "wf_graph (pr_graph E) verts D" and placed: "starts_placed (pr_graph E) verts cs vs"
  shows "(\<Sum>x \<in># pr.all_jobs E verts D c (\<lambda>r. map pr_start_visitor (cs r)) (\<lambda>r. map pr_start_visitor (vs r)). sent_to n (snd x)) = pr_inflow E verts c n"
proof -
  let ?G = "pr_graph E" and ?F = "\<lambda>r u. replicate_mset (count_list (g_edges (pr_graph E) r u) n) (pr_share E c r u)"
  note eq = pr_checked_eq [OF wf]
  have fin: "finite verts" and home: "g_home ?G n < g_size ?G" for n using wf by (simp_all add: wf_graph_def)
  have "(\<Sum>x \<in># pr.all_jobs E verts D c (\<lambda>r. map pr_start_visitor (cs r)) (\<lambda>r. map pr_start_visitor (vs r)). sent_to n (snd x))
      = (\<Sum>r < g_size ?G. \<Sum>u \<leftarrow> cs r @ vs r. ?F r u + (if g_delegate ?G u \<and> g_home ?G u = r then \<Sum>q \<in> {..<g_size ?G} - {r}. ?F q u else 0))"
    unfolding pr.all_jobs_sum pr.broadcasts_def unfolding eq by (simp add: out_sum pr_start_visitor_def o_def cong: if_cong)
  also have "\<dots> = (\<Sum>u \<in> verts. \<Sum>r \<in> holders ?G u. ?F r u)" by (rule placed_sum [OF placed fin home])
  finally show ?thesis by (simp add: pr_inflow_def)
qed

lemma summed_at_rank:
  assumes wf: "wf_graph (pr_graph E) verts D" and placed: "starts_placed (pr_graph E) verts cs vs"
    and c: "c = (\<lambda>r. if initial then (\<lambda>_. initial_rank E) else cur_rank (d r))" and ok: "pr_no_sentinel E verts c"
    and g: "vq_reach (pr_traversal E) (page_rank E initial cs vs d) g" "all_finished (g_size (pr_graph E)) g" and r: "r < g_size (pr_graph E)"
  shows "combined double_add ({#next_rank (d r) n#}
      + (\<Sum>v \<in># pr.arrivals E verts D c (\<lambda>r. map pr_start_visitor (cs r)) (\<lambda>r. map pr_start_visitor (vs r)) r. sent_to n v)) (next_rank (alg_data (fst g r)) n)"
    "pr_threw (alg_data (fst g r)) = pr_threw (d r)"
proof -
  let ?cs = "\<lambda>r. map pr_start_visitor (cs r)" and ?vs = "\<lambda>r. map pr_start_visitor (vs r)"
  let ?d0 = "\<lambda>r. if initial then (d r)\<lparr>cur_rank := (\<lambda>_. initial_rank E)\<rparr> else d r"
  note eq = pr_checked_eq [OF wf]
  have starts: "pr.startable E verts D c ?cs ?vs ?d0" using c by (simp add: pr.startable_def pr_fits_def)
  obtain xs where xs: "mset xs = pr.arrivals E verts D c ?cs ?vs r" "alg_data (fst g r) = fold (pr_deliver r) xs (?d0 r)"
    using pr.finished_deliveries [OF _ _ starts, of g r] g r unfolding eq page_rank_def by auto
  have "pr_rank v \<noteq> no_rank" if "v \<in> set xs" for v
    using arrival_rank [OF wf placed ok, of v r] that xs(1) by (metis set_mset_mset)
  note f = fold_deliver [OF this, of xs r "?d0 r"]
  have d0: "next_rank (?d0 r) = next_rank (d r)" "pr_threw (?d0 r) = pr_threw (d r)" by simp_all
  have "(\<Sum>v \<in># mset xs. sent_to n v) = mset (map pr_rank (filter (\<lambda>v. pr_vertex v = n) xs))"
    unfolding sent_filter by (metis mset_map sum_mset_sum_list)
  then show "combined double_add ({#next_rank (d r) n#} + (\<Sum>v \<in># pr.arrivals E verts D c ?cs ?vs r. sent_to n v)) (next_rank (alg_data (fst g r)) n)"
    using combined_fold [OF combined_one, of double_add "next_rank (d r) n"] f(1) d0 xs by metis
  show "pr_threw (alg_data (fst g r)) = pr_threw (d r)" using f(2) xs(2) d0 by simp
qed

lemma summed:
  assumes wf: "wf_graph (pr_graph E) verts D" and placed: "starts_placed (pr_graph E) verts cs vs"
    and c: "c = (\<lambda>r. if initial then (\<lambda>_. initial_rank E) else cur_rank (d r))" and ok: "pr_no_sentinel E verts c" and mpi: "mpi_sums allred"
    and g: "vq_reach (pr_traversal E) (page_rank E initial cs vs d) g" "all_finished (g_size (pr_graph E)) g"
  shows "combined double_add (pr_copies E d n + pr_inflow E verts c n) (next_rank_reduced allred E (\<lambda>r. alg_data (fst g r)) n)"
proof -
  let ?cs = "\<lambda>r. map pr_start_visitor (cs r)" and ?vs = "\<lambda>r. map pr_start_visitor (vs r)" and ?P = "g_size (pr_graph E)"
  let ?new = "\<lambda>r. next_rank (alg_data (fst g r)) n"
  let ?A = "\<lambda>r. \<Sum>v \<in># pr.arrivals E verts D c ?cs ?vs r. sent_to n v"
  note eq = pr_checked_eq [OF wf]
  note at_rank = summed_at_rank(1) [OF wf placed c ok g, where n = n]
  have h: "g_home (pr_graph E) n < ?P" using wf by (simp add: wf_graph_def)
  show ?thesis
  proof (cases "g_delegate (pr_graph E) n")
    case True
    have "combined double_add (mset (map ?new [0..<?P])) (allred n (map ?new [0..<?P]))"
    proof -
      have "map ?new [0..<?P] \<noteq> []" using h by simp
      then show ?thesis using mpi unfolding mpi_sums_def by blast
    qed
    then have "combined double_add (image_mset ?new (mset [0..<?P])) (allred n (map ?new [0..<?P]))" unfolding mset_map .
    then have "combined double_add (\<Sum>r \<in># mset [0..<?P]. {#next_rank (d r) n#} + ?A r) (allred n (map ?new [0..<?P]))"
      by (rule combined_parts) (use at_rank in simp)
    also have "(\<Sum>r \<in># mset [0..<?P]. {#next_rank (d r) n#} + ?A r) = (\<Sum>r \<in># mset [0..<?P]. {#next_rank (d r) n#}) + (\<Sum>r \<in># mset [0..<?P]. ?A r)"
      by (rule sum_mset.distrib)
    also have "(\<Sum>r \<in># mset [0..<?P]. ?A r) = (\<Sum>r < ?P. ?A r)" by (simp add: sum_unfold_sum_mset lessThan_atLeast0)
    also have "(\<Sum>r \<in># mset [0..<?P]. {#next_rank (d r) n#}) = pr_copies E d n"
      using True by (simp add: pr_copies_def del: mset_upt)
    also have "(\<Sum>r < ?P. ?A r) = pr_inflow E verts c n"
      using pr.arrivals_sum_all [where f = "\<lambda>_. sent_to n" and E = E and verts = verts and D = D and c = c and cs = ?cs and vs = ?vs] all_sent [OF wf placed, where c = c and n = n]
      by (simp add: eq)
    finally show ?thesis using True by (simp add: next_rank_reduced_def)
  next
    case False
    have "?A (g_home (pr_graph E) n) = pr_inflow E verts c n"
      using pr.arrivals_sum_home [where n = n and f = "sent_to n" and E = E and verts = verts and D = D and c = c and cs = ?cs and vs = ?vs] all_sent [OF wf placed, where c = c and n = n] False
      by (simp add: eq sent_to_def split: if_splits)
    then show ?thesis using False at_rank [OF h] by (simp add: next_rank_reduced_def pr_copies_def)
  qed
qed

lemma ends:
  assumes "wf_graph (pr_graph E) verts D" "c = (\<lambda>r. if initial then (\<lambda>_. initial_rank E) else cur_rank (d r))"
  shows "always_finishes (pr_traversal E) (page_rank E initial cs vs d)"
proof -
  let ?cs = "\<lambda>r. map pr_start_visitor (cs r)" and ?vs = "\<lambda>r. map pr_start_visitor (vs r)"
  have "pr.startable E verts D c ?cs ?vs (\<lambda>r. if initial then (d r)\<lparr>cur_rank := (\<lambda>_. initial_rank E)\<rparr> else d r)"
    using assms(2) by (simp add: pr.startable_def pr_fits_def)
  from pr.always_ends [OF this] show ?thesis unfolding pr_checked_eq [OF assms(1)] page_rank_def .
qed

subsection \<open>Properties\<close>

text \<open>
  C11. One step of page rank.  Every run ends, on every schedule, and then the next rank of every vertex, after the reduction over the copies
  of a delegate, is the sum in double arithmetic, in an order and bracketing that depends on the schedule and on MPI, of exactly these
  values: what the copies started with, and for each stored edge to the vertex, once, the current rank of its source divided by its
  degree.  No rank throws, if no rank to be sent happens to be the value that marks a missing rank.
\<close>

theorem page_rank_sums:
  assumes "wf_graph (pr_graph E) verts D" "starts_placed (pr_graph E) verts cs vs"
    "c = (\<lambda>r. if initial then (\<lambda>_. initial_rank E) else cur_rank (d r))" "pr_no_sentinel E verts c" "mpi_sums allred"
  shows "always_finishes (pr_traversal E) (page_rank E initial cs vs d) \<and>
    (\<forall>g. vq_reach (pr_traversal E) (page_rank E initial cs vs d) g \<and> all_finished (g_size (pr_graph E)) g \<longrightarrow>
      (\<forall>n. combined double_add (pr_copies E d n + pr_inflow E verts c n) (next_rank_reduced allred E (\<lambda>r. alg_data (fst g r)) n))
      \<and> (\<forall>r < g_size (pr_graph E). pr_threw (alg_data (fst g r)) = pr_threw (d r)))"
  using ends [OF assms(1, 3)] summed [OF assms] summed_at_rank(2) [OF assms(1-4)] by blast

definition demo_env :: "nat pr_env" where
  "demo_env = \<lparr>pr_graph = hub_graph, pr_degree = (\<lambda>n. if n < 2 then 1 else 0), pr_max_vertex = 2\<rparr>"

definition demo_data :: "nat \<Rightarrow> nat pr_data" where
  "demo_data = (\<lambda>_. \<lparr>cur_rank = (\<lambda>_. Finite 0), next_rank = (\<lambda>_. Finite 0), pr_threw = False\<rparr>)"

definition demo_share :: "nat \<Rightarrow> nat \<Rightarrow> double" where
  "demo_share = (\<lambda>_ _. Finite (1 / 2))"

definition left_sum :: "nat \<Rightarrow> double list \<Rightarrow> double" where
  "left_sum = (\<lambda>_ xs. foldl double_add (hd xs) (tl xs))"

lemma left_sum_ok: "mpi_sums left_sum"
proof -
  have "combined double_add (mset xs) (left_sum n xs)" if "xs \<noteq> []" for n xs
    using that combined_fold [OF combined_one, of double_add "hd xs" "tl xs"] by (cases xs) (simp_all add: left_sum_def)
  then show ?thesis by (simp add: mpi_sums_def)
qed

lemma demo_doubles:
  "double_of_nat 1 = Finite 1" "double_of_nat 2 = Finite 2" "double_div (Finite 1) (Finite 2) = Finite (1 / 2)"
  "double_div (Finite (1 / 2)) (Finite 1) = Finite (1 / 2)" "on_grid (1 / 2)" "double_of_nat (Suc 0) = Finite 1" "round_double (1 / 2) = Finite (1 / 2)"
proof -
  have half: "(1 / 2 :: rat) = of_int 1 * 2 powi (- 1)" by simp
  have e: "least_place \<le> - 1" "least_place \<le> 0" by (simp_all add: least_place_def)
  have r: "round_double 1 = Finite 1" "round_double 2 = Finite 2" "round_double (1 / 2) = Finite (1 / 2)"
    using round_exact [of 1 1 0] round_exact [of 2 2 0] round_exact [OF half _ e(1)] e(2) by simp_all
  show "double_of_nat 1 = Finite 1" "double_of_nat 2 = Finite 2" "double_div (Finite 1) (Finite 2) = Finite (1 / 2)"
    "double_div (Finite (1 / 2)) (Finite 1) = Finite (1 / 2)" "double_of_nat (Suc 0) = Finite 1" "round_double (1 / 2) = Finite (1 / 2)" by (simp_all add: double_of_nat_def r)
  show "on_grid (1 / 2)" by (rule round_grid [OF r(3)])
qed

lemma demo_shares: "u < 2 \<Longrightarrow> pr_share demo_env demo_share r u = Finite (1 / 2)"
  by (simp add: pr_share_def demo_env_def demo_share_def demo_doubles)

lemma demo_hypotheses:
  "wf_graph (pr_graph demo_env) {0, 1, 2} 1"
  "starts_placed (pr_graph demo_env) {0, 1, 2} (\<lambda>r. if r = 0 then [0] else []) (\<lambda>r. if r = 0 then [2] else [1])"
  "demo_share = (\<lambda>r. if True then (\<lambda>_. initial_rank demo_env) else cur_rank (demo_data r))"
  "pr_no_sentinel demo_env {0, 1, 2} demo_share"
  "pr_copies demo_env demo_data 1 + pr_inflow demo_env {0, 1, 2} demo_share 1 = {#Finite 0, Finite (1 / 2)#}"
proof -
  have holders: "holders hub_graph 0 = {0, 1}" "holders hub_graph 1 = {1}" "holders hub_graph 2 = {0}"
    by (auto simp: holders_def less_2_cases_iff)
  show "wf_graph (pr_graph demo_env) {0, 1, 2} 1" using wf_hub by (simp add: demo_env_def)
  show "starts_placed (pr_graph demo_env) {0, 1, 2} (\<lambda>r. if r = 0 then [0] else []) (\<lambda>r. if r = 0 then [2] else [1])"
    by (auto simp: starts_placed_def demo_env_def less_2_cases_iff)
  show "demo_share = (\<lambda>r. if True then (\<lambda>_. initial_rank demo_env) else cur_rank (demo_data r))"
    by (simp add: demo_share_def initial_rank_def demo_env_def demo_doubles)
  have "(2 :: rat) powi (- 1022) < 2 powi (- 1)" by (rule power_int_strict_increasing) simp_all
  then have "Finite (1 / 2) \<noteq> no_rank" by (auto simp: no_rank_def double_min_def)
  then show "pr_no_sentinel demo_env {0, 1, 2} demo_share"
    using demo_shares [of 0] demo_shares [of 1] by (simp add: pr_no_sentinel_def) (simp add: demo_env_def)
  show "pr_copies demo_env demo_data 1 + pr_inflow demo_env {0, 1, 2} demo_share 1 = {#Finite 0, Finite (1 / 2)#}"
    using demo_shares by (simp add: pr_copies_def pr_inflow_def) (simp add: demo_env_def demo_data_def holders)
qed

lemma page_rank_sums_witness:
  "\<exists>g. vq_reach (pr_traversal demo_env) (page_rank demo_env True (\<lambda>r. if r = 0 then [0] else []) (\<lambda>r. if r = 0 then [2] else [1]) demo_data) g
     \<and> all_finished (g_size (pr_graph demo_env)) g \<and> \<not> pr_threw (alg_data (fst g 0))
     \<and> next_rank_reduced left_sum demo_env (\<lambda>r. alg_data (fst g r)) 1 = Finite (1 / 2)"
proof -
  note result = page_rank_sums [OF demo_hypotheses(1-4) left_sum_ok]
  obtain g where g: "vq_reach (pr_traversal demo_env) (page_rank demo_env True (\<lambda>r. if r = 0 then [0] else []) (\<lambda>r. if r = 0 then [2] else [1]) demo_data) g"
    "all_finished (g_size (pr_graph demo_env)) g"
    using conjunct1 [OF result] unfolding always_finishes_def pr_traversal_sel by blast
  note r = conjunct2 [OF result, rule_format, OF conjI [OF g]]
  have "combined double_add {#Finite 0, Finite (1 / 2)#} (next_rank_reduced left_sum demo_env (\<lambda>r. alg_data (fst g r)) 1)"
    using r demo_hypotheses(5) by metis
  then have "next_rank_reduced left_sum demo_env (\<lambda>r. alg_data (fst g r)) 1 = Finite (1 / 2)"
    using demo_doubles(3) by (auto dest!: combined_of_two)
  then show ?thesis using r g by (intro exI [of _ g]) (simp add: demo_env_def demo_data_def)
qed

text \<open>
  C12. The error of a step.  If the values that are added for a vertex are finite and not negative and the result is finite, then, in whatever
  order the messages arrived and MPI reduced, it differs from the exact sum of the \<open>k\<close> values by at most the factor
  \<open>(1 + 2 ^ -53) ^ (k - 1) - 1\<close>.
\<close>

theorem page_rank_error_bounded:
  assumes "wf_graph (pr_graph E) verts D" "starts_placed (pr_graph E) verts cs vs"
    "c = (\<lambda>r. if initial then (\<lambda>_. initial_rank E) else cur_rank (d r))" "pr_no_sentinel E verts c" "mpi_sums allred"
    and run: "vq_reach (pr_traversal E) (page_rank E initial cs vs d) g" "all_finished (g_size (pr_graph E)) g"
    and M: "M = pr_copies E d n + pr_inflow E verts c n" "\<forall>x \<in># M. nonneg_double x"
    and v: "next_rank_reduced allred E (\<lambda>r. alg_data (fst g r)) n = Finite v"
  shows "\<bar>v - (\<Sum>x \<in># M. rat_of x)\<bar> \<le> rounding_bound (size M) * (\<Sum>x \<in># M. rat_of x)"
  using combined_near [of M v] summed [OF assms(1-5) run, of n] M v by simp

lemma page_rank_error_bounded_witness:
  "\<exists>g v. vq_reach (pr_traversal demo_env) (page_rank demo_env True (\<lambda>r. if r = 0 then [0] else []) (\<lambda>r. if r = 0 then [2] else [1]) demo_data) g
     \<and> next_rank_reduced left_sum demo_env (\<lambda>r. alg_data (fst g r)) 1 = Finite v \<and> \<bar>v - 1 / 2\<bar> \<le> 1 / 2 ^ 54"
proof -
  let ?G = "pr_traversal demo_env" and ?g0 = "page_rank demo_env True (\<lambda>r. if r = 0 then [0] else []) (\<lambda>r. if r = 0 then [2] else [1]) demo_data"
  have "always_finishes ?G ?g0" by (rule ends [OF demo_hypotheses(1, 3)])
  then obtain g where g: "vq_reach ?G ?g0 g" "all_finished (g_size (pr_graph demo_env)) g"
    unfolding always_finishes_def pr_traversal_sel by blast
  have M: "{#Finite 0, Finite (1 / 2)#} = pr_copies demo_env demo_data 1 + pr_inflow demo_env {0, 1, 2} demo_share 1" using demo_hypotheses(5) by simp
  have "combined double_add {#Finite 0, Finite (1 / 2)#} (next_rank_reduced left_sum demo_env (\<lambda>r. alg_data (fst g r)) 1)"
    using summed [OF demo_hypotheses(1-4) left_sum_ok g, of 1] unfolding M .
  then have v: "next_rank_reduced left_sum demo_env (\<lambda>r. alg_data (fst g r)) 1 = Finite (1 / 2)"
    using demo_doubles(3) by (auto dest!: combined_of_two)
  have "\<forall>x \<in># {#Finite 0, Finite (1 / 2)#}. nonneg_double x"
    using demo_doubles(5) exI [of "\<lambda>x. Finite (1 / 2) = Finite x \<and> 0 \<le> x \<and> on_grid x" "1 / 2"] by (simp add: nonneg_double_def)
  note page_rank_error_bounded [OF demo_hypotheses(1-4) left_sum_ok g M this v]
  then have "\<bar>(1 / 2 :: rat) - 1 / 2\<bar> \<le> 1 / 2 ^ 54" by (simp add: rounding_bound_def rat_of_def)
  then show ?thesis using g v by blast
qed

end
