(* ===== verification/Ordered_Map.thy ===== *)
theory Ordered_Map
  imports Havoq_Prelude
begin

section \<open>Ordered maps\<close>

text \<open>\<open>std::map\<close> as the list of its entries in the order of the keys, with \<open>operator[]\<close>: an entry that is missing starts from the default.\<close>

fun map_modify :: "'k :: linorder \<Rightarrow> 'v \<Rightarrow> ('v \<Rightarrow> 'v) \<Rightarrow> ('k \<times> 'v) list \<Rightarrow> ('k \<times> 'v) list" where
  "map_modify k dflt f [] = [(k, f dflt)]"
| "map_modify k dflt f ((k', v) # m) =
     (if k = k' then (k', f v) # m else if k < k' then (k, f dflt) # (k', v) # m else (k', v) # map_modify k dflt f m)"

definition strict_keys :: "('k :: linorder \<times> 'v) list \<Rightarrow> bool" where
  "strict_keys m \<longleftrightarrow> sorted_wrt (<) (map fst m)"

definition lookup_default :: "'v \<Rightarrow> ('k \<times> 'v) list \<Rightarrow> 'k \<Rightarrow> 'v" where
  "lookup_default d m k = (case map_of m k of None \<Rightarrow> d | Some v \<Rightarrow> v)"

lemma set_keys_map_modify: "fst ` set (map_modify k d f m) = insert k (fst ` set m)"
  by (induction k d f m rule: map_modify.induct) auto

lemma strict_keys_map_modify: "strict_keys m \<Longrightarrow> strict_keys (map_modify k d f m)"
  by (induction k d f m rule: map_modify.induct) (auto simp: strict_keys_def set_keys_map_modify)

lemma map_of_small_None: "strict_keys ((k', v) # m) \<Longrightarrow> k < k' \<Longrightarrow> map_of m k = None"
  by (force simp: strict_keys_def map_of_eq_None_iff)

lemma lookup_map_modify:
  "strict_keys m \<Longrightarrow> lookup_default d (map_modify k d f m) k' = (if k' = k then f (lookup_default d m k) else lookup_default d m k')"
proof (induction k d f m rule: map_modify.induct)
  case (1 k d f) then show ?case by (simp add: lookup_default_def)
next
  case (2 k d f k1 v m)
  have "strict_keys m" using 2(2) by (simp add: strict_keys_def)
  then show ?case using 2 map_of_small_None [OF 2(2), of k] by (auto simp: lookup_default_def)
qed

lemma length_map_modify: "length (map_modify k d f m) \<le> Suc (length m)"
  by (induction k d f m rule: map_modify.induct) auto

lemma lookup_Nil [simp]: "lookup_default d [] k = d"
  by (simp add: lookup_default_def)

lemma sum_lookup:
  assumes "strict_keys m" "f d = 0"
  shows "(\<Sum>(k', v)\<leftarrow>m. if k' = k then f v else 0) = (f (lookup_default d m k) :: nat)"
  using assms(1)
proof (induction m)
  case Nil then show ?case by (simp add: assms(2))
next
  case (Cons kv m)
  obtain k1 v where kv: "kv = (k1, v)" by force
  have "strict_keys m" using Cons.prems by (simp add: strict_keys_def)
  moreover have "map_of m k1 = None" using Cons.prems by (force simp: kv strict_keys_def map_of_eq_None_iff)
  ultimately show ?case using Cons.IH assms(2) by (auto simp: kv lookup_default_def)
qed

end
