(* ===== verification/Triangle_Count.thy ===== *)
theory Triangle_Count
  imports Ordered_Map Traversal_Delivery Visitor_Graph
begin

section \<open>Triangle counting (triangle\_count\_global.hpp)\<close>

text \<open>
  Two traversals.  In the first every vertex of degree at least two sends its degree along its edges, and a vertex keeps those of its
  neighbours that come after it in the order of degrees (ties broken by the locators).  In the second every vertex sends, for each pair of
  vertices it kept, the later one to the earlier one, which counts a triangle if it kept it too.  Vertices are of an ordered type, the order
  of their locators.
\<close>

text \<open>
  \<open>tc_degree\<close> is \<open>g.degree\<close>.  The visitors that start a traversal leave some fields unset: \<open>tc_no_vertex\<close> is the default-constructed
  locator and \<open>tc_no_degree\<close> what an uninitialised \<open>from_degree\<close> holds.
\<close>

record 'n tc_env =
  tc_graph :: "'n dgraph"
  tc_degree :: "'n \<Rightarrow> u64"
  tc_no_vertex :: 'n
  tc_no_degree :: u32

text \<open>\<open>std::map<vertex_locator, dod_graph_edge>\<close>; an edge is its \<open>target_degree\<close>.\<close>

type_synonym 'n dod_edges = "('n \<times> u32) list"

definition edge_order_gt :: "u32 \<Rightarrow> u32 \<Rightarrow> 'n :: linorder \<Rightarrow> 'n \<Rightarrow> bool" where
  "edge_order_gt deg_a deg_b v_a v_b =
     (if deg_b < deg_a then True else if deg_a < deg_b then False else v_b < v_a)"

subsection \<open>The directed edges\<close>

record 'n core2_visitor =
  c2_vertex :: 'n
  c2_from :: 'n
  c2_from_degree :: u32
  c2_init :: bool

definition core2_start_visitor :: "'n tc_env \<Rightarrow> 'n \<Rightarrow> 'n core2_visitor" where
  "core2_start_visitor E v = \<lparr>c2_vertex = v, c2_from = tc_no_vertex E, c2_from_degree = tc_no_degree E, c2_init = True\<rparr>"

definition core2_visitor_from :: "'n \<Rightarrow> 'n \<Rightarrow> u32 \<Rightarrow> 'n core2_visitor" where
  "core2_visitor_from v from from_degree = \<lparr>c2_vertex = v, c2_from = from, c2_from_degree = from_degree, c2_init = False\<rparr>"

definition core2_pre_visit ::
    "'n :: linorder tc_env \<Rightarrow> nat \<Rightarrow> 'n core2_visitor \<Rightarrow> ('n \<Rightarrow> 'n dod_edges) \<Rightarrow> ('n \<Rightarrow> 'n dod_edges) \<times> bool" where
  "core2_pre_visit E r v d =
     (if ucast (c2_from_degree v) < tc_degree E (c2_vertex v) then (d, False)
      else if g_delegate (tc_graph E) (c2_vertex v) \<and> g_home (tc_graph E) (c2_vertex v) \<noteq> r then (d, True)
      else if edge_order_gt (c2_from_degree v) (ucast (tc_degree E (c2_vertex v))) (c2_from v) (c2_vertex v)
           then (d(c2_vertex v := map_modify (c2_from v) 0 (\<lambda>_. c2_from_degree v) (d (c2_vertex v))), False)
           else (d, False))"

text \<open>The loop over the edges, the same in \<open>init_visit\<close> and \<open>visit\<close>: degrees are cut to 32 bits.\<close>

definition core2_sends :: "'n tc_env \<Rightarrow> nat \<Rightarrow> 'n \<Rightarrow> 'n core2_visitor list" where
  "core2_sends E r vertex =
     (let my_degree = ucast (tc_degree E vertex)
      in map (\<lambda>neighbor. core2_visitor_from neighbor vertex my_degree) (filter (\<lambda>neighbor. neighbor \<noteq> vertex) (g_edges (tc_graph E) r vertex)))"

definition core2_init_visit ::
    "'n tc_env \<Rightarrow> nat \<Rightarrow> 'n core2_visitor \<Rightarrow> ('n \<Rightarrow> 'n dod_edges) \<Rightarrow> ('n \<Rightarrow> 'n dod_edges) \<times> 'n core2_visitor list \<times> bool" where
  "core2_init_visit E r v d = (if 2 \<le> tc_degree E (c2_vertex v) then (d, core2_sends E r (c2_vertex v), True) else (d, [], False))"

definition core2_visit ::
    "'n tc_env \<Rightarrow> nat \<Rightarrow> 'n core2_visitor \<Rightarrow> ('n \<Rightarrow> 'n dod_edges) \<Rightarrow> ('n \<Rightarrow> 'n dod_edges) \<times> 'n core2_visitor list \<times> bool" where
  "core2_visit E r v d =
     (if c2_init v \<and> 2 \<le> tc_degree E (c2_vertex v) then (d, core2_sends E r (c2_vertex v), True) else (d, [], False))"

definition core2_traversal :: "'n :: linorder tc_env \<Rightarrow> ('n, 'n core2_visitor, 'n \<Rightarrow> 'n dod_edges) traversal" where
  "core2_traversal E = \<lparr>t_size = g_size (tc_graph E), t_vertex = c2_vertex, t_delegate = g_delegate (tc_graph E),
     t_home = g_home (tc_graph E), t_pre_visit = core2_pre_visit E, t_visit = core2_visit E, t_init_visit = core2_init_visit E\<rparr>"

definition core2_start ::
    "'n tc_env \<Rightarrow> (nat \<Rightarrow> 'n list) \<Rightarrow> (nat \<Rightarrow> 'n list) \<Rightarrow> (nat \<Rightarrow> ('n core2_visitor, 'n \<Rightarrow> 'n dod_edges) vq) \<times> 'n core2_visitor net" where
  "core2_start E cs vs =
     start_all (\<lambda>r. map (core2_start_visitor E) (cs r)) (\<lambda>r. map (core2_start_visitor E) (vs r)) (\<lambda>r. \<lambda>_. [])"

text \<open>The end of \<open>construct_dod_graph\<close>: the edges of the vertices and the controllers of a rank move to the graph and the sets.\<close>

record 'n dod =
  dod_graph :: "'n \<Rightarrow> 'n dod_edges"
  dod_set :: "'n \<Rightarrow> 'n set"

definition copy_edges :: "'n \<Rightarrow> 'n dod \<times> ('n \<Rightarrow> 'n dod_edges) \<Rightarrow> 'n dod \<times> ('n \<Rightarrow> 'n dod_edges)" where
  "copy_edges v s = (case s of (m, core2_directed) \<Rightarrow>
     (m\<lparr>dod_graph := (dod_graph m)(v := core2_directed v @ dod_graph m v), dod_set := (dod_set m)(v := dod_set m v \<union> set (map fst (core2_directed v)))\<rparr>,
      core2_directed(v := [])))"

definition new_dod :: "'n dod" where
  "new_dod = \<lparr>dod_graph = (\<lambda>_. []), dod_set = (\<lambda>_. {})\<rparr>"

definition copy_all :: "'n list \<Rightarrow> 'n list \<Rightarrow> ('n \<Rightarrow> 'n dod_edges) \<Rightarrow> 'n dod" where
  "copy_all cs vs core2_directed = fst (fold copy_edges cs (fold copy_edges vs (new_dod, core2_directed)))"

subsection \<open>The wedges\<close>

record 'n wedge_visitor =
  w_vertex :: 'n
  w_check_close :: 'n

text \<open>The data a rank writes: its two counts, and whether it has left through \<open>exit\<close>; the directed graph it only reads.\<close>

record wedge_data =
  local_triangle_count :: u64
  local_wedge_count :: u64
  wedge_exited :: bool

definition wedge_start_visitor :: "'n tc_env \<Rightarrow> 'n \<Rightarrow> 'n wedge_visitor" where
  "wedge_start_visitor E v = \<lparr>w_vertex = v, w_check_close = tc_no_vertex E\<rparr>"

definition wedge_pre_visit :: "'n tc_env \<Rightarrow> (nat \<Rightarrow> 'n dod) \<Rightarrow> nat \<Rightarrow> 'n wedge_visitor \<Rightarrow> wedge_data \<Rightarrow> wedge_data \<times> bool" where
  "wedge_pre_visit E m r v d =
     (if g_delegate (tc_graph E) (w_vertex v) \<and> g_home (tc_graph E) (w_vertex v) \<noteq> r then (d, True)
      else let d1 = d\<lparr>local_wedge_count := local_wedge_count d + 1\<rparr>
           in (if w_check_close v \<in> dod_set (m r) (w_vertex v) then d1\<lparr>local_triangle_count := local_triangle_count d1 + 1\<rparr> else d1, False))"

text \<open>The inner loop for one \<open>pair_a\<close>, and the outer loop; the inner one starts at \<open>pair_a\<close> itself.\<close>

definition wedge_of :: "'n :: linorder \<times> u32 \<Rightarrow> 'n \<times> u32 \<Rightarrow> 'n wedge_visitor list" where
  "wedge_of pair_a pair_b =
     (if fst pair_a = fst pair_b then []
      else if edge_order_gt (snd pair_b) (snd pair_a) (fst pair_b) (fst pair_a)
           then [\<lparr>w_vertex = fst pair_a, w_check_close = fst pair_b\<rparr>] else [\<lparr>w_vertex = fst pair_b, w_check_close = fst pair_a\<rparr>])"

fun wedges :: "('n :: linorder) dod_edges \<Rightarrow> 'n wedge_visitor list" where
  "wedges [] = []"
| "wedges (pair_a # pairs) = concat (map (wedge_of pair_a) (pair_a # pairs)) @ wedges pairs"

definition wedge_init_visit ::
    "(nat \<Rightarrow> ('n :: linorder) dod) \<Rightarrow> nat \<Rightarrow> 'n wedge_visitor \<Rightarrow> wedge_data \<Rightarrow> wedge_data \<times> 'n wedge_visitor list \<times> bool" where
  "wedge_init_visit m r v d = (d, if 1 < length (dod_graph (m r) (w_vertex v)) then wedges (dod_graph (m r) (w_vertex v)) else [], False)"

definition wedge_visit :: "nat \<Rightarrow> 'n wedge_visitor \<Rightarrow> wedge_data \<Rightarrow> wedge_data \<times> 'n wedge_visitor list \<times> bool" where
  "wedge_visit r v d = (d\<lparr>wedge_exited := True\<rparr>, [], False)"

definition wedge_traversal :: "('n :: linorder) tc_env \<Rightarrow> (nat \<Rightarrow> 'n dod) \<Rightarrow> ('n, 'n wedge_visitor, wedge_data) traversal" where
  "wedge_traversal E m = \<lparr>t_size = g_size (tc_graph E), t_vertex = w_vertex, t_delegate = g_delegate (tc_graph E),
     t_home = g_home (tc_graph E), t_pre_visit = wedge_pre_visit E m, t_visit = wedge_visit, t_init_visit = wedge_init_visit m\<rparr>"

definition no_counts :: wedge_data where
  "no_counts = \<lparr>local_triangle_count = 0, local_wedge_count = 0, wedge_exited = False\<rparr>"

definition wedge_start :: "'n tc_env \<Rightarrow> (nat \<Rightarrow> 'n list) \<Rightarrow> (nat \<Rightarrow> 'n list) \<Rightarrow> (nat \<Rightarrow> ('n wedge_visitor, wedge_data) vq) \<times> 'n wedge_visitor net" where
  "wedge_start E cs vs = start_all (\<lambda>r. map (wedge_start_visitor E) (cs r)) (\<lambda>r. map (wedge_start_visitor E) (vs r)) (\<lambda>_. no_counts)"

text \<open>\<open>count_all_triangles_from_scratch\<close> after its traversal: the sum over all ranks.\<close>

definition global_triangle_count :: "'n tc_env \<Rightarrow> (nat \<Rightarrow> wedge_data) \<Rightarrow> u64" where
  "global_triangle_count E d = (\<Sum>r < g_size (tc_graph E). local_triangle_count (d r))"

text \<open>\<open>triangle_count_global\<close> returns \<open>n\<close> on some schedule of the two traversals.\<close>

inductive triangle_count_global :: "('n :: linorder) tc_env \<Rightarrow> (nat \<Rightarrow> 'n list) \<Rightarrow> (nat \<Rightarrow> 'n list) \<Rightarrow> u64 \<Rightarrow> bool" for E cs vs where
  both_traversals: "vq_reach (core2_traversal E) (core2_start E cs vs) g \<Longrightarrow> all_finished (g_size (tc_graph E)) g \<Longrightarrow>
     m = (\<lambda>r. copy_all (cs r) (vs r) (alg_data (fst g r))) \<Longrightarrow>
     vq_reach (wedge_traversal E m) (wedge_start E cs vs) h \<Longrightarrow> all_finished (g_size (tc_graph E)) h \<Longrightarrow>
     triangle_count_global E cs vs (global_triangle_count E (\<lambda>r. alg_data (fst h r)))"

inductive_cases triangle_count_globalE: "triangle_count_global E cs vs n"

end
