(* ===== verification/Triangle_Wedges.thy ===== *)
theory Triangle_Wedges
  imports Triangle_Count
begin

section \<open>The order of degrees and the triangles\<close>

text \<open>
  The order in which a vertex keeps its later neighbours is total, so every triangle has one first, one middle and one last vertex: the
  pairs a vertex sends are counted through this.
\<close>

definition later :: "'n :: linorder tc_env \<Rightarrow> 'n \<Rightarrow> 'n \<Rightarrow> bool" where
  "later E w u \<longleftrightarrow> edge_order_gt (ucast (tc_degree E w)) (ucast (tc_degree E u)) w u"

lemma later_irrefl [simp]: "\<not> later E u u"
  by (simp add: later_def edge_order_gt_def)

lemma later_trans: "later E b a \<Longrightarrow> later E a u \<Longrightarrow> later E b u"
  by (auto simp: later_def edge_order_gt_def split: if_splits)

lemma later_total: "a \<noteq> b \<Longrightarrow> later E a b \<or> later E b a"
  by (auto simp: later_def edge_order_gt_def)

lemma later_asym: "later E a b \<Longrightarrow> \<not> later E b a"
  using later_trans [of E a b a] by auto

text \<open>The neighbours a vertex keeps.\<close>

definition kept :: "'n :: linorder tc_env \<Rightarrow> 'n \<Rightarrow> 'n set" where
  "kept E u = {w. has_edge (tc_graph E) w u \<and> later E w u \<and> 2 \<le> tc_degree E w}"

definition triangles :: "'n dgraph \<Rightarrow> 'n set \<Rightarrow> 'n set set" where
  "triangles G verts = {t. t \<subseteq> verts \<and> card t = 3 \<and> (\<forall>u \<in> t. \<forall>w \<in> t. u \<noteq> w \<longrightarrow> has_edge G u w)}"

subsection \<open>The wedges of one vertex\<close>

definition degrees_known :: "'n :: linorder tc_env \<Rightarrow> 'n dod_edges \<Rightarrow> bool" where
  "degrees_known E ps \<longleftrightarrow> (\<forall>p \<in> set ps. snd p = ucast (tc_degree E (fst p)))"

definition wedge_from :: "'n :: linorder tc_env \<Rightarrow> 'n \<Rightarrow> 'n \<Rightarrow> 'n wedge_visitor" where
  "wedge_from E a b = (if later E b a then \<lparr>w_vertex = a, w_check_close = b\<rparr> else \<lparr>w_vertex = b, w_check_close = a\<rparr>)"

lemma wedges_row:
  assumes "snd p = ucast (tc_degree E (fst p))" "degrees_known E ps" "fst p \<notin> fst ` set ps"
  shows "concat (map (wedge_of p) (p # ps)) = map (\<lambda>q. wedge_from E (fst p) (fst q)) ps"
proof -
  have "concat (map (wedge_of p) qs) = map (\<lambda>q. wedge_from E (fst p) (fst q)) qs" if "set qs \<subseteq> set ps" for qs
    using that
  proof (induction qs)
    case (Cons q qs)
    then have "fst p \<noteq> fst q" "snd q = ucast (tc_degree E (fst q))" using assms(2,3) by (auto simp: degrees_known_def)
    then show ?case using Cons assms(1) by (simp add: wedge_of_def wedge_from_def later_def)
  qed simp
  then show ?thesis by (simp add: wedge_of_def)
qed

lemma wedge_from_fields:
  "{w_vertex (wedge_from E a b), w_check_close (wedge_from E a b)} = {a, b}"
  by (auto simp: wedge_from_def)

lemma wedges_set:
  assumes "degrees_known E ps" "distinct (map fst ps)"
  shows "distinct (wedges ps)" "set (wedges ps) = {\<lparr>w_vertex = a, w_check_close = b\<rparr> | a b. a \<in> fst ` set ps \<and> b \<in> fst ` set ps \<and> later E b a}"
proof -
  have "distinct (wedges ps) \<and> set (wedges ps) = {\<lparr>w_vertex = a, w_check_close = b\<rparr> | a b. a \<in> fst ` set ps \<and> b \<in> fst ` set ps \<and> later E b a}"
    using assms
  proof (induction ps)
    case (Cons p ps)
    let ?row = "map (\<lambda>q. wedge_from E (fst p) (fst q)) ps"
    have ih: "distinct (wedges ps)" "set (wedges ps) = {\<lparr>w_vertex = a, w_check_close = b\<rparr> | a b. a \<in> fst ` set ps \<and> b \<in> fst ` set ps \<and> later E b a}"
      using Cons by (simp_all add: degrees_known_def)
    have row: "concat (map (wedge_of p) (p # ps)) = ?row" using Cons.prems by (intro wedges_row) (auto simp: degrees_known_def)
    have new: "fst p \<notin> fst ` set ps" "distinct (map fst ps)" using Cons.prems(2) by auto
    have "inj_on (wedge_from E (fst p)) (fst ` set ps)"
      using new(1) by (auto simp: inj_on_def wedge_from_def split: if_splits)
    then have "distinct (map (wedge_from E (fst p)) (map fst ps))" using new(2) by (simp only: distinct_map list.set_map)
    then have "distinct ?row" by (simp add: o_def)
    moreover have "set ?row \<inter> set (wedges ps) = {}"
    proof -
      have "fst p \<in> {w_vertex v, w_check_close v}" if "v \<in> set ?row" for v using that wedge_from_fields [of E "fst p"] by auto
      moreover have "{w_vertex v, w_check_close v} \<subseteq> fst ` set ps" if "v \<in> set (wedges ps)" for v using that unfolding ih(2) by force
      ultimately show ?thesis using new(1) by blast
    qed
    ultimately have "distinct (wedges (p # ps))" using ih(1) by (simp only: wedges.simps row distinct_append)
    moreover have "set (wedges (p # ps)) = {\<lparr>w_vertex = a, w_check_close = b\<rparr> | a b. a \<in> fst ` set (p # ps) \<and> b \<in> fst ` set (p # ps) \<and> later E b a}"
    proof -
      have "set ?row = {\<lparr>w_vertex = a, w_check_close = b\<rparr> | a b. (a = fst p \<and> b \<in> fst ` set ps \<or> b = fst p \<and> a \<in> fst ` set ps) \<and> later E b a}"
      proof (intro set_eqI iffI)
        fix v assume "v \<in> set ?row"
        then obtain b where "b \<in> fst ` set ps" "v = wedge_from E (fst p) b" by auto
        then show "v \<in> {\<lparr>w_vertex = a, w_check_close = b\<rparr> | a b. (a = fst p \<and> b \<in> fst ` set ps \<or> b = fst p \<and> a \<in> fst ` set ps) \<and> later E b a}"
          using new(1) later_total [of "fst p" b E] by (auto simp: wedge_from_def split: if_splits)
      next
        fix v assume "v \<in> {\<lparr>w_vertex = a, w_check_close = b\<rparr> | a b. (a = fst p \<and> b \<in> fst ` set ps \<or> b = fst p \<and> a \<in> fst ` set ps) \<and> later E b a}"
        then consider b where "b \<in> fst ` set ps" "v = \<lparr>w_vertex = fst p, w_check_close = b\<rparr>" "later E b (fst p)"
          | a where "a \<in> fst ` set ps" "v = \<lparr>w_vertex = a, w_check_close = fst p\<rparr>" "later E (fst p) a" by blast
        then have "\<exists>b \<in> fst ` set ps. v = wedge_from E (fst p) b" using later_asym [of E] by cases (auto simp: wedge_from_def)
        then show "v \<in> set ?row" by auto
      qed
      moreover have "fst ` set (p # ps) = insert (fst p) (fst ` set ps)" by simp
      ultimately show ?thesis
        unfolding wedges.simps row set_append ih(2) by (simp only:) (use later_irrefl [of E "fst p"] in blast)
    qed
    ultimately show ?case by blast
  qed (simp add: degrees_known_def)
  then show "distinct (wedges ps)" "set (wedges ps) = {\<lparr>w_vertex = a, w_check_close = b\<rparr> | a b. a \<in> fst ` set ps \<and> b \<in> fst ` set ps \<and> later E b a}" by simp_all
qed

definition closed_pairs :: "'n :: linorder tc_env \<Rightarrow> 'n \<Rightarrow> ('n \<times> 'n) set" where
  "closed_pairs E u = {(a, b). a \<in> kept E u \<and> b \<in> kept E u \<and> b \<in> kept E a}"

lemma closed_wedges:
  fixes E :: "'n :: linorder tc_env"
  assumes "degrees_known E ps" "distinct (map fst ps)" "fst ` set ps = kept E u"
  shows "length (filter (\<lambda>v. w_check_close v \<in> kept E (w_vertex v)) (wedges ps)) = card (closed_pairs E u)"
proof -
  let ?f = "\<lambda>v :: 'n wedge_visitor. (w_vertex v, w_check_close v)" and ?ws = "filter (\<lambda>v. w_check_close v \<in> kept E (w_vertex v)) (wedges ps)"
  note w = wedges_set [OF assms(1,2)]
  have "v = v'" if "?f v = ?f v'" for v v' using that by (cases v; cases v') simp
  then have "inj ?f" by (intro injI) blast
  then have "card (?f ` set ?ws) = card (set ?ws)" using card_image inj_on_subset by blast
  moreover have "?f ` set ?ws = closed_pairs E u"
    unfolding set_filter w(2) assms(3) closed_pairs_def by (force simp: kept_def)
  ultimately show ?thesis using w(1) distinct_card [of ?ws] by simp
qed

subsection \<open>Every triangle once\<close>

definition undirected :: "'n dgraph \<Rightarrow> bool" where
  "undirected G \<longleftrightarrow> (\<forall>u w. has_edge G u w \<longrightarrow> has_edge G w u)"

text \<open>The degree counts the stored edges, and fits into 32 bits.\<close>

definition degrees_count :: "'n tc_env \<Rightarrow> 'n set \<Rightarrow> bool" where
  "degrees_count E verts \<longleftrightarrow> (\<forall>u \<in> verts. unat (tc_degree E u) = (\<Sum>r \<in> holders (tc_graph E) u. length (g_edges (tc_graph E) r u)) \<and> unat (tc_degree E u) < 2 ^ 32)"

lemma two_neighbours:
  assumes "degrees_count E verts" "u \<in> verts" "has_edge (tc_graph E) u a" "has_edge (tc_graph E) u b" "a \<noteq> b"
  shows "2 \<le> tc_degree E u"
proof -
  let ?H = "holders (tc_graph E) u" and ?e = "\<lambda>r. g_edges (tc_graph E) r u"
  have fin: "finite ?H" by (simp add: holders_def)
  have sub: "{a, b} \<subseteq> (\<Union>r \<in> ?H. set (?e r))" using assms(3,4) by (auto simp: has_edge_def holders_def)
  have "card {a, b} \<le> card (\<Union>r \<in> ?H. set (?e r))" by (rule card_mono [OF _ sub]) (simp add: fin)
  also have "\<dots> \<le> (\<Sum>r \<in> ?H. card (set (?e r)))" by (rule card_UN_le [OF fin])
  also have "\<dots> \<le> (\<Sum>r \<in> ?H. length (?e r))" by (intro sum_mono card_length)
  also have "\<dots> = unat (tc_degree E u)" using assms(1,2) by (simp add: degrees_count_def)
  finally show ?thesis using assms(5) by (simp add: word_le_nat_alt)
qed

lemma three_in_order:
  assumes "card t = 3"
  obtains u a b where "t = {u, a, b}" "later E a u" "later E b u" "later E b a"
proof -
  obtain x y z where t: "t = {x, y, z}" "x \<noteq> y" "y \<noteq> z" "x \<noteq> z" using assms by (auto simp: card_3_iff)
  have "\<exists>u a b. t = {u, a, b} \<and> later E a u \<and> later E b u \<and> later E b a"
    using later_total [OF t(2), of E] later_total [OF t(3), of E] later_total [OF t(4), of E] later_trans [of E] unfolding t(1) by (smt (verit, best) insert_commute)
  then show ?thesis using that by blast
qed

lemma triangles_once:
  assumes wf: "wf_graph (tc_graph E) verts D" and und: "undirected (tc_graph E)" and deg: "degrees_count E verts"
  shows "(\<Sum>u \<in> verts. card (closed_pairs E u)) = card (triangles (tc_graph E) verts)"
proof -
  let ?G = "tc_graph E" and ?S = "SIGMA u : verts. closed_pairs E u" and ?f = "\<lambda>(u, a, b). {u, a, b}"
  have target: "has_edge ?G u w \<Longrightarrow> w \<in> verts" for u w using wf by (auto simp: has_edge_def wf_graph_def)
  have keptV: "kept E u \<subseteq> verts" for u using und target by (auto simp: kept_def undirected_def)
  have fin: "finite verts" using wf by (simp add: wf_graph_def)
  have finc: "finite (closed_pairs E u)" for u
    by (rule finite_subset [of _ "verts \<times> verts"]) (use keptV fin in \<open>auto simp: closed_pairs_def\<close>)
  have inj: "inj_on ?f ?S"
    unfolding inj_on_def closed_pairs_def kept_def using later_asym [of E] later_irrefl [of E] by (auto simp: set_eq_iff) (metis+)
  have "?f ` ?S = triangles ?G verts"
  proof
    show "?f ` ?S \<subseteq> triangles ?G verts"
    proof
      fix t assume "t \<in> ?f ` ?S"
      then obtain u a b where t: "t = {u, a, b}" "u \<in> verts" "a \<in> kept E u" "b \<in> kept E u" "b \<in> kept E a" by (auto simp: closed_pairs_def)
      have d: "a \<noteq> u" "b \<noteq> u" "b \<noteq> a" using t(3-5) by (auto simp: kept_def)
      have "card t = 3" using d unfolding t(1) by simp
      moreover have "t \<subseteq> verts" using t keptV by auto
      moreover have "\<forall>x \<in> t. \<forall>y \<in> t. x \<noteq> y \<longrightarrow> has_edge ?G x y" using t(3-5) und unfolding t(1) by (auto simp: kept_def undirected_def)
      ultimately show "t \<in> triangles ?G verts" by (simp add: triangles_def)
    qed
    show "triangles ?G verts \<subseteq> ?f ` ?S"
    proof
      fix t assume t: "t \<in> triangles ?G verts"
      then obtain u a b where o: "t = {u, a, b}" "later E a u" "later E b u" "later E b a" using three_in_order [of t E] by (auto simp: triangles_def)
      have d: "a \<noteq> u" "b \<noteq> u" "b \<noteq> a" using o(2-4) by auto
      have v: "u \<in> verts" "a \<in> verts" "b \<in> verts" using t o(1) by (auto simp: triangles_def)
      have e: "has_edge ?G x y" if "x \<in> {u, a, b}" "y \<in> {u, a, b}" "x \<noteq> y" for x y using t that unfolding o(1) triangles_def by blast
      have "2 \<le> tc_degree E a" by (rule two_neighbours [OF deg v(2), of u b]) (use e d in auto)
      moreover have "2 \<le> tc_degree E b" by (rule two_neighbours [OF deg v(3), of u a]) (use e d in auto)
      ultimately have "(u, a, b) \<in> ?S" using v(1) o(2-4) e d by (auto simp: closed_pairs_def kept_def)
      then show "t \<in> ?f ` ?S" unfolding o(1) by (rule rev_image_eqI) simp
    qed
  qed
  then have "card (triangles ?G verts) = card ?S" using card_image [OF inj] by simp
  also have "\<dots> = (\<Sum>u \<in> verts. card (closed_pairs E u))" using fin finc by simp
  finally show ?thesis by simp
qed

end
