(* ===== verification/Triangle_Edges.thy ===== *)
theory Triangle_Edges
  imports Triangle_Wedges
begin

section \<open>The first traversal of triangle counting\<close>

text \<open>
  The traversal of \<open>directed_core2\<close> is a delivering one.  When it has ended, the home of every vertex holds exactly the neighbours the
  vertex keeps, with their degrees.
\<close>

definition core2_takes :: "'n :: linorder tc_env \<Rightarrow> nat \<Rightarrow> 'n core2_visitor \<Rightarrow> bool" where
  "core2_takes E r v \<longleftrightarrow> ucast (c2_from_degree v) < tc_degree E (c2_vertex v)
     \<or> \<not> (g_delegate (tc_graph E) (c2_vertex v) \<and> g_home (tc_graph E) (c2_vertex v) \<noteq> r)"

definition core2_accepts :: "'n :: linorder tc_env \<Rightarrow> 'n core2_visitor \<Rightarrow> bool" where
  "core2_accepts E v \<longleftrightarrow> \<not> ucast (c2_from_degree v) < tc_degree E (c2_vertex v)
     \<and> edge_order_gt (c2_from_degree v) (ucast (tc_degree E (c2_vertex v))) (c2_from v) (c2_vertex v)"

definition core2_deliver :: "'n :: linorder tc_env \<Rightarrow> nat \<Rightarrow> 'n core2_visitor \<Rightarrow> ('n \<Rightarrow> 'n dod_edges) \<Rightarrow> ('n \<Rightarrow> 'n dod_edges)" where
  "core2_deliver E r v d =
     (if core2_accepts E v then d(c2_vertex v := map_modify (c2_from v) 0 (\<lambda>_. c2_from_degree v) (d (c2_vertex v))) else d)"

definition core2_out :: "'n :: linorder tc_env \<Rightarrow> nat \<Rightarrow> 'n core2_visitor \<Rightarrow> 'n core2_visitor list" where
  "core2_out E r v = (if 2 \<le> tc_degree E (c2_vertex v) then core2_sends E r (c2_vertex v) else [])"

definition tc_checked :: "'n tc_env \<Rightarrow> 'n set \<Rightarrow> nat \<Rightarrow> 'n tc_env" where
  "tc_checked E verts D = E\<lparr>tc_graph := checked (tc_graph E) verts D\<rparr>"

lemma tc_checked_eq: "wf_graph (tc_graph E) verts D \<Longrightarrow> tc_checked E verts D = E"
  by (simp add: tc_checked_def)

lemma core2_traversal_sel [simp]:
  "t_size (core2_traversal E) = g_size (tc_graph E)" "t_delegate (core2_traversal E) = g_delegate (tc_graph E)"
  "t_home (core2_traversal E) = g_home (tc_graph E)" "t_vertex (core2_traversal E) = c2_vertex"
  "t_pre_visit (core2_traversal E) = core2_pre_visit E" "t_visit (core2_traversal E) = core2_visit E"
  "t_init_visit (core2_traversal E) = core2_init_visit E"
  by (simp_all add: core2_traversal_def)

lemma core2_sends_length: "length (core2_sends E r u) \<le> length (g_edges (tc_graph E) r u)"
  by (simp add: core2_sends_def Let_def)

lemma core2_laws:
  assumes "wf_graph (tc_graph E) verts D"
  shows "delivering_all (core2_traversal E) (core2_takes E) (core2_deliver E) (core2_out E) (core2_out E)
    (\<lambda>_ v. 2 \<le> tc_degree E (c2_vertex v)) c2_init (\<lambda>_ _. True) D"
proof unfold_locales
  have len: "length (core2_sends E r u) \<le> D" for r u
    by (intro order_trans [OF core2_sends_length]) (use assms in \<open>simp add: wf_graph_def\<close>)
  show "length new \<le> D" if "t_init_visit (core2_traversal E) r v d = (d', new, ret)" for r v d d' new ret
    using that len by (auto simp: core2_init_visit_def split: if_splits)
  show "length new \<le> D" if "t_visit (core2_traversal E) r v d = (d', new, ret)" for r v d d' new ret
    using that len by (auto simp: core2_visit_def split: if_splits)
qed (use assms in \<open>auto simp: core2_takes_def core2_accepts_def core2_deliver_def core2_out_def core2_pre_visit_def core2_init_visit_def core2_visit_def wf_graph_def\<close>)

interpretation core2: delivering_all "core2_traversal (tc_checked E verts D)" "core2_takes (tc_checked E verts D)" "core2_deliver (tc_checked E verts D)"
    "core2_out (tc_checked E verts D)" "core2_out (tc_checked E verts D)" "\<lambda>_ v. 2 \<le> tc_degree (tc_checked E verts D) (c2_vertex v)" c2_init "\<lambda>_ _. True" D
  for E :: "'n :: linorder tc_env" and verts D
  by (rule core2_laws [where verts = "checked_verts (tc_graph E) verts D"]) (simp add: tc_checked_def wf_checked)

subsection \<open>What a vertex keeps\<close>

lemma fold_core2:
  fixes E :: "'n :: linorder tc_env" and r :: nat
  assumes "\<And>v. v \<in> set xs \<Longrightarrow> c2_from_degree v = ucast (tc_degree E (c2_from v))" "strict_keys (d u)" "degrees_known E (d u)"
  defines "d' \<equiv> fold (core2_deliver E r) xs d u"
  shows "strict_keys d'" "degrees_known E d'"
    "fst ` set d' = fst ` set (d u) \<union> {w. \<exists>v \<in> set xs. c2_vertex v = u \<and> core2_accepts E v \<and> c2_from v = w}"
proof -
  have entry: "degrees_known E (map_modify k 0 (\<lambda>_. t) m)" if "degrees_known E m" "t = ucast (tc_degree E k)" for k t and m :: "'n dod_edges"
    using that by (induction k "0 :: u32" "\<lambda>_ :: u32. t" m rule: map_modify.induct) (auto simp: degrees_known_def)
  have "strict_keys d' \<and> degrees_known E d' \<and> fst ` set d' = fst ` set (d u) \<union> {w. \<exists>v \<in> set xs. c2_vertex v = u \<and> core2_accepts E v \<and> c2_from v = w}"
    using assms(1-3) unfolding d'_def
  proof (induction xs arbitrary: d)
    case (Cons v xs)
    let ?d = "core2_deliver E r v d"
    have "strict_keys (?d u)" "degrees_known E (?d u)" "fst ` set (?d u) = fst ` set (d u) \<union> (if c2_vertex v = u \<and> core2_accepts E v then {c2_from v} else {})"
      using Cons.prems entry by (auto simp: core2_deliver_def strict_keys_map_modify set_keys_map_modify)
    then show ?case using Cons.IH [of ?d] Cons.prems(1) by auto
  qed auto
  then show "strict_keys d'" "degrees_known E d'" "fst ` set d' = fst ` set (d u) \<union> {w. \<exists>v \<in> set xs. c2_vertex v = u \<and> core2_accepts E v \<and> c2_from v = w}" by simp_all
qed

lemma core2_accepts_later:
  assumes deg: "degrees_count E verts" and "c2_vertex v \<in> verts" "c2_from v \<in> verts" "c2_from_degree v = ucast (tc_degree E (c2_from v))"
  shows "core2_accepts E v \<longleftrightarrow> later E (c2_from v) (c2_vertex v)"
proof -
  have d: "unat (ucast (tc_degree E u) :: u32) = unat (tc_degree E u)" if "u \<in> verts" for u
  proof -
    have "unat (tc_degree E u) < 2 ^ 32" using deg that unfolding degrees_count_def by blast
    then show ?thesis by (simp add: unsigned_ucast_eq unsigned_take_bit_eq take_bit_nat_eq_self)
  qed
  have "ucast (ucast (tc_degree E (c2_from v)) :: u32) = tc_degree E (c2_from v)" using d [OF assms(3)]
    by (intro word_unat_eq_iff [THEN iffD2]) (simp add: unsigned_ucast_eq unsigned_take_bit_eq take_bit_nat_eq_self)
  moreover have "(ucast (tc_degree E a) :: u32) < ucast (tc_degree E b) \<longleftrightarrow> tc_degree E a < tc_degree E b" if "a \<in> verts" "b \<in> verts" for a b
    using d that by (simp add: word_less_nat_alt)
  ultimately show ?thesis using assms(2-4) by (auto simp: core2_accepts_def later_def edge_order_gt_def)
qed

lemma starts_startable:
  "core2.startable E verts D (\<lambda>r. map (core2_start_visitor E) (cs r)) (\<lambda>r. map (core2_start_visitor E) (vs r)) (\<lambda>_ _. [])"
  by (auto simp: core2.startable_def core2_start_visitor_def)

lemma core2_arrival:
  fixes E :: "'n :: linorder tc_env"
  assumes wf: "wf_graph (tc_graph E) verts D" and placed: "starts_placed (tc_graph E) verts cs vs"
    and v: "v \<in># core2.arrivals E verts D (\<lambda>r. map (core2_start_visitor E) (cs r)) (\<lambda>r. map (core2_start_visitor E) (vs r)) r"
  shows "c2_from v \<in> verts" "c2_vertex v \<in> verts" "c2_from_degree v = ucast (tc_degree E (c2_from v))"
proof -
  let ?start = "\<lambda>vs r. map (core2_start_visitor E) (vs r)"
  note eq = tc_checked_eq [OF wf]
  obtain x where x: "x \<in># core2.all_jobs E verts D (?start cs) (?start vs)" "v = snd x" using v by (auto simp: core2.arrivals_def)
  have target: "w \<in> verts" if "w \<in> set (g_edges (tc_graph E) q u)" for w q u using wf that by (auto simp: wf_graph_def)
  have "c2_from (snd x) \<in> verts \<and> c2_vertex (snd x) \<in> verts \<and> c2_from_degree (snd x) = ucast (tc_degree E (c2_from (snd x)))"
  proof (rule core2.all_jobs_all [OF x(1)])
    fix q r u v
    assume "q < t_size (core2_traversal (tc_checked E verts D))" "r < t_size (core2_traversal (tc_checked E verts D))" "u \<in> set (?start cs r) \<union> set (?start vs r)"
      "v \<in> set (core2_out (tc_checked E verts D) r u) \<and> q = r \<or> v \<in> set (core2_out (tc_checked E verts D) q u) \<and> t_delegate (core2_traversal (tc_checked E verts D)) (t_vertex (core2_traversal (tc_checked E verts D)) u)"
    then have "c2_vertex u \<in> verts" "v \<in> set (core2_out E q u)"
      using placed unfolding eq by (auto simp: starts_placed_def core2_start_visitor_def)
    then show "c2_from v \<in> verts \<and> c2_vertex v \<in> verts \<and> c2_from_degree v = ucast (tc_degree E (c2_from v))"
      using target by (auto simp: core2_out_def core2_sends_def core2_visitor_from_def split: if_splits)
  qed
  then show "c2_from v \<in> verts" "c2_vertex v \<in> verts" "c2_from_degree v = ucast (tc_degree E (c2_from v))" unfolding x(2) by simp_all
qed

lemma sum_list_ind: "(\<Sum>v \<leftarrow> xs. if Q v then 1 else 0 :: nat) = 0 \<longleftrightarrow> (\<forall>v \<in> set xs. \<not> Q v)"
  by (induction xs) auto

lemma sum_mset_ind: "(\<Sum>v \<in># M. if Q v then 1 else 0 :: nat) = 0 \<longleftrightarrow> (\<forall>v \<in># M. \<not> Q v)"
  by (induction M) auto

lemma core2_arrives:
  fixes E :: "'n :: linorder tc_env"
  assumes wf: "wf_graph (tc_graph E) verts D" and placed: "starts_placed (tc_graph E) verts cs vs" and Q: "\<And>v. Q v \<Longrightarrow> c2_vertex v = u \<and> core2_accepts E v"
  shows "(\<exists>v \<in># core2.arrivals E verts D (\<lambda>r. map (core2_start_visitor E) (cs r)) (\<lambda>r. map (core2_start_visitor E) (vs r)) (g_home (tc_graph E) u). Q v)
    \<longleftrightarrow> (\<exists>w \<in> verts. \<exists>r \<in> holders (tc_graph E) w. 2 \<le> tc_degree E w \<and> (\<exists>v \<in> set (core2_sends E r w). Q v))"
proof -
  let ?G = "tc_graph E" and ?start = "\<lambda>vs r. map (core2_start_visitor E) (vs r)" and ?f = "\<lambda>v. if Q v then 1 else 0 :: nat"
  define F where "F r w = (if 2 \<le> tc_degree E w then \<Sum>v \<leftarrow> core2_sends E r w. ?f v else 0)" for r w
  note eq = tc_checked_eq [OF wf]
  have fin: "finite verts" and home: "g_home ?G n < g_size ?G" for n using wf by (simp_all add: wf_graph_def)
  have finh: "finite (holders ?G w)" for w by (simp add: holders_def)
  have out: "(\<Sum>v \<leftarrow> core2_out E r (core2_start_visitor E w). ?f v) = F r w" for r w
    by (simp add: core2_out_def core2_start_visitor_def F_def)
  have bc: "(if g_delegate ?G w \<and> g_home ?G w = r \<and> 2 \<le> tc_degree E w then \<Sum>q \<in> {..<g_size ?G} - {r}. F q w else 0)
      = (if g_delegate ?G w \<and> g_home ?G w = r then \<Sum>q \<in> {..<g_size ?G} - {r}. F q w else 0)" for r w
    by (simp add: F_def)
  have "(\<Sum>v \<in># core2.arrivals E verts D (?start cs) (?start vs) (g_home ?G u). ?f v) = (\<Sum>x \<in># core2.all_jobs E verts D (?start cs) (?start vs). ?f (snd x))"
  proof -
    have "c2_vertex v = u \<and> (g_delegate ?G u \<longrightarrow> core2_takes E r v \<longrightarrow> r = g_home ?G u)" if "?f v \<noteq> 0" for r v
      using Q [of v] that by (auto simp: core2_takes_def core2_accepts_def split: if_splits)
    then show ?thesis
      using core2.arrivals_sum_home [where n = u and f = ?f and E = E and verts = verts and D = D and cs = "?start cs" and vs = "?start vs"]
      unfolding eq core2_traversal_sel by blast
  qed
  also have "\<dots> = (\<Sum>r < g_size ?G. \<Sum>w \<leftarrow> cs r @ vs r. F r w + (if g_delegate ?G w \<and> g_home ?G w = r then \<Sum>q \<in> {..<g_size ?G} - {r}. F q w else 0))"
    unfolding core2.all_jobs_sum [where f = ?f] core2.broadcasts_def unfolding eq bc [symmetric] by (simp only: map_append [symmetric] map_map o_def out core2_traversal_sel) (simp add: core2_start_visitor_def)
  also have "\<dots> = (\<Sum>w \<in> verts. \<Sum>r \<in> holders ?G w. F r w)" by (rule placed_sum [OF placed fin home])
  finally have sums: "(\<Sum>v \<in># core2.arrivals E verts D (?start cs) (?start vs) (g_home ?G u). ?f v) = (\<Sum>w \<in> verts. \<Sum>r \<in> holders ?G w. F r w)" .
  have "(\<forall>v \<in># core2.arrivals E verts D (?start cs) (?start vs) (g_home ?G u). \<not> Q v) \<longleftrightarrow> (\<Sum>w \<in> verts. \<Sum>r \<in> holders ?G w. F r w) = 0"
    unfolding sums [symmetric] by (rule sum_mset_ind [symmetric])
  also have "\<dots> \<longleftrightarrow> (\<forall>w \<in> verts. \<forall>r \<in> holders ?G w. 2 \<le> tc_degree E w \<longrightarrow> (\<forall>v \<in> set (core2_sends E r w). \<not> Q v))"
  proof -
    have "F r w = 0 \<longleftrightarrow> (2 \<le> tc_degree E w \<longrightarrow> (\<forall>v \<in> set (core2_sends E r w). \<not> Q v))" for r w
      unfolding F_def using sum_list_ind [of Q "core2_sends E r w"] by presburger
    then show ?thesis using fin finh by simp
  qed
  finally show ?thesis by blast
qed

theorem core2_result:
  fixes E :: "'n :: linorder tc_env"
  assumes wf: "wf_graph (tc_graph E) verts D" and placed: "starts_placed (tc_graph E) verts cs vs"
    and und: "undirected (tc_graph E)" and deg: "degrees_count E verts"
    and g: "vq_reach (core2_traversal E) (core2_start E cs vs) g" "all_finished (g_size (tc_graph E)) g" and u: "u \<in> verts"
  defines "d \<equiv> alg_data (fst g (g_home (tc_graph E) u)) u"
  shows "strict_keys d" "degrees_known E d" "fst ` set d = kept E u"
proof -
  let ?G = "tc_graph E" and ?start = "\<lambda>vs r. map (core2_start_visitor E) (vs r)"
  note eq = tc_checked_eq [OF wf]
  have home: "g_home ?G u < g_size ?G" using wf by (simp add: wf_graph_def)
  obtain xs where xs: "mset xs = core2.arrivals E verts D (?start cs) (?start vs) (g_home ?G u)"
      "alg_data (fst g (g_home ?G u)) = fold (core2_deliver E (g_home ?G u)) xs (\<lambda>_. [])"
    using core2.finished_deliveries [OF _ _ starts_startable [of E verts D cs vs], of g "g_home ?G u"] g home unfolding eq core2_start_def by auto
  have arrival: "c2_from v \<in> verts" "c2_vertex v \<in> verts" "c2_from_degree v = ucast (tc_degree E (c2_from v))" if "v \<in> set xs" for v
    using core2_arrival [OF wf placed, of v] that xs(1) by (metis set_mset_mset)+
  note keeps = fold_core2 [of xs E "\<lambda>_. []" u "g_home ?G u", OF arrival(3), folded xs(2), folded d_def]
  show "strict_keys d" "degrees_known E d" using keeps by (simp_all add: strict_keys_def degrees_known_def)
  have "fst ` set d = {w. \<exists>v \<in># core2.arrivals E verts D (?start cs) (?start vs) (g_home ?G u). c2_vertex v = u \<and> core2_accepts E v \<and> c2_from v = w}"
    using keeps(3) by (simp add: strict_keys_def degrees_known_def flip: xs(1))
  also have "\<dots> = {w \<in> verts. 2 \<le> tc_degree E w \<and> (\<exists>r \<in> holders ?G w. u \<in> set (g_edges ?G r w)) \<and> u \<noteq> w \<and> later E w u}"
  proof (intro Collect_cong)
    fix w
    have acc: "core2_accepts E (core2_visitor_from u w (ucast (tc_degree E w))) \<longleftrightarrow> later E w u" if "w \<in> verts"
      using core2_accepts_later [OF deg, of "core2_visitor_from u w (ucast (tc_degree E w))"] u that by (simp add: core2_visitor_from_def)
    have "(\<exists>v \<in> set (core2_sends E r w'). c2_vertex v = u \<and> core2_accepts E v \<and> c2_from v = w) \<longleftrightarrow> w' = w \<and> u \<in> set (g_edges ?G r w) \<and> u \<noteq> w \<and> later E w u"
      if "w' \<in> verts" for r w'
      using acc that by (auto simp: core2_sends_def Let_def core2_visitor_from_def)
    then show "(\<exists>v \<in># core2.arrivals E verts D (?start cs) (?start vs) (g_home ?G u). c2_vertex v = u \<and> core2_accepts E v \<and> c2_from v = w)
        \<longleftrightarrow> w \<in> verts \<and> 2 \<le> tc_degree E w \<and> (\<exists>r \<in> holders ?G w. u \<in> set (g_edges ?G r w)) \<and> u \<noteq> w \<and> later E w u"
      by (subst core2_arrives [OF wf placed, of _ u]) auto
  qed
  also have "\<dots> = kept E u"
  proof -
    have "has_edge ?G w u \<longleftrightarrow> (\<exists>r \<in> holders ?G w. u \<in> set (g_edges ?G r w))" for w by (auto simp: has_edge_def holders_def)
    moreover have "w \<in> verts" if "has_edge ?G w u" for w
    proof -
      have "has_edge ?G u w" using that und by (simp add: undirected_def)
      then show ?thesis using wf unfolding has_edge_def wf_graph_def by blast
    qed
    ultimately show ?thesis by (auto simp: kept_def)
  qed
  finally show "fst ` set d = kept E u" .
qed

end
