(* ===== verification/Triangle_Properties.thy ===== *)
theory Triangle_Properties
  imports Triangle_Edges
begin

section \<open>The second traversal, and the number of triangles\<close>

subsection \<open>The copied edges\<close>

lemma fold_copy:
  assumes "distinct us"
  shows "dod_graph (fst (fold copy_edges us (m, d))) u = (if u \<in> set us then d u else []) @ dod_graph m u"
    "dod_set (fst (fold copy_edges us (m, d))) u = dod_set m u \<union> (if u \<in> set us then fst ` set (d u) else {})"
    "snd (fold copy_edges us (m, d)) u = (if u \<in> set us then [] else d u)"
proof -
  have "dod_graph (fst (fold copy_edges us (m, d))) u = (if u \<in> set us then d u else []) @ dod_graph m u
      \<and> dod_set (fst (fold copy_edges us (m, d))) u = dod_set m u \<union> (if u \<in> set us then fst ` set (d u) else {})
      \<and> snd (fold copy_edges us (m, d)) u = (if u \<in> set us then [] else d u)"
    using assms by (induction us arbitrary: m d) (auto simp: copy_edges_def)
  then show "dod_graph (fst (fold copy_edges us (m, d))) u = (if u \<in> set us then d u else []) @ dod_graph m u"
    "dod_set (fst (fold copy_edges us (m, d))) u = dod_set m u \<union> (if u \<in> set us then fst ` set (d u) else {})"
    "snd (fold copy_edges us (m, d)) u = (if u \<in> set us then [] else d u)" by simp_all
qed

lemma copy_all_at:
  assumes "distinct (cs @ vs)"
  shows "dod_graph (copy_all cs vs d) u = (if u \<in> set cs \<union> set vs then d u else [])"
    "dod_set (copy_all cs vs d) u = (if u \<in> set cs \<union> set vs then fst ` set (d u) else {})"
proof -
  obtain m d' where fv: "fold copy_edges vs (new_dod, d) = (m, d')" by force
  have dis: "distinct cs" "distinct vs" "set cs \<inter> set vs = {}" using assms by auto
  have new: "dod_graph new_dod u = []" "dod_set new_dod u = {}" by (simp_all add: new_dod_def)
  note v = fold_copy [OF dis(2), of new_dod d u, unfolded fv] and c = fold_copy [OF dis(1), of m d' u]
  show "dod_graph (copy_all cs vs d) u = (if u \<in> set cs \<union> set vs then d u else [])"
    "dod_set (copy_all cs vs d) u = (if u \<in> set cs \<union> set vs then fst ` set (d u) else {})"
    using v c dis(3) new unfolding copy_all_def fv by auto
qed

text \<open>Ranks that do not exist do nothing.\<close>

lemma other_ranks_idle: "vq_reach T g0 g \<Longrightarrow> t_size T \<le> r \<Longrightarrow> fst g r = fst g0 r"
proof (induction rule: vq_reach.induct)
  case (reach_step g g')
  then show ?case by (cases rule: vq_stepE) auto
qed simp

subsection \<open>A delivering traversal\<close>

definition wedge_takes :: "'n tc_env \<Rightarrow> nat \<Rightarrow> 'n wedge_visitor \<Rightarrow> bool" where
  "wedge_takes E r v \<longleftrightarrow> \<not> (g_delegate (tc_graph E) (w_vertex v) \<and> g_home (tc_graph E) (w_vertex v) \<noteq> r)"

definition wedge_deliver :: "(nat \<Rightarrow> 'n dod) \<Rightarrow> nat \<Rightarrow> 'n wedge_visitor \<Rightarrow> wedge_data \<Rightarrow> wedge_data" where
  "wedge_deliver m r v d = d\<lparr>local_triangle_count := local_triangle_count d + (if w_check_close v \<in> dod_set (m r) (w_vertex v) then 1 else 0),
     local_wedge_count := local_wedge_count d + 1\<rparr>"

definition wedge_out :: "(nat \<Rightarrow> ('n :: linorder) dod) \<Rightarrow> nat \<Rightarrow> 'n wedge_visitor \<Rightarrow> 'n wedge_visitor list" where
  "wedge_out m r v = (if 1 < length (dod_graph (m r) (w_vertex v)) then wedges (dod_graph (m r) (w_vertex v)) else [])"

lemma wedge_traversal_sel [simp]:
  "t_size (wedge_traversal E m) = g_size (tc_graph E)" "t_delegate (wedge_traversal E m) = g_delegate (tc_graph E)"
  "t_home (wedge_traversal E m) = g_home (tc_graph E)" "t_vertex (wedge_traversal E m) = w_vertex"
  "t_pre_visit (wedge_traversal E m) = wedge_pre_visit E m" "t_visit (wedge_traversal E m) = wedge_visit"
  "t_init_visit (wedge_traversal E m) = wedge_init_visit m"
  by (simp_all add: wedge_traversal_def)

definition bounded_wedges :: "(nat \<Rightarrow> ('n :: linorder) dod) \<Rightarrow> nat \<Rightarrow> bool" where
  "bounded_wedges m D \<longleftrightarrow> (\<forall>r u. length (wedges (dod_graph (m r) u)) \<le> D)"

definition dod_checked :: "(nat \<Rightarrow> ('n :: linorder) dod) \<Rightarrow> nat \<Rightarrow> nat \<Rightarrow> 'n dod" where
  "dod_checked m D = (if bounded_wedges m D then m else (\<lambda>_. new_dod))"

lemma wedge_laws:
  assumes "wf_graph (tc_graph E) verts D" "bounded_wedges m B"
  shows "delivering_all (wedge_traversal E m) (wedge_takes E) (wedge_deliver m) (wedge_out m) (\<lambda>_ _. []) (\<lambda>_ _. False) (\<lambda>_. True) (\<lambda>_ _. True) B"
proof unfold_locales
  show "t_pre_visit (wedge_traversal E m) r v d = (if wedge_takes E r v then (wedge_deliver m r v d, False) else (d, True))" for r v d
    by (cases d) (auto simp: wedge_pre_visit_def wedge_takes_def wedge_deliver_def)
qed (use assms in \<open>auto simp: wedge_takes_def wedge_out_def wedge_init_visit_def wedge_visit_def wf_graph_def bounded_wedges_def split: if_splits\<close>)

lemma new_dod_bounded: "bounded_wedges (\<lambda>_. new_dod) D"
  by (simp add: bounded_wedges_def new_dod_def)

lemma dod_checked_bounded: "bounded_wedges (dod_checked m D) D"
  by (simp add: dod_checked_def new_dod_bounded)

interpretation wedge: delivering_all "wedge_traversal (tc_checked E verts D) (dod_checked m B)" "wedge_takes (tc_checked E verts D)" "wedge_deliver (dod_checked m B)"
    "wedge_out (dod_checked m B)" "\<lambda>_ _. []" "\<lambda>_ _. False" "\<lambda>_. True" "\<lambda>_ _. True" B
  for E :: "'n :: linorder tc_env" and verts D m B
  by (rule wedge_laws [where verts = "checked_verts (tc_graph E) verts D" and D = D, OF _ dod_checked_bounded]) (simp add: tc_checked_def wf_checked)

lemma fold_wedge:
  "local_triangle_count (fold (wedge_deliver m r) xs d) = local_triangle_count d + of_nat (\<Sum>v \<leftarrow> xs. if w_check_close v \<in> dod_set (m r) (w_vertex v) then 1 else 0)"
  by (induction xs arbitrary: d) (simp_all add: wedge_deliver_def)

subsection \<open>Counting\<close>

text \<open>The directed graph after the first traversal: the home of a vertex holds what the vertex keeps.\<close>

definition dod_ready :: "'n :: linorder tc_env \<Rightarrow> 'n set \<Rightarrow> (nat \<Rightarrow> 'n dod) \<Rightarrow> bool" where
  "dod_ready E verts m \<longleftrightarrow> (\<forall>u \<in> verts. let h = m (g_home (tc_graph E) u) in
     strict_keys (dod_graph h u) \<and> degrees_known E (dod_graph h u) \<and> fst ` set (dod_graph h u) = kept E u \<and> dod_set h u = kept E u)"

lemma short_wedges: "\<not> 1 < length ps \<Longrightarrow> wedges ps = []"
  by (cases ps) (auto simp: wedge_of_def)

lemma length_filter_sum: "length (filter Q xs) = (\<Sum>x \<leftarrow> xs. if Q x then 1 else 0)"
  by (induction xs) simp_all

lemma wedges_closed:
  assumes "dod_ready E verts m" "undirected (tc_graph E)" "wf_graph (tc_graph E) verts D" "u \<in> verts"
  defines "h \<equiv> \<lambda>n. m (g_home (tc_graph E) n)"
  shows "(\<Sum>v \<leftarrow> wedge_out m (g_home (tc_graph E) u) (wedge_start_visitor E u). if w_check_close v \<in> dod_set (h (w_vertex v)) (w_vertex v) then 1 else 0) = card (closed_pairs E u)"
proof -
  let ?ps = "dod_graph (h u) u"
  have ready: "strict_keys (dod_graph (h n) n)" "degrees_known E (dod_graph (h n) n)" "fst ` set (dod_graph (h n) n) = kept E n" "dod_set (h n) n = kept E n" if "n \<in> verts" for n
    using assms(1) that by (simp_all add: dod_ready_def h_def Let_def)
  have out: "wedge_out m (g_home (tc_graph E) u) (wedge_start_visitor E u) = wedges ?ps"
    using short_wedges [of ?ps] by (simp add: wedge_out_def wedge_start_visitor_def h_def)
  have dist: "distinct (map fst ?ps)" using ready(1) [OF assms(4)] by (simp add: strict_keys_def strict_sorted_iff)
  have vert: "w_vertex v \<in> verts" if v: "v \<in> set (wedges ?ps)" for v
  proof -
    have "w_vertex v \<in> kept E u"
      using v wedges_set(2) [OF ready(2) [OF assms(4)] dist] ready(3) [OF assms(4)] by auto
    then have "has_edge (tc_graph E) u (w_vertex v)" using assms(2) by (simp add: kept_def undirected_def)
    then show ?thesis using assms(3) unfolding has_edge_def wf_graph_def by blast
  qed
  have "(\<Sum>v \<leftarrow> wedges ?ps. if w_check_close v \<in> dod_set (h (w_vertex v)) (w_vertex v) then 1 else 0 :: nat)
      = (\<Sum>v \<leftarrow> wedges ?ps. if w_check_close v \<in> kept E (w_vertex v) then 1 else 0)"
    by (intro arg_cong [where f = sum_list] map_cong refl) (simp add: ready(4) vert)
  also have "\<dots> = card (closed_pairs E u)"
    unfolding length_filter_sum [symmetric] by (rule closed_wedges [OF ready(2) [OF assms(4)] dist ready(3) [OF assms(4)]])
  finally show ?thesis unfolding out .
qed

lemma wedge_startable:
  "wedge.startable E verts D m B (\<lambda>r. map (wedge_start_visitor E) (cs r)) (\<lambda>r. map (wedge_start_visitor E) (vs r)) (\<lambda>_. no_counts)"
  by (simp add: wedge.startable_def)

theorem wedge_result:
  fixes E :: "'n :: linorder tc_env"
  assumes wf: "wf_graph (tc_graph E) verts D" and placed: "starts_placed (tc_graph E) verts cs vs"
    and und: "undirected (tc_graph E)" and deg: "degrees_count E verts" and ready: "dod_ready E verts m" and bound: "bounded_wedges m B"
    and h: "vq_reach (wedge_traversal E m) (wedge_start E cs vs) h" "all_finished (g_size (tc_graph E)) h"
  shows "global_triangle_count E (\<lambda>r. alg_data (fst h r)) = of_nat (card (triangles (tc_graph E) verts))"
proof -
  let ?G = "tc_graph E" and ?start = "\<lambda>vs r. map (wedge_start_visitor E) (vs r)"
  let ?in = "\<lambda>r v. if w_check_close v \<in> dod_set (m r) (w_vertex v) then 1 else 0 :: nat"
  let ?f = "\<lambda>v. ?in (g_home ?G (w_vertex v)) v"
  note eq = tc_checked_eq [OF wf]
  have eqm: "dod_checked m B = m" using bound by (simp add: dod_checked_def)
  have fin: "finite verts" and home: "g_home ?G n < g_size ?G" for n using wf by (simp_all add: wf_graph_def)
  have rank: "local_triangle_count (alg_data (fst h r)) = of_nat (\<Sum>v \<in># wedge.arrivals E verts D m B (?start cs) (?start vs) r. ?in r v)" if r: "r < g_size ?G" for r
  proof -
    obtain xs where xs: "mset xs = wedge.arrivals E verts D m B (?start cs) (?start vs) r" "alg_data (fst h r) = fold (wedge_deliver m r) xs no_counts"
      using wedge.finished_deliveries [OF _ _ wedge_startable [of E verts D m B cs vs], of h r] h r unfolding eq eqm wedge_start_def by auto
    show ?thesis unfolding xs(2) fold_wedge by (simp add: no_counts_def sum_mset_sum_list flip: xs(1) mset_map)
  qed
  have "global_triangle_count E (\<lambda>r. alg_data (fst h r)) = of_nat (\<Sum>r < g_size ?G. \<Sum>v \<in># wedge.arrivals E verts D m B (?start cs) (?start vs) r. ?in r v)"
    unfolding global_triangle_count_def of_nat_sum by (intro sum.cong) (auto simp: rank)
  also have "(\<Sum>r < g_size ?G. \<Sum>v \<in># wedge.arrivals E verts D m B (?start cs) (?start vs) r. ?in r v)
      = (\<Sum>x \<in># wedge.all_jobs E verts D m B (?start cs) (?start vs). ?in (fst x) (snd x))"
    using wedge.arrivals_sum_all [where f = ?in and E = E and verts = verts and D = D and m = m and B = B and cs = "?start cs" and vs = "?start vs"] unfolding eq wedge_traversal_sel .
  also have "\<dots> = (\<Sum>x \<in># wedge.all_jobs E verts D m B (?start cs) (?start vs). ?f (snd x))"
  proof (intro arg_cong [where f = sum_mset] image_mset_cong)
    fix x assume x: "x \<in># wedge.all_jobs E verts D m B (?start cs) (?start vs)"
    have "fst x = g_home ?G (w_vertex (snd x))"
      using wedge.all_jobs_home [OF _ x] unfolding eq by (auto simp: wedge_takes_def)
    then show "?in (fst x) (snd x) = ?f (snd x)" by simp
  qed
  also have "\<dots> = (\<Sum>r < g_size ?G. \<Sum>u \<leftarrow> cs r @ vs r. (\<Sum>v \<leftarrow> wedge_out m r (wedge_start_visitor E u). ?f v))"
    unfolding wedge.all_jobs_sum [where f = ?f] wedge.broadcasts_def unfolding eq eqm by (simp add: o_def)
  also have "\<dots> = (\<Sum>r < g_size ?G. \<Sum>u \<in> {n \<in> verts. g_home ?G n = r}. card (closed_pairs E u))"
  proof (intro sum.cong refl)
    fix r assume "r \<in> {..<g_size ?G}"
    then have p: "distinct (cs r @ vs r)" "set (cs r @ vs r) = {n \<in> verts. g_home ?G n = r}" using placed by (auto simp: starts_placed_def)
    have "(\<Sum>u \<leftarrow> cs r @ vs r. (\<Sum>v \<leftarrow> wedge_out m r (wedge_start_visitor E u). ?f v)) = (\<Sum>u \<leftarrow> cs r @ vs r. card (closed_pairs E u))"
      using p(2) wedges_closed [OF ready und wf] by (intro arg_cong [where f = sum_list] map_cong refl) auto
    also have "\<dots> = (\<Sum>u \<in> set (cs r @ vs r). card (closed_pairs E u))" by (rule sum_list_distinct_conv_sum_set [OF p(1)])
    finally show "(\<Sum>u \<leftarrow> cs r @ vs r. (\<Sum>v \<leftarrow> wedge_out m r (wedge_start_visitor E u). ?f v)) = (\<Sum>u \<in> {n \<in> verts. g_home ?G n = r}. card (closed_pairs E u))"
      unfolding p(2) .
  qed
  also have "\<dots> = (\<Sum>u \<in> verts. card (closed_pairs E u))" using fin home by (subst sum.group) auto
  also have "\<dots> = card (triangles ?G verts)" by (rule triangles_once [OF wf und deg])
  finally show ?thesis .
qed

subsection \<open>From the first traversal to the second\<close>

lemma dod_of_core2:
  fixes E :: "'n :: linorder tc_env"
  assumes wf: "wf_graph (tc_graph E) verts D" and placed: "starts_placed (tc_graph E) verts cs vs"
    and und: "undirected (tc_graph E)" and deg: "degrees_count E verts"
    and g: "vq_reach (core2_traversal E) (core2_start E cs vs) g" "all_finished (g_size (tc_graph E)) g"
  defines "m \<equiv> \<lambda>r. copy_all (cs r) (vs r) (alg_data (fst g r))"
  shows "dod_ready E verts m" "\<exists>B. bounded_wedges m B"
proof -
  let ?G = "tc_graph E"
  have home: "g_home ?G u < g_size ?G" for u using wf by (simp add: wf_graph_def)
  have p: "distinct (cs r @ vs r)" "set (cs r) \<union> set (vs r) = {n \<in> verts. g_home ?G n = r}" if "r < g_size ?G" for r
    using placed that by (auto simp: starts_placed_def)
  have here: "dod_graph (m r) u = (if u \<in> verts \<and> g_home ?G u = r then alg_data (fst g r) u else [])"
      "dod_set (m r) u = (if u \<in> verts \<and> g_home ?G u = r then fst ` set (alg_data (fst g r) u) else {})" if r: "r < g_size ?G" for r u
    using copy_all_at [OF p(1) [OF r], of "alg_data (fst g r)" u] p(2) [OF r] by (simp_all add: m_def)
  show "dod_ready E verts m"
    unfolding dod_ready_def Let_def using core2_result [OF wf placed und deg g] here home by simp
  have idle: "alg_data (fst g r) = (\<lambda>_. [])" if "g_size ?G \<le> r" for r
    using other_ranks_idle [OF g(1), of r] that by (simp add: core2_start_def start_all_def new_vq_def)
  have copies: "dod_graph (copy_all xs ys (\<lambda>_. [])) u = []" for xs ys and u :: 'n
  proof -
    have "dod_graph (fst (fold copy_edges us s)) = dod_graph (fst s) \<and> snd (fold copy_edges us s) = (\<lambda>_. [])" if "snd s = (\<lambda>_. [])" for us :: "'n list" and s
      using that
    proof (induction us arbitrary: s)
      case (Cons v us)
      have "snd (copy_edges v s) = (\<lambda>_. [])" "dod_graph (fst (copy_edges v s)) = dod_graph (fst s)"
        using Cons.prems by (cases s; auto simp: copy_edges_def fun_eq_iff)+
      then show ?case using Cons.IH by simp
    qed simp
    then show ?thesis by (simp add: copy_all_def) (simp add: new_dod_def)
  qed
  have "length (wedges (dod_graph (m r) u)) \<le> (\<Sum>n \<in> verts. length (wedges (alg_data (fst g (g_home ?G n)) n)))" for r u
  proof (cases "r < g_size ?G \<and> u \<in> verts \<and> g_home ?G u = r")
    case True
    then show ?thesis using here(1) [of r u] wf by (auto simp: wf_graph_def intro: member_le_sum)
  next
    case False
    then have "dod_graph (m r) u = []" using here(1) [of r u] idle [of r] copies by (cases "r < g_size ?G") (auto simp: m_def)
    then show ?thesis by simp
  qed
  then show "\<exists>B. bounded_wedges m B" unfolding bounded_wedges_def by blast
qed

lemma wedge_ends:
  assumes "wf_graph (tc_graph E) verts D" "bounded_wedges m B"
  shows "always_finishes (wedge_traversal E m) (wedge_start E cs vs)"
  using wedge.always_ends [OF wedge_startable [of E verts D m B cs vs]] assms by (simp add: tc_checked_eq dod_checked_def wedge_start_def)

lemma core2_ends:
  assumes "wf_graph (tc_graph E) verts D"
  shows "always_finishes (core2_traversal E) (core2_start E cs vs)"
  using core2.always_ends [OF starts_startable [of E verts D cs vs]] assms by (simp add: tc_checked_eq core2_start_def)

subsection \<open>Property\<close>

text \<open>
  C5. Triangle counting on any number of ranks.  For an undirected graph, with degrees that count the stored edges and fit into 32 bits,
  both traversals end on every schedule, and the number returned is the number of triangles (modulo \<open>2^64\<close>): loops and repeated edges
  do not matter, and neither does the rank that holds an edge of a delegate.
\<close>

theorem triangle_count_exact:
  assumes "wf_graph (tc_graph E) verts D" "starts_placed (tc_graph E) verts cs vs" "undirected (tc_graph E)" "degrees_count E verts"
  shows "always_finishes (core2_traversal E) (core2_start E cs vs)
    \<and> (\<forall>g. vq_reach (core2_traversal E) (core2_start E cs vs) g \<and> all_finished (g_size (tc_graph E)) g \<longrightarrow>
         always_finishes (wedge_traversal E (\<lambda>r. copy_all (cs r) (vs r) (alg_data (fst g r)))) (wedge_start E cs vs))
    \<and> (\<forall>n. triangle_count_global E cs vs n \<longleftrightarrow> n = of_nat (card (triangles (tc_graph E) verts)))"
proof (intro conjI allI impI iffI)
  let ?m = "\<lambda>g r. copy_all (cs r) (vs r) (alg_data (fst g r))"
  have ready: "dod_ready E verts (?m g)" "\<exists>B. bounded_wedges (?m g) B"
    if "vq_reach (core2_traversal E) (core2_start E cs vs) g" "all_finished (g_size (tc_graph E)) g" for g
    using dod_of_core2 [OF assms that] by simp_all
  show first: "always_finishes (core2_traversal E) (core2_start E cs vs)" by (rule core2_ends [OF assms(1)])
  have second: "always_finishes (wedge_traversal E (?m g)) (wedge_start E cs vs)"
    if "vq_reach (core2_traversal E) (core2_start E cs vs) g" "all_finished (g_size (tc_graph E)) g" for g
    using ready(2) [OF that] wedge_ends [OF assms(1)] by blast
  then show "always_finishes (wedge_traversal E (?m g)) (wedge_start E cs vs)"
    if "vq_reach (core2_traversal E) (core2_start E cs vs) g \<and> all_finished (g_size (tc_graph E)) g" for g using that by blast
  show count: "n = of_nat (card (triangles (tc_graph E) verts))" if run: "triangle_count_global E cs vs n" for n
  proof -
    obtain g h where "n = global_triangle_count E (\<lambda>r. alg_data (fst h r))"
      "vq_reach (core2_traversal E) (core2_start E cs vs) g" "all_finished (g_size (tc_graph E)) g"
      "vq_reach (wedge_traversal E (?m g)) (wedge_start E cs vs) h" "all_finished (g_size (tc_graph E)) h"
      by (rule triangle_count_globalE [OF run]) blast
    then show ?thesis using wedge_result [OF assms] ready [of g] by blast
  qed
  show "triangle_count_global E cs vs n" if "n = of_nat (card (triangles (tc_graph E) verts))" for n
  proof -
    obtain g where g: "vq_reach (core2_traversal E) (core2_start E cs vs) g" "all_finished (g_size (tc_graph E)) g"
      using first by (auto simp: always_finishes_def)
    obtain h where "vq_reach (wedge_traversal E (?m g)) (wedge_start E cs vs) h" "all_finished (g_size (tc_graph E)) h"
      using second [OF g] by (auto simp: always_finishes_def)
    then have "triangle_count_global E cs vs (global_triangle_count E (\<lambda>r. alg_data (fst h r)))"
      using g by (intro both_traversals [where m = "?m g"]) auto
    then show ?thesis using count that by metis
  qed
qed

text \<open>A triangle over two ranks, whose first vertex is a hub.\<close>

definition triangle_env :: "nat tc_env" where
  "triangle_env = \<lparr>tc_graph = \<lparr>g_size = 2, g_delegate = (\<lambda>n. n = 0), g_home = (\<lambda>n. n mod 2),
       g_edges = (\<lambda>r n. if n = 0 then (if r = 0 then [1] else if r = 1 then [2] else []) else if n = 1 \<and> r = 1 then [2, 0] else if n = 2 \<and> r = 0 then [0, 1] else [])\<rparr>,
     tc_degree = (\<lambda>n. if n < 3 then 2 else 0), tc_no_vertex = 0, tc_no_degree = 0\<rparr>"

lemma triangle_count_exact_witness:
  "triangle_count_global triangle_env (\<lambda>r. if r = 0 then [0] else []) (\<lambda>r. if r = 0 then [2] else [1]) 1"
proof -
  let ?G = "tc_graph triangle_env"
  have sel: "g_size ?G = 2" "g_delegate ?G n \<longleftrightarrow> n = 0" "g_home ?G n = n mod 2"
    "g_edges ?G r n = (if n = 0 then (if r = 0 then [1] else if r = 1 then [2] else []) else if n = 1 \<and> r = 1 then [2, 0] else if n = 2 \<and> r = 0 then [0, 1] else [])"
    "tc_degree triangle_env n = (if n < 3 then 2 else 0)" for r n
    by (simp_all add: triangle_env_def)
  have edges: "has_edge ?G u w \<longleftrightarrow> u \<noteq> w \<and> u < 3 \<and> w < 3" for u w
  proof -
    have ex: "(\<exists>r < 2. Q r) \<longleftrightarrow> Q 0 \<or> Q 1" for Q :: "nat \<Rightarrow> bool" by (auto simp: less_2_cases_iff)
    consider "u = 0" | "u = 1" | "u = 2" | "3 \<le> u" by linarith
    then show ?thesis unfolding has_edge_def sel ex by cases auto
  qed
  have wf: "wf_graph ?G {0, 1, 2} 2" by (auto simp: wf_graph_def sel split: if_splits)
  have placed: "starts_placed ?G {0, 1, 2} (\<lambda>r. if r = 0 then [0] else []) (\<lambda>r. if r = 0 then [2] else [1])"
    by (auto simp: starts_placed_def sel less_2_cases_iff)
  have und: "undirected ?G" by (auto simp: undirected_def edges)
  have holders: "holders ?G 0 = {0, 1}" "holders ?G (Suc 0) = {1}" "holders ?G 2 = {0}" by (auto simp: holders_def sel less_2_cases_iff)
  have deg: "degrees_count triangle_env {0, 1, 2}" by (simp add: degrees_count_def sel holders)
  have "triangles ?G {0, 1, 2} = {{0, 1, 2}}"
  proof -
    have one: "A = {a}" if "\<And>x. x \<in> A \<Longrightarrow> x = a" "a \<in> A" for A and a :: "nat set" using that by blast
    have "t = {0, 1, 2}" if "t \<in> triangles ?G {0, 1, 2}" for t
    proof -
      have "t \<subseteq> {0, 1, 2}" "card t = 3" using that unfolding triangles_def by blast+
      then show ?thesis using card_subset_eq [of "{0, 1, 2}" t] by simp
    qed
    moreover have "{0, 1, 2} \<in> triangles ?G {0, 1, 2}" unfolding triangles_def mem_Collect_eq edges by simp
    ultimately show ?thesis by (rule one)
  qed
  then have one: "(1 :: u64) = of_nat (card (triangles ?G {0, 1, 2}))" by simp
  show ?thesis
    by (rule iffD2 [OF spec [OF conjunct2 [OF conjunct2 [OF triangle_count_exact [OF wf placed und deg]]]] one])
qed

end
