(* ===== verification/Edge_Sources.thy ===== *)
theory Edge_Sources
  imports Complex_Main Hashing
begin

section \<open>Sources of edges\<close>

subsection \<open>The input iterator\<close>

text \<open>
  The R-MAT generator and the reader of edge lists have the same input iterator: it counts the edges it took from its source, and when the
  graph is to be undirected it gives every edge twice, the second time reversed.  \<open>produce\<close> takes the next edge from the state of the
  source; it is given the current edge because the reader leaves that unchanged at the end of its files.  \<open>swap\<close> reverses an edge, \<open>ok\<close> is
  what the iterator asserts; \<open>None\<close> is a failed assertion.
\<close>

record ('s, 'e) edge_iter =
  it_source :: 's
  it_count :: nat
  it_current :: 'e
  it_make_undirected :: bool

definition edge_get_next ::
    "bool \<Rightarrow> ('s \<Rightarrow> 'e \<Rightarrow> ('e \<times> 's) option) \<Rightarrow> ('e \<Rightarrow> 'e) \<Rightarrow> ('e \<Rightarrow> bool) \<Rightarrow> ('s, 'e) edge_iter \<Rightarrow> ('s, 'e) edge_iter option" where
  "edge_get_next undirected produce swap ok it =
     Option.bind
       (if undirected \<and> it_make_undirected it
        then Some (it\<lparr>it_current := swap (it_current it), it_make_undirected := False\<rparr>)
        else map_option (\<lambda>(e, s). it\<lparr>it_source := s, it_count := it_count it + 1, it_current := e, it_make_undirected := True\<rparr>)
          (produce (it_source it) (it_current it)))
       (\<lambda>it'. if ok (it_current it') then Some it' else None)"

definition edge_iter_new ::
    "bool \<Rightarrow> ('s \<Rightarrow> 'e \<Rightarrow> ('e \<times> 's) option) \<Rightarrow> ('e \<Rightarrow> 'e) \<Rightarrow> ('e \<Rightarrow> bool) \<Rightarrow> 'e \<Rightarrow> 's \<Rightarrow> nat \<Rightarrow> ('s, 'e) edge_iter option" where
  "edge_iter_new undirected produce swap ok none s n =
     (let it = \<lparr>it_source = s, it_count = n, it_current = none, it_make_undirected = False\<rparr>
      in if n = 0 then map_option (\<lambda>it. it\<lparr>it_count := 0\<rparr>) (edge_get_next undirected produce swap ok it) else Some it)"

text \<open>The loop of every user, \<open>for (it = begin(); it != end(); ++it)\<close>, with the edges it sees; iterators are compared by their counts.\<close>

fun edges_upto :: "nat \<Rightarrow> (('s, 'e) edge_iter \<Rightarrow> ('s, 'e) edge_iter option) \<Rightarrow> nat \<Rightarrow> ('s, 'e) edge_iter \<Rightarrow> 'e list option" where
  "edges_upto 0 get_next n it = None"
| "edges_upto (Suc fuel) get_next n it =
     (if it_count it = n then Some []
      else Option.bind (get_next it) (\<lambda>it'. map_option ((#) (it_current it)) (edges_upto fuel get_next n it')))"

text \<open>What the source produces, and the two directions of an edge.\<close>

fun produced :: "bool \<Rightarrow> ('s \<Rightarrow> 'e \<Rightarrow> ('e \<times> 's) option) \<Rightarrow> ('e \<Rightarrow> 'e) \<Rightarrow> nat \<Rightarrow> 's \<Rightarrow> 'e \<Rightarrow> 'e list" where
  "produced undirected produce swap 0 s e = []"
| "produced undirected produce swap (Suc n) s e =
     (case produce s e of None \<Rightarrow> [] | Some (e', s') \<Rightarrow> e' # produced undirected produce swap n s' (if undirected then swap e' else e'))"

definition directions :: "bool \<Rightarrow> ('e \<Rightarrow> 'e) \<Rightarrow> 'e \<Rightarrow> 'e list" where
  "directions undirected swap e = (if undirected then [e, swap e] else [e])"

locale edge_source =
  fixes undirected :: bool and produce :: "'s \<Rightarrow> 'e \<Rightarrow> ('e \<times> 's) option" and swap :: "'e \<Rightarrow> 'e" and ok :: "'e \<Rightarrow> bool"
    and good :: "'s \<Rightarrow> 'e \<Rightarrow> bool"
  assumes produces: "good s e \<Longrightarrow> \<exists>e' s'. produce s e = Some (e', s') \<and> ok e' \<and> ok (swap e') \<and> good s' e' \<and> good s' (swap e')"
begin

abbreviation "next_edge \<equiv> edge_get_next undirected produce swap ok"

lemma produced_length: "good s e \<Longrightarrow> length (produced undirected produce swap n s e) = n"
proof (induction n arbitrary: s e)
  case (Suc n)
  obtain e' s' where "produce s e = Some (e', s')" "good s' e'" "good s' (swap e')" using produces [OF Suc.prems] by blast
  then show ?case using Suc.IH by simp
qed simp

lemma produced_ok: "good s e \<Longrightarrow> x \<in> set (produced undirected produce swap n s e) \<Longrightarrow> ok x \<and> ok (swap x)"
proof (induction n arbitrary: s e)
  case (Suc n)
  obtain e' s' where "produce s e = Some (e', s')" "ok e'" "ok (swap e')" "good s' e'" "good s' (swap e')" using produces [OF Suc.prems(1)] by blast
  then show ?case using Suc.IH [of s' "if undirected then swap e' else e'"] Suc.prems(2) by (auto split: if_splits)
qed simp

lemma next_swapped:
  "undirected \<Longrightarrow> ok (swap e) \<Longrightarrow> next_edge \<lparr>it_source = s, it_count = c, it_current = e, it_make_undirected = True\<rparr>
     = Some \<lparr>it_source = s, it_count = c, it_current = swap e, it_make_undirected = False\<rparr>"
  by (simp add: edge_get_next_def)

lemma next_fresh:
  "\<not> undirected \<or> \<not> b \<Longrightarrow> produce s e = Some (e', s') \<Longrightarrow> ok e' \<Longrightarrow> next_edge \<lparr>it_source = s, it_count = c, it_current = e, it_make_undirected = b\<rparr>
     = Some \<lparr>it_source = s', it_count = Suc c, it_current = e', it_make_undirected = True\<rparr>"
  by (auto simp: edge_get_next_def)

lemma edges_from:
  assumes "good s e" "good s (swap e)" "ok e" "ok (swap e)" "2 * n < fuel"
  shows "edges_upto fuel next_edge (c + n) \<lparr>it_source = s, it_count = c, it_current = e, it_make_undirected = True\<rparr>
    = Some (if n = 0 then [] else directions undirected swap e
        @ concat (map (directions undirected swap) (produced undirected produce swap (n - 1) s (if undirected then swap e else e))))"
  using assms
proof (induction n arbitrary: s e c fuel)
  case 0
  then show ?case by (cases fuel) simp_all
next
  case (Suc n)
  obtain f where f: "fuel = Suc (Suc f)" "2 * n < f" using Suc.prems(5) by (metis Suc_lessE Suc_less_eq mult_Suc_right add_2_eq_Suc)
  let ?e = "if undirected then swap e else e"
  obtain e' s' where p: "produce s ?e = Some (e', s')" "ok e'" "ok (swap e')" "good s' e'" "good s' (swap e')"
  proof -
    have "good s ?e" using Suc.prems(1,2) by simp
    from produces [OF this] show ?thesis using that by blast
  qed
  have rest: "edges_upto k next_edge (c + Suc n) \<lparr>it_source = s', it_count = Suc c, it_current = e', it_make_undirected = True\<rparr>
      = Some (concat (map (directions undirected swap) (produced undirected produce swap n s ?e)))" if "2 * n < k" for k
    using Suc.IH [OF p(4,5,2,3) that, of "Suc c"] p(1) by (cases n) simp_all
  show ?case
  proof (cases undirected)
    case True
    then show ?thesis using f p rest [of f] next_swapped [OF True Suc.prems(4), of s c] next_fresh [of False s "swap e" e' s' c] by (simp add: directions_def)
  next
    case False
    then show ?thesis using f p rest [of "Suc f"] next_fresh [of True s e e' s' c] by (simp add: directions_def)
  qed
qed

theorem edges_seen:
  assumes "good s none" "2 * n < fuel"
  shows "Option.bind (edge_iter_new undirected produce swap ok none s 0) (edges_upto fuel next_edge n)
    = Some (concat (map (directions undirected swap) (produced undirected produce swap n s none)))"
proof -
  obtain e s' where p: "produce s none = Some (e, s')" "ok e" "ok (swap e)" "good s' e" "good s' (swap e)" using produces [OF assms(1)] by blast
  show ?thesis using edges_from [OF p(4,5,2,3) assms(2), of 0] p
    by (cases n) (simp_all add: edge_iter_new_def next_fresh)
qed

end

subsection \<open>The R-MAT generator (rmat\_edge\_generator.hpp)\<close>

text \<open>
  \<open>gen\<close> is the generator of uniform random numbers, with its state.  Probabilities are real numbers; what holds for every \<open>gen\<close> does not
  depend on their rounding.
\<close>

record rmat =
  rm_vertex_scale :: nat
  rm_edge_count :: nat
  rm_scramble :: bool
  rm_undirected :: bool
  rm_a :: real
  rm_b :: real
  rm_c :: real
  rm_d :: real

fun rmat_loop ::
    "('s \<Rightarrow> real \<times> 's) \<Rightarrow> nat \<Rightarrow> real \<Rightarrow> real \<Rightarrow> real \<Rightarrow> real \<Rightarrow> u64 \<Rightarrow> u64 \<Rightarrow> u64 \<Rightarrow> 's \<Rightarrow> (u64 \<times> u64) \<times> 's" where
  "rmat_loop gen 0 a b c d step u v s = ((u, v), s)"
| "rmat_loop gen (Suc j) a b c d step u v s =
     (let (p, s1) = gen s;
          (right, below) = (if p < a then (False, False) else if a \<le> p \<and> p < a + b then (True, False)
            else if a + b \<le> p \<and> p < a + b + c then (False, True) else (True, True));
          (xa, s2) = gen s1; (xb, s3) = gen s2; (xc, s4) = gen s3; (xd, s5) = gen s4;
          a1 = a * (9 / 10 + 2 / 10 * xa); b1 = b * (9 / 10 + 2 / 10 * xb); c1 = c * (9 / 10 + 2 / 10 * xc); d1 = d * (9 / 10 + 2 / 10 * xd);
          S = a1 + b1 + c1 + d1
      in rmat_loop gen j (a1 / S) (b1 / S) (c1 / S) (1 - a1 / S - b1 / S - c1 / S) (step div 2)
           (if below then u + step else u) (if right then v + step else v) s5)"

definition rmat_generate_edge :: "('s \<Rightarrow> real \<times> 's) \<Rightarrow> rmat \<Rightarrow> 's \<Rightarrow> ((u64 \<times> u64) \<times> 's) option" where
  "rmat_generate_edge gen R s =
     (let ((u, v), s') = rmat_loop gen (rm_vertex_scale R) (rm_a R) (rm_b R) (rm_c R) (rm_d R) (push_bit (rm_vertex_scale R) 1 div 2) 0 0 s
      in if rm_scramble R
         then Option.bind (hash_nbits u (int (rm_vertex_scale R))) (\<lambda>u'. Option.bind (hash_nbits v (int (rm_vertex_scale R))) (\<lambda>v'. Some ((u', v'), s')))
         else Some ((u, v), s'))"

definition rmat_max_vertex_id :: "rmat \<Rightarrow> u64" where
  "rmat_max_vertex_id R = push_bit (rm_vertex_scale R) 1 - 1"

definition rmat_get_next :: "('s \<Rightarrow> real \<times> 's) \<Rightarrow> rmat \<Rightarrow> ('s, u64 \<times> u64) edge_iter \<Rightarrow> ('s, u64 \<times> u64) edge_iter option" where
  "rmat_get_next gen R = edge_get_next (rm_undirected R) (\<lambda>s e. rmat_generate_edge gen R s) prod.swap
     (\<lambda>e. fst e \<le> rmat_max_vertex_id R \<and> snd e \<le> rmat_max_vertex_id R)"

definition rmat_begin :: "('s \<Rightarrow> real \<times> 's) \<Rightarrow> rmat \<Rightarrow> 's \<Rightarrow> ('s, u64 \<times> u64) edge_iter option" where
  "rmat_begin gen R seeded = edge_iter_new (rm_undirected R) (\<lambda>s e. rmat_generate_edge gen R s) prod.swap
     (\<lambda>e. fst e \<le> rmat_max_vertex_id R \<and> snd e \<le> rmat_max_vertex_id R) (0, 0) seeded 0"

definition rmat_edges :: "nat \<Rightarrow> ('s \<Rightarrow> real \<times> 's) \<Rightarrow> rmat \<Rightarrow> 's \<Rightarrow> (u64 \<times> u64) list option" where
  "rmat_edges fuel gen R seeded = Option.bind (rmat_begin gen R seeded) (edges_upto fuel (rmat_get_next gen R) (rm_edge_count R))"

subsection \<open>Every label is below the number of vertices\<close>

lemma rmat_loop_bound:
  assumes "unat u + 2 ^ n \<le> 2 ^ 64" "unat v + 2 ^ n \<le> 2 ^ 64" "0 < n \<Longrightarrow> unat step = 2 ^ (n - 1)" "rmat_loop gen n a b c d step u v s = ((u', v'), s')"
  shows "unat u' < unat u + 2 ^ n \<and> unat v' < unat v + 2 ^ n"
  using assms
proof (induction n arbitrary: a b c d step u v s)
  case (Suc n)
  let ?h = "2 ^ n :: nat"
  have step: "unat step = ?h" using Suc.prems(3) by simp
  have half: "unat (step div 2) = 2 ^ (n - 1)" if "0 < n"
  proof -
    have "?h = 2 * 2 ^ (n - 1)" using that by (cases n) simp_all
    then show ?thesis using step by (simp add: unat_div)
  qed
  have next1: "unat (if q then w + step else w) + ?h \<le> 2 ^ 64 \<and> unat (if q then w + step else w) + ?h \<le> unat w + 2 ^ Suc n"
    if w: "unat w + 2 ^ Suc n \<le> 2 ^ 64" for q w
  proof -
    have "unat w + unat step < 2 ^ 64" using w step zero_less_power [of "2 :: nat" n] by (simp only: power_Suc) linarith
    then have "unat (w + step) = unat w + ?h" using unat_add_lem [of w step] step by simp
    then show ?thesis using w by auto
  qed
  obtain a' b' c' d' qu qv s'' where "rmat_loop gen n a' b' c' d' (step div 2) (if qu then u + step else u) (if qv then v + step else v) s'' = ((u', v'), s')"
    using Suc.prems(4) by (auto simp: Let_def split: prod.splits)
  from Suc.IH [OF conjunct1 [OF next1 [OF Suc.prems(1), of qu]] conjunct1 [OF next1 [OF Suc.prems(2), of qv]] half this]
  show ?case using conjunct2 [OF next1 [OF Suc.prems(1), of qu]] conjunct2 [OF next1 [OF Suc.prems(2), of qv]]
    using order_less_le_trans by blast
qed simp

definition rmat_fits :: "rmat \<Rightarrow> bool" where
  "rmat_fits R \<longleftrightarrow> rm_vertex_scale R < 64 \<and> (rm_scramble R \<longrightarrow> 16 < rm_vertex_scale R)"

definition rmat_checked :: "rmat \<Rightarrow> rmat" where
  "rmat_checked R = (if rmat_fits R then R else R\<lparr>rm_vertex_scale := 0, rm_scramble := False\<rparr>)"

definition rmat_ok :: "rmat \<Rightarrow> u64 \<times> u64 \<Rightarrow> bool" where
  "rmat_ok R e \<longleftrightarrow> fst e \<le> rmat_max_vertex_id R \<and> snd e \<le> rmat_max_vertex_id R"

lemma unat_push_bit_1: "n < 64 \<Longrightarrow> unat (push_bit n (1 :: u64)) = 2 ^ n"
proof -
  assume "n < 64"
  moreover have "(2 :: nat) ^ n < 2 ^ 64" by (rule power_strict_increasing) (use \<open>n < 64\<close> in simp_all)
  moreover have "unat (push_bit n (1 :: u64)) = take_bit 64 (2 ^ n)"
    by (subst unsigned_push_bit_eq) (simp add: push_bit_eq_mult)
  ultimately show ?thesis by (simp add: take_bit_nat_eq_self)
qed

lemma max_vertex_iff: "rm_vertex_scale R < 64 \<Longrightarrow> x \<le> rmat_max_vertex_id R \<longleftrightarrow> unat x < 2 ^ rm_vertex_scale R"
proof -
  assume s: "rm_vertex_scale R < 64"
  have "unat (rmat_max_vertex_id R) = 2 ^ rm_vertex_scale R - 1"
    using unat_push_bit_1 [OF s] by (simp add: rmat_max_vertex_id_def unat_sub word_le_nat_alt)
  then show ?thesis using zero_less_power [of "2 :: nat" "rm_vertex_scale R"] unfolding word_le_nat_alt by linarith
qed

lemma rmat_edge_ok:
  assumes "rmat_fits R"
  shows "\<exists>e s'. rmat_generate_edge gen R s = Some (e, s') \<and> rmat_ok R e"
proof -
  let ?n = "rm_vertex_scale R"
  have n: "?n < 64" using assms by (simp add: rmat_fits_def)
  obtain u v s' where r: "rmat_loop gen ?n (rm_a R) (rm_b R) (rm_c R) (rm_d R) (push_bit ?n 1 div 2) 0 0 s = ((u, v), s')"
    by (metis prod.exhaust)
  have "unat (push_bit ?n 1 div 2 :: u64) = 2 ^ (?n - 1)" if "0 < ?n"
    using that n unat_push_bit_1 [of ?n] by (cases ?n) (simp_all add: unat_div)
  moreover have "(2 :: nat) ^ ?n \<le> 2 ^ 64" by (rule power_increasing) (use n in simp_all)
  ultimately have b: "unat u < 2 ^ ?n" "unat v < 2 ^ ?n"
    using rmat_loop_bound [OF _ _ _ r] by simp_all
  show ?thesis
  proof (cases "rm_scramble R")
    case False
    then show ?thesis using r b by (simp add: rmat_generate_edge_def rmat_ok_def max_vertex_iff [OF n])
  next
    case True
    then have bij: "\<And>x. hash_nbits x (int ?n) \<noteq> None" "bij_betw (\<lambda>x. the (hash_nbits x (int ?n))) (nbit_labels ?n) (nbit_labels ?n)"
      using hash_nbits_bij [of "int ?n"] assms by (simp_all add: rmat_fits_def)
    have h: "\<exists>y. hash_nbits x (int ?n) = Some y \<and> unat y < 2 ^ ?n" if "unat x < 2 ^ ?n" for x
      using bij(1) [of x] bij_betw_apply [OF bij(2), of x] that by (auto simp: nbit_labels_iff [OF n])
    show ?thesis using h [OF b(1)] h [OF b(2)] True r by (auto simp: rmat_generate_edge_def rmat_ok_def max_vertex_iff [OF n])
  qed
qed

interpretation rmat: edge_source "rm_undirected (rmat_checked R)" "\<lambda>s e. rmat_generate_edge gen (rmat_checked R) s" prod.swap "rmat_ok (rmat_checked R)" "\<lambda>_ _. True"
  for R gen
proof
  fix s e
  have "rmat_fits (rmat_checked R)" by (simp add: rmat_checked_def) (simp add: rmat_fits_def)
  then show "\<exists>e' s'. rmat_generate_edge gen (rmat_checked R) s = Some (e', s') \<and> rmat_ok (rmat_checked R) e' \<and> rmat_ok (rmat_checked R) (prod.swap e') \<and> True \<and> True"
    using rmat_edge_ok [of "rmat_checked R" gen s] by (auto simp: rmat_ok_def)
qed

text \<open>
  C20. The R-MAT generator, for whatever random numbers it gets, up to a scale of 63 (and above 16 with scrambling, below which the hash
  fails its assertion).  Going through its iterator takes exactly \<open>m_edge_count\<close> edges, each of them also reversed when the graph is
  undirected; every label is at most \<open>max_vertex_id()\<close>, so no assertion fails.
\<close>

theorem rmat_edges_exact:
  assumes "rmat_fits R" "2 * rm_edge_count R < fuel"
  shows "\<exists>es. length es = rm_edge_count R \<and> (\<forall>e \<in> set es. fst e \<le> rmat_max_vertex_id R \<and> snd e \<le> rmat_max_vertex_id R)
    \<and> rmat_edges fuel gen R seeded = Some (concat (map (\<lambda>e. if rm_undirected R then [e, (snd e, fst e)] else [e]) es))"
proof -
  have R: "rmat_checked R = R" using assms(1) by (simp add: rmat_checked_def)
  let ?es = "produced (rm_undirected R) (\<lambda>s e. rmat_generate_edge gen R s) prod.swap (rm_edge_count R) seeded (0, 0)"
  have dirs: "directions u prod.swap = (\<lambda>e :: u64 \<times> u64. if u then [e, (snd e, fst e)] else [e])" for u by (auto simp: directions_def prod.swap_def)
  have "rmat_edges fuel gen R seeded = Some (concat (map (directions (rm_undirected R) prod.swap) ?es))"
    using rmat.edges_seen [OF TrueI assms(2), of R gen "(0, 0)" seeded] unfolding R rmat_ok_def [abs_def]
    by (simp add: rmat_edges_def rmat_begin_def rmat_get_next_def)
  moreover have "length ?es = rm_edge_count R" using rmat.produced_length [OF TrueI, of R gen "rm_edge_count R" seeded "(0, 0)"] unfolding R .
  moreover have "\<forall>e \<in> set ?es. rmat_ok R e" using rmat.produced_ok [OF TrueI, of _ R gen "rm_edge_count R" seeded "(0, 0)"] unfolding R by blast
  ultimately show ?thesis unfolding dirs rmat_ok_def by blast
qed

lemma rmat_edges_exact_witness:
  "\<exists>es. length es = 3 \<and> (\<forall>e \<in> set es. fst e \<le> 3 \<and> snd e \<le> 3)
    \<and> rmat_edges 7 (\<lambda>s. (if even s then 1 / 4 else 3 / 4, Suc s)) \<lparr>rm_vertex_scale = 2, rm_edge_count = 3, rm_scramble = False, rm_undirected = True,
        rm_a = 57 / 100, rm_b = 19 / 100, rm_c = 19 / 100, rm_d = 1 / 20\<rparr> (0 :: nat)
      = Some (concat (map (\<lambda>e. [e, (snd e, fst e)]) es))"
  using rmat_edges_exact [of "\<lparr>rm_vertex_scale = 2, rm_edge_count = 3, rm_scramble = False, rm_undirected = True,
      rm_a = 57 / 100, rm_b = 19 / 100, rm_c = 19 / 100, rm_d = 1 / 20\<rparr>" 7 "\<lambda>s. (if even s then 1 / 4 else 3 / 4, Suc s)" 0]
  by (simp add: rmat_fits_def rmat_max_vertex_id_def)

end
