(* ===== verification/Edge_List_Reader.thy ===== *)
theory Edge_List_Reader
  imports Edge_Sources Ygm_Comm
begin

section \<open>Reading edge lists (parallel\_edge\_list\_reader.hpp)\<close>

text \<open>
  The files of an edge list are shared out over the ranks; a first pass counts the edges of a rank and finds the largest label, the
  iterator of \<open>Edge_Sources\<close> makes the second one.  A file is its contents, a stream what is left to read of it.  Streams of characters
  follow the standard: \<open>getline\<close>, and \<open>operator>>\<close> for \<open>uint64_t\<close> and for characters, which skips white space, fails for good once it has
  failed, and then leaves its variable as it was.  \<open>source\<close>, \<open>target\<close> and \<open>weight\<close> are never initialised: \<open>junk\<close> is what they hold.
\<close>

subsection \<open>Streams\<close>

definition newline :: char where
  "newline = CHR 0x0A"

definition is_space :: "char \<Rightarrow> bool" where
  "is_space c \<longleftrightarrow> c \<in> {CHR 0x20, CHR 0x09, CHR 0x0A, CHR 0x0B, CHR 0x0C, CHR 0x0D}"

definition is_digit :: "char \<Rightarrow> bool" where
  "is_digit c \<longleftrightarrow> 48 \<le> (of_char c :: nat) \<and> (of_char c :: nat) \<le> 57"

definition get_line :: "string \<Rightarrow> (string \<times> string) option" where
  "get_line s = (if s = [] then None else Some (takeWhile (\<lambda>c. c \<noteq> newline) s, drop 1 (dropWhile (\<lambda>c. c \<noteq> newline) s)))"

type_synonym stream = "string \<times> bool"

definition dec_value :: "string \<Rightarrow> nat" where
  "dec_value ds = foldl (\<lambda>n c. 10 * n + (of_char c - 48)) 0 ds"

definition extract_u64 :: "stream \<Rightarrow> u64 \<Rightarrow> u64 \<times> stream" where
  "extract_u64 st x =
     (if snd st then (x, st)
      else case dropWhile is_space (fst st) of
        [] \<Rightarrow> (x, [], True)
      | c # s \<Rightarrow>
          let sign = (c = CHR ''-'' \<or> c = CHR ''+''); digits = takeWhile is_digit (if sign then s else c # s);
              rest = dropWhile is_digit (if sign then s else c # s); v = dec_value digits
          in if digits = [] then (0, rest, True)
             else if 2 ^ 64 \<le> v then (- 1, rest, True)
             else (if c = CHR ''-'' then - of_nat v else of_nat v, rest, False))"

definition extract_char :: "stream \<Rightarrow> 8 word \<Rightarrow> 8 word \<times> stream" where
  "extract_char st x =
     (if snd st then (x, st) else case dropWhile is_space (fst st) of [] \<Rightarrow> (x, [], True) | c # s \<Rightarrow> (of_char c, s, False))"

text \<open>\<open>split\<close>: the words of a line.\<close>

function split :: "string \<Rightarrow> string list" where
  "split line = (case dropWhile is_space line of [] \<Rightarrow> []
     | c # s \<Rightarrow> takeWhile (\<lambda>c. \<not> is_space c) (c # s) # split (dropWhile (\<lambda>c. \<not> is_space c) (c # s)))"
  by auto
termination
proof (relation "measure length")
  fix line c s assume "dropWhile is_space line = c # s"
  then have "length (c # s) \<le> length line" "\<not> is_space c"
    using length_dropWhile_le [of is_space line] hd_dropWhile [of is_space line] by (metis, metis list.sel(1) list.distinct(1))
  then show "(dropWhile (\<lambda>c. \<not> is_space c) (c # s), line) \<in> measure length"
    using length_dropWhile_le [of "\<lambda>c. \<not> is_space c" s] by simp
qed simp

declare split.simps [simp del]

subsection \<open>The reader\<close>

type_synonym 'd read_edge = "u64 \<times> u64 \<times> 'd"

record 'd reader =
  m_local_filenames :: "string list"
  m_local_edge_count :: nat
  m_global_max_vertex :: u64
  m_undirected :: bool
  m_has_edge_data :: bool

text \<open>\<open>extract_data\<close> is \<open>operator>>\<close> of the type of the edge data, \<open>zero_data\<close> its 0.\<close>

record 'd edge_type =
  extract_data :: "stream \<Rightarrow> 'd \<Rightarrow> 'd \<times> stream"
  zero_data :: 'd
  junk :: "'d read_edge"

definition u8_edges :: "8 word read_edge \<Rightarrow> 8 word edge_type" where
  "u8_edges j = \<lparr>extract_data = extract_char, zero_data = 0, junk = j\<rparr>"

definition read_line :: "'d edge_type \<Rightarrow> bool \<Rightarrow> string \<Rightarrow> 'd read_edge" where
  "read_line T has_edge_data line =
     (case junk T of (source, target, weight) \<Rightarrow>
        let (source, st) = extract_u64 (line, False) source; (target, st) = extract_u64 st target;
            weight = (if has_edge_data then fst (extract_data T st weight) else zero_data T)
        in (source, target, weight))"

text \<open>\<open>try_read_edge\<close>: the state is what is left of the open files, the first is read.\<close>

fun try_read_edge :: "'d edge_type \<Rightarrow> bool \<Rightarrow> string list \<Rightarrow> ('d read_edge \<times> string list) option" where
  "try_read_edge T has_edge_data [] = None"
| "try_read_edge T has_edge_data (file # files) =
     (case get_line file of
        Some (line, rest) \<Rightarrow> Some (read_line T has_edge_data line, rest # files)
      | None \<Rightarrow> try_read_edge T has_edge_data files)"

text \<open>\<open>open_files\<close>: files that cannot be opened are reported and left out; \<open>None\<close> is the error thrown when files are open.\<close>

definition open_files :: "(string \<Rightarrow> string option) \<Rightarrow> string list \<Rightarrow> string list \<Rightarrow> string list option" where
  "open_files fs names ifstreams = (if ifstreams \<noteq> [] then None else Some (List.map_filter fs names))"

lemma get_line_shorter: "get_line s = Some (l, r) \<Longrightarrow> length r < length s"
  unfolding get_line_def using length_dropWhile_le [of "\<lambda>c. c \<noteq> newline" s] by (cases s) (auto split: if_splits)

lemma try_read_shorter: "try_read_edge T b s = Some (e, s') \<Longrightarrow> sum_list (map (\<lambda>f. Suc (length f)) s') < sum_list (map (\<lambda>f. Suc (length f)) s)"
proof (induction s)
  case (Cons f fs)
  show ?case
  proof (cases "get_line f")
    case None
    then show ?thesis using Cons by auto
  next
    case (Some p)
    then show ?thesis using Cons.prems get_line_shorter [of f "fst p" "snd p"] by (cases p) auto
  qed
qed simp

function read_all :: "'d edge_type \<Rightarrow> bool \<Rightarrow> string list \<Rightarrow> 'd read_edge list" where
  "read_all T b s = (case try_read_edge T b s of None \<Rightarrow> [] | Some (e, s') \<Rightarrow> e # read_all T b s')"
  by auto
termination
  by (relation "measure (\<lambda>(T, b, s). sum_list (map (\<lambda>f. Suc (length f)) s))") (auto dest: try_read_shorter)

declare read_all.simps [simp del]

text \<open>The constructor at every rank: its files, whether rank 0 finds a third word in its first line, and the first pass.\<close>

definition local_filenames :: "comms \<Rightarrow> nat \<Rightarrow> string list \<Rightarrow> string list" where
  "local_filenames c r filenames =
     (let shm_rank = comm_rank (comm_nl c r) r; shm_size = comm_size (comm_nl c r);
          node_rank = comm_rank (comm_nr c r) r; node_size = comm_size (comm_nr c r)
      in map (\<lambda>i. filenames ! i) (filter (\<lambda>i. i mod node_size = node_rank \<and> (i div node_size) mod shm_size = shm_rank) [0..<length filenames]))"

definition has_third_word :: "(string \<Rightarrow> string option) \<Rightarrow> string \<Rightarrow> bool" where
  "has_third_word fs name =
     (case fs name of None \<Rightarrow> False | Some file \<Rightarrow>
        (case get_line file of None \<Rightarrow> False | Some (line, rest) \<Rightarrow> 2 < length (split line)))"

definition max_label :: "'d read_edge list \<Rightarrow> u64" where
  "max_label es = fold (\<lambda>e m. max (fst (snd e)) (max (fst e) m)) es 0"

text \<open>\<open>None\<close>: rank 0 has no file, and \<open>m_local_filenames[0]\<close> is out of range.\<close>

definition new_readers :: "comms \<Rightarrow> 'd edge_type \<Rightarrow> (string \<Rightarrow> string option) \<Rightarrow> string list \<Rightarrow> bool \<Rightarrow> (nat \<Rightarrow> 'd reader) option" where
  "new_readers c T fs filenames undirected =
     (case local_filenames c 0 filenames of
        [] \<Rightarrow> None
      | name # _ \<Rightarrow>
          let has_edge_data = has_third_word fs name;
              pass = (\<lambda>r. read_all T has_edge_data (List.map_filter fs (local_filenames c r filenames)));
              m = Max ((\<lambda>r. max_label (pass r)) ` {..<world_size c})
          in Some (\<lambda>r. \<lparr>m_local_filenames = local_filenames c r filenames, m_local_edge_count = length (pass r),
               m_global_max_vertex = m, m_undirected = undirected, m_has_edge_data = has_edge_data\<rparr>))"

text \<open>The iterator: at the end of the files the current edge stays.\<close>

definition reader_produce :: "'d edge_type \<Rightarrow> bool \<Rightarrow> string list \<Rightarrow> 'd read_edge \<Rightarrow> ('d read_edge \<times> string list) option" where
  "reader_produce T b s e = (case try_read_edge T b s of None \<Rightarrow> Some (e, []) | Some (e', s') \<Rightarrow> Some (e', s'))"

definition swap_ends :: "'d read_edge \<Rightarrow> 'd read_edge" where
  "swap_ends e = (fst (snd e), fst e, snd (snd e))"

definition in_range :: "u64 \<Rightarrow> 'd read_edge \<Rightarrow> bool" where
  "in_range m e \<longleftrightarrow> fst e \<le> m \<and> fst (snd e) \<le> m"

definition reader_get_next :: "'d edge_type \<Rightarrow> 'd reader \<Rightarrow> (string list, 'd read_edge) edge_iter \<Rightarrow> (string list, 'd read_edge) edge_iter option" where
  "reader_get_next T R = edge_get_next (m_undirected R) (reader_produce T (m_has_edge_data R)) swap_ends (in_range (m_global_max_vertex R))"

definition reader_begin :: "'d edge_type \<Rightarrow> (string \<Rightarrow> string option) \<Rightarrow> 'd reader \<Rightarrow> (string list, 'd read_edge) edge_iter option" where
  "reader_begin T fs R = Option.bind (open_files fs (m_local_filenames R) [])
     (\<lambda>s. edge_iter_new (m_undirected R) (reader_produce T (m_has_edge_data R)) swap_ends (in_range (m_global_max_vertex R)) (0, 0, zero_data T) s 0)"

definition reader_edges :: "nat \<Rightarrow> 'd edge_type \<Rightarrow> (string \<Rightarrow> string option) \<Rightarrow> 'd reader \<Rightarrow> 'd read_edge list option" where
  "reader_edges fuel T fs R = Option.bind (reader_begin T fs R) (edges_upto fuel (reader_get_next T R) (m_local_edge_count R))"

subsection \<open>The iterator sees what the first pass read\<close>

definition readable :: "'d edge_type \<Rightarrow> bool \<Rightarrow> u64 \<Rightarrow> string list \<Rightarrow> 'd read_edge \<Rightarrow> bool" where
  "readable T b m s e \<longleftrightarrow> in_range m e \<and> (\<forall>x \<in> set (read_all T b s). in_range m x)"

lemma in_range_swap [simp]: "in_range m (swap_ends e) = in_range m e"
  by (auto simp: in_range_def swap_ends_def)

lemma read_all_Nil [simp]: "read_all T b [] = []"
  by (simp add: read_all.simps)

lemma reader_law:
  assumes "readable T b m s e"
  shows "\<exists>e' s'. reader_produce T b s e = Some (e', s') \<and> in_range m e' \<and> in_range m (swap_ends e') \<and> readable T b m s' e' \<and> readable T b m s' (swap_ends e')"
proof (cases "try_read_edge T b s")
  case None
  then show ?thesis using assms by (simp add: reader_produce_def readable_def)
next
  case (Some p)
  then show ?thesis using assms by (cases p) (simp add: reader_produce_def readable_def read_all.simps [of T b s])
qed

interpretation reader: edge_source u "reader_produce T b" swap_ends "in_range m" "readable T b m" for u T b m
  by unfold_locales (rule reader_law)

lemma produced_read: "produced u (reader_produce T b) swap_ends (length (read_all T b s)) s e = read_all T b s"
proof (induction T b s arbitrary: e rule: read_all.induct)
  case (1 T b s)
  show ?case
  proof (cases "try_read_edge T b s")
    case None
    then show ?thesis by (simp add: read_all.simps [of T b s])
  next
    case (Some p)
    then show ?thesis using 1 by (cases p) (simp add: read_all.simps [of T b s] reader_produce_def)
  qed
qed

lemma reader_sees:
  assumes "\<forall>e \<in> set es. in_range (m_global_max_vertex R) e" "es = read_all T (m_has_edge_data R) (List.map_filter fs (m_local_filenames R))"
    "m_local_edge_count R = length es" "2 * length es < fuel"
  shows "reader_edges fuel T fs R = Some (concat (map (\<lambda>e. if m_undirected R then [e, swap_ends e] else [e]) es))"
proof -
  let ?s = "List.map_filter fs (m_local_filenames R)" and ?none = "(0, 0, zero_data T)"
  have "readable T (m_has_edge_data R) (m_global_max_vertex R) ?s ?none" using assms(1,2) by (simp add: readable_def in_range_def)
  from reader.edges_seen [OF this, of "length es" fuel "m_undirected R"] assms(4)
  have "reader_edges fuel T fs R = Some (concat (map (directions (m_undirected R) swap_ends) es))"
    unfolding reader_edges_def reader_begin_def open_files_def reader_get_next_def assms(3)
    using produced_read [of "m_undirected R" T "m_has_edge_data R" ?s ?none] assms(2) by simp
  then show ?thesis by (simp add: directions_def [abs_def])
qed

subsection \<open>Printed files\<close>

text \<open>The other direction: a file of edges, one line each, with the data as a third word if there is any.\<close>

fun show_nat :: "nat \<Rightarrow> string" where
  "show_nat n = (if n < 10 then [char_of (48 + n)] else show_nat (n div 10) @ [char_of (48 + n mod 10)])"

declare show_nat.simps [simp del]

definition print_edge :: "('d \<Rightarrow> string) option \<Rightarrow> 'd read_edge \<Rightarrow> string" where
  "print_edge show_data e = show_nat (unat (fst e)) @ '' '' @ show_nat (unat (fst (snd e)))
     @ (case show_data of None \<Rightarrow> [] | Some f \<Rightarrow> '' '' @ f (snd (snd e)))"

definition print_file :: "('d \<Rightarrow> string) option \<Rightarrow> 'd read_edge list \<Rightarrow> string" where
  "print_file show_data es = concat (map (\<lambda>e. print_edge show_data e @ [newline]) es)"

text \<open>What reading relies on: a printed value has no white space, is not empty, and is read back at the end of a line.\<close>

definition data_reads_back :: "'d edge_type \<Rightarrow> ('d \<Rightarrow> string) option \<Rightarrow> 'd \<Rightarrow> bool" where
  "data_reads_back T show_data w \<longleftrightarrow> (case show_data of None \<Rightarrow> w = zero_data T
     | Some f \<Rightarrow> f w \<noteq> [] \<and> (\<forall>c \<in> set (f w). \<not> is_space c) \<and> (\<forall>x. fst (extract_data T ('' '' @ f w, False) x) = w))"

lemma digit_char: "d < 10 \<Longrightarrow> is_digit (char_of (48 + d :: nat))" "d < 10 \<Longrightarrow> of_char (char_of (48 + d :: nat) :: char) = (48 + d :: nat)"
  by (simp_all add: is_digit_def)

lemma show_nat_digits: "c \<in> set (show_nat n) \<Longrightarrow> is_digit c"
proof (induction n rule: show_nat.induct)
  case (1 n)
  then show ?case by (subst (asm) (2) show_nat.simps) (auto simp: digit_char split: if_splits)
qed

lemma show_nat_nonempty: "show_nat n \<noteq> []"
  by (subst show_nat.simps) simp

lemma dec_value_snoc: "dec_value (ds @ [c]) = 10 * dec_value ds + (of_char c - 48)"
  by (simp add: dec_value_def)

lemma dec_value_show: "dec_value (show_nat n) = n"
proof (induction n rule: show_nat.induct)
  case (1 n)
  show ?case
  proof (cases "n < 10")
    case True
    then show ?thesis by (subst show_nat.simps) (simp add: dec_value_def)
  next
    case False
    then have "dec_value (show_nat n) = 10 * dec_value (show_nat (n div 10)) + n mod 10"
      by (subst show_nat.simps) (simp add: dec_value_snoc)
    then show ?thesis using 1 False by simp
  qed
qed

lemma digit_no_space: "is_digit c \<Longrightarrow> \<not> is_space c" "is_digit c \<Longrightarrow> c \<noteq> CHR ''-'' \<and> c \<noteq> CHR ''+''" "is_digit c \<Longrightarrow> c \<noteq> newline"
  by (auto simp: is_digit_def is_space_def newline_def)

lemma extract_printed:
  assumes "t = [] \<or> \<not> is_digit (hd t)" "set sp \<subseteq> {CHR '' ''}"
  shows "extract_u64 (sp @ show_nat (unat x) @ t, False) old = (x, t, False)"
proof -
  obtain c ds where ds: "show_nat (unat x) = c # ds" using show_nat_nonempty by (cases "show_nat (unat x)") auto
  have digits: "is_digit c" "\<forall>d \<in> set ds. is_digit d" using show_nat_digits [of _ "unat x"] ds by auto
  have "dropWhile is_space (sp @ c # ds @ t) = c # ds @ t"
    using assms(2) digits digit_no_space(1) [of c] by (induction sp) (auto simp: is_space_def)
  moreover have "takeWhile is_digit (c # ds @ t) = c # ds" "dropWhile is_digit (c # ds @ t) = t"
    using digits assms(1) by (auto simp: takeWhile_append dropWhile_append) (cases t; simp)+
  moreover have "dec_value (c # ds) = unat x" using dec_value_show [of "unat x"] ds by simp
  moreover have "unat x < 2 ^ LENGTH(64)" by (rule unsigned_less)
  ultimately show ?thesis using digit_no_space(2) [OF digits(1)] by (simp add: ds extract_u64_def Let_def)
qed

lemma read_printed:
  assumes "data_reads_back T show_data (snd (snd e))"
  shows "read_line T (show_data \<noteq> None) (print_edge show_data e) = e"
proof -
  obtain s t w where e: "e = (s, t, w)" by (cases e)
  obtain js jt jw where j: "junk T = (js, jt, jw)" by (cases "junk T")
  let ?d = "case show_data of None \<Rightarrow> [] | Some f \<Rightarrow> '' '' @ f w"
  have "extract_u64 (print_edge show_data e, False) js = (s, '' '' @ show_nat (unat t) @ ?d, False)"
    using extract_printed [of "'' '' @ show_nat (unat t) @ ?d" "[]" s js] by (simp add: print_edge_def e is_digit_def cong: option.case_cong)
  moreover have "extract_u64 ('' '' @ show_nat (unat t) @ ?d, False) jt = (t, ?d, False)"
    using extract_printed [of ?d "'' ''" t jt] by (simp add: is_digit_def split: option.splits)
  ultimately show ?thesis using assms by (auto simp: read_line_def j e data_reads_back_def Let_def split: option.splits)
qed

lemma printed_line:
  assumes "data_reads_back T show_data (snd (snd e))"
  shows "get_line (print_edge show_data e @ newline # rest) = Some (print_edge show_data e, rest)"
proof -
  have "c \<noteq> newline" if "c \<in> set (print_edge show_data e)" for c
    using that assms show_nat_digits digit_no_space(3)
    by (fastforce simp: print_edge_def data_reads_back_def newline_def is_space_def split: option.splits)
  then show ?thesis by (simp add: get_line_def takeWhile_append dropWhile_append)
qed

lemma read_all_printed:
  assumes "\<forall>e \<in> set es. data_reads_back T show_data (snd (snd e))"
  shows "read_all T (show_data \<noteq> None) (print_file show_data es # files) = es @ read_all T (show_data \<noteq> None) files"
  using assms
proof (induction es)
  case Nil
  show ?case by (simp add: print_file_def) (subst (1 2) read_all.simps, simp add: get_line_def)
next
  case (Cons e es)
  have "print_file show_data (e # es) = print_edge show_data e @ newline # print_file show_data es" by (simp add: print_file_def)
  then have "try_read_edge T (show_data \<noteq> None) (print_file show_data (e # es) # files) = Some (e, print_file show_data es # files)"
    using Cons.prems printed_line [of T show_data e] read_printed [of T show_data e] by simp
  then show ?case using Cons by (subst read_all.simps) simp
qed

lemma read_all_files:
  assumes "\<forall>f \<in> set files. fs (fst f) = Some (print_file show_data (snd f)) \<and> (\<forall>e \<in> set (snd f). data_reads_back T show_data (snd (snd e)))"
  shows "read_all T (show_data \<noteq> None) (List.map_filter fs (map fst files)) = concat (map snd files)"
  using assms by (induction files) (simp_all add: List.map_filter_simps read_all_printed del: not_None_eq)

subsection \<open>Who reads which file\<close>

lemma split_space: "is_space c \<Longrightarrow> split (c # t) = split t"
  by (subst (1 2) split.simps) simp

lemma split_word:
  assumes "w \<noteq> []" "\<forall>c \<in> set w. \<not> is_space c" "t = [] \<or> is_space (hd t)"
  shows "split (w @ t) = w # split t"
proof -
  obtain c s where w: "w = c # s" using assms(1) by (cases w) auto
  have "dropWhile (\<lambda>c. \<not> is_space c) (c # s @ t) = t" "takeWhile (\<lambda>c. \<not> is_space c) (c # s @ t) = c # s"
    using assms(2,3) unfolding w by (auto simp: takeWhile_append dropWhile_append) (cases t; simp)+
  then show ?thesis using assms(2) unfolding w by (subst split.simps) simp
qed

lemma split_Nil [simp]: "split [] = []"
  by (simp add: split.simps)

lemma third_word:
  assumes "fs name = Some (print_file show_data es)" "\<forall>e \<in> set es. data_reads_back T show_data (snd (snd e))" "show_data \<noteq> None \<longrightarrow> es \<noteq> []"
  shows "has_third_word fs name \<longleftrightarrow> show_data \<noteq> None"
proof (cases es)
  case Nil
  then show ?thesis using assms(1,3) by (simp add: has_third_word_def print_file_def get_line_def)
next
  case (Cons e es')
  have ns: "show_nat n \<noteq> []" "\<forall>c \<in> set (show_nat n). \<not> is_space c" for n
    using show_nat_nonempty show_nat_digits digit_no_space(1) by auto
  have sp: "is_space (CHR '' '')" by (simp add: is_space_def)
  have "print_file show_data es = print_edge show_data e @ newline # print_file show_data es'" by (simp add: print_file_def Cons)
  then have line: "get_line (print_file show_data es) = Some (print_edge show_data e, print_file show_data es')"
    using printed_line [of T show_data e] assms(2) Cons by simp
  have "length (split (print_edge show_data e)) = (if show_data = None then 2 else 3)"
  proof (cases show_data)
    case None
    then show ?thesis by (simp add: print_edge_def split_word [OF ns] split_space sp) (simp add: split_word [OF ns, of "[]", simplified])
  next
    case (Some f)
    then have "f (snd (snd e)) \<noteq> []" "\<forall>c \<in> set (f (snd (snd e))). \<not> is_space c" using assms(2) Cons by (auto simp: data_reads_back_def)
    then show ?thesis using Some split_word [of "f (snd (snd e))" "[]"] by (simp add: print_edge_def split_word [OF ns] split_space sp)
  qed
  then show ?thesis using assms(1) by (simp add: has_third_word_def line)
qed

definition file_reader :: "nat \<Rightarrow> nat \<Rightarrow> nat \<Rightarrow> nat" where
  "file_reader N L i = (i mod N) * L + (i div N) mod L"

definition own_files :: "nat \<Rightarrow> nat \<Rightarrow> nat \<Rightarrow> 'f list \<Rightarrow> 'f list" where
  "own_files N L r files = map ((!) files) (filter (\<lambda>i. file_reader N L i = r) [0..<length files])"

lemma local_filenames_eq:
  assumes "blocked_comms N L c" "r < N * L"
  shows "local_filenames c r (map fst files) = map fst (own_files N L r files)"
proof -
  have pos: "0 < N" "0 < L" using blocked_comms_pos [OF assms(1)] by auto
  have own: "i mod N = r div L \<and> (i div N) mod L = r mod L \<longleftrightarrow> file_reader N L i = r" for i
    unfolding file_reader_def using pos by (metis add.commute div_mult_mod_eq div_mult_self1_is_m div_mult_self3 div_less mod_less_divisor mod_mult_self3 mod_mod_trivial add_cancel_left_left)
  have ranks: "comm_rank (comm_nl c r) r = r mod L" "comm_rank (comm_nr c r) r = r div L" "comm_size (comm_nl c r) = L" "comm_size (comm_nr c r) = N"
    using assms comms_nl_rank comms_nr_rank comms_nl_size comms_nr_size by simp_all
  show ?thesis unfolding local_filenames_def ranks Let_def own own_files_def by simp
qed

lemma shares_all:
  assumes "\<And>i. owner i < (P :: nat)"
  shows "(\<Sum>r < P. mset (concat (map g (filter (\<lambda>i. owner i = r) xs)))) = mset (concat (map g xs))"
proof (induction xs)
  case (Cons i xs)
  have "(\<Sum>r < P. mset (concat (map g (filter (\<lambda>i. owner i = r) (i # xs)))))
      = (\<Sum>r < P. (if r = owner i then mset (g i) else {#}) + mset (concat (map g (filter (\<lambda>i. owner i = r) xs))))"
    by (intro sum.cong) auto
  also have "\<dots> = mset (g i) + mset (concat (map g xs))" using assms [of i] Cons by (simp add: sum.distrib)
  finally show ?case by simp
qed simp

lemma own_files_all:
  assumes "0 < N" "0 < L"
  shows "(\<Sum>r < N * L. mset (concat (map g (own_files N L r files)))) = mset (concat (map g files))"
proof -
  have less: "file_reader N L i < N * L" for i
  proof -
    have "file_reader N L i < (i mod N) * L + L" using assms by (simp add: file_reader_def)
    also have "\<dots> \<le> N * L" using assms mult_le_mono1 [of "Suc (i mod N)" N L] by (simp add: Suc_leI)
    finally show ?thesis .
  qed
  from shares_all [of "file_reader N L", OF less, where g = "\<lambda>i. g (files ! i)" and xs = "[0..<length files]"] show ?thesis
    using nth_equalityI [of "map (\<lambda>i. g (files ! i)) [0..<length files]" "map g files"] by (simp add: own_files_def o_def)
qed

lemma max_label_ge: "e \<in> set es \<Longrightarrow> fst e \<le> max_label es \<and> fst (snd e) \<le> max_label es"
proof -
  have mono: "m \<le> fold (\<lambda>e m. max (fst (snd e)) (max (fst e) m)) es m" for m and es :: "'d read_edge list"
  proof (induction es arbitrary: m)
    case (Cons e es)
    from Cons [of "max (fst (snd e)) (max (fst e) m)"] show ?case by simp
  qed simp
  have "e \<in> set es \<Longrightarrow> fst e \<le> fold (\<lambda>e m. max (fst (snd e)) (max (fst e) m)) es m \<and> fst (snd e) \<le> fold (\<lambda>e m. max (fst (snd e)) (max (fst e) m)) es m" for m
  proof (induction es arbitrary: m)
    case (Cons x es)
    then show ?case using mono [of "max (fst (snd x)) (max (fst x) m)" es] by auto
  qed simp
  then show "e \<in> set es \<Longrightarrow> ?thesis" unfolding max_label_def by blast
qed

subsection \<open>Property\<close>

text \<open>
  C16. Reading an edge list.  For files that print edges line by line (each line the two labels and, in all files or in none, the data), on
  any number of nodes and ranks per node: the constructor finds out whether there are data, and the ranks together see every edge of every
  file exactly once, unchanged, and also reversed for an undirected list; each rank sees as many edges as its first pass counted, and the
  assertions on the largest label hold.
\<close>

theorem edge_lists_read_exactly:
  assumes "blocked_comms N L c" "files \<noteq> []" "show_data \<noteq> None \<longrightarrow> snd (hd files) \<noteq> []"
    "\<forall>f \<in> set files. fs (fst f) = Some (print_file show_data (snd f)) \<and> (\<forall>e \<in> set (snd f). data_reads_back T show_data (snd (snd e)))"
  shows "\<exists>R es. new_readers c T fs (map fst files) undirected = Some R \<and> (\<forall>r < N * L. m_local_edge_count (R r) = length (es r)
      \<and> (\<forall>fuel > 2 * length (es r). reader_edges fuel T fs (R r) = Some (concat (map (\<lambda>e. if undirected then [e, swap_ends e] else [e]) (es r)))))
    \<and> (\<Sum>r < N * L. mset (es r)) = mset (concat (map snd files))"
proof -
  have pos: "0 < N" "0 < L" using blocked_comms_pos [OF assms(1)] by auto
  let ?b = "show_data \<noteq> None"
  define es where "es r = concat (map snd (own_files N L r files))" for r
  have names: "local_filenames c r (map fst files) = map fst (own_files N L r files)" if "r < N * L" for r
    by (rule local_filenames_eq [OF assms(1) that])
  have sub: "set (own_files N L r files) \<subseteq> set files" for r by (auto simp: own_files_def)
  have reads: "read_all T ?b (List.map_filter fs (map fst (own_files N L r files))) = es r" for r
    unfolding es_def by (rule read_all_files) (use assms(4) sub in blast)
  obtain f fls where files: "files = f # fls" using assms(2) by (cases files) auto
  have "own_files N L 0 files = f # tl (own_files N L 0 files)"
    unfolding own_files_def files by (simp add: file_reader_def upt_rec [of 0])
  then have first: "\<exists>rest. local_filenames c 0 (map fst files) = fst f # rest" using names [of 0] pos by (metis list.simps(9) nat_0_less_mult_iff)
  have third: "has_third_word fs (fst f) \<longleftrightarrow> ?b"
    by (rule third_word) (use assms(3,4) files in auto)
  define m where "m = Max ((\<lambda>r. max_label (read_all T ?b (List.map_filter fs (local_filenames c r (map fst files))))) ` {..<world_size c})"
  define R :: "nat \<Rightarrow> 'a reader" where "R r = \<lparr>m_local_filenames = local_filenames c r (map fst files),
      m_local_edge_count = length (read_all T ?b (List.map_filter fs (local_filenames c r (map fst files)))), m_global_max_vertex = m,
      m_undirected = undirected, m_has_edge_data = ?b\<rparr>" for r
  have R: "new_readers c T fs (map fst files) undirected = Some R"
    using first third unfolding new_readers_def Let_def R_def [abs_def] m_def by auto
  have range: "in_range m e" if r: "r < N * L" and e: "e \<in> set (es r)" for r e
  proof -
    have "max_label (es r) \<le> m"
      unfolding m_def using r names [OF r] reads [of r] comms_world [OF assms(1)] by (intro Max_ge) force+
    then show ?thesis using max_label_ge [OF e] by (auto simp: in_range_def)
  qed
  have each: "m_local_edge_count (R r) = length (es r) \<and> (\<forall>fuel > 2 * length (es r). reader_edges fuel T fs (R r)
      = Some (concat (map (\<lambda>e. if undirected then [e, swap_ends e] else [e]) (es r))))" if r: "r < N * L" for r
  proof (intro conjI allI impI)
    show count: "m_local_edge_count (R r) = length (es r)" using names [OF r] reads [of r] by (simp add: R_def)
    show "reader_edges fuel T fs (R r) = Some (concat (map (\<lambda>e. if undirected then [e, swap_ends e] else [e]) (es r)))" if "2 * length (es r) < fuel" for fuel
      using reader_sees [of "es r" "R r" T fs fuel] range [OF r] names [OF r] reads [of r] count that by (simp add: R_def)
  qed
  moreover have "(\<Sum>r < N * L. mset (es r)) = mset (concat (map snd files))" unfolding es_def by (rule own_files_all [OF pos])
  ultimately show ?thesis using R by blast
qed

text \<open>With the default type of the data, \<open>uint8_t\<close>, \<open>operator>>\<close> reads a character: the weight 1 is read as 49.\<close>

definition two_files :: "string \<Rightarrow> string option" where
  "two_files name = (if name = ''a'' then Some (''3 5 1'' @ [newline]) else if name = ''b'' then Some (''12 0 2'' @ [newline] @ ''7 7 2'' @ [newline]) else None)"

lemma u8_data_are_characters: "read_line (u8_edges j) True ''3 5 7'' = (3, 5, 55)"
proof -
  obtain js jt jw where "j = (js, jt, jw)" by (cases j)
  moreover have "takeWhile is_digit ''3 5 7'' = ''3''" "dropWhile is_digit ''3 5 7'' = '' 5 7''" "takeWhile is_digit ''5 7'' = ''5''" "dropWhile is_digit ''5 7'' = '' 7''"
    by (simp_all add: is_digit_def)
  moreover have "dropWhile is_space ''3 5 7'' = ''3 5 7''" "dropWhile is_space '' 5 7'' = ''5 7''" "dropWhile is_space '' 7'' = ''7''"
    by (simp_all add: is_space_def)
  ultimately show ?thesis by (simp add: read_line_def u8_edges_def extract_u64_def extract_char_def dec_value_def Let_def)
qed

lemma edge_lists_read_exactly_witness:
  "\<exists>R es. new_readers (layout 2 1) (u8_edges (0, 0, 0)) two_files [''a'', ''b''] True = Some R \<and> (\<forall>r < 2. m_local_edge_count (R r) = length (es r)
      \<and> (\<forall>fuel > 2 * length (es r). reader_edges fuel (u8_edges (0, 0, 0)) two_files (R r) = Some (concat (map (\<lambda>e. [e, swap_ends e]) (es r)))))
    \<and> (\<Sum>r < 2. mset (es r)) = {#(3, 5, 49), (12, 0, 50), (7, 7, 50)#}"
proof -
  let ?files = "[(''a'', [(3, 5, 49)]), (''b'', [(12, 0, 50), (7, 7, 50)])] :: (string \<times> 8 word read_edge list) list"
  let ?show = "\<lambda>w :: 8 word. [char_of (unat w)] :: string"
  have nums: "show_nat 3 = ''3''" "show_nat 5 = ''5''" "show_nat 12 = ''12''" "show_nat 0 = ''0''" "show_nat 7 = ''7''"
    by (simp_all add: show_nat.simps char_of_def bit_iff_odd)
  have chars: "?show 49 = ''1''" "?show 50 = ''2''" by (simp_all add: char_of_def bit_iff_odd)
  have reads: "data_reads_back (u8_edges (0, 0, 0)) (Some ?show) w" if "w = 49 \<or> w = 50" for w
    using that chars by (auto simp: data_reads_back_def u8_edges_def extract_char_def is_space_def)
  have "\<forall>f \<in> set ?files. two_files (fst f) = Some (print_file (Some ?show) (snd f)) \<and> (\<forall>e \<in> set (snd f). data_reads_back (u8_edges (0, 0, 0)) (Some ?show) (snd (snd e)))"
    using reads [of 49] reads [of 50] chars by (simp add: two_files_def print_file_def print_edge_def nums)
  from edge_lists_read_exactly [OF layout_blocked [of 2 1] _ _ this, of True] show ?thesis by simp
qed

end
