(* ===== verification/Kronecker_Generator.thy ===== *)
theory Kronecker_Generator
  imports Edge_List_Reader "HOL-Library.Log_Nat"
begin

section \<open>The Kronecker generator (kronecker\_edge\_generator.hpp)\<close>

text \<open>
  The edges of the Kronecker product of two small graphs, which every rank has: rank \<open>r\<close> combines the edges \<open>r\<close>, \<open>r + size\<close>, \<dots> of the
  first with all edges of the second.
\<close>

subsection \<open>Reading the graphs\<close>

text \<open>Every error ends the program with \<open>exit(-1)\<close>.  An edge is stored in both directions.\<close>

datatype graph_file_error = Unable_To_Open | Empty_File | Too_Many_Values | Malformed_Line

fun read_graph_lines :: "'w edge_type \<Rightarrow> 'w read_edge list \<Rightarrow> string list \<Rightarrow> graph_file_error + 'w read_edge list" where
  "read_graph_lines T es [] = Inr es"
| "read_graph_lines T es (line # ls) =
     (case junk T of (src, dest, wgt) \<Rightarrow>
        let (src, st) = extract_u64 (line, False) src; (dest, st) = extract_u64 st dest; (wgt, st) = extract_data T st wgt
        in if snd st then Inl Malformed_Line else read_graph_lines T (es @ [(src, dest, wgt), (dest, src, wgt)]) ls)"

function lines_of :: "string \<Rightarrow> string list" where
  "lines_of s = (case get_line s of None \<Rightarrow> [] | Some (line, rest) \<Rightarrow> line # lines_of rest)"
  by auto
termination
  by (relation "measure length") (auto dest: get_line_shorter)

declare lines_of.simps [simp del]

definition read_graph_file :: "'w edge_type \<Rightarrow> (string \<Rightarrow> string option) \<Rightarrow> string \<Rightarrow> graph_file_error + u64 \<times> 'w read_edge list" where
  "read_graph_file T fs filename =
     (case fs filename of None \<Rightarrow> Inl Unable_To_Open
      | Some file \<Rightarrow>
          (case get_line file of None \<Rightarrow> Inl Empty_File
           | Some (line, rest) \<Rightarrow>
               if CHR '' '' \<in> set line then Inl Too_Many_Values
               else case read_graph_lines T [] (lines_of rest) of Inl e \<Rightarrow> Inl e | Inr es \<Rightarrow> Inr (fst (extract_u64 (line, False) 0), es)))"

subsection \<open>The generator\<close>

record 'w kron =
  k_graph1 :: "'w read_edge list"
  k_graph2 :: "'w read_edge list"
  k_num_vertices_graph1 :: u64
  k_num_vertices_graph2 :: u64
  k_scramble :: bool
  k_undirected :: bool
  k_rank :: nat
  k_size :: nat

text \<open>The logarithm is taken exactly.\<close>

definition k_vertex_scale :: "'w kron \<Rightarrow> nat" where
  "k_vertex_scale K = ceillog2 (unat (k_num_vertices_graph1 K * k_num_vertices_graph2 K))"

definition k_local_edge_count :: "'w kron \<Rightarrow> nat" where
  "k_local_edge_count K = (length (k_graph1 K) div k_size K) * length (k_graph2 K)
     + (if k_rank K < length (k_graph1 K) mod k_size K then 1 else 0) * length (k_graph2 K)"

definition k_max_vertex_id :: "'w kron \<Rightarrow> u64" where
  "k_max_vertex_id K = k_num_vertices_graph1 K * k_num_vertices_graph2 K - 1"

text \<open>
  \<open>generate_edge\<close>; the state are the positions of the two iterators, and \<open>m_graph1_pos\<close> stays the rank.  \<open>None\<close>: an iterator at
  the end is dereferenced, or \<open>hash_nbits\<close> fails its assertion.
\<close>

definition k_hash :: "'w kron \<Rightarrow> u64 \<Rightarrow> u64 option" where
  "k_hash K x = (if k_scramble K then hash_nbits x (int (k_vertex_scale K)) else Some x)"

definition k_increment :: "'w kron \<Rightarrow> nat" where
  "k_increment K = (if length (k_graph1 K) < k_rank K then k_size K else min (k_size K) (length (k_graph1 K) - k_rank K))"

definition k_generate_edge :: "'w :: len word kron \<Rightarrow> nat \<times> nat \<Rightarrow> ('w word read_edge \<times> nat \<times> nat) option" where
  "k_generate_edge K p =
     (if fst p < length (k_graph1 K) \<and> snd p < length (k_graph2 K)
      then let (row1, col1, val1) = k_graph1 K ! fst p; (row2, col2, val2) = k_graph2 K ! snd p;
               row = row1 * k_num_vertices_graph2 K + row2; col = col1 * k_num_vertices_graph2 K + col2; val = val1 * val2;
               p' = (if Suc (snd p) = length (k_graph2 K) then (fst p + k_increment K, 0) else (fst p, Suc (snd p)))
           in Option.bind (k_hash K row) (\<lambda>row. Option.bind (k_hash K col) (\<lambda>col. Some ((row, col, val), p')))
      else None)"

text \<open>The iterator stops before it generates an edge that would reach the end.\<close>

definition k_get_next :: "'w :: len word kron \<Rightarrow> (nat \<times> nat, 'w word read_edge) edge_iter \<Rightarrow> (nat \<times> nat, 'w word read_edge) edge_iter option" where
  "k_get_next K it =
     (if k_undirected K \<and> it_make_undirected it
      then Some (it\<lparr>it_current := swap_ends (it_current it), it_make_undirected := False\<rparr>)
      else if it_count it + 1 = k_local_edge_count K then Some (it\<lparr>it_count := it_count it + 1, it_make_undirected := True\<rparr>)
      else map_option (\<lambda>(e, p). it\<lparr>it_source := p, it_count := it_count it + 1, it_current := e, it_make_undirected := True\<rparr>)
             (k_generate_edge K (it_source it)))"

definition k_begin :: "'w :: len word kron \<Rightarrow> (nat \<times> nat, 'w word read_edge) edge_iter option" where
  "k_begin K =
     (let it = \<lparr>it_source = (k_rank K, 0), it_count = 0, it_current = (0, 0, 0), it_make_undirected = False\<rparr>
      in if k_local_edge_count K = 0 then Some it else map_option (\<lambda>it. it\<lparr>it_count := 0\<rparr>) (k_get_next K it))"

definition k_edges :: "nat \<Rightarrow> 'w :: len word kron \<Rightarrow> 'w word read_edge list option" where
  "k_edges fuel K = Option.bind (k_begin K) (edges_upto fuel (k_get_next K) (k_local_edge_count K))"

text \<open>The constructor that reads the graphs, at one rank of \<open>size\<close>; rank 0 reads, and the others get what it read.\<close>

definition kron_from_files ::
    "'w :: len word edge_type \<Rightarrow> (string \<Rightarrow> string option) \<Rightarrow> string \<Rightarrow> string \<Rightarrow> bool \<Rightarrow> bool \<Rightarrow> nat \<Rightarrow> nat \<Rightarrow> graph_file_error + 'w word kron" where
  "kron_from_files T fs filename1 filename2 scramble undirected p r =
     (case read_graph_file T fs filename1 of Inl e \<Rightarrow> Inl e
      | Inr (n1, g1) \<Rightarrow> (case read_graph_file T fs filename2 of Inl e \<Rightarrow> Inl e
        | Inr (n2, g2) \<Rightarrow> Inr \<lparr>k_graph1 = g1, k_graph2 = g2, k_num_vertices_graph1 = n1, k_num_vertices_graph2 = n2,
            k_scramble = scramble, k_undirected = undirected, k_rank = r, k_size = p\<rparr>))"

subsection \<open>What the iterator of one rank sees\<close>

definition k_fits :: "'w kron \<Rightarrow> bool" where
  "k_fits K \<longleftrightarrow> k_rank K < k_size K \<and> (k_scramble K \<longrightarrow> 16 < k_vertex_scale K)"

text \<open>The product of two edges.\<close>

definition kron_edge :: "'w :: len word kron \<Rightarrow> 'w word read_edge \<Rightarrow> 'w word read_edge \<Rightarrow> 'w word read_edge" where
  "kron_edge K a b = (the (k_hash K (fst a * k_num_vertices_graph2 K + fst b)), the (k_hash K (fst (snd a) * k_num_vertices_graph2 K + fst (snd b))),
     snd (snd a) * snd (snd b))"

definition k_share :: "'w kron \<Rightarrow> nat" where
  "k_share K = length (k_graph1 K) div k_size K + (if k_rank K < length (k_graph1 K) mod k_size K then 1 else 0)"

definition k_list :: "'w :: len word kron \<Rightarrow> 'w word read_edge list" where
  "k_list K = map (\<lambda>i. kron_edge K (k_graph1 K ! (k_rank K + (i div length (k_graph2 K)) * k_size K)) (k_graph2 K ! (i mod length (k_graph2 K))))
     [0..<k_local_edge_count K]"

definition k_position :: "'w kron \<Rightarrow> nat \<Rightarrow> nat \<times> nat" where
  "k_position K i = (k_rank K + (i div length (k_graph2 K)) * k_increment K, i mod length (k_graph2 K))"

lemma local_edge_count_eq: "k_local_edge_count K = k_share K * length (k_graph2 K)"
  by (simp add: k_local_edge_count_def k_share_def algebra_simps)

lemma share_index:
  assumes "k_rank K < k_size K"
  shows "j < k_share K \<longleftrightarrow> k_rank K + j * k_size K < length (k_graph1 K)"
proof -
  let ?n = "length (k_graph1 K)" and ?p = "k_size K" and ?r = "k_rank K"
  have n: "?n = ?n div ?p * ?p + ?n mod ?p" by simp
  show ?thesis
  proof (cases j "?n div ?p" rule: linorder_cases)
    case less
    then have "(j + 1) * ?p \<le> ?n div ?p * ?p" by (intro mult_le_mono1) simp
    moreover have "?r + j * ?p < (j + 1) * ?p" using assms by simp
    ultimately have "?r + j * ?p < ?n" using div_times_less_eq_dividend [of ?n ?p] by linarith
    then show ?thesis using less by (simp add: k_share_def)
  next
    case equal
    have "?r + ?n div ?p * ?p < ?n \<longleftrightarrow> ?r < ?n mod ?p" using n by linarith
    then show ?thesis using equal by (simp add: k_share_def)
  next
    case greater
    then have "(?n div ?p + 1) * ?p \<le> j * ?p" by (intro mult_le_mono1) simp
    moreover have "?n < (?n div ?p + 1) * ?p" using assms by (simp add: dividend_less_div_times)
    ultimately show ?thesis using greater by (simp add: k_share_def)
  qed
qed

lemma increment_size:
  assumes "k_rank K < k_size K" "j < k_share K"
  shows "j * k_increment K = j * k_size K"
proof (cases "j = 0")
  case False
  then have "1 * k_size K \<le> j * k_size K" by (intro mult_le_mono1) simp
  then have "k_rank K + k_size K \<le> length (k_graph1 K)" using share_index [OF assms(1), of j] assms(2) by linarith
  then show ?thesis by (simp add: k_increment_def)
qed simp

lemma k_hash_total: "k_fits K \<Longrightarrow> \<exists>y. k_hash K x = Some y"
proof (cases "k_scramble K")
  case True
  assume f: "k_fits K"
  have "k_vertex_scale K \<le> 64"
  proof -
    let ?w = "unat (k_num_vertices_graph1 K * k_num_vertices_graph2 K)"
    have "?w < 2 ^ LENGTH(64)" by (rule unsigned_less)
    then show ?thesis unfolding k_vertex_scale_def by (cases "?w = 0") (simp_all add: ceillog2_le_iff)
  qed
  then show ?thesis using hash_nbits_bij [of "int (k_vertex_scale K)"] f True by (auto simp: k_hash_def k_fits_def)
qed (simp add: k_hash_def)

lemma length_k_list [simp]: "length (k_list K) = k_local_edge_count K"
  by (simp add: k_list_def)

lemma generate_at:
  assumes "k_fits K" "i < k_local_edge_count K"
  shows "k_generate_edge K (k_position K i) = Some (k_list K ! i, k_position K (Suc i))"
proof -
  let ?m = "length (k_graph2 K)"
  have m: "0 < ?m" using assms(2) by (auto simp: local_edge_count_eq)
  have r: "k_rank K < k_size K" using assms(1) by (simp add: k_fits_def)
  have j: "i div ?m < k_share K" using assms(2) m by (simp add: local_edge_count_eq div_less_iff_less_mult)
  have pos: "fst (k_position K i) = k_rank K + (i div ?m) * k_size K" using increment_size [OF r j] by (simp add: k_position_def)
  have ok: "fst (k_position K i) < length (k_graph1 K)" "snd (k_position K i) < ?m" using share_index [OF r] j m unfolding pos by (simp_all add: k_position_def)
  have "(if Suc (snd (k_position K i)) = ?m then (fst (k_position K i) + k_increment K, 0) else (fst (k_position K i), Suc (snd (k_position K i)))) = k_position K (Suc i)"
    by (simp add: k_position_def div_Suc mod_Suc)
  moreover have "k_list K ! i = kron_edge K (k_graph1 K ! fst (k_position K i)) (k_graph2 K ! snd (k_position K i))"
    unfolding pos using assms(2) by (simp add: k_list_def k_position_def)
  moreover obtain row1 col1 val1 row2 col2 val2 where
    "k_graph1 K ! fst (k_position K i) = (row1, col1, val1)" "k_graph2 K ! snd (k_position K i) = (row2, col2, val2)" by (metis prod.exhaust)
  moreover obtain row col where "k_hash K (row1 * k_num_vertices_graph2 K + row2) = Some row" "k_hash K (col1 * k_num_vertices_graph2 K + col2) = Some col"
    using k_hash_total [OF assms(1)] by blast
  ultimately show ?thesis
    using ok unfolding k_generate_edge_def by (simp add: kron_edge_def)
qed

lemma k_iterates:
  assumes "k_fits K" "i < k_local_edge_count K" "2 * (k_local_edge_count K - i) < fuel"
  shows "edges_upto fuel (k_get_next K) (k_local_edge_count K) \<lparr>it_source = k_position K (Suc i), it_count = i, it_current = k_list K ! i, it_make_undirected = True\<rparr>
    = Some (concat (map (directions (k_undirected K) swap_ends) (drop i (k_list K))))"
  using assms
proof (induction "k_local_edge_count K - i" arbitrary: i fuel)
  case (Suc n)
  let ?n = "k_local_edge_count K"
  obtain f where f: "fuel = Suc (Suc f)" "2 * (?n - Suc i) < f" using Suc.prems(2,3) by (metis Suc_diff_Suc Suc_lessE Suc_less_eq mult_Suc_right add_2_eq_Suc)
  have drop: "drop i (k_list K) = k_list K ! i # drop (Suc i) (k_list K)" using Suc.prems(2) by (simp add: Cons_nth_drop_Suc)
  show ?case
  proof (cases "Suc i = ?n")
    case True
    obtain f' where "f = Suc f'" using f(2) by (cases f) auto
    moreover have "drop (Suc i) (k_list K) = []" using True by simp
    ultimately show ?thesis using f True Suc.prems(2) by (simp add: drop k_get_next_def directions_def)
  next
    case False
    then have i: "Suc i < ?n" using Suc.prems(2) by simp
    have ih: "edges_upto k (k_get_next K) ?n \<lparr>it_source = k_position K (Suc (Suc i)), it_count = Suc i, it_current = k_list K ! Suc i, it_make_undirected = True\<rparr>
        = Some (concat (map (directions (k_undirected K) swap_ends) (drop (Suc i) (k_list K))))" if "2 * (?n - Suc i) < k" for k
      using Suc.hyps(1) [of "Suc i" k] Suc.hyps(2) Suc.prems(1) i that by simp
    have fresh: "k_get_next K \<lparr>it_source = k_position K (Suc i), it_count = i, it_current = e, it_make_undirected = b\<rparr>
        = Some \<lparr>it_source = k_position K (Suc (Suc i)), it_count = Suc i, it_current = k_list K ! Suc i, it_make_undirected = True\<rparr>"
      if "\<not> k_undirected K \<or> \<not> b" for e b
      using generate_at [OF Suc.prems(1) i] i that by (auto simp: k_get_next_def)
    show ?thesis
    proof (cases "k_undirected K")
      case True
      then have "k_get_next K \<lparr>it_source = k_position K (Suc i), it_count = i, it_current = k_list K ! i, it_make_undirected = True\<rparr>
          = Some \<lparr>it_source = k_position K (Suc i), it_count = i, it_current = swap_ends (k_list K ! i), it_make_undirected = False\<rparr>"
        by (simp add: k_get_next_def)
      then show ?thesis using f(2) i True fresh [of False] ih [of f] unfolding f(1) by (simp add: drop directions_def)
    next
      case False
      then show ?thesis using f(2) i fresh [of True] ih [of "Suc f"] unfolding f(1) by (simp add: drop directions_def del: edges_upto.simps(2)) (subst edges_upto.simps(2), simp)
    qed
  qed
qed simp

theorem k_edges_seen:
  assumes "k_fits K" "k_local_edge_count K \<noteq> 1" "2 * k_local_edge_count K < fuel"
  shows "k_edges fuel K = Some (concat (map (directions (k_undirected K) swap_ends) (k_list K)))"
proof (cases "k_local_edge_count K = 0")
  case True
  then show ?thesis using assms(3) by (cases fuel) (simp_all add: k_edges_def k_begin_def k_list_def)
next
  case False
  have "k_position K 0 = (k_rank K, 0)" by (simp add: k_position_def)
  then have "k_begin K = Some \<lparr>it_source = k_position K (Suc 0), it_count = 0, it_current = k_list K ! 0, it_make_undirected = True\<rparr>"
    using False assms(2) generate_at [OF assms(1), of 0] by (simp add: k_begin_def k_get_next_def)
  then show ?thesis using k_iterates [OF assms(1), of 0 fuel] False assms(3) by (simp add: k_edges_def)
qed

subsection \<open>All ranks together\<close>

lemma share_filter:
  assumes "k_rank K < k_size K"
  shows "filter (\<lambda>i. i mod k_size K = k_rank K) [0..<length (k_graph1 K)] = map (\<lambda>j. k_rank K + j * k_size K) [0..<k_share K]"
proof (rule filter_upt_enum)
  show "k_rank K + i * k_size K < length (k_graph1 K) \<and> (k_rank K + i * k_size K) mod k_size K = k_rank K" if "i < k_share K" for i
    using that share_index [OF assms, of i] assms by simp
  show "k_rank K + i * k_size K < k_rank K + j * k_size K" if "i < j" for i j using that assms by simp
  show "\<exists>i < k_share K. q = k_rank K + i * k_size K" if "q < length (k_graph1 K)" "q mod k_size K = k_rank K" for q
  proof -
    have "q = k_rank K + q div k_size K * k_size K" using that(2) by (metis mod_div_mult_eq)
    then show ?thesis using that(1) share_index [OF assms, of "q div k_size K"] by auto
  qed
qed

lemma concat_rows: "concat (map (\<lambda>j. map (f j) ys) [0..<k]) = map (\<lambda>i. f (i div length ys) (ys ! (i mod length ys))) [0..<k * length ys]"
proof (induction k)
  case (Suc k)
  let ?m = "length ys"
  have "[0..<Suc k * ?m] = [0..<k * ?m] @ map (\<lambda>i. i + k * ?m) [0..<?m]"
    using upt_add_eq_append [of 0 "k * ?m" ?m] by (simp add: map_add_upt add.commute)
  moreover have "map (\<lambda>i. f ((i + k * ?m) div ?m) (ys ! ((i + k * ?m) mod ?m))) [0..<?m] = map (f k) ys"
  proof -
    have "(i + k * ?m) div ?m = k" if "i < ?m" for i by (rule div_nat_eqI) (use that in simp_all)
    then show ?thesis by (intro nth_equalityI) auto
  qed
  ultimately show ?case using Suc by (simp add: o_def)
qed simp

lemma k_list_rows:
  assumes "k_rank K < k_size K"
  shows "k_list K = concat (map (\<lambda>i. map (kron_edge K (k_graph1 K ! i)) (k_graph2 K)) (filter (\<lambda>i. i mod k_size K = k_rank K) [0..<length (k_graph1 K)]))"
  unfolding share_filter [OF assms] k_list_def local_edge_count_eq
  using concat_rows [of "\<lambda>j. kron_edge K (k_graph1 K ! (k_rank K + j * k_size K))" "k_graph2 K" "k_share K"] by (simp add: o_def)

subsection \<open>Printed graphs\<close>

definition print_graph :: "('w \<Rightarrow> string) \<Rightarrow> u64 \<Rightarrow> 'w read_edge list \<Rightarrow> string" where
  "print_graph show_data n es = show_nat (unat n) @ newline # print_file (Some show_data) es"

definition both_ways :: "'w read_edge list \<Rightarrow> 'w read_edge list" where
  "both_ways es = concat (map (\<lambda>(s, t, w). [(s, t, w), (t, s, w)]) es)"

definition weight_reads_back :: "'w edge_type \<Rightarrow> ('w \<Rightarrow> string) \<Rightarrow> 'w \<Rightarrow> bool" where
  "weight_reads_back T f w \<longleftrightarrow> f w \<noteq> [] \<and> (\<forall>c \<in> set (f w). \<not> is_space c) \<and> (\<forall>x. \<exists>rest. extract_data T ('' '' @ f w, False) x = (w, rest, False))"

lemma weight_data: "weight_reads_back T f w \<Longrightarrow> data_reads_back T (Some f) w"
  by (simp add: weight_reads_back_def data_reads_back_def) (metis fst_conv)

lemma lines_printed:
  assumes "\<forall>e \<in> set es. weight_reads_back T f (snd (snd e))"
  shows "lines_of (print_file (Some f) es) = map (print_edge (Some f)) es"
  using assms
proof (induction es)
  case Nil
  show ?case by (simp add: print_file_def lines_of.simps get_line_def)
next
  case (Cons e es)
  have "print_file (Some f) (e # es) = print_edge (Some f) e @ newline # print_file (Some f) es" by (simp add: print_file_def)
  then show ?case using printed_line [of T "Some f" e "print_file (Some f) es"] weight_data [of T f "snd (snd e)"] Cons by (subst lines_of.simps) simp
qed

lemma read_lines_printed:
  assumes "\<forall>e \<in> set es. weight_reads_back T f (snd (snd e))"
  shows "read_graph_lines T done (map (print_edge (Some f)) es) = Inr (done @ both_ways es)"
  using assms
proof (induction es arbitrary: "done")
  case Nil
  show ?case by (simp add: both_ways_def)
next
  case (Cons e es)
  obtain s t w where e: "e = (s, t, w)" by (cases e)
  obtain js jt jw where j: "junk T = (js, jt, jw)" by (cases "junk T")
  have "extract_u64 (print_edge (Some f) e, False) js = (s, '' '' @ show_nat (unat t) @ '' '' @ f w, False)"
    using extract_printed [of "'' '' @ show_nat (unat t) @ '' '' @ f w" "[]" s js] by (simp add: print_edge_def e is_digit_def)
  moreover have "extract_u64 ('' '' @ show_nat (unat t) @ '' '' @ f w, False) jt = (t, '' '' @ f w, False)"
    using extract_printed [of "'' '' @ f w" "'' ''" t jt] by (simp add: is_digit_def)
  moreover obtain rest where "extract_data T ('' '' @ f w, False) jw = (w, rest, False)" 
  proof -
    have "weight_reads_back T f w" using Cons.prems e by simp
    then show ?thesis using that unfolding weight_reads_back_def by blast
  qed
  ultimately show ?case using Cons by (simp add: j e both_ways_def)
qed

lemma read_graph_printed:
  assumes "fs name = Some (print_graph f n es)" "\<forall>e \<in> set es. weight_reads_back T f (snd (snd e))"
  shows "read_graph_file T fs name = Inr (n, both_ways es)"
proof -
  have digits: "is_digit c" if "c \<in> set (show_nat (unat n))" for c using that show_nat_digits by blast
  then have ns: "c \<noteq> newline \<and> c \<noteq> CHR '' ''" if "c \<in> set (show_nat (unat n))" for c
    using that digit_no_space [of c] by (auto simp: is_space_def)
  then have "get_line (print_graph f n es) = Some (show_nat (unat n), print_file (Some f) es)"
    by (simp add: get_line_def print_graph_def takeWhile_append dropWhile_append)
  moreover have "fst (extract_u64 (show_nat (unat n), False) 0) = n" using extract_printed [of "[]" "[]" n 0] by simp
  moreover have "CHR '' '' \<notin> set (show_nat (unat n))" using ns by blast
  ultimately show ?thesis using assms read_lines_printed [OF assms(2), of "[]"] lines_printed [OF assms(2)] by (simp add: read_graph_file_def)
qed

subsection \<open>Property\<close>

text \<open>
  C17. The Kronecker generator.  For files that print two graphs (with scrambling only of more than 16 bits), on any number of ranks: all
  ranks read both graphs, in both directions, and go through exactly the products of an edge of the first with an edge of the second, each
  pair on one rank and once; an undirected list gives every product also reversed.
\<close>

theorem kronecker_edges_exact:
  fixes T :: "'w :: len word edge_type"
  assumes "0 < p" "fs name1 = Some (print_graph f n1 es1)" "fs name2 = Some (print_graph f n2 es2)"
    "\<forall>e \<in> set es1 \<union> set es2. weight_reads_back T f (snd (snd e))" "scramble \<longrightarrow> 16 < ceillog2 (unat (n1 * n2))"
  shows "\<exists>K es. (\<forall>r < p. kron_from_files T fs name1 name2 scramble undirected p r = Inr (K r)
      \<and> (\<forall>fuel > 2 * length (es r). k_edges fuel (K r) = Some (concat (map (\<lambda>e. if undirected then [e, swap_ends e] else [e]) (es r)))))
    \<and> (\<Sum>r < p. mset (es r)) = mset (concat (map (\<lambda>a. map (\<lambda>b. kron_edge (K 0) a b) (both_ways es2)) (both_ways es1)))"
proof -
  define K where "K r = \<lparr>k_graph1 = both_ways es1, k_graph2 = both_ways es2, k_num_vertices_graph1 = n1, k_num_vertices_graph2 = n2,
      k_scramble = scramble, k_undirected = undirected, k_rank = r, k_size = p\<rparr>" for r
  have sel: "k_graph1 (K r) = both_ways es1" "k_graph2 (K r) = both_ways es2" "k_rank (K r) = r" "k_size (K r) = p" "k_undirected (K r) = undirected"
    "k_num_vertices_graph2 (K r) = n2" for r
    by (simp_all add: K_def)
  have hash: "k_hash (K r) = k_hash (K 0)" for r by (simp add: fun_eq_iff k_hash_def k_vertex_scale_def) (simp add: K_def)
  have edge: "kron_edge (K r) = kron_edge (K 0)" for r by (simp add: fun_eq_iff kron_edge_def sel hash [of r])
  have files: "kron_from_files T fs name1 name2 scramble undirected p r = Inr (K r)" for r
    using read_graph_printed [where fs = fs and T = T, OF assms(2)] read_graph_printed [where fs = fs and T = T, OF assms(3)] assms(4) by (simp add: kron_from_files_def K_def)
  have "length (both_ways es2) \<noteq> 1" by (cases es2) (auto simp: both_ways_def)
  then have two: "k_local_edge_count (K r) \<noteq> 1" for r by (auto simp: local_edge_count_eq sel)
  have fits: "k_fits (K r)" if "r < p" for r using that assms(5) by (simp add: k_fits_def K_def k_vertex_scale_def)
  have seen: "k_edges fuel (K r) = Some (concat (map (\<lambda>e. if undirected then [e, swap_ends e] else [e]) (k_list (K r))))"
    if "r < p" "2 * length (k_list (K r)) < fuel" for r fuel
    using k_edges_seen [OF fits [OF that(1)] two, of fuel] that(2) by (simp add: sel directions_def [abs_def])
  have "(\<Sum>r < p. mset (k_list (K r))) = (\<Sum>r < p. mset (concat (map (\<lambda>i. map (kron_edge (K 0) (both_ways es1 ! i)) (both_ways es2))
      (filter (\<lambda>i. i mod p = r) [0..<length (both_ways es1)]))))"
  proof (intro sum.cong refl)
    fix r assume "r \<in> {..<p}"
    then show "mset (k_list (K r)) = mset (concat (map (\<lambda>i. map (kron_edge (K 0) (both_ways es1 ! i)) (both_ways es2)) (filter (\<lambda>i. i mod p = r) [0..<length (both_ways es1)])))"
      using k_list_rows [of "K r"] by (simp add: sel edge [of r])
  qed
  also have "\<dots> = mset (concat (map (\<lambda>i. map (kron_edge (K 0) (both_ways es1 ! i)) (both_ways es2)) [0..<length (both_ways es1)]))"
    by (rule shares_all) (use assms(1) in simp)
  also have "\<dots> = mset (concat (map (\<lambda>a. map (kron_edge (K 0) a) (both_ways es2)) (both_ways es1)))"
    using nth_equalityI [of "map (\<lambda>i. map (kron_edge (K 0) (both_ways es1 ! i)) (both_ways es2)) [0..<length (both_ways es1)]" "map (\<lambda>a. map (kron_edge (K 0) a) (both_ways es2)) (both_ways es1)"]
    by simp
  finally show ?thesis using files seen by (intro exI [of _ K] exI [of _ "\<lambda>r. k_list (K r)"]) simp
qed

text \<open>Two graphs of one edge each, on two ranks, with weights of type \<open>uint64_t\<close>.\<close>

definition u64_edges :: "u64 read_edge \<Rightarrow> u64 edge_type" where
  "u64_edges j = \<lparr>extract_data = extract_u64, zero_data = 0, junk = j\<rparr>"

definition two_graphs :: "string \<Rightarrow> string option" where
  "two_graphs name = (if name = ''a'' then Some (''2'' @ [newline] @ ''0 1 3'' @ [newline]) else if name = ''b'' then Some (''2'' @ [newline] @ ''0 1 5'' @ [newline]) else None)"

lemma kronecker_edges_exact_witness:
  "\<exists>K es. (\<forall>r < 2. kron_from_files (u64_edges (0, 0, 0)) two_graphs ''a'' ''b'' False False 2 r = Inr (K r)
      \<and> (\<forall>fuel > 2 * length (es r). k_edges fuel (K r) = Some (es r)))
    \<and> (\<Sum>r < 2. mset (es r)) = mset (concat (map (\<lambda>a. map (\<lambda>b. kron_edge (K 0) a b) [(0, 1, 5), (1, 0, 5)]) [(0, 1, 3), (1, 0, 3)]))"
proof -
  have nums: "show_nat 0 = ''0''" "show_nat 1 = ''1''" "show_nat 2 = ''2''" "show_nat 3 = ''3''" "show_nat 5 = ''5''"
    by (simp_all add: show_nat.simps char_of_def bit_iff_odd)
  let ?show = "\<lambda>w :: u64. show_nat (unat w)"
  have reads: "weight_reads_back (u64_edges (0, 0, 0)) ?show w" for w
    using show_nat_nonempty [of "unat w"] show_nat_digits [of _ "unat w"] digit_no_space(1) extract_printed [of "[]" "'' ''" w]
    by (auto simp: weight_reads_back_def u64_edges_def)
  have files: "two_graphs ''a'' = Some (print_graph ?show 2 [(0, 1, 3)])" "two_graphs ''b'' = Some (print_graph ?show 2 [(0, 1, 5)])"
    using nums by (simp_all add: two_graphs_def print_graph_def print_file_def print_edge_def)
  have both: "both_ways [(0, 1, w)] = [(0, 1, w), (1, 0, w)]" for w :: u64 by (simp add: both_ways_def)
  have "concat (map (\<lambda>e. [e]) xs) = xs" for xs :: "u64 read_edge list" by (induction xs) simp_all
  then show ?thesis using kronecker_edges_exact [OF _ files, of 2 "u64_edges (0, 0, 0)" False False] reads unfolding both by simp
qed

text \<open>
  The constructor that takes the graphs does not add reversed edges; when a rank has one edge only, the iterator ends before it has
  generated it, and gives the edge of its initial fields instead.
\<close>

lemma single_edge_lost:
  fixes K :: "u64 kron"
  assumes "k_fits K" "k_local_edge_count K = 1" "2 < fuel"
  shows "k_edges fuel K = Some (if k_undirected K then [(0, 0, 0), (0, 0, 0)] else [(0, 0, 0)])"
proof -
  define f where "f = fuel - 3"
  have f: "fuel = Suc (Suc (Suc f))" using assms(3) by (simp add: f_def)
  show ?thesis using assms(2) unfolding f by (cases "k_undirected K") (simp_all add: k_edges_def k_begin_def k_get_next_def swap_ends_def)
qed

end
