(* ===== verification/Preferential_Attachment.thy ===== *)
theory Preferential_Attachment
  imports Complex_Main Hashing Collectives
begin

section \<open>Preferential attachment (detail/preferential\_attachment.hpp, gen\_preferential\_attachment\_edge\_list.hpp)\<close>

text \<open>
  The edges of a preferential attachment graph.  The target of an edge is the source or the target of an earlier one; in the second case it
  is first a pointer to that edge, which another rank may hold, and all ranks follow the pointers together until none is left.
\<close>

subsection \<open>The generator of one edge\<close>

text \<open>The square roots are those of real numbers.\<close>

record pa_helper =
  pa_k :: u64
  pa_num_edges :: u64
  pa_koffset :: u64
  pa_ptr_mask :: u64
  pa_alpha :: real

definition pa_new :: "u64 \<Rightarrow> u64 \<Rightarrow> real \<Rightarrow> pa_helper" where
  "pa_new k m beta = \<lparr>pa_k = k, pa_num_edges = m, pa_koffset = k * (k + 1) div 2, pa_ptr_mask = NOT (drop_bit 1 (- 1)),
     pa_alpha = (beta / real (unat k) + 1) / (beta / real (unat k) + 2)\<rparr>"

definition tri_root :: "u64 \<Rightarrow> real" where
  "tri_root i = - 1 / 2 + sqrt (1 / 4 + 2 * real (unat i)) + 1"

definition calc_source :: "pa_helper \<Rightarrow> u64 \<Rightarrow> u64" where
  "calc_source H i = (if pa_koffset H < i + 1 then (i - pa_koffset H) div pa_k H + pa_k H + 1 else of_int \<lfloor>tri_root i\<rfloor>)"

definition calc_target :: "pa_helper \<Rightarrow> u64 \<Rightarrow> u64 option" where
  "calc_target H i =
     (if pa_koffset H < i + 1 then None else Some (of_int \<lfloor>(tri_root i - of_int \<lfloor>tri_root i\<rfloor>) * of_int \<lfloor>tri_root i\<rfloor>\<rfloor>))"

definition make_pointer :: "pa_helper \<Rightarrow> u64 \<Rightarrow> u64" where
  "make_pointer H i = i OR pa_ptr_mask H"

definition is_pointer :: "pa_helper \<Rightarrow> u64 \<Rightarrow> bool" where
  "is_pointer H i \<longleftrightarrow> 0 < i AND pa_ptr_mask H"

definition value_of_pointer :: "pa_helper \<Rightarrow> u64 \<Rightarrow> u64 \<Rightarrow> u64" where
  "value_of_pointer H i num_partitions =
     (let i = i AND NOT (pa_ptr_mask H); my_partition = i mod num_partitions; my_partition_offset = i div num_partitions;
          edges_per_partition = pa_num_edges H div num_partitions
      in my_partition * edges_per_partition + my_partition_offset)"

text \<open>
  The random numbers: \<open>uid s m\<close> draws from \<open>0..m\<close>, \<open>prob s\<close> is a real number.  \<open>uniform_01\<close> works on a copy of the engine, made before
  \<open>uid\<close> draws from it.
\<close>

definition gen_edge :: "('s \<Rightarrow> u64 \<Rightarrow> u64 \<times> 's) \<Rightarrow> ('s \<Rightarrow> real) \<Rightarrow> pa_helper \<Rightarrow> u64 \<Rightarrow> 's \<Rightarrow> ((u64 \<times> u64) \<times> 's) option" where
  "gen_edge uid prob H edge_index s =
     (let src = calc_source H edge_index
      in if pa_koffset H \<le> edge_index
         then let (r, s') = uid s (edge_index - 1); rand = (if pa_alpha H < prob s then r * 2 + 1 else r * 2)
              in if rand mod 2 = 0 then Some ((src, calc_source H (rand div 2)), s')
                 else let edge_rand = rand div 2
                      in if edge_rand < pa_koffset H then map_option (\<lambda>t. ((src, t), s')) (calc_target H edge_rand)
                         else Some ((src, make_pointer H edge_rand), s')
         else map_option (\<lambda>t. ((src, t), s)) (calc_target H edge_index))"

subsection \<open>All ranks\<close>

fun gen_local_edges :: "('s \<Rightarrow> u64 \<Rightarrow> u64 \<times> 's) \<Rightarrow> ('s \<Rightarrow> real) \<Rightarrow> pa_helper \<Rightarrow> nat \<Rightarrow> nat \<Rightarrow> nat list \<Rightarrow> 's \<Rightarrow> (u64 \<times> u64) list option" where
  "gen_local_edges uid prob H p r [] s = Some []"
| "gen_local_edges uid prob H p r (i # is) s =
     Option.bind (gen_edge uid prob H (of_nat r + of_nat i * of_nat p) s)
       (\<lambda>(e, s'). map_option ((#) e) (gen_local_edges uid prob H p r is s'))"

text \<open>One round of following pointers.  \<open>marks\<close> are the edges whose pointers go to one rank.\<close>

definition marks :: "pa_helper \<Rightarrow> nat \<Rightarrow> (u64 \<times> u64) list \<Rightarrow> nat \<Rightarrow> nat list" where
  "marks H p es t = filter (\<lambda>i. is_pointer H (snd (es ! i)) \<and> unat (value_of_pointer H (snd (es ! i)) 1) mod p = t) [0..<length es]"

definition pointers_to :: "pa_helper \<Rightarrow> nat \<Rightarrow> (u64 \<times> u64) list \<Rightarrow> nat \<Rightarrow> u64 list" where
  "pointers_to H p es t = map (\<lambda>i. value_of_pointer H (snd (es ! i)) 1) (marks H p es t)"

definition look_up :: "nat \<Rightarrow> (u64 \<times> u64) list \<Rightarrow> u64 list \<Rightarrow> u64 list option" where
  "look_up p es to_recv = those (map (\<lambda>v. if unat v div p < length es then Some (snd (es ! (unat v div p))) else None) to_recv)"

definition write_back :: "nat list \<Rightarrow> u64 list \<Rightarrow> (u64 \<times> u64) list \<Rightarrow> (u64 \<times> u64) list" where
  "write_back mark_to_send to_send es = fold (\<lambda>(i, v) es. es[i := (fst (es ! i), v)]) (zip mark_to_send to_send) es"

definition pointer_jump :: "u64 mpi_ops \<Rightarrow> pa_helper \<Rightarrow> (u64 \<times> u64) list list \<Rightarrow> (u64 \<times> u64) list list option" where
  "pointer_jump M H ess =
     (let p = length ess;
          to_send = map (\<lambda>es. (concat (map (pointers_to H p es) [0..<p]), map (\<lambda>t. length (pointers_to H p es t)) [0..<p])) ess
      in Option.bind (mpi_all_to_all M to_send) (\<lambda>to_recv.
         Option.bind (those (map2 (\<lambda>es rc. map_option (\<lambda>vs. (vs, snd rc)) (look_up p es (fst rc))) ess to_recv)) (\<lambda>answers.
         Option.bind (mpi_all_to_all M answers) (\<lambda>returned.
         Some (map2 (\<lambda>es ret. write_back (concat (map (marks H p es) [0..<p])) (fst ret) es) ess returned)))))"

definition count_missing :: "pa_helper \<Rightarrow> (u64 \<times> u64) list list \<Rightarrow> nat" where
  "count_missing H ess = (\<Sum>es \<leftarrow> ess. length (filter (\<lambda>e. is_pointer H (snd e)) es))"

text \<open>The loop, with its \<open>iteration_count\<close>.\<close>

partial_function (option) resolve_pointers ::
    "u64 mpi_ops \<Rightarrow> pa_helper \<Rightarrow> nat \<Rightarrow> (u64 \<times> u64) list list \<Rightarrow> ((u64 \<times> u64) list list \<times> nat) option" where
  "resolve_pointers M H iteration_count ess = Option.bind (pointer_jump M H ess)
     (\<lambda>ess'. if 0 < count_missing H ess' then resolve_pointers M H (iteration_count + 1) ess' else Some (ess', iteration_count + 1))"

text \<open>Rewiring: \<open>node\<close> draws a label, \<open>real_01\<close> a real number.  The two labels of an edge are arguments of a constructor,
  so which one is drawn first is up to the compiler: \<open>right_first\<close>.\<close>

fun rewire :: "('t \<Rightarrow> real \<times> 't) \<Rightarrow> ('t \<Rightarrow> u64 \<times> 't) \<Rightarrow> bool \<Rightarrow> real \<Rightarrow> (u64 \<times> u64) list \<Rightarrow> 't \<Rightarrow> (u64 \<times> u64) list" where
  "rewire real_01 node right_first prob_rewire [] s = []"
| "rewire real_01 node right_first prob_rewire (e # es) s =
     (let (x, s) = real_01 s
      in if x < prob_rewire then let (a, s) = node s; (b, s) = node s in (if right_first then (b, a) else (a, b)) # rewire real_01 node right_first prob_rewire es s
         else e # rewire real_01 node right_first prob_rewire es s)"

definition pa_scramble :: "nat \<Rightarrow> u64 \<times> u64 \<Rightarrow> (u64 \<times> u64) option" where
  "pa_scramble node_scale e =
     Option.bind (hash_nbits (fst e mod push_bit node_scale 1) (int node_scale))
       (\<lambda>a. map_option (Pair a) (hash_nbits (snd e mod push_bit node_scale 1) (int node_scale)))"

text \<open>The whole, on \<open>p\<close> ranks with the engines \<open>seed r\<close> and \<open>seed2 r\<close>.\<close>

definition gen_preferential_attachment_edge_list ::
    "u64 mpi_ops \<Rightarrow> ('s \<Rightarrow> u64 \<Rightarrow> u64 \<times> 's) \<Rightarrow> ('s \<Rightarrow> real) \<Rightarrow> ('t \<Rightarrow> real \<times> 't) \<Rightarrow> ('t \<Rightarrow> u64 \<times> 't) \<Rightarrow> bool
     \<Rightarrow> nat \<Rightarrow> (nat \<Rightarrow> 's) \<Rightarrow> (nat \<Rightarrow> 't) \<Rightarrow> nat \<Rightarrow> nat \<Rightarrow> real \<Rightarrow> real \<Rightarrow> (u64 \<times> u64) list list option" where
  "gen_preferential_attachment_edge_list M uid prob real_01 node right_first p seed seed2 node_scale edge_scale beta prob_rewire =
     (let global_num_nodes = push_bit node_scale 1; global_num_edges = push_bit edge_scale 1;
          edges_per_rank = unat (global_num_edges div of_nat p);
          H = pa_new (global_num_edges div global_num_nodes) global_num_edges beta
      in Option.bind (those (map (\<lambda>r. gen_local_edges uid prob H p r [0..<edges_per_rank] (seed r)) [0..<p])) (\<lambda>ess.
         Option.bind (resolve_pointers M H 1 ess) (\<lambda>(ess, iteration_count).
         let ess = (if 0 < prob_rewire then map2 (\<lambda>r es. rewire real_01 node right_first prob_rewire es (seed2 r)) [0..<p] ess else ess)
         in those (map (\<lambda>es. those (map (pa_scramble node_scale) es)) ess))))"

subsection \<open>One round\<close>

text \<open>Edge \<open>j\<close> of the whole list is edge \<open>j div p\<close> of rank \<open>j mod p\<close>; its pointer goes to an earlier edge.\<close>

definition edge_at :: "(u64 \<times> u64) list list \<Rightarrow> nat \<Rightarrow> u64 \<times> u64" where
  "edge_at ess j = ess ! (j mod length ess) ! (j div length ess)"

definition pointee :: "pa_helper \<Rightarrow> u64 \<times> u64 \<Rightarrow> nat" where
  "pointee H e = unat (value_of_pointer H (snd e) 1)"

definition pointers_back :: "pa_helper \<Rightarrow> nat \<Rightarrow> (u64 \<times> u64) list list \<Rightarrow> bool" where
  "pointers_back H n ess \<longleftrightarrow> (\<forall>es \<in> set ess. length es = n)
     \<and> (\<forall>j < length ess * n. is_pointer H (snd (edge_at ess j)) \<longrightarrow> pointee H (edge_at ess j) < j)"

definition jumped :: "pa_helper \<Rightarrow> (u64 \<times> u64) list list \<Rightarrow> u64 \<times> u64 \<Rightarrow> u64 \<times> u64" where
  "jumped H ess e = (if is_pointer H (snd e) then (fst e, snd (edge_at ess (pointee H e))) else e)"

lemma edge_at_index: "r < length ess \<Longrightarrow> edge_at ess (r + i * length ess) = ess ! r ! i"
proof -
  assume r: "r < length ess"
  have "(r + i * length ess) div length ess = i" using r by (intro div_nat_eqI) (simp_all add: mult.commute)
  then show ?thesis using r by (simp add: edge_at_def)
qed

lemma write_back_length [simp]: "length (write_back ms vs es) = length es"
proof -
  have "length (fold (\<lambda>(i, v) es. es[i := (fst (es ! i), v)]) ivs es) = length es" for ivs
    by (induction ivs arbitrary: es) (auto simp: split_def)
  then show ?thesis by (simp add: write_back_def)
qed

lemma write_back_nth:
  "distinct ms \<Longrightarrow> i < length es \<Longrightarrow> write_back ms (map f ms) es ! i = (if i \<in> set ms then (fst (es ! i), f i) else es ! i)"
proof (induction ms arbitrary: es)
  case (Cons m ms)
  have "write_back (m # ms) (map f (m # ms)) es = write_back ms (map f ms) (es[m := (fst (es ! m), f m)])" by (simp add: write_back_def)
  moreover have "es[m := (fst (es ! m), f m)] ! i = (if i = m then (fst (es ! i), f i) else es ! i)" using Cons.prems(2) by (simp add: nth_list_update)
  ultimately show ?case using Cons.IH [of "es[m := (fst (es ! m), f m)]"] Cons.prems by auto
qed (simp add: write_back_def)

lemma all_marks:
  assumes "0 < p"
  shows "distinct (concat (map (marks H p es) [0..<p]))" "set (concat (map (marks H p es) [0..<p])) = {i. i < length es \<and> is_pointer H (snd (es ! i))}"
proof -
  have "distinct (concat (map (marks H p es) ts))" if "distinct ts" for ts
    using that by (induction ts) (auto simp: marks_def)
  then show "distinct (concat (map (marks H p es) [0..<p]))" by simp
  show "set (concat (map (marks H p es) [0..<p])) = {i. i < length es \<and> is_pointer H (snd (es ! i))}"
    using assms by (auto simp: marks_def)
qed

lemma marks_length: "length (concat (map (marks H p es) [0..<p])) \<le> length es" if "0 < p"
proof -
  have "length (concat (map (marks H p es) [0..<p])) = card (set (concat (map (marks H p es) [0..<p])))"
    using distinct_card [OF all_marks(1) [OF that]] by metis
  also have "\<dots> \<le> card {..<length es}" unfolding all_marks(2) [OF that] by (rule card_mono) auto
  finally show ?thesis by simp
qed

lemma pointer_jump_eq:
  assumes "mpi_ok M" "ess \<noteq> []" "pointers_back H n ess" "length ess * n < 2 ^ 31"
  shows "pointer_jump M H ess = Some (map (map (jumped H ess)) ess)"
proof -
  define p where "p = length ess"
  have p: "0 < p" using assms(2) by (simp add: p_def)
  have len: "length (ess ! r) = n" if "r < p" for r using assms(3) that by (auto simp: pointers_back_def p_def)
  have ess: "ess = map ((!) ess) [0..<p]" by (simp add: p_def map_nth)
  define bs where "bs r t = pointers_to H p (ess ! r) t" for r t
  define cs where "cs r s = map (\<lambda>v. snd (ess ! r ! (unat v div p))) (bs s r)" for r s
  have cs_fun: "cs r = (\<lambda>s. map (\<lambda>v. snd (ess ! r ! (unat v div p))) (bs s r))" for r by (rule ext) (simp add: cs_def)
  have bs_fun: "bs r = pointers_to H p (ess ! r)" for r by (rule ext) (simp add: bs_def)
  have bs_len: "length (bs r t) = length (marks H p (ess ! r) t)" for r t by (simp add: bs_def pointers_to_def)
  have some: "(\<Sum>t\<leftarrow>[0..<p]. length (bs r t)) \<le> n" if "r < p" for r
    using marks_length [OF p, of H "ess ! r"] len [OF that] by (simp add: bs_len length_concat o_def)
  have sends: "fits_int (\<Sum>t\<leftarrow>[0..<p]. length (bs r t))" if "r < p" for r
  proof -
    have "1 * n \<le> p * n" using p by (intro mult_le_mono1) simp
    then show ?thesis using some [OF that] assms(4) unfolding fits_int_def p_def by linarith
  qed
  have each: "length (bs r t) \<le> n" if "r < p" "t < p" for r t
  proof -
    have "length (bs r t) \<le> (\<Sum>t\<leftarrow>[0..<p]. length (bs r t))" using that(2) by (intro member_le_sum_list) auto
    then show ?thesis using some [OF that(1)] by simp
  qed
  have recvs: "fits_int (\<Sum>s\<leftarrow>[0..<p]. length (bs s r))" if "r < p" for r
  proof -
    have "(\<Sum>s\<leftarrow>[0..<p]. length (bs s r)) \<le> (\<Sum>s\<leftarrow>[0..<p]. n)" using each that by (intro sum_list_mono) simp
    also have "\<dots> = p * n" by (simp add: sum_list_triv)
    finally show ?thesis using assms(4) by (simp add: fits_int_def p_def)
  qed
  have to_send: "map (\<lambda>es. (concat (map (pointers_to H p es) [0..<p]), map (\<lambda>t. length (pointers_to H p es t)) [0..<p])) ess
      = map (\<lambda>s. (concat (map (bs s) [0..<p]), map (\<lambda>r. length (bs s r)) [0..<p])) [0..<p]"
    by (subst ess) (simp add: bs_fun o_def)
  have first: "mpi_all_to_all M (map (\<lambda>s. (concat (map (bs s) [0..<p]), map (\<lambda>r. length (bs s r)) [0..<p])) [0..<p])
      = Some (map (\<lambda>r. (concat (map (\<lambda>s. bs s r) [0..<p]), map (\<lambda>s. length (bs s r)) [0..<p])) [0..<p])"
    by (rule mpi_all_to_all_blocks [OF assms(1) sends recvs])
  have inside: "unat v div p < n" if sv: "s < p" "v \<in> set (bs s r)" for s r v
  proof -
    obtain i where i: "i < n" "is_pointer H (snd (ess ! s ! i))" "v = value_of_pointer H (snd (ess ! s ! i)) 1"
      using sv(2) len [OF sv(1)] by (auto simp: bs_def pointers_to_def marks_def)
    have "s + i * p < p * n"
    proof -
      have "s + i * p < (i + 1) * p" using that(1) by simp
      also have "\<dots> \<le> n * p" using i(1) by (intro mult_le_mono1) simp
      finally show ?thesis by (simp add: mult.commute)
    qed
    moreover have "edge_at ess (s + i * p) = ess ! s ! i" using edge_at_index [of s ess i] that(1) by (simp add: p_def)
    ultimately have "pointee H (ess ! s ! i) < p * n" using assms(3) i(2) by (force simp: pointers_back_def p_def)
    then show ?thesis using i(3) p by (simp add: pointee_def div_less_iff_less_mult mult.commute)
  qed
  have looked: "look_up p (ess ! r) (concat (map (\<lambda>s. bs s r) [0..<p])) = Some (concat (map (cs r) [0..<p]))" if r: "r < p" for r
  proof -
    have looks: "those (map (\<lambda>v. if unat v div p < length (ess ! r) then Some (snd (ess ! r ! (unat v div p))) else None) vs) = Some (map (\<lambda>v. snd (ess ! r ! (unat v div p))) vs)"
      if "\<forall>v \<in> set vs. unat v div p < n" for vs :: "u64 list"
      using that len [OF r] by (induction vs) simp_all
    have all: "\<forall>v \<in> set (concat (map (\<lambda>s. bs s r) [0..<p])). unat v div p < n" using inside by auto
    have "concat (map (cs r) [0..<p]) = map (\<lambda>v. snd (ess ! r ! (unat v div p))) (concat (map (\<lambda>s. bs s r) [0..<p]))"
      by (simp add: cs_fun map_concat o_def)
    then show ?thesis unfolding look_up_def looks [OF all] by simp
  qed
  have cs_len: "length (cs r s) = length (bs s r)" for r s by (simp add: cs_def)
  have answers: "those (map2 (\<lambda>es rc. map_option (\<lambda>vs. (vs, snd rc)) (look_up p es (fst rc))) ess (map (\<lambda>r. (concat (map (\<lambda>s. bs s r) [0..<p]), map (\<lambda>s. length (bs s r)) [0..<p])) [0..<p]))
      = Some (map (\<lambda>r. (concat (map (cs r) [0..<p]), map (\<lambda>s. length (cs r s)) [0..<p])) [0..<p])"
  proof -
    have "those (map (\<lambda>r. map_option (\<lambda>vs. (vs, map (\<lambda>s. length (bs s r)) [0..<p])) (look_up p (ess ! r) (concat (map (\<lambda>s. bs s r) [0..<p])))) rs)
        = Some (map (\<lambda>r. (concat (map (cs r) [0..<p]), map (\<lambda>s. length (cs r s)) [0..<p])) rs)" if "\<forall>r \<in> set rs. r < p" for rs
      using that by (induction rs) (simp_all add: looked cs_len)
    from this [of "[0..<p]"] show ?thesis
      by (subst ess) (simp add: zip_map_map zip_same_conv_map o_def)
  qed
  have second: "mpi_all_to_all M (map (\<lambda>r. (concat (map (cs r) [0..<p]), map (\<lambda>s. length (cs r s)) [0..<p])) [0..<p])
      = Some (map (\<lambda>s. (concat (map (\<lambda>r. cs r s) [0..<p]), map (\<lambda>r. length (cs r s)) [0..<p])) [0..<p])"
    by (rule mpi_all_to_all_blocks [OF assms(1)]) (use sends recvs in \<open>simp_all add: cs_len\<close>)
  have written: "write_back (concat (map (marks H p (ess ! s)) [0..<p])) (concat (map (\<lambda>r. cs r s) [0..<p])) (ess ! s) = map (jumped H ess) (ess ! s)" if s: "s < p" for s
  proof -
    let ?f = "\<lambda>i. snd (edge_at ess (pointee H (ess ! s ! i)))"
    have "cs r s = map ?f (marks H p (ess ! s) r)" for r
      by (auto simp: cs_def bs_def pointers_to_def marks_def edge_at_def pointee_def p_def)
    then have vals: "concat (map (\<lambda>r. cs r s) [0..<p]) = map ?f (concat (map (marks H p (ess ! s)) [0..<p]))" by (simp add: map_concat o_def)
    show ?thesis
    proof (rule nth_equalityI)
      fix i assume "i < length (write_back (concat (map (marks H p (ess ! s)) [0..<p])) (concat (map (\<lambda>r. cs r s) [0..<p])) (ess ! s))"
      then have i: "i < length (ess ! s)" by simp
      show "write_back (concat (map (marks H p (ess ! s)) [0..<p])) (concat (map (\<lambda>r. cs r s) [0..<p])) (ess ! s) ! i = map (jumped H ess) (ess ! s) ! i"
        unfolding vals write_back_nth [OF all_marks(1) [OF p] i] all_marks(2) [OF p] using i by (simp add: jumped_def)
    qed simp
  qed
  have "map2 (\<lambda>es ret. write_back (concat (map (marks H p es) [0..<p])) (fst ret) es) ess (map (\<lambda>s. (concat (map (\<lambda>r. cs r s) [0..<p]), map (\<lambda>r. length (cs r s)) [0..<p])) [0..<p])
      = map (\<lambda>s. map (jumped H ess) (ess ! s)) [0..<p]"
    by (subst ess) (use written in \<open>simp add: zip_map_map zip_same_conv_map o_def\<close>)
  also have "\<dots> = map (map (jumped H ess)) ess" by (rule nth_equalityI) (simp_all add: p_def)
  finally show ?thesis
    unfolding pointer_jump_def Let_def p_def [symmetric] to_send first Option.bind.bind_lunit answers second by simp
qed

subsection \<open>All rounds\<close>

text \<open>The label a chain of pointers ends in, and its length.\<close>

function chain_end :: "pa_helper \<Rightarrow> (u64 \<times> u64) list list \<Rightarrow> nat \<Rightarrow> u64" where
  "chain_end H ess j = (if is_pointer H (snd (edge_at ess j)) \<and> pointee H (edge_at ess j) < j then chain_end H ess (pointee H (edge_at ess j))
     else snd (edge_at ess j))"
  by auto
termination by (relation "measure (\<lambda>(_, _, j). j)") auto

function chain_length :: "pa_helper \<Rightarrow> (u64 \<times> u64) list list \<Rightarrow> nat \<Rightarrow> nat" where
  "chain_length H ess j = (if is_pointer H (snd (edge_at ess j)) \<and> pointee H (edge_at ess j) < j then Suc (chain_length H ess (pointee H (edge_at ess j)))
     else 0)"
  by auto
termination by (relation "measure (\<lambda>(_, _, j). j)") auto

declare chain_end.simps [simp del] chain_length.simps [simp del]

lemma chain_length_le: "chain_length H ess j \<le> j"
proof (induction j rule: less_induct)
  case (less j)
  show ?case using less.IH by (subst chain_length.simps) fastforce
qed

lemma edge_at_map:
  assumes "pointers_back H n ess" "j < length ess * n"
  shows "edge_at (map (map f) ess) j = f (edge_at ess j)"
proof -
  have p: "0 < length ess" using assms(2) by (cases ess) simp_all
  have "length (ess ! (j mod length ess)) = n" using assms(1) p by (simp add: pointers_back_def)
  moreover have "j div length ess < n" using assms(2) p by (simp add: div_less_iff_less_mult mult.commute)
  ultimately show ?thesis using p by (simp add: edge_at_def)
qed

text \<open>One round keeps the end of every chain and halves its length.\<close>

lemma pointers_back_jumped:
  assumes "pointers_back H n ess"
  shows "pointers_back H n (map (map (jumped H ess)) ess)"
proof -
  have "pointee H (edge_at (map (map (jumped H ess)) ess) j) < j"
    if j: "j < length ess * n" and ptr: "is_pointer H (snd (edge_at (map (map (jumped H ess)) ess) j))" for j
  proof (cases "is_pointer H (snd (edge_at ess j))")
    case True
    let ?k = "pointee H (edge_at ess j)"
    have k: "?k < j" using assms j True by (simp add: pointers_back_def)
    have e: "snd (edge_at (map (map (jumped H ess)) ess) j) = snd (edge_at ess ?k)" using edge_at_map [OF assms j] True by (simp add: jumped_def)
    have "pointee H (edge_at ess ?k) < ?k" using assms j k ptr by (simp add: pointers_back_def e)
    then show ?thesis using k e by (simp add: pointee_def)
  next
    case False
    then show ?thesis using edge_at_map [OF assms j] ptr by (simp add: jumped_def)
  qed
  then show ?thesis using assms by (auto simp: pointers_back_def)
qed

lemma chain_jumped:
  assumes "pointers_back H n ess" "j < length ess * n"
  shows "chain_end H (map (map (jumped H ess)) ess) j = chain_end H ess j
    \<and> chain_length H (map (map (jumped H ess)) ess) j = chain_length H ess j div 2"
proof -
  define ess' where "ess' = map (map (jumped H ess)) ess"
  have "chain_end H ess' j = chain_end H ess j \<and> chain_length H ess' j = chain_length H ess j div 2" using assms(2)
  proof (induction j rule: less_induct)
    case (less j)
    let ?e = "edge_at ess"
    have e': "edge_at ess' j = jumped H ess (?e j)" unfolding ess'_def using edge_at_map [OF assms(1) less.prems] .
    show ?case
    proof (cases "is_pointer H (snd (?e j))")
      case False
      then show ?thesis using e' by (simp add: jumped_def chain_end.simps [of _ _ j] chain_length.simps [of _ _ j])
    next
      case True
      let ?k = "pointee H (?e j)"
      have k: "?k < j" "?k < length ess * n" using assms(1) less.prems True by (auto simp: pointers_back_def)
      have s: "snd (edge_at ess' j) = snd (?e ?k)" using e' True by (simp add: jumped_def)
      have old: "chain_end H ess j = chain_end H ess ?k" "chain_length H ess j = Suc (chain_length H ess ?k)"
        using True k(1) by (simp_all add: chain_end.simps [of _ _ j] chain_length.simps [of _ _ j])
      show ?thesis
      proof (cases "is_pointer H (snd (?e ?k))")
        case False
        then show ?thesis using s old by (simp add: chain_end.simps [of _ ess' j] chain_length.simps [of _ ess' j] chain_end.simps [of _ ess ?k] chain_length.simps [of _ ess ?k])
      next
        case True
        let ?l = "pointee H (?e ?k)"
        have l: "?l < ?k" using assms(1) k True by (auto simp: pointers_back_def)
        have pl: "pointee H (edge_at ess' j) = ?l" using s by (simp add: pointee_def)
        have "chain_end H ess ?k = chain_end H ess ?l" "chain_length H ess ?k = Suc (chain_length H ess ?l)"
          using True l by (simp_all add: chain_end.simps [of _ _ ?k] chain_length.simps [of _ _ ?k])
        moreover have "chain_end H ess' j = chain_end H ess' ?l" "chain_length H ess' j = Suc (chain_length H ess' ?l)"
          using True s pl l k by (simp_all add: chain_end.simps [of _ ess' j] chain_length.simps [of _ ess' j])
        moreover have "chain_end H ess' ?l = chain_end H ess ?l \<and> chain_length H ess' ?l = chain_length H ess ?l div 2"
          using less.IH [of ?l] l k by simp
        ultimately show ?thesis using old by simp
      qed
    qed
  qed
  then show ?thesis unfolding ess'_def .
qed

text \<open>Every target replaced by the end of its chain.\<close>

definition chains_ended :: "pa_helper \<Rightarrow> (u64 \<times> u64) list list \<Rightarrow> (u64 \<times> u64) list list" where
  "chains_ended H ess = map (\<lambda>r. map (\<lambda>i. (fst (ess ! r ! i), chain_end H ess (r + i * length ess))) [0..<length (ess ! r)]) [0..<length ess]"

lemma rank_edge:
  assumes "pointers_back H n ess" "r < length ess" "i < n"
  shows "r + i * length ess < length ess * n" "edge_at ess (r + i * length ess) = ess ! r ! i" "length (ess ! r) = n"
proof -
  have "r + i * length ess < (i + 1) * length ess" using assms(2) by simp
  also have "\<dots> \<le> n * length ess" using assms(3) by (intro mult_le_mono1) simp
  finally show "r + i * length ess < length ess * n" by (simp add: mult.commute)
qed (use assms edge_at_index in \<open>auto simp: pointers_back_def\<close>)

lemma count_missing_0:
  assumes "pointers_back H n ess"
  shows "count_missing H ess = 0 \<longleftrightarrow> (\<forall>j < length ess * n. \<not> is_pointer H (snd (edge_at ess j)))"
proof
  assume "count_missing H ess = 0"
  then have none: "\<not> is_pointer H (snd e)" if "es \<in> set ess" "e \<in> set es" for es e
    using that by (auto simp: count_missing_def filter_empty_conv)
  show "\<forall>j < length ess * n. \<not> is_pointer H (snd (edge_at ess j))"
  proof (intro allI impI)
    fix j assume j: "j < length ess * n"
    then have p: "0 < length ess" by (cases ess) simp_all
    then have in_ess: "ess ! (j mod length ess) \<in> set ess" by simp
    have "j div length ess < n" using j p by (simp add: div_less_iff_less_mult mult.commute)
    then have "edge_at ess j \<in> set (ess ! (j mod length ess))" using assms in_ess by (simp add: edge_at_def pointers_back_def)
    then show "\<not> is_pointer H (snd (edge_at ess j))" using none in_ess by blast
  qed
next
  assume none: "\<forall>j < length ess * n. \<not> is_pointer H (snd (edge_at ess j))"
  have "\<not> is_pointer H (snd e)" if "es \<in> set ess" "e \<in> set es" for es e
  proof -
    obtain r where r: "r < length ess" "es = ess ! r" using \<open>es \<in> set ess\<close> by (auto simp: in_set_conv_nth)
    moreover obtain i where "i < length es" "e = es ! i" using \<open>e \<in> set es\<close> by (auto simp: in_set_conv_nth)
    moreover have "length es = n" using assms \<open>es \<in> set ess\<close> by (simp add: pointers_back_def)
    ultimately show ?thesis using none rank_edge [OF assms, of r i] by metis
  qed
  then show "count_missing H ess = 0" by (simp add: count_missing_def filter_empty_conv)
qed

lemma chains_ended_jumped:
  assumes "pointers_back H n ess"
  shows "chains_ended H (map (map (jumped H ess)) ess) = chains_ended H ess"
proof -
  have "fst (jumped H ess e) = fst e" for e by (simp add: jumped_def)
  moreover have "chain_end H (map (map (jumped H ess)) ess) (r + i * length ess) = chain_end H ess (r + i * length ess)" if "r < length ess" "i < n" for r i
    using chain_jumped [OF assms rank_edge(1) [OF assms that]] by simp
  moreover have "length (ess ! r) = n" if "r < length ess" for r using assms that by (simp add: pointers_back_def)
  ultimately show ?thesis unfolding chains_ended_def by (intro map_cong) simp_all
qed

lemma chains_ended_resolved:
  assumes "pointers_back H n ess" "count_missing H ess = 0"
  shows "chains_ended H ess = ess"
proof -
  have none: "\<not> is_pointer H (snd (edge_at ess j))" if "j < length ess * n" for j
    using assms that count_missing_0 by blast
  show ?thesis unfolding chains_ended_def
  proof (rule nth_equalityI)
    fix r assume "r < length (map (\<lambda>r. map (\<lambda>i. (fst (ess ! r ! i), chain_end H ess (r + i * length ess))) [0..<length (ess ! r)]) [0..<length ess])"
    then have r: "r < length ess" by simp
    have len: "length (ess ! r) = n" using assms(1) r by (simp add: pointers_back_def)
    have ends: "chain_end H ess (r + i * length ess) = snd (ess ! r ! i)" if "i < n" for i
      using none [OF rank_edge(1) [OF assms(1) r that]] rank_edge(2) [OF assms(1) r that] by (simp add: chain_end.simps)
    have "map (\<lambda>i. (fst (ess ! r ! i), chain_end H ess (r + i * length ess))) [0..<length (ess ! r)] = ess ! r"
    proof (rule nth_equalityI)
      fix i assume "i < length (map (\<lambda>i. (fst (ess ! r ! i), chain_end H ess (r + i * length ess))) [0..<length (ess ! r)])"
      then have "i < n" by (simp add: len)
      then show "map (\<lambda>i. (fst (ess ! r ! i), chain_end H ess (r + i * length ess))) [0..<length (ess ! r)] ! i = ess ! r ! i"
        using ends by (simp add: len)
    qed simp
    then show "map (\<lambda>r. map (\<lambda>i. (fst (ess ! r ! i), chain_end H ess (r + i * length ess))) [0..<length (ess ! r)]) [0..<length ess] ! r = ess ! r"
      using r by simp
  qed simp
qed

lemma resolve_pointers_eq:
  assumes "mpi_ok M" "ess \<noteq> []" "pointers_back H n ess" "length ess * n < 2 ^ 31"
    "\<And>j. j < length ess * n \<Longrightarrow> chain_length H ess j < 2 ^ k" "0 < k"
  shows "\<exists>c. 0 < c \<and> c \<le> k \<and> resolve_pointers M H it ess = Some (chains_ended H ess, it + c)"
  using assms
proof (induction k arbitrary: ess it)
  case (Suc k)
  define ess' where "ess' = map (map (jumped H ess)) ess"
  have jump: "pointer_jump M H ess = Some ess'" unfolding ess'_def using pointer_jump_eq Suc.prems by blast
  have len: "length ess' = length ess" by (simp add: ess'_def)
  have behind: "pointers_back H n ess'" unfolding ess'_def by (rule pointers_back_jumped [OF Suc.prems(3)])
  have same: "chains_ended H ess' = chains_ended H ess" unfolding ess'_def by (rule chains_ended_jumped [OF Suc.prems(3)])
  show ?case
  proof (cases "count_missing H ess' = 0")
    case True
    then have "chains_ended H ess = ess'" using chains_ended_resolved [OF behind True] same by simp
    then show ?thesis using jump True by (intro exI [of _ 1]) (simp add: resolve_pointers.simps)
  next
    case False
    have short: "chain_length H ess' j < 2 ^ k" if "j < length ess' * n" for j
      using chain_jumped [OF Suc.prems(3), of j] Suc.prems(5) [of j] that unfolding ess'_def by simp
    obtain j where j: "j < length ess' * n" "is_pointer H (snd (edge_at ess' j))" using False unfolding count_missing_0 [OF behind] not_all not_imp not_not by auto
    then have "0 < chain_length H ess' j" using behind by (simp add: chain_length.simps [of _ _ j] pointers_back_def)
    then have "0 < k" using short [OF j(1)] by (cases k) simp_all
    then obtain c where c: "0 < c" "c \<le> k" "resolve_pointers M H (it + 1) ess' = Some (chains_ended H ess', it + 1 + c)"
      using Suc.IH [of ess' "it + 1"] Suc.prems behind short len by (metis length_0_conv)
    have "resolve_pointers M H it ess = Some (chains_ended H ess, it + Suc c)"
      using jump False c(3) same by (subst resolve_pointers.simps) simp
    then show ?thesis using c(1, 2) by (intro exI [of _ "Suc c"]) simp
  qed
qed simp

end
