(* ===== verification/Attachment_Edges.thy ===== *)
theory Attachment_Edges
  imports Preferential_Attachment Edge_Sources
begin

section \<open>The edges of a preferential attachment graph\<close>

text \<open>
  The edges the ranks draw before the pointers are followed, the sequential process they stand for (\<open>attached\<close>), and the generator as a
  whole: it always returns, in at most \<open>edge_scale\<close> rounds, and its edges are those of the sequential process.
\<close>

subsection \<open>Pointers\<close>

definition top_bit :: u64 where "top_bit = push_bit 63 1"

lemma bit_top_bit: "bit top_bit n \<longleftrightarrow> n = 63"
  unfolding top_bit_def bit_push_bit_iff bit_1_iff by auto

lemma pa_new_simps [simp]:
  "pa_k (pa_new k m beta) = k" "pa_num_edges (pa_new k m beta) = m" "pa_koffset (pa_new k m beta) = k * (k + 1) div 2"
  "pa_ptr_mask (pa_new k m beta) = top_bit"
proof -
  have "NOT (drop_bit 1 (- 1)) = top_bit" by (rule bit_word_eqI) (auto simp: bit_top_bit bit_not_iff bit_drop_bit_eq bit_mask_iff)
  then show "pa_ptr_mask (pa_new k m beta) = top_bit" by (simp add: pa_new_def)
qed (simp_all add: pa_new_def)

lemma is_pointer_iff: "is_pointer (pa_new k m beta) i \<longleftrightarrow> bit i 63"
  by (simp add: is_pointer_def top_bit_def bit_iff_and_push_bit_not_eq_0 word_gt_0 del: push_bit_of_1)

lemma small_top_bit: "unat i < 2 ^ 63 \<Longrightarrow> \<not> bit i 63" for i :: u64
proof -
  assume "unat i < 2 ^ 63"
  then have "\<not> bit (unat i) 63" by (simp add: bit_iff_odd)
  then show ?thesis by (simp add: bit_unsigned_iff)
qed

lemma small_not_pointer: "unat i < 2 ^ 63 \<Longrightarrow> \<not> is_pointer (pa_new k m beta) i"
  by (simp add: is_pointer_iff small_top_bit)

lemma make_pointer_pointee:
  assumes "unat i < 2 ^ 63"
  shows "is_pointer (pa_new k m beta) (make_pointer (pa_new k m beta) i)" "value_of_pointer (pa_new k m beta) (make_pointer (pa_new k m beta) i) 1 = i"
proof -
  show "is_pointer (pa_new k m beta) (make_pointer (pa_new k m beta) i)"
    by (simp add: is_pointer_iff make_pointer_def bit_or_iff bit_top_bit)
  have "(i OR top_bit) AND NOT top_bit = i"
    by (rule bit_word_eqI) (use small_top_bit [OF assms] in \<open>auto simp: bit_and_iff bit_or_iff bit_not_iff bit_top_bit\<close>)
  then show "value_of_pointer (pa_new k m beta) (make_pointer (pa_new k m beta) i) 1 = i"
    by (simp add: value_of_pointer_def make_pointer_def)
qed

subsection \<open>The first edges\<close>

lemma unat_of_int_word: "0 \<le> z \<Longrightarrow> z < 2 ^ 64 \<Longrightarrow> unat (of_int z :: u64) = nat z"
  by (simp add: unsigned_of_int take_bit_int_eq_self)

lemma unat_of_nat_small: "n < 2 ^ 64 \<Longrightarrow> unat (of_nat n :: u64) = n"
  by (simp add: unsigned_of_nat take_bit_nat_eq_self)

lemma tri_root_bounds: "1 \<le> \<lfloor>tri_root i\<rfloor>" "\<lfloor>tri_root i\<rfloor> \<le> 2 * int (unat i) + 2"
proof -
  define x where "x = real (unat i)"
  have x: "0 \<le> x" "tri_root i = 1 / 2 + sqrt (1 / 4 + 2 * x)" unfolding x_def by (rule of_nat_0_le_iff) (simp add: tri_root_def)
  have "1 / 2 \<le> sqrt (1 / 4 + 2 * x)" by (rule real_le_rsqrt) (use x(1) in \<open>simp add: power2_eq_square\<close>)
  then show "1 \<le> \<lfloor>tri_root i\<rfloor>" by (simp add: x(2) le_floor_iff)
  have "sqrt (1 / 4 + 2 * x) \<le> 1 / 2 + 2 * x" by (rule real_le_lsqrt) (use x(1) in \<open>simp_all add: power2_eq_square algebra_simps\<close>)
  then have "tri_root i \<le> real_of_int (2 * int (unat i) + 2)" by (simp add: x(2)) (simp add: x_def)
  then show "\<lfloor>tri_root i\<rfloor> \<le> 2 * int (unat i) + 2" by linarith
qed

lemma tri_root_small:
  assumes "unat i < 2 ^ 31"
  shows "\<lfloor>tri_root i\<rfloor> < 2 ^ 33"
proof -
  have "z < 2 ^ 33" if "z \<le> 2 * int n + 2" "n < 2 ^ 31" for z n using that by simp
  from this [OF tri_root_bounds(2) assms] show ?thesis .
qed

lemma nat_small: "z < 2 ^ 33 \<Longrightarrow> nat z < 2 ^ 63"
  by (cases "0 \<le> z") (simp_all add: nat_less_iff)

text \<open>The first edges: all pairs of the labels up to \<open>k\<close>.\<close>

lemma tri_root_pair:
  assumes "unat i = s * (s - 1) div 2 + t" "t < s"
  shows "\<lfloor>tri_root i\<rfloor> = int s" "\<lfloor>(tri_root i - of_int \<lfloor>tri_root i\<rfloor>) * of_int \<lfloor>tri_root i\<rfloor>\<rfloor> = int t"
proof -
  define x y where "x = real s" and "y = real t"
  have "even (s * (s - 1))" by (cases s) simp_all
  then have "2 * (s * (s - 1) div 2) = s * (s - 1)" by (rule dvd_mult_div_cancel)
  then have "2 * unat i = s * (s - 1) + 2 * t" using assms(1) by simp
  then have "real (2 * unat i) = real (s * (s - 1) + 2 * t)" by (rule arg_cong)
  then have i: "2 * real (unat i) = x * (x - 1) + 2 * y" using assms(2) by (simp add: x_def y_def of_nat_diff)
  have xy: "0 \<le> y" "y + 1 \<le> x" using assms(2) by (simp_all add: x_def y_def)
  define f where "f = tri_root i - x"
  have root: "tri_root i = 1 / 2 + sqrt (1 / 4 + x * (x - 1) + 2 * y)" unfolding tri_root_def i by (simp add: add.assoc)
  have low: "x - 1 / 2 \<le> sqrt (1 / 4 + x * (x - 1) + 2 * y)"
    by (rule real_le_rsqrt) (use xy in \<open>simp add: power2_eq_square algebra_simps\<close>)
  have high: "sqrt (1 / 4 + x * (x - 1) + 2 * y) < x + 1 / 2"
    by (rule real_less_lsqrt) (use xy in \<open>simp_all add: power2_eq_square algebra_simps\<close>)
  have f: "0 \<le> f" "f < 1" using low high by (simp_all add: f_def root)
  show fl: "\<lfloor>tri_root i\<rfloor> = int s" using f by (simp add: f_def x_def floor_eq_iff)
  have "0 \<le> 1 / 4 + x * (x - 1) + 2 * y" using xy by (simp add: zero_le_mult_iff)
  then have "(f + x - 1 / 2)\<^sup>2 = 1 / 4 + x * (x - 1) + 2 * y" by (simp add: f_def root)
  then have "2 * (f * x) + f * f = f + 2 * y" by (simp add: power2_eq_square algebra_simps)
  moreover have "f * (1 - f) = f - f * f" by (simp add: right_diff_distrib)
  ultimately have fx: "f * x = y + f * (1 - f) / 2" by linarith
  have "0 \<le> f * (1 - f)" using f by simp
  moreover have "f * (1 - f) \<le> 1" using f mult_mono [of f 1 "1 - f" 1] by simp
  ultimately have "\<lfloor>f * x\<rfloor> = int t" unfolding fx by (simp add: y_def floor_eq_iff)
  then show "\<lfloor>(tri_root i - of_int \<lfloor>tri_root i\<rfloor>) * of_int \<lfloor>tri_root i\<rfloor>\<rfloor> = int t" by (simp add: fl f_def x_def)
qed

definition small_k :: "u64 \<Rightarrow> bool" where
  "small_k k \<longleftrightarrow> 0 < unat k \<and> unat k < 2 ^ 31"

definition clique_edges :: "u64 \<Rightarrow> nat" where
  "clique_edges k = unat k * (unat k + 1) div 2"

lemma koffset_value:
  assumes "small_k k"
  shows "unat (k * (k + 1) div 2) = clique_edges k" "clique_edges k < 2 ^ 62" "0 < clique_edges k"
proof -
  have k: "0 < unat k" "unat k < 2 ^ 31" using assms by (simp_all add: small_k_def)
  have k1: "unat (k + 1) = unat k + 1" using k by (simp add: unat_word_ariths)
  have "unat k * (unat k + 1) \<le> 2 ^ 31 * 2 ^ 31" by (rule mult_le_mono) (use k in simp_all)
  then have b: "unat k * (unat k + 1) \<le> 2 ^ 62" by simp
  have "unat (k * (k + 1)) = unat k * (unat k + 1)"
    using b k1 by (subst unat_mult_lem [THEN iffD1]) simp_all
  then show "unat (k * (k + 1) div 2) = clique_edges k" by (simp add: unat_div clique_edges_def)
  show "clique_edges k < 2 ^ 62" using b by (simp add: clique_edges_def)
  have "1 * 2 \<le> unat k * (unat k + 1)" by (rule mult_le_mono) (use k in simp_all)
  then show "0 < clique_edges k" by (simp add: clique_edges_def)
qed

lemma later_edge:
  assumes "small_k k" "unat i < 2 ^ 63"
  shows "pa_koffset (pa_new k m beta) < i + 1 \<longleftrightarrow> clique_edges k \<le> unat i" "pa_koffset (pa_new k m beta) \<le> i \<longleftrightarrow> clique_edges k \<le> unat i"
proof -
  have "unat (i + 1) = unat i + 1" using assms(2) by (simp add: unat_word_ariths)
  then show "pa_koffset (pa_new k m beta) < i + 1 \<longleftrightarrow> clique_edges k \<le> unat i" "pa_koffset (pa_new k m beta) \<le> i \<longleftrightarrow> clique_edges k \<le> unat i"
    using koffset_value(1) [OF assms(1)] by (auto simp: word_less_nat_alt word_le_nat_alt)
qed

lemma calc_source_eq:
  assumes "small_k k" "unat i < 2 ^ 31"
  shows "unat (calc_source (pa_new k m beta) i)
    = (if clique_edges k \<le> unat i then (unat i - clique_edges k) div unat k + unat k + 1 else nat \<lfloor>tri_root i\<rfloor>)"
proof -
  have i: "unat i < 2 ^ 63" using assms(2) by simp
  have k: "unat k < 2 ^ 31" using assms(1) by (simp add: small_k_def)
  show ?thesis
  proof (cases "clique_edges k \<le> unat i")
    case True
    let ?x = "(i - k * (k + 1) div 2) div k"
    have x: "unat ?x = (unat i - clique_edges k) div unat k"
      using True koffset_value(1) [OF assms(1)] by (simp add: unat_div unat_sub word_le_nat_alt)
    have "(unat i - clique_edges k) div unat k \<le> unat i" by (rule le_trans [OF div_le_dividend]) simp
    then have "unat (?x + k + 1) = unat ?x + unat k + 1" using x k assms(2) by (simp add: unat_word_ariths)
    then show ?thesis using True x later_edge(1) [OF assms(1) i, of m beta] by (simp add: calc_source_def)
  next
    case False
    have "\<lfloor>tri_root i\<rfloor> < 2 ^ 64" by (rule less_trans [OF tri_root_small [OF assms(2)]]) simp
    then show ?thesis using False later_edge(1) [OF assms(1) i, of m beta] tri_root_bounds(1) [of i] by (simp add: calc_source_def unat_of_int_word)
  qed
qed

lemma calc_target_eq:
  assumes "small_k k" "unat i < 2 ^ 31" "unat i < clique_edges k"
  shows "\<exists>t. calc_target (pa_new k m beta) i = Some t
    \<and> unat t = nat \<lfloor>(tri_root i - of_int \<lfloor>tri_root i\<rfloor>) * of_int \<lfloor>tri_root i\<rfloor>\<rfloor> \<and> unat t < 2 ^ 63"
proof -
  let ?r = "tri_root i" and ?v = "(tri_root i - of_int \<lfloor>tri_root i\<rfloor>) * of_int \<lfloor>tri_root i\<rfloor>"
  have r: "1 \<le> \<lfloor>?r\<rfloor>" "\<lfloor>?r\<rfloor> < 2 ^ 33" by (rule tri_root_bounds(1)) (rule tri_root_small [OF assms(2)])
  have "0 \<le> ?r - of_int \<lfloor>?r\<rfloor>" "?r - of_int \<lfloor>?r\<rfloor> \<le> 1" by linarith+
  then have "0 \<le> ?v" "?v \<le> 1 * of_int \<lfloor>?r\<rfloor>" using r(1) by (auto intro!: mult_nonneg_nonneg mult_right_mono)
  then have v: "0 \<le> \<lfloor>?v\<rfloor>" "\<lfloor>?v\<rfloor> < 2 ^ 33" using r(2) by linarith+
  have "unat (of_int \<lfloor>?v\<rfloor> :: u64) = nat \<lfloor>?v\<rfloor>" by (rule unat_of_int_word) (use v in simp_all)
  moreover have "nat \<lfloor>?v\<rfloor> < 2 ^ 63" by (rule nat_small [OF v(2)])
  ultimately show ?thesis using later_edge(1) [OF assms(1), of i m beta] assms(2, 3) by (simp add: calc_target_def)
qed

lemma calc_source_small:
  assumes "small_k k" "unat i < 2 ^ 31"
  shows "unat (calc_source (pa_new k m beta) i) < 2 ^ 63"
proof -
  have "(unat i - clique_edges k) div unat k \<le> unat i" by (rule le_trans [OF div_le_dividend]) simp
  moreover have "unat k < 2 ^ 31" using assms(1) by (simp add: small_k_def)
  moreover have "nat \<lfloor>tri_root i\<rfloor> < 2 ^ 63" by (rule nat_small [OF tri_root_small [OF assms(2)]])
  ultimately show ?thesis using assms(2) by (simp add: calc_source_eq [OF assms])
qed

text \<open>The pairs \<open>t < s \<le> k\<close> are numbered row by row.\<close>

lemma clique_pair:
  assumes "small_k k" "t < s" "s \<le> unat k" "unat i = s * (s - 1) div 2 + t" "clique_edges k < 2 ^ 31"
  shows "unat i < clique_edges k" "unat (calc_source (pa_new k m beta) i) = s"
    "map_option unat (calc_target (pa_new k m beta) i) = Some t"
proof -
  have "even (s * (s - 1))" by (cases s) simp_all
  then have "s * (s - 1) div 2 + s = (s * (s - 1) + 2 * s) div 2" by simp
  also have "s * (s - 1) + 2 * s = s * (s + 1)" using assms(2) by (cases s) simp_all
  also have "s * (s + 1) div 2 \<le> clique_edges k"
    unfolding clique_edges_def by (rule div_le_mono, rule mult_le_mono) (use assms(3) in simp_all)
  finally show lt: "unat i < clique_edges k" using assms(2, 4) by simp
  then have i: "unat i < 2 ^ 31" using assms(5) by simp
  note r = tri_root_pair [OF assms(4, 2)]
  show "unat (calc_source (pa_new k m beta) i) = s" using lt r(1) by (simp add: calc_source_eq [OF assms(1) i])
  show "map_option unat (calc_target (pa_new k m beta) i) = Some t" using calc_target_eq [OF assms(1) i lt, of m beta] r(2) by auto
qed

lemma card_pairs: "card {(s, t). t < s \<and> s \<le> n} = n * (n + 1) div 2" for n :: nat
proof -
  have "{(s, t). t < s \<and> s \<le> n} = (SIGMA s:{..n}. {..<s})" by auto
  then have "card {(s, t). t < s \<and> s \<le> n} = (\<Sum>s\<le>n. s)" by simp
  also have "\<dots> = n * (n + 1) div 2" using gauss_sum_nat [of n] by (simp add: atMost_atLeast0)
  finally show ?thesis .
qed

text \<open>
  C21. The seed of the graph.  The first \<open>k (k + 1) div 2\<close> edges, whose two ends are square roots, are the edges of the complete graph on the
  labels \<open>0\<close> to \<open>k\<close>: each pair of labels is the edge of exactly one index.
\<close>

theorem seed_is_complete_graph:
  assumes "small_k k" "clique_edges k < 2 ^ 31"
  shows "bij_betw (\<lambda>i. (unat (calc_source (pa_new k m beta) (of_nat i)), unat (the (calc_target (pa_new k m beta) (of_nat i)))))
    {..<clique_edges k} {(s, t). t < s \<and> s \<le> unat k}"
proof -
  let ?f = "\<lambda>i. (unat (calc_source (pa_new k m beta) (of_nat i)), unat (the (calc_target (pa_new k m beta) (of_nat i))))"
  let ?P = "{(s, t). t < s \<and> s \<le> unat k}"
  have onto: "(s, t) \<in> ?f ` {..<clique_edges k}" if st: "t < s" "s \<le> unat k" for s t
  proof -
    define i where "i = s * (s - 1) div 2 + t"
    have "unat k * (unat k + 1) div 2 = clique_edges k" by (simp add: clique_edges_def)
    have "s * (s - 1) div 2 + t \<le> s * s + s" using div_le_dividend [of "s * (s - 1)" 2] st(1) diff_le_self [of s 1]
      by (meson add_mono le_trans less_imp_le mult_le_mono2)
    also have "\<dots> \<le> 2 ^ 31 * 2 ^ 31 + 2 ^ 31" using st(2) assms(1) by (intro add_mono mult_le_mono) (simp_all add: small_k_def)
    finally have "unat (of_nat i :: u64) = i" unfolding i_def [symmetric] by (intro unat_of_nat_small) simp
    then have c: "unat (of_nat i :: u64) = s * (s - 1) div 2 + t" by (simp add: i_def)
    have lt: "i < clique_edges k" using clique_pair(1) [OF assms(1) st c assms(2)] \<open>unat (of_nat i :: u64) = i\<close> by simp
    have eq: "?f i = (s, t)" using clique_pair(2, 3) [OF assms(1) st c assms(2), of m beta] by auto
    show ?thesis by (rule image_eqI [where f = ?f, OF eq [symmetric]]) (use lt in simp)
  qed
  define f P where "f = ?f" and "P = ?P"
  have sub: "P \<subseteq> f ` {..<clique_edges k}" using onto unfolding f_def P_def by blast
  have card: "card P = clique_edges k" unfolding P_def card_pairs clique_edges_def ..
  have "card (f ` {..<clique_edges k}) \<le> card {..<clique_edges k}" by (rule card_image_le) simp
  then have le: "card (f ` {..<clique_edges k}) \<le> card P" using card by simp
  have img: "P = f ` {..<clique_edges k}" by (rule card_seteq [OF finite_imageI [OF finite_lessThan] sub le])
  then have "card (f ` {..<clique_edges k}) = card {..<clique_edges k}" using card by simp
  then have "inj_on f {..<clique_edges k}" by (rule eq_card_imp_inj_on [OF finite_lessThan])
  then have "bij_betw f {..<clique_edges k} P" using img by (simp add: bij_betw_def)
  then show ?thesis unfolding f_def P_def .
qed

lemma seed_is_complete_graph_witness:
  "bij_betw (\<lambda>i. (unat (calc_source (pa_new 16 (2 ^ 21) 1) (of_nat i)), unat (the (calc_target (pa_new 16 (2 ^ 21) 1) (of_nat i)))))
    {..<136} {(s, t). t < s \<and> s \<le> 16}"
  using seed_is_complete_graph [of 16 "2 ^ 21" 1] by (simp add: small_k_def clique_edges_def)

end
