(* ===== verification/Attachment_Properties.thy ===== *)
theory Attachment_Properties
  imports Attachment_Edges
begin

section \<open>Preferential attachment: the properties\<close>

text \<open>
  The sequential process and the proof that the generator computes it on any number of ranks.
\<close>

subsection \<open>The sequential process\<close>

text \<open>The engine of rank \<open>r\<close> before its edge \<open>i\<close>, and the slot edge \<open>j\<close> draws: twice an earlier edge, plus one for its target.\<close>

fun engine_at :: "('s \<Rightarrow> u64 \<Rightarrow> u64 \<times> 's) \<Rightarrow> pa_helper \<Rightarrow> nat \<Rightarrow> nat \<Rightarrow> 's \<Rightarrow> nat \<Rightarrow> 's" where
  "engine_at uid H p r s 0 = s"
| "engine_at uid H p r s (Suc i) =
     (let s' = engine_at uid H p r s i; j = of_nat (r + i * p) in if pa_koffset H \<le> j then snd (uid s' (j - 1)) else s')"

definition slot :: "('s \<Rightarrow> u64 \<Rightarrow> u64 \<times> 's) \<Rightarrow> ('s \<Rightarrow> real) \<Rightarrow> pa_helper \<Rightarrow> nat \<Rightarrow> (nat \<Rightarrow> 's) \<Rightarrow> nat \<Rightarrow> nat" where
  "slot uid prob H p seed j =
     (let s = engine_at uid H p (j mod p) (seed (j mod p)) (j div p)
      in 2 * unat (fst (uid s (of_nat j - 1))) + (if pa_alpha H < prob s then 1 else 0))"

text \<open>The target of edge \<open>j\<close>: the source or the target of the edge it draws.\<close>

function attached :: "(nat \<Rightarrow> nat) \<Rightarrow> pa_helper \<Rightarrow> nat \<Rightarrow> u64" where
  "attached sl H j =
     (if unat (pa_koffset H) \<le> j \<and> sl j < 2 * j
      then if even (sl j) then calc_source H (of_nat (sl j div 2)) else attached sl H (sl j div 2)
      else the (calc_target H (of_nat j)))"
  by auto
termination by (relation "measure (\<lambda>(_, _, j). j)") auto

declare attached.simps [simp del]

subsection \<open>The edges before the pointers are followed\<close>

definition first_target :: "pa_helper \<Rightarrow> nat \<Rightarrow> nat \<Rightarrow> u64" where
  "first_target H j v =
     (if unat (pa_koffset H) \<le> j
      then if even v then calc_source H (of_nat (v div 2))
           else if v div 2 < unat (pa_koffset H) then the (calc_target H (of_nat (v div 2))) else make_pointer H (of_nat (v div 2))
      else the (calc_target H (of_nat j)))"

lemma gen_edge_eq:
  assumes "small_k k" "j < 2 ^ 31" "\<And>s m. fst (uid s m) \<le> m" and H: "H = pa_new k m beta"
    and v: "v = 2 * unat (fst (uid s (of_nat j - 1))) + (if pa_alpha H < prob s then 1 else 0)"
  shows "gen_edge uid prob H (of_nat j) s = Some ((calc_source H (of_nat j), first_target H j v),
    if pa_koffset H \<le> of_nat j then snd (uid s (of_nat j - 1)) else s)"
    "clique_edges k \<le> j \<Longrightarrow> v < 2 * j"
proof -
  have j: "unat (of_nat j :: u64) = j" by (rule unat_of_nat_small) (use assms(2) in simp)
  have c: "unat (pa_koffset H) = clique_edges k" by (simp add: H koffset_value(1) [OF assms(1)])
  have c0: "0 < clique_edges k" by (rule koffset_value(3) [OF assms(1)])
  have later: "pa_koffset H \<le> of_nat j \<longleftrightarrow> clique_edges k \<le> j" unfolding H by (subst later_edge(2) [OF assms(1)]) (use j assms(2) in simp_all)
  define d where "d = fst (uid s (of_nat j - 1))"
  have d: "unat d < j" if "clique_edges k \<le> j"
  proof -
    have "unat (of_nat j - 1 :: u64) = j - 1" using that c0 j by (simp add: unat_sub word_le_nat_alt)
    moreover have "unat d \<le> unat (of_nat j - 1 :: u64)" using assms(3) unfolding d_def word_le_nat_alt by blast
    ultimately show ?thesis using that c0 by simp
  qed
  show "v < 2 * j" if "clique_edges k \<le> j" using d [OF that] unfolding v d_def [symmetric] by simp
  show "gen_edge uid prob H (of_nat j) s = Some ((calc_source H (of_nat j), first_target H j v),
    if pa_koffset H \<le> of_nat j then snd (uid s (of_nat j - 1)) else s)"
  proof (cases "clique_edges k \<le> j")
    case False
    then obtain t where "calc_target H (of_nat j) = Some t" using calc_target_eq [OF assms(1), of "of_nat j" m beta] j assms(2) by (auto simp: H)
    then show ?thesis using False later c by (simp add: gen_edge_def first_target_def)
  next
    case True
    note dj = d [OF True]
    have even: "unat (d * 2) = 2 * unat d" using dj assms(2) by (simp add: unat_word_ariths)
    have odd: "unat (d * 2 + 1) = 2 * unat d + 1" using dj assms(2) by (simp add: unat_word_ariths)
    have r: "(d * 2) mod 2 = 0" "(d * 2) div 2 = d" "(d * 2 + 1) mod 2 \<noteq> 0" "(d * 2 + 1) div 2 = d"
      using even odd by (simp_all add: word_unat_eq_iff unat_div unat_mod)
    obtain s' where u: "uid s (of_nat j - 1) = (d, s')" by (metis d_def prod.collapse)
    show ?thesis
    proof (cases "pa_alpha H < prob s")
      case odd: True
      then have v': "v = 2 * unat d + 1" by (simp add: v d_def)
      have "d < pa_koffset H \<longleftrightarrow> unat d < clique_edges k" by (simp add: word_less_nat_alt c)
      moreover have "\<exists>t. calc_target H d = Some t" if "unat d < clique_edges k"
        using calc_target_eq [OF assms(1), of d m beta] that dj assms(2) by (auto simp: H)
      ultimately show ?thesis using True later c odd r(3, 4) by (auto simp: gen_edge_def first_target_def v' u)
    next
      case even: False
      then have v': "v = 2 * unat d" by (simp add: v d_def)
      then show ?thesis using True later c even r(1, 2) by (simp add: gen_edge_def first_target_def v' u)
    qed
  qed
qed

lemma gen_local_edges_eq:
  assumes "small_k k" "p * n < 2 ^ 31" "\<And>s m. fst (uid s m) \<le> m" "H = pa_new k m beta" "r < p" "i \<le> n"
  shows "gen_local_edges uid prob H p r [i..<n] (engine_at uid H p r (seed r) i)
    = Some (map (\<lambda>i. (calc_source H (of_nat (r + i * p)), first_target H (r + i * p) (slot uid prob H p seed (r + i * p)))) [i..<n])"
  using assms(6)
proof (induction "n - i" arbitrary: i)
  case (Suc l)
  then have i: "i < n" by simp
  let ?s = "engine_at uid H p r (seed r) i" and ?j = "r + i * p"
  have "?j < (i + 1) * p" using assms(5) by simp
  also have "\<dots> \<le> n * p" using i by (intro mult_le_mono1) simp
  finally have j: "?j < 2 ^ 31" using assms(2) by (simp add: mult.commute)
  have "?j mod p = r" "?j div p = i" using assms(5) by (simp, intro div_nat_eqI) (simp_all add: mult.commute)
  then have v: "slot uid prob H p seed ?j = 2 * unat (fst (uid ?s (of_nat ?j - 1))) + (if pa_alpha H < prob ?s then 1 else 0)"
    by (simp add: slot_def)
  note e = gen_edge_eq(1) [where uid = uid and prob = prob and s = ?s, OF assms(1) j assms(3, 4) v]
  have w: "of_nat r + of_nat i * of_nat p = (of_nat ?j :: u64)" by simp
  have "gen_local_edges uid prob H p r [Suc i..<n] (engine_at uid H p r (seed r) (Suc i))
    = Some (map (\<lambda>i. (calc_source H (of_nat (r + i * p)), first_target H (r + i * p) (slot uid prob H p seed (r + i * p)))) [Suc i..<n])"
    by (rule Suc.hyps(1)) (use Suc.hyps(2) i in simp_all)
  then show ?case unfolding upt_conv_Cons [OF i] gen_local_edges.simps w e by (simp add: Let_def del: of_nat_add of_nat_mult)
qed simp

subsection \<open>The pointers end in the targets of the process\<close>

definition grid :: "nat \<Rightarrow> nat \<Rightarrow> (nat \<Rightarrow> u64 \<times> u64) \<Rightarrow> (u64 \<times> u64) list list" where
  "grid p n e = map (\<lambda>r. map (\<lambda>i. e (r + i * p)) [0..<n]) [0..<p]"

lemma edge_at_grid: "j < p * n \<Longrightarrow> edge_at (grid p n e) j = e j"
proof -
  assume j: "j < p * n"
  then have p: "0 < p" by (cases p) simp_all
  have "j div p < n" using j p by (simp add: div_less_iff_less_mult mult.commute)
  moreover have "j mod p + j div p * p = j" by (simp add: mod_div_mult_eq)
  ultimately show ?thesis using p by (simp add: edge_at_def grid_def)
qed

lemma first_target_pointer:
  assumes "small_k k" "H = pa_new k m beta" "j < 2 ^ 31" "v < 2 * j \<or> j < clique_edges k"
  shows "is_pointer H (first_target H j v) \<longleftrightarrow> clique_edges k \<le> j \<and> odd v \<and> clique_edges k \<le> v div 2"
    "clique_edges k \<le> j \<Longrightarrow> odd v \<Longrightarrow> clique_edges k \<le> v div 2 \<Longrightarrow> pointee H (a, first_target H j v) = v div 2"
proof -
  have c: "unat (pa_koffset H) = clique_edges k" by (simp add: assms(2) koffset_value(1) [OF assms(1)])
  have u: "unat (of_nat i :: u64) = i" "unat (of_nat i :: u64) < 2 ^ 31" "unat (of_nat i :: u64) < 2 ^ 63" if "i < 2 ^ 31" for i
    using that unat_of_nat_small [of i] by simp_all
  have target: "\<not> is_pointer H (the (calc_target H (of_nat i)))" if "i < 2 ^ 31" "i < clique_edges k" for i
    using calc_target_eq [OF assms(1) u(2) [OF that(1)], of m beta] u(1) [OF that(1)] that(2) small_not_pointer assms(2) by auto
  have source: "\<not> is_pointer H (calc_source H (of_nat i))" if "i < 2 ^ 31" for i
    unfolding assms(2) by (rule small_not_pointer, rule calc_source_small [OF assms(1) u(2) [OF that]])
  have ptr: "is_pointer H (make_pointer H (of_nat i))" "value_of_pointer H (make_pointer H (of_nat i)) 1 = of_nat i" if "i < 2 ^ 31" for i
    unfolding assms(2) by (rule make_pointer_pointee [OF u(3) [OF that]])+
  have v: "v div 2 < 2 ^ 31" if "clique_edges k \<le> j" using assms(3, 4) that by auto
  show "is_pointer H (first_target H j v) \<longleftrightarrow> clique_edges k \<le> j \<and> odd v \<and> clique_edges k \<le> v div 2"
    using target [OF assms(3)] target [OF v] source [OF v] ptr(1) [OF v] by (auto simp: first_target_def c)
  show "pointee H (a, first_target H j v) = v div 2" if "clique_edges k \<le> j" "odd v" "clique_edges k \<le> v div 2"
    using that ptr(2) [OF v] u(1) [OF v] by (simp add: first_target_def c pointee_def)
qed

lemma first_edges_resolved:
  assumes "small_k k" "H = pa_new k m beta" "p * n < 2 ^ 31" "\<And>j. j < p * n \<Longrightarrow> clique_edges k \<le> j \<Longrightarrow> sl j < 2 * j"
  defines "ess \<equiv> grid p n (\<lambda>j. (calc_source H (of_nat j), first_target H j (sl j)))"
  shows "pointers_back H n ess" "chains_ended H ess = grid p n (\<lambda>j. (calc_source H (of_nat j), attached sl H j))"
proof -
  have c: "unat (pa_koffset H) = clique_edges k" by (simp add: assms(2) koffset_value(1) [OF assms(1)])
  have len: "length ess = p" "\<And>es. es \<in> set ess \<Longrightarrow> length es = n" by (auto simp: ess_def grid_def)
  have e: "edge_at ess j = (calc_source H (of_nat j), first_target H j (sl j))" if "j < p * n" for j
    unfolding ess_def using edge_at_grid [OF that] by simp
  have ptr: "is_pointer H (first_target H j (sl j)) \<longleftrightarrow> clique_edges k \<le> j \<and> odd (sl j) \<and> clique_edges k \<le> sl j div 2" if "j < p * n" for j
    by (rule first_target_pointer(1) [OF assms(1, 2)]) (use that assms(3) assms(4) [OF that] in auto)
  have to: "pointee H (a, first_target H j (sl j)) = sl j div 2" if "j < p * n" "is_pointer H (first_target H j (sl j))" for j a
    by (rule first_target_pointer(2) [OF assms(1, 2)]) (use that assms(3) assms(4) [OF that(1)] ptr [OF that(1)] in auto)
  have less: "sl j div 2 < j" if "j < p * n" "is_pointer H (first_target H j (sl j))" for j
    using ptr [OF that(1)] that(2) assms(4) [OF that(1)] by auto
  show "pointers_back H n ess" using len e to less by (simp add: pointers_back_def)
  have ends: "chain_end H ess j = attached sl H j" if "j < p * n" for j
    using that
  proof (induction j rule: less_induct)
    case (less j)
    show ?case
    proof (cases "is_pointer H (first_target H j (sl j))")
      case True
      note l = \<open>\<And>j. j < p * n \<Longrightarrow> is_pointer H (first_target H j (sl j)) \<Longrightarrow> sl j div 2 < j\<close> [OF less.prems True]
      have "chain_end H ess j = chain_end H ess (sl j div 2)"
        using True l to [OF less.prems True] e [OF less.prems] by (simp add: chain_end.simps [of H ess j])
      also have "\<dots> = attached sl H (sl j div 2)" using less.IH [OF l] l less.prems by simp
      also have "\<dots> = attached sl H j" using True ptr [OF less.prems] assms(4) [OF less.prems] by (simp add: attached.simps [of sl H j] c)
      finally show ?thesis .
    next
      case False
      have "chain_end H ess j = first_target H j (sl j)" using False e [OF less.prems] by (simp add: chain_end.simps [of H ess j])
      also have "\<dots> = attached sl H j"
      proof (cases "clique_edges k \<le> j \<and> odd (sl j)")
        case odd: True
        then have "sl j div 2 < clique_edges k" using False ptr [OF less.prems] by simp
        moreover have "attached sl H j = attached sl H (sl j div 2)" using odd assms(4) [OF less.prems] by (simp add: attached.simps [of sl H j] c)
        ultimately show ?thesis using odd by (simp add: first_target_def c attached.simps [of sl H "sl j div 2"])
      next
        case even: False
        then show ?thesis using assms(4) [OF less.prems] by (auto simp: first_target_def c attached.simps [of sl H j])
      qed
      finally show ?thesis .
    qed
  qed
  have at: "r + i * p < p * n" if "r < p" "i < n" for r i
  proof -
    have "r + i * p < (i + 1) * p" using that(1) by simp
    also have "\<dots> \<le> n * p" using that(2) by (intro mult_le_mono1) simp
    finally show ?thesis by (simp add: mult.commute)
  qed
  have "chains_ended H ess = map (\<lambda>r. map (\<lambda>i. (fst (ess ! r ! i), chain_end H ess (r + i * p))) [0..<n]) [0..<p]"
    unfolding chains_ended_def len(1) by (intro map_cong refl) (simp add: len)
  also have "\<dots> = grid p n (\<lambda>j. (calc_source H (of_nat j), attached sl H j))"
    unfolding grid_def by (intro map_cong refl) (simp add: at ends, simp add: ess_def grid_def)
  finally show "chains_ended H ess = grid p n (\<lambda>j. (calc_source H (of_nat j), attached sl H j))" .
qed

subsection \<open>The generator\<close>

definition pa_label :: "nat \<Rightarrow> u64 \<Rightarrow> u64" where
  "pa_label node_scale v = the (hash_nbits (v mod push_bit node_scale 1) (int node_scale))"

lemma pa_label:
  assumes "16 < n" "n < 64"
  shows "hash_nbits (v mod push_bit n 1) (int n) = Some (pa_label n v)" "unat (pa_label n v) < 2 ^ n"
proof -
  have bij: "hash_nbits (v mod push_bit n 1) (int n) \<noteq> None" "bij_betw (\<lambda>x. the (hash_nbits x (int n))) (nbit_labels n) (nbit_labels n)"
    using hash_nbits_bij [of "int n"] assms by simp_all
  then show "hash_nbits (v mod push_bit n 1) (int n) = Some (pa_label n v)" by (auto simp: pa_label_def)
  have "unat (v mod push_bit n 1) < 2 ^ n" using unat_push_bit_1 [OF assms(2)] by (simp add: unat_mod)
  then show "unat (pa_label n v) < 2 ^ n"
    using bij_betw_apply [OF bij(2), of "v mod push_bit n 1"] assms(2) by (simp add: nbit_labels_iff pa_label_def)
qed

text \<open>
  C19. Generating a preferential attachment graph always returns, whatever the random numbers: the distributed pointers are resolved after at
  most \<open>edge_scale\<close> rounds.  Edge \<open>j\<close> of the graph, on rank \<open>j mod p\<close>, is the one of the sequential process: its target is the source or the final
  target of the earlier edge it has drawn.  Then edges are drawn anew if asked for, and the labels, taken modulo the number of vertices, are
  permuted and stay below it.
\<close>

theorem preferential_attachment_sequential:
  assumes "mpi_ok M" "0 < p" "p < 2 ^ 31" "16 < node_scale" "node_scale \<le> edge_scale" "edge_scale \<le> 30" "\<And>s m. fst (uid s m) \<le> m"
    and H: "H = pa_new (push_bit edge_scale 1 div push_bit node_scale 1) (push_bit edge_scale 1) beta"
    and ess: "ess = map (\<lambda>r. map (\<lambda>i. (calc_source H (of_nat (r + i * p)), attached (slot uid prob H p seed) H (r + i * p))) [0..<2 ^ edge_scale div p]) [0..<p]"
  shows "gen_preferential_attachment_edge_list M uid prob real_01 node right_first p seed reseed node_scale edge_scale beta prob_rewire
      = Some (map (map (\<lambda>(u, v). (pa_label node_scale u, pa_label node_scale v)))
          (if 0 < prob_rewire then map2 (\<lambda>r es. rewire real_01 node right_first prob_rewire es (reseed r)) [0..<p] ess else ess))
    \<and> (\<forall>v. unat (pa_label node_scale v) < 2 ^ node_scale)
    \<and> (\<exists>rounds. 0 < rounds \<and> rounds \<le> edge_scale
        \<and> Option.bind (those (map (\<lambda>r. gen_local_edges uid prob H p r [0..<2 ^ edge_scale div p] (seed r)) [0..<p])) (resolve_pointers M H 1) = Some (ess, 1 + rounds))"
proof -
  let ?k = "push_bit edge_scale 1 div push_bit node_scale 1 :: u64" and ?n = "2 ^ edge_scale div p" and ?sl = "slot uid prob H p seed"
  have scales: "node_scale < 64" "edge_scale < 64" using assms(5, 6) by simp_all
  have "unat ?k = 2 ^ (edge_scale - node_scale)" using assms(5) by (simp add: unat_div unat_push_bit_1 [OF scales(1)] unat_push_bit_1 [OF scales(2)] power_diff del: push_bit_of_1)
  moreover have "(2 :: nat) ^ (edge_scale - node_scale) < 2 ^ 31" by (rule power_strict_increasing) (use assms(6) in simp_all)
  ultimately have k: "small_k ?k" by (simp add: small_k_def)
  have n1: "p * ?n \<le> 2 ^ edge_scale" by (rule times_div_less_eq_dividend)
  have n2: "(2 :: nat) ^ edge_scale < 2 ^ 31" by (rule power_strict_increasing) (use assms(6) in simp_all)
  note n = n1 le_less_trans [OF n1 n2]
  have "unat (of_nat p :: u64) = p" by (rule unat_of_nat_small) (use assms(3) in simp)
  then have per_rank: "unat (push_bit edge_scale 1 div of_nat p :: u64) = ?n" by (simp add: unat_div unat_push_bit_1 [OF scales(2)] del: push_bit_of_1)
  define first where "first = grid p ?n (\<lambda>j. (calc_source H (of_nat j), first_target H j (?sl j)))"
  have local: "those (map (\<lambda>r. gen_local_edges uid prob H p r [0..<?n] (seed r)) [0..<p]) = Some first"
    unfolding first_def grid_def
    by (rule those_map_Some) (use gen_local_edges_eq [where seed = seed and prob = prob and i = 0, OF k n(2) assms(7) H] in simp)
  have sl: "?sl j < 2 * j" if "j < p * ?n" "clique_edges ?k \<le> j" for j
    using gen_edge_eq(2) [where uid = uid and prob = prob and s = "engine_at uid H p (j mod p) (seed (j mod p)) (j div p)", OF k _ assms(7) H _ that(2)] that(1) n(2)
    by (simp add: slot_def Let_def)
  have resolved: "pointers_back H ?n first" "chains_ended H first = ess"
    using first_edges_resolved [where sl = "?sl", OF k H n(2) sl] by (simp_all add: first_def ess grid_def)
  have p: "length first = p" by (simp add: first_def grid_def)
  have "chain_length H first j < 2 ^ edge_scale" if "j < length first * ?n" for j
    by (rule le_less_trans [OF chain_length_le less_le_trans [OF _ n(1)]]) (use that p in simp)
  then obtain c where c: "0 < c \<and> c \<le> edge_scale" "resolve_pointers M H 1 first = Some (ess, 1 + c)"
    using resolve_pointers_eq [OF assms(1), of first H ?n edge_scale 1] resolved p assms(2, 4, 5) n(2) by auto
  have "pa_scramble node_scale e = Some (case e of (u, v) \<Rightarrow> (pa_label node_scale u, pa_label node_scale v))" for e
    using pa_label(1) [OF assms(4) scales(1)] by (simp add: pa_scramble_def split_def)
  then have scrambled: "those (map (\<lambda>es. those (map (pa_scramble node_scale) es)) ess') = Some (map (map (\<lambda>(u, v). (pa_label node_scale u, pa_label node_scale v))) ess')" for ess'
    by (intro those_map_Some) simp
  have "\<exists>rounds. 0 < rounds \<and> rounds \<le> edge_scale \<and> Option.bind (Some first) (resolve_pointers M H 1) = Some (ess, 1 + rounds)"
    using c by auto
  then show ?thesis using pa_label(2) [OF assms(4) scales(1)]
    unfolding gen_preferential_attachment_edge_list_def Let_def per_rank H [symmetric] local Option.bind.bind_lunit c(2) prod.case scrambled by simp
qed

lemma preferential_attachment_sequential_witness:
  "gen_preferential_attachment_edge_list plain_mpi (\<lambda>s m. (min s m, 5 * s + 3)) (\<lambda>s. if even (unat s) then 1 else 0) (\<lambda>t. (1 / 2, Suc t)) (\<lambda>t. (of_nat t, Suc t)) False
      2 (\<lambda>r. of_nat r) (\<lambda>r. r) 17 21 1 (1 / 10)
    = Some (map (map (\<lambda>(u, v). (pa_label 17 u, pa_label 17 v))) (map2 (\<lambda>r es. rewire (\<lambda>t. (1 / 2, Suc t)) (\<lambda>t. (of_nat t, Suc t)) False (1 / 10) es r) [0..<2]
        (map (\<lambda>r. map (\<lambda>i. (calc_source (pa_new 16 (2 ^ 21) 1) (of_nat (r + i * 2)),
           attached (slot (\<lambda>s m. (min s m, 5 * s + 3)) (\<lambda>s. if even (unat s) then 1 else 0) (pa_new 16 (2 ^ 21) 1) 2 (\<lambda>r. of_nat r)) (pa_new 16 (2 ^ 21) 1) (r + i * 2))) [0..<2 ^ 20]) [0..<2])))
    \<and> (\<forall>v. unat (pa_label 17 v) < 2 ^ 17)"
proof -
  have H: "pa_new 16 (2 ^ 21) 1 = pa_new (push_bit 21 1 div push_bit 17 1) (push_bit 21 1) 1" by simp
  have n: "(2 :: nat) ^ 20 = 2 ^ 21 div 2" by simp
  show ?thesis unfolding n
    using preferential_attachment_sequential [where M = plain_mpi and p = 2 and node_scale = 17 and edge_scale = 21 and beta = 1 and prob_rewire = "1 / 10" and reseed = "\<lambda>r. r"
        and uid = "\<lambda>s m. (min s m, 5 * s + 3)" and seed = "\<lambda>r. of_nat r", OF mpi_ok_plain _ _ _ _ _ _ H refl]
    by simp
qed

end
