(* ===== verification/Pattern_Graph.thy ===== *)
theory Pattern_Graph
  imports Kronecker_Generator Ordered_Map
begin

section \<open>The pattern of a search (prunejuice/template.hpp)\<close>

text \<open>
  \<open>pattern_graph_csr\<close>: the small graph that pattern matching looks for, read from five files and kept in compressed rows.  The vertices of
  the pattern are numbers from 0, the edges are listed by source.  The constructor is the one of the pattern matching program.
\<close>

subsection \<open>The files\<close>

record pattern_graph =
  pg_directed :: bool
  pg_vertex_count :: nat
  pg_edge_count :: nat
  pg_diameter :: u64
  pg_vertices :: "nat list"
  pg_vertex_degree :: "nat list"
  pg_vertex_data :: "u64 list"
  pg_edges :: "u64 list"
  pg_edge_ID :: "u64 list"
  pg_edge_data :: "8 word list"
  pg_edge_list :: "(u64 \<times> u64) list"
  pg_neighbor_data_count :: "(u64 \<times> nat) list list"

text \<open>Each line starts from zeros; a file that does not open has no lines.\<close>

definition file_lines :: "(string \<Rightarrow> string option) \<Rightarrow> string \<Rightarrow> string list" where
  "file_lines fs filename = (case fs filename of None \<Rightarrow> [] | Some file \<Rightarrow> lines_of file)"

definition read_vertex_data_line :: "string \<Rightarrow> u64" where
  "read_vertex_data_line line =
     (let (v_source, st) = extract_u64 (line, False) 0; (v_data, st) = extract_u64 st 0 in v_data)"

definition read_vertex_data_list :: "(string \<Rightarrow> string option) \<Rightarrow> string \<Rightarrow> pattern_graph \<Rightarrow> pattern_graph" where
  "read_vertex_data_list fs filename P =
     P\<lparr>pg_vertex_data := pg_vertex_data P @ map read_vertex_data_line (file_lines fs filename)\<rparr>"

definition read_edge_line :: "string \<Rightarrow> u64 \<times> u64" where
  "read_edge_line line = (let (s, st) = extract_u64 (line, False) 0; (t, st) = extract_u64 st 0 in (s, t))"

definition read_edge_list :: "(string \<Rightarrow> string option) \<Rightarrow> string \<Rightarrow> pattern_graph \<Rightarrow> pattern_graph" where
  "read_edge_list fs filename P =
     (let es = map read_edge_line (file_lines fs filename); edges = pg_edges P @ map snd es
      in P\<lparr>pg_edges := edges, pg_edge_list := pg_edge_list P @ es, pg_edge_count := length edges\<rparr>)"

text \<open>\<open>EdgeData\<close> is \<open>uint8_t\<close>, so the weight is a character.\<close>

definition read_edge_data_line :: "string \<Rightarrow> u64 \<times> 8 word" where
  "read_edge_data_line line =
     (let (s, st) = extract_u64 (line, False) 0; (t, st) = extract_u64 st 0; (e, st) = extract_u64 st 0; (w, st) = extract_char st 0 in (e, w))"

definition read_edge_data_list :: "(string \<Rightarrow> string option) \<Rightarrow> string \<Rightarrow> pattern_graph \<Rightarrow> pattern_graph" where
  "read_edge_data_list fs filename P =
     (let es = map read_edge_data_line (file_lines fs filename)
      in P\<lparr>pg_edge_ID := pg_edge_ID P @ map fst es, pg_edge_data := pg_edge_data P @ map snd es\<rparr>)"

text \<open>\<open>getline\<close> with a delimiter, \<open>boost::trim\<close>, \<open>boost::iequals\<close>; \<open>std::stoull\<close> throws (\<open>None\<close>) without a number that fits.\<close>

function tokens :: "char \<Rightarrow> string \<Rightarrow> string list" where
  "tokens delim s = (if s = [] then [] else takeWhile (\<lambda>c. c \<noteq> delim) s # tokens delim (drop 1 (dropWhile (\<lambda>c. c \<noteq> delim) s)))"
  by auto
termination
proof (relation "measure (\<lambda>(_, s). length s)")
  fix delim :: char and s :: string assume "s \<noteq> []"
  then show "((delim, drop 1 (dropWhile (\<lambda>c. c \<noteq> delim) s)), (delim, s)) \<in> measure (\<lambda>(_, s). length s)"
    using length_dropWhile_le [of "\<lambda>c. c \<noteq> delim" s] by (cases s) auto
qed simp

declare tokens.simps [simp del]

definition trim :: "string \<Rightarrow> string" where
  "trim s = rev (dropWhile is_space (rev (dropWhile is_space s)))"

definition lower :: "char \<Rightarrow> nat" where
  "lower c = (let n = of_char c in if 65 \<le> n \<and> n \<le> 90 then n + 32 else n)"

definition iequals :: "string \<Rightarrow> string \<Rightarrow> bool" where
  "iequals s t \<longleftrightarrow> map lower s = map lower t"

definition stoull :: "string \<Rightarrow> u64 option" where
  "stoull s = (let (v, st) = extract_u64 (s, False) 0 in if snd st then None else Some v)"

definition read_stat_line :: "string \<Rightarrow> pattern_graph \<Rightarrow> pattern_graph option" where
  "read_stat_line line P =
     (case tokens CHR '':'' line of
        t0 # t1 # _ \<Rightarrow> if iequals (trim t0) ''diameter'' then map_option (\<lambda>v. P\<lparr>pg_diameter := v\<rparr>) (stoull (trim t1)) else Some P
      | _ \<Rightarrow> None)"

definition read_stat :: "(string \<Rightarrow> string option) \<Rightarrow> string \<Rightarrow> pattern_graph \<Rightarrow> pattern_graph option" where
  "read_stat fs filename P = fold (\<lambda>line res. Option.bind res (read_stat_line line)) (file_lines fs filename) (Some P)"

subsection \<open>The rows\<close>

text \<open>
  The loop looks at \<open>edge_list[l]\<close> before it knows that \<open>l\<close> is in the list.  A look past the end is undefined and ends the loop with
  \<open>Past_End\<close>: the vertex whose edges were being counted, their number so far, and the two tables so far.  A loop that never ends is \<open>None\<close>.
\<close>

definition push_offset :: "nat list \<Rightarrow> nat list \<Rightarrow> nat list" where
  "push_offset vertices vertex_degree = vertices @ [if vertices = [] then 0 else last vertex_degree + last vertices]"

datatype row_result = Rows u64 "nat list" "nat list" | Past_End u64 nat "nat list" "nat list"

partial_function (option) vertex_loop ::
    "(u64 \<times> u64) list \<Rightarrow> u64 \<Rightarrow> nat \<Rightarrow> nat \<Rightarrow> u64 \<Rightarrow> nat list \<Rightarrow> nat list \<Rightarrow> row_result option" where
  "vertex_loop edge_list max_vertex l degree current_vertex vertices vertex_degree =
     (if length edge_list \<le> l then Some (Past_End current_vertex degree vertices vertex_degree)
      else if fst (edge_list ! l) = current_vertex
      then if current_vertex \<le> max_vertex then vertex_loop edge_list max_vertex (l + 1) (degree + 1) current_vertex vertices vertex_degree
           else Some (Rows current_vertex vertices vertex_degree)
      else let vertices = push_offset vertices vertex_degree; vertex_degree = vertex_degree @ [degree]; current_vertex = current_vertex + 1
           in if current_vertex \<le> max_vertex then vertex_loop edge_list max_vertex l 0 current_vertex vertices vertex_degree
              else Some (Rows current_vertex vertices vertex_degree))"

text \<open>An undefined read leaves no pattern: \<open>None\<close>.\<close>

definition generate_vertex_list :: "pattern_graph \<Rightarrow> pattern_graph option" where
  "generate_vertex_list P =
     (if pg_edge_list P = [] then None
      else case vertex_loop (pg_edge_list P) (fst (last (pg_edge_list P))) 0 0 0 (pg_vertices P) (pg_vertex_degree P) of
             Some (Rows n vertices vertex_degree) \<Rightarrow>
               Some (P\<lparr>pg_vertices := push_offset vertices vertex_degree, pg_vertex_degree := vertex_degree, pg_vertex_count := unat n\<rparr>)
           | _ \<Rightarrow> None)"

text \<open>How often each label occurs around a vertex; an index out of range is \<open>None\<close>.\<close>

definition row_of :: "pattern_graph \<Rightarrow> nat \<Rightarrow> u64 list" where
  "row_of P v = map ((!) (pg_edges P)) [pg_vertices P ! v..<pg_vertices P ! Suc v]"

definition count_data :: "pattern_graph \<Rightarrow> u64 \<Rightarrow> (u64 \<times> nat) list option \<Rightarrow> (u64 \<times> nat) list option" where
  "count_data P v_nbr res =
     (if unat v_nbr < length (pg_vertex_data P) then map_option (map_modify (pg_vertex_data P ! unat v_nbr) 0 Suc) res else None)"

definition generate_vertex_neighbor_data_count_map :: "pattern_graph \<Rightarrow> pattern_graph option" where
  "generate_vertex_neighbor_data_count_map P =
     map_option (\<lambda>maps. P\<lparr>pg_neighbor_data_count := maps\<rparr>)
       (those (map (\<lambda>v. fold (count_data P) (row_of P v) (Some [])) [0..<pg_vertex_count P]))"

definition pattern_graph_csr ::
    "(string \<Rightarrow> string option) \<Rightarrow> string \<Rightarrow> string \<Rightarrow> string \<Rightarrow> string \<Rightarrow> bool \<Rightarrow> pattern_graph option" where
  "pattern_graph_csr fs edge_input_filename vertex_data_input_filename edge_data_input_filename stat_input_filename directed =
     (let P = \<lparr>pg_directed = directed, pg_vertex_count = 0, pg_edge_count = 0, pg_diameter = 0, pg_vertices = [], pg_vertex_degree = [],
            pg_vertex_data = [], pg_edges = [], pg_edge_ID = [], pg_edge_data = [], pg_edge_list = [], pg_neighbor_data_count = []\<rparr>
      in Option.bind (generate_vertex_list (read_edge_list fs edge_input_filename P))
           (\<lambda>P. Option.bind (read_stat fs stat_input_filename
                   (read_edge_data_list fs edge_data_input_filename (read_vertex_data_list fs vertex_data_input_filename P)))
             generate_vertex_neighbor_data_count_map))"

subsection \<open>The rows are those of the edge list\<close>

definition edges_before :: "(u64 \<times> u64) list \<Rightarrow> nat \<Rightarrow> nat" where
  "edges_before es v = length (filter (\<lambda>e. unat (fst e) < v) es)"

definition edges_from :: "(u64 \<times> u64) list \<Rightarrow> nat \<Rightarrow> (u64 \<times> u64) list" where
  "edges_from es v = filter (\<lambda>e. unat (fst e) = v) es"

definition by_source :: "(u64 \<times> u64) list \<Rightarrow> bool" where
  "by_source es \<longleftrightarrow> sorted (map (\<lambda>e. unat (fst e)) es)"

lemma by_source_split:
  "by_source es \<Longrightarrow> es = filter (\<lambda>e. unat (fst e) < v) es @ edges_from es v @ filter (\<lambda>e. v < unat (fst e)) es"
proof (induction es)
  case (Cons e es)
  have es: "by_source es" and le: "\<forall>x \<in> set es. unat (fst e) \<le> unat (fst x)" using Cons.prems by (auto simp: by_source_def)
  note s = Cons.IH [OF es]
  consider "unat (fst e) < v" | "unat (fst e) = v" | "v < unat (fst e)" by linarith
  then show ?case
  proof cases
    case 1
    then show ?thesis using s by (simp add: edges_from_def)
  next
    case 2
    then have "filter (\<lambda>e. unat (fst e) < v) es = []" using le by (auto simp: filter_empty_conv)
    then show ?thesis using 2 s by (simp add: edges_from_def)
  next
    case 3
    then have "filter (\<lambda>e. unat (fst e) < v) es = []" "edges_from es v = []" using le by (auto simp: filter_empty_conv edges_from_def)
    then show ?thesis using 3 s by (simp add: edges_from_def)
  qed
qed (simp add: edges_from_def)

lemma edges_before_0 [simp]: "edges_before es 0 = 0"
  by (simp add: edges_before_def)

lemma edges_before_Suc: "edges_before es (Suc v) = edges_before es v + length (edges_from es v)"
  by (induction es) (auto simp: edges_before_def edges_from_def)

lemma source_at:
  assumes "by_source es" "d \<le> length (edges_from es v)" "edges_before es v + d < length es"
  shows "unat (fst (es ! (edges_before es v + d))) = v \<longleftrightarrow> d < length (edges_from es v)"
proof -
  let ?a = "filter (\<lambda>e. unat (fst e) < v) es" and ?b = "edges_from es v" and ?c = "filter (\<lambda>e. v < unat (fst e)) es"
  have es: "es = ?a @ ?b @ ?c" by (rule by_source_split [OF assms(1)])
  have "es ! (edges_before es v + d) = (?a @ ?b @ ?c) ! (length ?a + d)" using es by (simp add: edges_before_def)
  also have "\<dots> = (?b @ ?c) ! d" by (rule nth_append_length_plus)
  finally have at: "es ! (edges_before es v + d) = (?b @ ?c) ! d" .
  show ?thesis
  proof (cases "d < length ?b")
    case True
    then have "(?b @ ?c) ! d \<in> set ?b" by (simp add: nth_append)
    then show ?thesis using True by (simp add: at edges_from_def)
  next
    case False
    then have d: "d = length ?b" using assms(2) by simp
    have "length es = length ?a + length ?b + length ?c" by (subst es) (simp only: length_append add.assoc)
    then have "0 < length ?c" using assms(3) d by (simp add: edges_before_def)
    then have "?c ! 0 \<in> set ?c" by (rule nth_mem)
    then have "v < unat (fst (?c ! 0))" unfolding set_filter by blast
    moreover have "(?b @ ?c) ! d = ?c ! 0" using d by (simp add: nth_append)
    ultimately show ?thesis using False by (simp add: at)
  qed
qed

lemma row_is_filter:
  assumes "by_source es"
  shows "map ((!) es) [edges_before es v..<edges_before es (Suc v)] = edges_from es v"
proof -
  obtain a b c where es: "es = a @ b @ c" and a: "length a = edges_before es v" and b: "b = edges_from es v"
    using by_source_split [OF assms, of v] edges_before_def by metis
  have "map ((!) (a @ b @ c)) [length a..<length a + length b] = b"
    by (rule nth_equalityI) (simp_all add: nth_append)
  then show ?thesis unfolding edges_before_Suc b [symmetric] a [symmetric] es [symmetric] .
qed

definition row_offsets :: "(u64 \<times> u64) list \<Rightarrow> nat \<Rightarrow> nat list" where
  "row_offsets es n = map (edges_before es) [0..<n]"

definition row_degrees :: "(u64 \<times> u64) list \<Rightarrow> nat \<Rightarrow> nat list" where
  "row_degrees es n = map (\<lambda>v. length (edges_from es v)) [0..<n]"

lemma push_row: "push_offset (row_offsets es n) (row_degrees es n) = row_offsets es (Suc n)"
proof (cases n)
  case (Suc m)
  then have "last (row_degrees es n) + last (row_offsets es n) = edges_before es n" by (simp add: row_degrees_def row_offsets_def edges_before_Suc)
  then show ?thesis by (simp add: push_offset_def row_offsets_def Suc)
qed (simp add: push_offset_def row_offsets_def)

lemma length_edges_from: "edges_before es (Suc v) \<le> length es"
  unfolding edges_before_def by (rule length_filter_le)

lemma last_source:
  assumes "by_source es" "es \<noteq> []" "c < unat (fst (last es))"
  shows "edges_before es (Suc c) < length es"
proof -
  have "filter (\<lambda>e. unat (fst e) < Suc c) es = filter (\<lambda>e. unat (fst e) < Suc c) (butlast es)"
    using assms(2, 3) by (subst append_butlast_last_id [OF assms(2), symmetric]) (simp del: append_butlast_last_id)
  then have "edges_before es (Suc c) \<le> length (butlast es)" unfolding edges_before_def by (metis length_filter_le)
  moreover have "length (butlast es) < length es" using assms(2) by simp
  ultimately show ?thesis by (rule le_less_trans)
qed

lemma vertex_loop_row:
  assumes "by_source es" "d \<le> length (edges_from es c)" "c \<le> unat mx" "unat (of_nat c :: u64) = c"
  shows "vertex_loop es mx (edges_before es c + d) d (of_nat c) vs ds
    = vertex_loop es mx (edges_before es (Suc c)) (length (edges_from es c)) (of_nat c) vs ds"
  using assms(2)
proof (induction "length (edges_from es c) - d" arbitrary: d)
  case 0
  then show ?case by (simp add: edges_before_Suc)
next
  case (Suc k)
  have lt: "edges_before es c + d < length es" using Suc.hyps(2) length_edges_from [of es c] by (simp add: edges_before_Suc)
  have "unat (fst (es ! (edges_before es c + d))) = c" using source_at [OF assms(1) Suc.prems lt] Suc.hyps(2) by simp
  then have "fst (es ! (edges_before es c + d)) = of_nat c" by (simp add: word_unat_eq_iff assms(4))
  moreover have "of_nat c \<le> mx" using assms(3, 4) by (simp add: word_le_nat_alt)
  ultimately have "vertex_loop es mx (edges_before es c + d) d (of_nat c) vs ds = vertex_loop es mx (edges_before es c + Suc d) (Suc d) (of_nat c) vs ds"
    using lt by (subst vertex_loop.simps) simp
  also have "\<dots> = vertex_loop es mx (edges_before es (Suc c)) (length (edges_from es c)) (of_nat c) vs ds"
    by (rule Suc.hyps(1)) (use Suc.hyps(2) in simp_all)
  finally show ?case .
qed

lemma edges_before_last:
  assumes "by_source es" "es \<noteq> []" "unat (fst (last es)) = c"
  shows "edges_before es (Suc c) = length es"
proof -
  have "unat (fst e) \<le> c" if e: "e \<in> set es" for e
  proof -
    obtain i where i: "i < length es" "e = es ! i" using e unfolding in_set_conv_nth by blast
    have "map (\<lambda>e. unat (fst e)) es ! i \<le> map (\<lambda>e. unat (fst e)) es ! (length es - 1)"
      by (rule sorted_nth_mono) (use assms(1) i(1) in \<open>simp_all add: by_source_def\<close>)
    then show ?thesis using i assms(2, 3) by (simp add: last_conv_nth)
  qed
  then have "filter (\<lambda>e. unat (fst e) < Suc c) es = es" by (simp add: filter_id_conv less_Suc_eq_le)
  then show ?thesis by (simp add: edges_before_def)
qed

lemma vertex_loop_all:
  assumes "by_source es" "es \<noteq> []" "mx = fst (last es)" "c \<le> unat mx"
  shows "vertex_loop es mx (edges_before es c) 0 (of_nat c) (row_offsets es c) (row_degrees es c)
    = Some (Past_End mx (length (edges_from es (unat mx))) (row_offsets es (unat mx)) (row_degrees es (unat mx)))"
  using assms(4)
proof (induction "unat mx - c" arbitrary: c)
  case (0 c)
  then have c1: "c = unat mx" by simp
  then have c2: "of_nat c = mx" by simp
  have w: "unat (of_nat c :: u64) = c" using c1 by simp
  have "vertex_loop es mx (edges_before es (Suc c)) (length (edges_from es c)) mx (row_offsets es c) (row_degrees es c)
      = Some (Past_End mx (length (edges_from es c)) (row_offsets es c) (row_degrees es c))"
    using edges_before_last [OF assms(1, 2), of c] c1 assms(3) by (subst vertex_loop.simps) simp
  then show ?case using vertex_loop_row [OF assms(1) _ _ w, of 0 mx] c1 c2 by simp
next
  case (Suc k c)
  then have c: "c < unat mx" by simp
  have "unat mx < 2 ^ 64" using unsigned_less [of mx] by simp
  then have w: "unat (of_nat c :: u64) = c" "unat (of_nat (Suc c) :: u64) = Suc c"
    using c by (simp_all add: unsigned_of_nat take_bit_nat_eq_self del: of_nat_Suc)
  have lt: "edges_before es c + length (edges_from es c) < length es" using last_source [OF assms(1, 2), of c] c assms(3) by (simp add: edges_before_Suc)
  have "unat (fst (es ! (edges_before es c + length (edges_from es c)))) \<noteq> c"
    using source_at [OF assms(1) le_refl lt] by simp
  then have "fst (es ! edges_before es (Suc c)) \<noteq> of_nat c" using w(1) by (auto simp: edges_before_Suc)
  moreover have "edges_before es (Suc c) < length es" using lt by (simp add: edges_before_Suc)
  moreover have "of_nat (Suc c) \<le> mx" using c w(2) by (simp add: word_le_nat_alt del: of_nat_Suc)
  ultimately have "vertex_loop es mx (edges_before es (Suc c)) (length (edges_from es c)) (of_nat c) (row_offsets es c) (row_degrees es c)
      = vertex_loop es mx (edges_before es (Suc c)) 0 (of_nat (Suc c)) (row_offsets es (Suc c)) (row_degrees es (Suc c))"
    by (subst vertex_loop.simps) (simp add: Let_def push_row add.commute, simp add: row_degrees_def)
  also have "\<dots> = Some (Past_End mx (length (edges_from es (unat mx))) (row_offsets es (unat mx)) (row_degrees es (unat mx)))"
    by (rule Suc.hyps(1)) (use Suc.hyps(2) c in simp_all)
  finally show ?case using vertex_loop_row [OF assms(1) _ _ w(1), of 0 mx] c by simp
qed

subsection \<open>The constructor\<close>

lemma row_of_offsets:
  assumes "by_source es" "pg_edges P = map snd es" "pg_vertices P = row_offsets es (Suc n)" "v < n"
  shows "row_of P v = map snd (edges_from es v)"
proof -
  have "pg_vertices P ! v = edges_before es v" "pg_vertices P ! Suc v = edges_before es (Suc v)"
    using assms(3, 4) by (simp_all add: row_offsets_def del: upt_Suc)
  moreover have "map ((!) (map snd es)) [a..<edges_before es (Suc v)] = map snd (map ((!) es) [a..<edges_before es (Suc v)])" for a
    using length_edges_from [of es v] by simp
  ultimately show ?thesis unfolding row_of_def assms(2) row_is_filter [OF assms(1), of v, symmetric] by metis
qed

lemma count_data_row:
  assumes "\<forall>w \<in> set ws. unat w < length (pg_vertex_data P)" "strict_keys m"
  shows "\<exists>m'. fold (count_data P) ws (Some m) = Some m' \<and> strict_keys m'
    \<and> (\<forall>x. lookup_default 0 m' x = lookup_default 0 m x + length (filter (\<lambda>w. pg_vertex_data P ! unat w = x) ws))"
  using assms
proof (induction ws arbitrary: m)
  case (Cons w ws)
  let ?m = "map_modify (pg_vertex_data P ! unat w) 0 Suc m"
  have "strict_keys ?m" using Cons.prems(2) by (rule strict_keys_map_modify)
  then obtain m' where "fold (count_data P) ws (Some ?m) = Some m'" "strict_keys m'"
    "\<forall>x. lookup_default 0 m' x = lookup_default 0 ?m x + length (filter (\<lambda>w. pg_vertex_data P ! unat w = x) ws)"
    using Cons.IH [of ?m] Cons.prems(1) by auto
  moreover have "count_data P w (Some m) = Some ?m" using Cons.prems(1) by (simp add: count_data_def)
  ultimately show ?case using lookup_map_modify [OF Cons.prems(2)] by auto
qed simp

text \<open>The counts around a vertex are those of the labels in its row.\<close>

lemma neighbor_counts:
  assumes "\<forall>v < pg_vertex_count P. \<forall>w \<in> set (row_of P v). unat w < length (pg_vertex_data P)"
  shows "\<exists>maps. generate_vertex_neighbor_data_count_map P = Some (P\<lparr>pg_neighbor_data_count := maps\<rparr>) \<and> length maps = pg_vertex_count P
    \<and> (\<forall>v < pg_vertex_count P. \<forall>x. lookup_default 0 (maps ! v) x = length (filter (\<lambda>w. pg_vertex_data P ! unat w = x) (row_of P v)))"
proof -
  have "\<exists>m. fold (count_data P) (row_of P v) (Some []) = Some m \<and> (\<forall>x. lookup_default 0 m x = length (filter (\<lambda>w. pg_vertex_data P ! unat w = x) (row_of P v)))"
    if "v < pg_vertex_count P" for v
    using count_data_row [of "row_of P v" P "[]"] assms that by (auto simp: strict_keys_def)
  then obtain m where m: "fold (count_data P) (row_of P v) (Some []) = Some (m v)"
    "\<forall>x. lookup_default 0 (m v) x = length (filter (\<lambda>w. pg_vertex_data P ! unat w = x) (row_of P v))" if "v < pg_vertex_count P" for v
    by metis
  have "those (map (\<lambda>v. fold (count_data P) (row_of P v) (Some [])) [0..<pg_vertex_count P]) = Some (map m [0..<pg_vertex_count P])"
    by (rule those_map_Some, rule m(1)) simp
  then show ?thesis using m(2)
    by (intro exI [of _ "map m [0..<pg_vertex_count P]"]) (simp add: generate_vertex_neighbor_data_count_map_def)
qed

text \<open>
  C18. The constructor of a pattern reads past the end of its edge list.  For every edge file whose edges are listed by source, the loop over
  the edges gets the offset and the degree of every vertex before the last one right and counts all edges of the last one; then it looks at
  \<open>edge_list[edge_list.size()]\<close> to find out that there are no more, so that what the constructor does is undefined whatever the other files hold.
\<close>

theorem pattern_reads_past_end:
  assumes "es = map read_edge_line (file_lines fs edge_file)" "by_source es" "es \<noteq> []" "n = unat (fst (last es))"
  shows "vertex_loop es (fst (last es)) 0 0 0 [] []
      = Some (Past_End (fst (last es)) (length (filter (\<lambda>e. unat (fst e) = n) es))
          (map (\<lambda>v. length (filter (\<lambda>e. unat (fst e) < v) es)) [0..<n]) (map (\<lambda>v. length (filter (\<lambda>e. unat (fst e) = v) es)) [0..<n]))
    \<and> pattern_graph_csr fs edge_file data_file edge_data_file stat_file directed = None"
proof -
  have loop: "vertex_loop es (fst (last es)) 0 0 0 [] [] = Some (Past_End (fst (last es)) (length (edges_from es n)) (row_offsets es n) (row_degrees es n))"
    using vertex_loop_all [OF assms(2, 3) refl, of 0] assms(4) by (simp add: row_offsets_def row_degrees_def)
  then have "generate_vertex_list (read_edge_list fs edge_file P) = None" if "pg_edge_list P = []" "pg_vertices P = []" "pg_vertex_degree P = []" for P
    using that assms(3) by (simp add: generate_vertex_list_def read_edge_list_def Let_def flip: assms(1))
  then have "pattern_graph_csr fs edge_file data_file edge_data_file stat_file directed = None" by (simp add: pattern_graph_csr_def)
  then show ?thesis using loop by (simp add: edges_from_def row_offsets_def edges_before_def row_degrees_def)
qed

definition one_edge_pattern :: "string \<Rightarrow> string option" where
  "one_edge_pattern f = (if f = ''edge'' then Some (''0 1'' @ newline # ''1 0'') else if f = ''data'' then Some (''0 5'' @ newline # ''1 7'')
     else if f = ''stat'' then Some ''Diameter : 1'' else None)"

lemma pattern_reads_past_end_witness:
  "vertex_loop [(0, 1), (1, 0)] 1 0 0 0 [] [] = Some (Past_End 1 1 [0] [1])
    \<and> pattern_graph_csr one_edge_pattern ''edge'' ''data'' ''none'' ''stat'' False = None"
proof -
  have lines: "file_lines one_edge_pattern ''edge'' = [''0 1'', ''1 0'']"
    by (simp add: file_lines_def one_edge_pattern_def lines_of.simps get_line_def newline_def)
  have x: "extract_u64 (''0 1'', False) 0 = (0, '' 1'', False)" "extract_u64 (''1 0'', False) 0 = (1, '' 0'', False)"
    "extract_u64 ('' 1'', False) 0 = (1, '''', False)" "extract_u64 ('' 0'', False) 0 = (0, '''', False)"
    by (simp_all add: extract_u64_def is_space_def is_digit_def dec_value_def)
  have es: "[(0, 1), (1, 0)] = map read_edge_line (file_lines one_edge_pattern ''edge'')"
    unfolding lines by (simp add: read_edge_line_def x)
  show ?thesis
    using pattern_reads_past_end [OF es, where n = 1 and data_file = "''data''" and edge_data_file = "''none''" and stat_file = "''stat''" and directed = False] by (simp add: by_source_def)
qed

end
