(* ===== verification/Edge_Partitioner.thy ===== *)
theory Edge_Partitioner
  imports Collectives Vertex_Locator "HOL-Library.AList"
begin

section \<open>Where an edge is sent (impl/edge_partitioner.hpp)\<close>

text \<open>
  The partitioners the construction of the graph gives to \<open>mpi_all_to_all_better\<close>.  An edge is a source,
  a target and its data.  The partitioner of hub edges keeps a table of the edges a rank passes on; in
  the construction as it stands that table is always empty.
\<close>

type_synonym 'd edge = "nat \<times> nat \<times> 'd"

definition source_partitioner :: "nat \<Rightarrow> nat \<Rightarrow> nat" where
  "source_partitioner mpi_size i = i mod mpi_size"

definition edge_source_partitioner :: "nat \<Rightarrow> ('d edge, 's) partitioner_fun" where
  "edge_source_partitioner mpi_size i is_counting s = Some (fst i mod mpi_size, s)"

definition edge_target_partitioner :: "nat \<Rightarrow> nat \<times> nat \<Rightarrow> nat" where
  "edge_target_partitioner mpi_size i = snd i mod mpi_size"

definition dest_pair_partitioner :: "nat \<times> 'a \<Rightarrow> nat" where
  "dest_pair_partitioner i = fst i"

record overflow_send_info =
  to_send_id :: nat
  to_send_count :: int
  temp_to_send_count :: int

definition overflow_send_info_new :: "nat \<Rightarrow> int \<Rightarrow> overflow_send_info" where
  "overflow_send_info_new sid cnt = \<lparr>to_send_id = sid, to_send_count = cnt, temp_to_send_count = 0\<rparr>"

type_synonym transfer_info = "(nat \<times> overflow_send_info list) list"

text \<open>The counting pass: the first receiver with room left, noted in its temporary count.\<close>

fun count_overflow :: "overflow_send_info list \<Rightarrow> (nat \<times> overflow_send_info list) option" where
  "count_overflow [] = None"
| "count_overflow (o1 # os) =
     (if temp_to_send_count o1 < to_send_count o1
      then Some (to_send_id o1, o1\<lparr>temp_to_send_count := temp_to_send_count o1 + 1\<rparr> # os)
      else map_option (\<lambda>(i, os). (i, o1 # os)) (count_overflow os))"

text \<open>The placing pass takes from the first receiver, which leaves the queue when it has all it is due.\<close>

definition take_overflow :: "nat \<Rightarrow> overflow_send_info list \<Rightarrow> transfer_info \<Rightarrow> (nat \<times> transfer_info) option" where
  "take_overflow delegate_id q ti =
     (case q of [] \<Rightarrow> None
      | o1 # os \<Rightarrow>
          (let o1 = o1\<lparr>to_send_count := to_send_count o1 - 1\<rparr> in
           if to_send_count o1 < 0 then None
           else if to_send_count o1 = 0
           then Some (to_send_id o1, if os = [] then filter (\<lambda>kv. fst kv \<noteq> delegate_id) ti else AList.update delegate_id os ti)
           else Some (to_send_id o1, AList.update delegate_id (o1\<lparr>temp_to_send_count := 0\<rparr> # os) ti)))"

definition high_edge_partitioner :: "nat \<Rightarrow> nat \<Rightarrow> ('d edge, transfer_info) partitioner_fun" where
  "high_edge_partitioner mpi_size mpi_rank i is_counting ti =
     (let dest = fst (snd i) mod mpi_size in
      if dest = mpi_rank then
        (let delegate_id = fst i in
         case map_of ti delegate_id of None \<Rightarrow> Some (mpi_rank, ti)
         | Some q \<Rightarrow>
             if q = [] then None
             else if is_counting then
               (case count_overflow q of None \<Rightarrow> Some (mpi_rank, ti)
                | Some (d, q) \<Rightarrow> Some (d, AList.update delegate_id q ti))
             else do {
               (d, ti) \<leftarrow> take_overflow delegate_id q ti;
               if d \<noteq> mpi_rank then Some (d, ti) else None })
      else Some (dest, ti))"

text \<open>Both partitioners meet the contract of the exchange, the second one as long as nothing overflows.\<close>

interpretation by_source: partitioner "edge_source_partitioner p" "\<lambda>e. fst e mod p" s p for p s
  by unfold_locales (simp_all add: edge_source_partitioner_def)

interpretation by_target: partitioner "high_edge_partitioner p r" "\<lambda>e. fst (snd e) mod p" "[]" p for p r
  by unfold_locales (simp_all add: high_edge_partitioner_def Let_def)

end
