(* ===== verification/Graph_Construction.thy ===== *)
theory Graph_Construction
  imports Ordered_Map Delegate_Graph Edge_Partitioner "HOL-Library.Product_Lexorder"
begin

section \<open>Building the graph (impl/delegate_partitioned_graph.ipp)\<close>

text \<open>
  The construction runs in lock step on all ranks: list index \<open>r\<close> is rank \<open>r\<close>, and each phase is a
  local computation of every rank, an exchange, and a local computation on what arrived.  Each phase
  reads the rank's edges in chunks until no rank has any left.  An assertion that fails, an access
  outside an array and a loop that cannot end are \<open>None\<close>.  Timing, output and counters that are only
  printed are left out.  \<open>std::sort\<close> compares the tuples, so the edge data are linearly ordered.
\<close>

subsection \<open>Lock-step loops\<close>

fun fold_opt :: "('a \<Rightarrow> 's \<Rightarrow> 's option) \<Rightarrow> 'a list \<Rightarrow> 's \<Rightarrow> 's option" where
  "fold_opt f [] s = Some s"
| "fold_opt f (x # xs) s = do { s \<leftarrow> f x s; fold_opt f xs s }"

definition each_rank :: "('a \<Rightarrow> 'b option) \<Rightarrow> 'a list \<Rightarrow> 'b list option" where
  "each_rank f xs = those (map f xs)"

definition each_rank2 :: "('a \<Rightarrow> 'b \<Rightarrow> 'c option) \<Rightarrow> 'a list \<Rightarrow> 'b list \<Rightarrow> 'c list option" where
  "each_rank2 f xs ys = those (map2 f xs ys)"

text \<open>\<open>global_iterator_range_empty\<close> sums up which ranks are unfinished.\<close>

definition global_iterator_range_empty :: "nat mpi_ops \<Rightarrow> 'e list list \<Rightarrow> bool" where
  "global_iterator_range_empty M es =
     (let unfinished = map (\<lambda>e. [if e \<noteq> [] then 1 else 0]) es
      in list_all (\<lambda>v. hd v = 0) (allreduce M (+) unfinished))"

text \<open>
  The loop over the chunks of all ranks.  With a chunk size of zero, or when the reduction keeps
  reporting unfinished ranks, it does not end.
\<close>

function chunk_loop :: "nat mpi_ops \<Rightarrow> nat \<Rightarrow> ('e list list \<Rightarrow> 's \<Rightarrow> 's option) \<Rightarrow> 'e list list \<Rightarrow> 's \<Rightarrow> 's option" where
  "chunk_loop M chunk_size body es s =
     (if global_iterator_range_empty M es then Some s
      else if chunk_size = 0 \<or> concat es = [] then None
      else (case body (map (take chunk_size) es) s of None \<Rightarrow> None
            | Some s \<Rightarrow> chunk_loop M chunk_size body (map (drop chunk_size) es) s))"
  by pat_completeness auto
termination
proof (relation "measure (\<lambda>(M, c, body, es, s). length (concat es))", simp, clarsimp)
  fix c :: nat and es :: "'e list list" and e
  assume "0 < c" "e \<in> set es" "e \<noteq> []"
  then have "(\<Sum>e\<leftarrow>es. length e - c) < (\<Sum>e\<leftarrow>es. length e)"
  proof (induction es)
    case (Cons a es)
    have "(\<Sum>e\<leftarrow>es. length e - c) \<le> (\<Sum>e\<leftarrow>es. length e)" by (rule sum_list_mono) simp
    then show ?case using Cons by (cases "a = e") (auto intro: add_less_le_mono add_le_less_mono)
  qed simp
  then show "length (concat (map (drop c) es)) < length (concat es)" by (simp add: length_concat o_def)
qed

declare chunk_loop.simps [simp del]

subsection \<open>Counting the edges of every vertex (count\_edge\_degrees, send\_vertex\_info)\<close>

text \<open>The keys of the maps to send are of type \<open>int\<close>; they are sent as \<open>uint64_t\<close>.\<close>

definition to_int32 :: "nat \<Rightarrow> int" where
  "to_int32 n = signed_take_bit 31 (int n)"

definition of_int32 :: "int \<Rightarrow> nat" where
  "of_int32 i = nat (i mod 2 ^ 64)"

type_synonym vertex_maps = "(int \<times> nat \<times> nat) list list"

text \<open>\<open>high_vertex_count\<close> is kept next to the graph while the degrees are counted.\<close>

type_synonym count_state = "delegate_graph \<times> nat"

definition count_source :: "nat \<Rightarrow> nat \<times> nat \<Rightarrow> count_state \<times> vertex_maps \<Rightarrow> (count_state \<times> vertex_maps) option" where
  "count_source delegate_degree_threshold edge st =
     (case st of ((g, high_vertex_count), maps_to_send) \<Rightarrow>
       let local_id = local_source_id (m_mpi_size g) edge; owner = owner_source_id (m_mpi_size g) edge
       in if owner = m_mpi_rank g then
            (if local_id < length (m_local_outgoing_count g) then
               let c = m_local_outgoing_count g ! local_id + 1
               in Some ((g\<lparr>m_local_outgoing_count := (m_local_outgoing_count g)[local_id := c]\<rparr>,
                         if unat c = delegate_degree_threshold then high_vertex_count + 1 else high_vertex_count), maps_to_send)
             else None)
          else if owner < length maps_to_send
          then Some ((g, high_vertex_count),
                 maps_to_send[owner := map_modify (to_int32 local_id) (0, 0) (\<lambda>(s, d). (s + 1, d)) (maps_to_send ! owner)])
          else None)"

definition count_dest :: "nat \<times> nat \<Rightarrow> count_state \<times> vertex_maps \<Rightarrow> (count_state \<times> vertex_maps) option" where
  "count_dest edge st =
     (case st of ((g, high_vertex_count), maps_to_send) \<Rightarrow>
       let local_id = local_dest_id (m_mpi_size g) edge; owner = owner_dest_id (m_mpi_size g) edge
       in if owner = m_mpi_rank g then
            (if local_id < length (m_local_incoming_count g)
             then Some ((g\<lparr>m_local_incoming_count := (m_local_incoming_count g)[local_id := m_local_incoming_count g ! local_id + 1]\<rparr>,
                         high_vertex_count), maps_to_send)
             else None)
          else if owner < length maps_to_send
          then Some ((g, high_vertex_count),
                 maps_to_send[owner := map_modify (to_int32 local_id) (0, 0) (\<lambda>(s, d). (s, d + 1)) (maps_to_send ! owner)])
          else None)"

definition count_edge :: "nat \<Rightarrow> 'd edge \<Rightarrow> count_state \<times> vertex_maps \<Rightarrow> (count_state \<times> vertex_maps) option" where
  "count_edge delegate_degree_threshold e st = do {
     let edge = (fst e, fst (snd e));
     st \<leftarrow> count_source delegate_degree_threshold edge st;
     count_dest edge st }"

text \<open>What a rank sends: for each receiver the triples of its map, in the order of the keys.\<close>

definition vertex_triples :: "(int \<times> nat \<times> nat) list \<Rightarrow> nat list" where
  "vertex_triples m = concat (map (\<lambda>(k, s, d). [of_int32 k, s, d]) m)"

fun receive_vertex_info :: "nat \<Rightarrow> nat list \<Rightarrow> count_state \<Rightarrow> count_state option" where
  "receive_vertex_info thr [] st = Some st"
| "receive_vertex_info thr (lid # source_count # dest_count # rest) (g, high_vertex_count) =
     (if lid < length (m_local_incoming_count g) \<and> lid < length (m_local_outgoing_count g) then
        let old = m_local_outgoing_count g ! lid
        in receive_vertex_info thr rest
             (g\<lparr>m_local_outgoing_count := (m_local_outgoing_count g)[lid := old + of_nat source_count],
                m_local_incoming_count := (m_local_incoming_count g)[lid := m_local_incoming_count g ! lid + of_nat dest_count]\<rparr>,
              if unat old < thr \<and> thr \<le> unat old + source_count then high_vertex_count + 1 else high_vertex_count)
      else None)"
| "receive_vertex_info thr _ st = None"

definition send_vertex_info :: "nat mpi_ops \<Rightarrow> nat \<Rightarrow> (count_state \<times> vertex_maps) list \<Rightarrow> count_state list option" where
  "send_vertex_info M delegate_degree_threshold sts =
     (if list_all (\<lambda>(st, maps_to_send). length maps_to_send = m_mpi_size (fst st)) sts then do {
        recvs \<leftarrow> mpi_all_to_all M (map (\<lambda>(st, maps_to_send). (concat (map vertex_triples maps_to_send),
                                     map (\<lambda>m. length m * 3) maps_to_send)) sts);
        each_rank2 (\<lambda>(st, maps_to_send) (to_recv, recvcnts). receive_vertex_info delegate_degree_threshold to_recv st) sts recvs }
      else None)"

definition count_chunk :: "nat mpi_ops \<Rightarrow> nat \<Rightarrow> 'd edge list list \<Rightarrow> count_state list \<Rightarrow> count_state list option" where
  "count_chunk M delegate_degree_threshold chunks sts = do {
     sts \<leftarrow> each_rank2 (\<lambda>chunk st. fold_opt (count_edge delegate_degree_threshold) chunk (st, replicate (m_mpi_size (fst st)) []))
             chunks sts;
     send_vertex_info M delegate_degree_threshold sts }"

text \<open>The hubs a rank owns, and its number of edges that do not belong to a hub.\<close>

definition find_hub :: "nat \<Rightarrow> nat \<Rightarrow> nat list \<times> delegate_graph \<Rightarrow> (nat list \<times> delegate_graph) option" where
  "find_hub delegate_degree_threshold i st =
     (case st of (temp_hubs, g) \<Rightarrow>
       if i < length (m_local_outgoing_count g) then
         (let outgoing = unat (m_local_outgoing_count g ! i)
          in if delegate_degree_threshold \<le> outgoing then
               (let global_id = i * m_mpi_size g + m_mpi_rank g
                in if global_id \<noteq> 0 then Some (temp_hubs @ [global_id], g) else None)
             else Some (temp_hubs, g\<lparr>m_edges_low_count := m_edges_low_count g + outgoing\<rparr>))
       else None)"

definition local_hubs :: "nat \<Rightarrow> count_state \<Rightarrow> (nat list \<times> delegate_graph) option" where
  "local_hubs delegate_degree_threshold st =
     (case st of (g, high_vertex_count) \<Rightarrow> do {
        (temp_hubs, g) \<leftarrow> fold_opt (find_hub delegate_degree_threshold) [0..<length (m_local_incoming_count g)] ([], g);
        if length temp_hubs = high_vertex_count then Some (temp_hubs, g) else None })"

text \<open>The result: every rank's graph and the set of all hubs, which every rank has.\<close>

definition count_edge_degrees ::
  "nat mpi_ops \<Rightarrow> 'd edge list list \<Rightarrow> nat \<Rightarrow> delegate_graph list \<Rightarrow> (delegate_graph \<times> nat list) list option" where
  "count_edge_degrees M edges delegate_degree_threshold gs = do {
     sts \<leftarrow> chunk_loop M (edge_chunk_size (hd gs)) (count_chunk M delegate_degree_threshold) edges (map (\<lambda>g. (g, 0)) gs);
     hubs \<leftarrow> each_rank (local_hubs delegate_degree_threshold) sts;
     vec_global_hubs \<leftarrow> mpi_all_gather M (map fst hubs);
     Some (zip (map snd hubs) (map remdups vec_global_hubs)) }"

subsection \<open>Meta data of low-degree vertices and of hubs\<close>

text \<open>The index of each owned vertex into the edges of low degree.\<close>

definition low_index :: "nat \<Rightarrow> nat \<times> delegate_graph \<Rightarrow> (nat \<times> delegate_graph) option" where
  "low_index vert_id st =
     (case st of (edge_count, g) \<Rightarrow>
       if vert_id < length (m_local_outgoing_count g) \<and> vert_id < length (m_local_incoming_count g) then do {
         let outgoing = unat (m_local_outgoing_count g ! vert_id);
         info \<leftarrow> make_vert_info False 0 edge_count;
         let g = g\<lparr>m_owned_info := (m_owned_info g)[vert_id := info]\<rparr>;
         Some (if outgoing < m_delegate_degree_threshold g then edge_count + outgoing else edge_count, g) }
       else None)"

definition initialize_low_meta_data :: "delegate_graph \<Rightarrow> delegate_graph option" where
  "initialize_low_meta_data g = do {
     (edge_count, g) \<leftarrow> fold_opt low_index [0..<length (m_owned_info g) - 1] (0, g);
     info \<leftarrow> make_vert_info False 0 edge_count;
     Some (g\<lparr>m_owned_info := (m_owned_info g)[length (m_owned_info g) - 1 := info]\<rparr>) }"

text \<open>The ranks of a node take turns, so the body runs once, in the turn of the rank.\<close>

definition in_turns :: "(delegate_graph \<Rightarrow> delegate_graph option) \<Rightarrow> delegate_graph \<Rightarrow> delegate_graph option" where
  "in_turns body g =
     fold_opt (\<lambda>i g. if i = m_mpi_rank g mod processes_per_node g then body g else Some g) [0..<processes_per_node g] g"

definition add_hub :: "nat list \<Rightarrow> nat \<Rightarrow> delegate_graph \<Rightarrow> delegate_graph option" where
  "add_hub vec_sorted_hubs i g = do {
     let hub = vec_sorted_hubs ! i;
     let t_local_id = hub div m_mpi_size g;
     let t_owner = hub mod m_mpi_size g;
     new_ver_loc \<leftarrow> make_locator True i t_owner;
     let g = g\<lparr>m_map_delegate_locator := AList.update hub new_ver_loc (m_map_delegate_locator g),
               m_delegate_label := m_delegate_label g @ [hub]\<rparr>;
     if t_owner = m_mpi_rank g then
       (if t_local_id < length (m_owned_info g)
        then Some (g\<lparr>m_owned_info := (m_owned_info g)[t_local_id :=
               (m_owned_info g ! t_local_id)\<lparr>vi_is_delegate := 1, vi_delegate_id := of_nat i\<rparr>]\<rparr>)
        else None)
     else Some g }"

definition initialize_high_meta_data :: "nat list \<Rightarrow> delegate_graph \<Rightarrow> delegate_graph option" where
  "initialize_high_meta_data global_hubs g =
     in_turns (\<lambda>g.
       let vec_sorted_hubs = sort global_hubs;
           g = g\<lparr>m_delegate_info := resize_list 0 (length global_hubs + 1) (m_delegate_info g),
                 m_delegate_degree := resize_list 0 (length vec_sorted_hubs) (m_delegate_degree g)\<rparr>
       in fold_opt (add_hub vec_sorted_hubs) [0..<length vec_sorted_hubs] g) g"

subsection \<open>Counting the edges of the hubs (count\_high\_degree\_edges, send\_high\_info)\<close>

type_synonym high_maps = "(nat \<times> nat) list list"

text \<open>One more edge, or \<open>n\<close> more edges, of a hub at this rank.\<close>

definition add_high_count :: "nat \<Rightarrow> nat \<Rightarrow> delegate_graph \<Rightarrow> delegate_graph option" where
  "add_high_count ver_id n g =
     (case map_of (m_map_delegate_locator g) ver_id of None \<Rightarrow> None
      | Some l \<Rightarrow>
          (let new_source_id = local_id l in
           if new_source_id < length (m_delegate_info g) - 1
           then Some (g\<lparr>m_delegate_info := (m_delegate_info g)[new_source_id := m_delegate_info g ! new_source_id + n],
                        m_edges_high_count := m_edges_high_count g + n\<rparr>)
           else None))"

definition count_high_edge :: "nat list \<Rightarrow> 'd edge \<Rightarrow> delegate_graph \<times> high_maps \<Rightarrow> (delegate_graph \<times> high_maps) option" where
  "count_high_edge global_hub_set e st =
     (case st of (g, maps_to_send) \<Rightarrow>
       let edge = (fst e, fst (snd e)) in
       if fst edge \<notin> set global_hub_set then Some (g, maps_to_send)
       else
         (let owner = snd edge mod m_mpi_size g in
          if owner = m_mpi_rank g then map_option (\<lambda>g. (g, maps_to_send)) (add_high_count (fst edge) 1 g)
          else if owner < length maps_to_send
          then Some (g, maps_to_send[owner := map_modify (fst edge) 0 (\<lambda>c. c + 1) (maps_to_send ! owner)])
          else None))"

definition high_pairs :: "(nat \<times> nat) list \<Rightarrow> nat list" where
  "high_pairs m = concat (map (\<lambda>(v, c). [v, c]) m)"

fun receive_high_info :: "nat list \<Rightarrow> delegate_graph \<Rightarrow> delegate_graph option" where
  "receive_high_info [] g = Some g"
| "receive_high_info (ver_id # delegate_dest_count # rest) g = do {
     g \<leftarrow> add_high_count ver_id delegate_dest_count g;
     receive_high_info rest g }"
| "receive_high_info _ g = None"

definition send_high_info :: "nat mpi_ops \<Rightarrow> (delegate_graph \<times> high_maps) list \<Rightarrow> delegate_graph list option" where
  "send_high_info M sts =
     (if list_all (\<lambda>(g, maps_to_send). length maps_to_send = m_mpi_size g) sts then do {
        recvs \<leftarrow> mpi_all_to_all M (map (\<lambda>(g, maps_to_send). (concat (map high_pairs maps_to_send),
                                     map (\<lambda>m. length m * 2) maps_to_send)) sts);
        each_rank2 (\<lambda>(g, maps_to_send) (to_recv, recvcnts). receive_high_info to_recv g) sts recvs }
      else None)"

definition count_high_chunk :: "nat mpi_ops \<Rightarrow> nat list list \<Rightarrow> 'd edge list list \<Rightarrow> delegate_graph list \<Rightarrow> delegate_graph list option" where
  "count_high_chunk M hubs chunks gs = do {
     sts \<leftarrow> each_rank2 (\<lambda>(chunk, hub_set) g. fold_opt (count_high_edge hub_set) chunk (g, replicate (m_mpi_size g) [])) (zip chunks hubs) gs;
     send_high_info M sts }"

definition count_high_degree_edges :: "nat mpi_ops \<Rightarrow> 'd edge list list \<Rightarrow> nat list list \<Rightarrow> delegate_graph list \<Rightarrow> delegate_graph list option" where
  "count_high_degree_edges M edges hubs gs =
     (let gs = map (\<lambda>g. g\<lparr>m_edges_high_count := 0\<rparr>) gs
      in chunk_loop M (edge_chunk_size (hd gs)) (count_high_chunk M hubs) edges gs)"

subsection \<open>Storage (initialize\_edge\_storage)\<close>

definition high_index :: "nat \<Rightarrow> nat \<times> delegate_graph \<Rightarrow> (nat \<times> delegate_graph) option" where
  "high_index i st =
     (case st of (edge_count, g) \<Rightarrow>
       let num_edges = m_delegate_info g ! i; g = g\<lparr>m_delegate_info := (m_delegate_info g)[i := edge_count]\<rparr>;
           edge_count = edge_count + num_edges
       in if edge_count \<le> m_edges_high_count g then Some (edge_count, g) else None)"

definition initialize_edge_storage :: "delegate_graph \<Rightarrow> delegate_graph option" where
  "initialize_edge_storage g =
     in_turns (\<lambda>g.
       let g = g\<lparr>m_delegate_targets_size := m_edges_high_count g, m_owned_targets_size := m_edges_low_count g,
                 m_delegate_targets := replicate (m_edges_high_count g) None,
                 m_owned_targets := replicate (m_edges_low_count g) None\<rparr>
       in if m_delegate_info g \<noteq> [] \<and> last (m_delegate_info g) = 0
          then map_option snd (fold_opt high_index [0..<length (m_delegate_info g)] (0, g)) else None) g"

subsection \<open>The edges of low degree (partition\_low\_degree)\<close>

type_synonym 'd part_state = "delegate_graph \<times> 'd edge_data"

definition low_to_send :: "nat \<Rightarrow> delegate_graph \<Rightarrow> 'd edge list \<Rightarrow> 'd edge list" where
  "low_to_send node_turn g chunk =
     filter (\<lambda>e. let owner = fst e mod m_mpi_size g
                 in (owner mod processes_per_node g) mod node_partitions g = node_turn
                    \<and> map_of (m_map_delegate_locator g) (fst e) = None) chunk"

definition store_low :: "'d edge \<Rightarrow> 'd part_state \<Rightarrow> 'd part_state option" where
  "store_low e st =
     (case st of (g, ed) \<Rightarrow>
       let edge = (fst e, fst (snd e)); new_vertex_id = local_source_id (m_mpi_size g) edge in
       if m_mpi_rank g = fst edge mod m_mpi_size g
          \<and> new_vertex_id < length (m_owned_info_tracker g) \<and> new_vertex_id + 1 < length (m_owned_info g) then
         (let temp_offset = unat (m_owned_info_tracker g ! new_vertex_id);
              g = g\<lparr>m_owned_info_tracker := (m_owned_info_tracker g)[new_vertex_id := m_owned_info_tracker g ! new_vertex_id + 1]\<rparr>;
              loc = temp_offset + low_csr_idx (m_owned_info g ! new_vertex_id)
          in if loc < low_csr_idx (m_owned_info g ! (new_vertex_id + 1)) \<and> loc < length (m_owned_targets g) then do {
               t \<leftarrow> label_to_locator g (snd edge);
               let g = g\<lparr>m_owned_targets := (m_owned_targets g)[loc := Some t]\<rparr>;
               if m_has_edge_data g then
                 (if loc < length (m_owned_edge_data ed)
                  then Some (g, ed\<lparr>m_owned_edge_data := (m_owned_edge_data ed)[loc := snd (snd e)]\<rparr>) else None)
               else Some (g, ed) }
             else None)
       else None)"

text \<open>The size of an edge in bytes and the value an edge is initialised with are parameters.\<close>

definition partition_low_chunk ::
  "('d :: linorder) edge mpi_ops \<Rightarrow> nat \<Rightarrow> 'd \<Rightarrow> nat \<Rightarrow> 'd edge list list \<Rightarrow> 'd part_state list \<Rightarrow> 'd part_state list option" where
  "partition_low_chunk ME sz zero node_turn chunks sts = do {
     let to_send_edges_low = map2 (\<lambda>chunk st. low_to_send node_turn (fst st) chunk) chunks sts;
     (to_recv_edges_low, _) \<leftarrow> mpi_all_to_all_better ME (map (\<lambda>st. edge_source_partitioner (m_mpi_size (fst st))) sts) sz (0, 0, zero)
                                 to_send_edges_low (map (\<lambda>st. ()) sts);
     each_rank2 (\<lambda>recv st. fold_opt store_low (sort recv) st) to_recv_edges_low sts }"

definition partition_low_degree ::
  "nat mpi_ops \<Rightarrow> ('d :: linorder) edge mpi_ops \<Rightarrow> nat \<Rightarrow> 'd \<Rightarrow> 'd edge list list \<Rightarrow> 'd part_state list \<Rightarrow> 'd part_state list option" where
  "partition_low_degree M ME sz zero edges sts =
     fold_opt (\<lambda>node_turn sts. chunk_loop M (edge_chunk_size (fst (hd sts))) (partition_low_chunk ME sz zero node_turn) edges sts)
       [0..<node_partitions (fst (hd sts))] sts"

subsection \<open>The edges of the hubs (partition\_high\_degree)\<close>

text \<open>
  A hub edge is sent with the hub's delegate id in place of its label.  \<open>m_delegate_degree\<close> counts how
  many edges of each hub the rank has stored so far.
\<close>

definition high_to_send :: "'d \<Rightarrow> nat \<Rightarrow> delegate_graph \<Rightarrow> 'd edge \<Rightarrow> 'd edge list \<Rightarrow> 'd edge list option" where
  "high_to_send zero node_turn g e to_send_edges_high =
     (let edge = (fst e, fst (snd e)); owner = snd edge mod m_mpi_size g in
      if (owner mod processes_per_node g) mod node_partitions g \<noteq> node_turn then Some to_send_edges_high
      else case map_of (m_map_delegate_locator g) (fst edge) of
          None \<Rightarrow> Some to_send_edges_high
        | Some l \<Rightarrow>
            (let new_source_id = local_id l in
             if new_source_id < length (m_delegate_info g) - 1
             then Some (to_send_edges_high @ [(new_source_id, snd edge, if m_has_edge_data g then snd (snd e) else zero)])
             else None))"

definition place_high :: "'d edge \<Rightarrow> transfer_info \<Rightarrow> nat \<Rightarrow> 'd part_state \<Rightarrow> 'd part_state option" where
  "place_high e ti place_pos st =
     (case st of (g, ed) \<Rightarrow>
       let new_source_id = fst e; new_target_label = fst (snd e) in
       if place_pos < m_delegate_info g ! (new_source_id + 1) \<and> place_pos < m_delegate_targets_size g
          \<and> place_pos < length (m_delegate_targets g) then do {
         t \<leftarrow> label_to_locator g new_target_label;
         let g = g\<lparr>m_delegate_targets := (m_delegate_targets g)[place_pos := Some t]\<rparr>;
         ed \<leftarrow> (if m_has_edge_data g then
                 (if place_pos < length (m_delegate_edge_data ed)
                  then Some (ed\<lparr>m_delegate_edge_data := (m_delegate_edge_data ed)[place_pos := snd (snd e)]\<rparr>) else None)
               else Some ed);
         if owner t < m_mpi_size g then
           (let g = g\<lparr>m_delegate_degree := (m_delegate_degree g)[new_source_id := m_delegate_degree g ! new_source_id + 1]\<rparr>
            in if new_target_label mod m_mpi_size g \<noteq> m_mpi_rank g \<and> ti \<noteq> [] then None else Some (g, ed))
         else None }
       else None)"

text \<open>An edge there is no room for goes back into the vector to send; in the last round that is an error.\<close>

definition store_high :: "bool \<Rightarrow> transfer_info \<Rightarrow> 'd edge \<Rightarrow> 'd part_state \<times> 'd edge list \<Rightarrow> ('d part_state \<times> 'd edge list) option" where
  "store_high last_round ti e st =
     (case st of ((g, ed), to_send_edges_high) \<Rightarrow>
       let new_source_id = fst e in
       if new_source_id < length (m_delegate_info g) - 1 \<and> new_source_id < length (m_delegate_degree g) then
         (let place_pos = m_delegate_degree g ! new_source_id + m_delegate_info g ! new_source_id
          in if place_pos = m_delegate_info g ! (new_source_id + 1) then
               (if last_round then None
                else if ti \<noteq> [] \<and> map_of ti new_source_id \<noteq> None then Some ((g, ed), to_send_edges_high @ [e]) else None)
             else map_option (\<lambda>st. (st, to_send_edges_high)) (place_high e ti place_pos (g, ed)))
       else None)"

text \<open>Per rank: the graph and edge data, the vector to send, and the table of the partitioner.\<close>

type_synonym 'd high_state = "'d part_state \<times> 'd edge list \<times> transfer_info"

definition exchange_high ::
  "('d :: linorder) edge mpi_ops \<Rightarrow> nat \<Rightarrow> 'd \<Rightarrow> bool \<Rightarrow> 'd high_state list \<Rightarrow> 'd high_state list option" where
  "exchange_high ME sz zero last_round sts = do {
     (to_recv_edges_high, tis) \<leftarrow> mpi_all_to_all_better ME
        (map (\<lambda>((g, ed), _). high_edge_partitioner (m_mpi_size g) (m_mpi_rank g)) sts) sz (0, 0, zero)
        (map (\<lambda>(_, to_send, _). to_send) sts) (map (\<lambda>(_, _, ti). ti) sts);
     each_rank2 (\<lambda>(recv, ti) (st, _, _). map_option (\<lambda>(st, to_send). (st, to_send, ti))
                   (fold_opt (store_high last_round ti) (sort recv) (st, [])))
       (zip to_recv_edges_high tis) sts }"

definition partition_high_chunk ::
  "('d :: linorder) edge mpi_ops \<Rightarrow> nat \<Rightarrow> 'd \<Rightarrow> nat \<Rightarrow> 'd edge list list \<Rightarrow> 'd high_state list \<Rightarrow> 'd high_state list option" where
  "partition_high_chunk ME sz zero node_turn chunks sts = do {
     sts \<leftarrow> each_rank2 (\<lambda>chunk ((g, ed), to_send, ti). map_option (\<lambda>to_send. ((g, ed), to_send, ti))
                         (fold_opt (high_to_send zero node_turn g) chunk to_send)) chunks sts;
     exchange_high ME sz zero False sts }"

definition partition_high_degree ::
  "nat mpi_ops \<Rightarrow> ('d :: linorder) edge mpi_ops \<Rightarrow> nat \<Rightarrow> 'd \<Rightarrow> 'd edge list list \<Rightarrow> transfer_info \<Rightarrow> 'd part_state list \<Rightarrow> 'd part_state list option" where
  "partition_high_degree M ME sz zero edges transfer_info sts = do {
     sts \<leftarrow> fold_opt (\<lambda>node_turn sts. chunk_loop M (edge_chunk_size (fst (fst (hd sts)))) (partition_high_chunk ME sz zero node_turn) edges sts)
              [0..<node_partitions (fst (hd sts))] (map (\<lambda>st. (st, [], transfer_info)) sts);
     sts \<leftarrow> exchange_high ME sz zero True sts;
     Some (map fst sts) }"

subsection \<open>Completing the construction\<close>

text \<open>The hub degrees of all ranks are added up; then each rank lists the hubs it controls and checks its own.\<close>

definition reduce_degrees :: "nat mpi_ops \<Rightarrow> delegate_graph list \<Rightarrow> delegate_graph list" where
  "reduce_degrees M gs =
     (if list_all (\<lambda>g. 0 < length (m_delegate_degree g)) gs
      then map2 (\<lambda>g degs. g\<lparr>m_delegate_degree := degs\<rparr>) gs (allreduce M (+) (map m_delegate_degree gs)) else gs)"

definition build_controllers :: "delegate_graph \<Rightarrow> delegate_graph option" where
  "build_controllers g =
     fold_opt (\<lambda>i g. if i mod m_mpi_size g = m_mpi_rank g
                     then map_option (\<lambda>l. g\<lparr>m_controller_locators := m_controller_locators g @ [l]\<rparr>) (make_locator True i (m_mpi_rank g))
                     else Some g)
       [0..<length (m_delegate_degree g)] g"

definition verify_csr :: "delegate_graph \<Rightarrow> bool" where
  "verify_csr g \<longleftrightarrow> list_all (\<lambda>(label, locator).
     label mod m_mpi_size g = m_mpi_rank g \<longrightarrow>
       label div m_mpi_size g < length (m_owned_info g)
       \<and> vi_is_delegate (m_owned_info g ! (label div m_mpi_size g)) = 1
       \<and> unat (vi_delegate_id (m_owned_info g ! (label div m_mpi_size g))) = local_id locator)
     (m_map_delegate_locator g)"

definition set_state :: "construction_state \<Rightarrow> 'd part_state \<Rightarrow> 'd part_state" where
  "set_state s st = (case st of (g, ed) \<Rightarrow> (g\<lparr>m_graph_state := s\<rparr>, ed))"

definition allocate_storage :: "'d \<Rightarrow> 'd part_state \<Rightarrow> 'd part_state option" where
  "allocate_storage zero st =
     (case st of (g, ed) \<Rightarrow> do {
        g \<leftarrow> initialize_edge_storage g;
        Some (set_state EdgeStorageAllocated (g, if m_has_edge_data g then ed_resize zero g ed else ed)) })"

definition finish_construction :: "nat mpi_ops \<Rightarrow> 'd part_state list \<Rightarrow> 'd part_state list option" where
  "finish_construction M sts = do {
     let gs = reduce_degrees M (map fst sts);
     if list_all (\<lambda>g. length (m_delegate_degree g) = length (m_delegate_label g)) gs then do {
       gs \<leftarrow> each_rank build_controllers gs;
       if list_all verify_csr gs then Some (map (set_state GraphReady) (zip gs (map snd sts))) else None }
     else None }"

text \<open>
  \<open>complete_construction\<close> enters its switch at the state the graph was left in and falls through; a
  state without a case does nothing.  The ranks run the same calls, so they are in the same state.
  \<open>sz\<close> holds the sizes in bytes of the two kinds of edges exchanged.
\<close>

definition complete_construction ::
  "nat mpi_ops \<Rightarrow> ('d :: linorder) edge mpi_ops \<Rightarrow> nat \<times> nat \<Rightarrow> 'd \<Rightarrow> 'd edge list list \<Rightarrow> 'd part_state list \<Rightarrow> 'd part_state list option" where
  "complete_construction M ME sz zero edges sts =
     (let partition_edges = (\<lambda>sts. do {
            sts \<leftarrow> partition_low_degree M ME (fst sz) zero edges sts;
            sts \<leftarrow> partition_high_degree M ME (snd sz) zero edges [] (map (set_state LowEdgesPartitioned) sts);
            finish_construction M (map (set_state HighEdgesPartitioned) sts) })
      in case m_graph_state (fst (hd sts)) of
           MetaDataGenerated \<Rightarrow> do { sts \<leftarrow> each_rank (allocate_storage zero) sts; partition_edges sts }
         | EdgeStorageAllocated \<Rightarrow> partition_edges sts
         | HighEdgesPartitioned \<Rightarrow> finish_construction M sts
         | _ \<Rightarrow> Some sts)"

text \<open>
  The constructors.  The edges of low degree are counted by \<open>find_hub\<close>; the number of vertices per rank
  is computed in floating point, exactly as below for maximal labels under \<open>2 ^ 53\<close>.
\<close>

definition new_graph :: "nat \<Rightarrow> nat \<Rightarrow> nat \<Rightarrow> nat \<Rightarrow> nat \<Rightarrow> nat \<Rightarrow> nat \<Rightarrow> bool \<Rightarrow> delegate_graph" where
  "new_graph mpi_size ppn max_vertex delegate_degree_threshold parts chunk_size mpi_rank has_edge_data =
     (let max_local = (max_vertex + mpi_size - 1) div mpi_size
      in \<lparr>edge_chunk_size = chunk_size, processes_per_node = ppn, node_partitions = min parts ppn,
          m_mpi_size = mpi_size, m_mpi_rank = mpi_rank, m_graph_state = New,
          m_max_vertex = max_local, m_global_max_vertex = max_vertex, m_edges_high_count = 0, m_edges_low_count = 0,
          m_local_outgoing_count = replicate (max_local + 1) 0, m_local_incoming_count = replicate (max_local + 1) 0,
          m_owned_info = replicate (max_local + 2) \<lparr>vi_is_delegate = 0, vi_delegate_id = 0, vi_low_csr_idx = 0\<rparr>,
          m_owned_info_tracker = replicate (max_local + 2) 0, m_owned_targets = [], m_owned_targets_size = 0,
          m_delegate_degree_threshold = delegate_degree_threshold, m_delegate_info = [], m_delegate_degree = [],
          m_delegate_label = [], m_delegate_targets = [], m_delegate_targets_size = 0, m_map_delegate_locator = [],
          m_controller_locators = [], m_has_edge_data = has_edge_data\<rparr>)"

definition generate_meta_data :: "nat mpi_ops \<Rightarrow> 'd edge list list \<Rightarrow> nat \<Rightarrow> delegate_graph list \<Rightarrow> delegate_graph list option" where
  "generate_meta_data M edges delegate_degree_threshold gs = do {
     counted \<leftarrow> count_edge_degrees M edges delegate_degree_threshold gs;
     gs \<leftarrow> each_rank (\<lambda>(g, global_hubs). do { g \<leftarrow> initialize_low_meta_data g; initialize_high_meta_data global_hubs g }) counted;
     gs \<leftarrow> count_high_degree_edges M edges (map snd counted) gs;
     Some (map (\<lambda>g. g\<lparr>m_graph_state := MetaDataGenerated\<rparr>) gs) }"

definition construct_graph_with_data ::
  "nat mpi_ops \<Rightarrow> ('d :: linorder) edge mpi_ops \<Rightarrow> nat \<times> nat \<Rightarrow> 'd \<Rightarrow> nat \<Rightarrow> nat \<Rightarrow> nat \<Rightarrow> nat \<Rightarrow> nat \<Rightarrow> bool \<Rightarrow> construction_state
   \<Rightarrow> 'd edge list list \<Rightarrow> 'd edge_data list \<Rightarrow> 'd part_state list option" where
  "construct_graph_with_data M ME sz zero ppn max_vertex delegate_degree_threshold parts chunk_size has_edge_data stop_after edges eds = do {
     let gs = map (\<lambda>r. new_graph (length edges) ppn max_vertex delegate_degree_threshold parts chunk_size r has_edge_data) [0..<length edges];
     gs \<leftarrow> generate_meta_data M edges delegate_degree_threshold gs;
     if stop_after \<noteq> MetaDataGenerated then complete_construction M ME sz zero edges (zip gs eds)
     else Some (zip gs eds) }"

text \<open>Without edge data the edges are plain pairs, and a dummy object takes the place of the data.\<close>

definition construct_graph ::
  "nat mpi_ops \<Rightarrow> ('d :: linorder) edge mpi_ops \<Rightarrow> nat \<times> nat \<Rightarrow> 'd \<Rightarrow> nat \<Rightarrow> nat \<Rightarrow> nat \<Rightarrow> nat \<Rightarrow> nat \<Rightarrow> construction_state
   \<Rightarrow> 'd edge list list \<Rightarrow> delegate_graph list option" where
  "construct_graph M ME sz zero ppn max_vertex delegate_degree_threshold parts chunk_size stop_after edges =
     map_option (map fst) (construct_graph_with_data M ME sz zero ppn max_vertex delegate_degree_threshold parts chunk_size False
       stop_after edges (replicate (length edges) \<lparr>m_owned_edge_data = [], m_delegate_edge_data = []\<rparr>))"

end
