(* ===== verification/Construction_Count.thy ===== *)
theory Construction_Count
  imports Graph_Construction
begin

section \<open>Counting degrees: what every rank knows afterwards\<close>

text \<open>
  Rules for the lock-step loops, and the first phase: whatever the chunk size and the number of ranks,
  every rank ends up with the number of edges into and out of each vertex it owns.
\<close>

subsection \<open>Rules for the loops\<close>

lemma fold_opt_rule:
  assumes "I [] s" "\<And>pre x post s. xs = pre @ x # post \<Longrightarrow> I pre s \<Longrightarrow> \<exists>s'. f x s = Some s' \<and> I (pre @ [x]) s'"
  shows "\<exists>s'. fold_opt f xs s = Some s' \<and> I xs s'"
proof -
  have "\<exists>s'. fold_opt f post s = Some s' \<and> I (pre @ post) s'" if "xs = pre @ post" "I pre s" for pre post s
    using that
  proof (induction post arbitrary: pre s)
    case Nil then show ?case by simp
  next
    case (Cons x post)
    obtain s' where "f x s = Some s'" "I (pre @ [x]) s'" using assms(2) Cons.prems by blast
    then show ?case using Cons.IH [of "pre @ [x]" s'] Cons.prems(1) by simp
  qed
  from this [of "[]" xs s] show ?thesis using assms(1) by simp
qed

lemma those_rule:
  "(\<And>i. i < length xs \<Longrightarrow> \<exists>z. xs ! i = Some z \<and> P i z) \<Longrightarrow> \<exists>zs. those xs = Some zs \<and> length zs = length xs \<and> (\<forall>i < length xs. P i (zs ! i))"
proof (induction xs arbitrary: P)
  case Nil then show ?case by simp
next
  case (Cons x xs)
  obtain z where z: "x = Some z" "P 0 z" using Cons.prems [of 0] by auto
  have "\<And>i. i < length xs \<Longrightarrow> \<exists>z. xs ! i = Some z \<and> P (Suc i) z" using Cons.prems [of "Suc i" for i] by simp
  from Cons.IH [OF this] obtain zs where "those xs = Some zs" "length zs = length xs" "\<forall>i < length xs. P (Suc i) (zs ! i)" by blast
  then show ?case using z by (intro exI [of _ "z # zs"]) (auto simp: nth_Cons split: nat.splits)
qed

lemma each_rank_rule:
  assumes "length xs = p" "\<And>r. r < p \<Longrightarrow> \<exists>z. f (xs ! r) = Some z \<and> P r z"
  shows "\<exists>zs. each_rank f xs = Some zs \<and> length zs = p \<and> (\<forall>r < p. P r (zs ! r))"
  using those_rule [of "map f xs" P] assms by (simp add: each_rank_def)

lemma each_rank2_rule:
  assumes "length xs = p" "length ys = p" "\<And>r. r < p \<Longrightarrow> \<exists>z. f (xs ! r) (ys ! r) = Some z \<and> P r z"
  shows "\<exists>zs. each_rank2 f xs ys = Some zs \<and> length zs = p \<and> (\<forall>r < p. P r (zs ! r))"
  using those_rule [of "map2 f xs ys" P] assms by (simp add: each_rank2_def)

lemma sum_list_zero_iff: "(\<Sum>x\<leftarrow>xs. f x) = (0 :: nat) \<longleftrightarrow> (\<forall>x \<in> set xs. f x = 0)"
  by (induction xs) auto

lemma global_iterator_range_empty_iff:
  assumes "mpi_ok M"
  shows "global_iterator_range_empty M es \<longleftrightarrow> concat es = []"
proof (cases es)
  case Nil
  have "allreduce M (+) ([] :: nat list list) = replicate (length ([] :: nat list list)) (reduce1 (+) [])"
    by (rule mpi_allreduce [OF assms]) (simp_all add: ac_simps)
  then show ?thesis by (simp add: global_iterator_range_empty_def Nil)
next
  case (Cons e es')
  define ins where "ins = map (\<lambda>e. [if e \<noteq> [] then 1 else 0 :: nat]) es"
  have len: "length v = 1" if "v \<in> set ins" for v using that by (auto simp: ins_def)
  have ne: "ins \<noteq> []" by (simp add: ins_def Cons)
  have r: "allreduce M (+) ins = replicate (length ins) (reduce1 (+) ins)"
    by (rule mpi_allreduce [OF assms _ _ len]) (simp_all add: ac_simps)
  have "hd (reduce1 (+) ins) = reduce1 (+) ins ! 0"
    using length_reduce1 [OF ne len, of "(+)"] by (metis hd_conv_nth length_0_conv one_neq_zero)
  also have "\<dots> = (\<Sum>v\<leftarrow>ins. v ! 0)" by (rule reduce1_plus_nth [OF len _ ne]) simp_all
  also have "\<dots> = (\<Sum>e\<leftarrow>es. if e \<noteq> [] then 1 else 0)" by (simp add: ins_def o_def)
  finally have "hd (reduce1 (+) ins) = 0 \<longleftrightarrow> (\<forall>e \<in> set es. e = [])" by (simp only: sum_list_zero_iff) auto
  moreover have "global_iterator_range_empty M es \<longleftrightarrow> hd (reduce1 (+) ins) = 0"
    unfolding global_iterator_range_empty_def Let_def ins_def [symmetric] r using ne by (simp add: list_all_iff)
  ultimately show ?thesis by simp
qed

text \<open>Every rank's edges are what was read before, the chunk, and what is left.\<close>

definition chunk_of :: "nat \<Rightarrow> 'e list list \<Rightarrow> 'e list list \<Rightarrow> 'e list list \<Rightarrow> bool" where
  "chunk_of c es pre ch \<longleftrightarrow> length pre = length es \<and> length ch = length es
     \<and> (\<forall>r < length es. length (ch ! r) \<le> c \<and> (\<exists>post. es ! r = pre ! r @ ch ! r @ post))"

lemma chunk_loop_rule:
  assumes M: "mpi_ok M" and c: "0 < c" and start: "I (map (\<lambda>_. []) es) s"
    and step: "\<And>pre ch s. chunk_of c es pre ch \<Longrightarrow> I pre s \<Longrightarrow> \<exists>s'. body ch s = Some s' \<and> I (map2 (@) pre ch) s'"
  shows "\<exists>s'. chunk_loop M c body es s = Some s' \<and> I es s'"
proof -
  have "\<exists>s'. chunk_loop M c body rem s = Some s' \<and> I es s'"
    if "I pre s" "length pre = length es" "length rem = length es" "\<And>r. r < length es \<Longrightarrow> es ! r = pre ! r @ rem ! r" for pre rem s
    using that
  proof (induction "length (concat rem)" arbitrary: pre rem s rule: less_induct)
    case less
    show ?case
    proof (cases "concat rem = []")
      case True
      then have "rem ! r = []" if "r < length es" for r using less.prems(3) that by simp
      then have "pre = es" using less.prems(2,4) by (intro nth_equalityI) simp_all
      then show ?thesis using True less.prems(1) by (subst chunk_loop.simps) (simp add: global_iterator_range_empty_iff [OF M])
    next
      case False
      define ch where "ch = map (take c) rem"
      define rest where "rest = map (drop c) rem"
      have "chunk_of c es pre ch"
        using less.prems unfolding chunk_of_def by (simp add: ch_def) (metis append_take_drop_id)
      from step [OF this less.prems(1)] obtain s' where s': "body ch s = Some s'" "I (map2 (@) pre ch) s'" by blast
      have "length (concat rest) < length (concat rem)"
      proof -
        obtain r where "r \<in> set rem" "r \<noteq> []" using False by auto
        then have "(\<Sum>e\<leftarrow>rem. length e - c) < (\<Sum>e\<leftarrow>rem. length e)"
        proof (induction rem)
          case (Cons a es)
          have "(\<Sum>e\<leftarrow>es. length e - c) \<le> (\<Sum>e\<leftarrow>es. length e)" by (rule sum_list_mono) simp
          then show ?case using Cons c by (cases "a = r") (auto intro: add_less_le_mono add_le_less_mono)
        qed simp
        then show ?thesis by (simp add: rest_def length_concat o_def)
      qed
      from less.hyps [OF this s'(2)] obtain s'' where "chunk_loop M c body rest s' = Some s''" "I es s''"
        using less.prems by (auto simp: ch_def rest_def)
      then show ?thesis
        using False s'(1) c by (subst chunk_loop.simps) (auto simp: global_iterator_range_empty_iff [OF M] simp flip: ch_def rest_def)
    qed
  qed
  from this [of "map (\<lambda>_. []) es" s es] show ?thesis using start by simp
qed

subsection \<open>One rank's share of a chunk\<close>

definition srcs :: "'d edge list \<Rightarrow> nat \<Rightarrow> nat" where
  "srcs es v = length (filter (\<lambda>e. fst e = v) es)"

definition dsts :: "'d edge list \<Rightarrow> nat \<Rightarrow> nat" where
  "dsts es v = length (filter (\<lambda>e. fst (snd e) = v) es)"

lemma srcs_simps [simp]: "srcs [] v = 0" "srcs (e # es) v = (if fst e = v then 1 else 0) + srcs es v" "srcs (xs @ ys) v = srcs xs v + srcs ys v"
  by (simp_all add: srcs_def)

lemma dsts_simps [simp]: "dsts [] v = 0" "dsts (e # es) v = (if fst (snd e) = v then 1 else 0) + dsts es v" "dsts (xs @ ys) v = dsts xs v + dsts ys v"
  by (simp_all add: dsts_def)

lemma srcs_pos: "0 < srcs es v \<Longrightarrow> \<exists>e \<in> set es. fst e = v"
  by (auto simp: srcs_def filter_empty_conv)

lemma srcs_le: "srcs es v \<le> length es" and dsts_le: "dsts es v \<le> length es"
  by (simp_all add: srcs_def dsts_def)

definition with_counts :: "delegate_graph \<Rightarrow> u32 list \<Rightarrow> u32 list \<Rightarrow> delegate_graph" where
  "with_counts g outs ins = g\<lparr>m_local_outgoing_count := outs, m_local_incoming_count := ins\<rparr>"

lemma with_counts_sel [simp]:
  "m_local_outgoing_count (with_counts g outs ins) = outs" "m_local_incoming_count (with_counts g outs ins) = ins"
  "m_mpi_size (with_counts g outs ins) = m_mpi_size g" "m_mpi_rank (with_counts g outs ins) = m_mpi_rank g"
  "(with_counts g outs ins)\<lparr>m_local_outgoing_count := outs'\<rparr> = with_counts g outs' ins"
  "(with_counts g outs ins)\<lparr>m_local_incoming_count := ins'\<rparr> = with_counts g outs ins'"
  "m_delegate_degree_threshold (with_counts g outs ins) = m_delegate_degree_threshold g"
  by (simp_all add: with_counts_def)

definition hub_count :: "nat \<Rightarrow> u32 list \<Rightarrow> nat" where
  "hub_count thr outs = length (filter (\<lambda>c. thr \<le> unat c) outs)"

lemma hub_count_update:
  "k < length outs \<Longrightarrow> hub_count thr (outs[k := c]) + (if thr \<le> unat (outs ! k) then 1 else 0)
    = hub_count thr outs + (if thr \<le> unat c then 1 else 0)"
proof (induction outs arbitrary: k)
  case (Cons a outs) then show ?case by (cases k) (auto simp: hub_count_def split: if_splits)
qed simp

lemma unat_plus_of_nat: "unat (c :: u32) + a < 2 ^ 32 \<Longrightarrow> unat (c + of_nat a) = unat c + a"
  by (simp add: unat_word_ariths unat_of_nat)

text \<open>The counts a rank holds for a vertex of rank \<open>t\<close>, its own or noted to be sent.\<close>

abbreviation noted :: "vertex_maps \<Rightarrow> nat \<Rightarrow> nat \<Rightarrow> nat \<times> nat" where
  "noted maps t k \<equiv> lookup_default (0, 0) (maps ! t) (int k)"

definition out_share :: "nat \<Rightarrow> u32 list \<Rightarrow> vertex_maps \<Rightarrow> nat \<Rightarrow> nat \<Rightarrow> nat" where
  "out_share r outs maps t k = (if t = r then unat (outs ! k) else 0) + fst (noted maps t k)"

definition in_share :: "nat \<Rightarrow> u32 list \<Rightarrow> vertex_maps \<Rightarrow> nat \<Rightarrow> nat \<Rightarrow> nat" where
  "in_share r ins maps t k = (if t = r then unat (ins ! k) else 0) + snd (noted maps t k)"

definition maps_wf :: "nat \<Rightarrow> nat \<Rightarrow> vertex_maps \<Rightarrow> bool" where
  "maps_wf p n maps \<longleftrightarrow> length maps = p \<and> (\<forall>m \<in> set maps. strict_keys m \<and> fst ` set m \<subseteq> int ` {..<n})"

lemma to_int32_eq: "k < 2 ^ 31 \<Longrightarrow> to_int32 k = int k"
  unfolding to_int32_def by (rule signed_take_bit_int_eq_self) simp_all

text \<open>One increment, of the own count or in the map: the share of that vertex, and of no other, grows by one.\<close>

lemma noted_modify:
  assumes "maps_wf p n maps" "t < p" "k < n" "n \<le> 2 ^ 31"
  shows "maps_wf p n (maps[t := map_modify (to_int32 k) (0, 0) f (maps ! t)])"
    "t' < p \<Longrightarrow> noted (maps[t := map_modify (to_int32 k) (0, 0) f (maps ! t)]) t' k' =
       (if t' = t \<and> k' = k then f (noted maps t k) else noted maps t' k')"
    "(\<Sum>m\<leftarrow>maps[t := map_modify (to_int32 k) (0, 0) f (maps ! t)]. length m) \<le> Suc (\<Sum>m\<leftarrow>maps. length m)"
proof -
  have k: "to_int32 k = int k" using assms(3,4) by (simp add: to_int32_eq)
  have m: "strict_keys (maps ! t)" "fst ` set (maps ! t) \<subseteq> int ` {..<n}" "t < length maps"
    using assms(1,2) by (auto simp: maps_wf_def)
  show "maps_wf p n (maps[t := map_modify (to_int32 k) (0, 0) f (maps ! t)])"
  proof -
    have "strict_keys (map_modify (int k) (0, 0) f (maps ! t))" "fst ` set (map_modify (int k) (0, 0) f (maps ! t)) \<subseteq> int ` {..<n}"
      using m assms(3) by (simp_all add: strict_keys_map_modify set_keys_map_modify)
    note x = this
    have "strict_keys m' \<and> fst ` set m' \<subseteq> int ` {..<n}" if "m' \<in> set (maps[t := map_modify (int k) (0, 0) f (maps ! t)])" for m'
    proof -
      have "m' = map_modify (int k) (0, 0) f (maps ! t) \<or> m' \<in> set maps"
        using that set_update_subset_insert [of maps t "map_modify (int k) (0, 0) f (maps ! t)"] by blast
      then show ?thesis using x assms(1) unfolding maps_wf_def by blast
    qed
    then show ?thesis using assms(1) unfolding maps_wf_def k by simp
  qed
  show "noted (maps[t := map_modify (to_int32 k) (0, 0) f (maps ! t)]) t' k' =
       (if t' = t \<and> k' = k then f (noted maps t k) else noted maps t' k')" if "t' < p"
    using that m(3) assms(1) unfolding k by (cases "t' = t") (auto simp: lookup_map_modify [OF m(1)] maps_wf_def)
  show "(\<Sum>m\<leftarrow>maps[t := map_modify (to_int32 k) (0, 0) f (maps ! t)]. length m) \<le> Suc (\<Sum>m\<leftarrow>maps. length m)"
  proof -
    have "(\<Sum>m\<leftarrow>maps[t := x]. length m) + length (maps ! t) = (\<Sum>m\<leftarrow>maps. length m) + length x" for x :: "(int \<times> nat \<times> nat) list"
      using m(3) by (induction maps arbitrary: t) (auto simp: nth_Cons split: nat.splits)
    from this [of "map_modify (to_int32 k) (0, 0) f (maps ! t)"] show ?thesis
      using length_map_modify [of "to_int32 k" "(0, 0)" f "maps ! t"] by linarith
  qed
qed

definition rank_counts :: "nat \<Rightarrow> nat \<Rightarrow> delegate_graph \<Rightarrow> nat \<Rightarrow> count_state \<times> vertex_maps \<Rightarrow> u32 list \<Rightarrow> u32 list \<Rightarrow> vertex_maps \<Rightarrow> bool" where
  "rank_counts p n g thr st outs ins maps \<longleftrightarrow>
     st = ((with_counts g outs ins, hub_count thr outs), maps) \<and> length outs = n \<and> length ins = n \<and> maps_wf p n maps"

lemma count_source_step:
  assumes "rank_counts p n g thr st outs ins maps" "m_mpi_size g = p" "m_mpi_rank g = r" "r < p" "n \<le> 2 ^ 31"
    "u div p < n" "\<And>k. k < n \<Longrightarrow> unat (outs ! k) < 2 ^ 32 - 1"
  shows "\<exists>st' outs' maps'. count_source thr (u, v) st = Some st' \<and> rank_counts p n g thr st' outs' ins maps'
    \<and> (\<forall>t < p. \<forall>k < n. out_share r outs' maps' t k = out_share r outs maps t k + (if u = k * p + t then 1 else 0)
         \<and> in_share r ins maps' t k = in_share r ins maps t k)
    \<and> (\<Sum>m\<leftarrow>maps'. length m) \<le> Suc (\<Sum>m\<leftarrow>maps. length m)"
proof -
  define k0 t0 where "k0 = u div p" and "t0 = u mod p"
  have t0: "t0 < p" using assms(4) by (simp add: t0_def)
  have u: "u = k * p + t \<longleftrightarrow> k = k0 \<and> t = t0" if "t < p" for k t
    using that by (auto simp: k0_def t0_def)
  have st: "st = ((with_counts g outs ins, hub_count thr outs), maps)" "length outs = n" "length ins = n" "maps_wf p n maps"
    using assms(1) by (simp_all add: rank_counts_def)
  have k0: "k0 < n" using assms(6) by (simp add: k0_def)
  show ?thesis
  proof (cases "t0 = r")
    case True
    define c where "c = outs ! k0 + 1"
    have c: "unat c = unat (outs ! k0) + 1" using unat_plus_of_nat [of "outs ! k0" 1] assms(7) [OF k0] by (simp add: c_def)
    have "count_source thr (u, v) st = Some ((with_counts g (outs[k0 := c]) ins, hub_count thr (outs[k0 := c])), maps)"
      using hub_count_update [of k0 outs thr c] k0 True assms(2,3) st(2) c
      by (auto simp: count_source_def st(1) local_source_id_def owner_source_id_def t0_def [symmetric] k0_def [symmetric] Let_def c_def [symmetric] split: if_splits)
    moreover have "rank_counts p n g thr ((with_counts g (outs[k0 := c]) ins, hub_count thr (outs[k0 := c])), maps) (outs[k0 := c]) ins maps"
      using st by (simp add: rank_counts_def)
    ultimately show ?thesis
      using u c st(2) k0 True by (intro exI [of _ "((with_counts g (outs[k0 := c]) ins, hub_count thr (outs[k0 := c])), maps)"] exI [of _ "outs[k0 := c]"] exI [of _ maps])
        (auto simp: out_share_def in_share_def nth_list_update)
  next
    case False
    define maps' where "maps' = maps[t0 := map_modify (to_int32 k0) (0, 0) (\<lambda>(s, d). (s + 1, d)) (maps ! t0)]"
    have m: "maps_wf p n maps'" "\<And>t k. t < p \<Longrightarrow> noted maps' t k = (if t = t0 \<and> k = k0 then (\<lambda>(s, d). (s + 1, d)) (noted maps t0 k0) else noted maps t k)"
      "(\<Sum>m\<leftarrow>maps'. length m) \<le> Suc (\<Sum>m\<leftarrow>maps. length m)"
      unfolding maps'_def using noted_modify [OF st(4) t0 k0 assms(5)] by blast+
    have "count_source thr (u, v) st = Some ((with_counts g outs ins, hub_count thr outs), maps')"
      using False t0 assms(2,3) st(4) by (simp add: count_source_def st(1) local_source_id_def owner_source_id_def
          t0_def [symmetric] k0_def [symmetric] Let_def maps'_def maps_wf_def)
    moreover have "rank_counts p n g thr ((with_counts g outs ins, hub_count thr outs), maps') outs ins maps'"
      using st m(1) by (simp add: rank_counts_def)
    ultimately show ?thesis
      using u m(2,3) by (intro exI [of _ "((with_counts g outs ins, hub_count thr outs), maps')"] exI [of _ outs] exI [of _ maps'])
        (auto simp: out_share_def in_share_def split: prod.splits)
  qed
qed

lemma count_dest_step:
  assumes "rank_counts p n g thr st outs ins maps" "m_mpi_size g = p" "m_mpi_rank g = r" "r < p" "n \<le> 2 ^ 31"
    "v div p < n" "\<And>k. k < n \<Longrightarrow> unat (ins ! k) < 2 ^ 32 - 1"
  shows "\<exists>st' ins' maps'. count_dest (u, v) st = Some st' \<and> rank_counts p n g thr st' outs ins' maps'
    \<and> (\<forall>t < p. \<forall>k < n. in_share r ins' maps' t k = in_share r ins maps t k + (if v = k * p + t then 1 else 0)
         \<and> out_share r outs maps' t k = out_share r outs maps t k)
    \<and> (\<Sum>m\<leftarrow>maps'. length m) \<le> Suc (\<Sum>m\<leftarrow>maps. length m)"
proof -
  define k0 t0 where "k0 = v div p" and "t0 = v mod p"
  have t0: "t0 < p" using assms(4) by (simp add: t0_def)
  have v: "v = k * p + t \<longleftrightarrow> k = k0 \<and> t = t0" if "t < p" for k t
    using that by (auto simp: k0_def t0_def)
  have st: "st = ((with_counts g outs ins, hub_count thr outs), maps)" "length outs = n" "length ins = n" "maps_wf p n maps"
    using assms(1) by (simp_all add: rank_counts_def)
  have k0: "k0 < n" using assms(6) by (simp add: k0_def)
  show ?thesis
  proof (cases "t0 = r")
    case True
    define c where "c = ins ! k0 + 1"
    have c: "unat c = unat (ins ! k0) + 1" using unat_plus_of_nat [of "ins ! k0" 1] assms(7) [OF k0] by (simp add: c_def)
    have "count_dest (u, v) st = Some ((with_counts g outs (ins[k0 := c]), hub_count thr outs), maps)"
      using k0 True assms(2,3) st(3)
      by (simp add: count_dest_def st(1) local_dest_id_def owner_dest_id_def t0_def [symmetric] k0_def [symmetric] Let_def c_def [symmetric])
    moreover have "rank_counts p n g thr ((with_counts g outs (ins[k0 := c]), hub_count thr outs), maps) outs (ins[k0 := c]) maps"
      using st by (simp add: rank_counts_def)
    ultimately show ?thesis
      using v c st(3) k0 True by (intro exI [of _ "((with_counts g outs (ins[k0 := c]), hub_count thr outs), maps)"] exI [of _ "ins[k0 := c]"] exI [of _ maps])
        (auto simp: out_share_def in_share_def nth_list_update)
  next
    case False
    define maps' where "maps' = maps[t0 := map_modify (to_int32 k0) (0, 0) (\<lambda>(s, d). (s, d + 1)) (maps ! t0)]"
    have m: "maps_wf p n maps'" "\<And>t k. t < p \<Longrightarrow> noted maps' t k = (if t = t0 \<and> k = k0 then (\<lambda>(s, d). (s, d + 1)) (noted maps t0 k0) else noted maps t k)"
      "(\<Sum>m\<leftarrow>maps'. length m) \<le> Suc (\<Sum>m\<leftarrow>maps. length m)"
      unfolding maps'_def using noted_modify [OF st(4) t0 k0 assms(5)] by blast+
    have "count_dest (u, v) st = Some ((with_counts g outs ins, hub_count thr outs), maps')"
      using False t0 assms(2,3) st(4) by (simp add: count_dest_def st(1) local_dest_id_def owner_dest_id_def
          t0_def [symmetric] k0_def [symmetric] Let_def maps'_def maps_wf_def)
    moreover have "rank_counts p n g thr ((with_counts g outs ins, hub_count thr outs), maps') outs ins maps'"
      using st m(1) by (simp add: rank_counts_def)
    ultimately show ?thesis
      using v m(2,3) by (intro exI [of _ "((with_counts g outs ins, hub_count thr outs), maps')"] exI [of _ ins] exI [of _ maps'])
        (auto simp: out_share_def in_share_def split: prod.splits)
  qed
qed

lemma out_share_own: "unat (outs ! k) \<le> out_share r outs maps r k" and in_share_own: "unat (ins ! k) \<le> in_share r ins maps r k"
  by (simp_all add: out_share_def in_share_def)

text \<open>The chunk of one rank.\<close>

definition edges_fit :: "nat \<Rightarrow> nat \<Rightarrow> 'd edge list \<Rightarrow> bool" where
  "edges_fit p n es \<longleftrightarrow> (\<forall>e \<in> set es. fst e div p < n \<and> fst (snd e) div p < n)"

lemma count_local:
  assumes "m_mpi_size g = p" "m_mpi_rank g = r" "r < p" "n \<le> 2 ^ 31" "edges_fit p n es" "length outs = n" "length ins = n"
    "\<And>k. k < n \<Longrightarrow> unat (outs ! k) + length es < 2 ^ 32 \<and> unat (ins ! k) + length es < 2 ^ 32"
  shows "\<exists>st' outs' ins' maps'. fold_opt (count_edge thr) es ((with_counts g outs ins, hub_count thr outs), replicate p []) = Some st'
    \<and> rank_counts p n g thr st' outs' ins' maps'
    \<and> (\<forall>t < p. \<forall>k < n. out_share r outs' maps' t k = (if t = r then unat (outs ! k) else 0) + srcs es (k * p + t)
         \<and> in_share r ins' maps' t k = (if t = r then unat (ins ! k) else 0) + dsts es (k * p + t))
    \<and> (\<Sum>m\<leftarrow>maps'. length m) \<le> 2 * length es"
proof -
  define I where "I pre st \<longleftrightarrow> (\<exists>outs' ins' maps'. rank_counts p n g thr st outs' ins' maps'
    \<and> (\<forall>t < p. \<forall>k < n. out_share r outs' maps' t k = (if t = r then unat (outs ! k) else 0) + srcs pre (k * p + t)
         \<and> in_share r ins' maps' t k = (if t = r then unat (ins ! k) else 0) + dsts pre (k * p + t))
    \<and> (\<Sum>m\<leftarrow>maps'. length m) \<le> 2 * length pre)" for pre :: "'a edge list" and st
  have "\<exists>st'. fold_opt (count_edge thr) es ((with_counts g outs ins, hub_count thr outs), replicate p []) = Some st' \<and> I es st'"
  proof (rule fold_opt_rule)
    show "I [] ((with_counts g outs ins, hub_count thr outs), replicate p [])"
      unfolding I_def rank_counts_def using assms(6,7)
      by (intro exI [of _ outs] exI [of _ ins] exI [of _ "replicate p []"])
        (auto simp: maps_wf_def strict_keys_def out_share_def in_share_def sum_list_replicate)
  next
    fix pre e post st assume es: "es = pre @ e # post" and "I pre st"
    then obtain o1 i1 m1 where 1: "rank_counts p n g thr st o1 i1 m1"
      "\<And>t k. t < p \<Longrightarrow> k < n \<Longrightarrow> out_share r o1 m1 t k = (if t = r then unat (outs ! k) else 0) + srcs pre (k * p + t)"
      "\<And>t k. t < p \<Longrightarrow> k < n \<Longrightarrow> in_share r i1 m1 t k = (if t = r then unat (ins ! k) else 0) + dsts pre (k * p + t)"
      "(\<Sum>m\<leftarrow>m1. length m) \<le> 2 * length pre" unfolding I_def by blast
    obtain u v d where e: "e = (u, v, d)" by (cases e) auto
    have fit: "u div p < n" "v div p < n" using assms(5) unfolding edges_fit_def es e by auto
    have b1: "unat (o1 ! k) < 2 ^ 32 - 1" if "k < n" for k
      using out_share_own [of o1 k r m1] 1(2) [OF assms(3) that] srcs_le [of pre "k * p + r"] assms(8) [OF that] by (simp add: es)
    obtain st2 o2 m2 where 2: "count_source thr (u, v) st = Some st2" "rank_counts p n g thr st2 o2 i1 m2"
      "\<And>t k. t < p \<Longrightarrow> k < n \<Longrightarrow> out_share r o2 m2 t k = out_share r o1 m1 t k + (if u = k * p + t then 1 else 0)"
      "\<And>t k. t < p \<Longrightarrow> k < n \<Longrightarrow> in_share r i1 m2 t k = in_share r i1 m1 t k"
      "(\<Sum>m\<leftarrow>m2. length m) \<le> Suc (\<Sum>m\<leftarrow>m1. length m)"
      using count_source_step [OF 1(1) assms(1-4) fit(1) b1, of v] by blast
    have b2: "unat (i1 ! k) < 2 ^ 32 - 1" if "k < n" for k
      using in_share_own [of i1 k r m1] 1(3) [OF assms(3) that] dsts_le [of pre "k * p + r"] assms(8) [OF that] by (simp add: es)
    obtain st3 i3 m3 where 3: "count_dest (u, v) st2 = Some st3" "rank_counts p n g thr st3 o2 i3 m3"
      "\<And>t k. t < p \<Longrightarrow> k < n \<Longrightarrow> in_share r i3 m3 t k = in_share r i1 m2 t k + (if v = k * p + t then 1 else 0)"
      "\<And>t k. t < p \<Longrightarrow> k < n \<Longrightarrow> out_share r o2 m3 t k = out_share r o2 m2 t k"
      "(\<Sum>m\<leftarrow>m3. length m) \<le> Suc (\<Sum>m\<leftarrow>m2. length m)"
      using count_dest_step [OF 2(2) assms(1-4) fit(2) b2, of u] by blast
    have "count_edge thr e st = Some st3" using 2(1) 3(1) by (simp add: count_edge_def e)
    moreover have "I (pre @ [e]) st3"
      unfolding I_def using 1(2-4) 2(3-5) 3(2-5) by (intro exI [of _ o2] exI [of _ i3] exI [of _ m3]) (simp add: e)
    ultimately show "\<exists>s'. count_edge thr e st = Some s' \<and> I (pre @ [e]) s'" by blast
  qed
  then show ?thesis unfolding I_def by blast
qed

subsection \<open>What arrives\<close>

definition flat_triples :: "(nat \<times> nat \<times> nat) list \<Rightarrow> nat list" where
  "flat_triples T = concat (map (\<lambda>(k, s, d). [k, s, d]) T)"

lemma flat_triples_simps [simp]: "flat_triples [] = []" "flat_triples ((k, s, d) # T) = k # s # d # flat_triples T"
  by (simp_all add: flat_triples_def)

lemma receive_triples:
  "\<lbrakk>length outs = n; length ins = n; \<And>k s d. (k, s, d) \<in> set T \<Longrightarrow> k < n;
    \<And>k. k < n \<Longrightarrow> unat (outs ! k) + (\<Sum>(k', s, d)\<leftarrow>T. if k' = k then s else 0) < 2 ^ 32;
    \<And>k. k < n \<Longrightarrow> unat (ins ! k) + (\<Sum>(k', s, d)\<leftarrow>T. if k' = k then d else 0) < 2 ^ 32\<rbrakk> \<Longrightarrow>
   \<exists>outs' ins'. receive_vertex_info thr (flat_triples T) (with_counts g outs ins, hub_count thr outs) = Some (with_counts g outs' ins', hub_count thr outs')
     \<and> length outs' = n \<and> length ins' = n
     \<and> (\<forall>k < n. unat (outs' ! k) = unat (outs ! k) + (\<Sum>(k', s, d)\<leftarrow>T. if k' = k then s else 0)
          \<and> unat (ins' ! k) = unat (ins ! k) + (\<Sum>(k', s, d)\<leftarrow>T. if k' = k then d else 0))"
proof (induction T arbitrary: outs ins)
  case Nil then show ?case by (intro exI [of _ outs] exI [of _ ins]) simp
next
  case (Cons x T)
  obtain k s d where x: "x = (k, s, d)" by (cases x) auto
  have k: "k < n" using Cons.prems(3) x by auto
  define o1 i1 where "o1 = outs[k := outs ! k + of_nat s]" and "i1 = ins[k := ins ! k + of_nat d]"
  have o: "unat (outs ! k + of_nat s) = unat (outs ! k) + s" "unat (ins ! k + of_nat d) = unat (ins ! k) + d"
    using Cons.prems(4,5) [OF k] x by (simp_all add: unat_plus_of_nat)
  have hub: "hub_count thr o1 = (if unat (outs ! k) < thr \<and> thr \<le> unat (outs ! k) + s then hub_count thr outs + 1 else hub_count thr outs)"
    using hub_count_update [of k outs thr "outs ! k + of_nat s"] k Cons.prems(1) by (auto simp: o o1_def split: if_splits)
  have "\<exists>outs' ins'. receive_vertex_info thr (flat_triples T) (with_counts g o1 i1, hub_count thr o1) = Some (with_counts g outs' ins', hub_count thr outs')
     \<and> length outs' = n \<and> length ins' = n
     \<and> (\<forall>k < n. unat (outs' ! k) = unat (o1 ! k) + (\<Sum>(k', s, d)\<leftarrow>T. if k' = k then s else 0)
          \<and> unat (ins' ! k) = unat (i1 ! k) + (\<Sum>(k', s, d)\<leftarrow>T. if k' = k then d else 0))"
  proof (rule Cons.IH)
    show "length o1 = n" "length i1 = n" using Cons.prems(1,2) by (simp_all add: o1_def i1_def)
    show "k' < n" if "(k', s', d') \<in> set T" for k' s' d' using Cons.prems(3) that by auto
    show "unat (o1 ! k') + (\<Sum>(k'', s, d)\<leftarrow>T. if k'' = k' then s else 0) < 2 ^ 32" if "k' < n" for k'
      using Cons.prems(4) [OF that] Cons.prems(1) that o(1) by (cases "k' = k") (simp_all add: o1_def x)
    show "unat (i1 ! k') + (\<Sum>(k'', s, d)\<leftarrow>T. if k'' = k' then d else 0) < 2 ^ 32" if "k' < n" for k'
      using Cons.prems(5) [OF that] Cons.prems(2) that o(2) by (cases "k' = k") (simp_all add: i1_def x)
  qed
  then obtain outs' ins' where IH: "receive_vertex_info thr (flat_triples T) (with_counts g o1 i1, hub_count thr o1) = Some (with_counts g outs' ins', hub_count thr outs')"
    "length outs' = n" "length ins' = n"
    "\<And>k. k < n \<Longrightarrow> unat (outs' ! k) = unat (o1 ! k) + (\<Sum>(k', s, d)\<leftarrow>T. if k' = k then s else 0)"
    "\<And>k. k < n \<Longrightarrow> unat (ins' ! k) = unat (i1 ! k) + (\<Sum>(k', s, d)\<leftarrow>T. if k' = k then d else 0)" by blast
  have "with_counts g outs ins\<lparr>m_local_outgoing_count := o1, m_local_incoming_count := i1\<rparr> = with_counts g o1 i1"
    by (simp add: with_counts_def)
  then have "receive_vertex_info thr (flat_triples (x # T)) (with_counts g outs ins, hub_count thr outs)
      = receive_vertex_info thr (flat_triples T) (with_counts g o1 i1, hub_count thr o1)"
    using k Cons.prems(1,2) by (simp add: x Let_def hub o1_def [symmetric] i1_def [symmetric])
  then show ?case
    using IH(1-3) IH(4,5) o k Cons.prems(1,2) by (intro exI [of _ outs'] exI [of _ ins']) (auto simp: o1_def i1_def x nth_list_update)
qed

definition sent_triples :: "(int \<times> nat \<times> nat) list \<Rightarrow> (nat \<times> nat \<times> nat) list" where
  "sent_triples m = map (\<lambda>(k, s, d). (of_int32 k, s, d)) m"

lemma vertex_triples_flat: "vertex_triples m = flat_triples (sent_triples m)"
  by (induction m) (auto simp: vertex_triples_def flat_triples_def sent_triples_def)

lemma flat_triples_concat: "flat_triples (concat Ts) = concat (map flat_triples Ts)"
  by (induction Ts) (simp_all add: flat_triples_def)

lemma length_vertex_triples: "length (vertex_triples m) = length m * 3"
  by (induction m) (auto simp: vertex_triples_def)

lemma of_int32_eq: "j < 2 ^ 31 \<Longrightarrow> of_int32 (int j) = j"
proof -
  assume "j < 2 ^ 31"
  then have "int j mod 2 ^ 64 = int j" by (intro mod_pos_pos_trivial) simp_all
  then show "of_int32 (int j) = j" by (simp only: of_int32_def nat_int)
qed

lemma sum_sent:
  assumes "strict_keys m" "fst ` set m \<subseteq> int ` {..<n}" "n \<le> 2 ^ 31" "f (0, 0) = (0 :: nat)" "k < n"
  shows "(\<Sum>(k', v)\<leftarrow>sent_triples m. if k' = k then f v else 0) = f (lookup_default (0, 0) m (int k))"
proof -
  have "(if of_int32 k' = k then f v else 0) = (if k' = int k then f v else 0)" if "(k', v) \<in> set m" for k' v
  proof -
    have "k' \<in> fst ` set m" using that by force
    then obtain j where "k' = int j" "j < n" using assms(2) by blast
    then show ?thesis using assms(3) by (simp add: of_int32_eq)
  qed
  then have "(\<Sum>(k', v)\<leftarrow>sent_triples m. if k' = k then f v else 0) = (\<Sum>(k', v)\<leftarrow>m. if k' = int k then f v else 0)"
    unfolding sent_triples_def map_map
  proof (intro arg_cong [where f = sum_list] map_cong refl)
    fix x assume "x \<in> set m"
    moreover obtain k' s d where "x = (k', s, d)" by (cases x) auto
    ultimately show "((\<lambda>(k', v). if k' = k then f v else 0) \<circ> (\<lambda>(k, s, d). (of_int32 k, s, d))) x = (case x of (k', v) \<Rightarrow> if k' = int k then f v else 0)"
      using \<open>\<And>k' v. (k', v) \<in> set m \<Longrightarrow> (if of_int32 k' = k then f v else 0) = (if k' = int k then f v else 0)\<close> [of k' "(s, d)"] by simp
  qed
  then show ?thesis using sum_lookup [OF assms(1), of f "(0, 0)" "int k"] assms(4) by simp
qed

subsection \<open>A chunk of all ranks\<close>

lemma sum_single: "r < p \<Longrightarrow> (\<Sum>s\<leftarrow>[0..<p]. if r = s then f s else (0 :: nat)) = f r"
  by (simp add: interv_sum_list_conv_sum_set_nat)

lemma sum_list_nth_upt: "length xs = p \<Longrightarrow> (\<Sum>x\<leftarrow>xs. f x) = (\<Sum>r\<leftarrow>[0..<p]. f (xs ! r))"
  using arg_cong [OF map_nth [of xs, symmetric], of "\<lambda>ys. sum_list (map f ys)"] by (simp add: o_def)

lemma srcs_concat: "srcs (concat xss) v = (\<Sum>xs\<leftarrow>xss. srcs xs v)" and dsts_concat: "dsts (concat xss) v = (\<Sum>xs\<leftarrow>xss. dsts xs v)"
  by (induction xss) simp_all

lemma sum_map2_append:
  assumes "length xss = length yss" "\<And>xs ys. f (xs @ ys) = f xs + (f ys :: nat)"
  shows "(\<Sum>xs\<leftarrow>map2 (@) xss yss. f xs) = (\<Sum>xs\<leftarrow>xss. f xs) + (\<Sum>ys\<leftarrow>yss. f ys)"
  using assms(1) by (induction xss yss rule: list_induct2) (simp_all add: assms(2))

lemma srcs_chunk: "chunk_of c es pre ch \<Longrightarrow> srcs (concat (map2 (@) pre ch)) v = srcs (concat pre) v + srcs (concat ch) v"
  and dsts_chunk: "chunk_of c es pre ch \<Longrightarrow> dsts (concat (map2 (@) pre ch)) v = dsts (concat pre) v + dsts (concat ch) v"
  unfolding srcs_concat dsts_concat by (rule sum_map2_append; simp add: chunk_of_def)+

lemma chunk_of_lengths:
  assumes "chunk_of c es pre ch"
  shows "length (concat pre) + length (concat ch) \<le> length (concat es)"
proof -
  define p where "p = length es"
  have l: "length pre = p" "length ch = p" "length es = p" using assms by (simp_all add: chunk_of_def p_def)
  have "(\<Sum>r\<leftarrow>[0..<p]. length (pre ! r) + length (ch ! r)) \<le> (\<Sum>r\<leftarrow>[0..<p]. length (es ! r))"
  proof (rule sum_list_mono)
    fix r assume "r \<in> set [0..<p]"
    then obtain post where "es ! r = pre ! r @ ch ! r @ post" using assms by (auto simp: chunk_of_def p_def)
    then show "length (pre ! r) + length (ch ! r) \<le> length (es ! r)" by simp
  qed
  then show ?thesis
    using sum_list_nth_upt [OF l(1), of length] sum_list_nth_upt [OF l(2), of length] sum_list_nth_upt [OF l(3), of length]
    by (simp add: length_concat sum_list_addf)
qed

lemma chunk_of_subset:
  "chunk_of c es pre ch \<Longrightarrow> r < length es \<Longrightarrow> set (ch ! r) \<subseteq> set (concat es)"
proof -
  assume a: "chunk_of c es pre ch" "r < length es"
  then obtain post where "es ! r = pre ! r @ ch ! r @ post" unfolding chunk_of_def by blast
  then have "set (ch ! r) \<subseteq> set (es ! r)" by auto
  also have "\<dots> \<subseteq> set (concat es)" using nth_mem [OF a(2)] by (simp only: set_concat) blast
  finally show "set (ch ! r) \<subseteq> set (concat es)" .
qed

lemma map_nth_upt: "length xs = p \<Longrightarrow> map f xs = map (\<lambda>r. f (xs ! r)) [0..<p]"
  by (rule nth_equalityI) simp_all

lemma pick_fst: "(\<lambda>(k', s, d). if k' = k then s else 0) = (\<lambda>(k', v). if k' = k then fst v else (0 :: nat))"
  and pick_snd: "(\<lambda>(k', s, d). if k' = k then d else 0) = (\<lambda>(k', v). if k' = k then snd v else (0 :: nat))"
  by (auto simp: fun_eq_iff)

lemma sum_over_concat: "(\<Sum>x\<leftarrow>concat (map g xs). f x) = (\<Sum>x\<leftarrow>xs. \<Sum>y\<leftarrow>g x. f y)"
  by (induction xs) simp_all

text \<open>The state of the ranks when the edges \<open>es\<close> have been counted.\<close>

definition counted :: "nat \<Rightarrow> nat \<Rightarrow> delegate_graph list \<Rightarrow> nat \<Rightarrow> 'd edge list \<Rightarrow> count_state list \<Rightarrow> bool" where
  "counted p n gs thr es sts \<longleftrightarrow> length sts = p \<and> (\<forall>r < p. \<exists>outs ins. sts ! r = (with_counts (gs ! r) outs ins, hub_count thr outs)
     \<and> length outs = n \<and> length ins = n \<and> (\<forall>k < n. unat (outs ! k) = srcs es (k * p + r) \<and> unat (ins ! k) = dsts es (k * p + r)))"

definition ranks_of :: "nat \<Rightarrow> delegate_graph list \<Rightarrow> bool" where
  "ranks_of p gs \<longleftrightarrow> length gs = p \<and> (\<forall>r < p. m_mpi_size (gs ! r) = p \<and> m_mpi_rank (gs ! r) = r)"

lemma count_chunk_step:
  fixes es :: "'d edge list list"
  assumes M: "mpi_ok M" and ch: "chunk_of c es pre ch" and p: "length es = p" "0 < p" and gs: "ranks_of p gs"
    and st: "counted p n gs thr (concat pre) sts" and n: "n \<le> 2 ^ 31" and fit: "edges_fit p n (concat es)"
    and small: "length (concat es) < 2 ^ 32" "6 * p * c < 2 ^ 31"
  shows "\<exists>sts'. count_chunk M thr ch sts = Some sts' \<and> counted p n gs thr (concat (map2 (@) pre ch)) sts'"
proof -
  define O1 where "O1 r = m_local_outgoing_count (fst (sts ! r))" for r
  define I1 where "I1 r = m_local_incoming_count (fst (sts ! r))" for r
  have s1: "sts ! r = (with_counts (gs ! r) (O1 r) (I1 r), hub_count thr (O1 r))" "length (O1 r) = n" "length (I1 r) = n"
    "\<And>k. k < n \<Longrightarrow> unat (O1 r ! k) = srcs (concat pre) (k * p + r) \<and> unat (I1 r ! k) = dsts (concat pre) (k * p + r)" if "r < p" for r
    using st that by (force simp: counted_def O1_def I1_def)+
  have g: "m_mpi_size (gs ! r) = p" "m_mpi_rank (gs ! r) = r" if "r < p" for r using gs that by (simp_all add: ranks_of_def)
  have lens: "length ch = p" "length sts = p" using ch st p(1) by (simp_all add: chunk_of_def counted_def)
  have chl: "length (ch ! r) \<le> c" if "r < p" for r using ch that p(1) by (simp add: chunk_of_def)
  have chs: "length (ch ! r) \<le> length (concat ch)" if "r < p" for r
    using that lens(1) member_le_sum_list [of "length (ch ! r)" "map length ch"] by (simp add: length_concat)
  have total: "length (concat pre) + length (concat ch) < 2 ^ 32" using chunk_of_lengths [OF ch] small(1) by simp
  have "\<exists>zs. each_rank2 (\<lambda>chunk st. fold_opt (count_edge thr) chunk (st, replicate (m_mpi_size (fst st)) [])) ch sts = Some zs \<and> length zs = p \<and>
    (\<forall>r < p. \<exists>outs ins maps. rank_counts p n (gs ! r) thr (zs ! r) outs ins maps
      \<and> (\<forall>t < p. \<forall>k < n. out_share r outs maps t k = (if t = r then unat (O1 r ! k) else 0) + srcs (ch ! r) (k * p + t)
           \<and> in_share r ins maps t k = (if t = r then unat (I1 r ! k) else 0) + dsts (ch ! r) (k * p + t))
      \<and> (\<Sum>m\<leftarrow>maps. length m) \<le> 2 * length (ch ! r))"
  proof (rule each_rank2_rule [OF lens])
    fix r assume r: "r < p"
    have fits: "edges_fit p n (ch ! r)" using fit chunk_of_subset [OF ch, of r] r p(1) by (auto simp: edges_fit_def)
    have bound: "unat (O1 r ! k) + length (ch ! r) < 2 ^ 32 \<and> unat (I1 r ! k) + length (ch ! r) < 2 ^ 32" if "k < n" for k
      using s1(4) [OF r that] srcs_le [of "concat pre" "k * p + r"] dsts_le [of "concat pre" "k * p + r"] chs [OF r] total by simp
    show "\<exists>z. fold_opt (count_edge thr) (ch ! r) (sts ! r, replicate (m_mpi_size (fst (sts ! r))) []) = Some z \<and>
      (\<exists>outs ins maps. rank_counts p n (gs ! r) thr z outs ins maps
      \<and> (\<forall>t < p. \<forall>k < n. out_share r outs maps t k = (if t = r then unat (O1 r ! k) else 0) + srcs (ch ! r) (k * p + t)
           \<and> in_share r ins maps t k = (if t = r then unat (I1 r ! k) else 0) + dsts (ch ! r) (k * p + t))
      \<and> (\<Sum>m\<leftarrow>maps. length m) \<le> 2 * length (ch ! r))"
      using count_local [OF g [OF r] r n fits s1(2,3) [OF r] bound, of thr] s1(1) [OF r] g(1) [OF r] by auto
  qed
  then obtain zs where zs: "each_rank2 (\<lambda>chunk st. fold_opt (count_edge thr) chunk (st, replicate (m_mpi_size (fst st)) [])) ch sts = Some zs" "length zs = p"
    and ex: "\<forall>r < p. \<exists>outs ins maps. rank_counts p n (gs ! r) thr (zs ! r) outs ins maps
      \<and> (\<forall>t < p. \<forall>k < n. out_share r outs maps t k = (if t = r then unat (O1 r ! k) else 0) + srcs (ch ! r) (k * p + t)
           \<and> in_share r ins maps t k = (if t = r then unat (I1 r ! k) else 0) + dsts (ch ! r) (k * p + t))
      \<and> (\<Sum>m\<leftarrow>maps. length m) \<le> 2 * length (ch ! r)" by blast
  define O2 where "O2 r = m_local_outgoing_count (fst (fst (zs ! r)))" for r
  define I2 where "I2 r = m_local_incoming_count (fst (fst (zs ! r)))" for r
  define MP where "MP r = snd (zs ! r)" for r
  have s2: "zs ! r = ((with_counts (gs ! r) (O2 r) (I2 r), hub_count thr (O2 r)), MP r)" "length (O2 r) = n" "length (I2 r) = n" "maps_wf p n (MP r)"
    "\<And>t k. t < p \<Longrightarrow> k < n \<Longrightarrow> out_share r (O2 r) (MP r) t k = (if t = r then unat (O1 r ! k) else 0) + srcs (ch ! r) (k * p + t)"
    "\<And>t k. t < p \<Longrightarrow> k < n \<Longrightarrow> in_share r (I2 r) (MP r) t k = (if t = r then unat (I1 r ! k) else 0) + dsts (ch ! r) (k * p + t)"
    "(\<Sum>m\<leftarrow>MP r. length m) \<le> 2 * length (ch ! r)" if "r < p" for r
    using ex [rule_format, OF that] by (auto simp: rank_counts_def O2_def I2_def MP_def)
  define bs where "bs = (\<lambda>s r. vertex_triples (MP s ! r))"
  have mp: "length (MP r) = p" if "r < p" for r using s2(4) [OF that] by (simp add: maps_wf_def)
  have lbs: "(\<Sum>r\<leftarrow>[0..<p]. length (bs s r)) \<le> 6 * c" if s: "s < p" for s
  proof -
    have "(\<Sum>r\<leftarrow>[0..<p]. length (bs s r)) = (\<Sum>m\<leftarrow>MP s. length m) * 3"
      by (simp add: bs_def length_vertex_triples sum_list_mult_const sum_list_nth_upt [OF mp [OF s], of length])
    then show ?thesis using s2(7) [OF s] chl [OF s] by simp
  qed
  have "6 * c \<le> 6 * p * c" using p(2) by (cases p) simp_all
  then have send_fits: "fits_int (\<Sum>r\<leftarrow>[0..<p]. length (bs s r))" if "s < p" for s
    using lbs [OF that] small(2) unfolding fits_int_def by linarith
  have recv_fits: "fits_int (\<Sum>s\<leftarrow>[0..<p]. length (bs s r))" if r: "r < p" for r
  proof -
    have "length (bs s r) \<le> 6 * c" if "s < p" for s
      using lbs [OF that] member_le_sum_list [of "length (bs s r)" "map (\<lambda>r. length (bs s r)) [0..<p]"] r by simp
    then have "(\<Sum>s\<leftarrow>[0..<p]. length (bs s r)) \<le> (\<Sum>s\<leftarrow>[0..<p]. 6 * c)" by (intro sum_list_mono) simp
    also have "\<dots> = 6 * p * c" by (simp add: sum_list_triv)
    finally show ?thesis using small(2) unfolding fits_int_def by linarith
  qed
  define recvs where "recvs = map (\<lambda>r. (concat (map (\<lambda>s. bs s r) [0..<p]), map (\<lambda>s. length (bs s r)) [0..<p])) [0..<p]"
  have args: "map (\<lambda>(st, maps). (concat (map vertex_triples maps), map (\<lambda>m. length m * 3) maps)) zs
      = map (\<lambda>s. (concat (map (bs s) [0..<p]), map (\<lambda>r. length (bs s r)) [0..<p])) [0..<p]"
  proof (rule nth_equalityI)
    fix s assume "s < length (map (\<lambda>(st, maps). (concat (map vertex_triples maps), map (\<lambda>m. length m * 3) maps)) zs)"
    then have s: "s < p" using zs(2) by simp
    show "map (\<lambda>(st, maps). (concat (map vertex_triples maps), map (\<lambda>m. length m * 3) maps)) zs ! s
      = map (\<lambda>s. (concat (map (bs s) [0..<p]), map (\<lambda>r. length (bs s r)) [0..<p])) [0..<p] ! s"
      using s zs(2) s2(1) [OF s] map_nth_upt [OF mp [OF s], of vertex_triples] map_nth_upt [OF mp [OF s], of "\<lambda>m. length m * 3"]
      by (simp add: bs_def length_vertex_triples)
  qed (simp add: zs(2))
  have exch: "mpi_all_to_all M (map (\<lambda>(st, maps). (concat (map vertex_triples maps), map (\<lambda>m. length m * 3) maps)) zs) = Some recvs"
    unfolding args recvs_def by (rule mpi_all_to_all_blocks [OF M send_fits recv_fits])
  define T where "T r = concat (map (\<lambda>s. sent_triples (MP s ! r)) [0..<p])" for r
  have recv: "fst (recvs ! r) = flat_triples (T r)" if "r < p" for r
    using that by (simp add: recvs_def T_def flat_triples_concat bs_def vertex_triples_flat o_def)
  have mwf: "strict_keys (MP s ! r)" "fst ` set (MP s ! r) \<subseteq> int ` {..<n}" if "s < p" "r < p" for s r
    using s2(4) [OF that(1)] that(2) by (auto simp: maps_wf_def)
  have sums: "(\<Sum>(k', v)\<leftarrow>T r. if k' = k then f v else 0) = (\<Sum>s\<leftarrow>[0..<p]. f (noted (MP s) r k))"
    if "r < p" "k < n" "f (0, 0) = (0 :: nat)" for r k f
    unfolding T_def sum_over_concat
  proof (intro arg_cong [where f = sum_list] map_cong refl)
    fix s assume "s \<in> set [0..<p]"
    then have s: "s < p" by simp
    show "(\<Sum>(k', v)\<leftarrow>sent_triples (MP s ! r). if k' = k then f v else 0) = f (noted (MP s) r k)"
      using sum_sent [of "MP s ! r" n f k] mwf [OF s that(1)] n that(2,3) by blast
  qed
  have total_out: "unat (O2 r ! k) + (\<Sum>(k', s, d)\<leftarrow>T r. if k' = k then s else 0) = srcs (concat pre) (k * p + r) + srcs (concat ch) (k * p + r)"
    if r: "r < p" and k: "k < n" for r k
  proof -
    have "unat (O2 r ! k) + (\<Sum>(k', s, d)\<leftarrow>T r. if k' = k then s else 0)
        = (\<Sum>s\<leftarrow>[0..<p]. if r = s then unat (O2 s ! k) else 0) + (\<Sum>s\<leftarrow>[0..<p]. fst (noted (MP s) r k))"
      using sums [OF r k, of fst] sum_single [OF r, of "\<lambda>s. unat (O2 s ! k)"] by (simp add: pick_fst)
    also have "\<dots> = (\<Sum>s\<leftarrow>[0..<p]. out_share s (O2 s) (MP s) r k)" by (simp add: out_share_def sum_list_addf)
    also have "\<dots> = (\<Sum>s\<leftarrow>[0..<p]. (if r = s then unat (O1 s ! k) else 0) + srcs (ch ! s) (k * p + r))"
      by (intro arg_cong [where f = sum_list] map_cong refl) (use r k s2(5) in simp)
    also have "\<dots> = unat (O1 r ! k) + srcs (concat ch) (k * p + r)"
      using sum_single [OF r, of "\<lambda>s. unat (O1 s ! k)"] sum_list_nth_upt [OF lens(1), of "\<lambda>xs. srcs xs (k * p + r)"]
      by (simp add: sum_list_addf srcs_concat)
    finally show ?thesis using s1(4) [OF r k] by simp
  qed
  have total_in: "unat (I2 r ! k) + (\<Sum>(k', s, d)\<leftarrow>T r. if k' = k then d else 0) = dsts (concat pre) (k * p + r) + dsts (concat ch) (k * p + r)"
    if r: "r < p" and k: "k < n" for r k
  proof -
    have "unat (I2 r ! k) + (\<Sum>(k', s, d)\<leftarrow>T r. if k' = k then d else 0)
        = (\<Sum>s\<leftarrow>[0..<p]. if r = s then unat (I2 s ! k) else 0) + (\<Sum>s\<leftarrow>[0..<p]. snd (noted (MP s) r k))"
      using sums [OF r k, of snd] sum_single [OF r, of "\<lambda>s. unat (I2 s ! k)"] by (simp add: pick_snd)
    also have "\<dots> = (\<Sum>s\<leftarrow>[0..<p]. in_share s (I2 s) (MP s) r k)" by (simp add: in_share_def sum_list_addf)
    also have "\<dots> = (\<Sum>s\<leftarrow>[0..<p]. (if r = s then unat (I1 s ! k) else 0) + dsts (ch ! s) (k * p + r))"
      by (intro arg_cong [where f = sum_list] map_cong refl) (use r k s2(6) in simp)
    also have "\<dots> = unat (I1 r ! k) + dsts (concat ch) (k * p + r)"
      using sum_single [OF r, of "\<lambda>s. unat (I1 s ! k)"] sum_list_nth_upt [OF lens(1), of "\<lambda>xs. dsts xs (k * p + r)"]
      by (simp add: sum_list_addf dsts_concat)
    finally show ?thesis using s1(4) [OF r k] by simp
  qed
  have "\<exists>sts'. each_rank2 (\<lambda>(st, maps_to_send) (to_recv, recvcnts). receive_vertex_info thr to_recv st) zs recvs = Some sts' \<and> length sts' = p \<and>
    (\<forall>r < p. \<exists>outs ins. sts' ! r = (with_counts (gs ! r) outs ins, hub_count thr outs) \<and> length outs = n \<and> length ins = n
       \<and> (\<forall>k < n. unat (outs ! k) = srcs (concat (map2 (@) pre ch)) (k * p + r) \<and> unat (ins ! k) = dsts (concat (map2 (@) pre ch)) (k * p + r)))"
  proof (rule each_rank2_rule [OF zs(2)])
    show "length recvs = p" by (simp add: recvs_def)
    fix r assume r: "r < p"
    have keys: "k < n" if "(k, s, d) \<in> set (T r)" for k s d
    proof -
      obtain j i where "j < p" "(i, s, d) \<in> set (MP j ! r)" "k = of_int32 i" using \<open>(k, s, d) \<in> set (T r)\<close> by (auto simp: T_def sent_triples_def)
      moreover from this obtain q where "i = int q" "q < n" using mwf(2) [of j r] r by force
      ultimately show ?thesis using n by (simp add: of_int32_eq)
    qed
    have le: "srcs (concat pre) v + srcs (concat ch) v < 2 ^ 32" "dsts (concat pre) v + dsts (concat ch) v < 2 ^ 32" for v
      using srcs_le [of "concat pre" v] srcs_le [of "concat ch" v] dsts_le [of "concat pre" v] dsts_le [of "concat ch" v] total by linarith+
    have "\<exists>outs ins. receive_vertex_info thr (flat_triples (T r)) (with_counts (gs ! r) (O2 r) (I2 r), hub_count thr (O2 r)) = Some (with_counts (gs ! r) outs ins, hub_count thr outs)
      \<and> length outs = n \<and> length ins = n
      \<and> (\<forall>k < n. unat (outs ! k) = unat (O2 r ! k) + (\<Sum>(k', s, d)\<leftarrow>T r. if k' = k then s else 0)
          \<and> unat (ins ! k) = unat (I2 r ! k) + (\<Sum>(k', s, d)\<leftarrow>T r. if k' = k then d else 0))"
    proof (rule receive_triples [OF s2(2,3) [OF r]])
      show "k < n" if "(k, s, d) \<in> set (T r)" for k s d using that by (rule keys)
      show "unat (O2 r ! k) + (\<Sum>(k', s, d)\<leftarrow>T r. if k' = k then s else 0) < 2 ^ 32" if "k < n" for k
        unfolding total_out [OF r that] by (rule le)
      show "unat (I2 r ! k) + (\<Sum>(k', s, d)\<leftarrow>T r. if k' = k then d else 0) < 2 ^ 32" if "k < n" for k
        unfolding total_in [OF r that] by (rule le)
    qed
    then obtain outs ins where "receive_vertex_info thr (flat_triples (T r)) (with_counts (gs ! r) (O2 r) (I2 r), hub_count thr (O2 r)) = Some (with_counts (gs ! r) outs ins, hub_count thr outs)"
      "length outs = n" "length ins = n" "\<forall>k < n. unat (outs ! k) = srcs (concat pre) (k * p + r) + srcs (concat ch) (k * p + r)
         \<and> unat (ins ! k) = dsts (concat pre) (k * p + r) + dsts (concat ch) (k * p + r)"
      using total_out [OF r] total_in [OF r] by auto
    then show "\<exists>z. (case zs ! r of (st, maps_to_send) \<Rightarrow> \<lambda>(to_recv, recvcnts). receive_vertex_info thr to_recv st) (recvs ! r) = Some z \<and>
      (\<exists>outs ins. z = (with_counts (gs ! r) outs ins, hub_count thr outs) \<and> length outs = n \<and> length ins = n
       \<and> (\<forall>k < n. unat (outs ! k) = srcs (concat (map2 (@) pre ch)) (k * p + r) \<and> unat (ins ! k) = dsts (concat (map2 (@) pre ch)) (k * p + r)))"
      using s2(1) [OF r] recv [OF r] by (cases "recvs ! r") (auto simp: srcs_chunk [OF ch] dsts_chunk [OF ch])
  qed
  then obtain sts' where sts': "each_rank2 (\<lambda>(st, maps_to_send) (to_recv, recvcnts). receive_vertex_info thr to_recv st) zs recvs = Some sts'"
    "counted p n gs thr (concat (map2 (@) pre ch)) sts'" unfolding counted_def by blast
  have "list_all (\<lambda>(st, maps_to_send). length maps_to_send = m_mpi_size (fst st)) zs"
    using s2(1) mp g(1) zs(2) by (auto simp: list_all_length)
  then have "send_vertex_info M thr zs = Some sts'" using exch sts'(1) by (simp add: send_vertex_info_def)
  then show ?thesis using zs(1) sts'(2) by (simp add: count_chunk_def)
qed

subsection \<open>All chunks, and the hubs\<close>

definition owned_hubs :: "nat \<Rightarrow> nat \<Rightarrow> nat \<Rightarrow> u32 list \<Rightarrow> nat list" where
  "owned_hubs p r thr outs = map (\<lambda>i. i * p + r) (filter (\<lambda>i. thr \<le> unat (outs ! i)) [0..<length outs])"

definition low_edges :: "nat \<Rightarrow> u32 list \<Rightarrow> nat \<Rightarrow> nat" where
  "low_edges thr outs k = (\<Sum>i\<leftarrow>[0..<k]. if thr \<le> unat (outs ! i) then 0 else unat (outs ! i))"

lemma low_edges_Suc: "low_edges thr outs (Suc k) = low_edges thr outs k + (if thr \<le> unat (outs ! k) then 0 else unat (outs ! k))"
  by (simp add: low_edges_def)

definition with_low_count :: "delegate_graph \<Rightarrow> nat \<Rightarrow> delegate_graph" where
  "with_low_count g c = g\<lparr>m_edges_low_count := c\<rparr>"

lemma with_low_count_sel [simp]:
  "m_local_outgoing_count (with_low_count g c) = m_local_outgoing_count g" "m_local_incoming_count (with_low_count g c) = m_local_incoming_count g"
  "m_mpi_size (with_low_count g c) = m_mpi_size g" "m_mpi_rank (with_low_count g c) = m_mpi_rank g"
  "m_edges_low_count (with_low_count g c) = c" "(with_low_count g c)\<lparr>m_edges_low_count := c'\<rparr> = with_low_count g c'"
  by (simp_all add: with_low_count_def)

lemma length_owned_hubs: "length (owned_hubs p r thr outs) = hub_count thr outs"
proof -
  have "hub_count thr outs = length (filter (\<lambda>c. thr \<le> unat c) (map ((!) outs) [0..<length outs]))" by (simp add: hub_count_def map_nth)
  then show ?thesis by (simp add: owned_hubs_def filter_map o_def)
qed

lemma upt_split:
  assumes "[0..<n] = pre @ i # post"
  shows "i = length pre \<and> i < n \<and> pre = [0..<i]"
proof -
  have n: "n = length pre + Suc (length post)" using arg_cong [OF assms, of length] by simp
  have "[0..<n] ! length pre = i" by (simp only: assms nth_append_length)
  moreover have "take (length pre) [0..<n] = pre" by (subst assms) simp
  ultimately show ?thesis using n by (simp add: take_upt del: upt_Suc)
qed

lemma local_hubs_eq:
  assumes "m_mpi_size g = p" "m_mpi_rank g = r" "length outs = n" "length ins = n"
    and "\<And>i. i < n \<Longrightarrow> thr \<le> unat (outs ! i) \<Longrightarrow> i * p + r \<noteq> 0"
  shows "local_hubs thr (with_counts g outs ins, hub_count thr outs)
    = Some (owned_hubs p r thr outs, with_low_count (with_counts g outs ins) (m_edges_low_count g + low_edges thr outs n))"
proof -
  define wc where "wc = with_counts g outs ins"
  have wc: "m_local_outgoing_count wc = outs" "m_local_incoming_count wc = ins" "m_mpi_size wc = p" "m_mpi_rank wc = r"
    using assms(1,2) by (simp_all add: wc_def)
  define hs where "hs k = map (\<lambda>i. i * p + r) (filter (\<lambda>i. thr \<le> unat (outs ! i)) [0..<k])" for k
  have "\<exists>s'. fold_opt (find_hub thr) [0..<n] ([], with_low_count wc (m_edges_low_count g)) = Some s' \<and> s' = (hs (length [0..<n]), with_low_count wc (m_edges_low_count g + low_edges thr outs (length [0..<n])))"
  proof (rule fold_opt_rule)
    show "([], with_low_count wc (m_edges_low_count g)) = (hs (length []), with_low_count wc (m_edges_low_count g + low_edges thr outs (length [])))"
      by (simp add: hs_def low_edges_def)
    fix pre i post s
    assume a: "[0..<n] = pre @ i # post" "s = (hs (length pre), with_low_count wc (m_edges_low_count g + low_edges thr outs (length pre)))"
    have i: "i = length pre" and "i < n" using upt_split [OF a(1)] by blast+
    have hs_Suc: "hs (Suc i) = hs i @ (if thr \<le> unat (outs ! i) then [i * p + r] else [])" by (simp add: hs_def)
    have l: "length (pre @ [i]) = Suc i" by (simp add: i)
    have "find_hub thr i (hs i, with_low_count wc (m_edges_low_count g + low_edges thr outs i))
      = Some (hs (Suc i), with_low_count wc (m_edges_low_count g + low_edges thr outs (Suc i)))"
      using assms(5) [OF \<open>i < n\<close>] \<open>i < n\<close> assms(3) by (simp add: find_hub_def wc hs_Suc low_edges_Suc Let_def add.assoc)
    then show "\<exists>s'. find_hub thr i s = Some s' \<and> s' = (hs (length (pre @ [i])), with_low_count wc (m_edges_low_count g + low_edges thr outs (length (pre @ [i]))))"
      unfolding a(2) l i [symmetric] by blast
  qed
  moreover have "with_low_count wc (m_edges_low_count g) = wc" by (simp add: with_low_count_def wc_def with_counts_def)
  moreover have "hs n = owned_hubs p r thr outs" by (simp add: hs_def owned_hubs_def assms(3))
  ultimately show ?thesis
    using assms(4) length_owned_hubs [of p r thr outs] by (simp add: local_hubs_def wc flip: wc_def)
qed

lemma counted_start:
  assumes "ranks_of p gs" "\<And>r. r < p \<Longrightarrow> m_local_outgoing_count (gs ! r) = replicate n 0 \<and> m_local_incoming_count (gs ! r) = replicate n 0" "0 < thr"
  shows "counted p n gs thr [] (map (\<lambda>g. (g, 0)) gs)"
proof -
  have "gs ! r = with_counts (gs ! r) (replicate n 0) (replicate n 0)" if "r < p" for r
    using assms(2) [OF that] by (simp add: with_counts_def)
  then show ?thesis
    using assms unfolding counted_def ranks_of_def
    by (auto intro!: exI [of _ "replicate n 0"] simp: hub_count_def)
qed

text \<open>The hubs of all ranks, in the order every rank receives them.\<close>

definition all_hubs :: "nat \<Rightarrow> nat \<Rightarrow> nat \<Rightarrow> 'd edge list \<Rightarrow> nat list" where
  "all_hubs p n thr es = concat (map (\<lambda>r. map (\<lambda>i. i * p + r) (filter (\<lambda>i. thr \<le> srcs es (i * p + r)) [0..<n])) [0..<p])"

lemma set_all_hubs: "0 < p \<Longrightarrow> set (all_hubs p n thr es) = {v. v div p < n \<and> thr \<le> srcs es v}"
proof (intro set_eqI iffI)
  fix v assume p: "0 < p" and "v \<in> {v. v div p < n \<and> thr \<le> srcs es v}"
  moreover have "v = v div p * p + v mod p" by simp
  moreover have "v mod p < p" using p by simp
  ultimately show "v \<in> set (all_hubs p n thr es)"
    by (auto simp: all_hubs_def intro!: bexI [of _ "v mod p"] image_eqI [of _ _ "v div p"])
next
  fix v assume "0 < p" "v \<in> set (all_hubs p n thr es)"
  then show "v \<in> {v. v div p < n \<and> thr \<le> srcs es v}" by (auto simp: all_hubs_def)
qed

lemma distinct_all_hubs: "distinct (all_hubs p n thr es)"
proof -
  define bl where "bl r = map (\<lambda>i. i * p + r) (filter (\<lambda>i. thr \<le> srcs es (i * p + r)) [0..<n])" for r
  have mod: "v mod p = r" if "r < p" "v \<in> set (bl r)" for r v using that by (auto simp: bl_def)
  have dist: "distinct (bl r)" if "r < p" for r using that by (simp add: bl_def distinct_map inj_on_def)
  have "distinct (concat (map bl [0..<q]))" if "q \<le> p" for q
    using that
  proof (induction q)
    case (Suc q)
    have "v mod p < q" if "v \<in> set (concat (map bl [0..<q]))" for v
    proof -
      from that have "\<exists>r < q. v \<in> set (bl r)" by auto
      then obtain r where "r < q" "v \<in> set (bl r)" by blast
      then show ?thesis using mod [of r v] Suc.prems by simp
    qed
    moreover have "v mod p = q" if "v \<in> set (bl q)" for v using mod [of q v] that Suc.prems by simp
    ultimately have "set (concat (map bl [0..<q])) \<inter> set (bl q) = {}" by fastforce
    then show ?case using Suc dist [of q] by simp
  qed simp
  from this [of p] show ?thesis by (simp add: all_hubs_def bl_def [abs_def])
qed

lemma length_all_hubs: "0 < p \<Longrightarrow> 0 < thr \<Longrightarrow> length (all_hubs p n thr es) \<le> length es"
proof -
  assume p: "0 < p" "0 < thr"
  have "set (all_hubs p n thr es) \<subseteq> fst ` set es"
  proof
    fix v assume "v \<in> set (all_hubs p n thr es)"
    then have "0 < srcs es v" using p by (simp add: set_all_hubs)
    then show "v \<in> fst ` set es" using srcs_pos by blast
  qed
  then have "card (set (all_hubs p n thr es)) \<le> card (fst ` set es)" by (intro card_mono) simp_all
  also have "\<dots> \<le> card (set es)" by (rule card_image_le) simp
  also have "\<dots> \<le> length es" by (rule card_length)
  finally show ?thesis by (simp add: distinct_card distinct_all_hubs)
qed

text \<open>What the first phase establishes at rank \<open>r\<close>, starting from \<open>g\<close>.\<close>

definition degrees_known :: "nat \<Rightarrow> nat \<Rightarrow> nat \<Rightarrow> 'd edge list \<Rightarrow> nat \<Rightarrow> delegate_graph \<Rightarrow> delegate_graph \<Rightarrow> bool" where
  "degrees_known p n thr es r g g' \<longleftrightarrow> (\<exists>outs ins. g' = with_low_count (with_counts g outs ins) (m_edges_low_count g + low_edges thr outs n)
     \<and> length outs = n \<and> length ins = n \<and> (\<forall>k < n. unat (outs ! k) = srcs es (k * p + r) \<and> unat (ins ! k) = dsts es (k * p + r)))"

lemma count_loop_counted:
  fixes es :: "'d edge list list"
  assumes M: "mpi_ok M" and p: "length es = p" "0 < p" and gs: "ranks_of p gs"
    and start: "\<And>r. r < p \<Longrightarrow> m_local_outgoing_count (gs ! r) = replicate n 0 \<and> m_local_incoming_count (gs ! r) = replicate n 0"
    and thr: "0 < thr" and n: "n \<le> 2 ^ 31" and fit: "edges_fit p n (concat es)"
    and c: "0 < cs" "6 * p * cs < 2 ^ 31" and small: "length (concat es) < 2 ^ 31"
  shows "\<exists>sts. chunk_loop M cs (count_chunk M thr) es (map (\<lambda>g. (g, 0)) gs) = Some sts \<and> counted p n gs thr (concat es) sts"
proof (rule chunk_loop_rule [OF M c(1)])
  show "counted p n gs thr (concat (map (\<lambda>_. []) es)) (map (\<lambda>g. (g, 0)) gs)"
    using counted_start [OF gs start thr] by (simp add: concat_eq_Nil_conv [THEN iffD2])
  fix pre ch sts assume "chunk_of cs es pre ch" "counted p n gs thr (concat pre) sts"
  from count_chunk_step [OF M this(1) p gs this(2) n fit] small c(2)
  show "\<exists>s'. count_chunk M thr ch sts = Some s' \<and> counted p n gs thr (concat (map2 (@) pre ch)) s'" by simp
qed

lemma count_edge_degrees_eq:
  fixes es :: "'d edge list list"
  assumes M: "mpi_ok M" and p: "length es = p" "0 < p" and gs: "ranks_of p gs"
    and start: "\<And>r. r < p \<Longrightarrow> m_local_outgoing_count (gs ! r) = replicate n 0 \<and> m_local_incoming_count (gs ! r) = replicate n 0"
    and thr: "0 < thr" and n: "n \<le> 2 ^ 31" and fit: "edges_fit p n (concat es)"
    and c: "0 < edge_chunk_size (hd gs)" "6 * p * edge_chunk_size (hd gs) < 2 ^ 31" and small: "length (concat es) < 2 ^ 31"
    and zero: "srcs (concat es) 0 < thr"
  shows "\<exists>gs'. count_edge_degrees M es thr gs = Some (zip gs' (replicate p (all_hubs p n thr (concat es))))
    \<and> length gs' = p \<and> (\<forall>r < p. degrees_known p n thr (concat es) r (gs ! r) (gs' ! r))"
proof -
  define cs where "cs = edge_chunk_size (hd gs)"
  obtain sts where sts: "chunk_loop M cs (count_chunk M thr) es (map (\<lambda>g. (g, 0)) gs) = Some sts" "counted p n gs thr (concat es) sts"
    using count_loop_counted [OF M p gs start thr n fit _ _ small] c unfolding cs_def by blast
  define hub_list where "hub_list r = map (\<lambda>i. i * p + r) (filter (\<lambda>i. thr \<le> srcs (concat es) (i * p + r)) [0..<n])" for r
  have "\<exists>zs. each_rank (local_hubs thr) sts = Some zs \<and> length zs = p \<and>
    (\<forall>r < p. fst (zs ! r) = hub_list r \<and> degrees_known p n thr (concat es) r (gs ! r) (snd (zs ! r)))"
  proof (rule each_rank_rule)
    show "length sts = p" using sts(2) by (simp add: counted_def)
    fix r assume r: "r < p"
    then obtain outs ins where s: "sts ! r = (with_counts (gs ! r) outs ins, hub_count thr outs)" "length outs = n" "length ins = n"
      "\<And>k. k < n \<Longrightarrow> unat (outs ! k) = srcs (concat es) (k * p + r) \<and> unat (ins ! k) = dsts (concat es) (k * p + r)"
      using sts(2) unfolding counted_def by blast
    have "local_hubs thr (sts ! r) = Some (owned_hubs p r thr outs, with_low_count (with_counts (gs ! r) outs ins) (m_edges_low_count (gs ! r) + low_edges thr outs n))"
      unfolding s(1)
    proof (rule local_hubs_eq [OF _ _ s(2,3)])
      show "m_mpi_size (gs ! r) = p" "m_mpi_rank (gs ! r) = r" using gs r by (simp_all add: ranks_of_def)
      show "i * p + r \<noteq> 0" if "i < n" "thr \<le> unat (outs ! i)" for i
      proof
        assume "i * p + r = 0"
        with s(4) [OF that(1)] have "unat (outs ! i) = srcs (concat es) 0" by metis
        then show False using that(2) zero by simp
      qed
    qed
    moreover have "owned_hubs p r thr outs = hub_list r"
      unfolding owned_hubs_def hub_list_def s(2) using s(4) by (intro arg_cong [where f = "map _"] filter_cong) simp_all
    moreover have "degrees_known p n thr (concat es) r (gs ! r) (with_low_count (with_counts (gs ! r) outs ins) (m_edges_low_count (gs ! r) + low_edges thr outs n))"
      unfolding degrees_known_def using s(2-4) by blast
    ultimately show "\<exists>z. local_hubs thr (sts ! r) = Some z \<and> fst z = hub_list r \<and> degrees_known p n thr (concat es) r (gs ! r) (snd z)" by simp
  qed
  then obtain zs where zs: "each_rank (local_hubs thr) sts = Some zs" "length zs = p"
    "\<And>r. r < p \<Longrightarrow> fst (zs ! r) = hub_list r" "\<And>r. r < p \<Longrightarrow> degrees_known p n thr (concat es) r (gs ! r) (snd (zs ! r))" by blast
  have "map fst zs = map hub_list [0..<p]" by (rule nth_equalityI) (simp_all add: zs(2,3))
  then have hubs: "concat (map fst zs) = all_hubs p n thr (concat es)" by (simp add: all_hubs_def hub_list_def [abs_def])
  have gather: "mpi_all_gather M (map fst zs) = Some (replicate p (all_hubs p n thr (concat es)))"
    using mpi_all_gather_concat [OF M, of "map fst zs"] small length_all_hubs [OF p(2) thr, of n "concat es"]
    by (simp add: fits_int_def hubs zs(2))
  show ?thesis
    using sts(1) zs gather by (intro exI [of _ "map snd zs"])
      (simp add: count_edge_degrees_def distinct_remdups_id distinct_all_hubs flip: cs_def)
qed

text \<open>A hub with label 0 fails the assertion, at the rank that owns it.\<close>

lemma count_edge_degrees_zero:
  fixes es :: "'d edge list list"
  assumes M: "mpi_ok M" and p: "length es = p" "0 < p" and gs: "ranks_of p gs"
    and start: "\<And>r. r < p \<Longrightarrow> m_local_outgoing_count (gs ! r) = replicate n 0 \<and> m_local_incoming_count (gs ! r) = replicate n 0"
    and thr: "0 < thr" and n: "0 < n" "n \<le> 2 ^ 31" and fit: "edges_fit p n (concat es)"
    and c: "0 < edge_chunk_size (hd gs)" "6 * p * edge_chunk_size (hd gs) < 2 ^ 31" and small: "length (concat es) < 2 ^ 31"
    and zero: "thr \<le> srcs (concat es) 0"
  shows "count_edge_degrees M es thr gs = None"
proof -
  obtain sts where sts: "chunk_loop M (edge_chunk_size (hd gs)) (count_chunk M thr) es (map (\<lambda>g. (g, 0)) gs) = Some sts" "counted p n gs thr (concat es) sts"
    using count_loop_counted [OF M p gs start thr n(2) fit c small] by blast
  obtain outs ins where s: "sts ! 0 = (with_counts (gs ! 0) outs ins, hub_count thr outs)" "length outs = n" "length ins = n"
    "unat (outs ! 0) = srcs (concat es) 0"
    using sts(2) p(2) n(1) unfolding counted_def by force
  have "find_hub thr 0 ([], with_counts (gs ! 0) outs ins) = None"
    using gs p(2) s n(1) zero by (simp add: find_hub_def ranks_of_def)
  moreover have "[0..<n] = 0 # [1..<n]" using n(1) by (simp add: upt_conv_Cons)
  ultimately have "local_hubs thr (sts ! 0) = None" using s by (simp add: local_hubs_def)
  then have "each_rank (local_hubs thr) sts = None"
    using sts(2) p(2) by (cases sts) (auto simp: each_rank_def counted_def)
  then show ?thesis using sts(1) by (simp add: count_edge_degrees_def)
qed

subsection \<open>Properties\<close>

text \<open>The conditions on the input: labels up to the maximum, and counts that fit the types the code uses.\<close>

definition input_ok :: "nat \<Rightarrow> nat \<Rightarrow> nat \<Rightarrow> 'd edge list list \<Rightarrow> bool" where
  "input_ok max_vertex delegate_degree_threshold chunk_size edges \<longleftrightarrow>
     (let p = length edges in 0 < p \<and> 0 < delegate_degree_threshold \<and> 0 < chunk_size \<and> 6 * p * chunk_size < 2 ^ 31
      \<and> max_vertex div p + 2 \<le> 2 ^ 31 \<and> length (concat edges) < 2 ^ 31
      \<and> (\<forall>e \<in> set (concat edges). fst e \<le> max_vertex \<and> fst (snd e) \<le> max_vertex))"

definition new_graphs :: "nat \<Rightarrow> nat \<Rightarrow> nat \<Rightarrow> nat \<Rightarrow> nat \<Rightarrow> nat \<Rightarrow> bool \<Rightarrow> delegate_graph list" where
  "new_graphs p ppn max_vertex thr parts chunk_size has_data =
     map (\<lambda>r. new_graph p ppn max_vertex thr parts chunk_size r has_data) [0..<p]"

lemma new_graphs_ranks: "ranks_of p (new_graphs p ppn max_vertex thr parts c d)"
  by (simp add: ranks_of_def new_graphs_def new_graph_def Let_def)

lemma new_graphs_hd: "0 < p \<Longrightarrow> edge_chunk_size (hd (new_graphs p ppn max_vertex thr parts c d)) = c"
  by (simp add: new_graphs_def new_graph_def Let_def hd_map upt_conv_Cons)

lemma ceil_div_le: "0 < p \<Longrightarrow> (m + p - 1) div p \<le> m div p + (1 :: nat)"
proof -
  assume p: "0 < p"
  have "(m + p - 1) div p \<le> (m + p) div p" by (rule div_le_mono) simp
  then show ?thesis using div_add_self2 [of p m] p by linarith
qed

lemma input_ok_fit:
  assumes "input_ok max_vertex thr c es" "length es = p"
  shows "edges_fit p ((max_vertex + p - 1) div p + 1) (concat es)" "(max_vertex + p - 1) div p + 1 \<le> 2 ^ 31"
proof -
  have p: "0 < p" using assms by (auto simp: input_ok_def Let_def)
  have "v div p < (max_vertex + p - 1) div p + 1" if "v \<le> max_vertex" for v
  proof -
    have "v div p \<le> (max_vertex + p - 1) div p" using that p by (intro div_le_mono) simp
    then show ?thesis by simp
  qed
  then show "edges_fit p ((max_vertex + p - 1) div p + 1) (concat es)"
    using assms(1) unfolding edges_fit_def input_ok_def Let_def by blast
  show "(max_vertex + p - 1) div p + 1 \<le> 2 ^ 31"
    using assms ceil_div_le [OF p, of max_vertex] by (simp add: input_ok_def Let_def)
qed

text \<open>
  C15. Counting the degrees is exact on any number of ranks and with any chunk size: afterwards the
  owner of every label holds its number of outgoing and of incoming edges in the input of all ranks,
  and every rank holds the same list of hubs, which are exactly the labels with at least
  \<open>delegate_degree_threshold\<close> outgoing edges, if label 0 is not one of them.
\<close>

theorem degrees_counted_exactly:
  assumes "mpi_ok M" "input_ok max_vertex thr c es" "srcs (concat es) 0 < thr"
  shows "\<exists>res. count_edge_degrees M es thr (new_graphs (length es) ppn max_vertex thr parts c d) = Some res \<and> length res = length es
    \<and> (\<forall>r < length es. set (snd (res ! r)) = {v. thr \<le> srcs (concat es) v} \<and> distinct (snd (res ! r)))
    \<and> (\<forall>v \<le> max_vertex. let g = fst (res ! (v mod length es)) in
         unat (m_local_outgoing_count g ! (v div length es)) = srcs (concat es) v
         \<and> unat (m_local_incoming_count g ! (v div length es)) = dsts (concat es) v)"
proof -
  define p where "p = length es"
  define n where "n = (max_vertex + p - 1) div p + 1"
  define gs where "gs = new_graphs p ppn max_vertex thr parts c d"
  have ok: "0 < p" "0 < thr" "0 < c" "6 * p * c < 2 ^ 31" "length (concat es) < 2 ^ 31"
    using assms(2) by (simp_all add: input_ok_def Let_def p_def ac_simps)
  have fit: "edges_fit p n (concat es)" "n \<le> 2 ^ 31" using input_ok_fit [OF assms(2) p_def [symmetric]] by (simp_all add: n_def)
  have start: "m_local_outgoing_count (gs ! r) = replicate n 0 \<and> m_local_incoming_count (gs ! r) = replicate n 0" if "r < p" for r
    using that by (simp add: gs_def new_graphs_def new_graph_def Let_def n_def)
  have hd: "edge_chunk_size (hd gs) = c" using new_graphs_hd [OF ok(1)] by (simp add: gs_def)
  obtain gs' where gs': "count_edge_degrees M es thr gs = Some (zip gs' (replicate p (all_hubs p n thr (concat es))))"
    "length gs' = p" "\<And>r. r < p \<Longrightarrow> degrees_known p n thr (concat es) r (gs ! r) (gs' ! r)"
    using count_edge_degrees_eq [OF assms(1) p_def [symmetric] ok(1) new_graphs_ranks [of p ppn max_vertex thr parts c d, folded gs_def] start ok(2) fit(2,1)]
      ok(3-5) assms(3) unfolding hd by blast
  have hubs: "set (all_hubs p n thr (concat es)) = {v. thr \<le> srcs (concat es) v}"
  proof -
    have "v div p < n" if "thr \<le> srcs (concat es) v" for v
    proof -
      have "0 < srcs (concat es) v" using that ok(2) by linarith
      then obtain e where "e \<in> set (concat es)" "fst e = v" using srcs_pos by blast
      then show ?thesis using fit(1) by (auto simp: edges_fit_def)
    qed
    then show ?thesis unfolding set_all_hubs [OF ok(1)] by auto
  qed
  have counts: "unat (m_local_outgoing_count (gs' ! (v mod p)) ! (v div p)) = srcs (concat es) v
      \<and> unat (m_local_incoming_count (gs' ! (v mod p)) ! (v div p)) = dsts (concat es) v" if "v \<le> max_vertex" for v
  proof -
    have "v div p < n"
    proof -
      have "v div p \<le> (max_vertex + p - 1) div p" using that ok(1) by (intro div_le_mono) simp
      then show ?thesis by (simp add: n_def)
    qed
    moreover have "v mod p < p" using ok(1) by simp
    moreover have "v div p * p + v mod p = v" by simp
    moreover obtain outs ins where "gs' ! (v mod p) = with_low_count (with_counts (gs ! (v mod p)) outs ins) (m_edges_low_count (gs ! (v mod p)) + low_edges thr outs n)"
      "\<forall>k < n. unat (outs ! k) = srcs (concat es) (k * p + v mod p) \<and> unat (ins ! k) = dsts (concat es) (k * p + v mod p)"
      using gs'(3) [OF \<open>v mod p < p\<close>] unfolding degrees_known_def by blast
    ultimately show ?thesis by simp
  qed
  show ?thesis
    unfolding p_def [symmetric] gs_def [symmetric] using gs'(1,2) hubs counts ok(1)
    by (simp add: Let_def distinct_all_hubs)
qed

lemma two_rank_input: "input_ok 3 2 1 [[(1, 2, ())], [(1, 0, ()), (0, 3, ())]]"
  by (simp add: input_ok_def numeral_2_eq_2 [symmetric])

theorem degrees_counted_exactly_witness:
  "\<exists>res. count_edge_degrees plain_mpi [[(1, 2, ())], [(1, 0, ()), (0, 3, ())]] 2 (new_graphs 2 1 3 2 1 1 False) = Some res
    \<and> set (snd (res ! 0)) = {1} \<and> unat (m_local_outgoing_count (fst (res ! 1)) ! 0) = 2"
proof -
  define es where "es = [[(1 :: nat, 2 :: nat, ())], [(1, 0, ()), (0, 3, ())]]"
  have s: "srcs (concat es) v = (if v = 1 then 2 else if v = 0 then 1 else 0)" for v by (simp add: es_def)
  have l: "length es = 2" by (simp add: es_def)
  have "{v. 2 \<le> srcs (concat es) v} = {1}" unfolding s by (auto split: if_splits)
  moreover have ok: "input_ok 3 2 1 es" using two_rank_input by (simp add: es_def)
  have "srcs (concat es) 0 < 2" by (simp add: s)
  from degrees_counted_exactly [OF mpi_ok_plain ok this, where ppn = 1 and parts = 1 and d = False, unfolded l]
  obtain res where "count_edge_degrees plain_mpi es 2 (new_graphs 2 1 3 2 1 1 False) = Some res"
    "\<forall>r < 2. set (snd (res ! r)) = {v. 2 \<le> srcs (concat es) v} \<and> distinct (snd (res ! r))"
    "\<forall>v \<le> 3. unat (m_local_outgoing_count (fst (res ! (v mod 2))) ! (v div 2)) = srcs (concat es) v
      \<and> unat (m_local_incoming_count (fst (res ! (v mod 2))) ! (v div 2)) = dsts (concat es) v" unfolding Let_def by blast
  from this(1) this(2) [rule_format, of 0] this(3) [rule_format, of 1] calculation s [of 1] show ?thesis by (simp add: es_def)
qed

text \<open>
  C38. When label 0 has as many outgoing edges as a hub, building the graph fails the assertion
  \<open>global_id != 0\<close>, whatever the number of ranks: vertex 0 cannot be a delegate.
\<close>

theorem vertex_zero_hub_aborts:
  assumes "mpi_ok M" "input_ok max_vertex thr c es" "thr \<le> srcs (concat es) 0"
  shows "count_edge_degrees M es thr (new_graphs (length es) ppn max_vertex thr parts c d) = None"
proof -
  define p where "p = length es"
  define n where "n = (max_vertex + p - 1) div p + 1"
  define gs where "gs = new_graphs p ppn max_vertex thr parts c d"
  have ok: "0 < p" "0 < thr" "0 < c" "6 * p * c < 2 ^ 31" "length (concat es) < 2 ^ 31"
    using assms(2) by (simp_all add: input_ok_def Let_def p_def ac_simps)
  have fit: "edges_fit p n (concat es)" "n \<le> 2 ^ 31" using input_ok_fit [OF assms(2) p_def [symmetric]] by (simp_all add: n_def)
  have start: "m_local_outgoing_count (gs ! r) = replicate n 0 \<and> m_local_incoming_count (gs ! r) = replicate n 0" if "r < p" for r
    using that by (simp add: gs_def new_graphs_def new_graph_def Let_def n_def)
  have hd: "edge_chunk_size (hd gs) = c" using new_graphs_hd [OF ok(1)] by (simp add: gs_def)
  show ?thesis
    using count_edge_degrees_zero [OF assms(1) p_def [symmetric] ok(1) new_graphs_ranks [of p ppn max_vertex thr parts c d, folded gs_def] start ok(2) _ fit(2,1)]
      ok(3-5) assms(3) unfolding hd p_def [symmetric] gs_def [symmetric] by (simp add: n_def)
qed


theorem vertex_zero_hub_aborts_witness:
  "count_edge_degrees plain_mpi [[(0, 1, ())], [(0, 2, ())]] 2 (new_graphs 2 1 3 2 1 1 False) = None"
proof -
  have "input_ok 3 2 1 [[(0, 1, ())], [(0, 2, ())]]" by (simp add: input_ok_def numeral_2_eq_2 [symmetric])
  from vertex_zero_hub_aborts [OF mpi_ok_plain this, where ppn = 1 and parts = 1 and d = False] show ?thesis
    by (simp add: numeral_2_eq_2)
qed

end
