(* ===== verification/Construction_Meta.thy ===== *)
theory Construction_Meta
  imports Construction_Count
begin

section \<open>Meta data: the indices of the low-degree edges and the tables of the hubs\<close>

text \<open>
  Each operation is described by the fields it changes.  \<open>low_count\<close> is the number of edges before a
  vertex in the rank's array of low-degree edges, \<open>high_count\<close> the same for the hubs.
\<close>

subsection \<open>The index of the low-degree edges\<close>

definition low_count :: "nat \<Rightarrow> nat \<Rightarrow> nat set \<Rightarrow> 'd edge list \<Rightarrow> nat \<Rightarrow> nat" where
  "low_count p r H es k = length (filter (\<lambda>e. fst e mod p = r \<and> fst e div p < k \<and> fst e \<notin> H) es)"

lemma low_count_0 [simp]: "low_count p r H es 0 = 0"
  by (simp add: low_count_def)

lemma low_count_le: "low_count p r H es k \<le> length es"
  by (simp add: low_count_def)

lemma low_count_Suc:
  assumes "r < p"
  shows "low_count p r H es (Suc k) = low_count p r H es k + (if k * p + r \<in> H then 0 else srcs es (k * p + r))"
proof (induction es)
  case Nil then show ?case by (simp add: low_count_def)
next
  case (Cons e es)
  have "fst e = k * p + r \<longleftrightarrow> fst e mod p = r \<and> fst e div p = k"
    using assms by (auto simp: mult.commute)
  then show ?case using Cons by (auto simp: low_count_def less_Suc_eq)
qed

lemma low_edges_eq:
  assumes "r < p" "k \<le> n" "\<And>i. i < n \<Longrightarrow> unat (outs ! i) = srcs es (i * p + r)"
    "\<And>i. i < n \<Longrightarrow> i * p + r \<in> H \<longleftrightarrow> thr \<le> srcs es (i * p + r)"
  shows "low_edges thr outs k = low_count p r H es k"
  using assms(2)
proof (induction k)
  case 0 then show ?case by (simp add: low_edges_def)
next
  case (Suc k)
  then show ?case using assms(3,4) [of k] low_count_Suc [OF assms(1), of H es k] by (simp add: low_edges_Suc)
qed

lemma make_vert_info_Some:
  assumes "d < 2 ^ 24" "i < 2 ^ 39"
  shows "make_vert_info b d i = Some \<lparr>vi_is_delegate = (if b then 1 else 0), vi_delegate_id = of_nat d, vi_low_csr_idx = of_nat i\<rparr>"
  using assms by (simp add: make_vert_info_def unat_of_nat)

lemma initialize_low_meta_data_eq:
  assumes "length (m_owned_info g) = Suc n" "length (m_local_outgoing_count g) = n" "length (m_local_incoming_count g) = n"
    "\<And>k. k \<le> n \<Longrightarrow> low_edges (m_delegate_degree_threshold g) (m_local_outgoing_count g) k < 2 ^ 39"
  shows "initialize_low_meta_data g = Some (g\<lparr>m_owned_info :=
    map (\<lambda>k. \<lparr>vi_is_delegate = 0, vi_delegate_id = 0, vi_low_csr_idx = of_nat (low_edges (m_delegate_degree_threshold g) (m_local_outgoing_count g) k)\<rparr>) [0..<Suc n]\<rparr>)"
proof -
  define L where "L = low_edges (m_delegate_degree_threshold g) (m_local_outgoing_count g)"
  define V where "V k = \<lparr>vi_is_delegate = 0, vi_delegate_id = 0, vi_low_csr_idx = of_nat (L k)\<rparr>" for k
  have make: "make_vert_info False 0 (L k) = Some (V k)" if "k \<le> n" for k
    using make_vert_info_Some [of 0 "L k" False] assms(4) [OF that] by (simp add: V_def L_def)
  have "\<exists>s'. fold_opt low_index [0..<n] (0, g) = Some s' \<and>
    s' = (L (length [0..<n]), g\<lparr>m_owned_info := map V [0..<length [0..<n]] @ drop (length [0..<n]) (m_owned_info g)\<rparr>)"
  proof (rule fold_opt_rule)
    show "(0, g) = (L (length []), g\<lparr>m_owned_info := map V [0..<length []] @ drop (length []) (m_owned_info g)\<rparr>)"
      by (simp add: L_def low_edges_def)
    fix pre i post s
    assume a: "[0..<n] = pre @ i # post" "s = (L (length pre), g\<lparr>m_owned_info := map V [0..<length pre] @ drop (length pre) (m_owned_info g)\<rparr>)"
    have i: "i = length pre" and "i < n" using upt_split [OF a(1)] by blast+
    have l: "length (pre @ [i]) = Suc i" by (simp add: i)
    have upd: "(map V [0..<i] @ drop i (m_owned_info g))[i := V i] = map V [0..<Suc i] @ drop (Suc i) (m_owned_info g)"
      using \<open>i < n\<close> assms(1) by (simp add: list_update_append Cons_nth_drop_Suc [symmetric])
    have "low_index i (L i, g\<lparr>m_owned_info := map V [0..<i] @ drop i (m_owned_info g)\<rparr>)
      = Some (L (Suc i), g\<lparr>m_owned_info := map V [0..<Suc i] @ drop (Suc i) (m_owned_info g)\<rparr>)"
      using \<open>i < n\<close> assms(2,3) make [of i] upd by (simp add: low_index_def Let_def L_def low_edges_Suc not_less)
    then show "\<exists>s'. low_index i s = Some s' \<and> s' = (L (length (pre @ [i])), g\<lparr>m_owned_info := map V [0..<length (pre @ [i])] @ drop (length (pre @ [i])) (m_owned_info g)\<rparr>)"
      unfolding a(2) l i [symmetric] by blast
  qed
  then have fold: "fold_opt low_index [0..<n] (0, g) = Some (L n, g\<lparr>m_owned_info := map V [0..<n] @ drop n (m_owned_info g)\<rparr>)" by simp
  obtain x where x: "drop n (m_owned_info g) = [x]" using assms(1) by (metis Cons_nth_drop_Suc drop_all lessI order_refl)
  have "(map V [0..<n] @ [x])[n := V n] = map V [0..<Suc n]" by (simp add: list_update_append)
  then show ?thesis
    unfolding initialize_low_meta_data_def using assms(1) fold make [of n] by (simp add: x V_def [abs_def] L_def)
qed

subsection \<open>Taking turns\<close>

lemma in_turns_eq:
  assumes "0 < processes_per_node g" "body g = Some g'" "m_mpi_rank g' = m_mpi_rank g" "processes_per_node g' = processes_per_node g"
  shows "in_turns body g = Some g'"
proof -
  define k where "k = m_mpi_rank g mod processes_per_node g"
  define f where "f = (\<lambda>i g. if i = m_mpi_rank g mod processes_per_node g then body g else Some g)"
  have idle: "fold_opt f is h = Some h" if "\<And>i. i \<in> set is \<Longrightarrow> i \<noteq> m_mpi_rank h mod processes_per_node h" for "is" h
    using that by (induction "is") (simp_all add: f_def)
  have k: "k < processes_per_node g" using assms(1) by (simp add: k_def)
  have app: "fold_opt f (xs @ ys) h = fold_opt f xs h \<bind> fold_opt f ys" for xs ys h
  proof (induction xs arbitrary: h)
    case (Cons x xs) then show ?case by (cases "f x h") simp_all
  qed simp
  have "[0..<processes_per_node g] = [0..<k] @ k # [Suc k..<processes_per_node g]"
    using k upt_add_eq_append [of 0 k "processes_per_node g - k"] by (simp add: upt_conv_Cons)
  then have "fold_opt f [0..<processes_per_node g] g = fold_opt f ([0..<k] @ k # [Suc k..<processes_per_node g]) g" by simp
  also have "\<dots> = Some g'"
    unfolding app using idle [of "[0..<k]" g] idle [of "[Suc k..<processes_per_node g]" g'] assms(2-4)
    by (simp add: f_def flip: k_def)
  finally show ?thesis by (simp only: in_turns_def f_def)
qed

subsection \<open>The tables of the hubs\<close>

definition hub_locator :: "nat \<Rightarrow> nat list \<Rightarrow> nat \<Rightarrow> vertex_locator" where
  "hub_locator p hs i = the (make_locator True i (hs ! i mod p))"

definition hub_table :: "nat \<Rightarrow> nat list \<Rightarrow> nat \<Rightarrow> (nat \<times> vertex_locator) list" where
  "hub_table p hs k = map (\<lambda>i. (hs ! i, hub_locator p hs i)) [0..<k]"

lemma hub_locator_Some:
  assumes "i < 2 ^ 40" "0 < p" "p < 2 ^ 21"
  shows "make_locator True i (hs ! i mod p) = Some (hub_locator p hs i)" "is_delegate (hub_locator p hs i)"
    "local_id (hub_locator p hs i) = i" "owner (hub_locator p hs i) = hs ! i mod p"
proof -
  have "hs ! i mod p < p" using assms(2) by simp
  then have o: "hs ! i mod p < 2 ^ 21" using assms(3) by linarith
  then obtain l where l: "make_locator True i (hs ! i mod p) = Some l"
    using assms(1) make_locator_None_iff [of True i "hs ! i mod p"] by (cases "make_locator True i (hs ! i mod p)") auto
  then show "make_locator True i (hs ! i mod p) = Some (hub_locator p hs i)" "is_delegate (hub_locator p hs i)"
    "local_id (hub_locator p hs i) = i" "owner (hub_locator p hs i) = hs ! i mod p"
    using l [unfolded make_locator_Some_iff] by (simp_all add: hub_locator_def l)
qed

lemma update_append: "k \<notin> fst ` set m \<Longrightarrow> AList.update k v m = m @ [(k, v)]"
  by (induction m) auto

lemma map_of_hub_table:
  assumes "distinct hs" "k \<le> length hs"
  shows "map_of (hub_table p hs k) v = (if v \<in> set (take k hs) then Some (hub_locator p hs (THE i. i < length hs \<and> hs ! i = v)) else None)"
proof -
  have keys: "map fst (hub_table p hs k) = take k hs"
    using assms(2) by (intro nth_equalityI) (simp_all add: hub_table_def)
  show ?thesis
  proof (cases "v \<in> set (take k hs)")
    case True
    then obtain i where i: "i < k" "i < length hs" "hs ! i = v" by (auto simp: in_set_conv_nth)
    have "(THE i. i < length hs \<and> hs ! i = v) = i"
      using i assms(1) by (intro the_equality) (auto simp: nth_eq_iff_index_eq)
    moreover have "map_of (hub_table p hs k) v = Some (hub_locator p hs i)"
    proof (rule map_of_is_SomeI)
      show "distinct (map fst (hub_table p hs k))" using assms(1) by (simp add: keys)
      show "(v, hub_locator p hs i) \<in> set (hub_table p hs k)" using i by (auto simp: hub_table_def)
    qed
    ultimately show ?thesis using True by simp
  next
    case False
    then have "v \<notin> fst ` set (hub_table p hs k)" using keys by (metis set_map)
    then show ?thesis using False by (simp add: map_of_eq_None_iff)
  qed
qed

text \<open>The locator of a hub, by its label.\<close>

lemma map_of_hub_table_nth:
  assumes "distinct hs" "i < length hs"
  shows "map_of (hub_table p hs (length hs)) (hs ! i) = Some (hub_locator p hs i)"
proof -
  have "(THE j. j < length hs \<and> hs ! j = hs ! i) = i" using assms by (intro the_equality) (auto simp: nth_eq_iff_index_eq)
  then show ?thesis using map_of_hub_table [OF assms(1), of "length hs" p "hs ! i"] assms(2) by simp
qed

lemma map_of_hub_table_None:
  "distinct hs \<Longrightarrow> map_of (hub_table p hs (length hs)) v = None \<longleftrightarrow> v \<notin> set hs"
  using map_of_hub_table [of hs "length hs" p v] by simp

text \<open>The owned vertices, tagged with the first \<open>k\<close> hubs.\<close>

definition tagged :: "nat \<Rightarrow> nat \<Rightarrow> nat list \<Rightarrow> nat \<Rightarrow> vert_info list \<Rightarrow> vert_info list \<Rightarrow> bool" where
  "tagged p r hs k base infos \<longleftrightarrow> length infos = length base
     \<and> (\<forall>j < length base. vi_low_csr_idx (infos ! j) = vi_low_csr_idx (base ! j)
          \<and> (if j * p + r \<in> set (take k hs) then vi_is_delegate (infos ! j) = 1 else infos ! j = base ! j))
     \<and> (\<forall>i < k. hs ! i mod p = r \<longrightarrow> vi_delegate_id (infos ! (hs ! i div p)) = of_nat i)"

lemma add_hub_step:
  assumes g: "m_mpi_size g = p" "m_mpi_rank g = r" "r < p" "p < 2 ^ 21" and hs: "distinct hs" "k < length hs" "length hs \<le> 2 ^ 40"
    and base: "\<And>v. v \<in> set hs \<Longrightarrow> v div p < length base"
    and st: "m_map_delegate_locator g = hub_table p hs k" "m_delegate_label g = take k hs" "tagged p r hs k base (m_owned_info g)"
  shows "\<exists>infos. add_hub hs k g = Some (g\<lparr>m_map_delegate_locator := hub_table p hs (Suc k), m_delegate_label := take (Suc k) hs, m_owned_info := infos\<rparr>)
    \<and> tagged p r hs (Suc k) base infos"
proof -
  define v where "v = hs ! k"
  have p: "0 < p" using g(3) by simp
  have v: "v div p < length base" "v \<notin> set (take k hs)"
    using base hs by (auto simp: v_def in_set_conv_nth nth_eq_iff_index_eq)
  have loc: "make_locator True k (v mod p) = Some (hub_locator p hs k)"
    unfolding v_def using hs(2,3) p g(4) by (intro hub_locator_Some(1)) simp_all
  have "v \<notin> fst ` set (hub_table p hs k)" using hs v(2) by (auto simp: hub_table_def v_def nth_eq_iff_index_eq)
  then have table: "AList.update v (hub_locator p hs k) (hub_table p hs k) = hub_table p hs (Suc k)"
    by (simp add: update_append) (simp add: hub_table_def v_def)
  have take: "take k hs @ [v] = take (Suc k) hs" using hs(2) by (simp add: take_Suc_conv_app_nth v_def)
  have len: "length (m_owned_info g) = length base" using st(3) by (simp add: tagged_def)
  define infos where "infos = (if v mod p = r then (m_owned_info g)[v div p := (m_owned_info g ! (v div p))\<lparr>vi_is_delegate := 1, vi_delegate_id := of_nat k\<rparr>] else m_owned_info g)"
  have label: "j * p + r = v \<longleftrightarrow> v mod p = r \<and> j = v div p" for j
    using g(3) by (auto simp: div_mult_mod_eq)
  have add: "add_hub hs k g = Some (g\<lparr>m_map_delegate_locator := hub_table p hs (Suc k), m_delegate_label := take (Suc k) hs, m_owned_info := infos\<rparr>)"
    unfolding add_hub_def Let_def v_def [symmetric] g(1,2) loc bind.simps st(1,2) table take infos_def using len v(1) g(2) by simp
  moreover have "tagged p r hs (Suc k) base infos"
  proof -
    have a: "vi_low_csr_idx (infos ! j) = vi_low_csr_idx (base ! j)
        \<and> (if j * p + r \<in> set (take (Suc k) hs) then vi_is_delegate (infos ! j) = 1 else infos ! j = base ! j)" if j: "j < length base" for j
    proof -
      have old: "vi_low_csr_idx (m_owned_info g ! j) = vi_low_csr_idx (base ! j)"
        "if j * p + r \<in> set (take k hs) then vi_is_delegate (m_owned_info g ! j) = 1 else m_owned_info g ! j = base ! j"
        using st(3) j by (simp_all add: tagged_def)
      show ?thesis
      proof (cases "j * p + r = v")
        case True
        then have "infos ! j = (m_owned_info g ! j)\<lparr>vi_is_delegate := 1, vi_delegate_id := of_nat k\<rparr>"
          using label [of j] len j by (simp add: infos_def)
        then show ?thesis using True old(1) by (simp flip: take)
      next
        case False
        then have "infos ! j = m_owned_info g ! j" using label [of j] by (auto simp: infos_def)
        then show ?thesis using False old by (simp flip: take)
      qed
    qed
    have b: "vi_delegate_id (infos ! (hs ! i div p)) = of_nat i" if i: "i < Suc k" "hs ! i mod p = r" for i
    proof (cases "i = k")
      case True then show ?thesis using i v(1) len by (simp add: infos_def flip: v_def)
    next
      case False
      then have ik: "i < k" using i by simp
      then have "hs ! i \<noteq> v" using hs by (simp add: v_def nth_eq_iff_index_eq)
      then have "v mod p = r \<Longrightarrow> hs ! i div p \<noteq> v div p" using i(2) by (metis div_mult_mod_eq)
      then have "infos ! (hs ! i div p) = m_owned_info g ! (hs ! i div p)" by (auto simp: infos_def)
      then show ?thesis using st(3) ik i(2) by (simp add: tagged_def)
    qed
    have "length infos = length base" by (simp add: infos_def len)
    then show ?thesis unfolding tagged_def using a b by blast
  qed
  ultimately show ?thesis by blast
qed
lemma initialize_high_meta_data_eq:
  assumes g: "m_mpi_size g = p" "m_mpi_rank g = r" "r < p" "p < 2 ^ 21" "0 < processes_per_node g"
    and hubs: "distinct hubs" "length hubs \<le> 2 ^ 40" "\<And>v. v \<in> set hubs \<Longrightarrow> v div p < length (m_owned_info g)"
    and new: "m_map_delegate_locator g = []" "m_delegate_label g = []" "m_delegate_info g = []" "m_delegate_degree g = []"
  shows "\<exists>infos. initialize_high_meta_data hubs g = Some (g\<lparr>m_delegate_info := replicate (length hubs + 1) 0, m_delegate_degree := replicate (length hubs) 0,
      m_map_delegate_locator := hub_table p (sort hubs) (length hubs), m_delegate_label := sort hubs, m_owned_info := infos\<rparr>)
    \<and> tagged p r (sort hubs) (length hubs) (m_owned_info g) infos"
proof -
  define hs where "hs = sort hubs"
  have hs: "distinct hs" "length hs = length hubs" "set hs = set hubs" using hubs(1) by (simp_all add: hs_def)
  define g1 where "g1 = g\<lparr>m_delegate_info := replicate (length hubs + 1) 0, m_delegate_degree := replicate (length hubs) 0\<rparr>"
  define I where "I = (\<lambda>k s. \<exists>infos. s = g1\<lparr>m_map_delegate_locator := hub_table p hs k, m_delegate_label := take k hs, m_owned_info := infos\<rparr>
    \<and> tagged p r hs k (m_owned_info g) infos)"
  have "\<exists>s. fold_opt (add_hub hs) [0..<length hs] g1 = Some s \<and> I (length [0..<length hs]) s"
  proof (rule fold_opt_rule)
    show "I (length []) g1"
      unfolding I_def by (intro exI [of _ "m_owned_info g"]) (simp add: tagged_def hub_table_def g1_def new)
    fix pre i post s assume a: "[0..<length hs] = pre @ i # post" "I (length pre) s"
    have i: "i = length pre" and "i < length hs" using upt_split [OF a(1)] by blast+
    have l: "length (pre @ [i]) = Suc i" by (simp add: i)
    obtain infos where s: "s = g1\<lparr>m_map_delegate_locator := hub_table p hs i, m_delegate_label := take i hs, m_owned_info := infos\<rparr>"
      "tagged p r hs i (m_owned_info g) infos" using a(2) unfolding I_def i [symmetric] by blast
    have "\<exists>infos. add_hub hs i s = Some (s\<lparr>m_map_delegate_locator := hub_table p hs (Suc i), m_delegate_label := take (Suc i) hs, m_owned_info := infos\<rparr>)
      \<and> tagged p r hs (Suc i) (m_owned_info g) infos"
      by (rule add_hub_step) (use g hs hubs s \<open>i < length hs\<close> in \<open>simp_all add: g1_def\<close>)
    then show "\<exists>s'. add_hub hs i s = Some s' \<and> I (length (pre @ [i])) s'"
      unfolding I_def l by (auto simp: s(1))
  qed
  then obtain infos where f: "fold_opt (add_hub hs) [0..<length hs] g1
      = Some (g1\<lparr>m_map_delegate_locator := hub_table p hs (length hs), m_delegate_label := hs, m_owned_info := infos\<rparr>)"
    "tagged p r hs (length hs) (m_owned_info g) infos" unfolding I_def by auto
  have "initialize_high_meta_data hubs g = Some (g1\<lparr>m_map_delegate_locator := hub_table p hs (length hs), m_delegate_label := hs, m_owned_info := infos\<rparr>)"
    unfolding initialize_high_meta_data_def
    by (rule in_turns_eq [OF g(5)]) (use f(1) in \<open>simp_all add: Let_def hs_def [symmetric] resize_list_def new hs(2) g1_def\<close>)
  then show ?thesis using f(2) by (auto simp: g1_def hs_def)
qed

subsection \<open>Counting the edges of the hubs\<close>

text \<open>The edges of hub \<open>i\<close> that rank \<open>r\<close> will store: those whose target it owns.\<close>

definition hub_edges :: "nat \<Rightarrow> nat \<Rightarrow> nat \<Rightarrow> 'd edge list \<Rightarrow> nat" where
  "hub_edges p r v es = length (filter (\<lambda>e. fst e = v \<and> fst (snd e) mod p = r) es)"

lemma hub_edges_simps [simp]: "hub_edges p r v [] = 0" "hub_edges p r v (xs @ ys) = hub_edges p r v xs + hub_edges p r v ys"
  by (simp_all add: hub_edges_def)

lemma hub_edges_concat: "hub_edges p r v (concat xss) = (\<Sum>xs\<leftarrow>xss. hub_edges p r v xs)"
  by (induction xss) simp_all

definition with_info :: "delegate_graph \<Rightarrow> nat list \<Rightarrow> delegate_graph" where
  "with_info g info = g\<lparr>m_delegate_info := info @ [0], m_edges_high_count := sum_list info\<rparr>"

lemma with_info_sel [simp]:
  "m_delegate_info (with_info g info) = info @ [0]" "m_edges_high_count (with_info g info) = sum_list info"
  "m_mpi_size (with_info g info) = m_mpi_size g" "m_mpi_rank (with_info g info) = m_mpi_rank g"
  "m_map_delegate_locator (with_info g info) = m_map_delegate_locator g"
  by (simp_all add: with_info_def)

lemma add_high_count_eq:
  assumes "m_map_delegate_locator g = hub_table p hs (length hs)" "distinct hs" "i < length hs" "length info = length hs" "length hs \<le> 2 ^ 40" "0 < p" "p < 2 ^ 21"
  shows "add_high_count (hs ! i) c (with_info g info) = Some (with_info g (info[i := info ! i + c]))"
proof -
  have l: "map_of (m_map_delegate_locator (with_info g info)) (hs ! i) = Some (hub_locator p hs i)"
    using map_of_hub_table_nth [OF assms(2,3), of p] assms(1) by simp
  have id: "local_id (hub_locator p hs i) = i" using assms by (intro hub_locator_Some) simp_all
  have sum: "sum_list (info[i := info ! i + c]) = sum_list info + c"
    using assms(3,4) by (simp add: sum_list_update elem_le_sum_list)
  show ?thesis
    unfolding add_high_count_def l option.case Let_def id using assms(3,4) sum
    by (simp add: with_info_def nth_append list_update_append)
qed

definition hub_maps_wf :: "nat \<Rightarrow> nat list \<Rightarrow> high_maps \<Rightarrow> bool" where
  "hub_maps_wf p hs maps \<longleftrightarrow> length maps = p \<and> (\<forall>m \<in> set maps. strict_keys m \<and> fst ` set m \<subseteq> set hs)"

definition hub_share :: "nat \<Rightarrow> nat list \<Rightarrow> nat list \<Rightarrow> high_maps \<Rightarrow> nat \<Rightarrow> nat \<Rightarrow> nat" where
  "hub_share r hs info maps t i = (if t = r then info ! i else 0) + lookup_default 0 (maps ! t) (hs ! i)"

text \<open>The tables of the hubs at rank \<open>r\<close>, which counting the edges of the hubs does not change.\<close>

definition hub_tables :: "nat \<Rightarrow> nat \<Rightarrow> nat list \<Rightarrow> delegate_graph \<Rightarrow> bool" where
  "hub_tables p r hs g \<longleftrightarrow> m_mpi_size g = p \<and> m_mpi_rank g = r \<and> r < p \<and> p < 2 ^ 21 \<and> distinct hs \<and> length hs \<le> 2 ^ 40
     \<and> m_map_delegate_locator g = hub_table p hs (length hs)"

lemma sum_length_update:
  "t < length maps \<Longrightarrow> (\<Sum>m\<leftarrow>maps[t := x]. length m) + length (maps ! t) = (\<Sum>m\<leftarrow>maps. length m) + length x"
  by (induction maps arbitrary: t) (auto simp: nth_Cons split: nat.splits)

lemma count_high_edge_step:
  assumes g: "hub_tables p r hs g" and set: "set hub_set = set hs" and info: "length info = length hs" and maps: "hub_maps_wf p hs maps"
  shows "\<exists>info' maps'. count_high_edge hub_set e (with_info g info, maps) = Some (with_info g info', maps') \<and> length info' = length hs \<and> hub_maps_wf p hs maps'
    \<and> (\<forall>t < p. \<forall>i < length hs. hub_share r hs info' maps' t i = hub_share r hs info maps t i + hub_edges p t (hs ! i) [e])
    \<and> (\<Sum>m\<leftarrow>maps'. length m) \<le> Suc (\<Sum>m\<leftarrow>maps. length m)"
proof -
  obtain u v d where e: "e = (u, v, d)" by (cases e) auto
  have h: "m_mpi_size g = p" "m_mpi_rank g = r" "r < p" "p < 2 ^ 21" "distinct hs" "length hs \<le> 2 ^ 40" "m_map_delegate_locator g = hub_table p hs (length hs)"
    using g by (simp_all add: hub_tables_def)
  show ?thesis
  proof (cases "u \<in> set hs")
    case False
    then have "hub_edges p t (hs ! i) [e] = 0" if "i < length hs" for t i
      using that by (auto simp: hub_edges_def e)
    then show ?thesis
      using False set info maps by (intro exI [of _ info] exI [of _ maps]) (simp add: count_high_edge_def e)
  next
    case True
    then obtain j where j: "j < length hs" "hs ! j = u" by (auto simp: in_set_conv_nth)
    have is_j: "hs ! i = u \<longleftrightarrow> i = j" if "i < length hs" for i using that j h(5) by (auto simp: nth_eq_iff_index_eq)
    define t0 where "t0 = v mod p"
    have t0: "t0 < p" using h(3) by (simp add: t0_def)
    have one: "hub_edges p t (hs ! i) [e] = (if i = j \<and> t = t0 then 1 else 0)" if "i < length hs" for t i
      using is_j [OF that] by (auto simp: hub_edges_def e t0_def)
    show ?thesis
    proof (cases "t0 = r")
      case own: True
      define info' where "info' = info[j := info ! j + 1]"
      have "add_high_count (hs ! j) 1 (with_info g info) = Some (with_info g info')"
        unfolding info'_def using h by (intro add_high_count_eq [OF h(7) h(5) j(1) info]) simp_all
      then have "count_high_edge hub_set e (with_info g info, maps) = Some (with_info g info', maps)"
        using True set own h(1,2) j(2) by (simp add: count_high_edge_def e Let_def t0_def)
      then show ?thesis
        using one own info maps j(1) by (intro exI [of _ info'] exI [of _ maps]) (auto simp: hub_share_def info'_def nth_list_update)
    next
      case other: False
      define maps' where "maps' = maps[t0 := map_modify u 0 (\<lambda>c. c + 1) (maps ! t0)]"
      have len: "t0 < length maps" using t0 maps by (simp add: hub_maps_wf_def)
      have m: "strict_keys (maps ! t0)" "fst ` set (maps ! t0) \<subseteq> set hs"
        using maps len by (simp_all add: hub_maps_wf_def)
      have "count_high_edge hub_set e (with_info g info, maps) = Some (with_info g info, maps')"
        using True set other h(1,2) len by (simp add: count_high_edge_def e Let_def t0_def maps'_def)
      moreover have "hub_maps_wf p hs maps'"
      proof -
        have "strict_keys m' \<and> fst ` set m' \<subseteq> set hs" if "m' \<in> set maps'" for m'
        proof -
          have "m' = map_modify u 0 (\<lambda>c. c + 1) (maps ! t0) \<or> m' \<in> set maps"
            using that set_update_subset_insert [of maps t0 "map_modify u 0 (\<lambda>c. c + 1) (maps ! t0)"] by (auto simp: maps'_def)
          moreover have "fst ` set (map_modify u 0 (\<lambda>c. c + 1) (maps ! t0)) \<subseteq> set hs"
            unfolding set_keys_map_modify using m(2) True by simp
          ultimately show ?thesis using maps strict_keys_map_modify [OF m(1)] unfolding hub_maps_wf_def by blast
        qed
        then show ?thesis using maps by (simp add: hub_maps_wf_def maps'_def)
      qed
      moreover have "hub_share r hs info maps' t i = hub_share r hs info maps t i + hub_edges p t (hs ! i) [e]" if "t < p" "i < length hs" for t i
        using one [OF that(2)] is_j [OF that(2)] len lookup_map_modify [OF m(1), of 0 u "\<lambda>c. c + 1" "hs ! i"] j(2)
        by (cases "t = t0") (auto simp: hub_share_def maps'_def)
      moreover have "(\<Sum>m\<leftarrow>maps'. length m) \<le> Suc (\<Sum>m\<leftarrow>maps. length m)"
        using sum_length_update [OF len, of "map_modify u 0 (\<lambda>c. c + 1) (maps ! t0)"] length_map_modify [of u 0 "\<lambda>c. c + 1" "maps ! t0"]
        unfolding maps'_def by linarith
      ultimately show ?thesis using info by blast
    qed
  qed
qed

lemma count_high_local:
  fixes es :: "'d edge list"
  assumes g: "hub_tables p r hs g" and set: "set hub_set = set hs" and info: "length info = length hs"
  shows "\<exists>info' maps'. fold_opt (count_high_edge hub_set) es (with_info g info, replicate p []) = Some (with_info g info', maps')
    \<and> length info' = length hs \<and> hub_maps_wf p hs maps'
    \<and> (\<forall>t < p. \<forall>i < length hs. hub_share r hs info' maps' t i = (if t = r then info ! i else 0) + hub_edges p t (hs ! i) es)
    \<and> (\<Sum>m\<leftarrow>maps'. length m) \<le> length es"
proof -
  define I where "I pre st \<longleftrightarrow> (\<exists>info' maps'. st = (with_info g info', maps') \<and> length info' = length hs \<and> hub_maps_wf p hs maps'
    \<and> (\<forall>t < p. \<forall>i < length hs. hub_share r hs info' maps' t i = (if t = r then info ! i else 0) + hub_edges p t (hs ! i) pre)
    \<and> (\<Sum>m\<leftarrow>maps'. length m) \<le> length pre)" for pre :: "'d edge list" and st
  have "\<exists>st. fold_opt (count_high_edge hub_set) es (with_info g info, replicate p []) = Some st \<and> I es st"
  proof (rule fold_opt_rule)
    show "I [] (with_info g info, replicate p [])"
      unfolding I_def by (intro exI [of _ info] exI [of _ "replicate p []"]) (auto simp: info hub_maps_wf_def strict_keys_def hub_share_def sum_list_replicate)
    fix pre e post st assume "es = pre @ e # post" "I pre st"
    then obtain i1 m1 where 1: "st = (with_info g i1, m1)" "length i1 = length hs" "hub_maps_wf p hs m1"
      "\<And>t i. t < p \<Longrightarrow> i < length hs \<Longrightarrow> hub_share r hs i1 m1 t i = (if t = r then info ! i else 0) + hub_edges p t (hs ! i) pre"
      "(\<Sum>m\<leftarrow>m1. length m) \<le> length pre" unfolding I_def by blast
    obtain i2 m2 where 2: "count_high_edge hub_set e st = Some (with_info g i2, m2)" "length i2 = length hs" "hub_maps_wf p hs m2"
      "\<And>t i. t < p \<Longrightarrow> i < length hs \<Longrightarrow> hub_share r hs i2 m2 t i = hub_share r hs i1 m1 t i + hub_edges p t (hs ! i) [e]"
      "(\<Sum>m\<leftarrow>m2. length m) \<le> Suc (\<Sum>m\<leftarrow>m1. length m)"
      using count_high_edge_step [OF g set 1(2,3), of e] unfolding 1(1) by blast
    have "I (pre @ [e]) (with_info g i2, m2)"
      unfolding I_def using 2(2-5) 1(4,5) by (intro exI [of _ i2] exI [of _ m2]) simp
    then show "\<exists>s'. count_high_edge hub_set e st = Some s' \<and> I (pre @ [e]) s'" using 2(1) by blast
  qed
  then show ?thesis unfolding I_def by blast
qed

lemma high_pairs_simps [simp]: "high_pairs [] = []" "high_pairs ((v, c) # T) = v # c # high_pairs T" "high_pairs (T @ T') = high_pairs T @ high_pairs T'"
  by (simp_all add: high_pairs_def)

lemma length_high_pairs: "length (high_pairs m) = length m * 2"
  by (induction m) (auto simp: high_pairs_def)

lemma high_pairs_concat: "high_pairs (concat Ts) = concat (map high_pairs Ts)"
  by (induction Ts) simp_all

lemma receive_high:
  "\<lbrakk>hub_tables p r hs g; length info = length hs; \<And>v c. (v, c) \<in> set T \<Longrightarrow> v \<in> set hs\<rbrakk> \<Longrightarrow>
   \<exists>info'. receive_high_info (high_pairs T) (with_info g info) = Some (with_info g info') \<and> length info' = length hs
     \<and> (\<forall>i < length hs. info' ! i = info ! i + (\<Sum>(v, c)\<leftarrow>T. if v = hs ! i then c else 0))"
proof (induction T arbitrary: info)
  case Nil then show ?case by (intro exI [of _ info]) simp
next
  case (Cons x T)
  obtain v c where x: "x = (v, c)" by (cases x)
  have h: "r < p" "p < 2 ^ 21" "distinct hs" "length hs \<le> 2 ^ 40" "m_map_delegate_locator g = hub_table p hs (length hs)"
    using Cons.prems(1) by (simp_all add: hub_tables_def)
  have "v \<in> set hs" using Cons.prems(3) x by auto
  then obtain j where j: "j < length hs" "hs ! j = v" by (auto simp: in_set_conv_nth)
  have is_j: "v = hs ! i \<longleftrightarrow> i = j" if "i < length hs" for i using that j h(3) by (auto simp: nth_eq_iff_index_eq)
  define info1 where "info1 = info[j := info ! j + c]"
  have add: "add_high_count v c (with_info g info) = Some (with_info g info1)"
    unfolding info1_def j(2) [symmetric] using h by (intro add_high_count_eq [OF h(5) h(3) j(1) Cons.prems(2)]) simp_all
  obtain info' where IH: "receive_high_info (high_pairs T) (with_info g info1) = Some (with_info g info')" "length info' = length hs"
    "\<And>i. i < length hs \<Longrightarrow> info' ! i = info1 ! i + (\<Sum>(v, c)\<leftarrow>T. if v = hs ! i then c else 0)"
    using Cons.IH [of info1] Cons.prems by (auto simp: info1_def)
  have "info' ! i = info ! i + (\<Sum>(v, c)\<leftarrow>x # T. if v = hs ! i then c else 0)" if "i < length hs" for i
    using IH(3) [OF that] is_j [OF that] j(1) Cons.prems(2) that by (auto simp: x info1_def nth_list_update)
  then show ?case using IH(1,2) add by (intro exI [of _ info']) (simp add: x)
qed

definition hub_counted :: "nat \<Rightarrow> nat list \<Rightarrow> delegate_graph list \<Rightarrow> 'd edge list \<Rightarrow> delegate_graph list \<Rightarrow> bool" where
  "hub_counted p hs gs es gs' \<longleftrightarrow> length gs' = p \<and> (\<forall>r < p. \<exists>info. gs' ! r = with_info (gs ! r) info \<and> length info = length hs
     \<and> (\<forall>i < length hs. info ! i = hub_edges p r (hs ! i) es))"

lemma count_high_chunk_step:
  fixes es :: "'d edge list list"
  assumes M: "mpi_ok M" and ch: "chunk_of c es pre ch" and p: "length es = p" "0 < p"
    and gs: "\<And>r. r < p \<Longrightarrow> hub_tables p r hs (gs ! r)" and sets: "length hubs = p" "\<And>r. r < p \<Longrightarrow> set (hubs ! r) = set hs"
    and st: "hub_counted p hs gs (concat pre) gs1" and small: "6 * p * c < 2 ^ 31"
  shows "\<exists>gs2. count_high_chunk M hubs ch gs1 = Some gs2 \<and> hub_counted p hs gs (concat (map2 (@) pre ch)) gs2"
proof -
  have lens: "length ch = p" "length gs1 = p" using ch st p(1) by (simp_all add: chunk_of_def hub_counted_def)
  have chl: "length (ch ! r) \<le> c" if "r < p" for r using ch that p(1) by (simp add: chunk_of_def)
  define I1 where "I1 r = (SOME info. gs1 ! r = with_info (gs ! r) info \<and> length info = length hs \<and> (\<forall>i < length hs. info ! i = hub_edges p r (hs ! i) (concat pre)))" for r
  have s1: "gs1 ! r = with_info (gs ! r) (I1 r)" "length (I1 r) = length hs" "\<And>i. i < length hs \<Longrightarrow> I1 r ! i = hub_edges p r (hs ! i) (concat pre)" if "r < p" for r
  proof -
    have "\<exists>info. gs1 ! r = with_info (gs ! r) info \<and> length info = length hs \<and> (\<forall>i < length hs. info ! i = hub_edges p r (hs ! i) (concat pre))"
      using st that by (simp add: hub_counted_def)
    from someI_ex [OF this] show "gs1 ! r = with_info (gs ! r) (I1 r)" "length (I1 r) = length hs" "\<And>i. i < length hs \<Longrightarrow> I1 r ! i = hub_edges p r (hs ! i) (concat pre)"
      unfolding I1_def by blast+
  qed
  have size: "m_mpi_size (gs1 ! r) = p" if "r < p" for r using s1(1) [OF that] gs [OF that] by (simp add: hub_tables_def)
  have "\<exists>zs. each_rank2 (\<lambda>(chunk, hub_set) g. fold_opt (count_high_edge hub_set) chunk (g, replicate (m_mpi_size g) [])) (zip ch hubs) gs1 = Some zs \<and> length zs = p \<and>
    (\<forall>r < p. \<exists>info' maps'. zs ! r = (with_info (gs ! r) info', maps') \<and> length info' = length hs \<and> hub_maps_wf p hs maps'
      \<and> (\<forall>t < p. \<forall>i < length hs. hub_share r hs info' maps' t i = (if t = r then I1 r ! i else 0) + hub_edges p t (hs ! i) (ch ! r))
      \<and> (\<Sum>m\<leftarrow>maps'. length m) \<le> length (ch ! r))"
  proof (rule each_rank2_rule)
    fix r assume r: "r < p"
    obtain info' maps' where "fold_opt (count_high_edge (hubs ! r)) (ch ! r) (with_info (gs ! r) (I1 r), replicate p []) = Some (with_info (gs ! r) info', maps')"
      "length info' = length hs" "hub_maps_wf p hs maps'"
      "\<forall>t < p. \<forall>i < length hs. hub_share r hs info' maps' t i = (if t = r then I1 r ! i else 0) + hub_edges p t (hs ! i) (ch ! r)"
      "(\<Sum>m\<leftarrow>maps'. length m) \<le> length (ch ! r)"
      using count_high_local [OF gs [OF r] sets(2) [OF r] s1(2) [OF r], of "ch ! r"] by blast
    then show "\<exists>z. (case zip ch hubs ! r of (chunk, hub_set) \<Rightarrow> \<lambda>g. fold_opt (count_high_edge hub_set) chunk (g, replicate (m_mpi_size g) [])) (gs1 ! r) = Some z \<and>
      (\<exists>info' maps'. z = (with_info (gs ! r) info', maps') \<and> length info' = length hs \<and> hub_maps_wf p hs maps'
      \<and> (\<forall>t < p. \<forall>i < length hs. hub_share r hs info' maps' t i = (if t = r then I1 r ! i else 0) + hub_edges p t (hs ! i) (ch ! r))
      \<and> (\<Sum>m\<leftarrow>maps'. length m) \<le> length (ch ! r))"
      using r lens sets(1) size [OF r] s1(1) [OF r] by (intro exI [of _ "(with_info (gs ! r) info', maps')"]) auto
  qed (simp_all add: lens sets(1))
  then obtain zs where zs: "each_rank2 (\<lambda>(chunk, hub_set) g. fold_opt (count_high_edge hub_set) chunk (g, replicate (m_mpi_size g) [])) (zip ch hubs) gs1 = Some zs" "length zs = p"
    and ex: "\<forall>r < p. \<exists>info' maps'. zs ! r = (with_info (gs ! r) info', maps') \<and> length info' = length hs \<and> hub_maps_wf p hs maps'
      \<and> (\<forall>t < p. \<forall>i < length hs. hub_share r hs info' maps' t i = (if t = r then I1 r ! i else 0) + hub_edges p t (hs ! i) (ch ! r))
      \<and> (\<Sum>m\<leftarrow>maps'. length m) \<le> length (ch ! r)" by blast
  define I2 where "I2 r = butlast (m_delegate_info (fst (zs ! r)))" for r
  define MP where "MP r = snd (zs ! r)" for r
  have s2: "zs ! r = (with_info (gs ! r) (I2 r), MP r)" "length (I2 r) = length hs" "hub_maps_wf p hs (MP r)"
    "\<And>t i. t < p \<Longrightarrow> i < length hs \<Longrightarrow> hub_share r hs (I2 r) (MP r) t i = (if t = r then I1 r ! i else 0) + hub_edges p t (hs ! i) (ch ! r)"
    "(\<Sum>m\<leftarrow>MP r. length m) \<le> length (ch ! r)" if "r < p" for r
    using ex [rule_format, OF that] by (auto simp: I2_def MP_def)
  define bs where "bs = (\<lambda>s r. high_pairs (MP s ! r))"
  have mp: "length (MP r) = p" if "r < p" for r using s2(3) [OF that] by (simp add: hub_maps_wf_def)
  have lbs: "(\<Sum>r\<leftarrow>[0..<p]. length (bs s r)) \<le> 2 * c" if s: "s < p" for s
  proof -
    have "(\<Sum>r\<leftarrow>[0..<p]. length (bs s r)) = (\<Sum>m\<leftarrow>MP s. length m) * 2"
      by (simp add: bs_def length_high_pairs sum_list_mult_const sum_list_nth_upt [OF mp [OF s], of length])
    then show ?thesis using s2(5) [OF s] chl [OF s] by simp
  qed
  have "c \<le> p * c" using p(2) by simp
  then have pc: "2 * c \<le> 6 * p * c" "p * (2 * c) \<le> 6 * p * c" unfolding mult.assoc mult.left_commute [of p 2 c] by linarith+
  have send_fits: "fits_int (\<Sum>r\<leftarrow>[0..<p]. length (bs s r))" if "s < p" for s
    using lbs [OF that] small pc(1) unfolding fits_int_def by linarith
  have recv_fits: "fits_int (\<Sum>s\<leftarrow>[0..<p]. length (bs s r))" if r: "r < p" for r
  proof -
    have "length (bs s r) \<le> 2 * c" if "s < p" for s
      using lbs [OF that] member_le_sum_list [of "length (bs s r)" "map (\<lambda>r. length (bs s r)) [0..<p]"] r by simp
    then have "(\<Sum>s\<leftarrow>[0..<p]. length (bs s r)) \<le> (\<Sum>s\<leftarrow>[0..<p]. 2 * c)" by (intro sum_list_mono) simp
    also have "\<dots> = p * (2 * c)" by (simp add: sum_list_triv)
    finally show ?thesis using small pc(2) unfolding fits_int_def by linarith
  qed
  define recvs where "recvs = map (\<lambda>r. (concat (map (\<lambda>s. bs s r) [0..<p]), map (\<lambda>s. length (bs s r)) [0..<p])) [0..<p]"
  have args: "map (\<lambda>(g, maps). (concat (map high_pairs maps), map (\<lambda>m. length m * 2) maps)) zs
      = map (\<lambda>s. (concat (map (bs s) [0..<p]), map (\<lambda>r. length (bs s r)) [0..<p])) [0..<p]"
  proof (rule nth_equalityI)
    fix s assume "s < length (map (\<lambda>(g, maps). (concat (map high_pairs maps), map (\<lambda>m. length m * 2) maps)) zs)"
    then have s: "s < p" using zs(2) by simp
    show "map (\<lambda>(g, maps). (concat (map high_pairs maps), map (\<lambda>m. length m * 2) maps)) zs ! s
      = map (\<lambda>s. (concat (map (bs s) [0..<p]), map (\<lambda>r. length (bs s r)) [0..<p])) [0..<p] ! s"
      using s zs(2) s2(1) [OF s] map_nth_upt [OF mp [OF s], of high_pairs] map_nth_upt [OF mp [OF s], of "\<lambda>m. length m * 2"]
      by (simp add: bs_def length_high_pairs)
  qed (simp add: zs(2))
  have exch: "mpi_all_to_all M (map (\<lambda>(g, maps). (concat (map high_pairs maps), map (\<lambda>m. length m * 2) maps)) zs) = Some recvs"
    unfolding args recvs_def by (rule mpi_all_to_all_blocks [OF M send_fits recv_fits])
  define T where "T r = concat (map (\<lambda>s. MP s ! r) [0..<p])" for r
  have recv: "fst (recvs ! r) = high_pairs (T r)" if "r < p" for r
    using that by (simp add: recvs_def T_def high_pairs_concat bs_def o_def)
  have mwf: "strict_keys (MP s ! r)" "fst ` set (MP s ! r) \<subseteq> set hs" if "s < p" "r < p" for s r
    using s2(3) [OF that(1)] that(2) by (auto simp: hub_maps_wf_def)
  have sums: "(\<Sum>(v, c)\<leftarrow>T r. if v = u then c else 0) = (\<Sum>s\<leftarrow>[0..<p]. lookup_default 0 (MP s ! r) u)" if "r < p" for r u
    unfolding T_def sum_over_concat
  proof (intro arg_cong [where f = sum_list] map_cong refl)
    fix s assume "s \<in> set [0..<p]"
    then show "(\<Sum>(v, c)\<leftarrow>MP s ! r. if v = u then c else 0) = lookup_default 0 (MP s ! r) u"
      using sum_lookup [OF mwf(1) [OF _ that], of s "\<lambda>c. c" 0 u] by simp
  qed
  have total: "I2 r ! i + (\<Sum>(v, c)\<leftarrow>T r. if v = hs ! i then c else 0) = hub_edges p r (hs ! i) (concat pre) + hub_edges p r (hs ! i) (concat ch)"
    if r: "r < p" and i: "i < length hs" for r i
  proof -
    have "I2 r ! i + (\<Sum>(v, c)\<leftarrow>T r. if v = hs ! i then c else 0)
        = (\<Sum>s\<leftarrow>[0..<p]. if r = s then I2 s ! i else 0) + (\<Sum>s\<leftarrow>[0..<p]. lookup_default 0 (MP s ! r) (hs ! i))"
      using sums [OF r, of "hs ! i"] sum_single [OF r, of "\<lambda>s. I2 s ! i"] by simp
    also have "\<dots> = (\<Sum>s\<leftarrow>[0..<p]. hub_share s hs (I2 s) (MP s) r i)" by (simp add: hub_share_def sum_list_addf)
    also have "\<dots> = (\<Sum>s\<leftarrow>[0..<p]. (if r = s then I1 s ! i else 0) + hub_edges p r (hs ! i) (ch ! s))"
      by (intro arg_cong [where f = sum_list] map_cong refl) (use r i s2(4) in simp)
    also have "\<dots> = I1 r ! i + hub_edges p r (hs ! i) (concat ch)"
      using sum_single [OF r, of "\<lambda>s. I1 s ! i"] sum_list_nth_upt [OF lens(1), of "\<lambda>xs. hub_edges p r (hs ! i) xs"]
      by (simp add: sum_list_addf hub_edges_concat)
    finally show ?thesis using s1(3) [OF r i] by simp
  qed
  have "\<exists>gs2. each_rank2 (\<lambda>(g, maps_to_send) (to_recv, recvcnts). receive_high_info to_recv g) zs recvs = Some gs2 \<and> length gs2 = p \<and>
    (\<forall>r < p. \<exists>info. gs2 ! r = with_info (gs ! r) info \<and> length info = length hs
       \<and> (\<forall>i < length hs. info ! i = hub_edges p r (hs ! i) (concat (map2 (@) pre ch))))"
  proof (rule each_rank2_rule [OF zs(2)])
    show "length recvs = p" by (simp add: recvs_def)
    fix r assume r: "r < p"
    have keys: "v \<in> set hs" if "(v, c) \<in> set (T r)" for v c
    proof -
      have "\<exists>s < p. (v, c) \<in> set (MP s ! r)" using that by (auto simp: T_def)
      then show ?thesis using mwf(2) [OF _ r] by force
    qed
    obtain info where info: "receive_high_info (high_pairs (T r)) (with_info (gs ! r) (I2 r)) = Some (with_info (gs ! r) info)" "length info = length hs"
      "\<And>i. i < length hs \<Longrightarrow> info ! i = I2 r ! i + (\<Sum>(v, c)\<leftarrow>T r. if v = hs ! i then c else 0)"
      using receive_high [OF gs [OF r] s2(2) [OF r], of "T r"] keys by blast
    have "hub_edges p r v (concat (map2 (@) pre ch)) = hub_edges p r v (concat pre) + hub_edges p r v (concat ch)" for v
      unfolding hub_edges_concat by (rule sum_map2_append) (use ch in \<open>simp_all add: chunk_of_def\<close>)
    then show "\<exists>z. (case zs ! r of (g, maps_to_send) \<Rightarrow> \<lambda>(to_recv, recvcnts). receive_high_info to_recv g) (recvs ! r) = Some z \<and>
      (\<exists>info. z = with_info (gs ! r) info \<and> length info = length hs \<and> (\<forall>i < length hs. info ! i = hub_edges p r (hs ! i) (concat (map2 (@) pre ch))))"
      using s2(1) [OF r] recv [OF r] info total [OF r] by (cases "recvs ! r") auto
  qed
  then obtain gs2 where gs2: "each_rank2 (\<lambda>(g, maps_to_send) (to_recv, recvcnts). receive_high_info to_recv g) zs recvs = Some gs2"
    "hub_counted p hs gs (concat (map2 (@) pre ch)) gs2" unfolding hub_counted_def by blast
  have "list_all (\<lambda>(g, maps_to_send). length maps_to_send = m_mpi_size g) zs"
    using s2(1) mp gs zs(2) by (auto simp: list_all_length hub_tables_def)
  then have "send_high_info M zs = Some gs2" using exch gs2(1) by (simp add: send_high_info_def)
  then show ?thesis using zs(1) gs2(2) by (simp add: count_high_chunk_def)
qed

lemma count_high_degree_edges_eq:
  fixes es :: "'d edge list list"
  assumes M: "mpi_ok M" and p: "length es = p" "0 < p" and gs: "length gs = p" "\<And>r. r < p \<Longrightarrow> hub_tables p r hs (gs ! r)"
    and zero: "\<And>r. r < p \<Longrightarrow> m_delegate_info (gs ! r) = replicate (length hs + 1) 0"
    and sets: "length hubs = p" "\<And>r. r < p \<Longrightarrow> set (hubs ! r) = set hs"
    and c: "0 < edge_chunk_size (hd gs)" "6 * p * edge_chunk_size (hd gs) < 2 ^ 31"
  shows "\<exists>gs'. count_high_degree_edges M es hubs gs = Some gs' \<and> hub_counted p hs gs (concat es) gs'"
proof -
  define gs0 where "gs0 = map (\<lambda>g. g\<lparr>m_edges_high_count := 0\<rparr>) gs"
  have ne: "gs \<noteq> []" using gs(1) p(2) by auto
  have c0: "edge_chunk_size (hd gs0) = edge_chunk_size (hd gs)" using ne by (simp add: gs0_def hd_map)
  have start: "gs0 ! r = with_info (gs ! r) (replicate (length hs) 0)" if "r < p" for r
    using zero [OF that] gs(1) that by (simp add: gs0_def with_info_def replicate_append_same sum_list_replicate)
  have "\<exists>gs'. chunk_loop M (edge_chunk_size (hd gs)) (count_high_chunk M hubs) es gs0 = Some gs' \<and> hub_counted p hs gs (concat es) gs'"
  proof (rule chunk_loop_rule [OF M c(1)])
    show "hub_counted p hs gs (concat (map (\<lambda>_. []) es)) gs0"
      using start gs(1) by (auto simp: hub_counted_def gs0_def concat_eq_Nil_conv [THEN iffD2] intro!: exI [of _ "replicate (length hs) 0"])
    fix pre ch s assume "chunk_of (edge_chunk_size (hd gs)) es pre ch" "hub_counted p hs gs (concat pre) s"
    from count_high_chunk_step [OF M this(1) p gs(2) sets this(2) c(2)]
    show "\<exists>s'. count_high_chunk M hubs ch s = Some s' \<and> hub_counted p hs gs (concat (map2 (@) pre ch)) s'" .
  qed
  then show ?thesis by (simp add: count_high_degree_edges_def Let_def c0 flip: gs0_def)
qed

subsection \<open>Allocating the storage\<close>

lemma initialize_edge_storage_eq:
  assumes "0 < processes_per_node g" "m_delegate_info g = info @ [0]" "m_edges_high_count g = sum_list info"
  shows "initialize_edge_storage g = Some (g\<lparr>m_delegate_targets_size := sum_list info, m_owned_targets_size := m_edges_low_count g,
    m_delegate_targets := replicate (sum_list info) None, m_owned_targets := replicate (m_edges_low_count g) None,
    m_delegate_info := map (\<lambda>k. sum_list (take k info)) [0..<Suc (length info)]\<rparr>)"
proof -
  define g1 where "g1 = g\<lparr>m_delegate_targets_size := sum_list info, m_owned_targets_size := m_edges_low_count g,
    m_delegate_targets := replicate (sum_list info) None, m_owned_targets := replicate (m_edges_low_count g) None\<rparr>"
  define n where "n = Suc (length info)"
  define S where "S k = sum_list (take k info)" for k
  define D where "D k = map S [0..<k] @ drop k (info @ [0])" for k
  have g1: "m_delegate_info g1 = info @ [0]" "m_edges_high_count g1 = sum_list info" using assms by (simp_all add: g1_def)
  have "\<exists>s. fold_opt high_index [0..<n] (0, g1) = Some s \<and> s = (S (length [0..<n]), g1\<lparr>m_delegate_info := D (length [0..<n])\<rparr>)"
  proof (rule fold_opt_rule)
    show "(0, g1) = (S (length []), g1\<lparr>m_delegate_info := D (length [])\<rparr>)" by (simp add: S_def D_def g1(1) [symmetric])
    fix pre i post s assume a: "[0..<n] = pre @ i # post" "s = (S (length pre), g1\<lparr>m_delegate_info := D (length pre)\<rparr>)"
    have i: "i = length pre" and "i < n" using upt_split [OF a(1)] by blast+
    have l: "length (pre @ [i]) = Suc i" by (simp add: i)
    have nth: "D i ! i = (info @ [0]) ! i" using \<open>i < n\<close> by (simp add: D_def nth_append n_def)
    have Suc: "S i + (info @ [0]) ! i = S (Suc i)"
      using \<open>i < n\<close> by (cases "i < length info") (auto simp: S_def nth_append take_Suc_conv_app_nth n_def less_Suc_eq)
    have upd: "(D i)[i := S i] = D (Suc i)"
      using \<open>i < n\<close> by (simp add: D_def list_update_append n_def flip: Cons_nth_drop_Suc)
    have le: "S (Suc i) \<le> sum_list info" unfolding S_def by (metis append_take_drop_id le_add1 sum_list.append)
    have "high_index i (S i, g1\<lparr>m_delegate_info := D i\<rparr>) = Some (S (Suc i), g1\<lparr>m_delegate_info := D (Suc i)\<rparr>)"
      using le g1(2) by (simp add: high_index_def nth Suc upd)
    then show "\<exists>s'. high_index i s = Some s' \<and> s' = (S (length (pre @ [i])), g1\<lparr>m_delegate_info := D (length (pre @ [i]))\<rparr>)"
      unfolding a(2) l i [symmetric] by blast
  qed
  then have f: "map_option snd (fold_opt high_index [0..<n] (0, g1)) = Some (g1\<lparr>m_delegate_info := map S [0..<n]\<rparr>)"
    by (simp add: D_def n_def del: upt_Suc)
  have "initialize_edge_storage g = Some (g1\<lparr>m_delegate_info := map S [0..<n]\<rparr>)"
    unfolding initialize_edge_storage_def
    by (rule in_turns_eq [OF assms(1)])
      (use f assms(2,3) in \<open>simp_all add: Let_def n_def g1_def del: upt_Suc\<close>)
  then show ?thesis unfolding g1_def S_def n_def by simp
qed

subsection \<open>The state before the edges are distributed\<close>

definition same_config :: "delegate_graph \<Rightarrow> delegate_graph \<Rightarrow> bool" where
  "same_config g0 g \<longleftrightarrow> m_mpi_size g = m_mpi_size g0 \<and> m_mpi_rank g = m_mpi_rank g0 \<and> edge_chunk_size g = edge_chunk_size g0
     \<and> processes_per_node g = processes_per_node g0 \<and> node_partitions g = node_partitions g0 \<and> m_max_vertex g = m_max_vertex g0
     \<and> m_global_max_vertex g = m_global_max_vertex g0 \<and> m_delegate_degree_threshold g = m_delegate_degree_threshold g0
     \<and> m_has_edge_data g = m_has_edge_data g0"

text \<open>The edges of the hubs before hub \<open>k\<close> in the array of rank \<open>r\<close>.\<close>

definition high_count :: "nat \<Rightarrow> nat \<Rightarrow> nat list \<Rightarrow> 'd edge list \<Rightarrow> nat \<Rightarrow> nat" where
  "high_count p r hs es k = (\<Sum>v\<leftarrow>take k hs. hub_edges p r v es)"

definition owned_ready :: "nat \<Rightarrow> nat \<Rightarrow> nat \<Rightarrow> nat list \<Rightarrow> 'd edge list \<Rightarrow> delegate_graph \<Rightarrow> bool" where
  "owned_ready p r n hs es g \<longleftrightarrow> length (m_owned_info g) = Suc n
     \<and> (\<forall>j \<le> n. low_csr_idx (m_owned_info g ! j) = low_count p r (set hs) es j)
     \<and> (\<forall>j \<le> n. owned_delegate g j \<longleftrightarrow> j * p + r \<in> set hs)
     \<and> (\<forall>i < length hs. hs ! i mod p = r \<longrightarrow> vi_delegate_id (m_owned_info g ! (hs ! i div p)) = of_nat i)"

definition storage_ready :: "nat \<Rightarrow> nat \<Rightarrow> nat \<Rightarrow> nat list \<Rightarrow> 'd edge list \<Rightarrow> delegate_graph \<Rightarrow> delegate_graph \<Rightarrow> bool" where
  "storage_ready p r n hs es g0 g \<longleftrightarrow> same_config g0 g \<and> hub_tables p r hs g \<and> owned_ready p r n hs es g
     \<and> m_delegate_label g = hs \<and> m_delegate_degree g = replicate (length hs) 0 \<and> m_controller_locators g = []
     \<and> m_owned_info_tracker g = replicate (Suc n) 0
     \<and> m_delegate_info g = map (high_count p r hs es) [0..<Suc (length hs)]
     \<and> m_owned_targets_size g = low_count p r (set hs) es n \<and> m_delegate_targets_size g = high_count p r hs es (length hs)
     \<and> m_owned_targets g = replicate (m_owned_targets_size g) None \<and> m_delegate_targets g = replicate (m_delegate_targets_size g) None"

text \<open>The same before the storage is allocated, when \<open>m_delegate_info\<close> still holds counts.\<close>

definition meta_ready :: "nat \<Rightarrow> nat \<Rightarrow> nat \<Rightarrow> nat list \<Rightarrow> 'd edge list \<Rightarrow> delegate_graph \<Rightarrow> delegate_graph \<Rightarrow> bool" where
  "meta_ready p r n hs es g0 g \<longleftrightarrow> same_config g0 g \<and> hub_tables p r hs g \<and> owned_ready p r n hs es g
     \<and> m_delegate_label g = hs \<and> m_delegate_degree g = replicate (length hs) 0 \<and> m_controller_locators g = []
     \<and> m_owned_info_tracker g = replicate (Suc n) 0
     \<and> m_delegate_info g = map (\<lambda>v. hub_edges p r v es) hs @ [0]
     \<and> m_edges_low_count g = low_count p r (set hs) es n \<and> m_edges_high_count g = high_count p r hs es (length hs)"

lemma allocate_storage_ready:
  assumes "meta_ready p r n hs es g0 g" "0 < processes_per_node g0"
  shows "\<exists>g'. allocate_storage zero (g, ed) = Some (g', if m_has_edge_data g0 then ed_resize zero g' ed else ed)
    \<and> storage_ready p r n hs es g0 g' \<and> m_graph_state g' = EdgeStorageAllocated"
proof -
  define info where "info = map (\<lambda>v. hub_edges p r v es) hs"
  have info: "sum_list (take k info) = high_count p r hs es k" for k by (simp add: info_def high_count_def take_map)
  have sum: "sum_list info = high_count p r hs es (length hs)" using info [of "length hs"] by (simp add: info_def)
  define g' where "g' = g\<lparr>m_delegate_targets_size := sum_list info, m_owned_targets_size := m_edges_low_count g,
    m_delegate_targets := replicate (sum_list info) None, m_owned_targets := replicate (m_edges_low_count g) None,
    m_delegate_info := map (\<lambda>k. sum_list (take k info)) [0..<Suc (length info)]\<rparr>"
  have init: "initialize_edge_storage g = Some g'"
    unfolding g'_def by (rule initialize_edge_storage_eq) (use assms sum in \<open>simp_all add: meta_ready_def same_config_def info_def\<close>)
  have "storage_ready p r n hs es g0 (g'\<lparr>m_graph_state := EdgeStorageAllocated\<rparr>)"
    using assms(1) sum info unfolding storage_ready_def meta_ready_def
    by (simp add: g'_def same_config_def hub_tables_def owned_ready_def owned_delegate_def info_def del: upt_Suc)
  then show ?thesis
    using init assms(1) by (intro exI [of _ "g'\<lparr>m_graph_state := EdgeStorageAllocated\<rparr>"])
      (simp add: allocate_storage_def set_state_def ed_resize_def meta_ready_def same_config_def g'_def)
qed

lemma low_csr_idx_of_nat: "i < 2 ^ 39 \<Longrightarrow> low_csr_idx \<lparr>vi_is_delegate = d, vi_delegate_id = h, vi_low_csr_idx = of_nat i\<rparr> = i"
  by (simp add: low_csr_idx_def unat_of_nat)

text \<open>The hubs in the order of their delegate ids.\<close>

definition hub_ids :: "nat \<Rightarrow> nat \<Rightarrow> nat \<Rightarrow> 'd edge list \<Rightarrow> nat list" where
  "hub_ids p n thr es = sort (all_hubs p n thr es)"

lemma hub_ids_props:
  "distinct (hub_ids p n thr es)" "length (hub_ids p n thr es) = length (all_hubs p n thr es)" "set (hub_ids p n thr es) = set (all_hubs p n thr es)"
  by (simp_all add: hub_ids_def distinct_all_hubs)

lemma rank_meta_data:
  fixes es :: "'d edge list"
  assumes known: "degrees_known p n thr es r g0 g1" and r: "r < p" "p < 2 ^ 21" and thr: "0 < thr" "m_delegate_degree_threshold g0 = thr"
    and small: "length es < 2 ^ 31"
    and g0: "m_mpi_size g0 = p" "m_mpi_rank g0 = r" "0 < processes_per_node g0" "length (m_owned_info g0) = Suc n" "m_edges_low_count g0 = 0"
      "m_map_delegate_locator g0 = []" "m_delegate_label g0 = []" "m_delegate_info g0 = []" "m_delegate_degree g0 = []" "m_controller_locators g0 = []"
      "m_owned_info_tracker g0 = replicate (Suc n) 0"
  shows "\<exists>g3. (initialize_low_meta_data g1 \<bind> initialize_high_meta_data (all_hubs p n thr es)) = Some g3
    \<and> hub_tables p r (hub_ids p n thr es) g3 \<and> m_delegate_info g3 = replicate (length (hub_ids p n thr es) + 1) 0
    \<and> (\<forall>info. info = map (\<lambda>v. hub_edges p r v es) (hub_ids p n thr es) \<longrightarrow> meta_ready p r n (hub_ids p n thr es) es g0 (with_info g3 info))
    \<and> same_config g0 g3"
proof -
  define hs where "hs = hub_ids p n thr es"
  note hs = hub_ids_props [of p n thr es, folded hs_def]
  have p: "0 < p" using r(1) by simp
  have set_hs: "v \<in> set hs \<longleftrightarrow> v div p < n \<and> thr \<le> srcs es v" for v by (simp add: hs(3) set_all_hubs [OF p])
  have len_hs: "length hs < 2 ^ 31" using length_all_hubs [OF p thr(1), of n es] small hs(2) by linarith
  obtain outs ins where g1: "g1 = with_low_count (with_counts g0 outs ins) (low_edges thr outs n)" "length outs = n" "length ins = n"
    "\<And>k. k < n \<Longrightarrow> unat (outs ! k) = srcs es (k * p + r)"
    using known g0(5) unfolding degrees_known_def by auto
  have hub: "i * p + r \<in> set hs \<longleftrightarrow> thr \<le> srcs es (i * p + r)" if "i < n" for i
    using that r(1) by (simp add: set_hs)
  have low: "low_edges thr outs k = low_count p r (set hs) es k" if "k \<le> n" for k
    by (rule low_edges_eq [OF r(1) that]) (simp_all add: g1(4) hub)
  have low39: "low_count p r (set hs) es k < 2 ^ 39" for k using low_count_le [of p r "set hs" es k] small by simp
  define base where "base = map (\<lambda>k. \<lparr>vi_is_delegate = 0, vi_delegate_id = 0, vi_low_csr_idx = of_nat (low_edges thr outs k)\<rparr>) [0..<Suc n]"
  define g2 where "g2 = g1\<lparr>m_owned_info := base\<rparr>"
  have thr1: "m_delegate_degree_threshold g1 = thr" using thr(2) by (simp add: g1(1) with_low_count_def)
  have outs1: "m_local_outgoing_count g1 = outs" "m_local_incoming_count g1 = ins" by (simp_all add: g1(1))
  have info1: "length (m_owned_info g1) = Suc n" using g0(4) by (simp add: g1(1) with_low_count_def with_counts_def)
  have init1: "initialize_low_meta_data g1 = Some g2"
    using initialize_low_meta_data_eq [of g1 n] info1 g1(2,3) low low39 by (simp add: thr1 outs1 g2_def base_def del: upt_Suc)
  have base: "length base = Suc n" "\<And>j. j \<le> n \<Longrightarrow> low_csr_idx (base ! j) = low_count p r (set hs) es j" "\<And>j. j \<le> n \<Longrightarrow> vi_is_delegate (base ! j) = 0"
    using low low39 by (simp_all add: base_def low_csr_idx_of_nat del: upt_Suc)
  have init2: "\<exists>infos. initialize_high_meta_data (all_hubs p n thr es) g2 = Some (g2\<lparr>m_delegate_info := replicate (length (all_hubs p n thr es) + 1) 0,
      m_delegate_degree := replicate (length (all_hubs p n thr es)) 0,
      m_map_delegate_locator := hub_table p (sort (all_hubs p n thr es)) (length (all_hubs p n thr es)), m_delegate_label := sort (all_hubs p n thr es), m_owned_info := infos\<rparr>)
    \<and> tagged p r (sort (all_hubs p n thr es)) (length (all_hubs p n thr es)) (m_owned_info g2) infos"
  proof (rule initialize_high_meta_data_eq)
    show "length (all_hubs p n thr es) \<le> 2 ^ 40" using len_hs hs(2) by simp
    show "v div p < length (m_owned_info g2)" if "v \<in> set (all_hubs p n thr es)" for v
      using that set_hs [of v] hs(3) base(1) by (simp add: g2_def)
  qed (use g0 r distinct_all_hubs in \<open>simp_all add: g2_def g1(1) with_low_count_def with_counts_def\<close>)
  then obtain infos where init2: "initialize_high_meta_data (all_hubs p n thr es) g2 = Some (g2\<lparr>m_delegate_info := replicate (length hs + 1) 0,
      m_delegate_degree := replicate (length hs) 0, m_map_delegate_locator := hub_table p hs (length hs), m_delegate_label := hs, m_owned_info := infos\<rparr>)"
    and tag: "tagged p r hs (length hs) base infos"
    by (auto simp: hs_def hub_ids_def g2_def)
  define g3 where "g3 = g2\<lparr>m_delegate_info := replicate (length hs + 1) 0, m_delegate_degree := replicate (length hs) 0,
    m_map_delegate_locator := hub_table p hs (length hs), m_delegate_label := hs, m_owned_info := infos\<rparr>"
  have f3: "m_mpi_size g3 = p" "m_mpi_rank g3 = r" "m_map_delegate_locator g3 = hub_table p hs (length hs)" "m_delegate_label g3 = hs"
    "m_delegate_degree g3 = replicate (length hs) 0" "m_delegate_info g3 = replicate (length hs + 1) 0" "m_owned_info g3 = infos"
    "m_controller_locators g3 = []" "m_owned_info_tracker g3 = replicate (Suc n) 0" "m_edges_low_count g3 = low_count p r (set hs) es n"
    using g0 low [of n] by (simp_all add: g3_def g2_def g1(1) with_low_count_def with_counts_def)
  have cfg: "same_config g0 g3" by (simp add: same_config_def g3_def g2_def g1(1) with_low_count_def with_counts_def)
  have tables: "hub_tables p r hs g3" using f3 r hs(1) len_hs by (simp add: hub_tables_def)
  have owned: "owned_ready p r n hs es g3"
  proof -
    have csr: "low_csr_idx (infos ! j) = low_count p r (set hs) es j" if "j \<le> n" for j
    proof -
      have "low_csr_idx (infos ! j) = low_csr_idx (base ! j)" using tag that base(1) by (simp add: tagged_def low_csr_idx_def)
      then show ?thesis using base(2) [OF that] by simp
    qed
    have del: "vi_is_delegate (infos ! j) = 1 \<longleftrightarrow> j * p + r \<in> set hs" if "j \<le> n" for j
    proof -
      have "if j * p + r \<in> set hs then vi_is_delegate (infos ! j) = 1 else infos ! j = base ! j"
        using tag that base(1) by (simp add: tagged_def)
      then show ?thesis using base(3) [OF that] by (simp split: if_splits)
    qed
    show ?thesis using csr del tag base(1) by (simp add: owned_ready_def owned_delegate_def f3 tagged_def)
  qed
  have "meta_ready p r n hs es g0 (with_info g3 info)" if "info = map (\<lambda>v. hub_edges p r v es) hs" for info
    using cfg tables owned f3 that unfolding meta_ready_def
    by (simp add: with_info_def same_config_def hub_tables_def owned_ready_def owned_delegate_def high_count_def)
  then show ?thesis using init1 init2 tables f3(6) cfg unfolding hs_def [symmetric] by (simp add: g3_def)
qed

lemma generate_meta_data_ready:
  fixes es :: "'d edge list list"
  assumes M: "mpi_ok M" and ok: "input_ok max_vertex thr c es" and zero: "srcs (concat es) 0 < thr" and p: "length es = p" "p < 2 ^ 21" and ppn: "0 < ppn"
    and n: "n = (max_vertex + p - 1) div p + 1" and gs: "gs = new_graphs p ppn max_vertex thr parts c d" and hs: "hs = hub_ids p n thr (concat es)"
  shows "\<exists>gs'. generate_meta_data M es thr gs = Some gs' \<and> length gs' = p
    \<and> (\<forall>r < p. meta_ready p r n hs (concat es) (gs ! r) (gs' ! r) \<and> m_graph_state (gs' ! r) = MetaDataGenerated)"
proof -
  have ok': "0 < p" "0 < thr" "0 < c" "6 * p * c < 2 ^ 31" "length (concat es) < 2 ^ 31"
    using ok p(1) by (simp_all add: input_ok_def Let_def ac_simps)
  have fit: "edges_fit p n (concat es)" "n \<le> 2 ^ 31" using input_ok_fit [OF ok p(1)] by (simp_all add: n)
  have start: "m_local_outgoing_count (gs ! r) = replicate n 0 \<and> m_local_incoming_count (gs ! r) = replicate n 0" if "r < p" for r
    using that by (simp add: gs new_graphs_def new_graph_def Let_def n)
  have hd: "edge_chunk_size (hd gs) = c" using new_graphs_hd [OF ok'(1)] by (simp add: gs)
  obtain gs1 where gs1: "count_edge_degrees M es thr gs = Some (zip gs1 (replicate p (all_hubs p n thr (concat es))))"
    "length gs1 = p" "\<And>r. r < p \<Longrightarrow> degrees_known p n thr (concat es) r (gs ! r) (gs1 ! r)"
    using count_edge_degrees_eq [OF M p(1) ok'(1) new_graphs_ranks [of p ppn max_vertex thr parts c d, folded gs] start ok'(2) fit(2,1)]
      ok'(3-5) zero unfolding hd by blast
  define A where "A = all_hubs p n thr (concat es)"
  have "\<exists>gs2. each_rank (\<lambda>(g, global_hubs). initialize_low_meta_data g \<bind> initialize_high_meta_data global_hubs) (zip gs1 (replicate p A)) = Some gs2
    \<and> length gs2 = p \<and> (\<forall>r < p. hub_tables p r hs (gs2 ! r) \<and> m_delegate_info (gs2 ! r) = replicate (length hs + 1) 0
      \<and> (\<forall>info. info = map (\<lambda>v. hub_edges p r v (concat es)) hs \<longrightarrow> meta_ready p r n hs (concat es) (gs ! r) (with_info (gs2 ! r) info))
      \<and> same_config (gs ! r) (gs2 ! r))"
  proof (rule each_rank_rule)
    show "length (zip gs1 (replicate p A)) = p" by (simp add: gs1(2))
    fix r assume r: "r < p"
    have g0: "m_mpi_size (gs ! r) = p" "m_mpi_rank (gs ! r) = r" "0 < processes_per_node (gs ! r)" "length (m_owned_info (gs ! r)) = Suc n" "m_edges_low_count (gs ! r) = 0"
      "m_map_delegate_locator (gs ! r) = []" "m_delegate_label (gs ! r) = []" "m_delegate_info (gs ! r) = []" "m_delegate_degree (gs ! r) = []" "m_controller_locators (gs ! r) = []"
      "m_owned_info_tracker (gs ! r) = replicate (Suc n) 0" "m_delegate_degree_threshold (gs ! r) = thr"
      using r ppn by (simp_all add: gs new_graphs_def new_graph_def Let_def n)
    have at: "zip gs1 (replicate p A) ! r = (gs1 ! r, A)" using r gs1(2) by simp
    show "\<exists>z. (case zip gs1 (replicate p A) ! r of (g, global_hubs) \<Rightarrow> initialize_low_meta_data g \<bind> initialize_high_meta_data global_hubs) = Some z
      \<and> hub_tables p r hs z \<and> m_delegate_info z = replicate (length hs + 1) 0
      \<and> (\<forall>info. info = map (\<lambda>v. hub_edges p r v (concat es)) hs \<longrightarrow> meta_ready p r n hs (concat es) (gs ! r) (with_info z info)) \<and> same_config (gs ! r) z"
      using rank_meta_data [OF gs1(3) [OF r] r p(2) ok'(2) g0(12) ok'(5) g0(1-11), folded A_def, folded hs] unfolding at prod.case .
  qed
  then obtain gs2 where gs2: "each_rank (\<lambda>(g, global_hubs). initialize_low_meta_data g \<bind> initialize_high_meta_data global_hubs) (zip gs1 (replicate p A)) = Some gs2"
    "length gs2 = p" "\<And>r. r < p \<Longrightarrow> hub_tables p r hs (gs2 ! r)" "\<And>r. r < p \<Longrightarrow> m_delegate_info (gs2 ! r) = replicate (length hs + 1) 0"
    "\<And>r. r < p \<Longrightarrow> meta_ready p r n hs (concat es) (gs ! r) (with_info (gs2 ! r) (map (\<lambda>v. hub_edges p r v (concat es)) hs))"
    "\<And>r. r < p \<Longrightarrow> same_config (gs ! r) (gs2 ! r)" by blast
  have hd2: "edge_chunk_size (hd gs2) = c"
  proof -
    have "hd gs2 = gs2 ! 0" "hd gs = gs ! 0" using gs2(2) ok'(1) by (simp_all add: hd_conv_nth gs new_graphs_def flip: length_greater_0_conv)
    then show ?thesis using gs2(6) [OF ok'(1)] hd by (simp add: same_config_def)
  qed
  have sets: "length (map snd (zip gs1 (replicate p A))) = p" "set (map snd (zip gs1 (replicate p A)) ! r) = set hs" if "r < p" for r
    using that gs1(2) by (simp_all add: hs A_def hub_ids_props)
  obtain gs3 where gs3: "count_high_degree_edges M es (map snd (zip gs1 (replicate p A))) gs2 = Some gs3" "hub_counted p hs gs2 (concat es) gs3"
    using count_high_degree_edges_eq [OF M p(1) ok'(1) gs2(2,3,4) sets(1) [OF ok'(1)] sets(2)] ok'(3,4) unfolding hd2 by blast
  have ready: "meta_ready p r n hs (concat es) (gs ! r) (gs3 ! r)" if r: "r < p" for r
  proof -
    obtain info where info: "gs3 ! r = with_info (gs2 ! r) info" "length info = length hs" "\<forall>i < length hs. info ! i = hub_edges p r (hs ! i) (concat es)"
      using gs3(2) r unfolding hub_counted_def by blast
    have "info = map (\<lambda>v. hub_edges p r v (concat es)) hs" using info(2,3) by (intro nth_equalityI) simp_all
    then show ?thesis using gs2(5) [OF r] info(1) by simp
  qed
  have state: "meta_ready p r n hs (concat es) g0 (g\<lparr>m_graph_state := s\<rparr>) \<longleftrightarrow> meta_ready p r n hs (concat es) g0 g" for g0 g s r
    by (simp add: meta_ready_def same_config_def hub_tables_def owned_ready_def owned_delegate_def)
  show ?thesis
    using gs1(1) gs2(1) gs3 ready by (intro exI [of _ "map (\<lambda>g. g\<lparr>m_graph_state := MetaDataGenerated\<rparr>) gs3"])
      (simp add: generate_meta_data_def state hub_counted_def flip: A_def)
qed

end
