(* ===== verification/Construction_Fill.thy ===== *)
theory Construction_Fill
  imports Construction_Meta "HOL-Library.Multiset"
begin

section \<open>Filling the edge arrays in rounds\<close>

text \<open>
  Both passes over the edges work the same way.  A pass takes turns, each turn reads the edges in
  chunks, every rank receives the edges meant for it in one turn only and stores them one by one: the
  next free place of an edge's key is the key's offset plus the number stored so far.
\<close>

subsection \<open>Storing by key\<close>

definition key_count :: "('e \<Rightarrow> nat) \<Rightarrow> nat \<Rightarrow> 'e list \<Rightarrow> nat" where
  "key_count key k X = length (filter (\<lambda>e. key e = k) X)"

text \<open>The array holds, from the offset of each key, the values of the elements with that key in order.\<close>

definition filled :: "(nat \<Rightarrow> nat) \<Rightarrow> nat \<Rightarrow> ('e \<Rightarrow> nat) \<Rightarrow> ('e \<Rightarrow> 'v) \<Rightarrow> 'e list \<Rightarrow> 'v list \<Rightarrow> bool" where
  "filled idx n key val X arr \<longleftrightarrow> length arr = idx n
     \<and> (\<forall>k < n. segment (idx k) (key_count key k X) arr = map val (filter (\<lambda>e. key e = k) X))"

text \<open>The offsets leave room for exactly the elements of \<open>T\<close>.\<close>

definition room_for :: "(nat \<Rightarrow> nat) \<Rightarrow> nat \<Rightarrow> ('e \<Rightarrow> nat) \<Rightarrow> 'e multiset \<Rightarrow> bool" where
  "room_for idx n key T \<longleftrightarrow> (\<forall>k < n. idx (Suc k) = idx k + size (filter_mset (\<lambda>e. key e = k) T))"

lemma key_count_simps [simp]: "key_count key k [] = 0" "key_count key k (X @ Y) = key_count key k X + key_count key k Y"
  "key_count key k (e # X) = (if key e = k then 1 else 0) + key_count key k X"
  by (simp_all add: key_count_def)

lemma key_count_mset: "key_count key k X = size (filter_mset (\<lambda>e. key e = k) (mset X))"
  by (simp add: key_count_def flip: mset_filter)

lemma key_count_le: "mset X \<subseteq># T \<Longrightarrow> key_count key k X \<le> size (filter_mset (\<lambda>e. key e = k) T)"
  by (simp add: key_count_mset size_mset_mono multiset_filter_mono)

lemma filled_start: "length arr = idx n \<Longrightarrow> filled idx n key val [] arr"
  by (simp add: filled_def segment_def)

lemma room_mono:
  assumes "room_for idx n key T" "j \<le> k" "k \<le> n"
  shows "idx j \<le> idx k"
  using assms(2,3)
proof (induction k rule: dec_induct)
  case (step k) then show ?case using assms(1) by (force simp: room_for_def)
qed simp

lemma segment_snoc:
  assumes "i + m < length arr"
  shows "segment i (Suc m) (arr[i + m := v]) = segment i m arr @ [v]"
  using assms by (simp add: segment_def take_Suc_conv_app_nth drop_update_swap)

lemma segment_other: "j < i \<or> i + m \<le> j \<Longrightarrow> segment i m (arr[j := v]) = segment i m arr"
  by (auto simp: segment_def drop_update_swap)

lemma filled_step:
  assumes f: "filled idx n key val X arr" and room: "room_for idx n key T" and e: "key e < n" and sub: "mset (X @ [e]) \<subseteq># T"
  shows "idx (key e) + key_count key (key e) X < idx (Suc (key e))" "idx (key e) + key_count key (key e) X < length arr"
    "filled idx n key val (X @ [e]) (arr[idx (key e) + key_count key (key e) X := val e])"
proof -
  let ?i = "idx (key e) + key_count key (key e) X"
  have "key_count key (key e) (X @ [e]) \<le> size (filter_mset (\<lambda>e'. key e' = key e) T)" by (rule key_count_le [OF sub])
  then show less: "?i < idx (Suc (key e))" using room e by (simp add: room_for_def)
  also have "\<dots> \<le> idx n" using room_mono [OF room, of "Suc (key e)" n] e by simp
  finally show len: "?i < length arr" using f by (simp add: filled_def)
  show "filled idx n key val (X @ [e]) (arr[?i := val e])"
    unfolding filled_def
  proof (intro conjI allI impI)
    show "length (arr[?i := val e]) = idx n" using f by (simp add: filled_def)
    fix k assume k: "k < n"
    have old: "segment (idx k) (key_count key k X) arr = map val (filter (\<lambda>e. key e = k) X)" using f k by (simp add: filled_def)
    show "segment (idx k) (key_count key k (X @ [e])) (arr[?i := val e]) = map val (filter (\<lambda>e. key e = k) (X @ [e]))"
    proof (cases "k = key e")
      case True
      then show ?thesis using segment_snoc [OF len, of "val e"] old by simp
    next
      case False
      have "?i < idx k \<or> idx k + key_count key k X \<le> ?i"
      proof (cases "k < key e")
        case True
        have "key_count key k X \<le> size (filter_mset (\<lambda>e'. key e' = k) T)"
          using key_count_le [OF sub, of key k] by simp
        then have "idx k + key_count key k X \<le> idx (Suc k)" using room k by (simp add: room_for_def)
        also have "\<dots> \<le> idx (key e)" using room_mono [OF room, of "Suc k" "key e"] True e by simp
        finally show ?thesis by simp
      next
        case f: False
        have "?i < idx (Suc (key e))" by (rule less)
        also have "\<dots> \<le> idx k" using room_mono [OF room, of "Suc (key e)" k] f False k by simp
        finally show ?thesis by simp
      qed
      then show ?thesis using False old segment_other [of ?i "idx k" "key_count key k X" arr "val e"] by simp
    qed
  qed
qed

text \<open>When everything is stored, the part of a key holds its elements.\<close>

lemma filled_end:
  assumes "filled idx n key val X arr" "room_for idx n key (mset X)" "k < n"
  shows "segment (idx k) (idx (Suc k) - idx k) arr = map val (filter (\<lambda>e. key e = k) X)"
  using assms by (simp add: filled_def room_for_def key_count_mset)

lemma filled_all:
  assumes f: "filled idx n key val X arr" and room: "room_for idx n key (mset X)" and z: "idx 0 = 0" and x: "x \<in> set arr"
  shows "\<exists>e \<in> set X. x = val e"
proof -
  obtain i where i: "i < idx n" "x = arr ! i" using f x by (auto simp: in_set_conv_nth filled_def)
  have "\<exists>k < m. idx k \<le> i \<and> i < idx (Suc k)" if "m \<le> n" "i < idx m" for m
    using that
  proof (induction m)
    case (Suc m) then show ?case by (cases "i < idx m") (auto simp: less_Suc_eq)
  qed (simp add: z)
  from this [of n] i obtain k where k: "k < n" "idx k \<le> i" "i < idx (Suc k)" by auto
  have le: "idx (Suc k) \<le> length arr" using f room_mono [OF room, of "Suc k" n] k(1) by (simp add: filled_def)
  have "segment (idx k) (idx (Suc k) - idx k) arr ! (i - idx k) = x" using k i(2) le by (simp add: segment_def)
  moreover have "i - idx k < length (segment (idx k) (idx (Suc k) - idx k) arr)" using k le by (simp add: segment_def)
  ultimately have "x \<in> set (map val (filter (\<lambda>e. key e = k) X))" using filled_end [OF f room k(1)] by (metis nth_mem)
  then show ?thesis by auto
qed

subsection \<open>Turns and chunks\<close>

text \<open>What rank \<open>r\<close> has been sent when turn \<open>t\<close> has read \<open>pre\<close>, if its own turn is \<open>turn r\<close>.\<close>

definition seen :: "(nat \<Rightarrow> nat) \<Rightarrow> (nat \<Rightarrow> 'e \<Rightarrow> bool) \<Rightarrow> 'e list list \<Rightarrow> nat \<Rightarrow> 'e list list \<Rightarrow> nat \<Rightarrow> 'e multiset" where
  "seen turn sel es t pre r = filter_mset (sel r) (mset (if turn r < t then concat es else if turn r = t then concat pre else []))"

definition due :: "(nat \<Rightarrow> nat) \<Rightarrow> (nat \<Rightarrow> 'e \<Rightarrow> bool) \<Rightarrow> nat \<Rightarrow> 'e list list \<Rightarrow> nat \<Rightarrow> 'e multiset" where
  "due turn sel t ch r = (if turn r = t then filter_mset (sel r) (mset (concat ch)) else {#})"

lemma mset_map2_append: "length xs = length ys \<Longrightarrow> mset (concat (map2 (@) xs ys)) = mset (concat xs) + mset (concat ys)"
  by (induction xs ys rule: list_induct2) simp_all

lemma seen_step: "length pre = length ch \<Longrightarrow> seen turn sel es t (map2 (@) pre ch) r = seen turn sel es t pre r + due turn sel t ch r"
  by (simp add: seen_def due_def mset_map2_append)

lemma seen_next: "seen turn sel es t es r = seen turn sel es (Suc t) (map (\<lambda>_. []) es) r"
  by (simp add: seen_def concat_eq_Nil_conv [THEN iffD2])

lemma seen_le: "mset (concat pre) \<subseteq># mset (concat es) \<Longrightarrow> seen turn sel es t pre r \<subseteq># filter_mset (sel r) (mset (concat es))"
  by (simp add: seen_def multiset_filter_mono)

lemma chunk_of_mset: "chunk_of c es pre ch \<Longrightarrow> mset (concat (map2 (@) pre ch)) \<subseteq># mset (concat es)"
proof -
  assume a: "chunk_of c es pre ch"
  define xs where "xs = map2 (@) pre ch"
  have len: "length xs = length es" using a by (simp add: xs_def chunk_of_def)
  have "\<exists>post. es ! r = xs ! r @ post" if "r < length es" for r using a that by (fastforce simp: chunk_of_def xs_def)
  with len have "mset (concat xs) \<subseteq># mset (concat es)"
  proof (induction xs es rule: list_induct2)
    case (Cons x xs e es)
    obtain post where "e = x @ post" using Cons.prems [of 0] by auto
    moreover have "mset (concat xs) \<subseteq># mset (concat es)" using Cons.IH Cons.prems [of "Suc r" for r] by force
    ultimately show ?case using subset_mset.add_mono [of "{#}" "mset post" "mset (concat xs)" "mset (concat es)"] by simp
  qed simp
  then show ?thesis by (simp add: xs_def)
qed

lemma turns_rule:
  assumes M: "mpi_ok M" and c: "0 < c" and p: "length es = p"
    and start: "length sts = p" "\<And>r. r < p \<Longrightarrow> Q r {#} (sts ! r)"
    and cs: "\<And>sts S. length sts = p \<Longrightarrow> (\<And>r. r < p \<Longrightarrow> Q r (S r) (sts ! r)) \<Longrightarrow> cs sts = c"
    and turn: "\<And>r. r < p \<Longrightarrow> turn r < np"
    and step: "\<And>t ch sts S. length ch = p \<Longrightarrow> (\<And>r. r < p \<Longrightarrow> length (ch ! r) \<le> c) \<Longrightarrow> set (concat ch) \<subseteq> set (concat es) \<Longrightarrow> length sts = p \<Longrightarrow>
      (\<And>r. r < p \<Longrightarrow> Q r (S r) (sts ! r)) \<Longrightarrow> (\<And>r. r < p \<Longrightarrow> S r + due turn sel t ch r \<subseteq># filter_mset (sel r) (mset (concat es))) \<Longrightarrow>
      \<exists>sts'. body t ch sts = Some sts' \<and> length sts' = p \<and> (\<forall>r < p. Q r (S r + due turn sel t ch r) (sts' ! r))"
  shows "\<exists>sts'. fold_opt (\<lambda>t sts. chunk_loop M (cs sts) (body t) es sts) [0..<np] sts = Some sts' \<and> length sts' = p
    \<and> (\<forall>r < p. Q r (filter_mset (sel r) (mset (concat es))) (sts' ! r))"
proof -
  define I where "I t pre sts \<longleftrightarrow> length sts = p \<and> (\<forall>r < p. Q r (seen turn sel es t pre r) (sts ! r))" for t pre sts
  have "\<exists>sts'. fold_opt (\<lambda>t sts. chunk_loop M (cs sts) (body t) es sts) [0..<np] sts = Some sts' \<and> I (length [0..<np]) (map (\<lambda>_. []) es) sts'"
  proof (rule fold_opt_rule)
    have "seen turn sel es 0 (map (\<lambda>_. []) es) r = {#}" for r by (simp add: seen_def concat_eq_Nil_conv [THEN iffD2])
    then show "I (length []) (map (\<lambda>_. []) es) sts" using start by (simp add: I_def)
    fix pre t post sts1 assume a: "[0..<np] = pre @ t # post" "I (length pre) (map (\<lambda>_. []) es) sts1"
    have t: "length pre = t" using upt_split [OF a(1)] by blast
    have "cs sts1 = c" using a(2) cs [of sts1 "seen turn sel es t (map (\<lambda>_. []) es)"] by (simp add: I_def t)
    moreover have "\<exists>sts'. chunk_loop M c (body t) es sts1 = Some sts' \<and> I t es sts'"
    proof (rule chunk_loop_rule [OF M c])
      show "I t (map (\<lambda>_. []) es) sts1" using a(2) by (simp add: t)
      fix pre ch s assume ch: "chunk_of c es pre ch" and s: "I t pre s"
      have len: "length pre = length ch" using ch by (simp add: chunk_of_def)
      have sub: "seen turn sel es t pre r + due turn sel t ch r \<subseteq># filter_mset (sel r) (mset (concat es))" for r
        using seen_le [OF chunk_of_mset [OF ch], of turn sel t r] by (simp add: seen_step [OF len])
      have "set (concat ch) \<subseteq> set (concat es)"
        using set_mset_mono [OF chunk_of_mset [OF ch]] len by (simp add: mset_map2_append flip: set_concat)
      then obtain s' where "body t ch s = Some s'" "length s' = p" "\<forall>r < p. Q r (seen turn sel es t pre r + due turn sel t ch r) (s' ! r)"
        using step [of ch s "seen turn sel es t pre" t] s sub ch p by (auto simp: I_def chunk_of_def)
      then show "\<exists>s'. body t ch s = Some s' \<and> I t (map2 (@) pre ch) s'" by (simp add: I_def seen_step [OF len])
    qed
    ultimately show "\<exists>s'. chunk_loop M (cs sts1) (body t) es sts1 = Some s' \<and> I (length (pre @ [t])) (map (\<lambda>_. []) es) s'"
      by (simp add: t I_def seen_next)
  qed
  then obtain sts' where "fold_opt (\<lambda>t sts. chunk_loop M (cs sts) (body t) es sts) [0..<np] sts = Some sts'" "I np (map (\<lambda>_. []) es) sts'" by auto
  moreover have "seen turn sel es np (map (\<lambda>_. []) es) r = filter_mset (sel r) (mset (concat es))" if "r < p" for r
    using turn [OF that] by (simp add: seen_def)
  ultimately show ?thesis by (intro exI [of _ sts']) (simp add: I_def)
qed

end
