(* ===== verification/Construction_Low.thy ===== *)
theory Construction_Low
  imports Construction_Fill
begin

section \<open>Storing the edges of low degree\<close>

subsection \<open>One rank\<close>

definition low_key :: "delegate_graph \<Rightarrow> 'd edge \<Rightarrow> nat" where
  "low_key g e = fst e div m_mpi_size g"

definition low_offset :: "delegate_graph \<Rightarrow> nat \<Rightarrow> nat" where
  "low_offset g k = low_csr_idx (m_owned_info g ! k)"

definition edge_target :: "delegate_graph \<Rightarrow> 'd edge \<Rightarrow> vertex_locator option" where
  "edge_target g e = label_to_locator g (fst (snd e))"

definition edge_value :: "'d edge \<Rightarrow> 'd" where
  "edge_value e = snd (snd e)"

text \<open>
  The state after \<open>X\<close> has been stored, in that order, into \<open>g1\<close>.  Without edge data there is no data
  array; the statement then speaks of an array nothing depends on.
\<close>

definition low_stored :: "nat \<Rightarrow> delegate_graph \<Rightarrow> 'd edge_data \<Rightarrow> 'd edge list \<Rightarrow> 'd part_state \<Rightarrow> bool" where
  "low_stored n g1 ed1 X st \<longleftrightarrow> (\<exists>trk ts dat. length trk = Suc n \<and> (\<forall>k < n. unat (trk ! k) = key_count (low_key g1) k X)
     \<and> filled (low_offset g1) n (low_key g1) (edge_target g1) X ts \<and> filled (low_offset g1) n (low_key g1) edge_value X dat
     \<and> st = (g1\<lparr>m_owned_info_tracker := trk, m_owned_targets := ts\<rparr>, if m_has_edge_data g1 then ed1\<lparr>m_owned_edge_data := dat\<rparr> else ed1))"

text \<open>The edges \<open>T\<close> that rank has room for.\<close>

definition low_room :: "nat \<Rightarrow> delegate_graph \<Rightarrow> 'd edge multiset \<Rightarrow> bool" where
  "low_room n g1 T \<longleftrightarrow> length (m_owned_info g1) = Suc n \<and> room_for (low_offset g1) n (low_key g1) T \<and> size T < 2 ^ 32
     \<and> (\<forall>e \<in># T. fst e mod m_mpi_size g1 = m_mpi_rank g1 \<and> low_key g1 e < n \<and> edge_target g1 e \<noteq> None)"

lemma label_to_locator_update [simp]:
  "label_to_locator (g\<lparr>m_owned_info_tracker := trk\<rparr>) = label_to_locator g"
  "label_to_locator (g\<lparr>m_owned_targets := ts\<rparr>) = label_to_locator g"
  "label_to_locator (g\<lparr>m_delegate_targets := ts\<rparr>) = label_to_locator g"
  "label_to_locator (g\<lparr>m_delegate_degree := deg\<rparr>) = label_to_locator g"
  by (rule ext, simp add: label_to_locator_def cong: option.case_cong)+

lemma store_low_step:
  assumes st: "low_stored n g1 ed1 X st" and room: "low_room n g1 T" and sub: "mset (X @ [e]) \<subseteq># T"
  shows "\<exists>st'. store_low e st = Some st' \<and> low_stored n g1 ed1 (X @ [e]) st'"
proof -
  obtain trk ts dat where f: "length trk = Suc n" "\<And>k. k < n \<Longrightarrow> unat (trk ! k) = key_count (low_key g1) k X"
    "filled (low_offset g1) n (low_key g1) (edge_target g1) X ts" "filled (low_offset g1) n (low_key g1) edge_value X dat"
    "st = (g1\<lparr>m_owned_info_tracker := trk, m_owned_targets := ts\<rparr>, if m_has_edge_data g1 then ed1\<lparr>m_owned_edge_data := dat\<rparr> else ed1)"
    using st unfolding low_stored_def by blast
  have "e \<in># T" using sub mset_subset_eqD [OF sub, of e] by simp
  then have e: "fst e mod m_mpi_size g1 = m_mpi_rank g1" "low_key g1 e < n" "edge_target g1 e \<noteq> None"
    using room by (auto simp: low_room_def)
  define k where "k = low_key g1 e"
  define loc where "loc = low_offset g1 k + key_count (low_key g1) k X"
  have rf: "room_for (low_offset g1) n (low_key g1) T" using room by (simp add: low_room_def)
  note ft = filled_step [OF f(3) rf e(2) sub, folded k_def, folded loc_def]
  note fd = filled_step [OF f(4) rf e(2) sub, folded k_def, folded loc_def]
  have k: "k < n" "low_key g1 e = k" using e(2) by (simp_all add: k_def)
  obtain t where t: "edge_target g1 e = Some t" using e(3) by blast
  have small: "key_count (low_key g1) k X + 1 < 2 ^ 32"
  proof -
    have "key_count (low_key g1) k (X @ [e]) \<le> size (filter_mset (\<lambda>e. low_key g1 e = k) T)" by (rule key_count_le [OF sub])
    also have "\<dots> \<le> size T" by (simp add: size_mset_mono)
    also have "\<dots> < 2 ^ 32" using room by (simp add: low_room_def)
    finally show ?thesis by (simp add: k(2))
  qed
  define trk' where "trk' = trk[k := trk ! k + 1]"
  have trk': "length trk' = Suc n" "unat (trk' ! j) = key_count (low_key g1) j (X @ [e])" if "j < n" for j
    using f(1) f(2) [OF that] f(2) [OF k(1)] small unat_plus_of_nat [of "trk ! k" 1] that k
    by (auto simp: trk'_def nth_list_update)
  define st' where "st' = (g1\<lparr>m_owned_info_tracker := trk', m_owned_targets := ts[loc := edge_target g1 e]\<rparr>,
    if m_has_edge_data g1 then ed1\<lparr>m_owned_edge_data := dat[loc := edge_value e]\<rparr> else ed1)"
  have "store_low e st = Some st'"
    using e(1) f(1) f(2) [OF k(1)] room k ft(1,2) fd(2) t
    unfolding f(5) st'_def trk'_def loc_def
    by (auto simp: store_low_def Let_def local_source_id_def low_room_def low_key_def low_offset_def edge_target_def edge_value_def add.commute)
  moreover have "low_stored n g1 ed1 (X @ [e]) st'"
    unfolding low_stored_def st'_def using trk' k(1) ft(3) fd(3) by blast
  ultimately show ?thesis by blast
qed

lemma store_low_all:
  assumes "low_stored n g1 ed1 X st" "low_room n g1 T" "mset (X @ Y) \<subseteq># T"
  shows "\<exists>st'. fold_opt store_low Y st = Some st' \<and> low_stored n g1 ed1 (X @ Y) st'"
proof (rule fold_opt_rule [where I = "\<lambda>pre st. low_stored n g1 ed1 (X @ pre) st"])
  show "low_stored n g1 ed1 (X @ []) st" using assms(1) by simp
  fix pre e post s assume a: "Y = pre @ e # post" "low_stored n g1 ed1 (X @ pre) s"
  have "mset ((X @ pre) @ [e]) \<subseteq># mset (X @ Y)" by (simp add: a(1))
  then have "mset ((X @ pre) @ [e]) \<subseteq># T" using assms(3) by (rule subset_mset.order_trans)
  from store_low_step [OF a(2) assms(2) this] show "\<exists>s'. store_low e s = Some s' \<and> low_stored n g1 ed1 (X @ pre @ [e]) s'" by simp
qed

subsection \<open>One chunk\<close>

text \<open>The turn in which a rank is sent its edges, and the low-degree edges it owns.\<close>

definition rank_turn :: "nat \<Rightarrow> nat \<Rightarrow> nat \<Rightarrow> nat" where
  "rank_turn ppn np r = (r mod ppn) mod np"

definition owns_low :: "nat \<Rightarrow> nat set \<Rightarrow> nat \<Rightarrow> 'd edge \<Rightarrow> bool" where
  "owns_low p H r e \<longleftrightarrow> fst e mod p = r \<and> fst e \<notin> H"

text \<open>What both passes need to know about the ranks.\<close>

definition ranks_agree :: "nat \<Rightarrow> nat \<Rightarrow> nat \<Rightarrow> nat \<Rightarrow> nat set \<Rightarrow> delegate_graph list \<Rightarrow> bool" where
  "ranks_agree p ppn np c H gs \<longleftrightarrow> 0 < p \<and> length gs = p \<and> (\<forall>r < p. m_mpi_size (gs ! r) = p \<and> m_mpi_rank (gs ! r) = r \<and> processes_per_node (gs ! r) = ppn
     \<and> node_partitions (gs ! r) = np \<and> edge_chunk_size (gs ! r) = c \<and> (\<forall>v. map_of (m_map_delegate_locator (gs ! r)) v = None \<longleftrightarrow> v \<notin> H))"

definition low_delivered :: "nat \<Rightarrow> delegate_graph list \<Rightarrow> 'd edge_data list \<Rightarrow> nat \<Rightarrow> 'd edge multiset \<Rightarrow> 'd part_state \<Rightarrow> bool" where
  "low_delivered n gs eds r S st \<longleftrightarrow> (\<exists>X. mset X = S \<and> low_stored n (gs ! r) (eds ! r) X st)"

lemma length_concat_le:
  assumes "length xss = p" "\<And>r. r < p \<Longrightarrow> length (xss ! r) \<le> c"
  shows "length (concat xss) \<le> p * c"
proof -
  have "length (concat xss) = (\<Sum>xs\<leftarrow>xss. length xs)" by (simp add: length_concat)
  also have "\<dots> \<le> (\<Sum>xs\<leftarrow>xss. c)" using assms by (intro sum_list_mono) (auto simp: in_set_conv_nth)
  finally show ?thesis using assms(1) by (simp add: sum_list_triv)
qed

lemma low_stored_fields:
  assumes "low_stored n g1 ed1 X st"
  shows "m_mpi_size (fst st) = m_mpi_size g1" "processes_per_node (fst st) = processes_per_node g1" "node_partitions (fst st) = node_partitions g1"
    "edge_chunk_size (fst st) = edge_chunk_size g1" "m_map_delegate_locator (fst st) = m_map_delegate_locator g1"
  using assms by (auto simp: low_stored_def)

lemma partition_low_chunk_step:
  fixes ch :: "('d :: linorder) edge list list"
  assumes M: "mpi_ok ME" and gs: "ranks_agree p ppn np c H gs" and room: "\<And>r. r < p \<Longrightarrow> low_room n (gs ! r) (T r)"
    and sz: "0 < sz" "sz * p * c < 2 ^ 31"
    and ch: "length ch = p" "\<And>r. r < p \<Longrightarrow> length (ch ! r) \<le> c" and sts: "length sts = p" "\<And>r. r < p \<Longrightarrow> low_delivered n gs eds r (S r) (sts ! r)"
    and sub: "\<And>r. r < p \<Longrightarrow> S r + due (rank_turn ppn np) (owns_low p H) t ch r \<subseteq># T r"
  shows "\<exists>sts'. partition_low_chunk ME sz zero t ch sts = Some sts' \<and> length sts' = p
    \<and> (\<forall>r < p. low_delivered n gs eds r (S r + due (rank_turn ppn np) (owns_low p H) t ch r) (sts' ! r))"
proof -
  define P where "P = (\<lambda>e :: 'd edge. rank_turn ppn np (fst e mod p) = t \<and> fst e \<notin> H)"
  define send where "send = map2 (\<lambda>chunk st. low_to_send t (fst st) chunk) ch sts"
  have g: "m_mpi_size (fst (sts ! r)) = p" "low_to_send t (fst (sts ! r)) = filter P" if r: "r < p" for r
  proof -
    obtain X where X: "low_stored n (gs ! r) (eds ! r) X (sts ! r)" using sts(2) [OF r] by (auto simp: low_delivered_def)
    show "m_mpi_size (fst (sts ! r)) = p" "low_to_send t (fst (sts ! r)) = filter P"
      using gs r low_stored_fields [OF X] by (simp_all add: ranks_agree_def low_to_send_def P_def rank_turn_def fun_eq_iff)
  qed
  have p: "0 < p" using gs by (simp add: ranks_agree_def)
  have send_eq: "send = map (filter P) ch" unfolding send_def using g(2) ch(1) sts(1) by (intro nth_equalityI) simp_all
  have owners: "map (\<lambda>st. edge_source_partitioner (m_mpi_size (fst st))) sts ! r = (edge_source_partitioner p :: ('d edge, unit) partitioner_fun)" if "r < p" for r
    using that g(1) sts(1) by simp
  have "length (concat send) \<le> p * c"
    unfolding send_eq filter_concat [symmetric] using length_concat_le [OF ch] length_filter_le le_trans by blast
  then have "sz * length (concat send) \<le> sz * (p * c)" by (rule mult_le_mono2)
  then have fits: "fits_int (sz * length (concat send))" using sz(2) unfolding fits_int_def mult.assoc by (rule le_less_trans)
  have part: "partitioner (map (\<lambda>st. edge_source_partitioner (m_mpi_size (fst st))) sts ! r) (\<lambda>e :: 'd edge. fst e mod p) () p" if "r < p" for r
    using owners [OF that] by_source.partitioner_axioms [of p "()"] by simp
  note better = mpi_all_to_all_better_parts [OF M _ p sz(1) _ fits]
  have units: "map (\<lambda>st. ()) sts = replicate p ()" using sts(1) by (simp add: map_replicate_const)
  have ex: "mpi_all_to_all_better ME (map (\<lambda>st. edge_source_partitioner (m_mpi_size (fst st))) sts) sz (0, 0, zero) send (map (\<lambda>st. ()) sts)
    = Some (map (\<lambda>r. part_of (\<lambda>e. fst e mod p) r (concat send)) [0..<p], replicate p ())"
    unfolding units by (rule better) (use ch(1) part in \<open>simp_all add: send_eq\<close>)
  define recv where "recv r = part_of (\<lambda>e. fst e mod p) r (concat send)" for r
  have mset_recv: "mset (sort (recv r)) = due (rank_turn ppn np) (owns_low p H) t ch r" for r
  proof -
    have "recv r = filter (\<lambda>e. P e \<and> fst e mod p = r) (concat ch)"
      by (simp add: recv_def part_of_def send_eq conj_commute flip: filter_concat)
    also have "\<dots> = (if rank_turn ppn np r = t then filter (owns_low p H r) (concat ch) else [])"
      by (auto simp: P_def owns_low_def filter_empty_conv intro: filter_cong)
    finally show ?thesis by (simp add: due_def)
  qed
  have "\<exists>zs. each_rank2 (\<lambda>recv st. fold_opt store_low (sort recv) st) (map recv [0..<p]) sts = Some zs \<and> length zs = p
    \<and> (\<forall>r < p. low_delivered n gs eds r (S r + due (rank_turn ppn np) (owns_low p H) t ch r) (zs ! r))"
  proof (rule each_rank2_rule)
    fix r assume r: "r < p"
    obtain X where X: "mset X = S r" "low_stored n (gs ! r) (eds ! r) X (sts ! r)" using sts(2) [OF r] by (auto simp: low_delivered_def)
    have m: "mset (X @ sort (recv r)) = S r + due (rank_turn ppn np) (owns_low p H) t ch r" using X(1) mset_recv [of r] by simp
    have "\<exists>st'. fold_opt store_low (sort (recv r)) (sts ! r) = Some st' \<and> low_stored n (gs ! r) (eds ! r) (X @ sort (recv r)) st'"
      by (rule store_low_all [OF X(2) room [OF r]]) (use m sub [OF r] in simp)
    then show "\<exists>z. fold_opt store_low (sort (map recv [0..<p] ! r)) (sts ! r) = Some z
        \<and> low_delivered n gs eds r (S r + due (rank_turn ppn np) (owns_low p H) t ch r) z"
      using r m unfolding low_delivered_def by (auto simp del: mset_append intro!: exI [of _ "X @ sort (recv r)"])
  qed (simp_all add: sts(1))
  then show ?thesis using ex unfolding partition_low_chunk_def by (simp add: recv_def [abs_def] flip: send_def)
qed

lemma partition_low_degree_all:
  fixes es :: "('d :: linorder) edge list list"
  assumes M: "mpi_ok M" "mpi_ok ME" and gs: "ranks_agree p ppn np c H gs" and pos: "0 < c" "0 < np" and es: "length es = p"
    and room: "\<And>r. r < p \<Longrightarrow> low_room n (gs ! r) (filter_mset (owns_low p H r) (mset (concat es)))"
    and sz: "0 < sz" "sz * p * c < 2 ^ 31"
    and sts: "length sts = p" "\<And>r. r < p \<Longrightarrow> low_stored n (gs ! r) (eds ! r) [] (sts ! r)"
  shows "\<exists>sts'. partition_low_degree M ME sz zero es sts = Some sts' \<and> length sts' = p
    \<and> (\<forall>r < p. low_delivered n gs eds r (filter_mset (owns_low p H r) (mset (concat es))) (sts' ! r))"
proof -
  have p: "0 < p" using gs by (simp add: ranks_agree_def)
  have hd: "fst (hd sts1) = fst (sts1 ! 0)" "low_delivered n gs eds 0 (S 0) (sts1 ! 0)"
    if "length sts1 = p" "\<And>r. r < p \<Longrightarrow> low_delivered n gs eds r (S r) (sts1 ! r)" for sts1 :: "'d part_state list" and S
    using that p by (auto simp: hd_conv_nth)
  have sizes: "edge_chunk_size (fst (hd sts1)) = c \<and> node_partitions (fst (hd sts1)) = np"
    if s: "length sts1 = p" "\<And>r. r < p \<Longrightarrow> low_delivered n gs eds r (S r) (sts1 ! r)" for sts1 :: "'d part_state list" and S
  proof -
    obtain X where X: "low_stored n (gs ! 0) (eds ! 0) X (sts1 ! 0)" using hd(2) [where S = S, OF s] by (auto simp: low_delivered_def)
    then show ?thesis using low_stored_fields [OF X] hd(1) [where S = S, OF s] gs p by (simp add: ranks_agree_def)
  qed
  have start: "low_delivered n gs eds r {#} (sts ! r)" if "r < p" for r
    using sts(2) [OF that] by (auto simp: low_delivered_def)
  have np: "node_partitions (fst (hd sts)) = np" using sizes [of sts "\<lambda>_. {#}"] sts(1) start by simp
  show ?thesis
    unfolding partition_low_degree_def np
  proof (rule turns_rule [OF M(1) pos(1) es sts(1), where Q = "low_delivered n gs eds" and turn = "rank_turn ppn np" and sel = "owns_low p H"])
    show "edge_chunk_size (fst (hd sts1)) = c" if "length sts1 = p" "\<And>r. r < p \<Longrightarrow> low_delivered n gs eds r (S r) (sts1 ! r)" for sts1 S
      using sizes [OF that] by simp
    show "rank_turn ppn np r < np" for r using pos(2) by (simp add: rank_turn_def)
    fix t ch sts1 S
    assume a: "length ch = p" "\<And>r. r < p \<Longrightarrow> length (ch ! r) \<le> c" "length sts1 = p" "\<And>r. r < p \<Longrightarrow> low_delivered n gs eds r (S r) (sts1 ! r)"
      "\<And>r. r < p \<Longrightarrow> S r + due (rank_turn ppn np) (owns_low p H) t ch r \<subseteq># filter_mset (owns_low p H r) (mset (concat es))"
    show "\<exists>sts'. partition_low_chunk ME sz zero t ch sts1 = Some sts' \<and> length sts' = p
      \<and> (\<forall>r < p. low_delivered n gs eds r (S r + due (rank_turn ppn np) (owns_low p H) t ch r) (sts' ! r))"
      by (rule partition_low_chunk_step [OF M(2) gs room sz a]) assumption
  qed (use start in simp)
qed

end
