(* ===== verification/Construction_High.thy ===== *)
theory Construction_High
  imports Construction_Low
begin

section \<open>Storing the edges of the hubs\<close>

subsection \<open>One rank\<close>

definition high_offset :: "delegate_graph \<Rightarrow> nat \<Rightarrow> nat" where
  "high_offset g k = m_delegate_info g ! k"

text \<open>The state after the hub edges \<open>X\<close>, whose sources are delegate ids, have been stored.\<close>

definition high_stored :: "nat \<Rightarrow> delegate_graph \<Rightarrow> 'd edge_data \<Rightarrow> 'd edge list \<Rightarrow> 'd part_state \<Rightarrow> bool" where
  "high_stored m g1 ed1 X st \<longleftrightarrow> (\<exists>deg ts dat. length deg = m \<and> (\<forall>k < m. deg ! k = key_count fst k X)
     \<and> filled (high_offset g1) m fst (edge_target g1) X ts \<and> filled (high_offset g1) m fst edge_value X dat
     \<and> st = (g1\<lparr>m_delegate_degree := deg, m_delegate_targets := ts\<rparr>, if m_has_edge_data g1 then ed1\<lparr>m_delegate_edge_data := dat\<rparr> else ed1))"

definition high_room :: "nat \<Rightarrow> delegate_graph \<Rightarrow> 'd edge multiset \<Rightarrow> bool" where
  "high_room m g1 T \<longleftrightarrow> length (m_delegate_info g1) = Suc m \<and> m_delegate_targets_size g1 = high_offset g1 m \<and> room_for (high_offset g1) m fst T
     \<and> (\<forall>e \<in># T. fst e < m \<and> (case edge_target g1 e of None \<Rightarrow> False | Some l \<Rightarrow> owner l < m_mpi_size g1))"

lemma store_high_step:
  assumes st: "high_stored m g1 ed1 X st" and room: "high_room m g1 T" and sub: "mset (X @ [e]) \<subseteq># T"
  shows "\<exists>st'. store_high b [] e (st, []) = Some (st', []) \<and> high_stored m g1 ed1 (X @ [e]) st'"
proof -
  obtain deg ts dat where f: "length deg = m" "\<And>k. k < m \<Longrightarrow> deg ! k = key_count fst k X"
    "filled (high_offset g1) m fst (edge_target g1) X ts" "filled (high_offset g1) m fst edge_value X dat"
    "st = (g1\<lparr>m_delegate_degree := deg, m_delegate_targets := ts\<rparr>, if m_has_edge_data g1 then ed1\<lparr>m_delegate_edge_data := dat\<rparr> else ed1)"
    using st unfolding high_stored_def by blast
  have "e \<in># T" using sub mset_subset_eqD [OF sub, of e] by simp
  then obtain t where e: "fst e < m" "edge_target g1 e = Some t" "owner t < m_mpi_size g1"
    using room by (auto simp: high_room_def split: option.splits)
  define k where "k = fst e"
  define loc where "loc = high_offset g1 k + key_count fst k X"
  have rf: "room_for (high_offset g1) m fst T" using room by (simp add: high_room_def)
  note ft = filled_step [OF f(3) rf e(1) sub, folded k_def, folded loc_def]
  note fd = filled_step [OF f(4) rf e(1) sub, folded k_def, folded loc_def]
  have k: "k < m" "fst e = k" using e(1) by (simp_all add: k_def)
  define deg' where "deg' = deg[k := deg ! k + 1]"
  have deg': "length deg' = m" "deg' ! j = key_count fst j (X @ [e])" if "j < m" for j
    using f(1) f(2) [OF that] f(2) [OF k(1)] that k by (auto simp: deg'_def nth_list_update)
  define st' where "st' = (g1\<lparr>m_delegate_degree := deg', m_delegate_targets := ts[loc := edge_target g1 e]\<rparr>,
    if m_has_edge_data g1 then ed1\<lparr>m_delegate_edge_data := dat[loc := edge_value e]\<rparr> else ed1)"
  have size: "loc < m_delegate_targets_size g1" using ft(2) f(3) room by (simp add: filled_def high_room_def)
  have at: "deg ! k + m_delegate_info g1 ! k = loc" using f(2) [OF k(1)] by (simp add: loc_def high_offset_def)
  have below: "loc < m_delegate_info g1 ! Suc k" using ft(1) by (simp add: high_offset_def)
  have "store_high b [] e (st, []) = Some (st', [])"
    using f(1) room k ft(2) fd(2) e(2,3) size at below
    unfolding f(5) st'_def deg'_def
    by (auto simp: store_high_def place_high_def Let_def high_room_def edge_target_def edge_value_def)
  moreover have "high_stored m g1 ed1 (X @ [e]) st'"
    unfolding high_stored_def st'_def using deg' k(1) ft(3) fd(3) by blast
  ultimately show ?thesis by blast
qed

lemma store_high_all:
  fixes Y :: "'d edge list"
  assumes "high_stored m g1 ed1 X st" "high_room m g1 T" "mset (X @ Y) \<subseteq># T"
  shows "\<exists>st'. fold_opt (store_high b []) Y (st, []) = Some (st', []) \<and> high_stored m g1 ed1 (X @ Y) st'"
proof -
  have "\<exists>s. fold_opt (store_high b []) Y (st, []) = Some s \<and> (\<exists>st'. s = (st', []) \<and> high_stored m g1 ed1 (X @ Y) st')"
  proof (rule fold_opt_rule [where I = "\<lambda>pre s. \<exists>st'. s = (st', []) \<and> high_stored m g1 ed1 (X @ pre) st'"])
    show "\<exists>st'. (st, []) = (st', []) \<and> high_stored m g1 ed1 (X @ []) st'" using assms(1) by simp
    fix pre e post and s :: "'d part_state \<times> 'd edge list" assume a: "Y = pre @ e # post" "\<exists>st'. s = (st', []) \<and> high_stored m g1 ed1 (X @ pre) st'"
    then obtain st1 where s: "s = (st1, [])" "high_stored m g1 ed1 (X @ pre) st1" by blast
    have "mset ((X @ pre) @ [e]) \<subseteq># mset (X @ Y)" by (simp add: a(1))
    then have "mset ((X @ pre) @ [e]) \<subseteq># T" using assms(3) by (rule subset_mset.order_trans)
    from store_high_step [OF s(2) assms(2) this]
    show "\<exists>s'. store_high b [] e s = Some s' \<and> (\<exists>st'. s' = (st', []) \<and> high_stored m g1 ed1 (X @ pre @ [e]) st')" by (simp add: s(1))
  qed
  then show ?thesis by blast
qed

subsection \<open>One exchange\<close>

definition hub_edge :: "'d \<Rightarrow> (nat \<times> vertex_locator) list \<Rightarrow> bool \<Rightarrow> 'd edge \<Rightarrow> 'd edge" where
  "hub_edge zero tab has_data e = (local_id (the (map_of tab (fst e))), fst (snd e), if has_data then snd (snd e) else zero)"

definition owns_high :: "nat \<Rightarrow> nat set \<Rightarrow> nat \<Rightarrow> 'd edge \<Rightarrow> bool" where
  "owns_high p H r e \<longleftrightarrow> fst (snd e) mod p = r \<and> fst e \<in> H"

definition high_delivered ::
  "'d \<Rightarrow> (nat \<times> vertex_locator) list \<Rightarrow> bool \<Rightarrow> nat \<Rightarrow> delegate_graph list \<Rightarrow> 'd edge_data list \<Rightarrow> nat \<Rightarrow> 'd edge multiset \<Rightarrow> 'd high_state \<Rightarrow> bool" where
  "high_delivered zero tab has_data m gs eds r S hst \<longleftrightarrow> (\<exists>X st. mset X = image_mset (hub_edge zero tab has_data) S
     \<and> hst = (st, [], []) \<and> high_stored m (gs ! r) (eds ! r) X st)"

text \<open>The table and the flag are the same on all ranks, and the table lists delegate ids below \<open>m\<close>.\<close>

definition tables_agree :: "(nat \<times> vertex_locator) list \<Rightarrow> bool \<Rightarrow> nat \<Rightarrow> nat \<Rightarrow> delegate_graph list \<Rightarrow> bool" where
  "tables_agree tab has_data m p gs \<longleftrightarrow> (\<forall>v l. map_of tab v = Some l \<longrightarrow> local_id l < m)
     \<and> (\<forall>r < p. m_map_delegate_locator (gs ! r) = tab \<and> m_has_edge_data (gs ! r) = has_data \<and> length (m_delegate_info (gs ! r)) = Suc m)"

lemma high_stored_fields:
  assumes "high_stored m g1 ed1 X st"
  shows "m_mpi_size (fst st) = m_mpi_size g1" "m_mpi_rank (fst st) = m_mpi_rank g1" "processes_per_node (fst st) = processes_per_node g1"
    "node_partitions (fst st) = node_partitions g1" "edge_chunk_size (fst st) = edge_chunk_size g1"
    "m_map_delegate_locator (fst st) = m_map_delegate_locator g1" "m_delegate_info (fst st) = m_delegate_info g1" "m_has_edge_data (fst st) = m_has_edge_data g1"
  using assms by (auto simp: high_stored_def)

lemma high_to_send_all:
  assumes "\<And>v l. map_of (m_map_delegate_locator g) v = Some l \<Longrightarrow> local_id l < length (m_delegate_info g) - 1"
    and H: "\<And>v. map_of (m_map_delegate_locator g) v = None \<longleftrightarrow> v \<notin> H"
  shows "fold_opt (high_to_send zero t g) xs l = Some (l @ map (hub_edge zero (m_map_delegate_locator g) (m_has_edge_data g))
    (filter (\<lambda>e. rank_turn (processes_per_node g) (node_partitions g) (fst (snd e) mod m_mpi_size g) = t \<and> fst e \<in> H) xs))"
proof (induction xs arbitrary: l)
  case Nil then show ?case by simp
next
  case (Cons e xs)
  show ?case
  proof (cases "map_of (m_map_delegate_locator g) (fst e)")
    case None
    then show ?thesis using Cons.IH H [of "fst e"] by (simp add: high_to_send_def Let_def)
  next
    case (Some d)
    then show ?thesis using Cons.IH H [of "fst e"] assms(1) [OF Some] by (simp add: high_to_send_def Let_def hub_edge_def rank_turn_def)
  qed
qed

text \<open>An exchange of what the ranks hold in \<open>sends\<close>; nothing is left to send afterwards.\<close>

lemma exchange_high_all:
  fixes sts :: "('d :: linorder) high_state list"
  assumes M: "mpi_ok ME" and gs: "\<And>r. r < p \<Longrightarrow> m_mpi_size (gs ! r) = p \<and> m_mpi_rank (gs ! r) = r" and room: "\<And>r. r < p \<Longrightarrow> high_room m (gs ! r) (T r)"
    and p: "0 < p" "length sts = p" "length sends = p" and sz: "0 < sz" "fits_int (sz * length (concat sends))"
    and sts: "\<And>r. r < p \<Longrightarrow> \<exists>st. sts ! r = (st, sends ! r, []) \<and> high_stored m (gs ! r) (eds ! r) (X r) st"
    and sub: "\<And>r. r < p \<Longrightarrow> mset (X r) + mset (part_of (\<lambda>e. fst (snd e) mod p) r (concat sends)) \<subseteq># T r"
  shows "\<exists>sts'. exchange_high ME sz zero b sts = Some sts' \<and> length sts' = p
    \<and> (\<forall>r < p. \<exists>st. sts' ! r = (st, [], []) \<and> high_stored m (gs ! r) (eds ! r) (X r @ sort (part_of (\<lambda>e. fst (snd e) mod p) r (concat sends))) st)"
proof -
  define owners where "owners = map (\<lambda>((g, ed), _). high_edge_partitioner (m_mpi_size g) (m_mpi_rank g) :: ('d edge, transfer_info) partitioner_fun) sts"
  define recv where "recv r = part_of (\<lambda>e :: 'd edge. fst (snd e) mod p) r (concat sends)" for r
  have own: "owners ! r = high_edge_partitioner p r" if r: "r < p" for r
  proof -
    obtain st where s: "sts ! r = (st, sends ! r, [])" "high_stored m (gs ! r) (eds ! r) (X r) st" using sts [OF r] by blast
    have "m_mpi_size (fst st) = p" "m_mpi_rank (fst st) = r" using high_stored_fields(1,2) [OF s(2)] gs [OF r] by simp_all
    then show ?thesis using r p(2) s(1) by (simp add: owners_def split_beta)
  qed
  have part: "partitioner (owners ! r) (\<lambda>e. fst (snd e) mod p) [] p" if "r < p" for r
    using own [OF that] by_target.partitioner_axioms [of p r] by simp
  have sent: "fst (snd (sts ! r)) = sends ! r" "snd (snd (sts ! r)) = []" if "r < p" for r
    using sts [OF that] by auto
  have to_send: "map (\<lambda>(_, to_send, _). to_send) sts = sends"
    using p(2,3) sent(1) by (intro nth_equalityI) (simp_all add: split_beta)
  have tis: "map (\<lambda>(_, _, ti). ti) sts = replicate p []"
    using p(2) sent(2) by (intro nth_equalityI) (simp_all add: split_beta)
  note better = mpi_all_to_all_better_parts [OF M p(3) [symmetric] p(1) sz(1) part sz(2)]
  have ex: "mpi_all_to_all_better ME owners sz (0, 0, zero) sends (replicate p []) = Some (map recv [0..<p], replicate p [])"
    unfolding recv_def by (rule better)
  have "\<exists>zs. each_rank2 (\<lambda>(recv, ti) (st, _, _). map_option (\<lambda>(st, to_send). (st, to_send, ti)) (fold_opt (store_high b ti) (sort recv) (st, [])))
      (zip (map recv [0..<p]) (replicate p [])) sts = Some zs \<and> length zs = p
    \<and> (\<forall>r < p. \<exists>st. zs ! r = (st, [], []) \<and> high_stored m (gs ! r) (eds ! r) (X r @ sort (recv r)) st)"
  proof (rule each_rank2_rule)
    fix r assume r: "r < p"
    obtain st where s: "sts ! r = (st, sends ! r, [])" "high_stored m (gs ! r) (eds ! r) (X r) st" using sts [OF r] by blast
    have "\<exists>st'. fold_opt (store_high b []) (sort (recv r)) (st, []) = Some (st', []) \<and> high_stored m (gs ! r) (eds ! r) (X r @ sort (recv r)) st'"
      by (rule store_high_all [OF s(2) room [OF r]]) (use sub [OF r] in \<open>simp add: recv_def\<close>)
    then show "\<exists>z. (case zip (map recv [0..<p]) (replicate p []) ! r of (recv, ti) \<Rightarrow> \<lambda>(st, _, _). map_option (\<lambda>(st, to_send). (st, to_send, ti)) (fold_opt (store_high b ti) (sort recv) (st, []))) (sts ! r) = Some z
      \<and> (\<exists>st. z = (st, [], []) \<and> high_stored m (gs ! r) (eds ! r) (X r @ sort (recv r)) st)"
      using r s(1) by auto
  qed (simp_all add: p(2))
  then show ?thesis unfolding exchange_high_def to_send tis owners_def [symmetric] using ex by (simp add: recv_def [abs_def])
qed

subsection \<open>All rounds\<close>

lemma partition_high_chunk_step:
  fixes ch :: "('d :: linorder) edge list list"
  assumes M: "mpi_ok ME" and gs: "ranks_agree p ppn np c H gs" and tabs: "tables_agree tab has_data m p gs" and room: "\<And>r. r < p \<Longrightarrow> high_room m (gs ! r) (T r)"
    and sz: "0 < sz" "sz * p * c < 2 ^ 31"
    and ch: "length ch = p" "\<And>r. r < p \<Longrightarrow> length (ch ! r) \<le> c"
    and sts: "length sts = p" "\<And>r. r < p \<Longrightarrow> high_delivered zero tab has_data m gs eds r (S r) (sts ! r)"
    and sub: "\<And>r. r < p \<Longrightarrow> image_mset (hub_edge zero tab has_data) (S r + due (rank_turn ppn np) (owns_high p H) t ch r) \<subseteq># T r"
  shows "\<exists>sts'. partition_high_chunk ME sz zero t ch sts = Some sts' \<and> length sts' = p
    \<and> (\<forall>r < p. high_delivered zero tab has_data m gs eds r (S r + due (rank_turn ppn np) (owns_high p H) t ch r) (sts' ! r))"
proof -
  define P where "P = (\<lambda>e :: 'd edge. rank_turn ppn np (fst (snd e) mod p) = t \<and> fst e \<in> H)"
  define hub where "hub = hub_edge zero tab has_data"
  define sends where "sends = map (\<lambda>xs. map hub (filter P xs)) ch"
  have p: "0 < p" using gs by (simp add: ranks_agree_def)
  have "\<exists>X st. mset X = image_mset hub (S r) \<and> sts ! r = (st, [], []) \<and> high_stored m (gs ! r) (eds ! r) X st" if "r < p" for r
    using sts(2) [OF that] by (simp add: high_delivered_def hub_def)
  then obtain X where X: "\<And>r. r < p \<Longrightarrow> mset (X r) = image_mset hub (S r) \<and> (\<exists>st. sts ! r = (st, [], []) \<and> high_stored m (gs ! r) (eds ! r) (X r) st)"
    by metis
  have "\<exists>zs. each_rank2 (\<lambda>chunk ((g, ed), to_send, ti). map_option (\<lambda>to_send. ((g, ed), to_send, ti)) (fold_opt (high_to_send zero t g) chunk to_send)) ch sts = Some zs
    \<and> length zs = p \<and> (\<forall>r < p. \<exists>st. zs ! r = (st, sends ! r, []) \<and> high_stored m (gs ! r) (eds ! r) (X r) st)"
  proof (rule each_rank2_rule [OF ch(1) sts(1)])
    fix r assume r: "r < p"
    obtain st where st: "sts ! r = (st, [], [])" "high_stored m (gs ! r) (eds ! r) (X r) st" using X [OF r] by blast
    obtain g ed where ged: "st = (g, ed)" by fastforce
    note f = high_stored_fields [OF st(2), unfolded ged fst_conv]
    have g: "m_mpi_size g = p" "m_map_delegate_locator g = tab" "m_has_edge_data g = has_data" "processes_per_node g = ppn" "node_partitions g = np" "length (m_delegate_info g) = Suc m"
      using f gs tabs r by (simp_all add: ranks_agree_def tables_agree_def)
    have H: "map_of (m_map_delegate_locator g) v = None \<longleftrightarrow> v \<notin> H" for v using f(6) gs r by (simp add: ranks_agree_def)
    have ids: "local_id l < length (m_delegate_info g) - 1" if "map_of (m_map_delegate_locator g) v = Some l" for v l
      using tabs that g by (simp add: tables_agree_def)
    have "fold_opt (high_to_send zero t g) (ch ! r) [] = Some (sends ! r)"
      using high_to_send_all [OF ids H, where zero = zero and t = t and l = "[]"] g r ch(1) by (simp add: sends_def P_def hub_def)
    then show "\<exists>z. (\<lambda>((g, ed), to_send, ti). map_option (\<lambda>to_send. ((g, ed), to_send, ti)) (fold_opt (high_to_send zero t g) (ch ! r) to_send)) (sts ! r) = Some z
      \<and> (\<exists>st. z = (st, sends ! r, []) \<and> high_stored m (gs ! r) (eds ! r) (X r) st)"
      using st by (simp add: ged)
  qed
  then obtain zs where zs: "each_rank2 (\<lambda>chunk ((g, ed), to_send, ti). map_option (\<lambda>to_send. ((g, ed), to_send, ti)) (fold_opt (high_to_send zero t g) chunk to_send)) ch sts = Some zs"
    "length zs = p" "\<And>r. r < p \<Longrightarrow> \<exists>st. zs ! r = (st, sends ! r, []) \<and> high_stored m (gs ! r) (eds ! r) (X r) st" by blast
  have concat: "concat sends = map hub (filter P (concat ch))"
    by (simp add: sends_def filter_concat map_concat o_def)
  have "length (concat sends) \<le> p * c" unfolding concat length_map using length_concat_le [OF ch] length_filter_le le_trans by blast
  then have "sz * length (concat sends) \<le> sz * (p * c)" by (rule mult_le_mono2)
  then have fits: "fits_int (sz * length (concat sends))" using sz(2) unfolding fits_int_def mult.assoc by (rule le_less_trans)
  have recv: "mset (part_of (\<lambda>e. fst (snd e) mod p) r (concat sends)) = image_mset hub (due (rank_turn ppn np) (owns_high p H) t ch r)" for r
  proof -
    have "part_of (\<lambda>e. fst (snd e) mod p) r (concat sends) = map hub (filter (\<lambda>e. P e \<and> fst (snd e) mod p = r) (concat ch))"
      by (simp add: part_of_def concat filter_map o_def hub_def hub_edge_def conj_commute)
    also have "filter (\<lambda>e. P e \<and> fst (snd e) mod p = r) (concat ch) = (if rank_turn ppn np r = t then filter (owns_high p H r) (concat ch) else [])"
      by (auto simp: P_def owns_high_def filter_empty_conv intro: filter_cong)
    finally show ?thesis by (simp add: due_def)
  qed
  have "\<exists>sts'. exchange_high ME sz zero False zs = Some sts' \<and> length sts' = p
    \<and> (\<forall>r < p. \<exists>st. sts' ! r = (st, [], []) \<and> high_stored m (gs ! r) (eds ! r) (X r @ sort (part_of (\<lambda>e. fst (snd e) mod p) r (concat sends))) st)"
  proof (rule exchange_high_all [OF M _ room p zs(2) _ sz(1) fits zs(3)])
    show "m_mpi_size (gs ! r) = p \<and> m_mpi_rank (gs ! r) = r" if "r < p" for r using gs that by (simp add: ranks_agree_def)
    show "length sends = p" by (simp add: sends_def ch(1))
    show "mset (X r) + mset (part_of (\<lambda>e. fst (snd e) mod p) r (concat sends)) \<subseteq># T r" if "r < p" for r
      using sub [OF that] X [OF that] by (simp add: recv hub_def)
  qed assumption
  then obtain sts' where ex: "exchange_high ME sz zero False zs = Some sts'" "length sts' = p"
    "\<And>r. r < p \<Longrightarrow> \<exists>st. sts' ! r = (st, [], []) \<and> high_stored m (gs ! r) (eds ! r) (X r @ sort (part_of (\<lambda>e. fst (snd e) mod p) r (concat sends))) st" by blast
  have "high_delivered zero tab has_data m gs eds r (S r + due (rank_turn ppn np) (owns_high p H) t ch r) (sts' ! r)" if "r < p" for r
    unfolding high_delivered_def
    by (intro exI [of _ "X r @ sort (part_of (\<lambda>e. fst (snd e) mod p) r (concat sends))"])
      (use ex(3) [OF that] X [OF that] recv [of r] in \<open>simp add: hub_def\<close>)
  then show ?thesis using zs(1) ex(1,2) unfolding partition_high_chunk_def by simp
qed

lemma partition_high_degree_all:
  fixes es :: "('d :: linorder) edge list list"
  assumes M: "mpi_ok M" "mpi_ok ME" and gs: "ranks_agree p ppn np c H gs" and tabs: "tables_agree tab has_data m p gs"
    and pos: "0 < c" "0 < np" and es: "length es = p"
    and room: "\<And>r. r < p \<Longrightarrow> high_room m (gs ! r) (image_mset (hub_edge zero tab has_data) (filter_mset (owns_high p H r) (mset (concat es))))"
    and sz: "0 < sz" "sz * p * c < 2 ^ 31"
    and sts: "length sts = p" "\<And>r. r < p \<Longrightarrow> high_stored m (gs ! r) (eds ! r) [] (sts ! r)"
  shows "\<exists>sts'. partition_high_degree M ME sz zero es [] sts = Some sts' \<and> length sts' = p
    \<and> (\<forall>r < p. \<exists>X. mset X = image_mset (hub_edge zero tab has_data) (filter_mset (owns_high p H r) (mset (concat es))) \<and> high_stored m (gs ! r) (eds ! r) X (sts' ! r))"
proof -
  have p: "0 < p" using gs by (simp add: ranks_agree_def)
  define hub where "hub = hub_edge zero tab has_data"
  define sts0 where "sts0 = map (\<lambda>st. (st, [] :: 'd edge list, [] :: transfer_info)) sts"
  have sizes: "edge_chunk_size (fst (fst (hd sts1))) = c"
    if s: "length sts1 = p" "\<And>r. r < p \<Longrightarrow> high_delivered zero tab has_data m gs eds r (S r) (sts1 ! r)" for sts1 :: "'d high_state list" and S
  proof -
    have hd: "hd sts1 = sts1 ! 0" using s(1) p by (metis hd_conv_nth length_0_conv less_numeral_extra(3))
    obtain X st where X: "sts1 ! 0 = (st, [], [])" "high_stored m (gs ! 0) (eds ! 0) X st" using s(2) [OF p] unfolding high_delivered_def by blast
    show ?thesis using high_stored_fields(5) [OF X(2)] X(1) hd gs p by (simp add: ranks_agree_def)
  qed
  have start: "high_delivered zero tab has_data m gs eds r {#} (sts0 ! r)" if "r < p" for r
    using sts that by (auto simp: high_delivered_def sts0_def)
  have np: "node_partitions (fst (hd sts)) = np"
  proof -
    have "hd sts = sts ! 0" using sts(1) p by (metis hd_conv_nth length_0_conv less_numeral_extra(3))
    then show ?thesis using high_stored_fields(4) [OF sts(2) [OF p]] gs p by (simp add: ranks_agree_def)
  qed
  have "\<exists>sts1. fold_opt (\<lambda>t sts. chunk_loop M (edge_chunk_size (fst (fst (hd sts)))) (partition_high_chunk ME sz zero t) es sts) [0..<np] sts0 = Some sts1 \<and> length sts1 = p
    \<and> (\<forall>r < p. high_delivered zero tab has_data m gs eds r (filter_mset (owns_high p H r) (mset (concat es))) (sts1 ! r))"
  proof (rule turns_rule [OF M(1) pos(1) es, where turn = "rank_turn ppn np"])
    show "length sts0 = p" by (simp add: sts0_def sts(1))
    show "edge_chunk_size (fst (fst (hd sts1))) = c" if "length sts1 = p" "\<And>r. r < p \<Longrightarrow> high_delivered zero tab has_data m gs eds r (S r) (sts1 ! r)" for sts1 S
      using that by (rule sizes)
    show "rank_turn ppn np r < np" for r using pos(2) by (simp add: rank_turn_def)
    fix t ch sts1 S
    assume a: "length ch = p" "\<And>r. r < p \<Longrightarrow> length (ch ! r) \<le> c" "length sts1 = p" "\<And>r. r < p \<Longrightarrow> high_delivered zero tab has_data m gs eds r (S r) (sts1 ! r)"
      "\<And>r. r < p \<Longrightarrow> S r + due (rank_turn ppn np) (owns_high p H) t ch r \<subseteq># filter_mset (owns_high p H r) (mset (concat es))"
    show "\<exists>sts'. partition_high_chunk ME sz zero t ch sts1 = Some sts' \<and> length sts' = p
      \<and> (\<forall>r < p. high_delivered zero tab has_data m gs eds r (S r + due (rank_turn ppn np) (owns_high p H) t ch r) (sts' ! r))"
      by (rule partition_high_chunk_step [OF M(2) gs tabs room sz a(1-4) image_mset_subseteq_mono [OF a(5)]]) assumption+
  qed (use start in simp)
  then obtain sts1 where s1: "fold_opt (\<lambda>t sts. chunk_loop M (edge_chunk_size (fst (fst (hd sts)))) (partition_high_chunk ME sz zero t) es sts) [0..<np] sts0 = Some sts1"
    "length sts1 = p" "\<And>r. r < p \<Longrightarrow> high_delivered zero tab has_data m gs eds r (filter_mset (owns_high p H r) (mset (concat es))) (sts1 ! r)" by blast
  have "\<exists>X st. mset X = image_mset hub (filter_mset (owns_high p H r) (mset (concat es))) \<and> sts1 ! r = (st, [], []) \<and> high_stored m (gs ! r) (eds ! r) X st" if "r < p" for r
    using s1(3) [OF that] by (simp add: high_delivered_def hub_def)
  then obtain X where X: "\<And>r. r < p \<Longrightarrow> mset (X r) = image_mset hub (filter_mset (owns_high p H r) (mset (concat es)))
      \<and> (\<exists>st. sts1 ! r = (st, [], []) \<and> high_stored m (gs ! r) (eds ! r) (X r) st)" by metis
  define none where "none = replicate p ([] :: 'd edge list)"
  have none: "concat none = []" "\<And>r. r < p \<Longrightarrow> none ! r = []" "length none = p" by (simp_all add: none_def concat_eq_Nil_conv)
  have "\<exists>sts'. exchange_high ME sz zero True sts1 = Some sts' \<and> length sts' = p
    \<and> (\<forall>r < p. \<exists>st. sts' ! r = (st, [], []) \<and> high_stored m (gs ! r) (eds ! r) (X r @ sort (part_of (\<lambda>e. fst (snd e) mod p) r (concat none))) st)"
  proof (rule exchange_high_all [OF M(2) _ room p s1(2) none(3) sz(1)])
    show "m_mpi_size (gs ! r) = p \<and> m_mpi_rank (gs ! r) = r" if "r < p" for r using gs that by (simp add: ranks_agree_def)
    show "fits_int (sz * length (concat none))" unfolding none(1) by (simp add: fits_int_def)
    show "\<exists>st. sts1 ! r = (st, none ! r, []) \<and> high_stored m (gs ! r) (eds ! r) (X r) st" if "r < p" for r
      unfolding none(2) [OF that] using X [OF that] by blast
    show "mset (X r) + mset (part_of (\<lambda>e. fst (snd e) mod p) r (concat none)) \<subseteq># image_mset (hub_edge zero tab has_data) (filter_mset (owns_high p H r) (mset (concat es)))"
      if "r < p" for r unfolding none(1) using X [OF that] by (simp add: hub_def)
  qed
  then obtain sts' where ex: "exchange_high ME sz zero True sts1 = Some sts'" "length sts' = p"
    "\<And>r. r < p \<Longrightarrow> \<exists>st. sts' ! r = (st, [], []) \<and> high_stored m (gs ! r) (eds ! r) (X r) st" by (auto simp: none(1))
  have "\<exists>X. mset X = image_mset hub (filter_mset (owns_high p H r) (mset (concat es))) \<and> high_stored m (gs ! r) (eds ! r) X (map fst sts' ! r)" if "r < p" for r
    using ex(2) ex(3) [OF that] X [OF that] that by (intro exI [of _ "X r"]) auto
  then show ?thesis
    unfolding partition_high_degree_def np using s1(1) ex(1,2) by (intro exI [of _ "map fst sts'"]) (simp add: hub_def flip: sts0_def)
qed

end
