(* ===== verification/Construction_Result.thy ===== *)
theory Construction_Result
  imports Construction_High
begin

section \<open>The constructed graph\<close>

subsection \<open>The storage leaves room for exactly the edges that arrive\<close>

lemma hub_tables_labels:
  assumes "hub_tables p r hs g" "m_delegate_label g = hs"
  shows "labels_wf g" "\<And>v. is_label_delegate g v \<longleftrightarrow> v \<in> set hs" "\<And>v. map_of (m_map_delegate_locator g) v = None \<longleftrightarrow> v \<notin> set hs"
proof -
  have f: "m_mpi_size g = p" "r < p" "p < 2 ^ 21" "distinct hs" "length hs \<le> 2 ^ 40" "m_map_delegate_locator g = hub_table p hs (length hs)"
    using assms(1) by (simp_all add: hub_tables_def)
  show n: "map_of (m_map_delegate_locator g) v = None \<longleftrightarrow> v \<notin> set hs" for v
    using map_of_hub_table_None [OF f(4), of p v] f(6) by simp
  then show "is_label_delegate g v \<longleftrightarrow> v \<in> set hs" for v by (simp add: is_label_delegate_def)
  have "is_delegate (hub_locator p hs i) \<and> local_id (hub_locator p hs i) = i \<and> owner (hub_locator p hs i) < p" if "i < length hs" for i
    using hub_locator_Some [of i p hs] that f(2,3,5) by simp
  then show "labels_wf g" using f assms(2) by (auto simp: labels_wf_def hub_table_def)
qed

lemma edge_target_known:
  assumes "hub_tables p r hs g" "m_delegate_label g = hs" "fst (snd e) div p < n" "n \<le> 2 ^ 31"
  shows "\<exists>l. edge_target g e = Some l \<and> locator_to_label g l = Some (fst (snd e)) \<and> owner l < m_mpi_size g"
proof -
  have p: "m_mpi_size g = p" "0 < p" using assms(1) by (auto simp: hub_tables_def)
  have "fst (snd e) < n * p" using assms(3) p(2) by (simp add: div_less_iff_less_mult)
  also have "\<dots> \<le> 2 ^ 40 * p" using assms(4) by (intro mult_right_mono) simp_all
  finally show ?thesis using label_to_locator_Some [OF hub_tables_labels(1) [OF assms(1,2)], of "fst (snd e)"] p(1) by (auto simp: edge_target_def)
qed

lemma low_count_key:
  "low_count p r H es (Suc k) = low_count p r H es k + size (filter_mset (\<lambda>e. fst e div p = k) (filter_mset (owns_low p H r) (mset es)))"
  by (induction es) (auto simp: low_count_def owns_low_def less_Suc_eq)

lemma low_offsets_room:
  assumes "owned_ready p r n hs es g" "m_mpi_size g = p"
  shows "room_for (low_offset g) n (low_key g) (filter_mset (owns_low p (set hs) r) (mset es))"
proof -
  have "low_offset g k = low_count p r (set hs) es k" if "k \<le> n" for k
    using assms(1) that by (simp add: owned_ready_def low_offset_def)
  then show ?thesis unfolding room_for_def by (simp add: low_count_key low_key_def assms(2))
qed

lemma low_room_ready:
  assumes sr: "storage_ready p r n hs es g0 g" and fit: "edges_fit p n es" "n \<le> 2 ^ 31" "length es < 2 ^ 31"
  shows "low_room n g (filter_mset (owns_low p (set hs) r) (mset es))"
proof -
  have f: "hub_tables p r hs g" "m_delegate_label g = hs" "owned_ready p r n hs es g" using sr by (simp_all add: storage_ready_def)
  have p: "m_mpi_size g = p" "m_mpi_rank g = r" using f(1) by (simp_all add: hub_tables_def)
  have "size (filter_mset (owns_low p (set hs) r) (mset es)) \<le> length es" by (metis size_filter_mset_lesseq size_mset)
  moreover note low_offsets_room [OF f(3) p(1)]
  moreover have "edge_target g e \<noteq> None" if "e \<in> set es" for e
    using edge_target_known [OF f(1,2) _ fit(2), of e] fit(1) that by (auto simp: edges_fit_def)
  ultimately show ?thesis
    using f(3) fit unfolding low_room_def
    by (auto simp: owned_ready_def p owns_low_def low_key_def edges_fit_def)
qed

lemma hub_index:
  assumes "distinct hs" "length hs \<le> 2 ^ 40" "0 < p" "p < 2 ^ 21" "v \<in> set hs" "k < length hs"
  shows "local_id (the (map_of (hub_table p hs (length hs)) v)) = k \<longleftrightarrow> v = hs ! k" "local_id (the (map_of (hub_table p hs (length hs)) v)) < length hs"
proof -
  obtain i where i: "i < length hs" "v = hs ! i" using assms(5) by (auto simp: in_set_conv_nth)
  have "local_id (the (map_of (hub_table p hs (length hs)) v)) = i"
    using map_of_hub_table_nth [OF assms(1) i(1), of p] hub_locator_Some(3) [of i p hs] assms i by simp
  then show "local_id (the (map_of (hub_table p hs (length hs)) v)) = k \<longleftrightarrow> v = hs ! k" "local_id (the (map_of (hub_table p hs (length hs)) v)) < length hs"
    using i assms(1,6) nth_eq_iff_index_eq [of hs i k] by auto
qed

lemma hub_edges_key:
  assumes "distinct hs" "length hs \<le> 2 ^ 40" "0 < p" "p < 2 ^ 21" "k < length hs"
  shows "size (filter_mset (\<lambda>e. fst e = k) (image_mset (hub_edge zero (hub_table p hs (length hs)) has_data) (filter_mset (owns_high p (set hs) r) (mset es))))
    = hub_edges p r (hs ! k) es"
proof (induction es)
  case Nil then show ?case by simp
next
  case (Cons e es)
  have "fst e \<in> set hs \<Longrightarrow> local_id (the (map_of (hub_table p hs (length hs)) (fst e))) = k \<longleftrightarrow> fst e = hs ! k"
    using hub_index(1) [OF assms(1-4) _ assms(5)] by simp
  moreover have "fst e = hs ! k \<Longrightarrow> fst e \<in> set hs" using assms(5) by simp
  ultimately show ?case using Cons by (auto simp: owns_high_def hub_edge_def hub_edges_def)
qed

lemma high_offsets_room:
  assumes "hub_tables p r hs g" "m_delegate_info g = map (high_count p r hs es) [0..<Suc (length hs)]"
  shows "room_for (high_offset g) (length hs) fst (image_mset (hub_edge zero (m_map_delegate_locator g) b) (filter_mset (owns_high p (set hs) r) (mset es)))"
proof -
  have t: "0 < p" "p < 2 ^ 21" "distinct hs" "length hs \<le> 2 ^ 40" "m_map_delegate_locator g = hub_table p hs (length hs)"
    using assms(1) by (auto simp: hub_tables_def)
  have "high_offset g k = high_count p r hs es k" if "k \<le> length hs" for k
    using that assms(2) by (simp add: high_offset_def nth_append del: upt_Suc)
  moreover have "high_count p r hs es (Suc k) = high_count p r hs es k + hub_edges p r (hs ! k) es" if "k < length hs" for k
    using that by (simp add: high_count_def take_Suc_conv_app_nth)
  ultimately show ?thesis unfolding room_for_def t(5) by (simp add: hub_edges_key [OF t(3,4,1,2)])
qed

lemma high_room_ready:
  assumes sr: "storage_ready p r n hs es g0 g" and fit: "edges_fit p n es" "n \<le> 2 ^ 31"
  shows "high_room (length hs) g (image_mset (hub_edge zero (m_map_delegate_locator g) (m_has_edge_data g)) (filter_mset (owns_high p (set hs) r) (mset es)))"
proof -
  have f: "hub_tables p r hs g" "m_delegate_label g = hs" "m_delegate_info g = map (high_count p r hs es) [0..<Suc (length hs)]"
    "m_delegate_targets_size g = high_count p r hs es (length hs)" using sr by (simp_all add: storage_ready_def)
  have t: "m_mpi_size g = p" "0 < p" "p < 2 ^ 21" "distinct hs" "length hs \<le> 2 ^ 40" "m_map_delegate_locator g = hub_table p hs (length hs)"
    using f(1) by (auto simp: hub_tables_def)
  have target: "case edge_target g (hub_edge zero tab b e) of None \<Rightarrow> False | Some l \<Rightarrow> owner l < m_mpi_size g" if "e \<in> set es" for e tab b
    using edge_target_known [OF f(1,2) _ fit(2), of "hub_edge zero tab b e"] fit(1) that by (auto simp: edges_fit_def hub_edge_def)
  have id: "fst (hub_edge zero (m_map_delegate_locator g) b e) < length hs" if "fst e \<in> set hs" for e b
    using hub_index(2) [OF t(4,5,2,3) that] that t(6) by (cases hs) (auto simp: hub_edge_def)
  show ?thesis
    unfolding high_room_def using high_offsets_room [OF f(1,3)] f(3,4) target id
    by (auto simp: high_offset_def owns_high_def nth_append simp del: upt_Suc)
qed

subsection \<open>The last phase\<close>

text \<open>The controllers of a rank: the delegate ids that are its own modulo the number of ranks.\<close>

definition controller_ids :: "nat \<Rightarrow> nat \<Rightarrow> nat \<Rightarrow> nat list" where
  "controller_ids p r m = filter (\<lambda>i. i mod p = r) [0..<m]"

lemma make_delegate_locator:
  assumes "i < 2 ^ 40" "r < 2 ^ 21"
  shows "\<exists>l. make_locator True i r = Some l \<and> is_delegate l \<and> local_id l = i \<and> owner l = r"
proof -
  obtain l where "make_locator True i r = Some l"
    using assms make_locator_None_iff [of True i r] by (cases "make_locator True i r") auto
  then show ?thesis using make_locator_Some_iff [of True i r l] by simp
qed

lemma build_controllers_eq:
  assumes "m_mpi_size g = p" "m_mpi_rank g = r" "r < 2 ^ 21" "length (m_delegate_degree g) \<le> 2 ^ 40" "m_controller_locators g = []"
  shows "build_controllers g = Some (g\<lparr>m_controller_locators := map (\<lambda>i. the (make_locator True i r)) (controller_ids p r (length (m_delegate_degree g)))\<rparr>)"
proof -
  define m where "m = length (m_delegate_degree g)"
  define C where "C k = map (\<lambda>i. the (make_locator True i r)) (controller_ids p r k)" for k
  define f where "f = (\<lambda>i (g' :: delegate_graph). if i mod m_mpi_size g' = m_mpi_rank g'
    then map_option (\<lambda>l. g'\<lparr>m_controller_locators := m_controller_locators g' @ [l]\<rparr>) (make_locator True i (m_mpi_rank g')) else Some g')"
  have "\<exists>s. fold_opt f [0..<m] g = Some s \<and> s = g\<lparr>m_controller_locators := C (length [0..<m])\<rparr>"
  proof (rule fold_opt_rule)
    show "g = g\<lparr>m_controller_locators := C (length ([] :: nat list))\<rparr>" using assms(5) by (simp add: C_def controller_ids_def)
    fix pre i post s assume a: "[0..<m] = pre @ i # post" "s = g\<lparr>m_controller_locators := C (length pre)\<rparr>"
    have i: "i = length pre" and "i < m" using upt_split [OF a(1)] by blast+
    have l: "length (pre @ [i]) = Suc i" by (simp add: i)
    have Suc: "C (Suc i) = (if i mod p = r then C i @ [the (make_locator True i r)] else C i)" by (simp add: C_def controller_ids_def)
    obtain d where d: "make_locator True i r = Some d" using make_delegate_locator [of i r] \<open>i < m\<close> assms(3,4) by (auto simp: m_def)
    have "f i (g\<lparr>m_controller_locators := C i\<rparr>) = Some (g\<lparr>m_controller_locators := C (Suc i)\<rparr>)"
      using assms(1,2) d by (simp add: f_def Suc)
    then show "\<exists>s'. f i s = Some s' \<and> s' = g\<lparr>m_controller_locators := C (length (pre @ [i]))\<rparr>"
      unfolding a(2) l i [symmetric] by blast
  qed
  then have "fold_opt f [0..<m] g = Some (g\<lparr>m_controller_locators := C m\<rparr>)" by simp
  then show ?thesis unfolding build_controllers_def f_def C_def m_def by (simp add: cong: if_cong)
qed

lemma verify_csr_ready:
  assumes "hub_tables p r hs g" "owned_ready p r n hs es g" "\<And>v. v \<in> set hs \<Longrightarrow> v div p < n" "length hs \<le> 2 ^ 24"
  shows "verify_csr g"
proof -
  have t: "m_mpi_size g = p" "m_mpi_rank g = r" "r < p" "p < 2 ^ 21" "length hs \<le> 2 ^ 40" "m_map_delegate_locator g = hub_table p hs (length hs)"
    using assms(1) by (simp_all add: hub_tables_def)
  have "hs ! i div p < length (m_owned_info g) \<and> vi_is_delegate (m_owned_info g ! (hs ! i div p)) = 1
      \<and> unat (vi_delegate_id (m_owned_info g ! (hs ! i div p))) = local_id (hub_locator p hs i)" if i: "i < length hs" "hs ! i mod p = r" for i
  proof -
    have d: "hs ! i div p < n" using assms(3) i(1) by simp
    have "hs ! i div p * p + r = hs ! i" using i(2) by (metis div_mult_mod_eq)
    then have "owned_delegate g (hs ! i div p)" using assms(2) d i(1) by (simp add: owned_ready_def)
    moreover have "local_id (hub_locator p hs i) = i" using hub_locator_Some(3) [of i p hs] i(1) t by simp
    moreover have "unat (vi_delegate_id (m_owned_info g ! (hs ! i div p))) = i"
      using assms(2,4) i by (simp add: owned_ready_def unat_of_nat)
    ultimately show ?thesis using assms(2) d by (simp add: owned_delegate_def owned_ready_def)
  qed
  then show ?thesis by (auto simp: verify_csr_def t list_all_iff hub_table_def)
qed

lemma reduce_degrees_eq:
  assumes M: "mpi_ok M" and gs: "gs \<noteq> []" "\<And>g. g \<in> set gs \<Longrightarrow> length (m_delegate_degree g) = m"
  shows "reduce_degrees M gs = map (\<lambda>g. g\<lparr>m_delegate_degree := map (\<lambda>k. \<Sum>g\<leftarrow>gs. m_delegate_degree g ! k) [0..<m]\<rparr>) gs"
proof (cases "m = 0")
  case True
  have "\<not> list_all (\<lambda>g. 0 < length (m_delegate_degree g)) gs" using gs True by (cases gs) auto
  moreover have "g\<lparr>m_delegate_degree := []\<rparr> = g" if "g \<in> set gs" for g using gs(2) [OF that] True by simp
  ultimately show ?thesis using True by (auto simp: reduce_degrees_def map_idI)
next
  case False
  define ds where "ds = map m_delegate_degree gs"
  have len: "length d = m" if "d \<in> set ds" for d using gs(2) that by (auto simp: ds_def)
  have "hd ds \<in> set ds" using gs(1) by (intro hd_in_set) (simp add: ds_def)
  then have "length d = length (hd ds)" if "d \<in> set ds" for d using len [OF that] len [of "hd ds"] by simp
  then have r: "allreduce M (+) ds = replicate (length ds) (reduce1 (+) ds)"
    by (intro mpi_allreduce [OF M]) (simp_all add: ac_simps)
  have "reduce1 (+) ds = map (\<lambda>k. \<Sum>g\<leftarrow>gs. m_delegate_degree g ! k) [0..<m]"
  proof (rule nth_equalityI)
    have ne: "ds \<noteq> []" using gs(1) by (simp add: ds_def)
    show "length (reduce1 (+) ds) = length (map (\<lambda>k. \<Sum>g\<leftarrow>gs. m_delegate_degree g ! k) [0..<m])" using length_reduce1 [OF ne len, of "(+)"] by simp
    show "reduce1 (+) ds ! k = map (\<lambda>k. \<Sum>g\<leftarrow>gs. m_delegate_degree g ! k) [0..<m] ! k" if k: "k < length (reduce1 (+) ds)" for k
    proof -
      have "k < m" using k length_reduce1 [OF ne len, of "(+)"] by simp
      then show ?thesis using reduce1_plus_nth [OF len _ ne, of k] by (simp add: ds_def o_def)
    qed
  qed
  moreover have "list_all (\<lambda>g. 0 < length (m_delegate_degree g)) gs" using gs(2) False by (auto simp: list_all_iff)
  ultimately show ?thesis
    unfolding reduce_degrees_def ds_def [symmetric] r by (intro nth_equalityI) (simp_all add: ds_def)
qed

lemma sum_hub_edges: "0 < p \<Longrightarrow> (\<Sum>r\<leftarrow>[0..<p]. hub_edges p r v es) = srcs es v"
proof (induction es)
  case Nil then show ?case by (simp add: sum_list_0)
next
  case (Cons e es)
  have "(\<Sum>r\<leftarrow>[0..<p]. hub_edges p r v (e # es)) = (\<Sum>r\<leftarrow>[0..<p]. (if r = fst (snd e) mod p then (if fst e = v then 1 else 0) else 0) + hub_edges p r v es)"
    by (rule arg_cong [where f = sum_list]) (auto simp: hub_edges_def)
  also have "\<dots> = (\<Sum>r\<leftarrow>[0..<p]. if r = fst (snd e) mod p then (if fst e = v then 1 else 0) else 0) + srcs es v"
    using Cons by (simp add: sum_list_addf)
  also have "(\<Sum>r\<leftarrow>[0..<p]. if r = fst (snd e) mod p then (if fst e = v then 1 else 0) else 0) = (if fst e = v then 1 else (0 :: nat))"
    using Cons.prems by (simp add: interv_sum_list_conv_sum_set_nat)
  finally show ?case by simp
qed

subsection \<open>What a rank holds in the end\<close>

definition built :: "nat \<Rightarrow> nat \<Rightarrow> nat \<Rightarrow> nat list \<Rightarrow> 'd edge list \<Rightarrow> 'd \<Rightarrow> delegate_graph \<Rightarrow> delegate_graph \<Rightarrow> 'd edge_data \<Rightarrow> bool" where
  "built p r n hs es zero g0 g ed \<longleftrightarrow> same_config g0 g \<and> hub_tables p r hs g \<and> owned_ready p r n hs es g \<and> m_delegate_label g = hs
     \<and> m_delegate_info g = map (high_count p r hs es) [0..<Suc (length hs)]
     \<and> m_owned_targets_size g = low_count p r (set hs) es n \<and> m_delegate_targets_size g = high_count p r hs es (length hs)
     \<and> m_delegate_degree g = map (srcs es) hs
     \<and> m_controller_locators g = map (\<lambda>i. the (make_locator True i r)) (controller_ids p r (length hs))
     \<and> (\<exists>X. mset X = filter_mset (owns_low p (set hs) r) (mset es)
          \<and> filled (low_offset g) n (low_key g) (edge_target g) X (m_owned_targets g)
          \<and> (m_has_edge_data g0 \<longrightarrow> filled (low_offset g) n (low_key g) edge_value X (m_owned_edge_data ed)))
     \<and> (\<exists>Y. mset Y = image_mset (hub_edge zero (m_map_delegate_locator g) (m_has_edge_data g)) (filter_mset (owns_high p (set hs) r) (mset es))
          \<and> filled (high_offset g) (length hs) fst (edge_target g) Y (m_delegate_targets g)
          \<and> (m_has_edge_data g0 \<longrightarrow> filled (high_offset g) (length hs) fst edge_value Y (m_delegate_edge_data ed)))"

lemma low_stored_start:
  assumes "storage_ready p r n hs es g0 g1" "m_has_edge_data g1 \<Longrightarrow> length (m_owned_edge_data ed1) = m_owned_targets_size g1"
  shows "low_stored n g1 ed1 [] (g1, ed1)"
proof -
  define dat where "dat = (if m_has_edge_data g1 then m_owned_edge_data ed1 else replicate (m_owned_targets_size g1) undefined)"
  have f: "m_owned_info_tracker g1 = replicate (Suc n) 0" "m_owned_targets g1 = replicate (m_owned_targets_size g1) None"
    "m_owned_targets_size g1 = low_offset g1 n"
    using assms(1) by (simp_all add: storage_ready_def owned_ready_def low_offset_def)
  have len: "length (m_owned_targets g1) = low_offset g1 n" "length dat = low_offset g1 n" using f(2,3) assms(2) by (simp_all add: dat_def)
  have zero: "\<forall>k < n. unat (m_owned_info_tracker g1 ! k) = key_count (low_key g1) k []" by (simp add: f(1) del: replicate_Suc)
  show ?thesis
    unfolding low_stored_def
    by (rule exI [of _ "m_owned_info_tracker g1"], rule exI [of _ "m_owned_targets g1"], rule exI [of _ dat])
      (use f(1) zero len in \<open>simp add: filled_start dat_def\<close>)
qed

lemma high_stored_start:
  assumes "storage_ready p r n hs es g0 g1" "m_has_edge_data g1 \<Longrightarrow> length (m_delegate_edge_data ed1) = m_delegate_targets_size g1"
    and st: "low_stored n g1 ed1 X st" and g2: "g2 = (fst st)\<lparr>m_graph_state := s\<rparr>"
  shows "high_stored (length hs) g2 (snd st) [] (g2, snd st)"
proof -
  define dat where "dat = (if m_has_edge_data g2 then m_delegate_edge_data (snd st) else replicate (m_delegate_targets_size g2) undefined)"
  have same: "m_delegate_degree g2 = m_delegate_degree g1" "m_delegate_targets g2 = m_delegate_targets g1" "m_delegate_targets_size g2 = m_delegate_targets_size g1"
    "m_has_edge_data g2 = m_has_edge_data g1" "high_offset g2 = high_offset g1" "m_has_edge_data g1 \<Longrightarrow> m_delegate_edge_data (snd st) = m_delegate_edge_data ed1"
    using st by (auto simp: low_stored_def g2 high_offset_def fun_eq_iff)
  have f: "m_delegate_degree g1 = replicate (length hs) 0" "m_delegate_targets g1 = replicate (m_delegate_targets_size g1) None"
    "m_delegate_targets_size g1 = high_offset g1 (length hs)"
    using assms(1) by (simp_all add: storage_ready_def high_offset_def nth_append del: upt_Suc)
  have len: "length (m_delegate_targets g2) = high_offset g2 (length hs)" "length dat = high_offset g2 (length hs)"
    using f(2,3) assms(2) same by (simp_all add: dat_def)
  have zero: "length (m_delegate_degree g2) = length hs" "\<forall>k < length hs. m_delegate_degree g2 ! k = key_count fst k []" by (simp_all add: same f(1))
  show ?thesis
    unfolding high_stored_def
    by (rule exI [of _ "m_delegate_degree g2"], rule exI [of _ "m_delegate_targets g2"], rule exI [of _ dat])
      (use zero len in \<open>simp add: filled_start dat_def\<close>)
qed

text \<open>A graph that only differs in what the passes write has room for the same hub edges.\<close>

lemma high_room_same:
  assumes "m_delegate_info g2 = m_delegate_info g1" "m_delegate_targets_size g2 = m_delegate_targets_size g1"
    "m_map_delegate_locator g2 = m_map_delegate_locator g1" "m_mpi_size g2 = m_mpi_size g1"
  shows "high_room m g2 T \<longleftrightarrow> high_room m g1 T"
proof -
  have "edge_target g2 = (edge_target g1 :: 'a edge \<Rightarrow> _)" using assms by (simp add: edge_target_def label_to_locator_def fun_eq_iff cong: option.case_cong)
  moreover have "high_offset g2 = high_offset g1" using assms by (simp add: high_offset_def fun_eq_iff)
  ultimately show ?thesis using assms by (simp add: high_room_def cong: option.case_cong)
qed

text \<open>The two passes and the last phase, at one rank.\<close>

lemma built_rank:
  assumes sr: "storage_ready p r n hs es g0 g1"
    and low: "low_stored n g1 ed1 X st" "mset X = filter_mset (owns_low p (set hs) r) (mset es)"
    and g2: "g2 = (fst st)\<lparr>m_graph_state := s\<rparr>"
    and high: "high_stored (length hs) g2 (snd st) Y st3"
      "mset Y = image_mset (hub_edge zero (m_map_delegate_locator g1) (m_has_edge_data g1)) (filter_mset (owns_high p (set hs) r) (mset es))"
    and g: "g = (fst st3)\<lparr>m_delegate_degree := map (srcs es) hs, m_controller_locators := map (\<lambda>i. the (make_locator True i r)) (controller_ids p r (length hs)), m_graph_state := s'\<rparr>"
  shows "built p r n hs es zero g0 g (snd st3)"
proof -
  obtain trk lts ldat where l: "filled (low_offset g1) n (low_key g1) (edge_target g1) X lts" "filled (low_offset g1) n (low_key g1) edge_value X ldat"
    "st = (g1\<lparr>m_owned_info_tracker := trk, m_owned_targets := lts\<rparr>, if m_has_edge_data g1 then ed1\<lparr>m_owned_edge_data := ldat\<rparr> else ed1)"
    using low(1) unfolding low_stored_def by blast
  obtain deg hts hdat where h: "filled (high_offset g2) (length hs) fst (edge_target g2) Y hts" "filled (high_offset g2) (length hs) fst edge_value Y hdat"
    "st3 = (g2\<lparr>m_delegate_degree := deg, m_delegate_targets := hts\<rparr>, if m_has_edge_data g2 then (snd st)\<lparr>m_delegate_edge_data := hdat\<rparr> else snd st)"
    using high(1) unfolding high_stored_def by blast
  have g_eq: "g = g1\<lparr>m_owned_info_tracker := trk, m_owned_targets := lts, m_graph_state := s', m_delegate_degree := map (srcs es) hs, m_delegate_targets := hts,
      m_controller_locators := map (\<lambda>i. the (make_locator True i r)) (controller_ids p r (length hs))\<rparr>"
    by (simp add: g h(3) g2 l(3))
  have targets: "edge_target g = (edge_target g1 :: 'a edge \<Rightarrow> _)" "edge_target g2 = (edge_target g1 :: 'a edge \<Rightarrow> _)"
    by (simp_all add: edge_target_def label_to_locator_def fun_eq_iff g_eq g2 l(3) cong: option.case_cong)
  have keys: "low_offset g = low_offset g1" "low_key g = (low_key g1 :: 'a edge \<Rightarrow> _)" "high_offset g = high_offset g1" "high_offset g2 = high_offset g1"
    by (simp_all add: low_offset_def low_key_def high_offset_def fun_eq_iff g_eq g2 l(3))
  have ed: "m_has_edge_data g1 \<Longrightarrow> m_owned_edge_data (snd st3) = ldat \<and> m_delegate_edge_data (snd st3) = hdat"
    by (simp add: h(3) l(3) g2)
  have has: "m_has_edge_data g1 = m_has_edge_data g0" using sr by (simp add: storage_ready_def same_config_def)
  have fields: "same_config g0 g \<and> hub_tables p r hs g \<and> owned_ready p r n hs es g \<and> m_delegate_label g = hs
     \<and> m_delegate_info g = map (high_count p r hs es) [0..<Suc (length hs)]
     \<and> m_owned_targets_size g = low_count p r (set hs) es n \<and> m_delegate_targets_size g = high_count p r hs es (length hs)
     \<and> m_map_delegate_locator g = m_map_delegate_locator g1 \<and> m_has_edge_data g = m_has_edge_data g1"
    using sr by (simp add: storage_ready_def g_eq same_config_def hub_tables_def owned_ready_def owned_delegate_def)
  have new: "m_owned_targets g = lts" "m_delegate_targets g = hts" "m_delegate_degree g = map (srcs es) hs"
    "m_controller_locators g = map (\<lambda>i. the (make_locator True i r)) (controller_ids p r (length hs))"
    by (simp_all add: g_eq)
  have low': "\<exists>X. mset X = filter_mset (owns_low p (set hs) r) (mset es) \<and> filled (low_offset g) n (low_key g) (edge_target g) X (m_owned_targets g)
      \<and> (m_has_edge_data g0 \<longrightarrow> filled (low_offset g) n (low_key g) edge_value X (m_owned_edge_data (snd st3)))"
    using low(2) l(1,2) ed has by (intro exI [of _ X]) (simp add: new keys targets)
  have high': "\<exists>Y. mset Y = image_mset (hub_edge zero (m_map_delegate_locator g) (m_has_edge_data g)) (filter_mset (owns_high p (set hs) r) (mset es))
      \<and> filled (high_offset g) (length hs) fst (edge_target g) Y (m_delegate_targets g)
      \<and> (m_has_edge_data g0 \<longrightarrow> filled (high_offset g) (length hs) fst edge_value Y (m_delegate_edge_data (snd st3)))"
    using high(2) h(1,2) ed has fields by (intro exI [of _ Y]) (simp add: new keys targets)
  show ?thesis unfolding built_def using fields new(3,4) low' high' by blast
qed

subsection \<open>The construction completes\<close>

definition sizes_ok :: "nat \<Rightarrow> nat \<Rightarrow> nat \<times> nat \<Rightarrow> bool" where
  "sizes_ok p c sz \<longleftrightarrow> 0 < fst sz \<and> 0 < snd sz \<and> fst sz * p * c < 2 ^ 31 \<and> snd sz * p * c < 2 ^ 31"

lemma storage_agrees:
  assumes p: "0 < p" "length gs = p" and g0: "\<And>r. r < p \<Longrightarrow> processes_per_node (g0 r) = ppn \<and> node_partitions (g0 r) = np \<and> edge_chunk_size (g0 r) = c \<and> m_has_edge_data (g0 r) = d"
    and sr: "\<And>r. r < p \<Longrightarrow> storage_ready p r n hs es (g0 r) (gs ! r)"
  shows "ranks_agree p ppn np c (set hs) gs" "tables_agree (hub_table p hs (length hs)) d (length hs) p gs"
proof -
  have f: "same_config (g0 r) (gs ! r)" "hub_tables p r hs (gs ! r)" "m_delegate_label (gs ! r) = hs" "length (m_delegate_info (gs ! r)) = Suc (length hs)" if "r < p" for r
    using sr [OF that] by (simp_all add: storage_ready_def)
  show "ranks_agree p ppn np c (set hs) gs"
    unfolding ranks_agree_def using p f(1,2) g0 hub_tables_labels(3) [OF f(2,3)] by (auto simp: same_config_def hub_tables_def)
  have "local_id l < length hs" if l: "map_of (hub_table p hs (length hs)) v = Some l" for v l
  proof -
    have h: "distinct hs" "length hs \<le> 2 ^ 40" "p < 2 ^ 21" using f(2) [OF p(1)] by (simp_all add: hub_tables_def)
    have v: "v \<in> set hs" using map_of_hub_table_None [OF h(1), of p v] l by (cases "v \<in> set hs") auto
    then show ?thesis using hub_index(2) [OF h(1,2) p(1) h(3) v, of 0] l by (cases hs) auto
  qed
  then show "tables_agree (hub_table p hs (length hs)) d (length hs) p gs"
    unfolding tables_agree_def using f g0 by (auto simp: same_config_def hub_tables_def)
qed

lemma ranks_agree_same:
  assumes "ranks_agree p ppn np c H gs" "length gs' = p" "\<And>r. r < p \<Longrightarrow> m_mpi_size (gs' ! r) = m_mpi_size (gs ! r) \<and> m_mpi_rank (gs' ! r) = m_mpi_rank (gs ! r)
    \<and> processes_per_node (gs' ! r) = processes_per_node (gs ! r) \<and> node_partitions (gs' ! r) = node_partitions (gs ! r)
    \<and> edge_chunk_size (gs' ! r) = edge_chunk_size (gs ! r) \<and> m_map_delegate_locator (gs' ! r) = m_map_delegate_locator (gs ! r)"
  shows "ranks_agree p ppn np c H gs'"
  using assms by (simp add: ranks_agree_def)

text \<open>The last phase, given what the two passes leave at every rank.\<close>

lemma finish_construction_eq:
  fixes es :: "'d edge list"
  assumes M: "mpi_ok M" and p: "0 < p" "length sts = p" and hubs: "\<And>v. v \<in> set hs \<Longrightarrow> v div p < n" "length hs \<le> 2 ^ 24"
    and st: "\<And>r. r < p \<Longrightarrow> hub_tables p r hs (fst (sts ! r)) \<and> owned_ready p r n hs es (fst (sts ! r)) \<and> m_delegate_label (fst (sts ! r)) = hs
      \<and> m_controller_locators (fst (sts ! r)) = [] \<and> m_delegate_degree (fst (sts ! r)) = map (\<lambda>v. hub_edges p r v es) hs"
  shows "finish_construction M sts = Some (map (\<lambda>r. ((fst (sts ! r))\<lparr>m_delegate_degree := map (srcs es) hs,
    m_controller_locators := map (\<lambda>i. the (make_locator True i r)) (controller_ids p r (length hs)), m_graph_state := GraphReady\<rparr>, snd (sts ! r))) [0..<p])"
proof -
  define gs where "gs = map fst sts"
  define ctr where "ctr r = map (\<lambda>i. the (make_locator True i r)) (controller_ids p r (length hs))" for r
  define g' where "g' r = (gs ! r)\<lparr>m_delegate_degree := map (srcs es) hs\<rparr>" for r
  have gs: "length gs = p" "\<And>r. r < p \<Longrightarrow> gs ! r = fst (sts ! r)" using p(2) by (simp_all add: gs_def)
  have deg: "m_delegate_degree (gs ! r) = map (\<lambda>v. hub_edges p r v es) hs" if "r < p" for r using st [OF that] gs(2) [OF that] by simp
  have reduce: "reduce_degrees M gs = map g' [0..<p]"
  proof -
    have "reduce_degrees M gs = map (\<lambda>g. g\<lparr>m_delegate_degree := map (\<lambda>k. \<Sum>g\<leftarrow>gs. m_delegate_degree g ! k) [0..<length hs]\<rparr>) gs"
      by (rule reduce_degrees_eq [OF M]) (use gs(1) p(1) deg in \<open>auto simp: in_set_conv_nth\<close>)
    moreover have "map (\<lambda>k. \<Sum>g\<leftarrow>gs. m_delegate_degree g ! k) [0..<length hs] = map (srcs es) hs"
    proof (rule nth_equalityI)
      fix k assume "k < length (map (\<lambda>k. \<Sum>g\<leftarrow>gs. m_delegate_degree g ! k) [0..<length hs])"
      then have k: "k < length hs" by simp
      have "(\<Sum>g\<leftarrow>gs. m_delegate_degree g ! k) = (\<Sum>r\<leftarrow>[0..<p]. m_delegate_degree (gs ! r) ! k)" by (rule sum_list_nth_upt [OF gs(1)])
      also have "\<dots> = (\<Sum>r\<leftarrow>[0..<p]. hub_edges p r (hs ! k) es)" by (intro arg_cong [where f = sum_list] map_cong) (use deg k in auto)
      also have "\<dots> = srcs es (hs ! k)" by (rule sum_hub_edges [OF p(1)])
      finally show "map (\<lambda>k. \<Sum>g\<leftarrow>gs. m_delegate_degree g ! k) [0..<length hs] ! k = map (srcs es) hs ! k" using k by simp
    qed simp
    ultimately show ?thesis using map_nth_upt [OF gs(1), of "\<lambda>g. g\<lparr>m_delegate_degree := map (srcs es) hs\<rparr>"] by (simp add: g'_def [abs_def])
  qed
  have tab: "hub_tables p r hs (g' r)" "owned_ready p r n hs es (g' r)" "m_delegate_label (g' r) = hs" "m_controller_locators (g' r) = []" "m_delegate_degree (g' r) = map (srcs es) hs" if "r < p" for r
    using st [OF that] gs(2) [OF that] by (simp_all add: g'_def hub_tables_def owned_ready_def owned_delegate_def)
  have build: "build_controllers (g' r) = Some ((g' r)\<lparr>m_controller_locators := ctr r\<rparr>)" if "r < p" for r
    using build_controllers_eq [of "g' r" p r] tab [OF that] by (simp add: hub_tables_def ctr_def)
  have "each_rank build_controllers (map g' [0..<p]) = Some (map (\<lambda>r. (g' r)\<lparr>m_controller_locators := ctr r\<rparr>) [0..<p])"
    unfolding each_rank_def using those_map_Some [of "[0..<p]" "\<lambda>r. build_controllers (g' r)" "\<lambda>r. (g' r)\<lparr>m_controller_locators := ctr r\<rparr>"] build by (simp add: o_def)
  moreover have "list_all verify_csr (map (\<lambda>r. (g' r)\<lparr>m_controller_locators := ctr r\<rparr>) [0..<p])"
  proof -
    have "verify_csr ((g' r)\<lparr>m_controller_locators := ctr r\<rparr>)" if "r < p" for r
      by (rule verify_csr_ready [of p r hs _ n es]) (use tab [OF that] hubs in \<open>simp_all add: hub_tables_def owned_ready_def owned_delegate_def\<close>)
    then show ?thesis by (simp add: list_all_iff)
  qed
  moreover have "list_all (\<lambda>g. length (m_delegate_degree g) = length (m_delegate_label g)) (map g' [0..<p])" using tab by (simp add: list_all_iff)
  moreover have "map (set_state GraphReady) (zip (map (\<lambda>r. (g' r)\<lparr>m_controller_locators := ctr r\<rparr>) [0..<p]) (map snd sts))
      = map (\<lambda>r. ((g' r)\<lparr>m_controller_locators := ctr r, m_graph_state := GraphReady\<rparr>, snd (sts ! r))) [0..<p]"
    by (rule nth_equalityI) (simp_all add: p(2) set_state_def)
  ultimately show ?thesis
    unfolding finish_construction_def gs_def [symmetric] reduce by (simp add: Let_def g'_def ctr_def gs(2) cong: map_cong)
qed

text \<open>The two passes and the last phase, from allocated storage on.\<close>

lemma partition_built:
  fixes es :: "('d :: linorder) edge list list"
  assumes M: "mpi_ok M" "mpi_ok ME" and es: "length es = p" and pos: "0 < p" "0 < np" "0 < c"
    and g0: "\<And>r. r < p \<Longrightarrow> processes_per_node (g0 r) = ppn \<and> node_partitions (g0 r) = np \<and> edge_chunk_size (g0 r) = c \<and> m_has_edge_data (g0 r) = d"
    and fit: "edges_fit p n (concat es)" "n \<le> 2 ^ 31" "length (concat es) < 2 ^ 31"
    and hubs: "\<And>v. v \<in> set hs \<Longrightarrow> v div p < n" "length hs \<le> 2 ^ 24" and sz: "sizes_ok p c sz"
    and sts: "length sts = p" "\<And>r. r < p \<Longrightarrow> storage_ready p r n hs (concat es) (g0 r) (fst (sts ! r))"
    and eds: "\<And>r. r < p \<Longrightarrow> d \<Longrightarrow> length (m_owned_edge_data (snd (sts ! r))) = m_owned_targets_size (fst (sts ! r))
      \<and> length (m_delegate_edge_data (snd (sts ! r))) = m_delegate_targets_size (fst (sts ! r))"
  shows "\<exists>sts'. do { sts \<leftarrow> partition_low_degree M ME (fst sz) zero es sts;
      sts \<leftarrow> partition_high_degree M ME (snd sz) zero es [] (map (set_state LowEdgesPartitioned) sts);
      finish_construction M (map (set_state HighEdgesPartitioned) sts) } = Some sts' \<and> length sts' = p
    \<and> (\<forall>r < p. built p r n hs (concat es) zero (g0 r) (fst (sts' ! r)) (snd (sts' ! r)) \<and> m_graph_state (fst (sts' ! r)) = GraphReady)"
proof -
  define gs1 where "gs1 = map fst sts"
  define eds1 where "eds1 = map snd sts"
  have at1: "length gs1 = p" "gs1 ! r = fst (sts ! r)" "eds1 ! r = snd (sts ! r)" if "r < p" for r using sts(1) that by (simp_all add: gs1_def eds1_def)
  have sr: "storage_ready p r n hs (concat es) (g0 r) (gs1 ! r)" if "r < p" for r using sts(2) [OF that] at1(2) [OF that] by simp
  have agree: "ranks_agree p ppn np c (set hs) gs1" and tabs: "tables_agree (hub_table p hs (length hs)) d (length hs) p gs1"
    using storage_agrees [OF pos(1) at1(1) [OF pos(1)] g0 sr] by simp_all
  have has: "m_has_edge_data (gs1 ! r) = d" "m_map_delegate_locator (gs1 ! r) = hub_table p hs (length hs)" if "r < p" for r
    using tabs that by (simp_all add: tables_agree_def)
  have lr: "low_room n (gs1 ! r) (filter_mset (owns_low p (set hs) r) (mset (concat es)))" if "r < p" for r
    by (rule low_room_ready [OF sr [OF that] fit])
  have start1: "low_stored n (gs1 ! r) (eds1 ! r) [] (sts ! r)" if "r < p" for r
    using low_stored_start [OF sr [OF that], of "eds1 ! r"] eds [OF that] has(1) [OF that] at1 [OF that] by simp
  obtain sts2 where s2: "partition_low_degree M ME (fst sz) zero es sts = Some sts2" "length sts2 = p"
    "\<And>r. r < p \<Longrightarrow> low_delivered n gs1 eds1 r (filter_mset (owns_low p (set hs) r) (mset (concat es))) (sts2 ! r)"
    using partition_low_degree_all [OF M agree pos(3,2) es lr _ _ sts(1) start1, of "fst sz" zero] sz by (auto simp: sizes_ok_def)
  define sts2' where "sts2' = map (set_state LowEdgesPartitioned) sts2"
  define gs2 where "gs2 = map fst sts2'"
  define eds2 where "eds2 = map snd sts2'"
  have at2: "length gs2 = p" "gs2 ! r = (fst (sts2 ! r))\<lparr>m_graph_state := LowEdgesPartitioned\<rparr>" "eds2 ! r = snd (sts2 ! r)" "sts2' ! r = (gs2 ! r, eds2 ! r)" "length sts2' = p"
    if "r < p" for r using s2(2) that by (simp_all add: sts2'_def gs2_def eds2_def set_state_def split_beta)
  have "\<exists>X. mset X = filter_mset (owns_low p (set hs) r) (mset (concat es)) \<and> low_stored n (gs1 ! r) (eds1 ! r) X (sts2 ! r)" if "r < p" for r
    using s2(3) [OF that] by (simp add: low_delivered_def)
  then obtain X where X: "\<And>r. r < p \<Longrightarrow> mset (X r) = filter_mset (owns_low p (set hs) r) (mset (concat es)) \<and> low_stored n (gs1 ! r) (eds1 ! r) (X r) (sts2 ! r)"
    by metis
  have same2: "m_mpi_size (gs2 ! r) = m_mpi_size (gs1 ! r)" "m_mpi_rank (gs2 ! r) = m_mpi_rank (gs1 ! r)" "processes_per_node (gs2 ! r) = processes_per_node (gs1 ! r)"
    "node_partitions (gs2 ! r) = node_partitions (gs1 ! r)" "edge_chunk_size (gs2 ! r) = edge_chunk_size (gs1 ! r)" "m_map_delegate_locator (gs2 ! r) = m_map_delegate_locator (gs1 ! r)"
    "m_delegate_info (gs2 ! r) = m_delegate_info (gs1 ! r)" "m_delegate_targets_size (gs2 ! r) = m_delegate_targets_size (gs1 ! r)" "m_has_edge_data (gs2 ! r) = m_has_edge_data (gs1 ! r)"
    if r: "r < p" for r
  proof -
    have "low_stored n (gs1 ! r) (eds1 ! r) (X r) (sts2 ! r)" using X [OF r] by simp
    then show "m_mpi_size (gs2 ! r) = m_mpi_size (gs1 ! r)" "m_mpi_rank (gs2 ! r) = m_mpi_rank (gs1 ! r)" "processes_per_node (gs2 ! r) = processes_per_node (gs1 ! r)"
      "node_partitions (gs2 ! r) = node_partitions (gs1 ! r)" "edge_chunk_size (gs2 ! r) = edge_chunk_size (gs1 ! r)" "m_map_delegate_locator (gs2 ! r) = m_map_delegate_locator (gs1 ! r)"
      "m_delegate_info (gs2 ! r) = m_delegate_info (gs1 ! r)" "m_delegate_targets_size (gs2 ! r) = m_delegate_targets_size (gs1 ! r)" "m_has_edge_data (gs2 ! r) = m_has_edge_data (gs1 ! r)"
      unfolding at2(2) [OF r] by (auto simp: low_stored_def)
  qed
  have agree2: "ranks_agree p ppn np c (set hs) gs2"
    by (rule ranks_agree_same [OF agree at2(1) [OF pos(1)]]) (simp add: same2)
  have tabs2: "tables_agree (hub_table p hs (length hs)) d (length hs) p gs2" using tabs same2 by (simp add: tables_agree_def)
  define A where "A r = image_mset (hub_edge zero (hub_table p hs (length hs)) d) (filter_mset (owns_high p (set hs) r) (mset (concat es)))" for r
  have hr: "high_room (length hs) (gs2 ! r) (A r)" if "r < p" for r
    using high_room_ready [OF sr [OF that] fit(1,2), of zero] has [OF that]
    by (simp add: A_def high_room_same [OF same2(7,8,6,1) [OF that]])
  have start2: "high_stored (length hs) (gs2 ! r) (eds2 ! r) [] (sts2' ! r)" if r: "r < p" for r
  proof -
    have "low_stored n (gs1 ! r) (eds1 ! r) (X r) (sts2 ! r)" using X [OF r] by simp
    from high_stored_start [OF sr [OF r] _ this at2(2) [OF r]] eds [OF r] has [OF r] at1 [OF r] at2 [OF r] show ?thesis by simp
  qed
  obtain sts3 where s3: "partition_high_degree M ME (snd sz) zero es [] sts2' = Some sts3" "length sts3 = p"
    "\<And>r. r < p \<Longrightarrow> \<exists>Y. mset Y = A r \<and> high_stored (length hs) (gs2 ! r) (eds2 ! r) Y (sts3 ! r)"
    using partition_high_degree_all [OF M agree2 tabs2 pos(3,2) es hr [unfolded A_def] _ _ at2(5) [OF pos(1)] start2, of "snd sz"] sz
    unfolding A_def by (auto simp: sizes_ok_def)
  then obtain Y where Y: "\<And>r. r < p \<Longrightarrow> mset (Y r) = A r \<and> high_stored (length hs) (gs2 ! r) (eds2 ! r) (Y r) (sts3 ! r)" by metis
  define sts3' where "sts3' = map (set_state HighEdgesPartitioned) sts3"
  have at3: "fst (sts3' ! r) = (fst (sts3 ! r))\<lparr>m_graph_state := HighEdgesPartitioned\<rparr>" "snd (sts3' ! r) = snd (sts3 ! r)" if "r < p" for r
    using s3(2) that by (simp_all add: sts3'_def set_state_def split_beta)
  have ready: "hub_tables p r hs (fst (sts3' ! r)) \<and> owned_ready p r n hs (concat es) (fst (sts3' ! r)) \<and> m_delegate_label (fst (sts3' ! r)) = hs
      \<and> m_controller_locators (fst (sts3' ! r)) = [] \<and> m_delegate_degree (fst (sts3' ! r)) = map (\<lambda>v. hub_edges p r v (concat es)) hs" if r: "r < p" for r
  proof -
    have low: "low_stored n (gs1 ! r) (eds1 ! r) (X r) (sts2 ! r)" using X [OF r] by simp
    have high: "high_stored (length hs) (gs2 ! r) (eds2 ! r) (Y r) (sts3 ! r)" "mset (Y r) = A r" using Y [OF r] by simp_all
    obtain deg ts dat where h: "length deg = length hs" "\<And>k. k < length hs \<Longrightarrow> deg ! k = key_count fst k (Y r)"
      "sts3 ! r = ((gs2 ! r)\<lparr>m_delegate_degree := deg, m_delegate_targets := ts\<rparr>, if m_has_edge_data (gs2 ! r) then (eds2 ! r)\<lparr>m_delegate_edge_data := dat\<rparr> else eds2 ! r)"
      using high(1) unfolding high_stored_def by blast
    have tb: "distinct hs" "length hs \<le> 2 ^ 40" "p < 2 ^ 21" using sr [OF r] by (simp_all add: storage_ready_def hub_tables_def)
    have deg: "deg = map (\<lambda>v. hub_edges p r v (concat es)) hs"
      by (rule nth_equalityI) (simp_all add: h(1,2) key_count_mset high(2) A_def hub_edges_key [OF tb(1,2) pos(1) tb(3)])
    show ?thesis
      using sr [OF r] low unfolding at3(1) [OF r] h(3) fst_conv at2(2) [OF r] deg
      by (auto simp: low_stored_def storage_ready_def hub_tables_def owned_ready_def owned_delegate_def)
  qed
  define fin where "fin = (\<lambda>r. ((fst (sts3' ! r))\<lparr>m_delegate_degree := map (srcs (concat es)) hs,
    m_controller_locators := map (\<lambda>i. the (make_locator True i r)) (controller_ids p r (length hs)), m_graph_state := GraphReady\<rparr>, snd (sts3' ! r)))"
  have finish: "finish_construction M sts3' = Some (map fin [0..<p])"
    unfolding fin_def by (rule finish_construction_eq [OF M(1) pos(1) _ hubs ready]) (simp_all add: sts3'_def s3(2))
  have "built p r n hs (concat es) zero (g0 r) (fst (fin r)) (snd (fin r)) \<and> m_graph_state (fst (fin r)) = GraphReady" if r: "r < p" for r
  proof -
    have low: "low_stored n (gs1 ! r) (eds1 ! r) (X r) (sts2 ! r)" "mset (X r) = filter_mset (owns_low p (set hs) r) (mset (concat es))" using X [OF r] by simp_all
    have high: "high_stored (length hs) (gs2 ! r) (snd (sts2 ! r)) (Y r) (sts3 ! r)"
      "mset (Y r) = image_mset (hub_edge zero (m_map_delegate_locator (gs1 ! r)) (m_has_edge_data (gs1 ! r))) (filter_mset (owns_high p (set hs) r) (mset (concat es)))"
      using Y [OF r] at2(3) [OF r] has [OF r] by (simp_all add: A_def)
    have g: "fst (fin r) = (fst (sts3 ! r))\<lparr>m_delegate_degree := map (srcs (concat es)) hs,
      m_controller_locators := map (\<lambda>i. the (make_locator True i r)) (controller_ids p r (length hs)), m_graph_state := GraphReady\<rparr>" "snd (fin r) = snd (sts3 ! r)"
      by (simp_all add: fin_def at3 [OF r])
    from built_rank [OF sr [OF r] low at2(2) [OF r] high g(1)] show ?thesis by (simp add: g)
  qed
  then show ?thesis
    using s2(1) s3(1) finish by (intro exI [of _ "map fin [0..<p]"]) (simp flip: sts2'_def sts3'_def)
qed

end
