(* ===== verification/Construction_Properties.thy ===== *)
theory Construction_Properties
  imports Construction_Result
begin

section \<open>What the constructed graph answers\<close>

subsection \<open>From the input to the stored graph\<close>

text \<open>The labels with the degree of a hub.\<close>

definition hub_labels :: "nat \<Rightarrow> 'd edge list \<Rightarrow> nat list" where
  "hub_labels thr es = remdups (filter (\<lambda>v. thr \<le> srcs es v) (map fst es))"

text \<open>
  The conditions under which the construction is shown to succeed: counts, ids and exchanged bytes fit
  their types, and label 0 is not a hub.
\<close>

definition construction_ok :: "nat \<Rightarrow> nat \<Rightarrow> nat \<Rightarrow> nat \<Rightarrow> nat \<Rightarrow> nat \<times> nat \<Rightarrow> 'd edge list list \<Rightarrow> bool" where
  "construction_ok max_vertex thr chunk_size ppn parts sz edges \<longleftrightarrow> input_ok max_vertex thr chunk_size edges
     \<and> srcs (concat edges) 0 < thr \<and> length edges < 2 ^ 21 \<and> 0 < ppn \<and> 0 < parts \<and> sizes_ok (length edges) chunk_size sz
     \<and> length (hub_labels thr (concat edges)) \<le> 2 ^ 24"

lemma set_hub_labels:
  assumes "0 < thr"
  shows "set (hub_labels thr es) = {v. thr \<le> srcs es v}"
proof -
  have "v \<in> fst ` set es" if "thr \<le> srcs es v" for v
    using srcs_pos [of es v] that assms by force
  then show ?thesis by (auto simp: hub_labels_def)
qed

lemma length_resize_list: "length (resize_list zero n xs) = n"
  by (simp add: resize_list_def min_def)

lemma hub_ids_labels:
  assumes "edges_fit p n es" "0 < p" "0 < thr"
  shows "set (hub_ids p n thr es) = {v. thr \<le> srcs es v}" "length (hub_ids p n thr es) = length (hub_labels thr es)"
proof -
  have fit: "v div p < n" if "thr \<le> srcs es v" for v
  proof -
    have "0 < srcs es v" using that assms(3) by linarith
    then obtain e where "e \<in> set es" "fst e = v" using srcs_pos by blast
    then show ?thesis using assms(1) by (auto simp: edges_fit_def)
  qed
  then show s: "set (hub_ids p n thr es) = {v. thr \<le> srcs es v}" by (auto simp: hub_ids_props set_all_hubs [OF assms(2)])
  have "distinct (hub_labels thr es)" by (simp add: hub_labels_def)
  then show "length (hub_ids p n thr es) = length (hub_labels thr es)"
    using s set_hub_labels [OF assms(3), of es] hub_ids_props(1) [of p n thr es] by (metis distinct_card)
qed

lemma construct_graph_built:
  fixes es :: "('d :: linorder) edge list list"
  assumes M: "mpi_ok M" "mpi_ok ME" and ok: "construction_ok max_vertex thr c ppn parts sz es" and stop: "stop_after \<noteq> MetaDataGenerated"
    and eds: "length eds = length es" and p: "p = length es" and n: "n = (max_vertex + p - 1) div p + 1" and hs: "hs = hub_ids p n thr (concat es)"
  shows "\<exists>sts. construct_graph_with_data M ME sz zero ppn max_vertex thr parts c d stop_after es eds = Some sts \<and> length sts = p
    \<and> (\<forall>r < p. built p r n hs (concat es) zero (new_graph p ppn max_vertex thr parts c r d) (fst (sts ! r)) (snd (sts ! r)) \<and> m_graph_state (fst (sts ! r)) = GraphReady)"
proof -
  have i: "input_ok max_vertex thr c es" "srcs (concat es) 0 < thr" "p < 2 ^ 21" "0 < ppn" "0 < parts" "sizes_ok p c sz" "length (hub_labels thr (concat es)) \<le> 2 ^ 24"
    using ok by (simp_all add: construction_ok_def p)
  have pos: "0 < p" "0 < thr" "0 < c" "length (concat es) < 2 ^ 31" using i(1) by (simp_all add: input_ok_def Let_def p)
  have fit: "edges_fit p n (concat es)" "n \<le> 2 ^ 31" using input_ok_fit [OF i(1) p [symmetric]] by (simp_all add: n)
  have hubs: "v div p < n" if "v \<in> set hs" for v using that by (simp add: hs hub_ids_props set_all_hubs [OF pos(1)])
  have len: "length hs \<le> 2 ^ 24" using i(7) by (simp add: hs hub_ids_labels(2) [OF fit(1) pos(1,2)])
  define gs where "gs = new_graphs p ppn max_vertex thr parts c d"
  define g0 where "g0 r = new_graph p ppn max_vertex thr parts c r d" for r
  have gs: "gs ! r = g0 r" if "r < p" for r using that by (simp add: gs_def g0_def new_graphs_def)
  have cfg: "processes_per_node (g0 r) = ppn \<and> node_partitions (g0 r) = min parts ppn \<and> edge_chunk_size (g0 r) = c \<and> m_has_edge_data (g0 r) = d" for r
    by (simp add: g0_def new_graph_def Let_def)
  obtain gs' where meta: "generate_meta_data M es thr gs = Some gs'" "length gs' = p"
    "\<And>r. r < p \<Longrightarrow> meta_ready p r n hs (concat es) (g0 r) (gs' ! r)" "\<And>r. r < p \<Longrightarrow> m_graph_state (gs' ! r) = MetaDataGenerated"
    using generate_meta_data_ready [OF M(1) i(1,2) p [symmetric] i(3,4) n gs_def hs] gs by auto
  have "\<exists>zs. each_rank (allocate_storage zero) (zip gs' eds) = Some zs \<and> length zs = p
    \<and> (\<forall>r < p. storage_ready p r n hs (concat es) (g0 r) (fst (zs ! r)) \<and> snd (zs ! r) = (if d then ed_resize zero (fst (zs ! r)) (eds ! r) else eds ! r))"
  proof (rule each_rank_rule)
    show "length (zip gs' eds) = p" using meta(2) eds p by simp
    fix r assume r: "r < p"
    have at: "zip gs' eds ! r = (gs' ! r, eds ! r)" using r meta(2) eds p by simp
    from allocate_storage_ready [OF meta(3) [OF r], of zero "eds ! r"] cfg [of r] i(4) obtain g where
      "allocate_storage zero (gs' ! r, eds ! r) = Some (g, if d then ed_resize zero g (eds ! r) else eds ! r)" "storage_ready p r n hs (concat es) (g0 r) g" by auto
    then show "\<exists>z. allocate_storage zero (zip gs' eds ! r) = Some z \<and> storage_ready p r n hs (concat es) (g0 r) (fst z) \<and> snd z = (if d then ed_resize zero (fst z) (eds ! r) else eds ! r)"
      unfolding at by simp
  qed
  then obtain zs where zs: "each_rank (allocate_storage zero) (zip gs' eds) = Some zs" "length zs = p"
    "\<And>r. r < p \<Longrightarrow> storage_ready p r n hs (concat es) (g0 r) (fst (zs ! r))"
    "\<And>r. r < p \<Longrightarrow> snd (zs ! r) = (if d then ed_resize zero (fst (zs ! r)) (eds ! r) else eds ! r)" by blast
  have sized: "length (m_owned_edge_data (snd (zs ! r))) = m_owned_targets_size (fst (zs ! r)) \<and> length (m_delegate_edge_data (snd (zs ! r))) = m_delegate_targets_size (fst (zs ! r))"
    if "r < p" d for r using zs(4) [OF that(1)] that(2) by (simp add: ed_resize_def length_resize_list)
  have np: "0 < min parts ppn" using i(4,5) by simp
  obtain sts where sts: "do { sts \<leftarrow> partition_low_degree M ME (fst sz) zero es zs;
      sts \<leftarrow> partition_high_degree M ME (snd sz) zero es [] (map (set_state LowEdgesPartitioned) sts);
      finish_construction M (map (set_state HighEdgesPartitioned) sts) } = Some sts" "length sts = p"
    "\<forall>r < p. built p r n hs (concat es) zero (g0 r) (fst (sts ! r)) (snd (sts ! r)) \<and> m_graph_state (fst (sts ! r)) = GraphReady"
    using partition_built [OF M p [symmetric] pos(1) np pos(3) cfg fit pos(4) hubs len i(6) zs(2,3) sized, of zero] by blast
  have state: "m_graph_state (fst (hd (zip gs' eds))) = MetaDataGenerated"
    using meta(2) meta(4) [OF pos(1)] eds p pos(1) by (cases gs'; cases eds) auto
  have new: "map (\<lambda>r. new_graph (length es) ppn max_vertex thr parts c r d) [0..<length es] = gs"
    by (simp add: gs_def new_graphs_def p)
  have "construct_graph_with_data M ME sz zero ppn max_vertex thr parts c d stop_after es eds = Some sts"
    unfolding construct_graph_with_data_def new Let_def complete_construction_def
    using stop state zs(1) sts(1) by (simp add: meta(1))
  then show ?thesis using sts(2,3) by (auto simp: g0_def)
qed

subsection \<open>Queries on a built graph\<close>

lemma built_fields:
  assumes "built p r n hs es zero g0 g ed"
  shows "hub_tables p r hs g" "owned_ready p r n hs es g" "m_delegate_label g = hs" "m_mpi_size g = p" "m_mpi_rank g = r" "r < p" "length (m_owned_info g) = Suc n"
    "m_delegate_info g = map (high_count p r hs es) [0..<Suc (length hs)]" "length (m_delegate_info g) = Suc (length hs)" "m_delegate_degree g = map (srcs es) hs"
    "m_owned_targets_size g = low_offset g n" "m_delegate_targets_size g = high_offset g (length hs)" "m_has_edge_data g = m_has_edge_data g0"
  using assms by (simp_all add: built_def hub_tables_def owned_ready_def low_offset_def high_offset_def same_config_def nth_append del: upt_Suc)

lemma built_low:
  assumes "built p r n hs es zero g0 g ed"
  obtains X where "mset X = filter_mset (owns_low p (set hs) r) (mset es)" "filled (low_offset g) n (low_key g) (edge_target g) X (m_owned_targets g)"
    "m_has_edge_data g0 \<Longrightarrow> filled (low_offset g) n (low_key g) edge_value X (m_owned_edge_data ed)" "room_for (low_offset g) n (low_key g) (mset X)"
proof -
  note f = built_fields [OF assms]
  obtain X where X: "mset X = filter_mset (owns_low p (set hs) r) (mset es)" "filled (low_offset g) n (low_key g) (edge_target g) X (m_owned_targets g)"
    "m_has_edge_data g0 \<longrightarrow> filled (low_offset g) n (low_key g) edge_value X (m_owned_edge_data ed)"
    using assms unfolding built_def by blast
  show thesis by (rule that [OF X(1,2)]) (use X low_offsets_room [OF f(2,4)] in simp_all)
qed

lemma built_high:
  assumes "built p r n hs es zero g0 g ed"
  obtains Y where "mset Y = image_mset (hub_edge zero (m_map_delegate_locator g) (m_has_edge_data g0)) (filter_mset (owns_high p (set hs) r) (mset es))"
    "filled (high_offset g) (length hs) fst (edge_target g) Y (m_delegate_targets g)"
    "m_has_edge_data g0 \<Longrightarrow> filled (high_offset g) (length hs) fst edge_value Y (m_delegate_edge_data ed)" "room_for (high_offset g) (length hs) fst (mset Y)"
proof -
  note f = built_fields [OF assms]
  obtain Y where Y: "mset Y = image_mset (hub_edge zero (m_map_delegate_locator g) (m_has_edge_data g)) (filter_mset (owns_high p (set hs) r) (mset es))"
    "filled (high_offset g) (length hs) fst (edge_target g) Y (m_delegate_targets g)"
    "m_has_edge_data g0 \<longrightarrow> filled (high_offset g) (length hs) fst edge_value Y (m_delegate_edge_data ed)"
    using assms unfolding built_def by blast
  show thesis by (rule that [OF Y(1) [unfolded f(13)] Y(2)]) (use Y high_offsets_room [OF f(1,8), of zero "m_has_edge_data g"] in simp_all)
qed

lemma built_wf:
  fixes es :: "'d edge list"
  assumes b: "built p r n hs es zero g0 g ed" and fit: "edges_fit p n es" "n \<le> 2 ^ 31" "length es < 2 ^ 31"
  shows "labels_wf g" "owned_csr_wf g" "delegate_csr_wf g"
proof -
  note f = built_fields [OF b]
  show "labels_wf g" by (rule hub_tables_labels [OF f(1,3)])
  have known: "case edge_target g e of None \<Rightarrow> False | Some l \<Rightarrow> owner l < m_mpi_size g" if "\<exists>e' \<in> set es. fst (snd e') = fst (snd e)" for e :: "'d edge"
    using edge_target_known [OF f(1,3) _ fit(2), of e] fit(1) that unfolding edges_fit_def by force
  obtain X where X: "mset X = filter_mset (owns_low p (set hs) r) (mset es)" "filled (low_offset g) n (low_key g) (edge_target g) X (m_owned_targets g)"
    "room_for (low_offset g) n (low_key g) (mset X)" using built_low [OF b] by blast
  have inX: "e \<in> set es" if "e \<in> set X" for e using X(1) that by (metis filter_mset_eq_conv mset_subset_eqD set_mset_mset)
  have "low_offset g 0 = 0" using f(2) by (simp add: low_offset_def owned_ready_def)
  then have "case t of None \<Rightarrow> False | Some l \<Rightarrow> owner l < m_mpi_size g" if "t \<in> set (m_owned_targets g)" for t
    using filled_all [OF X(2,3) _ that] known inX by blast
  moreover have "length (m_owned_targets g) = m_owned_targets_size g" using X(2) f(11) by (simp add: filled_def)
  moreover have "low_offset g i \<le> low_offset g (Suc i) \<and> low_offset g (Suc i) \<le> low_offset g n" if "i < n" for i
    using room_mono [OF X(3), of i "Suc i"] room_mono [OF X(3), of "Suc i" n] that by simp
  ultimately show "owned_csr_wf g" using f(7,11) by (simp add: owned_csr_wf_def low_offset_def)
  obtain Y where Y: "mset Y = image_mset (hub_edge zero (m_map_delegate_locator g) (m_has_edge_data g0)) (filter_mset (owns_high p (set hs) r) (mset es))"
    "filled (high_offset g) (length hs) fst (edge_target g) Y (m_delegate_targets g)" "room_for (high_offset g) (length hs) fst (mset Y)" using built_high [OF b] by blast
  have inY: "\<exists>e' \<in> set es. fst (snd e') = fst (snd e)" if "e \<in> set Y" for e
  proof -
    have "e \<in># image_mset (hub_edge zero (m_map_delegate_locator g) (m_has_edge_data g0)) (filter_mset (owns_high p (set hs) r) (mset es))"
      using that by (simp flip: Y(1))
    then show ?thesis by (force simp: hub_edge_def)
  qed
  have "high_offset g 0 = 0" using f(8) by (simp add: high_offset_def high_count_def nth_append del: upt_Suc)
  then have "case t of None \<Rightarrow> False | Some l \<Rightarrow> owner l < m_mpi_size g" if "t \<in> set (m_delegate_targets g)" for t
    using filled_all [OF Y(2,3) _ that] known inY by blast
  moreover have "length (m_delegate_targets g) = m_delegate_targets_size g" using Y(2) f(12) by (simp add: filled_def)
  moreover have "high_offset g i \<le> high_offset g (Suc i) \<and> high_offset g (Suc i) \<le> high_offset g (length hs)" if "i < length hs" for i
    using room_mono [OF Y(3), of i "Suc i"] room_mono [OF Y(3), of "Suc i" "length hs"] that by simp
  moreover have "high_offset g (length hs) < 2 ^ 64"
  proof -
    have "high_offset g k = size (filter_mset (\<lambda>e. fst e < k) (mset Y))" if "k \<le> length hs" for k
      using that
    proof (induction k)
      case 0 then show ?case using \<open>high_offset g 0 = 0\<close> by simp
    next
      case (Suc k)
      have "filter_mset (\<lambda>e. fst e < Suc k) (mset Y) = filter_mset (\<lambda>e. fst e < k) (mset Y) + filter_mset (\<lambda>e. fst e = k) (mset Y)"
        by (induction Y) auto
      then show ?case using Suc Y(3) by (simp add: room_for_def)
    qed
    from this [of "length hs"] have "high_offset g (length hs) \<le> size (mset Y)" by (metis order_refl size_filter_mset_lesseq)
    also have "\<dots> \<le> length es" unfolding Y(1) by (simp del: size_mset) (metis size_filter_mset_lesseq size_mset)
    finally show ?thesis using fit(3) by simp
  qed
  ultimately show "delegate_csr_wf g" using f(9,12) by (simp add: delegate_csr_wf_def high_offset_def)
qed

text \<open>The edges of a vertex a rank is to hold: all of them at its owner, those of a hub with their targets.\<close>

definition held_edges :: "nat \<Rightarrow> nat \<Rightarrow> nat set \<Rightarrow> 'd edge list \<Rightarrow> nat \<Rightarrow> 'd edge list" where
  "held_edges p r H es v = filter (\<lambda>e. fst e = v \<and> (v \<in> H \<longrightarrow> fst (snd e) mod p = r)) es"

text \<open>The edge data of a vertex, in the order of its edges.\<close>

definition stored_values :: "delegate_graph \<Rightarrow> 'd edge_data \<Rightarrow> vertex_locator \<Rightarrow> 'd list" where
  "stored_values g ed l =
     (let i = local_id l in
      if is_delegate l then segment (m_delegate_info g ! i) (m_delegate_info g ! Suc i - m_delegate_info g ! i) (m_delegate_edge_data ed)
      else segment (low_csr_idx (m_owned_info g ! i)) (low_csr_idx (m_owned_info g ! Suc i) - low_csr_idx (m_owned_info g ! i)) (m_owned_edge_data ed))"

text \<open>The loop over the edges of a vertex that reads the edge data at each iterator.\<close>

definition edge_values :: "delegate_graph \<Rightarrow> 'd edge_data \<Rightarrow> vertex_locator \<Rightarrow> 'd list option" where
  "edge_values g ed l = do {
     b \<leftarrow> edges_begin g l; e \<leftarrow> edges_end g l;
     those (map (\<lambda>i. ed_get ed \<lparr>ei_source = l, ei_edge_offset = i\<rparr>) [ei_edge_offset b..<ei_edge_offset e]) }"

lemma those_at_segment:
  assumes "length (segment b (e - b) xs) = e - b"
  shows "those (map (at xs) [b..<e]) = Some (segment b (e - b) xs)"
proof -
  have "at xs i = Some (xs ! i)" if "i \<in> set [b..<e]" for i
    using assms that by (auto simp: at_def segment_def)
  then have "those (map (at xs) [b..<e]) = Some (map (\<lambda>i. xs ! i) [b..<e])" by (rule those_map_Some)
  also have "map (\<lambda>i. xs ! i) [b..<e] = segment b (e - b) xs"
    using assms by (intro nth_equalityI) (auto simp: segment_def)
  finally show ?thesis .
qed

lemma edge_values_eq:
  assumes "if is_delegate l then Suc (local_id l) < length (m_delegate_info g) else owner l = m_mpi_rank g \<and> Suc (local_id l) < length (m_owned_info g)"
    and "length (stored_values g ed l) = length (stored_targets g l)" "owned_csr_wf g" "delegate_csr_wf g"
  shows "edge_values g ed l = Some (stored_values g ed l)"
proof (cases "is_delegate l")
  case True
  define b e where "b = m_delegate_info g ! local_id l" and "e = m_delegate_info g ! Suc (local_id l)"
  have "e \<le> length (m_delegate_targets g)" using assms(1,4) True by (simp add: delegate_csr_wf_def e_def)
  then have "length (segment b (e - b) (m_delegate_edge_data ed)) = e - b"
    using assms(2) True by (simp add: stored_values_def stored_targets_def b_def e_def segment_def Let_def)
  from those_at_segment [OF this] show ?thesis
    using True assms(1) by (simp add: edge_values_def edges_begin_def edges_end_def ed_get_def stored_values_def b_def e_def Let_def)
next
  case False
  define b e where "b = low_csr_idx (m_owned_info g ! local_id l)" and "e = low_csr_idx (m_owned_info g ! Suc (local_id l))"
  have "e \<le> length (m_owned_targets g)" using assms(1,3) False by (simp add: owned_csr_wf_def e_def)
  then have "length (segment b (e - b) (m_owned_edge_data ed)) = e - b"
    using assms(2) False by (simp add: stored_values_def stored_targets_def b_def e_def segment_def Let_def)
  from those_at_segment [OF this] show ?thesis
    using False assms(1) by (simp add: edge_values_def edges_begin_def edges_end_def ed_get_def stored_values_def b_def e_def Let_def)
qed

definition hold_image :: "'d \<Rightarrow> delegate_graph \<Rightarrow> bool \<Rightarrow> bool \<Rightarrow> 'd edge \<Rightarrow> 'd edge" where
  "hold_image zero g b is_hub = (if is_hub then hub_edge zero (m_map_delegate_locator g) b else id)"

lemma hold_image_sel: "fst (snd (hold_image zero g b h e)) = fst (snd e)" "b \<Longrightarrow> edge_value (hold_image zero g b h e) = edge_value e"
  by (simp_all add: hold_image_def hub_edge_def edge_value_def)

lemma built_edges:
  fixes es :: "'d edge list"
  assumes b: "built p r n hs es zero g0 g ed" and fit: "edges_fit p n es" "n \<le> 2 ^ 31" "length es < 2 ^ 31"
    and v: "v div p < n" "v \<in> set hs \<or> v mod p = r"
  shows "\<exists>l L. label_to_locator g v = Some l \<and> locator_to_label g l = Some v \<and> is_delegate l = (v \<in> set hs)
    \<and> (if is_delegate l then Suc (local_id l) < length (m_delegate_info g) else owner l = m_mpi_rank g \<and> Suc (local_id l) < length (m_owned_info g))
    \<and> stored_targets g l = map (edge_target g) L \<and> (m_has_edge_data g0 \<longrightarrow> stored_values g ed l = map edge_value L)
    \<and> mset L = image_mset (hold_image zero g (m_has_edge_data g0) (v \<in> set hs)) (mset (held_edges p r (set hs) es v)) \<and> degree g l = Some (srcs es v)"
proof -
  note f = built_fields [OF b]
  have p: "0 < p" "p < 2 ^ 21" "distinct hs" "length hs \<le> 2 ^ 40" "m_map_delegate_locator g = hub_table p hs (length hs)"
    using f(1) by (auto simp: hub_tables_def)
  have "v < n * p" using v(1) p(1) by (simp add: div_less_iff_less_mult)
  also have "\<dots> \<le> 2 ^ 40 * p" using fit(2) by (intro mult_right_mono) simp_all
  finally obtain l where l: "label_to_locator g v = Some l" "locator_to_label g l = Some v" "is_delegate l = is_label_delegate g v"
    "\<not> is_delegate l \<longrightarrow> owner l = get_owner_id p v \<and> local_id l = get_local_id p v"
    using label_to_locator_Some [OF hub_tables_labels(1) [OF f(1,3)], of v] f(4) by auto
  have d: "is_delegate l = (v \<in> set hs)" using l(3) hub_tables_labels(2) [OF f(1,3)] by simp
  show ?thesis
  proof (cases "v \<in> set hs")
    case False
    then have r: "v mod p = r" "\<not> is_delegate l" using v(2) d by simp_all
    have id: "owner l = r" "local_id l = v div p" using l(4) r by (simp_all add: get_owner_id_def get_local_id_def)
    obtain X where X: "mset X = filter_mset (owns_low p (set hs) r) (mset es)" "filled (low_offset g) n (low_key g) (edge_target g) X (m_owned_targets g)"
      "m_has_edge_data g0 \<Longrightarrow> filled (low_offset g) n (low_key g) edge_value X (m_owned_edge_data ed)" "room_for (low_offset g) n (low_key g) (mset X)" using built_low [OF b] by blast
    define L where "L = filter (\<lambda>e. low_key g e = v div p) X"
    have "stored_targets g l = map (edge_target g) L"
      using filled_end [OF X(2,4) v(1)] by (simp add: stored_targets_def r(2) id L_def low_offset_def)
    moreover have "m_has_edge_data g0 \<Longrightarrow> stored_values g ed l = map edge_value L"
      using filled_end [OF X(3) X(4) v(1)] by (simp add: stored_values_def r(2) id L_def low_offset_def)
    moreover have mL: "mset L = mset (held_edges p r (set hs) es v)"
    proof -
      have same: "fst e div p = v div p \<and> fst e mod p = r \<longleftrightarrow> fst e = v" for e :: "'d edge" using r(1) by (metis div_mult_mod_eq)
      then have "low_key g e = v div p \<and> owns_low p (set hs) r e \<longleftrightarrow> fst e = v \<and> (v \<in> set hs \<longrightarrow> fst (snd e) mod p = r)" for e :: "'d edge"
        using same [of e] False unfolding owns_low_def low_key_def f(4) by blast
      then show ?thesis unfolding L_def mset_filter X(1) filter_filter_mset held_edges_def by (simp add: conj_commute)
    qed
    moreover have "degree g l = Some (srcs es v)"
    proof -
      have off: "low_offset g (Suc (v div p)) = low_offset g (v div p) + size (mset L)"
        using X(4) v(1) by (simp add: room_for_def L_def)
      have "size (mset L) = srcs es v" using False by (simp add: mL held_edges_def srcs_def del: mset_filter)
      then have "low_csr_idx (m_owned_info g ! Suc (v div p)) = low_csr_idx (m_owned_info g ! (v div p)) + srcs es v"
        using off by (simp add: low_offset_def)
      then have "sub64 (low_csr_idx (m_owned_info g ! Suc (v div p))) (low_csr_idx (m_owned_info g ! (v div p))) = srcs es v"
        using sub64_eq [OF _ low_csr_idx_less, of "low_csr_idx (m_owned_info g ! (v div p))" "m_owned_info g ! Suc (v div p)"] by simp
      then show ?thesis using v(1) f(7) by (simp add: degree_def r(2) id)
    qed
    ultimately show ?thesis using l(1,2) d r f(5,7) v(1) id False by (intro exI [of _ l] exI [of _ L]) (simp add: hold_image_def)
  next
    case True
    then obtain i where i: "i < length hs" "v = hs ! i" by (auto simp: in_set_conv_nth)
    have li: "l = hub_locator p hs i" "local_id l = i"
      using l(1) map_of_hub_table_nth [OF p(3) i(1), of p] hub_locator_Some(3) [of i p hs] i p by (simp_all add: label_to_locator_def)
    have dl: "is_delegate l" using d True by simp
    obtain Y where Y: "mset Y = image_mset (hub_edge zero (m_map_delegate_locator g) (m_has_edge_data g0)) (filter_mset (owns_high p (set hs) r) (mset es))"
      "filled (high_offset g) (length hs) fst (edge_target g) Y (m_delegate_targets g)"
      "m_has_edge_data g0 \<Longrightarrow> filled (high_offset g) (length hs) fst edge_value Y (m_delegate_edge_data ed)" "room_for (high_offset g) (length hs) fst (mset Y)" using built_high [OF b] by blast
    define L where "L = filter (\<lambda>e. fst e = i) Y"
    have "stored_targets g l = map (edge_target g) L"
      using filled_end [OF Y(2,4) i(1)] by (simp add: stored_targets_def dl li(2) L_def high_offset_def)
    moreover have "m_has_edge_data g0 \<Longrightarrow> stored_values g ed l = map edge_value L"
      using filled_end [OF Y(3) Y(4) i(1)] by (simp add: stored_values_def dl li(2) L_def high_offset_def)
    moreover have "mset L = image_mset (hub_edge zero (m_map_delegate_locator g) (m_has_edge_data g0)) (mset (held_edges p r (set hs) es v))"
    proof -
      have "fst (hub_edge zero (m_map_delegate_locator g) (m_has_edge_data g0) e) = i \<and> owns_high p (set hs) r e \<longleftrightarrow> fst e = v \<and> (v \<in> set hs \<longrightarrow> fst (snd e) mod p = r)" for e
        using hub_index(1) [OF p(3,4,1,2) _ i(1), of "fst e"] True i(2) by (auto simp: hub_edge_def owns_high_def p(5))
      then show ?thesis unfolding L_def mset_filter Y(1) filter_mset_image_mset filter_filter_mset held_edges_def by (simp add: conj_commute)
    qed
    moreover have "degree g l = Some (srcs es v)" using f(10) i by (simp add: degree_def dl li(2) at_def)
    ultimately show ?thesis using l(1,2) d True li(2) i f(9) by (intro exI [of _ l] exI [of _ L]) (simp add: hold_image_def)
  qed
qed

lemma map_zip_same: "zip (map f L) (map g L) = map (\<lambda>e. (f e, g e)) L"
  by (induction L) simp_all

lemma built_targets:
  fixes es :: "'d edge list"
  assumes b: "built p r n hs es zero g0 g ed" and fit: "edges_fit p n es" "n \<le> 2 ^ 31" "length es < 2 ^ 31"
    and v: "v div p < n" "v \<in> set hs \<or> v mod p = r"
  shows "\<exists>l ts. label_to_locator g v = Some l \<and> locator_to_label g l = Some v \<and> is_delegate l = (v \<in> set hs) \<and> (\<not> is_delegate l \<longrightarrow> owner l = r)
    \<and> edge_targets g l = Some ts \<and> degree g l = Some (srcs es v) \<and> local_degree g l = Some (length (held_edges p r (set hs) es v))
    \<and> image_mset (locator_to_label g) (mset ts) = image_mset (\<lambda>e. Some (fst (snd e))) (mset (held_edges p r (set hs) es v))
    \<and> (m_has_edge_data g0 \<longrightarrow> edge_values g ed l = Some (stored_values g ed l) \<and> length (stored_values g ed l) = length ts
         \<and> image_mset (\<lambda>(t, x). (locator_to_label g t, x)) (mset (zip ts (stored_values g ed l)))
         = image_mset (\<lambda>e. (Some (fst (snd e)), edge_value e)) (mset (held_edges p r (set hs) es v)))"
proof -
  note f = built_fields [OF b]
  define held where "held = held_edges p r (set hs) es v"
  obtain l L where l: "label_to_locator g v = Some l" "locator_to_label g l = Some v" "is_delegate l = (v \<in> set hs)"
    "if is_delegate l then Suc (local_id l) < length (m_delegate_info g) else owner l = m_mpi_rank g \<and> Suc (local_id l) < length (m_owned_info g)"
    "stored_targets g l = map (edge_target g) L" "m_has_edge_data g0 \<longrightarrow> stored_values g ed l = map edge_value L"
    "mset L = image_mset (hold_image zero g (m_has_edge_data g0) (v \<in> set hs)) (mset held)" "degree g l = Some (srcs es v)"
    using built_edges [OF b fit v] unfolding held_def by blast
  have known: "locator_to_label g (the (edge_target g e)) = Some (fst (snd e))" if "e \<in> set L" for e
  proof -
    have "e \<in># image_mset (hold_image zero g (m_has_edge_data g0) (v \<in> set hs)) (mset held)" using that by (simp flip: l(7))
    then obtain e' where "e' \<in> set held" "e = hold_image zero g (m_has_edge_data g0) (v \<in> set hs) e'" by auto
    then have "fst (snd e) = fst (snd e')" "e' \<in> set es" by (simp_all add: hold_image_sel held_def held_edges_def)
    then show ?thesis using edge_target_known [OF f(1,3) _ fit(2), of e] fit(1) unfolding edges_fit_def by force
  qed
  have ts: "edge_targets g l = Some (map (the \<circ> edge_target g) L)" "local_degree g l = Some (length L)"
    using edge_targets_eq [OF built_wf(2,3) [OF b fit] l(4)] by (simp_all add: l(5))
  have "length L = length held" using l(7) by (metis size_image_mset size_mset)
  moreover have "image_mset (locator_to_label g) (mset (map (the \<circ> edge_target g) L)) = image_mset (\<lambda>e. Some (fst (snd e))) (mset held)"
  proof -
    have "image_mset (locator_to_label g) (mset (map (the \<circ> edge_target g) L)) = image_mset (\<lambda>e. Some (fst (snd e))) (mset L)"
      using known by (auto simp: image_mset.compositionality o_def intro: image_mset_cong)
    then show ?thesis unfolding l(7) by (simp add: image_mset.compositionality o_def hold_image_sel)
  qed
  moreover have "image_mset (\<lambda>(t, x). (locator_to_label g t, x)) (mset (zip (map (the \<circ> edge_target g) L) (stored_values g ed l)))
    = image_mset (\<lambda>e. (Some (fst (snd e)), edge_value e)) (mset held)" if d: "m_has_edge_data g0"
  proof -
    have "stored_values g ed l = map edge_value L" using l(6) d by simp
    then have "image_mset (\<lambda>(t, x). (locator_to_label g t, x)) (mset (zip (map (the \<circ> edge_target g) L) (stored_values g ed l)))
      = image_mset (\<lambda>e. (Some (fst (snd e)), edge_value e)) (mset L)"
      using known by (auto simp: map_zip_same image_mset.compositionality o_def intro: image_mset_cong)
    then show ?thesis unfolding l(7) using d by (simp add: image_mset.compositionality o_def hold_image_sel)
  qed
  moreover have "edge_values g ed l = Some (stored_values g ed l)" if "m_has_edge_data g0"
    by (rule edge_values_eq [OF l(4) _ built_wf(2,3) [OF b fit]]) (use that l(5,6) in simp)
  moreover have "\<not> is_delegate l \<longrightarrow> owner l = r" using l(4) f(5) by auto
  ultimately show ?thesis using l(1-3,6,8) ts unfolding held_def [symmetric]
    by (intro exI [of _ l] exI [of _ "map (the \<circ> edge_target g) L"]) simp
qed

subsection \<open>The edges of the whole graph\<close>

text \<open>All edges the ranks report for the labels up to \<open>max_vertex\<close>, as pairs of labels.\<close>

definition rank_edges :: "delegate_graph \<Rightarrow> nat \<Rightarrow> (nat \<times> nat) list" where
  "rank_edges g v =
     (case label_to_locator g v of None \<Rightarrow> []
      | Some l \<Rightarrow> if is_delegate l \<or> owner l = m_mpi_rank g then
          (case edge_targets g l of None \<Rightarrow> [] | Some ts \<Rightarrow> map (\<lambda>t. (v, the (locator_to_label g t))) ts) else [])"

definition graph_edges :: "nat \<Rightarrow> delegate_graph list \<Rightarrow> (nat \<times> nat) list" where
  "graph_edges max_vertex gs = concat (map (\<lambda>g. concat (map (rank_edges g) [0..<Suc max_vertex])) gs)"

lemma mset_rank_edges:
  fixes es :: "'d edge list"
  assumes b: "built p r n hs es zero g0 g ed" and fit: "edges_fit p n es" "n \<le> 2 ^ 31" "length es < 2 ^ 31" and v: "v div p < n"
  shows "mset (rank_edges g v) = image_mset (\<lambda>e. (fst e, fst (snd e))) (filter_mset (\<lambda>e. fst e = v \<and> (if v \<in> set hs then fst (snd e) mod p = r else v mod p = r)) (mset es))"
proof (cases "v \<in> set hs \<or> v mod p = r")
  case True
  note f = built_fields [OF b]
  obtain l ts where l: "label_to_locator g v = Some l" "is_delegate l = (v \<in> set hs)" "\<not> is_delegate l \<longrightarrow> owner l = r" "edge_targets g l = Some ts"
    "image_mset (locator_to_label g) (mset ts) = image_mset (\<lambda>e. Some (fst (snd e))) (mset (held_edges p r (set hs) es v))"
    using built_targets [OF b fit v True] by blast
  have "mset (rank_edges g v) = image_mset (\<lambda>x. (v, the x)) (image_mset (locator_to_label g) (mset ts))"
    using l(1-4) True f(5) by (auto simp: rank_edges_def image_mset.compositionality o_def)
  also have "\<dots> = image_mset (\<lambda>e. (v, fst (snd e))) (mset (held_edges p r (set hs) es v))"
    unfolding l(5) by (simp add: image_mset.compositionality o_def)
  also have "\<dots> = image_mset (\<lambda>e. (fst e, fst (snd e))) (mset (held_edges p r (set hs) es v))"
    by (rule image_mset_cong) (simp add: held_edges_def)
  finally show ?thesis using True by (auto simp: held_edges_def intro!: arg_cong [where f = "image_mset _"] filter_mset_cong)
next
  case False
  note f = built_fields [OF b]
  have "v < n * p" using v f(6) by (simp add: div_less_iff_less_mult)
  also have "\<dots> \<le> 2 ^ 40 * p" using fit(2) by (intro mult_right_mono) simp_all
  finally obtain l where l: "label_to_locator g v = Some l" "is_delegate l = is_label_delegate g v" "\<not> is_delegate l \<longrightarrow> owner l = v mod p"
    using label_to_locator_Some [OF hub_tables_labels(1) [OF f(1,3)], of v] f(4) by (auto simp: get_owner_id_def)
  then have "\<not> is_delegate l" "owner l \<noteq> r" using False hub_tables_labels(2) [OF f(1,3)] by simp_all
  then show ?thesis using False l(1) f(5) by (simp add: rank_edges_def)
qed

text \<open>Splitting a list by keys loses and doubles nothing.\<close>

lemma sum_mset_single:
  assumes "distinct xs" "x \<in> set xs"
  shows "(\<Sum>y\<leftarrow>xs. if y = x then A else {#}) = A"
proof -
  have zero: "x \<notin> set ys \<Longrightarrow> (\<Sum>y\<leftarrow>ys. if y = x then A else {#}) = {#}" for ys by (induction ys) auto
  show ?thesis using assms by (induction xs) (auto simp: zero)
qed

lemma sum_split_mset:
  assumes "distinct rs" "distinct vs" "\<And>e. e \<in> set es \<Longrightarrow> own e \<in> set rs \<and> key e \<in> set vs"
  shows "(\<Sum>r\<leftarrow>rs. \<Sum>v\<leftarrow>vs. filter_mset (\<lambda>e. key e = v \<and> own e = r) (mset es)) = mset es"
  using assms(3)
proof (induction es)
  case Nil
  have "(\<Sum>v\<leftarrow>vs. {#}) = {#}" for vs :: "'b list" by (induction vs) simp_all
  moreover have "(\<Sum>r\<leftarrow>rs. {#}) = {#}" for rs :: "'a list" by (induction rs) simp_all
  ultimately show ?case by simp
next
  case (Cons e es)
  have "(\<Sum>v\<leftarrow>vs. filter_mset (\<lambda>e. key e = v \<and> own e = r) (mset (e # es)))
      = (if r = own e then {#e#} else {#}) + (\<Sum>v\<leftarrow>vs. filter_mset (\<lambda>e. key e = v \<and> own e = r) (mset es))" for r
  proof -
    have "(\<Sum>v\<leftarrow>vs. filter_mset (\<lambda>e. key e = v \<and> own e = r) (mset (e # es)))
        = (\<Sum>v\<leftarrow>vs. (if v = key e then (if r = own e then {#e#} else {#}) else {#}) + filter_mset (\<lambda>e. key e = v \<and> own e = r) (mset es))"
      by (rule arg_cong [where f = sum_list]) auto
    then show ?thesis using sum_mset_single [OF assms(2), of "key e" "if r = own e then {#e#} else {#}"] Cons.prems [of e] by (simp add: sum_list_addf)
  qed
  then show ?case using Cons sum_mset_single [OF assms(1), of "own e" "{#e#}"] by (simp add: sum_list_addf)
qed

lemma sum_list_nth_upt_gen: "length xs = p \<Longrightarrow> (\<Sum>x\<leftarrow>xs. f x) = (\<Sum>r\<leftarrow>[0..<p]. f (xs ! r))"
  by (metis map_nth_upt)

lemma mset_concat_map: "mset (concat (map f xs)) = (\<Sum>x\<leftarrow>xs. mset (f x))"
  by (induction xs) simp_all

lemma graph_edges_built:
  fixes es :: "'d edge list"
  assumes b: "\<And>r. r < p \<Longrightarrow> built p r n hs es zero (g0 r) (gs ! r) (eds r)" and p: "0 < p" "length gs = p"
    and fit: "edges_fit p n es" "n \<le> 2 ^ 31" "length es < 2 ^ 31" and m: "\<And>v. v \<le> m \<Longrightarrow> v div p < n" "\<And>e. e \<in> set es \<Longrightarrow> fst e \<le> m"
  shows "mset (graph_edges m gs) = mset (map (\<lambda>e. (fst e, fst (snd e))) es)"
proof -
  define own where "own e = (if fst e \<in> set hs then fst (snd e) mod p else fst e mod p)" for e :: "'d edge"
  have "mset (graph_edges m gs) = (\<Sum>r\<leftarrow>[0..<p]. \<Sum>v\<leftarrow>[0..<Suc m]. mset (rank_edges (gs ! r) v))"
    unfolding graph_edges_def mset_concat_map by (rule sum_list_nth_upt_gen) (rule p(2))
  also have "\<dots> = (\<Sum>r\<leftarrow>[0..<p]. \<Sum>v\<leftarrow>[0..<Suc m]. image_mset (\<lambda>e. (fst e, fst (snd e))) (filter_mset (\<lambda>e. fst e = v \<and> own e = r) (mset es)))"
  proof (intro arg_cong [where f = sum_list] map_cong refl)
    fix r v assume "r \<in> set [0..<p]" "v \<in> set [0..<Suc m]"
    then have r: "r < p" "v div p < n" using m(1) by auto
    show "mset (rank_edges (gs ! r) v) = image_mset (\<lambda>e. (fst e, fst (snd e))) (filter_mset (\<lambda>e. fst e = v \<and> own e = r) (mset es))"
      unfolding mset_rank_edges [OF b [OF r(1)] fit r(2)] by (intro arg_cong [where f = "image_mset _"] filter_mset_cong) (auto simp: own_def)
  qed
  also have "\<dots> = image_mset (\<lambda>e. (fst e, fst (snd e))) (\<Sum>r\<leftarrow>[0..<p]. \<Sum>v\<leftarrow>[0..<Suc m]. filter_mset (\<lambda>e. fst e = v \<and> own e = r) (mset es))"
  proof -
    have "(\<Sum>x\<leftarrow>xs. image_mset h (F x)) = image_mset h (\<Sum>x\<leftarrow>xs. F x)" for h :: "'d edge \<Rightarrow> nat \<times> nat" and F and xs :: "nat list" by (induction xs) simp_all
    then show ?thesis by (simp del: upt_Suc)
  qed
  also have "(\<Sum>r\<leftarrow>[0..<p]. \<Sum>v\<leftarrow>[0..<Suc m]. filter_mset (\<lambda>e. fst e = v \<and> own e = r) (mset es)) = mset es"
    by (rule sum_split_mset) (use p(1) m(2) in \<open>auto simp: own_def less_Suc_eq_le simp del: upt_Suc\<close>)
  finally show ?thesis by simp
qed

end
