(* ===== verification/Constructed_Graph.thy ===== *)
theory Constructed_Graph
  imports Construction_Properties Bfs
begin

section \<open>The constructed graph meets its specification\<close>

subsection \<open>From the conditions to the queries\<close>

lemma construct_graph_result:
  fixes es :: "('d :: linorder) edge list list"
  assumes M: "mpi_ok M" "mpi_ok ME" and ok: "construction_ok max_vertex thr c ppn parts sz es" and stop: "stop_after \<noteq> MetaDataGenerated"
    and eds: "length eds = length es"
  shows "\<exists>sts n hs. construct_graph_with_data M ME sz zero ppn max_vertex thr parts c d stop_after es eds = Some sts \<and> length sts = length es
    \<and> (\<forall>r < length es. built (length es) r n hs (concat es) zero (new_graph (length es) ppn max_vertex thr parts c r d) (fst (sts ! r)) (snd (sts ! r)) \<and> m_graph_state (fst (sts ! r)) = GraphReady)
    \<and> edges_fit (length es) n (concat es) \<and> n \<le> 2 ^ 31 \<and> length (concat es) < 2 ^ 31 \<and> (\<forall>v \<le> max_vertex. v div length es < n)
    \<and> set hs = {v. thr \<le> srcs (concat es) v} \<and> 0 < length es \<and> (\<forall>e \<in> set (concat es). fst e \<le> max_vertex \<and> fst (snd e) \<le> max_vertex)"
proof -
  define p n where "p = length es" and "n = (max_vertex + p - 1) div p + 1"
  have i: "input_ok max_vertex thr c es" using ok by (simp add: construction_ok_def)
  have pos: "0 < p" "0 < thr" "length (concat es) < 2 ^ 31" "\<forall>e \<in> set (concat es). fst e \<le> max_vertex \<and> fst (snd e) \<le> max_vertex"
    using i by (simp_all add: input_ok_def Let_def p_def)
  have fit: "edges_fit p n (concat es)" "n \<le> 2 ^ 31" using input_ok_fit [OF i p_def [symmetric]] by (simp_all add: n_def)
  have small: "v div p < n" if "v \<le> max_vertex" for v
  proof -
    have "v div p \<le> (max_vertex + p - 1) div p" using that pos(1) by (intro div_le_mono) simp
    then show ?thesis by (simp add: n_def)
  qed
  show ?thesis
    using construct_graph_built [OF M ok stop eds p_def n_def refl, of zero d] hub_ids_labels(1) [OF fit(1) pos(1,2)] fit pos small
    unfolding p_def by blast
qed

lemma new_graph_data: "m_has_edge_data (new_graph p ppn max_vertex thr parts c r d) = d"
  by (simp add: new_graph_def Let_def)

lemma construct_graph_plain:
  assumes "construct_graph_with_data M ME sz zero ppn max_vertex thr parts c False stop_after es (replicate (length es) \<lparr>m_owned_edge_data = [], m_delegate_edge_data = []\<rparr>) = Some sts"
  shows "construct_graph M ME sz zero ppn max_vertex thr parts c stop_after es = Some (map fst sts)"
  by (simp add: construct_graph_def assms)

subsection \<open>Properties\<close>

text \<open>
  C2. Building the graph succeeds, and the graph of all ranks together stores the input exactly: the
  edges that the ranks report for all labels, read through \<open>label_to_locator\<close>, the edge iterators and
  \<open>locator_to_label\<close>, are the edges given to all ranks, each as often as it was given.
\<close>

theorem construction_refines_edge_list:
  fixes es :: "('d :: linorder) edge list list"
  assumes "mpi_ok M" "mpi_ok ME" "construction_ok max_vertex thr c ppn parts sz es" "stop_after \<noteq> MetaDataGenerated"
  shows "\<exists>gs. construct_graph M ME sz zero ppn max_vertex thr parts c stop_after es = Some gs \<and> length gs = length es
    \<and> mset (graph_edges max_vertex gs) = mset (map (\<lambda>e. (fst e, fst (snd e))) (concat es))"
proof -
  obtain sts n hs where s: "construct_graph_with_data M ME sz zero ppn max_vertex thr parts c False stop_after es (replicate (length es) \<lparr>m_owned_edge_data = [], m_delegate_edge_data = []\<rparr>) = Some sts"
    "length sts = length es" "\<And>r. r < length es \<Longrightarrow> built (length es) r n hs (concat es) zero (new_graph (length es) ppn max_vertex thr parts c r False) (fst (sts ! r)) (snd (sts ! r))"
    "edges_fit (length es) n (concat es)" "n \<le> 2 ^ 31" "length (concat es) < 2 ^ 31" "\<And>v. v \<le> max_vertex \<Longrightarrow> v div length es < n" "0 < length es"
    "\<And>e. e \<in> set (concat es) \<Longrightarrow> fst e \<le> max_vertex"
    using construct_graph_result [OF assms, of "replicate (length es) \<lparr>m_owned_edge_data = [], m_delegate_edge_data = []\<rparr>" zero False, OF length_replicate] by blast
  have "mset (graph_edges max_vertex (map fst sts)) = mset (map (\<lambda>e. (fst e, fst (snd e))) (concat es))"
    by (rule graph_edges_built [OF _ s(8) _ s(4-7,9)]) (use s(2,3) in simp_all)
  then show ?thesis using construct_graph_plain [OF s(1)] s(2) by (intro exI [of _ "map fst sts"]) simp
qed

text \<open>The input used by the witnesses: label 1 has two edges and is a hub.\<close>

definition demo_edges :: "nat edge list list" where
  "demo_edges = [[(1, 2, 7)], [(1, 0, 8), (0, 3, 9)]]"

lemma demo_ok: "construction_ok 3 2 1 1 1 (16, 24) demo_edges"
  by (simp add: construction_ok_def demo_edges_def input_ok_def sizes_ok_def hub_labels_def numeral_2_eq_2 [symmetric])

lemma demo_srcs: "srcs (concat demo_edges) v = (if v = 1 then 2 else if v = 0 then 1 else 0)"
  by (simp add: demo_edges_def)

theorem construction_refines_edge_list_witness:
  "\<exists>gs. construct_graph plain_mpi plain_mpi (16, 24) 0 1 3 2 1 1 GraphReady demo_edges = Some gs
    \<and> mset (graph_edges 3 gs) = {#(1, 2), (1, 0), (0, 3)#}"
  using construction_refines_edge_list [OF mpi_ok_plain mpi_ok_plain demo_ok, of GraphReady 0] by (auto simp: demo_edges_def)

text \<open>
  C10. What the graph answers about one vertex.  A label is a delegate at every rank if it has at least
  \<open>delegate_degree_threshold\<close> outgoing edges, and then each rank holds exactly its edges whose target
  that rank owns; otherwise its owner holds exactly its edges.  \<open>degree\<close> is the number of its edges in the
  whole input at any rank that holds it, \<open>local_degree\<close> the number of edges held there.
\<close>

theorem constructed_vertex_edges:
  fixes es :: "('d :: linorder) edge list list"
  assumes "mpi_ok M" "mpi_ok ME" "construction_ok max_vertex thr c ppn parts sz es" "stop_after \<noteq> MetaDataGenerated"
  shows "\<exists>gs. construct_graph M ME sz zero ppn max_vertex thr parts c stop_after es = Some gs \<and>
    (\<forall>r < length es. \<forall>v \<le> max_vertex. let g = gs ! r; hub = thr \<le> srcs (concat es) v;
       held = filter (\<lambda>e. fst e = v \<and> (hub \<longrightarrow> fst (snd e) mod length es = r)) (concat es)
     in hub \<or> v mod length es = r \<longrightarrow> (\<exists>l ts. label_to_locator g v = Some l \<and> is_delegate l = hub \<and> edge_targets g l = Some ts
          \<and> image_mset (locator_to_label g) (mset ts) = image_mset (\<lambda>e. Some (fst (snd e))) (mset held)
          \<and> degree g l = Some (srcs (concat es) v) \<and> local_degree g l = Some (length held)))"
proof -
  obtain sts n hs where s: "construct_graph_with_data M ME sz zero ppn max_vertex thr parts c False stop_after es (replicate (length es) \<lparr>m_owned_edge_data = [], m_delegate_edge_data = []\<rparr>) = Some sts"
    "length sts = length es" "\<And>r. r < length es \<Longrightarrow> built (length es) r n hs (concat es) zero (new_graph (length es) ppn max_vertex thr parts c r False) (fst (sts ! r)) (snd (sts ! r))"
    "edges_fit (length es) n (concat es)" "n \<le> 2 ^ 31" "length (concat es) < 2 ^ 31" "\<And>v. v \<le> max_vertex \<Longrightarrow> v div length es < n"
    "set hs = {v. thr \<le> srcs (concat es) v}"
    using construct_graph_result [OF assms, of "replicate (length es) \<lparr>m_owned_edge_data = [], m_delegate_edge_data = []\<rparr>" zero False, OF length_replicate] by blast
  have at: "map fst sts ! r = fst (sts ! r)" if "r < length es" for r using s(2) that by simp
  show ?thesis
    unfolding Let_def
  proof (intro exI [of _ "map fst sts"] conjI allI impI)
    show "construct_graph M ME sz zero ppn max_vertex thr parts c stop_after es = Some (map fst sts)" by (rule construct_graph_plain [OF s(1)])
    fix r v assume r: "r < length es" and v: "v \<le> max_vertex" and hub: "thr \<le> srcs (concat es) v \<or> v mod length es = r"
    have "v \<in> set hs \<or> v mod length es = r" using hub s(8) by simp
    from built_targets [OF s(3) [OF r] s(4-6) s(7) [OF v] this]
    show "\<exists>l ts. label_to_locator (map fst sts ! r) v = Some l \<and> is_delegate l = (thr \<le> srcs (concat es) v) \<and> edge_targets (map fst sts ! r) l = Some ts
      \<and> image_mset (locator_to_label (map fst sts ! r)) (mset ts)
        = image_mset (\<lambda>e. Some (fst (snd e))) (mset (filter (\<lambda>e. fst e = v \<and> (thr \<le> srcs (concat es) v \<longrightarrow> fst (snd e) mod length es = r)) (concat es)))
      \<and> degree (map fst sts ! r) l = Some (srcs (concat es) v)
      \<and> local_degree (map fst sts ! r) l = Some (length (filter (\<lambda>e. fst e = v \<and> (thr \<le> srcs (concat es) v \<longrightarrow> fst (snd e) mod length es = r)) (concat es)))"
      unfolding at [OF r] held_edges_def s(8) mem_Collect_eq by blast
  qed
qed

theorem constructed_vertex_edges_witness:
  "\<exists>gs l ts. construct_graph plain_mpi plain_mpi (16, 24) 0 1 3 2 1 1 GraphReady demo_edges = Some gs \<and> label_to_locator (gs ! 0) 1 = Some l \<and> is_delegate l
    \<and> edge_targets (gs ! 0) l = Some ts \<and> image_mset (locator_to_label (gs ! 0)) (mset ts) = {#Some 2, Some 0#} \<and> degree (gs ! 0) l = Some 2"
proof -
  have len: "length demo_edges = 2" by (simp add: demo_edges_def)
  obtain gs where gs: "construct_graph plain_mpi plain_mpi (16, 24) 0 1 3 2 1 1 GraphReady demo_edges = Some gs"
    and all: "\<forall>r < 2. \<forall>v \<le> 3. let g = gs ! r; hub = 2 \<le> srcs (concat demo_edges) v;
       held = filter (\<lambda>e. fst e = v \<and> (hub \<longrightarrow> fst (snd e) mod 2 = r)) (concat demo_edges)
     in hub \<or> v mod 2 = r \<longrightarrow> (\<exists>l ts. label_to_locator g v = Some l \<and> is_delegate l = hub \<and> edge_targets g l = Some ts
          \<and> image_mset (locator_to_label g) (mset ts) = image_mset (\<lambda>e. Some (fst (snd e))) (mset held)
          \<and> degree g l = Some (srcs (concat demo_edges) v) \<and> local_degree g l = Some (length held))"
    using constructed_vertex_edges [OF mpi_ok_plain mpi_ok_plain demo_ok, of GraphReady 0, unfolded len] by blast
  have "filter (\<lambda>e. fst e = 1 \<and> fst (snd e) mod 2 = 0) (concat demo_edges) = [(1, 2, 7), (1, 0, 8)]" by (simp add: demo_edges_def)
  then show ?thesis using gs all [rule_format, of 0 1] unfolding Let_def by (auto simp: demo_srcs)
qed

text \<open>
  C14. With edge data, every edge keeps its value: reading the targets and the data of a vertex in step
  with an edge iterator gives the pairs of target and value of its edges in the input.
\<close>

theorem constructed_edge_data:
  fixes es :: "('d :: linorder) edge list list"
  assumes "mpi_ok M" "mpi_ok ME" "construction_ok max_vertex thr c ppn parts sz es" "stop_after \<noteq> MetaDataGenerated" "length eds = length es"
  shows "\<exists>sts. construct_graph_with_data M ME sz zero ppn max_vertex thr parts c True stop_after es eds = Some sts \<and>
    (\<forall>r < length es. \<forall>v \<le> max_vertex. let (g, ed) = sts ! r; hub = thr \<le> srcs (concat es) v;
       held = filter (\<lambda>e. fst e = v \<and> (hub \<longrightarrow> fst (snd e) mod length es = r)) (concat es)
     in hub \<or> v mod length es = r \<longrightarrow> (\<exists>l ts xs. label_to_locator g v = Some l \<and> edge_targets g l = Some ts \<and> edge_values g ed l = Some xs
          \<and> length xs = length ts \<and> image_mset (\<lambda>(t, x). (locator_to_label g t, x)) (mset (zip ts xs)) = image_mset (\<lambda>e. (Some (fst (snd e)), snd (snd e))) (mset held)))"
proof -
  obtain sts n hs where s: "construct_graph_with_data M ME sz zero ppn max_vertex thr parts c True stop_after es eds = Some sts"
    "\<And>r. r < length es \<Longrightarrow> built (length es) r n hs (concat es) zero (new_graph (length es) ppn max_vertex thr parts c r True) (fst (sts ! r)) (snd (sts ! r))"
    "edges_fit (length es) n (concat es)" "n \<le> 2 ^ 31" "length (concat es) < 2 ^ 31" "\<And>v. v \<le> max_vertex \<Longrightarrow> v div length es < n"
    "set hs = {v. thr \<le> srcs (concat es) v}"
    using construct_graph_result [OF assms, of zero True] by blast
  show ?thesis
    unfolding Let_def
  proof (intro exI [of _ sts] conjI allI impI)
    show "construct_graph_with_data M ME sz zero ppn max_vertex thr parts c True stop_after es eds = Some sts" by (rule s(1))
    fix r v assume r: "r < length es" and v: "v \<le> max_vertex"
    have "\<exists>l ts xs. label_to_locator (fst (sts ! r)) v = Some l \<and> edge_targets (fst (sts ! r)) l = Some ts \<and> edge_values (fst (sts ! r)) (snd (sts ! r)) l = Some xs
        \<and> length xs = length ts \<and> image_mset (\<lambda>(t, x). (locator_to_label (fst (sts ! r)) t, x)) (mset (zip ts xs))
          = image_mset (\<lambda>e. (Some (fst (snd e)), snd (snd e))) (mset (filter (\<lambda>e. fst e = v \<and> (thr \<le> srcs (concat es) v \<longrightarrow> fst (snd e) mod length es = r)) (concat es)))"
      if "thr \<le> srcs (concat es) v \<or> v mod length es = r"
    proof -
      have "v \<in> set hs \<or> v mod length es = r" using that s(7) by simp
      from built_targets [OF s(2) [OF r] s(3-5) s(6) [OF v] this] show ?thesis
        unfolding held_edges_def s(7) mem_Collect_eq new_graph_data edge_value_def by blast
    qed
    then show "case sts ! r of (g, ed) \<Rightarrow> thr \<le> srcs (concat es) v \<or> v mod length es = r \<longrightarrow>
        (\<exists>l ts xs. label_to_locator g v = Some l \<and> edge_targets g l = Some ts \<and> edge_values g ed l = Some xs
          \<and> length xs = length ts \<and> image_mset (\<lambda>(t, x). (locator_to_label g t, x)) (mset (zip ts xs))
            = image_mset (\<lambda>e. (Some (fst (snd e)), snd (snd e))) (mset (filter (\<lambda>e. fst e = v \<and> (thr \<le> srcs (concat es) v \<longrightarrow> fst (snd e) mod length es = r)) (concat es))))"
      unfolding split_beta by blast
  qed
qed

theorem constructed_edge_data_witness:
  "\<exists>sts l ts xs. construct_graph_with_data plain_mpi plain_mpi (16, 24) 0 1 3 2 1 1 True GraphReady demo_edges
      (replicate 2 \<lparr>m_owned_edge_data = [], m_delegate_edge_data = []\<rparr>) = Some sts
    \<and> edge_targets (fst (sts ! 0)) l = Some ts \<and> edge_values (fst (sts ! 0)) (snd (sts ! 0)) l = Some xs
    \<and> image_mset (\<lambda>(t, x). (locator_to_label (fst (sts ! 0)) t, x)) (mset (zip ts xs)) = {#(Some 3, 9)#}"
proof -
  have len: "length demo_edges = 2" by (simp add: demo_edges_def)
  define eds where "eds = replicate 2 \<lparr>m_owned_edge_data = [] :: nat list, m_delegate_edge_data = []\<rparr>"
  have "length eds = length demo_edges" by (simp add: eds_def len)
  from constructed_edge_data [OF mpi_ok_plain mpi_ok_plain demo_ok _ this, of GraphReady 0, unfolded len]
  obtain sts where sts: "construct_graph_with_data plain_mpi plain_mpi (16, 24) 0 1 3 2 1 1 True GraphReady demo_edges eds = Some sts"
    and all: "\<forall>r < 2. \<forall>v \<le> 3. let (g, ed) = sts ! r; hub = 2 \<le> srcs (concat demo_edges) v;
       held = filter (\<lambda>e. fst e = v \<and> (hub \<longrightarrow> fst (snd e) mod 2 = r)) (concat demo_edges)
     in hub \<or> v mod 2 = r \<longrightarrow> (\<exists>l ts xs. label_to_locator g v = Some l \<and> edge_targets g l = Some ts \<and> edge_values g ed l = Some xs
          \<and> length xs = length ts \<and> image_mset (\<lambda>(t, x). (locator_to_label g t, x)) (mset (zip ts xs)) = image_mset (\<lambda>e. (Some (fst (snd e)), snd (snd e))) (mset held))"
    by auto
  have "filter (\<lambda>e. fst e = 0 \<and> (2 \<le> srcs (concat demo_edges) 0 \<longrightarrow> fst (snd e) mod 2 = 0)) (concat demo_edges) = [(0, 3, 9)]" by (simp add: demo_edges_def)
  with all [rule_format, of 0 0] obtain l ts xs where "edge_targets (fst (sts ! 0)) l = Some ts" "edge_values (fst (sts ! 0)) (snd (sts ! 0)) l = Some xs"
    "image_mset (\<lambda>(t, x). (locator_to_label (fst (sts ! 0)) t, x)) (mset (zip ts xs)) = {#(Some 3, 9)#}"
    unfolding Let_def split_beta by auto
  then show ?thesis using sts unfolding eds_def by blast
qed

text \<open>
  C13. Every constructed graph is well formed at every rank: it is ready, its delegate table and labels
  agree, all offsets point into arrays whose entries have all been written, and the rank's controllers are
  the delegates whose id is its own modulo the number of ranks, so every delegate has exactly one
  controller, its \<open>master\<close>.  These are the conditions the results on labels, iterators and edges need.
\<close>

theorem constructed_graph_well_formed:
  fixes es :: "('d :: linorder) edge list list"
  assumes "mpi_ok M" "mpi_ok ME" "construction_ok max_vertex thr c ppn parts sz es" "stop_after \<noteq> MetaDataGenerated" "length eds = length es"
  shows "\<exists>sts. construct_graph_with_data M ME sz zero ppn max_vertex thr parts c d stop_after es eds = Some sts \<and>
    (\<forall>r < length es. let g = fst (sts ! r) in m_graph_state g = GraphReady \<and> labels_wf g \<and> owned_csr_wf g \<and> delegate_csr_wf g
       \<and> m_delegate_label g = m_delegate_label (fst (sts ! 0))
       \<and> map local_id (Delegate_Graph.controllers g) = filter (\<lambda>i. i mod length es = r) [0..<num_delegates g]
       \<and> list_all (\<lambda>l. is_delegate l \<and> master g l = r) (Delegate_Graph.controllers g))"
proof -
  obtain sts n hs where s: "construct_graph_with_data M ME sz zero ppn max_vertex thr parts c d stop_after es eds = Some sts"
    "\<And>r. r < length es \<Longrightarrow> built (length es) r n hs (concat es) zero (new_graph (length es) ppn max_vertex thr parts c r d) (fst (sts ! r)) (snd (sts ! r)) \<and> m_graph_state (fst (sts ! r)) = GraphReady"
    "edges_fit (length es) n (concat es)" "n \<le> 2 ^ 31" "length (concat es) < 2 ^ 31" "0 < length es"
    using construct_graph_result [OF assms, of zero d] by blast
  have label: "m_delegate_label (fst (sts ! r)) = hs" if "r < length es" for r
    using s(2) [OF that] by (simp add: built_def)
  have ctr: "map local_id (Delegate_Graph.controllers (fst (sts ! r))) = controller_ids (length es) r (length hs)
      \<and> list_all (\<lambda>l. is_delegate l \<and> master (fst (sts ! r)) l = r) (Delegate_Graph.controllers (fst (sts ! r)))" if r: "r < length es" for r
  proof -
    have b: "built (length es) r n hs (concat es) zero (new_graph (length es) ppn max_vertex thr parts c r d) (fst (sts ! r)) (snd (sts ! r))" using s(2) [OF r] by simp
    have c: "m_controller_locators (fst (sts ! r)) = map (\<lambda>i. the (make_locator True i r)) (controller_ids (length es) r (length hs))" using b by (simp add: built_def)
    have t: "length hs \<le> 2 ^ 40" "r < 2 ^ 21" using built_fields(1) [OF b] by (simp_all add: hub_tables_def)
    have "local_id (the (make_locator True i r)) = i \<and> is_delegate (the (make_locator True i r)) \<and> master (fst (sts ! r)) (the (make_locator True i r)) = r"
      if i: "i \<in> set (controller_ids (length es) r (length hs))" for i
      using make_delegate_locator [of i r] i t built_fields(4) [OF b] by (auto simp: controller_ids_def master_def)
    then show ?thesis by (simp add: Delegate_Graph.controllers_def c list_all_iff o_def cong: map_cong)
  qed
  have num: "num_delegates (fst (sts ! r)) = length hs" if "r < length es" for r
  proof -
    have b: "built (length es) r n hs (concat es) zero (new_graph (length es) ppn max_vertex thr parts c r d) (fst (sts ! r)) (snd (sts ! r))" using s(2) [OF that] by simp
    show ?thesis using built_fields(10) [OF b] by (simp add: num_delegates_def)
  qed
  have wf: "labels_wf (fst (sts ! r)) \<and> owned_csr_wf (fst (sts ! r)) \<and> delegate_csr_wf (fst (sts ! r))" if "r < length es" for r
    using built_wf [OF conjunct1 [OF s(2) [OF that]] s(3-5)] by simp
  show ?thesis
    using s(1,2,6) label ctr num wf unfolding controller_ids_def by (intro exI [of _ sts]) (simp add: Let_def)
qed

theorem constructed_graph_well_formed_witness:
  "\<exists>sts. construct_graph_with_data plain_mpi plain_mpi (16, 24) 0 1 3 2 1 1 True GraphReady demo_edges
      (replicate 2 \<lparr>m_owned_edge_data = [], m_delegate_edge_data = []\<rparr>) = Some sts
    \<and> owned_csr_wf (fst (sts ! 0)) \<and> labels_wf (fst (sts ! 1)) \<and> m_graph_state (fst (sts ! 1)) = GraphReady"
proof -
  have "length (replicate 2 \<lparr>m_owned_edge_data = [] :: nat list, m_delegate_edge_data = []\<rparr>) = length demo_edges" by (simp add: demo_edges_def)
  from constructed_graph_well_formed [OF mpi_ok_plain mpi_ok_plain demo_ok _ this, of GraphReady 0 True] show ?thesis
    unfolding Let_def by (force simp: demo_edges_def)
qed

end
