(* ===== verification/Constructed_Search.thy ===== *)
theory Constructed_Search
  imports Constructed_Graph
begin

section \<open>Searching a constructed graph\<close>

text \<open>
  The composition of the two halves of the program: the graph as the visitors see it is read off the
  constructed storage, and the results on traversals are restated over the edges of the input.
\<close>

subsection \<open>The view of the visitors\<close>

text \<open>
  Vertices are named by their labels.  \<open>g_home\<close> is the owner of an ordinary vertex and the master of a
  delegate, as rank 0 computes it, and \<open>g_edges\<close> the labels an edge iterator yields at a rank.
\<close>

definition visitor_view :: "nat \<Rightarrow> delegate_graph list \<Rightarrow> nat dgraph" where
  "visitor_view max_vertex gs =
     \<lparr>g_size = length gs, g_delegate = is_label_delegate (gs ! 0),
      g_home = (\<lambda>v. case label_to_locator (gs ! 0) v of None \<Rightarrow> 0 | Some l \<Rightarrow> if is_delegate l then master (gs ! 0) l else owner l),
      g_edges = (\<lambda>r v. if r < length gs \<and> v \<le> max_vertex then map snd (rank_edges (gs ! r) v) else [])\<rparr>"

text \<open>Walks along the edges of the input.\<close>

inductive edge_walk :: "'d edge list \<Rightarrow> nat \<Rightarrow> nat \<Rightarrow> nat \<Rightarrow> bool" for es s where
  edge_walk_start: "edge_walk es s s 0"
| edge_walk_edge: "edge_walk es s u k \<Longrightarrow> (u, w, x) \<in> set es \<Longrightarrow> edge_walk es s w (Suc k)"

lemma walk_edge_walk:
  assumes "\<And>u w. has_edge G u w \<longleftrightarrow> (\<exists>x. (u, w, x) \<in> set es)"
  shows "walk G s v k \<longleftrightarrow> edge_walk es s v k"
proof
  show "walk G s v k \<Longrightarrow> edge_walk es s v k"
    by (induction rule: walk.induct) (use assms in \<open>auto intro: edge_walk.intros\<close>)
  show "edge_walk es s v k \<Longrightarrow> walk G s v k"
    by (induction rule: edge_walk.induct) (use assms in \<open>auto intro: walk.intros\<close>)
qed

lemma rank_edges_source:
  assumes "e \<in> set (rank_edges g v)"
  shows "fst e = v"
proof -
  have "list_all (\<lambda>e. fst e = v) (rank_edges g v)" by (simp add: rank_edges_def list_all_length split: option.split)
  then show ?thesis using assms by (simp add: list_all_iff)
qed

lemma set_graph_edges: "(u, w) \<in> set (graph_edges m gs) \<longleftrightarrow> u \<le> m \<and> (\<exists>r < length gs. w \<in> snd ` set (rank_edges (gs ! r) u))"
proof -
  have src: "(u, w) \<in> set (rank_edges g v) \<longleftrightarrow> v = u \<and> w \<in> snd ` set (rank_edges g u)" for g v
    using rank_edges_source [of _ g v] by force
  have "set [0..<Suc m] = {v. v \<le> m}" by auto
  then have "set (graph_edges m gs) = (\<Union>g \<in> set gs. \<Union>v \<in> {v. v \<le> m}. set (rank_edges g v))"
    unfolding graph_edges_def set_concat set_map image_image by simp
  then have "(u, w) \<in> set (graph_edges m gs) \<longleftrightarrow> (\<exists>g \<in> set gs. \<exists>v \<le> m. (u, w) \<in> set (rank_edges g v))" by simp
  also have "\<dots> \<longleftrightarrow> u \<le> m \<and> (\<exists>g \<in> set gs. w \<in> snd ` set (rank_edges g u))" unfolding src by blast
  finally show ?thesis by (metis in_set_conv_nth)
qed

text \<open>All ranks translate labels alike, because they hold the same table of hubs.\<close>

lemma built_locators:
  assumes "built p r n hs es zero g0 g ed" "built p r' n hs es zero g0' g' ed'"
  shows "label_to_locator g = label_to_locator g'" "is_label_delegate g = is_label_delegate g'"
  using built_fields(1,4) [OF assms(1)] built_fields(1,4) [OF assms(2)]
  by (simp_all add: label_to_locator_def is_label_delegate_def hub_tables_def fun_eq_iff cong: option.case_cong)

lemma visitor_view_wf:
  fixes es :: "'d edge list"
  assumes b: "\<And>r. r < p \<Longrightarrow> built p r n hs es zero (g0 r) (gs ! r) (eds r)" and p: "0 < p" "length gs = p"
    and fit: "edges_fit p n es" "n \<le> 2 ^ 31" "length es < 2 ^ 31" and m: "\<And>v. v \<le> m \<Longrightarrow> v div p < n" "\<And>e. e \<in> set es \<Longrightarrow> fst e \<le> m \<and> fst (snd e) \<le> m"
  shows "wf_graph (visitor_view m gs) {0..m} (length es)" "has_edge (visitor_view m gs) u w \<longleftrightarrow> (\<exists>x. (u, w, x) \<in> set es)"
proof -
  note f0 = built_fields [OF b [OF p(1)]]
  have home: "g_home (visitor_view m gs) v < p" for v
  proof (cases "label_to_locator (gs ! 0) v")
    case None then show ?thesis using p(1) by (simp add: visitor_view_def)
  next
    case (Some l)
    have "owner l < p" if "\<not> is_delegate l"
    proof (cases "map_of (m_map_delegate_locator (gs ! 0)) v")
      case None then show ?thesis using Some p(1) f0(4) by (auto simp: label_to_locator_def make_locator_Some_iff)
    next
      case s: (Some l')
      then have "is_delegate l'" using hub_tables_labels(1) [OF f0(1,3)] map_of_SomeD [OF s] by (auto simp: labels_wf_def)
      then show ?thesis using s Some that by (simp add: label_to_locator_def)
    qed
    moreover have "master (gs ! 0) l < p" using p(1) f0(4) by (simp add: master_def)
    ultimately show ?thesis using Some by (simp add: visitor_view_def)
  qed
  have place: "r = g_home (visitor_view m gs) v \<or> g_delegate (visitor_view m gs) v" if r: "rank_edges (gs ! r) v \<noteq> []" "r < p" for r v
  proof -
    obtain l where l: "label_to_locator (gs ! r) v = Some l" "is_delegate l \<or> owner l = m_mpi_rank (gs ! r)"
      using r(1) by (auto simp: rank_edges_def split: option.splits if_splits)
    have same: "label_to_locator (gs ! 0) v = Some l" using l(1) built_locators(1) [OF b [OF r(2)] b [OF p(1)]] by simp
    have "g_delegate (visitor_view m gs) v" if "is_delegate l"
    proof (rule ccontr)
      assume "\<not> g_delegate (visitor_view m gs) v"
      then have "map_of (m_map_delegate_locator (gs ! 0)) v = None" by (simp add: visitor_view_def is_label_delegate_def)
      then show False using same that by (auto simp: label_to_locator_def make_locator_Some_iff)
    qed
    then show ?thesis using l(2) same built_fields(5) [OF b [OF r(2)]] by (auto simp: visitor_view_def)
  qed
  have all: "mset (graph_edges m gs) = mset (map (\<lambda>e. (fst e, fst (snd e))) es)"
    by (rule graph_edges_built [OF b p fit m(1)]) (use m(2) in auto)
  have edge: "(u, w) \<in> set (graph_edges m gs) \<longleftrightarrow> (\<exists>x. (u, w, x) \<in> set es)" for u w
  proof -
    have "set (graph_edges m gs) = (\<lambda>e. (fst e, fst (snd e))) ` set es" using all by (metis set_map set_mset_mset)
    then show ?thesis by force
  qed
  show "has_edge (visitor_view m gs) u w \<longleftrightarrow> (\<exists>x. (u, w, x) \<in> set es)"
  proof -
    have "has_edge (visitor_view m gs) u w \<longleftrightarrow> u \<le> m \<and> (\<exists>r < p. w \<in> snd ` set (rank_edges (gs ! r) u))"
    proof
      assume "has_edge (visitor_view m gs) u w"
      then show "u \<le> m \<and> (\<exists>r < p. w \<in> snd ` set (rank_edges (gs ! r) u))"
        by (auto simp: has_edge_def visitor_view_def p(2) split: if_splits)
    next
      assume a: "u \<le> m \<and> (\<exists>r < p. w \<in> snd ` set (rank_edges (gs ! r) u))"
      then obtain r where r: "r < p" "w \<in> snd ` set (rank_edges (gs ! r) u)" by blast
      then have "r = g_home (visitor_view m gs) u \<or> g_delegate (visitor_view m gs) u"
        using place [of r u] by (cases "rank_edges (gs ! r) u") auto
      moreover have "w \<in> set (g_edges (visitor_view m gs) r u)" "r < g_size (visitor_view m gs)" using a r by (simp_all add: visitor_view_def p(2))
      ultimately show "has_edge (visitor_view m gs) u w" unfolding has_edge_def by blast
    qed
    then show ?thesis using edge set_graph_edges [of u w m gs] p(2) by simp
  qed
  have small: "length (rank_edges (gs ! r) v) \<le> length es" if "r < p" "v \<le> m" for r v
  proof -
    have "length (rank_edges (gs ! r) v) = size (mset (rank_edges (gs ! r) v))" by simp
    also have "\<dots> \<le> size (mset es)" unfolding mset_rank_edges [OF b [OF that(1)] fit m(1) [OF that(2)]] size_image_mset by (rule size_filter_mset_lesseq)
    finally show ?thesis by simp
  qed
  have below: "w \<le> m" if "r < p" "v \<le> m" "(a, w) \<in> set (rank_edges (gs ! r) v)" for r v a w
  proof -
    have "w \<in> snd ` set (rank_edges (gs ! r) v)" using that(3) by force
    then have "(v, w) \<in> set (graph_edges m gs)" using that(1,2) set_graph_edges [of v w m gs] p(2) by blast
    then show ?thesis using edge m(2) by force
  qed
  have "set (g_edges (visitor_view m gs) r v) \<subseteq> {0..m} \<and> length (g_edges (visitor_view m gs) r v) \<le> length es" for r v
  proof (cases "r < p \<and> v \<le> m")
    case True
    then have "g_edges (visitor_view m gs) r v = map snd (rank_edges (gs ! r) v)" by (simp add: visitor_view_def p(2))
    then show ?thesis using small [of r v] below [of r v] True by auto
  next
    case False then show ?thesis by (auto simp: visitor_view_def p(2))
  qed
  moreover have "r < p \<and> (r = g_home (visitor_view m gs) v \<or> g_delegate (visitor_view m gs) v)" if "g_edges (visitor_view m gs) r v \<noteq> []" for r v
  proof -
    have "rank_edges (gs ! r) v \<noteq> []" "r < p" using that p(2) by (simp_all add: visitor_view_def split: if_splits)
    then show ?thesis using place by blast
  qed
  moreover have "g_size (visitor_view m gs) = p" by (simp add: visitor_view_def p(2))
  ultimately show "wf_graph (visitor_view m gs) {0..m} (length es)" unfolding wf_graph_def using home by simp
qed

subsection \<open>Breadth-first search from the edge list to the levels\<close>

text \<open>
  C1. Building a graph from an edge list and searching it gives the distances in the edge list: when the
  search over the constructed graph has ended, the level of every label is the least number of input edges
  that lead to it from the source, or 65535 if there is no such path shorter than 65535.  This holds for
  any number of ranks, any threshold of delegates, chunk size and number of partitions, and for every
  order in which visitors are taken and messages arrive.
\<close>

theorem search_of_constructed_graph:
  fixes es :: "('d :: linorder) edge list list"
  assumes "mpi_ok M" "mpi_ok ME" "construction_ok max_vertex thr c ppn parts sz es" "stop_after \<noteq> MetaDataGenerated" "s \<le> max_vertex"
  shows "\<exists>gs. construct_graph M ME sz zero ppn max_vertex thr parts c stop_after es = Some gs \<and>
    (\<forall>parents g v. vq_reach (bfs_traversal (visitor_view max_vertex gs)) (breadth_first_search parents s) g \<and> all_finished (length es) g \<longrightarrow>
       unat (level_of (visitor_view max_vertex gs) (fst g) v)
       = (if \<exists>k < 65535. edge_walk (concat es) s v k then LEAST k. edge_walk (concat es) s v k else 65535))"
proof -
  obtain sts n hs where s: "construct_graph_with_data M ME sz zero ppn max_vertex thr parts c False stop_after es (replicate (length es) \<lparr>m_owned_edge_data = [], m_delegate_edge_data = []\<rparr>) = Some sts"
    "length sts = length es" "\<And>r. r < length es \<Longrightarrow> built (length es) r n hs (concat es) zero (new_graph (length es) ppn max_vertex thr parts c r False) (fst (sts ! r)) (snd (sts ! r))"
    "edges_fit (length es) n (concat es)" "n \<le> 2 ^ 31" "length (concat es) < 2 ^ 31" "\<And>v. v \<le> max_vertex \<Longrightarrow> v div length es < n" "0 < length es"
    "\<And>e. e \<in> set (concat es) \<Longrightarrow> fst e \<le> max_vertex \<and> fst (snd e) \<le> max_vertex"
    using construct_graph_result [OF assms(1-4), of "replicate (length es) \<lparr>m_owned_edge_data = [], m_delegate_edge_data = []\<rparr>" zero False, OF length_replicate] by blast
  define V where "V = visitor_view max_vertex (map fst sts)"
  have b: "built (length es) r n hs (concat es) zero (new_graph (length es) ppn max_vertex thr parts c r False) (map fst sts ! r) (snd (sts ! r))" if "r < length es" for r
    using s(2,3) that by simp
  have len: "length (map fst sts) = length es" using s(2) by simp
  have wf: "wf_graph V {0..max_vertex} (length (concat es))" and walks: "walk V s v k \<longleftrightarrow> edge_walk (concat es) s v k" for v k
    using visitor_view_wf [OF b s(8) len s(4-7,9)] walk_edge_walk [of V "concat es"] unfolding V_def by auto
  have walks: "walk V s v = edge_walk (concat es) s v" for v using walks by (intro ext)
  have size: "g_size V = length es" by (simp add: V_def visitor_view_def s(2))
  have "unat (level_of V (fst g) v) = (if \<exists>k < 65535. edge_walk (concat es) s v k then LEAST k. edge_walk (concat es) s v k else 65535)"
    if "vq_reach (bfs_traversal V) (breadth_first_search parents s) g" "all_finished (length es) g" for parents g v
    by (rule bfs_levels_are_distances [OF wf _ that(1), of v, unfolded size walks]) (use that(2) assms(5) in simp_all)
  then show ?thesis using construct_graph_plain [OF s(1)] unfolding V_def by blast
qed

text \<open>A run over two ranks in which label 0 sends to label 3, for the witness.\<close>

definition two_step_run :: schedule where
  "two_step_run = replicate 11 (Some (0, 0)) @ replicate 4 (Some (1, 0)) @ [None] @ replicate 4 (Some (0, 0)) @ replicate 8 (Some (1, 0)) @ [None]"

lemma two_step_run_ends:
  assumes "g_size G = 2" "\<not> g_delegate G 0" "\<not> g_delegate G 3" "g_home G 0 = 0" "g_home G 3 = 1" "g_edges G 0 0 = [3]" "g_edges G 1 3 = []"
  shows "case run_schedule (bfs_traversal G) two_step_run (breadth_first_search (\<lambda>r n. n) (0 :: nat)) of None \<Rightarrow> False | Some g \<Rightarrow> all_finished 2 g"
  using assms by (simp add: two_step_run_def replicate_run bfs_run)

text \<open>What the visitors see of an ordinary vertex.\<close>

lemma visitor_view_vertex:
  fixes es :: "'d edge list"
  assumes b: "\<And>r. r < p \<Longrightarrow> built p r n hs es zero (g0 r) (gs ! r) (eds r)" and p: "0 < p" "length gs = p"
    and fit: "edges_fit p n es" "n \<le> 2 ^ 31" "length es < 2 ^ 31" and v: "v \<le> m" "v div p < n" "v \<notin> set hs"
  shows "\<not> g_delegate (visitor_view m gs) v" "g_home (visitor_view m gs) v = v mod p"
    "mset (g_edges (visitor_view m gs) (v mod p) v) = image_mset (\<lambda>e. fst (snd e)) (filter_mset (\<lambda>e. fst e = v) (mset es))"
proof -
  note f = built_fields [OF b [OF p(1)]]
  show d: "\<not> g_delegate (visitor_view m gs) v" using hub_tables_labels(2) [OF f(1,3)] v(3) by (simp add: visitor_view_def)
  have "v < n * p" using v(2) p(1) by (simp add: div_less_iff_less_mult)
  also have "\<dots> \<le> 2 ^ 40 * p" using fit(2) by (intro mult_right_mono) simp_all
  finally obtain l where "label_to_locator (gs ! 0) v = Some l" "is_delegate l = is_label_delegate (gs ! 0) v" "\<not> is_delegate l \<longrightarrow> owner l = v mod p"
    using label_to_locator_Some [OF hub_tables_labels(1) [OF f(1,3)], of v] f(4) by (auto simp: get_owner_id_def)
  then show "g_home (visitor_view m gs) v = v mod p" using d by (simp add: visitor_view_def)
  have r: "v mod p < p" using p(1) by simp
  have "mset (g_edges (visitor_view m gs) (v mod p) v) = image_mset snd (mset (rank_edges (gs ! (v mod p)) v))" using r p(2) v(1) by (simp add: visitor_view_def)
  also have "\<dots> = image_mset (\<lambda>e. fst (snd e)) (filter_mset (\<lambda>e. fst e = v) (mset es))"
    unfolding mset_rank_edges [OF b [OF r] fit v(2)] using v(3) by (simp add: image_mset.compositionality o_def)
  finally show "mset (g_edges (visitor_view m gs) (v mod p) v) = image_mset (\<lambda>e. fst (snd e)) (filter_mset (\<lambda>e. fst e = v) (mset es))" .
qed

theorem search_of_constructed_graph_witness:
  "\<exists>gs g. construct_graph plain_mpi plain_mpi (16, 24) 0 1 3 2 1 1 GraphReady demo_edges = Some gs
    \<and> vq_reach (bfs_traversal (visitor_view 3 gs)) (breadth_first_search (\<lambda>r n. n) 0) g \<and> all_finished 2 g
    \<and> unat (level_of (visitor_view 3 gs) (fst g) 3)
      = (if \<exists>k < 65535. edge_walk (concat demo_edges) 0 3 k then LEAST k. edge_walk (concat demo_edges) 0 3 k else 65535)"
proof -
  have len: "length demo_edges = 2" by (simp add: demo_edges_def)
  obtain sts n hs where s: "construct_graph_with_data plain_mpi plain_mpi (16, 24) 0 1 3 2 1 1 False GraphReady demo_edges (replicate (length demo_edges) \<lparr>m_owned_edge_data = [], m_delegate_edge_data = []\<rparr>) = Some sts"
    "length sts = length demo_edges" "\<And>r. r < length demo_edges \<Longrightarrow> built (length demo_edges) r n hs (concat demo_edges) 0 (new_graph (length demo_edges) 1 3 2 1 1 r False) (fst (sts ! r)) (snd (sts ! r))"
    "edges_fit (length demo_edges) n (concat demo_edges)" "n \<le> 2 ^ 31" "length (concat demo_edges) < 2 ^ 31" "\<And>v. v \<le> 3 \<Longrightarrow> v div length demo_edges < n" "set hs = {v. 2 \<le> srcs (concat demo_edges) v}"
    using construct_graph_result [OF mpi_ok_plain mpi_ok_plain demo_ok _ length_replicate, where stop_after = GraphReady and zero = 0 and d = False] by blast
  define V where "V = visitor_view 3 (map fst sts)"
  have b: "built 2 r n hs (concat demo_edges) 0 (new_graph 2 1 3 2 1 1 r False) (map fst sts ! r) (snd (sts ! r))" if "r < 2" for r
    using s(2,3) that by (simp add: len)
  have hubs: "0 \<notin> set hs" "3 \<notin> set hs" by (simp_all add: s(8) demo_srcs)
  have at: "\<not> g_delegate V v" "g_home V v = v mod 2" "mset (g_edges V (v mod 2) v) = image_mset (\<lambda>e. fst (snd e)) (filter_mset (\<lambda>e. fst e = v) (mset (concat demo_edges)))"
    if "v \<le> 3" "v \<notin> set hs" for v
    using visitor_view_vertex [OF b _ _ s(4-6) [unfolded len] that(1) s(7) [OF that(1), unfolded len] that(2)] s(2) by (simp_all add: len V_def)
  have m3: "(3 :: nat) mod 2 = 1" by simp
  have "mset (g_edges V 0 0) = {#3#}" "mset (g_edges V 1 3) = {#}"
    using at(3) [of 0] at(3) [of 3, unfolded m3] hubs by (simp_all add: demo_edges_def)
  then have "g_edges V 0 0 = [3]" "g_edges V 1 3 = []" by simp_all
  then have "case run_schedule (bfs_traversal V) two_step_run (breadth_first_search (\<lambda>r n. n) 0) of None \<Rightarrow> False | Some g \<Rightarrow> all_finished 2 g"
    using at(1,2) [of 0] at(1,2) [of 3] hubs s(2) by (intro two_step_run_ends) (simp_all add: len V_def visitor_view_def)
  then obtain g where g: "run_schedule (bfs_traversal V) two_step_run (breadth_first_search (\<lambda>r n. n) 0) = Some g" "all_finished 2 g"
    by (auto split: option.splits)
  note plain = construct_graph_plain [OF s(1)]
  obtain gs where gs: "construct_graph plain_mpi plain_mpi (16, 24) 0 1 3 2 1 1 GraphReady demo_edges = Some gs"
    "\<forall>parents g v. vq_reach (bfs_traversal (visitor_view 3 gs)) (breadth_first_search parents 0) g \<and> all_finished 2 g \<longrightarrow>
       unat (level_of (visitor_view 3 gs) (fst g) v)
       = (if \<exists>k < 65535. edge_walk (concat demo_edges) 0 v k then LEAST k. edge_walk (concat demo_edges) 0 v k else 65535)"
    using search_of_constructed_graph [OF mpi_ok_plain mpi_ok_plain demo_ok, of GraphReady 0 0] unfolding len by blast
  have "gs = map fst sts" using gs(1) plain by simp
  then have "unat (level_of V (fst g) 3) = (if \<exists>k < 65535. edge_walk (concat demo_edges) 0 3 k then LEAST k. edge_walk (concat demo_edges) 0 3 k else 65535)"
    using gs(2) schedule_reach [OF g(1)] g(2) unfolding V_def by blast
  then show ?thesis using plain schedule_reach [OF g(1)] g(2) unfolding V_def by blast
qed

end
