(* ===== verification/Termination_Detection.thy ===== *)
theory Termination_Detection
  imports Havoq_Prelude "HOL-Library.Monad_Syntax" "HOL-Library.Signed_Division"
begin

section \<open>Termination detection (termination\_detection.hpp)\<close>

text \<open>
  The ranks form a tree with \<open>m_num_tree_children\<close> children each; rank 0 is the root.  In every round
  the root asks for the number of queued and of completed items, the requests travel down the tree and the
  sums travel up.  When two rounds report the same equal pair, the root sends the termination signal down.

  A rank's object is a \<open>td\<close>.  MPI delivers the messages of one tag from one rank to another in the order
  they were sent, after any delay, so \<open>td_world\<close> holds one channel per tag, source and destination, and what
  one call of \<open>test_for_termination\<close> gets to see of it is its argument \<open>td_obs\<close>: whether a probe reports a
  message that is there (it need not yet), in which order the responses of the children come, which sends
  have completed.  A call whose observation asks for a message that is not there is \<open>None\<close>: it does not
  happen.  The response is sent from \<open>m_subtree_status_response\<close> itself, which is not written until the send has completed.
\<close>

subsection \<open>State\<close>

datatype td_state = WaitingInit | WaitingIsendChildren | WaitingRecvChildren | WaitingIsendParent

type_synonym status_response = "u64 \<times> u64"

record td =
  m_num_tree_children :: int
  td_mpi_size :: int
  td_mpi_rank :: int
  m_current_state :: td_state
  m_vec_req_isend_children :: "int list"
  m_num_waiting_recv_children :: int
  m_subtree_status_response :: status_response
  m_previous_subtree_status_response :: status_response
  m_count_queued :: u64
  m_count_completed :: u64

record td_obs =
  sees_terminate :: bool
  sees_query :: bool
  sends_done :: nat
  response_sources :: "int list"
  parent_send_done :: bool

record td_world =
  td_at :: "int \<Rightarrow> td"
  query_msgs :: "int \<Rightarrow> int \<Rightarrow> nat"
  response_msgs :: "int \<Rightarrow> int \<Rightarrow> status_response list"
  terminate_msgs :: "int \<Rightarrow> int \<Rightarrow> nat"

definition send1 :: "int \<Rightarrow> int \<Rightarrow> (int \<Rightarrow> int \<Rightarrow> nat) \<Rightarrow> (int \<Rightarrow> int \<Rightarrow> nat)" where
  "send1 src dest c = c(src := (c src)(dest := c src dest + 1))"

definition recv1 :: "int \<Rightarrow> int \<Rightarrow> (int \<Rightarrow> int \<Rightarrow> nat) \<Rightarrow> (int \<Rightarrow> int \<Rightarrow> nat) option" where
  "recv1 src dest c = (if 0 < c src dest then Some (c(src := (c src)(dest := c src dest - 1))) else None)"

definition set_td :: "int \<Rightarrow> (td \<Rightarrow> td) \<Rightarrow> td_world \<Rightarrow> td_world" where
  "set_td r f w = w\<lparr>td_at := (td_at w)(r := f (td_at w r))\<rparr>"

definition set_td_state :: "int \<Rightarrow> td_state \<Rightarrow> td_world \<Rightarrow> td_world" where
  "set_td_state r s = set_td r (\<lambda>t. t\<lparr>m_current_state := s\<rparr>)"

definition add_response :: "status_response \<Rightarrow> status_response \<Rightarrow> status_response" where
  "add_response a b = (fst a + fst b, snd a + snd b)"

subsection \<open>The tree\<close>

definition parent_rank :: "td \<Rightarrow> int" where
  "parent_rank t = (td_mpi_rank t - 1) sdiv m_num_tree_children t"

definition begin_child_rank :: "td \<Rightarrow> int" where
  "begin_child_rank t = td_mpi_rank t * m_num_tree_children t + 1"

definition is_leaf_rank :: "td \<Rightarrow> bool" where
  "is_leaf_rank t = (begin_child_rank t \<ge> td_mpi_size t)"

definition num_children :: "td \<Rightarrow> int" where
  "num_children t =
     (let to_return = min (m_num_tree_children t) (td_mpi_size t - begin_child_rank t)
      in if to_return < 0 then 0 else to_return)"

definition child_ranks :: "td \<Rightarrow> int list" where
  "child_ranks t = map (\<lambda>i. i + begin_child_rank t) [0..num_children t - 1]"

definition td_new :: "int \<Rightarrow> int \<Rightarrow> int \<Rightarrow> td" where
  "td_new k p r =
     (let t = \<lparr>m_num_tree_children = k, td_mpi_size = p, td_mpi_rank = r, m_current_state = WaitingInit,
               m_vec_req_isend_children = [], m_num_waiting_recv_children = 0, m_subtree_status_response = (0, 0),
               m_previous_subtree_status_response = (- 1, - 1), m_count_queued = 0, m_count_completed = 0\<rparr>
      in t\<lparr>m_num_waiting_recv_children := num_children t\<rparr>)"

subsection \<open>Operations\<close>

definition inc_queued :: "nat \<Rightarrow> td \<Rightarrow> td" where
  "inc_queued i t = t\<lparr>m_count_queued := m_count_queued t + of_nat i\<rparr>"

definition inc_completed :: "nat \<Rightarrow> td \<Rightarrow> td" where
  "inc_completed i t = t\<lparr>m_count_completed := m_count_completed t + of_nat i\<rparr>"

definition send_terminate_to_children :: "int \<Rightarrow> td_world \<Rightarrow> td_world" where
  "send_terminate_to_children r w = w\<lparr>terminate_msgs := fold (send1 r) (child_ranks (td_at w r)) (terminate_msgs w)\<rparr>"

definition send_query_status_to_children :: "int \<Rightarrow> td_world \<Rightarrow> td_world" where
  "send_query_status_to_children r w =
     (let cs = child_ranks (td_at w r)
      in set_td r (\<lambda>t. t\<lparr>m_vec_req_isend_children := m_vec_req_isend_children t @ cs\<rparr>)
           (w\<lparr>query_msgs := fold (send1 r) cs (query_msgs w)\<rparr>))"

definition isend_status_response_to_parent :: "int \<Rightarrow> td_world \<Rightarrow> td_world option" where
  "isend_status_response_to_parent r w =
     (let t = td_at w r; p = parent_rank t in
      if 0 \<le> p then Some (w\<lparr>response_msgs := (response_msgs w)(r := (response_msgs w r)(p := response_msgs w r p @ [m_subtree_status_response t]))\<rparr>)
      else None)"

definition handle_waiting_init :: "int \<Rightarrow> td_obs \<Rightarrow> td_world \<Rightarrow> (bool \<times> td_world) option" where
  "handle_waiting_init r ob w =
     (let w = set_td r (\<lambda>t. t\<lparr>m_subtree_status_response := (0, 0)\<rparr>) w; t = td_at w r in
      if td_mpi_rank t = 0 then
        Some (False, set_td_state r WaitingIsendChildren (send_query_status_to_children r w))
      else if sees_terminate ob then do {
        c \<leftarrow> recv1 (parent_rank t) r (terminate_msgs w);
        Some (True, set_td_state r WaitingInit (send_terminate_to_children r (w\<lparr>terminate_msgs := c\<rparr>))) }
      else if sees_query ob then do {
        c \<leftarrow> recv1 (parent_rank t) r (query_msgs w);
        Some (False, set_td_state r WaitingIsendChildren (send_query_status_to_children r (w\<lparr>query_msgs := c\<rparr>))) }
      else Some (False, w))"

definition handle_waiting_isend_children :: "int \<Rightarrow> td_obs \<Rightarrow> td_world \<Rightarrow> (bool \<times> td_world) option" where
  "handle_waiting_isend_children r ob w =
     (let w = set_td r (\<lambda>t. t\<lparr>m_vec_req_isend_children :=
                take (length (m_vec_req_isend_children t) - sends_done ob) (m_vec_req_isend_children t)\<rparr>) w
      in Some (False, if m_vec_req_isend_children (td_at w r) = [] then set_td_state r WaitingRecvChildren w else w))"

fun recv_responses :: "int \<Rightarrow> int list \<Rightarrow> td_world \<Rightarrow> td_world option" where
  "recv_responses r [] w = Some w"
| "recv_responses r (src # srcs) w =
     (case response_msgs w src r of
        [] \<Rightarrow> None
      | recv_buf # rest \<Rightarrow>
          recv_responses r srcs
            (set_td r (\<lambda>t. t\<lparr>m_num_waiting_recv_children := m_num_waiting_recv_children t - 1,
                              m_subtree_status_response := add_response (m_subtree_status_response t) recv_buf\<rparr>)
               (w\<lparr>response_msgs := (response_msgs w)(src := (response_msgs w src)(r := rest))\<rparr>)))"

definition add_own_counts :: "td \<Rightarrow> td" where
  "add_own_counts t =
     t\<lparr>m_subtree_status_response := add_response (m_subtree_status_response t) (m_count_queued t, m_count_completed t)\<rparr>"

definition handle_waiting_recv_children :: "int \<Rightarrow> td_obs \<Rightarrow> td_world \<Rightarrow> (bool \<times> td_world) option" where
  "handle_waiting_recv_children r ob w =
     (if is_leaf_rank (td_at w r) then do {
        w \<leftarrow> isend_status_response_to_parent r (set_td r add_own_counts w);
        Some (False, set_td_state r WaitingIsendParent w) }
      else do {
        w \<leftarrow> recv_responses r (response_sources ob) w;
        if m_num_waiting_recv_children (td_at w r) = 0 then
          (let w = set_td r add_own_counts (set_td r (\<lambda>t. t\<lparr>m_num_waiting_recv_children := num_children t\<rparr>) w);
               t = td_at w r; sub = m_subtree_status_response t
           in if td_mpi_rank t = 0 then
                (if fst sub = snd sub then
                   (if sub = m_previous_subtree_status_response t
                    then Some (True, set_td_state r WaitingInit (send_terminate_to_children r w))
                    else Some (False, set_td_state r WaitingInit (set_td r (\<lambda>t. t\<lparr>m_previous_subtree_status_response := sub\<rparr>) w)))
                 else Some (False, set_td_state r WaitingInit w))
              else do {
                w \<leftarrow> isend_status_response_to_parent r w;
                Some (False, set_td_state r WaitingIsendParent w) })
        else Some (False, w) })"

definition handle_waiting_isend_parent :: "int \<Rightarrow> td_obs \<Rightarrow> td_world \<Rightarrow> (bool \<times> td_world) option" where
  "handle_waiting_isend_parent r ob w =
     Some (False, if parent_send_done ob then set_td_state r WaitingInit w else w)"

definition test_for_termination :: "int \<Rightarrow> td_obs \<Rightarrow> td_world \<Rightarrow> (bool \<times> td_world) option" where
  "test_for_termination r ob w =
     (case m_current_state (td_at w r) of
        WaitingInit \<Rightarrow> handle_waiting_init r ob w
      | WaitingIsendChildren \<Rightarrow> handle_waiting_isend_children r ob w
      | WaitingRecvChildren \<Rightarrow> handle_waiting_recv_children r ob w
      | WaitingIsendParent \<Rightarrow> handle_waiting_isend_parent r ob w)"

subsection \<open>A program that waits for termination\<close>

text \<open>
  The main loops of mailbox\_rate\_test.cpp and new\_mailbox\_rate\_test.cpp: a rank queues its own items before it tests for the first
  time, and afterwards items are queued or completed only while one that was queued has not been completed.
  A rank stops calling when the test has returned true.  \<open>busy\<close> and \<open>returned\<close> are where each rank is in its
  loop.  The program queues fewer than \<open>2 ^ 64 - 1\<close> items in all.
\<close>

record td_run =
  world :: td_world
  busy :: "int \<Rightarrow> bool"
  returned :: "int \<Rightarrow> bool"

definition total_queued :: "int \<Rightarrow> td_run \<Rightarrow> nat" where
  "total_queued p s = (\<Sum>r \<in> {0..<p}. unat (m_count_queued (td_at (world s) r)))"

definition total_completed :: "int \<Rightarrow> td_run \<Rightarrow> nat" where
  "total_completed p s = (\<Sum>r \<in> {0..<p}. unat (m_count_completed (td_at (world s) r)))"

definition td_run_start :: "int \<Rightarrow> int \<Rightarrow> td_run" where
  "td_run_start k p =
     \<lparr>world = \<lparr>td_at = td_new k p, query_msgs = (\<lambda>_ _. 0), response_msgs = (\<lambda>_ _. []), terminate_msgs = (\<lambda>_ _. 0)\<rparr>,
      busy = (\<lambda>_. True), returned = (\<lambda>_. False)\<rparr>"

definition run_queue :: "int \<Rightarrow> int \<Rightarrow> nat \<Rightarrow> td_run \<Rightarrow> td_run option" where
  "run_queue p r n s =
     (if (busy s r \<or> total_completed p s < total_queued p s) \<and> int (total_queued p s) + int n < 2 ^ 64 - 1
      then Some (s\<lparr>world := set_td r (inc_queued n) (world s)\<rparr>) else None)"

definition run_complete :: "int \<Rightarrow> int \<Rightarrow> nat \<Rightarrow> td_run \<Rightarrow> td_run option" where
  "run_complete p r n s =
     (if total_completed p s + n \<le> total_queued p s
      then Some (s\<lparr>world := set_td r (inc_completed n) (world s)\<rparr>) else None)"

definition run_test :: "int \<Rightarrow> td_obs \<Rightarrow> td_run \<Rightarrow> td_run option" where
  "run_test r ob s =
     (if busy s r \<or> returned s r then None
      else case test_for_termination r ob (world s) of
          None \<Rightarrow> None
        | Some (b, w) \<Rightarrow> Some (s\<lparr>world := w, returned := (returned s)(r := b)\<rparr>))"

inductive td_step :: "int \<Rightarrow> td_run \<Rightarrow> td_run \<Rightarrow> bool" for p where
  queue: "0 \<le> r \<Longrightarrow> r < p \<Longrightarrow> run_queue p r n s = Some s' \<Longrightarrow> td_step p s s'"
| complete: "0 \<le> r \<Longrightarrow> r < p \<Longrightarrow> run_complete p r n s = Some s' \<Longrightarrow> td_step p s s'"
| idle: "0 \<le> r \<Longrightarrow> r < p \<Longrightarrow> td_step p s (s\<lparr>busy := (busy s)(r := False)\<rparr>)"
| test: "0 \<le> r \<Longrightarrow> r < p \<Longrightarrow> run_test r ob s = Some s' \<Longrightarrow> td_step p s s'"

subsection \<open>Concrete runs\<close>

datatype td_event = Queue int nat | Complete int nat | Ready int | Test int td_obs

fun td_event_run :: "int \<Rightarrow> td_event \<Rightarrow> td_run \<Rightarrow> td_run option" where
  "td_event_run p (Queue r n) s = (if 0 \<le> r \<and> r < p then run_queue p r n s else None)"
| "td_event_run p (Complete r n) s = (if 0 \<le> r \<and> r < p then run_complete p r n s else None)"
| "td_event_run p (Ready r) s = (if 0 \<le> r \<and> r < p then Some (s\<lparr>busy := (busy s)(r := False)\<rparr>) else None)"
| "td_event_run p (Test r ob) s = (if 0 \<le> r \<and> r < p then run_test r ob s else None)"

fun td_exec :: "int \<Rightarrow> td_event list \<Rightarrow> td_run \<Rightarrow> td_run option" where
  "td_exec p [] s = Some s"
| "td_exec p (e # es) s = (case td_event_run p e s of None \<Rightarrow> None | Some s' \<Rightarrow> td_exec p es s')"

lemma td_exec_reaches: "td_exec p es s = Some s' \<Longrightarrow> (td_step p)\<^sup>*\<^sup>* s s'"
proof (induction es arbitrary: s)
  case (Cons e es)
  then obtain s1 where s1: "td_event_run p e s = Some s1" "td_exec p es s1 = Some s'" by (auto split: option.splits)
  have "td_step p s s1" using s1(1) by (cases e) (auto intro: td_step.intros split: if_splits)
  then show ?case using Cons.IH [OF s1(2)] by (rule converse_rtranclp_into_rtranclp)
qed simp

definition eager :: "td_obs" where
  "eager = \<lparr>sees_terminate = False, sees_query = True, sends_done = 1, response_sources = [1], parent_send_done = True\<rparr>"

definition two_rank_round :: "td_event list" where
  "two_rank_round = [Test 0 eager, Test 1 eager, Test 0 eager, Test 1 eager, Test 1 eager, Test 0 eager, Test 1 eager]"

definition two_rank_run :: "td_event list" where
  "two_rank_run = [Queue 0 3, Ready 0, Ready 1, Test 0 eager, Complete 1 3, Test 1 eager, Test 0 eager, Test 1 eager, Test 1 eager, Test 0 eager, Test 1 eager]
     @ two_rank_round @ [Test 1 (eager\<lparr>sees_terminate := True\<rparr>)]"

end
