(* ===== verification/Termination_Invariant.thy ===== *)
theory Termination_Invariant
  imports Termination_Detection
begin

section \<open>What holds during a round of termination detection\<close>

text \<open>
  The tree of ranks, the channels, and the invariant of a run.  Within a round every rank has a phase:
  not asked yet, asked, asking its children, response under way to the parent, response taken by the
  parent.  The phases, the responses under way and the counts a rank reported in this round are parameters of
  the invariant; they are not part of the program's state.
\<close>

subsection \<open>The tree\<close>

definition par :: "int \<Rightarrow> int \<Rightarrow> int" where
  "par k r = (r - 1) div k"

definition kids :: "int \<Rightarrow> int \<Rightarrow> int \<Rightarrow> int set" where
  "kids k p r = {c \<in> {1..<p}. par k c = r}"

definition configured :: "int \<Rightarrow> int \<Rightarrow> int \<Rightarrow> td \<Rightarrow> bool" where
  "configured k p r t \<longleftrightarrow> td_mpi_rank t = r \<and> td_mpi_size t = p \<and> m_num_tree_children t = k"

lemma par_bounds:
  assumes "1 \<le> k" "1 \<le> r"
  shows "0 \<le> par k r" "par k r < r"
proof -
  show "0 \<le> par k r" using assms by (simp add: par_def pos_imp_zdiv_nonneg_iff)
  have "par k r \<le> r - 1" using assms unfolding par_def by (metis div_by_1 diff_ge_0_iff_ge zdiv_mono2 zero_less_one)
  then show "par k r < r" by simp
qed

lemma parent_rank_eq:
  assumes "configured k p r t" "1 \<le> k" "1 \<le> r"
  shows "parent_rank t = par k r"
  using assms by (cases "r = 1") (simp_all add: parent_rank_def configured_def par_def signed_divide_int_def)

lemma par_eq_iff:
  assumes "1 \<le> k"
  shows "par k c = r \<longleftrightarrow> r * k + 1 \<le> c \<and> c \<le> r * k + k"
proof
  assume "par k c = r"
  then have "c - 1 = r * k + (c - 1) mod k" unfolding par_def by (metis div_mult_mod_eq)
  then show "r * k + 1 \<le> c \<and> c \<le> r * k + k" using pos_mod_bound [of k "c - 1"] pos_mod_sign [of k "c - 1"] assms by linarith
next
  assume c: "r * k + 1 \<le> c \<and> c \<le> r * k + k"
  show "par k c = r" unfolding par_def by (rule int_div_pos_eq [of _ _ _ "c - 1 - r * k"]) (use c in \<open>simp_all add: algebra_simps\<close>)
qed

lemma child_ranks_eq:
  assumes "configured k p r t" "1 \<le> k" "0 \<le> r"
  shows "set (child_ranks t) = kids k p r" "distinct (child_ranks t)" "num_children t = int (card (kids k p r))"
    "is_leaf_rank t \<longleftrightarrow> kids k p r = {}"
proof -
  have nn: "0 \<le> r * k" using assms(2,3) by simp
  have n: "num_children t = max 0 (min k (p - (r * k + 1)))" using assms(1) by (auto simp: num_children_def Let_def begin_child_rank_def configured_def max_def)
  have "kids k p r = {r * k + 1..<r * k + 1 + num_children t}"
    using nn by (auto simp: kids_def par_eq_iff [OF assms(2)] n)
  moreover have "set (child_ranks t) = {r * k + 1..<r * k + 1 + num_children t}"
    using assms(1) by (auto simp: child_ranks_def begin_child_rank_def configured_def image_iff algebra_simps intro!: bexI [of _ "x - (r * k + 1)" for x])
  ultimately show s: "set (child_ranks t) = kids k p r" by simp
  show d: "distinct (child_ranks t)" by (simp add: child_ranks_def distinct_map inj_on_def)
  show "num_children t = int (card (kids k p r))"
    unfolding s [symmetric] distinct_card [OF d] by (simp add: child_ranks_def n)
  show "is_leaf_rank t \<longleftrightarrow> kids k p r = {}"
    using assms(1) nn \<open>kids k p r = {r * k + 1..<r * k + 1 + num_children t}\<close> assms(2) by (auto simp: is_leaf_rank_def begin_child_rank_def configured_def n)
qed

lemma kids_finite [simp]: "finite (kids k p r)"
  by (rule finite_subset [of _ "{1..<p}"]) (auto simp: kids_def)

lemma kidsD: "c \<in> kids k p r \<Longrightarrow> 1 \<le> c \<and> c < p \<and> par k c = r"
  by (simp add: kids_def)

lemma root_has_kid: "1 \<le> k \<Longrightarrow> 2 \<le> p \<Longrightarrow> 1 \<in> kids k p 0"
  by (simp add: kids_def par_def)

subsection \<open>Channels and ranks\<close>

lemma send1_fold:
  "distinct cs \<Longrightarrow> fold (send1 r) cs c = (\<lambda>s d. c s d + of_bool (s = r \<and> d \<in> set cs))"
proof (induction cs arbitrary: c)
  case (Cons x xs)
  then show ?case by (auto simp: send1_def fun_eq_iff)
qed simp

lemma td_at_set_td [simp]:
  "td_at (set_td r f w) = (td_at w)(r := f (td_at w r))"
  "query_msgs (set_td r f w) = query_msgs w" "response_msgs (set_td r f w) = response_msgs w" "terminate_msgs (set_td r f w) = terminate_msgs w"
  by (simp_all add: set_td_def)

lemma td_at_set_td_state [simp]:
  "td_at (set_td_state r st w) = (td_at w)(r := (td_at w r)\<lparr>m_current_state := st\<rparr>)"
  "query_msgs (set_td_state r st w) = query_msgs w" "response_msgs (set_td_state r st w) = response_msgs w" "terminate_msgs (set_td_state r st w) = terminate_msgs w"
  by (simp_all add: set_td_state_def)

lemma configured_upd [simp]:
  "configured k p r (t\<lparr>m_current_state := a\<rparr>) = configured k p r t" "configured k p r (t\<lparr>m_vec_req_isend_children := b\<rparr>) = configured k p r t"
  "configured k p r (t\<lparr>m_num_waiting_recv_children := c\<rparr>) = configured k p r t" "configured k p r (t\<lparr>m_subtree_status_response := d\<rparr>) = configured k p r t"
  "configured k p r (t\<lparr>m_previous_subtree_status_response := e\<rparr>) = configured k p r t" "configured k p r (t\<lparr>m_count_queued := f\<rparr>) = configured k p r t"
  "configured k p r (t\<lparr>m_count_completed := f\<rparr>) = configured k p r t"
  by (simp_all add: configured_def)

subsection \<open>Phases of a round\<close>

datatype phase = Idle | Queried | Active | Responded | Absorbed

fun fits :: "phase \<Rightarrow> phase \<Rightarrow> bool" where
  "fits Active q = (q \<noteq> Idle)"
| "fits Idle q = (q = Idle)"
| "fits Queried q = (q = Idle)"
| "fits Responded q = (q = Absorbed)"
| "fits Absorbed q = (q = Absorbed)"

definition waiting_kids :: "int \<Rightarrow> int \<Rightarrow> (int \<Rightarrow> phase) \<Rightarrow> int \<Rightarrow> int set" where
  "waiting_kids k p ph r = {c \<in> kids k p r. ph r = Active \<longrightarrow> ph c \<noteq> Absorbed}"

definition rank_inv :: "int \<Rightarrow> int \<Rightarrow> (int \<Rightarrow> phase) \<Rightarrow> td \<Rightarrow> int \<Rightarrow> bool" where
  "rank_inv k p ph t r \<longleftrightarrow> configured k p r t
     \<and> (ph r = Active \<longleftrightarrow> m_current_state t \<in> {WaitingIsendChildren, WaitingRecvChildren})
     \<and> (r = 0 \<longrightarrow> m_current_state t \<noteq> WaitingIsendParent)
     \<and> m_num_waiting_recv_children t = int (card (waiting_kids k p ph r))
     \<and> (0 < r \<longrightarrow> fits (ph (par k r)) (ph r))"

definition query_net :: "int \<Rightarrow> (int \<Rightarrow> phase) \<Rightarrow> int \<Rightarrow> int \<Rightarrow> nat" where
  "query_net k ph s d = of_bool (s = par k d \<and> ph d = Queried)"

definition response_net :: "int \<Rightarrow> (int \<Rightarrow> phase) \<Rightarrow> (int \<Rightarrow> status_response) \<Rightarrow> int \<Rightarrow> int \<Rightarrow> status_response list" where
  "response_net k ph pay s d = (if d = par k s \<and> ph s = Responded then [pay s] else [])"

definition wave_inv :: "int \<Rightarrow> int \<Rightarrow> (int \<Rightarrow> phase) \<Rightarrow> (int \<Rightarrow> status_response) \<Rightarrow> td_world \<Rightarrow> bool" where
  "wave_inv k p ph pay w \<longleftrightarrow> (\<forall>r. ph r \<noteq> Idle \<longrightarrow> 0 \<le> r \<and> r < p) \<and> ph 0 \<in> {Idle, Active}
     \<and> query_msgs w = query_net k ph \<and> response_msgs w = response_net k ph pay
     \<and> (\<forall>r \<in> {0..<p}. rank_inv k p ph (td_at w r) r)"

lemma wave_invI:
  assumes "\<And>r. ph r \<noteq> Idle \<Longrightarrow> 0 \<le> r \<and> r < p" "ph 0 \<in> {Idle, Active}" "query_msgs w = query_net k ph"
    "response_msgs w = response_net k ph pay" "\<And>r. 0 \<le> r \<Longrightarrow> r < p \<Longrightarrow> rank_inv k p ph (td_at w r) r"
  shows "wave_inv k p ph pay w"
  using assms by (simp add: wave_inv_def)

lemma wave_invD:
  assumes "wave_inv k p ph pay w"
  shows "ph r \<noteq> Idle \<Longrightarrow> 0 \<le> r \<and> r < p" "ph 0 \<in> {Idle, Active}" "query_msgs w = query_net k ph"
    "response_msgs w = response_net k ph pay" "0 \<le> r \<Longrightarrow> r < p \<Longrightarrow> rank_inv k p ph (td_at w r) r"
  using assms by (simp_all add: wave_inv_def)

lemma rank_invD:
  assumes "rank_inv k p ph t r"
  shows "configured k p r t" "ph r = Active \<longleftrightarrow> m_current_state t \<in> {WaitingIsendChildren, WaitingRecvChildren}"
    "m_num_waiting_recv_children t = int (card (waiting_kids k p ph r))" "0 < r \<Longrightarrow> fits (ph (par k r)) (ph r)" "r = 0 \<Longrightarrow> m_current_state t \<noteq> WaitingIsendParent"
  using assms by (simp_all add: rank_inv_def)

lemma kid_fits: "wave_inv k p ph pay w \<Longrightarrow> c \<in> kids k p r \<Longrightarrow> fits (ph r) (ph c)"
  using wave_invD(5) [of k p ph pay w c] rank_invD(4) [of k p ph "td_at w c" c] by (auto dest: kidsD)

lemma kid_par: "1 \<le> r \<Longrightarrow> r < p \<Longrightarrow> r \<in> kids k p (par k r)"
  by (simp add: kids_def)

lemma waiting_kids_cong:
  "ph' r = Active \<longleftrightarrow> ph r = Active \<Longrightarrow> (\<And>c. c \<in> kids k p r \<Longrightarrow> ph' c = Absorbed \<longleftrightarrow> ph c = Absorbed) \<Longrightarrow> waiting_kids k p ph' r = waiting_kids k p ph r"
  by (auto simp: waiting_kids_def)

lemma all_absorbed:
  assumes inv: "wave_inv k p ph pay w" and k: "1 \<le> k" and root: "\<And>c. c \<in> kids k p 0 \<Longrightarrow> ph c = Absorbed" and r: "1 \<le> r" "r < p"
  shows "ph r = Absorbed"
  using r
proof (induction "nat r" arbitrary: r rule: less_induct)
  case less
  have b: "0 \<le> par k r" "par k r < r" using par_bounds [OF k less(2)] by simp_all
  show ?case
  proof (cases "par k r = 0")
    case True then show ?thesis using root [of r] less(2,3) by (simp add: kids_def)
  next
    case False
    then have "ph (par k r) = Absorbed" using less(1) [of "par k r"] b less(3) by simp
    then show ?thesis using kid_fits [OF inv kid_par [OF less(2,3), of k]] by simp
  qed
qed

lemma all_idle:
  assumes inv: "wave_inv k p ph pay w" and k: "1 \<le> k" and root: "ph 0 = Idle"
  shows "ph r = Idle"
proof (cases "1 \<le> r \<and> r < p")
  case True
  then have "1 \<le> r" "r < p" by simp_all
  then show ?thesis
  proof (induction "nat r" arbitrary: r rule: less_induct)
    case less
    have b: "0 \<le> par k r" "par k r < r" using par_bounds [OF k less(2)] by simp_all
    have "ph (par k r) = Idle" using less(1) [of "par k r"] b less(3) root by (cases "par k r = 0") simp_all
    then show ?case using kid_fits [OF inv kid_par [OF less(2,3), of k]] by simp
  qed
next
  case False
  then show ?thesis using wave_invD(1) [OF inv, of r] root by (cases "ph r = Idle"; cases "r = 0") auto
qed

lemma wave_inv_same:
  assumes "wave_inv k p ph pay w" "query_msgs w' = query_msgs w" "response_msgs w' = response_msgs w"
    "\<And>r. 0 \<le> r \<Longrightarrow> r < p \<Longrightarrow> configured k p r (td_at w r) \<Longrightarrow> configured k p r (td_at w' r)
       \<and> (m_current_state (td_at w' r) = m_current_state (td_at w r) \<or> (m_current_state (td_at w r), m_current_state (td_at w' r)) \<in> {(WaitingIsendChildren, WaitingRecvChildren), (WaitingIsendParent, WaitingInit)})
       \<and> m_num_waiting_recv_children (td_at w' r) = m_num_waiting_recv_children (td_at w r)"
  shows "wave_inv k p ph pay w'"
proof (rule wave_invI)
  fix r assume r: "0 \<le> r" "r < p"
  note i = wave_invD(5) [OF assms(1) r]
  note n = assms(4) [OF r rank_invD(1) [OF i]]
  show "rank_inv k p ph (td_at w' r) r"
    using n rank_invD(2-) [OF i] unfolding rank_inv_def by auto
qed (use assms(2,3) wave_invD [OF assms(1)] in auto)

subsection \<open>The transitions of a round\<close>

definition begin_phase :: "int \<Rightarrow> int \<Rightarrow> int \<Rightarrow> (int \<Rightarrow> phase) \<Rightarrow> int \<Rightarrow> phase" where
  "begin_phase k p r ph = (\<lambda>x. if x = r then Active else if x \<in> kids k p r then Queried else ph x)"

lemma not_own_kid: "1 \<le> k \<Longrightarrow> r \<notin> kids k p r"
  using par_bounds(2) [of k r] by (auto dest!: kidsD)

lemma wave_begin:
  assumes inv: "wave_inv k p ph pay w" and k: "1 \<le> k" and r: "0 \<le> r" "r < p" and ph: "ph r = Queried \<or> r = 0 \<and> ph r = Idle"
    and w': "query_msgs w' = query_net k (begin_phase k p r ph)" "response_msgs w' = response_msgs w" "\<And>x. x \<noteq> r \<Longrightarrow> td_at w' x = td_at w x"
    "configured k p r (td_at w' r)" "m_current_state (td_at w' r) = WaitingIsendChildren" "m_num_waiting_recv_children (td_at w' r) = m_num_waiting_recv_children (td_at w r)"
  shows "wave_inv k p (begin_phase k p r ph) pay w'"
proof (rule wave_invI)
  note D = wave_invD [OF inv]
  let ?ph = "begin_phase k p r ph"
  have idle: "ph c = Idle" if "c \<in> kids k p r" for c
    using kid_fits [OF inv that] ph by auto
  have own: "r \<notin> kids k p r" by (rule not_own_kid [OF k])
  show "response_msgs w' = response_net k ?ph pay"
    unfolding w'(2) D(4) using idle ph own by (auto simp: response_net_def fun_eq_iff begin_phase_def)
  show "0 \<le> x \<and> x < p" if "?ph x \<noteq> Idle" for x
    using that D(1) [of x] r by (auto simp: begin_phase_def dest: kidsD split: if_splits)
  show "?ph 0 \<in> {Idle, Active}" using D(2) by (auto simp: begin_phase_def dest: kidsD)
  fix x assume x: "0 \<le> x" "x < p"
  note i = D(5) [OF x]
  have wk: "waiting_kids k p ?ph x = waiting_kids k p ph x" if "x \<noteq> r"
    using that idle ph by (intro waiting_kids_cong) (auto simp: begin_phase_def dest: kidsD)
  have wr: "waiting_kids k p ?ph r = waiting_kids k p ph r"
    using ph own by (auto simp: waiting_kids_def begin_phase_def)
  have st: "ph x = Active" if "x \<noteq> r" "x \<in> kids k p r" "m_current_state (td_at w x) \<in> {WaitingIsendChildren, WaitingRecvChildren}"
    using rank_invD(2) [OF i] that by simp
  have f: "fits (?ph (par k x)) (?ph x)" if "0 < x"
  proof (cases "par k x = r")
    case True
    then have "x \<in> kids k p r" using that x by (simp add: kids_def)
    then show ?thesis using True own by (auto simp: begin_phase_def)
  next
    case False
    then have n: "x \<notin> kids k p r" by (auto dest: kidsD)
    have fx: "fits (ph (par k x)) (ph x)" using rank_invD(4) [OF i that] .
    have "ph (par k x) = Active" if "x = r" using fx ph that \<open>0 < x\<close> by (cases "ph (par k r)") auto
    moreover have "?ph (par k x) = ph (par k x)" if "par k x \<notin> kids k p r" using that False by (simp add: begin_phase_def)
    moreover have "ph x = Idle" if "par k x \<in> kids k p r" using fx idle [OF that] by simp
    moreover have "x \<noteq> r" if "par k x \<in> kids k p r" using idle [OF that] fx ph \<open>0 < x\<close> by auto
    ultimately show ?thesis using fx n False by (cases "par k x \<in> kids k p r"; cases "x = r") (auto simp: begin_phase_def)
  qed
  show "rank_inv k p ?ph (td_at w' x) x"
  proof (cases "x = r")
    case True
    then show ?thesis using f rank_invD [OF i] w'(4-6) wr unfolding rank_inv_def by (auto simp: begin_phase_def)
  next
    case False
    have "?ph x = Active \<longleftrightarrow> ph x = Active" using False idle [of x] by (auto simp: begin_phase_def)
    then show ?thesis using f rank_invD [OF i] w'(3) [OF False] wk [OF False] unfolding rank_inv_def by auto
  qed
qed (use assms in auto)

lemma wave_respond:
  assumes inv: "wave_inv k p ph pay w" and k: "1 \<le> k" and r: "1 \<le> r" "r < p" and ph: "ph r = Active" and absorbed: "\<And>c. c \<in> kids k p r \<Longrightarrow> ph c = Absorbed"
    and w': "query_msgs w' = query_msgs w" "response_msgs w' = response_net k (ph(r := Responded)) (pay(r := v))" "\<And>x. x \<noteq> r \<Longrightarrow> td_at w' x = td_at w x"
    "configured k p r (td_at w' r)" "m_current_state (td_at w' r) = WaitingIsendParent" "m_num_waiting_recv_children (td_at w' r) = int (card (kids k p r))"
  shows "wave_inv k p (ph(r := Responded)) (pay(r := v)) w'"
proof (rule wave_invI)
  note D = wave_invD [OF inv]
  let ?ph = "ph(r := Responded)"
  show "query_msgs w' = query_net k ?ph" unfolding w'(1) D(3) using ph by (auto simp: query_net_def fun_eq_iff)
  show "?ph 0 \<in> {Idle, Active}" using D(2) r by simp
  show "0 \<le> x \<and> x < p" if "?ph x \<noteq> Idle" for x
    using that D(1) [of x] r by (auto split: if_splits)
  fix x assume x: "0 \<le> x" "x < p"
  note i = D(5) [OF x]
  have f: "fits (?ph (par k x)) (?ph x)" if "0 < x"
  proof (cases "par k x = r")
    case True
    then have "x \<in> kids k p r" using that x by (simp add: kids_def)
    then show ?thesis using True not_own_kid [OF k, of r p] absorbed [of x] by auto
  next
    case False
    then show ?thesis using rank_invD(4) [OF i that] ph by (cases "x = r"; cases "ph (par k r)") auto
  qed
  have wk: "waiting_kids k p ?ph x = waiting_kids k p ph x" if "x \<noteq> r"
    using that ph by (intro waiting_kids_cong) auto
  have wr: "waiting_kids k p ?ph r = kids k p r" by (simp add: waiting_kids_def)
  show "rank_inv k p ?ph (td_at w' x) x"
    using f rank_invD [OF i] wk wr r unfolding rank_inv_def by (cases "x = r") (auto simp: w'(3) w'(4-6))
qed (use assms in auto)

lemma wave_absorb:
  assumes inv: "wave_inv k p ph pay w" and k: "1 \<le> k" and r: "0 \<le> r" "r < p" and ph: "ph r = Active" "ph c = Responded" "c \<in> kids k p r"
    and w': "query_msgs w' = query_msgs w" "response_msgs w' = response_net k (ph(c := Absorbed)) pay" "\<And>x. x \<noteq> r \<Longrightarrow> td_at w' x = td_at w x"
    "configured k p r (td_at w' r)" "m_current_state (td_at w' r) = m_current_state (td_at w r)" "m_num_waiting_recv_children (td_at w' r) = m_num_waiting_recv_children (td_at w r) - 1"
  shows "wave_inv k p (ph(c := Absorbed)) pay w'"
proof (rule wave_invI)
  note D = wave_invD [OF inv]
  let ?ph = "ph(c := Absorbed)"
  have c: "1 \<le> c" "c < p" "par k c = r" "c \<noteq> r" using kidsD [OF ph(3)] ph by auto
  show "query_msgs w' = query_net k ?ph" unfolding w'(1) D(3) using ph by (auto simp: query_net_def fun_eq_iff)
  show "?ph 0 \<in> {Idle, Active}" using D(2) c by simp
  show "0 \<le> x \<and> x < p" if "?ph x \<noteq> Idle" for x
    using that D(1) [of x] c by (auto split: if_splits)
  fix x assume x: "0 \<le> x" "x < p"
  note i = D(5) [OF x]
  have f: "fits (?ph (par k x)) (?ph x)" if "0 < x"
    using rank_invD(4) [OF i that] ph c by (cases "par k x = c"; cases "x = c") auto
  have wk: "waiting_kids k p ?ph x = waiting_kids k p ph x" if "x \<noteq> r"
    using that c ph by (intro waiting_kids_cong) (auto dest: kidsD)
  have "waiting_kids k p ph r = insert c (waiting_kids k p ?ph r)" "c \<notin> waiting_kids k p ?ph r"
    using ph c by (auto simp: waiting_kids_def)
  then have wr: "int (card (waiting_kids k p ?ph r)) = int (card (waiting_kids k p ph r)) - 1"
    by (simp add: waiting_kids_def)
  show "rank_inv k p ?ph (td_at w' x) x"
  proof (cases "x = r")
    case True
    then show ?thesis using f rank_invD [OF i] wr c ph(1) w'(4-6) unfolding rank_inv_def by auto
  next
    case False
    have "?ph x = Active \<longleftrightarrow> ph x = Active" using ph by simp
    then show ?thesis using f rank_invD [OF i] wk [OF False] w'(3) [OF False] unfolding rank_inv_def by auto
  qed
qed (use assms in auto)

lemma wave_finish:
  assumes inv: "wave_inv k p ph pay w" and k: "1 \<le> k" and p: "0 < p" and ph: "ph 0 = Active" and absorbed: "\<And>c. c \<in> kids k p 0 \<Longrightarrow> ph c = Absorbed"
    and w': "query_msgs w' = query_msgs w" "response_msgs w' = response_msgs w" "\<And>x. x \<noteq> 0 \<Longrightarrow> td_at w' x = td_at w x"
    "configured k p 0 (td_at w' 0)" "m_current_state (td_at w' 0) = WaitingInit" "m_num_waiting_recv_children (td_at w' 0) = int (card (kids k p 0))"
  shows "wave_inv k p (\<lambda>_. Idle) pay w'"
proof (rule wave_invI)
  note D = wave_invD [OF inv]
  have abs: "ph r = Absorbed" if "1 \<le> r" "r < p" for r
    using all_absorbed [OF inv k _ that] absorbed by blast
  have other: "ph r \<noteq> Queried \<and> ph r \<noteq> Responded" for r
    using abs [of r] D(1) [of r] ph by (cases "r = 0"; cases "ph r = Idle") auto
  show "query_msgs w' = query_net k (\<lambda>_. Idle)" "response_msgs w' = response_net k (\<lambda>_. Idle) pay"
    unfolding w'(1,2) D(3,4) using other by (auto simp: query_net_def response_net_def fun_eq_iff)
  fix x assume x: "0 \<le> x" "x < p"
  note i = D(5) [OF x]
  show "rank_inv k p (\<lambda>_. Idle) (td_at w' x) x"
    using rank_invD [OF i] abs [of x] w'(3) [of x] x w'(4-6) unfolding rank_inv_def by (cases "x = 0") (auto simp: waiting_kids_def)
qed (use p in auto)

end
