(* ===== verification/Termination_Counts.thy ===== *)
theory Termination_Counts
  imports Termination_Invariant
begin

section \<open>The counts a round of termination detection collects\<close>

text \<open>
  The sums of a round are taken at different times at different ranks.  What the ranks hold or have under way is
  what the others reported; a report is at most the rank's count now; and a pair that the root keeps from an earlier
  round lies below a snapshot of all counts, which is at most every later report.
\<close>

definition cur :: "td \<Rightarrow> status_response" where
  "cur t = (m_count_queued t, m_count_completed t)"

definition le2 :: "status_response \<Rightarrow> status_response \<Rightarrow> bool" where
  "le2 a b \<longleftrightarrow> fst a \<le> fst b \<and> snd a \<le> snd b"

definition reported :: "phase \<Rightarrow> bool" where
  "reported q \<longleftrightarrow> q \<in> {Responded, Absorbed}"

lemma reported_simps [simp]: "reported Responded" "reported Absorbed" "\<not> reported Idle" "\<not> reported Queried" "\<not> reported Active"
  by (simp_all add: reported_def)

lemma le2_refl [simp]: "le2 a a" by (simp add: le2_def)

lemma le2_trans: "le2 a b \<Longrightarrow> le2 b c \<Longrightarrow> le2 a c"
  by (auto simp: le2_def)

definition held :: "(int \<Rightarrow> phase) \<Rightarrow> (int \<Rightarrow> status_response) \<Rightarrow> (int \<Rightarrow> td) \<Rightarrow> int \<Rightarrow> status_response" where
  "held ph pay T r = (if ph r = Active then m_subtree_status_response (T r) else if ph r = Responded then pay r else (0, 0))"

definition report :: "(int \<Rightarrow> phase) \<Rightarrow> (int \<Rightarrow> status_response) \<Rightarrow> int \<Rightarrow> status_response" where
  "report ph rep r = (if reported (ph r) then rep r else (0, 0))"

definition conserved :: "int \<Rightarrow> (int \<Rightarrow> phase) \<Rightarrow> (int \<Rightarrow> status_response) \<Rightarrow> (int \<Rightarrow> status_response) \<Rightarrow> (int \<Rightarrow> td) \<Rightarrow> bool" where
  "conserved p ph pay rep T \<longleftrightarrow> (\<forall>f \<in> {fst, snd}. (\<Sum>r \<in> {0..<p}. f (held ph pay T r)) = (\<Sum>r \<in> {0..<p}. f (report ph rep r)))"

definition tally :: "(status_response \<Rightarrow> u64) \<Rightarrow> int \<Rightarrow> (int \<Rightarrow> status_response) \<Rightarrow> nat" where
  "tally f p g = (\<Sum>r \<in> {0..<p}. unat (f (g r)))"

subsection \<open>Sums over the ranks\<close>

lemma sum_at:
  fixes g :: "int \<Rightarrow> u64"
  assumes "0 \<le> r" "r < p" "\<And>x. x \<noteq> r \<Longrightarrow> g x = h x"
  shows "(\<Sum>x \<in> {0..<p}. g x) = (\<Sum>x \<in> {0..<p}. h x) + (g r - h r)"
proof -
  have "r \<in> {0..<p}" "(\<Sum>x \<in> {0..<p} - {r}. g x) = (\<Sum>x \<in> {0..<p} - {r}. h x)"
    using assms by (auto intro: sum.cong)
  then show ?thesis by (simp add: sum.remove [of "{0..<p}" r])
qed

lemma sum_at2:
  fixes g :: "int \<Rightarrow> u64"
  assumes "0 \<le> r" "r < p" "0 \<le> c" "c < p" "r \<noteq> c" "\<And>x. x \<noteq> r \<Longrightarrow> x \<noteq> c \<Longrightarrow> g x = h x" "g r + g c = h r + h c"
  shows "(\<Sum>x \<in> {0..<p}. g x) = (\<Sum>x \<in> {0..<p}. h x)"
proof -
  have "(\<Sum>x \<in> {0..<p}. g x) = (\<Sum>x \<in> {0..<p}. (g(c := h c)) x) + (g c - h c)"
    using sum_at [of c p g "g(c := h c)"] assms(3,4) by simp
  also have "(\<Sum>x \<in> {0..<p}. (g(c := h c)) x) = (\<Sum>x \<in> {0..<p}. h x) + (g r - h r)"
    using sum_at [of r p "g(c := h c)" h] assms(1,2,5,6) by simp
  finally have "(\<Sum>x \<in> {0..<p}. g x) = (\<Sum>x \<in> {0..<p}. h x) + ((g r + g c) - (h r + h c))" by simp
  then show ?thesis unfolding assms(7) by simp
qed

lemma conservedI:
  "(\<And>f. f = fst \<or> f = snd \<Longrightarrow> (\<Sum>r \<in> {0..<p}. f (held ph pay T r)) = (\<Sum>r \<in> {0..<p}. f (report ph rep r))) \<Longrightarrow> conserved p ph pay rep T"
  by (auto simp: conserved_def)

lemma conservedD:
  "conserved p ph pay rep T \<Longrightarrow> f = fst \<or> f = snd \<Longrightarrow> (\<Sum>r \<in> {0..<p}. f (held ph pay T r)) = (\<Sum>r \<in> {0..<p}. f (report ph rep r))"
  by (auto simp: conserved_def)

lemma conserved_same:
  assumes "conserved p ph pay rep T" "\<And>r. 0 \<le> r \<Longrightarrow> r < p \<Longrightarrow> held ph' pay T' r = held ph pay T r" "\<And>r. 0 \<le> r \<Longrightarrow> r < p \<Longrightarrow> reported (ph' r) = reported (ph r)"
  shows "conserved p ph' pay rep T'"
proof (rule conservedI)
  fix f :: "status_response \<Rightarrow> u64" assume f: "f = fst \<or> f = snd"
  have "(\<Sum>r \<in> {0..<p}. f (held ph' pay T' r)) = (\<Sum>r \<in> {0..<p}. f (held ph pay T r))"
    by (rule sum.cong) (use assms(2) in auto)
  moreover have "(\<Sum>r \<in> {0..<p}. f (report ph' rep r)) = (\<Sum>r \<in> {0..<p}. f (report ph rep r))"
    by (rule sum.cong) (use assms(3) in \<open>auto simp: report_def\<close>)
  ultimately show "(\<Sum>r \<in> {0..<p}. f (held ph' pay T' r)) = (\<Sum>r \<in> {0..<p}. f (report ph' rep r))"
    using conservedD [OF assms(1) f] by simp
qed

lemma conserved_respond:
  assumes c: "conserved p ph pay rep T" and r: "0 \<le> r" "r < p" and ph: "ph r = Active" and T: "\<And>x. x \<noteq> r \<Longrightarrow> T' x = T x"
  shows "conserved p (ph(r := Responded)) (pay(r := add_response (m_subtree_status_response (T r)) v)) (rep(r := v)) T'"
proof (rule conservedI)
  fix f :: "status_response \<Rightarrow> u64" assume f: "f = fst \<or> f = snd"
  let ?ph = "ph(r := Responded)" and ?pay = "pay(r := add_response (m_subtree_status_response (T r)) v)"
  have "(\<Sum>x \<in> {0..<p}. f (held ?ph ?pay T' x)) = (\<Sum>x \<in> {0..<p}. f (held ph pay T x)) + f v"
    using f ph by (subst sum_at [OF r, of _ "\<lambda>x. f (held ph pay T x)"]) (auto simp: held_def T add_response_def)
  moreover have "(\<Sum>x \<in> {0..<p}. f (report ?ph (rep(r := v)) x)) = (\<Sum>x \<in> {0..<p}. f (report ph rep x)) + f v"
    using f ph by (subst sum_at [OF r, of _ "\<lambda>x. f (report ph rep x)"]) (auto simp: report_def)
  ultimately show "(\<Sum>x \<in> {0..<p}. f (held ?ph ?pay T' x)) = (\<Sum>x \<in> {0..<p}. f (report ?ph (rep(r := v)) x))"
    using conservedD [OF c f] by simp
qed

lemma conserved_absorb:
  assumes c: "conserved p ph pay rep T" and r: "0 \<le> r" "r < p" "0 \<le> x" "x < p" and ph: "ph r = Active" "ph x = Responded" and T: "\<And>y. y \<noteq> r \<Longrightarrow> T' y = T y"
    and sub: "m_subtree_status_response (T' r) = add_response (m_subtree_status_response (T r)) (pay x)"
  shows "conserved p (ph(x := Absorbed)) pay rep T'"
proof (rule conservedI)
  fix f :: "status_response \<Rightarrow> u64" assume f: "f = fst \<or> f = snd"
  have n: "r \<noteq> x" using ph by auto
  have "(\<Sum>y \<in> {0..<p}. f (held (ph(x := Absorbed)) pay T' y)) = (\<Sum>y \<in> {0..<p}. f (held ph pay T y))"
    using f ph n by (intro sum_at2 [OF r n]) (auto simp: held_def T sub add_response_def)
  moreover have "report (ph(x := Absorbed)) rep = report ph rep" using ph by (auto simp: report_def fun_eq_iff)
  ultimately show "(\<Sum>y \<in> {0..<p}. f (held (ph(x := Absorbed)) pay T' y)) = (\<Sum>y \<in> {0..<p}. f (report (ph(x := Absorbed)) rep y))"
    using conservedD [OF c f] by simp
qed

text \<open>When every rank but the root has been taken up, the root holds the sum of their reports.\<close>

lemma conserved_root:
  assumes c: "conserved p ph pay rep T" and p: "0 < p" and ph: "ph 0 = Active" "\<And>r. 1 \<le> r \<Longrightarrow> r < p \<Longrightarrow> ph r = Absorbed" and f: "f = fst \<or> f = snd"
  shows "f (add_response (m_subtree_status_response (T 0)) v) = (\<Sum>r \<in> {0..<p}. f ((rep(0 := v)) r))"
proof -
  have z: "f (0, 0) = 0" using f by auto
  have "(\<Sum>r \<in> {0..<p}. f (held ph pay T r)) = (\<Sum>r \<in> {0..<p}. f ((\<lambda>r. if r = 0 then m_subtree_status_response (T 0) else (0, 0)) r))"
    by (rule sum.cong) (use ph in \<open>auto simp: held_def\<close>)
  also have "\<dots> = (\<Sum>r \<in> {0..<p}. if r = 0 then f (m_subtree_status_response (T 0)) else 0)"
    by (rule sum.cong) (auto simp: z)
  also have "\<dots> = f (m_subtree_status_response (T 0))" using p by simp
  finally have "f (m_subtree_status_response (T 0)) = (\<Sum>r \<in> {0..<p}. f (report ph rep r))" using conservedD [OF c f] by simp
  moreover have "(\<Sum>r \<in> {0..<p}. f ((rep(0 := v)) r)) = (\<Sum>r \<in> {0..<p}. f (((report ph rep)(0 := v)) r))"
    by (rule sum.cong) (use ph in \<open>auto simp: report_def\<close>)
  moreover have "\<dots> = (\<Sum>r \<in> {0..<p}. f (report ph rep r)) + f v"
    using p ph by (subst sum_at [of 0 p _ "\<lambda>r. f (report ph rep r)"]) (auto simp: report_def z)
  ultimately show ?thesis using f by (auto simp: add_response_def)
qed

subsection \<open>Counts and snapshots\<close>

lemma unat_sum:
  assumes "tally f p g < 2 ^ 64"
  shows "unat (\<Sum>r \<in> {0..<p}. f (g r)) = tally f p g"
proof -
  have "(\<Sum>r \<in> A. f (g r)) = of_nat (\<Sum>r \<in> A. unat (f (g r)))" for A :: "int set"
    by (induction A rule: infinite_finite_induct) simp_all
  then have "of_nat (tally f p g) = (\<Sum>r \<in> {0..<p}. f (g r))" unfolding tally_def by (rule sym)
  then show ?thesis by (rule of_nat_inverse) (use assms in simp)
qed

lemma tally_mono: "(\<And>r. 0 \<le> r \<Longrightarrow> r < p \<Longrightarrow> f (g r) \<le> f (h r)) \<Longrightarrow> tally f p g \<le> tally f p h"
  unfolding tally_def by (rule sum_mono) (simp add: word_le_nat_alt)

lemma le2D: "le2 a b \<Longrightarrow> f = fst \<or> f = snd \<Longrightarrow> f a \<le> f b"
  by (auto simp: le2_def)

lemma tally_squeeze:
  assumes "\<And>r. 0 \<le> r \<Longrightarrow> r < p \<Longrightarrow> le2 (g r) (h r) \<and> le2 (h r) (i r)" "tally fst p g = tally fst p i" "tally snd p g = tally snd p i"
  shows "tally fst p h = tally fst p i" "tally snd p h = tally snd p i"
  using tally_mono [of p fst g h] tally_mono [of p fst h i] tally_mono [of p snd g h] tally_mono [of p snd h i] assms
  by (simp_all add: le2_def)

definition snapshot :: "int \<Rightarrow> (int \<Rightarrow> phase) \<Rightarrow> (int \<Rightarrow> status_response) \<Rightarrow> (int \<Rightarrow> bool) \<Rightarrow> status_response \<Rightarrow> (int \<Rightarrow> status_response) \<Rightarrow>
    (int \<Rightarrow> status_response) \<Rightarrow> (int \<Rightarrow> status_response) \<Rightarrow> bool" where
  "snapshot p ph rep b prev c lo snap \<longleftrightarrow> tally fst p lo = unat (fst prev) \<and> tally snd p lo = unat (snd prev)
     \<and> (\<forall>r \<in> {0..<p}. le2 (lo r) (snap r) \<and> le2 (snap r) (c r) \<and> \<not> b r \<and> (reported (ph r) \<longrightarrow> le2 (snap r) (rep r)))
     \<and> (tally fst p snap = tally snd p snap \<longrightarrow> (\<forall>r \<in> {0..<p}. snap r = c r))"

definition counts_inv :: "int \<Rightarrow> (int \<Rightarrow> phase) \<Rightarrow> (int \<Rightarrow> status_response) \<Rightarrow> (int \<Rightarrow> bool) \<Rightarrow> status_response \<Rightarrow> (int \<Rightarrow> status_response) \<Rightarrow> bool" where
  "counts_inv p ph rep b prev c \<longleftrightarrow> (\<forall>r \<in> {0..<p}. reported (ph r) \<longrightarrow> le2 (rep r) (c r) \<and> \<not> b r)
     \<and> (prev = (- 1, - 1) \<or> (\<exists>lo snap. snapshot p ph rep b prev c lo snap))
     \<and> tally fst p c < 2 ^ 64 - 1 \<and> tally snd p c \<le> tally fst p c"

text \<open>A rank that reports, reports its counts of now; nothing else changes.\<close>

lemma counts_report:
  assumes "counts_inv p ph rep b prev c" "\<And>r. 0 \<le> r \<Longrightarrow> r < p \<Longrightarrow> reported (ph' r) \<Longrightarrow> reported (ph r) \<and> rep' r = rep r \<or> rep' r = c r \<and> \<not> b r"
  shows "counts_inv p ph' rep' b prev c"
proof -
  have r: "\<forall>r \<in> {0..<p}. reported (ph' r) \<longrightarrow> le2 (rep' r) (c r) \<and> \<not> b r"
    using assms by (fastforce simp: counts_inv_def)
  have s: "snapshot p ph' rep' b prev c lo snap" if "snapshot p ph rep b prev c lo snap" for lo snap
  proof -
    have "le2 (snap r) (rep' r)" if "r \<in> {0..<p}" "reported (ph' r)" for r
      using assms(2) [of r] that \<open>snapshot p ph rep b prev c lo snap\<close> unfolding snapshot_def by fastforce
    then show ?thesis using that unfolding snapshot_def by blast
  qed
  show ?thesis using r s assms(1) unfolding counts_inv_def by blast
qed

text \<open>Work: while nothing is queued that is not completed and every rank waits, the counts stay.\<close>

lemma counts_work:
  assumes inv: "counts_inv p ph rep b prev c" and r: "0 \<le> r" "r < p" and c': "\<And>x. x \<noteq> r \<Longrightarrow> c' x = c x" "le2 (c r) (c' r)"
    and still: "tally fst p c = tally snd p c \<Longrightarrow> (\<And>x. 0 \<le> x \<Longrightarrow> x < p \<Longrightarrow> \<not> b x) \<Longrightarrow> c' r = c r"
    and bound: "tally fst p c' < 2 ^ 64 - 1" "tally snd p c' \<le> tally fst p c'"
  shows "counts_inv p ph rep b prev c'"
proof -
  have mono: "le2 (c x) (c' x)" for x using c' by (cases "x = r") auto
  have s: "snapshot p ph rep b prev c' lo snap" if s: "snapshot p ph rep b prev c lo snap" for lo snap
  proof -
    have "snap x = c' x" if e: "tally fst p snap = tally snd p snap" and x: "x \<in> {0..<p}" for x
    proof -
      have eq: "\<forall>x \<in> {0..<p}. snap x = c x" using s e unfolding snapshot_def by blast
      then have "tally f p snap = tally f p c" for f by (simp add: tally_def)
      then have "c' r = c r" using still e s unfolding snapshot_def by simp
      then show ?thesis using eq x c'(1) [of x] by (cases "x = r") simp_all
    qed
    then show ?thesis using s mono le2_trans unfolding snapshot_def by blast
  qed
  show ?thesis using inv mono le2_trans s bound unfolding counts_inv_def by blast
qed

subsection \<open>The end of a round\<close>

lemma round_sums:
  assumes inv: "counts_inv p ph rep b prev c" and rep: "\<And>r. 0 \<le> r \<Longrightarrow> r < p \<Longrightarrow> reported (ph r)"
    and sub: "\<And>f. f = fst \<or> f = snd \<Longrightarrow> f sub = (\<Sum>r \<in> {0..<p}. f (rep r))"
  shows "unat (fst sub) = tally fst p rep" "unat (snd sub) = tally snd p rep" "sub \<noteq> (- 1, - 1)"
proof -
  have le: "tally f p rep \<le> tally f p c" if "f = fst \<or> f = snd" for f
    using inv rep that by (intro tally_mono le2D) (auto simp: counts_inv_def)
  have "tally fst p rep \<le> tally fst p c" "tally snd p rep \<le> tally snd p c" by (rule le, simp)+
  then have b: "tally fst p rep < 2 ^ 64 - 1" "tally snd p rep < 2 ^ 64" using inv unfolding counts_inv_def by simp_all
  show f: "unat (fst sub) = tally fst p rep" using sub [of fst] unat_sum [of fst p rep] b(1) by simp
  show "unat (snd sub) = tally snd p rep" using sub [of snd] unat_sum [of snd p rep] b(2) by simp
  have "unat (- 1 :: u64) = 2 ^ 64 - 1" by (simp add: unsigned_minus_1_eq_mask mask_eq_exp_minus_1)
  then show "sub \<noteq> (- 1, - 1)" using f b(1) by auto
qed

text \<open>The root only believes two equal rounds, and then nothing is left.\<close>

lemma counts_decide:
  assumes inv: "counts_inv p ph rep b prev c" and rep: "\<And>r. 0 \<le> r \<Longrightarrow> r < p \<Longrightarrow> reported (ph r)"
    and sub: "\<And>f. f = fst \<or> f = snd \<Longrightarrow> f sub = (\<Sum>r \<in> {0..<p}. f (rep r))" and eq: "fst sub = snd sub" "sub = prev"
  shows "tally fst p c = tally snd p c" "\<And>r. 0 \<le> r \<Longrightarrow> r < p \<Longrightarrow> \<not> b r"
proof -
  note sums = round_sums [OF inv rep sub]
  obtain lo snap where s: "snapshot p ph rep b prev c lo snap" using inv sums(3) eq(2) unfolding counts_inv_def by blast
  have "tally fst p lo = tally fst p rep" "tally snd p lo = tally snd p rep" using s sums eq(2) unfolding snapshot_def by simp_all
  moreover have "le2 (lo r) (snap r) \<and> le2 (snap r) (rep r)" if "0 \<le> r" "r < p" for r
    using s rep [OF that] that unfolding snapshot_def by simp
  ultimately have "tally fst p snap = tally snd p snap" using tally_squeeze [of p lo snap rep] sums eq(1) by simp
  then have "\<forall>r \<in> {0..<p}. snap r = c r" "tally fst p snap = tally snd p snap" using s unfolding snapshot_def by simp_all
  then show "tally fst p c = tally snd p c" by (simp add: tally_def)
  show "\<not> b r" if "0 \<le> r" "r < p" for r using s that unfolding snapshot_def by simp
qed

lemma counts_next:
  assumes inv: "counts_inv p ph rep b prev c" and rep: "\<And>r. 0 \<le> r \<Longrightarrow> r < p \<Longrightarrow> reported (ph r)"
    and sub: "\<And>f. f = fst \<or> f = snd \<Longrightarrow> f sub = (\<Sum>r \<in> {0..<p}. f (rep r))"
  shows "counts_inv p (\<lambda>_. Idle) rep' b sub c"
proof -
  note sums = round_sums [OF inv rep sub]
  have "snapshot p (\<lambda>_. Idle) rep' b sub c rep c"
    using inv rep sums by (auto simp: snapshot_def counts_inv_def)
  then show ?thesis using inv unfolding counts_inv_def by auto
qed

end
