(* ===== verification/Termination_Safety.thy ===== *)
theory Termination_Safety
  imports Termination_Counts
begin

section \<open>Every call keeps the invariant of a round\<close>

text \<open>
  One lemma per branch of the handlers: the call happens, and the phases, the reports and the rest of the state after it.
  Before the root has decided, a run satisfies \<open>td_inv\<close>; after that, \<open>td_done\<close>.
\<close>

definition states :: "td_run \<Rightarrow> int \<Rightarrow> td_state" where
  "states s r = m_current_state (td_at (world s) r)"

definition counts :: "td_run \<Rightarrow> int \<Rightarrow> status_response" where
  "counts s r = cur (td_at (world s) r)"

definition kept :: "td_run \<Rightarrow> status_response" where
  "kept s = m_previous_subtree_status_response (td_at (world s) 0)"

definition td_inv :: "int \<Rightarrow> int \<Rightarrow> (int \<Rightarrow> phase) \<Rightarrow> (int \<Rightarrow> status_response) \<Rightarrow> (int \<Rightarrow> status_response) \<Rightarrow> td_run \<Rightarrow> bool" where
  "td_inv k p ph pay rep s \<longleftrightarrow> wave_inv k p ph pay (world s) \<and> conserved p ph pay rep (td_at (world s))
     \<and> counts_inv p ph rep (busy s) (kept s) (counts s) \<and> returned s = (\<lambda>_. False) \<and> terminate_msgs (world s) = (\<lambda>_ _. 0)"

definition moved :: "int \<Rightarrow> td_state \<Rightarrow> td_run \<Rightarrow> td_run \<Rightarrow> bool" where
  "moved r st s s' \<longleftrightarrow> states s' = (states s)(r := st) \<and> counts s' = counts s \<and> busy s' = busy s \<and> kept s' = kept s"

lemma td_invD:
  assumes "td_inv k p ph pay rep s"
  shows "wave_inv k p ph pay (world s)" "conserved p ph pay rep (td_at (world s))" "counts_inv p ph rep (busy s) (kept s) (counts s)"
    "\<not> returned s r" "returned s = (\<lambda>_. False)" "terminate_msgs (world s) = (\<lambda>_ _. 0)"
  using assms by (simp_all add: td_inv_def)

lemma td_inv_rank:
  assumes "td_inv k p ph pay rep s" "0 \<le> r" "r < p"
  shows "rank_inv k p ph (td_at (world s) r) r" "configured k p r (td_at (world s) r)" "td_mpi_rank (td_at (world s) r) = r"
    "ph r = Active \<longleftrightarrow> states s r \<in> {WaitingIsendChildren, WaitingRecvChildren}"
proof -
  show i: "rank_inv k p ph (td_at (world s) r) r" using wave_invD(5) [OF td_invD(1) [OF assms(1)] assms(2,3)] .
  show "configured k p r (td_at (world s) r)" "td_mpi_rank (td_at (world s) r) = r" using rank_invD(1) [OF i] by (simp_all add: configured_def)
  show "ph r = Active \<longleftrightarrow> states s r \<in> {WaitingIsendChildren, WaitingRecvChildren}" using rank_invD(2) [OF i] by (simp add: states_def)
qed

text \<open>What a call that only reports keeps: the counts, who is busy and the pair of the root.\<close>

lemma td_invI:
  assumes "td_inv k p ph pay rep s" "wave_inv k p ph' pay' w'" "conserved p ph' pay' rep' (td_at w')"
    "counts s' = counts s" "kept s' = kept s" "busy s' = busy s" "returned s' = (\<lambda>_. False)" "world s' = w'" "terminate_msgs w' = (\<lambda>_ _. 0)"
    "\<And>r. 0 \<le> r \<Longrightarrow> r < p \<Longrightarrow> reported (ph' r) \<Longrightarrow> reported (ph r) \<and> rep' r = rep r \<or> rep' r = counts s r \<and> \<not> busy s r"
  shows "td_inv k p ph' pay' rep' s'"
  using assms counts_report [OF td_invD(3) [OF assms(1)] assms(10)] by (simp add: td_inv_def)

lemma query_net_begin:
  assumes "wave_inv k p ph pay w" "1 \<le> k" "ph r \<in> {Idle, Queried}"
  shows "query_net k (begin_phase k p r ph) s d = (if s = par k r \<and> d = r \<and> ph r = Queried then 0 else query_net k ph s d) + of_bool (s = r \<and> d \<in> kids k p r)"
proof -
  have "ph d = Idle" if "d \<in> kids k p r" using kid_fits [OF assms(1) that] assms(3) by auto
  then show ?thesis using not_own_kid [OF assms(2), of r p] by (auto simp: query_net_def begin_phase_def dest: kidsD)
qed

definition begin_wave :: "int \<Rightarrow> td_world \<Rightarrow> td_world" where
  "begin_wave r w = set_td_state r WaitingIsendChildren (send_query_status_to_children r (set_td r (\<lambda>t. t\<lparr>m_subtree_status_response := (0, 0)\<rparr>) w))"

lemma begin_wave_simps:
  assumes "configured k p r (td_at w r)" "1 \<le> k" "0 \<le> r"
  shows "query_msgs (begin_wave r w) = (\<lambda>s d. query_msgs w s d + of_bool (s = r \<and> d \<in> kids k p r))"
    "response_msgs (begin_wave r w) = response_msgs w" "terminate_msgs (begin_wave r w) = terminate_msgs w"
    "\<exists>q. td_at (begin_wave r w) = (td_at w)(r := (td_at w r)\<lparr>m_current_state := WaitingIsendChildren, m_subtree_status_response := (0, 0), m_vec_req_isend_children := q\<rparr>)"
proof -
  have c: "configured k p r ((td_at w r)\<lparr>m_subtree_status_response := (0, 0)\<rparr>)" using assms(1) by simp
  note cr = child_ranks_eq(1,2) [OF c assms(2,3)]
  show "query_msgs (begin_wave r w) = (\<lambda>s d. query_msgs w s d + of_bool (s = r \<and> d \<in> kids k p r))"
    by (simp add: begin_wave_def send_query_status_to_children_def Let_def send1_fold cr)
  show "\<exists>q. td_at (begin_wave r w) = (td_at w)(r := (td_at w r)\<lparr>m_current_state := WaitingIsendChildren, m_subtree_status_response := (0, 0), m_vec_req_isend_children := q\<rparr>)"
    by (rule exI [of _ "m_vec_req_isend_children (td_at w r) @ child_ranks ((td_at w r)\<lparr>m_subtree_status_response := (0, 0)\<rparr>)"])
      (cases "td_at w r", simp add: begin_wave_def send_query_status_to_children_def Let_def)
qed (simp_all add: begin_wave_def send_query_status_to_children_def Let_def)

lemma begin_round_keeps:
  assumes inv: "td_inv k p ph pay rep s" and k: "1 \<le> k" and r: "0 \<le> r" "r < p" and ph: "ph r = Queried \<or> r = 0 \<and> ph r = Idle"
    and w: "query_msgs w = (\<lambda>s d. if s = par k r \<and> d = r \<and> ph r = Queried then 0 else query_net k ph s d)"
      "response_msgs w = response_msgs (world s)" "td_at w = td_at (world s)" "terminate_msgs w = (\<lambda>_ _. 0)"
  shows "td_inv k p (begin_phase k p r ph) pay rep (s\<lparr>world := begin_wave r w, returned := (returned s)(r := False)\<rparr>)"
    "moved r WaitingIsendChildren s (s\<lparr>world := begin_wave r w, returned := (returned s)(r := False)\<rparr>)"
proof -
  note c = td_inv_rank(2) [OF inv r]
  have c': "configured k p r (td_at w r)" using c w by simp
  note b = begin_wave_simps [OF c' k r(1)]
  obtain q where q: "td_at (begin_wave r w) = (td_at w)(r := (td_at w r)\<lparr>m_current_state := WaitingIsendChildren, m_subtree_status_response := (0, 0), m_vec_req_isend_children := q\<rparr>)"
    using b(4) by blast
  note wi = td_invD(1) [OF inv]
  have idle: "ph c = Idle" if "c \<in> kids k p r" for c using kid_fits [OF wi that] ph by auto
  show "moved r WaitingIsendChildren s (s\<lparr>world := begin_wave r w, returned := (returned s)(r := False)\<rparr>)"
    by (auto simp: moved_def states_def counts_def kept_def q w cur_def fun_eq_iff)
  show "td_inv k p (begin_phase k p r ph) pay rep (s\<lparr>world := begin_wave r w, returned := (returned s)(r := False)\<rparr>)"
  proof (rule td_invI [OF inv])
    have "query_msgs (begin_wave r w) = query_net k (begin_phase k p r ph)"
      unfolding b(1) w(1) using ph by (intro ext, subst query_net_begin [OF wi k]) auto
    then show "wave_inv k p (begin_phase k p r ph) pay (begin_wave r w)"
      by (rule wave_begin [OF wi k r ph]) (use b w q c in simp_all)
    show "conserved p (begin_phase k p r ph) pay rep (td_at (begin_wave r w))"
      by (rule conserved_same [OF td_invD(2) [OF inv]]) (use idle ph in \<open>auto simp: held_def begin_phase_def q w not_own_kid [OF k]\<close>)
  qed (use idle td_invD(5) [OF inv] b w in \<open>auto simp: counts_def kept_def q cur_def fun_eq_iff begin_phase_def split: if_splits\<close>)
qed

lemma test_starts_round:
  assumes inv: "td_inv k p ph pay rep s" and k: "1 \<le> k" and p: "0 < p" and st: "states s 0 = WaitingInit" and b: "\<not> busy s 0"
  shows "\<exists>s'. run_test 0 ob s = Some s' \<and> td_inv k p (begin_phase k p 0 ph) pay rep s' \<and> moved 0 WaitingIsendChildren s s'"
proof -
  let ?w = "world s"
  have ph: "ph 0 = Idle" using td_inv_rank(4) [OF inv order_refl p] wave_invD(2) [OF td_invD(1) [OF inv]] st by auto
  have "run_test 0 ob s = Some (s\<lparr>world := begin_wave 0 ?w, returned := (returned s)(0 := False)\<rparr>)"
    using b td_invD(4) [OF inv, of 0] st td_inv_rank(3) [OF inv order_refl p]
    by (simp add: run_test_def test_for_termination_def states_def handle_waiting_init_def Let_def begin_wave_def)
  moreover have "query_msgs ?w = (\<lambda>s d. if s = par k 0 \<and> d = 0 \<and> ph 0 = Queried then 0 else query_net k ph s d)"
    using wave_invD(3) [OF td_invD(1) [OF inv]] ph by auto
  ultimately show ?thesis using begin_round_keeps [OF inv k order_refl p, of ?w] ph td_invD(6) [OF inv] by blast
qed

lemma recv1_at: "recv1 s d c = Some c' \<longleftrightarrow> 0 < c s d \<and> c' = c(s := (c s)(d := c s d - 1))"
  by (auto simp: recv1_def)

lemma init_reset:
  assumes inv: "td_inv k p ph pay rep s" and k: "1 \<le> k" and r: "1 \<le> r" "r < p" and st: "states s r = WaitingInit" and b: "\<not> busy s r"
  shows "run_test r ob s =
    (let w = set_td r (\<lambda>t. t\<lparr>m_subtree_status_response := (0, 0)\<rparr>) (world s) in
     if sees_terminate ob then None
     else if sees_query ob then
       (if ph r = Queried then Some (s\<lparr>world := begin_wave r ((world s)\<lparr>query_msgs := (\<lambda>s d. if s = par k r \<and> d = r then 0 else query_net k ph s d)\<rparr>), returned := (returned s)(r := False)\<rparr>) else None)
     else Some (s\<lparr>world := w, returned := (returned s)(r := False)\<rparr>))"
proof -
  have r0: "0 \<le> r" using r by simp
  note T = td_inv_rank [OF inv r0 r(2)]
  have par: "parent_rank ((td_at (world s) r)\<lparr>m_subtree_status_response := (0, 0)\<rparr>) = par k r"
    using parent_rank_eq [of k p r, OF _ k r(1)] T(2) by simp
  have q: "query_msgs (world s) = query_net k ph" using wave_invD(3) [OF td_invD(1) [OF inv]] .
  have g: "recv1 (par k r) r (query_net k ph) = (if ph r = Queried then Some (\<lambda>s d. if s = par k r \<and> d = r then 0 else query_net k ph s d) else None)"
    by (auto simp: recv1_def query_net_def fun_eq_iff)
  have sw: "set_td r (\<lambda>t. t\<lparr>m_subtree_status_response := (0, 0)\<rparr>) w\<lparr>query_msgs := c\<rparr> = set_td r (\<lambda>t. t\<lparr>m_subtree_status_response := (0, 0)\<rparr>) (w\<lparr>query_msgs := c\<rparr>)" for w :: td_world and c
    by (simp add: set_td_def)
  show ?thesis
    using b td_invD(4) [OF inv, of r] st T(3) r td_invD(6) [OF inv]
    by (simp add: run_test_def test_for_termination_def states_def handle_waiting_init_def Let_def par q g begin_wave_def sw)
      (simp add: recv1_def)
qed

lemma test_takes_query:
  assumes inv: "td_inv k p ph pay rep s" and k: "1 \<le> k" and r: "1 \<le> r" "r < p" and st: "states s r = WaitingInit" and b: "\<not> busy s r"
    and ob: "\<not> sees_terminate ob" "sees_query ob" and ph: "ph r = Queried"
  shows "\<exists>s'. run_test r ob s = Some s' \<and> td_inv k p (begin_phase k p r ph) pay rep s' \<and> moved r WaitingIsendChildren s s'"
proof -
  define w where "w = (world s)\<lparr>query_msgs := (\<lambda>s d. if s = par k r \<and> d = r then 0 else query_net k ph s d)\<rparr>"
  have w: "query_msgs w = (\<lambda>s d. if s = par k r \<and> d = r \<and> ph r = Queried then 0 else query_net k ph s d)"
    "response_msgs w = response_msgs (world s)" "td_at w = td_at (world s)" "terminate_msgs w = (\<lambda>_ _. 0)"
    using ph td_invD(6) [OF inv] by (auto simp: w_def)
  have r0: "0 \<le> r" using r by simp
  show ?thesis
    using init_reset [OF inv k r st b, of ob] ob ph begin_round_keeps [OF inv k r0 r(2) _ w] by (auto simp: w_def Let_def)
qed

text \<open>A step that changes nothing of the round.\<close>

lemma quiet_keeps:
  assumes inv: "td_inv k p ph pay rep s" and r: "0 \<le> r" "r < p"
    and f: "configured k p r (td_at (world s) r) \<Longrightarrow> configured k p r (f (td_at (world s) r))" "cur (f (td_at (world s) r)) = cur (td_at (world s) r)"
      "m_num_waiting_recv_children (f (td_at (world s) r)) = m_num_waiting_recv_children (td_at (world s) r)"
      "m_previous_subtree_status_response (f (td_at (world s) r)) = m_previous_subtree_status_response (td_at (world s) r)"
      "ph r = Active \<Longrightarrow> m_subtree_status_response (f (td_at (world s) r)) = m_subtree_status_response (td_at (world s) r)"
      "m_current_state (f (td_at (world s) r)) = st"
    and st: "st = states s r \<or> (states s r, st) \<in> {(WaitingIsendChildren, WaitingRecvChildren), (WaitingIsendParent, WaitingInit)}"
  shows "td_inv k p ph pay rep (s\<lparr>world := set_td r f (world s), returned := (returned s)(r := False)\<rparr>)"
    "moved r st s (s\<lparr>world := set_td r f (world s), returned := (returned s)(r := False)\<rparr>)"
proof -
  show "moved r st s (s\<lparr>world := set_td r f (world s), returned := (returned s)(r := False)\<rparr>)"
    using f(2,4,6) by (auto simp: moved_def states_def counts_def kept_def fun_eq_iff)
  show "td_inv k p ph pay rep (s\<lparr>world := set_td r f (world s), returned := (returned s)(r := False)\<rparr>)"
  proof (rule td_invI [OF inv])
    show "wave_inv k p ph pay (set_td r f (world s))"
      by (rule wave_inv_same [OF td_invD(1) [OF inv]]) (use f st in \<open>auto simp: states_def\<close>)
    show "conserved p ph pay rep (td_at (set_td r f (world s)))"
      by (rule conserved_same [OF td_invD(2) [OF inv]]) (use f(5) in \<open>auto simp: held_def\<close>)
  qed (use f(2,4) td_invD(5,6) [OF inv] in \<open>auto simp: counts_def kept_def fun_eq_iff\<close>)
qed

lemma test_waits:
  assumes inv: "td_inv k p ph pay rep s" and k: "1 \<le> k" and r: "1 \<le> r" "r < p" and st: "states s r = WaitingInit" and b: "\<not> busy s r"
    and ob: "\<not> sees_terminate ob" "\<not> sees_query ob"
  shows "\<exists>s'. run_test r ob s = Some s' \<and> td_inv k p ph pay rep s' \<and> moved r WaitingInit s s'"
proof -
  have r0: "0 \<le> r" using r by simp
  have n: "ph r \<noteq> Active" using td_inv_rank(4) [OF inv r0 r(2)] st by simp
  show ?thesis
    using init_reset [OF inv k r st b, of ob] ob quiet_keeps [OF inv r0 r(2), of "\<lambda>t. t\<lparr>m_subtree_status_response := (0, 0)\<rparr>" WaitingInit] st n
    by (simp add: Let_def cur_def states_def)
qed

lemma test_isend_children:
  assumes inv: "td_inv k p ph pay rep s" and r: "0 \<le> r" "r < p" and st: "states s r = WaitingIsendChildren" and b: "\<not> busy s r"
  shows "\<exists>s' st'. run_test r ob s = Some s' \<and> td_inv k p ph pay rep s' \<and> moved r st' s s' \<and> (st' = WaitingIsendChildren \<or> st' = WaitingRecvChildren)
    \<and> (length (m_vec_req_isend_children (td_at (world s) r)) \<le> sends_done ob \<longrightarrow> st' = WaitingRecvChildren)"
proof -
  let ?q = "take (length (m_vec_req_isend_children (td_at (world s) r)) - sends_done ob) (m_vec_req_isend_children (td_at (world s) r))"
  define st' where "st' = (if ?q = [] then WaitingRecvChildren else WaitingIsendChildren)"
  define f :: "td \<Rightarrow> td" where "f = (\<lambda>t. t\<lparr>m_vec_req_isend_children := ?q, m_current_state := st'\<rparr>)"
  have "run_test r ob s = Some (s\<lparr>world := set_td r f (world s), returned := (returned s)(r := False)\<rparr>)"
    using b td_invD(4) [OF inv, of r] st
    by (auto simp: run_test_def test_for_termination_def states_def handle_waiting_isend_children_def Let_def f_def st'_def set_td_def set_td_state_def fun_eq_iff)
  moreover have "td_inv k p ph pay rep (s\<lparr>world := set_td r f (world s), returned := (returned s)(r := False)\<rparr>)"
    "moved r st' s (s\<lparr>world := set_td r f (world s), returned := (returned s)(r := False)\<rparr>)"
    using quiet_keeps [OF inv r, of f st'] st by (auto simp: f_def cur_def st'_def)
  moreover have "st' = WaitingIsendChildren \<or> st' = WaitingRecvChildren"
    "length (m_vec_req_isend_children (td_at (world s) r)) \<le> sends_done ob \<longrightarrow> st' = WaitingRecvChildren" by (simp_all add: st'_def)
  ultimately show ?thesis by blast
qed

lemma test_isend_parent:
  assumes inv: "td_inv k p ph pay rep s" and r: "0 \<le> r" "r < p" and st: "states s r = WaitingIsendParent" and b: "\<not> busy s r"
  shows "\<exists>s'. run_test r ob s = Some s' \<and> td_inv k p ph pay rep s' \<and> moved r (if parent_send_done ob then WaitingInit else WaitingIsendParent) s s'"
proof -
  define st' where "st' = (if parent_send_done ob then WaitingInit else WaitingIsendParent)"
  define f :: "td \<Rightarrow> td" where "f = (\<lambda>t. t\<lparr>m_current_state := st'\<rparr>)"
  have "run_test r ob s = Some (s\<lparr>world := set_td r f (world s), returned := (returned s)(r := False)\<rparr>)"
    using b td_invD(4) [OF inv, of r] st
    by (auto simp: run_test_def test_for_termination_def states_def handle_waiting_isend_parent_def f_def st'_def set_td_def set_td_state_def fun_eq_iff intro!: td.equality)
  moreover have "td_inv k p ph pay rep (s\<lparr>world := set_td r f (world s), returned := (returned s)(r := False)\<rparr>)"
    "moved r st' s (s\<lparr>world := set_td r f (world s), returned := (returned s)(r := False)\<rparr>)"
    using quiet_keeps [OF inv r, of f st'] st by (auto simp: f_def cur_def st'_def)
  ultimately show ?thesis unfolding st'_def by blast
qed

subsection \<open>Responses\<close>

lemma waiting_none:
  assumes "td_inv k p ph pay rep s" "0 \<le> r" "r < p" "ph r = Active"
  shows "m_num_waiting_recv_children (td_at (world s) r) = 0 \<longleftrightarrow> (\<forall>c \<in> kids k p r. ph c = Absorbed)"
proof -
  have "finite (waiting_kids k p ph r)" by (rule finite_subset [of _ "kids k p r"]) (auto simp: waiting_kids_def)
  then show ?thesis using rank_invD(3) [OF td_inv_rank(1) [OF assms(1-3)]] assms(4) by (auto simp: waiting_kids_def)
qed

lemma recv_response_keeps:
  assumes inv: "td_inv k p ph pay rep s" and k: "1 \<le> k" and r: "0 \<le> r" "r < p" and ph: "ph r = Active"
    and msg: "response_msgs (world s) c r = v # rest"
  defines "w' \<equiv> set_td r (\<lambda>t. t\<lparr>m_num_waiting_recv_children := m_num_waiting_recv_children t - 1,
                              m_subtree_status_response := add_response (m_subtree_status_response t) v\<rparr>)
               ((world s)\<lparr>response_msgs := (response_msgs (world s))(c := (response_msgs (world s) c)(r := rest))\<rparr>)"
  shows "td_inv k p (ph(c := Absorbed)) pay rep (s\<lparr>world := w'\<rparr>)" "moved r (states s r) s (s\<lparr>world := w'\<rparr>)" "c \<in> kids k p r" "ph c = Responded"
proof -
  note wi = td_invD(1) [OF inv]
  have m: "ph c = Responded" "r = par k c" "v = pay c" "rest = []"
    using msg unfolding wave_invD(4) [OF wi] response_net_def by (auto split: if_splits)
  have c0: "c \<noteq> 0" "0 \<le> c" "c < p" using wave_invD(1,2) [OF wi] m(1) by (metis insertE phase.distinct singletonD, auto)
  then show kid: "c \<in> kids k p r" using m by (simp add: kids_def)
  have rn: "response_msgs w' = response_net k (ph(c := Absorbed)) pay"
    using m(1,2) unfolding w'_def by (auto simp: wave_invD(4) [OF wi] response_net_def m(4) fun_eq_iff)
  show "ph c = Responded" by (rule m(1))
  show mv: "moved r (states s r) s (s\<lparr>world := w'\<rparr>)"
    by (auto simp: moved_def states_def counts_def kept_def w'_def cur_def fun_eq_iff)
  show "td_inv k p (ph(c := Absorbed)) pay rep (s\<lparr>world := w'\<rparr>)"
  proof (rule td_invI [OF inv])
    show "wave_inv k p (ph(c := Absorbed)) pay w'"
      by (rule wave_absorb [OF wi k r ph m(1) kid _ rn]) (use td_inv_rank(2) [OF inv r] in \<open>simp_all add: w'_def\<close>)
    show "conserved p (ph(c := Absorbed)) pay rep (td_at w')"
      by (rule conserved_absorb [OF td_invD(2) [OF inv] r c0(2,3) ph m(1)]) (simp_all add: w'_def m(3))
  qed (use mv m(1) td_invD(5,6) [OF inv] in \<open>auto simp: moved_def w'_def split: if_splits\<close>)
qed

lemma moved_trans: "moved r st s s' \<Longrightarrow> moved r st' s' s'' \<Longrightarrow> moved r st' s s''"
  by (auto simp: moved_def)

lemma recv_responses_keep:
  assumes "td_inv k p ph pay rep s" "1 \<le> k" "0 \<le> r" "r < p" "ph r = Active" "recv_responses r srcs (world s) = Some w'"
  shows "\<exists>ph'. td_inv k p ph' pay rep (s\<lparr>world := w'\<rparr>) \<and> moved r (states s r) s (s\<lparr>world := w'\<rparr>)
    \<and> ph' = (\<lambda>x. if x \<in> set srcs then Absorbed else ph x) \<and> ph' r = Active \<and> (\<forall>x \<in> set srcs. ph x = Responded)"
  using assms
proof (induction srcs arbitrary: s ph)
  case Nil
  then show ?case by (auto simp: moved_def)
next
  case (Cons c srcs)
  obtain v rest where m: "response_msgs (world s) c r = v # rest" using Cons.prems(6) by (auto split: list.splits)
  define w2 where "w2 = set_td r (\<lambda>t. t\<lparr>m_num_waiting_recv_children := m_num_waiting_recv_children t - 1,
                              m_subtree_status_response := add_response (m_subtree_status_response t) v\<rparr>)
               ((world s)\<lparr>response_msgs := (response_msgs (world s))(c := (response_msgs (world s) c)(r := rest))\<rparr>)"
  note n = recv_response_keeps [OF Cons.prems(1-5) m, folded w2_def]
  have cr: "(ph(c := Absorbed)) r = Active" using n(3) Cons.prems(5) not_own_kid [OF Cons.prems(2)] by auto
  have "recv_responses r srcs (world (s\<lparr>world := w2\<rparr>)) = Some w'" using Cons.prems(6) m by (simp add: w2_def)
  from Cons.IH [OF n(1) Cons.prems(2-4) cr this] obtain ph' where ph': "td_inv k p ph' pay rep (s\<lparr>world := w'\<rparr>)"
    "moved r (states (s\<lparr>world := w2\<rparr>) r) (s\<lparr>world := w2\<rparr>) (s\<lparr>world := w'\<rparr>)" "ph' = (\<lambda>x. if x \<in> set srcs then Absorbed else (ph(c := Absorbed)) x)" "ph' r = Active"
    "\<forall>x \<in> set srcs. (ph(c := Absorbed)) x = Responded" by auto
  have "moved r (states s r) s (s\<lparr>world := w'\<rparr>)" using moved_trans [OF n(2) ph'(2)] n(2) by (simp add: moved_def)
  moreover have "ph' = (\<lambda>x. if x \<in> set (c # srcs) then Absorbed else ph x)" unfolding ph'(3) by auto
  ultimately show ?case using ph'(1,4,5) n(4) by (auto split: if_splits)
qed

lemma respond_keeps:
  assumes inv: "td_inv k p ph pay rep s" and k: "1 \<le> k" and r: "1 \<le> r" "r < p" and ph: "ph r = Active" and absorbed: "\<And>c. c \<in> kids k p r \<Longrightarrow> ph c = Absorbed"
    and b: "\<not> busy s r" and v: "v = add_response (m_subtree_status_response (td_at (world s) r)) (counts s r)"
    and w: "td_at w = (td_at (world s))(r := t)" "query_msgs w = query_msgs (world s)" "terminate_msgs w = terminate_msgs (world s)"
      "response_msgs w = (response_msgs (world s))(r := (response_msgs (world s) r)(par k r := response_msgs (world s) r (par k r) @ [v]))"
    and t: "configured k p r t" "m_current_state t = WaitingIsendParent" "m_num_waiting_recv_children t = int (card (kids k p r))" "cur t = counts s r"
  shows "td_inv k p (ph(r := Responded)) (pay(r := v)) (rep(r := counts s r)) (s\<lparr>world := w\<rparr>)" "moved r WaitingIsendParent s (s\<lparr>world := w\<rparr>)"
proof -
  note wi = td_invD(1) [OF inv]
  have rn: "response_msgs w = response_net k (ph(r := Responded)) (pay(r := v))"
    using ph unfolding w(4) wave_invD(4) [OF wi] by (auto simp: response_net_def fun_eq_iff)
  show mv: "moved r WaitingIsendParent s (s\<lparr>world := w\<rparr>)"
    using t r by (auto simp: moved_def states_def counts_def kept_def w(1) fun_eq_iff)
  show "td_inv k p (ph(r := Responded)) (pay(r := v)) (rep(r := counts s r)) (s\<lparr>world := w\<rparr>)"
  proof (rule td_invI [OF inv])
    show "wave_inv k p (ph(r := Responded)) (pay(r := v)) w"
      by (rule wave_respond [OF wi k r ph absorbed w(2) rn]) (use t in \<open>simp_all add: w(1)\<close>)
    show "conserved p (ph(r := Responded)) (pay(r := v)) (rep(r := counts s r)) (td_at w)"
      unfolding v by (rule conserved_respond [OF td_invD(2) [OF inv] _ r(2) ph]) (use r in \<open>simp_all add: w(1)\<close>)
  qed (use mv b td_invD(5,6) [OF inv] in \<open>auto simp: moved_def w(3) split: if_splits\<close>)
qed

definition root_sum :: "td_run \<Rightarrow> status_response" where
  "root_sum s = add_response (m_subtree_status_response (td_at (world s) 0)) (counts s 0)"

lemma finish_sums:
  assumes inv: "td_inv k p ph pay rep s" and k: "1 \<le> k" and p: "0 < p" and ph: "ph 0 = Active" and absorbed: "\<And>c. c \<in> kids k p 0 \<Longrightarrow> ph c = Absorbed"
    and b: "\<not> busy s 0"
  shows "counts_inv p (ph(0 := Absorbed)) (rep(0 := counts s 0)) (busy s) (kept s) (counts s)"
    "\<And>r. 0 \<le> r \<Longrightarrow> r < p \<Longrightarrow> reported ((ph(0 := Absorbed)) r)"
    "f = fst \<or> f = snd \<Longrightarrow> f (root_sum s) = (\<Sum>r \<in> {0..<p}. f ((rep(0 := counts s 0)) r))"
proof -
  have abs: "ph r = Absorbed" if "1 \<le> r" "r < p" for r
    using all_absorbed [OF td_invD(1) [OF inv] k _ that] absorbed by blast
  show "counts_inv p (ph(0 := Absorbed)) (rep(0 := counts s 0)) (busy s) (kept s) (counts s)"
    by (rule counts_report [OF td_invD(3) [OF inv]]) (use b in \<open>auto split: if_splits\<close>)
  show "reported ((ph(0 := Absorbed)) r)" if "0 \<le> r" "r < p" for r
    using abs [of r] that by (cases "r = 0") auto
  show "f (root_sum s) = (\<Sum>r \<in> {0..<p}. f ((rep(0 := counts s 0)) r))" if f: "f = fst \<or> f = snd"
    unfolding root_sum_def by (rule conserved_root [OF td_invD(2) [OF inv] p ph abs f])
qed

lemma finish_keeps:
  assumes inv: "td_inv k p ph pay rep s" and k: "1 \<le> k" and p: "0 < p" and ph: "ph 0 = Active" and absorbed: "\<And>c. c \<in> kids k p 0 \<Longrightarrow> ph c = Absorbed"
    and b: "\<not> busy s 0"
    and w: "td_at w = (td_at (world s))(0 := t)" "query_msgs w = query_msgs (world s)" "terminate_msgs w = terminate_msgs (world s)" "response_msgs w = response_msgs (world s)"
    and t: "configured k p 0 t" "m_current_state t = WaitingInit" "m_num_waiting_recv_children t = int (card (kids k p 0))" "cur t = counts s 0"
      "m_previous_subtree_status_response t = kept s \<or> m_previous_subtree_status_response t = root_sum s"
  shows "td_inv k p (\<lambda>_. Idle) pay rep (s\<lparr>world := w\<rparr>)"
proof -
  note F = finish_sums [OF inv k p ph absorbed b]
  have "counts_inv p (\<lambda>_. Idle) rep (busy s) (m_previous_subtree_status_response t) (counts s)"
    using t(5) counts_next [OF F] counts_report [OF F(1), of "\<lambda>_. Idle" rep] by auto
  moreover have "wave_inv k p (\<lambda>_. Idle) pay w"
    by (rule wave_finish [OF td_invD(1) [OF inv] k p ph absorbed w(2,4)]) (use t in \<open>simp_all add: w(1)\<close>)
  moreover have "counts (s\<lparr>world := w\<rparr>) = counts s" using t(4) by (auto simp: counts_def w(1) fun_eq_iff)
  moreover have "conserved p (\<lambda>_. Idle) pay rep (td_at w)" by (simp add: conserved_def held_def report_def)
  ultimately show ?thesis using td_invD(5,6) [OF inv] by (simp add: td_inv_def kept_def w)
qed

subsection \<open>After the decision\<close>

definition terminate_net :: "int \<Rightarrow> int \<Rightarrow> (int \<Rightarrow> bool) \<Rightarrow> int \<Rightarrow> int \<Rightarrow> nat" where
  "terminate_net k p ret s d = of_bool (d \<in> kids k p s \<and> ret s \<and> \<not> ret d)"

definition td_done :: "int \<Rightarrow> int \<Rightarrow> td_run \<Rightarrow> bool" where
  "td_done k p s \<longleftrightarrow> (\<forall>r \<in> {0..<p}. configured k p r (td_at (world s) r) \<and> states s r \<in> {WaitingInit, WaitingIsendParent} \<and> \<not> busy s r)
     \<and> returned s 0 \<and> query_msgs (world s) = (\<lambda>_ _. 0) \<and> total_queued p s = total_completed p s
     \<and> terminate_msgs (world s) = terminate_net k p (returned s) \<and> (\<forall>r. returned s r \<longrightarrow> r = 0 \<or> 1 \<le> r \<and> r < p \<and> returned s (par k r))"

lemma totals_tally: "total_queued p s = tally fst p (counts s)" "total_completed p s = tally snd p (counts s)"
  by (simp_all add: total_queued_def total_completed_def tally_def counts_def cur_def)

lemma decide_done:
  assumes inv: "td_inv k p ph pay rep s" and k: "1 \<le> k" and p: "0 < p" and ph: "ph 0 = Active" and absorbed: "\<And>c. c \<in> kids k p 0 \<Longrightarrow> ph c = Absorbed"
    and b: "\<not> busy s 0" and eq: "fst (root_sum s) = snd (root_sum s)" "root_sum s = kept s"
    and w: "td_at w = (td_at (world s))(0 := t)" "query_msgs w = query_msgs (world s)"
      "terminate_msgs w = (\<lambda>s d. of_bool (s = 0 \<and> d \<in> kids k p 0))"
    and t: "configured k p 0 t" "m_current_state t = WaitingInit" "cur t = counts s 0"
  shows "td_done k p (s\<lparr>world := w, returned := (returned s)(0 := True)\<rparr>)"
proof -
  note F = finish_sums [OF inv k p ph absorbed b]
  have D: "tally fst p (counts s) = tally snd p (counts s)" "\<And>r. 0 \<le> r \<Longrightarrow> r < p \<Longrightarrow> \<not> busy s r"
    using counts_decide [OF F eq] by blast+
  have c: "counts (s\<lparr>world := w, returned := ret\<rparr>) = counts s" for ret using t(3) by (auto simp: counts_def w(1) fun_eq_iff)
  have st: "states s r \<in> {WaitingInit, WaitingIsendParent}" if "1 \<le> r" "r < p" for r
    using all_absorbed [OF td_invD(1) [OF inv] k absorbed that] td_inv_rank(4) [OF inv _ that(2)] that by (cases "states s r") auto
  have q: "query_msgs w = (\<lambda>_ _. 0)"
  proof -
    have "ph d \<noteq> Queried" for d
      using all_absorbed [OF td_invD(1) [OF inv] k absorbed, of d] wave_invD(1) [OF td_invD(1) [OF inv], of d] ph by (cases "d = 0"; cases "ph d = Idle") auto
    then show ?thesis unfolding w(2) wave_invD(3) [OF td_invD(1) [OF inv]] by (auto simp: query_net_def fun_eq_iff)
  qed
  have tn: "terminate_msgs w = terminate_net k p ((returned s)(0 := True))"
    unfolding w(3) td_invD(5) [OF inv] by (auto simp: terminate_net_def fun_eq_iff dest: kidsD)
  have "configured k p r (td_at w r) \<and> m_current_state (td_at w r) \<in> {WaitingInit, WaitingIsendParent} \<and> \<not> busy s r" if "0 \<le> r" "r < p" for r
    using td_inv_rank(2) [OF inv that] st [of r] D(2) [OF that] t that by (cases "r = 0") (auto simp: w(1) states_def)
  then show ?thesis
    using D(1) q tn td_invD(5) [OF inv] by (simp add: td_done_def states_def totals_tally c)
qed

subsection \<open>Collecting responses\<close>

text \<open>A leaf, or a rank that has all responses of its children, adds its own counts and answers.\<close>

definition own_counts_added :: "td \<Rightarrow> td" where
  "own_counts_added t = add_own_counts (t\<lparr>m_num_waiting_recv_children := num_children t\<rparr>)"

lemma own_counts_added_simps:
  assumes "configured k p r t" "1 \<le> k" "0 \<le> r"
  shows "configured k p r (own_counts_added t)" "m_num_waiting_recv_children (own_counts_added t) = int (card (kids k p r))" "cur (own_counts_added t) = cur t"
    "m_subtree_status_response (own_counts_added t) = add_response (m_subtree_status_response t) (cur t)"
    "m_previous_subtree_status_response (own_counts_added t) = m_previous_subtree_status_response t"
  using assms child_ranks_eq(3) [OF assms] by (simp_all add: own_counts_added_def add_own_counts_def cur_def)

definition responded :: "int \<Rightarrow> int \<Rightarrow> td_world \<Rightarrow> td_world" where
  "responded k r w =
     (let t = own_counts_added (td_at w r)
      in w\<lparr>td_at := (td_at w)(r := t\<lparr>m_current_state := WaitingIsendParent\<rparr>),
           response_msgs := (response_msgs w)(r := (response_msgs w r)(par k r := response_msgs w r (par k r) @ [m_subtree_status_response t]))\<rparr>)"

lemma responded_eq:
  assumes "configured k p r (td_at w r)" "1 \<le> k" "1 \<le> r"
  shows "isend_status_response_to_parent r (set_td r own_counts_added w) = Some w' \<Longrightarrow> set_td_state r WaitingIsendParent w' = responded k r w"
    "\<exists>w'. isend_status_response_to_parent r (set_td r own_counts_added w) = Some w'"
proof -
  have "configured k p r (own_counts_added (td_at w r))" using own_counts_added_simps(1) assms by simp
  then have "parent_rank (own_counts_added (td_at w r)) = par k r" by (rule parent_rank_eq [OF _ assms(2,3)])
  moreover have "0 \<le> par k r" using par_bounds(1) [OF assms(2,3)] .
  ultimately show "isend_status_response_to_parent r (set_td r own_counts_added w) = Some w' \<Longrightarrow> set_td_state r WaitingIsendParent w' = responded k r w"
    "\<exists>w'. isend_status_response_to_parent r (set_td r own_counts_added w) = Some w'"
    by (auto simp: isend_status_response_to_parent_def responded_def Let_def set_td_state_def set_td_def)
qed

lemma responded_keeps:
  assumes inv: "td_inv k p ph pay rep s" and k: "1 \<le> k" and r: "1 \<le> r" "r < p" and ph: "ph r = Active" and absorbed: "\<And>c. c \<in> kids k p r \<Longrightarrow> ph c = Absorbed" and b: "\<not> busy s r"
  shows "\<exists>pay'. td_inv k p (ph(r := Responded)) pay' (rep(r := counts s r)) (s\<lparr>world := responded k r (world s)\<rparr>)" "moved r WaitingIsendParent s (s\<lparr>world := responded k r (world s)\<rparr>)"
proof -
  have r0: "0 \<le> r" using r by simp
  note o = own_counts_added_simps [OF td_inv_rank(2) [OF inv r0 r(2)] k r0]
  let ?t = "(own_counts_added (td_at (world s) r))\<lparr>m_current_state := WaitingIsendParent\<rparr>"
  have t: "configured k p r ?t" "m_current_state ?t = WaitingIsendParent" "m_num_waiting_recv_children ?t = int (card (kids k p r))" "cur ?t = counts s r"
    using o by (simp_all add: counts_def cur_def)
  note R = respond_keeps [OF inv k r ph absorbed b refl _ _ _ _ t, of "responded k r (world s)"]
  have w: "td_at (responded k r (world s)) = (td_at (world s))(r := ?t)" "query_msgs (responded k r (world s)) = query_msgs (world s)" "terminate_msgs (responded k r (world s)) = terminate_msgs (world s)"
    "response_msgs (responded k r (world s)) = (response_msgs (world s))(r := (response_msgs (world s) r)(par k r := response_msgs (world s) r (par k r) @ [add_response (m_subtree_status_response (td_at (world s) r)) (counts s r)]))"
    using o by (simp_all add: responded_def Let_def counts_def)
  show "\<exists>pay'. td_inv k p (ph(r := Responded)) pay' (rep(r := counts s r)) (s\<lparr>world := responded k r (world s)\<rparr>)" "moved r WaitingIsendParent s (s\<lparr>world := responded k r (world s)\<rparr>)"
    using R [OF _ w] by blast+
qed

text \<open>The last step of a round at the root.\<close>

definition rounded :: "td_run \<Rightarrow> bool \<times> td_world" where
  "rounded s =
     (let w = world s; t = own_counts_added (td_at w 0); sub = root_sum s in
      if fst sub = snd sub then
        (if sub = kept s then (True, w\<lparr>td_at := (td_at w)(0 := t\<lparr>m_current_state := WaitingInit\<rparr>), terminate_msgs := fold (send1 0) (child_ranks (own_counts_added (td_at w 0))) (terminate_msgs w)\<rparr>)
         else (False, w\<lparr>td_at := (td_at w)(0 := t\<lparr>m_previous_subtree_status_response := sub, m_current_state := WaitingInit\<rparr>)\<rparr>))
      else (False, w\<lparr>td_at := (td_at w)(0 := t\<lparr>m_current_state := WaitingInit\<rparr>)\<rparr>))"

definition after_responses :: "int \<Rightarrow> int \<Rightarrow> td_run \<Rightarrow> bool \<times> td_world" where
  "after_responses k r s =
     (if m_num_waiting_recv_children (td_at (world s) r) \<noteq> 0 then (False, world s)
      else if r = 0 then rounded s else (False, responded k r (world s)))"

lemma handle_recv_eq:
  assumes "configured k p r (td_at w r)" "1 \<le> k" "0 \<le> r" "kids k p r \<noteq> {}" "recv_responses r (response_sources ob) w = Some w'" "configured k p r (td_at w' r)"
  shows "handle_waiting_recv_children r ob w = Some (after_responses k r (s\<lparr>world := w'\<rparr>))"
proof -
  have leaf: "\<not> is_leaf_rank (td_at w r)" using child_ranks_eq(4) [OF assms(1-3)] assms(4) by simp
  have o: "set_td r add_own_counts (set_td r (\<lambda>t. t\<lparr>m_num_waiting_recv_children := num_children t\<rparr>) x) = set_td r own_counts_added x" for x
    by (simp add: set_td_def own_counts_added_def)
  have rk: "td_mpi_rank (own_counts_added (td_at w' r)) = r" using own_counts_added_simps(1) [OF assms(6,2,3)] by (simp add: configured_def)
  have sub: "m_subtree_status_response (own_counts_added (td_at w' r)) = add_response (m_subtree_status_response (td_at w' r)) (cur (td_at w' r))"
    "m_previous_subtree_status_response (own_counts_added (td_at w' r)) = m_previous_subtree_status_response (td_at w' r)"
    by (rule own_counts_added_simps [OF assms(6,2,3)])+
  show ?thesis
  proof (cases "r = 0")
    case True
    show ?thesis using leaf assms(5) rk sub unfolding handle_waiting_recv_children_def Let_def o unfolding True
      by (auto simp: after_responses_def rounded_def Let_def root_sum_def counts_def kept_def set_td_def set_td_state_def send_terminate_to_children_def)
  next
    case False
    then have r1: "1 \<le> r" using assms(3) by simp
    obtain w3 where w3: "isend_status_response_to_parent r (set_td r own_counts_added w') = Some w3" using responded_eq(2) [OF assms(6,2) r1] by blast
    show ?thesis using leaf assms(5) rk False w3 responded_eq(1) [OF assms(6,2) r1 w3] unfolding handle_waiting_recv_children_def Let_def o
      by (auto simp: after_responses_def)
  qed
qed

lemma rounded_keeps:
  assumes inv: "td_inv k p ph pay rep s" and k: "1 \<le> k" and p: "0 < p" and ph: "ph 0 = Active" and absorbed: "\<And>c. c \<in> kids k p 0 \<Longrightarrow> ph c = Absorbed"
    and b: "\<not> busy s 0" and w: "rounded s = (res, w)"
  shows "res \<Longrightarrow> td_done k p (s\<lparr>world := w, returned := (returned s)(0 := True)\<rparr>)"
    "\<not> res \<Longrightarrow> td_inv k p (\<lambda>_. Idle) pay rep (s\<lparr>world := w\<rparr>)"
    "res \<longleftrightarrow> fst (root_sum s) = snd (root_sum s) \<and> root_sum s = kept s"
    "states (s\<lparr>world := w\<rparr>) = (states s)(0 := WaitingInit)" "counts (s\<lparr>world := w\<rparr>) = counts s"
    "kept (s\<lparr>world := w\<rparr>) = (if fst (root_sum s) = snd (root_sum s) then root_sum s else kept s)"
proof -
  note o = own_counts_added_simps [OF td_inv_rank(2) [OF inv order_refl p] k order_refl]
  define t where "t = own_counts_added (td_at (world s) 0)"
  have t: "configured k p 0 (t\<lparr>m_current_state := WaitingInit\<rparr>)" "m_num_waiting_recv_children t = int (card (kids k p 0))" "cur t = counts s 0" "m_previous_subtree_status_response t = kept s"
    using o by (simp_all add: t_def counts_def kept_def)
  have c: "cur (t\<lparr>m_current_state := st\<rparr>) = counts s 0" "cur (t\<lparr>m_previous_subtree_status_response := pr, m_current_state := st\<rparr>) = counts s 0" for st pr
    using t(3) by (simp_all add: cur_def)
  show res: "res \<longleftrightarrow> fst (root_sum s) = snd (root_sum s) \<and> root_sum s = kept s"
    using w by (auto simp: rounded_def Let_def split: if_splits)
  have cr: "terminate_msgs w = (\<lambda>s d. of_bool (s = 0 \<and> d \<in> kids k p 0))" if res
    using w that child_ranks_eq(1,2) [OF o(1) k order_refl] td_invD(6) [OF inv]
    by (auto simp: rounded_def Let_def send1_fold split: if_splits)
  show "td_done k p (s\<lparr>world := w, returned := (returned s)(0 := True)\<rparr>)" if r: res
    by (rule decide_done [OF inv k p ph absorbed b, of _ "t\<lparr>m_current_state := WaitingInit\<rparr>"])
      (use w r res t(1) c(1) cr [OF r] in \<open>auto simp: rounded_def Let_def t_def split: if_splits\<close>)
  show "td_inv k p (\<lambda>_. Idle) pay rep (s\<lparr>world := w\<rparr>)" if r: "\<not> res"
    by (rule finish_keeps [OF inv k p ph absorbed b, of _ "td_at w 0"])
      (use w r t in \<open>auto simp: rounded_def Let_def t_def [symmetric] cur_def split: if_splits\<close>)
  show "states (s\<lparr>world := w\<rparr>) = (states s)(0 := WaitingInit)" "counts (s\<lparr>world := w\<rparr>) = counts s"
    using w t(3) by (auto simp: rounded_def Let_def t_def [symmetric] states_def counts_def cur_def fun_eq_iff split: if_splits)
  show "kept (s\<lparr>world := w\<rparr>) = (if fst (root_sum s) = snd (root_sum s) then root_sum s else kept s)"
    using w t(4) by (auto simp: rounded_def Let_def t_def [symmetric] kept_def split: if_splits)
qed

lemma test_leaf:
  assumes inv: "td_inv k p ph pay rep s" and k: "1 \<le> k" and r: "1 \<le> r" "r < p" and st: "states s r = WaitingRecvChildren" and b: "\<not> busy s r" and leaf: "kids k p r = {}"
  shows "\<exists>s' pay'. run_test r ob s = Some s' \<and> td_inv k p (ph(r := Responded)) pay' (rep(r := counts s r)) s' \<and> moved r WaitingIsendParent s s'"
proof -
  have r0: "0 \<le> r" using r by simp
  note T = td_inv_rank [OF inv r0 r(2)]
  have ph: "ph r = Active" using T(4) st by simp
  note ce = child_ranks_eq [OF T(2) k r0]
  have n: "m_num_waiting_recv_children (td_at (world s) r) = num_children (td_at (world s) r)"
    using rank_invD(3) [OF T(1)] leaf ce(3) by (simp add: waiting_kids_def)
  have "(td_at (world s) r)\<lparr>m_num_waiting_recv_children := num_children (td_at (world s) r)\<rparr> = td_at (world s) r"
    using n by (intro td.equality) simp_all
  then have o: "set_td r add_own_counts (world s) = set_td r own_counts_added (world s)"
    unfolding set_td_def own_counts_added_def by simp
  obtain w3 where w3: "isend_status_response_to_parent r (set_td r own_counts_added (world s)) = Some w3" using responded_eq(2) [OF T(2) k r(1)] by blast
  have "run_test r ob s = Some (s\<lparr>world := responded k r (world s), returned := (returned s)(r := False)\<rparr>)"
    using b td_invD(4) [OF inv, of r] st leaf ce(4) w3 responded_eq(1) [OF T(2) k r(1) w3]
    by (simp add: run_test_def test_for_termination_def states_def handle_waiting_recv_children_def o)
  moreover have "returned s = (returned s)(r := False)" using td_invD(5) [OF inv] by auto
  then have "s\<lparr>world := responded k r (world s), returned := (returned s)(r := False)\<rparr> = s\<lparr>world := responded k r (world s)\<rparr>" by (metis (no_types, lifting) td_run.surjective td_run.update_convs(3) td_run.update_convs(1))
  ultimately show ?thesis using responded_keeps [OF inv k r ph _ b] leaf by auto
qed

lemma test_recv:
  assumes inv: "td_inv k p ph pay rep s" and k: "1 \<le> k" and r: "0 \<le> r" "r < p" and st: "states s r = WaitingRecvChildren" and b: "\<not> busy s r" and inner: "kids k p r \<noteq> {}"
  shows "run_test r ob s =
    (case recv_responses r (response_sources ob) (world s) of None \<Rightarrow> None
     | Some w \<Rightarrow> (case after_responses k r (s\<lparr>world := w\<rparr>) of (res, w) \<Rightarrow> Some (s\<lparr>world := w, returned := (returned s)(r := res)\<rparr>)))"
proof (cases "recv_responses r (response_sources ob) (world s)")
  case None
  note T = td_inv_rank [OF inv r]
  show ?thesis using None b td_invD(4) [OF inv, of r] st child_ranks_eq(4) [OF T(2) k r(1)] inner
    by (simp add: run_test_def test_for_termination_def states_def handle_waiting_recv_children_def)
next
  case (Some w')
  note T = td_inv_rank [OF inv r]
  have ph: "ph r = Active" using T(4) st by simp
  obtain ph' where "td_inv k p ph' pay rep (s\<lparr>world := w'\<rparr>)" using recv_responses_keep [OF inv k r ph Some] by blast
  then have "configured k p r (td_at w' r)" using td_inv_rank(2) [OF _ r] by fastforce
  then show ?thesis using Some b td_invD(4) [OF inv, of r] st handle_recv_eq [OF T(2) k r(1) inner Some, of s]
    by (simp add: run_test_def test_for_termination_def states_def split: prod.splits)
qed

end
