(* ===== verification/Termination_Properties.thy ===== *)
theory Termination_Properties
  imports Termination_Safety
begin

section \<open>Termination is detected only when nothing is left\<close>

text \<open>
  Every step of a run keeps the invariant of the rounds, or the state after the root's decision; so a call that
  returns true means that everything queued has been completed.
\<close>

lemma tally_upd:
  assumes "0 \<le> r" "r < p"
  shows "tally f p (g(r := v)) + unat (f (g r)) = tally f p g + unat (f v)"
proof -
  have m: "r \<in> {0..<p}" using assms by simp
  have "(\<Sum>x \<in> {0..<p} - {r}. unat (f ((g(r := v)) x))) = (\<Sum>x \<in> {0..<p} - {r}. unat (f (g x)))"
    by (rule sum.cong) auto
  then show ?thesis unfolding tally_def using sum.remove [OF _ m, of "\<lambda>x. unat (f ((g(r := v)) x))"] sum.remove [OF _ m, of "\<lambda>x. unat (f (g x))"] by simp
qed

lemma tally_member: "0 \<le> r \<Longrightarrow> r < p \<Longrightarrow> unat (f (g r)) \<le> tally f p g"
  unfolding tally_def by (rule member_le_sum) auto

lemma unat_add_nat:
  fixes a :: u64
  assumes "unat a + n < 2 ^ 64"
  shows "unat (a + of_nat n) = unat a + n"
proof -
  have "of_nat (unat a + n) = a + of_nat n" by simp
  then show ?thesis by (rule of_nat_inverse) (use assms in simp)
qed

lemma work_keeps:
  assumes inv: "td_inv k p ph pay rep s" and r: "0 \<le> r" "r < p"
    and f: "configured k p r (td_at (world s) r) \<Longrightarrow> configured k p r (f (td_at (world s) r))"
      "m_num_waiting_recv_children (f (td_at (world s) r)) = m_num_waiting_recv_children (td_at (world s) r)"
      "m_previous_subtree_status_response (f (td_at (world s) r)) = m_previous_subtree_status_response (td_at (world s) r)"
      "m_subtree_status_response (f (td_at (world s) r)) = m_subtree_status_response (td_at (world s) r)"
      "m_current_state (f (td_at (world s) r)) = m_current_state (td_at (world s) r)"
    and c: "counts_inv p ph rep (busy s) (kept s) ((counts s)(r := cur (f (td_at (world s) r))))"
  shows "td_inv k p ph pay rep (s\<lparr>world := set_td r f (world s)\<rparr>)"
proof -
  have "counts (s\<lparr>world := set_td r f (world s)\<rparr>) = (counts s)(r := cur (f (td_at (world s) r)))"
    by (auto simp: counts_def fun_eq_iff)
  moreover have "kept (s\<lparr>world := set_td r f (world s)\<rparr>) = kept s" using f(3) by (auto simp: kept_def)
  moreover have "wave_inv k p ph pay (set_td r f (world s))"
    by (rule wave_inv_same [OF td_invD(1) [OF inv]]) (use f in auto)
  moreover have "conserved p ph pay rep (td_at (set_td r f (world s)))"
    by (rule conserved_same [OF td_invD(2) [OF inv]]) (use f(4) in \<open>auto simp: held_def\<close>)
  ultimately show ?thesis using td_invD(5,6) [OF inv] c by (simp add: td_inv_def)
qed

lemma inc_cur: "cur (inc_queued n t) = (fst (cur t) + of_nat n, snd (cur t))" "cur (inc_completed n t) = (fst (cur t), snd (cur t) + of_nat n)"
  by (simp_all add: cur_def inc_queued_def inc_completed_def)

lemma queue_keeps:
  assumes inv: "td_inv k p ph pay rep s" and r: "0 \<le> r" "r < p" and run: "run_queue p r n s = Some s'"
  shows "td_inv k p ph pay rep s'"
proof -
  let ?c = "counts s" and ?v = "cur (inc_queued n (td_at (world s) r))"
  have g: "busy s r \<or> tally snd p ?c < tally fst p ?c" "tally fst p ?c + n < 2 ^ 64 - 1" "s' = s\<lparr>world := set_td r (inc_queued n) (world s)\<rparr>"
    using run by (auto simp: run_queue_def totals_tally split: if_splits)
  have m: "unat (fst (?c r)) + n < 2 ^ 64" using g(2) tally_member [OF r, of fst ?c] by simp
  have v: "unat (fst ?v) = unat (fst (?c r)) + n" "snd ?v = snd (?c r)"
    unfolding inc_cur using unat_add_nat [OF m] by (simp_all add: counts_def)
  have t: "tally fst p (?c(r := ?v)) = tally fst p ?c + n" "tally snd p (?c(r := ?v)) = tally snd p ?c"
    using tally_upd [OF r, of fst ?c ?v] tally_upd [OF r, of snd ?c ?v] v by simp_all
  have le: "tally snd p ?c \<le> tally fst p ?c" using td_invD(3) [OF inv] by (simp add: counts_inv_def)
  have c: "counts_inv p ph rep (busy s) (kept s) (?c(r := ?v))"
    by (rule counts_work [OF td_invD(3) [OF inv] r]) (use v t g le r in \<open>auto simp: le2_def word_le_nat_alt\<close>)
  show ?thesis unfolding g(3) by (rule work_keeps [where f = "inc_queued n", OF inv r _ _ _ _ _ c]) (simp_all add: inc_queued_def)
qed

lemma complete_keeps:
  assumes inv: "td_inv k p ph pay rep s" and r: "0 \<le> r" "r < p" and run: "run_complete p r n s = Some s'"
  shows "td_inv k p ph pay rep s'"
proof -
  let ?c = "counts s" and ?v = "cur (inc_completed n (td_at (world s) r))"
  have g: "tally snd p ?c + n \<le> tally fst p ?c" "s' = s\<lparr>world := set_td r (inc_completed n) (world s)\<rparr>"
    using run by (simp_all add: run_complete_def totals_tally split: if_splits)
  have b: "tally fst p ?c < 2 ^ 64 - 1" using td_invD(3) [OF inv] by (simp add: counts_inv_def)
  have m: "unat (snd (?c r)) + n < 2 ^ 64" using g(1) b tally_member [OF r, of snd ?c] by simp
  have v: "unat (snd ?v) = unat (snd (?c r)) + n" "fst ?v = fst (?c r)"
    unfolding inc_cur using unat_add_nat [OF m] by (simp_all add: counts_def)
  have t: "tally snd p (?c(r := ?v)) = tally snd p ?c + n" "tally fst p (?c(r := ?v)) = tally fst p ?c"
    using tally_upd [OF r, of fst ?c ?v] tally_upd [OF r, of snd ?c ?v] v by simp_all
  have c: "counts_inv p ph rep (busy s) (kept s) (?c(r := ?v))"
  proof (rule counts_work [OF td_invD(3) [OF inv] r])
    show "(?c(r := ?v)) r = ?c r" if "tally fst p ?c = tally snd p ?c"
      using that g(1) by (simp add: inc_cur counts_def)
  qed (use v t g b in \<open>auto simp: le2_def word_le_nat_alt\<close>)
  show ?thesis unfolding g(2) by (rule work_keeps [where f = "inc_completed n", OF inv r _ _ _ _ _ c]) (simp_all add: inc_completed_def)
qed

lemma counts_busy:
  assumes "counts_inv p ph rep b prev c" "\<And>r. b' r \<Longrightarrow> b r"
  shows "counts_inv p ph rep b' prev c"
proof -
  have "snapshot p ph rep b' prev c lo snap" if "snapshot p ph rep b prev c lo snap" for lo snap
    using that assms(2) unfolding snapshot_def by blast
  then show ?thesis using assms unfolding counts_inv_def by blast
qed

lemma idle_keeps:
  assumes "td_inv k p ph pay rep s"
  shows "td_inv k p ph pay rep (s\<lparr>busy := (busy s)(r := False)\<rparr>)"
proof -
  have "counts_inv p ph rep ((busy s)(r := False)) (kept s) (counts s)"
    by (rule counts_busy [OF td_invD(3) [OF assms]]) (simp split: if_splits)
  moreover have "counts (s\<lparr>busy := (busy s)(r := False)\<rparr>) = counts s" "kept (s\<lparr>busy := (busy s)(r := False)\<rparr>) = kept s"
    by (simp_all add: counts_def kept_def fun_eq_iff)
  ultimately show ?thesis using assms by (simp add: td_inv_def)
qed

lemma test_keeps:
  assumes inv: "td_inv k p ph pay rep s" and k: "1 \<le> k" and p: "2 \<le> p" and r: "0 \<le> r" "r < p" and run: "run_test r ob s = Some s'"
  shows "(\<exists>ph pay rep. td_inv k p ph pay rep s') \<or> td_done k p s'"
proof -
  have b: "\<not> busy s r" using run by (simp add: run_test_def split: if_splits)
  have p0: "0 < p" using p by simp
  show ?thesis
  proof (cases "states s r")
    case WaitingInit
    show ?thesis
    proof (cases "r = 0")
      case True
      then show ?thesis using test_starts_round [OF inv k p0, of ob] WaitingInit b run by auto
    next
      case False
      then have r1: "1 \<le> r" using r by simp
      have "\<not> sees_terminate ob \<and> (sees_query ob \<longrightarrow> ph r = Queried)"
        using init_reset [OF inv k r1 r(2) WaitingInit b, of ob] run by (auto simp: Let_def split: if_splits)
      then show ?thesis
        using test_takes_query [OF inv k r1 r(2) WaitingInit b, of ob] test_waits [OF inv k r1 r(2) WaitingInit b, of ob] run by (cases "sees_query ob") auto
    qed
  next
    case WaitingIsendChildren
    then show ?thesis using test_isend_children [OF inv r WaitingIsendChildren b, of ob] run by auto
  next
    case WaitingIsendParent
    then show ?thesis using test_isend_parent [OF inv r WaitingIsendParent b, of ob] run by auto
  next
    case WaitingRecvChildren
    show ?thesis
    proof (cases "kids k p r = {}")
      case True
      then have r1: "1 \<le> r" using r root_has_kid [OF k p] by (cases "r = 0") auto
      show ?thesis using test_leaf [OF inv k r1 r(2) WaitingRecvChildren b True, of ob] run by auto
    next
      case False
      obtain w res w' where w: "recv_responses r (response_sources ob) (world s) = Some w" "after_responses k r (s\<lparr>world := w\<rparr>) = (res, w')"
        "s' = s\<lparr>world := w', returned := (returned s)(r := res)\<rparr>"
        using run test_recv [OF inv k r WaitingRecvChildren b False, of ob] by (auto split: option.splits prod.splits)
      have act: "ph r = Active" using td_inv_rank(4) [OF inv r] WaitingRecvChildren by simp
      obtain ph' where ph': "td_inv k p ph' pay rep (s\<lparr>world := w\<rparr>)" "ph' r = Active" using recv_responses_keep [OF inv k r act w(1)] by blast
      have ret: "(returned s)(r := False) = returned s" using td_invD(5) [OF inv] by auto
      note wait = waiting_none [OF ph'(1) r ph'(2)]
      show ?thesis
      proof (cases "m_num_waiting_recv_children (td_at w r) = 0")
        case False
        then have "s' = s\<lparr>world := w\<rparr>" using w(2,3) ret by (simp add: after_responses_def)
        then show ?thesis using ph'(1) by blast
      next
        case True
        then have absorbed: "\<And>c. c \<in> kids k p r \<Longrightarrow> ph' c = Absorbed" using wait by simp
        have bw: "\<not> busy (s\<lparr>world := w\<rparr>) r" using b by simp
        show ?thesis
        proof (cases "r = 0")
          case z: True
          then have rd: "rounded (s\<lparr>world := w\<rparr>) = (res, w')" using w(2) True by (simp add: after_responses_def)
          note R = rounded_keeps [OF ph'(1) k p0 _ _ _ rd]
          show ?thesis
          proof (cases res)
            case True
            have "td_done k p ((s\<lparr>world := w\<rparr>)\<lparr>world := w', returned := (returned (s\<lparr>world := w\<rparr>))(0 := True)\<rparr>)"
              using R(1) True ph'(2) absorbed bw z by blast
            then show ?thesis using w(3) True z by simp
          next
            case False
            have "td_inv k p (\<lambda>_. Idle) pay rep ((s\<lparr>world := w\<rparr>)\<lparr>world := w'\<rparr>)"
              using R(2) False ph'(2) absorbed bw z by blast
            moreover have "s' = s\<lparr>world := w'\<rparr>" using w(3) False ret by simp
            ultimately show ?thesis by auto
          qed
        next
          case False
          then have r1: "1 \<le> r" using r by simp
          have "s' = (s\<lparr>world := w\<rparr>)\<lparr>world := responded k r (world (s\<lparr>world := w\<rparr>))\<rparr>" using w(2,3) ret True False by (auto simp: after_responses_def)
          then show ?thesis using responded_keeps(1) [OF ph'(1) k r1 r(2) ph'(2) absorbed bw] by blast
        qed
      qed
    qed
  qed
qed

subsection \<open>After the decision\<close>

lemma td_doneD:
  assumes "td_done k p s"
  shows "0 \<le> r \<Longrightarrow> r < p \<Longrightarrow> configured k p r (td_at (world s) r)" "0 \<le> r \<Longrightarrow> r < p \<Longrightarrow> states s r = WaitingInit \<or> states s r = WaitingIsendParent"
    "0 \<le> r \<Longrightarrow> r < p \<Longrightarrow> \<not> busy s r" "returned s 0" "query_msgs (world s) = (\<lambda>_ _. 0)" "total_queued p s = total_completed p s"
    "terminate_msgs (world s) = terminate_net k p (returned s)" "returned s r \<Longrightarrow> r = 0 \<or> 1 \<le> r \<and> r < p \<and> returned s (par k r)"
  using assms by (auto simp: td_done_def)

lemma td_done_same:
  assumes "td_done k p s" "\<And>x. 0 \<le> x \<Longrightarrow> x < p \<Longrightarrow> configured k p x (td_at (world s) x) \<Longrightarrow> configured k p x (td_at (world s') x)"
    "\<And>x. 0 \<le> x \<Longrightarrow> x < p \<Longrightarrow> states s' x = states s x \<or> states s' x = WaitingInit" "\<And>x. busy s' x \<Longrightarrow> busy s x" "counts s' = counts s"
    "query_msgs (world s') = query_msgs (world s)" "terminate_msgs (world s') = terminate_net k p (returned s')"
    "returned s' 0" "\<And>x. returned s' x \<Longrightarrow> x = 0 \<or> 1 \<le> x \<and> x < p \<and> returned s' (par k x)"
  shows "td_done k p s'"
  unfolding td_done_def totals_tally assms(5)
  using td_doneD [OF assms(1)] assms(2-4,6-9) by (fastforce simp: totals_tally)

lemma terminated_keeps:
  assumes d: "td_done k p s" and k: "1 \<le> k" and r: "1 \<le> r" "r < p" and st: "states s r = WaitingInit" and ret: "\<not> returned s r"
  shows "run_test r ob s =
    (if sees_terminate ob then
       (if returned s (par k r)
        then Some (s\<lparr>world := (world s)\<lparr>td_at := (td_at (world s))(r := (td_at (world s) r)\<lparr>m_subtree_status_response := (0, 0), m_current_state := WaitingInit\<rparr>),
                                          terminate_msgs := terminate_net k p ((returned s)(r := True))\<rparr>, returned := (returned s)(r := True)\<rparr>)
        else None)
     else if sees_query ob then None
     else Some (s\<lparr>world := set_td r (\<lambda>t. t\<lparr>m_subtree_status_response := (0, 0)\<rparr>) (world s), returned := (returned s)(r := False)\<rparr>))"
proof -
  have r0: "0 \<le> r" using r by simp
  note D = td_doneD [OF d]
  have cf: "configured k p r ((td_at (world s) r)\<lparr>m_subtree_status_response := (0, 0)\<rparr>)" using D(1) [OF r0 r(2)] by simp
  have par: "parent_rank ((td_at (world s) r)\<lparr>m_subtree_status_response := (0, 0)\<rparr>) = par k r" by (rule parent_rank_eq [OF cf k r(1)])
  have rk: "td_mpi_rank (td_at (world s) r) = r" using D(1) [OF r0 r(2)] by (simp add: configured_def)
  have kid: "r \<in> kids k p (par k r)" using kid_par [OF r] .
  have own: "par k r \<noteq> r" "r \<notin> kids k p r" using par_bounds(2) [OF k r(1)] not_own_kid [OF k] by auto
  have nr: "\<not> returned s c" if "c \<in> kids k p r" for c
    using D(8) [of c] kidsD [OF that] ret by auto
  have rc: "recv1 (par k r) r (terminate_net k p (returned s)) = (if returned s (par k r) then Some (\<lambda>x y. if x = par k r \<and> y = r then 0 else terminate_net k p (returned s) x y) else None)"
    using kid ret by (auto simp: recv1_def terminate_net_def fun_eq_iff)
  have net: "fold (send1 r) (child_ranks ((td_at (world s) r)\<lparr>m_subtree_status_response := (0, 0)\<rparr>)) (\<lambda>x y. if x = par k r \<and> y = r then 0 else terminate_net k p (returned s) x y)
      = terminate_net k p ((returned s)(r := True))"
    unfolding send1_fold [OF child_ranks_eq(2) [OF cf k r0]] child_ranks_eq(1) [OF cf k r0]
    using own nr ret by (auto simp: terminate_net_def fun_eq_iff dest: kidsD)
  show ?thesis
    using D(3) [OF r0 r(2)] ret st r
    by (simp add: run_test_def test_for_termination_def states_def handle_waiting_init_def Let_def par rk D(5,7) rc send_terminate_to_children_def net)
      (simp add: recv1_def set_td_def set_td_state_def)
qed

lemma done_test:
  assumes d: "td_done k p s" and k: "1 \<le> k" and r: "0 \<le> r" "r < p" and run: "run_test r ob s = Some s'"
  shows "td_done k p s'"
proof -
  note D = td_doneD [OF d]
  have ret: "\<not> returned s r" using run by (simp add: run_test_def split: if_splits)
  then have r1: "1 \<le> r" using D(4) r by (cases "r = 0") auto
  have keep: "(returned s)(r := False) = returned s" using ret by (simp add: fun_upd_idem)
  show ?thesis
  proof (cases "states s r = WaitingInit")
    case True
    note T = terminated_keeps [OF d k r1 r(2) True ret, of ob]
    show ?thesis
    proof (cases "sees_terminate ob")
      case t: True
      then have s': "returned s (par k r)" "s' = s\<lparr>world := (world s)\<lparr>td_at := (td_at (world s))(r := (td_at (world s) r)\<lparr>m_subtree_status_response := (0, 0), m_current_state := WaitingInit\<rparr>),
             terminate_msgs := terminate_net k p ((returned s)(r := True))\<rparr>, returned := (returned s)(r := True)\<rparr>"
        using run T by (simp_all split: if_splits)
      have up: "x = 0 \<or> 1 \<le> x \<and> x < p \<and> ((returned s)(r := True)) (par k x)" if "((returned s)(r := True)) x" for x
        using that D(8) [of x] s'(1) r1 r(2) by (cases "x = r") auto
      show ?thesis
        by (rule td_done_same [OF d]) (use D(1) [OF r] D(4) up in \<open>simp_all add: s'(2) states_def counts_def cur_def fun_eq_iff\<close>)
    next
      case False
      then have s': "s' = s\<lparr>world := set_td r (\<lambda>t. t\<lparr>m_subtree_status_response := (0, 0)\<rparr>) (world s)\<rparr>" using run T keep by (simp split: if_splits)
      show ?thesis
        by (rule td_done_same [OF d]) (use D(4,8) in \<open>auto simp: s' states_def counts_def cur_def fun_eq_iff D(7)\<close>)
    qed
  next
    case False
    then have st: "states s r = WaitingIsendParent" using D(2) [OF r] by simp
    then have s': "s' = s\<lparr>world := (if parent_send_done ob then set_td_state r WaitingInit (world s) else world s)\<rparr>"
      using run keep by (auto simp: run_test_def test_for_termination_def states_def handle_waiting_isend_parent_def split: if_splits)
    show ?thesis
      by (rule td_done_same [OF d]) (use D(4,8) in \<open>auto simp: s' states_def counts_def cur_def fun_eq_iff D(7)\<close>)
  qed
qed

lemma done_step:
  assumes d: "td_done k p s" and k: "1 \<le> k" and step: "td_step p s s'"
  shows "td_done k p s'"
  using step
proof cases
  case (queue r n)
  then show ?thesis using td_doneD(3,6) [OF d] by (simp add: run_queue_def)
next
  case (complete r n)
  then have "n = 0" "s' = s\<lparr>world := set_td r (inc_completed n) (world s)\<rparr>" using td_doneD(6) [OF d] by (simp_all add: run_complete_def split: if_splits)
  then have "s' = s\<lparr>world := set_td r (\<lambda>t. t) (world s)\<rparr>" by (simp add: inc_completed_def set_td_def)
  then have "s' = s" by (simp add: set_td_def)
  then show ?thesis using d by simp
next
  case (idle r)
  show ?thesis
    by (rule td_done_same [OF d]) (use td_doneD(4,7,8) [OF d] in \<open>auto simp: idle states_def counts_def fun_eq_iff split: if_splits\<close>)
next
  case (test r ob)
  then show ?thesis using done_test [OF d k] by blast
qed

subsection \<open>Runs\<close>

lemma start_inv:
  assumes "1 \<le> k"
  shows "td_inv k p (\<lambda>_. Idle) (\<lambda>_. (0, 0)) (\<lambda>_. (0, 0)) (td_run_start k p)"
proof -
  have r: "rank_inv k p (\<lambda>_. Idle) (td_new k p r) r" if "0 \<le> r" for r
  proof -
    have "configured k p r (td_new k p r)" by (simp add: td_new_def Let_def configured_def)
    moreover have "m_num_waiting_recv_children (td_new k p r) = num_children (td_new k p r)" by (simp add: td_new_def Let_def num_children_def begin_child_rank_def)
    ultimately show ?thesis using child_ranks_eq(3) [OF _ assms that] by (simp add: rank_inv_def waiting_kids_def td_new_def Let_def)
  qed
  have c: "cur (td_new k p r) = (0, 0)" "m_previous_subtree_status_response (td_new k p 0) = (- 1, - 1)" for r by (simp_all add: td_new_def Let_def cur_def)
  have "wave_inv k p (\<lambda>_. Idle) (\<lambda>_. (0, 0)) (world (td_run_start k p))"
    by (rule wave_invI) (use r in \<open>auto simp: td_run_start_def query_net_def response_net_def fun_eq_iff\<close>)
  moreover have "counts_inv p (\<lambda>_. Idle) (\<lambda>_. (0, 0)) (busy (td_run_start k p)) (kept (td_run_start k p)) (counts (td_run_start k p))"
    using c by (simp add: counts_inv_def kept_def counts_def td_run_start_def tally_def)
  ultimately show ?thesis by (simp add: td_inv_def conserved_def held_def report_def td_run_start_def)
qed

lemma run_cases:
  assumes "(td_step p)\<^sup>*\<^sup>* (td_run_start k p) s" "1 \<le> k" "2 \<le> p"
  shows "(\<exists>ph pay rep. td_inv k p ph pay rep s) \<or> td_done k p s"
  using assms(1)
proof (induction rule: rtranclp_induct)
  case base
  then show ?case using start_inv [OF assms(2)] by blast
next
  case (step s s')
  from step(3) show ?case
  proof
    assume "td_done k p s"
    then show ?thesis using done_step [OF _ assms(2) step(2)] by blast
  next
    assume "\<exists>ph pay rep. td_inv k p ph pay rep s"
    then obtain ph pay rep where inv: "td_inv k p ph pay rep s" by blast
    from step(2) show ?thesis
    proof cases
      case queue then show ?thesis using queue_keeps [OF inv] by blast
    next
      case complete then show ?thesis using complete_keeps [OF inv] by blast
    next
      case idle then show ?thesis using idle_keeps [OF inv] by blast
    next
      case test then show ?thesis using test_keeps [OF inv assms(2,3)] by blast
    qed
  qed
qed

text \<open>
  C4. No false alarm: whatever the order of the calls, the delays of the messages and the work that is queued and completed in between,
  once a call of \<open>test_for_termination\<close> has returned true at some rank, as many items have been completed as queued over all ranks, and no
  rank has items of its own left to queue.
\<close>

theorem termination_detected_safely:
  assumes "(td_step p)\<^sup>*\<^sup>* (td_run_start k p) s" "1 \<le> k" "2 \<le> p" "returned s r"
  shows "total_queued p s = total_completed p s \<and> (\<forall>x. 0 \<le> x \<and> x < p \<longrightarrow> \<not> busy s x)"
  using run_cases [OF assms(1-3)] assms(4) td_invD(4) td_doneD(3,6) by blast

theorem termination_detected_safely_witness:
  "\<exists>s. td_exec 2 two_rank_run (td_run_start 2 2) = Some s \<and> returned s 1 \<and> total_queued 2 s = total_completed 2 s \<and> \<not> busy s 0"
proof -
  have "map_option (\<lambda>s. returned s 1) (td_exec 2 two_rank_run (td_run_start 2 2)) = Some True" by code_simp
  then obtain s where s: "td_exec 2 two_rank_run (td_run_start 2 2) = Some s" "returned s 1" by auto
  then show ?thesis using termination_detected_safely [OF td_exec_reaches [OF s(1)] _ _ s(2)] by auto
qed

end
