(* ===== verification/Termination_Liveness.thy ===== *)
theory Termination_Liveness
  imports Termination_Properties
begin

section \<open>Termination can always be detected\<close>

text \<open>
  A run never gets stuck: from every state that it can reach, the outstanding work can be completed, and then calls of
  \<open>test_for_termination\<close> bring every rank to return true.  The measure is the number of rounds left (a round that began
  before the work ended may still fail, the next one sets the kept pair, the last one compares) and how far every rank is in this one.
\<close>

definition quiet :: "int \<Rightarrow> td_run \<Rightarrow> bool" where
  "quiet p s \<longleftrightarrow> total_queued p s = total_completed p s \<and> (\<forall>r \<in> {0..<p}. \<not> busy s r)"

definition clean :: "int \<Rightarrow> (int \<Rightarrow> phase) \<Rightarrow> (int \<Rightarrow> status_response) \<Rightarrow> td_run \<Rightarrow> bool" where
  "clean p ph rep s \<longleftrightarrow> (\<forall>r \<in> {0..<p}. reported (ph r) \<longrightarrow> rep r = counts s r)"

definition all_counts :: "int \<Rightarrow> td_run \<Rightarrow> status_response" where
  "all_counts p s = (\<Sum>r \<in> {0..<p}. fst (counts s r), \<Sum>r \<in> {0..<p}. snd (counts s r))"

definition rounds_left :: "int \<Rightarrow> (int \<Rightarrow> phase) \<Rightarrow> (int \<Rightarrow> status_response) \<Rightarrow> td_run \<Rightarrow> nat" where
  "rounds_left p ph rep s = (if clean p ph rep s then (if kept s = all_counts p s then 1 else 2) else 3)"

fun phase_weight :: "phase \<Rightarrow> td_state \<Rightarrow> nat" where
  "phase_weight Idle st = (if st = WaitingIsendParent then 11 else 10)"
| "phase_weight Queried st = (if st = WaitingIsendParent then 9 else 8)"
| "phase_weight Active st = (if st = WaitingIsendChildren then 6 else 5)"
| "phase_weight Responded st = (if st = WaitingIsendParent then 4 else 3)"
| "phase_weight Absorbed st = (if st = WaitingIsendParent then 2 else 1)"

definition weight :: "int \<Rightarrow> (int \<Rightarrow> phase) \<Rightarrow> td_run \<Rightarrow> nat" where
  "weight p ph s = (\<Sum>r \<in> {0..<p}. phase_weight (ph r) (states s r))"

definition to_do :: "int \<Rightarrow> (int \<Rightarrow> phase) \<Rightarrow> (int \<Rightarrow> status_response) \<Rightarrow> td_run \<Rightarrow> nat" where
  "to_do p ph rep s = rounds_left p ph rep s * (11 * nat p + 1) + weight p ph s"

lemma phase_weight_le: "phase_weight q st \<le> 11"
  by (cases q) auto

lemma weight_le: "weight p ph s \<le> 11 * nat p"
proof -
  have "weight p ph s \<le> (\<Sum>r \<in> {0..<p}. 11)" unfolding weight_def by (rule sum_mono) (rule phase_weight_le)
  then show ?thesis by simp
qed

lemma weight_less:
  assumes "0 \<le> r" "r < p" "phase_weight (ph' r) (states s' r) < phase_weight (ph r) (states s r)"
    "\<And>x. 0 \<le> x \<Longrightarrow> x < p \<Longrightarrow> x \<noteq> r \<Longrightarrow> phase_weight (ph' x) (states s' x) \<le> phase_weight (ph x) (states s x)"
  shows "weight p ph' s' < weight p ph s"
  unfolding weight_def
proof (rule sum_strict_mono_ex1)
  show "\<forall>x \<in> {0..<p}. phase_weight (ph' x) (states s' x) \<le> phase_weight (ph x) (states s x)" using assms(3,4) by (metis atLeastLessThan_iff less_imp_le)
  show "\<exists>x \<in> {0..<p}. phase_weight (ph' x) (states s' x) < phase_weight (ph x) (states s x)" using assms by (intro bexI [of _ r]) simp_all
qed simp

text \<open>Within a round: nobody's counts change, and who reports now reports them.\<close>

lemma to_do_less:
  assumes "counts s' = counts s" "kept s' = kept s" "\<And>r. 0 \<le> r \<Longrightarrow> r < p \<Longrightarrow> reported (ph' r) \<Longrightarrow> reported (ph r) \<and> rep' r = rep r \<or> rep' r = counts s r"
    "weight p ph' s' < weight p ph s"
  shows "to_do p ph' rep' s' < to_do p ph rep s"
proof -
  have "clean p ph' rep' s'" if "clean p ph rep s" using that assms(1,3) unfolding clean_def by (metis atLeastLessThan_iff)
  then have "rounds_left p ph' rep' s' \<le> rounds_left p ph rep s" using assms(1,2) by (simp add: rounds_left_def all_counts_def)
  then have "rounds_left p ph' rep' s' * (11 * nat p + 1) \<le> rounds_left p ph rep s * (11 * nat p + 1)" by (rule mult_le_mono1)
  then show ?thesis using assms(4) by (simp add: to_do_def)
qed

lemma quiet_cong: "counts s' = counts s \<Longrightarrow> busy s' = busy s \<Longrightarrow> quiet p s \<Longrightarrow> quiet p s'"
  by (simp add: quiet_def totals_tally)

definition advances :: "int \<Rightarrow> int \<Rightarrow> nat \<Rightarrow> td_run \<Rightarrow> bool" where
  "advances k p n s' \<longleftrightarrow> td_done k p s' \<or> (\<exists>ph pay rep. td_inv k p ph pay rep s' \<and> quiet p s' \<and> to_do p ph rep s' < n)"

lemma advances_move:
  assumes "td_inv k p ph' pay' rep' s'" "quiet p s" "moved r st s s'" "0 \<le> r" "r < p"
    "\<And>x. 0 \<le> x \<Longrightarrow> x < p \<Longrightarrow> reported (ph' x) \<Longrightarrow> reported (ph x) \<and> rep' x = rep x \<or> rep' x = counts s x"
    "phase_weight (ph' r) st < phase_weight (ph r) (states s r)"
    "\<And>x. 0 \<le> x \<Longrightarrow> x < p \<Longrightarrow> x \<noteq> r \<Longrightarrow> phase_weight (ph' x) (states s x) \<le> phase_weight (ph x) (states s x)"
  shows "advances k p (to_do p ph rep s) s'"
proof -
  have "weight p ph' s' < weight p ph s"
    by (rule weight_less [OF assms(4,5)]) (use assms(3,7,8) in \<open>auto simp: moved_def\<close>)
  moreover have "counts s' = counts s" "kept s' = kept s" "busy s' = busy s" using assms(3) by (auto simp: moved_def)
  ultimately have "to_do p ph' rep' s' < to_do p ph rep s" "quiet p s'"
    using to_do_less [of s' s p ph' ph rep' rep] assms(2,6) quiet_cong by auto
  then show ?thesis using assms(1) unfolding advances_def by blast
qed

lemma returned_same: "\<not> returned s r \<Longrightarrow> s\<lparr>world := w, returned := (returned s)(r := False)\<rparr> = s\<lparr>world := w\<rparr>"
  by (cases s) (simp add: fun_upd_idem)

text \<open>The end of a round, seen from the root.\<close>

lemma clean_sum:
  assumes inv: "td_inv k p ph pay rep s" and k: "1 \<le> k" and p: "0 < p" and ph: "ph 0 = Active" and absorbed: "\<And>c. c \<in> kids k p 0 \<Longrightarrow> ph c = Absorbed"
    and b: "\<not> busy s 0" and clean: "clean p ph rep s"
  shows "root_sum s = all_counts p s"
proof -
  have "(rep(0 := counts s 0)) r = counts s r" if "r \<in> {0..<p}" for r
    using clean all_absorbed [OF td_invD(1) [OF inv] k absorbed, of r] that by (cases "r = 0") (auto simp: clean_def)
  then have "(\<Sum>r \<in> {0..<p}. f ((rep(0 := counts s 0)) r)) = (\<Sum>r \<in> {0..<p}. f (counts s r))" for f :: "status_response \<Rightarrow> u64"
    by (intro sum.cong) auto
  then show ?thesis using finish_sums(3) [OF inv k p ph absorbed b, of fst] finish_sums(3) [OF inv k p ph absorbed b, of snd] by (simp add: all_counts_def prod_eq_iff)
qed

lemma all_counts_eq: "quiet p s \<Longrightarrow> fst (all_counts p s) = snd (all_counts p s)"
proof -
  assume "quiet p s"
  then have "(of_nat (tally fst p (counts s)) :: u64) = of_nat (tally snd p (counts s))" by (simp add: quiet_def totals_tally)
  then show ?thesis by (simp add: tally_def all_counts_def)
qed

lemma round_advances:
  assumes inv: "td_inv k p ph pay rep s" and k: "1 \<le> k" and p: "0 < p" and ph: "ph 0 = Active" and absorbed: "\<And>c. c \<in> kids k p 0 \<Longrightarrow> ph c = Absorbed"
    and q: "quiet p s" and w: "rounded s = (res, w)"
  shows "advances k p (to_do p ph rep s) (s\<lparr>world := w, returned := (returned s)(0 := res)\<rparr>)"
proof -
  have b: "\<not> busy s 0" using q p by (simp add: quiet_def)
  note R = rounded_keeps [OF inv k p ph _ b w]
  show ?thesis
  proof (cases res)
    case True
    then have "td_done k p (s\<lparr>world := w, returned := (returned s)(0 := True)\<rparr>)" using R(1) absorbed by blast
    then show ?thesis using True by (simp add: advances_def)
  next
    case False
    let ?s = "s\<lparr>world := w\<rparr>"
    have S: "td_inv k p (\<lambda>_. Idle) pay rep ?s" using R(2) False absorbed by blast
    have cnt: "counts ?s = counts s" and kept: "kept ?s = (if fst (root_sum s) = snd (root_sum s) then root_sum s else kept s)"
      and res: "\<not> (fst (root_sum s) = snd (root_sum s) \<and> root_sum s = kept s)"
      using R(3,5,6) False absorbed by blast+
    have ac: "all_counts p ?s = all_counts p s" using cnt by (simp add: all_counts_def)
    have "clean p (\<lambda>_. Idle) rep ?s" by (simp add: clean_def)
    moreover have "kept s \<noteq> all_counts p s \<and> kept ?s = all_counts p s" if "clean p ph rep s"
      using clean_sum [OF inv k p ph absorbed b that] res kept all_counts_eq [OF q] by auto
    ultimately have "rounds_left p (\<lambda>_. Idle) rep ?s + 1 \<le> rounds_left p ph rep s"
      by (auto simp: rounds_left_def ac)
    then have "(rounds_left p (\<lambda>_. Idle) rep ?s + 1) * (11 * nat p + 1) \<le> rounds_left p ph rep s * (11 * nat p + 1)" by (rule mult_le_mono1)
    then have "to_do p (\<lambda>_. Idle) rep ?s < to_do p ph rep s" using weight_le [of p "\<lambda>_. Idle" ?s] by (simp add: to_do_def)
    moreover have "quiet p ?s" by (rule quiet_cong [OF cnt _ q]) simp
    moreover have "s\<lparr>world := w, returned := (returned s)(0 := res)\<rparr> = ?s" using False returned_same [OF td_invD(4) [OF inv]] by simp
    ultimately show ?thesis using S unfolding advances_def by auto
  qed
qed

subsection \<open>Some call makes progress\<close>

lemma responses_advance:
  assumes inv: "td_inv k p ph pay rep s" and k: "1 \<le> k" and r: "0 \<le> r" "r < p" and ph: "ph r = Active" and q: "quiet p s" and st: "states s r = WaitingRecvChildren"
    and after: "after_responses k r s = (res, w)" and absorbed: "\<And>c. c \<in> kids k p r \<Longrightarrow> ph c = Absorbed"
  shows "advances k p (to_do p ph rep s) (s\<lparr>world := w, returned := (returned s)(r := res)\<rparr>)"
proof -
  have b: "\<not> busy s r" using q r by (simp add: quiet_def)
  have wait: "m_num_waiting_recv_children (td_at (world s) r) = 0" using waiting_none [OF inv r ph] absorbed by simp
  show ?thesis
  proof (cases "r = 0")
    case True
    then have p: "0 < p" using r by simp
    have "rounded s = (res, w)" using after wait True by (simp add: after_responses_def)
    then show ?thesis using round_advances [OF inv k p _ _ q] ph absorbed True by blast
  next
    case False
    then have r1: "1 \<le> r" using r by simp
    have w: "res = False" "w = responded k r (world s)" using after wait False by (simp_all add: after_responses_def)
    obtain pay' where S: "td_inv k p (ph(r := Responded)) pay' (rep(r := counts s r)) (s\<lparr>world := w\<rparr>)" and mv: "moved r WaitingIsendParent s (s\<lparr>world := w\<rparr>)"
      using responded_keeps [OF inv k r1 r(2) ph absorbed b] unfolding w(2) by blast
    have "advances k p (to_do p ph rep s) (s\<lparr>world := w\<rparr>)"
      by (rule advances_move [OF S q mv r]) (use ph st in auto)
    then show ?thesis using w(1) returned_same [OF td_invD(4) [OF inv]] by simp
  qed
qed

lemma recv_advances:
  assumes inv: "td_inv k p ph pay rep s" and k: "1 \<le> k" and r: "0 \<le> r" "r < p" and ph: "ph r = Active" and q: "quiet p s" and st: "states s r = WaitingRecvChildren"
    and inner: "kids k p r \<noteq> {}" and none: "\<And>c. c \<in> kids k p r \<Longrightarrow> ph c = Responded \<or> ph c = Absorbed"
  shows "\<exists>ob s'. run_test r ob s = Some s' \<and> advances k p (to_do p ph rep s) s'"
proof -
  have b: "\<not> busy s r" using q r by (simp add: quiet_def)
  note test = test_recv [OF inv k r st b inner]
  define ob where "ob srcs = \<lparr>sees_terminate = False, sees_query = False, sends_done = 0, response_sources = srcs, parent_send_done = False\<rparr>" for srcs
  show ?thesis
  proof (cases "\<forall>c \<in> kids k p r. ph c = Absorbed")
    case True
    obtain res w where a: "after_responses k r s = (res, w)" by (cases "after_responses k r s")
    have "run_test r (ob []) s = Some (s\<lparr>world := w, returned := (returned s)(r := res)\<rparr>)" using test [of "ob []"] a by (simp add: ob_def)
    moreover have "advances k p (to_do p ph rep s) (s\<lparr>world := w, returned := (returned s)(r := res)\<rparr>)" using responses_advance [OF inv k r ph q st a] True by blast
    ultimately show ?thesis by blast
  next
    case False
    then obtain c where c: "c \<in> kids k p r" "ph c = Responded" using none by blast
    then have "response_msgs (world s) c r = pay c # []" using wave_invD(4) [OF td_invD(1) [OF inv]] by (simp add: response_net_def kids_def)
    note keep = recv_response_keeps [OF inv k r ph this]
    obtain w where w: "recv_responses r [c] (world s) = Some w" "td_inv k p (ph(c := Absorbed)) pay rep (s\<lparr>world := w\<rparr>)" "moved r (states s r) s (s\<lparr>world := w\<rparr>)"
      using keep(1,2) \<open>response_msgs (world s) c r = pay c # []\<close> by simp
    have n: "c \<noteq> r" using c ph by auto
    then have act: "(ph(c := Absorbed)) r = Active" using ph by simp
    have cp: "0 \<le> c" "c < p" using kidsD [OF c(1)] by auto
    obtain res w' where a: "after_responses k r (s\<lparr>world := w\<rparr>) = (res, w')" by (cases "after_responses k r (s\<lparr>world := w\<rparr>)")
    have run: "run_test r (ob [c]) s = Some (s\<lparr>world := w', returned := (returned s)(r := res)\<rparr>)" using test [of "ob [c]"] w(1) a by (simp add: ob_def)
    have less: "to_do p (ph(c := Absorbed)) rep (s\<lparr>world := w\<rparr>) < to_do p ph rep s"
    proof (rule to_do_less)
      show "weight p (ph(c := Absorbed)) (s\<lparr>world := w\<rparr>) < weight p ph s"
        by (rule weight_less [OF cp]) (use c w(3) n in \<open>auto simp: moved_def\<close>)
    qed (use w(3) c in \<open>auto simp: moved_def split: if_splits\<close>)
    have qw: "quiet p (s\<lparr>world := w\<rparr>)" using w(3) by (intro quiet_cong [OF _ _ q]) (auto simp: moved_def)
    have stw: "states (s\<lparr>world := w\<rparr>) r = WaitingRecvChildren" using w(3) st by (simp add: moved_def)
    have "advances k p (to_do p ph rep s) (s\<lparr>world := w', returned := (returned s)(r := res)\<rparr>)"
    proof (cases "m_num_waiting_recv_children (td_at w r) = 0")
      case True
      then have "\<forall>x \<in> kids k p r. (ph(c := Absorbed)) x = Absorbed" using waiting_none [OF w(2) r act] by simp
      then have "advances k p (to_do p (ph(c := Absorbed)) rep (s\<lparr>world := w\<rparr>)) ((s\<lparr>world := w\<rparr>)\<lparr>world := w', returned := (returned (s\<lparr>world := w\<rparr>))(r := res)\<rparr>)"
        using responses_advance [OF w(2) k r act qw stw a] by blast
      then show ?thesis using less unfolding advances_def by (auto intro: less_trans)
    next
      case False
      then have "res = False" "w' = w" using a by (simp_all add: after_responses_def)
      then show ?thesis using returned_same [OF td_invD(4) [OF inv]] w(2) qw less unfolding advances_def by auto
    qed
    then show ?thesis using run by blast
  qed
qed

lemma begin_weight:
  assumes "wave_inv k p ph pay (world s)" "ph r \<in> {Idle, Queried}" "x \<noteq> r"
  shows "phase_weight (begin_phase k p r ph x) (states s x) \<le> phase_weight (ph x) (states s x)"
proof (cases "x \<in> kids k p r")
  case True
  then have "ph x = Idle" using kid_fits [OF assms(1) True] assms(2) by auto
  then show ?thesis using True assms(3) by (simp add: begin_phase_def)
qed (use assms(3) in \<open>simp add: begin_phase_def\<close>)

lemma begin_reported:
  assumes "reported (begin_phase k p r ph x)"
  shows "reported (ph x)"
  using assms by (simp add: begin_phase_def split: if_splits)

lemma some_call_advances:
  assumes inv: "td_inv k p ph pay rep s" and k: "1 \<le> k" and p: "2 \<le> p" and q: "quiet p s"
  shows "\<exists>r ob s'. 0 \<le> r \<and> r < p \<and> run_test r ob s = Some s' \<and> advances k p (to_do p ph rep s) s'"
proof -
  have p0: "0 < p" using p by simp
  have b: "\<not> busy s r" if "0 \<le> r" "r < p" for r using q that by (simp add: quiet_def)
  consider r where "0 \<le> r" "r < p" "states s r = WaitingIsendChildren" | r where "0 \<le> r" "r < p" "states s r = WaitingIsendParent"
    | "\<And>r. 0 \<le> r \<Longrightarrow> r < p \<Longrightarrow> states s r = WaitingInit \<or> states s r = WaitingRecvChildren"
    by (metis td_state.exhaust)
  then show ?thesis
  proof cases
    case (1 r)
    define ob where "ob = \<lparr>sees_terminate = False, sees_query = False, sends_done = length (m_vec_req_isend_children (td_at (world s) r)), response_sources = [], parent_send_done = False\<rparr>"
    obtain s' where s': "run_test r ob s = Some s'" "td_inv k p ph pay rep s'" "moved r WaitingRecvChildren s s'"
      using test_isend_children [OF inv 1 b, of ob] 1 by (auto simp: ob_def)
    have "ph r = Active" using td_inv_rank(4) [OF inv 1(1,2)] 1(3) by simp
    then have "advances k p (to_do p ph rep s) s'" using 1(3) by (intro advances_move [OF s'(2) q s'(3) 1(1,2)]) auto
    then show ?thesis using s'(1) 1 by blast
  next
    case (2 r)
    define ob where "ob = \<lparr>sees_terminate = False, sees_query = False, sends_done = 0, response_sources = [], parent_send_done = True\<rparr>"
    obtain s' where s': "run_test r ob s = Some s'" "td_inv k p ph pay rep s'" "moved r WaitingInit s s'"
      using test_isend_parent [OF inv 2 b, of ob] 2 by (auto simp: ob_def)
    have "ph r \<noteq> Active" using td_inv_rank(4) [OF inv 2(1,2)] 2(3) by simp
    then have "phase_weight (ph r) WaitingInit < phase_weight (ph r) (states s r)" using 2(3) by (cases "ph r") auto
    then have "advances k p (to_do p ph rep s) s'" by (intro advances_move [OF s'(2) q s'(3) 2(1,2)]) auto
    then show ?thesis using s'(1) 2 by blast
  next
    case 3
    show ?thesis
    proof (cases "states s 0 = WaitingInit")
      case True
      have ph: "ph 0 = Idle" using td_inv_rank(4) [OF inv order_refl p0] wave_invD(2) [OF td_invD(1) [OF inv]] True by auto
      obtain ob s' where s': "run_test 0 ob s = Some s'" "td_inv k p (begin_phase k p 0 ph) pay rep s'" "moved 0 WaitingIsendChildren s s'"
        using test_starts_round [OF inv k p0 True b [OF order_refl p0]] by blast
      have "advances k p (to_do p ph rep s) s'"
        by (rule advances_move [OF s'(2) q s'(3) order_refl p0])
          (use ph True begin_weight [OF td_invD(1) [OF inv], of 0] begin_reported in \<open>auto simp: begin_phase_def\<close>)
      then show ?thesis using s'(1) p0 by blast
    next
      case False
      then have "ph 0 = Active" using 3 [of 0] p0 td_inv_rank(4) [OF inv order_refl p0] by auto
      define A where "A = {r \<in> {0..<p}. ph r = Active}"
      have "finite A" by (rule finite_subset [of _ "{0..<p}"]) (auto simp: A_def)
      then have A: "finite A" "A \<noteq> {}" using \<open>ph 0 = Active\<close> p0 by (auto simp: A_def)
      define r where "r = Max A"
      have r: "0 \<le> r" "r < p" "ph r = Active" using Max_in [OF A] by (auto simp: r_def A_def)
      have st: "states s r = WaitingRecvChildren" using td_inv_rank(4) [OF inv r(1,2)] r(3) 3 [OF r(1,2)] by auto
      have kid: "ph c \<in> {Queried, Responded, Absorbed}" if "c \<in> kids k p r" for c
      proof -
        have c: "1 \<le> c" "c < p" "r < c" using kidsD [OF that] par_bounds(2) [OF k] by auto
        then have "ph c \<noteq> Active" using Max_ge [OF A(1), of c] by (auto simp: r_def A_def)
        moreover have "ph c \<noteq> Idle" using kid_fits [OF td_invD(1) [OF inv] that] r(3) by auto
        ultimately show ?thesis by (cases "ph c") auto
      qed
      show ?thesis
      proof (cases "\<exists>c \<in> kids k p r. ph c = Queried")
        case True
        then obtain c where c: "c \<in> kids k p r" "ph c = Queried" by blast
        have cb: "1 \<le> c" "c < p" "0 \<le> c" using kidsD [OF c(1)] by auto
        have stc: "states s c = WaitingInit" using 3 [OF cb(3,2)] td_inv_rank(4) [OF inv cb(3,2)] c(2) by auto
        define ob where "ob = \<lparr>sees_terminate = False, sees_query = True, sends_done = 0, response_sources = [], parent_send_done = False\<rparr>"
        obtain s' where s': "run_test c ob s = Some s'" "td_inv k p (begin_phase k p c ph) pay rep s'" "moved c WaitingIsendChildren s s'"
          using test_takes_query [OF inv k cb(1,2) stc b [OF cb(3,2)], of ob] c(2) by (auto simp: ob_def)
        have "advances k p (to_do p ph rep s) s'"
          by (rule advances_move [OF s'(2) q s'(3) cb(3,2)])
            (use c stc begin_weight [OF td_invD(1) [OF inv], of c] begin_reported in \<open>auto simp: begin_phase_def\<close>)
        then show ?thesis using s'(1) cb by blast
      next
        case False
        show ?thesis
        proof (cases "kids k p r = {}")
          case True
          then have r1: "1 \<le> r" using r root_has_kid [OF k p] by (cases "r = 0") auto
          obtain ob s' pay' where s': "run_test r ob s = Some s'" "td_inv k p (ph(r := Responded)) pay' (rep(r := counts s r)) s'" "moved r WaitingIsendParent s s'"
            using test_leaf [OF inv k r1 r(2) st b True] r by blast
          have "advances k p (to_do p ph rep s) s'"
            by (rule advances_move [OF s'(2) q s'(3) r(1,2)]) (use r st in auto)
          then show ?thesis using s'(1) r by blast
        next
          case inner: False
          show ?thesis using recv_advances [OF inv k r q st inner] kid False r by blast
        qed
      qed
    qed
  qed
qed

lemma run_test_step: "0 \<le> r \<Longrightarrow> r < p \<Longrightarrow> run_test r ob s = Some s' \<Longrightarrow> td_step p s s'"
  by (rule td_step.test)

lemma decision_reached:
  assumes "td_inv k p ph pay rep s" "1 \<le> k" "2 \<le> p" "quiet p s"
  shows "\<exists>s'. (td_step p)\<^sup>*\<^sup>* s s' \<and> td_done k p s'"
  using assms
proof (induction "to_do p ph rep s" arbitrary: ph pay rep s rule: less_induct)
  case less
  obtain r ob s1 where s1: "0 \<le> r" "r < p" "run_test r ob s = Some s1" "advances k p (to_do p ph rep s) s1"
    using some_call_advances [OF less.prems] by blast
  have step: "td_step p s s1" using run_test_step s1(1-3) .
  show ?case
  proof (cases "td_done k p s1")
    case True
    then show ?thesis using step by blast
  next
    case False
    then obtain ph' pay' rep' where n: "td_inv k p ph' pay' rep' s1" "quiet p s1" "to_do p ph' rep' s1 < to_do p ph rep s"
      using s1(4) unfolding advances_def by blast
    then show ?thesis using less.hyps [OF n(3,1) less.prems(2,3) n(2)] step by (meson converse_rtranclp_into_rtranclp)
  qed
qed

subsection \<open>The signal reaches every rank\<close>

definition unfinished :: "int \<Rightarrow> td_run \<Rightarrow> nat" where
  "unfinished p s = (\<Sum>r \<in> {0..<p}. if returned s r then 0 else if states s r = WaitingIsendParent then 2 else 1)"

lemma unfinished_less:
  assumes "0 \<le> r" "r < p" "\<not> returned s r" "states s' = (states s)(r := WaitingInit)"
    "returned s' = (returned s)(r := True) \<or> returned s' = returned s \<and> states s r = WaitingIsendParent"
  shows "unfinished p s' < unfinished p s"
  unfolding unfinished_def
  by (rule sum_strict_mono_ex1) (use assms in \<open>auto intro!: bexI [of _ r]\<close>)

lemma all_return:
  assumes "td_done k p s" "1 \<le> k"
  shows "\<exists>s'. (td_step p)\<^sup>*\<^sup>* s s' \<and> td_done k p s' \<and> (\<forall>r. 0 \<le> r \<and> r < p \<longrightarrow> returned s' r)"
  using assms
proof (induction "unfinished p s" arbitrary: s rule: less_induct)
  case less
  note D = td_doneD [OF less.prems(1)]
  show ?case
  proof (cases "\<forall>r. 0 \<le> r \<and> r < p \<longrightarrow> returned s r")
    case False
    define A where "A = {r \<in> {0..<p}. \<not> returned s r}"
    have "finite A" by (rule finite_subset [of _ "{0..<p}"]) (auto simp: A_def)
    then have A: "finite A" "A \<noteq> {}" using False by (auto simp: A_def)
    define r where "r = Min A"
    have r: "0 \<le> r" "r < p" "\<not> returned s r" using Min_in [OF A] by (auto simp: r_def A_def)
    have r1: "1 \<le> r" using r D(4) by (cases "r = 0") auto
    have par: "returned s (par k r)"
      using par_bounds [OF less.prems(2) r1] Min_le [OF A(1), of "par k r"] r(2) by (auto simp: r_def A_def)
    have "\<exists>s' ob. run_test r ob s = Some s' \<and> unfinished p s' < unfinished p s"
    proof (cases "states s r = WaitingInit")
      case True
      define ob where "ob = \<lparr>sees_terminate = True, sees_query = False, sends_done = 0, response_sources = [], parent_send_done = False\<rparr>"
      have t: "sees_terminate ob" by (simp add: ob_def)
      obtain w where w: "run_test r ob s = Some (s\<lparr>world := w, returned := (returned s)(r := True)\<rparr>)"
        "td_at w = (td_at (world s))(r := (td_at (world s) r)\<lparr>m_subtree_status_response := (0, 0), m_current_state := WaitingInit\<rparr>)"
        using terminated_keeps [OF less.prems r1 r(2) True r(3), of ob] par t by simp
      have "unfinished p (s\<lparr>world := w, returned := (returned s)(r := True)\<rparr>) < unfinished p s"
        by (rule unfinished_less [OF r]) (use w(2) in \<open>auto simp: states_def fun_eq_iff\<close>)
      then show ?thesis using w(1) by blast
    next
      case False
      then have st: "states s r = WaitingIsendParent" using D(2) [OF r(1,2)] by simp
      define ob where "ob = \<lparr>sees_terminate = False, sees_query = False, sends_done = 0, response_sources = [], parent_send_done = True\<rparr>"
      have "run_test r ob s = Some (s\<lparr>world := set_td_state r WaitingInit (world s), returned := (returned s)(r := False)\<rparr>)"
        using D(3) [OF r(1,2)] r(3) st by (simp add: run_test_def test_for_termination_def states_def handle_waiting_isend_parent_def ob_def)
      moreover have "unfinished p (s\<lparr>world := set_td_state r WaitingInit (world s), returned := (returned s)(r := False)\<rparr>) < unfinished p s"
        by (rule unfinished_less [OF r]) (use st r(3) in \<open>auto simp: states_def fun_eq_iff\<close>)
      ultimately show ?thesis by blast
    qed
    then obtain s1 ob where s1: "run_test r ob s = Some s1" "unfinished p s1 < unfinished p s" by blast
    have "td_step p s s1" using run_test_step [OF r(1,2) s1(1)] .
    then show ?thesis
      using less.hyps [OF s1(2) done_test [OF less.prems r(1,2) s1(1)] less.prems(2)] by (meson converse_rtranclp_into_rtranclp)
  qed (use less.prems in blast)
qed

subsection \<open>Finishing the work\<close>

lemma work_finishes:
  assumes inv: "td_inv k p ph pay rep s" and p: "0 < p" and b: "\<And>r. 0 \<le> r \<Longrightarrow> r < p \<Longrightarrow> \<not> busy s r"
  shows "\<exists>s'. (td_step p)\<^sup>*\<^sup>* s s' \<and> td_inv k p ph pay rep s' \<and> quiet p s'"
proof -
  let ?n = "total_queued p s - total_completed p s" and ?c = "counts s"
  have le: "total_completed p s \<le> total_queued p s" using td_invD(3) [OF inv] by (simp add: counts_inv_def totals_tally)
  define s' where "s' = s\<lparr>world := set_td 0 (inc_completed ?n) (world s)\<rparr>"
  have run: "run_complete p 0 ?n s = Some s'" using le by (simp add: run_complete_def s'_def)
  let ?v = "cur (inc_completed ?n (td_at (world s) 0))"
  have c: "counts s' = ?c(0 := ?v)" by (auto simp: s'_def counts_def fun_eq_iff)
  have bound: "tally fst p ?c < 2 ^ 64 - 1" using td_invD(3) [OF inv] by (simp add: counts_inv_def)
  have m: "unat (snd (?c 0)) + ?n < 2 ^ 64" using le bound tally_member [OF order_refl p, of snd ?c] by (simp add: totals_tally)
  have v: "unat (snd ?v) = unat (snd (?c 0)) + ?n" "fst ?v = fst (?c 0)" unfolding inc_cur using unat_add_nat [OF m] by (simp_all add: counts_def)
  have "total_queued p s' = total_completed p s'"
    using tally_upd [OF order_refl p, of fst ?c ?v] tally_upd [OF order_refl p, of snd ?c ?v] v le unfolding totals_tally c by simp
  then have "quiet p s'" using b by (simp add: quiet_def s'_def)
  moreover have "td_step p s s'" by (rule td_step.complete [OF order_refl p run])
  ultimately show ?thesis using complete_keeps [OF inv order_refl p run] by blast
qed

lemma all_idle_reached:
  assumes inv: "td_inv k p ph pay rep s"
  shows "\<exists>s'. (td_step p)\<^sup>*\<^sup>* s s' \<and> td_inv k p ph pay rep s' \<and> (\<forall>r. 0 \<le> r \<and> r < p \<longrightarrow> \<not> busy s' r)"
  using assms
proof (induction "card {r \<in> {0..<p}. busy s r}" arbitrary: s rule: less_induct)
  case less
  show ?case
  proof (cases "\<exists>r. 0 \<le> r \<and> r < p \<and> busy s r")
    case True
    then obtain r where r: "0 \<le> r" "r < p" "busy s r" by blast
    let ?s = "s\<lparr>busy := (busy s)(r := False)\<rparr>"
    have "{x \<in> {0..<p}. busy ?s x} \<subset> {x \<in> {0..<p}. busy s x}" using r by (auto split: if_splits)
    then have "card {x \<in> {0..<p}. busy ?s x} < card {x \<in> {0..<p}. busy s x}"
      by (rule psubset_card_mono [rotated]) (rule finite_subset [of _ "{0..<p}"], auto)
    then obtain s' where "(td_step p)\<^sup>*\<^sup>* ?s s'" "td_inv k p ph pay rep s'" "\<forall>r. 0 \<le> r \<and> r < p \<longrightarrow> \<not> busy s' r"
      using less.hyps [of ?s] idle_keeps [OF less.prems] by blast
    then show ?thesis using td_step.idle [OF r(1,2), of s] by (meson converse_rtranclp_into_rtranclp)
  qed (use less.prems in blast)
qed

subsection \<open>Property\<close>

text \<open>
  C6. Termination stays reachable: from every state that a run on at least two ranks can reach, with work still queued and a round half
  done, some continuation makes the test return true at every rank; no message is lost, no rank is left waiting, and no earlier round spoils the later ones.
\<close>

theorem termination_stays_reachable:
  assumes "(td_step p)\<^sup>*\<^sup>* (td_run_start k p) s" "1 \<le> k" "2 \<le> p"
  shows "\<exists>s'. (td_step p)\<^sup>*\<^sup>* s s' \<and> (\<forall>r. 0 \<le> r \<and> r < p \<longrightarrow> returned s' r)"
proof -
  have "\<exists>s'. (td_step p)\<^sup>*\<^sup>* s s' \<and> td_done k p s'"
    using run_cases [OF assms]
  proof
    assume "\<exists>ph pay rep. td_inv k p ph pay rep s"
    then obtain ph pay rep where inv: "td_inv k p ph pay rep s" by blast
    obtain s1 where s1: "(td_step p)\<^sup>*\<^sup>* s s1" "td_inv k p ph pay rep s1" "\<forall>r. 0 \<le> r \<and> r < p \<longrightarrow> \<not> busy s1 r" using all_idle_reached [OF inv] by blast
    obtain s2 where s2: "(td_step p)\<^sup>*\<^sup>* s1 s2" "td_inv k p ph pay rep s2" "quiet p s2" using work_finishes [OF s1(2)] s1(3) assms(3) by auto
    obtain s3 where "(td_step p)\<^sup>*\<^sup>* s2 s3" "td_done k p s3" using decision_reached [OF s2(2) assms(2,3) s2(3)] by blast
    then show ?thesis using s1(1) s2(1) by (meson rtranclp_trans)
  qed blast
  then show ?thesis using all_return [OF _ assms(2)] by (meson rtranclp_trans)
qed

theorem termination_stays_reachable_witness:
  "\<exists>s s'. td_exec 2 [Queue 0 3, Ready 0, Test 0 eager] (td_run_start 2 2) = Some s \<and> total_queued 2 s = 3
     \<and> (td_step 2)\<^sup>*\<^sup>* s s' \<and> returned s' 0 \<and> returned s' 1"
proof -
  let ?run = "td_exec 2 [Queue 0 3, Ready 0, Test 0 eager] (td_run_start 2 2)"
  have "map_option (total_queued 2) ?run = Some 3" by code_simp
  then obtain s where s: "?run = Some s" "total_queued 2 s = 3" by auto
  obtain s' where "(td_step 2)\<^sup>*\<^sup>* s s'" "\<forall>r. 0 \<le> r \<and> r < 2 \<longrightarrow> returned s' r"
    using termination_stays_reachable [OF td_exec_reaches [OF s(1)]] by auto
  then show ?thesis using s by (intro exI [of _ s] exI [of _ s']) simp
qed

subsection \<open>One rank alone\<close>

text \<open>
  C39. A communicator of one rank never learns that it is done.  Rank 0 is then a leaf, so it sends the sums to its parent, which is rank 0 itself,
  and returns to the first state; the comparison with the previous round is not reached.  No call ever returns true, whatever has been queued and completed.
\<close>

theorem single_rank_never_terminates:
  assumes "(td_step 1)\<^sup>*\<^sup>* (td_run_start k 1) s"
  shows "\<not> returned s 0"
proof -
  have "configured k 1 0 (td_at (world s) 0) \<and> \<not> returned s 0"
    using assms
  proof (induction rule: rtranclp_induct)
    case base
    show ?case by (simp add: td_run_start_def td_new_def Let_def configured_def)
  next
    case (step s s')
    have leaf: "is_leaf_rank (td_at (world s) 0)" using step(3) by (simp add: is_leaf_rank_def begin_child_rank_def configured_def)
    have rank: "td_mpi_rank (td_at (world s) 0) = 0" using step(3) by (simp add: configured_def)
    from step(2) show ?case
    proof cases
      case (queue r n)
      then have "r = 0" by simp
      then show ?thesis using step(3) queue(3) by (auto simp: run_queue_def inc_queued_def split: if_splits)
    next
      case (complete r n)
      then have "r = 0" by simp
      then show ?thesis using step(3) complete(3) by (auto simp: run_complete_def inc_completed_def split: if_splits)
    next
      case (idle r)
      then show ?thesis using step(3) by simp
    next
      case (test r ob)
      then have "r = 0" by simp
      then obtain res w where t: "test_for_termination 0 ob (world s) = Some (res, w)" "s' = s\<lparr>world := w, returned := (returned s)(0 := res)\<rparr>"
        using test(3) by (auto simp: run_test_def split: if_splits option.splits)
      have "\<not> res \<and> configured k 1 0 (td_at w 0)"
        using t(1) leaf rank step(3)
        by (cases "m_current_state (td_at (world s) 0)")
          (auto simp: test_for_termination_def handle_waiting_init_def handle_waiting_isend_children_def handle_waiting_recv_children_def
             handle_waiting_isend_parent_def send_query_status_to_children_def isend_status_response_to_parent_def add_own_counts_def Let_def split: if_splits)
      then show ?thesis using t(2) by simp
    qed
  qed
  then show ?thesis by blast
qed

theorem single_rank_never_terminates_witness:
  "\<exists>s. td_exec 1 ([Queue 0 3, Complete 0 3, Ready 0] @ replicate 9 (Test 0 eager)) (td_run_start 2 1) = Some s
     \<and> total_queued 1 s = total_completed 1 s \<and> \<not> returned s 0"
proof -
  let ?run = "td_exec 1 ([Queue 0 3, Complete 0 3, Ready 0] @ replicate 9 (Test 0 eager)) (td_run_start 2 1)"
  have "map_option (\<lambda>s. total_queued 1 s = total_completed 1 s) ?run = Some True" by code_simp
  then obtain s where s: "?run = Some s" "total_queued 1 s = total_completed 1 s" by auto
  then show ?thesis using single_rank_never_terminates [OF td_exec_reaches [OF s(1)]] by blast
qed

end
