(* ===== verification/Spec2Isabelle.thy ===== *)
theory Spec2Isabelle
  imports Hashing Vertex_Locator Ygm_Properties Visitor_Containers Delegate_Graph Page_Rank Triangle_Properties Kronecker_Generator Attachment_Properties Pattern_Graph Constructed_Search Termination_Liveness
begin

text \<open>
  HavoqGT runs asynchronous visitor algorithms over a graph whose vertices are spread over MPI ranks; the edges of high-degree vertices
  (delegates, or hubs) are spread over all ranks.  Edges come from files or generators, all ranks build the graph from them together, and
  the algorithms send visitors along its edges through batching mailboxes until nothing is left to do.  The theories follow these layers;
  paths are below \<open>src/include/havoqgt\<close> unless they start with ygm.

  \<^bold>\<open>Base.\<close>
  \<^item> \<open>Havoq_Prelude\<close>: words, bit fields and list facts the components share; \<open>Ordered_Map\<close>: \<open>std::map\<close> with \<open>operator[]\<close>.
  \<^item> \<open>Hashing\<close> (detail/hash.hpp): the mixing functions; they are bijections, and \<open>hash_nbits\<close> permutes the labels of its width.
  \<^item> \<open>Vertex_Locator\<close> (impl/vertex\_locator.hpp, impl/edge\_node\_identifier.hpp): the packed locator, its order, equality and hash.

  \<^bold>\<open>Communication.\<close>
  \<^item> \<open>Ygm_Comm\<close> (ygm/comm.hpp, ygm/mpi.hpp): the communicators of a node, across nodes, and of the layered routing.
  \<^item> \<open>Ygm_Mailbox\<close>, \<open>Ygm_Routes\<close> (ygm/comm\_exchanger.hpp, ygm/mailbox\_p2p\_*.hpp): exchanger, batches, message headers and the
    four routing schemes.  \<open>Ygm_Delivery\<close> is the locale of what a routing scheme promises, with delivery and draining proved from it;
    \<open>Ygm_Nlroute\<close>, \<open>Ygm_Nlnr\<close> and \<open>Ygm_Routes\<close> interpret it, \<open>Ygm_Properties\<close> states the results.
  \<^item> \<open>Collectives\<close> (mpi.hpp): the vector exchanges built on MPI, as plain transpositions and concatenations.  MPI itself is the
    record \<open>mpi_ops\<close> with the laws \<open>mpi_ok\<close>, instantiated by list functions in the witnesses.
  \<^item> \<open>Termination_Detection\<close> (termination\_detection.hpp): the object of one rank, its handlers and the channels between the ranks;
    \<open>Termination_Invariant\<close> (the wave up and down the tree), \<open>Termination_Counts\<close> (sums of counts), \<open>Termination_Safety\<close> (every handler
    keeps them), \<open>Termination_Properties\<close> and \<open>Termination_Liveness\<close> (the results).

  \<^bold>\<open>The graph.\<close>
  \<^item> \<open>Edge_Sources\<close> (rmat\_edge\_generator.hpp, and the iterator the edge sources share), \<open>Edge_List_Reader\<close>
    (parallel\_edge\_list\_reader.hpp, down to the characters), \<open>Kronecker_Generator\<close> (kronecker\_edge\_generator.hpp).
  \<^item> \<open>Preferential_Attachment\<close> (gen\_preferential\_attachment\_edge\_list.hpp, detail/preferential\_attachment.hpp): the generator of an edge
    and the rounds in which all ranks follow pointers to each other's edges; \<open>Attachment_Edges\<close> (machine words and the seed of the graph) and
    \<open>Attachment_Properties\<close> (the rounds end, in at most \<open>edge_scale\<close> steps, and give the edges of the sequential process).
  \<^item> \<open>Delegate_Graph\<close> (impl/delegate\_partitioned\_graph.ipp, impl/vertex\_iterator.hpp, impl/edge\_iterator.hpp, impl/vertex\_data.hpp,
    impl/edge\_data.hpp): the finished graph of one rank, its iterators, data and reductions.
  \<^item> \<open>Edge_Partitioner\<close> (impl/edge\_partitioner.hpp), \<open>Graph_Construction\<close> (the construction in delegate\_partitioned\_graph.ipp, all ranks
    in step): counting (\<open>Construction_Count\<close>), the tables (\<open>Construction_Meta\<close>), filling the rows (\<open>Construction_Fill\<close>,
    \<open>Construction_Low\<close>, \<open>Construction_High\<close>), the whole (\<open>Construction_Result\<close>, \<open>Construction_Properties\<close>) and what it means for a user of
    the graph (\<open>Constructed_Graph\<close>).

  \<^bold>\<open>Patterns.\<close>
  \<^item> \<open>Pattern_Graph\<close> (prunejuice/template.hpp): the constructor of the small graph that pattern matching looks for, from its files to its rows.
    It always reads past the end of its edge list; that read is where the model of it ends.

  \<^bold>\<open>Traversals.\<close>
  \<^item> \<open>Visitor_Queue\<close> (visitor\_queue.hpp): the loop of one rank and the interleaving of all of them; \<open>Visitor_Containers\<close>: the queues it
    is used with; \<open>Visitor_Runs\<close>: executable schedules; \<open>Visitor_Graph\<close>: the graph as a traversal sees it; \<open>Visitor_Weights\<close>: how
    much is left to do.
  \<^item> Relaxing visitors: the contract is the locale of \<open>Traversal\<close>, its theorems are in \<open>Traversal_Result\<close>, \<open>Traversal_Termination\<close> and
    \<open>Traversal_Start\<close>; \<open>Bfs\<close>, \<open>Sssp\<close> and \<open>Connected_Components\<close> interpret it.
  \<^item> \<open>Double_Arithmetic\<close>: IEEE doubles with their rounding, sums in an order that is left open (messages, MPI), and their error.
  \<^item> Delivering visitors: the contract and its theorems are in \<open>Traversal_Delivery\<close>; \<open>Page_Rank\<close> and the two traversals of
    triangle counting (\<open>Triangle_Count\<close> the model, \<open>Triangle_Edges\<close>, \<open>Triangle_Wedges\<close>, \<open>Triangle_Properties\<close>) interpret it.
  \<^item> \<open>Constructed_Search\<close> joins the layers: build a graph from a list of edges, search it, and get the distances in the list.

  \<^bold>\<open>How the code is modelled.\<close>  A class is a record, a method a function on it; failed assertions, thrown errors and undefined results are
  \<open>None\<close> (or an error value).  Ranks run as a step relation: any rank may take its next step, and a batch exchange happens when all ranks
  are in it, with its messages in any order; the results hold for every such schedule.  \<open>vq_reach\<close> is reachability, \<open>always_finishes\<close> says
  that there is no infinite run, that a run finishes, and that a run that cannot go on has finished.  Machine integers are words where
  they can wrap, and natural numbers where a hypothesis bounds them.

  \<^bold>\<open>Bounds.\<close>  \<open>construction_ok\<close>: fewer than \<open>2 ^ 21\<close> ranks, at most \<open>2 ^ 24\<close> hubs, counts and exchanged bytes below \<open>2 ^ 31\<close> (MPI counts
  are \<open>int\<close>).  Termination detection: fewer than \<open>2 ^ 64 - 1\<close> items.  Shortest paths: weights whose simple paths do not wrap.  Triangle
  counting: degrees below \<open>2 ^ 32\<close>.  Preferential attachment: fewer than \<open>2 ^ 31\<close> edges.  Loops that may not return take fuel: the edge iterators need more than twice the number of edges, and
  the chunk loops recurse on what is left of the edges, so they need none.

  \<^bold>\<open>Not modelled.\<close>  MPI, the file system and the random numbers are arguments.  Doubles are IEEE numbers in \<open>Page_Rank\<close>; the random numbers
  of the generators (\<open>Edge_Sources\<close>, \<open>Preferential_Attachment\<close>) and a square root and a logarithm there and in
  \<open>Kronecker_Generator\<close> are real numbers, which agrees with the code within the bounds of the theorems, except that the rounded up logarithm
  could be one less in the code for vertex counts just above a power of two from about \<open>2 ^ 49\<close> on.  Everything that is only printed or timed is left out.  mailbox.hpp and new\_mailbox.hpp are older mailboxes that only their rate
  tests use.  The databases (persistent memory through Boost or Metall), HDF5, cache advice, the command line drivers and the tests do
  input and output.  The pattern matching of prunejuice, ktruss\_unroll.hpp, the other triangle counts, the metadata algorithms
  and upper\_triangle\_edge\_generator.hpp (which starts from uninitialised fields) are further
  algorithms on the layers above.
\<close>

end
